(* ===== verification/Prelude.thy ===== *)
theory Prelude
  imports Main "HOL-Library.Word" "HOL-Library.Monad_Syntax"
begin

text \<open>
  What the components of the library share: the model's names for C's machine types, the memory
  primitives (\<^verbatim>\<open>memcpy\<close>, \<^verbatim>\<open>memmove\<close>, \<^verbatim>\<open>zrealloc\<close>) over byte lists with every
  out-of-range access a \<open>None\<close>, and the little-endian codec every compact encoding of
  \<^verbatim>\<open>redis-stable/src\<close> rests on, with the lemmas that carry the proofs.
\<close>

section \<open>Machine types\<close>

type_synonym byte = "8 word"

type_synonym bytes = "byte list"

text \<open>Ranges of the signed C types; a value of type \<^verbatim>\<open>intN_t\<close> is an \<open>int\<close> in its range.\<close>

definition in_sint :: "nat \<Rightarrow> int \<Rightarrow> bool" where
  "in_sint w v \<longleftrightarrow> - (2 ^ (w - 1)) \<le> v \<and> v < 2 ^ (w - 1)"

definition in_uint :: "nat \<Rightarrow> int \<Rightarrow> bool" where
  "in_uint w v \<longleftrightarrow> 0 \<le> v \<and> v < 2 ^ w"

abbreviation INT16_MIN :: int where "INT16_MIN \<equiv> - 32768"
abbreviation INT16_MAX :: int where "INT16_MAX \<equiv> 32767"
abbreviation INT32_MIN :: int where "INT32_MIN \<equiv> - 2147483648"
abbreviation INT32_MAX :: int where "INT32_MAX \<equiv> 2147483647"
abbreviation INT64_MIN :: int where "INT64_MIN \<equiv> - 9223372036854775808"
abbreviation INT64_MAX :: int where "INT64_MAX \<equiv> 9223372036854775807"
abbreviation UINT64_MAX :: int where "UINT64_MAX \<equiv> 18446744073709551615"

text \<open>Conversions to a \<open>w\<close>-bit type: modular for the unsigned ones, two's complement for the signed.\<close>

definition to_uint :: "nat \<Rightarrow> int \<Rightarrow> int" where
  "to_uint w v = v mod 2 ^ w"

definition to_sint :: "nat \<Rightarrow> int \<Rightarrow> int" where
  "to_sint w v = (v + 2 ^ (w - 1)) mod 2 ^ w - 2 ^ (w - 1)"

lemma to_uint_id [simp]: "0 \<le> v \<Longrightarrow> v < 2 ^ w \<Longrightarrow> to_uint w v = v"
  by (simp add: to_uint_def)

lemma to_uint_range: "in_uint w (to_uint w v)"
  by (simp add: in_uint_def to_uint_def)

lemma to_sint_id:
  assumes "0 < w" and "in_sint w v"
  shows "to_sint w v = v"
proof -
  have two: "(2::int) ^ w = 2 * 2 ^ (w - 1)"
    using assms(1) by (simp add: power_eq_if)
  have "0 \<le> v + 2 ^ (w - 1)" and "v + 2 ^ (w - 1) < 2 ^ w"
    using assms(2) two by (auto simp: in_sint_def)
  then show ?thesis by (simp add: to_sint_def)
qed

lemma to_sint_range: "0 < w \<Longrightarrow> in_sint w (to_sint w v)"
proof -
  assume "0 < w"
  then have two: "(2::int) ^ w = 2 * 2 ^ (w - 1)" by (simp add: power_eq_if)
  have "0 \<le> (v + 2 ^ (w - 1)) mod 2 ^ w" "(v + 2 ^ (w - 1)) mod 2 ^ w < 2 ^ w"
    by simp_all
  then show ?thesis using two by (simp add: to_sint_def in_sint_def)
qed

lemma to_sint_to_uint [simp]: "to_sint w (v mod 2 ^ w) = to_sint w v"
  by (simp add: to_sint_def mod_simps)

section \<open>Memory primitives\<close>

text \<open>
  A buffer is the list of its bytes. Reading or writing outside it is undefined behaviour in C and
  \<open>None\<close> here, so a theorem that an operation returns \<open>Some\<close> also says that it stays in bounds.
\<close>

definition read_bytes :: "bytes \<Rightarrow> nat \<Rightarrow> nat \<Rightarrow> bytes option" where
  "read_bytes bs off n =
     (if off + n \<le> length bs then Some (take n (drop off bs)) else None)"

definition write_bytes :: "bytes \<Rightarrow> nat \<Rightarrow> bytes \<Rightarrow> bytes option" where
  "write_bytes bs off ys =
     (if off + length ys \<le> length bs
      then Some (take off bs @ ys @ drop (off + length ys) bs) else None)"

definition move_bytes :: "bytes \<Rightarrow> nat \<Rightarrow> nat \<Rightarrow> nat \<Rightarrow> bytes option" where
  \<comment> \<open>\<^verbatim>\<open>memmove(bs+dst, bs+src, n)\<close>\<close>
  "move_bytes bs dst src n =
     (case read_bytes bs src n of None \<Rightarrow> None | Some ys \<Rightarrow> write_bytes bs dst ys)"

text \<open>
  \<^verbatim>\<open>zrealloc\<close> keeps the common prefix; what the allocator leaves in the new bytes is not specified
  and is the parameter \<open>junk\<close> of every definition that grows a buffer.
\<close>

definition realloc_bytes :: "(nat \<Rightarrow> byte) \<Rightarrow> bytes \<Rightarrow> nat \<Rightarrow> bytes" where
  "realloc_bytes junk bs n = take n bs @ map junk [length bs..<n]"

lemma length_realloc_bytes [simp]: "length (realloc_bytes junk bs n) = n"
  by (simp add: realloc_bytes_def)

lemma take_realloc_bytes [simp]:
  "k \<le> length bs \<Longrightarrow> k \<le> n \<Longrightarrow> take k (realloc_bytes junk bs n) = take k bs"
  by (simp add: realloc_bytes_def min_def)

lemma realloc_bytes_shrink [simp]:
  "n \<le> length bs \<Longrightarrow> realloc_bytes junk bs n = take n bs"
  by (simp add: realloc_bytes_def)

lemma length_write_bytes: "write_bytes bs off ys = Some cs \<Longrightarrow> length cs = length bs"
  by (auto simp: write_bytes_def split: if_splits)

lemma read_write_bytes_same:
  "write_bytes bs off ys = Some cs \<Longrightarrow> read_bytes cs off (length ys) = Some ys"
  by (auto simp: write_bytes_def read_bytes_def split: if_splits)

lemma slice_write_disjoint:
  assumes w: "write_bytes bs off ys = Some cs"
    and d: "a + n \<le> off \<or> off + length ys \<le> a"
  shows "take n (drop a cs) = take n (drop a bs)"
proof -
  from w have cs: "cs = take off bs @ ys @ drop (off + length ys) bs"
    and len: "off + length ys \<le> length bs"
    by (auto simp: write_bytes_def split: if_splits)
  from d show ?thesis
  proof
    assume "a + n \<le> off"
    then show ?thesis using len by (auto simp: cs drop_take min_def)
  next
    assume "off + length ys \<le> a"
    then show ?thesis using len by (simp add: cs min_def)
  qed
qed

lemma slice_write_same:
  "write_bytes bs off ys = Some cs \<Longrightarrow> take (length ys) (drop off cs) = ys"
  by (auto simp: write_bytes_def split: if_splits)

lemma take_write_bytes:
  "write_bytes bs off ys = Some cs \<Longrightarrow> k \<le> off \<Longrightarrow> take k cs = take k bs"
  by (auto simp: write_bytes_def min_def split: if_splits)

section \<open>The little-endian codec\<close>

text \<open>
  \<open>le_bytes n v\<close> is the memory image of the low \<open>n\<close> bytes of \<open>v\<close> after \<^verbatim>\<open>memrevNNifbe\<close>
  (endianconv.h), which makes it the same on every host; \<open>le_uint\<close> and \<open>le_sint\<close> read it back as
  an unsigned and as a two's complement integer.
\<close>

primrec le_bytes :: "nat \<Rightarrow> int \<Rightarrow> bytes" where
  "le_bytes 0 v = []"
| "le_bytes (Suc n) v = word_of_int v # le_bytes n (v div 256)"

primrec le_uint :: "bytes \<Rightarrow> int" where
  "le_uint [] = 0"
| "le_uint (b # bs) = uint b + 256 * le_uint bs"

definition le_sint :: "bytes \<Rightarrow> int" where
  "le_sint bs = to_sint (8 * length bs) (le_uint bs)"

lemma length_le_bytes [simp]: "length (le_bytes n v) = n"
  by (induction n arbitrary: v) simp_all

lemma le_uint_nonneg [simp]: "0 \<le> le_uint bs"
  by (induction bs) simp_all

lemma len8_256: "(2::int) ^ LENGTH(8) = 256"
  by simp

lemma uint_byte_less: "uint (b :: byte) < 256"
  using uint_lt2p [of b] by simp

lemma unat_byte_less: "unat (c :: byte) < 256"
proof -
  have "unat c < 2 ^ LENGTH(8)" by (rule unsigned_less)
  then show ?thesis by simp
qed

lemma le_uint_less: "le_uint bs < 2 ^ (8 * length bs)"
proof (induction bs)
  case Nil
  show ?case by simp
next
  case (Cons b bs)
  then have "le_uint bs + 1 \<le> 2 ^ (8 * length bs)" by simp
  moreover have "uint b < 256" by (rule uint_byte_less)
  ultimately have "uint b + 256 * le_uint bs < 256 * 2 ^ (8 * length bs)" by linarith
  then show ?case by (simp add: power_add)
qed

lemma le_uint_le_bytes: "le_uint (le_bytes n v) = v mod 2 ^ (8 * n)"
proof (induction n arbitrary: v)
  case 0
  show ?case by simp
next
  case (Suc n)
  have "v mod 2 ^ (8 * Suc n) = v mod (256 * 2 ^ (8 * n))"
    by (simp add: power_add)
  also have "\<dots> = 256 * (v div 256 mod 2 ^ (8 * n)) + v mod 256"
    by (simp add: zmod_zmult2_eq)
  finally show ?case
    by (simp add: Suc uint_word_of_int)
qed

lemma le_bytes_le_uint [simp]: "le_bytes (length bs) (le_uint bs) = bs"
proof (induction bs)
  case Nil
  show ?case by simp
next
  case (Cons b bs)
  have "uint (word_of_int (uint b + 256 * le_uint bs) :: byte) = (uint b + 256 * le_uint bs) mod 256"
    by (simp only: uint_word_of_int len8_256)
  then have "uint (word_of_int (uint b + 256 * le_uint bs) :: byte) = uint b"
    using uint_byte_less [of b] by simp
  then have "word_of_int (uint b + 256 * le_uint bs) = b"
    by (rule word_uint_eqI)
  moreover have "(uint b + 256 * le_uint bs) div 256 = le_uint bs"
    using uint_byte_less [of b] by simp
  ultimately show ?case using Cons by simp
qed

lemma le_uint_le_bytes_id: "0 \<le> v \<Longrightarrow> v < 2 ^ (8 * n) \<Longrightarrow> le_uint (le_bytes n v) = v"
  by (simp add: le_uint_le_bytes)

lemma le_sint_le_bytes: "le_sint (le_bytes n v) = to_sint (8 * n) v"
  by (simp add: le_sint_def le_uint_le_bytes)

lemma le_sint_le_bytes_id:
  "0 < n \<Longrightarrow> in_sint (8 * n) v \<Longrightarrow> le_sint (le_bytes n v) = v"
  by (simp add: le_sint_le_bytes to_sint_id)

lemma le_sint_range: "bs \<noteq> [] \<Longrightarrow> in_sint (8 * length bs) (le_sint bs)"
  by (simp add: le_sint_def to_sint_range)

end
