(* ===== verification/Set_Interface.thy ===== *)
theory Set_Interface
  imports Prelude
begin

text \<open>
  The contract of a mutable finite set, as the callers of \<^verbatim>\<open>intset.c\<close> rely on it: an operation
  never fails on a well-formed set with room left, reports whether it changed the set, and has the
  effect of the mathematical operation. The client lemma is proved once, for every sequence of
  operations.
\<close>

datatype 'a set_op = SAdd 'a | SRem 'a | SFind 'a

fun run_set_ops ::
    "('s \<Rightarrow> 'a \<Rightarrow> ('s \<times> bool) option) \<Rightarrow> ('s \<Rightarrow> 'a \<Rightarrow> ('s \<times> bool) option) \<Rightarrow> ('s \<Rightarrow> 'a \<Rightarrow> bool option) \<Rightarrow>
     's \<Rightarrow> 'a set_op list \<Rightarrow> ('s \<times> bool list) option" where
  "run_set_ops add rem mem s [] = Some (s, [])"
| "run_set_ops add rem mem s (op # ops) = do {
     (s', b) \<leftarrow> (case op of SAdd x \<Rightarrow> add s x | SRem x \<Rightarrow> rem s x
                 | SFind x \<Rightarrow> map_option (Pair s) (mem s x));
     (s'', bs) \<leftarrow> run_set_ops add rem mem s' ops;
     Some (s'', b # bs)
   }"

fun spec_set_ops :: "'a set \<Rightarrow> 'a set_op list \<Rightarrow> 'a set \<times> bool list" where
  "spec_set_ops S [] = (S, [])"
| "spec_set_ops S (SAdd x # ops) =
     (let (S', bs) = spec_set_ops (insert x S) ops in (S', (x \<notin> S) # bs))"
| "spec_set_ops S (SRem x # ops) =
     (let (S', bs) = spec_set_ops (S - {x}) ops in (S', (x \<in> S) # bs))"
| "spec_set_ops S (SFind x # ops) =
     (let (S', bs) = spec_set_ops S ops in (S', (x \<in> S) # bs))"

fun op_adds :: "'a set_op \<Rightarrow> nat" where
  "op_adds (SAdd x) = 1"
| "op_adds _ = 0"

fun op_arg :: "'a set_op \<Rightarrow> 'a" where
  "op_arg (SAdd x) = x"
| "op_arg (SRem x) = x"
| "op_arg (SFind x) = x"

locale finite_set_impl =
  fixes inv :: "'s \<Rightarrow> bool"
    and members :: "'s \<Rightarrow> 'a set"
    and size_of :: "'s \<Rightarrow> nat"
    and cap :: nat
    and valid :: "'a \<Rightarrow> bool"
    and new :: 's
    and add :: "'s \<Rightarrow> 'a \<Rightarrow> ('s \<times> bool) option"
    and rem :: "'s \<Rightarrow> 'a \<Rightarrow> ('s \<times> bool) option"
    and mem :: "'s \<Rightarrow> 'a \<Rightarrow> bool option"
  assumes inv_new: "inv new"
    and members_new: "members new = {}"
    and size_new: "size_of new = 0"
    and add_law: "inv s \<Longrightarrow> valid x \<Longrightarrow> size_of s < cap \<Longrightarrow>
      \<exists>s'. add s x = Some (s', x \<notin> members s) \<and> inv s' \<and> members s' = insert x (members s) \<and>
        size_of s' \<le> size_of s + 1"
    and rem_law: "inv s \<Longrightarrow> valid x \<Longrightarrow>
      \<exists>s'. rem s x = Some (s', x \<in> members s) \<and> inv s' \<and> members s' = members s - {x} \<and>
        size_of s' \<le> size_of s"
    and find_law: "inv s \<Longrightarrow> valid x \<Longrightarrow> mem s x = Some (x \<in> members s)"
begin

lemma find_after_add:
  assumes "inv s" "valid x" "valid y" "size_of s < cap" "add s x = Some (s', b)"
  shows "mem s' y = Some (y = x \<or> y \<in> members s)"
  using add_law [OF assms(1,2,4)] find_law [OF _ assms(3)] assms(5) by force

lemma find_after_rem:
  assumes "inv s" "valid x" "valid y" "rem s x = Some (s', b)"
  shows "mem s' y = Some (y \<noteq> x \<and> y \<in> members s)"
  using rem_law [OF assms(1,2)] find_law [OF _ assms(3)] assms(4) by force

lemma run_simulates:
  "inv s \<Longrightarrow> \<forall>op \<in> set ops. valid (op_arg op) \<Longrightarrow> size_of s + sum_list (map op_adds ops) \<le> cap \<Longrightarrow>
   \<exists>s'. run_set_ops add rem mem s ops = Some (s', snd (spec_set_ops (members s) ops)) \<and> inv s' \<and>
     members s' = fst (spec_set_ops (members s) ops)"
proof (induction ops arbitrary: s)
  case Nil
  then show ?case by simp
next
  case (Cons op ops)
  show ?case
  proof (cases op)
    case (SAdd x)
    then obtain s1 where s1: "add s x = Some (s1, x \<notin> members s)" "inv s1"
      "members s1 = insert x (members s)" "size_of s1 \<le> size_of s + 1"
      using add_law [of s x] Cons.prems by auto
    then show ?thesis using Cons.IH [of s1] Cons.prems SAdd by (auto split: prod.splits)
  next
    case (SRem x)
    then obtain s1 where s1: "rem s x = Some (s1, x \<in> members s)" "inv s1"
      "members s1 = members s - {x}" "size_of s1 \<le> size_of s"
      using rem_law [of s x] Cons.prems by auto
    then show ?thesis using Cons.IH [of s1] Cons.prems SRem by (auto split: prod.splits)
  next
    case (SFind x)
    then show ?thesis using Cons.IH [of s] Cons.prems find_law [of s x] by (auto split: prod.splits)
  qed
qed

end

end
