(* ===== verification/Intset.thy ===== *)
theory Intset
  imports Set_Interface
begin

text \<open>
  The sorted integer set of \<^verbatim>\<open>intset.c\<close>: one buffer of 2-, 4- or 8-byte little-endian integers,
  all of the width the header's \<open>encoding\<close> names, searched by bisection and re-encoded in place,
  back to front, when a value does not fit the current width.

  The model works on the buffer's bytes. An \<open>intset\<close> pointer is the record, the \<^verbatim>\<open>success\<close> and
  \<^verbatim>\<open>pos\<close> out-parameters are components of the result, and \<open>None\<close> is a failed assertion or an
  access outside the allocation. Section 2 abstracts the bytes to the list of members; section 3
  shows that every operation is safe, keeps the invariant and implements the operations of a
  finite set of integers.
\<close>

section \<open>The implementation\<close>

record intset =
  is_encoding :: nat
  is_length :: nat
  is_contents :: bytes

definition INTSET_ENC_INT16 :: nat where "INTSET_ENC_INT16 = 2"
definition INTSET_ENC_INT32 :: nat where "INTSET_ENC_INT32 = 4"
definition INTSET_ENC_INT64 :: nat where "INTSET_ENC_INT64 = 8"

definition intset_header_size :: nat where
  \<comment> \<open>\<^verbatim>\<open>sizeof(intset)\<close>: the two 32-bit header fields\<close>
  "intset_header_size = 8"

definition SIZE_MAX :: nat where
  "SIZE_MAX = 2 ^ 64 - 1"

definition u_intsetValueEncoding :: "int \<Rightarrow> nat" where
  "u_intsetValueEncoding v =
     (if v < INT32_MIN \<or> v > INT32_MAX then INTSET_ENC_INT64
      else if v < INT16_MIN \<or> v > INT16_MAX then INTSET_ENC_INT32
      else INTSET_ENC_INT16)"

definition enc_width :: "nat \<Rightarrow> nat" where
  \<comment> \<open>the width the three-way branch on the encoding selects\<close>
  "enc_width enc =
     (if enc = INTSET_ENC_INT64 then 8 else if enc = INTSET_ENC_INT32 then 4 else 2)"

definition u_intsetGetEncoded :: "intset \<Rightarrow> int \<Rightarrow> nat \<Rightarrow> int option" where
  "u_intsetGetEncoded is pos enc =
     (if pos < 0 then None
      else map_option le_sint
        (read_bytes (is_contents is) (nat pos * enc_width enc) (enc_width enc)))"

definition u_intsetGet :: "intset \<Rightarrow> int \<Rightarrow> int option" where
  "u_intsetGet is pos = u_intsetGetEncoded is pos (is_encoding is)"

definition u_intsetSet :: "intset \<Rightarrow> int \<Rightarrow> int \<Rightarrow> intset option" where
  "u_intsetSet is pos value =
     (let w = enc_width (is_encoding is) in
      if pos < 0 then None
      else map_option (\<lambda>bs. is\<lparr>is_contents := bs\<rparr>)
        (write_bytes (is_contents is) (nat pos * w) (le_bytes w value)))"

definition intsetNew :: intset where
  "intsetNew = \<lparr>is_encoding = INTSET_ENC_INT16, is_length = 0, is_contents = []\<rparr>"

definition intsetAllocSize :: "intset \<Rightarrow> nat option" where
  "intsetAllocSize is =
     (let size = is_length is * is_encoding is in
      if size \<le> SIZE_MAX - intset_header_size then Some (intset_header_size + size) else None)"

definition intsetResize :: "(nat \<Rightarrow> byte) \<Rightarrow> intset \<Rightarrow> nat \<Rightarrow> intset option" where
  "intsetResize junk is len =
     (let size = len * is_encoding is in
      if size \<le> SIZE_MAX - intset_header_size
      then Some (is\<lparr>is_contents := realloc_bytes junk (is_contents is) size\<rparr>) else None)"

text \<open>
  The bisection loop, over the C locals \<^verbatim>\<open>min\<close>, \<^verbatim>\<open>max\<close>, \<^verbatim>\<open>mid\<close> and \<^verbatim>\<open>cur\<close>; the result is their
  values at the loop's exit. \<open>None\<close> is a read outside the buffer, or no exit at all.
\<close>

partial_function (option) intsetSearch_loop ::
    "intset \<Rightarrow> int \<Rightarrow> int \<Rightarrow> int \<Rightarrow> int \<Rightarrow> int \<Rightarrow> (int \<times> int \<times> int) option" where
  "intsetSearch_loop is value imin imax mid cur =
     (if imax \<ge> imin
      then (let mid = ((imin mod 2 ^ 32 + imax mod 2 ^ 32) mod 2 ^ 32) div 2
            in do {
              cur \<leftarrow> u_intsetGet is mid;
              if value > cur then intsetSearch_loop is value (mid + 1) imax mid cur
              else if value < cur then intsetSearch_loop is value imin (mid - 1) mid cur
              else Some (imin, mid, cur)
            })
      else Some (imin, mid, cur))"

definition intsetSearch :: "intset \<Rightarrow> int \<Rightarrow> (bool \<times> nat) option" where
  "intsetSearch is value =
     (let len = is_length is; imax = to_sint 32 (int len - 1) in
      if len = 0 then Some (False, 0)
      else do {
        last \<leftarrow> u_intsetGet is imax;
        if value > last then Some (False, len)
        else do {
          first \<leftarrow> u_intsetGet is 0;
          if value < first then Some (False, 0)
          else do {
            (imin, mid, cur) \<leftarrow> intsetSearch_loop is value 0 imax (- 1) (- 1);
            if value = cur then Some (True, nat (mid mod 2 ^ 32))
            else Some (False, nat (imin mod 2 ^ 32))
          }
        }
      })"

primrec upgrade_loop :: "intset \<Rightarrow> nat \<Rightarrow> nat \<Rightarrow> nat \<Rightarrow> intset option" where
  "upgrade_loop is prepend curenc 0 = Some is"
| "upgrade_loop is prepend curenc (Suc len) = do {
     v \<leftarrow> u_intsetGetEncoded is (int len) curenc;
     is' \<leftarrow> u_intsetSet is (int (len + prepend)) v;
     upgrade_loop is' prepend curenc len
   }"

text \<open>
  The loop's counter is a C \<^verbatim>\<open>int\<close>: a length beyond \<open>INT32_MAX\<close> makes it negative, and the first
  access is then out of bounds.
\<close>

definition intsetUpgradeAndAdd :: "(nat \<Rightarrow> byte) \<Rightarrow> intset \<Rightarrow> int \<Rightarrow> intset option" where
  "intsetUpgradeAndAdd junk is value =
     (let curenc = is_encoding is; newenc = u_intsetValueEncoding value;
          prepend = (if value < 0 then 1 else 0) in
      if int (is_length is) > INT32_MAX then None
      else do {
        is1 \<leftarrow> intsetResize junk (is\<lparr>is_encoding := newenc\<rparr>) ((is_length is + 1) mod 2 ^ 32);
        is2 \<leftarrow> upgrade_loop is1 prepend curenc (is_length is);
        is3 \<leftarrow> (if prepend = 1 then u_intsetSet is2 0 value
                else u_intsetSet is2 (to_sint 32 (int (is_length is2))) value);
        Some (is3\<lparr>is_length := (is_length is3 + 1) mod 2 ^ 32\<rparr>)
      })"

definition intsetMoveTail :: "intset \<Rightarrow> nat \<Rightarrow> nat \<Rightarrow> intset option" where
  "intsetMoveTail is from to =
     (let w = enc_width (is_encoding is);
          n = nat ((int (is_length is) - int from) mod 2 ^ 32);
          cnt = (n * w) mod 2 ^ 32 in
      map_option (\<lambda>bs. is\<lparr>is_contents := bs\<rparr>)
        (move_bytes (is_contents is) (to * w) (from * w) cnt))"

definition intsetAdd :: "(nat \<Rightarrow> byte) \<Rightarrow> intset \<Rightarrow> int \<Rightarrow> (intset \<times> bool) option" where
  "intsetAdd junk is value =
     (if u_intsetValueEncoding value > is_encoding is
      then do { is' \<leftarrow> intsetUpgradeAndAdd junk is value; Some (is', True) }
      else do {
        (found, pos) \<leftarrow> intsetSearch is value;
        if found then Some (is, False)
        else do {
          is1 \<leftarrow> intsetResize junk is ((is_length is + 1) mod 2 ^ 32);
          is2 \<leftarrow> (if pos < is_length is1 then intsetMoveTail is1 pos ((pos + 1) mod 2 ^ 32)
                  else Some is1);
          is3 \<leftarrow> u_intsetSet is2 (to_sint 32 (int pos)) value;
          Some (is3\<lparr>is_length := (is_length is3 + 1) mod 2 ^ 32\<rparr>, True)
        }
      })"

definition intsetRemove :: "(nat \<Rightarrow> byte) \<Rightarrow> intset \<Rightarrow> int \<Rightarrow> (intset \<times> bool) option" where
  "intsetRemove junk is value =
     (if u_intsetValueEncoding value \<le> is_encoding is
      then do {
        (found, pos) \<leftarrow> intsetSearch is value;
        if found
        then do {
          let len = is_length is;
          is1 \<leftarrow> (if int pos < (int len - 1) mod 2 ^ 32
                  then intsetMoveTail is ((pos + 1) mod 2 ^ 32) pos else Some is);
          is2 \<leftarrow> intsetResize junk is1 (nat ((int len - 1) mod 2 ^ 32));
          Some (is2\<lparr>is_length := nat ((int len - 1) mod 2 ^ 32)\<rparr>, True)
        }
        else Some (is, False)
      }
      else Some (is, False))"

definition intsetFind :: "intset \<Rightarrow> int \<Rightarrow> bool option" where
  "intsetFind is value =
     (if u_intsetValueEncoding value \<le> is_encoding is
      then map_option fst (intsetSearch is value) else Some False)"

definition intsetRandom :: "int \<Rightarrow> intset \<Rightarrow> int option" where
  \<comment> \<open>\<open>r\<close> is what \<^verbatim>\<open>rand()\<close> returned: a non-negative \<^verbatim>\<open>int\<close>\<close>
  "intsetRandom r is =
     (if is_length is = 0 then None
      else u_intsetGet is (to_sint 32 ((r mod 2 ^ 32) mod int (is_length is))))"

definition intsetMax :: "intset \<Rightarrow> int option" where
  "intsetMax is = u_intsetGet is (to_sint 32 (int (is_length is) - 1))"

definition intsetMin :: "intset \<Rightarrow> int option" where
  "intsetMin is = u_intsetGet is 0"

text \<open>\<^verbatim>\<open>intsetGet\<close>: the outer option is the access, the inner one the 0/1 result.\<close>

definition intsetGet :: "intset \<Rightarrow> nat \<Rightarrow> int option option" where
  "intsetGet is pos =
     (if pos < is_length is
      then map_option Some (u_intsetGet is (to_sint 32 (int pos))) else Some None)"

definition intsetLen :: "intset \<Rightarrow> nat" where
  "intsetLen is = is_length is"

definition intsetBlobLen :: "intset \<Rightarrow> nat" where
  "intsetBlobLen is = intset_header_size + is_length is * is_encoding is"

text \<open>The struct as the bytes at its address, and the struct seen at an address (the cast \<^verbatim>\<open>(intset*)p\<close>).\<close>

definition intset_blob :: "intset \<Rightarrow> bytes" where
  "intset_blob is =
     le_bytes 4 (int (is_encoding is)) @ le_bytes 4 (int (is_length is)) @ is_contents is"

definition intset_of_blob :: "bytes \<Rightarrow> intset" where
  "intset_of_blob p =
     \<lparr>is_encoding = nat (le_uint (take 4 p)), is_length = nat (le_uint (take 4 (drop 4 p))),
      is_contents = drop 8 p\<rparr>"

primrec validate_loop :: "intset \<Rightarrow> int \<Rightarrow> nat \<Rightarrow> nat \<Rightarrow> bool option" where
  \<comment> \<open>the loop \<^verbatim>\<open>for (i = ...; i < count; i++)\<close>; the last argument is \<open>count - i\<close>\<close>
  "validate_loop is prev i 0 = Some True"
| "validate_loop is prev i (Suc n) = do {
     cur \<leftarrow> u_intsetGet is (to_sint 32 (int i));
     if cur \<le> prev then Some False else validate_loop is cur (i + 1) n
   }"

definition intsetValidateIntegrity :: "bytes \<Rightarrow> bool \<Rightarrow> bool option" where
  \<comment> \<open>\<open>p\<close> are the \<^verbatim>\<open>size\<close> bytes at the pointer\<close>
  "intsetValidateIntegrity p deep =
     (if length p < intset_header_size then Some False
      else
        let is = intset_of_blob p; encoding = is_encoding is; count = is_length is in
        if encoding \<notin> {INTSET_ENC_INT64, INTSET_ENC_INT32, INTSET_ENC_INT16} then Some False
        else if intset_header_size + count * encoding \<noteq> length p then Some False
        else if count = 0 then Some False
        else if \<not> deep then Some True
        else do {
          prev \<leftarrow> u_intsetGet is 0;
          validate_loop is prev 1 (count - 1)
        })"


section \<open>From bytes to members\<close>

text \<open>\<open>cells w bs\<close> reads a buffer as consecutive signed integers of \<open>w\<close> bytes.\<close>

definition cells :: "nat \<Rightarrow> bytes \<Rightarrow> int list" where
  "cells w bs = map (\<lambda>i. le_sint (take w (drop (i * w) bs))) [0..<length bs div w]"

definition intset_vals :: "intset \<Rightarrow> int list" where
  "intset_vals is = cells (is_encoding is) (is_contents is)"

text \<open>
  The largest member count the 32-bit arithmetic of \<open>intsetMoveTail\<close> supports: one more 8-byte
  member and its byte count \<^verbatim>\<open>uint32_t bytes\<close> would wrap around.
\<close>

definition INTSET_MAX_LEN :: nat where
  "INTSET_MAX_LEN = 2 ^ 29 - 1"

definition intset_layout :: "intset \<Rightarrow> bool" where
  "intset_layout is \<longleftrightarrow> is_encoding is \<in> {2, 4, 8} \<and>
     length (is_contents is) = is_length is * is_encoding is \<and> is_length is \<le> INTSET_MAX_LEN"

definition intset_wf :: "intset \<Rightarrow> bool" where
  "intset_wf is \<longleftrightarrow> intset_layout is \<and> sorted_wrt (<) (intset_vals is)"

lemma enc_width_id: "e \<in> {2, 4, 8} \<Longrightarrow> enc_width e = e"
  by (auto simp: enc_width_def INTSET_ENC_INT64_def INTSET_ENC_INT32_def)

lemma length_cells [simp]: "length bs = n * w \<Longrightarrow> 0 < w \<Longrightarrow> length (cells w bs) = n"
  by (simp add: cells_def)

lemma cells_nth:
  "length bs = n * w \<Longrightarrow> 0 < w \<Longrightarrow> i < n \<Longrightarrow> cells w bs ! i = le_sint (take w (drop (i * w) bs))"
  by (simp add: cells_def)

lemma cell_end: "i < (n::nat) \<Longrightarrow> i * w + w \<le> n * w"
  by (metis Suc_leI add.commute mult_Suc mult_le_mono1)

lemma cells_append:
  assumes "length xs = k * w" and "length ys = m * w" and "0 < w"
  shows "cells w (xs @ ys) = cells w xs @ cells w ys"
proof (rule nth_equalityI)
  have len: "length (xs @ ys) = (k + m) * w" using assms by (simp add: add_mult_distrib)
  show "length (cells w (xs @ ys)) = length (cells w xs @ cells w ys)"
    using length_cells [OF len assms(3)] assms by simp
  fix i
  assume "i < length (cells w (xs @ ys))"
  then have i: "i < k + m" using length_cells [OF len assms(3)] by simp
  show "cells w (xs @ ys) ! i = (cells w xs @ cells w ys) ! i"
  proof (cases "i < k")
    case True
    then have "i * w + w \<le> k * w" by (rule cell_end)
    then show ?thesis
      using True assms i by (simp add: cells_nth [OF len] cells_nth [OF assms(1)] nth_append)
  next
    case False
    then have "i * w - k * w = (i - k) * w" and "k * w \<le> i * w"
      by (simp_all add: diff_mult_distrib)
    then show ?thesis
      using False assms i by (simp add: cells_nth [OF len] cells_nth [OF assms(2)] nth_append)
  qed
qed

lemma cells_split:
  assumes "length bs = n * w" and "0 < w" and "k \<le> n"
  shows "cells w (take (k * w) bs) = take k (cells w bs)"
    and "cells w (drop (k * w) bs) = drop k (cells w bs)"
proof -
  have kn: "k * w \<le> n * w" using assms(3) by simp
  have t: "length (take (k * w) bs) = k * w" using assms kn by simp
  have d: "length (drop (k * w) bs) = (n - k) * w" using assms by (simp add: diff_mult_distrib)
  have "cells w bs = cells w (take (k * w) bs) @ cells w (drop (k * w) bs)"
    using cells_append [OF t d assms(2)] by simp
  moreover have "length (cells w (take (k * w) bs)) = k"
    using length_cells [OF t assms(2)] .
  ultimately show "cells w (take (k * w) bs) = take k (cells w bs)"
    and "cells w (drop (k * w) bs) = drop k (cells w bs)"
    by simp_all
qed

lemma cells_le_bytes: "0 < w \<Longrightarrow> in_sint (8 * w) v \<Longrightarrow> cells w (le_bytes w v) = [v]"
  by (simp add: cells_def le_sint_le_bytes_id)

lemma cells_in_range:
  assumes "length bs = n * w" and "0 < w" and "v \<in> set (cells w bs)"
  shows "in_sint (8 * w) v"
proof -
  from assms obtain i where i: "i < n" and v: "v = le_sint (take w (drop (i * w) bs))"
    by (auto simp: cells_def)
  have "length (take w (drop (i * w) bs)) = w"
    using assms cell_end [OF i, of w] by simp
  then show ?thesis using v assms(2) le_sint_range [of "take w (drop (i * w) bs)"] by force
qed

lemma cells_write:
  assumes len: "length bs = n * w" and w: "0 < w" and i: "i < n" and v: "in_sint (8 * w) v"
  obtains cs where "write_bytes bs (i * w) (le_bytes w v) = Some cs"
    and "length cs = n * w" and "cells w cs = (cells w bs)[i := v]"
proof
  let ?cs = "take (i * w) bs @ le_bytes w v @ drop (Suc i * w) bs"
  have iw: "i * w + w \<le> n * w" using i by (rule cell_end)
  show "write_bytes bs (i * w) (le_bytes w v) = Some ?cs"
    using len iw by (simp add: write_bytes_def add.commute)
  show "length ?cs = n * w" using len iw by simp
  have 1: "length (take (i * w) bs) = i * w" using len iw by simp
  have 2: "length (drop (Suc i * w) bs) = (n - Suc i) * w"
    using len by (simp add: diff_mult_distrib)
  have 3: "length (le_bytes w v @ drop (Suc i * w) bs) = (n - i) * w"
    using 2 i by (simp add: Suc_diff_Suc [symmetric] flip: mult_Suc)
  have 4: "length (le_bytes w v) = 1 * w" by simp
  have "cells w ?cs = take i (cells w bs) @ [v] @ drop (Suc i) (cells w bs)"
    using cells_append [OF 1 3 w] cells_append [OF 4 2 w] cells_le_bytes [OF w v]
      cells_split(1) [OF len w, of i] cells_split(2) [OF len w, of "Suc i"] i by simp
  also have "\<dots> = (cells w bs)[i := v]"
    using i length_cells [OF len w] by (simp add: upd_conv_take_nth_drop)
  finally show "cells w ?cs = (cells w bs)[i := v]" .
qed

lemma cells_move:
  assumes len: "length bs = n * w" and w: "0 < w" and s: "src + k \<le> n" and d: "dst + k \<le> n"
  obtains cs where "move_bytes bs (dst * w) (src * w) (k * w) = Some cs"
    and "length cs = n * w"
    and "cells w cs = take dst (cells w bs) @ take k (drop src (cells w bs)) @ drop (dst + k) (cells w bs)"
proof
  let ?ys = "take (k * w) (drop (src * w) bs)"
  let ?cs = "take (dst * w) bs @ ?ys @ drop ((dst + k) * w) bs"
  have sw: "src * w + k * w \<le> n * w" and dw: "dst * w + k * w \<le> n * w"
    using s d by (metis add_mult_distrib mult_le_mono1)+
  have ys: "length ?ys = k * w" using len sw by simp
  show "move_bytes bs (dst * w) (src * w) (k * w) = Some ?cs"
    using len sw dw by (simp add: move_bytes_def read_bytes_def write_bytes_def add_mult_distrib)
  show "length ?cs = n * w" using len sw dw by (simp add: add_mult_distrib)
  have 1: "length (take (dst * w) bs) = dst * w" using len dw by simp
  have 2: "length (drop ((dst + k) * w) bs) = (n - (dst + k)) * w"
    using len by (simp add: diff_mult_distrib)
  have 3: "length (?ys @ drop ((dst + k) * w) bs) = (n - dst) * w"
    using ys 2 d by (simp add: add_mult_distrib [symmetric])
  have 4: "length (drop (src * w) bs) = (n - src) * w" using len by (simp add: diff_mult_distrib)
  have "cells w ?ys = take k (drop src (cells w bs))"
    using cells_split(1) [OF 4 w, of k] cells_split(2) [OF len w, of src] s by simp
  then show "cells w ?cs = take dst (cells w bs) @ take k (drop src (cells w bs)) @ drop (dst + k) (cells w bs)"
    using cells_append [OF 1 3 w] cells_append [OF ys 2 w]
      cells_split(1) [OF len w, of dst] cells_split(2) [OF len w, of "dst + k"] d by simp
qed


section \<open>Every operation is safe and implements the set operation\<close>

lemma intset_layout_enc:
  "intset_layout is \<Longrightarrow> is_encoding is \<in> {2, 4, 8}"
  "intset_layout is \<Longrightarrow> 0 < is_encoding is"
  "intset_layout is \<Longrightarrow> length (is_contents is) = is_length is * is_encoding is"
  "intset_layout is \<Longrightarrow> enc_width (is_encoding is) = is_encoding is"
  "intset_layout is \<Longrightarrow> is_length is < 2 ^ 29"
  by (auto simp: intset_layout_def enc_width_id INTSET_MAX_LEN_def)

lemma length_intset_vals [simp]: "intset_layout is \<Longrightarrow> length (intset_vals is) = is_length is"
  by (simp add: intset_vals_def intset_layout_enc)

lemma get_encoded_cells:
  assumes "length (is_contents is) = n * w" and "w \<in> {2, 4, 8}" and "i < n"
  shows "u_intsetGetEncoded is (int i) w = Some (cells w (is_contents is) ! i)"
proof -
  have "i * w + w \<le> n * w" using assms(3) by (rule cell_end)
  then show ?thesis
    using assms cells_nth [OF assms(1) _ assms(3)]
    by (auto simp: u_intsetGetEncoded_def read_bytes_def enc_width_id)
qed

lemma get_vals:
  "intset_layout is \<Longrightarrow> i < is_length is \<Longrightarrow> u_intsetGet is (int i) = Some (intset_vals is ! i)"
  using get_encoded_cells [OF intset_layout_enc(3) intset_layout_enc(1)]
  by (simp add: u_intsetGet_def intset_vals_def)

lemma get_vals_int:
  "intset_layout is \<Longrightarrow> 0 \<le> i \<Longrightarrow> i < int (is_length is) \<Longrightarrow>
   u_intsetGet is i = Some (intset_vals is ! nat i)"
  using get_vals [of "is" "nat i"] by simp

lemma set_cells:
  assumes "length (is_contents is) = n * is_encoding is" and "is_encoding is \<in> {2, 4, 8}"
    and "i < n" and "in_sint (8 * is_encoding is) v"
  obtains cs where "u_intsetSet is (int i) v = Some (is\<lparr>is_contents := cs\<rparr>)"
    and "length cs = n * is_encoding is"
    and "cells (is_encoding is) cs = (cells (is_encoding is) (is_contents is))[i := v]"
proof -
  have w: "0 < is_encoding is" using assms(2) by auto
  obtain cs where "write_bytes (is_contents is) (i * is_encoding is) (le_bytes (is_encoding is) v) = Some cs"
    and "length cs = n * is_encoding is"
    and "cells (is_encoding is) cs = (cells (is_encoding is) (is_contents is))[i := v]"
    using cells_write [OF assms(1) w assms(3,4)] .
  then show ?thesis
    using that assms(2) by (simp add: u_intsetSet_def enc_width_id)
qed

lemma set_writes:
  assumes "u_intsetSet is (int i) v = Some is'" and "is_encoding is \<in> {2, 4, 8}"
  shows "write_bytes (is_contents is) (i * is_encoding is) (le_bytes (is_encoding is) v) =
    Some (is_contents is')"
  using assms by (auto simp: u_intsetSet_def enc_width_id)

subsection \<open>Search\<close>

lemma to_sint_32: "0 \<le> v \<Longrightarrow> v < 2 ^ 31 \<Longrightarrow> to_sint 32 v = v"
  by (rule to_sint_id) (auto simp: in_sint_def)

lemma mid_bounds:
  assumes "0 \<le> lo" and "lo \<le> hi" and "hi < (2::int) ^ 31"
  shows "((lo mod 2 ^ 32 + hi mod 2 ^ 32) mod 2 ^ 32) div 2 = (lo + hi) div 2"
    and "lo \<le> (lo + hi) div 2" and "(lo + hi) div 2 \<le> hi"
  using assms by (auto simp: mod_pos_pos_trivial)

lemma intsetSearch_loop_correct:
  assumes lay: "intset_layout is" and srt: "sorted_wrt (<) (intset_vals is)"
  shows "0 \<le> lo \<Longrightarrow> hi < int (is_length is) \<Longrightarrow> lo \<le> hi + 1 \<Longrightarrow>
    (\<forall>i < nat lo. intset_vals is ! i < v) \<Longrightarrow>
    (\<forall>i < is_length is. hi < int i \<longrightarrow> v < intset_vals is ! i) \<Longrightarrow>
    cur \<noteq> v \<or> lo \<le> hi \<Longrightarrow>
    \<exists>lo' mid' cur'. intsetSearch_loop is v lo hi mid cur = Some (lo', mid', cur') \<and>
      (cur' = v \<and> 0 \<le> mid' \<and> mid' < int (is_length is) \<and> intset_vals is ! nat mid' = v \<or>
       cur' \<noteq> v \<and> 0 \<le> lo' \<and> lo' \<le> int (is_length is) \<and> (\<forall>i < nat lo'. intset_vals is ! i < v) \<and>
       (\<forall>i < is_length is. lo' \<le> int i \<longrightarrow> v < intset_vals is ! i))"
proof (induction "nat (hi - lo + 1)" arbitrary: lo hi mid cur rule: less_induct)
  case less
  let ?xs = "intset_vals is"
  show ?case
  proof (cases "lo \<le> hi")
    case False
    with less.prems show ?thesis
      by (auto simp: intsetSearch_loop.simps)
  next
    case True
    have n31: "hi < 2 ^ 31" using less.prems(2) intset_layout_enc(5) [OF lay] by simp
    define m where "m = (lo + hi) div 2"
    have m: "lo \<le> m" "m \<le> hi" and
      mid: "((lo mod 2 ^ 32 + hi mod 2 ^ 32) mod 2 ^ 32) div 2 = m"
      using mid_bounds [OF less.prems(1) True n31] by (simp_all add: m_def)
    have get: "u_intsetGet is m = Some (?xs ! nat m)"
      using m less.prems by (intro get_vals_int [OF lay]) auto
    have unf: "intsetSearch_loop is v lo hi mid cur =
       (if v > ?xs ! nat m then intsetSearch_loop is v (m + 1) hi m (?xs ! nat m)
        else if v < ?xs ! nat m then intsetSearch_loop is v lo (m - 1) m (?xs ! nat m)
        else Some (lo, m, ?xs ! nat m))"
      by (subst intsetSearch_loop.simps) (simp only: True if_True Let_def mid get Option.bind.simps)
    have mono: "?xs ! i < ?xs ! j" if "i < j" "j < is_length is" for i j
      using srt that lay by (simp add: sorted_wrt_iff_nth_less)
    consider "v > ?xs ! nat m" | "v < ?xs ! nat m" | "v = ?xs ! nat m" by linarith
    then show ?thesis
    proof cases
      case 1
      have low: "\<forall>i < nat (m + 1). ?xs ! i < v"
      proof (intro allI impI)
        fix i assume "i < nat (m + 1)"
        then have "i < nat m \<or> i = nat m" using m less.prems(1) by linarith
        then show "?xs ! i < v"
          using 1 mono [of i "nat m"] m less.prems(1,2) by fastforce
      qed
      have "nat (hi - (m + 1) + 1) < nat (hi - lo + 1)" using m by simp
      moreover have "intsetSearch_loop is v lo hi mid cur =
          intsetSearch_loop is v (m + 1) hi m (?xs ! nat m)"
        using unf 1 by simp
      ultimately show ?thesis
        using less.hyps [of hi "m + 1" "?xs ! nat m" m] low m less.prems 1 by force
    next
      case 2
      have high: "\<forall>i < is_length is. m - 1 < int i \<longrightarrow> v < ?xs ! i"
      proof (intro allI impI)
        fix i assume i: "i < is_length is" "m - 1 < int i"
        then have "nat m < i \<or> i = nat m" using m less.prems(1) by linarith
        then show "v < ?xs ! i" using 2 mono [of "nat m" i] i by fastforce
      qed
      have "nat (m - 1 - lo + 1) < nat (hi - lo + 1)" using m by simp
      moreover have "intsetSearch_loop is v lo hi mid cur =
          intsetSearch_loop is v lo (m - 1) m (?xs ! nat m)"
        using unf 2 by simp
      ultimately show ?thesis
        using less.hyps [of "m - 1" lo "?xs ! nat m" m] high m less.prems 2 by force
    next
      case 3
      then show ?thesis unfolding unf using m less.prems by auto
    qed
  qed
qed

text \<open>In a strictly sorted list the insert position is where the members below \<open>v\<close> end.\<close>

lemma takeWhile_position:
  assumes "k \<le> length xs" and "\<forall>i < k. xs ! i < (v::int)" and "\<forall>i < length xs. k \<le> i \<longrightarrow> v \<le> xs ! i"
  shows "length (takeWhile (\<lambda>x. x < v) xs) = k"
proof -
  have "takeWhile (\<lambda>x. x < v) xs = take k xs"
    by (rule takeWhile_eq_take_P_nth) (use assms in auto)
  then show ?thesis using assms(1) by simp
qed

lemma sorted_position:
  fixes xs :: "int list"
  assumes "sorted_wrt (<) xs" and "i < length xs"
  shows "length (takeWhile (\<lambda>x. x < xs ! i) xs) = i"
  using assms by (intro takeWhile_position) (auto simp: sorted_wrt_iff_nth_less le_less)

lemma intsetSearch_spec:
  assumes wf: "intset_wf is"
  shows "intsetSearch is v =
    Some (v \<in> set (intset_vals is), length (takeWhile (\<lambda>x. x < v) (intset_vals is)))"
proof -
  let ?xs = "intset_vals is" and ?n = "is_length is"
  from wf have lay: "intset_layout is" and srt: "sorted_wrt (<) ?xs"
    by (simp_all add: intset_wf_def)
  note len = length_intset_vals [OF lay]
  have n31: "int ?n < 2 ^ 31" using intset_layout_enc(5) [OF lay] by simp
  have mono: "?xs ! i \<le> ?xs ! j" if "i \<le> j" "j < ?n" for i j
    using srt that len by (cases "i = j") (auto simp: sorted_wrt_iff_nth_less less_imp_le)
  have notin: "v \<notin> set ?xs" if "\<And>i. i < ?n \<Longrightarrow> ?xs ! i \<noteq> v"
    using that len by (auto simp: in_set_conv_nth)
  show ?thesis
  proof (cases "?n = 0")
    case True
    then have "?xs = []" using len by simp
    then show ?thesis using True by (simp add: intsetSearch_def)
  next
    case n: False
    have max: "to_sint 32 (int ?n - 1) = int ?n - 1" using n n31 by (simp add: to_sint_32)
    have last: "u_intsetGet is (int ?n - 1) = Some (?xs ! (?n - 1))"
      using get_vals [OF lay, of "?n - 1"] n by (simp add: of_nat_diff)
    have first: "u_intsetGet is 0 = Some (?xs ! 0)" using get_vals [OF lay, of 0] n by simp
    consider (above) "v > ?xs ! (?n - 1)" | (below) "v \<le> ?xs ! (?n - 1)" "v < ?xs ! 0"
      | (inside) "v \<le> ?xs ! (?n - 1)" "?xs ! 0 \<le> v" by linarith
    then show ?thesis
    proof cases
      case above
      have lt: "?xs ! i < v" if "i < ?n" for i
      proof -
        have "i \<le> ?n - 1" "?n - 1 < ?n" using that by simp_all
        from mono [OF this] above show ?thesis by linarith
      qed
      have "v \<notin> set ?xs" and "length (takeWhile (\<lambda>x. x < v) ?xs) = ?n"
        using len lt by (auto intro!: notin takeWhile_position dest: less_imp_neq)
      then show ?thesis using n above by (simp add: intsetSearch_def Let_def max last)
    next
      case below
      have gt: "v < ?xs ! i" if "i < ?n" for i using mono [of 0 i] that below(2) by simp
      have "v \<notin> set ?xs" using gt by (intro notin) fastforce
      moreover have "length (takeWhile (\<lambda>x. x < v) ?xs) = 0"
        by (rule takeWhile_position) (use len gt in \<open>auto simp: less_imp_le\<close>)
      ultimately show ?thesis using n below by (simp add: intsetSearch_def Let_def max last first)
    next
      case inside
      obtain lo mid cur where loop: "intsetSearch_loop is v 0 (int ?n - 1) (- 1) (- 1) = Some (lo, mid, cur)"
        and res: "cur = v \<and> 0 \<le> mid \<and> mid < int ?n \<and> ?xs ! nat mid = v \<or>
          cur \<noteq> v \<and> 0 \<le> lo \<and> lo \<le> int ?n \<and> (\<forall>i < nat lo. ?xs ! i < v) \<and>
          (\<forall>i < ?n. lo \<le> int i \<longrightarrow> v < ?xs ! i)"
        using intsetSearch_loop_correct [OF lay srt, of 0 "int ?n - 1" v "- 1" "- 1"] n by auto
      have run: "intsetSearch is v = (if v = cur then Some (True, nat (mid mod 2 ^ 32))
          else Some (False, nat (lo mod 2 ^ 32)))"
        using n inside by (simp add: intsetSearch_def Let_def max last first loop)
      from res show ?thesis
      proof
        assume h: "cur = v \<and> 0 \<le> mid \<and> mid < int ?n \<and> ?xs ! nat mid = v"
        then have "nat mid < length ?xs" using len by linarith
        then have "length (takeWhile (\<lambda>x. x < v) ?xs) = nat mid" and "v \<in> set ?xs"
          using sorted_position [OF srt, of "nat mid"] h by (auto simp: in_set_conv_nth)
        then show ?thesis unfolding run using h n31 by simp
      next
        assume h: "cur \<noteq> v \<and> 0 \<le> lo \<and> lo \<le> int ?n \<and> (\<forall>i < nat lo. ?xs ! i < v) \<and>
          (\<forall>i < ?n. lo \<le> int i \<longrightarrow> v < ?xs ! i)"
        then have "\<And>i. i < ?n \<Longrightarrow> ?xs ! i \<noteq> v" by (metis less_irrefl nat_less_iff not_less_iff_gr_or_eq linorder_not_le zless_nat_eq_int_zless)
        then have "v \<notin> set ?xs" by (rule notin)
        moreover have "length (takeWhile (\<lambda>x. x < v) ?xs) = nat lo"
          using h len by (intro takeWhile_position) auto
        ultimately show ?thesis unfolding run using h n31 by simp
      qed
    qed
  qed
qed


subsection \<open>Insertion\<close>

lemma insort_takeWhile:
  fixes xs :: "int list"
  assumes "sorted_wrt (<) xs" and "k = length (takeWhile (\<lambda>x. x < v) xs)"
  shows "take k xs @ v # drop k xs = insort v xs"
proof -
  have "insort v xs = takeWhile (\<lambda>x. x < v) xs @ v # dropWhile (\<lambda>x. x < v) xs"
    by (induction xs) (auto simp: not_le)
  then show ?thesis
    unfolding assms(2) by (simp flip: takeWhile_eq_take dropWhile_eq_drop)
qed

lemma insort_below: "(\<And>x. x \<in> set xs \<Longrightarrow> v < x) \<Longrightarrow> insort v xs = v # (xs :: int list)"
  by (cases xs) (auto simp: less_imp_le)

lemma insort_above: "(\<And>x. x \<in> set xs \<Longrightarrow> x < v) \<Longrightarrow> insort v xs = (xs :: int list) @ [v]"
  by (induction xs) (force simp: not_le)+

lemma sorted_insort_strict:
  fixes xs :: "int list"
  shows "sorted_wrt (<) xs \<Longrightarrow> v \<notin> set xs \<Longrightarrow> sorted_wrt (<) (insort v xs)"
  by (induction xs) (auto simp: set_insort_key)

lemma value_encoding_range:
  assumes "in_sint 64 v"
  shows "u_intsetValueEncoding v \<in> {2, 4, 8}" and "in_sint (8 * u_intsetValueEncoding v) v"
  using assms
  by (auto simp: u_intsetValueEncoding_def in_sint_def INTSET_ENC_INT16_def INTSET_ENC_INT32_def
      INTSET_ENC_INT64_def)

lemma value_fits:
  assumes "in_sint 64 v" and "u_intsetValueEncoding v \<le> e" and "e \<in> {2, 4, 8}"
  shows "in_sint (8 * e) v"
  using assms
  by (auto simp: u_intsetValueEncoding_def in_sint_def INTSET_ENC_INT16_def INTSET_ENC_INT32_def
      INTSET_ENC_INT64_def split: if_splits)

lemma value_beyond:
  assumes "in_sint (8 * e) x" and "e < u_intsetValueEncoding v" and "e \<in> {2, 4, 8}"
  shows "v < 0 \<Longrightarrow> v < x" and "0 \<le> v \<Longrightarrow> x < v"
  using assms
  by (auto simp: u_intsetValueEncoding_def in_sint_def INTSET_ENC_INT16_def INTSET_ENC_INT32_def
      INTSET_ENC_INT64_def split: if_splits)

lemma intset_resize_ok:
  assumes "is_encoding is \<le> 8" and "len < 2 ^ 32"
  shows "intsetResize junk is len =
    Some (is\<lparr>is_contents := realloc_bytes junk (is_contents is) (len * is_encoding is)\<rparr>)"
proof -
  have "len * is_encoding is \<le> 2 ^ 32 * 8" using assms by (intro mult_le_mono) auto
  then show ?thesis by (simp add: intsetResize_def SIZE_MAX_def intset_header_size_def)
qed

lemma cells_realloc:
  assumes "length bs = n * w" and "0 < w" and "n \<le> m"
  shows "take n (cells w (realloc_bytes junk bs (m * w))) = cells w bs"
proof -
  have "cells w (take (n * w) (realloc_bytes junk bs (m * w))) =
      take n (cells w (realloc_bytes junk bs (m * w)))"
    by (rule cells_split(1)) (use assms in auto)
  then show ?thesis using assms by simp
qed

text \<open>
  The in-place upgrade: writing new cell \<open>len + prepend\<close> never reaches the old bytes below cell
  \<open>len\<close>, which are still to be read.
\<close>

lemma upgrade_loop_correct:
  assumes enc: "curenc \<in> {2, 4, 8}" and wider: "curenc < is_encoding is"
    and w: "is_encoding is \<in> {2, 4, 8}" and pre: "p \<le> 1"
  shows "n + p < m + 1 \<Longrightarrow> length (is_contents is) = m * is_encoding is \<Longrightarrow>
    \<exists>bs. upgrade_loop is p curenc n = Some (is\<lparr>is_contents := bs\<rparr>) \<and> length bs = m * is_encoding is \<and>
      (\<forall>j < m. cells (is_encoding is) bs ! j =
        (if p \<le> j \<and> j < n + p then cells curenc (take (n * curenc) (is_contents is)) ! (j - p)
         else cells (is_encoding is) (is_contents is) ! j))"
  using wider w
proof (induction n arbitrary: "is")
  case 0
  then have "is\<lparr>is_contents := is_contents is\<rparr> = is" by simp
  then show ?case using 0 by (intro exI [of _ "is_contents is"]) auto
next
  case (Suc n)
  let ?w = "is_encoding is" and ?bs = "is_contents is"
  have w0: "0 < ?w" "0 < curenc" using Suc.prems(4) enc by auto
  have le: "Suc n * curenc \<le> m * ?w"
    using Suc.prems(1,3) by (intro mult_le_mono) auto
  have lt: "length (take (Suc n * curenc) ?bs) = Suc n * curenc" using Suc.prems(2) le by simp
  define v where "v = cells curenc (take (Suc n * curenc) ?bs) ! n"
  have get: "u_intsetGetEncoded is (int n) curenc = Some v"
  proof -
    have "n * curenc + curenc \<le> Suc n * curenc" by simp
    moreover have "v = le_sint (take curenc (drop (n * curenc) ?bs))"
      using cells_nth [OF lt w0(2), of n] by (simp add: v_def drop_take min_def)
    ultimately show ?thesis
      using enc le Suc.prems(2) by (simp add: u_intsetGetEncoded_def read_bytes_def enc_width_id)
  qed
  have vr: "in_sint (8 * ?w) v"
  proof -
    have "v \<in> set (cells curenc (take (Suc n * curenc) ?bs))"
      using length_cells [OF lt w0(2)] by (simp add: v_def)
    then have "in_sint (8 * curenc) v" using cells_in_range [OF lt w0(2)] by simp
    moreover have "(2::int) ^ (8 * curenc - 1) \<le> 2 ^ (8 * ?w - 1)"
      using Suc.prems(3) by (intro power_increasing) auto
    ultimately show ?thesis unfolding in_sint_def by linarith
  qed
  obtain cs where set1: "u_intsetSet is (int (n + p)) v = Some (is\<lparr>is_contents := cs\<rparr>)"
    and len1: "length cs = m * ?w" and cs: "cells ?w cs = (cells ?w ?bs)[n + p := v]"
    using set_cells [OF Suc.prems(2,4), of "n + p" v] Suc.prems(1) vr by auto
  have wr: "write_bytes ?bs ((n + p) * ?w) (le_bytes ?w v) = Some cs"
    using set_writes [OF set1] Suc.prems(4) by simp
  have low: "take (n * curenc) cs = take (n * curenc) ?bs"
  proof (rule take_write_bytes [OF wr])
    show "n * curenc \<le> (n + p) * ?w" using Suc.prems(3) by (intro mult_le_mono) auto
  qed
  let ?is' = "is\<lparr>is_contents := cs\<rparr>"
  obtain ds where loop: "upgrade_loop ?is' p curenc n = Some (?is'\<lparr>is_contents := ds\<rparr>)"
    and lds: "length ds = m * ?w"
    and ds: "\<forall>j < m. cells ?w ds ! j =
        (if p \<le> j \<and> j < n + p then cells curenc (take (n * curenc) cs) ! (j - p) else cells ?w cs ! j)"
    using Suc.IH [of ?is'] Suc.prems len1 by auto
  have pref: "cells curenc (take (n * curenc) ?bs) = take n (cells curenc (take (Suc n * curenc) ?bs))"
    using cells_split(1) [OF lt w0(2), of n] by (simp add: min_def)
  have lc: "length (cells ?w ?bs) = m" using Suc.prems(2) w0(1) by simp
  have "cells ?w ds ! j = (if p \<le> j \<and> j < Suc n + p
      then cells curenc (take (Suc n * curenc) ?bs) ! (j - p) else cells ?w ?bs ! j)" if "j < m" for j
  proof -
    consider "j = n + p" | "j < n + p" "p \<le> j" | "n + p < j" | "j < p" by linarith
    then show ?thesis using that ds cs low pref lc by cases (auto simp: v_def nth_list_update)
  qed
  then show ?case
    using get set1 loop lds by (intro exI [of _ ds]) simp
qed


lemma intsetUpgradeAndAdd_spec:
  assumes wf: "intset_wf is" and v: "in_sint 64 v" and enc: "is_encoding is < u_intsetValueEncoding v"
    and room: "is_length is < INTSET_MAX_LEN"
  obtains is' where "intsetUpgradeAndAdd junk is v = Some is'" and "intset_layout is'"
    and "is_encoding is' = u_intsetValueEncoding v" and "is_length is' = is_length is + 1"
    and "intset_vals is' = (if v < 0 then v # intset_vals is else intset_vals is @ [v])"
proof -
  let ?n = "is_length is" and ?w = "u_intsetValueEncoding v" and ?xs = "intset_vals is"
  define p :: nat where "p = (if v < 0 then 1 else 0)"
  have lay: "intset_layout is" using wf by (simp add: intset_wf_def)
  note e = intset_layout_enc [OF lay]
  have w: "?w \<in> {2, 4, 8}" and vr: "in_sint (8 * ?w) v"
    using value_encoding_range [OF v] by simp_all
  have w0: "0 < ?w" "?w \<le> 8" using w by auto
  have n32: "(?n + 1) mod 2 ^ 32 = ?n + 1" and nint: "\<not> int ?n > INT32_MAX"
    using e(5) by simp_all
  define is1 where "is1 = is\<lparr>is_encoding := ?w,
    is_contents := realloc_bytes junk (is_contents is) ((?n + 1) * ?w)\<rparr>"
  have r: "intsetResize junk (is\<lparr>is_encoding := ?w\<rparr>) (?n + 1) = Some is1"
    using intset_resize_ok [of "is\<lparr>is_encoding := ?w\<rparr>" "?n + 1"] w0 e(5) by (simp add: is1_def)
  have len1: "length (is_contents is1) = (?n + 1) * is_encoding is1" by (simp add: is1_def)
  have "?n * is_encoding is \<le> (?n + 1) * ?w" using enc by (intro mult_le_mono) auto
  then have old: "take (?n * is_encoding is) (is_contents is1) = is_contents is"
    using e(3) by (simp add: is1_def)
  have enc1: "is_encoding is1 = ?w" by (simp add: is1_def)
  have p1: "p \<le> 1" "?n + p < ?n + 1 + 1" by (simp_all add: p_def)
  obtain bs where up: "upgrade_loop is1 p (is_encoding is) ?n = Some (is1\<lparr>is_contents := bs\<rparr>)"
    and lbs: "length bs = (?n + 1) * ?w"
    and bs: "\<forall>j < ?n + 1. cells ?w bs ! j = (if p \<le> j \<and> j < ?n + p then ?xs ! (j - p)
        else cells ?w (is_contents is1) ! j)"
    using upgrade_loop_correct [OF e(1) _ _ p1(1) p1(2) len1] enc w
    unfolding enc1 old intset_vals_def by blast
  define q where "q = (if v < 0 then 0 else ?n)"
  have q: "q < ?n + 1" by (simp add: q_def)
  let ?is2 = "is1\<lparr>is_contents := bs\<rparr>"
  have enc2: "is_encoding ?is2 = ?w" and len2: "length (is_contents ?is2) = (?n + 1) * ?w"
    using lbs by (simp_all add: enc1)
  obtain cs where set1: "u_intsetSet ?is2 (int q) v = Some (?is2\<lparr>is_contents := cs\<rparr>)"
    and lcs: "length cs = (?n + 1) * ?w" and cs: "cells ?w cs = (cells ?w bs)[q := v]"
    using set_cells [of ?is2 "?n + 1" q v, unfolded enc2, OF len2 w q vr] by auto
  define is' where "is' = is1\<lparr>is_contents := cs, is_length := ?n + 1\<rparr>"
  have "intsetUpgradeAndAdd junk is v = Some is'"
    using nint n32 r up set1 e(5)
    by (auto simp: intsetUpgradeAndAdd_def Let_def is'_def p_def q_def is1_def to_sint_32 split: if_splits)
  moreover have "intset_layout is'"
    using w lcs room by (simp add: intset_layout_def is'_def is1_def)
  moreover have "intset_vals is' = (if v < 0 then v # ?xs else ?xs @ [v])"
  proof (rule nth_equalityI)
    have lcb: "length (cells ?w bs) = ?n + 1" using lbs w0 by simp
    show "length (intset_vals is') = length (if v < 0 then v # ?xs else ?xs @ [v])"
      using \<open>intset_layout is'\<close> lay by (simp add: is'_def)
    fix i assume "i < length (intset_vals is')"
    then have "i < ?n + 1" using \<open>intset_layout is'\<close> by (simp add: is'_def)
    then show "intset_vals is' ! i = (if v < 0 then v # ?xs else ?xs @ [v]) ! i"
      using bs lcb lay
      by (auto simp: intset_vals_def is'_def is1_def cs p_def q_def nth_Cons' nth_append
          nth_list_update length_intset_vals [OF lay, unfolded intset_vals_def])
  qed
  ultimately show ?thesis using that by (simp add: is'_def is1_def)
qed


lemma moveTail_cells:
  assumes "is_encoding is \<in> {2, 4, 8}" and len: "length (is_contents is) = m * is_encoding is"
    and "from \<le> is_length is" and n: "is_length is < 2 ^ 29" and "is_length is \<le> m"
    and "to + (is_length is - from) \<le> m"
  obtains cs where "intsetMoveTail is from to = Some (is\<lparr>is_contents := cs\<rparr>)"
    and "length cs = m * is_encoding is"
    and "cells (is_encoding is) cs = take to (cells (is_encoding is) (is_contents is)) @
      take (is_length is - from) (drop from (cells (is_encoding is) (is_contents is))) @
      drop (to + (is_length is - from)) (cells (is_encoding is) (is_contents is))"
proof -
  let ?n = "is_length is" and ?w = "is_encoding is"
  have w: "0 < ?w" "enc_width ?w = ?w" using assms(1) by (auto simp: enc_width_id)
  have "(?n - from) * ?w \<le> (2 ^ 29 - 1) * 8" using assms(1) n by (intro mult_le_mono) auto
  then have c1: "(?n - from) * ?w mod 2 ^ 32 = (?n - from) * ?w" by simp
  have "(int ?n - int from) mod 2 ^ 32 = int (?n - from)" using assms(3) n by (simp add: of_nat_diff)
  then have c2: "nat ((int ?n - int from) mod 2 ^ 32) = ?n - from" by (simp only: nat_int)
  have s: "from + (?n - from) \<le> m" using assms by simp
  obtain cs where "move_bytes (is_contents is) (to * ?w) (from * ?w) ((?n - from) * ?w) = Some cs"
    "length cs = m * ?w"
    "cells ?w cs = take to (cells ?w (is_contents is)) @
      take (?n - from) (drop from (cells ?w (is_contents is))) @
      drop (to + (?n - from)) (cells ?w (is_contents is))"
    using cells_move [OF len w(1) s assms(6)] .
  then show ?thesis
    using that [of cs] by (simp only: intsetMoveTail_def Let_def w(2) c1 c2 option.map)
qed

lemma intsetAdd_spec:
  assumes wf: "intset_wf is" and v: "in_sint 64 v" and room: "is_length is < INTSET_MAX_LEN"
  shows "\<exists>is'. intsetAdd junk is v = Some (is', v \<notin> set (intset_vals is)) \<and> intset_wf is' \<and>
    intset_vals is' = (if v \<in> set (intset_vals is) then intset_vals is else insort v (intset_vals is))"
proof -
  let ?n = "is_length is" and ?xs = "intset_vals is" and ?w = "is_encoding is"
  have lay: "intset_layout is" and srt: "sorted_wrt (<) ?xs" using wf by (simp_all add: intset_wf_def)
  note e = intset_layout_enc [OF lay] and len = length_intset_vals [OF lay]
  show ?thesis
  proof (cases "?w < u_intsetValueEncoding v")
    case True
    have beyond: "(v < 0 \<longrightarrow> v < x) \<and> (0 \<le> v \<longrightarrow> x < v)" if "x \<in> set ?xs" for x
      using value_beyond [OF cells_in_range [OF e(3,2)] True e(1)] that
      by (simp add: intset_vals_def)
    then have notin: "v \<notin> set ?xs" by (metis less_irrefl linorder_not_le)
    have "insort v ?xs = (if v < 0 then v # ?xs else ?xs @ [v])"
      using beyond insort_below [of ?xs v] insort_above [of ?xs v] by simp
    moreover obtain is' where "intsetUpgradeAndAdd junk is v = Some is'" "intset_layout is'"
      "intset_vals is' = (if v < 0 then v # ?xs else ?xs @ [v])"
      using intsetUpgradeAndAdd_spec [OF wf v True room, of junk] by metis
    ultimately show ?thesis
      using True notin sorted_insort_strict [OF srt notin]
      by (auto simp: intsetAdd_def intset_wf_def)
  next
    case False
    then have fits: "in_sint (8 * ?w) v" using value_fits [OF v _ e(1)] by simp
    define k where "k = length (takeWhile (\<lambda>x. x < v) ?xs)"
    have kn: "k \<le> ?n" using length_takeWhile_le [of _ ?xs] len by (simp add: k_def)
    note search = intsetSearch_spec [OF wf, of v, folded k_def]
    show ?thesis
    proof (cases "v \<in> set ?xs")
      case True
      then show ?thesis using False search wf by (simp add: intsetAdd_def)
    next
      case notin: False
      define is1 where "is1 = is\<lparr>is_contents := realloc_bytes junk (is_contents is) ((?n + 1) * ?w)\<rparr>"
      let ?bs1 = "is_contents is1"
      have n32: "(?n + 1) mod 2 ^ 32 = ?n + 1" "(k + 1) mod 2 ^ 32 = k + 1" using e(5) kn by simp_all
      have r: "intsetResize junk is (?n + 1) = Some is1"
        using intset_resize_ok [of "is" "?n + 1"] e(1,5) by (auto simp: is1_def)
      have len1: "length ?bs1 = (?n + 1) * ?w" by (simp add: is1_def)
      have old: "take ?n (cells ?w ?bs1) = ?xs"
        using cells_realloc [OF e(3,2), of "?n + 1"] by (simp add: is1_def intset_vals_def)
      have lc1: "length (cells ?w ?bs1) = ?n + 1" using len1 e(2) by simp
      obtain bs2 where mv: "(if k < ?n then intsetMoveTail is1 k (k + 1) else Some is1) =
          Some (is1\<lparr>is_contents := bs2\<rparr>)" and len2: "length bs2 = (?n + 1) * ?w"
        and bs2: "take k (cells ?w bs2) = take k ?xs" "drop (Suc k) (cells ?w bs2) = drop k ?xs"
      proof (cases "k < ?n")
        case True
        have f1: "is_encoding is1 = ?w" "is_length is1 = ?n" by (simp_all add: is1_def)
        obtain cs where "intsetMoveTail is1 k (k + 1) = Some (is1\<lparr>is_contents := cs\<rparr>)"
          "length cs = (?n + 1) * ?w"
          "cells ?w cs = take (k + 1) (cells ?w ?bs1) @ take (?n - k) (drop k (cells ?w ?bs1)) @
            drop (k + 1 + (?n - k)) (cells ?w ?bs1)"
          using moveTail_cells [of is1 "?n + 1" k "k + 1", unfolded f1] len1 e(1,5) True by auto
        moreover have "take (?n - k) (drop k (cells ?w ?bs1)) = drop k ?xs"
          using old by (simp flip: drop_take)
        moreover have "take k (cells ?w ?bs1) = take k ?xs"
          using old kn by (metis min.absorb1 take_take)
        ultimately show ?thesis
          using True that [of cs] lc1 kn by simp
      next
        case False
        then have "k = ?n" using kn by simp
        then show ?thesis using that [of ?bs1] len1 old lc1 len by simp
      qed
      let ?is2 = "is1\<lparr>is_contents := bs2\<rparr>"
      have enc2: "is_encoding ?is2 = ?w" by (simp add: is1_def)
      obtain cs where set1: "u_intsetSet ?is2 (int k) v = Some (?is2\<lparr>is_contents := cs\<rparr>)"
        and lcs: "length cs = (?n + 1) * ?w" and cs: "cells ?w cs = (cells ?w bs2)[k := v]"
        using set_cells [of ?is2 "?n + 1" k v, unfolded enc2] len2 e(1) kn fits by auto
      define is' where "is' = is1\<lparr>is_contents := cs, is_length := ?n + 1\<rparr>"
      have "intsetAdd junk is v = Some (is', True)"
        using False search notin r n32 mv set1 e(5) kn
        by (auto simp: intsetAdd_def is'_def is1_def to_sint_32)
      moreover have "intset_layout is'"
        using lcs room e(1) by (simp add: intset_layout_def is'_def is1_def)
      moreover have "intset_vals is' = insort v ?xs"
      proof -
        have "length (cells ?w bs2) = ?n + 1" using len2 e(2) by simp
        then have "cells ?w cs = take k ?xs @ v # drop k ?xs"
          using cs bs2 kn by (simp add: upd_conv_take_nth_drop)
        then show ?thesis
          using insort_takeWhile [OF srt k_def] by (simp add: intset_vals_def is'_def is1_def)
      qed
      ultimately show ?thesis
        using notin sorted_insort_strict [OF srt notin] by (simp add: intset_wf_def)
    qed
  qed
qed


subsection \<open>Removal and lookup\<close>

lemma out_of_encoding_notin:
  assumes "intset_layout is" and "is_encoding is < u_intsetValueEncoding v"
  shows "v \<notin> set (intset_vals is)"
proof
  note e = intset_layout_enc [OF assms(1)]
  assume "v \<in> set (intset_vals is)"
  then have "in_sint (8 * is_encoding is) v"
    using cells_in_range [OF e(3,2)] by (simp add: intset_vals_def)
  from value_beyond [OF this assms(2) e(1)] show False by (cases "v < 0") auto
qed

lemma sorted_remove:
  assumes "sorted_wrt (<) xs" and "v \<in> set xs" and "k = length (takeWhile (\<lambda>x. x < v) xs)"
  shows "k < length xs" and "xs ! k = (v::int)" and "take k xs @ drop (Suc k) xs = remove1 v xs"
proof -
  obtain i where i: "i < length xs" "xs ! i = v" using assms(2) by (auto simp: in_set_conv_nth)
  then have ki: "k = i" using sorted_position [OF assms(1) i(1)] assms(3) by simp
  then show "k < length xs" and "xs ! k = v" using i by simp_all
  have "v \<notin> set (take k xs)" using assms(3) by (auto simp: takeWhile_eq_take [symmetric] dest: set_takeWhileD)
  then have "remove1 v (take k xs @ xs ! k # drop (Suc k) xs) = take k xs @ drop (Suc k) xs"
    using i ki by (simp add: remove1_append)
  then show "take k xs @ drop (Suc k) xs = remove1 v xs"
    using id_take_nth_drop [OF i(1)] ki by simp
qed

lemma intsetRemove_found:
  assumes wf: "intset_wf is" and v: "v \<in> set (intset_vals is)"
  shows "\<exists>is'. intsetRemove junk is v = Some (is', True) \<and> intset_layout is' \<and>
    is_length is' = is_length is - 1 \<and> intset_vals is' = remove1 v (intset_vals is)"
proof -
  let ?n = "is_length is" and ?xs = "intset_vals is" and ?w = "is_encoding is"
  have lay: "intset_layout is" and srt: "sorted_wrt (<) ?xs" using wf by (simp_all add: intset_wf_def)
  note e = intset_layout_enc [OF lay] and len = length_intset_vals [OF lay]
  define k where "k = length (takeWhile (\<lambda>x. x < v) ?xs)"
  note rem = sorted_remove [OF srt v k_def]
  have n: "k < ?n" "0 < ?n" using rem(1) len by simp_all
  have i32: "(int ?n - 1) mod 2 ^ 32 = int (?n - 1)" "(k + 1) mod 2 ^ 32 = k + 1"
    "int k < int (?n - 1) \<longleftrightarrow> k < ?n - 1"
    using n e(5) by (simp_all add: of_nat_diff del: of_nat_less_iff) linarith
  obtain bs where mv: "(if k < ?n - 1 then intsetMoveTail is (k + 1) k else Some is) =
      Some (is\<lparr>is_contents := bs\<rparr>)" and lbs: "length bs = ?n * ?w"
    and bs: "take (?n - 1) (cells ?w bs) = remove1 v ?xs"
  proof (cases "k < ?n - 1")
    case True
    have a: "k + 1 \<le> ?n" "k + (?n - (k + 1)) \<le> ?n" using True by simp_all
    obtain cs where "intsetMoveTail is (k + 1) k = Some (is\<lparr>is_contents := cs\<rparr>)"
      "length cs = ?n * ?w"
      "cells ?w cs = take k ?xs @ take (?n - (k + 1)) (drop (k + 1) ?xs) @ drop (k + (?n - (k + 1))) ?xs"
      using moveTail_cells [OF e(1,3) a(1) e(5) order_refl a(2)] by (auto simp: intset_vals_def)
    then show ?thesis using that [of cs] True rem(3) len n by (simp add: min_def)
  next
    case False
    then have "k = ?n - 1" using n by simp
    then have "take (?n - 1) ?xs = remove1 v ?xs" using rem(3) len n by simp
    then show ?thesis using that [of "is_contents is"] False e(3) by (simp add: intset_vals_def)
  qed
  let ?bs' = "take ((?n - 1) * ?w) bs"
  have r: "intsetResize junk (is\<lparr>is_contents := bs\<rparr>) (?n - 1) = Some (is\<lparr>is_contents := ?bs'\<rparr>)"
    using intset_resize_ok [of "is\<lparr>is_contents := bs\<rparr>" "?n - 1"] e(1,5) lbs n
    by (auto simp: diff_mult_distrib)
  define is' where "is' = is\<lparr>is_contents := ?bs', is_length := ?n - 1\<rparr>"
  have enc: "u_intsetValueEncoding v \<le> ?w" using out_of_encoding_notin [OF lay] v by (meson not_le)
  have "intsetRemove junk is v = Some (is', True)"
    using enc intsetSearch_spec [OF wf, of v, folded k_def] v mv r
    unfolding intsetRemove_def i32(1) Let_def i32(3) nat_int is'_def
    using i32(2) by (auto split: if_splits)
  moreover have "intset_layout is'"
    using lay lbs n by (auto simp: intset_layout_def is'_def diff_mult_distrib)
  moreover have "intset_vals is' = remove1 v ?xs"
    using cells_split(1) [OF lbs e(2), of "?n - 1"] bs by (simp add: intset_vals_def is'_def)
  ultimately show ?thesis by (simp add: is'_def)
qed

lemma sorted_remove1_strict: "sorted_wrt (<) (xs::int list) \<Longrightarrow> sorted_wrt (<) (remove1 v xs)"
  by (induction xs) (auto dest: subsetD [OF set_remove1_subset])

lemma sorted_strict_distinct: "sorted_wrt (<) (xs::int list) \<Longrightarrow> distinct xs"
  by (induction xs) auto

lemma intsetRemove_spec:
  assumes wf: "intset_wf is"
  shows "\<exists>is'. intsetRemove junk is v = Some (is', v \<in> set (intset_vals is)) \<and> intset_wf is' \<and>
    is_length is' \<le> is_length is \<and> intset_vals is' = remove1 v (intset_vals is)"
proof (cases "v \<in> set (intset_vals is)")
  case True
  then show ?thesis
    using intsetRemove_found [OF wf True, of junk] wf sorted_remove1_strict
    by (auto simp: intset_wf_def)
next
  case False
  then show ?thesis
    using intsetSearch_spec [OF wf, of v] wf by (auto simp: intsetRemove_def remove1_idem)
qed

lemma intsetFind_spec: "intset_wf is \<Longrightarrow> intsetFind is v = Some (v \<in> set (intset_vals is))"
  using out_of_encoding_notin [of "is" v]
  by (auto simp: intsetFind_def intsetSearch_spec intset_wf_def not_le)

lemma intsetGet_spec:
  assumes "intset_wf is"
  shows "intsetGet is pos =
    Some (if pos < length (intset_vals is) then Some (intset_vals is ! pos) else None)"
proof -
  have lay: "intset_layout is" using assms by (simp add: intset_wf_def)
  show ?thesis
    using get_vals [OF lay] intset_layout_enc(5) [OF lay] lay
    by (simp add: intsetGet_def to_sint_32)
qed

lemma intset_extremes:
  assumes wf: "intset_wf is" and ne: "intset_vals is \<noteq> []"
  shows "intsetMin is = Some (Min (set (intset_vals is)))"
    and "intsetMax is = Some (Max (set (intset_vals is)))"
proof -
  let ?xs = "intset_vals is"
  have lay: "intset_layout is" and srt: "sorted_wrt (<) ?xs" using wf by (simp_all add: intset_wf_def)
  have n: "0 < is_length is" using ne lay by (metis length_greater_0_conv length_intset_vals)
  have le: "?xs ! i \<le> ?xs ! j" if "i \<le> j" "j < length ?xs" for i j
    using srt that by (cases "i = j") (auto simp: sorted_wrt_iff_nth_less less_imp_le)
  have "Min (set ?xs) = ?xs ! 0"
    using ne le [of 0] by (intro Min_eqI) (auto simp: in_set_conv_nth)
  then show "intsetMin is = Some (Min (set ?xs))"
    using get_vals [OF lay, of 0] n by (simp add: intsetMin_def)
  have "Max (set ?xs) = ?xs ! (length ?xs - 1)"
  proof (rule Max_eqI)
    show "?xs ! (length ?xs - 1) \<in> set ?xs" using ne by (intro nth_mem) simp
    show "y \<le> ?xs ! (length ?xs - 1)" if y: "y \<in> set ?xs" for y
    proof -
      from y obtain i where "i < length ?xs" "y = ?xs ! i" by (auto simp: in_set_conv_nth)
      then show ?thesis using le [of i "length ?xs - 1"] by simp
    qed
  qed simp
  moreover have "to_sint 32 (int (is_length is) - 1) = int (is_length is - 1)"
    using n intset_layout_enc(5) [OF lay] by (simp add: to_sint_32 of_nat_diff)
  ultimately show "intsetMax is = Some (Max (set ?xs))"
    using get_vals [OF lay, of "is_length is - 1"] n lay by (simp add: intsetMax_def)
qed

lemma intsetRandom_member:
  assumes wf: "intset_wf is" and "intset_vals is \<noteq> []"
  shows "\<exists>v. intsetRandom r is = Some v \<and> v \<in> set (intset_vals is)"
proof -
  have lay: "intset_layout is" using wf by (simp add: intset_wf_def)
  let ?n = "is_length is"
  have n: "0 < ?n" using assms(2) lay by (metis length_greater_0_conv length_intset_vals)
  define i where "i = (r mod 2 ^ 32) mod int ?n"
  have i: "0 \<le> i" "i < int ?n" using n by (simp_all add: i_def)
  then have "to_sint 32 i = i" using intset_layout_enc(5) [OF lay] by (simp add: to_sint_32)
  then have "intsetRandom r is = Some (intset_vals is ! nat i)"
    using n i get_vals_int [OF lay i] by (simp add: intsetRandom_def i_def)
  moreover have "nat i < length (intset_vals is)" using i lay by (simp add: nat_less_iff)
  ultimately show ?thesis by simp
qed

subsection \<open>Integrity check and the set contract\<close>

lemma validate_loop_spec:
  assumes lay: "intset_layout is"
  shows "0 < i \<Longrightarrow> i + n = is_length is \<Longrightarrow>
    validate_loop is (intset_vals is ! (i - 1)) i n =
      Some (\<forall>j. i \<le> j \<and> j < is_length is \<longrightarrow> intset_vals is ! (j - 1) < intset_vals is ! j)"
proof (induction n arbitrary: i)
  case 0
  then show ?case by auto
next
  case (Suc n)
  let ?xs = "intset_vals is"
  have get: "u_intsetGet is (to_sint 32 (int i)) = Some (?xs ! i)"
    using Suc.prems get_vals [OF lay, of i] intset_layout_enc(5) [OF lay] by (simp add: to_sint_32)
  have split: "(\<forall>j. i \<le> j \<and> j < is_length is \<longrightarrow> ?xs ! (j - 1) < ?xs ! j) \<longleftrightarrow>
    ?xs ! (i - 1) < ?xs ! i \<and> (\<forall>j. i + 1 \<le> j \<and> j < is_length is \<longrightarrow> ?xs ! (j - 1) < ?xs ! j)"
  proof -
    have "i \<le> j \<and> j < is_length is \<longleftrightarrow> j = i \<or> (i + 1 \<le> j \<and> j < is_length is)" for j
      using Suc.prems by auto
    then show ?thesis by (simp only:) auto
  qed
  have "validate_loop is (?xs ! (i - 1)) i (Suc n) =
      (if ?xs ! i \<le> ?xs ! (i - 1) then Some False else validate_loop is (?xs ! (i + 1 - 1)) (i + 1) n)"
    using get by simp
  then show ?case using Suc.IH [of "i + 1"] Suc.prems split by (auto simp: not_le)
qed

lemma sorted_wrt_less_adjacent:
  "sorted_wrt (<) (xs::int list) \<longleftrightarrow> (\<forall>j. 1 \<le> j \<and> j < length xs \<longrightarrow> xs ! (j - 1) < xs ! j)"
proof -
  have "(\<forall>i. Suc i < length xs \<longrightarrow> xs ! i < xs ! Suc i) \<longleftrightarrow>
      (\<forall>j. 1 \<le> j \<and> j < length xs \<longrightarrow> xs ! (j - 1) < xs ! j)"
    by (metis One_nat_def Suc_diff_1 Suc_le_eq diff_Suc_1 zero_less_Suc)
  then show ?thesis
    using sorted_wrt_iff_nth_Suc_transp [of "(<)" xs] by simp
qed

lemma intset_of_blob_blob:
  assumes "intset_layout is"
  shows "intset_of_blob (intset_blob is) = is"
  using assms
  by (auto simp: intset_of_blob_def intset_blob_def le_uint_le_bytes intset_layout_def INTSET_MAX_LEN_def)

lemma validate_blob:
  assumes lay: "intset_layout is"
  shows "intsetValidateIntegrity (intset_blob is) deep =
    Some (0 < is_length is \<and> (deep \<longrightarrow> sorted_wrt (<) (intset_vals is)))"
proof -
  have len: "length (intset_blob is) = 8 + is_length is * is_encoding is"
    using lay by (simp add: intset_blob_def intset_layout_def)
  have "u_intsetGet is 0 = Some (intset_vals is ! 0)" if "0 < is_length is"
    using get_vals [OF lay, of 0] that by simp
  moreover have "validate_loop is (intset_vals is ! 0) 1 (is_length is - 1) =
      Some (sorted_wrt (<) (intset_vals is))" if "0 < is_length is"
    using validate_loop_spec [OF lay, of 1 "is_length is - 1"] that lay
    by (simp add: sorted_wrt_less_adjacent)
  ultimately show ?thesis
    using intset_layout_enc(1) [OF lay] len intset_of_blob_blob [OF lay]
    by (auto simp: intsetValidateIntegrity_def Let_def intset_header_size_def INTSET_ENC_INT16_def
        INTSET_ENC_INT32_def INTSET_ENC_INT64_def)
qed

interpretation intset_set: finite_set_impl intset_wf "\<lambda>is. set (intset_vals is)" is_length INTSET_MAX_LEN
  "in_sint 64" intsetNew "intsetAdd junk" "intsetRemove junk" intsetFind for junk
proof unfold_locales
  show "intset_wf intsetNew" and "set (intset_vals intsetNew) = {}" and "is_length intsetNew = 0"
    by (simp_all add: intset_wf_def intset_layout_def intsetNew_def intset_vals_def cells_def
        INTSET_ENC_INT16_def)
next
  fix s x
  assume wf: "intset_wf s" and v: "in_sint 64 x" and room: "is_length s < INTSET_MAX_LEN"
  obtain s' where s': "intsetAdd junk s x = Some (s', x \<notin> set (intset_vals s))" "intset_wf s'"
    "intset_vals s' = (if x \<in> set (intset_vals s) then intset_vals s else insort x (intset_vals s))"
    using intsetAdd_spec [OF wf v room] by blast
  have "is_length s' = length (intset_vals s')" "is_length s = length (intset_vals s)"
    using s'(2) wf by (simp_all add: intset_wf_def)
  then have "is_length s' \<le> is_length s + 1" using s'(3) by simp
  then show "\<exists>s'. intsetAdd junk s x = Some (s', x \<notin> set (intset_vals s)) \<and> intset_wf s' \<and>
      set (intset_vals s') = insert x (set (intset_vals s)) \<and> is_length s' \<le> is_length s + 1"
    using s' by (auto simp: set_insort_key)
next
  fix s x
  assume wf: "intset_wf s"
  then have "distinct (intset_vals s)" by (simp add: intset_wf_def sorted_strict_distinct)
  then show "\<exists>s'. intsetRemove junk s x = Some (s', x \<in> set (intset_vals s)) \<and> intset_wf s' \<and>
      set (intset_vals s') = set (intset_vals s) - {x} \<and> is_length s' \<le> is_length s"
    using intsetRemove_spec [OF wf, of junk x] by fastforce
next
  fix s x
  assume "intset_wf s"
  then show "intsetFind s x = Some (x \<in> set (intset_vals s))" by (rule intsetFind_spec)
qed


section \<open>Properties\<close>

text \<open>
  (C2) Any sequence of additions, removals and membership tests on a fresh integer set never fails
  an access, reports for each operation what the same sequence on a mathematical set reports, and
  ends in a well-formed set with exactly the members of the mathematical one, as long as the values
  are 64-bit integers and there are at most \<open>INTSET_MAX_LEN\<close> additions. Encoding upgrades, memory
  moves and the content of fresh memory (\<open>junk\<close>) have no influence.
\<close>

theorem intset_refines_set:
  assumes "\<forall>op \<in> set ops. in_sint 64 (op_arg op)" and "sum_list (map op_adds ops) \<le> INTSET_MAX_LEN"
  shows "\<exists>is'. run_set_ops (intsetAdd junk) (intsetRemove junk) intsetFind intsetNew ops =
      Some (is', snd (spec_set_ops {} ops)) \<and> intset_wf is' \<and>
    set (intset_vals is') = fst (spec_set_ops {} ops)"
  using intset_set.run_simulates [OF intset_set.inv_new assms(1), of junk] assms(2)
  by (simp add: intset_set.members_new intset_set.size_new)

theorem intset_refines_set_witness:
  "\<exists>is'. run_set_ops (intsetAdd (\<lambda>_. 7)) (intsetRemove (\<lambda>_. 7)) intsetFind intsetNew
      [SAdd 5, SAdd (- 70000), SAdd 5, SFind (- 70000), SRem 5, SFind 5] =
    Some (is', [True, True, False, True, True, False]) \<and> intset_wf is' \<and> set (intset_vals is') = {- 70000}"
  using intset_refines_set [of "[SAdd 5, SAdd (- 70000), SAdd 5, SFind (- 70000), SRem 5, SFind 5]" "\<lambda>_. 7"]
  by (simp add: in_sint_def INTSET_MAX_LEN_def insert_Diff_if del: run_set_ops.simps)

text \<open>
  The binary search of a well-formed set ends and returns whether the value is a member,
  together with the number of smaller members, which is the member's position or the place where
  it has to be inserted.
\<close>

theorem intsetSearch_correct:
  assumes "intset_wf is"
  shows "intsetSearch is v =
    Some (v \<in> set (intset_vals is), length (takeWhile (\<lambda>x. x < v) (intset_vals is)))"
  using assms by (rule intsetSearch_spec)

lemma cells_2: "cells 2 [a, b, c, d] = [le_sint [a, b], le_sint [c, d]]"
  by (simp add: cells_def)

lemma intset_example_wf:
  "intset_vals \<lparr>is_encoding = 2, is_length = 2, is_contents = [1, 0, 9, 0]\<rparr> = [1, 9]"
  "intset_wf \<lparr>is_encoding = 2, is_length = 2, is_contents = [1, 0, 9, 0]\<rparr>"
  by (simp_all add: intset_wf_def intset_layout_def intset_vals_def cells_2 le_sint_def
      INTSET_MAX_LEN_def to_sint_def)

theorem intsetSearch_correct_witness:
  "intsetSearch \<lparr>is_encoding = 2, is_length = 2, is_contents = [1, 0, 9, 0]\<rparr> 4 = Some (False, 1)"
  using intsetSearch_correct [OF intset_example_wf(2), of 4] by (simp add: intset_example_wf)

text \<open>
  Adding a 64-bit value to a well-formed set with room inserts it at its place in the sorted
  sequence of members, or leaves the set alone when it is there already, and says which; the set
  stays well formed, also when the value forces a wider encoding of every member.
\<close>

theorem intsetAdd_correct:
  assumes "intset_wf is" and "in_sint 64 v" and "is_length is < INTSET_MAX_LEN"
  shows "\<exists>is'. intsetAdd junk is v = Some (is', v \<notin> set (intset_vals is)) \<and> intset_wf is' \<and>
    intset_vals is' = (if v \<in> set (intset_vals is) then intset_vals is else insort v (intset_vals is))"
  using assms by (rule intsetAdd_spec)

theorem intsetAdd_correct_witness:
  "\<exists>is'. intsetAdd (\<lambda>_. 0) \<lparr>is_encoding = 2, is_length = 2, is_contents = [1, 0, 9, 0]\<rparr> 3000000000 =
    Some (is', True) \<and> intset_wf is' \<and> intset_vals is' = [1, 9, 3000000000]"
  using intsetAdd_correct [OF intset_example_wf(2), of 3000000000 "\<lambda>_. 0"]
  by (simp add: intset_example_wf in_sint_def INTSET_MAX_LEN_def)

text \<open>
  The serialised form of a set (its header and contents) passes the deep integrity check
  exactly when the set has members and they are strictly increasing, and the shallow check when it
  has members; no check reads outside the blob.
\<close>

theorem intset_blob_validates:
  assumes "intset_layout is"
  shows "intsetValidateIntegrity (intset_blob is) deep =
    Some (0 < is_length is \<and> (deep \<longrightarrow> sorted_wrt (<) (intset_vals is)))"
  using assms by (rule validate_blob)

theorem intset_blob_validates_witness:
  "intsetValidateIntegrity (intset_blob \<lparr>is_encoding = 2, is_length = 2, is_contents = [1, 0, 9, 0]\<rparr>) True =
    Some True"
  using intset_blob_validates [of "\<lparr>is_encoding = 2, is_length = 2, is_contents = [1, 0, 9, 0]\<rparr>" True]
    intset_example_wf by (simp add: intset_wf_def)

text \<open>
  The byte count of \<open>intsetMoveTail\<close> is computed in 32 bits: moving the \<open>2 ^ 29\<close> members of a
  set of 8-byte integers up by one copies no byte at all, so such an insertion would lose members.
\<close>

theorem intsetMoveTail_wraps:
  "is_encoding is = 8 \<Longrightarrow> is_length is = 2 ^ 29 \<Longrightarrow> length (is_contents is) = (2 ^ 29 + 1) * 8 \<Longrightarrow>
   intsetMoveTail is 0 1 = Some is"
  by (simp add: intsetMoveTail_def enc_width_def INTSET_ENC_INT64_def Let_def move_bytes_def
      read_bytes_def write_bytes_def)

theorem intsetMoveTail_wraps_witness:
  "intsetMoveTail \<lparr>is_encoding = 8, is_length = 2 ^ 29, is_contents = replicate ((2 ^ 29 + 1) * 8) 0\<rparr> 0 1 =
    Some \<lparr>is_encoding = 8, is_length = 2 ^ 29, is_contents = replicate ((2 ^ 29 + 1) * 8) 0\<rparr>"
  by (rule intsetMoveTail_wraps) (simp_all only: intset.simps length_replicate)

end
