(* ===== verification/Dict.thy ===== *)
theory Dict
  imports Prelude
begin

unbundle bit_operations_syntax

text \<open>
  The hash table of \<^verbatim>\<open>dict.c\<close>: chained buckets, power-of-two sizes, and two tables during an
  incremental rehash, which every lookup and update advances by one bucket.

  A chain of \<^verbatim>\<open>dictEntry\<close> nodes is the list of its key-value pairs; the pointer tagging that lets a
  table without values store a bare key in a bucket changes the memory layout only and is not
  modelled. What \<^verbatim>\<open>dictType\<close> supplies and the global \<^verbatim>\<open>dict_can_resize\<close> are the record
  \<open>dictEnv\<close>; keys are compared by equality, which is what \<^verbatim>\<open>keyCompare\<close> decides. The calls of
  the \<^verbatim>\<open>rehashingStarted\<close>, \<^verbatim>\<open>rehashingCompleted\<close> and \<^verbatim>\<open>bucketChanged\<close> callbacks are recorded in
  \<open>d_trace\<close>, in order. \<open>None\<close> is a failed assertion, an access outside a table, or an unsigned
  counter decremented at 0.
\<close>

section \<open>Tables\<close>

datatype dictResizeEnable = DICT_RESIZE_ENABLE | DICT_RESIZE_AVOID | DICT_RESIZE_FORBID

datatype dict_event =
    RehashingStarted nat nat
  | RehashingCompleted nat nat
  | BucketChanged int

record 'k dictEnv =
  hashFunction :: "'k \<Rightarrow> nat"
  resizeAllowed :: "(nat \<Rightarrow> nat \<times> nat \<Rightarrow> bool) option"
  force_full_rehash :: bool
  dict_can_resize :: dictResizeEnable

record ('k, 'v) dictht =
  ht_table :: "('k \<times> 'v) list list"
  ht_used :: nat
  ht_size_exp :: int

record ('k, 'v) dict =
  d_ht0 :: "('k, 'v) dictht"
  d_ht1 :: "('k, 'v) dictht"
  rehashidx :: int
  pauserehash :: nat
  pauseAutoResize :: int
  d_trace :: "dict_event list"

abbreviation DICT_HT_INITIAL_EXP :: int where "DICT_HT_INITIAL_EXP \<equiv> 2"
abbreviation DICT_HT_INITIAL_SIZE :: nat where "DICT_HT_INITIAL_SIZE \<equiv> 4"
abbreviation HASHTABLE_MIN_FILL :: nat where "HASHTABLE_MIN_FILL \<equiv> 8"
abbreviation dict_force_resize_ratio :: nat where "dict_force_resize_ratio \<equiv> 4"
abbreviation LONG_MAX :: nat where "LONG_MAX \<equiv> 9223372036854775807"

definition DICTHT_SIZE :: "int \<Rightarrow> nat" where
  "DICTHT_SIZE e = (if e = - 1 then 0 else 2 ^ nat e)"

definition DICTHT_SIZE_MASK :: "int \<Rightarrow> nat" where
  "DICTHT_SIZE_MASK e = (if e = - 1 then 0 else DICTHT_SIZE e - 1)"

definition dictBuckets :: "('k, 'v) dict \<Rightarrow> nat" where
  "dictBuckets d = DICTHT_SIZE (ht_size_exp (d_ht0 d)) + DICTHT_SIZE (ht_size_exp (d_ht1 d))"

definition dictSize :: "('k, 'v) dict \<Rightarrow> nat" where
  "dictSize d = ht_used (d_ht0 d) + ht_used (d_ht1 d)"

definition dictIsRehashing :: "('k, 'v) dict \<Rightarrow> bool" where
  "dictIsRehashing d \<longleftrightarrow> rehashidx d \<noteq> - 1"

definition get_ht :: "('k, 'v) dict \<Rightarrow> nat \<Rightarrow> ('k, 'v) dictht" where
  "get_ht d table = (if table = 0 then d_ht0 d else d_ht1 d)"

definition set_ht :: "('k, 'v) dict \<Rightarrow> nat \<Rightarrow> ('k, 'v) dictht \<Rightarrow> ('k, 'v) dict" where
  "set_ht d table ht = (if table = 0 then d\<lparr>d_ht0 := ht\<rparr> else d\<lparr>d_ht1 := ht\<rparr>)"

definition ht_bucket :: "('k, 'v) dictht \<Rightarrow> nat \<Rightarrow> ('k \<times> 'v) list option" where
  "ht_bucket ht idx = (if idx < length (ht_table ht) then Some (ht_table ht ! idx) else None)"

definition dec_used :: "nat \<Rightarrow> nat option" where
  "dec_used n = (if n = 0 then None else Some (n - 1))"

definition notify :: "('k, 'v) dict \<Rightarrow> dict_event \<Rightarrow> ('k, 'v) dict" where
  "notify d e = d\<lparr>d_trace := d_trace d @ [e]\<rparr>"

text \<open>\<^verbatim>\<open>dictRehashingInfo\<close>: the two sizes, read by the rehashing callbacks.\<close>

definition dictRehashingInfo :: "('k, 'v) dict \<Rightarrow> (nat \<times> nat) option" where
  "dictRehashingInfo d =
     (if dictIsRehashing d
      then Some (DICTHT_SIZE (ht_size_exp (d_ht0 d)), DICTHT_SIZE (ht_size_exp (d_ht1 d)))
      else None)"

definition dictReset_ht :: "('k, 'v) dictht" where
  "dictReset_ht = \<lparr>ht_table = [], ht_used = 0, ht_size_exp = - 1\<rparr>"

definition dictCreate :: "('k, 'v) dict" where
  "dictCreate =
     \<lparr>d_ht0 = dictReset_ht, d_ht1 = dictReset_ht, rehashidx = - 1, pauserehash = 0,
      pauseAutoResize = 0, d_trace = []\<rparr>"

text \<open>\<open>bit_length n\<close> is \<open>64 - clz(n)\<close>.\<close>

fun bit_length :: "nat \<Rightarrow> nat" where
  "bit_length n = (if n = 0 then 0 else Suc (bit_length (n div 2)))"

declare bit_length.simps [simp del]

definition u_dictNextExp :: "nat \<Rightarrow> int" where
  "u_dictNextExp sz =
     (if sz \<le> DICT_HT_INITIAL_SIZE then DICT_HT_INITIAL_EXP
      else if sz \<ge> LONG_MAX then 63
      else int (bit_length (sz - 1)))"

section \<open>Incremental rehashing\<close>

fun rehash_entries :: "'k dictEnv \<Rightarrow> nat \<Rightarrow> ('k, 'v) dict \<Rightarrow> ('k \<times> 'v) list \<Rightarrow> ('k, 'v) dict option" where
  "rehash_entries E idx d [] = Some d"
| "rehash_entries E idx d (de # nextde) =
     (let e0 = ht_size_exp (d_ht0 d); e1 = ht_size_exp (d_ht1 d);
          h = (if e1 > e0 then hashFunction E (fst de) AND DICTHT_SIZE_MASK e1
               else idx AND DICTHT_SIZE_MASK e1)
      in do {
        b \<leftarrow> ht_bucket (d_ht1 d) h;
        u0 \<leftarrow> dec_used (ht_used (d_ht0 d));
        rehash_entries E idx
          (d\<lparr>d_ht1 := (d_ht1 d)\<lparr>ht_table := (ht_table (d_ht1 d))[h := de # b],
                               ht_used := ht_used (d_ht1 d) + 1\<rparr>,
             d_ht0 := (d_ht0 d)\<lparr>ht_used := u0\<rparr>\<rparr>)
          nextde
      })"

definition rehashEntriesInBucketAtIndex :: "'k dictEnv \<Rightarrow> ('k, 'v) dict \<Rightarrow> nat \<Rightarrow> ('k, 'v) dict option" where
  "rehashEntriesInBucketAtIndex E d idx = do {
     b \<leftarrow> ht_bucket (d_ht0 d) idx;
     d' \<leftarrow> rehash_entries E idx d b;
     Some (d'\<lparr>d_ht0 := (d_ht0 d')\<lparr>ht_table := (ht_table (d_ht0 d'))[idx := []]\<rparr>\<rparr>)
   }"

definition dictCheckRehashingCompleted :: "('k, 'v) dict \<Rightarrow> ('k, 'v) dict \<times> bool" where
  "dictCheckRehashingCompleted d =
     (if ht_used (d_ht0 d) \<noteq> 0 then (d, False)
      else
        let s0 = DICTHT_SIZE (ht_size_exp (d_ht0 d)); s1 = DICTHT_SIZE (ht_size_exp (d_ht1 d));
            d = notify d (RehashingCompleted s0 s1);
            d = notify d (BucketChanged (- int s0))
        in (d\<lparr>d_ht0 := d_ht1 d, d_ht1 := dictReset_ht, rehashidx := - 1\<rparr>, True))"

text \<open>
  The inner loop of \<^verbatim>\<open>dictRehash\<close>: skip empty buckets, at most \<open>visits\<close> of them. The result is the
  state and the visits left, 0 when the function returns from inside the loop.
\<close>

fun skip_empty :: "('k, 'v) dict \<Rightarrow> nat \<Rightarrow> (('k, 'v) dict \<times> nat) option" where
  "skip_empty d 0 = None"
| "skip_empty d (Suc visits) =
     (if rehashidx d < 0 then None
      else do {
        b \<leftarrow> ht_bucket (d_ht0 d) (nat (rehashidx d));
        if b = []
        then (let d' = d\<lparr>rehashidx := rehashidx d + 1\<rparr>
              in if visits = 0 then Some (d', 0) else skip_empty d' visits)
        else Some (d, Suc visits)
      })"

text \<open>The outer loop; the second component tells whether it was left by the early \<^verbatim>\<open>return 1\<close>.\<close>

fun rehash_loop :: "'k dictEnv \<Rightarrow> nat \<Rightarrow> nat \<Rightarrow> ('k, 'v) dict \<Rightarrow> (('k, 'v) dict \<times> bool) option" where
  "rehash_loop E 0 visits d = Some (d, False)"
| "rehash_loop E (Suc n) visits d =
     (if ht_used (d_ht0 d) = 0 then Some (d, False)
      else if \<not> int (DICTHT_SIZE (ht_size_exp (d_ht0 d))) > rehashidx d then None
      else do {
        (d1, visits') \<leftarrow> skip_empty d visits;
        if visits' = 0 then Some (d1, True)
        else do {
          d2 \<leftarrow> rehashEntriesInBucketAtIndex E d1 (nat (rehashidx d1));
          rehash_loop E n visits' (d2\<lparr>rehashidx := rehashidx d2 + 1\<rparr>)
        }
      })"

definition rehash_avoided :: "'k dictEnv \<Rightarrow> ('k, 'v) dict \<Rightarrow> bool" where
  \<comment> \<open>the two early returns \<^verbatim>\<open>dictRehash\<close> and \<^verbatim>\<open>_dictBucketRehash\<close> start with\<close>
  "rehash_avoided E d =
     (let s0 = DICTHT_SIZE (ht_size_exp (d_ht0 d)); s1 = DICTHT_SIZE (ht_size_exp (d_ht1 d)) in
      dict_can_resize E = DICT_RESIZE_FORBID \<or> \<not> dictIsRehashing d \<or>
      dict_can_resize E = DICT_RESIZE_AVOID \<and>
        ((s1 > s0 \<and> s1 < dict_force_resize_ratio * s0) \<or>
         (s1 < s0 \<and> s0 < HASHTABLE_MIN_FILL * dict_force_resize_ratio * s1)))"

definition dictRehash :: "'k dictEnv \<Rightarrow> ('k, 'v) dict \<Rightarrow> nat \<Rightarrow> (('k, 'v) dict \<times> bool) option" where
  "dictRehash E d n =
     (if rehash_avoided E d then Some (d, False)
      else do {
        (d', early) \<leftarrow> rehash_loop E n (n * 10) d;
        if early then Some (d', True)
        else (case dictCheckRehashingCompleted d' of (d'', done) \<Rightarrow> Some (d'', \<not> done))
      })"

definition u_dictRehashStep :: "'k dictEnv \<Rightarrow> ('k, 'v) dict \<Rightarrow> ('k, 'v) dict option" where
  "u_dictRehashStep E d = (if pauserehash d = 0 then map_option fst (dictRehash E d 1) else Some d)"

definition u_dictBucketRehash :: "'k dictEnv \<Rightarrow> ('k, 'v) dict \<Rightarrow> nat \<Rightarrow> ('k, 'v) dict option" where
  "u_dictBucketRehash E d idx =
     (if pauserehash d \<noteq> 0 \<or> rehash_avoided E d then Some d
      else do {
        d' \<leftarrow> rehashEntriesInBucketAtIndex E d idx;
        Some (fst (dictCheckRehashingCompleted d'))
      })"

definition u_dictRehashStepIfNeeded :: "'k dictEnv \<Rightarrow> ('k, 'v) dict \<Rightarrow> nat \<Rightarrow> ('k, 'v) dict option" where
  "u_dictRehashStepIfNeeded E d visitedIdx =
     (if \<not> dictIsRehashing d \<or> pauserehash d \<noteq> 0 then Some d
      else if int visitedIdx \<ge> rehashidx d
      then do {
        b \<leftarrow> ht_bucket (d_ht0 d) visitedIdx;
        if b \<noteq> [] then u_dictBucketRehash E d visitedIdx else map_option fst (dictRehash E d 1)
      }
      else map_option fst (dictRehash E d 1))"

section \<open>Resizing\<close>

text \<open>\<^verbatim>\<open>while (dictRehash(d, 1000))\<close>: \<open>None\<close> is an error inside, or no end.\<close>

partial_function (option) full_rehash :: "'k dictEnv \<Rightarrow> ('k, 'v) dict \<Rightarrow> ('k, 'v) dict option" where
  "full_rehash E d = do {
     (d', more) \<leftarrow> dictRehash E d 1000;
     if more then full_rehash E d' else Some d'
   }"

text \<open>
  \<^verbatim>\<open>_dictResize\<close>: \<open>alloc\<close> is \<open>None\<close> for a null \<^verbatim>\<open>malloc_failed\<close> and otherwise whether
  \<^verbatim>\<open>ztrycalloc\<close> found memory. The result is the state, \<^verbatim>\<open>DICT_OK\<close>, and \<^verbatim>\<open>*malloc_failed\<close>.
\<close>

definition u_dictResize ::
    "'k dictEnv \<Rightarrow> ('k, 'v) dict \<Rightarrow> nat \<Rightarrow> bool option \<Rightarrow> (('k, 'v) dict \<times> bool \<times> bool) option" where
  "u_dictResize E d sz alloc =
     (if dictIsRehashing d then None
      else
        let e = u_dictNextExp sz; newsize = DICTHT_SIZE e in
        if newsize < sz \<or> (newsize * 8) mod 2 ^ 64 < newsize then Some (d, False, False)
        else if e = ht_size_exp (d_ht0 d) then Some (d, False, False)
        else if alloc = Some False then Some (d, False, True)
        else
          let new_ht = \<lparr>ht_table = replicate newsize [], ht_used = 0, ht_size_exp = e\<rparr>;
              s0 = DICTHT_SIZE (ht_size_exp (d_ht0 d));
              d1 = d\<lparr>d_ht1 := new_ht, rehashidx := 0\<rparr>;
              d1 = notify d1 (RehashingStarted s0 newsize);
              d1 = notify d1 (BucketChanged (int newsize))
          in
          if ht_size_exp (d_ht0 d) = - 1 \<or> ht_used (d_ht0 d) = 0
          then
            let d1 = notify d1 (RehashingCompleted s0 newsize);
                d1 = notify d1 (BucketChanged (- int s0))
            in Some (d1\<lparr>d_ht0 := new_ht, d_ht1 := dictReset_ht, rehashidx := - 1\<rparr>, True, False)
          else if force_full_rehash E
          then map_option (\<lambda>d2. (d2, True, False)) (full_rehash E d1)
          else Some (d1, True, False))"

definition u_dictExpand ::
    "'k dictEnv \<Rightarrow> ('k, 'v) dict \<Rightarrow> nat \<Rightarrow> bool option \<Rightarrow> (('k, 'v) dict \<times> bool \<times> bool) option" where
  "u_dictExpand E d sz alloc =
     (if dictIsRehashing d \<or> ht_used (d_ht0 d) > sz \<or> DICTHT_SIZE (ht_size_exp (d_ht0 d)) \<ge> sz
      then Some (d, False, False)
      else u_dictResize E d sz alloc)"

definition dictExpand :: "'k dictEnv \<Rightarrow> ('k, 'v) dict \<Rightarrow> nat \<Rightarrow> (('k, 'v) dict \<times> bool) option" where
  "dictExpand E d sz = map_option (\<lambda>(d', ok, _). (d', ok)) (u_dictExpand E d sz None)"

definition dictTryExpand :: "bool \<Rightarrow> 'k dictEnv \<Rightarrow> ('k, 'v) dict \<Rightarrow> nat \<Rightarrow> (('k, 'v) dict \<times> bool) option" where
  "dictTryExpand mem E d sz =
     map_option (\<lambda>(d', _, malloc_failed). (d', \<not> malloc_failed)) (u_dictExpand E d sz (Some mem))"

definition dictShrink :: "'k dictEnv \<Rightarrow> ('k, 'v) dict \<Rightarrow> nat \<Rightarrow> (('k, 'v) dict \<times> bool) option" where
  "dictShrink E d sz =
     (if dictIsRehashing d \<or> ht_used (d_ht0 d) > sz \<or> DICTHT_SIZE (ht_size_exp (d_ht0 d)) \<le> sz
      then Some (d, False)
      else map_option (\<lambda>(d', ok, _). (d', ok)) (u_dictResize E d sz None))"

definition dictTypeResizeAllowed :: "'k dictEnv \<Rightarrow> ('k, 'v) dict \<Rightarrow> nat \<Rightarrow> bool" where
  "dictTypeResizeAllowed E d sz =
     (case resizeAllowed E of None \<Rightarrow> True
      | Some f \<Rightarrow> f (DICTHT_SIZE (u_dictNextExp sz) * 8)
          (ht_used (d_ht0 d), DICTHT_SIZE (ht_size_exp (d_ht0 d))))"

definition dictExpandIfNeeded :: "'k dictEnv \<Rightarrow> ('k, 'v) dict \<Rightarrow> (('k, 'v) dict \<times> bool) option" where
  "dictExpandIfNeeded E d =
     (let s0 = DICTHT_SIZE (ht_size_exp (d_ht0 d)); u0 = ht_used (d_ht0 d) in
      if dictIsRehashing d then Some (d, True)
      else if s0 = 0 then map_option (\<lambda>(d', _). (d', True)) (dictExpand E d DICT_HT_INITIAL_SIZE)
      else if dict_can_resize E = DICT_RESIZE_ENABLE \<and> u0 \<ge> s0 \<or>
              dict_can_resize E \<noteq> DICT_RESIZE_FORBID \<and> u0 \<ge> dict_force_resize_ratio * s0
      then (if dictTypeResizeAllowed E d (u0 + 1)
            then map_option (\<lambda>(d', _). (d', True)) (dictExpand E d (u0 + 1)) else Some (d, True))
      else Some (d, False))"

definition u_dictExpandIfNeeded :: "'k dictEnv \<Rightarrow> ('k, 'v) dict \<Rightarrow> (('k, 'v) dict \<times> bool) option" where
  "u_dictExpandIfNeeded E d = (if pauseAutoResize d > 0 then Some (d, False) else dictExpandIfNeeded E d)"

definition dictShrinkIfNeeded :: "'k dictEnv \<Rightarrow> ('k, 'v) dict \<Rightarrow> (('k, 'v) dict \<times> bool) option" where
  "dictShrinkIfNeeded E d =
     (let s0 = DICTHT_SIZE (ht_size_exp (d_ht0 d)); u0 = ht_used (d_ht0 d) in
      if dictIsRehashing d then Some (d, True)
      else if s0 \<le> DICT_HT_INITIAL_SIZE then Some (d, True)
      else if dict_can_resize E = DICT_RESIZE_ENABLE \<and> u0 * HASHTABLE_MIN_FILL \<le> s0 \<or>
              dict_can_resize E \<noteq> DICT_RESIZE_FORBID \<and>
                u0 * HASHTABLE_MIN_FILL * dict_force_resize_ratio \<le> s0
      then (if dictTypeResizeAllowed E d u0
            then map_option (\<lambda>(d', _). (d', True)) (dictShrink E d u0) else Some (d, True))
      else Some (d, False))"

definition u_dictShrinkIfNeeded :: "'k dictEnv \<Rightarrow> ('k, 'v) dict \<Rightarrow> ('k, 'v) dict option" where
  "u_dictShrinkIfNeeded E d =
     (if pauseAutoResize d > 0 then Some d else map_option fst (dictShrinkIfNeeded E d))"


section \<open>Lookup, insertion and deletion\<close>

definition hash_idx :: "nat \<Rightarrow> ('k, 'v) dictht \<Rightarrow> nat" where
  "hash_idx h ht = h AND DICTHT_SIZE_MASK (ht_size_exp ht)"

text \<open>
  The search loop over the tables, shared by lookup, insertion and deletion: table 0 is skipped
  when its bucket has been rehashed. The result is the entry found, with its table and index, and
  the last bucket visited.
\<close>

fun find_tables :: "('k, 'v) dict \<Rightarrow> 'k \<Rightarrow> nat \<Rightarrow> nat \<Rightarrow> nat list \<Rightarrow> (nat \<times> nat) option \<Rightarrow>
    ((nat \<times> nat \<times> 'k \<times> 'v) option \<times> (nat \<times> nat) option) option" where
  "find_tables d key hash idx [] bucket = Some (None, bucket)"
| "find_tables d key hash idx (table # tables) bucket =
     (if table = 0 \<and> int idx < rehashidx d then find_tables d key hash idx tables bucket
      else let idx = hash_idx hash (get_ht d table) in do {
        b \<leftarrow> ht_bucket (get_ht d table) idx;
        case find (\<lambda>e. fst e = key) b of
          Some e \<Rightarrow> Some (Some (table, idx, e), Some (table, idx))
        | None \<Rightarrow> find_tables d key hash idx tables (Some (table, idx))
      })"

definition dict_tables :: "('k, 'v) dict \<Rightarrow> nat list" where
  "dict_tables d = (if dictIsRehashing d then [0, 1] else [0])"

definition dictFindLinkInternal ::
    "'k dictEnv \<Rightarrow> ('k, 'v) dict \<Rightarrow> 'k \<Rightarrow> bool \<Rightarrow>
     (('k, 'v) dict \<times> (nat \<times> nat \<times> 'k \<times> 'v) option \<times> (nat \<times> nat) option) option" where
  "dictFindLinkInternal E d key want_bucket =
     (if \<not> want_bucket \<and> dictSize d = 0 then Some (d, None, None)
      else let hash = hashFunction E key; idx = hash_idx hash (d_ht0 d) in do {
        d' \<leftarrow> u_dictRehashStepIfNeeded E d idx;
        r \<leftarrow> find_tables d' key hash idx (dict_tables d') None;
        Some (d', r)
      })"

definition dictFindLink ::
    "'k dictEnv \<Rightarrow> ('k, 'v) dict \<Rightarrow> 'k \<Rightarrow> bool \<Rightarrow>
     (('k, 'v) dict \<times> (nat \<times> nat \<times> 'k \<times> 'v) option \<times> (nat \<times> nat) option) option" where
  "dictFindLink E d key want_bucket =
     (if dictSize d = 0 then Some (d, None, None) else dictFindLinkInternal E d key want_bucket)"

definition dictFind :: "'k dictEnv \<Rightarrow> ('k, 'v) dict \<Rightarrow> 'k \<Rightarrow> (('k, 'v) dict \<times> ('k \<times> 'v) option) option" where
  "dictFind E d key =
     map_option (\<lambda>(d', link, _). (d', map_option (\<lambda>(_, _, e). e) link)) (dictFindLink E d key False)"

definition dictFetchValue :: "'k dictEnv \<Rightarrow> ('k, 'v) dict \<Rightarrow> 'k \<Rightarrow> (('k, 'v) dict \<times> 'v option) option" where
  "dictFetchValue E d key = map_option (\<lambda>(d', he). (d', map_option snd he)) (dictFind E d key)"

definition dictFindLinkForInsert ::
    "'k dictEnv \<Rightarrow> ('k, 'v) dict \<Rightarrow> 'k \<Rightarrow>
     (('k, 'v) dict \<times> (nat \<times> nat \<times> 'k \<times> 'v) option \<times> (nat \<times> nat) option) option" where
  "dictFindLinkForInsert E d key =
     (let hash = hashFunction E key; idx = hash_idx hash (d_ht0 d) in do {
        d1 \<leftarrow> u_dictRehashStepIfNeeded E d idx;
        (d2, _) \<leftarrow> u_dictExpandIfNeeded E d1;
        r \<leftarrow> find_tables d2 key hash idx (dict_tables d2) None;
        Some (d2, r)
      })"

definition dictInsertKeyAtLink ::
    "('k, 'v) dict \<Rightarrow> 'k \<Rightarrow> 'v \<Rightarrow> nat \<times> nat \<Rightarrow> ('k, 'v) dict option" where
  \<comment> \<open>the value is stored by the caller, right after the call\<close>
  "dictInsertKeyAtLink d key val link =
     (let htidx = (if dictIsRehashing d then 1 else 0); ht = get_ht d htidx in
      if fst link \<noteq> htidx \<or> snd link > DICTHT_SIZE_MASK (ht_size_exp ht) then None
      else do {
        b \<leftarrow> ht_bucket ht (snd link);
        Some (set_ht d htidx (ht\<lparr>ht_table := (ht_table ht)[snd link := (key, val) # b],
                                ht_used := ht_used ht + 1\<rparr>))
      })"

text \<open>
  \<^verbatim>\<open>dictAddRaw\<close>, with the value its caller stores in the entry it returns. The result tells
  whether an entry was added, and otherwise which one exists.
\<close>

definition dictAddRaw ::
    "'k dictEnv \<Rightarrow> ('k, 'v) dict \<Rightarrow> 'k \<Rightarrow> 'v \<Rightarrow> (('k, 'v) dict \<times> (nat \<times> nat \<times> 'k \<times> 'v) option) option" where
  "dictAddRaw E d key val = do {
     (d1, existing, bucket) \<leftarrow> dictFindLinkForInsert E d key;
     case existing of
       Some e \<Rightarrow> Some (d1, Some e)
     | None \<Rightarrow> do {
         position \<leftarrow> bucket;
         d2 \<leftarrow> dictInsertKeyAtLink d1 key val position;
         Some (d2, None)
       }
   }"

definition dictAdd :: "'k dictEnv \<Rightarrow> ('k, 'v) dict \<Rightarrow> 'k \<Rightarrow> 'v \<Rightarrow> (('k, 'v) dict \<times> bool) option" where
  "dictAdd E d key val = map_option (\<lambda>(d', existing). (d', existing = None)) (dictAddRaw E d key val)"

primrec set_val :: "'k \<Rightarrow> 'v \<Rightarrow> ('k \<times> 'v) list \<Rightarrow> ('k \<times> 'v) list" where
  \<comment> \<open>\<^verbatim>\<open>dictSetVal\<close> on the entry with that key\<close>
  "set_val key val [] = []"
| "set_val key val (e # es) = (if fst e = key then (fst e, val) # es else e # set_val key val es)"

definition dictSetVal_at :: "('k, 'v) dict \<Rightarrow> nat \<Rightarrow> nat \<Rightarrow> 'k \<Rightarrow> 'v \<Rightarrow> ('k, 'v) dict option" where
  "dictSetVal_at d table idx key val = do {
     b \<leftarrow> ht_bucket (get_ht d table) idx;
     Some (set_ht d table ((get_ht d table)\<lparr>ht_table :=
       (ht_table (get_ht d table))[idx := set_val key val b]\<rparr>))
   }"

definition dictReplace :: "'k dictEnv \<Rightarrow> ('k, 'v) dict \<Rightarrow> 'k \<Rightarrow> 'v \<Rightarrow> (('k, 'v) dict \<times> bool) option" where
  "dictReplace E d key val = do {
     (d1, existing) \<leftarrow> dictAddRaw E d key val;
     case existing of
       None \<Rightarrow> Some (d1, True)
     | Some (table, idx, e) \<Rightarrow> do {
         d2 \<leftarrow> dictSetVal_at d1 table idx key val;
         Some (d2, False)
       }
   }"

definition dictAddOrFind ::
    "'k dictEnv \<Rightarrow> ('k, 'v) dict \<Rightarrow> 'k \<Rightarrow> 'v \<Rightarrow> (('k, 'v) dict \<times> ('k \<times> 'v)) option" where
  "dictAddOrFind E d key val = do {
     (d1, existing) \<leftarrow> dictAddRaw E d key val;
     Some (d1, case existing of None \<Rightarrow> (key, val) | Some (_, _, e) \<Rightarrow> e)
   }"

primrec remove_entry :: "'k \<Rightarrow> ('k \<times> 'v) list \<Rightarrow> ('k \<times> 'v) list" where
  "remove_entry key [] = []"
| "remove_entry key (e # es) = (if fst e = key then es else e # remove_entry key es)"

definition unlink_at :: "('k, 'v) dict \<Rightarrow> nat \<Rightarrow> nat \<Rightarrow> 'k \<Rightarrow> ('k, 'v) dict option" where
  "unlink_at d table idx key = do {
     b \<leftarrow> ht_bucket (get_ht d table) idx;
     u \<leftarrow> dec_used (ht_used (get_ht d table));
     Some (set_ht d table ((get_ht d table)\<lparr>ht_table :=
       (ht_table (get_ht d table))[idx := remove_entry key b], ht_used := u\<rparr>))
   }"

definition dictGenericDelete ::
    "'k dictEnv \<Rightarrow> ('k, 'v) dict \<Rightarrow> 'k \<Rightarrow> (('k, 'v) dict \<times> ('k \<times> 'v) option) option" where
  "dictGenericDelete E d key =
     (if dictSize d = 0 then Some (d, None)
      else let h = hashFunction E key; idx = hash_idx h (d_ht0 d) in do {
        d1 \<leftarrow> u_dictRehashStepIfNeeded E d idx;
        (found, _) \<leftarrow> find_tables d1 key h idx (dict_tables d1) None;
        case found of
          None \<Rightarrow> Some (d1, None)
        | Some (table, i, he) \<Rightarrow> do {
            d2 \<leftarrow> unlink_at d1 table i key;
            d3 \<leftarrow> u_dictShrinkIfNeeded E d2;
            Some (d3, Some he)
          }
      })"

definition dictDelete :: "'k dictEnv \<Rightarrow> ('k, 'v) dict \<Rightarrow> 'k \<Rightarrow> (('k, 'v) dict \<times> bool) option" where
  "dictDelete E d key = map_option (\<lambda>(d', he). (d', he \<noteq> None)) (dictGenericDelete E d key)"

definition dictUnlink :: "'k dictEnv \<Rightarrow> ('k, 'v) dict \<Rightarrow> 'k \<Rightarrow> (('k, 'v) dict \<times> ('k \<times> 'v) option) option" where
  "dictUnlink E d key = dictGenericDelete E d key"

definition dictTwoPhaseUnlinkFind ::
    "'k dictEnv \<Rightarrow> ('k, 'v) dict \<Rightarrow> 'k \<Rightarrow> (('k, 'v) dict \<times> (nat \<times> nat \<times> 'k \<times> 'v) option) option" where
  "dictTwoPhaseUnlinkFind E d key =
     (if dictSize d = 0 then Some (d, None)
      else do {
        d1 \<leftarrow> (if dictIsRehashing d then u_dictRehashStep E d else Some d);
        let h = hashFunction E key;
        (found, _) \<leftarrow> find_tables d1 key h (hash_idx h (d_ht0 d1)) (dict_tables d1) None;
        case found of
          None \<Rightarrow> Some (d1, None)
        | Some link \<Rightarrow> Some (d1\<lparr>pauserehash := pauserehash d1 + 1\<rparr>, Some link)
      })"

definition dictTwoPhaseUnlinkFree ::
    "'k dictEnv \<Rightarrow> ('k, 'v) dict \<Rightarrow> (nat \<times> nat \<times> 'k \<times> 'v) option \<Rightarrow> ('k, 'v) dict option" where
  "dictTwoPhaseUnlinkFree E d plink =
     (case plink of
        None \<Rightarrow> Some d
      | Some (table, idx, e) \<Rightarrow> do {
          d1 \<leftarrow> unlink_at d table idx (fst e);
          d2 \<leftarrow> u_dictShrinkIfNeeded E d1;
          p \<leftarrow> dec_used (pauserehash d2);
          Some (d2\<lparr>pauserehash := p\<rparr>)
        })"

text \<open>
  \<^verbatim>\<open>_dictClear\<close> frees the chains from bucket 0 on until the count says none is left, then drops
  the table.
\<close>

fun clear_loop :: "('k \<times> 'v) list list \<Rightarrow> nat \<Rightarrow> nat option" where
  "clear_loop [] used = Some used"
| "clear_loop (b # bs) used =
     (if used = 0 then Some 0
      else if length b \<le> used then clear_loop bs (used - length b) else None)"

definition u_dictClear :: "('k, 'v) dict \<Rightarrow> nat \<Rightarrow> ('k, 'v) dict option" where
  "u_dictClear d htidx = do {
     _ \<leftarrow> clear_loop (ht_table (get_ht d htidx)) (ht_used (get_ht d htidx));
     Some (set_ht d htidx dictReset_ht)
   }"

definition dictEmpty :: "('k, 'v) dict \<Rightarrow> ('k, 'v) dict option" where
  "dictEmpty d =
     (let d1 = (if dictIsRehashing d
                then notify d (RehashingCompleted (DICTHT_SIZE (ht_size_exp (d_ht0 d)))
                  (DICTHT_SIZE (ht_size_exp (d_ht1 d)))) else d);
          d2 = notify d1 (BucketChanged (- int (dictBuckets d1)))
      in do {
        d3 \<leftarrow> u_dictClear d2 0;
        d4 \<leftarrow> u_dictClear d3 1;
        Some (d4\<lparr>rehashidx := - 1, pauserehash := 0, pauseAutoResize := 0\<rparr>)
      })"


text \<open>
  \<^verbatim>\<open>dictRelease\<close>: the callbacks, then both tables are cleared; the result is what is freed.
\<close>

definition dictRelease :: "('k, 'v) dict \<Rightarrow> ('k, 'v) dict option" where
  "dictRelease d =
     (let d1 = (if dictIsRehashing d
                then notify d (RehashingCompleted (DICTHT_SIZE (ht_size_exp (d_ht0 d)))
                  (DICTHT_SIZE (ht_size_exp (d_ht1 d)))) else d);
          d2 = notify d1 (BucketChanged (- int (dictBuckets d1)))
      in do {
        d3 \<leftarrow> u_dictClear d2 0;
        u_dictClear d3 1
      })"

end
