(* ===== verification/Dict_Inv.thy ===== *)
theory Dict_Inv
  imports Dict "HOL-Library.Multiset"
begin

text \<open>
  The invariant of the hash table and the finite map it represents; the incremental rehash, the
  resize and every update keep the invariant, and rehashing and resizing keep the map.
\<close>

section \<open>Representation\<close>

definition ht_entries :: "('k, 'v) dictht \<Rightarrow> ('k \<times> 'v) list" where
  "ht_entries ht = concat (ht_table ht)"

definition dict_entries :: "('k, 'v) dict \<Rightarrow> ('k \<times> 'v) list" where
  "dict_entries d = ht_entries (d_ht0 d) @ ht_entries (d_ht1 d)"

definition dict_map :: "('k, 'v) dict \<Rightarrow> 'k \<rightharpoonup> 'v" where
  "dict_map d = map_of (dict_entries d)"

definition ht_wf :: "'k dictEnv \<Rightarrow> ('k, 'v) dictht \<Rightarrow> bool" where
  "ht_wf E ht \<longleftrightarrow>
     (ht_size_exp ht = - 1 \<and> ht_table ht = [] \<or>
      0 \<le> ht_size_exp ht \<and> ht_size_exp ht \<le> 60 \<and> length (ht_table ht) = 2 ^ nat (ht_size_exp ht)) \<and>
     ht_used ht = length (ht_entries ht) \<and>
     (\<forall>i < length (ht_table ht). \<forall>e \<in> set (ht_table ht ! i). hash_idx (hashFunction E (fst e)) ht = i)"

text \<open>What the callbacks have been told: the bucket count and the size of a table being rehashed.\<close>

fun event_buckets :: "dict_event \<Rightarrow> int" where
  "event_buckets (BucketChanged n) = n"
| "event_buckets _ = 0"

fun event_overhead :: "dict_event \<Rightarrow> int" where
  "event_overhead (RehashingStarted from _) = int from"
| "event_overhead (RehashingCompleted from _) = - int from"
| "event_overhead _ = 0"

text \<open>The start and the end of a rehash alternate; the state is whether one is under way.\<close>

fun event_bracket :: "bool option \<Rightarrow> dict_event \<Rightarrow> bool option" where
  "event_bracket (Some False) (RehashingStarted _ _) = Some True"
| "event_bracket (Some True) (RehashingCompleted _ _) = Some False"
| "event_bracket st (BucketChanged _) = st"
| "event_bracket _ _ = None"

definition trace_ok :: "('k, 'v) dict \<Rightarrow> bool" where
  "trace_ok d \<longleftrightarrow> sum_list (map event_buckets (d_trace d)) = int (dictBuckets d) \<and>
     sum_list (map event_overhead (d_trace d)) =
       (if dictIsRehashing d then int (DICTHT_SIZE (ht_size_exp (d_ht0 d))) else 0) \<and>
     foldl event_bracket (Some False) (d_trace d) = Some (dictIsRehashing d)"

definition dict_wf :: "'k dictEnv \<Rightarrow> ('k, 'v) dict \<Rightarrow> bool" where
  "dict_wf E d \<longleftrightarrow> ht_wf E (d_ht0 d) \<and> ht_wf E (d_ht1 d) \<and> distinct (map fst (dict_entries d)) \<and>
     trace_ok d \<and>
     (if dictIsRehashing d
      then 0 \<le> ht_size_exp (d_ht0 d) \<and> 0 \<le> ht_size_exp (d_ht1 d) \<and>
        ht_size_exp (d_ht0 d) \<noteq> ht_size_exp (d_ht1 d) \<and>
        0 \<le> rehashidx d \<and> rehashidx d \<le> int (length (ht_table (d_ht0 d))) \<and>
        (\<forall>i < nat (rehashidx d). ht_table (d_ht0 d) ! i = [])
      else ht_size_exp (d_ht1 d) = - 1)"

definition trace_ext :: "('k, 'v) dict \<Rightarrow> ('k, 'v) dict \<Rightarrow> bool" where
  "trace_ext d d' \<longleftrightarrow> (\<exists>es. d_trace d' = d_trace d @ es)"

lemma trace_ext_refl [simp]: "trace_ext d d"
  by (simp add: trace_ext_def)

lemma trace_ext_trans: "trace_ext a b \<Longrightarrow> trace_ext b c \<Longrightarrow> trace_ext a c"
  by (auto simp: trace_ext_def)

lemma trace_ext_eq: "d_trace d' = d_trace d \<Longrightarrow> trace_ext d d'"
  by (simp add: trace_ext_def)

lemma trace_ext_append: "d_trace d' = d_trace d @ es \<Longrightarrow> trace_ext d d'"
  by (auto simp: trace_ext_def)

text \<open>A step that may reorganise the tables: same keys and values, same pause counters.\<close>

definition dict_same :: "'k dictEnv \<Rightarrow> ('k, 'v) dict \<Rightarrow> ('k, 'v) dict \<Rightarrow> bool" where
  "dict_same E d d' \<longleftrightarrow> dict_wf E d' \<and> mset (dict_entries d') = mset (dict_entries d) \<and>
     pauserehash d' = pauserehash d \<and> pauseAutoResize d' = pauseAutoResize d \<and> trace_ext d d'"

lemma dict_same_refl: "dict_wf E d \<Longrightarrow> dict_same E d d"
  by (simp add: dict_same_def)

lemma dict_same_trans [trans]: "dict_same E a b \<Longrightarrow> dict_same E b c \<Longrightarrow> dict_same E a c"
  using trace_ext_trans by (auto simp: dict_same_def)

lemma distinct_keys_mset: "mset xs = mset ys \<Longrightarrow> distinct (map fst xs) = distinct (map fst ys)"
  by (rule mset_eq_imp_distinct_iff) simp

lemma map_of_mset_eq:
  assumes "distinct (map fst xs)" and "mset xs = mset ys"
  shows "map_of xs = map_of ys"
  using assms distinct_keys_mset [OF assms(2)] mset_eq_setD [OF assms(2)] map_of_inject_set [of xs ys]
  by simp

lemma dict_same_map: "dict_wf E d \<Longrightarrow> dict_same E d d' \<Longrightarrow> dict_map d' = dict_map d"
  unfolding dict_map_def dict_same_def dict_wf_def by (metis map_of_mset_eq)

lemma dict_same_size: "dict_wf E d \<Longrightarrow> dict_same E d d' \<Longrightarrow> dictSize d' = dictSize d"
proof -
  assume "dict_wf E d" "dict_same E d d'"
  then have "dictSize d = length (dict_entries d)" "dictSize d' = length (dict_entries d')"
    by (simp_all add: dict_same_def dict_wf_def ht_wf_def dictSize_def dict_entries_def)
  then show ?thesis using \<open>dict_same E d d'\<close> by (metis dict_same_def size_mset)
qed

section \<open>Buckets\<close>

lemma hash_idx_mod: "0 \<le> ht_size_exp ht \<Longrightarrow> hash_idx h ht = h mod 2 ^ nat (ht_size_exp ht)"
proof -
  assume e: "0 \<le> ht_size_exp ht"
  have "DICTHT_SIZE_MASK (ht_size_exp ht) = mask (nat (ht_size_exp ht))"
    using e by (simp add: DICTHT_SIZE_MASK_def DICTHT_SIZE_def mask_eq_exp_minus_1)
  then show ?thesis by (simp add: hash_idx_def flip: take_bit_eq_mask take_bit_eq_mod)
qed

lemma hash_idx_less: "ht_wf E ht \<Longrightarrow> 0 \<le> ht_size_exp ht \<Longrightarrow> hash_idx h ht < length (ht_table ht)"
  by (auto simp: ht_wf_def hash_idx_mod)

lemma mset_concat_update:
  "i < length xss \<Longrightarrow> mset (concat (xss[i := b])) + mset (xss ! i) = mset (concat xss) + mset b"
proof (induction xss arbitrary: i)
  case Nil
  then show ?case by simp
next
  case (Cons xs xss)
  then show ?case
  proof (cases i)
    case 0
    then show ?thesis by simp
  next
    case (Suc j)
    then show ?thesis using Cons.IH [of j] Cons.prems by simp
  qed
qed

lemma length_concat_update:
  assumes "i < length xss"
  shows "length (concat (xss[i := b])) + length (xss ! i) = length (concat xss) + length b"
  using arg_cong [OF mset_concat_update [OF assms, of b], of size] by simp

lemma ht_update_bucket:
  assumes wf: "ht_wf E ht" and i: "i < length (ht_table ht)"
    and b: "\<And>e. e \<in> set b \<Longrightarrow> hash_idx (hashFunction E (fst e)) ht = i"
    and u: "u + length (ht_table ht ! i) = ht_used ht + length b"
  shows "ht_wf E (ht\<lparr>ht_table := (ht_table ht)[i := b], ht_used := u\<rparr>)"
    and "mset (ht_entries (ht\<lparr>ht_table := (ht_table ht)[i := b], ht_used := u\<rparr>)) + mset (ht_table ht ! i) =
      mset (ht_entries ht) + mset b"
proof -
  show "mset (ht_entries (ht\<lparr>ht_table := (ht_table ht)[i := b], ht_used := u\<rparr>)) + mset (ht_table ht ! i) =
      mset (ht_entries ht) + mset b"
    using mset_concat_update [OF i, of b] by (simp add: ht_entries_def)
  have "u = length (concat ((ht_table ht)[i := b]))"
    using length_concat_update [OF i, of b] u wf by (simp add: ht_wf_def ht_entries_def)
  moreover have "hash_idx h (ht\<lparr>ht_table := (ht_table ht)[i := b], ht_used := u\<rparr>) = hash_idx h ht" for h
    by (simp add: hash_idx_def)
  ultimately show "ht_wf E (ht\<lparr>ht_table := (ht_table ht)[i := b], ht_used := u\<rparr>)"
    using wf i b by (auto simp: ht_wf_def ht_entries_def nth_list_update)
qed

lemma ht_bucket_Some: "i < length (ht_table ht) \<Longrightarrow> ht_bucket ht i = Some (ht_table ht ! i)"
  by (simp add: ht_bucket_def)

lemma ht_wf_reset: "ht_wf E dictReset_ht"
  by (simp add: ht_wf_def dictReset_ht_def ht_entries_def)

lemma ht_wf_empty: "ht_wf E ht \<Longrightarrow> ht_size_exp ht = - 1 \<Longrightarrow> ht = dictReset_ht"
  by (auto simp: ht_wf_def dictReset_ht_def ht_entries_def intro: dictht.equality)

lemma dict_wf_create: "dict_wf E dictCreate"
  by (simp add: dict_wf_def dictCreate_def ht_wf_reset dictIsRehashing_def trace_ok_def dict_entries_def
      dictBuckets_def) (simp add: ht_entries_def dictReset_ht_def DICTHT_SIZE_def)

lemma DICTHT_SIZE_length: "ht_wf E ht \<Longrightarrow> DICTHT_SIZE (ht_size_exp ht) = length (ht_table ht)"
  by (auto simp: ht_wf_def DICTHT_SIZE_def)

section \<open>Moving a bucket\<close>

lemma mask_narrow:
  assumes "0 \<le> ht_size_exp ht1" and "ht_size_exp ht1 \<le> ht_size_exp ht0"
  shows "hash_idx h ht0 AND DICTHT_SIZE_MASK (ht_size_exp ht1) = hash_idx h ht1"
proof -
  have "(2::nat) ^ nat (ht_size_exp ht1) dvd 2 ^ nat (ht_size_exp ht0)"
    using assms by (intro le_imp_power_dvd) (simp add: nat_mono)
  then have "h mod 2 ^ nat (ht_size_exp ht0) mod 2 ^ nat (ht_size_exp ht1) = h mod 2 ^ nat (ht_size_exp ht1)"
    by (rule mod_mod_cancel)
  then have "hash_idx (hash_idx h ht0) ht1 = hash_idx h ht1" using assms by (simp add: hash_idx_mod)
  then show ?thesis by (simp only: hash_idx_def [of "hash_idx h ht0" ht1])
qed

lemma rehash_entries_ok:
  "ht_wf E (d_ht1 d) \<Longrightarrow> 0 \<le> ht_size_exp (d_ht0 d) \<Longrightarrow> 0 \<le> ht_size_exp (d_ht1 d) \<Longrightarrow>
   (\<And>e. e \<in> set es \<Longrightarrow> hash_idx (hashFunction E (fst e)) (d_ht0 d) = idx) \<Longrightarrow>
   length es \<le> ht_used (d_ht0 d) \<Longrightarrow>
   \<exists>h1. rehash_entries E idx d es =
       Some (d\<lparr>d_ht0 := (d_ht0 d)\<lparr>ht_used := ht_used (d_ht0 d) - length es\<rparr>, d_ht1 := h1\<rparr>) \<and>
     ht_wf E h1 \<and> ht_size_exp h1 = ht_size_exp (d_ht1 d) \<and>
     mset (ht_entries h1) = mset (ht_entries (d_ht1 d)) + mset es"
proof (induction es arbitrary: d)
  case Nil
  then show ?case by (intro exI [of _ "d_ht1 d"]) simp
next
  case (Cons e es)
  let ?h0 = "d_ht0 d" and ?h1 = "d_ht1 d"
  define h where "h = hash_idx (hashFunction E (fst e)) ?h1"
  have hh: "(if ht_size_exp ?h1 > ht_size_exp ?h0
      then hashFunction E (fst e) AND DICTHT_SIZE_MASK (ht_size_exp ?h1)
      else idx AND DICTHT_SIZE_MASK (ht_size_exp ?h1)) = h"
    using mask_narrow [of ?h1 ?h0 "hashFunction E (fst e)"] Cons.prems(3,4) by (auto simp: h_def hash_idx_def)
  have hl: "h < length (ht_table ?h1)" using hash_idx_less [OF Cons.prems(1,3)] by (simp add: h_def)
  let ?b = "ht_table ?h1 ! h"
  define g1 where "g1 = ?h1\<lparr>ht_table := (ht_table ?h1)[h := e # ?b], ht_used := ht_used ?h1 + 1\<rparr>"
  have inb: "hash_idx (hashFunction E (fst x)) ?h1 = h" if "x \<in> set (e # ?b)" for x
    using that Cons.prems(1) hl by (auto simp: h_def ht_wf_def)
  have g1: "ht_wf E g1" "mset (ht_entries g1) = mset (ht_entries ?h1) + {#e#}"
    using ht_update_bucket [OF Cons.prems(1) hl, of "e # ?b" "ht_used ?h1 + 1"] inb by (simp_all add: g1_def)
  define d1 where "d1 = d\<lparr>d_ht1 := g1, d_ht0 := ?h0\<lparr>ht_used := ht_used ?h0 - 1\<rparr>\<rparr>"
  have step: "rehash_entries E idx d (e # es) = rehash_entries E idx d1 es"
    using Cons.prems(5) hh hl by (simp add: ht_bucket_Some dec_used_def d1_def g1_def Let_def)
  have hx: "hash_idx (hashFunction E (fst x)) (d_ht0 d1) = idx" if "x \<in> set es" for x
    using Cons.prems(4) [of x] that by (simp add: d1_def hash_idx_def)
  have f: "ht_wf E (d_ht1 d1)" "0 \<le> ht_size_exp (d_ht0 d1)" "0 \<le> ht_size_exp (d_ht1 d1)"
    "length es \<le> ht_used (d_ht0 d1)"
    using g1(1) Cons.prems by (auto simp: d1_def g1_def)
  obtain k1 where k1: "rehash_entries E idx d1 es =
       Some (d1\<lparr>d_ht0 := (d_ht0 d1)\<lparr>ht_used := ht_used (d_ht0 d1) - length es\<rparr>, d_ht1 := k1\<rparr>)"
     "ht_wf E k1" "ht_size_exp k1 = ht_size_exp (d_ht1 d1)"
     "mset (ht_entries k1) = mset (ht_entries (d_ht1 d1)) + mset es"
    using Cons.IH [OF f(1-3) hx f(4)] by blast
  then show ?case
    using step g1 by (intro exI [of _ k1]) (simp add: d1_def g1_def)
qed

lemma ht_bucket_used:
  "ht_wf E ht \<Longrightarrow> i < length (ht_table ht) \<Longrightarrow> length (ht_table ht ! i) \<le> ht_used ht"
  using length_concat_update [of i "ht_table ht" "[]"] by (simp add: ht_wf_def ht_entries_def)

lemma rehash_bucket_ok:
  assumes wf: "dict_wf E d" and r: "dictIsRehashing d" and i: "idx < length (ht_table (d_ht0 d))"
  shows "\<exists>d'. rehashEntriesInBucketAtIndex E d idx = Some d' \<and> dict_same E d d' \<and>
    rehashidx d' = rehashidx d \<and> ht_size_exp (d_ht0 d') = ht_size_exp (d_ht0 d) \<and>
    ht_size_exp (d_ht1 d') = ht_size_exp (d_ht1 d) \<and>
    ht_table (d_ht0 d') = (ht_table (d_ht0 d))[idx := []]"
proof -
  let ?h0 = "d_ht0 d" and ?h1 = "d_ht1 d"
  let ?b = "ht_table ?h0 ! idx"
  have w: "ht_wf E ?h0" "ht_wf E ?h1" "0 \<le> ht_size_exp ?h0" "0 \<le> ht_size_exp ?h1"
    using wf r by (simp_all add: dict_wf_def)
  have b: "hash_idx (hashFunction E (fst e)) ?h0 = idx" if "e \<in> set ?b" for e
    using w(1) i that by (simp add: ht_wf_def)
  have len: "length ?b \<le> ht_used ?h0" using ht_bucket_used [OF w(1) i] .
  obtain h1 where h1: "rehash_entries E idx d ?b =
      Some (d\<lparr>d_ht0 := ?h0\<lparr>ht_used := ht_used ?h0 - length ?b\<rparr>, d_ht1 := h1\<rparr>)"
    "ht_wf E h1" "ht_size_exp h1 = ht_size_exp ?h1"
    "mset (ht_entries h1) = mset (ht_entries ?h1) + mset ?b"
    using rehash_entries_ok [OF w(2,3,4) b len] by auto
  define h0 where "h0 = ?h0\<lparr>ht_table := (ht_table ?h0)[idx := []], ht_used := ht_used ?h0 - length ?b\<rparr>"
  have h0: "ht_wf E h0" "mset (ht_entries h0) + mset ?b = mset (ht_entries ?h0)"
    using ht_update_bucket [OF w(1) i, of "[]" "ht_used ?h0 - length ?b"] len by (simp_all add: h0_def)
  define d' where "d' = d\<lparr>d_ht0 := h0, d_ht1 := h1\<rparr>"
  have run: "rehashEntriesInBucketAtIndex E d idx = Some d'"
    using i h1(1) by (simp add: rehashEntriesInBucketAtIndex_def ht_bucket_Some d'_def h0_def)
  have ms: "mset (dict_entries d') = mset (dict_entries d)"
    using h0(2) h1(4) by (simp add: dict_entries_def d'_def ac_simps)
  then have "distinct (map fst (dict_entries d'))"
    using wf distinct_keys_mset [OF ms] by (simp add: dict_wf_def)
  moreover have "trace_ok d'"
    using wf h1(3) by (simp add: dict_wf_def trace_ok_def d'_def h0_def dictBuckets_def dictIsRehashing_def)
  ultimately have "dict_wf E d'"
    using wf r h0(1) h1(2,3) i
    by (auto simp: dict_wf_def d'_def h0_def dictIsRehashing_def nth_list_update)
  then show ?thesis
    using run ms h1(3) by (intro exI [of _ d']) (simp add: dict_same_def d'_def h0_def trace_ext_eq)
qed


section \<open>Incremental rehashing keeps the map\<close>

lemma wf_rehashingD:
  assumes "dict_wf E d" and "dictIsRehashing d"
  shows "0 \<le> rehashidx d" and "rehashidx d \<le> int (length (ht_table (d_ht0 d)))"
    and "\<And>i. i < nat (rehashidx d) \<Longrightarrow> ht_table (d_ht0 d) ! i = []"
    and "ht_wf E (d_ht0 d)" and "ht_wf E (d_ht1 d)"
    and "0 \<le> ht_size_exp (d_ht0 d)" and "0 \<le> ht_size_exp (d_ht1 d)"
  using assms by (simp_all add: dict_wf_def)

lemma nonempty_ahead:
  assumes wf: "dict_wf E d" and r: "dictIsRehashing d" and u: "ht_used (d_ht0 d) \<noteq> 0"
  shows "\<exists>i. nat (rehashidx d) \<le> i \<and> i < length (ht_table (d_ht0 d)) \<and> ht_table (d_ht0 d) ! i \<noteq> []"
proof (rule ccontr)
  assume "\<not> ?thesis"
  then have "ht_table (d_ht0 d) ! i = []" if "i < length (ht_table (d_ht0 d))" for i
    using wf_rehashingD(3) [OF wf r, of i] that by (meson not_le)
  then have "ht_entries (d_ht0 d) = []"
    by (auto simp: ht_entries_def in_set_conv_nth)
  then show False using u wf_rehashingD(4) [OF wf r] by (simp add: ht_wf_def)
qed

text \<open>A later position of the rehash index, with only empty buckets passed.\<close>

lemma advance_wf:
  assumes wf: "dict_wf E d" and r: "dictIsRehashing d"
    and j: "rehashidx d \<le> j" "j \<le> int (length (ht_table (d_ht0 d)))"
    and e: "\<And>i. nat (rehashidx d) \<le> i \<Longrightarrow> i < nat j \<Longrightarrow> ht_table (d_ht0 d) ! i = []"
  shows "dict_same E d (d\<lparr>rehashidx := j\<rparr>)" and "dictIsRehashing (d\<lparr>rehashidx := j\<rparr>)"
proof -
  have j0: "0 \<le> j" using wf_rehashingD(1) [OF wf r] j by simp
  then show "dictIsRehashing (d\<lparr>rehashidx := j\<rparr>)" by (simp add: dictIsRehashing_def)
  have "ht_table (d_ht0 d) ! i = []" if "i < nat j" for i
    using that e wf_rehashingD(3) [OF wf r, of i] by (meson not_le)
  then show "dict_same E d (d\<lparr>rehashidx := j\<rparr>)"
    using wf r j0 j(2)
    by (auto simp: dict_same_def dict_wf_def dict_entries_def trace_ok_def dictBuckets_def dictIsRehashing_def
        trace_ext_eq)
qed

lemma skip_empty_ok:
  "dict_wf E d \<Longrightarrow> dictIsRehashing d \<Longrightarrow> ht_used (d_ht0 d) \<noteq> 0 \<Longrightarrow> 0 < visits \<Longrightarrow>
   \<exists>j v. skip_empty d visits = Some (d\<lparr>rehashidx := j\<rparr>, v) \<and> rehashidx d \<le> j \<and>
     j \<le> int (length (ht_table (d_ht0 d))) \<and>
     (\<forall>i. nat (rehashidx d) \<le> i \<and> i < nat j \<longrightarrow> ht_table (d_ht0 d) ! i = []) \<and>
     (v = 0 \<longrightarrow> rehashidx d < j) \<and> (0 < v \<longrightarrow> j < int (length (ht_table (d_ht0 d))))"
proof (induction visits arbitrary: d)
  case 0
  then show ?case by simp
next
  case (Suc visits)
  let ?t = "ht_table (d_ht0 d)" and ?r = "rehashidx d"
  have r0: "0 \<le> ?r" using wf_rehashingD(1) [OF Suc.prems(1,2)] .
  obtain i where i: "nat ?r \<le> i" "i < length ?t" "?t ! i \<noteq> []"
    using nonempty_ahead [OF Suc.prems(1-3)] by blast
  then have rl: "nat ?r < length ?t" by simp
  show ?case
  proof (cases "?t ! nat ?r = []")
    case False
    then show ?thesis
      using r0 rl by (intro exI [of _ ?r] exI [of _ "Suc visits"]) (auto simp: ht_bucket_Some)
  next
    case True
    let ?d = "d\<lparr>rehashidx := ?r + 1\<rparr>"
    have emp: "?t ! k = []" if "nat ?r \<le> k" "k < nat (?r + 1)" for k
    proof -
      have "k = nat ?r" using that r0 by linarith
      then show ?thesis using True by simp
    qed
    have ds: "dict_same E d ?d" "dictIsRehashing ?d"
      using advance_wf [OF Suc.prems(1,2), of "?r + 1"] emp rl r0 by auto
    show ?thesis
    proof (cases "visits = 0")
      case v0: True
      then show ?thesis
        using r0 rl True emp by (intro exI [of _ "?r + 1"] exI [of _ 0]) (auto simp: ht_bucket_Some)
    next
      case False
      then obtain j v where jv: "skip_empty ?d visits = Some (?d\<lparr>rehashidx := j\<rparr>, v)"
        "?r + 1 \<le> j" "j \<le> int (length ?t)"
        "\<forall>i. nat (?r + 1) \<le> i \<and> i < nat j \<longrightarrow> ?t ! i = []"
        "v = 0 \<longrightarrow> ?r + 1 < j" "0 < v \<longrightarrow> j < int (length ?t)"
        using Suc.IH [of ?d] ds Suc.prems(3) by (auto simp: dict_same_def)
      moreover have "?t ! k = []" if "nat ?r \<le> k" "k < nat j" for k
        using that emp [of k] jv(4) by (cases "k < nat (?r + 1)") auto
      ultimately show ?thesis
        using False r0 rl True by (intro exI [of _ j] exI [of _ v]) (auto simp: ht_bucket_Some Let_def)
    qed
  qed
qed

text \<open>Rehashing goes on with the same two sizes.\<close>

definition rehash_same :: "('k, 'v) dict \<Rightarrow> ('k, 'v) dict \<Rightarrow> bool" where
  "rehash_same d d' \<longleftrightarrow> dictIsRehashing d' \<and> ht_size_exp (d_ht0 d') = ht_size_exp (d_ht0 d) \<and>
     ht_size_exp (d_ht1 d') = ht_size_exp (d_ht1 d) \<and> rehashidx d \<le> rehashidx d'"

lemma rehash_loop_ok:
  "dict_wf E d \<Longrightarrow> dictIsRehashing d \<Longrightarrow> n = 0 \<or> 0 < visits \<Longrightarrow>
   \<exists>d' early. rehash_loop E n visits d = Some (d', early) \<and> dict_same E d d' \<and> rehash_same d d' \<and>
     (early \<or> 0 < n \<and> ht_used (d_ht0 d') \<noteq> 0 \<longrightarrow> rehashidx d < rehashidx d')"
proof (induction n arbitrary: visits d)
  case 0
  then show ?case by (intro exI [of _ d] exI [of _ False]) (simp add: dict_same_refl rehash_same_def)
next
  case (Suc n)
  show ?case
  proof (cases "ht_used (d_ht0 d) = 0")
    case True
    then show ?thesis
      using Suc.prems by (intro exI [of _ d] exI [of _ False]) (simp add: dict_same_refl rehash_same_def)
  next
    case u: False
    note wd = wf_rehashingD [OF Suc.prems(1,2)]
    have lt: "int (DICTHT_SIZE (ht_size_exp (d_ht0 d))) > rehashidx d"
      using nonempty_ahead [OF Suc.prems(1,2) u] wd(1) DICTHT_SIZE_length [OF wd(4)] by auto
    obtain j v where jv: "skip_empty d visits = Some (d\<lparr>rehashidx := j\<rparr>, v)" "rehashidx d \<le> j"
      "j \<le> int (length (ht_table (d_ht0 d)))"
      "\<forall>i. nat (rehashidx d) \<le> i \<and> i < nat j \<longrightarrow> ht_table (d_ht0 d) ! i = []"
      "v = 0 \<longrightarrow> rehashidx d < j" "0 < v \<longrightarrow> j < int (length (ht_table (d_ht0 d)))"
      using skip_empty_ok [OF Suc.prems(1,2) u, of visits] Suc.prems(3) by auto
    let ?d1 = "d\<lparr>rehashidx := j\<rparr>"
    have d1: "dict_same E d ?d1" "dictIsRehashing ?d1"
      using advance_wf [OF Suc.prems(1,2) jv(2,3)] jv(4) by auto
    show ?thesis
    proof (cases "v = 0")
      case True
      then show ?thesis
        using u lt jv d1 by (intro exI [of _ ?d1] exI [of _ True]) (auto simp: rehash_same_def)
    next
      case v: False
      have w1: "dict_wf E ?d1" using d1(1) by (simp add: dict_same_def)
      have jl: "nat j < length (ht_table (d_ht0 ?d1))" using jv(6) v wd(1) jv(2) by auto
      obtain d2 where d2: "rehashEntriesInBucketAtIndex E ?d1 (nat j) = Some d2" "dict_same E ?d1 d2"
        "rehashidx d2 = j" "ht_size_exp (d_ht0 d2) = ht_size_exp (d_ht0 d)"
        "ht_size_exp (d_ht1 d2) = ht_size_exp (d_ht1 d)"
        "ht_table (d_ht0 d2) = (ht_table (d_ht0 d))[nat j := []]"
        using rehash_bucket_ok [OF w1 d1(2) jl] by auto
      have w2: "dict_wf E d2" "dictIsRehashing d2"
        using d2 d1(2) by (simp_all add: dict_same_def dictIsRehashing_def)
      let ?d3 = "d2\<lparr>rehashidx := j + 1\<rparr>"
      have j0: "0 \<le> j" using wd(1) jv(2) by simp
      have "ht_table (d_ht0 d2) ! i = []" if "nat (rehashidx d2) \<le> i" "i < nat (j + 1)" for i
      proof -
        have "i = nat j" using that d2(3) j0 by linarith
        then show ?thesis using d2(6) jl by simp
      qed
      then have d3: "dict_same E d2 ?d3" "dictIsRehashing ?d3"
        using advance_wf [OF w2, of "j + 1"] d2(3,6) jl j0 by auto
      have "n = 0 \<or> 0 < v" using v by simp
      then obtain d' early where d': "rehash_loop E n v ?d3 = Some (d', early)" "dict_same E ?d3 d'"
        "rehash_same ?d3 d'"
        using Suc.IH [of ?d3 v] d3 by (auto simp: dict_same_def)
      have "dict_same E d d'" using d1(1) d2(2) d3(1) d'(2) by (meson dict_same_trans)
      moreover have "rehash_same d d'" "rehashidx d < rehashidx d'"
        using d'(3) d2(4,5) jv(2) by (auto simp: rehash_same_def)
      ultimately show ?thesis
        using u lt jv(1) v d2(1,3) d'(1) by (intro exI [of _ d'] exI [of _ early]) simp
    qed
  qed
qed

lemma completed_ok:
  assumes wf: "dict_wf E d" and r: "dictIsRehashing d"
  shows "dict_same E d (fst (dictCheckRehashingCompleted d))"
    and "snd (dictCheckRehashingCompleted d) \<longleftrightarrow> ht_used (d_ht0 d) = 0"
    and "snd (dictCheckRehashingCompleted d) \<Longrightarrow> rehashidx (fst (dictCheckRehashingCompleted d)) = - 1"
    and "\<not> snd (dictCheckRehashingCompleted d) \<Longrightarrow> fst (dictCheckRehashingCompleted d) = d"
proof -
  note wd = wf_rehashingD [OF wf r]
  have "dict_same E d (fst (dictCheckRehashingCompleted d))" if "ht_used (d_ht0 d) = 0"
  proof -
    have "ht_entries (d_ht0 d) = []" using that wd(4) by (simp add: ht_wf_def)
    then have "dict_entries d = ht_entries (d_ht1 d)" by (simp add: dict_entries_def)
    then show ?thesis
      using that wf r wd(5) ht_wf_reset
      by (auto simp: dictCheckRehashingCompleted_def Let_def notify_def dict_same_def dict_wf_def trace_ext_def
          dict_entries_def dictIsRehashing_def trace_ok_def dictBuckets_def dictReset_ht_def
          ht_entries_def DICTHT_SIZE_def)
  qed
  then show "dict_same E d (fst (dictCheckRehashingCompleted d))"
    using wf by (cases "ht_used (d_ht0 d) = 0") (simp_all add: dictCheckRehashingCompleted_def dict_same_refl)
qed (simp_all add: dictCheckRehashingCompleted_def Let_def split: if_splits)

lemma dictRehash_ok:
  assumes wf: "dict_wf E d"
  shows "\<exists>d' more. dictRehash E d n = Some (d', more) \<and> dict_same E d d' \<and>
    (rehash_avoided E d \<longrightarrow> d' = d \<and> \<not> more) \<and>
    (\<not> rehash_avoided E d \<longrightarrow> rehashidx d' = - 1 \<or> rehash_same d d') \<and>
    (\<not> rehash_avoided E d \<and> \<not> more \<longrightarrow> rehashidx d' = - 1) \<and>
    (more \<and> 0 < n \<longrightarrow> rehash_same d d' \<and> rehashidx d < rehashidx d')"
proof (cases "rehash_avoided E d")
  case True
  then show ?thesis
    using wf by (intro exI [of _ d] exI [of _ False]) (simp add: dictRehash_def dict_same_refl)
next
  case False
  then have r: "dictIsRehashing d" by (simp add: rehash_avoided_def Let_def)
  obtain d1 early where d1: "rehash_loop E n (n * 10) d = Some (d1, early)" "dict_same E d d1"
    "rehash_same d d1" "early \<or> 0 < n \<and> ht_used (d_ht0 d1) \<noteq> 0 \<longrightarrow> rehashidx d < rehashidx d1"
    using rehash_loop_ok [OF wf r, of n "n * 10"] by auto
  have w1: "dict_wf E d1" "dictIsRehashing d1" using d1 by (simp_all add: dict_same_def rehash_same_def)
  show ?thesis
  proof (cases early)
    case True
    then show ?thesis using False d1 by (intro exI [of _ d1] exI [of _ True]) (simp add: dictRehash_def)
  next
    case e: False
    obtain d2 fin where c: "dictCheckRehashingCompleted d1 = (d2, fin)" by fastforce
    note co = completed_ok [OF w1, unfolded c fst_conv snd_conv]
    show ?thesis
      using False e d1 c co dict_same_trans [OF d1(2) co(1)]
      by (intro exI [of _ d2] exI [of _ "\<not> fin"]) (auto simp: dictRehash_def)
  qed
qed


text \<open>
  After a step the rehash index is still at the start, or rehashing is over, or the first table has
  the size it had: in each case the index computed before the step is right for the skip test.
\<close>

definition idx_valid :: "('k, 'v) dict \<Rightarrow> ('k, 'v) dict \<Rightarrow> bool" where
  "idx_valid d d' \<longleftrightarrow> rehashidx d' \<le> 0 \<or> ht_size_exp (d_ht0 d') = ht_size_exp (d_ht0 d)"

lemma rehash_one_ok:
  assumes "dict_wf E d"
  shows "\<exists>d'. map_option fst (dictRehash E d n) = Some d' \<and> dict_same E d d' \<and> idx_valid d d' \<and>
    (\<not> dictIsRehashing d \<longrightarrow> d' = d)"
proof -
  obtain d' more where r: "dictRehash E d n = Some (d', more)" "dict_same E d d'"
    "rehash_avoided E d \<longrightarrow> d' = d" "\<not> rehash_avoided E d \<longrightarrow> rehashidx d' = - 1 \<or> rehash_same d d'"
    using dictRehash_ok [OF assms, of n] by blast
  then have "idx_valid d d'" by (auto simp: idx_valid_def rehash_same_def)
  moreover have "\<not> dictIsRehashing d \<longrightarrow> rehash_avoided E d" by (simp add: rehash_avoided_def)
  ultimately show ?thesis using r by auto
qed

lemma bucket_rehash_ok:
  assumes wf: "dict_wf E d" and r: "dictIsRehashing d" and i: "idx < length (ht_table (d_ht0 d))"
  shows "\<exists>d'. u_dictBucketRehash E d idx = Some d' \<and> dict_same E d d' \<and> idx_valid d d'"
proof (cases "pauserehash d \<noteq> 0 \<or> rehash_avoided E d")
  case True
  then show ?thesis using wf by (auto simp: u_dictBucketRehash_def dict_same_refl idx_valid_def)
next
  case False
  obtain d1 where d1: "rehashEntriesInBucketAtIndex E d idx = Some d1" "dict_same E d d1"
    "rehashidx d1 = rehashidx d" "ht_size_exp (d_ht0 d1) = ht_size_exp (d_ht0 d)"
    using rehash_bucket_ok [OF wf r i] by blast
  have w1: "dict_wf E d1" "dictIsRehashing d1" using d1 r by (simp_all add: dict_same_def dictIsRehashing_def)
  let ?d2 = "fst (dictCheckRehashingCompleted d1)"
  have "dict_same E d ?d2" using d1(2) completed_ok(1) [OF w1] by (rule dict_same_trans)
  moreover have "idx_valid d ?d2"
    using completed_ok(3,4) [OF w1] d1(4) unfolding idx_valid_def by fastforce
  moreover have "u_dictBucketRehash E d idx = Some ?d2"
    using False d1(1) by (simp add: u_dictBucketRehash_def)
  ultimately show ?thesis by blast
qed

lemma step_if_needed_ok:
  assumes wf: "dict_wf E d"
  shows "\<exists>d'. u_dictRehashStepIfNeeded E d (hash_idx h (d_ht0 d)) = Some d' \<and> dict_same E d d' \<and>
    idx_valid d d' \<and> (\<not> dictIsRehashing d \<longrightarrow> d' = d)"
proof (cases "\<not> dictIsRehashing d \<or> pauserehash d \<noteq> 0")
  case True
  then show ?thesis using wf by (auto simp: u_dictRehashStepIfNeeded_def dict_same_refl idx_valid_def)
next
  case False
  then have r: "dictIsRehashing d" by simp
  let ?i = "hash_idx h (d_ht0 d)"
  have i: "?i < length (ht_table (d_ht0 d))"
    using hash_idx_less [OF wf_rehashingD(4,6) [OF wf r]] .
  obtain d1 where d1: "u_dictBucketRehash E d ?i = Some d1" "dict_same E d d1" "idx_valid d d1"
    using bucket_rehash_ok [OF wf r i] by blast
  obtain d2 where d2: "map_option fst (dictRehash E d 1) = Some d2" "dict_same E d d2" "idx_valid d d2"
    using rehash_one_ok [OF wf, of 1] by blast
  show ?thesis
  proof (cases "rehashidx d \<le> int ?i \<and> ht_table (d_ht0 d) ! ?i \<noteq> []")
    case True
    then have "u_dictRehashStepIfNeeded E d ?i = Some d1"
      using False d1(1) ht_bucket_Some [OF i] by (simp add: u_dictRehashStepIfNeeded_def)
    then show ?thesis using d1 r by blast
  next
    case visited: False
    have "u_dictRehashStepIfNeeded E d ?i = map_option fst (dictRehash E d 1)"
      using False visited ht_bucket_Some [OF i] by (auto simp: u_dictRehashStepIfNeeded_def)
    then show ?thesis using d2 r by auto
  qed
qed

section \<open>Resizing keeps the map\<close>

lemma full_rehash_ok:
  "dict_wf E d \<Longrightarrow> dictIsRehashing d \<Longrightarrow>
   \<exists>d'. full_rehash E d = Some d' \<and> dict_same E d d' \<and> (rehash_avoided E d \<longrightarrow> d' = d) \<and>
     (\<not> rehash_avoided E d \<longrightarrow> rehashidx d' = - 1)"
proof (induction "nat (int (length (ht_table (d_ht0 d))) - rehashidx d)" arbitrary: d rule: less_induct)
  case less
  obtain d1 more where d1: "dictRehash E d 1000 = Some (d1, more)" "dict_same E d d1"
    "rehash_avoided E d \<longrightarrow> d1 = d \<and> \<not> more"
    "\<not> rehash_avoided E d \<and> \<not> more \<longrightarrow> rehashidx d1 = - 1"
    "more \<longrightarrow> rehash_same d d1 \<and> rehashidx d < rehashidx d1"
    using dictRehash_ok [OF less.prems(1), of 1000] by auto
  show ?case
  proof (cases more)
    case False
    then show ?thesis
      using d1 by (intro exI [of _ d1]) (auto simp: full_rehash.simps)
  next
    case True
    have w1: "dict_wf E d1" "dictIsRehashing d1"
      using d1(2,5) True by (simp_all add: dict_same_def rehash_same_def)
    have na: "\<not> rehash_avoided E d" using True d1(3) by blast
    then have na1: "\<not> rehash_avoided E d1"
      using d1(5) True less.prems(2) by (simp add: rehash_avoided_def rehash_same_def)
    have "length (ht_table (d_ht0 d1)) = length (ht_table (d_ht0 d))"
      using DICTHT_SIZE_length [OF wf_rehashingD(4) [OF w1]]
        DICTHT_SIZE_length [OF wf_rehashingD(4) [OF less.prems]] d1(5) True by (simp add: rehash_same_def)
    then have "nat (int (length (ht_table (d_ht0 d1))) - rehashidx d1) <
        nat (int (length (ht_table (d_ht0 d))) - rehashidx d)"
      using d1(5) True wf_rehashingD(2) [OF w1] by auto
    then obtain d' where d': "full_rehash E d1 = Some d'" "dict_same E d1 d'" "rehashidx d' = - 1"
      using less.hyps [OF _ w1] na1 by blast
    have "full_rehash E d = Some d'" using d1(1) True d'(1) by (simp add: full_rehash.simps [of E d])
    then show ?thesis using d1(2) d'(2,3) na dict_same_trans by blast
  qed
qed

lemma bit_length_bound: "n < 2 ^ bit_length n"
proof (induction n rule: bit_length.induct)
  case (1 n)
  then show ?case by (cases "n = 0") (auto simp: bit_length.simps [of n])
qed

lemma nextExp_cases:
  "u_dictNextExp sz = 2 \<or> u_dictNextExp sz = 63 \<or> u_dictNextExp sz = int (bit_length (sz - 1))"
  by (simp add: u_dictNextExp_def)

lemma nextExp_nonneg: "0 \<le> u_dictNextExp sz"
  using nextExp_cases [of sz] by auto

lemma nextExp_no_overflow:
  assumes "\<not> (DICTHT_SIZE (u_dictNextExp sz) * 8) mod 2 ^ 64 < DICTHT_SIZE (u_dictNextExp sz)"
  shows "u_dictNextExp sz \<le> 60"
proof (rule ccontr)
  assume "\<not> u_dictNextExp sz \<le> 60"
  then have "61 \<le> nat (u_dictNextExp sz)" by linarith
  then obtain k where k: "nat (u_dictNextExp sz) = 61 + k" using le_Suc_ex by blast
  have ne: "u_dictNextExp sz \<noteq> - 1" using nextExp_nonneg [of sz] by simp
  then have "DICTHT_SIZE (u_dictNextExp sz) * 8 = 2 ^ 64 * 2 ^ k"
    by (simp add: DICTHT_SIZE_def k power_add)
  then have "(DICTHT_SIZE (u_dictNextExp sz) * 8) mod 2 ^ 64 = 0" by simp
  then show False using assms ne by (simp add: DICTHT_SIZE_def)
qed

lemma ht_wf_new:
  "0 \<le> e \<Longrightarrow> e \<le> 60 \<Longrightarrow>
   ht_wf E \<lparr>ht_table = replicate (DICTHT_SIZE e) [], ht_used = 0, ht_size_exp = e\<rparr>"
  by (auto simp: ht_wf_def ht_entries_def DICTHT_SIZE_def)

lemma resize_start_ok:
  assumes wf: "dict_wf E d" and nr: "\<not> dictIsRehashing d" and e: "0 \<le> e" "e \<le> 60"
    and ne: "e \<noteq> ht_size_exp (d_ht0 d)" and u: "ht_used (d_ht0 d) \<noteq> 0"
    and d1: "d1 = d\<lparr>d_ht1 := \<lparr>ht_table = replicate (DICTHT_SIZE e) [], ht_used = 0, ht_size_exp = e\<rparr>,
      rehashidx := 0,
      d_trace := d_trace d @ [RehashingStarted (DICTHT_SIZE (ht_size_exp (d_ht0 d))) (DICTHT_SIZE e),
        BucketChanged (int (DICTHT_SIZE e))]\<rparr>"
  shows "dict_same E d d1" and "dictIsRehashing d1"
proof -
  let ?new = "\<lparr>ht_table = replicate (DICTHT_SIZE e) [], ht_used = 0, ht_size_exp = e\<rparr>"
  have h1: "d_ht1 d = dictReset_ht" "ht_size_exp (d_ht0 d) \<noteq> - 1"
    using wf nr u ht_wf_empty [of E "d_ht1 d"] ht_wf_empty [of E "d_ht0 d"]
    by (auto simp: dict_wf_def dictReset_ht_def)
  then have e0: "0 \<le> ht_size_exp (d_ht0 d)" using wf by (auto simp: dict_wf_def ht_wf_def)
  have en: "ht_entries ?new = []" by (simp add: ht_entries_def)
  have en1: "ht_entries (d_ht1 d) = []" by (simp add: h1 ht_entries_def dictReset_ht_def)
  have "trace_ok d1"
    using wf nr h1(1)
    by (simp add: d1 dict_wf_def trace_ok_def dictBuckets_def dictIsRehashing_def dictReset_ht_def DICTHT_SIZE_def)
  moreover have "dict_entries d1 = dict_entries d" using en en1 by (simp add: d1 dict_entries_def)
  ultimately show "dict_same E d d1"
    using wf nr e ne e0 ht_wf_new [OF e, of E]
    by (auto simp: dict_same_def dict_wf_def d1 dictIsRehashing_def trace_ext_def)
  show "dictIsRehashing d1" by (simp add: d1 dictIsRehashing_def)
qed


lemma dict_wf_exp0:
  assumes "dict_wf E d" and "dict_entries d \<noteq> []"
  shows "0 \<le> ht_size_exp (d_ht0 d)"
proof (cases "dictIsRehashing d")
  case True
  then show ?thesis using assms by (simp add: dict_wf_def)
next
  case False
  then have "ht_entries (d_ht1 d) = []" using assms ht_wf_empty [of E "d_ht1 d"]
    by (auto simp: dict_wf_def ht_wf_def ht_entries_def)
  then have "ht_table (d_ht0 d) \<noteq> []" using assms(2) by (auto simp: dict_entries_def ht_entries_def)
  then show ?thesis using assms(1) by (auto simp: dict_wf_def ht_wf_def)
qed

lemma dict_same_exp0:
  "dict_same E d d' \<Longrightarrow> dict_entries d \<noteq> [] \<Longrightarrow> 0 \<le> ht_size_exp (d_ht0 d')"
  by (rule dict_wf_exp0 [of E]) (auto simp: dict_same_def)

text \<open>A table without entries is replaced at once.\<close>

lemma resize_replace_ok:
  assumes wf: "dict_wf E d" and nr: "\<not> dictIsRehashing d" and e: "0 \<le> e" "e \<le> 60"
    and u: "ht_used (d_ht0 d) = 0"
    and d1: "d1 = d\<lparr>d_trace := d_trace d @
        [RehashingStarted (DICTHT_SIZE (ht_size_exp (d_ht0 d))) (DICTHT_SIZE e),
         BucketChanged (int (DICTHT_SIZE e)),
         RehashingCompleted (DICTHT_SIZE (ht_size_exp (d_ht0 d))) (DICTHT_SIZE e),
         BucketChanged (- int (DICTHT_SIZE (ht_size_exp (d_ht0 d))))],
      d_ht0 := \<lparr>ht_table = replicate (DICTHT_SIZE e) [], ht_used = 0, ht_size_exp = e\<rparr>,
      d_ht1 := dictReset_ht, rehashidx := - 1\<rparr>"
  shows "dict_same E d d1"
proof -
  have en: "dict_entries d = []"
    using wf nr u by (auto simp: dict_entries_def dict_wf_def ht_wf_def ht_entries_def)
  have "trace_ok d1"
    using wf nr
    by (simp add: d1 dict_wf_def trace_ok_def dictBuckets_def dictIsRehashing_def dictReset_ht_def DICTHT_SIZE_def)
  moreover have "dict_entries d1 = []"
    by (simp add: d1 dict_entries_def ht_entries_def dictReset_ht_def)
  ultimately show ?thesis
    using en ht_wf_new [OF e, of E] ht_wf_reset [of E]
    by (simp add: dict_same_def dict_wf_def d1 dictIsRehashing_def dictReset_ht_def trace_ext_def)
qed

lemma resize_ok:
  assumes wf: "dict_wf E d" and nr: "\<not> dictIsRehashing d"
  shows "\<exists>d' ok mf. u_dictResize E d sz alloc = Some (d', ok, mf) \<and> dict_same E d d' \<and>
    rehashidx d' \<le> 0 \<and> (0 \<le> ht_size_exp (d_ht0 d) \<or> ok \<longrightarrow> 0 \<le> ht_size_exp (d_ht0 d')) \<and> (\<not> ok \<longrightarrow> d' = d)"
proof -
  let ?e = "u_dictNextExp sz"
  let ?n = "DICTHT_SIZE ?e"
  have ri: "rehashidx d = - 1" using nr by (simp add: dictIsRehashing_def)
  show ?thesis
  proof (cases "?n < sz \<or> (?n * 8) mod 2 ^ 64 < ?n \<or> ?e = ht_size_exp (d_ht0 d) \<or> alloc = Some False")
    case True
    then have "\<exists>mf. u_dictResize E d sz alloc = Some (d, False, mf)"
      using nr by (elim disjE) (simp_all add: u_dictResize_def Let_def ex_bool_eq)
    then show ?thesis using ri dict_same_refl [OF wf] by auto
  next
    case go: False
    then have e: "0 \<le> ?e" "?e \<le> 60" using nextExp_nonneg nextExp_no_overflow by blast+
    show ?thesis
    proof (cases "ht_used (d_ht0 d) = 0")
      case True
      note same = resize_replace_ok [OF wf nr e True refl]
      have "\<exists>d'. u_dictResize E d sz alloc = Some (d', True, False) \<and> dict_same E d d' \<and>
          rehashidx d' = - 1 \<and> ht_size_exp (d_ht0 d') = ?e"
        using go nr True same by (simp add: u_dictResize_def Let_def notify_def)
      then show ?thesis using e(1) by force
    next
      case False
      then have ne: "dict_entries d \<noteq> []" using wf by (auto simp: dict_wf_def ht_wf_def dict_entries_def)
      have e0: "ht_size_exp (d_ht0 d) \<noteq> - 1" using dict_wf_exp0 [OF wf ne] by simp
      define d1 where "d1 = d\<lparr>d_ht1 := \<lparr>ht_table = replicate ?n [], ht_used = 0, ht_size_exp = ?e\<rparr>,
        rehashidx := 0, d_trace := d_trace d @ [RehashingStarted (DICTHT_SIZE (ht_size_exp (d_ht0 d))) ?n,
          BucketChanged (int ?n)]\<rparr>"
      have ne0: "?e \<noteq> ht_size_exp (d_ht0 d)" using go by blast
      note st = resize_start_ok [OF wf nr e ne0 False d1_def]
      have w1: "dict_wf E d1" using st(1) by (simp add: dict_same_def)
      obtain d2 where d2: "full_rehash E d1 = Some d2" "dict_same E d1 d2" "rehashidx d2 \<le> 0"
        using full_rehash_ok [OF w1 st(2)] by (auto simp: d1_def)
      have s2: "dict_same E d d2" using st(1) d2(2) by (rule dict_same_trans)
      have "u_dictResize E d sz alloc =
          (if force_full_rehash E then Some (d2, True, False) else Some (d1, True, False))"
        using go nr False e0 d2(1) by (simp add: u_dictResize_def Let_def notify_def d1_def)
      moreover have "rehashidx d1 \<le> 0" by (simp add: d1_def)
      ultimately show ?thesis
        using d2(3) s2 st(1) dict_same_exp0 [OF s2 ne] dict_same_exp0 [OF st(1) ne]
        by (cases "force_full_rehash E") auto
    qed
  qed
qed

text \<open>After a resize decision, the map is the same and the rehash index has not moved.\<close>

definition resized :: "'k dictEnv \<Rightarrow> ('k, 'v) dict \<Rightarrow> ('k, 'v) dict \<Rightarrow> bool" where
  "resized E d d' \<longleftrightarrow> dict_same E d d' \<and> (d' = d \<or> rehashidx d' \<le> 0)"

lemma expand_ok:
  assumes "dict_wf E d"
  shows "\<exists>d' ok. dictExpand E d sz = Some (d', ok) \<and> resized E d d' \<and>
    (0 \<le> ht_size_exp (d_ht0 d) \<or> sz = 4 \<longrightarrow> 0 \<le> ht_size_exp (d_ht0 d'))"
proof (cases "dictIsRehashing d \<or> ht_used (d_ht0 d) > sz \<or> DICTHT_SIZE (ht_size_exp (d_ht0 d)) \<ge> sz")
  case True
  moreover have "0 \<le> ht_size_exp (d_ht0 d)" if "sz = 4"
  proof (rule ccontr)
    assume neg: "\<not> 0 \<le> ht_size_exp (d_ht0 d)"
    then have "ht_size_exp (d_ht0 d) = - 1" "ht_used (d_ht0 d) = 0" "\<not> dictIsRehashing d"
      using assms by (auto simp: dict_wf_def ht_wf_def ht_entries_def split: if_splits)
    then show False using True that by (simp add: DICTHT_SIZE_def)
  qed
  ultimately show ?thesis
    using assms by (auto simp: dictExpand_def u_dictExpand_def resized_def dict_same_refl)
next
  case False
  obtain d' ok mf where r: "u_dictResize E d sz None = Some (d', ok, mf)" "dict_same E d d'"
    "rehashidx d' \<le> 0" "0 \<le> ht_size_exp (d_ht0 d) \<or> ok \<longrightarrow> 0 \<le> ht_size_exp (d_ht0 d')"
    using resize_ok [OF assms, of sz None] False by blast
  have "0 \<le> ht_size_exp (d_ht0 d')" if sz: "sz = 4"
  proof (cases "0 \<le> ht_size_exp (d_ht0 d)")
    case True
    then show ?thesis using r(4) by blast
  next
    case neg: False
    have "ok" using r(1) neg False sz
      by (auto simp: u_dictResize_def Let_def u_dictNextExp_def DICTHT_SIZE_def split: if_splits)
    then show ?thesis using r(4) by blast
  qed
  then show ?thesis using r False by (auto simp: dictExpand_def u_dictExpand_def resized_def)
qed

lemma expand_if_needed_ok:
  assumes wf: "dict_wf E d"
  shows "\<exists>d' b. u_dictExpandIfNeeded E d = Some (d', b) \<and> resized E d d' \<and>
    (pauseAutoResize d \<le> 0 \<or> 0 \<le> ht_size_exp (d_ht0 d) \<longrightarrow> 0 \<le> ht_size_exp (d_ht0 d'))"
proof -
  have size0: "0 \<le> ht_size_exp (d_ht0 d) \<longleftrightarrow> DICTHT_SIZE (ht_size_exp (d_ht0 d)) \<noteq> 0"
    using wf by (auto simp: dict_wf_def ht_wf_def DICTHT_SIZE_def)
  have reh: "dictIsRehashing d \<longrightarrow> 0 \<le> ht_size_exp (d_ht0 d)" using wf by (simp add: dict_wf_def)
  obtain d1 ok1 where d1: "dictExpand E d 4 = Some (d1, ok1)" "resized E d d1" "0 \<le> ht_size_exp (d_ht0 d1)"
    using expand_ok [OF wf, of 4] by auto
  obtain d2 ok2 where d2: "dictExpand E d (Suc (ht_used (d_ht0 d))) = Some (d2, ok2)" "resized E d d2"
    "0 \<le> ht_size_exp (d_ht0 d) \<longrightarrow> 0 \<le> ht_size_exp (d_ht0 d2)"
    using expand_ok [OF wf, of "Suc (ht_used (d_ht0 d))"] by auto
  have refl: "resized E d d" using wf by (simp add: resized_def dict_same_refl)
  show ?thesis
    using d1 d2 refl reh size0 by (simp add: u_dictExpandIfNeeded_def dictExpandIfNeeded_def Let_def ex_bool_eq)
qed

lemma shrink_if_needed_ok:
  assumes wf: "dict_wf E d"
  shows "\<exists>d'. u_dictShrinkIfNeeded E d = Some d' \<and> dict_same E d d'"
proof -
  have "\<exists>d' ok. dictShrink E d sz = Some (d', ok) \<and> dict_same E d d'" for sz
  proof (cases "dictIsRehashing d")
    case True
    then show ?thesis using wf by (simp add: dictShrink_def dict_same_refl ex_bool_eq)
  next
    case False
    then show ?thesis using resize_ok [OF wf False, of sz None] dict_same_refl [OF wf]
      by (auto simp: dictShrink_def)
  qed
  then show ?thesis
    using dict_same_refl [OF wf]
    by (fastforce simp: u_dictShrinkIfNeeded_def dictShrinkIfNeeded_def Let_def)
qed


section \<open>Lookup\<close>

definition link_ok :: "('k, 'v) dict \<Rightarrow> nat \<times> nat \<times> 'k \<times> 'v \<Rightarrow> bool" where
  "link_ok d l = (case l of (t, i, e) \<Rightarrow>
     (t = 0 \<or> t = 1 \<and> dictIsRehashing d) \<and> i < length (ht_table (get_ht d t)) \<and>
     e \<in> set (ht_table (get_ht d t) ! i))"

definition insert_pos :: "('k, 'v) dict \<Rightarrow> nat \<Rightarrow> nat \<times> nat" where
  "insert_pos d h = (if dictIsRehashing d then (1, hash_idx h (d_ht1 d)) else (0, hash_idx h (d_ht0 d)))"

lemma find_fst_Some: "find (\<lambda>e. fst e = key) b = Some e \<Longrightarrow> e \<in> set b \<and> fst e = key"
  by (auto simp: find_Some_iff)

lemma find_fst_None: "find (\<lambda>e. fst e = key) b = None \<longleftrightarrow> key \<notin> fst ` set b"
  by (force simp: find_None_iff)

lemma ht_key_bucket:
  assumes "ht_wf E ht" and "key \<in> fst ` set (ht_entries ht)"
  shows "hash_idx (hashFunction E key) ht < length (ht_table ht)"
    and "key \<in> fst ` set (ht_table ht ! hash_idx (hashFunction E key) ht)"
proof -
  obtain b e where b: "b \<in> set (ht_table ht)" "e \<in> set b" "fst e = key"
    using assms(2) by (auto simp: ht_entries_def)
  then obtain i where i: "i < length (ht_table ht)" "ht_table ht ! i = b" by (auto simp: in_set_conv_nth)
  then have "hash_idx (hashFunction E key) ht = i" using assms(1) b by (auto simp: ht_wf_def)
  then show "hash_idx (hashFunction E key) ht < length (ht_table ht)"
    "key \<in> fst ` set (ht_table ht ! hash_idx (hashFunction E key) ht)"
    using i b by auto
qed

lemma ht_bucket_subset: "i < length (ht_table ht) \<Longrightarrow> set (ht_table ht ! i) \<subseteq> set (ht_entries ht)"
  using nth_mem by (fastforce simp: ht_entries_def)

lemma dict_map_Some:
  "dict_wf E d \<Longrightarrow> dict_map d k = Some v \<longleftrightarrow> (k, v) \<in> set (dict_entries d)"
  by (simp add: dict_map_def dict_wf_def)

lemma dict_map_None: "dict_map d k = None \<longleftrightarrow> k \<notin> fst ` set (dict_entries d)"
  by (simp add: dict_map_def map_of_eq_None_iff)

lemma link_ok_map: "dict_wf E d \<Longrightarrow> link_ok d (t, i, e) \<Longrightarrow> dict_map d (fst e) = Some (snd e)"
  using ht_bucket_subset [of i "get_ht d t"]
  by (auto simp: dict_map_Some link_ok_def dict_entries_def get_ht_def split: if_splits)

text \<open>The search over the tables finds the entry of the key, or the bucket it goes to.\<close>

lemma find_tables_ok:
  fixes d :: "('k, 'v) dict"
  assumes wf: "dict_wf E d" and e0: "0 \<le> ht_size_exp (d_ht0 d)" and h: "h = hashFunction E key"
    and iv: "rehashidx d \<le> 0 \<or> idx = hash_idx h (d_ht0 d)"
  shows "\<exists>found bucket. find_tables d key h idx (dict_tables d) None = Some (found, bucket) \<and>
    (case found of Some l \<Rightarrow> link_ok d l \<and> fst (snd (snd l)) = key
     | None \<Rightarrow> dict_map d key = None \<and> bucket = Some (insert_pos d h))"
proof -
  let ?i0 = "hash_idx h (d_ht0 d)" and ?i1 = "hash_idx h (d_ht1 d)"
  have w: "ht_wf E (d_ht0 d)" "ht_wf E (d_ht1 d)" using wf by (simp_all add: dict_wf_def)
  have i0: "?i0 < length (ht_table (d_ht0 d))" using hash_idx_less [OF w(1) e0] .
  have n0: "key \<notin> fst ` set (ht_entries (d_ht0 d))"
    if "find (\<lambda>e. fst e = key) (ht_table (d_ht0 d) ! ?i0) = None"
    using that ht_key_bucket(2) [OF w(1)] h by (auto simp: find_fst_None)
  show ?thesis
  proof (cases "dictIsRehashing d")
    case False
    then have r: "rehashidx d = - 1" by (simp add: dictIsRehashing_def)
    have e1: "ht_entries (d_ht1 d) = []"
      using wf False w(2) by (auto simp: dict_wf_def ht_wf_def ht_entries_def)
    show ?thesis
    proof (cases "find (\<lambda>e. fst e = key) (ht_table (d_ht0 d) ! ?i0)")
      case None
      then show ?thesis using False r i0 n0 e1
        by (simp add: dict_tables_def get_ht_def ht_bucket_def Let_def dict_map_None dict_entries_def insert_pos_def)
    next
      case (Some e)
      then show ?thesis using False r i0 find_fst_Some [OF Some]
        by (simp add: dict_tables_def get_ht_def ht_bucket_def Let_def link_ok_def)
    qed
  next
    case True
    have i1: "?i1 < length (ht_table (d_ht1 d))"
      using hash_idx_less [OF w(2)] wf True by (simp add: dict_wf_def)
    have n1: "key \<notin> fst ` set (ht_entries (d_ht1 d))"
      if "find (\<lambda>e. fst e = key) (ht_table (d_ht1 d) ! ?i1) = None"
      using that ht_key_bucket(2) [OF w(2)] h by (auto simp: find_fst_None)
    have second: "\<exists>found bucket. find_tables d key h ix [1] bu = Some (found, bucket) \<and>
        (case found of Some l \<Rightarrow> link_ok d l \<and> fst (snd (snd l)) = key
         | None \<Rightarrow> key \<notin> fst ` set (ht_entries (d_ht1 d)) \<and> bucket = Some (insert_pos d h))" for ix bu
    proof (cases "find (\<lambda>e. fst e = key) (ht_table (d_ht1 d) ! ?i1)")
      case None
      then show ?thesis using True i1 n1
        by (simp add: get_ht_def ht_bucket_def Let_def insert_pos_def)
    next
      case (Some e)
      then show ?thesis using True i1 find_fst_Some [OF Some]
        by (simp add: get_ht_def ht_bucket_def Let_def link_ok_def)
    qed
    have miss: ?thesis if n: "key \<notin> fst ` set (ht_entries (d_ht0 d))"
      and f: "find_tables d key h idx [0, 1] None = find_tables d key h ix [1] bu" for ix bu
    proof -
      obtain found bucket where fb: "find_tables d key h ix [1] bu = Some (found, bucket)"
        "case found of Some l \<Rightarrow> link_ok d l \<and> fst (snd (snd l)) = key
         | None \<Rightarrow> key \<notin> fst ` set (ht_entries (d_ht1 d)) \<and> bucket = Some (insert_pos d h)"
        using second [of ix bu] by blast
      show ?thesis using fb n f True
        by (intro exI [of _ found] exI [of _ bucket])
          (auto simp: dict_tables_def dict_map_None dict_entries_def split: option.splits)
    qed
    show ?thesis
    proof (cases "int idx < rehashidx d")
      case skip: True
      then have "idx = ?i0" using iv by linarith
      then have "ht_table (d_ht0 d) ! ?i0 = []" using skip wf True by (simp add: dict_wf_def)
      then have "key \<notin> fst ` set (ht_entries (d_ht0 d))" using ht_key_bucket(2) [OF w(1)] h by fastforce
      then show ?thesis by (rule miss [of idx None]) (use skip in simp)
    next
      case noskip: False
      show ?thesis
      proof (cases "find (\<lambda>e. fst e = key) (ht_table (d_ht0 d) ! ?i0)")
        case None
        show ?thesis
          by (rule miss [OF n0 [OF None], of ?i0 "Some (0, ?i0)"])
            (use noskip None i0 in \<open>simp add: get_ht_def ht_bucket_def Let_def\<close>)
      next
        case (Some e)
        then show ?thesis using True noskip i0 find_fst_Some [OF Some]
          by (simp add: dict_tables_def get_ht_def ht_bucket_def Let_def link_ok_def)
      qed
    qed
  qed
qed


section \<open>Updates\<close>

lemma update_bucket_ok:
  fixes d :: "('k, 'v) dict"
  assumes wf: "dict_wf E d" and t: "t = 0 \<or> t = 1" and i: "i < length (ht_table (get_ht d t))"
    and b: "\<And>e. e \<in> set b \<Longrightarrow> hash_idx (hashFunction E (fst e)) (get_ht d t) = i"
    and u: "u + length (ht_table (get_ht d t) ! i) = ht_used (get_ht d t) + length b"
    and keep: "t = 0 \<Longrightarrow> dictIsRehashing d \<Longrightarrow> b = [] \<or> ht_table (d_ht0 d) ! i \<noteq> []"
    and d': "d' = set_ht d t ((get_ht d t)\<lparr>ht_table := (ht_table (get_ht d t))[i := b], ht_used := u\<rparr>)"
  shows "mset (dict_entries d') + mset (ht_table (get_ht d t) ! i) = mset (dict_entries d) + mset b"
    and "distinct (map fst (dict_entries d')) \<Longrightarrow> dict_wf E d'"
    and "pauserehash d' = pauserehash d" "pauseAutoResize d' = pauseAutoResize d" "rehashidx d' = rehashidx d"
    "d_trace d' = d_trace d"
proof -
  let ?h = "get_ht d t"
  let ?h' = "?h\<lparr>ht_table := (ht_table ?h)[i := b], ht_used := u\<rparr>"
  have w: "ht_wf E ?h" using wf t by (auto simp: dict_wf_def get_ht_def)
  note up = ht_update_bucket [OF w i b u]
  show ms: "mset (dict_entries d') + mset (ht_table ?h ! i) = mset (dict_entries d) + mset b"
    using up(2) t by (auto simp: d' dict_entries_def get_ht_def set_ht_def add_ac)
  have empty: "(ht_table (d_ht0 d))[i := b] ! j = []"
    if "t = 0" "dictIsRehashing d" "j < nat (rehashidx d)" for j
  proof (cases "j = i")
    case True
    have "ht_table (d_ht0 d) ! j = []" using wf that by (simp add: dict_wf_def)
    then have "b = []" using keep [OF that(1,2)] True by auto
    then show ?thesis using True i that by (simp add: get_ht_def)
  next
    case False
    then show ?thesis using wf that by (simp add: dict_wf_def)
  qed
  show "dict_wf E d'" if dist: "distinct (map fst (dict_entries d'))"
  proof (cases "t = 0")
    case True
    then have d0: "d' = d\<lparr>d_ht0 := ?h'\<rparr>" "?h = d_ht0 d" by (simp_all add: d' set_ht_def get_ht_def)
    have "trace_ok d'"
      using wf d0 by (simp add: dict_wf_def trace_ok_def dictBuckets_def dictIsRehashing_def)
    then show ?thesis using wf d0 up(1) dist empty True
      by (simp add: dict_wf_def dictIsRehashing_def)
  next
    case False
    then have d0: "d' = d\<lparr>d_ht1 := ?h'\<rparr>" "?h = d_ht1 d" by (simp_all add: d' set_ht_def get_ht_def)
    have "trace_ok d'"
      using wf d0 by (simp add: dict_wf_def trace_ok_def dictBuckets_def dictIsRehashing_def)
    then show ?thesis using wf d0 up(1) dist by (simp add: dict_wf_def dictIsRehashing_def)
  qed
  show "pauserehash d' = pauserehash d" "pauseAutoResize d' = pauseAutoResize d" "rehashidx d' = rehashidx d"
    "d_trace d' = d_trace d"
    by (simp_all add: d' set_ht_def)
qed

lemma map_of_add_mset:
  assumes "mset ys = add_mset (k, v) (mset xs)" and "distinct (map fst xs)" and "k \<notin> fst ` set xs"
  shows "distinct (map fst ys)" and "map_of ys = (map_of xs)(k \<mapsto> v)"
proof -
  have m: "mset ys = mset ((k, v) # xs)" using assms(1) by simp
  show "distinct (map fst ys)" using assms(2,3) distinct_keys_mset [OF m] by simp
  then show "map_of ys = (map_of xs)(k \<mapsto> v)" using map_of_mset_eq [OF _ m] by simp
qed

lemma map_of_remove_mset:
  assumes "mset xs = add_mset (k, v) (mset ys)" and "distinct (map fst xs)"
  shows "distinct (map fst ys)" and "map_of ys = (map_of xs)(k := None)"
proof -
  have m: "mset xs = mset ((k, v) # ys)" using assms(1) by simp
  then have d: "distinct (map fst ((k, v) # ys))" using assms(2) distinct_keys_mset [OF m] by simp
  then show "distinct (map fst ys)" by simp
  have "map_of ys k = None" using d by (simp add: map_of_eq_None_iff)
  then have "map_of ys = (map_of ((k, v) # ys))(k := None)" by auto
  then show "map_of ys = (map_of xs)(k := None)" using map_of_mset_eq [OF assms(2) m] by metis
qed

lemma insert_ok:
  assumes wf: "dict_wf E d" and e0: "0 \<le> ht_size_exp (d_ht0 d)" and n: "dict_map d key = None"
  shows "\<exists>d'. dictInsertKeyAtLink d key val (insert_pos d (hashFunction E key)) = Some d' \<and> dict_wf E d' \<and>
    dict_map d' = (dict_map d)(key \<mapsto> val) \<and> pauserehash d' = pauserehash d \<and>
    pauseAutoResize d' = pauseAutoResize d \<and> dictSize d' = Suc (dictSize d) \<and> d_trace d' = d_trace d"
proof -
  let ?h = "hashFunction E key"
  obtain t i where p: "insert_pos d ?h = (t, i)" by fastforce
  then have t: "t = (if dictIsRehashing d then 1 else 0)" and ii: "i = hash_idx ?h (get_ht d t)"
    by (auto simp: insert_pos_def get_ht_def split: if_splits)
  have e: "0 \<le> ht_size_exp (get_ht d t)" and w: "ht_wf E (get_ht d t)"
    using wf e0 t by (auto simp: dict_wf_def get_ht_def)
  have i: "i < length (ht_table (get_ht d t))" using hash_idx_less [OF w e] ii by simp
  have bk: "hash_idx (hashFunction E (fst e)) (get_ht d t) = i"
    if "e \<in> set ((key, val) # ht_table (get_ht d t) ! i)" for e
    using that ii w i by (auto simp: ht_wf_def)
  define d' where "d' = set_ht d t ((get_ht d t)\<lparr>ht_table := (ht_table (get_ht d t))[i := (key, val) # ht_table (get_ht d t) ! i],
    ht_used := ht_used (get_ht d t) + 1\<rparr>)"
  have keep: "t = 0 \<Longrightarrow> dictIsRehashing d \<Longrightarrow> (key, val) # ht_table (get_ht d t) ! i = [] \<or> ht_table (d_ht0 d) ! i \<noteq> []"
    using t by simp
  note up = update_bucket_ok [OF wf _ i bk _ keep d'_def]
  have m: "mset (dict_entries d') = add_mset (key, val) (mset (dict_entries d))"
    using up(1) t by simp
  note ad = map_of_add_mset [OF m]
  have "distinct (map fst (dict_entries d))" "key \<notin> fst ` set (dict_entries d)"
    using wf n by (simp_all add: dict_wf_def dict_map_None)
  then have w': "dict_wf E d'" and m': "dict_map d' = (dict_map d)(key \<mapsto> val)"
    using ad up(2) t by (auto simp: dict_map_def)
  have sz: "DICTHT_SIZE_MASK (ht_size_exp (get_ht d t)) \<ge> i"
    using i e w by (auto simp: ht_wf_def DICTHT_SIZE_MASK_def DICTHT_SIZE_def)
  have "dictInsertKeyAtLink d key val (insert_pos d ?h) = Some d'"
    using p t sz i by (simp add: dictInsertKeyAtLink_def Let_def ht_bucket_def d'_def)
  moreover have "dictSize d' = Suc (dictSize d)"
    by (auto simp: dictSize_def d'_def set_ht_def get_ht_def)
  ultimately show ?thesis using w' m' up(3,4,6) t by auto
qed


lemma remove_entry_mset:
  assumes "e \<in> set b" and "distinct (map fst b)"
  shows "mset b = add_mset e (mset (remove_entry (fst e) b))" and "set (remove_entry (fst e) b) \<subseteq> set b"
    and "Suc (length (remove_entry (fst e) b)) = length b"
  using assms by (induction b) (auto simp: image_iff)

lemma set_val_map:
  "map fst (set_val k v b) = map fst b"
  "e \<in> set b \<Longrightarrow> fst e = k \<Longrightarrow> distinct (map fst b) \<Longrightarrow>
   mset (set_val k v b) + {#e#} = mset b + {#(k, v)#}"
proof -
  show "map fst (set_val k v b) = map fst b" by (induction b) auto
  show "e \<in> set b \<Longrightarrow> fst e = k \<Longrightarrow> distinct (map fst b) \<Longrightarrow>
   mset (set_val k v b) + {#e#} = mset b + {#(k, v)#}"
    by (induction b) (auto simp: image_iff)
qed

lemma length_set_val [simp]: "length (set_val k v b) = length b"
  using set_val_map(1) [of k v b] by (metis length_map)

lemma link_bucket_distinct:
  assumes "dict_wf E d" and "link_ok d (t, i, e)"
  shows "distinct (map fst (ht_table (get_ht d t) ! i))"
proof -
  have "distinct (map fst (ht_entries (get_ht d t)))"
    using assms by (auto simp: dict_wf_def get_ht_def dict_entries_def)
  moreover have "ht_table (get_ht d t) ! i \<in> set (ht_table (get_ht d t))" using assms by (simp add: link_ok_def)
  ultimately show ?thesis by (auto simp: ht_entries_def map_concat distinct_concat_iff)
qed

lemma link_hash:
  assumes "dict_wf E d" and "link_ok d (t, i, e)" and "e' \<in> set (ht_table (get_ht d t) ! i)"
  shows "hash_idx (hashFunction E (fst e')) (get_ht d t) = i"
proof -
  have "ht_wf E (get_ht d t)" using assms by (auto simp: dict_wf_def get_ht_def)
  then show ?thesis using assms by (auto simp: ht_wf_def link_ok_def)
qed

lemma unlink_ok:
  assumes wf: "dict_wf E d" and l: "link_ok d (t, i, e)"
  shows "\<exists>d'. unlink_at d t i (fst e) = Some d' \<and> dict_wf E d' \<and>
    dict_map d' = (dict_map d)(fst e := None) \<and> pauserehash d' = pauserehash d \<and>
    pauseAutoResize d' = pauseAutoResize d \<and> Suc (dictSize d') = dictSize d \<and> d_trace d' = d_trace d"
proof -
  let ?ht = "get_ht d t"
  let ?b = "ht_table ?ht ! i"
  have t: "t = 0 \<or> t = 1" and i: "i < length (ht_table ?ht)" and eb: "e \<in> set ?b"
    using l by (auto simp: link_ok_def)
  note rm = remove_entry_mset [OF eb link_bucket_distinct [OF wf l]]
  have "ht_wf E ?ht" using wf by (simp add: dict_wf_def get_ht_def)
  then have "0 < ht_used ?ht"
    using ht_bucket_subset [OF i] eb by (auto simp: ht_wf_def)
  then obtain u where u: "ht_used ?ht = Suc u" using gr0_implies_Suc by blast
  define d' where "d' = set_ht d t (?ht\<lparr>ht_table := (ht_table ?ht)[i := remove_entry (fst e) ?b], ht_used := u\<rparr>)"
  have "?b \<noteq> []" using eb by auto
  then have keep: "t = 0 \<Longrightarrow> dictIsRehashing d \<Longrightarrow> remove_entry (fst e) ?b = [] \<or> ht_table (d_ht0 d) ! i \<noteq> []"
    by (simp add: get_ht_def)
  have bk: "e' \<in> set (remove_entry (fst e) ?b) \<Longrightarrow> hash_idx (hashFunction E (fst e')) ?ht = i" for e'
    using rm(2) link_hash [OF wf l] by blast
  have cnt: "u + length ?b = ht_used ?ht + length (remove_entry (fst e) ?b)" using u rm(3) by simp
  note up = update_bucket_ok [OF wf t i bk cnt keep d'_def]
  have m: "mset (dict_entries d) = add_mset (fst e, snd e) (mset (dict_entries d'))"
    using up(1) rm(1) by simp
  note rmm = map_of_remove_mset [OF m]
  have dd: "distinct (map fst (dict_entries d))" using wf by (simp add: dict_wf_def)
  have "unlink_at d t i (fst e) = Some d'"
    using i u by (simp add: unlink_at_def ht_bucket_def dec_used_def d'_def)
  moreover have "Suc (dictSize d') = dictSize d"
    using u by (auto simp: dictSize_def d'_def set_ht_def get_ht_def split: if_splits)
  ultimately show ?thesis using up(2-4,6) rmm [OF dd] by (auto simp: dict_map_def)
qed

lemma setval_ok:
  assumes wf: "dict_wf E d" and l: "link_ok d (t, i, e)"
  shows "\<exists>d'. dictSetVal_at d t i (fst e) v = Some d' \<and> dict_wf E d' \<and>
    dict_map d' = (dict_map d)(fst e \<mapsto> v) \<and> pauserehash d' = pauserehash d \<and>
    pauseAutoResize d' = pauseAutoResize d \<and> dictSize d' = dictSize d \<and> d_trace d' = d_trace d"
proof -
  let ?ht = "get_ht d t" and ?k = "fst e"
  let ?b = "ht_table ?ht ! i"
  have t: "t = 0 \<or> t = 1" and i: "i < length (ht_table ?ht)" and eb: "e \<in> set ?b"
    using l by (auto simp: link_ok_def)
  note db = link_bucket_distinct [OF wf l]
  define d' where "d' = set_ht d t (?ht\<lparr>ht_table := (ht_table ?ht)[i := set_val ?k v ?b], ht_used := ht_used ?ht\<rparr>)"
  have "?b \<noteq> []" using eb by auto
  then have keep: "t = 0 \<Longrightarrow> dictIsRehashing d \<Longrightarrow> set_val ?k v ?b = [] \<or> ht_table (d_ht0 d) ! i \<noteq> []"
    by (simp add: get_ht_def)
  have bk: "hash_idx (hashFunction E (fst e')) ?ht = i" if e': "e' \<in> set (set_val ?k v ?b)" for e'
  proof -
    have "fst e' \<in> set (map fst ?b)" using e' set_val_map(1) [of ?k v ?b] by (metis list.set_map imageI)
    then show ?thesis using link_hash [OF wf l] by auto
  qed
  note up = update_bucket_ok [OF wf t i bk _ keep d'_def]
  obtain rest where r: "mset (dict_entries d) = add_mset e (mset rest)"
  proof -
    have "e \<in> set (dict_entries d)"
      using ht_bucket_subset [OF i] eb t by (auto simp: dict_entries_def get_ht_def split: if_splits)
    then have "mset (dict_entries d) = add_mset e (mset (remove1 e (dict_entries d)))" by simp
    then show ?thesis using that by blast
  qed
  have m: "mset (dict_entries d') = add_mset (?k, v) (mset rest)"
  proof -
    have "mset (dict_entries d') + mset ?b = mset (dict_entries d) + mset (set_val ?k v ?b)" using up(1) by simp
    then have "mset (dict_entries d') + mset ?b + {#e#} = add_mset e (mset rest) + (mset (set_val ?k v ?b) + {#e#})"
      using r by simp
    also have "\<dots> = add_mset e (mset rest) + (mset ?b + {#(?k, v)#})"
      using set_val_map(2) [OF eb refl db, of v] by simp
    finally show ?thesis by simp
  qed
  have r': "mset (dict_entries d) = add_mset (?k, snd e) (mset rest)" using r by simp
  have dd: "distinct (map fst (dict_entries d))" using wf by (simp add: dict_wf_def)
  note old = map_of_remove_mset [OF r' dd]
  have "distinct (map fst ((?k, snd e) # rest))" using dd distinct_keys_mset [of "dict_entries d" "(?k, snd e) # rest"] r' by simp
  then have "?k \<notin> fst ` set rest" by simp
  note new = map_of_add_mset [OF m old(1) this]
  have "dictSetVal_at d t i ?k v = Some d'"
    using i by (simp add: dictSetVal_at_def ht_bucket_def d'_def)
  moreover have "dictSize d' = dictSize d"
    by (auto simp: dictSize_def d'_def set_ht_def get_ht_def)
  moreover have "dict_map d' = (dict_map d)(?k \<mapsto> v)" using new(2) old(2) by (simp add: dict_map_def)
  ultimately show ?thesis using up(2-4,6) new(1) by auto
qed

end
