(* ===== verification/Map_Interface.thy ===== *)
theory Map_Interface
  imports Prelude
begin

text \<open>
  The contract of a finite map with mutable representation: lookups may reorganise the
  representation, so every operation returns a new state; an operation returns \<open>Some\<close> as long as
  the invariant holds. A sequence of operations on an implementation gives the results of the same
  sequence on the mathematical map.
\<close>

datatype ('k, 'v) map_op = MAdd 'k 'v | MReplace 'k 'v | MDelete 'k | MFind 'k

datatype 'v map_res = RBool bool | RVal "'v option"

fun spec_map_op :: "('k, 'v) map_op \<Rightarrow> ('k \<rightharpoonup> 'v) \<Rightarrow> ('k \<rightharpoonup> 'v) \<times> 'v map_res" where
  "spec_map_op (MAdd k v) m = (if m k = None then (m(k \<mapsto> v), RBool True) else (m, RBool False))"
| "spec_map_op (MReplace k v) m = (m(k \<mapsto> v), RBool (m k = None))"
| "spec_map_op (MDelete k) m = (m(k := None), RBool (m k \<noteq> None))"
| "spec_map_op (MFind k) m = (m, RVal (m k))"

primrec spec_map_ops :: "('k, 'v) map_op list \<Rightarrow> ('k \<rightharpoonup> 'v) \<Rightarrow> ('k \<rightharpoonup> 'v) \<times> 'v map_res list" where
  "spec_map_ops [] m = (m, [])"
| "spec_map_ops (p # ps) m =
     (case spec_map_op p m of (m', r) \<Rightarrow> case spec_map_ops ps m' of (m'', rs) \<Rightarrow> (m'', r # rs))"

fun run_map_op ::
    "('s \<Rightarrow> 'k \<Rightarrow> 'v \<Rightarrow> ('s \<times> bool) option) \<Rightarrow> ('s \<Rightarrow> 'k \<Rightarrow> 'v \<Rightarrow> ('s \<times> bool) option) \<Rightarrow>
     ('s \<Rightarrow> 'k \<Rightarrow> ('s \<times> bool) option) \<Rightarrow> ('s \<Rightarrow> 'k \<Rightarrow> ('s \<times> 'v option) option) \<Rightarrow>
     ('k, 'v) map_op \<Rightarrow> 's \<Rightarrow> ('s \<times> 'v map_res) option" where
  "run_map_op add replace del lookup (MAdd k v) s = map_option (map_prod id RBool) (add s k v)"
| "run_map_op add replace del lookup (MReplace k v) s = map_option (map_prod id RBool) (replace s k v)"
| "run_map_op add replace del lookup (MDelete k) s = map_option (map_prod id RBool) (del s k)"
| "run_map_op add replace del lookup (MFind k) s = map_option (map_prod id RVal) (lookup s k)"

primrec run_map_ops ::
    "(('k, 'v) map_op \<Rightarrow> 's \<Rightarrow> ('s \<times> 'v map_res) option) \<Rightarrow> ('k, 'v) map_op list \<Rightarrow> 's \<Rightarrow>
     ('s \<times> 'v map_res list) option" where
  "run_map_ops step [] s = Some (s, [])"
| "run_map_ops step (p # ps) s = do {
     (s', r) \<leftarrow> step p s;
     (s'', rs) \<leftarrow> run_map_ops step ps s';
     Some (s'', r # rs)
   }"

locale finite_map_impl =
  fixes inv :: "'s \<Rightarrow> bool" and abs :: "'s \<Rightarrow> 'k \<rightharpoonup> 'v" and new :: 's
    and add replace :: "'s \<Rightarrow> 'k \<Rightarrow> 'v \<Rightarrow> ('s \<times> bool) option"
    and del :: "'s \<Rightarrow> 'k \<Rightarrow> ('s \<times> bool) option"
    and lookup :: "'s \<Rightarrow> 'k \<Rightarrow> ('s \<times> 'v option) option"
  assumes inv_new: "inv new" and abs_new: "abs new = Map.empty"
    and add_law: "inv s \<Longrightarrow> \<exists>s'. add s k v = Some (s', abs s k = None) \<and> inv s' \<and>
      abs s' = (if abs s k = None then (abs s)(k \<mapsto> v) else abs s)"
    and replace_law: "inv s \<Longrightarrow> \<exists>s'. replace s k v = Some (s', abs s k = None) \<and> inv s' \<and>
      abs s' = (abs s)(k \<mapsto> v)"
    and del_law: "inv s \<Longrightarrow> \<exists>s'. del s k = Some (s', abs s k \<noteq> None) \<and> inv s' \<and>
      abs s' = (abs s)(k := None)"
    and lookup_law: "inv s \<Longrightarrow> \<exists>s'. lookup s k = Some (s', abs s k) \<and> inv s' \<and> abs s' = abs s"
begin

lemma step_simulates:
  assumes "inv s"
  shows "\<exists>s' r. run_map_op add replace del lookup p s = Some (s', r) \<and> inv s' \<and>
    spec_map_op p (abs s) = (abs s', r)"
  using assms add_law replace_law del_law lookup_law by (cases p) fastforce+

lemma run_simulates:
  "inv s \<Longrightarrow> \<exists>s' rs. run_map_ops (run_map_op add replace del lookup) ps s = Some (s', rs) \<and> inv s' \<and>
    spec_map_ops ps (abs s) = (abs s', rs)"
proof (induction ps arbitrary: s)
  case Nil
  then show ?case by simp
next
  case (Cons p ps)
  obtain s1 r where s1: "run_map_op add replace del lookup p s = Some (s1, r)" "inv s1"
    "spec_map_op p (abs s) = (abs s1, r)"
    using step_simulates [OF Cons.prems] by blast
  show ?case using s1(1,3) Cons.IH [OF s1(2)] by auto
qed

lemma run_new:
  "\<exists>s' rs. run_map_ops (run_map_op add replace del lookup) ps new = Some (s', rs) \<and> inv s' \<and>
    spec_map_ops ps Map.empty = (abs s', rs)"
  using run_simulates [OF inv_new] by (simp add: abs_new)

end

end
