(* ===== verification/Dict_Ops.thy ===== *)
theory Dict_Ops
  imports Dict_Inv Map_Interface
begin

text \<open>
  Every operation of the hash table implements the operation on the finite map it represents, on
  any well-formed state, in the middle of a rehash or not, and keeps the invariant. A state that can
  grow is one where automatic resizing is not paused or a table is allocated.
\<close>

definition can_grow :: "('k, 'v) dict \<Rightarrow> bool" where
  "can_grow d \<longleftrightarrow> pauseAutoResize d \<le> 0"

lemma dictSize_entries: "dict_wf E d \<Longrightarrow> dictSize d = length (dict_entries d)"
  by (simp add: dict_wf_def ht_wf_def dictSize_def dict_entries_def)

lemma dictSize_card: "dict_wf E d \<Longrightarrow> dictSize d = card (dom (dict_map d))"
  using distinct_card [of "map fst (dict_entries d)"]
  by (simp add: dictSize_entries [of E] dict_map_def dom_map_of_conv_image_fst dict_wf_def)

lemma dictSize_0_map: "dict_wf E d \<Longrightarrow> dictSize d = 0 \<Longrightarrow> dict_map d = Map.empty"
  by (simp add: dictSize_entries [of E] dict_map_def)

lemma dict_map_create: "dict_map dictCreate = Map.empty"
  by (simp add: dict_map_def dictCreate_def dict_entries_def ht_entries_def dictReset_ht_def)

lemma pauserehash_irrelevant [simp]:
  "dict_entries (d\<lparr>pauserehash := p\<rparr>) = dict_entries d" "dict_map (d\<lparr>pauserehash := p\<rparr>) = dict_map d"
  "get_ht (d\<lparr>pauserehash := p\<rparr>) t = get_ht d t" "dictIsRehashing (d\<lparr>pauserehash := p\<rparr>) = dictIsRehashing d"
  "dictBuckets (d\<lparr>pauserehash := p\<rparr>) = dictBuckets d" "trace_ok (d\<lparr>pauserehash := p\<rparr>) = trace_ok d"
  "dict_wf E (d\<lparr>pauserehash := p\<rparr>) = dict_wf E d" "link_ok (d\<lparr>pauserehash := p\<rparr>) l = link_ok d l"
proof -
  show en: "dict_entries (d\<lparr>pauserehash := p\<rparr>) = dict_entries d" by (simp add: dict_entries_def)
  then show "dict_map (d\<lparr>pauserehash := p\<rparr>) = dict_map d" by (simp add: dict_map_def)
  show ht: "get_ht (d\<lparr>pauserehash := p\<rparr>) t = get_ht d t" for t by (simp add: get_ht_def)
  show r: "dictIsRehashing (d\<lparr>pauserehash := p\<rparr>) = dictIsRehashing d" by (simp add: dictIsRehashing_def)
  show b: "dictBuckets (d\<lparr>pauserehash := p\<rparr>) = dictBuckets d" by (simp add: dictBuckets_def)
  show t: "trace_ok (d\<lparr>pauserehash := p\<rparr>) = trace_ok d" by (simp only: trace_ok_def r b) simp
  show "dict_wf E (d\<lparr>pauserehash := p\<rparr>) = dict_wf E d" by (simp only: dict_wf_def en r t) simp
  show "link_ok (d\<lparr>pauserehash := p\<rparr>) l = link_ok d l" by (simp only: link_ok_def ht r)
qed

section \<open>Lookup\<close>

lemma idx_valid_search:
  "idx_valid d d' \<Longrightarrow> rehashidx d' \<le> 0 \<or> hash_idx h (d_ht0 d) = hash_idx h (d_ht0 d')"
  by (auto simp: idx_valid_def hash_idx_def)

lemma step_find_ok:
  assumes wf: "dict_wf E d" and ne: "dictSize d \<noteq> 0" and h: "h = hashFunction E key"
  shows "\<exists>d1 found bucket. u_dictRehashStepIfNeeded E d (hash_idx h (d_ht0 d)) = Some d1 \<and>
    dict_same E d d1 \<and>
    find_tables d1 key h (hash_idx h (d_ht0 d)) (dict_tables d1) None = Some (found, bucket) \<and>
    (case found of Some l \<Rightarrow> link_ok d1 l \<and> fst (snd (snd l)) = key
     | None \<Rightarrow> dict_map d1 key = None \<and> bucket = Some (insert_pos d1 h))"
proof -
  obtain d1 where d1: "u_dictRehashStepIfNeeded E d (hash_idx h (d_ht0 d)) = Some d1" "dict_same E d d1"
    "idx_valid d d1"
    using step_if_needed_ok [OF wf, of h] by blast
  have w1: "dict_wf E d1" using d1(2) by (simp add: dict_same_def)
  have e0: "0 \<le> ht_size_exp (d_ht0 d1)"
    by (rule dict_same_exp0 [OF d1(2)]) (use ne dictSize_entries [OF wf] in simp)
  show ?thesis
    using d1 find_tables_ok [OF w1 e0 h idx_valid_search [OF d1(3)]] by auto
qed

lemma found_map:
  assumes "dict_wf E d" and "dict_same E d d1" and "link_ok d1 (t, i, e)" and "fst e = key"
  shows "dict_map d key = Some (snd e)"
proof -
  have "dict_wf E d1" using assms(2) by (simp add: dict_same_def)
  then show ?thesis using link_ok_map [OF _ assms(3)] dict_same_map [OF assms(1,2)] assms(4) by simp
qed

lemma dictFind_ok:
  assumes wf: "dict_wf E d"
  shows "\<exists>d'. dictFind E d key = Some (d', map_option (Pair key) (dict_map d key)) \<and> dict_same E d d'"
proof (cases "dictSize d = 0")
  case True
  then show ?thesis
    using dictSize_0_map [OF wf] wf by (simp add: dictFind_def dictFindLink_def dict_same_refl)
next
  case False
  let ?h = "hashFunction E key"
  obtain d1 found bucket where d1: "u_dictRehashStepIfNeeded E d (hash_idx ?h (d_ht0 d)) = Some d1"
    "dict_same E d d1" "find_tables d1 key ?h (hash_idx ?h (d_ht0 d)) (dict_tables d1) None = Some (found, bucket)"
    "case found of Some l \<Rightarrow> link_ok d1 l \<and> fst (snd (snd l)) = key | None \<Rightarrow> dict_map d1 key = None \<and> bucket = Some (insert_pos d1 ?h)"
    using step_find_ok [OF wf False refl] by blast
  have "map_option (\<lambda>(_, _, e). e) found = map_option (Pair key) (dict_map d key)"
  proof (cases found)
    case None
    then show ?thesis using d1(4) dict_same_map [OF wf d1(2)] by simp
  next
    case (Some l)
    then show ?thesis using d1(4) found_map [OF wf d1(2)] by (cases l) auto
  qed
  then show ?thesis using d1(1-3) False
    by (simp add: dictFind_def dictFindLink_def dictFindLinkInternal_def Let_def split: prod.splits)
qed

lemma dictFetchValue_ok:
  assumes "dict_wf E d"
  shows "\<exists>d'. dictFetchValue E d key = Some (d', dict_map d key) \<and> dict_same E d d'"
proof -
  obtain d' where "dictFind E d key = Some (d', map_option (Pair key) (dict_map d key))" "dict_same E d d'"
    using dictFind_ok [OF assms] by blast
  then show ?thesis by (simp add: dictFetchValue_def option.map_comp comp_def option.map_ident)
qed

section \<open>Insertion\<close>

lemma find_for_insert_ok:
  assumes wf: "dict_wf E d" and g: "can_grow d"
  shows "\<exists>d2 found bucket. dictFindLinkForInsert E d key = Some (d2, found, bucket) \<and> dict_same E d d2 \<and>
    0 \<le> ht_size_exp (d_ht0 d2) \<and>
    (case found of Some l \<Rightarrow> link_ok d2 l \<and> fst (snd (snd l)) = key
     | None \<Rightarrow> dict_map d2 key = None \<and> bucket = Some (insert_pos d2 (hashFunction E key)))"
proof -
  let ?h = "hashFunction E key"
  obtain d1 where d1: "u_dictRehashStepIfNeeded E d (hash_idx ?h (d_ht0 d)) = Some d1" "dict_same E d d1"
    "idx_valid d d1"
    using step_if_needed_ok [OF wf, of ?h] by blast
  have w1: "dict_wf E d1" and g1: "pauseAutoResize d1 \<le> 0"
    using d1(2) g by (simp_all add: dict_same_def can_grow_def)
  obtain d2 b where d2: "u_dictExpandIfNeeded E d1 = Some (d2, b)" "resized E d1 d2" "0 \<le> ht_size_exp (d_ht0 d2)"
    using expand_if_needed_ok [OF w1] g1 by blast
  have s2: "dict_same E d d2" using d1(2) d2(2) dict_same_trans by (auto simp: resized_def)
  then have w2: "dict_wf E d2" by (simp add: dict_same_def)
  have "rehashidx d2 \<le> 0 \<or> hash_idx ?h (d_ht0 d) = hash_idx ?h (d_ht0 d2)"
    using d2(2) idx_valid_search [OF d1(3)] by (auto simp: resized_def)
  then show ?thesis
    using find_tables_ok [OF w2 d2(3) refl, of "hash_idx ?h (d_ht0 d)" key] d1(1) d2(1,3) s2
    by (auto simp: dictFindLinkForInsert_def Let_def)
qed

lemma dictAddRaw_ok:
  assumes wf: "dict_wf E d" and g: "can_grow d"
  shows "\<exists>d' ex. dictAddRaw E d key val = Some (d', ex) \<and> dict_wf E d' \<and> can_grow d' \<and>
    pauserehash d' = pauserehash d \<and> trace_ext d d' \<and>
    (case ex of
       Some l \<Rightarrow> dict_map d' = dict_map d \<and> link_ok d' l \<and> fst (snd (snd l)) = key \<and>
         dict_map d key = Some (snd (snd (snd l)))
     | None \<Rightarrow> dict_map d key = None \<and> dict_map d' = (dict_map d)(key \<mapsto> val))"
proof -
  obtain d2 found bucket where d2: "dictFindLinkForInsert E d key = Some (d2, found, bucket)" "dict_same E d d2"
    "0 \<le> ht_size_exp (d_ht0 d2)"
    "case found of Some l \<Rightarrow> link_ok d2 l \<and> fst (snd (snd l)) = key
     | None \<Rightarrow> dict_map d2 key = None \<and> bucket = Some (insert_pos d2 (hashFunction E key))"
    using find_for_insert_ok [OF assms] by blast
  have w2: "dict_wf E d2" and g2: "can_grow d2" and p2: "pauserehash d2 = pauserehash d"
    and m2: "dict_map d2 = dict_map d" and t2: "trace_ext d d2"
    using d2(2) g dict_same_map [OF wf d2(2)] by (simp_all add: dict_same_def can_grow_def)
  show ?thesis
  proof (cases found)
    case None
    then have n: "dict_map d2 key = None" and b: "bucket = Some (insert_pos d2 (hashFunction E key))"
      using d2(4) by simp_all
    obtain d' where d': "dictInsertKeyAtLink d2 key val (insert_pos d2 (hashFunction E key)) = Some d'"
      "dict_wf E d'" "dict_map d' = (dict_map d2)(key \<mapsto> val)" "pauserehash d' = pauserehash d2"
      "pauseAutoResize d' = pauseAutoResize d2" "d_trace d' = d_trace d2"
      using insert_ok [OF w2 d2(3) n, of val] by blast
    have "dictAddRaw E d key val = Some (d', None)" using d2(1) None b d'(1) by (simp add: dictAddRaw_def)
    then show ?thesis using d' m2 n p2 g2 trace_ext_trans [OF t2 trace_ext_eq [OF d'(6)]]
      by (simp add: can_grow_def)
  next
    case (Some l)
    have "dict_map d key = Some (snd (snd (snd l)))"
      using found_map [OF wf d2(2), of "fst l" "fst (snd l)" "snd (snd l)" key] d2(4) Some by simp
    moreover have "dictAddRaw E d key val = Some (d2, Some l)" using d2(1) Some by (simp add: dictAddRaw_def)
    ultimately show ?thesis using d2(4) Some w2 g2 p2 m2 t2 by simp
  qed
qed

lemma dictAdd_ok:
  assumes "dict_wf E d" and "can_grow d"
  shows "\<exists>d'. dictAdd E d key val = Some (d', dict_map d key = None) \<and> dict_wf E d' \<and> can_grow d' \<and>
    pauserehash d' = pauserehash d \<and> trace_ext d d' \<and>
    dict_map d' = (if dict_map d key = None then (dict_map d)(key \<mapsto> val) else dict_map d)"
proof -
  obtain d' ex where d': "dictAddRaw E d key val = Some (d', ex)" "dict_wf E d'" "can_grow d'"
    "pauserehash d' = pauserehash d" "trace_ext d d'"
    and c: "case ex of
       Some l \<Rightarrow> dict_map d' = dict_map d \<and> link_ok d' l \<and> fst (snd (snd l)) = key \<and>
         dict_map d key = Some (snd (snd (snd l)))
     | None \<Rightarrow> dict_map d key = None \<and> dict_map d' = (dict_map d)(key \<mapsto> val)"
    using dictAddRaw_ok [OF assms] by blast
  show ?thesis using d' c by (cases ex) (simp_all add: dictAdd_def)
qed

lemma dictReplace_ok:
  assumes "dict_wf E d" and "can_grow d"
  shows "\<exists>d'. dictReplace E d key val = Some (d', dict_map d key = None) \<and> dict_wf E d' \<and> can_grow d' \<and>
    pauserehash d' = pauserehash d \<and> dict_map d' = (dict_map d)(key \<mapsto> val)"
proof -
  obtain d1 ex where d1: "dictAddRaw E d key val = Some (d1, ex)" "dict_wf E d1" "can_grow d1"
    "pauserehash d1 = pauserehash d"
    and c: "case ex of
       Some l \<Rightarrow> dict_map d1 = dict_map d \<and> link_ok d1 l \<and> fst (snd (snd l)) = key \<and>
         dict_map d key = Some (snd (snd (snd l)))
     | None \<Rightarrow> dict_map d key = None \<and> dict_map d1 = (dict_map d)(key \<mapsto> val)"
    using dictAddRaw_ok [OF assms] by blast
  show ?thesis
  proof (cases ex)
    case None
    then show ?thesis using d1 c by (simp add: dictReplace_def)
  next
    case (Some l)
    obtain t i e where l: "l = (t, i, e)" by (cases l)
    obtain d2 where d2: "dictSetVal_at d1 t i key val = Some d2" "dict_wf E d2"
      "dict_map d2 = (dict_map d1)(key \<mapsto> val)" "pauserehash d2 = pauserehash d1"
      "pauseAutoResize d2 = pauseAutoResize d1"
      using setval_ok [OF d1(2), of t i e val] c Some l by auto
    have "dictReplace E d key val = Some (d2, False)"
      using d1(1) Some l d2(1) by (simp add: dictReplace_def)
    then show ?thesis using d2 d1 c Some l by (simp add: can_grow_def)
  qed
qed

lemma dictAddOrFind_ok:
  assumes "dict_wf E d" and "can_grow d"
  shows "\<exists>d'. dictAddOrFind E d key val =
      Some (d', key, case dict_map d key of None \<Rightarrow> val | Some v \<Rightarrow> v) \<and> dict_wf E d' \<and>
    dict_map d' = (if dict_map d key = None then (dict_map d)(key \<mapsto> val) else dict_map d)"
proof -
  obtain d' ex where d': "dictAddRaw E d key val = Some (d', ex)" "dict_wf E d'"
    and c: "case ex of
       Some l \<Rightarrow> dict_map d' = dict_map d \<and> link_ok d' l \<and> fst (snd (snd l)) = key \<and>
         dict_map d key = Some (snd (snd (snd l)))
     | None \<Rightarrow> dict_map d key = None \<and> dict_map d' = (dict_map d)(key \<mapsto> val)"
    using dictAddRaw_ok [OF assms] by blast
  show ?thesis
  proof (cases ex)
    case None
    then show ?thesis using d' c by (simp add: dictAddOrFind_def)
  next
    case (Some l)
    then show ?thesis using d' c by (cases l) (auto simp: dictAddOrFind_def)
  qed
qed

section \<open>Deletion\<close>

lemma unlink_shrink_ok:
  assumes wf: "dict_wf E d" and l: "link_ok d (t, i, e)"
  shows "\<exists>d2 d3. unlink_at d t i (fst e) = Some d2 \<and> u_dictShrinkIfNeeded E d2 = Some d3 \<and> dict_wf E d3 \<and>
    dict_map d3 = (dict_map d)(fst e := None) \<and> pauserehash d3 = pauserehash d \<and>
    pauseAutoResize d3 = pauseAutoResize d \<and> trace_ext d d3"
proof -
  obtain d2 where d2: "unlink_at d t i (fst e) = Some d2" "dict_wf E d2"
    "dict_map d2 = (dict_map d)(fst e := None)" "pauserehash d2 = pauserehash d"
    "pauseAutoResize d2 = pauseAutoResize d" "d_trace d2 = d_trace d"
    using unlink_ok [OF wf l] by blast
  obtain d3 where d3: "u_dictShrinkIfNeeded E d2 = Some d3" "dict_same E d2 d3"
    using shrink_if_needed_ok [OF d2(2)] by blast
  then show ?thesis using d2 dict_same_map [OF d2(2) d3(2)] trace_ext_trans [OF trace_ext_eq [OF d2(6)], of d3]
    by (auto simp: dict_same_def)
qed

lemma dictGenericDelete_ok:
  assumes wf: "dict_wf E d"
  shows "\<exists>d'. dictGenericDelete E d key = Some (d', map_option (Pair key) (dict_map d key)) \<and> dict_wf E d' \<and>
    dict_map d' = (dict_map d)(key := None) \<and> pauserehash d' = pauserehash d \<and>
    pauseAutoResize d' = pauseAutoResize d \<and> trace_ext d d'"
proof (cases "dictSize d = 0")
  case True
  then show ?thesis using dictSize_0_map [OF wf] wf by (simp add: dictGenericDelete_def fun_eq_iff)
next
  case False
  let ?h = "hashFunction E key"
  obtain d1 found bucket where d1: "u_dictRehashStepIfNeeded E d (hash_idx ?h (d_ht0 d)) = Some d1"
    "dict_same E d d1" "find_tables d1 key ?h (hash_idx ?h (d_ht0 d)) (dict_tables d1) None = Some (found, bucket)"
    "case found of Some l \<Rightarrow> link_ok d1 l \<and> fst (snd (snd l)) = key | None \<Rightarrow> dict_map d1 key = None \<and> bucket = Some (insert_pos d1 ?h)"
    using step_find_ok [OF wf False refl] by blast
  have w1: "dict_wf E d1" and p1: "pauserehash d1 = pauserehash d" "pauseAutoResize d1 = pauseAutoResize d"
    "trace_ext d d1"
    using d1(2) by (simp_all add: dict_same_def)
  note m1 = dict_same_map [OF wf d1(2)]
  show ?thesis
  proof (cases found)
    case None
    then have "dict_map d key = None" using d1(4) m1 by simp
    moreover have "dictGenericDelete E d key = Some (d1, None)"
      using False d1(1,3) None by (simp add: dictGenericDelete_def Let_def)
    ultimately show ?thesis using w1 m1 p1 by (simp add: fun_upd_idem)
  next
    case (Some l)
    obtain t i e where l: "l = (t, i, e)" by (cases l)
    have lk: "link_ok d1 (t, i, e)" and k: "fst e = key" using d1(4) Some l by simp_all
    obtain d2 d3 where d3: "unlink_at d1 t i key = Some d2" "u_dictShrinkIfNeeded E d2 = Some d3" "dict_wf E d3"
      "dict_map d3 = (dict_map d1)(key := None)" "pauserehash d3 = pauserehash d1"
      "pauseAutoResize d3 = pauseAutoResize d1" "trace_ext d1 d3"
      using unlink_shrink_ok [OF w1 lk] k by blast
    have "dictGenericDelete E d key = Some (d3, Some e)"
      using False d1(1,3) Some l d3(1,2) by (simp add: dictGenericDelete_def Let_def)
    moreover have "dict_map d key = Some (snd e)" using found_map [OF wf d1(2) lk k] .
    ultimately show ?thesis using d3 m1 p1 k trace_ext_trans [OF p1(3) d3(7)] by auto
  qed
qed

lemma dictDelete_ok:
  assumes "dict_wf E d"
  shows "\<exists>d'. dictDelete E d key = Some (d', dict_map d key \<noteq> None) \<and> dict_wf E d' \<and>
    dict_map d' = (dict_map d)(key := None) \<and> pauserehash d' = pauserehash d \<and>
    pauseAutoResize d' = pauseAutoResize d \<and> trace_ext d d'"
proof -
  obtain d' where d': "dictGenericDelete E d key = Some (d', map_option (Pair key) (dict_map d key))" "dict_wf E d'"
    "dict_map d' = (dict_map d)(key := None)" "pauserehash d' = pauserehash d"
    "pauseAutoResize d' = pauseAutoResize d" "trace_ext d d'"
    using dictGenericDelete_ok [OF assms] by blast
  have "(map_option (Pair key) (dict_map d key) \<noteq> None) = (dict_map d key \<noteq> None)" by simp
  then show ?thesis using d' by (auto simp: dictDelete_def)
qed


text \<open>
  The two-phase deletion: between the phases the rehash is paused, so the link stays valid; other
  changes of the state are up to the caller, and none are assumed here.
\<close>

lemma dictTwoPhaseUnlink_ok:
  assumes wf: "dict_wf E d"
  shows "\<exists>d1 link d2. dictTwoPhaseUnlinkFind E d key = Some (d1, link) \<and>
    map_option (\<lambda>(_, _, e). e) link = map_option (Pair key) (dict_map d key) \<and>
    dict_wf E d1 \<and> dict_map d1 = dict_map d \<and>
    pauserehash d1 = pauserehash d + (if dict_map d key = None then 0 else 1) \<and>
    dictTwoPhaseUnlinkFree E d1 link = Some d2 \<and> dict_wf E d2 \<and>
    dict_map d2 = (dict_map d)(key := None) \<and> pauserehash d2 = pauserehash d"
proof (cases "dictSize d = 0")
  case True
  then show ?thesis
    using dictSize_0_map [OF wf] wf
    by (simp add: dictTwoPhaseUnlinkFind_def dictTwoPhaseUnlinkFree_def fun_eq_iff)
next
  case False
  let ?h = "hashFunction E key"
  obtain d0 where d0: "(if dictIsRehashing d then u_dictRehashStep E d else Some d) = Some d0" "dict_same E d d0"
  proof (cases "dictIsRehashing d \<and> pauserehash d = 0")
    case True
    then show ?thesis using that rehash_one_ok [OF wf, of 1] by (auto simp: u_dictRehashStep_def)
  next
    case False
    then show ?thesis using that [of d] dict_same_refl [OF wf] by (auto simp: u_dictRehashStep_def)
  qed
  have w0: "dict_wf E d0" and p0: "pauserehash d0 = pauserehash d" using d0(2) by (simp_all add: dict_same_def)
  note m0 = dict_same_map [OF wf d0(2)]
  have e0: "0 \<le> ht_size_exp (d_ht0 d0)"
    by (rule dict_same_exp0 [OF d0(2)]) (use False dictSize_entries [OF wf] in simp)
  obtain found bucket where f:
    "find_tables d0 key ?h (hash_idx ?h (d_ht0 d0)) (dict_tables d0) None = Some (found, bucket)"
    "case found of Some l \<Rightarrow> link_ok d0 l \<and> fst (snd (snd l)) = key | None \<Rightarrow> dict_map d0 key = None \<and> bucket = Some (insert_pos d0 ?h)"
    using find_tables_ok [OF w0 e0 refl, of "hash_idx ?h (d_ht0 d0)" key] by auto
  show ?thesis
  proof (cases found)
    case None
    then have "dict_map d key = None" using f(2) m0 by simp
    moreover have "dictTwoPhaseUnlinkFind E d key = Some (d0, None)"
      using False d0(1) f(1) None by (simp add: dictTwoPhaseUnlinkFind_def)
    ultimately show ?thesis using w0 m0 p0 by (simp add: dictTwoPhaseUnlinkFree_def fun_upd_idem)
  next
    case (Some l)
    obtain t i e where l: "l = (t, i, e)" by (cases l)
    have lk: "link_ok d0 (t, i, e)" and k: "fst e = key" using f(2) Some l by simp_all
    have mk: "dict_map d key = Some (snd e)" using found_map [OF wf d0(2) lk k] .
    define d1 where "d1 = d0\<lparr>pauserehash := pauserehash d0 + 1\<rparr>"
    have w1: "dict_wf E d1" "dict_map d1 = dict_map d0" "link_ok d1 (t, i, e)"
      using w0 lk by (simp_all add: d1_def)
    obtain d2 d3 where d3: "unlink_at d1 t i key = Some d2" "u_dictShrinkIfNeeded E d2 = Some d3" "dict_wf E d3"
      "dict_map d3 = (dict_map d1)(key := None)" "pauserehash d3 = pauserehash d1"
      using unlink_shrink_ok [OF w1(1,3)] k by blast
    have "dictTwoPhaseUnlinkFind E d key = Some (d1, Some (t, i, e))"
      using False d0(1) f(1) Some l by (simp add: dictTwoPhaseUnlinkFind_def d1_def)
    moreover have "dictTwoPhaseUnlinkFree E d1 (Some (t, i, e)) = Some (d3\<lparr>pauserehash := pauserehash d0\<rparr>)"
      using d3(1,2,5) k by (simp add: dictTwoPhaseUnlinkFree_def dec_used_def d1_def)
    ultimately show ?thesis using w1 d3(3,4) m0 p0 mk k
      by (intro exI [of _ d1] exI [of _ "Some (t, i, e)"] exI [of _ "d3\<lparr>pauserehash := pauserehash d0\<rparr>"])
        (auto simp: d1_def)
  qed
qed

section \<open>Clearing\<close>

lemma clear_loop_ok: "length (concat bs) \<le> used \<Longrightarrow> \<exists>n. clear_loop bs used = Some n"
  by (induction bs used rule: clear_loop.induct) auto

lemma clear_ok:
  assumes "ht_wf E (get_ht d t)"
  shows "u_dictClear d t = Some (set_ht d t dictReset_ht)"
proof -
  obtain n where "clear_loop (ht_table (get_ht d t)) (ht_used (get_ht d t)) = Some n"
    using clear_loop_ok assms by (fastforce simp: ht_wf_def ht_entries_def)
  then show ?thesis by (simp add: u_dictClear_def)
qed

lemma dictEmpty_ok:
  assumes wf: "dict_wf E d"
  shows "\<exists>d'. dictEmpty d = Some d' \<and> dict_wf E d' \<and> dict_map d' = Map.empty \<and> can_grow d' \<and>
    pauserehash d' = 0 \<and> \<not> dictIsRehashing d' \<and> dictBuckets d' = 0 \<and> trace_ext d d'"
proof -
  define s0 s1 where s: "s0 = DICTHT_SIZE (ht_size_exp (d_ht0 d))" "s1 = DICTHT_SIZE (ht_size_exp (d_ht1 d))"
  define tr where "tr = (if dictIsRehashing d then [RehashingCompleted s0 s1] else []) @ [BucketChanged (- int (s0 + s1))]"
  define d' where "d' = d\<lparr>d_ht0 := dictReset_ht, d_ht1 := dictReset_ht, rehashidx := - 1, pauserehash := 0,
    pauseAutoResize := 0, d_trace := d_trace d @ tr\<rparr>"
  have w: "ht_wf E (d_ht0 d)" "ht_wf E (d_ht1 d)" using wf by (simp_all add: dict_wf_def)
  have "dictEmpty d = Some d'"
    using w
    by (simp add: clear_ok [where E = E] dictEmpty_def Let_def get_ht_def set_ht_def notify_def dictBuckets_def d'_def tr_def s)
  moreover have "trace_ok d'"
    using wf by (simp add: d'_def tr_def trace_ok_def dict_wf_def dictBuckets_def dictIsRehashing_def
        dictReset_ht_def DICTHT_SIZE_def s)
  moreover have "dict_entries d' = []" by (simp add: d'_def dict_entries_def ht_entries_def dictReset_ht_def)
  ultimately show ?thesis
    using ht_wf_reset [of E]
    by (auto simp: dict_wf_def d'_def dictIsRehashing_def dict_map_def can_grow_def dictBuckets_def
        dictReset_ht_def DICTHT_SIZE_def trace_ext_def)
qed

section \<open>The hash table is a finite map\<close>

interpretation dict_finite_map: finite_map_impl
  "\<lambda>d. dict_wf E d \<and> can_grow d" dict_map dictCreate "dictAdd E" "dictReplace E" "dictDelete E" "dictFetchValue E"
  for E :: "'k dictEnv"
proof unfold_locales
  show "dict_wf E dictCreate \<and> can_grow dictCreate"
    using dict_wf_create by (simp add: can_grow_def dictCreate_def)
  show "dict_map dictCreate = Map.empty" by (rule dict_map_create)
next
  fix d :: "('k, 'v) dict" and k v
  assume inv: "dict_wf E d \<and> can_grow d"
  show "\<exists>s'. dictAdd E d k v = Some (s', dict_map d k = None) \<and> (dict_wf E s' \<and> can_grow s') \<and>
      dict_map s' = (if dict_map d k = None then (dict_map d)(k \<mapsto> v) else dict_map d)"
    using dictAdd_ok [of E d k v] inv by auto
  show "\<exists>s'. dictReplace E d k v = Some (s', dict_map d k = None) \<and> (dict_wf E s' \<and> can_grow s') \<and>
      dict_map s' = (dict_map d)(k \<mapsto> v)"
    using dictReplace_ok [of E d k v] inv by auto
  show "\<exists>s'. dictDelete E d k = Some (s', dict_map d k \<noteq> None) \<and> (dict_wf E s' \<and> can_grow s') \<and>
      dict_map s' = (dict_map d)(k := None)"
    using dictDelete_ok [of E d k] inv by (auto simp: can_grow_def)
  show "\<exists>s'. dictFetchValue E d k = Some (s', dict_map d k) \<and> (dict_wf E s' \<and> can_grow s') \<and>
      dict_map s' = dict_map d"
  proof -
    obtain d' where d': "dictFetchValue E d k = Some (d', dict_map d k)" "dict_same E d d'"
      using dictFetchValue_ok [of E d k] inv by blast
    then show ?thesis using dict_same_map [of E d d'] inv by (simp add: dict_same_def can_grow_def)
  qed
qed


section \<open>Properties\<close>

text \<open>
  A table in the middle of a rehash from 4 to 8 buckets: bucket 0 has been moved, bucket 1 has not.
\<close>

definition E_example :: "nat dictEnv" where
  "E_example = \<lparr>hashFunction = (\<lambda>k. k), resizeAllowed = None, force_full_rehash = False,
     dict_can_resize = DICT_RESIZE_ENABLE\<rparr>"

definition dict_example :: "(nat, nat) dict" where
  "dict_example =
     \<lparr>d_ht0 = \<lparr>ht_table = [[], [(1, 10), (5, 50)], [], []], ht_used = 2, ht_size_exp = 2\<rparr>,
      d_ht1 = \<lparr>ht_table = [[(8, 80)], [], [], [], [(4, 40)], [], [], []], ht_used = 2, ht_size_exp = 3\<rparr>,
      rehashidx = 1, pauserehash = 0, pauseAutoResize = 0,
      d_trace = [BucketChanged 4, RehashingStarted 4 8, BucketChanged 8]\<rparr>"

lemma dict_example_wf: "dict_wf E_example dict_example"
  by (simp add: dict_wf_def dict_example_def E_example_def ht_wf_def ht_entries_def dict_entries_def
      dictIsRehashing_def trace_ok_def dictBuckets_def DICTHT_SIZE_def hash_idx_mod All_less_Suc)

lemma dict_example_map: "dict_map dict_example = [1 \<mapsto> 10, 5 \<mapsto> 50, 8 \<mapsto> 80, 4 \<mapsto> 40]"
  by (auto simp: dict_map_def dict_entries_def ht_entries_def dict_example_def fun_eq_iff)

text \<open>
  (C1) For every hash function, every resize policy and every sequence of additions, replacements,
  deletions and lookups, starting with an empty table, the hash table returns the results of the
  same sequence on a mathematical finite map and ends in a well-formed state that represents that
  map, however many incremental rehash steps and resizes the operations perform on the way.
\<close>

theorem dict_refines_map:
  "\<exists>d rs. run_map_ops (run_map_op (dictAdd E) (dictReplace E) (dictDelete E) (dictFetchValue E)) ps dictCreate =
      Some (d, rs) \<and> dict_wf E d \<and> spec_map_ops ps Map.empty = (dict_map d, rs)"
  using dict_finite_map.run_new [of E ps] by blast

text \<open>
  A lookup in any well-formed table, in the middle of a rehash too, returns the entry of the
  key exactly when the map has one; the rehash step it performs leaves the map and the pause
  counters alone.
\<close>

theorem dictFind_correct:
  assumes "dict_wf E d"
  shows "\<exists>d'. dictFind E d key = Some (d', map_option (Pair key) (dict_map d key)) \<and> dict_wf E d' \<and>
    dict_map d' = dict_map d \<and> pauserehash d' = pauserehash d"
  using dictFind_ok [OF assms, of key] dict_same_map [OF assms] by (auto simp: dict_same_def)

theorem dictFind_correct_witness:
  "\<exists>d'. dictFind E_example dict_example 5 = Some (d', Some (5, 50)) \<and>
    dict_map d' = [1 \<mapsto> 10, 5 \<mapsto> 50, 8 \<mapsto> 80, 4 \<mapsto> 40]"
  using dictFind_correct [OF dict_example_wf, of 5] by (auto simp: dict_example_map)

text \<open>
  (C13) Rehashing \<open>n\<close> buckets never loses, duplicates or changes an entry. When the call says there
  is more to do, the rehash index has moved forward; when it says there is not, and rehashing was
  not suspended, the table has left the rehashing state.
\<close>

theorem dictRehash_keeps_map:
  assumes "dict_wf E d"
  shows "\<exists>d' more. dictRehash E d n = Some (d', more) \<and> dict_wf E d' \<and> dict_map d' = dict_map d \<and>
    (more \<and> 0 < n \<longrightarrow> rehashidx d < rehashidx d') \<and>
    (\<not> rehash_avoided E d \<and> \<not> more \<longrightarrow> \<not> dictIsRehashing d')"
proof -
  obtain d' more where r: "dictRehash E d n = Some (d', more)" "dict_same E d d'"
    "\<not> rehash_avoided E d \<and> \<not> more \<longrightarrow> rehashidx d' = - 1"
    "more \<and> 0 < n \<longrightarrow> rehash_same d d' \<and> rehashidx d < rehashidx d'"
    using dictRehash_ok [OF assms, of n] by blast
  then show ?thesis using dict_same_map [OF assms r(2)] by (auto simp: dict_same_def dictIsRehashing_def)
qed

theorem dictRehash_keeps_map_witness:
  "\<exists>d' more. dictRehash E_example dict_example 1 = Some (d', more) \<and>
    dict_map d' = [1 \<mapsto> 10, 5 \<mapsto> 50, 8 \<mapsto> 80, 4 \<mapsto> 40]"
  using dictRehash_keeps_map [OF dict_example_wf, of 1] by (auto simp: dict_example_map)

text \<open>
  The forced rehash \<^verbatim>\<open>while (dictRehash(d, 1000))\<close> ends, keeps the map, and unless rehashing is
  suspended leaves a single table.
\<close>

theorem full_rehash_terminates:
  assumes "dict_wf E d" and "dictIsRehashing d"
  shows "\<exists>d'. full_rehash E d = Some d' \<and> dict_wf E d' \<and> dict_map d' = dict_map d \<and>
    (\<not> rehash_avoided E d \<longrightarrow> \<not> dictIsRehashing d')"
  using full_rehash_ok [OF assms] dict_same_map [OF assms(1)]
  by (auto simp: dict_same_def dictIsRehashing_def)

theorem full_rehash_terminates_witness:
  "\<exists>d'. full_rehash E_example dict_example = Some d' \<and>
    dict_map d' = [1 \<mapsto> 10, 5 \<mapsto> 50, 8 \<mapsto> 80, 4 \<mapsto> 40] \<and> \<not> dictIsRehashing d'"
proof -
  have "dictIsRehashing dict_example" "\<not> rehash_avoided E_example dict_example"
    by (simp_all add: rehash_avoided_def E_example_def dict_example_def dictIsRehashing_def)
  then show ?thesis using full_rehash_terminates [OF dict_example_wf] by (auto simp: dict_example_map)
qed

text \<open>
  A resize to any requested size, when no rehash is under way, succeeds or reports why it did
  not (size overflow, same size, no memory) without touching the table; it keeps the map.
\<close>

theorem dictResize_keeps_map:
  assumes "dict_wf E d" and "\<not> dictIsRehashing d"
  shows "\<exists>d' ok malloc_failed. u_dictResize E d sz alloc = Some (d', ok, malloc_failed) \<and> dict_wf E d' \<and>
    dict_map d' = dict_map d \<and> (\<not> ok \<longrightarrow> d' = d)"
proof -
  obtain d' ok mf where r: "u_dictResize E d sz alloc = Some (d', ok, mf)" "dict_same E d d'" "\<not> ok \<longrightarrow> d' = d"
    using resize_ok [OF assms, of sz alloc] by blast
  then show ?thesis using dict_same_map [OF assms(1) r(2)] by (auto simp: dict_same_def)
qed

theorem dictResize_keeps_map_witness:
  "\<exists>d' ok malloc_failed. u_dictResize E_example dictCreate 100 (Some True) = Some (d', ok, malloc_failed) \<and>
    dict_wf E_example d' \<and> dict_map d' = Map.empty"
proof -
  have "\<not> dictIsRehashing dictCreate" by (simp add: dictIsRehashing_def dictCreate_def)
  then show ?thesis
    using dictResize_keeps_map [OF dict_wf_create [of E_example], of 100 "Some True"]
    by (auto simp: dict_map_create)
qed

text \<open>
  The two-phase deletion: the first phase returns the entry without changing the map and pauses
  the rehash, the second removes exactly that key, and the pause is undone.
\<close>

theorem dictTwoPhaseUnlink_deletes:
  assumes "dict_wf E d"
  shows "\<exists>d1 link d2. dictTwoPhaseUnlinkFind E d key = Some (d1, link) \<and>
    map_option (\<lambda>(_, _, e). e) link = map_option (Pair key) (dict_map d key) \<and>
    dict_wf E d1 \<and> dict_map d1 = dict_map d \<and>
    pauserehash d1 = pauserehash d + (if dict_map d key = None then 0 else 1) \<and>
    dictTwoPhaseUnlinkFree E d1 link = Some d2 \<and> dict_wf E d2 \<and>
    dict_map d2 = (dict_map d)(key := None) \<and> pauserehash d2 = pauserehash d"
  using assms by (rule dictTwoPhaseUnlink_ok)

theorem dictTwoPhaseUnlink_deletes_witness:
  "\<exists>d1 link d2. dictTwoPhaseUnlinkFind E_example dict_example 5 = Some (d1, link) \<and> pauserehash d1 = 1 \<and>
    dictTwoPhaseUnlinkFree E_example d1 link = Some d2 \<and>
    dict_map d2 = [1 \<mapsto> 10, 8 \<mapsto> 80, 4 \<mapsto> 40] \<and> pauserehash d2 = 0"
proof -
  have "[1 \<mapsto> 10, 5 \<mapsto> 50, 8 \<mapsto> 80, 4 \<mapsto> 40 :: nat](5 :: nat := None) = [1 \<mapsto> 10, 8 \<mapsto> 80, 4 \<mapsto> 40]"
    by (auto simp: fun_eq_iff)
  then show ?thesis using dictTwoPhaseUnlink_deletes [OF dict_example_wf, of 5]
    by (auto simp: dict_example_map) (auto simp: dict_example_def)
qed

text \<open>
  After any sequence of operations, the \<^verbatim>\<open>bucketChanged\<close> callbacks add up to the number of
  allocated buckets and the \<^verbatim>\<open>rehashingStarted\<close>/\<^verbatim>\<open>rehashingCompleted\<close> callbacks to the size of the
  table being rehashed: an owner that keeps counters from them knows both exactly.
\<close>

theorem dict_callbacks_account:
  "\<exists>d rs. run_map_ops (run_map_op (dictAdd E) (dictReplace E) (dictDelete E) (dictFetchValue E)) ps dictCreate =
      Some (d, rs) \<and>
    sum_list (map event_buckets (d_trace d)) = int (dictBuckets d) \<and>
    sum_list (map event_overhead (d_trace d)) =
      (if dictIsRehashing d then int (DICTHT_SIZE (ht_size_exp (d_ht0 d))) else 0)"
  using dict_finite_map.run_new [of E ps] by (auto simp: dict_wf_def trace_ok_def)

text \<open>
  Emptying a table releases every entry and both tables, ends a rehash, resets the pause
  counters and leaves a well-formed empty map.
\<close>

theorem dictEmpty_empties:
  assumes "dict_wf E d"
  shows "\<exists>d'. dictEmpty d = Some d' \<and> dict_wf E d' \<and> dict_map d' = Map.empty \<and>
    pauserehash d' = 0 \<and> \<not> dictIsRehashing d' \<and> dictBuckets d' = 0"
  using dictEmpty_ok [OF assms] by blast

theorem dictEmpty_empties_witness: "\<exists>d'. dictEmpty dict_example = Some d' \<and> dict_map d' = Map.empty"
  using dictEmpty_empties [OF dict_example_wf] by blast

end
