(* ===== verification/Dict_Scan.thy ===== *)
theory Dict_Scan
  imports Dict_Ops
begin

unbundle bit_operations_syntax

text \<open>
  The stateless cursor of \<^verbatim>\<open>dictScan\<close>. The cursor is a 64-bit word, incremented from its high
  bits down, so that a scan survives any number of resizes between its calls. The callback of the
  model collects the entries; it does not change the table, and the pause of the rehash around the
  callbacks leaves the state as it was.
\<close>

section \<open>The scan\<close>

definition rev_stage :: "nat \<Rightarrow> 64 word \<Rightarrow> 64 word \<Rightarrow> 64 word" where
  "rev_stage s msk v = (drop_bit s v AND msk) OR (push_bit s v AND NOT msk)"

fun rev_loop :: "nat \<Rightarrow> 64 word \<Rightarrow> 64 word \<Rightarrow> 64 word" where
  "rev_loop s msk v =
     (if s div 2 > 0
      then let s' = s div 2; msk' = msk XOR push_bit s' msk
           in rev_loop s' msk' (rev_stage s' msk' v)
      else v)"

declare rev_loop.simps [simp del]

definition dict_rev :: "64 word \<Rightarrow> 64 word" where
  \<comment> \<open>the C function is called \<^verbatim>\<open>rev\<close>\<close>
  "dict_rev v = rev_loop 64 (NOT 0) v"

text \<open>\<^verbatim>\<open>v |= ~m; v = rev(v); v++; v = rev(v)\<close>\<close>

definition next_cursor :: "64 word \<Rightarrow> 64 word \<Rightarrow> 64 word" where
  "next_cursor m v = dict_rev (dict_rev (v OR NOT m) + 1)"

definition scan_mask :: "('k, 'v) dictht \<Rightarrow> 64 word" where
  "scan_mask ht = word_of_nat (DICTHT_SIZE_MASK (ht_size_exp ht))"

partial_function (option) scan_loop ::
    "('k, 'v) dictht \<Rightarrow> 64 word \<Rightarrow> 64 word \<Rightarrow> 64 word \<Rightarrow> ('k \<times> 'v) list \<Rightarrow>
     (('k \<times> 'v) list \<times> 64 word) option" where
  "scan_loop ht1 m0 m1 v emitted = do {
     b \<leftarrow> ht_bucket ht1 (unat (v AND m1));
     let v' = next_cursor m1 v;
     if v' AND (m0 XOR m1) \<noteq> 0 then scan_loop ht1 m0 m1 v' (emitted @ b) else Some (emitted @ b, v')
   }"

definition dictScan :: "('k, 'v) dict \<Rightarrow> 64 word \<Rightarrow> (('k \<times> 'v) list \<times> 64 word) option" where
  "dictScan d v =
     (if dictSize d = 0 then Some ([], 0)
      else if \<not> dictIsRehashing d
      then do {
        b \<leftarrow> ht_bucket (d_ht0 d) (unat (v AND scan_mask (d_ht0 d)));
        Some (b, next_cursor (scan_mask (d_ht0 d)) v)
      }
      else
        let swap = DICTHT_SIZE (ht_size_exp (d_ht0 d)) > DICTHT_SIZE (ht_size_exp (d_ht1 d));
            t0 = (if swap then d_ht1 d else d_ht0 d); t1 = (if swap then d_ht0 d else d_ht1 d);
            m0 = scan_mask t0; m1 = scan_mask t1
        in do {
          b \<leftarrow> ht_bucket t0 (unat (v AND m0));
          scan_loop t1 m0 m1 v b
        })"

text \<open>
  A whole iteration: the client calls with cursor 0 and then with the cursor it was given, each time
  on whatever state the table is in by then, until the cursor is 0 again.
\<close>

fun scan_calls :: "('k, 'v) dict list \<Rightarrow> 64 word \<Rightarrow> (('k \<times> 'v) list \<times> 64 word) option" where
  "scan_calls [] v = Some ([], v)"
| "scan_calls (d # ds) v = do {
     (es, v1) \<leftarrow> dictScan d v;
     if v1 = 0 then Some (es, 0)
     else do {
       (es', v2) \<leftarrow> scan_calls ds v1;
       Some (es @ es', v2)
     }
   }"

section \<open>The bit reversal\<close>

definition swap_idx :: "nat \<Rightarrow> nat \<Rightarrow> nat" where
  "swap_idx s i = (if even (i div s) then i + s else i - s)"

lemma bit_rev_stage:
  assumes "\<forall>i \<in> {0..<64}. bit msk i = even (i div s)" and "\<forall>i \<in> {0..<64}. swap_idx s i < 64"
    and "0 < s" and "i < 64"
  shows "bit (rev_stage s msk v) i = bit v (swap_idx s i)"
proof (cases "even (i div s)")
  case True
  then have "bit msk i" using assms(1,4) by simp
  then show ?thesis using True assms(4)
    by (simp add: rev_stage_def swap_idx_def bit_simps add.commute)
next
  case False
  then have "\<not> bit msk i" using assms(1,4) by simp
  moreover have "s \<le> i" using False by (metis div_less even_zero linorder_not_le)
  ultimately show ?thesis using False assms(4)
    by (simp add: rev_stage_def swap_idx_def bit_simps)
qed

lemma swap_idx_xor: "swap_idx (2 ^ k) i = i XOR 2 ^ k"
proof -
  have "unset_bit k i + 2 ^ k = i" if "bit i k"
  proof -
    have "set_bit k (unset_bit k i) = i" by (rule bit_eqI) (use that in \<open>auto simp: bit_simps\<close>)
    then show ?thesis by (simp add: set_bit_eq bit_simps)
  qed
  then have "swap_idx (2 ^ k) i = flip_bit k i"
    by (auto simp: swap_idx_def flip_bit_eq_if set_bit_eq bit_iff_odd)
  then show ?thesis by (simp add: flip_bit_eq_xor push_bit_eq_mult)
qed

lemma xor_63: "i < 64 \<Longrightarrow> i XOR 63 = 63 - (i :: nat)"
proof -
  have "[0..<64] = [0,1,2,3,4,5,6,7,8,9,10,11,12,13,14,15,16,17,18,19,20,21,22,23,24,25,26,27,28,29,30,31,32,33,34,35,36,37,38,39,40,41,42,43,44,45,46,47,48,49,50,51,52,53,54,55,56,57,58,59,60,61,62,63 :: nat]"
    by code_simp
  moreover have "\<forall>i \<in> set [0,1,2,3,4,5,6,7,8,9,10,11,12,13,14,15,16,17,18,19,20,21,22,23,24,25,26,27,28,29,30,31,32,33,34,35,36,37,38,39,40,41,42,43,44,45,46,47,48,49,50,51,52,53,54,55,56,57,58,59,60,61,62,63 :: nat]. i XOR 63 = 63 - i"
    by simp
  moreover assume "i < 64"
  then have "i \<in> set [0..<64]" by simp
  ultimately show ?thesis by metis
qed

lemma dict_rev_stages:
  "dict_rev v = rev_stage 1 0x5555555555555555 (rev_stage 2 0x3333333333333333
     (rev_stage 4 0x0F0F0F0F0F0F0F0F (rev_stage 8 0x00FF00FF00FF00FF
       (rev_stage 16 0x0000FFFF0000FFFF (rev_stage 32 0x00000000FFFFFFFF v)))))"
proof -
  have m: "NOT 0 XOR push_bit 32 (NOT 0) = (0x00000000FFFFFFFF :: 64 word)"
    "0x00000000FFFFFFFF XOR push_bit 16 0x00000000FFFFFFFF = (0x0000FFFF0000FFFF :: 64 word)"
    "0x0000FFFF0000FFFF XOR push_bit 8 0x0000FFFF0000FFFF = (0x00FF00FF00FF00FF :: 64 word)"
    "0x00FF00FF00FF00FF XOR push_bit 4 0x00FF00FF00FF00FF = (0x0F0F0F0F0F0F0F0F :: 64 word)"
    "0x0F0F0F0F0F0F0F0F XOR push_bit 2 0x0F0F0F0F0F0F0F0F = (0x3333333333333333 :: 64 word)"
    "0x3333333333333333 XOR push_bit 1 0x3333333333333333 = (0x5555555555555555 :: 64 word)"
    by code_simp+
  have d: "(64 :: nat) div 2 = 32" "(32 :: nat) div 2 = 16" "(16 :: nat) div 2 = 8" "(8 :: nat) div 2 = 4"
    "(4 :: nat) div 2 = 2" "(2 :: nat) div 2 = 1" "(1 :: nat) div 2 = 0"
    "0 < (32 :: nat)" "0 < (16 :: nat)" "0 < (8 :: nat)" "0 < (4 :: nat)" "0 < (2 :: nat)" "0 < (1 :: nat)"
    by simp_all
  show ?thesis
    unfolding dict_rev_def
    by (simp only: rev_loop.simps [of 64] rev_loop.simps [of 32] rev_loop.simps [of 16] rev_loop.simps [of 8]
        rev_loop.simps [of 4] rev_loop.simps [of 2] rev_loop.simps [of 1] d m Let_def if_True less_irrefl if_False)
qed

lemma dict_rev_reverses: "dict_rev v = word_reverse v"
proof (rule bit_word_eqI)
  fix i
  assume "i < LENGTH(64)"
  then have i: "i < 64" by simp
  have msk: "\<forall>i \<in> {0..<64}. bit (0x00000000FFFFFFFF :: 64 word) i = even (i div 32)"
    "\<forall>i \<in> {0..<64}. bit (0x0000FFFF0000FFFF :: 64 word) i = even (i div 16)"
    "\<forall>i \<in> {0..<64}. bit (0x00FF00FF00FF00FF :: 64 word) i = even (i div 8)"
    "\<forall>i \<in> {0..<64}. bit (0x0F0F0F0F0F0F0F0F :: 64 word) i = even (i div 4)"
    "\<forall>i \<in> {0..<64}. bit (0x3333333333333333 :: 64 word) i = even (i div 2)"
    "\<forall>i \<in> {0..<64}. bit (0x5555555555555555 :: 64 word) i = even (i div 1)"
    by code_simp+
  have rng: "\<forall>i \<in> {0..<64}. swap_idx 32 i < 64" "\<forall>i \<in> {0..<64}. swap_idx 16 i < 64"
    "\<forall>i \<in> {0..<64}. swap_idx 8 i < 64" "\<forall>i \<in> {0..<64}. swap_idx 4 i < 64"
    "\<forall>i \<in> {0..<64}. swap_idx 2 i < 64" "\<forall>i \<in> {0..<64}. swap_idx 1 i < 64"
    by code_simp+
  have step: "swap_idx s j < 64" if "\<forall>i \<in> {0..<64}. swap_idx s i < 64" "j < 64" for s j
    using that by simp
  have "swap_idx 32 (swap_idx 16 (swap_idx 8 (swap_idx 4 (swap_idx 2 (swap_idx 1 i))))) = i XOR 63"
    using swap_idx_xor [of 5] swap_idx_xor [of 4] swap_idx_xor [of 3] swap_idx_xor [of 2]
      swap_idx_xor [of 1] swap_idx_xor [of 0] by (simp add: xor.assoc)
  also have "\<dots> = 63 - i" by (rule xor_63 [OF i])
  finally have perm: "swap_idx 32 (swap_idx 16 (swap_idx 8 (swap_idx 4 (swap_idx 2 (swap_idx 1 i))))) = 63 - i" .
  have "bit (dict_rev v) i =
      bit v (swap_idx 32 (swap_idx 16 (swap_idx 8 (swap_idx 4 (swap_idx 2 (swap_idx 1 i))))))"
    unfolding dict_rev_stages
    by (simp only: bit_rev_stage [OF msk(1) rng(1)] bit_rev_stage [OF msk(2) rng(2)]
        bit_rev_stage [OF msk(3) rng(3)] bit_rev_stage [OF msk(4) rng(4)] bit_rev_stage [OF msk(5) rng(5)]
        bit_rev_stage [OF msk(6) rng(6)] i step [OF rng(1)] step [OF rng(2)] step [OF rng(3)]
        step [OF rng(4)] step [OF rng(5)] step [OF rng(6)] zero_less_numeral zero_less_one)
  also have "\<dots> = bit (word_reverse v) i"
    using perm i by (simp add: bit_word_reverse_iff)
  finally show "bit (dict_rev v) i = bit (word_reverse v) i" .
qed


section \<open>The scan in reversed bit order\<close>

text \<open>
  Read with its bits reversed, the cursor is a number that only grows, and a bucket of a table with
  \<open>2 ^ n\<close> buckets is an interval of length \<open>2 ^ (64 - n)\<close> of reversed hashes.
\<close>

definition rpos :: "64 word \<Rightarrow> nat" where
  "rpos v = unat (word_reverse v)"

definition hpos :: "nat \<Rightarrow> nat" where
  "hpos h = rpos (word_of_nat h)"

lemma rpos_less: "rpos v < 2 ^ 64"
  using unsigned_less [of "word_reverse v"] by (simp add: rpos_def)

lemma rpos_0 [simp]: "rpos 0 = 0"
proof -
  have "word_reverse (0 :: 64 word) = 0" by (rule bit_word_eqI) (simp add: bit_simps)
  then show ?thesis by (simp add: rpos_def)
qed

lemma rpos_eq_0 [simp]: "rpos v = 0 \<longleftrightarrow> v = 0"
  by (metis rpos_0 rpos_def unsigned_word_eqI word_rev_rev)

lemma or_mask_nat: "(a :: nat) OR mask k = a div 2 ^ k * 2 ^ k + (2 ^ k - 1)"
proof -
  have "a div 2 ^ k * 2 ^ k + (2 ^ k - 1) = push_bit k (drop_bit k a) + mask k"
    by (simp add: push_bit_eq_mult drop_bit_eq_div mask_eq_exp_minus_1)
  also have "\<dots> = push_bit k (drop_bit k a) OR mask k"
    by (rule disjunctive_add) (auto simp: bit_simps)
  also have "\<dots> = a OR mask k" by (rule bit_eqI) (auto simp: bit_simps)
  finally show ?thesis by simp
qed

lemma next_pos:
  assumes "n \<le> 64"
  shows "rpos (next_cursor (mask n) v) = (rpos v div 2 ^ (64 - n) + 1) * 2 ^ (64 - n) mod 2 ^ 64"
proof -
  let ?k = "64 - n" and ?w = "word_reverse v"
  have "word_reverse (v OR NOT (mask n)) = ?w OR mask ?k"
    using assms by (intro bit_word_eqI) (auto simp: bit_simps)
  then have "rpos (next_cursor (mask n) v) = unat ((?w OR mask ?k) + 1)"
    by (simp add: rpos_def next_cursor_def dict_rev_reverses)
  also have "\<dots> = (unat (?w OR mask ?k) + 1) mod 2 ^ 64"
    by (simp add: unat_word_ariths)
  also have "unat (?w OR mask ?k) = unat ?w OR mask ?k"
    by (rule bit_eqI) (auto simp: bit_simps)
  also have "\<dots> + 1 = (unat ?w div 2 ^ ?k + 1) * 2 ^ ?k"
    using one_le_power [of "2 :: nat" ?k] by (simp add: or_mask_nat algebra_simps)
  finally show ?thesis by (simp add: rpos_def)
qed

lemma same_bucket:
  assumes "n \<le> 64"
  shows "h mod 2 ^ n = unat (v AND mask n) \<longleftrightarrow> hpos h div 2 ^ (64 - n) = rpos v div 2 ^ (64 - n)"
proof -
  let ?k = "64 - n" and ?w = "word_of_nat h :: 64 word"
  have "h mod 2 ^ n = unat (take_bit n ?w)"
    using assms by (simp add: unsigned_take_bit_eq unsigned_of_nat take_bit_take_bit min_def flip: take_bit_eq_mod)
  then have "h mod 2 ^ n = unat (v AND mask n) \<longleftrightarrow> take_bit n ?w = take_bit n v"
    by (metis take_bit_eq_mask unsigned_word_eqI)
  also have "\<dots> \<longleftrightarrow> drop_bit ?k (word_reverse ?w) = drop_bit ?k (word_reverse v)"
  proof -
    have 2: "bit (drop_bit ?k (word_reverse x)) i \<longleftrightarrow> i < n \<and> bit x (n - Suc i)" for x :: "64 word" and i
      using assms by (auto simp: bit_simps intro: arg_cong [where f = "bit x"])
    show ?thesis
    proof
      assume l: "take_bit n ?w = take_bit n v"
      show "drop_bit ?k (word_reverse ?w) = drop_bit ?k (word_reverse v)"
      proof (rule bit_word_eqI)
        fix i
        show "bit (drop_bit ?k (word_reverse ?w)) i = bit (drop_bit ?k (word_reverse v)) i"
          unfolding 2 using arg_cong [OF l, of "\<lambda>x. bit x (n - Suc i)"] by (auto simp: bit_take_bit_iff)
      qed
    next
      assume r: "drop_bit ?k (word_reverse ?w) = drop_bit ?k (word_reverse v)"
      show "take_bit n ?w = take_bit n v"
      proof (rule bit_word_eqI)
        fix i
        show "bit (take_bit n ?w) i = bit (take_bit n v) i"
          using arg_cong [OF r, of "\<lambda>x. bit x (n - Suc i)"] unfolding 2
          by (auto simp: bit_take_bit_iff)
      qed
    qed
  qed
  also have "\<dots> \<longleftrightarrow> hpos h div 2 ^ ?k = rpos v div 2 ^ ?k"
    unfolding hpos_def rpos_def
    by (simp add: word_eq_iff_unsigned [where ?'a = nat] flip: drop_bit_eq_div unat_drop_bit_eq)
  finally show ?thesis .
qed

lemma mask_difference:
  assumes "n1 \<le> 64" and "n0 \<le> n1"
  shows "v AND (mask n0 XOR mask n1) = 0 \<longleftrightarrow> rpos v div 2 ^ (64 - n1) mod 2 ^ (n1 - n0) = 0"
proof -
  let ?x = "take_bit (n1 - n0) (drop_bit (64 - n1) (word_reverse v))"
  have b: "bit ?x i \<longleftrightarrow> i < n1 - n0 \<and> bit v (n1 - Suc i)" for i
    using assms by (auto simp: bit_simps intro: arg_cong [where f = "bit v"])
  have "v AND (mask n0 XOR mask n1) = 0 \<longleftrightarrow> (\<forall>i. n0 \<le> i \<and> i < n1 \<longrightarrow> \<not> bit v i)"
    (is "?l = ?r")
  proof
    assume l: ?l
    show ?r
    proof (intro allI impI)
      fix i
      assume i: "n0 \<le> i \<and> i < n1"
      then show "\<not> bit v i" using arg_cong [OF l, of "\<lambda>x. bit x i"] assms by (auto simp: bit_simps)
    qed
  next
    assume r: ?r
    show ?l by (rule bit_word_eqI) (use r assms in \<open>auto simp: bit_simps not_less\<close>)
  qed
  also have "\<dots> \<longleftrightarrow> (\<forall>i < n1 - n0. \<not> bit v (n1 - Suc i))"
  proof
    assume a: "\<forall>i < n1 - n0. \<not> bit v (n1 - Suc i)"
    show "\<forall>i. n0 \<le> i \<and> i < n1 \<longrightarrow> \<not> bit v i"
    proof (intro allI impI)
      fix i
      assume i: "n0 \<le> i \<and> i < n1"
      then have "n1 - Suc i < n1 - n0" "n1 - Suc (n1 - Suc i) = i" by auto
      then show "\<not> bit v i" using a by metis
    qed
  qed auto
  also have "\<dots> \<longleftrightarrow> ?x = 0" using assms by (auto simp: bit_eq_iff b)
  also have "\<dots> \<longleftrightarrow> unat ?x = 0" by (simp add: unat_eq_0)
  also have "unat ?x = rpos v div 2 ^ (64 - n1) mod 2 ^ (n1 - n0)"
    by (simp add: unsigned_take_bit_eq unat_drop_bit_eq rpos_def flip: drop_bit_eq_div take_bit_eq_mod)
  finally show ?thesis .
qed


section \<open>What a call covers\<close>

lemma scan_mask_eq: "0 \<le> ht_size_exp ht \<Longrightarrow> scan_mask ht = mask (nat (ht_size_exp ht))"
  by (simp add: scan_mask_def DICTHT_SIZE_MASK_def DICTHT_SIZE_def of_nat_mask_eq flip: mask_eq_exp_minus_1)

lemma cursor_bucket:
  assumes "ht_wf E ht" and "0 \<le> ht_size_exp ht"
  shows "unat (v AND scan_mask ht) < length (ht_table ht)"
proof -
  have "unat (v AND mask (nat (ht_size_exp ht))) < 2 ^ nat (ht_size_exp ht)"
    by (simp add: unsigned_take_bit_eq flip: take_bit_eq_mask) 
  then show ?thesis using assms by (auto simp: scan_mask_eq ht_wf_def)
qed

lemma bucket_covers:
  assumes wf: "ht_wf E ht" and e0: "0 \<le> ht_size_exp ht" and e: "e \<in> set (ht_entries ht)"
    and pos: "hpos (hashFunction E (fst e)) div 2 ^ (64 - nat (ht_size_exp ht)) =
      rpos v div 2 ^ (64 - nat (ht_size_exp ht))"
  shows "e \<in> set (ht_table ht ! unat (v AND scan_mask ht))"
proof -
  obtain i where i: "i < length (ht_table ht)" "e \<in> set (ht_table ht ! i)"
    using e by (auto simp: ht_entries_def in_set_conv_nth [of _ "ht_table ht"])
  have n: "nat (ht_size_exp ht) \<le> 64" using wf e0 by (auto simp: ht_wf_def)
  have "hash_idx (hashFunction E (fst e)) ht = i" using wf i by (auto simp: ht_wf_def)
  moreover have "hash_idx (hashFunction E (fst e)) ht = unat (v AND scan_mask ht)"
    using same_bucket [OF n, of "hashFunction E (fst e)" v] pos by (simp add: hash_idx_mod [OF e0] scan_mask_eq [OF e0])
  ultimately show ?thesis using i by simp
qed

text \<open>
  The inner loop visits the buckets of the larger table from the cursor to the end of the smaller
  table's bucket. Cells are counted in units of the larger table.
\<close>

lemma scan_loop_covers:
  fixes ht :: "('k, 'v) dictht"
  assumes wf: "ht_wf E ht" and e0: "0 \<le> ht_size_exp ht" and n1: "n1 = nat (ht_size_exp ht)" and n0: "n0 \<le> n1"
  shows "\<exists>es v'. scan_loop ht (mask n0) (mask n1) v acc = Some (acc @ es, v') \<and>
    rpos v' = (rpos v div 2 ^ (64 - n0) + 1) * 2 ^ (64 - n0) mod 2 ^ 64 \<and>
    set es \<subseteq> set (ht_entries ht) \<and>
    (\<forall>e \<in> set (ht_entries ht). rpos v \<le> hpos (hashFunction E (fst e)) \<and>
       hpos (hashFunction E (fst e)) < (rpos v div 2 ^ (64 - n0) + 1) * 2 ^ (64 - n0) \<longrightarrow> e \<in> set es)"
proof -
  define j k where jk: "j = n1 - n0" "k = 64 - n1"
  have n64: "n1 \<le> 64" using wf e0 n1 by (auto simp: ht_wf_def)
  have k0: "64 - n0 = k + j" using n0 n64 jk by simp
  define fin where "fin v = (rpos v div 2 ^ (64 - n0) + 1) * (2 :: nat) ^ j" for v
  have msk: "scan_mask ht = mask n1" using scan_mask_eq [OF e0] n1 by simp
  show ?thesis
  proof (induction "fin v - rpos v div 2 ^ k" arbitrary: v acc rule: less_induct)
    case less
    define c where "c = rpos v div 2 ^ k"
    have div0: "rpos v div 2 ^ (64 - n0) = c div 2 ^ j" by (simp add: c_def k0 power_add div_mult2_eq)
    have fin: "fin v = (c div 2 ^ j + 1) * 2 ^ j" by (simp add: fin_def div0)
    have c_fin: "c < fin v"
      unfolding fin by (metis Suc_eq_plus1 dividend_less_div_times zero_less_numeral zero_less_power mult_Suc add.commute)
    have fin_end: "fin v * 2 ^ k = (rpos v div 2 ^ (64 - n0) + 1) * 2 ^ (64 - n0)"
      by (simp add: fin_def k0 power_add algebra_simps)
    have "rpos v div 2 ^ (64 - n0) < 2 ^ n0"
    proof -
      have "rpos v < 2 ^ n0 * 2 ^ (64 - n0)" using rpos_less [of v] n0 n64 by (simp flip: power_add)
      then show ?thesis by (simp add: less_mult_imp_div_less)
    qed
    then have "fin v \<le> 2 ^ n0 * 2 ^ j" unfolding fin_def by (intro mult_le_mono1) simp
    then have fin_le: "fin v * 2 ^ k \<le> 2 ^ 64"
      using mult_le_mono1 [of "fin v" "2 ^ n0 * 2 ^ j" "2 ^ k"] n0 n64 jk by (simp flip: power_add)
    define v' where "v' = next_cursor (mask n1) v"
    have p': "rpos v' = (c + 1) * 2 ^ k mod 2 ^ 64"
      using next_pos [OF n64, of v] by (simp add: v'_def c_def jk)
    let ?b = "ht_table ht ! unat (v AND mask n1)"
    have bk: "ht_bucket ht (unat (v AND mask n1)) = Some ?b"
      using cursor_bucket [OF wf e0, of v] msk by (simp add: ht_bucket_def)
    have bsub: "set ?b \<subseteq> set (ht_entries ht)"
      using ht_bucket_subset cursor_bucket [OF wf e0, of v] msk by metis
    have cell: "e \<in> set ?b" if "e \<in> set (ht_entries ht)" "hpos (hashFunction E (fst e)) div 2 ^ k = c" for e
      using bucket_covers [OF wf e0 that(1), of v] that(2) msk by (simp add: c_def n1 jk)
    have stop: "v' AND (mask n0 XOR mask n1) = 0 \<longleftrightarrow> rpos v' div 2 ^ k mod 2 ^ j = 0"
      using mask_difference [OF n64 n0, of v'] by (simp add: jk)
    show ?case
    proof (cases "c + 1 = fin v")
      case True
      have rf: "rpos v' = fin v * 2 ^ k mod 2 ^ 64" using p' by (simp only: True)
      have "rpos v' div 2 ^ k mod 2 ^ j = 0"
      proof (cases "fin v * 2 ^ k = 2 ^ 64")
        case True
        then show ?thesis using rf by simp
      next
        case False
        then have "rpos v' = fin v * 2 ^ k" using fin_le rf by simp
        then show ?thesis by (simp add: fin_def)
      qed
      moreover have "hpos (hashFunction E (fst e)) div 2 ^ k = c"
        if "rpos v \<le> hpos (hashFunction E (fst e))" "hpos (hashFunction E (fst e)) < fin v * 2 ^ k" for e :: "'k \<times> 'v"
      proof -
        have "c \<le> hpos (hashFunction E (fst e)) div 2 ^ k" using that(1) by (simp add: c_def div_le_mono)
        moreover have "hpos (hashFunction E (fst e)) div 2 ^ k < fin v" using that(2) by (simp add: less_mult_imp_div_less)
        ultimately show ?thesis using True by simp
      qed
      ultimately show ?thesis
        using bk bsub cell stop fin_end rf
        by (intro exI [of _ ?b] exI [of _ v']) (auto simp: scan_loop.simps v'_def)
    next
      case False
      then have c1: "c + 1 < fin v" using c_fin by simp
      then have "(c + 1) * 2 ^ k < fin v * 2 ^ k" by (intro mult_strict_right_mono) simp_all
      then have "(c + 1) * 2 ^ k < 2 ^ 64" using fin_le by (rule less_le_trans)
      then have rv': "rpos v' = (c + 1) * 2 ^ k" unfolding p' by (rule mod_less)
      have c': "rpos v' div 2 ^ k = c + 1" by (simp add: rv')
      have same: "(c + 1) div 2 ^ j = c div 2 ^ j"
      proof -
        have "(c + 1) div 2 ^ j < c div 2 ^ j + 1" using c1 fin by (simp add: less_mult_imp_div_less)
        moreover have "c div 2 ^ j \<le> (c + 1) div 2 ^ j" by (simp add: div_le_mono)
        ultimately show ?thesis by linarith
      qed
      have div': "rpos v' div 2 ^ (64 - n0) = rpos v div 2 ^ (64 - n0)"
        using c' same div0 by (simp add: k0 power_add div_mult2_eq)
      then have fin': "fin v' = fin v" by (simp add: fin_def)
      have "(c + 1) mod 2 ^ j \<noteq> 0"
      proof
        assume "(c + 1) mod 2 ^ j = 0"
        then have "c + 1 = (c + 1) div 2 ^ j * 2 ^ j" by (metis add.right_neutral div_mult_mod_eq)
        then have "c + 1 \<le> c" using same by (metis div_times_less_eq_dividend)
        then show False by simp
      qed
      then have go: "v' AND (mask n0 XOR mask n1) \<noteq> 0" using stop c' by simp
      have "fin v' - rpos v' div 2 ^ k < fin v - rpos v div 2 ^ k" using c' fin' c1 by (simp add: c_def)
      from less.hyps [OF this, of "acc @ ?b"] obtain es v'' where ih:
        "scan_loop ht (mask n0) (mask n1) v' (acc @ ?b) = Some ((acc @ ?b) @ es, v'')"
        "rpos v'' = (rpos v' div 2 ^ (64 - n0) + 1) * 2 ^ (64 - n0) mod 2 ^ 64"
        "set es \<subseteq> set (ht_entries ht)"
        "\<forall>e \<in> set (ht_entries ht). rpos v' \<le> hpos (hashFunction E (fst e)) \<and>
          hpos (hashFunction E (fst e)) < (rpos v' div 2 ^ (64 - n0) + 1) * 2 ^ (64 - n0) \<longrightarrow> e \<in> set es"
        by blast
      have "e \<in> set (?b @ es)" if e: "e \<in> set (ht_entries ht)" "rpos v \<le> hpos (hashFunction E (fst e))"
        "hpos (hashFunction E (fst e)) < (rpos v div 2 ^ (64 - n0) + 1) * 2 ^ (64 - n0)" for e
      proof (cases "rpos v' \<le> hpos (hashFunction E (fst e))")
        case True
        then show ?thesis using ih(4) e div' by simp
      next
        case False
        then have "hpos (hashFunction E (fst e)) div 2 ^ k < c + 1"
          using rv' by (simp add: less_mult_imp_div_less)
        moreover have "c \<le> hpos (hashFunction E (fst e)) div 2 ^ k" using e(2) by (simp add: c_def div_le_mono)
        ultimately show ?thesis using cell [OF e(1)] by simp
      qed
      moreover have "scan_loop ht (mask n0) (mask n1) v acc = Some (acc @ (?b @ es), v'')"
        using bk go ih(1) by (simp add: scan_loop.simps [of ht _ _ v] v'_def)
      ultimately show ?thesis using ih(2,3) bsub div' by (intro exI [of _ "?b @ es"] exI [of _ v'']) auto
    qed
  qed
qed


text \<open>The number of address bits of the smaller table: a call moves the cursor over one of its buckets.\<close>

definition scan_bits :: "('k, 'v) dict \<Rightarrow> nat" where
  "scan_bits d = (if dictIsRehashing d then nat (min (ht_size_exp (d_ht0 d)) (ht_size_exp (d_ht1 d)))
     else nat (ht_size_exp (d_ht0 d)))"

definition scan_end :: "('k, 'v) dict \<Rightarrow> 64 word \<Rightarrow> nat" where
  "scan_end d v = (rpos v div 2 ^ (64 - scan_bits d) + 1) * 2 ^ (64 - scan_bits d)"

definition covers_to :: "'k dictEnv \<Rightarrow> ('k, 'v) dict \<Rightarrow> 64 word \<Rightarrow> ('k \<times> 'v) list \<Rightarrow> bool" where
  "covers_to E d v es \<longleftrightarrow> set es \<subseteq> set (dict_entries d) \<and>
     (\<forall>e \<in> set (dict_entries d). rpos v \<le> hpos (hashFunction E (fst e)) \<and>
        hpos (hashFunction E (fst e)) < scan_end d v \<longrightarrow> e \<in> set es)"

lemma interval_cell:
  fixes p q w :: nat
  assumes "p \<le> q" "q < (p div w + 1) * w"
  shows "q div w = p div w"
  using assms div_le_mono [OF assms(1), of w] less_mult_imp_div_less [OF assms(2)] by simp

lemma scan_plain_ok:
  assumes wf: "dict_wf E d" and ne: "dictSize d \<noteq> 0" and nr: "\<not> dictIsRehashing d"
  shows "\<exists>es v'. dictScan d v = Some (es, v') \<and> rpos v' = scan_end d v mod 2 ^ 64 \<and> covers_to E d v es"
proof -
  let ?ht = "d_ht0 d" and ?n = "nat (ht_size_exp (d_ht0 d))"
  let ?b = "ht_table ?ht ! unat (v AND scan_mask ?ht)"
  have w: "ht_wf E ?ht" using wf by (simp add: dict_wf_def)
  have e0: "0 \<le> ht_size_exp ?ht"
    by (rule dict_wf_exp0 [OF wf]) (use ne dictSize_entries [OF wf] in simp)
  have en: "dict_entries d = ht_entries ?ht"
    using wf nr by (auto simp: dict_wf_def dict_entries_def ht_wf_def ht_entries_def)
  have n: "?n \<le> 64" using w e0 by (auto simp: ht_wf_def)
  note ci = cursor_bucket [OF w e0, of v]
  have bits: "scan_bits d = ?n" using nr by (simp add: scan_bits_def)
  have "e \<in> set ?b" if "e \<in> set (ht_entries ?ht)" "rpos v \<le> hpos (hashFunction E (fst e))"
    "hpos (hashFunction E (fst e)) < (rpos v div 2 ^ (64 - ?n) + 1) * 2 ^ (64 - ?n)" for e
    using bucket_covers [OF w e0 that(1), of v] interval_cell [OF that(2,3)] by simp
  then have "covers_to E d v ?b"
    unfolding covers_to_def scan_end_def bits en using ht_bucket_subset [OF ci] by blast
  moreover have "dictScan d v = Some (?b, next_cursor (scan_mask ?ht) v)"
    using ne nr ci by (simp add: dictScan_def ht_bucket_def)
  moreover have "rpos (next_cursor (scan_mask ?ht) v) = scan_end d v mod 2 ^ 64"
    using next_pos [OF n, of v] nr by (simp add: scan_mask_eq [OF e0] scan_end_def scan_bits_def)
  ultimately show ?thesis by blast
qed

lemma scan_two_tables:
  assumes w0: "ht_wf E t0" and e0: "0 \<le> ht_size_exp t0" and w1: "ht_wf E t1"
    and lt: "ht_size_exp t0 < ht_size_exp t1" and n0: "n0 = nat (ht_size_exp t0)"
  shows "\<exists>es v' b. ht_bucket t0 (unat (v AND scan_mask t0)) = Some b \<and>
    scan_loop t1 (scan_mask t0) (scan_mask t1) v b = Some (es, v') \<and>
    rpos v' = (rpos v div 2 ^ (64 - n0) + 1) * 2 ^ (64 - n0) mod 2 ^ 64 \<and>
    set es \<subseteq> set (ht_entries t0) \<union> set (ht_entries t1) \<and>
    (\<forall>e \<in> set (ht_entries t0) \<union> set (ht_entries t1). rpos v \<le> hpos (hashFunction E (fst e)) \<and>
       hpos (hashFunction E (fst e)) < (rpos v div 2 ^ (64 - n0) + 1) * 2 ^ (64 - n0) \<longrightarrow> e \<in> set es)"
proof -
  let ?b = "ht_table t0 ! unat (v AND scan_mask t0)" and ?n1 = "nat (ht_size_exp t1)"
  have e1: "0 \<le> ht_size_exp t1" and le: "n0 \<le> ?n1" using e0 lt n0 by auto
  note ci = cursor_bucket [OF w0 e0, of v]
  have b0: "ht_bucket t0 (unat (v AND scan_mask t0)) = Some ?b" using ci by (simp add: ht_bucket_def)
  obtain es v' where l: "scan_loop t1 (scan_mask t0) (scan_mask t1) v ?b = Some (?b @ es, v')"
    "rpos v' = (rpos v div 2 ^ (64 - n0) + 1) * 2 ^ (64 - n0) mod 2 ^ 64"
    "set es \<subseteq> set (ht_entries t1)"
    "\<forall>e \<in> set (ht_entries t1). rpos v \<le> hpos (hashFunction E (fst e)) \<and>
       hpos (hashFunction E (fst e)) < (rpos v div 2 ^ (64 - n0) + 1) * 2 ^ (64 - n0) \<longrightarrow> e \<in> set es"
    using scan_loop_covers [OF w1 e1 refl le, of v ?b] scan_mask_eq [OF e0] scan_mask_eq [OF e1] n0 by auto
  have "e \<in> set ?b" if "e \<in> set (ht_entries t0)" "rpos v \<le> hpos (hashFunction E (fst e))"
    "hpos (hashFunction E (fst e)) < (rpos v div 2 ^ (64 - n0) + 1) * 2 ^ (64 - n0)" for e
    using bucket_covers [OF w0 e0 that(1), of v] interval_cell [OF that(2,3)] n0 by simp
  then show ?thesis using b0 l ht_bucket_subset [OF ci]
    by (intro exI [of _ "?b @ es"] exI [of _ v'] exI [of _ ?b]) auto
qed

lemma dictScan_covers:
  assumes wf: "dict_wf E d" and ne: "dictSize d \<noteq> 0"
  shows "\<exists>es v'. dictScan d v = Some (es, v') \<and> rpos v' = scan_end d v mod 2 ^ 64 \<and> covers_to E d v es"
proof (cases "dictIsRehashing d")
  case False
  then show ?thesis using scan_plain_ok [OF wf ne] by blast
next
  case True
  have w: "ht_wf E (d_ht0 d)" "ht_wf E (d_ht1 d)" and e: "0 \<le> ht_size_exp (d_ht0 d)" "0 \<le> ht_size_exp (d_ht1 d)"
    and neq: "ht_size_exp (d_ht0 d) \<noteq> ht_size_exp (d_ht1 d)"
    using wf True by (simp_all add: dict_wf_def)
  have cmp: "DICTHT_SIZE (ht_size_exp (d_ht0 d)) > DICTHT_SIZE (ht_size_exp (d_ht1 d)) \<longleftrightarrow>
      ht_size_exp (d_ht1 d) < ht_size_exp (d_ht0 d)"
    using e by (auto simp: DICTHT_SIZE_def)
  show ?thesis
  proof (cases "ht_size_exp (d_ht1 d) < ht_size_exp (d_ht0 d)")
    case swap: True
    then show ?thesis
      using scan_two_tables [OF w(2) e(2) w(1) swap refl, of v] ne True cmp
      by (auto simp: dictScan_def Let_def covers_to_def scan_end_def scan_bits_def dict_entries_def min_def)
  next
    case False
    then have lt: "ht_size_exp (d_ht0 d) < ht_size_exp (d_ht1 d)" using neq by simp
    then show ?thesis
      using scan_two_tables [OF w(1) e(1) w(2) lt refl, of v] ne True cmp False
      by (auto simp: dictScan_def Let_def covers_to_def scan_end_def scan_bits_def dict_entries_def min_def)
  qed
qed


section \<open>Whole iterations\<close>

lemma dictScan_returns: "dict_wf E d \<Longrightarrow> \<exists>es v'. dictScan d v = Some (es, v') \<and> set es \<subseteq> set (dict_entries d)"
  by (cases "dictSize d = 0") (use dictScan_covers [of E d v] in \<open>auto simp: dictScan_def covers_to_def\<close>)

lemma scan_calls_return:
  "\<forall>d \<in> set ds. dict_wf E d \<Longrightarrow> \<exists>es v'. scan_calls ds v = Some (es, v') \<and>
    set es \<subseteq> (\<Union>d \<in> set ds. set (dict_entries d))"
proof (induction ds arbitrary: v)
  case Nil
  then show ?case by simp
next
  case (Cons d ds)
  obtain es v1 where s: "dictScan d v = Some (es, v1)" "set es \<subseteq> set (dict_entries d)"
    using dictScan_returns [of E d v] Cons.prems by auto
  obtain es' v2 where r: "scan_calls ds v1 = Some (es', v2)" "set es' \<subseteq> (\<Union>d \<in> set ds. set (dict_entries d))"
    using Cons.IH [of v1] Cons.prems by auto
  show ?case using s r by auto
qed

lemma scan_calls_cover:
  "\<forall>d \<in> set ds. dict_wf E d \<and> k \<in> dom (dict_map d) \<Longrightarrow> ds \<noteq> [] \<Longrightarrow> scan_calls ds v = Some (es, 0) \<Longrightarrow>
   rpos v \<le> hpos (hashFunction E k) \<Longrightarrow> k \<in> fst ` set es"
proof (induction ds arbitrary: v es)
  case Nil
  then show ?case by simp
next
  case (Cons d ds)
  have wf: "dict_wf E d" and "k \<in> dom (dict_map d)" using Cons.prems(1) by simp_all
  then obtain x where x: "(k, x) \<in> set (dict_entries d)" using dict_map_Some [OF wf] by blast
  have ne: "dictSize d \<noteq> 0" using x dictSize_entries [OF wf] by auto
  obtain es1 v1 where s: "dictScan d v = Some (es1, v1)" "rpos v1 = scan_end d v mod 2 ^ 64" "covers_to E d v es1"
    using dictScan_covers [OF wf ne, of v] by blast
  show ?case
  proof (cases "hpos (hashFunction E k) < scan_end d v")
    case True
    then have "(k, x) \<in> set es1" using s(3) x Cons.prems(4) unfolding covers_to_def by fastforce
    moreover have "set es1 \<subseteq> set es" using Cons.prems(3) s(1) by (auto split: if_splits bind_splits)
    ultimately show ?thesis by force
  next
    case False
    then have "scan_end d v < 2 ^ 64" using rpos_less [of "word_of_nat (hashFunction E k)"] by (simp add: hpos_def)
    then have r1: "rpos v1 = scan_end d v" using s(2) by simp
    have "v1 \<noteq> 0" using r1 rpos_eq_0 [of v1] by (auto simp: scan_end_def)
    then obtain es2 where es2: "scan_calls ds v1 = Some (es2, 0)" "es = es1 @ es2"
      using Cons.prems(3) s(1) by (auto split: bind_splits)
    have "ds \<noteq> []" using es2(1) \<open>v1 \<noteq> 0\<close> by auto
    then have "k \<in> fst ` set es2" using Cons.IH [OF _ _ es2(1)] Cons.prems(1) r1 False by simp
    then show ?thesis using es2(2) by auto
  qed
qed

lemma scan_unchanged_ends:
  assumes wf: "dict_wf E d" and ne: "dictSize d \<noteq> 0" and n: "n = scan_bits d"
  shows "0 < m \<Longrightarrow> m \<le> 2 ^ n \<Longrightarrow> rpos v = (2 ^ n - m) * 2 ^ (64 - n) \<Longrightarrow>
    \<exists>es. scan_calls (replicate m d) v = Some (es, 0)"
proof (induction m arbitrary: v)
  case 0
  then show ?case by simp
next
  case (Suc m)
  have le: "n \<le> 64" using wf by (auto simp: n scan_bits_def dict_wf_def ht_wf_def min_def)
  obtain es1 v1 where s: "dictScan d v = Some (es1, v1)" "rpos v1 = scan_end d v mod 2 ^ 64"
    using dictScan_covers [OF wf ne, of v] by blast
  have "2 ^ n - Suc m + 1 = 2 ^ n - m" using Suc.prems(2) by linarith
  then have "scan_end d v = (2 ^ n - m) * 2 ^ (64 - n)"
    unfolding scan_end_def Suc.prems(3) n [symmetric] by simp
  then have r1: "rpos v1 = (2 ^ n - m) * 2 ^ (64 - n) mod 2 ^ 64" using s(2) by simp
  show ?case
  proof (cases m)
    case 0
    then have "rpos v1 = 0" using r1 le by (simp flip: power_add)
    then show ?thesis using s(1) by simp
  next
    case (Suc j)
    have "(2 ^ n - m) * 2 ^ (64 - n) < 2 ^ n * 2 ^ (64 - n)" using Suc Suc.prems by simp
    then have "(2 ^ n - m) * 2 ^ (64 - n) < (2 :: nat) ^ 64" using le by (simp flip: power_add)
    then have r1: "rpos v1 = (2 ^ n - m) * 2 ^ (64 - n)" using r1 by simp
    then have "v1 \<noteq> 0" using rpos_eq_0 [of v1] Suc.prems(2) by auto
    moreover obtain es2 where "scan_calls (replicate m d) v1 = Some (es2, 0)"
      using Suc.IH [OF _ _ r1] Suc Suc.prems(2) by auto
    ultimately show ?thesis using s(1) by simp
  qed
qed

section \<open>Properties\<close>

text \<open>
  (C18) The guarantee of \<^verbatim>\<open>dictScan\<close>: an iteration that starts with cursor 0 and ends when it is
  given cursor 0 again returns every key that was in the table throughout, whatever happened to the
  table between the calls: any updates, any resizes, any progress of a rehash in either direction.
\<close>

theorem dictScan_complete:
  assumes "\<forall>d \<in> set ds. dict_wf E d \<and> k \<in> dom (dict_map d)" and "ds \<noteq> []"
    and "scan_calls ds 0 = Some (es, 0)"
  shows "k \<in> fst ` set es"
  using scan_calls_cover [OF assms] by simp

lemma scan_example: "\<exists>es. scan_calls (replicate 4 dict_example) 0 = Some (es, 0)"
proof -
  have bits: "2 = scan_bits dict_example" and ne: "dictSize dict_example \<noteq> 0"
    by (simp_all add: scan_bits_def dict_example_def dictIsRehashing_def dictSize_def)
  show ?thesis using scan_unchanged_ends [OF dict_example_wf ne bits, of 4 0] by simp
qed

theorem dictScan_complete_witness:
  "\<exists>es. scan_calls (replicate 4 dict_example) 0 = Some (es, 0) \<and> 5 \<in> fst ` set es"
proof -
  obtain es where es: "scan_calls (replicate 4 dict_example) 0 = Some (es, 0)" using scan_example by blast
  have "\<forall>d \<in> set (replicate 4 dict_example). dict_wf E_example d \<and> 5 \<in> dom (dict_map d)"
    by (simp add: dict_example_wf dict_example_map)
  then show ?thesis using dictScan_complete [OF _ _ es] es by auto
qed

text \<open>
  (C19) A scan of a table that does not change ends after at most as many calls as the smaller of its
  tables has buckets, and returns exactly the entries of the table.
\<close>

theorem dictScan_terminates:
  assumes wf: "dict_wf E d"
  shows "\<exists>es. scan_calls (replicate (2 ^ scan_bits d) d) 0 = Some (es, 0) \<and> fst ` set es = dom (dict_map d)"
proof -
  let ?ds = "replicate (2 ^ scan_bits d) d"
  obtain es where es: "scan_calls ?ds 0 = Some (es, 0)"
  proof (cases "dictSize d = 0")
    case True
    then have "scan_calls (replicate (Suc j) d) 0 = Some ([], 0)" for j by (simp add: dictScan_def)
    then show ?thesis using that by (metis Suc_pred zero_less_numeral zero_less_power)
  next
    case False
    then show ?thesis using scan_unchanged_ends [OF wf False refl, of "2 ^ scan_bits d" 0] that by auto
  qed
  have "set es \<subseteq> set (dict_entries d)"
    using scan_calls_return [of ?ds E 0] wf es by auto
  then have "fst ` set es \<subseteq> dom (dict_map d)" by (auto simp: dict_map_Some [OF wf] dom_def; blast)
  moreover have "dom (dict_map d) \<subseteq> fst ` set es"
    using scan_calls_cover [of ?ds E _ 0 es] wf es by auto
  ultimately show ?thesis using es by blast
qed

theorem dictScan_terminates_witness:
  "\<exists>es. scan_calls (replicate 4 dict_example) 0 = Some (es, 0) \<and> fst ` set es = {1, 4, 5, 8}"
proof -
  have "2 ^ scan_bits dict_example = (4 :: nat)"
    by (simp add: scan_bits_def dict_example_def dictIsRehashing_def)
  moreover have "dom (dict_map dict_example) = {1, 4, 5, 8}" by (auto simp: dict_example_map)
  ultimately show ?thesis using dictScan_terminates [OF dict_example_wf] by simp
qed

end
