(* ===== verification/Fwtree.thy ===== *)
theory Fwtree
  imports Prelude
begin

unbundle bit_operations_syntax

text \<open>
  The Fenwick tree of \<^verbatim>\<open>fwtree.c\<close>: \<open>2 ^ size_bits\<close> counters, kept as partial sums so that a prefix
  sum, an update and the search for the counter that holds the \<open>n\<close>-th unit are logarithmic. The
  key-value store uses one to find the dictionary of the \<open>n\<close>-th key.

  Indices are C \<^verbatim>\<open>int\<close>s and the counters \<^verbatim>\<open>unsigned long long\<close>s with their wrap-around written
  out. \<open>None\<close> is a failed assertion or an access outside \<^verbatim>\<open>tree\<close>. The functions that test
  \<^verbatim>\<open>if (!ft)\<close> take a tree: their callers never pass a null pointer.
\<close>

section \<open>The implementation\<close>

record fenwickTree =
  ft_tree :: "int list"
  ft_size_bits :: nat
  ft_size :: int
  ft_total :: int

definition fwTreeCreate :: "nat \<Rightarrow> fenwickTree" where
  "fwTreeCreate sizeBits =
     \<lparr>ft_tree = replicate (2 ^ sizeBits + 1) 0, ft_size_bits = sizeBits, ft_size = 2 ^ sizeBits,
      ft_total = 0\<rparr>"

definition tree_at :: "fenwickTree \<Rightarrow> int \<Rightarrow> int option" where
  "tree_at ft idx =
     (if 0 \<le> idx \<and> idx < int (length (ft_tree ft)) then Some (ft_tree ft ! nat idx) else None)"

definition lowbit :: "int \<Rightarrow> int" where
  \<comment> \<open>\<^verbatim>\<open>(idx & -idx)\<close>\<close>
  "lowbit idx = idx AND (- idx)"

lemma lowbit_odd: "odd x \<Longrightarrow> lowbit x = 1"
proof -
  assume "odd x"
  then obtain m where x: "x = 2 * m + 1" by (auto elim: oddE)
  have "(- x) div 2 = NOT m" by (simp add: x not_int_def)
  then show ?thesis
    unfolding lowbit_def
    by (subst and_int_rec) (simp add: x and.commute [of _ "NOT m"])
qed

lemma lowbit_double: "lowbit (2 * x) = 2 * lowbit x"
proof -
  have "(- (2 * x)) div 2 = - x" by presburger
  then show ?thesis unfolding lowbit_def by (subst and_int_rec) simp
qed

lemma lowbit_pow: "odd x \<Longrightarrow> lowbit (2 ^ k * x) = 2 ^ k"
proof (induction k)
  case 0
  then show ?case by (simp add: lowbit_odd)
next
  case (Suc k)
  then show ?case using lowbit_double [of "2 ^ k * x"] by (simp add: mult.assoc)
qed

lemma odd_part:
  assumes "(0::int) < x"
  obtains k y where "odd y" "x = 2 ^ k * y" "0 < y"
proof -
  have "\<exists>k y. odd y \<and> x = 2 ^ k * y \<and> 0 < y"
    using assms
  proof (induction "nat x" arbitrary: x rule: less_induct)
    case less
    show ?case
    proof (cases "odd x")
      case True
      then show ?thesis using less.prems by (intro exI [of _ 0] exI [of _ x]) simp
    next
      case False
      then obtain z where z: "x = 2 * z" by (auto elim: evenE)
      then have "nat z < nat x" "0 < z" using less.prems by simp_all
      then obtain k y where "odd y" "z = 2 ^ k * y" "0 < y" using less.hyps by blast
      then show ?thesis using z by (intro exI [of _ "Suc k"] exI [of _ y]) simp
    qed
  qed
  then show ?thesis using that by blast
qed

lemma lowbit_bounds: "0 < x \<Longrightarrow> 0 < lowbit x \<and> lowbit x \<le> x"
proof -
  assume "0 < x"
  then obtain k y where y: "odd y" "x = 2 ^ k * y" "0 < y" by (rule odd_part)
  then have "(2::int) ^ k * 1 \<le> 2 ^ k * y" by (intro mult_left_mono) auto
  then show ?thesis using y lowbit_pow [of y k] by simp
qed

function prefix_loop :: "fenwickTree \<Rightarrow> int \<Rightarrow> int \<Rightarrow> int option" where
  "prefix_loop ft idx acc =
     (if idx > 0
      then (case tree_at ft idx of None \<Rightarrow> None
            | Some t \<Rightarrow> prefix_loop ft (idx - lowbit idx) ((acc + t) mod 2 ^ 64))
      else Some acc)"
  by pat_completeness auto
termination
  by (relation "measure (\<lambda>(ft, idx, acc). nat idx)") (auto dest: lowbit_bounds)

declare prefix_loop.simps [simp del]

definition fwTreePrefixSum :: "fenwickTree \<Rightarrow> int \<Rightarrow> int option" where
  "fwTreePrefixSum ft idx =
     (if idx < 0 then Some 0
      else let idx = (if idx \<ge> ft_size ft then ft_size ft - 1 else idx)
           in prefix_loop ft (idx + 1) 0)"

function update_loop :: "fenwickTree \<Rightarrow> int \<Rightarrow> int \<Rightarrow> fenwickTree option" where
  "update_loop ft idx delta =
     (if 0 < idx \<and> idx \<le> ft_size ft
      then (case tree_at ft idx of None \<Rightarrow> None
            | Some t \<Rightarrow>
                if delta < 0 \<and> \<not> t \<ge> (- delta) mod 2 ^ 64 then None
                else update_loop
                  (ft\<lparr>ft_tree := (ft_tree ft)[nat idx := (t + delta) mod 2 ^ 64]\<rparr>)
                  (idx + lowbit idx) delta)
      else Some ft)"
  by pat_completeness auto
termination
proof (relation "measure (\<lambda>(ft, idx, delta). nat (ft_size ft + 1 - idx))")
  fix ft :: fenwickTree and idx t delta :: int
  assume "0 < idx \<and> idx \<le> ft_size ft"
  then show "((ft\<lparr>ft_tree := (ft_tree ft)[nat idx := (t + delta) mod 2 ^ 64]\<rparr>, idx + lowbit idx, delta),
      (ft, idx, delta)) \<in> measure (\<lambda>(ft, idx, delta). nat (ft_size ft + 1 - idx))"
    using lowbit_bounds [of idx] by simp
qed simp

declare update_loop.simps [simp del]

text \<open>
  The loop's guard is \<^verbatim>\<open>idx <= ft->size\<close>; the conjunct \<open>0 < idx\<close> above holds for every index the
  function passes and only lets the recursion be total.
\<close>

definition fwTreeUpdate :: "fenwickTree \<Rightarrow> int \<Rightarrow> int \<Rightarrow> fenwickTree option" where
  "fwTreeUpdate ft idx delta =
     (if idx < 0 \<or> idx \<ge> ft_size ft then Some ft
      else update_loop (ft\<lparr>ft_total := (ft_total ft + delta) mod 2 ^ 64\<rparr>) (idx + 1) delta)"

primrec find_loop :: "fenwickTree \<Rightarrow> nat \<Rightarrow> int \<Rightarrow> int \<Rightarrow> int option" where
  \<comment> \<open>the iteration with \<^verbatim>\<open>i = 1 << b\<close> and those after it; the first argument after \<open>ft\<close> is \<open>b + 1\<close>\<close>
  "find_loop ft 0 result target = Some result"
| "find_loop ft (Suc b) result target =
     (let current = result + 2 ^ b in
      case tree_at ft current of None \<Rightarrow> None
      | Some t \<Rightarrow> if target > t then find_loop ft b current (target - t)
                  else find_loop ft b result target)"

definition fwTreeFindIndex :: "fenwickTree \<Rightarrow> int \<Rightarrow> int option" where
  "fwTreeFindIndex ft target =
     (if target \<le> 0 then Some 0 else find_loop ft (ft_size_bits ft + 1) 0 target)"

definition fwTreeFindFirstNonEmpty :: "fenwickTree \<Rightarrow> int option" where
  "fwTreeFindFirstNonEmpty ft = fwTreeFindIndex ft 1"

definition fwTreeFindNextNonEmpty :: "fenwickTree \<Rightarrow> int \<Rightarrow> int option" where
  "fwTreeFindNextNonEmpty ft idx =
     (if idx < 0 \<or> idx \<ge> ft_size ft then Some (- 1)
      else case fwTreePrefixSum ft idx of None \<Rightarrow> None
        | Some s \<Rightarrow>
            let next_sum = (s + 1) mod 2 ^ 64
            in if next_sum \<le> ft_total ft then fwTreeFindIndex ft next_sum else Some (- 1))"

definition fwTreeClear :: "fenwickTree \<Rightarrow> fenwickTree" where
  "fwTreeClear ft = ft\<lparr>ft_tree := replicate (nat (ft_size ft + 1)) 0, ft_total := 0\<rparr>"

section \<open>The counters behind the tree\<close>

text \<open>
  \<open>fw_rep a ft\<close>: the tree represents the counters \<open>a\<close>. Node \<open>i\<close> (1-based) holds the sum of the
  \<open>lowbit i\<close> counters that end at \<open>i\<close>, and the total is below the largest 64-bit value, so that
  neither a sum nor the successor of one wraps around.
\<close>

definition psum :: "int list \<Rightarrow> int \<Rightarrow> int" where
  "psum a i = sum_list (take (nat i) a)"

definition fw_rep :: "int list \<Rightarrow> fenwickTree \<Rightarrow> bool" where
  "fw_rep a ft \<longleftrightarrow> ft_size ft = 2 ^ ft_size_bits ft \<and> int (length a) = ft_size ft \<and>
     int (length (ft_tree ft)) = ft_size ft + 1 \<and> (\<forall>x \<in> set a. 0 \<le> x) \<and>
     ft_total ft = sum_list a \<and> sum_list a < UINT64_MAX \<and>
     (\<forall>i. 1 \<le> i \<and> i \<le> ft_size ft \<longrightarrow> ft_tree ft ! nat i = psum a i - psum a (i - lowbit i))"

lemma fw_repD:
  assumes "fw_rep a ft"
  shows "ft_size ft = 2 ^ ft_size_bits ft" and "int (length a) = ft_size ft"
    and "int (length (ft_tree ft)) = ft_size ft + 1" and "\<And>x. x \<in> set a \<Longrightarrow> 0 \<le> x"
    and "ft_total ft = sum_list a" and "sum_list a < UINT64_MAX" and "0 < ft_size ft"
  using assms by (simp_all add: fw_rep_def)

lemma fw_rep_node:
  assumes "fw_rep a ft" and "1 \<le> i" and "i \<le> ft_size ft"
  shows "tree_at ft i = Some (psum a i - psum a (i - lowbit i))"
  using assms by (simp add: fw_rep_def tree_at_def)

lemma psum_0 [simp]: "i \<le> 0 \<Longrightarrow> psum a i = 0"
  by (simp add: psum_def)

lemma psum_Suc:
  assumes "0 \<le> i" and "i < int (length a)"
  shows "psum a (i + 1) = psum a i + a ! nat i"
proof -
  have "nat (i + 1) = Suc (nat i)" and "nat i < length a" using assms by auto
  then show ?thesis by (simp add: psum_def take_Suc_conv_app_nth)
qed

lemma psum_all [simp]: "int (length a) \<le> i \<Longrightarrow> psum a i = sum_list a"
  by (simp add: psum_def)

lemma psum_mono:
  assumes "\<And>x. x \<in> set a \<Longrightarrow> 0 \<le> x" and "i \<le> j"
  shows "psum a i \<le> psum a j"
proof -
  have "take (nat j) a = take (nat i) a @ drop (nat i) (take (nat j) a)"
    using assms(2) by (metis append_take_drop_id min.absorb1 nat_mono take_take)
  then have "psum a j = psum a i + sum_list (drop (nat i) (take (nat j) a))"
    unfolding psum_def by (metis sum_list_append)
  moreover have "0 \<le> sum_list (drop (nat i) (take (nat j) a))"
    using assms(1) by (intro sum_list_nonneg) (meson in_set_dropD in_set_takeD)
  ultimately show ?thesis by simp
qed

lemma psum_bounds:
  assumes "fw_rep a ft"
  shows "0 \<le> psum a i" and "psum a i \<le> sum_list a" and "psum a i < 2 ^ 64"
proof -
  note d = fw_repD [OF assms]
  have "psum a (min i 0) \<le> psum a i" "psum a i \<le> psum a (max i (ft_size ft))"
    by (rule psum_mono; use d(4) in simp)+
  then show "0 \<le> psum a i" and "psum a i \<le> sum_list a" using d(2) by simp_all
  then show "psum a i < 2 ^ 64" using d(6) by simp
qed


section \<open>Correctness\<close>

lemma fw_rep_create: "fw_rep (replicate (2 ^ n) 0) (fwTreeCreate n)"
  by (auto simp: fw_rep_def fwTreeCreate_def psum_def nat_less_iff sum_list_replicate
      simp del: replicate_Suc)

lemma fw_rep_clear:
  assumes "fw_rep a ft"
  shows "fw_rep (replicate (length a) 0) (fwTreeClear ft)"
  using fw_repD [OF assms]
  by (auto simp: fw_rep_def fwTreeClear_def psum_def nat_less_iff sum_list_replicate)

subsection \<open>Prefix sums\<close>

lemma prefix_loop_correct:
  assumes rep: "fw_rep a ft"
  shows "idx \<le> ft_size ft \<Longrightarrow> acc + psum a idx < 2 ^ 64 \<Longrightarrow> 0 \<le> acc \<Longrightarrow>
    prefix_loop ft idx acc = Some (acc + psum a idx)"
proof (induction "nat idx" arbitrary: idx acc rule: less_induct)
  case less
  show ?case
  proof (cases "0 < idx")
    case False
    then show ?thesis by (simp add: prefix_loop.simps)
  next
    case True
    let ?t = "psum a idx - psum a (idx - lowbit idx)"
    note lb = lowbit_bounds [OF True]
    have node: "tree_at ft idx = Some ?t" using True less.prems by (intro fw_rep_node [OF rep]) auto
    have "0 \<le> ?t" using psum_mono [of a "idx - lowbit idx" idx] lb fw_repD(4) [OF rep] by simp
    moreover have "0 \<le> psum a (idx - lowbit idx)" by (rule psum_bounds(1) [OF rep])
    ultimately have m: "(acc + ?t) mod 2 ^ 64 = acc + ?t" "0 \<le> acc + ?t"
      using less.prems by simp_all
    have "prefix_loop ft (idx - lowbit idx) (acc + ?t) = Some (acc + ?t + psum a (idx - lowbit idx))"
      using less.hyps [of "idx - lowbit idx" "acc + ?t"] lb less.prems m by simp
    then show ?thesis
      using True node m(1) by (subst prefix_loop.simps) simp
  qed
qed

lemma fwTreePrefixSum_correct:
  assumes rep: "fw_rep a ft"
  shows "fwTreePrefixSum ft idx = Some (psum a (idx + 1))"
proof (cases "idx < 0")
  case True
  then show ?thesis by (simp add: fwTreePrefixSum_def)
next
  case False
  note d = fw_repD [OF rep]
  define j where "j = (if idx \<ge> ft_size ft then ft_size ft - 1 else idx)"
  have j: "j + 1 \<le> ft_size ft" and p: "psum a (j + 1) = psum a (idx + 1)"
    using d(2) by (auto simp: j_def)
  have "prefix_loop ft (j + 1) 0 = Some (0 + psum a (j + 1))"
    using psum_bounds(3) [OF rep] by (intro prefix_loop_correct [OF rep j]) auto
  then show ?thesis using False p by (simp add: fwTreePrefixSum_def j_def)
qed

subsection \<open>Updates\<close>

text \<open>The nodes strictly between \<open>q\<close> and \<open>q + lowbit q\<close> cover nothing at or before \<open>q\<close>.\<close>

lemma lowbit_add_small:
  assumes "odd y" and "0 < r" and "r < 2 ^ k"
  shows "lowbit (2 ^ k * y + r) = lowbit r"
proof -
  obtain j z where z: "odd z" "r = 2 ^ j * z" "0 < z" using assms(2) by (rule odd_part)
  have "j < k"
  proof (rule ccontr)
    assume "\<not> j < k"
    then have "(2::int) ^ k \<le> 2 ^ j" by (intro power_increasing) auto
    moreover have "(2::int) ^ j * 1 \<le> 2 ^ j * z" using z by (intro mult_left_mono) auto
    ultimately show False using assms(3) z(2) by linarith
  qed
  then obtain i where i: "k = j + Suc i" by (metis less_imp_Suc_add add_Suc_right)
  have "2 ^ k * y + r = 2 ^ j * (2 * (2 ^ i * y) + z)" using i z(2) by (simp add: algebra_simps power_add)
  moreover have "odd (2 * (2 ^ i * y) + z)" using z(1) by simp
  ultimately show ?thesis using lowbit_pow z(1,2) by metis
qed

lemma between_nodes:
  assumes "0 < q" and "q < i" and "i < q + lowbit q"
  shows "q \<le> i - lowbit i"
proof -
  obtain k y where y: "odd y" "q = 2 ^ k * y" "0 < y" using assms(1) by (rule odd_part)
  have lb: "lowbit q = 2 ^ k" using y lowbit_pow by simp
  define r where "r = i - q"
  have r: "0 < r" "r < 2 ^ k" "i = 2 ^ k * y + r" using assms lb y by (simp_all add: r_def)
  then have "lowbit i = lowbit r" using lowbit_add_small [OF y(1)] by simp
  then show ?thesis using lowbit_bounds [OF r(1)] by (simp add: r_def)
qed

lemma next_node:
  assumes "0 < q"
  shows "q + lowbit q - lowbit (q + lowbit q) \<le> q - lowbit q"
proof -
  obtain k y where y: "odd y" "q = 2 ^ k * y" "0 < y" using assms by (rule odd_part)
  have lb: "lowbit q = 2 ^ k" using y lowbit_pow by simp
  obtain m where m: "y = 2 * m + 1" "0 \<le> m" using y(1,3) by (auto elim!: oddE)
  have e: "q + lowbit q = 2 * (2 ^ k * (m + 1))" using y(2) lb m by (simp add: algebra_simps)
  obtain j z where z: "odd z" "m + 1 = 2 ^ j * z" "0 < z" using m(2) by (auto intro: odd_part [of "m + 1"])
  have "lowbit (q + lowbit q) = 2 * 2 ^ (k + j)"
    using e z lowbit_double [of "2 ^ k * (m + 1)"] lowbit_pow [OF z(1), of "k + j"]
    by (simp add: power_add mult.assoc)
  moreover have "(2::int) ^ k \<le> 2 ^ (k + j)" by (intro power_increasing) auto
  ultimately show ?thesis using lb by simp
qed

text \<open>
  The loop from a node \<open>q\<close> that covers position \<open>p\<close> adds \<open>delta\<close> to exactly the nodes from \<open>q\<close>
  on that cover \<open>p\<close>, unless an assertion fails.
\<close>

definition covers :: "int \<Rightarrow> int \<Rightarrow> bool" where
  "covers i p \<longleftrightarrow> i - lowbit i < p \<and> p \<le> i"

lemma update_loop_correct:
  "0 < p \<Longrightarrow> covers q p \<Longrightarrow> int (length (ft_tree ft)) = ft_size ft + 1 \<Longrightarrow>
   (\<forall>i. q \<le> i \<and> i \<le> ft_size ft \<and> covers i p \<longrightarrow>
      0 \<le> ft_tree ft ! nat i + delta \<and> ft_tree ft ! nat i + delta < 2 ^ 64 \<and> ft_tree ft ! nat i < 2 ^ 64) \<Longrightarrow>
   \<exists>t. update_loop ft q delta = Some (ft\<lparr>ft_tree := t\<rparr>) \<and> length t = length (ft_tree ft) \<and>
     (\<forall>i. 0 \<le> i \<and> i \<le> ft_size ft \<longrightarrow>
        t ! nat i = ft_tree ft ! nat i + (if q \<le> i \<and> covers i p then delta else 0))"
proof (induction "nat (ft_size ft + 1 - q)" arbitrary: ft q rule: less_induct)
  case less
  have q: "0 < q" using less.prems(1,2) by (simp add: covers_def)
  show ?case
  proof (cases "q \<le> ft_size ft")
    case False
    then show ?thesis by (intro exI [of _ "ft_tree ft"]) (auto simp: update_loop.simps)
  next
    case True
    define t0 where "t0 = ft_tree ft ! nat q"
    define ft1 where "ft1 = ft\<lparr>ft_tree := (ft_tree ft)[nat q := t0 + delta]\<rparr>"
    define q' where "q' = q + lowbit q"
    have b: "0 \<le> t0 + delta" "t0 + delta < 2 ^ 64" "t0 < 2 ^ 64"
      using less.prems(2,4) True by (auto simp: t0_def)
    have at: "tree_at ft q = Some t0" using q True less.prems(3) by (simp add: tree_at_def t0_def)
    have ok: "delta < 0 \<Longrightarrow> (- delta) mod 18446744073709551616 \<le> t0" using b by simp
    have step: "update_loop ft q delta = update_loop ft1 q' delta"
      using q True at b unfolding update_loop.simps [of ft q] by (auto simp: ft1_def q'_def dest: ok)
    have cov': "covers q' p"
      using next_node [OF q] lowbit_bounds [OF q] less.prems(2) by (simp add: covers_def q'_def)
    have new: "ft_tree ft1 ! nat i = ft_tree ft ! nat i + (if i = q then delta else 0)"
      if "0 \<le> i" "i \<le> ft_size ft" for i
      using that q True less.prems(3) by (auto simp: ft1_def t0_def nth_list_update nat_eq_iff)
    have btw: "\<not> covers i p" if "q < i" "i < q'" for i
      using between_nodes [OF q that(1)] that(2) less.prems(2) by (simp add: covers_def q'_def)
    have lb: "q < q'" using lowbit_bounds [OF q] by (simp add: q'_def)
    have ft1: "ft_size ft1 = ft_size ft" "length (ft_tree ft1) = length (ft_tree ft)" by (simp_all add: ft1_def)
    obtain t where t: "update_loop ft1 q' delta = Some (ft1\<lparr>ft_tree := t\<rparr>)" "length t = length (ft_tree ft)"
      "\<forall>i. 0 \<le> i \<and> i \<le> ft_size ft \<longrightarrow>
        t ! nat i = ft_tree ft1 ! nat i + (if q' \<le> i \<and> covers i p then delta else 0)"
    proof -
      have "nat (ft_size ft1 + 1 - q') < nat (ft_size ft + 1 - q)" using lb True ft1 by simp
      moreover have "\<forall>i. q' \<le> i \<and> i \<le> ft_size ft1 \<and> covers i p \<longrightarrow>
          0 \<le> ft_tree ft1 ! nat i + delta \<and> ft_tree ft1 ! nat i + delta < 2 ^ 64 \<and> ft_tree ft1 ! nat i < 2 ^ 64"
        using less.prems(4) new ft1 lb q by auto
      ultimately show ?thesis
        using less.hyps [of ft1 q'] less.prems(1,3) cov' ft1 that by auto
    qed
    have "t ! nat i = ft_tree ft ! nat i + (if q \<le> i \<and> covers i p then delta else 0)"
      if "0 \<le> i" "i \<le> ft_size ft" for i
    proof -
      consider "i < q" | "i = q" | "q < i" "i < q'" | "q' \<le> i" by linarith
      then show ?thesis
        using t(3) new [OF that] that lb btw less.prems(2) by cases auto
    qed
    then show ?thesis using step t(1,2) by (intro exI [of _ t]) (simp add: ft1_def)
  qed
qed


text \<open>Changing one counter changes the prefix sums beyond it, so exactly the nodes that cover it.\<close>

lemma sum_list_update_diff:
  fixes a :: "int list"
  shows "n < length a \<Longrightarrow> sum_list (a[n := a ! n + delta]) = sum_list a + delta"
  by (induction a arbitrary: n) (auto split: nat.splits)

lemma psum_update:
  assumes "0 \<le> p" and "p < int (length a)"
  shows "psum (a[nat p := a ! nat p + delta]) i = psum a i + (if p < i then delta else 0)"
proof (cases "p < i")
  case True
  then have "nat p < nat i" using assms by simp
  then have "take (nat i) (a[nat p := a ! nat p + delta]) =
      (take (nat i) a)[nat p := take (nat i) a ! nat p + delta]"
    by (simp add: take_update_swap)
  moreover have "nat p < length (take (nat i) a)" using \<open>nat p < nat i\<close> assms by simp
  ultimately show ?thesis using True by (simp only: psum_def sum_list_update_diff if_True)
next
  case False
  then show ?thesis using assms by (simp add: psum_def take_update_cancel)
qed

lemma fwTreeUpdate_correct:
  assumes rep: "fw_rep a ft" and idx: "0 \<le> idx" "idx < ft_size ft"
    and lo: "0 \<le> a ! nat idx + delta" and hi: "sum_list a + delta < UINT64_MAX"
  shows "\<exists>ft'. fwTreeUpdate ft idx delta = Some ft' \<and> fw_rep (a[nat idx := a ! nat idx + delta]) ft'"
proof -
  note d = fw_repD [OF rep]
  let ?a' = "a[nat idx := a ! nat idx + delta]" and ?p = "idx + 1"
  have n: "nat idx < length a" using idx d(2) by linarith
  define ft0 where "ft0 = ft\<lparr>ft_total := (ft_total ft + delta) mod 2 ^ 64\<rparr>"
  have pos: "\<forall>x \<in> set ?a'. 0 \<le> x"
    using lo d(4) by (auto dest!: subsetD [OF set_update_subset_insert])
  then have "0 \<le> sum_list ?a'" by (intro sum_list_nonneg) auto
  then have tot: "(ft_total ft + delta) mod 2 ^ 64 = sum_list a + delta"
    using n hi d(5) by (simp add: sum_list_update_diff)
  have pu: "psum ?a' i = psum a i + (if idx < i then delta else 0)" for i
    using psum_update [of idx a] idx d(2) by simp
  have node: "ft_tree ft ! nat i = psum a i - psum a (i - lowbit i)" if "1 \<le> i" "i \<le> ft_size ft" for i
    using rep that by (simp add: fw_rep_def)
  have shift: "psum ?a' i - psum ?a' (i - lowbit i) =
      psum a i - psum a (i - lowbit i) + (if ?p \<le> i \<and> covers i ?p then delta else 0)"
    if "1 \<le> i" for i
    using lowbit_bounds [of i] that by (auto simp: pu covers_def)
  have rng: "0 \<le> psum ?a' i - psum ?a' (i - lowbit i) \<and> psum ?a' i - psum ?a' (i - lowbit i) < 2 ^ 64"
    if "1 \<le> i" for i
  proof -
    have "psum ?a' (i - lowbit i) \<le> psum ?a' i" "psum ?a' (min (i - lowbit i) 0) \<le> psum ?a' (i - lowbit i)"
      "psum ?a' i \<le> psum ?a' (max i (ft_size ft))"
      by (rule psum_mono; use pos lowbit_bounds [of i] that in auto)+
    moreover have "psum ?a' (max i (ft_size ft)) = sum_list a + delta"
      using d(2) n by (simp add: sum_list_update_diff)
    ultimately show ?thesis using hi by simp
  qed
  have "covers ?p ?p" using lowbit_bounds [of ?p] idx by (simp add: covers_def)
  moreover have "\<forall>i. ?p \<le> i \<and> i \<le> ft_size ft0 \<and> covers i ?p \<longrightarrow>
      0 \<le> ft_tree ft0 ! nat i + delta \<and> ft_tree ft0 ! nat i + delta < 2 ^ 64 \<and> ft_tree ft0 ! nat i < 2 ^ 64"
  proof (intro allI impI)
    fix i assume i: "?p \<le> i \<and> i \<le> ft_size ft0 \<and> covers i ?p"
    then have "1 \<le> i" "i \<le> ft_size ft" using idx by (simp_all add: ft0_def)
    then have "ft_tree ft0 ! nat i + delta = psum ?a' i - psum ?a' (i - lowbit i)"
      using node shift i by (simp add: ft0_def)
    moreover have "ft_tree ft0 ! nat i < 2 ^ 64"
      using node [OF \<open>1 \<le> i\<close> \<open>i \<le> ft_size ft\<close>] psum_bounds(1) [OF rep, of "i - lowbit i"]
        psum_bounds(3) [OF rep, of i] by (simp add: ft0_def)
    ultimately show "0 \<le> ft_tree ft0 ! nat i + delta \<and> ft_tree ft0 ! nat i + delta < 2 ^ 64 \<and>
        ft_tree ft0 ! nat i < 2 ^ 64"
      using rng [OF \<open>1 \<le> i\<close>] by simp
  qed
  ultimately obtain t where t: "update_loop ft0 ?p delta = Some (ft0\<lparr>ft_tree := t\<rparr>)"
    "length t = length (ft_tree ft)"
    "\<forall>i. 0 \<le> i \<and> i \<le> ft_size ft \<longrightarrow>
      t ! nat i = ft_tree ft ! nat i + (if ?p \<le> i \<and> covers i ?p then delta else 0)"
    using update_loop_correct [of ?p ?p ft0 delta] idx d(3) by (auto simp: ft0_def)
  have "fw_rep ?a' (ft0\<lparr>ft_tree := t\<rparr>)"
    using d t(2,3) pos hi n node shift
      tot [unfolded d(5)] by (auto simp: fw_rep_def ft0_def sum_list_update_diff)
  then show ?thesis using t(1) idx by (simp add: fwTreeUpdate_def ft0_def)
qed

lemma fwTreeUpdate_outside: "idx < 0 \<or> ft_size ft \<le> idx \<Longrightarrow> fwTreeUpdate ft idx delta = Some ft"
  by (auto simp: fwTreeUpdate_def)

subsection \<open>Search\<close>

lemma find_loop_correct:
  assumes rep: "fw_rep a ft"
  shows "0 \<le> result \<Longrightarrow> result mod 2 ^ b = 0 \<Longrightarrow> result + 2 ^ b \<le> ft_size ft \<Longrightarrow> 0 < target \<Longrightarrow>
    psum a result + target \<le> psum a (result + 2 ^ b) \<Longrightarrow>
    \<exists>r. find_loop ft b result target = Some r \<and> 0 \<le> r \<and> r < ft_size ft \<and>
      psum a r < psum a result + target \<and> psum a result + target \<le> psum a (r + 1)"
proof (induction b arbitrary: result target)
  case 0
  then show ?case by simp
next
  case (Suc b)
  define c where "c = result + 2 ^ b"
  obtain m where m: "result = 2 ^ Suc b * m"
    using Suc.prems(2) by (metis mult_div_mod_eq add.right_neutral)
  have "c = 2 ^ b * (2 * m + 1)" using m by (simp add: c_def algebra_simps)
  then have lb: "lowbit c = 2 ^ b" using lowbit_pow [of "2 * m + 1" b] by simp
  have rng: "1 \<le> c" "c \<le> ft_size ft" "c + 2 ^ b = result + 2 ^ Suc b"
  proof -
    have "(0::int) < 2 ^ b" by simp
    then show "1 \<le> c" "c \<le> ft_size ft" using Suc.prems(1,3) unfolding c_def power_Suc by linarith+
    show "c + 2 ^ b = result + 2 ^ Suc b" by (simp add: c_def)
  qed
  have node: "tree_at ft c = Some (psum a c - psum a result)"
    using fw_rep_node [OF rep rng(1,2)] lb by (simp add: c_def)
  have mods: "result mod 2 ^ b = 0" "c mod 2 ^ b = 0"
    using m by (simp_all add: c_def mod_mult_self1_is_0 mult.assoc mult.left_commute [of _ 2])
  show ?case
  proof (cases "target > psum a c - psum a result")
    case True
    then show ?thesis
      using Suc.IH [of c "target - (psum a c - psum a result)"] Suc.prems rng mods node
      by (auto simp: c_def [symmetric] Let_def)
  next
    case False
    have "result + 2 ^ b \<le> ft_size ft" using rng by (simp add: c_def)
    then show ?thesis
      using Suc.IH [of result target] Suc.prems(1,4) mods node False
      by (auto simp: c_def [symmetric] Let_def)
  qed
qed

lemma fwTreeFindIndex_correct:
  assumes rep: "fw_rep a ft" and t: "0 < target" "target \<le> sum_list a"
  shows "\<exists>r. fwTreeFindIndex ft target = Some r \<and> 0 \<le> r \<and> r < ft_size ft \<and>
    psum a r < target \<and> target \<le> psum a (r + 1)"
proof -
  note d = fw_repD [OF rep]
  let ?b = "ft_size_bits ft"
  have "lowbit (ft_size ft) = ft_size ft" using lowbit_pow [of 1 ?b] d(1) by simp
  then have "tree_at ft (2 ^ ?b) = Some (sum_list a)"
    using fw_rep_node [OF rep, of "ft_size ft"] d(1,2,7) by simp
  then have "fwTreeFindIndex ft target = find_loop ft ?b 0 target"
    using t by (simp add: fwTreeFindIndex_def)
  then show ?thesis
    using find_loop_correct [OF rep, of 0 ?b target] d(1,2) t by simp
qed

lemma psum_step_nonempty:
  assumes rep: "fw_rep a ft" and "0 \<le> r" "r < ft_size ft" and "psum a r < psum a (r + 1)"
  shows "a ! nat r \<noteq> 0"
  using psum_Suc [of r a] fw_repD(2) [OF rep] assms by auto

lemma psum_zero_range:
  assumes rep: "fw_rep a ft" and "psum a i = psum a j" and "0 \<le> i" "i \<le> k" "k < j" "k < ft_size ft"
  shows "a ! nat k = 0"
proof -
  note d = fw_repD [OF rep]
  have "psum a i \<le> psum a k" "psum a k \<le> psum a (k + 1)" "psum a (k + 1) \<le> psum a j"
    by (rule psum_mono; use assms d(4) in auto)+
  then have "psum a k = psum a (k + 1)" using assms(2) by simp
  then show ?thesis using psum_Suc [of k a] d(2) assms by simp
qed

text \<open>The next non-empty counter after \<open>idx\<close>: the least one, or \<open>- 1\<close> when there is none.\<close>

lemma fwTreeFindNextNonEmpty_correct:
  assumes rep: "fw_rep a ft" and idx: "0 \<le> idx" "idx < ft_size ft"
  shows "\<exists>r. fwTreeFindNextNonEmpty ft idx = Some r \<and>
    (r = - 1 \<and> (\<forall>k. idx < k \<and> k < ft_size ft \<longrightarrow> a ! nat k = 0) \<or>
     idx < r \<and> r < ft_size ft \<and> a ! nat r \<noteq> 0 \<and> (\<forall>k. idx < k \<and> k < r \<longrightarrow> a ! nat k = 0))"
proof -
  note d = fw_repD [OF rep]
  let ?s = "psum a (idx + 1)"
  show ?thesis
  proof (cases "?s < sum_list a")
    case True
    then have m: "(?s + 1) mod 2 ^ 64 = ?s + 1" using d(6) psum_bounds(1) [OF rep, of "idx + 1"] by simp
    obtain r where r: "fwTreeFindIndex ft (?s + 1) = Some r" "0 \<le> r" "r < ft_size ft"
      "psum a r < ?s + 1" "?s + 1 \<le> psum a (r + 1)"
      using fwTreeFindIndex_correct [OF rep, of "?s + 1"] True psum_bounds(1) [OF rep, of "idx + 1"] by auto
    have "idx < r"
    proof (rule ccontr)
      assume "\<not> idx < r"
      then have "psum a (r + 1) \<le> ?s" by (intro psum_mono d(4)) auto
      then show False using r(5) by simp
    qed
    then have "psum a (idx + 1) \<le> psum a r" by (intro psum_mono d(4)) auto
    then have eq: "psum a (idx + 1) = psum a r" using r(4) by simp
    have "a ! nat r \<noteq> 0" using psum_step_nonempty [OF rep r(2,3)] r(4,5) by simp
    moreover have "a ! nat k = 0" if "idx < k" "k < r" for k
      using psum_zero_range [OF rep eq] that idx r(3) by simp
    ultimately show ?thesis
      using idx True r m \<open>idx < r\<close> d(5) fwTreePrefixSum_correct [OF rep, of idx]
      by (intro exI [of _ r]) (auto simp: fwTreeFindNextNonEmpty_def Let_def)
  next
    case False
    then have eq: "psum a (idx + 1) = psum a (ft_size ft)"
      using psum_bounds(2) [OF rep, of "idx + 1"] d(2) by simp
    have "a ! nat k = 0" if "idx < k" "k < ft_size ft" for k
      using psum_zero_range [OF rep eq] that idx by simp
    moreover have "fwTreeFindNextNonEmpty ft idx = Some (- 1)"
    proof -
      have s: "?s = sum_list a" using eq d(2) by simp
      then have "(?s + 1) mod 2 ^ 64 = sum_list a + 1"
        using psum_bounds(1) [OF rep, of "idx + 1"] d(6) by simp
      then show ?thesis
        using idx d(5) fwTreePrefixSum_correct [OF rep, of idx] s
        by (simp add: fwTreeFindNextNonEmpty_def Let_def)
    qed
    ultimately show ?thesis by blast
  qed
qed


section \<open>Properties\<close>

lemma fw_example: "fw_rep [0, 0, 0, 0] (fwTreeCreate 2)"
  using fw_rep_create [of 2] by (simp add: numeral_eq_Suc)

text \<open>
  The cumulative count up to an index is the sum of the counters up to it, computed by
  following the low bits of the index, for every index (0 below the range).
\<close>

theorem fwTreePrefixSum_sums:
  assumes "fw_rep a ft"
  shows "fwTreePrefixSum ft idx = Some (psum a (idx + 1))"
  using assms by (rule fwTreePrefixSum_correct)

theorem fwTreePrefixSum_sums_witness: "fwTreePrefixSum (fwTreeCreate 2) 3 = Some 0"
  using fwTreePrefixSum_sums [OF fw_example, of 3] by (simp add: psum_def)

text \<open>
  (C14) An update of one counter that keeps it non-negative and the total below the largest 64-bit
  value changes that counter and no other: the tree represents the updated counters.
\<close>

theorem fwTreeUpdate_updates:
  assumes "fw_rep a ft" and "0 \<le> idx" "idx < ft_size ft"
    and "0 \<le> a ! nat idx + delta" and "sum_list a + delta < UINT64_MAX"
  shows "\<exists>ft'. fwTreeUpdate ft idx delta = Some ft' \<and> fw_rep (a[nat idx := a ! nat idx + delta]) ft'"
  using assms by (rule fwTreeUpdate_correct)

theorem fwTreeUpdate_updates_witness:
  "\<exists>ft'. fwTreeUpdate (fwTreeCreate 2) 2 7 = Some ft' \<and> fw_rep [0, 0, 7, 0] ft'"
  using fwTreeUpdate_updates [OF fw_example, of 2 7] by (simp add: fwTreeCreate_def)

text \<open>
  The search for the counter that holds the \<open>target\<close>-th key returns the index whose
  cumulative counts enclose the target.
\<close>

theorem fwTreeFindIndex_finds:
  assumes "fw_rep a ft" and "0 < target" "target \<le> sum_list a"
  shows "\<exists>r. fwTreeFindIndex ft target = Some r \<and> 0 \<le> r \<and> r < ft_size ft \<and>
    psum a r < target \<and> target \<le> psum a (r + 1)"
  using assms by (rule fwTreeFindIndex_correct)

theorem fwTreeFindIndex_finds_witness:
  "\<exists>ft' r. fwTreeUpdate (fwTreeCreate 2) 2 7 = Some ft' \<and> fwTreeFindIndex ft' 4 = Some r \<and>
    psum [0, 0, 7, 0] r < 4 \<and> 4 \<le> psum [0, 0, 7, 0] (r + 1)"
proof -
  obtain ft' where ft': "fwTreeUpdate (fwTreeCreate 2) 2 7 = Some ft'" "fw_rep [0, 0, 7, 0] ft'"
    using fwTreeUpdate_correct [OF fw_example, of 2 7] by (auto simp: fwTreeCreate_def)
  show ?thesis using fwTreeFindIndex_finds [OF ft'(2), of 4] ft'(1) by auto
qed

text \<open>
  The search for the next non-empty counter returns the first index after the given one whose
  counter is not 0, or -1 when there is none.
\<close>

theorem fwTreeFindNextNonEmpty_finds:
  assumes "fw_rep a ft" and "0 \<le> idx" "idx < ft_size ft"
  shows "\<exists>r. fwTreeFindNextNonEmpty ft idx = Some r \<and>
    (r = - 1 \<and> (\<forall>k. idx < k \<and> k < ft_size ft \<longrightarrow> a ! nat k = 0) \<or>
     idx < r \<and> r < ft_size ft \<and> a ! nat r \<noteq> 0 \<and> (\<forall>k. idx < k \<and> k < r \<longrightarrow> a ! nat k = 0))"
  using assms by (rule fwTreeFindNextNonEmpty_correct)

theorem fwTreeFindNextNonEmpty_finds_witness:
  "\<exists>r. fwTreeFindNextNonEmpty (fwTreeCreate 2) 1 = Some r \<and>
    (r = - 1 \<or> 1 < r \<and> r < 4 \<and> [0, 0, 0, 0 :: int] ! nat r \<noteq> 0)"
  using fwTreeFindNextNonEmpty_finds [OF fw_example, of 1] by (auto simp: fwTreeCreate_def)

end
