(* ===== verification/Kvstore.thy ===== *)
theory Kvstore
  imports Dict_Scan Fwtree
begin

unbundle bit_operations_syntax

text \<open>
  The key-value store of \<^verbatim>\<open>kvstore.c\<close>: an array of hash tables, one per cluster slot, with a
  Fenwick tree of their sizes, and counters that the callbacks of the tables keep up to date.

  \<^verbatim>\<open>flags\<close> are two booleans; the histogram metadata and its accounting are left out. The node of a
  table in the \<^verbatim>\<open>rehashing\<close> list is represented by the table's index. A dict index is an \<open>int\<close>;
  \<open>None\<close> is a failed assertion, an access outside the array or through a null table. Unsigned
  64-bit counters are \<open>int\<close> with their wrap-around written out.
\<close>

section \<open>State\<close>

record ('k, 'v) kvstore =
  ALLOCATE_DICTS_ON_DEMAND :: bool
  FREE_EMPTY_DICTS :: bool
  kvs_dicts :: "('k, 'v) dict option list"
  num_dicts_bits :: nat
  kvs_rehashing :: "int list"
  resize_cursor :: int
  allocated_dicts :: int
  non_empty_dicts :: int
  key_count :: int
  bucket_count :: int
  dict_sizes :: "fenwickTree option"
  overhead_hashtable_rehashing :: int

definition num_dicts :: "('k, 'v) kvstore \<Rightarrow> int" where
  "num_dicts kvs = 2 ^ num_dicts_bits kvs"

definition kvstoreGetDict :: "('k, 'v) kvstore \<Rightarrow> int \<Rightarrow> ('k, 'v) dict option option" where
  "kvstoreGetDict kvs didx =
     (if 0 \<le> didx \<and> didx < int (length (kvs_dicts kvs)) then Some (kvs_dicts kvs ! nat didx) else None)"

definition kvs_set_dict :: "('k, 'v) kvstore \<Rightarrow> int \<Rightarrow> ('k, 'v) dict option \<Rightarrow> ('k, 'v) kvstore" where
  \<comment> \<open>\<^verbatim>\<open>kvs->dicts[didx] = d\<close>\<close>
  "kvs_set_dict kvs didx d = kvs\<lparr>kvs_dicts := (kvs_dicts kvs)[nat didx := d]\<rparr>"

definition kvstoreSize :: "('k, 'v) kvstore \<Rightarrow> int" where
  "kvstoreSize kvs = key_count kvs"

definition kvstoreDictSize :: "('k, 'v) kvstore \<Rightarrow> int \<Rightarrow> nat option" where
  "kvstoreDictSize kvs didx = do {
     d \<leftarrow> kvstoreGetDict kvs didx;
     Some (case d of None \<Rightarrow> 0 | Some d \<Rightarrow> dictSize d)
   }"

definition kvstoreBuckets :: "('k, 'v) kvstore \<Rightarrow> int option" where
  "kvstoreBuckets kvs =
     (if num_dicts kvs \<noteq> 1 then Some (bucket_count kvs)
      else do {
        d \<leftarrow> kvstoreGetDict kvs 0;
        Some (case d of None \<Rightarrow> 0 | Some d \<Rightarrow> int (dictBuckets d))
      })"

definition kvstoreDictIsRehashingPaused :: "('k, 'v) kvstore \<Rightarrow> int \<Rightarrow> bool option" where
  "kvstoreDictIsRehashingPaused kvs didx = do {
     d \<leftarrow> kvstoreGetDict kvs didx;
     Some (case d of None \<Rightarrow> False | Some d \<Rightarrow> pauserehash d > 0)
   }"

section \<open>Cursors\<close>

text \<open>A cursor carries the dict index in its low bits.\<close>

definition addDictIndexToCursor :: "('k, 'v) kvstore \<Rightarrow> int \<Rightarrow> 64 word \<Rightarrow> 64 word" where
  "addDictIndexToCursor kvs didx cursor =
     (if num_dicts kvs = 1 \<or> didx < 0 then cursor
      else push_bit (num_dicts_bits kvs) cursor OR word_of_int didx)"

definition getAndClearDictIndexFromCursor :: "('k, 'v) kvstore \<Rightarrow> 64 word \<Rightarrow> int \<times> 64 word" where
  "getAndClearDictIndexFromCursor kvs cursor =
     (if num_dicts kvs = 1 then (0, cursor)
      else (uint (cursor AND word_of_int (num_dicts kvs - 1)), drop_bit (num_dicts_bits kvs) cursor))"

section \<open>Callbacks of the tables\<close>

definition kvstoreDictRehashingStarted :: "('k, 'v) kvstore \<Rightarrow> int \<Rightarrow> nat \<Rightarrow> ('k, 'v) kvstore" where
  "kvstoreDictRehashingStarted kvs didx from =
     kvs\<lparr>kvs_rehashing := kvs_rehashing kvs @ [didx],
         overhead_hashtable_rehashing := (overhead_hashtable_rehashing kvs + int from) mod 2 ^ 64\<rparr>"

definition kvstoreDictRehashingCompleted :: "('k, 'v) kvstore \<Rightarrow> int \<Rightarrow> nat \<Rightarrow> ('k, 'v) kvstore" where
  "kvstoreDictRehashingCompleted kvs didx from =
     kvs\<lparr>kvs_rehashing := remove1 didx (kvs_rehashing kvs),
         overhead_hashtable_rehashing := (overhead_hashtable_rehashing kvs - int from) mod 2 ^ 64\<rparr>"

definition kvstoreDictBucketChanged :: "('k, 'v) kvstore \<Rightarrow> int \<Rightarrow> ('k, 'v) kvstore" where
  "kvstoreDictBucketChanged kvs delta = kvs\<lparr>bucket_count := (bucket_count kvs + delta) mod 2 ^ 64\<rparr>"

fun kvs_event :: "int \<Rightarrow> ('k, 'v) kvstore \<Rightarrow> dict_event \<Rightarrow> ('k, 'v) kvstore" where
  "kvs_event didx kvs (RehashingStarted from _) = kvstoreDictRehashingStarted kvs didx from"
| "kvs_event didx kvs (RehashingCompleted from _) = kvstoreDictRehashingCompleted kvs didx from"
| "kvs_event didx kvs (BucketChanged delta) = kvstoreDictBucketChanged kvs delta"

text \<open>
  A table \<open>d\<close> of the store has become \<open>d'\<close> by an operation of \<^verbatim>\<open>dict.c\<close>: the callbacks it made
  are the events that are new in its trace.
\<close>

definition new_events :: "('k, 'v) dict \<Rightarrow> ('k, 'v) dict \<Rightarrow> dict_event list" where
  "new_events d d' = drop (length (d_trace d)) (d_trace d')"

definition kvs_update :: "('k, 'v) kvstore \<Rightarrow> int \<Rightarrow> ('k, 'v) dict \<Rightarrow> ('k, 'v) dict \<Rightarrow> ('k, 'v) kvstore" where
  "kvs_update kvs didx d d' = foldl (kvs_event didx) (kvs_set_dict kvs didx (Some d')) (new_events d d')"

section \<open>Accounting\<close>

definition cumulativeKeyCountAdd :: "('k, 'v) kvstore \<Rightarrow> int \<Rightarrow> int \<Rightarrow> ('k, 'v) kvstore option" where
  "cumulativeKeyCountAdd kvs didx delta = do {
     od \<leftarrow> kvstoreGetDict kvs didx;
     d \<leftarrow> od;
     let dsize = dictSize d;
     let non_empty_delta = (if dsize = 1 \<and> delta > 0 then 1 else if dsize = 0 then - 1 else 0);
     let kvs1 = kvs\<lparr>key_count := (key_count kvs + delta) mod 2 ^ 64,
                    non_empty_dicts := non_empty_dicts kvs + non_empty_delta\<rparr>;
     if num_dicts kvs1 = 1 then Some kvs1
     else do {
       ft \<leftarrow> dict_sizes kvs1;
       ft' \<leftarrow> fwTreeUpdate ft didx delta;
       Some (kvs1\<lparr>dict_sizes := Some ft'\<rparr>)
     }
   }"

definition createDictIfNeeded :: "('k, 'v) kvstore \<Rightarrow> int \<Rightarrow> ('k, 'v) kvstore option" where
  "createDictIfNeeded kvs didx = do {
     d \<leftarrow> kvstoreGetDict kvs didx;
     case d of
       Some _ \<Rightarrow> Some kvs
     | None \<Rightarrow> Some ((kvs_set_dict kvs didx (Some dictCreate))\<lparr>allocated_dicts := allocated_dicts kvs + 1\<rparr>)
   }"

definition freeDictIfNeeded :: "('k, 'v) kvstore \<Rightarrow> int \<Rightarrow> ('k, 'v) kvstore option" where
  "freeDictIfNeeded kvs didx =
     (if \<not> FREE_EMPTY_DICTS kvs then Some kvs
      else do {
        od \<leftarrow> kvstoreGetDict kvs didx;
        case od of
          None \<Rightarrow> Some kvs
        | Some d \<Rightarrow>
            if dictSize d \<noteq> 0 \<or> pauserehash d > 0 then Some kvs
            else do {
              d' \<leftarrow> dictRelease d;
              let kvs1 = kvs_update kvs didx d d';
              Some ((kvs_set_dict kvs1 didx None)\<lparr>allocated_dicts := allocated_dicts kvs1 - 1\<rparr>)
            }
      })"

section \<open>Creation and clearing\<close>

fun create_loop :: "('k, 'v) kvstore \<Rightarrow> int list \<Rightarrow> ('k, 'v) kvstore option" where
  "create_loop kvs [] = Some kvs"
| "create_loop kvs (i # is) = do { kvs' \<leftarrow> createDictIfNeeded kvs i; create_loop kvs' is }"

definition kvstoreCreate :: "nat \<Rightarrow> bool \<Rightarrow> bool \<Rightarrow> ('k, 'v) kvstore option" where
  "kvstoreCreate bits on_demand free_empty =
     (if \<not> bits \<le> 16 then None
      else do {
        let kvs0 = \<lparr>ALLOCATE_DICTS_ON_DEMAND = on_demand, FREE_EMPTY_DICTS = free_empty,
          kvs_dicts = replicate (2 ^ bits) None, num_dicts_bits = bits, kvs_rehashing = [],
          resize_cursor = 0, allocated_dicts = 0, non_empty_dicts = 0, key_count = 0, bucket_count = 0,
          dict_sizes = None, overhead_hashtable_rehashing = 0\<rparr>;
        kvs1 \<leftarrow> (if on_demand then Some kvs0 else create_loop kvs0 (map int [0..<2 ^ bits]));
        Some (kvs1\<lparr>kvs_rehashing := [], key_count := 0, non_empty_dicts := 0, resize_cursor := 0,
          dict_sizes := (if num_dicts kvs1 > 1 then Some (fwTreeCreate bits) else None),
          bucket_count := 0, overhead_hashtable_rehashing := 0\<rparr>)
      })"

fun empty_loop :: "('k, 'v) kvstore \<Rightarrow> int list \<Rightarrow> ('k, 'v) kvstore option" where
  "empty_loop kvs [] = Some kvs"
| "empty_loop kvs (didx # is) = do {
     od \<leftarrow> kvstoreGetDict kvs didx;
     case od of
       None \<Rightarrow> empty_loop kvs is
     | Some d \<Rightarrow> do {
         d' \<leftarrow> dictEmpty d;
         kvs' \<leftarrow> freeDictIfNeeded (kvs_update kvs didx d d') didx;
         empty_loop kvs' is
       }
   }"

text \<open>
  The C loop clears the node pointers before it empties the tables, and the list afterwards; the
  model lets the callbacks take the nodes out. The list and the counters are reset in both.
\<close>

definition kvstoreEmpty :: "('k, 'v) kvstore \<Rightarrow> ('k, 'v) kvstore option" where
  "kvstoreEmpty kvs = do {
     kvs1 \<leftarrow> empty_loop kvs (map int [0..<length (kvs_dicts kvs)]);
     Some (kvs1\<lparr>kvs_rehashing := [], key_count := 0, non_empty_dicts := 0, resize_cursor := 0,
       bucket_count := 0, dict_sizes := map_option fwTreeClear (dict_sizes kvs1),
       overhead_hashtable_rehashing := 0\<rparr>)
   }"

section \<open>Access to keys\<close>

definition kvstoreDictFetchValue ::
    "'k dictEnv \<Rightarrow> ('k, 'v) kvstore \<Rightarrow> int \<Rightarrow> 'k \<Rightarrow> (('k, 'v) kvstore \<times> 'v option) option" where
  "kvstoreDictFetchValue E kvs didx key = do {
     od \<leftarrow> kvstoreGetDict kvs didx;
     case od of
       None \<Rightarrow> Some (kvs, None)
     | Some d \<Rightarrow> do {
         (d', r) \<leftarrow> dictFetchValue E d key;
         Some (kvs_update kvs didx d d', r)
       }
   }"

definition kvstoreDictFind ::
    "'k dictEnv \<Rightarrow> ('k, 'v) kvstore \<Rightarrow> int \<Rightarrow> 'k \<Rightarrow> (('k, 'v) kvstore \<times> ('k \<times> 'v) option) option" where
  "kvstoreDictFind E kvs didx key = do {
     od \<leftarrow> kvstoreGetDict kvs didx;
     case od of
       None \<Rightarrow> Some (kvs, None)
     | Some d \<Rightarrow> do {
         (d', r) \<leftarrow> dictFind E d key;
         Some (kvs_update kvs didx d d', r)
       }
   }"

text \<open>\<^verbatim>\<open>kvstoreDictAddRaw\<close>, with the value the caller stores in the new entry.\<close>

definition kvstoreDictAddRaw ::
    "'k dictEnv \<Rightarrow> ('k, 'v) kvstore \<Rightarrow> int \<Rightarrow> 'k \<Rightarrow> 'v \<Rightarrow> (('k, 'v) kvstore \<times> bool) option" where
  "kvstoreDictAddRaw E kvs didx key val = do {
     kvs1 \<leftarrow> createDictIfNeeded kvs didx;
     od \<leftarrow> kvstoreGetDict kvs1 didx;
     d \<leftarrow> od;
     (d', existing) \<leftarrow> dictAddRaw E d key val;
     let kvs2 = kvs_update kvs1 didx d d';
     if existing = None
     then do { kvs3 \<leftarrow> cumulativeKeyCountAdd kvs2 didx 1; Some (kvs3, True) }
     else Some (kvs2, False)
   }"

definition kvstoreDictDelete ::
    "'k dictEnv \<Rightarrow> ('k, 'v) kvstore \<Rightarrow> int \<Rightarrow> 'k \<Rightarrow> (('k, 'v) kvstore \<times> bool) option" where
  "kvstoreDictDelete E kvs didx key = do {
     od \<leftarrow> kvstoreGetDict kvs didx;
     case od of
       None \<Rightarrow> Some (kvs, False)
     | Some d \<Rightarrow> do {
         (d', ret) \<leftarrow> dictDelete E d key;
         let kvs1 = kvs_update kvs didx d d';
         if ret
         then do {
           kvs2 \<leftarrow> cumulativeKeyCountAdd kvs1 didx (- 1);
           kvs3 \<leftarrow> freeDictIfNeeded kvs2 didx;
           Some (kvs3, True)
         }
         else Some (kvs1, False)
       }
   }"

definition kvstoreDictExpand ::
    "'k dictEnv \<Rightarrow> ('k, 'v) kvstore \<Rightarrow> int \<Rightarrow> nat \<Rightarrow> (('k, 'v) kvstore \<times> bool) option" where
  "kvstoreDictExpand E kvs didx sz = do {
     kvs1 \<leftarrow> createDictIfNeeded kvs didx;
     od \<leftarrow> kvstoreGetDict kvs1 didx;
     d \<leftarrow> od;
     (d', ok) \<leftarrow> dictExpand E d sz;
     Some (kvs_update kvs1 didx d d', ok)
   }"

section \<open>Search by key index\<close>

definition kvstoreFindDictIndexByKeyIndex :: "('k, 'v) kvstore \<Rightarrow> int \<Rightarrow> int option" where
  "kvstoreFindDictIndexByKeyIndex kvs target =
     (if num_dicts kvs = 1 \<or> kvstoreSize kvs = 0 then Some 0
      else if \<not> target \<le> kvstoreSize kvs then None
      else do { ft \<leftarrow> dict_sizes kvs; fwTreeFindIndex ft target })"

definition kvstoreGetFirstNonEmptyDictIndex :: "('k, 'v) kvstore \<Rightarrow> int option" where
  "kvstoreGetFirstNonEmptyDictIndex kvs =
     (if num_dicts kvs = 1 \<or> kvstoreSize kvs = 0 then Some 0
      else do { ft \<leftarrow> dict_sizes kvs; fwTreeFindFirstNonEmpty ft })"

definition kvstoreGetNextNonEmptyDictIndex :: "('k, 'v) kvstore \<Rightarrow> int \<Rightarrow> int option" where
  "kvstoreGetNextNonEmptyDictIndex kvs didx =
     (if num_dicts kvs = 1 then (if didx = 0 then Some (- 1) else None)
      else do { ft \<leftarrow> dict_sizes kvs; fwTreeFindNextNonEmpty ft didx })"

text \<open>
  \<open>rnd i\<close> is the \<open>i\<close>-th value of \<^verbatim>\<open>randomULong\<close>; \<open>skip\<close> is \<^verbatim>\<open>skip_cb\<close>, constantly false for a null
  one.
\<close>

fun fair_loop :: "('k, 'v) kvstore \<Rightarrow> (int \<Rightarrow> bool) \<Rightarrow> (nat \<Rightarrow> nat) \<Rightarrow> nat \<Rightarrow> nat \<Rightarrow> int option option" where
  "fair_loop kvs skip rnd i 0 = Some None"
| "fair_loop kvs skip rnd i (Suc attempts) = do {
     didx \<leftarrow> kvstoreFindDictIndexByKeyIndex kvs (int (rnd i) mod kvstoreSize kvs + 1);
     if \<not> skip didx then Some (Some didx) else fair_loop kvs skip rnd (Suc i) attempts
   }"

fun fallback_loop :: "('k, 'v) kvstore \<Rightarrow> (int \<Rightarrow> bool) \<Rightarrow> int list \<Rightarrow> int option" where
  "fallback_loop kvs skip [] = Some (- 1)"
| "fallback_loop kvs skip (didx # is) = do {
     d \<leftarrow> kvstoreGetDict kvs didx;
     if d \<noteq> None \<and> \<not> skip didx then Some didx else fallback_loop kvs skip is
   }"

definition kvstoreGetFairRandomDictIndex ::
    "('k, 'v) kvstore \<Rightarrow> (int \<Rightarrow> bool) \<Rightarrow> (nat \<Rightarrow> nat) \<Rightarrow> nat \<Rightarrow> bool \<Rightarrow> int option" where
  "kvstoreGetFairRandomDictIndex kvs skip rnd fair_attempts slow_fallback =
     (if num_dicts kvs = 1 \<or> kvstoreSize kvs = 0 then Some 0
      else do {
        r \<leftarrow> fair_loop kvs skip rnd 0 fair_attempts;
        case r of
          Some didx \<Rightarrow> Some didx
        | None \<Rightarrow>
            if slow_fallback
            then let start = int (rnd fair_attempts) mod num_dicts kvs
                 in fallback_loop kvs skip
                      (map (\<lambda>i. (start + int i) mod num_dicts kvs) [0..<nat (num_dicts kvs)])
            else Some (- 1)
      })"

section \<open>Scan\<close>

definition kvstoreScan ::
    "('k, 'v) kvstore \<Rightarrow> 64 word \<Rightarrow> int \<Rightarrow> (('k, 'v) dict \<Rightarrow> int \<Rightarrow> bool) \<Rightarrow>
     (('k, 'v) kvstore \<times> ('k \<times> 'v) list \<times> 64 word) option" where
  "kvstoreScan kvs cursor onlydidx skip_cb =
     (case getAndClearDictIndexFromCursor kvs cursor of (didx0, cursor0) \<Rightarrow>
      if onlydidx \<ge> 0 \<and> didx0 < onlydidx \<and> \<not> onlydidx < num_dicts kvs then None
      else if onlydidx \<ge> 0 \<and> didx0 > onlydidx then Some (kvs, [], 0)
      else
        let fwd = (onlydidx \<ge> 0 \<and> didx0 < onlydidx);
            didx = (if fwd then onlydidx else didx0); cur = (if fwd then 0 else cursor0)
        in do {
          od \<leftarrow> kvstoreGetDict kvs didx;
          let skip = (case od of None \<Rightarrow> True | Some d \<Rightarrow> skip_cb d didx);
          (kvs1, es, cur1) \<leftarrow>
            (if skip then Some (kvs, [], 0)
             else do {
               d \<leftarrow> od;
               (es, c) \<leftarrow> dictScan d cur;
               kvs1 \<leftarrow> freeDictIfNeeded kvs didx;
               Some (kvs1, es, c)
             });
          if cur1 = 0 \<or> skip
          then (if onlydidx \<ge> 0 then Some (kvs1, es, 0)
                else do {
                  nxt \<leftarrow> kvstoreGetNextNonEmptyDictIndex kvs1 didx;
                  Some (kvs1, es, if nxt = - 1 then 0 else addDictIndexToCursor kvs1 nxt cur1)
                })
          else Some (kvs1, es, if didx = - 1 then 0 else addDictIndexToCursor kvs1 didx cur1)
        })"

section \<open>Background resizing\<close>

fun expand_loop ::
    "'k dictEnv \<Rightarrow> (int \<Rightarrow> bool) \<Rightarrow> (int \<Rightarrow> bool) option \<Rightarrow> nat \<Rightarrow> ('k, 'v) kvstore \<Rightarrow> int list \<Rightarrow>
     (('k, 'v) kvstore \<times> bool) option" where
  \<comment> \<open>the third argument is \<open>None\<close> without \<^verbatim>\<open>try_expand\<close>, and otherwise tells for which table there is memory\<close>
  "expand_loop E skip mem sz kvs [] = Some (kvs, True)"
| "expand_loop E skip mem sz kvs (i # is) = do {
     od \<leftarrow> kvstoreGetDict kvs i;
     case od of
       None \<Rightarrow> expand_loop E skip mem sz kvs is
     | Some d \<Rightarrow>
         if skip i then expand_loop E skip mem sz kvs is
         else do {
           (d', ok) \<leftarrow> (case mem of None \<Rightarrow> dictExpand E d sz | Some m \<Rightarrow> dictTryExpand (m i) E d sz);
           let kvs' = kvs_update kvs i d d';
           if mem \<noteq> None \<and> \<not> ok then Some (kvs', False) else expand_loop E skip mem sz kvs' is
         }
   }"

definition kvstoreExpand ::
    "'k dictEnv \<Rightarrow> ('k, 'v) kvstore \<Rightarrow> nat \<Rightarrow> (int \<Rightarrow> bool) option \<Rightarrow> (int \<Rightarrow> bool) \<Rightarrow>
     (('k, 'v) kvstore \<times> bool) option" where
  "kvstoreExpand E kvs newsize mem skip =
     expand_loop E skip mem newsize kvs (map int [0..<length (kvs_dicts kvs)])"

fun resize_loop :: "'k dictEnv \<Rightarrow> ('k, 'v) kvstore \<Rightarrow> nat \<Rightarrow> ('k, 'v) kvstore option" where
  "resize_loop E kvs 0 = Some kvs"
| "resize_loop E kvs (Suc limit) = do {
     let didx = resize_cursor kvs;
     od \<leftarrow> kvstoreGetDict kvs didx;
     kvs' \<leftarrow> (case od of
       None \<Rightarrow> Some kvs
     | Some d \<Rightarrow> do {
         (d1, ok) \<leftarrow> dictShrinkIfNeeded E d;
         d2 \<leftarrow> (if ok then Some d1 else map_option fst (dictExpandIfNeeded E d1));
         Some (kvs_update kvs didx d d2)
       });
     resize_loop E (kvs'\<lparr>resize_cursor := (didx + 1) mod num_dicts kvs'\<rparr>) limit
   }"

definition kvstoreTryResizeDicts :: "'k dictEnv \<Rightarrow> ('k, 'v) kvstore \<Rightarrow> int \<Rightarrow> ('k, 'v) kvstore option" where
  "kvstoreTryResizeDicts E kvs limit =
     resize_loop E kvs (nat (if limit > num_dicts kvs then num_dicts kvs else limit))"

section \<open>Moving a table between stores\<close>

definition kvstoreMoveDict ::
    "('k, 'v) kvstore \<Rightarrow> ('k, 'v) kvstore \<Rightarrow> int \<Rightarrow> (('k, 'v) kvstore \<times> ('k, 'v) kvstore) option" where
  "kvstoreMoveDict kvs dst didx =
     (if \<not> num_dicts kvs > didx \<or> num_dicts kvs \<noteq> num_dicts dst \<or> kvstoreGetDict dst didx \<noteq> Some None
      then None
      else do {
        od \<leftarrow> kvstoreGetDict kvs didx;
        case od of
          None \<Rightarrow> Some (kvs, dst)
        | Some d \<Rightarrow> do {
            let from = DICTHT_SIZE (ht_size_exp (d_ht0 d));
            k1 \<leftarrow> cumulativeKeyCountAdd (kvs\<lparr>allocated_dicts := allocated_dicts kvs - 1\<rparr>) didx (- int (dictSize d));
            let k2 = kvstoreDictBucketChanged k1 (- int (dictBuckets d));
            let k3 = (if dictIsRehashing d then kvstoreDictRehashingCompleted k2 didx from else k2);
            let k4 = kvs_set_dict k3 didx None;
            k5 \<leftarrow> (if \<not> (ALLOCATE_DICTS_ON_DEMAND k4 \<or> FREE_EMPTY_DICTS k4)
                   then createDictIfNeeded k4 didx else Some k4);
            let t1 = (kvs_set_dict dst didx (Some d))\<lparr>allocated_dicts := allocated_dicts dst + 1\<rparr>;
            t2 \<leftarrow> cumulativeKeyCountAdd t1 didx (int (dictSize d));
            let t3 = kvstoreDictBucketChanged t2 (int (dictBuckets d));
            Some (k5, if dictIsRehashing d then kvstoreDictRehashingStarted t3 didx from else t3)
          }
      })"

section \<open>Iteration over the tables\<close>

record kvstoreIterator =
  it_didx :: int
  it_next_didx :: int

definition kvstoreIteratorInit :: "('k, 'v) kvstore \<Rightarrow> kvstoreIterator option" where
  "kvstoreIteratorInit kvs = do {
     nxt \<leftarrow> kvstoreGetFirstNonEmptyDictIndex kvs;
     Some \<lparr>it_didx = - 1, it_next_didx = nxt\<rparr>
   }"

text \<open>
  The reset of the per-table iterator is left to \<^verbatim>\<open>dict.c\<close>; the store and the index of the next table
  are what the function is about.
\<close>

definition kvstoreIteratorNextDict ::
    "('k, 'v) kvstore \<Rightarrow> kvstoreIterator \<Rightarrow>
     (('k, 'v) kvstore \<times> kvstoreIterator \<times> ('k, 'v) dict option) option" where
  "kvstoreIteratorNextDict kvs it =
     (if it_next_didx it = - 1 then Some (kvs, it, None)
      else do {
        kvs1 \<leftarrow> (if it_didx it \<noteq> - 1
                 then do {
                   od \<leftarrow> kvstoreGetDict kvs (it_didx it);
                   if od \<noteq> None then freeDictIfNeeded kvs (it_didx it) else Some kvs
                 }
                 else Some kvs);
        nxt \<leftarrow> kvstoreGetNextNonEmptyDictIndex kvs1 (it_next_didx it);
        d \<leftarrow> kvstoreGetDict kvs1 (it_next_didx it);
        Some (kvs1, \<lparr>it_didx = it_next_didx it, it_next_didx = nxt\<rparr>, d)
      })"

definition kvstoreIteratorRelease ::
    "('k, 'v) kvstore \<Rightarrow> kvstoreIterator \<Rightarrow> ('k, 'v) kvstore option" where
  "kvstoreIteratorRelease kvs it = freeDictIfNeeded kvs (it_didx it)"

end
