(* ===== verification/Kvstore_Inv.thy ===== *)
theory Kvstore_Inv
  imports Kvstore
begin

text \<open>
  The invariant of the key-value store: its tables are well formed and every counter, the Fenwick
  tree and the list of rehashing tables agree with them. Every operation keeps it.
\<close>

section \<open>What the counters have to say\<close>

definition osize :: "('k, 'v) dict option \<Rightarrow> int" where
  "osize od = (case od of None \<Rightarrow> 0 | Some d \<Rightarrow> int (dictSize d))"

definition obuckets :: "('k, 'v) dict option \<Rightarrow> int" where
  "obuckets od = (case od of None \<Rightarrow> 0 | Some d \<Rightarrow> int (dictBuckets d))"

definition dict_overhead :: "('k, 'v) dict \<Rightarrow> int" where
  "dict_overhead d = (if dictIsRehashing d then int (DICTHT_SIZE (ht_size_exp (d_ht0 d))) else 0)"

definition ooverhead :: "('k, 'v) dict option \<Rightarrow> int" where
  "ooverhead od = (case od of None \<Rightarrow> 0 | Some d \<Rightarrow> dict_overhead d)"

definition orehashing :: "('k, 'v) dict option \<Rightarrow> bool" where
  "orehashing od = (case od of None \<Rightarrow> False | Some d \<Rightarrow> dictIsRehashing d)"

lemmas odefs = osize_def obuckets_def ooverhead_def orehashing_def

lemma o_None [simp]: "osize None = 0" "obuckets None = 0" "ooverhead None = 0" "\<not> orehashing None"
  by (simp_all add: odefs)

lemma o_Some [simp]: "osize (Some d) = int (dictSize d)" "obuckets (Some d) = int (dictBuckets d)"
  "ooverhead (Some d) = dict_overhead d" "orehashing (Some d) = dictIsRehashing d"
  by (simp_all add: odefs)

definition kvs_sizes :: "('k, 'v) kvstore \<Rightarrow> int list" where
  "kvs_sizes kvs = map osize (kvs_dicts kvs)"

text \<open>The part the callbacks and the allocation maintain.\<close>

definition kvs_base_wf :: "'k dictEnv \<Rightarrow> ('k, 'v) kvstore \<Rightarrow> bool" where
  "kvs_base_wf E kvs \<longleftrightarrow>
     num_dicts_bits kvs \<le> 16 \<and> length (kvs_dicts kvs) = 2 ^ num_dicts_bits kvs \<and>
     (\<forall>d. Some d \<in> set (kvs_dicts kvs) \<longrightarrow> dict_wf E d \<and> can_grow d) \<and>
     allocated_dicts kvs = sum_list (map (\<lambda>od. if od = None then 0 else 1) (kvs_dicts kvs)) \<and>
     bucket_count kvs = sum_list (map obuckets (kvs_dicts kvs)) mod 2 ^ 64 \<and>
     overhead_hashtable_rehashing kvs = sum_list (map ooverhead (kvs_dicts kvs)) mod 2 ^ 64 \<and>
     distinct (kvs_rehashing kvs) \<and>
     set (kvs_rehashing kvs) = {int i | i. i < length (kvs_dicts kvs) \<and> orehashing (kvs_dicts kvs ! i)} \<and>
     0 \<le> resize_cursor kvs \<and> resize_cursor kvs < num_dicts kvs"

text \<open>The part \<open>cumulativeKeyCountAdd\<close> maintains, for the sizes \<open>a\<close>.\<close>

definition count_wf :: "int list \<Rightarrow> ('k, 'v) kvstore \<Rightarrow> bool" where
  "count_wf a kvs \<longleftrightarrow> key_count kvs = sum_list a \<and> sum_list a < UINT64_MAX \<and>
     non_empty_dicts kvs = sum_list (map (\<lambda>n. if n = 0 then 0 else 1) a) \<and>
     (case dict_sizes kvs of None \<Rightarrow> num_dicts_bits kvs = 0
      | Some ft \<Rightarrow> num_dicts_bits kvs \<noteq> 0 \<and> fw_rep a ft)"

definition kvs_wf :: "'k dictEnv \<Rightarrow> ('k, 'v) kvstore \<Rightarrow> bool" where
  "kvs_wf E kvs \<longleftrightarrow> kvs_base_wf E kvs \<and> count_wf (kvs_sizes kvs) kvs"

definition kvs_map :: "('k, 'v) kvstore \<Rightarrow> int \<Rightarrow> 'k \<rightharpoonup> 'v" where
  "kvs_map kvs didx =
     (case kvstoreGetDict kvs didx of Some (Some d) \<Rightarrow> dict_map d | _ \<Rightarrow> Map.empty)"

section \<open>Sums over an updated list\<close>

lemma sum_list_update_int:
  fixes f :: "'a \<Rightarrow> int"
  assumes "i < length xs"
  shows "sum_list (map f (xs[i := x])) = sum_list (map f xs) + f x - f (xs ! i)"
  using assms by (induction xs arbitrary: i) (auto split: nat.split)

lemma index_set_update:
  assumes "i < length xs"
  shows "{int j | j. j < length (xs[i := x]) \<and> P (xs[i := x] ! j)} =
    (if P x then insert (int i) {int j | j. j < length xs \<and> P (xs ! j)}
     else {int j | j. j < length xs \<and> P (xs ! j)} - {int i})"
  using assms by (auto simp: nth_list_update)

section \<open>Callbacks\<close>

text \<open>The fields no callback touches.\<close>

definition same_counts :: "('k, 'v) kvstore \<Rightarrow> ('k, 'v) kvstore \<Rightarrow> bool" where
  "same_counts kvs kvs' \<longleftrightarrow> ALLOCATE_DICTS_ON_DEMAND kvs' = ALLOCATE_DICTS_ON_DEMAND kvs \<and>
     FREE_EMPTY_DICTS kvs' = FREE_EMPTY_DICTS kvs \<and> num_dicts_bits kvs' = num_dicts_bits kvs \<and>
     resize_cursor kvs' = resize_cursor kvs \<and> non_empty_dicts kvs' = non_empty_dicts kvs \<and>
     key_count kvs' = key_count kvs \<and> dict_sizes kvs' = dict_sizes kvs"

lemma same_counts_refl [simp]: "same_counts kvs kvs"
  by (simp add: same_counts_def)

lemma same_counts_trans: "same_counts a b \<Longrightarrow> same_counts b c \<Longrightarrow> same_counts a c"
  by (simp add: same_counts_def)

lemma same_counts_wf: "same_counts kvs kvs' \<Longrightarrow> count_wf a kvs' = count_wf a kvs"
  by (simp add: same_counts_def count_wf_def cong: option.case_cong)

lemma same_counts_num_dicts: "same_counts kvs kvs' \<Longrightarrow> num_dicts kvs' = num_dicts kvs"
  by (simp add: same_counts_def num_dicts_def)

lemma events_fold:
  "foldl event_bracket (Some b) es = Some b' \<Longrightarrow> distinct (kvs_rehashing kvs) \<Longrightarrow>
   didx \<in> set (kvs_rehashing kvs) \<longleftrightarrow> b \<Longrightarrow>
   0 \<le> bucket_count kvs \<Longrightarrow> bucket_count kvs < 2 ^ 64 \<Longrightarrow>
   0 \<le> overhead_hashtable_rehashing kvs \<Longrightarrow> overhead_hashtable_rehashing kvs < 2 ^ 64 \<Longrightarrow>
   kvs' = foldl (kvs_event didx) kvs es \<Longrightarrow>
   same_counts kvs kvs' \<and> kvs_dicts kvs' = kvs_dicts kvs \<and> allocated_dicts kvs' = allocated_dicts kvs \<and>
   bucket_count kvs' = (bucket_count kvs + sum_list (map event_buckets es)) mod 2 ^ 64 \<and>
   overhead_hashtable_rehashing kvs' =
     (overhead_hashtable_rehashing kvs + sum_list (map event_overhead es)) mod 2 ^ 64 \<and>
   distinct (kvs_rehashing kvs') \<and>
   set (kvs_rehashing kvs') = (if b' then insert didx (set (kvs_rehashing kvs)) else set (kvs_rehashing kvs) - {didx})"
proof (induction es arbitrary: kvs b)
  case Nil
  then show ?case by (auto simp: same_counts_def)
next
  case (Cons e es)
  have "event_bracket None e = None" for e by (cases e) simp_all
  then have none: "foldl event_bracket None es = None" for es by (induction es) simp_all
  obtain b1 where b1: "event_bracket (Some b) e = Some b1" "foldl event_bracket (Some b1) es = Some b'"
    using Cons.prems(1) none by (cases "event_bracket (Some b) e") auto
  let ?k = "kvs_event didx kvs e"
  have sc: "same_counts kvs ?k" "kvs_dicts ?k = kvs_dicts kvs" "allocated_dicts ?k = allocated_dicts kvs"
    "bucket_count ?k = (bucket_count kvs + event_buckets e) mod 2 ^ 64"
    "overhead_hashtable_rehashing ?k = (overhead_hashtable_rehashing kvs + event_overhead e) mod 2 ^ 64"
    using Cons.prems(4-7)
    by (cases e; simp add: same_counts_def kvstoreDictRehashingStarted_def kvstoreDictRehashingCompleted_def
        kvstoreDictBucketChanged_def)+
  have rh: "distinct (kvs_rehashing ?k)" "didx \<in> set (kvs_rehashing ?k) \<longleftrightarrow> b1"
    "set (kvs_rehashing ?k) - {didx} = set (kvs_rehashing kvs) - {didx}"
    using Cons.prems(2,3) b1(1)
    by (cases b; cases e; auto simp: kvstoreDictRehashingStarted_def kvstoreDictRehashingCompleted_def
        kvstoreDictBucketChanged_def)+
  have "same_counts ?k kvs' \<and> kvs_dicts kvs' = kvs_dicts ?k \<and> allocated_dicts kvs' = allocated_dicts ?k \<and>
   bucket_count kvs' = (bucket_count ?k + sum_list (map event_buckets es)) mod 2 ^ 64 \<and>
   overhead_hashtable_rehashing kvs' =
     (overhead_hashtable_rehashing ?k + sum_list (map event_overhead es)) mod 2 ^ 64 \<and>
   distinct (kvs_rehashing kvs') \<and>
   set (kvs_rehashing kvs') = (if b' then insert didx (set (kvs_rehashing ?k)) else set (kvs_rehashing ?k) - {didx})"
    by (rule Cons.IH [OF b1(2) rh(1,2)]) (use sc(4,5) Cons.prems(8) in \<open>simp_all\<close>)
  then show ?case
    using sc rh(3) same_counts_trans [OF sc(1)] by (auto simp: mod_simps add.assoc)
qed

text \<open>The new events of a table account for the change of its buckets and of its rehashing state.\<close>

lemma new_events_account:
  assumes w: "dict_wf E d" and w': "dict_wf E' d'" and t: "trace_ext d d'"
  shows "sum_list (map event_buckets (new_events d d')) = int (dictBuckets d') - int (dictBuckets d)"
    and "sum_list (map event_overhead (new_events d d')) = dict_overhead d' - dict_overhead d"
    and "foldl event_bracket (Some (dictIsRehashing d)) (new_events d d') = Some (dictIsRehashing d')"
proof -
  obtain es where es: "d_trace d' = d_trace d @ es" using t by (auto simp: trace_ext_def)
  have n: "new_events d d' = es" by (simp add: new_events_def es)
  have t: "trace_ok d" "trace_ok d'" using w w' by (simp_all add: dict_wf_def)
  show "sum_list (map event_buckets (new_events d d')) = int (dictBuckets d') - int (dictBuckets d)"
    "sum_list (map event_overhead (new_events d d')) = dict_overhead d' - dict_overhead d"
    "foldl event_bracket (Some (dictIsRehashing d)) (new_events d d') = Some (dictIsRehashing d')"
    using t unfolding n trace_ok_def dict_overhead_def es by simp_all
qed

lemma getDict_Some:
  "kvstoreGetDict kvs didx = Some od \<longleftrightarrow>
   0 \<le> didx \<and> nat didx < length (kvs_dicts kvs) \<and> kvs_dicts kvs ! nat didx = od"
  by (auto simp: kvstoreGetDict_def nat_less_iff)

lemma base_wf_dict:
  assumes "kvs_base_wf E kvs" and "kvstoreGetDict kvs didx = Some (Some d)"
  shows "dict_wf E d" and "can_grow d"
proof -
  have "Some d \<in> set (kvs_dicts kvs)" using assms(2) by (auto simp: getDict_Some in_set_conv_nth)
  then show "dict_wf E d" "can_grow d" using assms(1) by (simp_all add: kvs_base_wf_def)
qed

text \<open>Replacing a table by what an operation made of it.\<close>

lemma kvs_update_ok:
  assumes wf: "kvs_base_wf E kvs" and g: "kvstoreGetDict kvs didx = Some (Some d)"
    and w': "dict_wf E d'" and c': "can_grow d'" and t: "trace_ext d d'"
    and k': "kvs' = kvs_update kvs didx d d'"
  shows "kvs_base_wf E kvs'" and "same_counts kvs kvs'"
    and "kvs_dicts kvs' = (kvs_dicts kvs)[nat didx := Some d']" and "allocated_dicts kvs' = allocated_dicts kvs"
proof -
  note w = base_wf_dict(1) [OF wf g]
  have i: "0 \<le> didx" "nat didx < length (kvs_dicts kvs)" "kvs_dicts kvs ! nat didx = Some d"
    using g by (simp_all add: getDict_Some)
  note ev = new_events_account [OF w w' t]
  let ?k = "kvs_set_dict kvs didx (Some d')"
  have k: "kvs_rehashing ?k = kvs_rehashing kvs" "bucket_count ?k = bucket_count kvs"
    "overhead_hashtable_rehashing ?k = overhead_hashtable_rehashing kvs" "allocated_dicts ?k = allocated_dicts kvs"
    "kvs_dicts ?k = (kvs_dicts kvs)[nat didx := Some d']" "same_counts kvs ?k"
    by (simp_all add: kvs_set_dict_def same_counts_def)
  have di: "int (nat didx) = didx" using i(1) by simp
  have s: "set (kvs_rehashing kvs) = {int j | j. j < length (kvs_dicts kvs) \<and> orehashing (kvs_dicts kvs ! j)}"
    using wf by (simp add: kvs_base_wf_def)
  have r0: "distinct (kvs_rehashing kvs)" "didx \<in> set (kvs_rehashing kvs) \<longleftrightarrow> dictIsRehashing d"
    using wf i(2,3) di unfolding s by (auto simp: kvs_base_wf_def intro!: exI [of _ "nat didx"])
  have b0: "0 \<le> bucket_count kvs" "bucket_count kvs < 2 ^ 64" "0 \<le> overhead_hashtable_rehashing kvs"
    "overhead_hashtable_rehashing kvs < 2 ^ 64"
    using wf by (simp_all add: kvs_base_wf_def)
  have f: "same_counts ?k kvs' \<and> kvs_dicts kvs' = kvs_dicts ?k \<and> allocated_dicts kvs' = allocated_dicts ?k \<and>
    bucket_count kvs' = (bucket_count ?k + (int (dictBuckets d') - int (dictBuckets d))) mod 2 ^ 64 \<and>
    overhead_hashtable_rehashing kvs' =
      (overhead_hashtable_rehashing ?k + (dict_overhead d' - dict_overhead d)) mod 2 ^ 64 \<and>
    distinct (kvs_rehashing kvs') \<and>
    set (kvs_rehashing kvs') = (if dictIsRehashing d' then insert didx (set (kvs_rehashing ?k))
      else set (kvs_rehashing ?k) - {didx})"
    using events_fold [OF ev(3), of ?k didx kvs'] r0 b0 k ev(1,2) k' by (simp add: kvs_update_def)
  then show ds: "kvs_dicts kvs' = (kvs_dicts kvs)[nat didx := Some d']"
    and al: "allocated_dicts kvs' = allocated_dicts kvs" and sc: "same_counts kvs kvs'"
    using k same_counts_trans [OF k(6)] by simp_all
  have "set (kvs_rehashing kvs') = {int j | j. j < length (kvs_dicts kvs') \<and> orehashing (kvs_dicts kvs' ! j)}"
    using f index_set_update [OF i(2), of "Some d'" orehashing] s k(1) ds di by simp
  moreover have "dict_wf E x \<and> can_grow x" if "Some x \<in> set (kvs_dicts kvs')" for x
    using that ds w' c' wf set_update_subset_insert [of "kvs_dicts kvs" "nat didx" "Some d'"]
    by (auto simp: kvs_base_wf_def)
  moreover have "allocated_dicts kvs' = sum_list (map (\<lambda>od. if od = None then 0 else 1) (kvs_dicts kvs'))"
    using wf al ds i by (simp add: sum_list_update_int kvs_base_wf_def)
  moreover have "bucket_count kvs' = sum_list (map obuckets (kvs_dicts kvs')) mod 2 ^ 64"
  proof -
    have "bucket_count kvs' =
        (sum_list (map obuckets (kvs_dicts kvs)) mod 2 ^ 64 + (int (dictBuckets d') - int (dictBuckets d))) mod 2 ^ 64"
      using wf f k by (simp add: kvs_base_wf_def)
    also have "\<dots> = (sum_list (map obuckets (kvs_dicts kvs)) + (int (dictBuckets d') - int (dictBuckets d))) mod 2 ^ 64"
      by (rule mod_add_left_eq)
    finally show ?thesis using ds i by (simp add: sum_list_update_int add_diff_eq)
  qed
  moreover have "overhead_hashtable_rehashing kvs' = sum_list (map ooverhead (kvs_dicts kvs')) mod 2 ^ 64"
  proof -
    have "overhead_hashtable_rehashing kvs' =
        (sum_list (map ooverhead (kvs_dicts kvs)) mod 2 ^ 64 + (dict_overhead d' - dict_overhead d)) mod 2 ^ 64"
      using wf f k by (simp add: kvs_base_wf_def)
    also have "\<dots> = (sum_list (map ooverhead (kvs_dicts kvs)) + (dict_overhead d' - dict_overhead d)) mod 2 ^ 64"
      by (rule mod_add_left_eq)
    finally show ?thesis using ds i by (simp add: sum_list_update_int add_diff_eq)
  qed
  moreover have "distinct (kvs_rehashing kvs')" using f by blast
  moreover have "length (kvs_dicts kvs') = 2 ^ num_dicts_bits kvs'" "num_dicts_bits kvs' \<le> 16"
    "0 \<le> resize_cursor kvs'" "resize_cursor kvs' < num_dicts kvs'"
    using wf sc ds by (simp_all add: kvs_base_wf_def same_counts_def num_dicts_def)
  ultimately show "kvs_base_wf E kvs'" unfolding kvs_base_wf_def by blast
qed

section \<open>Accounting\<close>

text \<open>
  The sizes were \<open>a\<close> when the counters were last right; the table at \<open>didx\<close> has since gained or lost
  one key.
\<close>

lemma cumulative_ok:
  assumes wf: "kvs_base_wf E kvs" and g: "kvstoreGetDict kvs didx = Some (Some d)"
    and c: "count_wf a kvs" and sz: "kvs_sizes kvs = a[nat didx := int (dictSize d)]" and len: "length a = length (kvs_dicts kvs)"
    and delta: "int (dictSize d) = a ! nat didx + delta" "delta = 1 \<or> delta = - 1"
    and nn: "0 \<le> a ! nat didx" and room: "sum_list a + delta < UINT64_MAX" and nn2: "0 \<le> sum_list a + delta"
  shows "\<exists>kvs'. cumulativeKeyCountAdd kvs didx delta = Some kvs' \<and> kvs_wf E kvs' \<and>
    kvs_dicts kvs' = kvs_dicts kvs \<and> FREE_EMPTY_DICTS kvs' = FREE_EMPTY_DICTS kvs \<and>
    num_dicts_bits kvs' = num_dicts_bits kvs"
proof -
  let ?i = "nat didx" and ?n = "int (dictSize d)"
  have i: "0 \<le> didx" "?i < length a" using g len by (simp_all add: getDict_Some)
  define ne where "ne = (if dictSize d = 1 \<and> delta > 0 then 1 else if dictSize d = 0 then - 1 else 0 :: int)"
  have sum: "sum_list (a[?i := ?n]) = sum_list a + delta"
    using sum_list_update_int [OF i(2), of "\<lambda>x. x" ?n] delta by simp
  have ne_sum: "sum_list (map (\<lambda>n. if n = 0 then 0 else 1) (a[?i := ?n])) =
      sum_list (map (\<lambda>n. if n = 0 then 0 else 1 :: int) a) + ne"
    using sum_list_update_int [OF i(2), of "\<lambda>n. if n = 0 then 0 else 1" ?n] delta nn
    by (auto simp: ne_def)
  have kc: "(key_count kvs + delta) mod 2 ^ 64 = sum_list a + delta"
    using c nn2 room by (simp add: count_wf_def)
  define k1 where "k1 = kvs\<lparr>key_count := (key_count kvs + delta) mod 2 ^ 64,
    non_empty_dicts := non_empty_dicts kvs + ne\<rparr>"
  have base: "kvs_base_wf E (k1\<lparr>dict_sizes := x\<rparr>)" "kvs_base_wf E k1" for x
    using wf by (simp_all add: kvs_base_wf_def k1_def num_dicts_def)
  show ?thesis
  proof (cases "dict_sizes kvs")
    case None
    then have b0: "num_dicts_bits kvs = 0" using c by (simp add: count_wf_def)
    have "cumulativeKeyCountAdd kvs didx delta = Some k1"
      using g b0 by (simp add: cumulativeKeyCountAdd_def k1_def ne_def num_dicts_def Let_def)
    moreover have "count_wf (kvs_sizes k1) k1"
      using c kc sum ne_sum room None sz b0 by (simp add: count_wf_def k1_def kvs_sizes_def)
    ultimately show ?thesis using base by (simp add: kvs_wf_def k1_def)
  next
    case (Some ft)
    then have b0: "num_dicts_bits kvs \<noteq> 0" and rep: "fw_rep a ft" using c by (simp_all add: count_wf_def)
    have "didx < ft_size ft" using fw_repD(2) [OF rep] i by linarith
    moreover have "0 \<le> a ! ?i + delta" using delta(1) by linarith
    ultimately obtain ft' where ft': "fwTreeUpdate ft didx delta = Some ft'"
      "fw_rep (a[?i := a ! ?i + delta]) ft'"
      using fwTreeUpdate_correct [OF rep i(1) _ _ room] by blast
    have nd: "num_dicts kvs \<noteq> 1" using b0 one_less_power [of "2 :: int" "num_dicts_bits kvs"]
      unfolding num_dicts_def by linarith
    have "cumulativeKeyCountAdd kvs didx delta = Some (k1\<lparr>dict_sizes := Some ft'\<rparr>)"
      using g nd Some ft'(1) by (simp add: cumulativeKeyCountAdd_def k1_def ne_def num_dicts_def Let_def)
    moreover have "count_wf (kvs_sizes (k1\<lparr>dict_sizes := Some ft'\<rparr>)) (k1\<lparr>dict_sizes := Some ft'\<rparr>)"
      using c kc sum ne_sum room sz b0 ft'(2) delta(1) by (simp add: count_wf_def k1_def kvs_sizes_def)
    ultimately show ?thesis using base by (simp add: kvs_wf_def k1_def)
  qed
qed


section \<open>Creating and freeing tables\<close>

text \<open>Replacing a null table by an empty one, or an empty one by null, changes no size and no map.\<close>

definition same_content :: "('k, 'v) kvstore \<Rightarrow> ('k, 'v) kvstore \<Rightarrow> bool" where
  "same_content kvs kvs' \<longleftrightarrow> kvs_sizes kvs' = kvs_sizes kvs \<and> kvs_map kvs' = kvs_map kvs \<and>
     length (kvs_dicts kvs') = length (kvs_dicts kvs)"

lemma kvs_map_set:
  assumes "0 \<le> didx" "nat didx < length (kvs_dicts kvs)" "kvs_dicts kvs' = (kvs_dicts kvs)[nat didx := od]"
  shows "kvs_map kvs' = (kvs_map kvs)(didx := case od of None \<Rightarrow> Map.empty | Some d \<Rightarrow> dict_map d)"
proof
  fix j
  show "kvs_map kvs' j = ((kvs_map kvs)(didx := case od of None \<Rightarrow> Map.empty | Some d \<Rightarrow> dict_map d)) j"
    using assms by (cases "j = didx") (auto simp: kvs_map_def kvstoreGetDict_def nat_less_iff split: option.split)
qed

lemma same_content_set:
  assumes "0 \<le> didx" "nat didx < length (kvs_dicts kvs)" "kvs_dicts kvs' = (kvs_dicts kvs)[nat didx := od]"
    and "osize od = osize (kvs_dicts kvs ! nat didx)"
    and "(case od of None \<Rightarrow> Map.empty | Some d \<Rightarrow> dict_map d) = kvs_map kvs didx"
  shows "same_content kvs kvs'"
proof -
  have "kvs_map kvs' = kvs_map kvs" using kvs_map_set [OF assms(1-3)] assms(5) by auto
  moreover have "kvs_sizes kvs' = kvs_sizes kvs"
    using assms(2-4) by (auto simp: kvs_sizes_def map_update list_update_same_conv)
  ultimately show ?thesis using assms(3) by (simp add: same_content_def)
qed

lemma dict_create_zero [simp]:
  "dictSize dictCreate = 0" "dictBuckets dictCreate = 0" "dict_overhead dictCreate = 0" "\<not> dictIsRehashing dictCreate"
  by (simp_all add: dictCreate_def dictSize_def dictBuckets_def dict_overhead_def dictIsRehashing_def
      dictReset_ht_def DICTHT_SIZE_def)

lemma can_grow_create [simp]: "can_grow dictCreate"
  by (simp add: can_grow_def dictCreate_def)

lemma base_wf_set:
  assumes wf: "kvs_base_wf E kvs" and i: "i < length (kvs_dicts kvs)"
    and ds: "kvs_dicts kvs' = (kvs_dicts kvs)[i := od]" and sc: "same_counts kvs kvs'"
    and al: "allocated_dicts kvs' = allocated_dicts kvs + (if od = None then 0 else 1) - (if kvs_dicts kvs ! i = None then 0 else 1)"
    and rest: "bucket_count kvs' = bucket_count kvs"
      "overhead_hashtable_rehashing kvs' = overhead_hashtable_rehashing kvs" "kvs_rehashing kvs' = kvs_rehashing kvs"
    and z: "obuckets od = obuckets (kvs_dicts kvs ! i)" "ooverhead od = ooverhead (kvs_dicts kvs ! i)"
      "orehashing od = orehashing (kvs_dicts kvs ! i)"
    and ok: "\<And>d. od = Some d \<Longrightarrow> dict_wf E d \<and> can_grow d"
  shows "kvs_base_wf E kvs'"
proof -
  have "dict_wf E x \<and> can_grow x" if "Some x \<in> set (kvs_dicts kvs')" for x
    using that ds ok wf set_update_subset_insert [of "kvs_dicts kvs" i od] by (auto simp: kvs_base_wf_def)
  moreover have "map orehashing (kvs_dicts kvs') = map orehashing (kvs_dicts kvs)"
    "map obuckets (kvs_dicts kvs') = map obuckets (kvs_dicts kvs)"
    "map ooverhead (kvs_dicts kvs') = map ooverhead (kvs_dicts kvs)"
    using ds z i by (simp_all add: map_update list_update_same_conv)
  moreover have "orehashing (kvs_dicts kvs' ! j) = orehashing (kvs_dicts kvs ! j)" if "j < length (kvs_dicts kvs)" for j
    using ds z(3) i that by (simp add: nth_list_update)
  moreover have "sum_list (map (\<lambda>od. if od = None then 0 else 1) (kvs_dicts kvs')) = allocated_dicts kvs'"
    using wf al ds i by (simp add: sum_list_update_int kvs_base_wf_def)
  ultimately show ?thesis
    using wf sc rest ds unfolding kvs_base_wf_def same_counts_def num_dicts_def by (simp cong: conj_cong)
qed

definition same_callbacks :: "('k, 'v) kvstore \<Rightarrow> ('k, 'v) kvstore \<Rightarrow> bool" where
  "same_callbacks kvs kvs' \<longleftrightarrow> kvs_rehashing kvs' = kvs_rehashing kvs \<and> bucket_count kvs' = bucket_count kvs \<and>
     overhead_hashtable_rehashing kvs' = overhead_hashtable_rehashing kvs"

lemma create_ok:
  assumes wf: "kvs_base_wf E kvs" and i: "0 \<le> didx" "didx < num_dicts kvs"
  shows "\<exists>kvs' d. createDictIfNeeded kvs didx = Some kvs' \<and> kvs_base_wf E kvs' \<and> same_counts kvs kvs' \<and>
    same_content kvs kvs' \<and> same_callbacks kvs kvs' \<and> kvstoreGetDict kvs' didx = Some (Some d)"
proof -
  have len: "nat didx < length (kvs_dicts kvs)" using wf i by (simp add: kvs_base_wf_def num_dicts_def nat_less_iff)
  have g: "kvstoreGetDict kvs didx = Some (kvs_dicts kvs ! nat didx)" using i len by (simp add: getDict_Some)
  show ?thesis
  proof (cases "kvs_dicts kvs ! nat didx")
    case (Some d)
    then show ?thesis using g wf by (simp add: createDictIfNeeded_def same_content_def same_callbacks_def)
  next
    case None
    define k where "k = (kvs_set_dict kvs didx (Some dictCreate))\<lparr>allocated_dicts := allocated_dicts kvs + 1\<rparr>"
    have kd: "kvs_dicts k = (kvs_dicts kvs)[nat didx := Some dictCreate]" "same_counts kvs k"
      by (simp_all add: k_def kvs_set_dict_def same_counts_def)
    have "kvs_base_wf E k"
      by (rule base_wf_set [OF wf len kd])
        (use None in \<open>auto simp: k_def kvs_set_dict_def dict_wf_create\<close>)
    moreover have "same_content kvs k"
      by (rule same_content_set [OF i(1) len kd(1)]) (use None g in \<open>simp_all add: kvs_map_def dict_map_create\<close>)
    moreover have "kvstoreGetDict k didx = Some (Some dictCreate)" using kd(1) len i(1) by (simp add: getDict_Some)
    moreover have "createDictIfNeeded kvs didx = Some k" using g None by (simp add: createDictIfNeeded_def k_def)
    moreover have "same_callbacks kvs k" by (simp add: same_callbacks_def k_def kvs_set_dict_def)
    ultimately show ?thesis using kd(2) by blast
  qed
qed


lemma event_keeps_dicts:
  "foldl (kvs_event i) (k\<lparr>kvs_dicts := x\<rparr>) es = (foldl (kvs_event i) k es)\<lparr>kvs_dicts := x\<rparr>"
proof (induction es arbitrary: k)
  case (Cons e es)
  have "kvs_event i (k\<lparr>kvs_dicts := x\<rparr>) e = (kvs_event i k e)\<lparr>kvs_dicts := x\<rparr>"
    by (cases e) (simp_all add: kvstoreDictRehashingStarted_def kvstoreDictRehashingCompleted_def
        kvstoreDictBucketChanged_def)
  then show ?case using Cons by simp
qed simp

text \<open>Releasing a table makes the callbacks that emptying it makes.\<close>

lemma release_like_empty:
  assumes wf: "dict_wf E d"
  shows "\<exists>d1 d2. dictRelease d = Some d1 \<and> dictEmpty d = Some d2 \<and> d_trace d1 = d_trace d2"
proof -
  obtain d2 where d2: "dictEmpty d = Some d2" using dictEmpty_ok [OF wf] by blast
  then obtain d1 where "dictRelease d = Some d1"
    "d2 = d1\<lparr>rehashidx := - 1, pauserehash := 0, pauseAutoResize := 0\<rparr>"
    by (auto simp: dictEmpty_def dictRelease_def Let_def split: bind_splits)
  then show ?thesis using d2 by simp
qed

lemma update_set_None:
  assumes "d_trace d1 = d_trace d2"
  shows "kvs_set_dict (kvs_update kvs didx d d1) didx None = kvs_set_dict (kvs_update kvs didx d d2) didx None"
    and "allocated_dicts (kvs_update kvs didx d d1) = allocated_dicts (kvs_update kvs didx d d2)"
  using assms by (simp_all add: kvs_update_def new_events_def kvs_set_dict_def event_keeps_dicts)

lemma free_ok:
  assumes wf: "kvs_base_wf E kvs" and i: "0 \<le> didx" "didx < num_dicts kvs"
  shows "\<exists>kvs'. freeDictIfNeeded kvs didx = Some kvs' \<and> kvs_base_wf E kvs' \<and> same_counts kvs kvs' \<and>
    same_content kvs kvs' \<and> (\<forall>j. j \<noteq> didx \<longrightarrow> kvstoreGetDict kvs' j = kvstoreGetDict kvs j) \<and>
    (kvstoreGetDict kvs' didx = kvstoreGetDict kvs didx \<or> kvstoreGetDict kvs' didx = Some None)"
proof -
  have len: "nat didx < length (kvs_dicts kvs)" using wf i by (simp add: kvs_base_wf_def num_dicts_def nat_less_iff)
  have g: "kvstoreGetDict kvs didx = Some (kvs_dicts kvs ! nat didx)" using i len by (simp add: getDict_Some)
  show ?thesis
  proof (cases "\<exists>d. FREE_EMPTY_DICTS kvs \<and> kvs_dicts kvs ! nat didx = Some d \<and> dictSize d = 0 \<and> pauserehash d = 0")
    case False
    then have "freeDictIfNeeded kvs didx = Some kvs"
      using g by (auto simp: freeDictIfNeeded_def split: option.split)
    then show ?thesis using wf by (simp add: same_content_def)
  next
    case True
    then obtain d where d: "FREE_EMPTY_DICTS kvs" "kvs_dicts kvs ! nat didx = Some d" "dictSize d = 0" "pauserehash d = 0"
      by blast
    have gd: "kvstoreGetDict kvs didx = Some (Some d)" using g d by simp
    note w = base_wf_dict(1) [OF wf gd]
    obtain d1 d2 where rel: "dictRelease d = Some d1" "dictEmpty d = Some d2" "d_trace d1 = d_trace d2"
      using release_like_empty [OF w] by blast
    have e2: "dict_wf E d2" "dict_map d2 = Map.empty" "can_grow d2" "\<not> dictIsRehashing d2" "dictBuckets d2 = 0" "trace_ext d d2"
      using dictEmpty_ok [OF w] rel(2) by auto
    note up = kvs_update_ok [OF wf gd e2(1,3,6) refl]
    let ?k = "kvs_update kvs didx d d2"
    define k' where "k' = (kvs_set_dict ?k didx None)\<lparr>allocated_dicts := allocated_dicts ?k - 1\<rparr>"
    have k': "freeDictIfNeeded kvs didx = Some k'"
      using d gd rel(1) update_set_None [OF rel(3), of kvs didx d] by (simp add: freeDictIfNeeded_def k'_def)
    have len': "nat didx < length (kvs_dicts ?k)" using len up(3) by simp
    have dsk: "kvs_dicts ?k ! nat didx = Some d2" using up(3) len by simp
    have ds: "kvs_dicts k' = (kvs_dicts ?k)[nat didx := None]" "same_counts ?k k'"
      by (simp_all add: k'_def kvs_set_dict_def same_counts_def)
    have "kvs_base_wf E k'"
      by (rule base_wf_set [OF up(1) len' ds])
        (use dsk e2 in \<open>simp_all add: k'_def kvs_set_dict_def dict_overhead_def\<close>)
    moreover have dk: "kvs_dicts k' = (kvs_dicts kvs)[nat didx := None]" using ds(1) up(3) by simp
    have "same_content kvs k'"
      by (rule same_content_set [OF i(1) len dk])
        (use d gd dictSize_0_map [OF w] in \<open>simp_all add: kvs_map_def\<close>)
    moreover have "kvstoreGetDict k' j = kvstoreGetDict kvs j" if "j \<noteq> didx" for j
      using dk that i(1) by (auto simp: kvstoreGetDict_def nat_less_iff)
    moreover have "kvstoreGetDict k' didx = Some None" using dk i(1) len by (simp add: getDict_Some)
    ultimately show ?thesis using k' same_counts_trans [OF up(2) ds(2)] by blast
  qed
qed


section \<open>Operations on keys\<close>

lemma kvs_sizes_update:
  "kvs_dicts kvs' = (kvs_dicts kvs)[i := od] \<Longrightarrow> kvs_sizes kvs' = (kvs_sizes kvs)[i := osize od]"
  by (simp add: kvs_sizes_def map_update)

lemma kvs_sizes_nth: "kvstoreGetDict kvs didx = Some od \<Longrightarrow> kvs_sizes kvs ! nat didx = osize od"
  by (simp add: kvs_sizes_def getDict_Some)

lemma kvs_sizes_nonneg: "x \<in> set (kvs_sizes kvs) \<Longrightarrow> 0 \<le> x"
  by (auto simp: kvs_sizes_def osize_def split: option.splits)

lemma index_in_range: "kvs_base_wf E kvs \<Longrightarrow> 0 \<le> didx \<Longrightarrow> didx < num_dicts kvs \<Longrightarrow> nat didx < length (kvs_dicts kvs)"
  by (simp add: kvs_base_wf_def num_dicts_def nat_less_iff)

lemma same_content_wf:
  assumes "kvs_wf E kvs" "kvs_base_wf E kvs'" "same_counts kvs kvs'" "same_content kvs kvs'"
  shows "kvs_wf E kvs'"
  using assms same_counts_wf [OF assms(3)] by (simp add: kvs_wf_def same_content_def)

lemma update_same_ok:
  assumes wf: "kvs_wf E kvs" and g: "kvstoreGetDict kvs didx = Some (Some d)" and s: "dict_same E d d'"
  shows "kvs_wf E (kvs_update kvs didx d d')" and "kvs_map (kvs_update kvs didx d d') = kvs_map kvs"
    and "same_counts kvs (kvs_update kvs didx d d')" and "length (kvs_dicts (kvs_update kvs didx d d')) = length (kvs_dicts kvs)"
proof -
  have base: "kvs_base_wf E kvs" using wf by (simp add: kvs_wf_def)
  note w = base_wf_dict [OF base g]
  have d': "dict_wf E d'" "can_grow d'" "trace_ext d d'" using s w by (simp_all add: dict_same_def can_grow_def)
  note up = kvs_update_ok [OF base g d' refl]
  have i: "0 \<le> didx" "nat didx < length (kvs_dicts kvs)" "kvs_dicts kvs ! nat didx = Some d" using g by (simp_all add: getDict_Some)
  have sc: "same_content kvs (kvs_update kvs didx d d')"
    by (rule same_content_set [OF i(1,2) up(3)])
      (use i g dict_same_map [OF w(1) s] dict_same_size [OF w(1) s] in \<open>simp_all add: kvs_map_def\<close>)
  show "kvs_wf E (kvs_update kvs didx d d')" using same_content_wf [OF wf up(1,2) sc] .
  show "kvs_map (kvs_update kvs didx d d') = kvs_map kvs"
    "length (kvs_dicts (kvs_update kvs didx d d')) = length (kvs_dicts kvs)" using sc by (simp_all add: same_content_def)
  show "same_counts kvs (kvs_update kvs didx d d')" by (rule up(2))
qed

lemma kvs_fetch_ok:
  assumes wf: "kvs_wf E kvs" and i: "0 \<le> didx" "didx < num_dicts kvs"
  shows "\<exists>kvs'. kvstoreDictFetchValue E kvs didx key = Some (kvs', kvs_map kvs didx key) \<and> kvs_wf E kvs' \<and>
    kvs_map kvs' = kvs_map kvs \<and> same_counts kvs kvs'"
proof -
  have base: "kvs_base_wf E kvs" using wf by (simp add: kvs_wf_def)
  have g: "kvstoreGetDict kvs didx = Some (kvs_dicts kvs ! nat didx)"
    using i index_in_range [OF base i] by (simp add: getDict_Some)
  show ?thesis
  proof (cases "kvs_dicts kvs ! nat didx")
    case None
    then show ?thesis using g wf by (simp add: kvstoreDictFetchValue_def kvs_map_def)
  next
    case (Some d)
    then have gd: "kvstoreGetDict kvs didx = Some (Some d)" using g by simp
    obtain d' where d': "dictFetchValue E d key = Some (d', dict_map d key)" "dict_same E d d'"
      using dictFetchValue_ok [OF base_wf_dict(1) [OF base gd]] by blast
    then show ?thesis using gd update_same_ok [OF wf gd d'(2)] by (simp add: kvstoreDictFetchValue_def kvs_map_def)
  qed
qed

lemma finite_dict_map: "finite (dom (dict_map d))"
  by (simp add: dict_map_def finite_dom_map_of)

lemma size_after_add:
  assumes "dict_wf E d" "dict_wf E d'" "dict_map d' = (dict_map d)(k \<mapsto> v)" "dict_map d k = None"
  shows "dictSize d' = Suc (dictSize d)"
proof -
  have "k \<notin> dom (dict_map d)" using assms(4) by blast
  then have "card (dom (dict_map d')) = Suc (card (dom (dict_map d)))"
    by (simp add: assms(3) finite_dict_map card_insert_disjoint)
  then show ?thesis using dictSize_card assms(1,2) by metis
qed

lemma size_after_delete:
  assumes "dict_wf E d" "dict_wf E d'" "dict_map d' = (dict_map d)(k := None)" "dict_map d k \<noteq> None"
  shows "dictSize d = Suc (dictSize d')"
proof -
  have "k \<in> dom (dict_map d)" using assms(4) by blast
  moreover have "dom (dict_map d') = dom (dict_map d) - {k}" using assms(3) by auto
  ultimately have "card (dom (dict_map d)) = Suc (card (dom (dict_map d')))"
    using card.remove [OF finite_dict_map, of k d] by metis
  then show ?thesis using dictSize_card assms(1,2) by metis
qed

lemma kvs_add_ok:
  assumes wf: "kvs_wf E kvs" and i: "0 \<le> didx" "didx < num_dicts kvs" and room: "kvstoreSize kvs + 1 < UINT64_MAX"
  shows "\<exists>kvs'. kvstoreDictAddRaw E kvs didx key val = Some (kvs', kvs_map kvs didx key = None) \<and> kvs_wf E kvs' \<and>
    kvs_map kvs' = (if kvs_map kvs didx key = None then (kvs_map kvs)(didx := (kvs_map kvs didx)(key \<mapsto> val))
      else kvs_map kvs) \<and> num_dicts kvs' = num_dicts kvs"
proof -
  have base: "kvs_base_wf E kvs" using wf by (simp add: kvs_wf_def)
  obtain k1 d where k1: "createDictIfNeeded kvs didx = Some k1" "kvs_base_wf E k1" "same_counts kvs k1"
    "same_content kvs k1" "kvstoreGetDict k1 didx = Some (Some d)"
    using create_ok [OF base i] by blast
  have wf1: "kvs_wf E k1" by (rule same_content_wf [OF wf k1(2-4)])
  note w = base_wf_dict [OF k1(2,5)]
  have m1: "kvs_map k1 = kvs_map kvs" using k1(4) by (simp add: same_content_def)
  have "kvs_map k1 didx = dict_map d" using k1(5) by (simp add: kvs_map_def)
  then have md: "dict_map d = kvs_map kvs didx" using m1 by simp
  obtain d' ex where d': "dictAddRaw E d key val = Some (d', ex)" "dict_wf E d'" "can_grow d'" "trace_ext d d'"
    and c: "case ex of
       Some l \<Rightarrow> dict_map d' = dict_map d \<and> link_ok d' l \<and> fst (snd (snd l)) = key \<and>
         dict_map d key = Some (snd (snd (snd l)))
     | None \<Rightarrow> dict_map d key = None \<and> dict_map d' = (dict_map d)(key \<mapsto> val)"
    using dictAddRaw_ok [OF w] by blast
  let ?k2 = "kvs_update k1 didx d d'"
  note up = kvs_update_ok [OF k1(2,5) d'(2,3,4) refl]
  have j: "0 \<le> didx" "nat didx < length (kvs_dicts k1)" "kvs_dicts k1 ! nat didx = Some d"
    using k1(5) by (simp_all add: getDict_Some)
  have g2: "kvstoreGetDict ?k2 didx = Some (Some d')" using up(3) j by (simp add: getDict_Some)
  have m2: "kvs_map ?k2 = (kvs_map kvs)(didx := dict_map d')" using kvs_map_set [OF j(1,2) up(3)] m1 by simp
  have nd: "num_dicts ?k2 = num_dicts kvs"
    using same_counts_num_dicts [OF up(2)] same_counts_num_dicts [OF k1(3)] by simp
  show ?thesis
  proof (cases ex)
    case (Some l)
    have same: "dict_map d' = dict_map d" "dict_map d key \<noteq> None" using c Some by auto
    then have sz: "dictSize d' = dictSize d" using dictSize_card w(1) d'(2) by metis
    have "same_content k1 ?k2"
      by (rule same_content_set [OF j(1,2) up(3)]) (use j k1(5) same sz in \<open>simp_all add: kvs_map_def\<close>)
    then have "kvs_wf E ?k2" by (rule same_content_wf [OF wf1 up(1,2)])
    moreover have "kvstoreDictAddRaw E kvs didx key val = Some (?k2, False)"
      using k1(1,5) d'(1) Some by (simp add: kvstoreDictAddRaw_def)
    ultimately show ?thesis using m2 same md nd by auto
  next
    case None
    then have new: "dict_map d key = None" "dict_map d' = (dict_map d)(key \<mapsto> val)" using c by auto
    note sz = size_after_add [OF w(1) d'(2) new(2,1)]
    let ?a = "kvs_sizes k1"
    have cnt: "count_wf ?a ?k2" using wf1 same_counts_wf [OF up(2)] by (simp add: kvs_wf_def)
    have sizes: "kvs_sizes ?k2 = ?a[nat didx := int (dictSize d')]" using kvs_sizes_update [OF up(3)] by simp
    have ai: "?a ! nat didx = int (dictSize d)" using kvs_sizes_nth [OF k1(5)] by simp
    have sum: "sum_list ?a = kvstoreSize kvs"
      using wf k1(4) by (simp add: kvs_wf_def count_wf_def same_content_def kvstoreSize_def)
    have "0 \<le> sum_list ?a" using kvs_sizes_nonneg by (intro sum_list_nonneg) blast
    then obtain k3 where k3: "cumulativeKeyCountAdd ?k2 didx 1 = Some k3" "kvs_wf E k3" "kvs_dicts k3 = kvs_dicts ?k2"
      "num_dicts_bits k3 = num_dicts_bits ?k2"
      using cumulative_ok [OF up(1) g2 cnt sizes] ai sz room sum up(3) by (auto simp: kvs_sizes_def)
    have "kvs_map k3 = kvs_map ?k2" using k3(3) by (simp add: kvs_map_def kvstoreGetDict_def fun_eq_iff)
    moreover have "kvstoreDictAddRaw E kvs didx key val = Some (k3, True)"
      using k1(1,5) d'(1) None k3(1) by (simp add: kvstoreDictAddRaw_def)
    moreover have "num_dicts k3 = num_dicts kvs" using k3(4) nd by (simp add: num_dicts_def)
    ultimately show ?thesis using m2 new md k3(2) by auto
  qed
qed


lemma kvs_delete_ok:
  assumes wf: "kvs_wf E kvs" and i: "0 \<le> didx" "didx < num_dicts kvs"
  shows "\<exists>kvs'. kvstoreDictDelete E kvs didx key = Some (kvs', kvs_map kvs didx key \<noteq> None) \<and> kvs_wf E kvs' \<and>
    kvs_map kvs' = (kvs_map kvs)(didx := (kvs_map kvs didx)(key := None)) \<and> num_dicts kvs' = num_dicts kvs"
proof -
  have base: "kvs_base_wf E kvs" using wf by (simp add: kvs_wf_def)
  have g: "kvstoreGetDict kvs didx = Some (kvs_dicts kvs ! nat didx)"
    using i index_in_range [OF base i] by (simp add: getDict_Some)
  show ?thesis
  proof (cases "kvs_dicts kvs ! nat didx")
    case None
    then have "kvs_map kvs didx = Map.empty" using g by (simp add: kvs_map_def)
    then show ?thesis using g None wf by (simp add: kvstoreDictDelete_def fun_upd_idem)
  next
    case (Some d)
    then have gd: "kvstoreGetDict kvs didx = Some (Some d)" using g by simp
    note w = base_wf_dict [OF base gd]
    have md: "kvs_map kvs didx = dict_map d" using gd by (simp add: kvs_map_def)
    obtain d' where d': "dictDelete E d key = Some (d', dict_map d key \<noteq> None)" "dict_wf E d'"
      "dict_map d' = (dict_map d)(key := None)" "pauseAutoResize d' = pauseAutoResize d" "trace_ext d d'"
      using dictDelete_ok [OF w(1)] by blast
    have c': "can_grow d'" using w(2) d'(4) by (simp add: can_grow_def)
    let ?k1 = "kvs_update kvs didx d d'"
    note up = kvs_update_ok [OF base gd d'(2) c' d'(5) refl]
    have j: "0 \<le> didx" "nat didx < length (kvs_dicts kvs)" using gd by (simp_all add: getDict_Some)
    have g1: "kvstoreGetDict ?k1 didx = Some (Some d')" using up(3) j by (simp add: getDict_Some)
    have m1: "kvs_map ?k1 = (kvs_map kvs)(didx := (kvs_map kvs didx)(key := None))"
      using kvs_map_set [OF j up(3)] d'(3) md by simp
    have nd: "num_dicts ?k1 = num_dicts kvs" using same_counts_num_dicts [OF up(2)] .
    show ?thesis
    proof (cases "dict_map d key = None")
      case True
      then have "dict_map d' = dict_map d" using d'(3) by (simp add: fun_upd_idem)
      then have "dictSize d' = dictSize d" using dictSize_card w(1) d'(2) by metis
      then have "same_content kvs ?k1"
        by (intro same_content_set [OF j up(3)]) (use Some md d'(3) True in \<open>simp_all add: fun_upd_idem\<close>)
      then have "kvs_wf E ?k1" by (rule same_content_wf [OF wf up(1,2)])
      then show ?thesis using gd d'(1) True m1 nd md by (simp add: kvstoreDictDelete_def)
    next
      case False
      note sz = size_after_delete [OF w(1) d'(2,3) False]
      let ?a = "kvs_sizes kvs"
      have cnt: "count_wf ?a ?k1" using wf same_counts_wf [OF up(2)] by (simp add: kvs_wf_def)
      have sizes: "kvs_sizes ?k1 = ?a[nat didx := int (dictSize d')]" using kvs_sizes_update [OF up(3)] by simp
      have ai: "?a ! nat didx = int (dictSize d)" using kvs_sizes_nth [OF gd] by simp
      have "sum_list (kvs_sizes ?k1) = sum_list ?a - 1"
        using sum_list_update_int [of "nat didx" ?a "\<lambda>x. x" "int (dictSize d')"] j ai sz
        unfolding sizes by (simp add: kvs_sizes_def)
      moreover have "0 \<le> sum_list (kvs_sizes ?k1)" using kvs_sizes_nonneg by (intro sum_list_nonneg) blast
      moreover have "sum_list ?a < UINT64_MAX" using wf by (simp add: kvs_wf_def count_wf_def)
      ultimately obtain k2 where k2: "cumulativeKeyCountAdd ?k1 didx (- 1) = Some k2" "kvs_wf E k2"
        "kvs_dicts k2 = kvs_dicts ?k1" "num_dicts_bits k2 = num_dicts_bits ?k1"
        using cumulative_ok [OF up(1) g1 cnt sizes, of "- 1"] ai sz up(3) by (auto simp: kvs_sizes_def)
      have b2: "kvs_base_wf E k2" using k2(2) by (simp add: kvs_wf_def)
      have nd2: "num_dicts k2 = num_dicts kvs" using k2(4) nd by (simp add: num_dicts_def)
      obtain k3 where k3: "freeDictIfNeeded k2 didx = Some k3" "kvs_base_wf E k3" "same_counts k2 k3" "same_content k2 k3"
        using free_ok [OF b2] i nd2 by auto
      have "kvs_map k3 = kvs_map ?k1"
        using k3(4) k2(3) by (simp add: same_content_def) (simp add: kvs_map_def kvstoreGetDict_def fun_eq_iff)
      moreover have "kvs_wf E k3" by (rule same_content_wf [OF k2(2) k3(2-4)])
      moreover have "kvstoreDictDelete E kvs didx key = Some (k3, True)"
        using gd d'(1) False k2(1) k3(1) by (simp add: kvstoreDictDelete_def)
      ultimately show ?thesis using m1 md False nd2 same_counts_num_dicts [OF k3(3)] by simp
    qed
  qed
qed

end
