(* ===== verification/Kvstore_Ops.thy ===== *)
theory Kvstore_Ops
  imports Kvstore_Inv
begin

text \<open>
  The remaining operations of the key-value store keep the invariant, and so does every sequence of
  operations; search by key index and iteration are correct; a scan across all tables is complete.
\<close>

lemma kvs_map_cong: "kvs_dicts a = kvs_dicts b \<Longrightarrow> kvs_map a = kvs_map b"
  by (simp add: kvs_map_def kvstoreGetDict_def fun_eq_iff)

section \<open>Creation\<close>

lemma create_loop_ok:
  "kvs_base_wf E kvs \<Longrightarrow> \<forall>i \<in> set is. 0 \<le> i \<and> i < num_dicts kvs \<Longrightarrow>
   \<exists>kvs'. create_loop kvs is = Some kvs' \<and> kvs_base_wf E kvs' \<and> same_counts kvs kvs' \<and> same_content kvs kvs' \<and>
     same_callbacks kvs kvs'"
proof (induction "is" arbitrary: kvs)
  case Nil
  then show ?case by (simp add: same_content_def same_callbacks_def)
next
  case (Cons i "is")
  obtain k1 where k1: "createDictIfNeeded kvs i = Some k1" "kvs_base_wf E k1" "same_counts kvs k1" "same_content kvs k1"
    "same_callbacks kvs k1"
    using create_ok [OF Cons.prems(1)] Cons.prems(2) by (meson list.set_intros(1))
  have "\<forall>i \<in> set is. 0 \<le> i \<and> i < num_dicts k1" using Cons.prems(2) same_counts_num_dicts [OF k1(3)] by simp
  then obtain k2 where "create_loop k1 is = Some k2" "kvs_base_wf E k2" "same_counts k1 k2" "same_content k1 k2"
    "same_callbacks k1 k2"
    using Cons.IH [OF k1(2)] by blast
  then show ?case using k1 same_counts_trans by (auto simp: same_content_def same_callbacks_def)
qed

lemma count_wf_zero:
  assumes "\<forall>x \<in> set a. x = 0" and "length a = 2 ^ num_dicts_bits kvs"
    and "key_count kvs = 0" and "non_empty_dicts kvs = 0"
    and "case dict_sizes kvs of None \<Rightarrow> num_dicts_bits kvs = 0 | Some ft \<Rightarrow> num_dicts_bits kvs \<noteq> 0 \<and> fw_rep a ft"
  shows "count_wf a kvs"
proof -
  have a: "a = replicate (length a) 0" using assms(1) by (simp add: replicate_length_same)
  have "sum_list a = 0" by (subst a) (simp add: sum_list_replicate)
  moreover have "sum_list (map (\<lambda>n. if n = 0 then 0 else 1) a) = (0 :: int)"
    by (subst a) (simp add: sum_list_replicate)
  ultimately show ?thesis using assms(3-5) by (simp add: count_wf_def)
qed

lemma kvs_create_ok:
  assumes "bits \<le> 16"
  shows "\<exists>kvs. kvstoreCreate bits on_demand free_empty = Some kvs \<and> kvs_wf E kvs \<and>
    kvs_map kvs = (\<lambda>_. Map.empty) \<and> num_dicts_bits kvs = bits"
proof -
  define k0 :: "('a, 'b) kvstore" where "k0 = \<lparr>ALLOCATE_DICTS_ON_DEMAND = on_demand, FREE_EMPTY_DICTS = free_empty,
    kvs_dicts = replicate (2 ^ bits) None, num_dicts_bits = bits, kvs_rehashing = [],
    resize_cursor = 0, allocated_dicts = 0, non_empty_dicts = 0, key_count = 0, bucket_count = 0,
    dict_sizes = None, overhead_hashtable_rehashing = 0\<rparr>"
  have b0: "kvs_base_wf E k0"
    using assms by (auto simp: kvs_base_wf_def k0_def num_dicts_def sum_list_replicate)
  have m0: "kvs_map k0 = (\<lambda>_. Map.empty)" "kvs_sizes k0 = replicate (2 ^ bits) 0"
    by (auto simp: kvs_map_def k0_def kvstoreGetDict_def kvs_sizes_def nat_less_iff fun_eq_iff)
  obtain k1 where k1: "(if on_demand then Some k0 else create_loop k0 (map int [0..<2 ^ bits])) = Some k1"
    "kvs_base_wf E k1" "same_counts k0 k1" "same_content k0 k1" "same_callbacks k0 k1"
  proof (cases on_demand)
    case True
    then show ?thesis using that [of k0] b0 by (simp add: same_content_def same_callbacks_def)
  next
    case False
    let ?is = "map int [0..<2 ^ bits]"
    have "\<forall>i \<in> set ?is. 0 \<le> i \<and> i < num_dicts k0" by (auto simp: num_dicts_def k0_def)
    then show ?thesis using create_loop_ok [OF b0, of ?is] that False by metis
  qed
  define k2 where "k2 = k1\<lparr>kvs_rehashing := [], key_count := 0, non_empty_dicts := 0, resize_cursor := 0,
    dict_sizes := (if num_dicts k1 > 1 then Some (fwTreeCreate bits) else None),
    bucket_count := 0, overhead_hashtable_rehashing := 0\<rparr>"
  have "kvstoreCreate bits on_demand free_empty = Some k2"
    using assms k1(1) unfolding k0_def by (simp add: kvstoreCreate_def k2_def Let_def)
  moreover have bits1: "num_dicts_bits k1 = bits" using k1(3) by (simp add: same_counts_def k0_def)
  moreover have "kvs_map k2 = (\<lambda>_. Map.empty)" "kvs_sizes k2 = replicate (2 ^ bits) 0"
    using k1(4) m0 kvs_map_cong [of k2 k1] by (simp_all add: same_content_def k2_def kvs_sizes_def)
  moreover have "kvs_base_wf E k2"
    using k1(2,5) by (simp add: kvs_base_wf_def k2_def num_dicts_def same_callbacks_def k0_def)
  moreover have "count_wf (replicate (2 ^ bits) 0) k2"
  proof (rule count_wf_zero)
    show "case dict_sizes k2 of None \<Rightarrow> num_dicts_bits k2 = 0
        | Some ft \<Rightarrow> num_dicts_bits k2 \<noteq> 0 \<and> fw_rep (replicate (2 ^ bits) 0) ft"
      using bits1 fw_rep_create [of bits] by (cases "bits = 0") (auto simp: k2_def num_dicts_def)
  qed (use bits1 in \<open>simp_all add: k2_def\<close>)
  ultimately show ?thesis by (intro exI [of _ k2]) (simp add: kvs_wf_def k2_def)
qed

section \<open>Background resizing\<close>

lemma shrink_ok:
  assumes "dict_wf E d" and "can_grow d"
  shows "\<exists>d' ok. dictShrinkIfNeeded E d = Some (d', ok) \<and> dict_same E d d'"
  using shrink_if_needed_ok [OF assms(1)] assms(2) by (auto simp: u_dictShrinkIfNeeded_def can_grow_def)

lemma expand_needed_ok:
  assumes "dict_wf E d" and "can_grow d"
  shows "\<exists>d' ok. dictExpandIfNeeded E d = Some (d', ok) \<and> dict_same E d d'"
  using expand_if_needed_ok [OF assms(1)] assms(2)
  by (auto simp: u_dictExpandIfNeeded_def can_grow_def resized_def)

lemma try_expand_ok:
  assumes wf: "dict_wf E d"
  shows "\<exists>d' ok. dictTryExpand m E d sz = Some (d', ok) \<and> dict_same E d d'"
proof (cases "dictIsRehashing d")
  case True
  then show ?thesis using dict_same_refl [OF wf] by (simp add: dictTryExpand_def u_dictExpand_def ex_bool_eq)
next
  case False
  obtain d' ok mf where "u_dictResize E d sz (Some m) = Some (d', ok, mf)" "dict_same E d d'"
    using resize_ok [OF wf False, of sz "Some m"] by blast
  then show ?thesis using dict_same_refl [OF wf] by (auto simp: dictTryExpand_def u_dictExpand_def)
qed

text \<open>A step that only reorganises tables.\<close>

definition kvs_same :: "'k dictEnv \<Rightarrow> ('k, 'v) kvstore \<Rightarrow> ('k, 'v) kvstore \<Rightarrow> bool" where
  "kvs_same E kvs kvs' \<longleftrightarrow> kvs_wf E kvs' \<and> kvs_map kvs' = kvs_map kvs \<and> num_dicts_bits kvs' = num_dicts_bits kvs"

lemma kvs_same_refl: "kvs_wf E kvs \<Longrightarrow> kvs_same E kvs kvs"
  by (simp add: kvs_same_def)

lemma kvs_same_trans: "kvs_same E a b \<Longrightarrow> kvs_same E b c \<Longrightarrow> kvs_same E a c"
  by (simp add: kvs_same_def)

lemma update_kvs_same:
  "kvs_wf E kvs \<Longrightarrow> kvstoreGetDict kvs didx = Some (Some d) \<Longrightarrow> dict_same E d d' \<Longrightarrow>
   kvs_same E kvs (kvs_update kvs didx d d')"
  using update_same_ok [of E kvs didx d d'] by (simp add: kvs_same_def same_counts_def)

lemma kvs_wf_get:
  assumes "kvs_wf E kvs" and "0 \<le> didx" "didx < num_dicts kvs"
  obtains od where "kvstoreGetDict kvs didx = Some od" "\<And>d. od = Some d \<Longrightarrow> dict_wf E d \<and> can_grow d"
proof -
  have b: "kvs_base_wf E kvs" using assms(1) by (simp add: kvs_wf_def)
  have g: "kvstoreGetDict kvs didx = Some (kvs_dicts kvs ! nat didx)"
    using index_in_range [OF b assms(2,3)] assms(2) by (simp add: getDict_Some)
  show thesis by (rule that [OF g]) (use base_wf_dict [OF b] g in metis)
qed

lemma resize_cursor_ok:
  assumes "kvs_wf E kvs" "0 \<le> c" "c < num_dicts kvs"
  shows "kvs_same E kvs (kvs\<lparr>resize_cursor := c\<rparr>)"
proof -
  have "kvs_map (kvs\<lparr>resize_cursor := c\<rparr>) = kvs_map kvs" by (rule kvs_map_cong) simp
  then show ?thesis
    using assms by (simp add: kvs_same_def kvs_wf_def kvs_base_wf_def count_wf_def kvs_sizes_def num_dicts_def
        cong: option.case_cong)
qed

lemma resize_loop_ok:
  "kvs_wf E kvs \<Longrightarrow> \<exists>kvs'. resize_loop E kvs n = Some kvs' \<and> kvs_same E kvs kvs'"
proof (induction n arbitrary: kvs)
  case 0
  then show ?case by (simp add: kvs_same_refl)
next
  case (Suc n)
  let ?i = "resize_cursor kvs"
  have i: "0 \<le> ?i" "?i < num_dicts kvs" using Suc.prems by (simp_all add: kvs_wf_def kvs_base_wf_def)
  obtain od where od: "kvstoreGetDict kvs ?i = Some od" "\<And>d. od = Some d \<Longrightarrow> dict_wf E d \<and> can_grow d"
    using kvs_wf_get [OF Suc.prems i] by blast
  obtain k1 where k1: "(case od of None \<Rightarrow> Some kvs
     | Some d \<Rightarrow> do {
         (d1, ok) \<leftarrow> dictShrinkIfNeeded E d;
         d2 \<leftarrow> (if ok then Some d1 else map_option fst (dictExpandIfNeeded E d1));
         Some (kvs_update kvs ?i d d2)
       }) = Some k1" "kvs_same E kvs k1"
  proof (cases od)
    case None
    then show ?thesis using that [of kvs] kvs_same_refl [OF Suc.prems] by simp
  next
    case (Some d)
    then have w: "dict_wf E d" "can_grow d" using od(2) by auto
    obtain d1 ok where d1: "dictShrinkIfNeeded E d = Some (d1, ok)" "dict_same E d d1" using shrink_ok [OF w] by blast
    have w1: "dict_wf E d1" "can_grow d1" using d1(2) w by (simp_all add: dict_same_def can_grow_def)
    obtain d2 ok2 where d2: "dictExpandIfNeeded E d1 = Some (d2, ok2)" "dict_same E d1 d2"
      using expand_needed_ok [OF w1] by blast
    have gd: "kvstoreGetDict kvs ?i = Some (Some d)" using od(1) Some by simp
    show ?thesis
      using that update_kvs_same [OF Suc.prems gd d1(2)]
        update_kvs_same [OF Suc.prems gd dict_same_trans [OF d1(2) d2(2)]] Some d1(1) d2(1)
      by (cases ok) auto
  qed
  define k2 where "k2 = k1\<lparr>resize_cursor := (?i + 1) mod num_dicts k1\<rparr>"
  have "0 < num_dicts k1" by (simp add: num_dicts_def)
  then have s2: "kvs_same E kvs k2"
    using kvs_same_trans [OF k1(2) resize_cursor_ok] k1(2) by (simp add: kvs_same_def k2_def)
  then obtain k3 where k3: "resize_loop E k2 n = Some k3" "kvs_same E k2 k3"
    using Suc.IH [of k2] kvs_same_def by blast
  have "resize_loop E kvs (Suc n) = Some k3"
    using od(1) k1(1) k3(1) by (simp add: k2_def)
  then show ?case using kvs_same_trans [OF s2 k3(2)] by blast
qed


lemma kvs_same_num_dicts: "kvs_same E kvs kvs' \<Longrightarrow> num_dicts kvs' = num_dicts kvs"
  by (simp add: kvs_same_def num_dicts_def)

lemma expand_loop_ok:
  "kvs_wf E kvs \<Longrightarrow> \<forall>i \<in> set is. 0 \<le> i \<and> i < num_dicts kvs \<Longrightarrow>
   \<exists>kvs' ok. expand_loop E skip mem sz kvs is = Some (kvs', ok) \<and> kvs_same E kvs kvs'"
proof (induction "is" arbitrary: kvs)
  case Nil
  then show ?case by (simp add: kvs_same_refl ex_bool_eq)
next
  case (Cons i "is")
  obtain od where od: "kvstoreGetDict kvs i = Some od" "\<And>d. od = Some d \<Longrightarrow> dict_wf E d \<and> can_grow d"
    using kvs_wf_get [OF Cons.prems(1)] Cons.prems(2) by (metis list.set_intros(1))
  have ih: "\<exists>kvs' ok. expand_loop E skip mem sz kvs is = Some (kvs', ok) \<and> kvs_same E kvs kvs'"
    using Cons.IH Cons.prems by simp
  show ?case
  proof (cases "\<exists>d. od = Some d \<and> \<not> skip i")
    case False
    then show ?thesis using od(1) ih by (cases od) auto
  next
    case True
    then obtain d where d: "od = Some d" "\<not> skip i" by blast
    then have w: "dict_wf E d" using od(2) by blast
    obtain d' ok where d': "(case mem of None \<Rightarrow> dictExpand E d sz | Some m \<Rightarrow> dictTryExpand (m i) E d sz) = Some (d', ok)"
      "dict_same E d d'"
    proof (cases mem)
      case None
      then show ?thesis using that expand_ok [OF w, of sz] by (auto simp: resized_def)
    next
      case (Some m)
      then show ?thesis using that try_expand_ok [OF w, of "m i" sz] by auto
    qed
    let ?k = "kvs_update kvs i d d'"
    have s1: "kvs_same E kvs ?k" using update_kvs_same [OF Cons.prems(1)] od(1) d d'(2) by blast
    then obtain k2 ok2 where k2: "expand_loop E skip mem sz ?k is = Some (k2, ok2)" "kvs_same E ?k k2"
      using Cons.IH [of ?k] Cons.prems(2) kvs_same_num_dicts [OF s1] by (auto simp: kvs_same_def)
    show ?thesis using od(1) d d'(1) k2 s1 kvs_same_trans [OF s1 k2(2)] by (auto simp: Let_def)
  qed
qed

section \<open>Clearing\<close>

definition cleared :: "('k, 'v) dict option \<Rightarrow> bool" where
  "cleared od \<longleftrightarrow> osize od = 0 \<and> obuckets od = 0 \<and> ooverhead od = 0 \<and> \<not> orehashing od \<and>
     (\<forall>d. od = Some d \<longrightarrow> dict_map d = Map.empty)"

lemma empty_step_ok:
  assumes b: "kvs_base_wf E kvs" and i: "0 \<le> i" "i < num_dicts kvs" and g: "kvstoreGetDict kvs i = Some (Some d)"
  shows "\<exists>d' kvs' od. dictEmpty d = Some d' \<and> freeDictIfNeeded (kvs_update kvs i d d') i = Some kvs' \<and>
    kvs_base_wf E kvs' \<and> same_counts kvs kvs' \<and> kvstoreGetDict kvs' i = Some od \<and> cleared od \<and>
    (\<forall>j. j \<noteq> i \<longrightarrow> kvstoreGetDict kvs' j = kvstoreGetDict kvs j)"
proof -
  note w = base_wf_dict [OF b g]
  obtain d' where d': "dictEmpty d = Some d'" "dict_wf E d'" "dict_map d' = Map.empty" "can_grow d'"
    "\<not> dictIsRehashing d'" "dictBuckets d' = 0" "trace_ext d d'"
    using dictEmpty_ok [OF w(1)] by blast
  let ?k = "kvs_update kvs i d d'"
  note up = kvs_update_ok [OF b g d'(2,4,7) refl]
  have cl: "cleared (Some d')"
    using d' dictSize_card [OF d'(2)] by (simp add: cleared_def dict_overhead_def)
  have gi: "kvstoreGetDict ?k i = Some (Some d')" using up(3) g by (simp add: getDict_Some)
  have gj: "kvstoreGetDict ?k j = kvstoreGetDict kvs j" if "j \<noteq> i" for j
    using up(3) that i(1) by (auto simp: kvstoreGetDict_def nat_less_iff)
  have "i < num_dicts ?k" using i(2) same_counts_num_dicts [OF up(2)] by simp
  then obtain k' where k': "freeDictIfNeeded ?k i = Some k'" "kvs_base_wf E k'" "same_counts ?k k'"
    "\<forall>j. j \<noteq> i \<longrightarrow> kvstoreGetDict k' j = kvstoreGetDict ?k j"
    "kvstoreGetDict k' i = kvstoreGetDict ?k i \<or> kvstoreGetDict k' i = Some None"
    using free_ok [OF up(1) i(1)] by blast
  have "\<exists>od. kvstoreGetDict k' i = Some od \<and> cleared od" using k'(5) gi cl by (auto simp: cleared_def)
  then show ?thesis using d'(1) k' gj same_counts_trans [OF up(2) k'(3)] by auto
qed

definition clear_at :: "('k, 'v) kvstore \<Rightarrow> int \<Rightarrow> bool" where
  "clear_at kvs j \<longleftrightarrow> (\<forall>od. kvstoreGetDict kvs j = Some od \<longrightarrow> cleared od)"

lemma empty_loop_ok:
  "kvs_base_wf E kvs \<Longrightarrow> \<forall>i \<in> set is. 0 \<le> i \<and> i < num_dicts kvs \<Longrightarrow>
   \<exists>kvs'. empty_loop kvs is = Some kvs' \<and> kvs_base_wf E kvs' \<and> same_counts kvs kvs' \<and>
     (\<forall>j. j \<in> set is \<or> clear_at kvs j \<longrightarrow> clear_at kvs' j)"
proof (induction "is" arbitrary: kvs)
  case Nil
  then show ?case by simp
next
  case (Cons i "is")
  have i: "0 \<le> i" "i < num_dicts kvs" and rest: "\<forall>i \<in> set is. 0 \<le> i \<and> i < num_dicts kvs"
    using Cons.prems(2) by simp_all
  obtain od where od: "kvstoreGetDict kvs i = Some od"
    using index_in_range [OF Cons.prems(1) i] i by (simp add: getDict_Some)
  show ?case
  proof (cases od)
    case None
    then have cl: "clear_at kvs i" using od by (simp add: clear_at_def cleared_def)
    obtain k where k: "empty_loop kvs is = Some k" "kvs_base_wf E k" "same_counts kvs k"
      "\<forall>j. j \<in> set is \<or> clear_at kvs j \<longrightarrow> clear_at k j"
      using Cons.IH [OF Cons.prems(1) rest] by blast
    moreover have "empty_loop kvs (i # is) = empty_loop kvs is" using od None by simp
    ultimately show ?thesis using cl by (metis set_ConsD)
  next
    case (Some d)
    obtain d' k1 o1 where k1: "dictEmpty d = Some d'" "freeDictIfNeeded (kvs_update kvs i d d') i = Some k1"
      "kvs_base_wf E k1" "same_counts kvs k1" "kvstoreGetDict k1 i = Some o1" "cleared o1"
      "\<forall>j. j \<noteq> i \<longrightarrow> kvstoreGetDict k1 j = kvstoreGetDict kvs j"
      using empty_step_ok [OF Cons.prems(1) i] od Some by blast
    have cl: "clear_at k1 j" if "j = i \<or> clear_at kvs j" for j
      using that k1(5-7) by (cases "j = i") (simp_all add: clear_at_def)
    have "\<forall>i \<in> set is. 0 \<le> i \<and> i < num_dicts k1" using rest same_counts_num_dicts [OF k1(4)] by simp
    then obtain k2 where k2: "empty_loop k1 is = Some k2" "kvs_base_wf E k2" "same_counts k1 k2"
      "\<forall>j. j \<in> set is \<or> clear_at k1 j \<longrightarrow> clear_at k2 j"
      using Cons.IH [OF k1(3)] by blast
    moreover have "empty_loop kvs (i # is) = Some k2" using od Some k1(1,2) k2(1) by simp
    ultimately show ?thesis using cl same_counts_trans [OF k1(4) k2(3)] by (metis set_ConsD)
  qed
qed

lemma kvs_empty_ok:
  assumes wf: "kvs_wf E kvs"
  shows "\<exists>kvs'. kvstoreEmpty kvs = Some kvs' \<and> kvs_wf E kvs' \<and> kvs_map kvs' = (\<lambda>_. Map.empty) \<and>
    num_dicts_bits kvs' = num_dicts_bits kvs"
proof -
  have b: "kvs_base_wf E kvs" using wf by (simp add: kvs_wf_def)
  let ?is = "map int [0..<length (kvs_dicts kvs)]"
  have "\<forall>i \<in> set ?is. 0 \<le> i \<and> i < num_dicts kvs" using b by (auto simp: kvs_base_wf_def num_dicts_def)
  then obtain k1 where k1: "empty_loop kvs ?is = Some k1" "kvs_base_wf E k1" "same_counts kvs k1"
    "\<forall>j. j \<in> set ?is \<longrightarrow> clear_at k1 j"
    using empty_loop_ok [OF b, of ?is] by blast
  have len: "length (kvs_dicts k1) = length (kvs_dicts kvs)"
    using k1(2,3) b by (simp add: kvs_base_wf_def same_counts_def)
  have cl: "cleared od" if od: "od \<in> set (kvs_dicts k1)" for od
  proof -
    obtain j where j: "j < length (kvs_dicts k1)" "kvs_dicts k1 ! j = od" using od unfolding in_set_conv_nth by blast
    have "int j \<in> set ?is" using len j(1) by simp
    then have "clear_at k1 (int j)" using k1(4) by blast
    then show ?thesis using j by (simp add: clear_at_def getDict_Some)
  qed
  define k2 where "k2 = k1\<lparr>kvs_rehashing := [], key_count := 0, non_empty_dicts := 0, resize_cursor := 0,
    bucket_count := 0, dict_sizes := map_option fwTreeClear (dict_sizes k1), overhead_hashtable_rehashing := 0\<rparr>"
  have zero: "map obuckets (kvs_dicts k1) = replicate (length (kvs_dicts k1)) 0"
    "map ooverhead (kvs_dicts k1) = replicate (length (kvs_dicts k1)) 0"
    "map osize (kvs_dicts k1) = replicate (length (kvs_dicts k1)) 0"
    using cl by (simp_all add: cleared_def flip: map_replicate_const)
  have nr: "\<not> orehashing (kvs_dicts k1 ! j)" if "j < length (kvs_dicts k1)" for j
    using cl that by (simp add: cleared_def)
  have "kvs_base_wf E k2"
    using k1(2) zero nr by (auto simp: kvs_base_wf_def k2_def num_dicts_def sum_list_replicate)
  moreover have "count_wf (kvs_sizes k2) k2"
  proof (rule count_wf_zero)
    show "\<forall>x \<in> set (kvs_sizes k2). x = 0" using cl by (simp add: kvs_sizes_def k2_def cleared_def)
    show "length (kvs_sizes k2) = 2 ^ num_dicts_bits k2" using k1(2) by (simp add: kvs_sizes_def k2_def kvs_base_wf_def)
    have "kvs_sizes k2 = replicate (length (kvs_sizes kvs)) 0" using zero(3) len by (simp add: kvs_sizes_def k2_def)
    then show "case dict_sizes k2 of None \<Rightarrow> num_dicts_bits k2 = 0
        | Some ft \<Rightarrow> num_dicts_bits k2 \<noteq> 0 \<and> fw_rep (kvs_sizes k2) ft"
      using wf k1(3) fw_rep_clear [of "kvs_sizes kvs"]
      by (auto simp: kvs_wf_def count_wf_def k2_def same_counts_def split: option.splits)
  qed (simp_all add: k2_def)
  moreover have "kvs_map k2 = (\<lambda>_. Map.empty)"
  proof
    fix j
    have "dict_map d = Map.empty" if "0 \<le> j" "j < int (length (kvs_dicts k1))" "kvs_dicts k1 ! nat j = Some d" for d
    proof -
      have "kvs_dicts k1 ! nat j \<in> set (kvs_dicts k1)" using that by (intro nth_mem) simp
      then show ?thesis using cl that(3) by (auto simp: cleared_def)
    qed
    then show "kvs_map k2 j = Map.empty"
      by (auto simp: kvs_map_def k2_def kvstoreGetDict_def split: option.split)
  qed
  moreover have "kvstoreEmpty kvs = Some k2" using k1(1) by (simp add: kvstoreEmpty_def k2_def)
  ultimately show ?thesis using k1(3) by (auto simp: kvs_wf_def k2_def same_counts_def)
qed


section \<open>Sequences of operations\<close>

text \<open>Freeing an empty table, and the operations on one store that only read keys.\<close>

lemma free_same:
  assumes wf: "kvs_wf E kvs" and f: "freeDictIfNeeded kvs i = Some kvs'"
  shows "kvs_wf E kvs'"
proof (cases "FREE_EMPTY_DICTS kvs")
  case False
  then show ?thesis using f wf by (simp add: freeDictIfNeeded_def)
next
  case True
  have base: "kvs_base_wf E kvs" using wf by (simp add: kvs_wf_def)
  obtain od where "kvstoreGetDict kvs i = Some od" using f True by (auto simp: freeDictIfNeeded_def bind_eq_Some_conv)
  then have "0 \<le> i" "i < num_dicts kvs" using base by (auto simp: getDict_Some kvs_base_wf_def num_dicts_def nat_less_iff)
  from free_ok [OF base this] f same_content_wf [OF wf] show ?thesis by auto
qed

lemma kvs_find_ok:
  assumes wf: "kvs_wf E kvs" and r: "kvstoreDictFind E kvs didx key = Some (kvs', e)"
  shows "kvs_wf E kvs'"
proof -
  obtain od where od: "kvstoreGetDict kvs didx = Some od" using r by (auto simp: kvstoreDictFind_def bind_eq_Some_conv)
  show ?thesis
  proof (cases od)
    case None
    then show ?thesis using r od wf by (simp add: kvstoreDictFind_def)
  next
    case (Some d)
    have g: "kvstoreGetDict kvs didx = Some (Some d)" using od Some by (simp only:)
    have base: "kvs_base_wf E kvs" using wf by (simp add: kvs_wf_def)
    obtain d' where d': "dictFind E d key = Some (d', map_option (Pair key) (dict_map d key))" "dict_same E d d'"
      using dictFind_ok [OF base_wf_dict(1) [OF base g]] by blast
    have "kvs' = kvs_update kvs didx d d'" using r g d'(1) by (simp add: kvstoreDictFind_def)
    then show ?thesis using update_same_ok(1) [OF wf g d'(2)] by (simp only:)
  qed
qed

lemma kvs_dict_expand_ok:
  assumes wf: "kvs_wf E kvs" and i: "0 \<le> didx" "didx < num_dicts kvs" and r: "kvstoreDictExpand E kvs didx sz = Some (kvs', ok)"
  shows "kvs_wf E kvs'"
proof -
  have base: "kvs_base_wf E kvs" using wf by (simp add: kvs_wf_def)
  obtain k1 d where k1: "createDictIfNeeded kvs didx = Some k1" "kvs_base_wf E k1" "same_counts kvs k1" "same_content kvs k1"
    "kvstoreGetDict k1 didx = Some (Some d)" using create_ok [OF base i] by blast
  have wf1: "kvs_wf E k1" by (rule same_content_wf [OF wf k1(2-4)])
  obtain d' b where d': "dictExpand E d sz = Some (d', b)" "dict_same E d d'"
    using expand_ok [OF base_wf_dict(1) [OF k1(2,5)], of sz] by (auto simp: resized_def)
  then have "kvs' = kvs_update k1 didx d d'" using r k1 by (simp add: kvstoreDictExpand_def)
  then show ?thesis using update_same_ok(1) [OF wf1 k1(5) d'(2)] by simp
qed

lemma kvs_scan_ok: "kvs_wf E kvs \<Longrightarrow> kvstoreScan kvs cursor onlydidx skip_cb = Some (kvs', es, cursor') \<Longrightarrow> kvs_wf E kvs'"
  by (auto simp: kvstoreScan_def bind_eq_Some_conv Let_def split: prod.splits if_splits option.splits dest: free_same)

lemma kvs_iter_ok:
  "kvs_wf E kvs \<Longrightarrow> kvstoreIteratorNextDict kvs it = Some (kvs', it', d) \<Longrightarrow> kvs_wf E kvs'"
  "kvs_wf E kvs \<Longrightarrow> kvstoreIteratorRelease kvs it = Some kvs' \<Longrightarrow> kvs_wf E kvs'"
  by (auto simp: kvstoreIteratorNextDict_def kvstoreIteratorRelease_def bind_eq_Some_conv split: if_splits dest: free_same)

text \<open>
  One operation of a client on one store: all of the modelled ones that change it, but for \<^verbatim>\<open>kvstoreMoveDict\<close>, which does not keep the
  number of non-empty tables. An addition needs room for one more key in the 64-bit counters.
\<close>

inductive kvs_step :: "'k dictEnv \<Rightarrow> ('k, 'v) kvstore \<Rightarrow> ('k, 'v) kvstore \<Rightarrow> bool" for E where
  step_add: "0 \<le> didx \<Longrightarrow> didx < num_dicts kvs \<Longrightarrow> kvstoreSize kvs + 1 < UINT64_MAX \<Longrightarrow>
    kvstoreDictAddRaw E kvs didx key val = Some (kvs', added) \<Longrightarrow> kvs_step E kvs kvs'"
| step_delete: "0 \<le> didx \<Longrightarrow> didx < num_dicts kvs \<Longrightarrow>
    kvstoreDictDelete E kvs didx key = Some (kvs', deleted) \<Longrightarrow> kvs_step E kvs kvs'"
| step_fetch: "0 \<le> didx \<Longrightarrow> didx < num_dicts kvs \<Longrightarrow>
    kvstoreDictFetchValue E kvs didx key = Some (kvs', v) \<Longrightarrow> kvs_step E kvs kvs'"
| step_find: "kvstoreDictFind E kvs didx key = Some (kvs', entry) \<Longrightarrow> kvs_step E kvs kvs'"
| step_dict_expand: "0 \<le> didx \<Longrightarrow> didx < num_dicts kvs \<Longrightarrow>
    kvstoreDictExpand E kvs didx sz = Some (kvs', ok) \<Longrightarrow> kvs_step E kvs kvs'"
| step_scan: "kvstoreScan kvs cursor onlydidx skip_cb = Some (kvs', es, cursor') \<Longrightarrow> kvs_step E kvs kvs'"
| step_iter_next: "kvstoreIteratorNextDict kvs it = Some (kvs', it', d) \<Longrightarrow> kvs_step E kvs kvs'"
| step_iter_release: "kvstoreIteratorRelease kvs it = Some kvs' \<Longrightarrow> kvs_step E kvs kvs'"
| step_resize: "kvstoreTryResizeDicts E kvs limit = Some kvs' \<Longrightarrow> kvs_step E kvs kvs'"
| step_expand: "kvstoreExpand E kvs sz mem skip = Some (kvs', ok) \<Longrightarrow> kvs_step E kvs kvs'"
| step_empty: "kvstoreEmpty kvs = Some kvs' \<Longrightarrow> kvs_step E kvs kvs'"

inductive_cases kvs_stepE: "kvs_step E kvs kvs'"

lemma kvs_step_wf:
  assumes "kvs_step E kvs kvs'" and wf: "kvs_wf E kvs"
  shows "kvs_wf E kvs'"
  using assms(1)
proof cases
  case (step_add didx key val added)
  then show ?thesis using kvs_add_ok [OF wf, of didx key val] by auto
next
  case (step_delete didx key deleted)
  then show ?thesis using kvs_delete_ok [OF wf, of didx key] by auto
next
  case (step_fetch didx key v)
  then show ?thesis using kvs_fetch_ok [OF wf, of didx key] by auto
next
  case (step_find didx key entry)
  then show ?thesis using kvs_find_ok [OF wf] by blast
next
  case (step_dict_expand didx sz ok)
  then show ?thesis using kvs_dict_expand_ok [OF wf] by blast
next
  case (step_scan cursor onlydidx skip_cb es cursor')
  then show ?thesis using kvs_scan_ok [OF wf] by blast
next
  case (step_iter_next it it' d)
  then show ?thesis using kvs_iter_ok(1) [OF wf] by blast
next
  case (step_iter_release it)
  then show ?thesis using kvs_iter_ok(2) [OF wf] by blast
next
  case (step_resize limit)
  then show ?thesis
    using resize_loop_ok [OF wf, of "nat (if limit > num_dicts kvs then num_dicts kvs else limit)"]
    by (auto simp: kvstoreTryResizeDicts_def kvs_same_def)
next
  case (step_expand sz mem skip ok)
  let ?is = "map int [0..<length (kvs_dicts kvs)]"
  have "\<forall>i \<in> set ?is. 0 \<le> i \<and> i < num_dicts kvs"
    using wf by (auto simp: kvs_wf_def kvs_base_wf_def num_dicts_def)
  then show ?thesis using expand_loop_ok [OF wf, of ?is skip mem sz] step_expand
    by (auto simp: kvstoreExpand_def kvs_same_def)
next
  case step_empty
  then show ?thesis using kvs_empty_ok [OF wf] by auto
qed

lemma kvs_steps_wf: "(kvs_step E)\<^sup>*\<^sup>* kvs kvs' \<Longrightarrow> kvs_wf E kvs \<Longrightarrow> kvs_wf E kvs'"
  by (induction rule: rtranclp_induct) (auto intro: kvs_step_wf)

section \<open>Search by key index\<close>

text \<open>The keys are numbered from 1, table by table.\<close>

lemma osize_map:
  assumes "kvs_wf E kvs" and "kvstoreGetDict kvs didx = Some od"
  shows "osize od = int (card (dom (kvs_map kvs didx)))"
proof (cases od)
  case None
  then show ?thesis using assms(2) by (simp add: kvs_map_def)
next
  case (Some d)
  have "kvs_base_wf E kvs" using assms(1) by (simp add: kvs_wf_def)
  then show ?thesis using base_wf_dict(1) [of E kvs didx d] assms(2) Some by (simp add: kvs_map_def dictSize_card)
qed

lemma kvs_sizes_card:
  assumes "kvs_wf E kvs" and "0 \<le> didx" "didx < num_dicts kvs"
  shows "kvs_sizes kvs ! nat didx = int (card (dom (kvs_map kvs didx)))"
proof -
  obtain od where "kvstoreGetDict kvs didx = Some od" using kvs_wf_get [OF assms] by blast
  then show ?thesis using kvs_sizes_nth osize_map [OF assms(1)] by metis
qed

lemma kvs_wf_fw:
  assumes wf: "kvs_wf E kvs" and n: "num_dicts kvs \<noteq> 1"
  obtains ft where "dict_sizes kvs = Some ft" "fw_rep (kvs_sizes kvs) ft" "ft_size ft = num_dicts kvs"
    "ft_total ft = key_count kvs"
proof -
  have nb: "num_dicts_bits kvs \<noteq> 0" using n by (metis num_dicts_def power_0)
  then obtain ft where ft: "dict_sizes kvs = Some ft" "fw_rep (kvs_sizes kvs) ft"
    using wf by (auto simp: kvs_wf_def count_wf_def split: option.splits)
  moreover have "ft_size ft = num_dicts kvs"
    using fw_repD(2) [OF ft(2)] wf by (simp add: kvs_wf_def kvs_base_wf_def kvs_sizes_def num_dicts_def)
  moreover have "ft_total ft = key_count kvs"
    using ft(2) wf by (simp add: fw_rep_def kvs_wf_def count_wf_def)
  ultimately show ?thesis using that by blast
qed

lemma find_index_ok:
  assumes wf: "kvs_wf E kvs" and n: "num_dicts kvs \<noteq> 1" and t: "0 < target" "target \<le> kvstoreSize kvs"
  shows "\<exists>r. kvstoreFindDictIndexByKeyIndex kvs target = Some r \<and> 0 \<le> r \<and> r < num_dicts kvs \<and>
    psum (kvs_sizes kvs) r < target \<and> target \<le> psum (kvs_sizes kvs) (r + 1)"
proof -
  obtain ft where ft: "dict_sizes kvs = Some ft" "fw_rep (kvs_sizes kvs) ft" "ft_size ft = num_dicts kvs"
    "ft_total ft = key_count kvs" using kvs_wf_fw [OF wf n] by blast
  have "target \<le> sum_list (kvs_sizes kvs)" using t(2) wf by (simp add: kvstoreSize_def kvs_wf_def count_wf_def)
  then show ?thesis using fwTreeFindIndex_correct [OF ft(2) t(1)] ft(1,3) n t
    by (auto simp: kvstoreFindDictIndexByKeyIndex_def)
qed

lemma next_nonempty_ok:
  assumes wf: "kvs_wf E kvs" and i: "0 \<le> didx" "didx < num_dicts kvs"
  shows "\<exists>r. kvstoreGetNextNonEmptyDictIndex kvs didx = Some r \<and>
    (r = - 1 \<and> (\<forall>k. didx < k \<and> k < num_dicts kvs \<longrightarrow> kvs_map kvs k = Map.empty) \<or>
     didx < r \<and> r < num_dicts kvs \<and> kvs_map kvs r \<noteq> Map.empty \<and>
       (\<forall>k. didx < k \<and> k < r \<longrightarrow> kvs_map kvs k = Map.empty))"
proof -
  have fin: "finite (dom (kvs_map kvs k))" for k
    using finite_dict_map by (auto simp: kvs_map_def split: option.splits)
  have em: "kvs_sizes kvs ! nat k = 0 \<longleftrightarrow> kvs_map kvs k = Map.empty" if "0 \<le> k" "k < num_dicts kvs" for k
    using kvs_sizes_card [OF wf that] fin [of k] by (simp add: dom_eq_empty_conv)
  show ?thesis
  proof (cases "num_dicts kvs = 1")
    case True
    then show ?thesis using i by (intro exI [of _ "- 1"]) (auto simp: kvstoreGetNextNonEmptyDictIndex_def)
  next
    case False
    obtain ft where ft: "dict_sizes kvs = Some ft" "fw_rep (kvs_sizes kvs) ft" "ft_size ft = num_dicts kvs"
      using kvs_wf_fw [OF wf False] by blast
    obtain r where r: "fwTreeFindNextNonEmpty ft didx = Some r"
      "r = - 1 \<and> (\<forall>k. didx < k \<and> k < ft_size ft \<longrightarrow> kvs_sizes kvs ! nat k = 0) \<or>
       didx < r \<and> r < ft_size ft \<and> kvs_sizes kvs ! nat r \<noteq> 0 \<and>
         (\<forall>k. didx < k \<and> k < r \<longrightarrow> kvs_sizes kvs ! nat k = 0)"
      using fwTreeFindNextNonEmpty_correct [OF ft(2) i(1)] i(2) ft(3) by auto
    have "kvstoreGetNextNonEmptyDictIndex kvs didx = Some r"
      using False ft(1) r(1) by (simp add: kvstoreGetNextNonEmptyDictIndex_def)
    moreover have "k < num_dicts kvs" if "didx < k" "k < r" "r < num_dicts kvs" for k using that by simp
    ultimately show ?thesis using r(2) em ft(3) i(1) by (intro exI [of _ r]) force
  qed
qed


section \<open>Cursors\<close>

lemma num_dicts_mask: "word_of_int (num_dicts kvs - 1) = (mask (num_dicts_bits kvs) :: 64 word)"
  by (simp add: num_dicts_def mask_eq_exp_minus_1)

lemma cursor_roundtrip:
  assumes b: "num_dicts_bits kvs \<le> 16" and i: "0 \<le> didx" "didx < num_dicts kvs"
    and c: "num_dicts kvs \<noteq> 1 \<Longrightarrow> unat c < 2 ^ (64 - num_dicts_bits kvs)"
  shows "getAndClearDictIndexFromCursor kvs (addDictIndexToCursor kvs didx c) = (didx, c)"
proof (cases "num_dicts kvs = 1")
  case True
  then show ?thesis using i by (simp add: getAndClearDictIndexFromCursor_def addDictIndexToCursor_def)
next
  case False
  let ?b = "num_dicts_bits kvs"
  let ?w = "word_of_int didx :: 64 word"
  have "didx < 2 ^ 64" using i(2) power_increasing [of ?b 64 "2 :: int"] b by (simp add: num_dicts_def)
  then have uw: "uint ?w = didx" using i(1) by (simp add: uint_word_of_int)
  have "didx = take_bit ?b didx" using i by (simp add: take_bit_eq_mod num_dicts_def)
  then have lo: "\<not> bit didx n" if "?b \<le> n" for n using that by (metis bit_take_bit_iff not_le)
  have hi: "\<not> bit c n" if "64 - ?b \<le> n" for n
  proof -
    have "take_bit (64 - ?b) (unat c) = unat c" using c [OF False] by (simp add: take_bit_nat_eq_self)
    then have "\<not> bit (unat c) n" using that by (metis bit_take_bit_iff not_le)
    then show ?thesis by (simp add: bit_unsigned_iff)
  qed
  have 1: "(push_bit ?b c OR ?w) AND mask ?b = ?w"
    by (rule bit_word_eqI) (use lo not_le in \<open>auto simp: bit_simps\<close>)
  have 2: "drop_bit ?b (push_bit ?b c OR ?w) = c"
  proof (rule bit_word_eqI)
    fix n
    assume "n < LENGTH(64)"
    moreover have "?b + n < 64" if "bit c n" using hi [of n] that by linarith
    ultimately show "bit (drop_bit ?b (push_bit ?b c OR ?w)) n = bit c n"
      using lo [of "?b + n"] by (auto simp: bit_simps)
  qed
  show ?thesis
    using False i uw 1 2
    unfolding getAndClearDictIndexFromCursor_def addDictIndexToCursor_def num_dicts_mask by simp
qed

lemma cursor_nonzero:
  assumes "num_dicts_bits kvs \<le> 16" "0 < didx" "didx < num_dicts kvs"
    and "num_dicts kvs \<noteq> 1 \<Longrightarrow> unat c < 2 ^ (64 - num_dicts_bits kvs)"
  shows "addDictIndexToCursor kvs didx c \<noteq> 0"
proof
  assume "addDictIndexToCursor kvs didx c = 0"
  then have "getAndClearDictIndexFromCursor kvs 0 = (didx, c)"
    using cursor_roundtrip [OF assms(1) _ assms(3,4)] assms(2) by simp
  then show False using assms(2) by (auto simp: getAndClearDictIndexFromCursor_def split: if_splits)
qed

text \<open>A cursor of a table with \<open>2 ^ n\<close> buckets has \<open>n\<close> bits.\<close>

lemma reversed_small:
  assumes "n \<le> 64" and "rpos v mod 2 ^ (64 - n) = 0"
  shows "unat v < 2 ^ n"
proof -
  have "take_bit (64 - n) (word_reverse v) = 0"
    using assms(2)
    by (simp add: word_eq_iff_unsigned [where ?'a = nat] unsigned_take_bit_eq rpos_def flip: take_bit_eq_mod)
  then have r: "\<not> bit (word_reverse v) i" if "i < 64 - n" for i
    using that by (metis bit_0_eq bit_take_bit_iff bot_apply bot_bool_def)
  have "take_bit n v = v"
  proof (rule bit_word_eqI)
    fix i
    assume "i < LENGTH(64)"
    then have i: "i < 64" by simp
    have "\<not> bit v i" if "n \<le> i" using r [of "63 - i"] that i by (simp add: bit_word_reverse_iff)
    then have "bit v i \<Longrightarrow> i < n" by (meson not_le)
    then show "bit (take_bit n v) i = bit v i" by (auto simp: bit_take_bit_iff)
  qed
  then have "unat v = take_bit n (unat v)" by (metis unsigned_take_bit_eq)
  then show ?thesis by (metis take_bit_nat_less_exp)
qed


section \<open>Scan\<close>

text \<open>The tables are small enough for their cursors to leave room for the dict index.\<close>

definition scan_room :: "('k, 'v) kvstore \<Rightarrow> bool" where
  "scan_room kvs \<longleftrightarrow> (\<forall>d. Some d \<in> set (kvs_dicts kvs) \<longrightarrow> scan_bits d \<le> 64 - num_dicts_bits kvs)"

definition still_ahead :: "'k dictEnv \<Rightarrow> ('k, 'v) kvstore \<Rightarrow> 64 word \<Rightarrow> int \<Rightarrow> 'k \<Rightarrow> bool" where
  "still_ahead E kvs cursor ti k =
     (case getAndClearDictIndexFromCursor kvs cursor of (di, c) \<Rightarrow>
      di < ti \<or> di = ti \<and> rpos c \<le> hpos (hashFunction E k))"

lemma cursor_index_range:
  assumes "getAndClearDictIndexFromCursor kvs cursor = (di, c)" "num_dicts_bits kvs \<le> 16"
  shows "0 \<le> di" "di < num_dicts kvs"
proof -
  have "uint (cursor AND mask (num_dicts_bits kvs)) < 2 ^ num_dicts_bits kvs"
    using take_bit_int_less_exp [of "num_dicts_bits kvs" "uint cursor"]
    by (simp add: unsigned_take_bit_eq flip: take_bit_eq_mask)
  then show "0 \<le> di" "di < num_dicts kvs"
    using assms(1) unfolding getAndClearDictIndexFromCursor_def num_dicts_mask
    by (auto simp: num_dicts_def split: if_splits)
qed

lemma scan_cursor_small:
  assumes wf: "dict_wf E d" and s: "dictScan d v = Some (es, v')" and n: "scan_bits d \<le> 64"
  shows "unat v' < 2 ^ scan_bits d"
proof (cases "dictSize d = 0")
  case True
  then show ?thesis using s by (simp add: dictScan_def)
next
  case False
  then have "rpos v' = scan_end d v mod 2 ^ 64" using dictScan_covers [OF wf False, of v] s by auto
  moreover have "(2 :: nat) ^ (64 - scan_bits d) dvd 2 ^ 64" by (rule le_imp_power_dvd) simp
  ultimately have "rpos v' mod 2 ^ (64 - scan_bits d) = scan_end d v mod 2 ^ (64 - scan_bits d)"
    by (simp only: mod_mod_cancel)
  then show ?thesis using reversed_small [OF n] by (simp add: scan_end_def)
qed

lemma scan_emits_or_ahead:
  assumes wf: "dict_wf E d" and s: "dictScan d c = Some (es, v')" and k: "dict_map d k \<noteq> None"
    and pos: "rpos c \<le> hpos (hashFunction E k)"
  shows "k \<in> fst ` set es \<or> v' \<noteq> 0 \<and> rpos v' \<le> hpos (hashFunction E k)"
proof -
  obtain x where x: "(k, x) \<in> set (dict_entries d)" using k dict_map_Some [OF wf] by auto
  then have ne: "dictSize d \<noteq> 0" using dictSize_entries [OF wf] by auto
  have r: "rpos v' = scan_end d c mod 2 ^ 64" and cov: "covers_to E d c es"
    using dictScan_covers [OF wf ne, of c] s by auto
  show ?thesis
  proof (cases "hpos (hashFunction E k) < scan_end d c")
    case True
    then have "(k, x) \<in> set es" using cov x pos unfolding covers_to_def by fastforce
    then show ?thesis by force
  next
    case False
    then have "scan_end d c < 2 ^ 64" using rpos_less [of "word_of_nat (hashFunction E k)"] by (simp add: hpos_def)
    then have r': "rpos v' = scan_end d c" using r by simp
    then have "v' \<noteq> 0" using rpos_eq_0 [of v'] by (auto simp: scan_end_def)
    then show ?thesis using r' False by simp
  qed
qed

lemma kvs_scan_next_ok:
  assumes wf: "kvs_wf E kvs" and di: "0 \<le> di" "di < num_dicts kvs" and lt: "di < ti" "ti < num_dicts kvs"
    and k: "kvs_map kvs ti k \<noteq> None"
  shows "\<exists>nxt. kvstoreGetNextNonEmptyDictIndex kvs di = Some nxt \<and> nxt \<noteq> - 1 \<and>
    addDictIndexToCursor kvs nxt 0 \<noteq> 0 \<and> still_ahead E kvs (addDictIndexToCursor kvs nxt 0) ti k"
proof -
  obtain r where r: "kvstoreGetNextNonEmptyDictIndex kvs di = Some r"
    "r = - 1 \<and> (\<forall>k. di < k \<and> k < num_dicts kvs \<longrightarrow> kvs_map kvs k = Map.empty) \<or>
     di < r \<and> r < num_dicts kvs \<and> kvs_map kvs r \<noteq> Map.empty \<and>
       (\<forall>k. di < k \<and> k < r \<longrightarrow> kvs_map kvs k = Map.empty)"
    using next_nonempty_ok [OF wf di] by blast
  have ne: "kvs_map kvs ti \<noteq> Map.empty" using k by auto
  then have rr: "di < r" "r < num_dicts kvs" "r \<le> ti" using r(2) lt by force+
  have b: "num_dicts_bits kvs \<le> 16" using wf by (simp add: kvs_wf_def kvs_base_wf_def)
  have "addDictIndexToCursor kvs r 0 \<noteq> 0" using cursor_nonzero [OF b, of r 0] rr di(1) by simp
  moreover have "getAndClearDictIndexFromCursor kvs (addDictIndexToCursor kvs r 0) = (r, 0)"
    using cursor_roundtrip [OF b, of r 0] rr di(1) by simp
  ultimately show ?thesis using r(1) rr di(1) by (auto simp: still_ahead_def)
qed

lemma kvs_scan_call_ok:
  assumes wf: "kvs_wf E kvs" and room: "scan_room kvs" and ti: "0 \<le> ti" "ti < num_dicts kvs"
    and k: "kvs_map kvs ti k \<noteq> None" and ahead: "still_ahead E kvs cursor ti k"
  shows "\<exists>kvs' es cursor'. kvstoreScan kvs cursor (- 1) (\<lambda>_ _. False) = Some (kvs', es, cursor') \<and>
    (k \<in> fst ` set es \<or> cursor' \<noteq> 0 \<and> still_ahead E kvs cursor' ti k)"
proof -
  have b: "num_dicts_bits kvs \<le> 16" and base: "kvs_base_wf E kvs" using wf by (simp_all add: kvs_wf_def kvs_base_wf_def)
  obtain di c where dc: "getAndClearDictIndexFromCursor kvs cursor = (di, c)" by fastforce
  note di = cursor_index_range [OF dc b]
  have pos: "di < ti \<or> di = ti \<and> rpos c \<le> hpos (hashFunction E k)" using ahead dc by (simp add: still_ahead_def)
  obtain od where od: "kvstoreGetDict kvs di = Some od" "\<And>d. od = Some d \<Longrightarrow> dict_wf E d \<and> can_grow d"
    using kvs_wf_get [OF wf di] by blast
  show ?thesis
  proof (cases od)
    case None
    then have "di \<noteq> ti" using k od(1) by (auto simp: kvs_map_def)
    then have lt: "di < ti" using pos by simp
    obtain nxt where nx: "kvstoreGetNextNonEmptyDictIndex kvs di = Some nxt" "nxt \<noteq> - 1"
      "addDictIndexToCursor kvs nxt 0 \<noteq> 0" "still_ahead E kvs (addDictIndexToCursor kvs nxt 0) ti k"
      using kvs_scan_next_ok [OF wf di lt ti(2) k] by blast
    then show ?thesis using dc od(1) None by (simp add: kvstoreScan_def Let_def)
  next
    case (Some d)
    then have gd: "kvstoreGetDict kvs di = Some (Some d)" and wd: "dict_wf E d" using od by auto
    obtain es v' where s: "dictScan d c = Some (es, v')" using dictScan_returns [OF wd] by blast
    obtain k1 where k1: "freeDictIfNeeded kvs di = Some k1" "kvs_base_wf E k1" "same_counts kvs k1" "same_content kvs k1"
      using free_ok [OF base di] by blast
    have wf1: "kvs_wf E k1" by (rule same_content_wf [OF wf k1(2-4)])
    have same: "num_dicts k1 = num_dicts kvs" "num_dicts_bits k1 = num_dicts_bits kvs" "kvs_map k1 = kvs_map kvs"
      using same_counts_num_dicts [OF k1(3)] k1(3,4) by (simp_all add: same_counts_def same_content_def)
    have cur: "addDictIndexToCursor k1 = addDictIndexToCursor kvs" "still_ahead E k1 = still_ahead E kvs"
      using same by (auto simp: fun_eq_iff addDictIndexToCursor_def still_ahead_def getAndClearDictIndexFromCursor_def)
    show ?thesis
    proof (cases "v' = 0")
      case True
      have "k \<in> fst ` set es \<or> di < ti"
        using pos scan_emits_or_ahead [OF wd s, of k] True k gd by (auto simp: kvs_map_def)
      then show ?thesis
      proof
        assume em: "k \<in> fst ` set es"
        obtain nxt where "kvstoreGetNextNonEmptyDictIndex k1 di = Some nxt"
          using next_nonempty_ok [OF wf1 di(1)] di(2) same(1) by auto
        then show ?thesis using em dc gd s k1(1) True by (simp add: kvstoreScan_def Let_def)
      next
        assume lt: "di < ti"
        obtain nxt where nx: "kvstoreGetNextNonEmptyDictIndex k1 di = Some nxt" "nxt \<noteq> - 1"
          "addDictIndexToCursor k1 nxt 0 \<noteq> 0" "still_ahead E k1 (addDictIndexToCursor k1 nxt 0) ti k"
          using kvs_scan_next_ok [OF wf1 di(1) _ lt] ti(2) k same di(2) by auto
        then show ?thesis using dc gd s k1(1) True cur by (simp add: kvstoreScan_def Let_def)
      qed
    next
      case False
      have "Some d \<in> set (kvs_dicts kvs)" using gd by (auto simp: getDict_Some in_set_conv_nth)
      then have sb: "scan_bits d \<le> 64 - num_dicts_bits kvs" using room by (simp add: scan_room_def)
      have "unat v' < 2 ^ scan_bits d" using scan_cursor_small [OF wd s] sb by linarith
      also have "\<dots> \<le> 2 ^ (64 - num_dicts_bits kvs)" using sb by (rule power_increasing) simp
      finally have small: "unat v' < 2 ^ (64 - num_dicts_bits kvs)" .
      have rt: "getAndClearDictIndexFromCursor kvs (addDictIndexToCursor kvs di v') = (di, v')"
        using cursor_roundtrip [OF b di] small by blast
      have nz: "addDictIndexToCursor kvs di v' \<noteq> 0"
      proof
        assume "addDictIndexToCursor kvs di v' = 0"
        then have "getAndClearDictIndexFromCursor kvs 0 = (di, v')" using rt by simp
        then show False using False by (auto simp: getAndClearDictIndexFromCursor_def split: if_splits)
      qed
      have "k \<in> fst ` set es \<or> still_ahead E kvs (addDictIndexToCursor kvs di v') ti k"
        using pos scan_emits_or_ahead [OF wd s, of k] rt k gd by (auto simp: kvs_map_def still_ahead_def)
      then show ?thesis using dc gd s k1(1) False cur nz di(1) by (auto simp: kvstoreScan_def Let_def)
    qed
  qed
qed


text \<open>A whole iteration over successive states of the store.\<close>

fun kvs_scan_calls :: "('k, 'v) kvstore list \<Rightarrow> 64 word \<Rightarrow> (('k \<times> 'v) list \<times> 64 word) option" where
  "kvs_scan_calls [] v = Some ([], v)"
| "kvs_scan_calls (kvs # ks) v = do {
     (_, es, v1) \<leftarrow> kvstoreScan kvs v (- 1) (\<lambda>_ _. False);
     if v1 = 0 then Some (es, 0)
     else do { (es', v2) \<leftarrow> kvs_scan_calls ks v1; Some (es @ es', v2) }
   }"

lemma still_ahead_cong:
  "num_dicts_bits kvs = num_dicts_bits kvs' \<Longrightarrow> still_ahead E kvs = still_ahead E kvs'"
  by (auto simp: fun_eq_iff still_ahead_def getAndClearDictIndexFromCursor_def num_dicts_def)

lemma kvs_scan_calls_cover:
  "\<forall>kvs \<in> set ks. kvs_wf E kvs \<and> scan_room kvs \<and> num_dicts_bits kvs = bits \<and> kvs_map kvs ti k \<noteq> None \<Longrightarrow>
   0 \<le> ti \<Longrightarrow> ti < 2 ^ bits \<Longrightarrow> ks \<noteq> [] \<Longrightarrow> still_ahead E (hd ks) v ti k \<Longrightarrow>
   kvs_scan_calls ks v = Some (es, 0) \<Longrightarrow> k \<in> fst ` set es"
proof (induction ks arbitrary: v es)
  case Nil
  then show ?case by simp
next
  case (Cons kvs ks)
  have kvs: "kvs_wf E kvs" "scan_room kvs" "num_dicts_bits kvs = bits" "kvs_map kvs ti k \<noteq> None"
    using Cons.prems(1) by simp_all
  have ti: "ti < num_dicts kvs" using Cons.prems(3) kvs(3) by (simp add: num_dicts_def)
  obtain kvs' es1 v1 where c: "kvstoreScan kvs v (- 1) (\<lambda>_ _. False) = Some (kvs', es1, v1)"
    "k \<in> fst ` set es1 \<or> v1 \<noteq> 0 \<and> still_ahead E kvs v1 ti k"
    using kvs_scan_call_ok [OF kvs(1,2) Cons.prems(2) ti kvs(4), of v] Cons.prems(5) by auto
  have sub: "set es1 \<subseteq> set es" using Cons.prems(6) c(1) by (auto split: if_splits bind_splits)
  show ?case
  proof (cases "k \<in> fst ` set es1")
    case True
    then show ?thesis using sub by blast
  next
    case False
    then have v1: "v1 \<noteq> 0" "still_ahead E kvs v1 ti k" using c(2) by blast+
    then obtain es2 where es2: "kvs_scan_calls ks v1 = Some (es2, 0)" "es = es1 @ es2"
      using Cons.prems(6) c(1) by (auto split: bind_splits)
    have ne: "ks \<noteq> []" using es2(1) v1(1) by auto
    then have "num_dicts_bits (hd ks) = bits" using Cons.prems(1) by simp
    then have "still_ahead E (hd ks) v1 ti k" using v1(2) still_ahead_cong [of kvs "hd ks" E] kvs(3) by simp
    then have "k \<in> fst ` set es2" using Cons.IH [OF _ Cons.prems(2,3) ne _ es2(1)] Cons.prems(1) by simp
    then show ?thesis using es2(2) by auto
  qed
qed

end
