(* ===== verification/Kvstore_Props.thy ===== *)
theory Kvstore_Props
  imports Kvstore_Ops
begin

text \<open>
  What the key-value store of \<^verbatim>\<open>kvstore.c\<close> promises, stated on the operations themselves, with the
  concrete stores the statements are tried on.
\<close>

section \<open>Two concrete stores\<close>

definition dict_small :: "(nat, nat) dict" where
  "dict_small = \<lparr>d_ht0 = \<lparr>ht_table = [[], [(1, 10), (5, 50)], [], []], ht_used = 2, ht_size_exp = 2\<rparr>,
      d_ht1 = dictReset_ht, rehashidx = - 1, pauserehash = 0, pauseAutoResize = 0,
      d_trace = [RehashingStarted 0 4, BucketChanged 4, RehashingCompleted 0 4, BucketChanged 0]\<rparr>"

definition kvs_small :: "(nat, nat) kvstore" where
  "kvs_small = \<lparr>ALLOCATE_DICTS_ON_DEMAND = True, FREE_EMPTY_DICTS = True,
     kvs_dicts = [None, Some dict_small], num_dicts_bits = 1, kvs_rehashing = [], resize_cursor = 0,
     allocated_dicts = 1, non_empty_dicts = 1, key_count = 2, bucket_count = 4,
     dict_sizes = Some \<lparr>ft_tree = [0, 0, 2], ft_size_bits = 1, ft_size = 2, ft_total = 2\<rparr>,
     overhead_hashtable_rehashing = 0\<rparr>"

definition kvs_fresh :: "(nat, nat) kvstore" where
  "kvs_fresh = kvs_small\<lparr>kvs_dicts := [None, None], allocated_dicts := 0, non_empty_dicts := 0, key_count := 0,
     bucket_count := 0, dict_sizes := Some (fwTreeCreate 1)\<rparr>"

lemma dict_small_wf: "dict_wf E_example dict_small" "can_grow dict_small"
  by (simp_all add: dict_wf_def dict_small_def E_example_def ht_wf_def ht_entries_def dict_entries_def
      dictIsRehashing_def trace_ok_def dictBuckets_def DICTHT_SIZE_def hash_idx_mod All_less_Suc dictReset_ht_def can_grow_def)

lemma dict_small_facts:
  "dictSize dict_small = 2" "dictBuckets dict_small = 4" "\<not> dictIsRehashing dict_small" "dict_overhead dict_small = 0"
  "dict_map dict_small = [1 \<mapsto> 10, 5 \<mapsto> 50]" "scan_bits dict_small = 2"
  by (auto simp: dict_small_def dictSize_def dictBuckets_def dictIsRehashing_def dict_overhead_def DICTHT_SIZE_def
      dict_map_def dict_entries_def ht_entries_def dictReset_ht_def fun_eq_iff scan_bits_def)

lemma fw_small: "fw_rep [0, 2] \<lparr>ft_tree = [0, 0, 2], ft_size_bits = 1, ft_size = 2, ft_total = 2\<rparr>"
proof -
  have i: "i = 1 \<or> i = 2" if "1 \<le> i" "i \<le> 2" for i :: int using that by linarith
  have l: "lowbit 1 = 1" "lowbit 2 = 2" by (simp_all add: lowbit_def)
  show ?thesis unfolding fw_rep_def by (auto dest!: i simp: psum_def l)
qed

lemma orehashing_small: "{int i | i. i < 2 \<and> orehashing ([None, Some dict_small] ! i)} = {}"
proof -
  have "\<not> orehashing ([None, Some dict_small] ! i)" if "i < 2" for i
    using that dict_small_facts(3) by (cases i) auto
  then show ?thesis by blast
qed

lemma kvs_small_wf: "kvs_wf E_example kvs_small"
proof -
  have "kvs_base_wf E_example kvs_small"
    using dict_small_wf dict_small_facts orehashing_small
    by (auto simp: kvs_base_wf_def kvs_small_def num_dicts_def)
  moreover have "count_wf (kvs_sizes kvs_small) kvs_small"
    using dict_small_facts fw_small by (simp add: count_wf_def kvs_small_def kvs_sizes_def)
  ultimately show ?thesis by (simp add: kvs_wf_def)
qed

lemma kvs_fresh_create: "kvstoreCreate 1 True True = Some kvs_fresh"
  by (simp add: kvstoreCreate_def kvs_fresh_def kvs_small_def num_dicts_def numeral_2_eq_2)

lemma kvs_small_map: "kvs_map kvs_small 1 = [1 \<mapsto> 10, 5 \<mapsto> 50]" "kvs_map kvs_small 0 = Map.empty"
  using dict_small_facts by (simp_all add: kvs_map_def kvstoreGetDict_def kvs_small_def)

lemma kvs_small_simps [simp]:
  "num_dicts kvs_small = 2" "kvstoreSize kvs_small = 2" "num_dicts_bits kvs_small = 1" "kvs_sizes kvs_small = [0, 2]"
  using dict_small_facts by (simp_all add: kvs_small_def num_dicts_def kvstoreSize_def kvs_sizes_def)

section \<open>Properties\<close>

text \<open>
  (C20) Every state that operations on one store reach from a new store is well formed, the operations being additions, deletions,
  lookups, scans, the steps and the release of iterators, the expansion of one table or of all, background resizing and clearing, but
  not \<^verbatim>\<open>kvstoreMoveDict\<close>, which miscounts: the key count, the number of non-empty and of
  allocated tables, the bucket and overhead counters, the list of rehashing tables and the Fenwick
  tree all agree with the tables. In particular the size reported is the number of keys.
\<close>

theorem kvstore_reachable_wf:
  fixes kvs0 kvs :: "('k, 'v) kvstore"
  assumes "kvstoreCreate bits on_demand free_empty = Some kvs0" and "(kvs_step E)\<^sup>*\<^sup>* kvs0 kvs"
  shows "kvs_wf E kvs \<and> kvstoreSize kvs = (\<Sum>i \<leftarrow> [0..<nat (num_dicts kvs)]. int (card (dom (kvs_map kvs (int i)))))"
proof -
  have b: "bits \<le> 16" using assms(1) by (auto simp: kvstoreCreate_def split: if_splits)
  obtain k :: "('k, 'v) kvstore" where "kvstoreCreate bits on_demand free_empty = Some k" "kvs_wf E k"
    using kvs_create_ok [OF b] by blast
  then have "kvs_wf E kvs0" using assms(1) by simp
  then have wf: "kvs_wf E kvs" by (rule kvs_steps_wf [OF assms(2)])
  have n: "length (kvs_sizes kvs) = nat (num_dicts kvs)"
    using wf by (simp add: kvs_wf_def kvs_base_wf_def kvs_sizes_def num_dicts_def)
  have "kvs_sizes kvs = map (\<lambda>i. int (card (dom (kvs_map kvs (int i))))) [0..<nat (num_dicts kvs)]"
    by (rule nth_equalityI) (use n kvs_sizes_card [OF wf, of "int _"] in \<open>auto simp: nat_less_iff\<close>)
  then show ?thesis using wf by (simp add: kvs_wf_def count_wf_def kvstoreSize_def)
qed

lemma kvs_fresh_simps [simp]: "num_dicts kvs_fresh = 2" "kvstoreSize kvs_fresh = 0" "kvs_map kvs_fresh 1 = Map.empty"
  by (simp_all add: kvs_fresh_def kvs_small_def num_dicts_def kvstoreSize_def kvs_map_def kvstoreGetDict_def)

lemma kvs_fresh_wf: "kvs_wf E_example kvs_fresh"
proof -
  have b: "1 \<le> (16 :: nat)" by simp
  obtain k :: "(nat, nat) kvstore" where "kvstoreCreate 1 True True = Some k" "kvs_wf E_example k"
    using kvs_create_ok [OF b] by blast
  then show ?thesis using kvs_fresh_create by simp
qed

theorem kvstore_reachable_wf_witness:
  "\<exists>kvs :: (nat, nat) kvstore. kvstoreCreate 1 True True = Some kvs_fresh \<and> kvs_step E_example kvs_fresh kvs \<and>
    kvs_wf E_example kvs \<and> kvs_map kvs 1 7 = Some 70"
proof -
  obtain kvs where k: "kvstoreDictAddRaw E_example kvs_fresh 1 7 70 = Some (kvs, True)" "kvs_map kvs 1 7 = Some 70"
    using kvs_add_ok [OF kvs_fresh_wf, of 1 7 70] by auto
  have "kvs_step E_example kvs_fresh kvs" by (rule step_add [OF _ _ _ k(1)]) simp_all
  then show ?thesis using kvstore_reachable_wf [OF kvs_fresh_create, of E_example kvs] k(2) kvs_fresh_create by auto
qed

text \<open>
  (C21) On a well-formed store the three accesses to a key of one table return what the map of that
  table says, and change that map only: a lookup leaves every table as it is, an addition adds the
  key if it is new and reports whether it was, and a deletion removes it and reports whether it was
  there. None of them aborts, whatever rehashing or allocation they trigger on the way.
\<close>

theorem kvstore_access_correct:
  assumes "kvs_wf E kvs" and "0 \<le> didx" and "didx < num_dicts kvs"
  shows "(\<exists>kvs'. kvstoreDictFetchValue E kvs didx key = Some (kvs', kvs_map kvs didx key) \<and> kvs_map kvs' = kvs_map kvs) \<and>
    (kvstoreSize kvs + 1 < UINT64_MAX \<longrightarrow>
     (\<exists>kvs'. kvstoreDictAddRaw E kvs didx key val = Some (kvs', kvs_map kvs didx key = None) \<and>
       kvs_map kvs' = (if kvs_map kvs didx key = None then (kvs_map kvs)(didx := (kvs_map kvs didx)(key \<mapsto> val))
         else kvs_map kvs))) \<and>
    (\<exists>kvs'. kvstoreDictDelete E kvs didx key = Some (kvs', kvs_map kvs didx key \<noteq> None) \<and>
       kvs_map kvs' = (kvs_map kvs)(didx := (kvs_map kvs didx)(key := None)))"
  using kvs_fetch_ok [OF assms] kvs_add_ok [OF assms] kvs_delete_ok [OF assms] by blast

theorem kvstore_access_correct_witness:
  "\<exists>kvs'. kvstoreDictDelete E_example kvs_small 1 5 = Some (kvs', True) \<and> kvs_map kvs' 1 = [1 \<mapsto> 10]"
  using kvstore_access_correct [OF kvs_small_wf, of 1 5 0] by (auto simp: kvs_small_map)

text \<open>
  (C22) A key that stays in one table from the first call of a scan to the last is returned by it,
  although between the calls the store may be changed at will: keys added and removed, tables
  created, freed, resized and rehashed. The store must keep its number of tables, and its tables
  must leave the cursor room for the table index.
\<close>

theorem kvstoreScan_complete:
  assumes "ks \<noteq> []" and "\<forall>kvs \<in> set ks. kvs_wf E kvs \<and> scan_room kvs \<and> num_dicts_bits kvs = bits"
    and "0 \<le> didx" and "didx < 2 ^ bits" and "\<forall>kvs \<in> set ks. kvs_map kvs didx k \<noteq> None"
    and "kvs_scan_calls ks 0 = Some (es, 0)"
  shows "k \<in> fst ` set es"
proof (rule kvs_scan_calls_cover [OF _ assms(3,4,1) _ assms(6)])
  have r: "rpos 0 = 0" by (simp add: rpos_eq_0)
  have "getAndClearDictIndexFromCursor (hd ks) 0 = (0, 0)" by (simp add: getAndClearDictIndexFromCursor_def)
  then show "still_ahead E (hd ks) 0 didx k" using assms(3) r by (auto simp: still_ahead_def)
qed (use assms(2,5) in blast)

lemma kvs_small_room: "scan_room kvs_small"
  using dict_small_facts(6) by (auto simp: scan_room_def kvs_small_def)

lemma kvs_small_scan: "kvs_scan_calls (replicate 5 kvs_small) 0 = Some ([(1, 10), (5, 50)], 0)"
  by code_simp

theorem kvstoreScan_complete_witness:
  "kvs_scan_calls (replicate 5 kvs_small) 0 = Some ([(1, 10), (5, 50)], 0) \<and> 5 \<in> fst ` set [(1 :: nat, 10 :: nat), (5, 50)]"
  using kvstoreScan_complete [OF _ _ _ _ _ kvs_small_scan, of E_example 1 1 5] kvs_small_wf kvs_small_room kvs_small_scan
  by (simp add: kvs_small_map)

text \<open>
  The table that holds the key of a given number, counted from 1 through the tables in order,
  is found through the Fenwick tree: the tables before the result hold fewer keys than the number
  asked for, and together with the result at least as many.
\<close>

theorem kvstoreFindDictIndexByKeyIndex_finds:
  assumes "kvs_wf E kvs" and "num_dicts kvs \<noteq> 1" and "0 < target" and "target \<le> kvstoreSize kvs"
  shows "\<exists>r. kvstoreFindDictIndexByKeyIndex kvs target = Some r \<and> 0 \<le> r \<and> r < num_dicts kvs \<and>
    (\<Sum>i \<leftarrow> [0..<nat r]. int (card (dom (kvs_map kvs (int i))))) < target \<and>
    target \<le> (\<Sum>i \<leftarrow> [0..<nat r + 1]. int (card (dom (kvs_map kvs (int i)))))"
proof -
  obtain r where r: "kvstoreFindDictIndexByKeyIndex kvs target = Some r" "0 \<le> r" "r < num_dicts kvs"
    "psum (kvs_sizes kvs) r < target" "target \<le> psum (kvs_sizes kvs) (r + 1)"
    using find_index_ok [OF assms] by blast
  have len: "length (kvs_sizes kvs) = nat (num_dicts kvs)"
    using assms(1) by (simp add: kvs_wf_def kvs_base_wf_def kvs_sizes_def num_dicts_def)
  have p: "psum (kvs_sizes kvs) (int n) = (\<Sum>i \<leftarrow> [0..<n]. int (card (dom (kvs_map kvs (int i)))))" if "int n \<le> num_dicts kvs" for n
  proof -
    have "take n (kvs_sizes kvs) = map (\<lambda>i. int (card (dom (kvs_map kvs (int i))))) [0..<n]"
      by (rule nth_equalityI)
        (use that len kvs_sizes_card [OF assms(1), of "int _"] in \<open>auto simp: nat_less_iff\<close>)
    then show ?thesis by (simp add: psum_def)
  qed
  show ?thesis using r p [of "nat r"] p [of "nat r + 1"] by (auto simp: add.commute)
qed

theorem kvstoreFindDictIndexByKeyIndex_finds_witness:
  "\<exists>r. kvstoreFindDictIndexByKeyIndex kvs_small 2 = Some r \<and> r < 2"
  using kvstoreFindDictIndexByKeyIndex_finds [OF kvs_small_wf, of 2] by auto

text \<open>
  (C23) Moving a table that holds at least two keys leaves both stores with a wrong number of
  non-empty tables: the source still counts the table it gave away and the destination does not
  count the one it received, because \<^verbatim>\<open>cumulativeKeyCountAdd\<close> looks at the size of the table, which
  the move does not change, to see whether it became empty or stopped being so.
\<close>

theorem kvstoreMoveDict_miscounts:
  assumes "kvstoreMoveDict kvs dst didx = Some (kvs', dst')" and "kvstoreGetDict kvs didx = Some (Some d)"
    and "2 \<le> dictSize d"
  shows "non_empty_dicts kvs' = non_empty_dicts kvs \<and> non_empty_dicts dst' = non_empty_dicts dst"
proof -
  have keep: "non_empty_dicts k' = non_empty_dicts k"
    if "cumulativeKeyCountAdd k didx delta = Some k'" "kvstoreGetDict k didx = Some (Some d)" for k k' :: "('a, 'b) kvstore" and delta
    using that assms(3) by (auto simp: cumulativeKeyCountAdd_def Let_def split: if_splits bind_splits)
  have get: "kvstoreGetDict (kvs\<lparr>allocated_dicts := a\<rparr>) didx = Some (Some d)" for a
    using assms(2) by (auto simp: kvstoreGetDict_def split: if_splits)
  have ev: "non_empty_dicts (kvstoreDictBucketChanged k n) = non_empty_dicts k"
    "non_empty_dicts (kvstoreDictRehashingCompleted k didx m) = non_empty_dicts k"
    "non_empty_dicts (kvstoreDictRehashingStarted k didx m) = non_empty_dicts k"
    "non_empty_dicts (kvs_set_dict k didx od) = non_empty_dicts k" for k :: "('a, 'b) kvstore" and n m od
    by (simp_all add: kvstoreDictBucketChanged_def kvstoreDictRehashingCompleted_def kvstoreDictRehashingStarted_def
        kvs_set_dict_def)
  have cr: "non_empty_dicts k' = non_empty_dicts k" if "createDictIfNeeded k didx = Some k'" for k k' :: "('a, 'b) kvstore"
    using that by (auto simp: createDictIfNeeded_def ev split: bind_splits option.splits)
  have dst: "kvstoreGetDict (kvs_set_dict dst didx (Some d)\<lparr>allocated_dicts := a\<rparr>) didx = Some (Some d)" for a
    using assms(1) by (auto simp: kvstoreMoveDict_def kvstoreGetDict_def kvs_set_dict_def split: if_splits)
  show ?thesis
    using assms(1,2) by (auto simp: kvstoreMoveDict_def Let_def ev dest!: cr keep [OF _ get] keep [OF _ dst]
        split: if_splits bind_splits)
qed

lemma move_small:
  "map_option (\<lambda>(a, b). (map (map_option dictSize) (kvs_dicts a), map (map_option dictSize) (kvs_dicts b)))
     (kvstoreMoveDict kvs_small kvs_fresh 1) = Some ([None, None], [None, Some 2])"
  by code_simp

theorem kvstoreMoveDict_miscounts_witness:
  "\<exists>kvs' dst'. kvstoreMoveDict kvs_small kvs_fresh 1 = Some (kvs', dst') \<and>
    map (map_option dictSize) (kvs_dicts kvs') = [None, None] \<and> non_empty_dicts kvs' = 1 \<and>
    map (map_option dictSize) (kvs_dicts dst') = [None, Some 2] \<and> non_empty_dicts dst' = 0"
proof -
  obtain kvs' dst' where m: "kvstoreMoveDict kvs_small kvs_fresh 1 = Some (kvs', dst')"
    "map (map_option dictSize) (kvs_dicts kvs') = [None, None]" "map (map_option dictSize) (kvs_dicts dst') = [None, Some 2]"
    using move_small by auto
  have "kvstoreGetDict kvs_small 1 = Some (Some dict_small)" by (simp add: kvstoreGetDict_def kvs_small_def)
  then have "non_empty_dicts kvs' = non_empty_dicts kvs_small \<and> non_empty_dicts dst' = non_empty_dicts kvs_fresh"
    using kvstoreMoveDict_miscounts [OF m(1)] dict_small_facts(1) by simp
  then show ?thesis using m by (simp add: kvs_small_def kvs_fresh_def)
qed

text \<open>
  Iterating over the tables visits exactly the non-empty ones, in increasing order: a call of
  \<^verbatim>\<open>kvstoreIteratorNextDict\<close> returns the table found by the previous call and looks up the next
  non-empty one behind it, \<open>- 1\<close> when there is none.
\<close>

theorem kvstoreIteratorNextDict_advances:
  assumes "kvs_wf E kvs" and "0 \<le> it_next_didx it" and "it_next_didx it < num_dicts kvs"
    and "it_didx it = - 1 \<or> 0 \<le> it_didx it \<and> it_didx it < it_next_didx it"
  shows "\<exists>kvs' it' od. kvstoreIteratorNextDict kvs it = Some (kvs', it', od) \<and> kvs_wf E kvs' \<and>
    kvs_map kvs' = kvs_map kvs \<and> it_didx it' = it_next_didx it \<and>
    (case od of None \<Rightarrow> kvs_map kvs (it_next_didx it) = Map.empty | Some d \<Rightarrow> dict_map d = kvs_map kvs (it_next_didx it)) \<and>
    (it_next_didx it' = - 1 \<and> (\<forall>k. it_next_didx it < k \<and> k < num_dicts kvs \<longrightarrow> kvs_map kvs k = Map.empty) \<or>
     it_next_didx it < it_next_didx it' \<and> it_next_didx it' < num_dicts kvs \<and> kvs_map kvs (it_next_didx it') \<noteq> Map.empty \<and>
       (\<forall>k. it_next_didx it < k \<and> k < it_next_didx it' \<longrightarrow> kvs_map kvs k = Map.empty))"
proof -
  have base: "kvs_base_wf E kvs" using assms(1) by (simp add: kvs_wf_def)
  obtain k1 where k1: "(if it_didx it \<noteq> - 1 then do { od \<leftarrow> kvstoreGetDict kvs (it_didx it);
      if od \<noteq> None then freeDictIfNeeded kvs (it_didx it) else Some kvs } else Some kvs) = Some k1"
    "kvs_wf E k1" "kvs_map k1 = kvs_map kvs" "num_dicts k1 = num_dicts kvs"
  proof (cases "it_didx it = - 1")
    case True
    then show ?thesis using that [of kvs] assms(1) by simp
  next
    case False
    then have i: "0 \<le> it_didx it" "it_didx it < num_dicts kvs" using assms(3,4) by auto
    obtain od where od: "kvstoreGetDict kvs (it_didx it) = Some od" using kvs_wf_get [OF assms(1) i] by blast
    obtain k where k: "freeDictIfNeeded kvs (it_didx it) = Some k" "kvs_base_wf E k" "same_counts kvs k" "same_content kvs k"
      using free_ok [OF base i] by blast
    show ?thesis
      using that [of "if od \<noteq> None then k else kvs"] od k False assms(1) same_content_wf [OF assms(1) k(2-4)]
        same_counts_num_dicts [OF k(3)] by (auto simp: same_content_def split: if_splits)
  qed
  have ni: "it_next_didx it < num_dicts k1" using k1(4) assms(3) by simp
  obtain r where r: "kvstoreGetNextNonEmptyDictIndex k1 (it_next_didx it) = Some r"
    "r = - 1 \<and> (\<forall>k. it_next_didx it < k \<and> k < num_dicts k1 \<longrightarrow> kvs_map k1 k = Map.empty) \<or>
     it_next_didx it < r \<and> r < num_dicts k1 \<and> kvs_map k1 r \<noteq> Map.empty \<and>
       (\<forall>k. it_next_didx it < k \<and> k < r \<longrightarrow> kvs_map k1 k = Map.empty)"
    using next_nonempty_ok [OF k1(2) assms(2) ni] by blast
  obtain od where od: "kvstoreGetDict k1 (it_next_didx it) = Some od" using kvs_wf_get [OF k1(2) assms(2) ni] by blast
  have step: "kvstoreIteratorNextDict kvs it = Some (k1, \<lparr>it_didx = it_next_didx it, it_next_didx = r\<rparr>, od)"
    using k1(1) r(1) od assms(2) by (simp add: kvstoreIteratorNextDict_def)
  have "case od of None \<Rightarrow> kvs_map kvs (it_next_didx it) = Map.empty | Some d \<Rightarrow> dict_map d = kvs_map kvs (it_next_didx it)"
    using od unfolding k1(3) [symmetric] by (cases od) (simp_all add: kvs_map_def)
  then show ?thesis using step k1 r(2) by simp
qed

theorem kvstoreIteratorNextDict_advances_witness:
  "\<exists>kvs' it' d. kvstoreIteratorNextDict kvs_small \<lparr>it_didx = - 1, it_next_didx = 1\<rparr> = Some (kvs', it', Some d) \<and>
    dict_map d = [1 \<mapsto> 10, 5 \<mapsto> 50] \<and> it_next_didx it' = - 1"
  using kvstoreIteratorNextDict_advances [OF kvs_small_wf, of "\<lparr>it_didx = - 1, it_next_didx = 1\<rparr>"]
  by (simp add: kvs_small_map(1) split: option.splits) fastforce

text \<open>
  (C24) An iterator that is released before its first \<^verbatim>\<open>kvstoreIteratorNextDict\<close> reads outside the
  array of tables when the store frees empty tables: its index is still \<open>- 1\<close>, and
  \<^verbatim>\<open>freeDictIfNeeded\<close> looks at \<^verbatim>\<open>dicts[-1]\<close>.
\<close>

theorem kvstoreIteratorRelease_unused_reads_outside:
  assumes "FREE_EMPTY_DICTS kvs" and "kvstoreIteratorInit kvs = Some it"
  shows "kvstoreIteratorRelease kvs it = None"
proof -
  have "it_didx it = - 1" using assms(2) by (auto simp: kvstoreIteratorInit_def split: bind_splits)
  then show ?thesis
    using assms(1) by (simp add: kvstoreIteratorRelease_def freeDictIfNeeded_def kvstoreGetDict_def)
qed

theorem kvstoreIteratorRelease_unused_reads_outside_witness:
  "\<exists>it. kvstoreIteratorInit kvs_fresh = Some it \<and> kvstoreIteratorRelease kvs_fresh it = None"
proof -
  have "FREE_EMPTY_DICTS kvs_fresh" by (simp add: kvs_fresh_def kvs_small_def)
  moreover obtain it where "kvstoreIteratorInit kvs_fresh = Some it"
    by (auto simp: kvstoreIteratorInit_def kvstoreGetFirstNonEmptyDictIndex_def)
  ultimately show ?thesis using kvstoreIteratorRelease_unused_reads_outside by blast
qed

text \<open>
  The index of a table survives in a scan cursor: taking the index out of a cursor it was put
  into gives back both, as long as the cursor of the table leaves the low bits free.
\<close>

theorem kvstore_cursor_roundtrip:
  assumes "num_dicts_bits kvs \<le> 16" and "0 \<le> didx" and "didx < num_dicts kvs"
    and "unat cursor < 2 ^ (64 - num_dicts_bits kvs)"
  shows "getAndClearDictIndexFromCursor kvs (addDictIndexToCursor kvs didx cursor) = (didx, cursor)"
  by (rule cursor_roundtrip [OF assms])

theorem kvstore_cursor_roundtrip_witness:
  "getAndClearDictIndexFromCursor kvs_small (addDictIndexToCursor kvs_small 1 12345) = (1, 12345)"
  using kvstore_cursor_roundtrip [of kvs_small 1 12345] by simp

lemma fair_loop_ok:
  assumes wf: "kvs_wf E kvs" and n: "num_dicts kvs \<noteq> 1" and s: "0 < kvstoreSize kvs"
  shows "\<exists>r. fair_loop kvs skip rnd i attempts = Some r \<and>
    (case r of None \<Rightarrow> attempts = 0 \<or> (\<exists>didx. skip didx)
     | Some didx \<Rightarrow> 0 \<le> didx \<and> didx < num_dicts kvs \<and> \<not> skip didx \<and> kvs_map kvs didx \<noteq> Map.empty)"
proof (induction attempts arbitrary: i)
  case 0
  then show ?case by simp
next
  case (Suc attempts)
  let ?target = "int (rnd i) mod kvstoreSize kvs + 1"
  have t: "0 < ?target" "?target \<le> kvstoreSize kvs"
    using s by (simp_all add: pos_mod_bound pos_mod_sign add_nonneg_pos add1_zle_eq)
  obtain r where r: "kvstoreFindDictIndexByKeyIndex kvs ?target = Some r" "0 \<le> r" "r < num_dicts kvs"
    "psum (kvs_sizes kvs) r < ?target" "?target \<le> psum (kvs_sizes kvs) (r + 1)"
    using find_index_ok [OF wf n t] by blast
  have "length (kvs_sizes kvs) = nat (num_dicts kvs)"
    using wf by (simp add: kvs_wf_def kvs_base_wf_def kvs_sizes_def num_dicts_def)
  then have "nat r < length (kvs_sizes kvs)" using r(2,3) by simp
  then have "psum (kvs_sizes kvs) (r + 1) = psum (kvs_sizes kvs) r + kvs_sizes kvs ! nat r"
    using r(2) by (simp add: psum_def nat_add_distrib take_Suc_conv_app_nth)
  then have "kvs_sizes kvs ! nat r \<noteq> 0" using r(4,5) by linarith
  then have ne: "kvs_map kvs r \<noteq> Map.empty" using kvs_sizes_card [OF wf r(2,3)] by auto
  show ?case
  proof (cases "skip r")
    case True
    then show ?thesis using r(1) Suc [of "Suc i"] by (auto split: option.splits)
  next
    case False
    then show ?thesis using r(1-3) ne by simp
  qed
qed

lemma fallback_loop_ok:
  assumes wf: "kvs_wf E kvs" and "\<forall>i \<in> set is. 0 \<le> i \<and> i < num_dicts kvs"
  shows "\<exists>r. fallback_loop kvs skip is = Some r \<and>
    (r = - 1 \<and> (\<forall>i \<in> set is. kvs_map kvs i = Map.empty \<or> skip i) \<or> r \<in> set is \<and> \<not> skip r)"
  using assms(2)
proof (induction "is")
  case Nil
  then show ?case by simp
next
  case (Cons i "is")
  have i: "0 \<le> i" "i < num_dicts kvs" using Cons.prems by simp_all
  obtain od where od: "kvstoreGetDict kvs i = Some od" using kvs_wf_get [OF wf i] by blast
  show ?case
  proof (cases "od \<noteq> None \<and> \<not> skip i")
    case True
    then show ?thesis using od by simp
  next
    case False
    then have "kvs_map kvs i = Map.empty \<or> skip i" using od by (auto simp: kvs_map_def)
    moreover have "fallback_loop kvs skip (i # is) = fallback_loop kvs skip is" using False od by auto
    ultimately show ?thesis using Cons.IH Cons.prems by auto
  qed
qed

text \<open>
  The random choice of a table never picks one the caller wants skipped, and gives up with
  \<open>- 1\<close> only when the fallback is switched off or every non-empty table is to be skipped. Without
  tables to skip, one attempt is enough and the table it picks is not empty.
\<close>

theorem kvstoreGetFairRandomDictIndex_fair:
  assumes wf: "kvs_wf E kvs" and n: "num_dicts kvs \<noteq> 1" and s: "0 < kvstoreSize kvs"
  shows "\<exists>r. kvstoreGetFairRandomDictIndex kvs skip rnd attempts fallback = Some r \<and>
    (r \<noteq> - 1 \<longrightarrow> 0 \<le> r \<and> r < num_dicts kvs \<and> \<not> skip r) \<and>
    (r = - 1 \<longrightarrow> \<not> fallback \<or> (\<forall>i. 0 \<le> i \<and> i < num_dicts kvs \<longrightarrow> kvs_map kvs i = Map.empty \<or> skip i)) \<and>
    (attempts \<noteq> 0 \<and> (\<forall>i. \<not> skip i) \<longrightarrow> kvs_map kvs r \<noteq> Map.empty)"
proof -
  obtain o1 where o1: "fair_loop kvs skip rnd 0 attempts = Some o1"
    "case o1 of None \<Rightarrow> attempts = 0 \<or> (\<exists>didx. skip didx)
     | Some didx \<Rightarrow> 0 \<le> didx \<and> didx < num_dicts kvs \<and> \<not> skip didx \<and> kvs_map kvs didx \<noteq> Map.empty"
    using fair_loop_ok [OF assms] by blast
  have start: "\<not> (num_dicts kvs = 1 \<or> kvstoreSize kvs = 0)" using n s by simp
  show ?thesis
  proof (cases o1)
    case (Some r)
    then show ?thesis using o1 start by (auto simp: kvstoreGetFairRandomDictIndex_def)
  next
    case None
    let ?st = "int (rnd attempts) mod num_dicts kvs"
    let ?is = "map (\<lambda>i. (?st + int i) mod num_dicts kvs) [0..<nat (num_dicts kvs)]"
    have pos: "0 < num_dicts kvs" by (simp add: num_dicts_def)
    have all: "i \<in> set ?is" if "0 \<le> i" "i < num_dicts kvs" for i
    proof -
      let ?j = "nat ((i - ?st) mod num_dicts kvs)"
      have e: "i = (?st + int ?j) mod num_dicts kvs" using that pos by (simp add: mod_add_right_eq)
      have "?j \<in> set [0..<nat (num_dicts kvs)]" using pos by (simp add: nat_less_iff)
      then show ?thesis by (subst e) (simp only: set_map image_eqI)
    qed
    have "\<forall>i \<in> set ?is. 0 \<le> i \<and> i < num_dicts kvs" using pos by auto
    from fallback_loop_ok [OF wf this, of skip]
    obtain r where r: "fallback_loop kvs skip ?is = Some r"
      "r = - 1 \<and> (\<forall>i \<in> set ?is. kvs_map kvs i = Map.empty \<or> skip i) \<or> r \<in> set ?is \<and> \<not> skip r" by blast
    have rng: "r \<in> set ?is \<Longrightarrow> 0 \<le> r \<and> r < num_dicts kvs" using pos by auto
    have "kvstoreGetFairRandomDictIndex kvs skip rnd attempts fallback = Some (if fallback then r else - 1)"
      using None o1(1) start r(1) by (simp add: kvstoreGetFairRandomDictIndex_def Let_def)
    then show ?thesis using None o1(2) r(2) rng all by (cases fallback) force+
  qed
qed

theorem kvstoreGetFairRandomDictIndex_fair_witness:
  "\<exists>r. kvstoreGetFairRandomDictIndex kvs_small (\<lambda>_. False) (\<lambda>_. 17) 1 True = Some r \<and> kvs_map kvs_small r \<noteq> Map.empty"
  using kvstoreGetFairRandomDictIndex_fair [OF kvs_small_wf, of "\<lambda>_. False" "\<lambda>_. 17" 1 True] by fastforce

end
