(* ===== verification/Util.thy ===== *)
theory Util
  imports Prelude
begin

text \<open>
  Conversion between integers and strings, from \<^verbatim>\<open>util.c\<close>: the length of a decimal representation
  (\<^verbatim>\<open>digits10\<close>), printing two digits at a time into a caller's buffer (\<^verbatim>\<open>ull2string\<close>,
  \<^verbatim>\<open>ll2string\<close>), the strict parser \<^verbatim>\<open>string2ll\<close>, hexadecimal parsing, memory sizes with a unit, and
  two byte-set helpers.

  A string with an explicit length is the list of its bytes. A destination buffer is the list of the
  \<^verbatim>\<open>dstlen\<close> bytes the caller allows the function to use; \<open>None\<close> is an access outside it. The
  reference definition is \<open>dec\<close>, the decimal numeral of a natural number.
\<close>

section \<open>The implementation\<close>

fun digits10 :: "nat \<Rightarrow> nat" where
  "digits10 v =
     (if v < 10 then 1 else if v < 100 then 2 else if v < 1000 then 3
      else if v < 1000000000000 then
        if v < 100000000 then
          if v < 1000000 then
            if v < 10000 then 4 else 5 + of_bool (v \<ge> 100000)
          else 7 + of_bool (v \<ge> 10000000)
        else if v < 10000000000 then 9 + of_bool (v \<ge> 1000000000)
        else 11 + of_bool (v \<ge> 100000000000)
      else 12 + digits10 (v div 1000000000000))"

declare digits10.simps [simp del]

definition sdigits10 :: "int \<Rightarrow> nat" where
  "sdigits10 v =
     (if v < 0
      then digits10 (nat (if v \<noteq> INT64_MIN then - v else INT64_MAX + 1)) + 1
      else digits10 (nat v))"

definition digits :: bytes where
  "digits = map (\<lambda>c. word_of_nat (of_char c))
     (''0001020304050607080910111213141516171819'' @
      ''2021222324252627282930313233343536373839'' @
      ''4041424344454647484950515253545556575859'' @
      ''6061626364656667686970717273747576777879'' @
      ''8081828384858687888990919293949596979899'')"

definition set_byte :: "bytes \<Rightarrow> int \<Rightarrow> byte \<Rightarrow> bytes option" where
  "set_byte dst i b = (if 0 \<le> i \<and> i < int (length dst) then Some (dst[nat i := b]) else None)"

text \<open>The loop that prints two digits at a time; \<open>pos\<close> is the \<^verbatim>\<open>uint32_t\<close> variable \<^verbatim>\<open>next\<close>.\<close>

fun ull2string_loop :: "bytes \<Rightarrow> int \<Rightarrow> nat \<Rightarrow> (bytes \<times> int \<times> nat) option" where
  "ull2string_loop dst pos value =
     (if value \<ge> 100
      then (let i = (value mod 100) * 2
            in do {
              dst1 \<leftarrow> set_byte dst pos (digits ! (i + 1));
              dst2 \<leftarrow> set_byte dst1 ((pos - 1) mod 2 ^ 32) (digits ! i);
              ull2string_loop dst2 ((pos - 2) mod 2 ^ 32) (value div 100)
            })
      else Some (dst, pos, value))"

declare ull2string_loop.simps [simp del]

definition string_err :: "bytes \<Rightarrow> bytes \<times> nat" where
  \<comment> \<open>the label \<^verbatim>\<open>err\<close> of both printers: terminate the string if there is room\<close>
  "string_err dst = (if length dst > 0 then dst[0 := 0] else dst, 0)"

text \<open>The last one or two digits.\<close>

definition ull2string_last :: "bytes \<Rightarrow> int \<Rightarrow> nat \<Rightarrow> bytes option" where
  "ull2string_last dst pos value =
     (if value < 10 then set_byte dst pos (48 + word_of_nat value)
      else do {
        let i = value * 2;
        dst' \<leftarrow> set_byte dst pos (digits ! (i + 1));
        set_byte dst' ((pos - 1) mod 2 ^ 32) (digits ! i)
      })"

definition ull2string :: "bytes \<Rightarrow> nat \<Rightarrow> (bytes \<times> nat) option" where
  "ull2string dst value =
     (let len = digits10 value in
      if len \<ge> length dst then Some (string_err dst)
      else do {
        let pos = (int len - 1) mod 2 ^ 32;
        dst0 \<leftarrow> set_byte dst ((pos + 1) mod 2 ^ 32) 0;
        (dst1, pos1, value1) \<leftarrow> ull2string_loop dst0 pos value;
        dst2 \<leftarrow> ull2string_last dst1 pos1 value1;
        Some (dst2, len)
      })"

definition ll2string :: "bytes \<Rightarrow> int \<Rightarrow> (bytes \<times> nat) option" where
  "ll2string dst svalue =
     (if svalue < 0
      then (let value = nat (if svalue \<noteq> INT64_MIN then - svalue else INT64_MAX + 1) in
            if length dst < 2 then Some (string_err dst)
            else do {
              (rest, len) \<leftarrow> ull2string (tl dst) value;
              Some (45 # rest, if len = 0 then 0 else len + 1)
            })
      else do {
        (rest, len) \<leftarrow> ull2string dst (nat svalue);
        Some (rest, if len = 0 then 0 else len)
      })"

text \<open>
  The loop over the remaining digits: \<open>None\<close> is the return for an overflow, otherwise the result is
  the value and the bytes that were not used.
\<close>

fun digit_loop :: "bytes \<Rightarrow> int \<Rightarrow> (int \<times> bytes) option" where
  "digit_loop [] v = Some (v, [])"
| "digit_loop (c # p) v =
     (if c \<ge> 48 \<and> c \<le> 57
      then if v > UINT64_MAX div 10 then None
           else if v * 10 > UINT64_MAX - (uint c - 48) then None
           else digit_loop p (v * 10 + (uint c - 48))
      else Some (v, c # p))"

definition LONG_STR_SIZE :: nat where "LONG_STR_SIZE = 21"

text \<open>\<open>None\<close> is the return value 0, \<open>Some v\<close> the return value 1 with \<open>*value = v\<close>.\<close>

definition string2ll :: "bytes \<Rightarrow> int option" where
  "string2ll s =
     (if s = [] \<or> length s \<ge> LONG_STR_SIZE then None
      else if length s = 1 \<and> hd s = 48 then Some 0
      else
        let negative = (hd s = 45); p = (if negative then tl s else s) in
        case p of
          [] \<Rightarrow> None
        | c # p' \<Rightarrow>
            if c \<ge> 49 \<and> c \<le> 57
            then do {
              (v, rest) \<leftarrow> digit_loop p' (uint c - 48);
              if rest \<noteq> [] then None
              else if negative
                then if v > - (INT64_MIN + 1) + 1 then None else Some (to_sint 64 (to_uint 64 (- v)))
                else if v > INT64_MAX then None else Some v
            }
            else None)"

definition string2l :: "bytes \<Rightarrow> int option" where
  "string2l s = do {
     llval \<leftarrow> string2ll s;
     if llval < INT64_MIN \<or> llval > INT64_MAX then None else Some llval
   }"

text \<open>
  \<^verbatim>\<open>string2ul_base16_async_signal_safe\<close>: \<open>src\<close> is the memory from the pointer on, so \<open>None\<close> is a read
  behind it; \<open>Some None\<close> is the return value \<open>- 1\<close> for an overflow.
\<close>

definition base_16_char_type :: "byte \<Rightarrow> int" where
  "base_16_char_type c =
     (if 48 \<le> c \<and> c \<le> 57 then 0 else if 97 \<le> c \<and> c \<le> 102 then 1 else if 65 \<le> c \<and> c \<le> 70 then 2 else - 1)"

definition ascii_to_dec :: "int \<Rightarrow> int" where
  "ascii_to_dec char_type = (if char_type = 0 then 48 else if char_type = 1 then 97 - 10 else 65 - 10)"

fun base16_loop :: "bytes \<Rightarrow> nat \<Rightarrow> int \<Rightarrow> int option option" where
  "base16_loop [] slen result = None"
| "base16_loop (c # src) slen result =
     (if base_16_char_type c \<noteq> - 1 \<and> 0 < slen
      then (let curr_val = uint c - ascii_to_dec (base_16_char_type c) in
            if result > UINT64_MAX div 16 \<or> result > (UINT64_MAX - curr_val) div 16 then Some None
            else base16_loop src (slen - 1) (result * 16 + curr_val))
      else Some (Some result))"

definition string2ul_base16_async_signal_safe :: "bytes \<Rightarrow> nat \<Rightarrow> int option option" where
  "string2ul_base16_async_signal_safe src slen = base16_loop src slen 0"

text \<open>
  \<^verbatim>\<open>memtoull\<close> on a terminated string, given without its terminator. \<^verbatim>\<open>strtoull\<close> is called on digits
  only: it saturates, and whether it reports an empty numeral as \<^verbatim>\<open>EINVAL\<close> is left to the platform by
  the C standard, here the parameter \<open>einval\<close>. The result is the value and \<^verbatim>\<open>*err\<close>.
\<close>

definition to_lower :: "byte \<Rightarrow> byte" where
  "to_lower c = (if 65 \<le> c \<and> c \<le> 90 then c + 32 else c)"

text \<open>The characters of a string up to its first zero byte, which C's string functions see.\<close>

definition c_str :: "bytes \<Rightarrow> bytes" where
  "c_str s = takeWhile (\<lambda>c. c \<noteq> 0) s"

definition strcasecmp_eq :: "bytes \<Rightarrow> string \<Rightarrow> bool" where
  "strcasecmp_eq u unit = (map to_lower u = map (\<lambda>c. word_of_nat (of_char c)) unit)"

definition memtoull_unit :: "bytes \<Rightarrow> int option" where
  "memtoull_unit u =
     (if u = [] \<or> strcasecmp_eq u ''b'' then Some 1
      else if strcasecmp_eq u ''k'' then Some 1000
      else if strcasecmp_eq u ''kb'' then Some 1024
      else if strcasecmp_eq u ''m'' then Some (1000 * 1000)
      else if strcasecmp_eq u ''mb'' then Some (1024 * 1024)
      else if strcasecmp_eq u ''g'' then Some (1000 * 1000 * 1000)
      else if strcasecmp_eq u ''gb'' then Some (1024 * 1024 * 1024)
      else None)"

fun strtoull_digits :: "bytes \<Rightarrow> int \<Rightarrow> int" where
  "strtoull_digits [] v = v"
| "strtoull_digits (c # cs) v = strtoull_digits cs (min UINT64_MAX (v * 10 + (uint c - 48)))"

definition memtoull :: "bool \<Rightarrow> bytes \<Rightarrow> int \<times> bool" where
  "memtoull einval p =
     (if p \<noteq> [] \<and> hd p = 45 then (0, True)
      else
        let ds = takeWhile (\<lambda>c. 48 \<le> c \<and> c \<le> 57) p; u = dropWhile (\<lambda>c. 48 \<le> c \<and> c \<le> 57) p in
        case memtoull_unit u of
          None \<Rightarrow> (0, True)
        | Some mul \<Rightarrow>
            if length ds \<ge> 128 then (0, True)
            else (let val = strtoull_digits ds 0 in
                  if val = 0 \<and> ds = [] \<and> einval then (0, True) else (to_uint 64 (val * mul), False)))"

text \<open>\<^verbatim>\<open>mempbrk\<close> returns the index of the first byte of \<open>s\<close> that occurs in \<open>chars\<close>.\<close>

fun mempbrk :: "bytes \<Rightarrow> bytes \<Rightarrow> nat option" where
  "mempbrk [] chars = None"
| "mempbrk (c # s) chars = (if c \<in> set chars then Some 0 else map_option Suc (mempbrk s chars))"

fun map_char :: "bytes \<Rightarrow> bytes \<Rightarrow> byte \<Rightarrow> byte" where
  "map_char (f # from) (t # to) c = (if c = f then t else map_char from to c)"
| "map_char _ _ c = c"

definition memmapchars :: "bytes \<Rightarrow> bytes \<Rightarrow> bytes \<Rightarrow> bytes" where
  "memmapchars s from to = map (map_char from to) s"

section \<open>Decimal numerals\<close>

fun dec :: "nat \<Rightarrow> bytes" where
  "dec n = (if n < 10 then [48 + word_of_nat n] else dec (n div 10) @ [48 + word_of_nat (n mod 10)])"

declare dec.simps [simp del]

definition dec_int :: "int \<Rightarrow> bytes" where
  "dec_int v = (if v < 0 then 45 # dec (nat (- v)) else dec (nat v))"

lemma dec_small [simp]: "n < 10 \<Longrightarrow> dec n = [48 + word_of_nat n]"
  by (simp add: dec.simps)

lemma dec_step: "10 \<le> n \<Longrightarrow> dec n = dec (n div 10) @ [48 + word_of_nat (n mod 10)]"
  by (subst dec.simps) simp

lemma dec_not_Nil [simp]: "dec n \<noteq> []" "[] \<noteq> dec n"
  by (subst dec.simps, simp)+

lemma dec_digits: "c \<in> set (dec n) \<Longrightarrow> \<exists>d < 10. c = 48 + word_of_nat d"
proof (induction n rule: dec.induct)
  case (1 n)
  show ?case
  proof (cases "n < 10")
    case True
    then show ?thesis using "1.prems" by auto
  next
    case False
    then have "c \<in> set (dec (n div 10)) \<or> c = 48 + word_of_nat (n mod 10)"
      using "1.prems" dec_step [of n] by auto
    then show ?thesis using "1.IH" False by (auto intro: exI [of _ "n mod 10"])
  qed
qed

lemma length_dec_div: "10 ^ k \<le> n \<Longrightarrow> length (dec n) = k + length (dec (n div 10 ^ k))"
proof (induction k arbitrary: n)
  case 0
  then show ?case by simp
next
  case (Suc k)
  have "(10 :: nat) \<le> 10 ^ Suc k" by simp
  then have "10 \<le> n" using Suc.prems by (rule le_trans)
  moreover have "10 ^ k \<le> n div 10" using Suc.prems by (simp add: less_eq_div_iff_mult_less_eq mult.commute)
  ultimately show ?case using Suc.IH [of "n div 10"] dec_step [of n] by (simp add: div_mult2_eq)
qed

lemma length_dec_between: "10 ^ k \<le> n \<Longrightarrow> n < 10 ^ Suc k \<Longrightarrow> length (dec n) = Suc k"
proof -
  assume a: "10 ^ k \<le> n" "n < 10 ^ Suc k"
  then have "n div 10 ^ k < 10" by (simp add: less_mult_imp_div_less)
  then show ?thesis using length_dec_div [OF a(1)] by simp
qed

lemma digits10_correct: "digits10 v = length (dec v)"
proof (induction v rule: digits10.induct)
  case (1 v)
  show ?case
  proof (cases "v < 1000000000000")
    case True
    note b = length_dec_between [of "1" v] length_dec_between [of "2" v] length_dec_between [of "3" v]
      length_dec_between [of "4" v] length_dec_between [of "5" v] length_dec_between [of "6" v]
      length_dec_between [of "7" v] length_dec_between [of "8" v] length_dec_between [of "9" v]
      length_dec_between [of "10" v] length_dec_between [of "11" v]
    note b' = b [simplified]
    show ?thesis using True by (subst digits10.simps) (auto simp: b' split: if_splits)
  next
    case False
    then show ?thesis using 1 length_dec_div [of 12 v] by (subst digits10.simps) simp
  qed
qed

section \<open>Printing\<close>

lemma digits_pairs: "digits = concat (map (\<lambda>j. [48 + word_of_nat (j div 10), 48 + word_of_nat (j mod 10)]) [0..<100])"
  by code_simp

lemma nth_concat_pairs:
  "j < n \<Longrightarrow> concat (map (\<lambda>j. [f j, g j]) [0..<n]) ! (j * 2) = f j"
  "j < n \<Longrightarrow> concat (map (\<lambda>j. [f j, g j]) [0..<n]) ! (j * 2 + 1) = g j"
proof (induction n)
  case (Suc n)
  have l: "length (concat (map (\<lambda>j. [f j, g j]) [0..<n])) = n * 2" by (induction n) simp_all
  {
    case 1
    then show ?case using Suc.IH(1) l by (cases "j = n") (simp_all add: nth_append)
  next
    case 2
    then show ?case using Suc.IH(2) l by (cases "j = n") (simp_all add: nth_append)
  }
qed simp_all

lemma digits_table:
  assumes "j < 100"
  shows "digits ! (j * 2) = 48 + word_of_nat (j div 10)" "digits ! (j * 2 + 1) = 48 + word_of_nat (j mod 10)"
  unfolding digits_pairs using assms by (rule nth_concat_pairs)+

lemma dec_two:
  "100 \<le> n \<Longrightarrow> dec n = dec (n div 100) @ [digits ! ((n mod 100) * 2), digits ! ((n mod 100) * 2 + 1)]"
  "10 \<le> n \<Longrightarrow> n < 100 \<Longrightarrow> dec n = [digits ! (n * 2), digits ! (n * 2 + 1)]"
proof -
  assume n: "100 \<le> n"
  have "10 \<le> n div 10" using n by simp
  then have "dec n = dec (n div 10 div 10) @ [48 + word_of_nat (n div 10 mod 10)] @ [48 + word_of_nat (n mod 10)]"
    using n dec_step [of n] dec_step [of "n div 10"] by simp
  moreover have "n mod 100 = 10 * (n div 10 mod 10) + n mod 10" using mod_mult2_eq [of n 10 10] by simp
  then have "n div 10 mod 10 = n mod 100 div 10" "n mod 10 = n mod 100 mod 10" by simp_all
  ultimately show "dec n = dec (n div 100) @ [digits ! ((n mod 100) * 2), digits ! ((n mod 100) * 2 + 1)]"
    using digits_table [of "n mod 100"] by (simp add: div_mult2_eq [symmetric])
next
  assume "10 \<le> n" "n < 100"
  then show "dec n = [digits ! (n * 2), digits ! (n * 2 + 1)]"
    using dec_step [of n] digits_table [of n] by simp
qed

lemma set_byte_ok: "i < length dst \<Longrightarrow> set_byte dst (int i) b = Some (dst[i := b])"
  by (simp add: set_byte_def)

lemma update_pair:
  "Suc i < length dst \<Longrightarrow> drop i (dst[Suc i := b, i := a]) = a # b # drop (Suc (Suc i)) dst"
  using Cons_nth_drop_Suc [of i "dst[Suc i := b, i := a]"] Cons_nth_drop_Suc [of "Suc i" "dst[Suc i := b, i := a]"]
  by simp

lemma ull2string_loop_ok:
  "pos < length dst \<Longrightarrow> pos < 2 ^ 32 \<Longrightarrow> length (dec v) = Suc pos \<Longrightarrow>
   \<exists>dst' pos' value'. ull2string_loop dst (int pos) v = Some (dst', pos', value') \<and>
     ull2string_last dst' pos' value' = Some (dec v @ drop (Suc pos) dst)"
proof (induction v arbitrary: dst pos rule: less_induct)
  case (less v)
  show ?case
  proof (cases "100 \<le> v")
    case True
    then obtain q where q: "pos = Suc (Suc q)" "length (dec (v div 100)) = Suc q"
      using less.prems(3) dec_two(1) [OF True] by (cases pos; cases "pos - 1") auto
    let ?a = "digits ! ((v mod 100) * 2)" and ?b = "digits ! ((v mod 100) * 2 + 1)"
    let ?d = "dst[Suc (Suc q) := ?b, Suc q := ?a]"
    have m: "(int pos - 1) mod 2 ^ 32 = int (Suc q)" "(int pos - 2) mod 2 ^ 32 = int q"
      using less.prems(2) q(1) by simp_all
    have step: "ull2string_loop dst (int pos) v = ull2string_loop ?d (int q) (v div 100)"
      unfolding ull2string_loop.simps [of dst] m
      using True q(1) less.prems(1) set_byte_ok [of "Suc (Suc q)" dst] set_byte_ok [of "Suc q" "dst[Suc (Suc q) := ?b]"]
      by (simp add: Let_def del: of_nat_Suc)
    have "v div 100 < v" using True by simp
    then obtain dst' pos' value' where
      "ull2string_loop ?d (int q) (v div 100) = Some (dst', pos', value')"
      "ull2string_last dst' pos' value' = Some (dec (v div 100) @ drop (Suc q) ?d)"
      using less.IH [of "v div 100" q ?d] less.prems(1,2) q by auto
    then show ?thesis using step update_pair [of "Suc q" dst ?b ?a] less.prems(1) q dec_two(1) [OF True] by simp
  next
    case False
    have l: "ull2string_loop dst (int pos) v = Some (dst, int pos, v)" using False by (simp add: ull2string_loop.simps)
    show ?thesis
    proof (cases "v < 10")
      case True
      then have "pos = 0" using less.prems(3) by simp
      then have "ull2string_last dst (int pos) v = Some (dst[0 := 48 + word_of_nat v])"
        using True less.prems(1) set_byte_ok [of 0 dst] by (simp add: ull2string_last_def)
      then show ?thesis using l True less.prems(1) \<open>pos = 0\<close> by (cases dst) auto
    next
      case ge: False
      then have d: "dec v = [digits ! (v * 2), digits ! (v * 2 + 1)]" using dec_two(2) False by simp
      then have p: "pos = 1" using less.prems(3) by simp
      then have "dst \<noteq> []" using less.prems(1) by auto
      then have "ull2string_last dst (int pos) v = Some (dst[1 := digits ! (v * 2 + 1), 0 := digits ! (v * 2)])"
        using ge p less.prems(1) set_byte_ok [of 1 dst] set_byte_ok [of 0 "dst[1 := digits ! (v * 2 + 1)]"]
        by (simp add: ull2string_last_def Let_def)
      then show ?thesis using l d p less.prems(1) update_pair [of 0 dst] by simp
    qed
  qed
qed

lemma length_dec_bound: "n < 10 ^ k \<Longrightarrow> 0 < k \<Longrightarrow> length (dec n) \<le> k"
proof (induction n arbitrary: k rule: dec.induct)
  case (1 n)
  show ?case
  proof (cases "n < 10")
    case True
    then show ?thesis using "1.prems"(2) by simp
  next
    case False
    then obtain j where k: "k = Suc (Suc j)" using "1.prems" by (cases k; cases "k - 1") auto
    then have "n div 10 < 10 ^ Suc j" using "1.prems"(1) by (simp add: less_mult_imp_div_less mult.commute)
    then show ?thesis using "1.IH" [of "Suc j"] False k dec_step [of n] by simp
  qed
qed

lemma length_dec_word: "n < 2 ^ 64 \<Longrightarrow> length (dec n) \<le> 20"
  by (rule length_dec_bound) simp_all

lemma ull2string_ok:
  assumes "n < 2 ^ 64"
  shows "ull2string dst n =
    Some (if length (dec n) < length dst
          then (dec n @ [0] @ drop (Suc (length (dec n))) dst, length (dec n))
          else string_err dst)"
proof (cases "length (dec n) < length dst")
  case True
  obtain pos where p: "length (dec n) = Suc pos" by (cases "length (dec n)") auto
  have b: "Suc pos \<le> 20" using length_dec_word [OF assms] p by simp
  let ?d = "dst[Suc pos := 0]"
  have m: "(int (Suc pos) - 1) mod 2 ^ 32 = int pos" "(int pos + 1) mod 2 ^ 32 = int (Suc pos)"
    using b by simp_all
  obtain dst' pos' value' where l: "ull2string_loop ?d (int pos) n = Some (dst', pos', value')"
    "ull2string_last dst' pos' value' = Some (dec n @ drop (Suc pos) ?d)"
    using ull2string_loop_ok [of pos ?d n] True p b by auto
  have "drop (Suc pos) ?d = 0 # drop (Suc (Suc pos)) dst"
    using True p Cons_nth_drop_Suc [of "Suc pos" ?d] by simp
  then show ?thesis
    using True p l set_byte_ok [of "Suc pos" dst 0] unfolding ull2string_def digits10_correct p Let_def m
    by (simp del: of_nat_Suc)
next
  case False
  then show ?thesis by (simp add: ull2string_def digits10_correct)
qed

lemma ll2string_ok:
  assumes "in_sint 64 v"
  shows "ll2string dst v =
    (if length (dec_int v) < length dst
     then Some (dec_int v @ [0] @ drop (Suc (length (dec_int v))) dst, length (dec_int v))
     else Some (if v < 0 \<and> 2 \<le> length dst then 45 # fst (string_err (tl dst)) else fst (string_err dst), 0))"
proof -
  have b: "- (2 ^ 63) \<le> v" "v < 2 ^ 63" using assms by (simp_all add: in_sint_def)
  show ?thesis
  proof (cases "v < 0")
    case True
    let ?n = "nat (- v)"
    have n: "nat (if v \<noteq> INT64_MIN then - v else INT64_MAX + 1) = ?n" by simp
    have "?n < 2 ^ 64" using b by simp
    note u = ull2string_ok [OF this, of "tl dst"]
    show ?thesis
      using True u unfolding ll2string_def n Let_def
      by (cases dst) (auto simp: dec_int_def string_err_def Suc_le_eq)
  next
    case False
    then have "nat v < 2 ^ 64" using b by simp
    note u = ull2string_ok [OF this, of dst]
    show ?thesis using False u by (auto simp: ll2string_def dec_int_def string_err_def)
  qed
qed

section \<open>Parsing\<close>

definition is_digit :: "byte \<Rightarrow> bool" where
  "is_digit c \<longleftrightarrow> 48 \<le> c \<and> c \<le> 57"

fun digits_value :: "int \<Rightarrow> bytes \<Rightarrow> int" where
  "digits_value a [] = a"
| "digits_value a (c # cs) = digits_value (a * 10 + (uint c - 48)) cs"

lemma is_digit_uint: "is_digit c \<longleftrightarrow> 48 \<le> uint c \<and> uint c \<le> 57"
  by (simp add: is_digit_def word_le_def)

lemma uint_digit: "d < 10 \<Longrightarrow> uint (48 + word_of_nat d :: byte) = 48 + int d"
proof -
  assume d: "d < 10"
  have "unat (48 + word_of_nat d :: byte) = (48 + d) mod 256"
    by (simp add: unat_word_ariths unat_of_nat mod_simps)
  then have "unat (48 + word_of_nat d :: byte) = 48 + d" using d by simp
  then show ?thesis by (simp add: uint_nat)
qed

lemma digit_word:
  assumes "is_digit c"
  shows "c = 48 + word_of_nat (nat (uint c - 48))"
proof (rule word_uint_eqI)
  show "uint c = uint (48 + word_of_nat (nat (uint c - 48)) :: byte)"
    using assms uint_digit [of "nat (uint c - 48)"] by (simp add: is_digit_uint)
qed

lemma digits_value_append: "digits_value a (xs @ ys) = digits_value (digits_value a xs) ys"
  by (induction xs arbitrary: a) simp_all

lemma digits_value_ge: "0 \<le> a \<Longrightarrow> list_all is_digit cs \<Longrightarrow> a \<le> digits_value a cs"
proof (induction cs arbitrary: a)
  case (Cons c cs)
  then have "a \<le> a * 10 + (uint c - 48)" by (simp add: is_digit_uint)
  then show ?case using Cons.IH [of "a * 10 + (uint c - 48)"] Cons.prems by simp
qed simp

lemma digit_loop_iff:
  "0 \<le> v \<Longrightarrow> v \<le> UINT64_MAX \<Longrightarrow>
   digit_loop cs v = Some (w, []) \<longleftrightarrow> list_all is_digit cs \<and> w = digits_value v cs \<and> w \<le> UINT64_MAX"
proof (induction cs arbitrary: v)
  case Nil
  then show ?case by auto
next
  case (Cons c cs)
  show ?case
  proof (cases "is_digit c")
    case False
    then have "digit_loop (c # cs) v = Some (v, c # cs)" by (auto simp: is_digit_def)
    then show ?thesis using False by simp
  next
    case True
    let ?v = "v * 10 + (uint c - 48)"
    have c: "48 \<le> uint c" "uint c \<le> 57" using True by (simp_all add: is_digit_uint)
    show ?thesis
    proof (cases "?v \<le> UINT64_MAX")
      case le: True
      then have "digit_loop (c # cs) v = digit_loop cs ?v" using True c Cons.prems by (simp add: is_digit_def)
      then show ?thesis using Cons.IH [of ?v] True le c Cons.prems(1) by simp
    next
      case gt: False
      then have "digit_loop (c # cs) v = None" using True c by (auto simp: is_digit_def)
      moreover have "\<not> digits_value ?v cs \<le> UINT64_MAX" if "list_all is_digit cs"
        using digits_value_ge [OF _ that, of ?v] gt c Cons.prems(1) by linarith
      ultimately show ?thesis by auto
    qed
  qed
qed

lemma digits_value_dec: "digits_value 0 (dec n) = int n"
proof (induction n rule: dec.induct)
  case (1 n)
  show ?case
  proof (cases "n < 10")
    case True
    then show ?thesis by (simp add: uint_digit)
  next
    case False
    then show ?thesis using 1 dec_step [of n] uint_digit [of "n mod 10"] by (simp add: digits_value_append zdiv_int zmod_int)
  qed
qed

lemma dec_all_digits: "list_all is_digit (dec n)"
  using dec_digits [of _ n] uint_digit by (fastforce simp: list_all_iff is_digit_uint)

lemma dec_num:
  "list_all is_digit cs \<Longrightarrow> cs \<noteq> [] \<Longrightarrow> hd cs \<noteq> 48 \<or> length cs = 1 \<Longrightarrow> dec (nat (digits_value 0 cs)) = cs"
proof (induction cs rule: rev_induct)
  case (snoc c xs)
  have c: "is_digit c" "48 \<le> uint c" "uint c \<le> 57" using snoc.prems(1) by (simp_all add: is_digit_uint)
  show ?case
  proof (cases "xs = []")
    case True
    then show ?thesis using c digit_word [OF c(1)] by simp
  next
    case False
    have xs: "list_all is_digit xs" "hd xs \<noteq> 48" using snoc.prems False by simp_all
    then have "1 \<le> digits_value 0 xs"
    proof (cases xs)
      case (Cons d ds)
      have "uint d \<noteq> 48" using xs(2) Cons word_uint_eqI [of d 48] by auto
      then have "48 < uint d" using xs(1) Cons by (simp add: is_digit_uint)
      then show ?thesis using digits_value_ge [of "uint d - 48" ds] xs Cons by simp
    qed (use False in simp)
    then have n0: "digits_value 0 xs = int (nat (digits_value 0 xs))" "1 \<le> nat (digits_value 0 xs)" by linarith+
    obtain n where n: "digits_value 0 xs = int n" "1 \<le> n" using n0 by blast
    have d0: "uint c = 48 + int (nat (uint c - 48))" "nat (uint c - 48) < 10" using c by linarith+
    obtain d where d: "uint c = 48 + int d" "d < 10" using d0 by blast
    have "nat (digits_value 0 (xs @ [c])) = n * 10 + d" using n d by (simp add: digits_value_append nat_eq_iff)
    moreover have "dec (n * 10 + d) = dec n @ [48 + word_of_nat d]" using dec_step [of "n * 10 + d"] n d by simp
    moreover have "dec n = xs" using snoc.IH xs False n by simp
    moreover have "c = 48 + word_of_nat d" using digit_word [OF c(1)] d by simp
    ultimately show ?thesis by simp
  qed
qed simp

lemma hd_dec: "0 < n \<Longrightarrow> 48 < uint (hd (dec n)) \<and> uint (hd (dec n)) \<le> 57"
proof (induction n rule: dec.induct)
  case (1 n)
  show ?case
  proof (cases "n < 10")
    case True
    then show ?thesis using 1 by (simp add: uint_digit)
  next
    case False
    then show ?thesis using 1 dec_step [of n] by simp
  qed
qed

lemma string2ll_positive:
  assumes "s \<noteq> []" "length s < LONG_STR_SIZE" "hd s \<noteq> 45" "s \<noteq> [48]"
  shows "string2ll s = Some v \<longleftrightarrow> 0 < v \<and> v \<le> INT64_MAX \<and> s = dec (nat v)"
proof -
  obtain c p where s: "s = c # p" using assms(1) by (cases s) auto
  have str: "string2ll s = (if c \<ge> 49 \<and> c \<le> 57 then do { (v, rest) \<leftarrow> digit_loop p (uint c - 48);
      if rest \<noteq> [] then None else if v > INT64_MAX then None else Some v } else None)"
    using assms s by (cases "digit_loop p (uint c - 48)") (auto simp: string2ll_def Let_def)
  show ?thesis
  proof (cases "c \<ge> 49 \<and> c \<le> 57")
    case True
    then have c: "49 \<le> uint c" "uint c \<le> 57" "is_digit c" "c \<noteq> 48" by (auto simp: word_le_def is_digit_uint)
    have "string2ll s = Some v \<longleftrightarrow> digit_loop p (uint c - 48) = Some (v, []) \<and> v \<le> INT64_MAX"
      using str True by (cases "digit_loop p (uint c - 48)") (auto split: if_splits)
    also have "\<dots> \<longleftrightarrow> list_all is_digit s \<and> v = digits_value 0 s \<and> v \<le> INT64_MAX"
      using digit_loop_iff [of "uint c - 48" p v] c s by auto
    also have "\<dots> \<longleftrightarrow> 0 < v \<and> v \<le> INT64_MAX \<and> s = dec (nat v)"
    proof safe
      assume d: "list_all is_digit s" "digits_value 0 s \<le> INT64_MAX"
      show "0 < digits_value 0 s" using digits_value_ge [of "uint c - 48" p] c d s by simp
      show "s = dec (nat (digits_value 0 s))" using dec_num [of s] d s c by simp
    next
      assume v: "0 < v" "v \<le> INT64_MAX" "s = dec (nat v)"
      show "list_all is_digit (dec (nat v))" by (rule dec_all_digits)
      show "v = digits_value 0 (dec (nat v))" using v digits_value_dec by simp
    qed
    finally show ?thesis .
  next
    case False
    moreover have "\<not> (0 < v \<and> s = dec (nat v))" using False hd_dec [of "nat v"] s
      by (auto simp: word_le_def dest: arg_cong [where f = hd])
    ultimately show ?thesis using str by auto
  qed
qed

lemma string2ll_negative:
  assumes "length (45 # s) < LONG_STR_SIZE"
  shows "string2ll (45 # s) = Some v \<longleftrightarrow> v < 0 \<and> INT64_MIN \<le> v \<and> s = dec (nat (- v))"
proof (cases s)
  case Nil
  then show ?thesis by (auto simp: string2ll_def Let_def)
next
  case (Cons c p)
  have neg: "to_sint 64 (to_uint 64 (- w)) = - w" if "0 \<le> w" "w \<le> 2 ^ 63" for w
    using that to_sint_id [of 64 "- w"] unfolding to_uint_def to_sint_to_uint by (simp add: in_sint_def)
  have str: "string2ll (45 # s) = (if c \<ge> 49 \<and> c \<le> 57 then do { (v, rest) \<leftarrow> digit_loop p (uint c - 48);
      if rest \<noteq> [] then None else if v > 2 ^ 63 then None else Some (to_sint 64 (to_uint 64 (- v))) } else None)"
    using assms Cons by (cases "digit_loop p (uint c - 48)") (auto simp: string2ll_def Let_def)
  show ?thesis
  proof (cases "c \<ge> 49 \<and> c \<le> 57")
    case True
    then have c: "49 \<le> uint c" "uint c \<le> 57" "is_digit c" "c \<noteq> 48" by (auto simp: word_le_def is_digit_uint)
    have pos: "0 < digits_value 0 s" if "list_all is_digit s" using digits_value_ge [of "uint c - 48" p] c that Cons by simp
    have "string2ll (45 # s) = Some v \<longleftrightarrow>
        (\<exists>w. digit_loop p (uint c - 48) = Some (w, []) \<and> w \<le> 2 ^ 63 \<and> v = to_sint 64 (to_uint 64 (- w)))"
      using str True by (cases "digit_loop p (uint c - 48)") (auto split: if_splits)
    also have "\<dots> \<longleftrightarrow> list_all is_digit s \<and> digits_value 0 s \<le> 2 ^ 63 \<and> v = - digits_value 0 s"
      using digit_loop_iff [of "uint c - 48" p] c Cons neg pos by auto
    also have "\<dots> \<longleftrightarrow> v < 0 \<and> INT64_MIN \<le> v \<and> s = dec (nat (- v))"
    proof safe
      assume d: "list_all is_digit s" "digits_value 0 s \<le> 2 ^ 63"
      show "- digits_value 0 s < 0" using pos [OF d(1)] by simp
      show "INT64_MIN \<le> - digits_value 0 s" using d(2) by simp
      show "s = dec (nat (- (- digits_value 0 s)))" using dec_num [of s] d Cons c by simp
    next
      assume v: "v < 0" "INT64_MIN \<le> v" "s = dec (nat (- v))"
      show "list_all is_digit (dec (nat (- v)))" by (rule dec_all_digits)
      show "digits_value 0 (dec (nat (- v))) \<le> 2 ^ 63" "v = - digits_value 0 (dec (nat (- v)))" using v digits_value_dec by simp_all
    qed
    finally show ?thesis .
  next
    case False
    moreover have "\<not> (v < 0 \<and> s = dec (nat (- v)))" using False hd_dec [of "nat (- v)"] Cons
      by (auto simp: word_le_def dest: arg_cong [where f = hd])
    ultimately show ?thesis using str by auto
  qed
qed

lemma length_dec_int: "in_sint 64 v \<Longrightarrow> length (dec_int v) \<le> 20"
  using length_dec_bound [of "nat v" 20] length_dec_bound [of "nat (- v)" 19]
  by (auto simp: dec_int_def in_sint_def nat_less_iff)

lemma dec_int_not_Nil [simp]: "dec_int v \<noteq> []"
  by (simp add: dec_int_def)

lemma hd_dec_int: "0 \<le> v \<Longrightarrow> hd (dec_int v) \<noteq> 45"
proof -
  assume "0 \<le> v"
  then have "is_digit (hd (dec_int v))"
    using dec_all_digits [of "nat v"] by (cases "dec (nat v)") (simp_all add: dec_int_def)
  then show ?thesis by (auto simp: is_digit_uint)
qed

lemma dec_int_zero: "dec_int v = [48] \<longleftrightarrow> v = 0"
proof
  assume a: "dec_int v = [48]"
  then have "0 \<le> v" by (auto simp: dec_int_def split: if_splits)
  then have "digits_value 0 (dec_int v) = v" using digits_value_dec [of "nat v"] by (simp add: dec_int_def)
  then show "v = 0" using a by simp
qed (simp add: dec_int_def)

lemma string2ll_iff: "string2ll s = Some v \<longleftrightarrow> in_sint 64 v \<and> s = dec_int v"
proof -
  have rng: "in_sint 64 v \<longleftrightarrow> INT64_MIN \<le> v \<and> v \<le> INT64_MAX" by (auto simp: in_sint_def)
  consider "s = [] \<or> LONG_STR_SIZE \<le> length s" | "s = [48]" | t where "s = 45 # t" "length s < LONG_STR_SIZE"
    | "s \<noteq> []" "length s < LONG_STR_SIZE" "hd s \<noteq> 45" "s \<noteq> [48]"
    by (metis list.collapse not_le)
  then show ?thesis
  proof cases
    case 1
    then have "string2ll s = None" by (simp add: string2ll_def)
    then show ?thesis using 1 length_dec_int [of v] by (auto simp: LONG_STR_SIZE_def)
  next
    case 2
    then have "string2ll s = Some 0" by (simp add: string2ll_def LONG_STR_SIZE_def)
    then show ?thesis using 2 dec_int_zero [of v] by (auto simp: in_sint_def)
  next
    case (3 t)
    have "dec_int v = 45 # t \<longleftrightarrow> v < 0 \<and> t = dec (nat (- v))"
      using hd_dec_int [of v] by (auto simp: dec_int_def split: if_splits)
    then show ?thesis using 3 string2ll_negative [of t v] rng by auto
  next
    case 4
    have "s = dec_int v \<longleftrightarrow> 0 < v \<and> s = dec (nat v)"
      using 4 dec_int_zero [of v] by (auto simp: dec_int_def split: if_splits)
    then show ?thesis using 4 string2ll_positive [of s v] rng by auto
  qed
qed

section \<open>Units and hexadecimal numbers\<close>

lemma strtoull_digits_min:
  "0 \<le> v \<Longrightarrow> v \<le> UINT64_MAX \<Longrightarrow> list_all is_digit cs \<Longrightarrow> strtoull_digits cs v = min UINT64_MAX (digits_value v cs)"
proof (induction cs arbitrary: v)
  case (Cons c cs)
  let ?v = "v * 10 + (uint c - 48)"
  have "is_digit c" and c: "list_all is_digit cs" using Cons.prems by simp_all
  then have c0: "0 \<le> uint c - 48" by (simp add: is_digit_uint)
  note c = c0 c
  have ge: "?v \<le> digits_value ?v cs" using digits_value_ge [OF _ c(2), of ?v] c Cons.prems by simp
  have big: "UINT64_MAX \<le> digits_value UINT64_MAX cs" using digits_value_ge [OF _ c(2), of UINT64_MAX] by simp
  show ?case
  proof (cases "?v \<le> UINT64_MAX")
    case True
    then have "min UINT64_MAX ?v = ?v" by (rule min_absorb2)
    then show ?thesis using Cons.IH [of ?v] c Cons.prems True by simp
  next
    case False
    then show ?thesis using Cons.IH [of UINT64_MAX] c big ge by (simp add: min_def)
  qed
qed simp

lemma memtoull_ok:
  assumes ds: "list_all is_digit ds" "ds \<noteq> []" "length ds < 128"
    and u: "memtoull_unit u = Some mul" "u = [] \<or> \<not> is_digit (hd u)"
  shows "memtoull einval (ds @ u) = (to_uint 64 (min UINT64_MAX (digits_value 0 ds) * mul), False)"
proof -
  have d: "(\<lambda>c. 48 \<le> c \<and> c \<le> 57) = is_digit" by (simp add: fun_eq_iff is_digit_def)
  have "takeWhile is_digit u = []" "dropWhile is_digit u = u" using u(2) by (cases u; simp)+
  then have tw: "takeWhile is_digit (ds @ u) = ds" "dropWhile is_digit (ds @ u) = u"
    using ds(1) by (simp_all add: takeWhile_append2 dropWhile_append2 list_all_iff)
  have "hd (ds @ u) \<noteq> 45" using ds(1,2) by (cases ds) (auto simp: is_digit_uint)
  then show ?thesis using tw u(1) ds strtoull_digits_min [of 0 ds] unfolding memtoull_def d by simp
qed

definition hex_val :: "byte \<Rightarrow> int" where
  "hex_val c = uint c - ascii_to_dec (base_16_char_type c)"

fun hex_num :: "int \<Rightarrow> bytes \<Rightarrow> int" where
  "hex_num a [] = a"
| "hex_num a (c # cs) = hex_num (a * 16 + hex_val c) cs"

definition is_hex :: "byte \<Rightarrow> bool" where
  "is_hex c \<longleftrightarrow> base_16_char_type c \<noteq> - 1"

lemma hex_val_range: "is_hex c \<Longrightarrow> 0 \<le> hex_val c \<and> hex_val c < 16"
  by (auto simp: is_hex_def hex_val_def base_16_char_type_def ascii_to_dec_def word_le_def split: if_splits)

lemma hex_num_ge: "0 \<le> a \<Longrightarrow> list_all is_hex cs \<Longrightarrow> a \<le> hex_num a cs"
proof (induction cs arbitrary: a)
  case (Cons c cs)
  then have "a \<le> a * 16 + hex_val c" using hex_val_range [of c] by simp
  then show ?case using Cons.IH [of "a * 16 + hex_val c"] Cons.prems by simp
qed simp

lemma base16_overflow:
  assumes "is_hex h"
  shows "a > UINT64_MAX div 16 \<or> a > (UINT64_MAX - hex_val h) div 16 \<longleftrightarrow> a * 16 + hex_val h > UINT64_MAX"
proof -
  have h: "0 \<le> hex_val h" "hex_val h < 16" using hex_val_range [OF assms] by simp_all
  then have "(UINT64_MAX - hex_val h) div 16 = 1152921504606846975" by linarith
  then show ?thesis using h by auto
qed

lemma base16_loop_end:
  "list_all is_hex hs \<Longrightarrow> length hs \<le> slen \<Longrightarrow> 0 \<le> a \<Longrightarrow> hex_num a hs \<le> UINT64_MAX \<Longrightarrow> base16_loop hs slen a = None"
proof (induction hs arbitrary: a slen)
  case (Cons h hs)
  let ?a = "a * 16 + hex_val h"
  have h: "0 \<le> hex_val h" "is_hex h" using hex_val_range [of h] Cons.prems(1) by simp_all
  have "?a \<le> UINT64_MAX" using hex_num_ge [of ?a hs] Cons.prems h by simp
  then have "base16_loop (h # hs) slen a = base16_loop hs (slen - 1) ?a"
    using base16_overflow [OF h(2), of a] h(2) Cons.prems(2) by (auto simp: is_hex_def hex_val_def Let_def)
  then show ?case using Cons.IH [of "slen - 1" ?a] Cons.prems h by simp
qed simp

lemma base16_loop_ok:
  "list_all is_hex hs \<Longrightarrow> length hs \<le> slen \<Longrightarrow> \<not> is_hex c \<or> length hs = slen \<Longrightarrow> 0 \<le> a \<Longrightarrow> a \<le> UINT64_MAX \<Longrightarrow>
   base16_loop (hs @ c # rest) slen a =
     Some (if hex_num a hs \<le> UINT64_MAX then Some (hex_num a hs) else None)"
proof (induction hs arbitrary: a slen)
  case Nil
  then show ?case by (auto simp: is_hex_def)
next
  case (Cons h hs)
  let ?a = "a * 16 + hex_val h"
  have h: "0 \<le> hex_val h" "hex_val h < 16" "is_hex h" using hex_val_range [of h] Cons.prems(1) by simp_all
  note over = base16_overflow [OF h(3), of a]
  show ?case
  proof (cases "?a \<le> UINT64_MAX")
    case True
    then have "base16_loop ((h # hs) @ c # rest) slen a = base16_loop (hs @ c # rest) (slen - 1) ?a"
      using over h(3) Cons.prems(2) by (auto simp: is_hex_def hex_val_def Let_def)
    then show ?thesis using Cons.IH [of "slen - 1" ?a] Cons.prems True h by auto
  next
    case False
    have "?a \<le> hex_num ?a hs" using hex_num_ge [of ?a hs] h Cons.prems by simp
    moreover have "base16_loop ((h # hs) @ c # rest) slen a = Some None"
      using False over h(3) Cons.prems(2) by (auto simp: is_hex_def hex_val_def Let_def)
    ultimately show ?thesis using False by simp
  qed
qed

section \<open>Properties\<close>

text \<open>
  (C25) \<^verbatim>\<open>string2ll\<close> accepts exactly the canonical decimal numerals of the 64-bit integers: it returns
  a value if and only if the string is the numeral \<^verbatim>\<open>ll2string\<close> prints for that value. No other
  string is accepted, and none of the range.
\<close>

theorem string2ll_exact: "string2ll s = Some v \<longleftrightarrow> in_sint 64 v \<and> s = dec_int v"
  by (rule string2ll_iff)

text \<open>
  (C26) Printing a 64-bit integer into a buffer of at least 21 bytes and parsing the bytes written
  gives the integer back; the string is terminated and the rest of the buffer is untouched.
\<close>

theorem ll2string_roundtrip:
  assumes "in_sint 64 v" and "21 \<le> length dst"
  shows "\<exists>dst' n. ll2string dst v = Some (dst', n) \<and> string2ll (take n dst') = Some v \<and> dst' ! n = 0 \<and>
    length dst' = length dst \<and> drop (Suc n) dst' = drop (Suc n) dst"
proof -
  have "length (dec_int v) < length dst" using length_dec_int [OF assms(1)] assms(2) by simp
  then show ?thesis using ll2string_ok [OF assms(1), of dst] string2ll_iff [of "dec_int v" v] assms(1)
    by (auto simp: nth_append)
qed

theorem ll2string_roundtrip_witness:
  "\<exists>dst' n. ll2string (replicate 21 7) INT64_MIN = Some (dst', n) \<and> string2ll (take n dst') = Some INT64_MIN"
  using ll2string_roundtrip [of INT64_MIN "replicate 21 7"] by (auto simp: in_sint_def)

text \<open>
  \<^verbatim>\<open>ull2string\<close>, which computes the number of digits by comparisons and prints two digits at a
  time from a table, prints the ordinary decimal numeral, and refuses a buffer that has no room for
  the numeral and its terminator.
\<close>

theorem ull2string_prints:
  assumes "value < 2 ^ 64"
  shows "digits10 value = length (dec value) \<and> ull2string dst value =
    Some (if length (dec value) < length dst
          then (dec value @ [0] @ drop (Suc (length (dec value))) dst, length (dec value))
          else (if dst = [] then [] else dst[0 := 0], 0))"
  using ull2string_ok [OF assms, of dst] digits10_correct [of "value"] by (simp_all add: string_err_def)

theorem ull2string_prints_witness:
  "ull2string [7, 7, 7, 7, 7] 1234 = Some ([49, 50, 51, 52, 0], 4) \<and> ull2string [7, 7, 7, 7] 1234 = Some ([0, 7, 7, 7], 0)"
proof -
  have "dec 1234 = [49, 50, 51, 52]" by code_simp
  then show ?thesis using ull2string_prints [of 1234 "[7, 7, 7, 7, 7]"] ull2string_prints [of 1234 "[7, 7, 7, 7]"] by simp
qed

text \<open>
  A memory size whose value does not fit 64 bits is not refused: \<^verbatim>\<open>memtoull\<close> reports no error
  and returns the product of the saturated number and the unit modulo \<open>2 ^ 64\<close>.
\<close>

theorem memtoull_wraps:
  assumes "list_all is_digit ds" and "ds \<noteq> []" and "length ds < 128"
    and "memtoull_unit u = Some mul" and "u = [] \<or> \<not> is_digit (hd u)"
  shows "memtoull einval (ds @ u) = ((min UINT64_MAX (digits_value 0 ds) * mul) mod 2 ^ 64, False)"
  using memtoull_ok [OF assms] by (simp add: to_uint_def)

theorem memtoull_wraps_witness:
  \<comment> \<open>\<^verbatim>\<open>17179869184gb\<close> is 0 bytes\<close>
  "memtoull False ([49, 55, 49, 55, 57, 56, 54, 57, 49, 56, 52] @ [103, 98]) = (0, False)"
proof -
  have "list_all is_digit [49, 55, 49, 55, 57, 56, 54, 57, 49, 56, 52]" by code_simp
  moreover have "memtoull_unit [103, 98] = Some (1024 * 1024 * 1024)" by code_simp
  moreover have "\<not> is_digit (hd [103, 98])" by code_simp
  moreover have "digits_value 0 [49, 55, 49, 55, 57, 56, 54, 57, 49, 56, 52] = 17179869184" by code_simp
  ultimately show ?thesis
    using memtoull_wraps [of "[49, 55, 49, 55, 57, 56, 54, 57, 49, 56, 52]" "[103, 98]" "1024 * 1024 * 1024" False] by simp
qed

text \<open>
  Hexadecimal parsing is exact up to the first byte that is no hexadecimal digit or to the
  given length, and reports an overflow exactly when the value does not fit 64 bits. The byte behind
  the digits is read even when the length is exhausted, so it has to exist: without it the function
  reads outside the string.
\<close>

theorem string2ul_base16_correct:
  assumes "list_all is_hex hs" and "length hs \<le> slen"
  shows "(\<not> is_hex c \<or> length hs = slen \<longrightarrow> string2ul_base16_async_signal_safe (hs @ c # rest) slen =
      Some (if hex_num 0 hs \<le> UINT64_MAX then Some (hex_num 0 hs) else None)) \<and>
    (hex_num 0 hs \<le> UINT64_MAX \<longrightarrow> string2ul_base16_async_signal_safe hs slen = None)"
  using base16_loop_ok [OF assms, of c 0 rest] base16_loop_end [OF assms, of 0]
  by (simp add: string2ul_base16_async_signal_safe_def)

theorem string2ul_base16_correct_witness:
  "string2ul_base16_async_signal_safe ([55, 102] @ 32 # []) 2 = Some (Some 127) \<and>
   string2ul_base16_async_signal_safe [55, 102] 2 = None"
proof -
  have "list_all is_hex [55, 102]" by code_simp
  moreover have "hex_num 0 [55, 102] = 127" by code_simp
  ultimately show ?thesis using string2ul_base16_correct [of "[55, 102]" 2 32 "[]"] by simp
qed

end
