(* ===== verification/Listpack.thy ===== *)
theory Listpack
  imports Util
begin

text \<open>
  The serialised list of \<^verbatim>\<open>listpack.c\<close>: a header of six bytes (the total size and the number of
  elements, both little-endian), the elements, and the end marker \<^verbatim>\<open>0xFF\<close>. An element is its
  encoding, self-delimiting from the left, followed by the length of the encoding in a variable-length
  field that is self-delimiting from the right, so that the list can be walked in both directions.

  A listpack is the list of the bytes of its allocation, of which \<^verbatim>\<open>lp_malloc_size\<close> is the length. A
  pointer into it is its offset. Results are nested options: the outer \<open>None\<close> is an access outside
  the allocation or a failed assertion, the inner one is a null pointer the function returns.
\<close>

unbundle bit_operations_syntax

section \<open>Encodings\<close>

definition LP_HDR_SIZE :: nat where "LP_HDR_SIZE = 6"
definition LP_HDR_NUMELE_UNKNOWN :: nat where "LP_HDR_NUMELE_UNKNOWN = 65535"
definition LP_EOF :: byte where "LP_EOF = 0xFF"
definition LISTPACK_MAX_SAFETY_SIZE :: nat where "LISTPACK_MAX_SAFETY_SIZE = 2 ^ 30"
definition LP_INTBUF_SIZE :: nat where "LP_INTBUF_SIZE = 21"

abbreviation UINT32_MAX :: nat where "UINT32_MAX \<equiv> 4294967295"

definition LP_ENCODING_IS_7BIT_UINT :: "byte \<Rightarrow> bool" where
  "LP_ENCODING_IS_7BIT_UINT b \<longleftrightarrow> b AND 0x80 = 0"
definition LP_ENCODING_IS_6BIT_STR :: "byte \<Rightarrow> bool" where
  "LP_ENCODING_IS_6BIT_STR b \<longleftrightarrow> b AND 0xC0 = 0x80"
definition LP_ENCODING_IS_13BIT_INT :: "byte \<Rightarrow> bool" where
  "LP_ENCODING_IS_13BIT_INT b \<longleftrightarrow> b AND 0xE0 = 0xC0"
definition LP_ENCODING_IS_12BIT_STR :: "byte \<Rightarrow> bool" where
  "LP_ENCODING_IS_12BIT_STR b \<longleftrightarrow> b AND 0xF0 = 0xE0"
definition LP_ENCODING_IS_16BIT_INT :: "byte \<Rightarrow> bool" where
  "LP_ENCODING_IS_16BIT_INT b \<longleftrightarrow> b AND 0xFF = 0xF1"
definition LP_ENCODING_IS_24BIT_INT :: "byte \<Rightarrow> bool" where
  "LP_ENCODING_IS_24BIT_INT b \<longleftrightarrow> b AND 0xFF = 0xF2"
definition LP_ENCODING_IS_32BIT_INT :: "byte \<Rightarrow> bool" where
  "LP_ENCODING_IS_32BIT_INT b \<longleftrightarrow> b AND 0xFF = 0xF3"
definition LP_ENCODING_IS_64BIT_INT :: "byte \<Rightarrow> bool" where
  "LP_ENCODING_IS_64BIT_INT b \<longleftrightarrow> b AND 0xFF = 0xF4"
definition LP_ENCODING_IS_32BIT_STR :: "byte \<Rightarrow> bool" where
  "LP_ENCODING_IS_32BIT_STR b \<longleftrightarrow> b AND 0xFF = 0xF0"

definition byte_at :: "bytes \<Rightarrow> nat \<Rightarrow> byte option" where
  "byte_at lp p = (if p < length lp then Some (lp ! p) else None)"

definition read_uint :: "bytes \<Rightarrow> nat \<Rightarrow> nat \<Rightarrow> nat option" where
  \<comment> \<open>the bytes from \<open>p\<close> on, shifted together with the first one in the lowest place\<close>
  "read_uint lp p n = map_option (\<lambda>bs. nat (le_uint bs)) (read_bytes lp p n)"

definition LP_ENCODING_6BIT_STR_LEN :: "bytes \<Rightarrow> nat \<Rightarrow> nat option" where
  "LP_ENCODING_6BIT_STR_LEN lp p = do { b \<leftarrow> byte_at lp p; Some (unat b AND 0x3F) }"

definition LP_ENCODING_12BIT_STR_LEN :: "bytes \<Rightarrow> nat \<Rightarrow> nat option" where
  "LP_ENCODING_12BIT_STR_LEN lp p = do {
     b0 \<leftarrow> byte_at lp p; b1 \<leftarrow> byte_at lp (p + 1); Some (push_bit 8 (unat b0 AND 0xF) OR unat b1) }"

definition LP_ENCODING_32BIT_STR_LEN :: "bytes \<Rightarrow> nat \<Rightarrow> nat option" where
  "LP_ENCODING_32BIT_STR_LEN lp p = read_uint lp (p + 1) 4"

definition lpGetTotalBytes :: "bytes \<Rightarrow> nat option" where
  "lpGetTotalBytes lp = read_uint lp 0 4"

definition lpGetNumElements :: "bytes \<Rightarrow> nat option" where
  "lpGetNumElements lp = read_uint lp 4 2"

definition lpSetTotalBytes :: "bytes \<Rightarrow> nat \<Rightarrow> bytes option" where
  "lpSetTotalBytes lp v = write_bytes lp 0 (le_bytes 4 (int v))"

definition lpSetNumElements :: "bytes \<Rightarrow> nat \<Rightarrow> bytes option" where
  "lpSetNumElements lp v = write_bytes lp 4 (le_bytes 2 (int v))"

definition lpBytes :: "bytes \<Rightarrow> nat option" where
  "lpBytes lp = lpGetTotalBytes lp"

definition lpSafeToAdd :: "bytes option \<Rightarrow> nat \<Rightarrow> bool option" where
  "lpSafeToAdd lp add = do {
     len \<leftarrow> (case lp of Some l \<Rightarrow> lpGetTotalBytes l | None \<Rightarrow> Some 0);
     Some (\<not> (len + add) mod 2 ^ 64 > LISTPACK_MAX_SAFETY_SIZE)
   }"

text \<open>\<open>None\<close> is the return value 0.\<close>

definition lpStringToInt64 :: "bytes \<Rightarrow> int option" where
  "lpStringToInt64 s =
     (if length s = 0 \<or> length s \<ge> LONG_STR_SIZE then None
      else if length s = 1 \<and> hd s = 48 then Some 0
      else
        let negative = (hd s = 45); p = (if negative then tl s else s) in
        case p of
          [] \<Rightarrow> None
        | c # p' \<Rightarrow>
            if c \<ge> 49 \<and> c \<le> 57
            then do {
              (v, rest) \<leftarrow> digit_loop p' (uint c - 48);
              if rest \<noteq> [] then None
              else if negative
                then if v > - (INT64_MIN + 1) + 1 then None else Some (to_sint 64 (to_uint 64 (- v)))
                else if v > INT64_MAX then None else Some v
            }
            else None)"

definition lpNew :: "(nat \<Rightarrow> byte) \<Rightarrow> nat \<Rightarrow> bytes option" where
  "lpNew junk capacity = do {
     let lp = map junk [0..<(if capacity > LP_HDR_SIZE + 1 then capacity else LP_HDR_SIZE + 1)];
     lp1 \<leftarrow> lpSetTotalBytes lp (LP_HDR_SIZE + 1);
     lp2 \<leftarrow> lpSetNumElements lp1 0;
     write_bytes lp2 LP_HDR_SIZE [LP_EOF]
   }"

definition lpShrinkToFit :: "bytes \<Rightarrow> bytes option" where
  "lpShrinkToFit lp = do {
     size \<leftarrow> lpGetTotalBytes lp;
     Some (if size < length lp then take size lp else lp)
   }"

text \<open>The encoding of an integer; its length is \<^verbatim>\<open>*enclen\<close>.\<close>

definition lpEncodeIntegerGetType :: "int \<Rightarrow> bytes" where
  "lpEncodeIntegerGetType v =
     (if v \<ge> 0 \<and> v \<le> 127 then [word_of_int v]
      else if v \<ge> - 4096 \<and> v \<le> 4095 then
        (let v = (if v < 0 then 2 ^ 13 + v else v)
         in [word_of_int (drop_bit 8 v OR 0xC0), word_of_int (v AND 0xFF)])
      else if v \<ge> - 32768 \<and> v \<le> 32767 then
        (let v = (if v < 0 then 2 ^ 16 + v else v) in 0xF1 # le_bytes 2 v)
      else if v \<ge> - 8388608 \<and> v \<le> 8388607 then
        (let v = (if v < 0 then 2 ^ 24 + v else v) in 0xF2 # le_bytes 3 v)
      else if v \<ge> - 2147483648 \<and> v \<le> 2147483647 then
        (let v = (if v < 0 then 2 ^ 32 + v else v) in 0xF3 # le_bytes 4 v)
      else (let uv = to_uint 64 v in 0xF4 # le_bytes 8 uv))"

datatype lp_enctype = LP_ENCODING_INT bytes | LP_ENCODING_STRING

definition lpEncodeGetType :: "bytes \<Rightarrow> lp_enctype \<times> nat" where
  "lpEncodeGetType ele =
     (case lpStringToInt64 ele of
        Some v \<Rightarrow> (LP_ENCODING_INT (lpEncodeIntegerGetType v), length (lpEncodeIntegerGetType v))
      | None \<Rightarrow>
          (LP_ENCODING_STRING,
           if length ele < 64 then 1 + length ele
           else if length ele < 4096 then 2 + length ele else 5 + length ele))"

definition lpEncodeBacklen :: "nat \<Rightarrow> bytes" where
  "lpEncodeBacklen l =
     (if l \<le> 127 then [word_of_nat l]
      else if l < 16383 then [word_of_nat (drop_bit 7 l), word_of_nat ((l AND 127) OR 128)]
      else if l < 2097151 then
        [word_of_nat (drop_bit 14 l), word_of_nat ((drop_bit 7 l AND 127) OR 128), word_of_nat ((l AND 127) OR 128)]
      else if l < 268435455 then
        [word_of_nat (drop_bit 21 l), word_of_nat ((drop_bit 14 l AND 127) OR 128),
         word_of_nat ((drop_bit 7 l AND 127) OR 128), word_of_nat ((l AND 127) OR 128)]
      else
        [word_of_nat (drop_bit 28 l), word_of_nat ((drop_bit 21 l AND 127) OR 128),
         word_of_nat ((drop_bit 14 l AND 127) OR 128), word_of_nat ((drop_bit 7 l AND 127) OR 128),
         word_of_nat ((l AND 127) OR 128)])"

definition lpEncodeBacklenBytes :: "nat \<Rightarrow> nat" where
  "lpEncodeBacklenBytes l =
     (if l \<le> 127 then 1 else if l < 16383 then 2 else if l < 2097151 then 3 else if l < 268435455 then 4 else 5)"

text \<open>The loop of \<^verbatim>\<open>lpDecodeBacklen\<close>, which walks to the left; \<open>p\<close> is one more than the offset.\<close>

function decode_backlen_loop :: "bytes \<Rightarrow> nat \<Rightarrow> nat \<Rightarrow> nat \<Rightarrow> nat option" where
  "decode_backlen_loop lp p shift val =
     (if p = 0 then None
      else do {
        b \<leftarrow> byte_at lp (p - 1);
        let val = val OR push_bit shift (unat b AND 127);
        if unat b AND 128 = 0 then Some val
        else if shift + 7 > 28 then Some 18446744073709551615
        else decode_backlen_loop lp (p - 1) (shift + 7) val
      })"
  by pat_completeness auto
termination by (relation "measure (\<lambda>(lp, p, shift, val). p)") auto

declare decode_backlen_loop.simps [simp del]

definition lpDecodeBacklen :: "bytes \<Rightarrow> nat \<Rightarrow> nat option" where
  "lpDecodeBacklen lp p = decode_backlen_loop lp (p + 1) 0 0"

text \<open>The bytes \<^verbatim>\<open>lpEncodeString\<close> writes.\<close>

definition lpEncodeString :: "bytes \<Rightarrow> bytes" where
  "lpEncodeString s =
     (let len = length s in
      if len < 64 then word_of_nat (len OR 0x80) # s
      else if len < 4096 then word_of_nat (drop_bit 8 len OR 0xE0) # word_of_nat (len AND 0xFF) # s
      else 0xF0 # le_bytes 4 (int len) @ s)"

definition lpCurrentEncodedSizeUnsafe :: "bytes \<Rightarrow> nat \<Rightarrow> nat option" where
  "lpCurrentEncodedSizeUnsafe lp p = do {
     b \<leftarrow> byte_at lp p;
     if LP_ENCODING_IS_7BIT_UINT b then Some 1
     else if LP_ENCODING_IS_6BIT_STR b then map_option (\<lambda>n. 1 + n) (LP_ENCODING_6BIT_STR_LEN lp p)
     else if LP_ENCODING_IS_13BIT_INT b then Some 2
     else if LP_ENCODING_IS_16BIT_INT b then Some 3
     else if LP_ENCODING_IS_24BIT_INT b then Some 4
     else if LP_ENCODING_IS_32BIT_INT b then Some 5
     else if LP_ENCODING_IS_64BIT_INT b then Some 9
     else if LP_ENCODING_IS_12BIT_STR b then map_option (\<lambda>n. 2 + n) (LP_ENCODING_12BIT_STR_LEN lp p)
     else if LP_ENCODING_IS_32BIT_STR b then map_option (\<lambda>n. (5 + n) mod 2 ^ 32) (LP_ENCODING_32BIT_STR_LEN lp p)
     else if b = LP_EOF then Some 1
     else Some 0
   }"

definition lpCurrentEncodedSizeBytes :: "byte \<Rightarrow> nat" where
  "lpCurrentEncodedSizeBytes b =
     (if LP_ENCODING_IS_7BIT_UINT b then 1
      else if LP_ENCODING_IS_6BIT_STR b then 1
      else if LP_ENCODING_IS_13BIT_INT b then 1
      else if LP_ENCODING_IS_16BIT_INT b then 1
      else if LP_ENCODING_IS_24BIT_INT b then 1
      else if LP_ENCODING_IS_32BIT_INT b then 1
      else if LP_ENCODING_IS_64BIT_INT b then 1
      else if LP_ENCODING_IS_12BIT_STR b then 2
      else if LP_ENCODING_IS_32BIT_STR b then 5
      else if b = LP_EOF then 1
      else 0)"

section \<open>Walking\<close>

definition lpSkip :: "bytes \<Rightarrow> nat \<Rightarrow> nat option" where
  "lpSkip lp p = do {
     entrylen \<leftarrow> lpCurrentEncodedSizeUnsafe lp p;
     Some (p + (entrylen + lpEncodeBacklenBytes entrylen))
   }"

text \<open>
  \<^verbatim>\<open>lpValidateNext\<close>: the inner \<open>None\<close> is the return value 0, \<open>Some pp\<close> the return value 1 with the
  pointer set to \<open>pp\<close>.
\<close>

definition OUT_OF_RANGE :: "nat \<Rightarrow> nat \<Rightarrow> bool" where
  "OUT_OF_RANGE lpbytes p \<longleftrightarrow> p < LP_HDR_SIZE \<or> \<not> p < lpbytes"

definition lpValidateNext :: "bytes \<Rightarrow> nat option \<Rightarrow> nat \<Rightarrow> nat option option option" where
  "lpValidateNext lp pp lpbytes =
     (case pp of
        None \<Rightarrow> Some None
      | Some p \<Rightarrow>
          if OUT_OF_RANGE lpbytes p then Some None
          else do {
            b \<leftarrow> byte_at lp p;
            if b = LP_EOF then Some (Some None)
            else if lpCurrentEncodedSizeBytes b = 0 then Some None
            else if OUT_OF_RANGE lpbytes (p + lpCurrentEncodedSizeBytes b) then Some None
            else do {
              entrylen0 \<leftarrow> lpCurrentEncodedSizeUnsafe lp p;
              let encodedBacklen = lpEncodeBacklenBytes entrylen0;
              let entrylen = entrylen0 + encodedBacklen;
              if OUT_OF_RANGE lpbytes (p + entrylen) then Some None
              else do {
                prevlen \<leftarrow> lpDecodeBacklen lp (p + entrylen - 1);
                if (prevlen + encodedBacklen) mod 2 ^ 64 \<noteq> entrylen then Some None
                else Some (Some (Some (p + entrylen)))
              }
            }
          })"

definition lpAssertValidEntry :: "bytes \<Rightarrow> nat \<Rightarrow> nat \<Rightarrow> unit option" where
  "lpAssertValidEntry lp lpbytes p =
     (case lpValidateNext lp (Some p) lpbytes of Some (Some _) \<Rightarrow> Some () | _ \<Rightarrow> None)"

definition lpNextWithBytes :: "bytes \<Rightarrow> nat \<Rightarrow> nat \<Rightarrow> nat option option" where
  "lpNextWithBytes lp p lpbytes = do {
     q \<leftarrow> lpSkip lp p;
     b \<leftarrow> byte_at lp q;
     if b = LP_EOF then Some None
     else do { lpAssertValidEntry lp lpbytes q; Some (Some q) }
   }"

definition lpNext :: "bytes \<Rightarrow> nat \<Rightarrow> nat option option" where
  "lpNext lp p = do {
     q \<leftarrow> lpSkip lp p;
     b \<leftarrow> byte_at lp q;
     if b = LP_EOF then Some None
     else do { n \<leftarrow> lpBytes lp; lpAssertValidEntry lp n q; Some (Some q) }
   }"

text \<open>A pointer that would leave the allocation to the left fails the assertion.\<close>

definition lpPrev :: "bytes \<Rightarrow> nat \<Rightarrow> nat option option" where
  "lpPrev lp p =
     (if p = LP_HDR_SIZE then Some None
      else do {
        prevlen0 \<leftarrow> lpDecodeBacklen lp (p - 1);
        let prevlen = (prevlen0 + lpEncodeBacklenBytes prevlen0) mod 2 ^ 64;
        if p < prevlen then None
        else do { n \<leftarrow> lpBytes lp; lpAssertValidEntry lp n (p - prevlen); Some (Some (p - prevlen)) }
      })"

definition lpFirst :: "bytes \<Rightarrow> nat option option" where
  "lpFirst lp = do {
     b \<leftarrow> byte_at lp LP_HDR_SIZE;
     if b = LP_EOF then Some None
     else do { n \<leftarrow> lpBytes lp; lpAssertValidEntry lp n LP_HDR_SIZE; Some (Some LP_HDR_SIZE) }
   }"

definition lpLast :: "bytes \<Rightarrow> nat option option" where
  "lpLast lp = do { n \<leftarrow> lpGetTotalBytes lp; if n = 0 then None else lpPrev lp (n - 1) }"

partial_function (option) length_loop :: "bytes \<Rightarrow> nat option \<Rightarrow> nat \<Rightarrow> nat option" where
  "length_loop lp p count =
     (case p of
        None \<Rightarrow> Some count
      | Some q \<Rightarrow> do { p' \<leftarrow> lpNext lp q; length_loop lp p' ((count + 1) mod 2 ^ 32) })"

definition lpLength :: "bytes \<Rightarrow> (bytes \<times> nat) option" where
  "lpLength lp = do {
     numele \<leftarrow> lpGetNumElements lp;
     if numele \<noteq> LP_HDR_NUMELE_UNKNOWN then Some (lp, numele)
     else do {
       p \<leftarrow> lpFirst lp;
       count \<leftarrow> length_loop lp p 0;
       lp' \<leftarrow> (if count < LP_HDR_NUMELE_UNKNOWN then lpSetNumElements lp count else Some lp);
       Some (lp', count)
     }
   }"

section \<open>Reading an element\<close>

text \<open>
  What \<^verbatim>\<open>lpGet\<close> returns without a buffer for integers: a pointer into the listpack with a length, or
  a null pointer and the integer.
\<close>

datatype lpval = lp_str nat nat | lp_int int

text \<open>The triple \<^verbatim>\<open>uval\<close>, \<^verbatim>\<open>negstart\<close>, \<^verbatim>\<open>negmax\<close> of the integer encodings.\<close>

definition lp_uval :: "bytes \<Rightarrow> nat \<Rightarrow> (nat \<times> nat \<times> nat) option" where
  "lp_uval lp p = do {
     b \<leftarrow> byte_at lp p;
     if LP_ENCODING_IS_7BIT_UINT b then Some (unat b AND 0x7F, 18446744073709551615, 0)
     else if LP_ENCODING_IS_13BIT_INT b then do {
       b1 \<leftarrow> byte_at lp (p + 1);
       Some (push_bit 8 (unat b AND 0x1F) OR unat b1, 2 ^ 12, 8191)
     }
     else if LP_ENCODING_IS_16BIT_INT b then do { u \<leftarrow> read_uint lp (p + 1) 2; Some (u, 2 ^ 15, 65535) }
     else if LP_ENCODING_IS_24BIT_INT b then do { u \<leftarrow> read_uint lp (p + 1) 3; Some (u, 2 ^ 23, drop_bit 8 UINT32_MAX) }
     else if LP_ENCODING_IS_32BIT_INT b then do { u \<leftarrow> read_uint lp (p + 1) 4; Some (u, 2 ^ 31, UINT32_MAX) }
     else if LP_ENCODING_IS_64BIT_INT b then do { u \<leftarrow> read_uint lp (p + 1) 8; Some (u, 2 ^ 63, 18446744073709551615) }
     else Some (12345678900000000 + unat b, 18446744073709551615, 0)
   }"

definition lp_sign :: "nat \<times> nat \<times> nat \<Rightarrow> int" where
  "lp_sign u = (case u of (uval, negstart, negmax) \<Rightarrow>
     if uval \<ge> negstart then - to_sint 64 ((int negmax - int uval) mod 2 ^ 64) - 1
     else to_sint 64 (int uval))"

text \<open>
  \<^verbatim>\<open>lpGetWithSize\<close> also returns the size of the whole element; the branch for an unknown encoding
  leaves it as the caller initialised it, \<open>size0\<close>.
\<close>

definition lpGetWithSize :: "bytes \<Rightarrow> nat \<Rightarrow> nat \<Rightarrow> (lpval \<times> nat) option" where
  "lpGetWithSize lp p size0 = do {
     b \<leftarrow> byte_at lp p;
     if LP_ENCODING_IS_7BIT_UINT b then do { u \<leftarrow> lp_uval lp p; Some (lp_int (lp_sign u), 2) }
     else if LP_ENCODING_IS_6BIT_STR b then do {
       n \<leftarrow> LP_ENCODING_6BIT_STR_LEN lp p; Some (lp_str (p + 1) n, 1 + n + lpEncodeBacklenBytes (n + 1)) }
     else if LP_ENCODING_IS_13BIT_INT b then do { u \<leftarrow> lp_uval lp p; Some (lp_int (lp_sign u), 3) }
     else if LP_ENCODING_IS_16BIT_INT b then do { u \<leftarrow> lp_uval lp p; Some (lp_int (lp_sign u), 4) }
     else if LP_ENCODING_IS_24BIT_INT b then do { u \<leftarrow> lp_uval lp p; Some (lp_int (lp_sign u), 5) }
     else if LP_ENCODING_IS_32BIT_INT b then do { u \<leftarrow> lp_uval lp p; Some (lp_int (lp_sign u), 6) }
     else if LP_ENCODING_IS_64BIT_INT b then do { u \<leftarrow> lp_uval lp p; Some (lp_int (lp_sign u), 10) }
     else if LP_ENCODING_IS_12BIT_STR b then do {
       n \<leftarrow> LP_ENCODING_12BIT_STR_LEN lp p; Some (lp_str (p + 2) n, 2 + n + lpEncodeBacklenBytes (n + 2)) }
     else if LP_ENCODING_IS_32BIT_STR b then do {
       n \<leftarrow> LP_ENCODING_32BIT_STR_LEN lp p; Some (lp_str (p + 5) n, 5 + n + lpEncodeBacklenBytes (n + 5)) }
     else do { u \<leftarrow> lp_uval lp p; Some (lp_int (lp_sign u), size0) }
   }"

definition lpGetWithBuf :: "bytes \<Rightarrow> nat \<Rightarrow> lpval option" where
  "lpGetWithBuf lp p = do {
     b \<leftarrow> byte_at lp p;
     if LP_ENCODING_IS_6BIT_STR b then do { n \<leftarrow> LP_ENCODING_6BIT_STR_LEN lp p; Some (lp_str (p + 1) n) }
     else if LP_ENCODING_IS_12BIT_STR b then do { n \<leftarrow> LP_ENCODING_12BIT_STR_LEN lp p; Some (lp_str (p + 2) n) }
     else if LP_ENCODING_IS_32BIT_STR b then do { n \<leftarrow> LP_ENCODING_32BIT_STR_LEN lp p; Some (lp_str (p + 5) n) }
     else do { u \<leftarrow> lp_uval lp p; Some (lp_int (lp_sign u)) }
   }"

definition lpGet :: "bytes \<Rightarrow> nat \<Rightarrow> lpval option" where
  "lpGet lp p = lpGetWithBuf lp p"

text \<open>
  The same with a buffer \<open>intbuf\<close> of \<^verbatim>\<open>LP_INTBUF_SIZE\<close> bytes: the element is always returned as the
  bytes of a string.
\<close>

definition lpGet_intbuf :: "bytes \<Rightarrow> nat \<Rightarrow> bytes \<Rightarrow> bytes option" where
  "lpGet_intbuf lp p intbuf = do {
     v \<leftarrow> lpGetWithBuf lp p;
     case v of
       lp_str off n \<Rightarrow> read_bytes lp off n
     | lp_int i \<Rightarrow> do { (buf, n) \<leftarrow> ll2string intbuf i; read_bytes buf 0 n }
   }"

definition lpGetValue :: "bytes \<Rightarrow> nat \<Rightarrow> lpval option" where
  "lpGetValue lp p = do {
     v \<leftarrow> lpGet lp p;
     Some (case v of lp_str off ele_len \<Rightarrow> lp_str off (ele_len mod 2 ^ 32) | lp_int ele_len \<Rightarrow> lp_int ele_len)
   }"

definition lpGetIntegerValue :: "bytes \<Rightarrow> nat \<Rightarrow> int option option" where
  "lpGetIntegerValue lp p = do { v \<leftarrow> lpGet lp p; Some (case v of lp_str _ _ \<Rightarrow> None | lp_int i \<Rightarrow> Some i) }"

section \<open>Changing the list\<close>

datatype lp_ele = lp_elestr bytes | lp_eleint bytes | lp_delete
datatype lp_where = LP_BEFORE | LP_AFTER | LP_REPLACE

definition ASSERT_INTEGRITY :: "bytes \<Rightarrow> nat \<Rightarrow> unit option" where
  "ASSERT_INTEGRITY lp p = do {
     n \<leftarrow> lpGetTotalBytes lp; if p \<ge> LP_HDR_SIZE \<and> p < n then Some () else None }"

definition ASSERT_INTEGRITY_LEN :: "bytes \<Rightarrow> nat \<Rightarrow> nat \<Rightarrow> unit option" where
  "ASSERT_INTEGRITY_LEN lp p len = do {
     n \<leftarrow> lpGetTotalBytes lp; if p \<ge> LP_HDR_SIZE \<and> p + len < n then Some () else None }"

text \<open>The bytes that will be stored for an element, and \<^verbatim>\<open>enclen\<close>.\<close>

definition lp_payload :: "lp_ele \<Rightarrow> bytes \<times> nat" where
  "lp_payload ele =
     (case ele of
        lp_elestr s \<Rightarrow>
          (case lpEncodeGetType s of
             (LP_ENCODING_INT intenc, enclen) \<Rightarrow> (intenc, enclen)
           | (LP_ENCODING_STRING, enclen) \<Rightarrow> (lpEncodeString s, enclen))
      | lp_eleint intenc \<Rightarrow> (intenc, length intenc)
      | lp_delete \<Rightarrow> ([], 0))"

definition lp_count_update :: "bytes \<Rightarrow> bool \<Rightarrow> bytes option" where
  "lp_count_update lp delete = do {
     num_elements \<leftarrow> lpGetNumElements lp;
     if num_elements \<noteq> LP_HDR_NUMELE_UNKNOWN
     then (if \<not> delete then lpSetNumElements lp (num_elements + 1)
           else lpSetNumElements lp ((num_elements + 2 ^ 32 - 1) mod 2 ^ 32))
     else Some lp
   }"

text \<open>The part of \<^verbatim>\<open>lpInsert\<close> before the memory is touched: the position and the number of bytes to replace.\<close>

definition lp_position :: "bytes \<Rightarrow> nat \<Rightarrow> lp_where \<Rightarrow> (nat \<times> lp_where) option" where
  "lp_position lp p wh =
     (if wh = LP_AFTER
      then do { q \<leftarrow> lpSkip lp p; ASSERT_INTEGRITY lp q; Some (q, LP_BEFORE) }
      else Some (p, wh))"

definition lp_replaced :: "bytes \<Rightarrow> nat \<Rightarrow> lp_where \<Rightarrow> nat option" where
  "lp_replaced lp p wh =
     (if wh = LP_REPLACE
      then do {
        n \<leftarrow> lpCurrentEncodedSizeUnsafe lp p;
        let replaced_len = (n + lpEncodeBacklenBytes n) mod 2 ^ 32;
        ASSERT_INTEGRITY_LEN lp p replaced_len;
        Some replaced_len
      }
      else Some 0)"

definition lpInsert ::
    "(nat \<Rightarrow> byte) \<Rightarrow> bytes \<Rightarrow> lp_ele \<Rightarrow> nat \<Rightarrow> lp_where \<Rightarrow> (bytes \<times> nat option) option option" where
  "lpInsert junk lp ele p0 wh0 = do {
     let delete = (ele = lp_delete);
     (p, wh) \<leftarrow> lp_position lp p0 (if delete then LP_REPLACE else wh0);
     let (payload, enclen) = lp_payload ele;
     let backlen = (if \<not> delete then lpEncodeBacklen enclen else []);
     let backlen_size = length backlen;
     old_listpack_bytes \<leftarrow> lpGetTotalBytes lp;
     replaced_len \<leftarrow> lp_replaced lp p wh;
     let new_listpack_bytes =
       nat ((int old_listpack_bytes + int enclen + int backlen_size - int replaced_len) mod 2 ^ 64);
     if new_listpack_bytes > UINT32_MAX then Some None
     else if old_listpack_bytes < p + replaced_len then None
     else do {
       let lp1 = (if new_listpack_bytes > old_listpack_bytes \<and> new_listpack_bytes > length lp
                  then realloc_bytes junk lp new_listpack_bytes else lp);
       lp2 \<leftarrow> (if wh = LP_BEFORE
              then move_bytes lp1 (p + enclen + backlen_size) p (old_listpack_bytes - p)
              else move_bytes lp1 (p + enclen + backlen_size) (p + replaced_len)
                     (old_listpack_bytes - p - replaced_len));
       let lp3 = (if new_listpack_bytes < old_listpack_bytes
                  then realloc_bytes junk lp2 new_listpack_bytes else lp2);
       newp \<leftarrow> (if delete then do { b \<leftarrow> byte_at lp3 p; Some (if b = LP_EOF then None else Some p) }
               else Some (Some p));
       lp4 \<leftarrow> (if \<not> delete
              then do { lp' \<leftarrow> write_bytes lp3 p payload; write_bytes lp' (p + enclen) backlen }
              else Some lp3);
       lp5 \<leftarrow> (if wh \<noteq> LP_REPLACE \<or> delete then lp_count_update lp4 delete else Some lp4);
       lp6 \<leftarrow> lpSetTotalBytes lp5 new_listpack_bytes;
       Some (Some (lp6, newp))
     }
   }"

definition lpInsertString ::
    "(nat \<Rightarrow> byte) \<Rightarrow> bytes \<Rightarrow> bytes \<Rightarrow> nat \<Rightarrow> lp_where \<Rightarrow> (bytes \<times> nat option) option option" where
  "lpInsertString junk lp s p wh = lpInsert junk lp (lp_elestr s) p wh"

definition lpInsertInteger ::
    "(nat \<Rightarrow> byte) \<Rightarrow> bytes \<Rightarrow> int \<Rightarrow> nat \<Rightarrow> lp_where \<Rightarrow> (bytes \<times> nat option) option option" where
  "lpInsertInteger junk lp lval p wh = lpInsert junk lp (lp_eleint (lpEncodeIntegerGetType lval)) p wh"

definition lpAppend :: "(nat \<Rightarrow> byte) \<Rightarrow> bytes \<Rightarrow> bytes \<Rightarrow> (bytes \<times> nat option) option option" where
  "lpAppend junk lp ele = do {
     listpack_bytes \<leftarrow> lpGetTotalBytes lp;
     if listpack_bytes = 0 then None else lpInsert junk lp (lp_elestr ele) (listpack_bytes - 1) LP_BEFORE
   }"

definition lpAppendInteger :: "(nat \<Rightarrow> byte) \<Rightarrow> bytes \<Rightarrow> int \<Rightarrow> (bytes \<times> nat option) option option" where
  "lpAppendInteger junk lp lval = do {
     listpack_bytes \<leftarrow> lpGetTotalBytes lp;
     if listpack_bytes = 0 then None else lpInsertInteger junk lp lval (listpack_bytes - 1) LP_BEFORE
   }"

definition lpPrepend :: "(nat \<Rightarrow> byte) \<Rightarrow> bytes \<Rightarrow> bytes \<Rightarrow> (bytes \<times> nat option) option option" where
  "lpPrepend junk lp s = do {
     p \<leftarrow> lpFirst lp;
     case p of None \<Rightarrow> lpAppend junk lp s | Some q \<Rightarrow> lpInsert junk lp (lp_elestr s) q LP_BEFORE
   }"

definition lpPrependInteger :: "(nat \<Rightarrow> byte) \<Rightarrow> bytes \<Rightarrow> int \<Rightarrow> (bytes \<times> nat option) option option" where
  "lpPrependInteger junk lp lval = do {
     p \<leftarrow> lpFirst lp;
     case p of None \<Rightarrow> lpAppendInteger junk lp lval | Some q \<Rightarrow> lpInsertInteger junk lp lval q LP_BEFORE
   }"

definition lpReplace :: "(nat \<Rightarrow> byte) \<Rightarrow> bytes \<Rightarrow> nat \<Rightarrow> bytes \<Rightarrow> (bytes \<times> nat option) option option" where
  "lpReplace junk lp p s = lpInsert junk lp (lp_elestr s) p LP_REPLACE"

definition lpReplaceInteger :: "(nat \<Rightarrow> byte) \<Rightarrow> bytes \<Rightarrow> nat \<Rightarrow> int \<Rightarrow> (bytes \<times> nat option) option option" where
  "lpReplaceInteger junk lp p lval = lpInsertInteger junk lp lval p LP_REPLACE"

definition lpDelete :: "(nat \<Rightarrow> byte) \<Rightarrow> bytes \<Rightarrow> nat \<Rightarrow> (bytes \<times> nat option) option option" where
  "lpDelete junk lp p = lpInsert junk lp lp_delete p LP_REPLACE"

subsection \<open>Several elements at once\<close>

text \<open>A \<^verbatim>\<open>listpackEntry\<close> is a string or an integer.\<close>

datatype listpackEntry = lpe_str bytes | lpe_int int

definition lpe_ele :: "listpackEntry \<Rightarrow> lp_ele" where
  "lpe_ele e = (case e of lpe_str s \<Rightarrow> lp_elestr s | lpe_int v \<Rightarrow> lp_eleint (lpEncodeIntegerGetType v))"

fun batch_write :: "bytes \<Rightarrow> nat \<Rightarrow> (bytes \<times> nat) list \<Rightarrow> nat option \<Rightarrow> (bytes \<times> nat option) option" where
  "batch_write lp dst [] newp = Some (lp, newp)"
| "batch_write lp dst ((payload, enclen) # encs) newp = do {
     lp1 \<leftarrow> write_bytes lp dst payload;
     lp2 \<leftarrow> write_bytes lp1 (dst + enclen) (lpEncodeBacklen enclen);
     batch_write lp2 (dst + enclen + length (lpEncodeBacklen enclen)) encs (Some dst)
   }"

definition lpBatchInsert ::
    "(nat \<Rightarrow> byte) \<Rightarrow> bytes \<Rightarrow> nat \<Rightarrow> lp_where \<Rightarrow> listpackEntry list \<Rightarrow> (bytes \<times> nat option) option option" where
  "lpBatchInsert junk lp p0 wh0 entries =
     (if \<not> (wh0 = LP_BEFORE \<or> wh0 = LP_AFTER) \<or> entries = [] then None
      else do {
        (p, wh) \<leftarrow> lp_position lp p0 wh0;
        let encs = map (\<lambda>e. lp_payload (lpe_ele e)) entries;
        let addedlen = sum_list (map (\<lambda>(_, enclen). enclen + length (lpEncodeBacklen enclen)) encs) mod 2 ^ 64;
        old_listpack_bytes \<leftarrow> lpGetTotalBytes lp;
        let new_listpack_bytes = (old_listpack_bytes + addedlen) mod 2 ^ 64;
        if new_listpack_bytes > UINT32_MAX then Some None
        else if old_listpack_bytes < p then None
        else do {
          let lp1 = (if new_listpack_bytes > old_listpack_bytes \<and> new_listpack_bytes > length lp
                     then realloc_bytes junk lp new_listpack_bytes else lp);
          lp2 \<leftarrow> move_bytes lp1 (p + addedlen) p (old_listpack_bytes - p);
          (lp3, newp) \<leftarrow> batch_write lp2 p encs None;
          num_elements \<leftarrow> lpGetNumElements lp3;
          lp4 \<leftarrow> (if num_elements \<noteq> LP_HDR_NUMELE_UNKNOWN
                 then if int (length entries) > int LP_HDR_NUMELE_UNKNOWN - int num_elements
                      then lpSetNumElements lp3 LP_HDR_NUMELE_UNKNOWN
                      else lpSetNumElements lp3 (num_elements + length entries)
                 else Some lp3);
          lp5 \<leftarrow> lpSetTotalBytes lp4 new_listpack_bytes;
          Some (Some (lp5, newp))
        }
      })"

definition lpBatchAppend ::
    "(nat \<Rightarrow> byte) \<Rightarrow> bytes \<Rightarrow> listpackEntry list \<Rightarrow> (bytes \<times> nat option) option option" where
  "lpBatchAppend junk lp entries = do {
     listpack_bytes \<leftarrow> lpGetTotalBytes lp;
     if listpack_bytes = 0 then None else lpBatchInsert junk lp (listpack_bytes - 1) LP_BEFORE entries
   }"

text \<open>The loop that looks for the end of the range: the offset behind it and the number of elements.\<close>

fun delete_tail_loop :: "bytes \<Rightarrow> nat \<Rightarrow> nat \<Rightarrow> nat \<Rightarrow> nat \<Rightarrow> (nat \<times> nat) option" where
  "delete_tail_loop lp n 0 tail deleted = Some (tail, deleted)"
| "delete_tail_loop lp n (Suc num) tail deleted = do {
     tail' \<leftarrow> lpSkip lp tail;
     b \<leftarrow> byte_at lp tail';
     if b = LP_EOF then Some (tail', deleted + 1)
     else do { lpAssertValidEntry lp n tail'; delete_tail_loop lp n num tail' (deleted + 1) }
   }"

definition lpDeleteRangeWithEntry :: "bytes \<Rightarrow> nat \<Rightarrow> nat \<Rightarrow> (bytes \<times> nat option) option" where
  "lpDeleteRangeWithEntry lp first num = do {
     n \<leftarrow> lpBytes lp;
     if num = 0 then Some (lp, Some first)
     else do {
       (tail, deleted) \<leftarrow> delete_tail_loop lp n num first 0;
       if n < tail then None
       else do {
         lp1 \<leftarrow> move_bytes lp first tail (n - tail);
         lp2 \<leftarrow> lpSetTotalBytes lp1 (n - (tail - first));
         numele \<leftarrow> lpGetNumElements lp2;
         lp3 \<leftarrow> (if numele \<noteq> LP_HDR_NUMELE_UNKNOWN
                then lpSetNumElements lp2 (nat ((int numele - int deleted) mod 2 ^ 64)) else Some lp2);
         lp4 \<leftarrow> lpShrinkToFit lp3;
         b \<leftarrow> byte_at lp4 first;
         Some (lp4, if b = LP_EOF then None else Some first)
       }
     }
   }"

fun seek_forward :: "bytes \<Rightarrow> nat \<Rightarrow> nat option \<Rightarrow> nat option option" where
  "seek_forward lp 0 ele = Some ele"
| "seek_forward lp (Suc n) ele =
     (case ele of None \<Rightarrow> Some None | Some p \<Rightarrow> do { q \<leftarrow> lpNext lp p; seek_forward lp n q })"

fun seek_backward :: "bytes \<Rightarrow> nat \<Rightarrow> nat option \<Rightarrow> nat option option" where
  "seek_backward lp 0 ele = Some ele"
| "seek_backward lp (Suc n) ele =
     (case ele of None \<Rightarrow> Some None | Some p \<Rightarrow> do { q \<leftarrow> lpPrev lp p; seek_backward lp n q })"

text \<open>The direction and the index to count down, \<open>None\<close> for an index out of range.\<close>

definition seek_plan :: "nat \<Rightarrow> int \<Rightarrow> (bool \<times> int) option" where
  "seek_plan numele index =
     (if numele \<noteq> LP_HDR_NUMELE_UNKNOWN
      then (let index = (if index < 0 then int numele + index else index) in
            if index < 0 then None
            else if index \<ge> int numele then None
            else if index > int numele div 2 then Some (False, index - int numele) else Some (True, index))
      else Some (\<not> index < 0, index))"

definition lpSeek :: "bytes \<Rightarrow> int \<Rightarrow> nat option option" where
  "lpSeek lp index0 = do {
     numele \<leftarrow> lpGetNumElements lp;
     case seek_plan numele index0 of
       None \<Rightarrow> Some None
     | Some (forward, index) \<Rightarrow>
         if forward then do { ele \<leftarrow> lpFirst lp; seek_forward lp (nat index) ele }
         else do { ele \<leftarrow> lpLast lp; seek_backward lp (nat (- 1 - index)) ele }
   }"

definition lpDeleteRange :: "bytes \<Rightarrow> int \<Rightarrow> nat \<Rightarrow> bytes option" where
  "lpDeleteRange lp index0 num = do {
     numele \<leftarrow> lpGetNumElements lp;
     if num = 0 then Some lp
     else do {
       sp \<leftarrow> lpSeek lp index0;
       case sp of
         None \<Rightarrow> Some lp
       | Some p \<Rightarrow>
           (let index = (if numele \<noteq> LP_HDR_NUMELE_UNKNOWN \<and> index0 < 0 then int numele + index0 else index0) in
            if numele \<noteq> LP_HDR_NUMELE_UNKNOWN \<and> (int numele - index) mod 2 ^ 64 \<le> int num
            then do {
              lp1 \<leftarrow> write_bytes lp p [LP_EOF];
              lp2 \<leftarrow> lpSetTotalBytes lp1 (p + 1);
              lp3 \<leftarrow> lpSetNumElements lp2 (nat index);
              lpShrinkToFit lp3
            }
            else map_option fst (lpDeleteRangeWithEntry lp p num))
     }
   }"

text \<open>The loop of \<^verbatim>\<open>lpBatchDelete\<close> over the pointers, which moves what lies between two of them.\<close>

fun batch_delete_loop :: "bytes \<Rightarrow> nat \<Rightarrow> nat list \<Rightarrow> nat \<Rightarrow> (bytes \<times> nat) option" where
  "batch_delete_loop lp lp_end [] dst = Some (lp, dst)"
| "batch_delete_loop lp lp_end (skip # ps) dst = do {
     b \<leftarrow> byte_at lp skip;
     if b = LP_EOF then None
     else do {
       keep_start \<leftarrow> lpSkip lp skip;
       let keep_end = (case ps of q # _ \<Rightarrow> q | [] \<Rightarrow> lp_end);
       if ps \<noteq> [] \<and> keep_start = keep_end then batch_delete_loop lp lp_end ps dst
       else if \<not> keep_end > keep_start then None
       else do {
         lp' \<leftarrow> move_bytes lp dst keep_start (keep_end - keep_start);
         batch_delete_loop lp' lp_end ps (dst + (keep_end - keep_start))
       }
     }
   }"

definition lpBatchDelete :: "bytes \<Rightarrow> nat list \<Rightarrow> bytes option" where
  "lpBatchDelete lp ps =
     (if ps = [] then Some lp
      else do {
        total_bytes \<leftarrow> lpGetTotalBytes lp;
        e \<leftarrow> (if total_bytes = 0 then None else byte_at lp (total_bytes - 1));
        if e \<noteq> LP_EOF then None
        else do {
          (lp1, dst) \<leftarrow> batch_delete_loop lp total_bytes ps (hd ps);
          let total_bytes1 = total_bytes - (total_bytes - dst);
          e1 \<leftarrow> (if total_bytes1 = 0 then None else byte_at lp1 (total_bytes1 - 1));
          if e1 \<noteq> LP_EOF then None
          else do {
            lp2 \<leftarrow> lpSetTotalBytes lp1 total_bytes1;
            numele \<leftarrow> lpGetNumElements lp2;
            lp3 \<leftarrow> (if numele \<noteq> LP_HDR_NUMELE_UNKNOWN
                   then lpSetNumElements lp2 (nat ((int numele - int (length ps)) mod 2 ^ 64)) else Some lp2);
            lpShrinkToFit lp3
          }
        }
      })"

text \<open>
  \<^verbatim>\<open>lpMerge\<close> of two different listpacks: the inner \<open>None\<close> is for the caller's null pointers. The result
  is the merged listpack and whether it took the place of the first one.
\<close>

definition lpMerge ::
    "(nat \<Rightarrow> byte) \<Rightarrow> bytes option \<Rightarrow> bytes option \<Rightarrow> (bytes \<times> bool) option option" where
  "lpMerge junk ofirst osecond =
     (case (ofirst, osecond) of
        (Some first0, Some second0) \<Rightarrow> do {
          first_bytes \<leftarrow> lpBytes first0;
          (first, first_len) \<leftarrow> lpLength first0;
          second_bytes \<leftarrow> lpBytes second0;
          (second, second_len) \<leftarrow> lpLength second0;
          let append = (first_bytes \<ge> second_bytes);
          let (target, target_bytes, source, source_bytes) =
            (if append then (first, first_bytes, second, second_bytes)
             else (second, second_bytes, first, first_bytes));
          let lpbytes = first_bytes + second_bytes - LP_HDR_SIZE - 1;
          if \<not> lpbytes < UINT32_MAX then None
          else do {
            let lplength = (if first_len + second_len < 65535 then first_len + second_len else 65535);
            let target1 = realloc_bytes junk target lpbytes;
            target2 \<leftarrow>
              (if append
               then do {
                 bs \<leftarrow> read_bytes source LP_HDR_SIZE (source_bytes - LP_HDR_SIZE);
                 write_bytes target1 (target_bytes - 1) bs
               }
               else do {
                 t \<leftarrow> move_bytes target1 (source_bytes - 1) LP_HDR_SIZE (target_bytes - LP_HDR_SIZE);
                 bs \<leftarrow> read_bytes source 0 (source_bytes - 1);
                 write_bytes t 0 bs
               });
            target3 \<leftarrow> lpSetNumElements target2 lplength;
            target4 \<leftarrow> lpSetTotalBytes target3 lpbytes;
            Some (Some (target4, append))
          }
        }
      | _ \<Rightarrow> Some None)"

definition lpDup :: "bytes \<Rightarrow> bytes option" where
  "lpDup lp = do { lpbytes \<leftarrow> lpBytes lp; read_bytes lp 0 lpbytes }"

definition lpEntrySizeInteger :: "int \<Rightarrow> nat" where
  "lpEntrySizeInteger lval =
     (let enclen = length (lpEncodeIntegerGetType lval) in enclen + lpEncodeBacklenBytes enclen)"

definition lpEstimateBytesRepeatedInteger :: "int \<Rightarrow> nat \<Rightarrow> nat" where
  "lpEstimateBytesRepeatedInteger lval rep = LP_HDR_SIZE + lpEntrySizeInteger lval * rep + 1"

section \<open>Searching and validating\<close>

text \<open>
  \<open>cmp\<close> is the comparator with its state: it returns whether the element matches and the new state.
\<close>

partial_function (option) lp_find_loop ::
    "bytes \<Rightarrow> nat \<Rightarrow> ('u \<Rightarrow> nat \<Rightarrow> lpval \<Rightarrow> (bool \<times> 'u) option) \<Rightarrow> nat \<Rightarrow> 'u \<Rightarrow> nat \<Rightarrow> nat \<Rightarrow> nat option option" where
  "lp_find_loop lp lp_bytes cmp skip user skipcnt p = do {
     r \<leftarrow> (if skipcnt = 0
           then do {
             (val, entry_size) \<leftarrow> lpGetWithSize lp p 123456789;
             (case val of lp_str _ _ \<Rightarrow> if p \<ge> LP_HDR_SIZE \<and> p + entry_size < lp_bytes then Some () else None
              | lp_int _ \<Rightarrow> Some ());
             (found, user') \<leftarrow> cmp user p val;
             Some (if found then None else Some (user', skip, p + entry_size))
           }
           else do { q \<leftarrow> lpSkip lp p; Some (Some (user, skipcnt - 1, q)) });
     case r of
       None \<Rightarrow> Some (Some p)
     | Some (user', skipcnt', q) \<Rightarrow> do {
         (if q + 8 \<ge> lp_bytes then lpAssertValidEntry lp lp_bytes q
          else if q \<ge> LP_HDR_SIZE \<and> q < lp_bytes then Some () else None);
         b \<leftarrow> byte_at lp q;
         if b = LP_EOF then Some None else lp_find_loop lp lp_bytes cmp skip user' skipcnt' q
       }
   }"

definition lpFindCbInternal ::
    "bytes \<Rightarrow> nat option \<Rightarrow> 'u \<Rightarrow> ('u \<Rightarrow> nat \<Rightarrow> lpval \<Rightarrow> (bool \<times> 'u) option) \<Rightarrow> nat \<Rightarrow> nat option option" where
  "lpFindCbInternal lp op user cmp skip = do {
     lp_bytes \<leftarrow> lpBytes lp;
     op' \<leftarrow> (case op of None \<Rightarrow> lpFirst lp | Some p \<Rightarrow> Some (Some p));
     case op' of None \<Rightarrow> Some None | Some p \<Rightarrow> lp_find_loop lp lp_bytes cmp skip user 0 p
   }"

definition lpFindCb ::
    "bytes \<Rightarrow> nat option \<Rightarrow> 'u \<Rightarrow> ('u \<Rightarrow> nat \<Rightarrow> lpval \<Rightarrow> (bool \<times> 'u) option) \<Rightarrow> nat \<Rightarrow> nat option option" where
  "lpFindCb lp op user cmp skip = lpFindCbInternal lp op user cmp skip"

record lpFindArg =
  fa_s :: bytes
  fa_vencoding :: nat
  fa_vll :: int

definition lpFindCmp :: "bytes \<Rightarrow> lpFindArg \<Rightarrow> nat \<Rightarrow> lpval \<Rightarrow> (bool \<times> lpFindArg) option" where
  "lpFindCmp lp arg p val =
     (case val of
        lp_str off n \<Rightarrow>
          if n = length (fa_s arg)
          then do { bs \<leftarrow> read_bytes lp off n; Some (bs = fa_s arg, arg) }
          else Some (False, arg)
      | lp_int slen \<Rightarrow>
          (let arg' =
             (if fa_vencoding arg = 0
              then (if length (fa_s arg) \<ge> 32 \<or> length (fa_s arg) = 0 then arg\<lparr>fa_vencoding := 255\<rparr>
                    else case lpStringToInt64 (fa_s arg) of
                      None \<Rightarrow> arg\<lparr>fa_vencoding := 255\<rparr>
                    | Some v \<Rightarrow> arg\<lparr>fa_vencoding := 1, fa_vll := v\<rparr>)
              else arg)
           in Some (fa_vencoding arg' \<noteq> 255 \<and> slen = fa_vll arg', arg')))"

definition lpFind :: "bytes \<Rightarrow> nat option \<Rightarrow> bytes \<Rightarrow> nat \<Rightarrow> nat option option" where
  "lpFind lp op s skip =
     lpFindCbInternal lp op \<lparr>fa_s = s, fa_vencoding = 0, fa_vll = 0\<rparr> (lpFindCmp lp) skip"

definition lpCompare :: "bytes \<Rightarrow> nat \<Rightarrow> bytes \<Rightarrow> (int \<times> int) option \<Rightarrow> (bool \<times> (int \<times> int) option) option" where
  \<comment> \<open>the last argument is \<^verbatim>\<open>*cached_longval\<close> and \<^verbatim>\<open>*cached_valid\<close>, \<open>None\<close> for null pointers\<close>
  "lpCompare lp p s cached = do {
     b \<leftarrow> byte_at lp p;
     if b = LP_EOF then Some (False, cached)
     else do {
       val \<leftarrow> lpGet lp p;
       case val of
         lp_str off n \<Rightarrow>
           if length s = n then do { bs \<leftarrow> read_bytes lp off n; Some (bs = s, cached) } else Some (False, cached)
       | lp_int sz \<Rightarrow>
           (case cached of
              Some (longval, valid) \<Rightarrow>
                (let (longval', valid') =
                   (if valid = 0
                    then (case lpStringToInt64 s of Some v \<Rightarrow> (v, 1) | None \<Rightarrow> (longval, - 1))
                    else (longval, valid))
                 in Some (valid' = 1 \<and> sz = longval', Some (longval', valid')))
            | None \<Rightarrow> Some (case lpStringToInt64 s of Some sval \<Rightarrow> sz = sval | None \<Rightarrow> False, None))
     }
   }"

definition lpValidateFirst :: "bytes \<Rightarrow> nat option option" where
  "lpValidateFirst lp = do { b \<leftarrow> byte_at lp LP_HDR_SIZE; Some (if b = LP_EOF then None else Some LP_HDR_SIZE) }"

text \<open>
  The loop of \<^verbatim>\<open>lpValidateIntegrity\<close>; the inner \<open>None\<close> is the return value 0, otherwise the result is
  the final pointer and the number of elements.
\<close>

partial_function (option) lp_validate_loop ::
    "bytes \<Rightarrow> nat \<Rightarrow> (nat \<Rightarrow> bool) \<Rightarrow> nat option \<Rightarrow> nat \<Rightarrow> (nat option \<times> nat) option option" where
  "lp_validate_loop lp n entry_cb pp count =
     (case pp of
        None \<Rightarrow> Some (Some (None, count))
      | Some p \<Rightarrow> do {
          b \<leftarrow> byte_at lp p;
          if b = LP_EOF then Some (Some (Some p, count))
          else do {
            r \<leftarrow> lpValidateNext lp (Some p) n;
            case r of
              None \<Rightarrow> Some None
            | Some pp' \<Rightarrow>
                if \<not> entry_cb p then Some None
                else lp_validate_loop lp n entry_cb pp' ((count + 1) mod 2 ^ 32)
          }
        })"

definition lpValidateIntegrity :: "bytes \<Rightarrow> nat \<Rightarrow> bool \<Rightarrow> (nat \<Rightarrow> bool) \<Rightarrow> bool option" where
  "lpValidateIntegrity lp sz deep entry_cb =
     (if sz < LP_HDR_SIZE + 1 then Some False
      else do {
        n \<leftarrow> lpGetTotalBytes lp;
        if n \<noteq> sz then Some False
        else do {
          b \<leftarrow> byte_at lp (sz - 1);
          if b \<noteq> LP_EOF then Some False
          else if \<not> deep then Some True
          else do {
            numele \<leftarrow> lpGetNumElements lp;
            r \<leftarrow> lp_validate_loop lp n entry_cb (Some LP_HDR_SIZE) 0;
            case r of
              None \<Rightarrow> Some False
            | Some (p, count) \<Rightarrow>
                if p \<noteq> Some (sz - 1) then Some False
                else if numele \<noteq> LP_HDR_NUMELE_UNKNOWN \<and> numele \<noteq> count then Some False
                else Some True
          }
        }
      })"

declare length_loop.simps [code] lp_find_loop.simps [code] lp_validate_loop.simps [code]

text \<open>\<^verbatim>\<open>lpRandomPair\<close>, with \<open>rnd\<close> the value of \<^verbatim>\<open>rand()\<close>: the key and the value.\<close>

definition lpRandomPair :: "bytes \<Rightarrow> nat \<Rightarrow> nat \<Rightarrow> nat \<Rightarrow> (lpval \<times> lpval) option" where
  "lpRandomPair lp total_count tuple_len rnd =
     (if \<not> tuple_len \<ge> 2 \<or> total_count = 0 then None
      else do {
        sp \<leftarrow> lpSeek lp (int ((rnd mod total_count) * tuple_len));
        p \<leftarrow> sp;
        key \<leftarrow> lpGet lp p;
        np \<leftarrow> lpNext lp p;
        q \<leftarrow> np;
        val \<leftarrow> lpGet lp q;
        Some (key, val)
      })"

end
