(* ===== verification/Listpack_Enc.thy ===== *)
theory Listpack_Enc
  imports Listpack
begin

text \<open>
  The encoding of one element: every integer and every string is read back as it was stored, and the
  length field behind an element is read back from the right.
\<close>

section \<open>Bit arithmetic\<close>

lemma and_masks:
  "(n :: nat) AND 0x7F = n mod 128" "n AND 0x3F = n mod 64" "n AND 0x1F = n mod 32" "n AND 0xF = n mod 16"
  "n AND 0xFF = n mod 256"
proof -
  have m: "(0x7F :: nat) = mask 7" "(0x3F :: nat) = mask 6" "(0x1F :: nat) = mask 5" "(0xF :: nat) = mask 4"
    "(0xFF :: nat) = mask 8" by (simp_all add: mask_eq_exp_minus_1)
  show "n AND 0x7F = n mod 128" "n AND 0x3F = n mod 64" "n AND 0x1F = n mod 32" "n AND 0xF = n mod 16"
    "n AND 0xFF = n mod 256"
    unfolding m by (simp_all flip: take_bit_eq_mask add: take_bit_eq_mod)
qed

lemma or_push_bit: "(v :: nat) < 2 ^ s \<Longrightarrow> v OR push_bit s x = v + x * 2 ^ s"
proof -
  assume v: "v < 2 ^ s"
  have "v AND push_bit s x = 0"
  proof (rule bit_eqI)
    fix i
    have "\<not> bit v i" if "s \<le> i"
      using v that by (metis bit_take_bit_iff not_le take_bit_nat_eq_self)
    then show "bit (v AND push_bit s x) i = bit (0 :: nat) i"
      by (auto simp: bit_and_iff bit_push_bit_iff not_le)
  qed
  then show ?thesis by (simp add: disjunctive_add_eq_or [symmetric] push_bit_eq_mult)
qed

lemma or_push_bit': "(v :: nat) < 2 ^ s \<Longrightarrow> push_bit s x OR v = x * 2 ^ s + v"
  using or_push_bit [of v s x] by (simp add: or.commute add.commute)

lemma or_high:
  "(n :: nat) < 128 \<Longrightarrow> n OR 128 = n + 128"
  "(n :: nat) < 16 \<Longrightarrow> n OR 0xE0 = n + 224"
  "(n :: nat) < 32 \<Longrightarrow> n OR 0xC0 = n + 192"
  using or_push_bit [of n 7 1] or_push_bit [of n 4 14] or_push_bit [of n 6 3] by (simp_all add: push_bit_eq_mult)

lemma and_high: "(n :: nat) AND push_bit k (mask j) = (n div 2 ^ k mod 2 ^ j) * 2 ^ k"
proof -
  have "n AND push_bit k (mask j) = push_bit k (take_bit j (drop_bit k n))"
    by (rule bit_eqI) (auto simp: bit_simps)
  then show ?thesis by (simp add: push_bit_eq_mult take_bit_eq_mod drop_bit_eq_div)
qed

lemma and_high_masks:
  "(n :: nat) AND 0x80 = (n div 128 mod 2) * 128" "n AND 0xC0 = (n div 64 mod 4) * 64"
  "n AND 0xE0 = (n div 32 mod 8) * 32" "n AND 0xF0 = (n div 16 mod 16) * 16"
  using and_high [of n 7 1] and_high [of n 6 2] and_high [of n 5 3] and_high [of n 4 4]
  by (simp_all add: mask_eq_exp_minus_1 push_bit_eq_mult)

section \<open>Bytes\<close>

lemma unat_byte_nat: "n < 256 \<Longrightarrow> unat (word_of_nat n :: byte) = n"
  by (simp add: unat_of_nat)

lemma unat_byte_int: "0 \<le> v \<Longrightarrow> v < 256 \<Longrightarrow> unat (word_of_int v :: byte) = nat v"
  unfolding unat_eq_nat_uint by (simp add: uint_word_of_int)

lemma byte_eq_unat: "b = (c :: byte) \<longleftrightarrow> unat b = unat c"
  by (rule word_unat_eq_iff)

lemma and_128: "unat (b :: byte) AND 128 = 0 \<longleftrightarrow> unat b < 128"
  using unat_byte_less [of b] by (auto simp: and_high_masks)

lemma enc_kind:
  "LP_ENCODING_IS_7BIT_UINT b \<longleftrightarrow> unat b < 128"
  "LP_ENCODING_IS_6BIT_STR b \<longleftrightarrow> 128 \<le> unat b \<and> unat b < 192"
  "LP_ENCODING_IS_13BIT_INT b \<longleftrightarrow> 192 \<le> unat b \<and> unat b < 224"
  "LP_ENCODING_IS_12BIT_STR b \<longleftrightarrow> 224 \<le> unat b \<and> unat b < 240"
  "LP_ENCODING_IS_32BIT_STR b \<longleftrightarrow> unat b = 240"
  "LP_ENCODING_IS_16BIT_INT b \<longleftrightarrow> unat b = 241"
  "LP_ENCODING_IS_24BIT_INT b \<longleftrightarrow> unat b = 242"
  "LP_ENCODING_IS_32BIT_INT b \<longleftrightarrow> unat b = 243"
  "LP_ENCODING_IS_64BIT_INT b \<longleftrightarrow> unat b = 244"
  "b = LP_EOF \<longleftrightarrow> unat b = 255"
proof -
  note defs = LP_ENCODING_IS_7BIT_UINT_def LP_ENCODING_IS_6BIT_STR_def LP_ENCODING_IS_13BIT_INT_def
    LP_ENCODING_IS_12BIT_STR_def LP_ENCODING_IS_32BIT_STR_def LP_ENCODING_IS_16BIT_INT_def
    LP_ENCODING_IS_24BIT_INT_def LP_ENCODING_IS_32BIT_INT_def LP_ENCODING_IS_64BIT_INT_def LP_EOF_def
  have n: "unat b < 256" by (rule unat_byte_less)
  then have q: "unat b div 128 < 2" "unat b div 64 < 4" "unat b div 32 < 8" "unat b div 16 < 16" by auto
  show "LP_ENCODING_IS_7BIT_UINT b \<longleftrightarrow> unat b < 128"
    "LP_ENCODING_IS_6BIT_STR b \<longleftrightarrow> 128 \<le> unat b \<and> unat b < 192"
    "LP_ENCODING_IS_13BIT_INT b \<longleftrightarrow> 192 \<le> unat b \<and> unat b < 224"
    "LP_ENCODING_IS_12BIT_STR b \<longleftrightarrow> 224 \<le> unat b \<and> unat b < 240"
    "LP_ENCODING_IS_32BIT_STR b \<longleftrightarrow> unat b = 240"
    "LP_ENCODING_IS_16BIT_INT b \<longleftrightarrow> unat b = 241"
    "LP_ENCODING_IS_24BIT_INT b \<longleftrightarrow> unat b = 242"
    "LP_ENCODING_IS_32BIT_INT b \<longleftrightarrow> unat b = 243"
    "LP_ENCODING_IS_64BIT_INT b \<longleftrightarrow> unat b = 244"
    "b = LP_EOF \<longleftrightarrow> unat b = 255"
    using n q unfolding defs byte_eq_unat unsigned_and_eq
    by (simp_all add: and_high_masks and_masks) linarith+
qed

section \<open>Reading in context\<close>

lemma byte_at_append [simp]:
  "byte_at (xs @ ys) (length xs + i) = byte_at ys i" "byte_at (xs @ ys) (length xs) = byte_at ys 0"
  by (simp_all add: byte_at_def nth_append)

lemma byte_at_left: "byte_at xs i = Some b \<Longrightarrow> byte_at (xs @ ys) i = Some b"
  by (auto simp: byte_at_def nth_append split: if_splits)

lemma byte_at_Cons [simp]: "byte_at (b # xs) 0 = Some b" "byte_at (b # xs) (Suc i) = byte_at xs i" "byte_at [] i = None"
  by (simp_all add: byte_at_def)

lemma read_bytes_append [simp]: "read_bytes (xs @ ys) (length xs + i) n = read_bytes ys i n"
  by (simp add: read_bytes_def)

lemma read_bytes_left: "read_bytes xs i n = Some bs \<Longrightarrow> read_bytes (xs @ ys) i n = Some bs"
  by (auto simp: read_bytes_def split: if_splits)

lemma read_uint_append [simp]: "read_uint (xs @ ys) (length xs + i) n = read_uint ys i n"
  by (simp add: read_uint_def)

lemma read_uint_left: "read_uint xs i n = Some v \<Longrightarrow> read_uint (xs @ ys) i n = Some v"
  using read_bytes_left [of xs i n _ ys] by (auto simp: read_uint_def)

lemma context_Suc [simp]:
  "byte_at (xs @ ys) (Suc (length xs)) = byte_at ys 1" "read_uint (xs @ ys) (Suc (length xs)) n = read_uint ys 1 n"
  using byte_at_append(1) [of xs ys 1] read_uint_append [of xs ys 1 n] by simp_all

section \<open>Well-formed encodings\<close>

definition payload_ok :: "bytes \<Rightarrow> bool" where
  "payload_ok e \<longleftrightarrow> e \<noteq> [] \<and> hd e \<noteq> LP_EOF \<and> lpCurrentEncodedSizeUnsafe e 0 = Some (length e)"

lemmas lp_len_defs = LP_ENCODING_6BIT_STR_LEN_def LP_ENCODING_12BIT_STR_LEN_def LP_ENCODING_32BIT_STR_LEN_def

lemma len_append:
  "LP_ENCODING_6BIT_STR_LEN (xs @ ys) (length xs) = LP_ENCODING_6BIT_STR_LEN ys 0"
  "LP_ENCODING_12BIT_STR_LEN (xs @ ys) (length xs) = LP_ENCODING_12BIT_STR_LEN ys 0"
  "LP_ENCODING_32BIT_STR_LEN (xs @ ys) (length xs) = LP_ENCODING_32BIT_STR_LEN ys 0"
  by (simp_all add: lp_len_defs)

lemma size_append: "lpCurrentEncodedSizeUnsafe (xs @ ys) (length xs) = lpCurrentEncodedSizeUnsafe ys 0"
  by (cases "byte_at ys 0") (simp_all add: lpCurrentEncodedSizeUnsafe_def len_append)

lemma size_left:
  assumes "lpCurrentEncodedSizeUnsafe xs 0 = Some n"
  shows "lpCurrentEncodedSizeUnsafe (xs @ ys) 0 = Some n"
proof -
  obtain b where b: "byte_at xs 0 = Some b" using assms by (auto simp: lpCurrentEncodedSizeUnsafe_def split: bind_splits)
  then show ?thesis
    using assms byte_at_left [OF b, of ys] byte_at_left [of xs 1 _ ys] read_uint_left [of xs 1 4 _ ys]
    by (auto simp: lpCurrentEncodedSizeUnsafe_def lp_len_defs split: if_splits bind_splits)
qed

lemma size_context:
  "payload_ok e \<Longrightarrow> lpCurrentEncodedSizeUnsafe (xs @ e @ ys) (length xs) = Some (length e)"
  using size_left [of e "length e" ys] by (simp add: size_append payload_ok_def)

lemma byte_at_hd: "e \<noteq> [] \<Longrightarrow> byte_at (e @ ys) 0 = Some (hd e)"
  by (cases e) simp_all

lemma payload_kinds:
  assumes "payload_ok e"
  obtains "unat (hd e) < 245" "0 < lpCurrentEncodedSizeBytes (hd e)" "lpCurrentEncodedSizeBytes (hd e) \<le> length e"
proof -
  obtain b r where e: "e = b # r" using assms by (cases e) (auto simp: payload_ok_def)
  have s: "lpCurrentEncodedSizeUnsafe (b # r) 0 = Some (Suc (length r))" "unat b \<noteq> 255"
    using assms enc_kind(10) [of b] by (auto simp: e payload_ok_def)
  have "unat b < 245" using s unat_byte_less [of b]
    by (auto simp: lpCurrentEncodedSizeUnsafe_def enc_kind split: if_splits)
  moreover have "lpCurrentEncodedSizeBytes b \<le> Suc (length r)"
    using s unfolding lpCurrentEncodedSizeBytes_def
    by (auto simp: lpCurrentEncodedSizeUnsafe_def lp_len_defs enc_kind read_uint_def read_bytes_def byte_at_def
        split: if_splits bind_splits)
  moreover have "0 < lpCurrentEncodedSizeBytes b"
    using \<open>unat b < 245\<close> by (auto simp: lpCurrentEncodedSizeBytes_def enc_kind)
  ultimately show ?thesis using that e by simp
qed

section \<open>The length field\<close>

lemma length_backlen [simp]: "length (lpEncodeBacklen l) = lpEncodeBacklenBytes l"
  by (simp add: lpEncodeBacklen_def lpEncodeBacklenBytes_def)

lemma backlen_bytes_range: "1 \<le> lpEncodeBacklenBytes l \<and> lpEncodeBacklenBytes l \<le> 5"
  by (simp add: lpEncodeBacklenBytes_def)

lemma decode_last:
  assumes "p = length xs + 1" "unat b < 128" "v < 2 ^ s"
  shows "decode_backlen_loop (xs @ b # ys) p s v = Some (v + unat b * 2 ^ s)"
proof -
  have "byte_at (xs @ b # ys) (p - 1) = Some b" using assms(1) by simp
  then show ?thesis
    using assms and_128 [of b] or_push_bit [of v s "unat b"]
    by (subst decode_backlen_loop.simps) (simp add: and_masks Let_def)
qed

lemma decode_more:
  assumes "p = length xs + 1" "n < 128" "v < 2 ^ s" "s + 7 \<le> 28"
  shows "decode_backlen_loop (xs @ word_of_nat (n + 128) # ys) p s v =
    decode_backlen_loop (xs @ word_of_nat (n + 128) # ys) (length xs) (s + 7) (v + n * 2 ^ s)"
proof -
  define b :: byte where "b = word_of_nat (n + 128)"
  have b: "unat b = n + 128" using assms(2) unat_byte_nat [of "n + 128"] by (simp add: b_def)
  have "byte_at (xs @ b # ys) (p - 1) = Some b" using assms(1) by simp
  then show ?thesis
    using assms and_128 [of b] or_push_bit [of v s n] b unfolding b_def [symmetric]
    by (subst decode_backlen_loop.simps) (simp add: and_masks Let_def)
qed

text \<open>\<open>septet k l\<close> is the byte for the seven bits of \<open>l\<close> from \<open>k\<close> on, with the mark that more bytes follow.\<close>

definition septet :: "nat \<Rightarrow> nat \<Rightarrow> byte" where
  "septet k l = word_of_nat (l div 2 ^ k mod 128 + 128)"

definition septets :: "nat \<Rightarrow> nat \<Rightarrow> bytes" where
  "septets n l = word_of_nat (l div 2 ^ (7 * n)) # map (\<lambda>k. septet (7 * k) l) (rev [0..<n])"

lemma septet_byte: "(drop_bit k l AND 127) OR 128 = l div 2 ^ k mod 128 + (128 :: nat)"
  "(l AND 127) OR 128 = l mod 128 + (128 :: nat)"
  by (simp_all add: and_masks or_high drop_bit_eq_div)

lemma encode_septets: "lpEncodeBacklen l = septets (lpEncodeBacklenBytes l - 1) l"
  unfolding lpEncodeBacklen_def septet_byte
  by (simp add: lpEncodeBacklenBytes_def septets_def septet_def drop_bit_eq_div upt_rec)

lemma decode_septets:
  assumes n: "n \<le> 4" "l div 2 ^ (7 * n) < 128" and L: "L = xs @ septets n l @ ys"
  shows "j \<le> n \<Longrightarrow> decode_backlen_loop L (Suc (length xs + (n - j))) (7 * j) (l mod 2 ^ (7 * j)) = Some l"
proof (induction "n - j" arbitrary: j)
  case 0
  then have j: "j = n" by simp
  have "L = xs @ word_of_nat (l div 2 ^ (7 * n)) # map (\<lambda>k. septet (7 * k) l) (rev [0..<n]) @ ys"
    by (simp add: L septets_def)
  moreover have "l mod 2 ^ (7 * n) + l div 2 ^ (7 * n) * 2 ^ (7 * n) = l" by (rule mod_div_mult_eq)
  ultimately show ?case
    using decode_last [of "Suc (length xs)" xs "word_of_nat (l div 2 ^ (7 * n))" "l mod 2 ^ (7 * n)" "7 * n"] n j
    by (simp add: unat_byte_nat)
next
  case (Suc d)
  then have j: "j < n" "n - j = Suc d" "d = n - Suc j" "d < n" by linarith+
  let ?m = "length xs + (n - j)"
  have len: "?m < length L" by (simp add: L septets_def)
  have "L ! ?m = map (\<lambda>k. septet (7 * k) l) (rev [0..<n]) ! d"
    unfolding j(2) using j(4) by (simp add: L septets_def nth_append)
  also have "\<dots> = septet (7 * j) l" using j by (simp add: rev_nth)
  finally have dec: "L = take ?m L @ word_of_nat (l div 2 ^ (7 * j) mod 128 + 128) # drop (Suc ?m) L"
    using id_take_nth_drop [OF len] by (simp add: septet_def)
  have "7 * j + 7 \<le> 28" using j n by linarith
  then have "decode_backlen_loop L (Suc ?m) (7 * j) (l mod 2 ^ (7 * j)) =
      decode_backlen_loop L ?m (7 * j + 7) (l mod 2 ^ (7 * j) + (l div 2 ^ (7 * j) mod 128) * 2 ^ (7 * j))"
    using decode_more [of "Suc ?m" "take ?m L" "l div 2 ^ (7 * j) mod 128" "l mod 2 ^ (7 * j)" "7 * j" "drop (Suc ?m) L"]
      dec len by simp
  also have "l mod 2 ^ (7 * j) + (l div 2 ^ (7 * j) mod 128) * 2 ^ (7 * j) = l mod 2 ^ (7 * Suc j)"
    using mod_mult2_eq [of l "2 ^ (7 * j)" 128] by (simp add: power_add mult.commute add.commute)
  finally have step: "decode_backlen_loop L (Suc ?m) (7 * j) (l mod 2 ^ (7 * j)) =
    decode_backlen_loop L ?m (7 * Suc j) (l mod 2 ^ (7 * Suc j))" by (simp add: add.commute)
  have m: "?m = Suc (length xs + (n - Suc j))" using j by simp
  show ?case unfolding step unfolding m using Suc.hyps(1) [OF j(3)] j(1) by simp
qed

lemma decode_backlen:
  assumes "l < 2 ^ 35"
  shows "lpDecodeBacklen (xs @ lpEncodeBacklen l @ ys) (length xs + lpEncodeBacklenBytes l - 1) = Some l"
proof -
  define n where "n = lpEncodeBacklenBytes l - 1"
  have "n \<le> 4" "l div 2 ^ (7 * n) < 128" using assms
    by (auto simp: n_def lpEncodeBacklenBytes_def)
  then have "decode_backlen_loop (xs @ septets n l @ ys) (Suc (length xs + n)) 0 0 = Some l"
    using decode_septets [of n l "xs @ septets n l @ ys" xs ys 0] by simp
  moreover have "length xs + lpEncodeBacklenBytes l - 1 + 1 = Suc (length xs + n)"
    using backlen_bytes_range [of l] by (simp add: n_def)
  ultimately show ?thesis by (simp add: lpDecodeBacklen_def encode_septets n_def)
qed

section \<open>Integers\<close>

lemma lp_sign_ok:
  assumes k: "1 < k" "k \<le> 64" and v: "- (2 ^ (k - 1)) \<le> v" "v < 2 ^ (k - 1)"
  shows "lp_sign (nat (v mod 2 ^ k), 2 ^ (k - 1), 2 ^ k - 1) = v"
proof -
  have p: "(2 :: int) ^ k = 2 * 2 ^ (k - 1)" using k(1) by (cases k) simp_all
  have "(2 :: int) ^ (k - 1) \<le> 2 ^ 63" using k by (intro power_increasing) simp_all
  then have b: "- (2 ^ 63) \<le> v" "v < 2 ^ 63" using v by simp_all
  show ?thesis
  proof (cases "0 \<le> v")
    case True
    then have "v mod 2 ^ k = v" using v(2) p by simp
    moreover have "nat v < 2 ^ (k - 1)" using True v(2) by (simp add: nat_less_iff)
    moreover have "to_sint 64 v = v" using b True by (intro to_sint_id) (simp_all add: in_sint_def)
    ultimately show ?thesis using True by (simp add: lp_sign_def)
  next
    case False
    define w where "w = v + 2 ^ k"
    have w: "2 ^ (k - 1) \<le> w" "w < 2 ^ k" "0 \<le> w" using False v(1) p by (simp_all add: w_def)
    have "v mod 2 ^ k = w mod 2 ^ k" by (simp add: w_def)
    then have m: "v mod 2 ^ k = w" using w by simp
    have n: "nat w \<ge> 2 ^ (k - 1)" "int (2 ^ k - 1) = 2 ^ k - 1" using w by (simp_all add: le_nat_iff of_nat_diff)
    have "(2 ^ k - 1 - w) mod 2 ^ 64 = - v - 1" using False b by (simp add: w_def)
    moreover have "to_sint 64 (- v - 1) = - v - 1" using b False by (intro to_sint_id) (simp_all add: in_sint_def)
    ultimately show ?thesis using n w m by (simp add: lp_sign_def)
  qed
qed

lemma read_uint_le_bytes: "read_uint (b # le_bytes n v @ ys) 1 n = Some (nat (v mod 2 ^ (8 * n)))"
  by (simp add: read_uint_def read_bytes_def le_uint_le_bytes)

lemma unat_first: "unat (0xF1 :: byte) = 241" "unat (0xF2 :: byte) = 242" "unat (0xF3 :: byte) = 243"
  "unat (0xF4 :: byte) = 244" "unat (0xF0 :: byte) = 240"
  by simp_all

lemma get_int_kind:
  assumes "unat b = c" "c = 241 \<and> n = 2 \<or> c = 242 \<and> n = 3 \<or> c = 243 \<and> n = 4 \<or> c = 244 \<and> n = 8"
    and v: "in_sint (8 * n) v"
  shows "lpGetWithBuf (b # le_bytes n (v mod 2 ^ (8 * n)) @ ys) 0 = Some (lp_int v)"
    "lpCurrentEncodedSizeUnsafe (b # le_bytes n (v mod 2 ^ (8 * n)) @ ys) 0 = Some (Suc n)"
proof -
  have s: "lp_sign (nat (v mod 2 ^ (8 * n)), 2 ^ (8 * n - 1), 2 ^ (8 * n) - 1) = v"
    by (rule lp_sign_ok) (use assms in \<open>auto simp: in_sint_def\<close>)
  have r: "read_uint (b # le_bytes n (v mod 2 ^ (8 * n)) @ ys) 1 n = Some (nat (v mod 2 ^ (8 * n)))"
    by (simp only: read_uint_le_bytes mod_mod_trivial)
  show "lpGetWithBuf (b # le_bytes n (v mod 2 ^ (8 * n)) @ ys) 0 = Some (lp_int v)"
    using assms(2) r s assms(1) by (auto simp: lpGetWithBuf_def lp_uval_def enc_kind)
  show "lpCurrentEncodedSizeUnsafe (b # le_bytes n (v mod 2 ^ (8 * n)) @ ys) 0 = Some (Suc n)"
    using assms(1,2) by (auto simp: lpCurrentEncodedSizeUnsafe_def enc_kind)
qed

lemma get_int_13:
  assumes v: "0 \<le> v'" "v' < 8192" "v' = v mod 2 ^ 13" "- 4096 \<le> v" "v < 4096"
  shows "lpGetWithBuf ([word_of_int (drop_bit 8 v' OR 0xC0), word_of_int (v' AND 0xFF)] @ ys) 0 = Some (lp_int v)"
    "lpCurrentEncodedSizeUnsafe ([word_of_int (drop_bit 8 v' OR 0xC0), word_of_int (v' AND 0xFF)] @ ys) 0 = Some 2"
proof -
  define n where "n = nat v'"
  have n: "v' = int n" "n < 8192" using v by (simp_all add: n_def)
  have e: "drop_bit 8 v' OR 0xC0 = int (n div 256 + 192)" "v' AND 0xFF = int (n mod 256)"
  proof -
    have "n div 256 < 32" using n(2) by (simp add: less_mult_imp_div_less)
    then have "drop_bit 8 n OR 0xC0 = n div 256 + 192" by (simp add: or_high drop_bit_eq_div)
    then have "int (drop_bit 8 n OR 0xC0) = int (n div 256 + 192)" by simp
    then show "drop_bit 8 v' OR 0xC0 = int (n div 256 + 192)" unfolding n(1) by (simp only: of_nat_or_eq of_nat_drop_bit of_nat_numeral)
    have "int (n AND 0xFF) = int (n mod 256)" by (simp only: and_masks)
    then show "v' AND 0xFF = int (n mod 256)" unfolding n(1) by (simp only: of_nat_and_eq of_nat_numeral)
  qed
  define b0 b1 :: byte where b: "b0 = word_of_int (drop_bit 8 v' OR 0xC0)" "b1 = word_of_int (v' AND 0xFF)"
  have d: "n div 256 < 32" using n(2) by (simp add: less_mult_imp_div_less)
  have u: "unat b0 = n div 256 + 192" "unat b1 = n mod 256"
    unfolding b e using d unat_byte_int [of "int (n div 256 + 192)"] unat_byte_int [of "int (n mod 256)"] by simp_all
  have "(n div 256 + 6 * 32) mod 32 = n div 256" using d by (simp only: mod_mult_self1 mod_less)
  then have "push_bit 8 (unat b0 AND 0x1F) OR unat b1 = n"
    using or_push_bit' [of "n mod 256" 8 "n div 256"] u d by (simp add: and_masks)
  moreover have "lp_sign (n, 2 ^ 12, 8191) = v"
    using lp_sign_ok [of 13 v] v by (simp add: n_def)
  ultimately have "lpGetWithBuf ([b0, b1] @ ys) 0 = Some (lp_int v)"
    using u d by (simp add: lpGetWithBuf_def lp_uval_def enc_kind)
  moreover have "lpCurrentEncodedSizeUnsafe ([b0, b1] @ ys) 0 = Some 2"
    using u d by (simp add: lpCurrentEncodedSizeUnsafe_def enc_kind)
  ultimately show "lpGetWithBuf ([word_of_int (drop_bit 8 v' OR 0xC0), word_of_int (v' AND 0xFF)] @ ys) 0 = Some (lp_int v)"
    "lpCurrentEncodedSizeUnsafe ([word_of_int (drop_bit 8 v' OR 0xC0), word_of_int (v' AND 0xFF)] @ ys) 0 = Some 2"
    unfolding b by simp_all
qed

lemma get_int_7:
  assumes "0 \<le> v" "v \<le> 127"
  shows "lpGetWithBuf ([word_of_int v] @ ys) 0 = Some (lp_int v)"
    "lpCurrentEncodedSizeUnsafe ([word_of_int v] @ ys) 0 = Some 1"
proof -
  define b :: byte where b: "b = word_of_int v"
  have u: "unat b = nat v" "nat v < 128" "(nat v) mod 128 = nat v"
    unfolding b using assms by (simp_all add: unat_byte_int nat_less_iff)
  have "to_sint 64 v = v" using assms by (intro to_sint_id) (simp_all add: in_sint_def)
  then have "lp_sign (nat v, 18446744073709551615, 0) = v" using assms u(2) by (simp add: lp_sign_def)
  then have "lpGetWithBuf ([b] @ ys) 0 = Some (lp_int v)" "lpCurrentEncodedSizeUnsafe ([b] @ ys) 0 = Some 1"
    using u by (simp_all add: lpGetWithBuf_def lp_uval_def lpCurrentEncodedSizeUnsafe_def enc_kind and_masks)
  then show "lpGetWithBuf ([word_of_int v] @ ys) 0 = Some (lp_int v)"
    "lpCurrentEncodedSizeUnsafe ([word_of_int v] @ ys) 0 = Some 1" unfolding b by simp_all
qed

lemma wrap_neg: "- (2 ^ k) \<le> v \<Longrightarrow> v < 2 ^ k \<Longrightarrow> (if v < 0 then 2 ^ k + v else v) = v mod (2 :: int) ^ k"
proof (cases "v < 0")
  case True
  assume "- (2 ^ k) \<le> v"
  then have "(2 ^ k + v) mod 2 ^ k = 2 ^ k + v" using True by (intro mod_pos_pos_trivial) simp_all
  then show ?thesis using True by simp
qed simp

datatype int_kind = Kind7 | Kind13 | KindBytes byte nat

definition int_encoding :: "int_kind \<Rightarrow> int \<Rightarrow> bytes" where
  "int_encoding k v =
     (case k of Kind7 \<Rightarrow> [word_of_int v]
      | Kind13 \<Rightarrow> [word_of_int (drop_bit 8 (v mod 2 ^ 13) OR 0xC0), word_of_int ((v mod 2 ^ 13) AND 0xFF)]
      | KindBytes b n \<Rightarrow> b # le_bytes n (v mod 2 ^ (8 * n)))"

fun int_kind_ok :: "int_kind \<Rightarrow> int \<Rightarrow> bool" where
  "int_kind_ok Kind7 v \<longleftrightarrow> 0 \<le> v \<and> v \<le> 127"
| "int_kind_ok Kind13 v \<longleftrightarrow> - 4096 \<le> v \<and> v \<le> 4095"
| "int_kind_ok (KindBytes b n) v \<longleftrightarrow> in_sint (8 * n) v \<and>
     (b = 0xF1 \<and> n = 2 \<or> b = 0xF2 \<and> n = 3 \<or> b = 0xF3 \<and> n = 4 \<or> b = 0xF4 \<and> n = 8)"

lemma encode_integer_kind:
  assumes "in_sint 64 v"
  obtains k where "int_kind_ok k v" "lpEncodeIntegerGetType v = int_encoding k v"
proof -
  consider "0 \<le> v \<and> v \<le> 127" | "\<not> (0 \<le> v \<and> v \<le> 127)" "- 4096 \<le> v \<and> v \<le> 4095"
    | "\<not> (- 4096 \<le> v \<and> v \<le> 4095)" "- 32768 \<le> v \<and> v \<le> 32767"
    | "\<not> (- 32768 \<le> v \<and> v \<le> 32767)" "- 8388608 \<le> v \<and> v \<le> 8388607"
    | "\<not> (- 8388608 \<le> v \<and> v \<le> 8388607)" "- 2147483648 \<le> v \<and> v \<le> 2147483647"
    | "\<not> (- 2147483648 \<le> v \<and> v \<le> 2147483647)" by linarith
  then show ?thesis
  proof cases
    case 1
    then show ?thesis by (intro that [of Kind7]) (simp_all add: lpEncodeIntegerGetType_def int_encoding_def)
  next
    case 2
    then show ?thesis using wrap_neg [of 13 v]
      by (intro that [of Kind13]) (auto simp: lpEncodeIntegerGetType_def int_encoding_def Let_def)
  next
    case 3
    then show ?thesis using wrap_neg [of 16 v]
      by (intro that [of "KindBytes 0xF1 2"]) (auto simp: lpEncodeIntegerGetType_def int_encoding_def Let_def in_sint_def)
  next
    case 4
    then show ?thesis using wrap_neg [of 24 v]
      by (intro that [of "KindBytes 0xF2 3"]) (auto simp: lpEncodeIntegerGetType_def int_encoding_def Let_def in_sint_def)
  next
    case 5
    then show ?thesis using wrap_neg [of 32 v]
      by (intro that [of "KindBytes 0xF3 4"]) (auto simp: lpEncodeIntegerGetType_def int_encoding_def Let_def in_sint_def)
  next
    case 6
    then show ?thesis using assms
      by (intro that [of "KindBytes 0xF4 8"]) (auto simp: lpEncodeIntegerGetType_def int_encoding_def Let_def to_uint_def)
  qed
qed

lemma get_eof: "unat b = 255 \<Longrightarrow> lpGetWithBuf (b # ys) 0 = Some (lp_int 12345678900000255)"
proof -
  assume b: "unat b = 255"
  have "to_sint 64 12345678900000255 = 12345678900000255" by (intro to_sint_id) (simp_all add: in_sint_def)
  then show ?thesis using b by (simp add: lpGetWithBuf_def lp_uval_def lp_sign_def enc_kind)
qed

lemma int_encoding_get:
  assumes "int_kind_ok k v"
  shows "lpGetWithBuf (int_encoding k v @ ys) 0 = Some (lp_int v)"
    "lpCurrentEncodedSizeUnsafe (int_encoding k v @ ys) 0 = Some (length (int_encoding k v))"
    "length (int_encoding k v) \<le> 9" "int_encoding k v \<noteq> []" "unat (hd (int_encoding k v)) \<noteq> 255"
proof -
  have "lpGetWithBuf (int_encoding k v @ zs) 0 = Some (lp_int v) \<and>
    lpCurrentEncodedSizeUnsafe (int_encoding k v @ zs) 0 = Some (length (int_encoding k v))" for zs
  proof (cases k)
    case Kind7
    then show ?thesis using assms get_int_7 [of v zs] by (simp add: int_encoding_def)
  next
    case Kind13
    then show ?thesis using assms get_int_13 [of "v mod 2 ^ 13" v zs] by (simp add: int_encoding_def)
  next
    case (KindBytes b n)
    then have c: "unat b = 241 \<and> n = 2 \<or> unat b = 242 \<and> n = 3 \<or> unat b = 243 \<and> n = 4 \<or> unat b = 244 \<and> n = 8"
      and i: "in_sint (8 * n) v" using assms by auto
    show ?thesis using get_int_kind [OF refl c i, of zs] KindBytes by (simp add: int_encoding_def)
  qed
  then show g: "lpGetWithBuf (int_encoding k v @ ys) 0 = Some (lp_int v)"
    and "lpCurrentEncodedSizeUnsafe (int_encoding k v @ ys) 0 = Some (length (int_encoding k v))" by blast+
  show "length (int_encoding k v) \<le> 9" and ne: "int_encoding k v \<noteq> []"
    using assms by (cases k; auto simp: int_encoding_def)+
  show "unat (hd (int_encoding k v)) \<noteq> 255"
  proof
    assume h: "unat (hd (int_encoding k v)) = 255"
    obtain b r where "int_encoding k v = b # r" using ne by (cases "int_encoding k v") auto
    then have "v = 12345678900000255" using g get_eof [of b] h by simp
    then show False using h assms by (cases k) (auto simp: int_encoding_def)
  qed
qed

lemma encode_integer_get:
  assumes "in_sint 64 v"
  shows "lpGetWithBuf (lpEncodeIntegerGetType v @ ys) 0 = Some (lp_int v)"
    "payload_ok (lpEncodeIntegerGetType v)" "length (lpEncodeIntegerGetType v) \<le> 9"
proof -
  obtain k where k: "int_kind_ok k v" "lpEncodeIntegerGetType v = int_encoding k v"
    using encode_integer_kind [OF assms] by blast
  show "lpGetWithBuf (lpEncodeIntegerGetType v @ ys) 0 = Some (lp_int v)"
    "payload_ok (lpEncodeIntegerGetType v)" "length (lpEncodeIntegerGetType v) \<le> 9"
    using int_encoding_get [OF k(1)] int_encoding_get(2) [OF k(1), of "[]"] k(2) by (simp_all add: payload_ok_def enc_kind)
qed

section \<open>Strings\<close>

lemma encode_string_get:
  assumes "length s < 2 ^ 32 - 5"
  shows "\<exists>h. lpGetWithBuf (lpEncodeString s @ ys) 0 = Some (lp_str h (length s)) \<and> drop h (lpEncodeString s) = s \<and>
      length (lpEncodeString s) = h + length s"
    "payload_ok (lpEncodeString s)"
proof -
  have "\<exists>h. (\<forall>ys. lpGetWithBuf (lpEncodeString s @ ys) 0 = Some (lp_str h (length s)) \<and>
      lpCurrentEncodedSizeUnsafe (lpEncodeString s @ ys) 0 = Some (length (lpEncodeString s))) \<and>
      drop h (lpEncodeString s) = s \<and> length (lpEncodeString s) = h + length s \<and> unat (hd (lpEncodeString s)) < 255"
  proof -
    consider "length s < 64" | "64 \<le> length s" "length s < 4096" | "4096 \<le> length s" by linarith
    then show ?thesis
    proof cases
      case 1
      have e: "lpEncodeString s = word_of_nat (length s + 128) # s" using 1 or_high(1) [of "length s"] by (simp add: lpEncodeString_def Let_def)
      have u: "unat (word_of_nat (length s + 128) :: byte) = length s + 128" using 1 by (intro unat_byte_nat) simp
      have m: "(length s + 128) mod 64 = length s" using 1 mod_mult_self1 [of "length s" 2 64] by simp
      show ?thesis unfolding e using 1 u m
        by (intro exI [of _ 1]) (simp add: lpGetWithBuf_def lpCurrentEncodedSizeUnsafe_def enc_kind lp_len_defs and_masks)
    next
      case 2
      let ?q = "length s div 256"
      have q: "?q < 16" using 2 by (simp add: less_mult_imp_div_less)
      have e: "lpEncodeString s = word_of_nat (?q + 224) # word_of_nat (length s mod 256) # s"
        using 2 q or_high(2) [of ?q] by (simp add: lpEncodeString_def Let_def and_masks drop_bit_eq_div)
      have u: "unat (word_of_nat (?q + 224) :: byte) = ?q + 224" "unat (word_of_nat (length s mod 256) :: byte) = length s mod 256"
        using q by (intro unat_byte_nat; simp)+
      have "(?q + 14 * 16) mod 16 = ?q" using q by (simp only: mod_mult_self1 mod_less)
      then have m: "push_bit 8 ((?q + 224) mod 16) OR (length s mod 256) = length s"
        using or_push_bit' [of "length s mod 256" 8 ?q] by simp
      show ?thesis unfolding e using q u m
        by (intro exI [of _ 2]) (simp add: lpGetWithBuf_def lpCurrentEncodedSizeUnsafe_def enc_kind lp_len_defs and_masks)
    next
      case 3
      have e: "lpEncodeString s = 0xF0 # le_bytes 4 (int (length s)) @ s" using 3 by (simp add: lpEncodeString_def Let_def)
      have r: "read_uint (0xF0 # le_bytes 4 (int (length s)) @ zs) 1 4 = Some (length s)" for zs
        using read_uint_le_bytes [of "0xF0" 4 "int (length s)" zs] assms by simp
      show ?thesis unfolding e using r assms
        by (intro exI [of _ 5]) (simp add: lpGetWithBuf_def lpCurrentEncodedSizeUnsafe_def enc_kind lp_len_defs)
    qed
  qed
  then obtain h where h: "\<And>ys. lpGetWithBuf (lpEncodeString s @ ys) 0 = Some (lp_str h (length s))"
    "\<And>ys. lpCurrentEncodedSizeUnsafe (lpEncodeString s @ ys) 0 = Some (length (lpEncodeString s))"
    "drop h (lpEncodeString s) = s" "length (lpEncodeString s) = h + length s" "unat (hd (lpEncodeString s)) < 255"
    by blast
  show "\<exists>h. lpGetWithBuf (lpEncodeString s @ ys) 0 = Some (lp_str h (length s)) \<and> drop h (lpEncodeString s) = s \<and>
      length (lpEncodeString s) = h + length s" using h by blast
  have "lpEncodeString s \<noteq> []" by (simp add: lpEncodeString_def Let_def)
  then show "payload_ok (lpEncodeString s)" using h(2) [of "[]"] h(5) by (simp add: payload_ok_def enc_kind)
qed

section \<open>The content of an element\<close>

fun lpval_shift :: "nat \<Rightarrow> lpval \<Rightarrow> lpval" where
  "lpval_shift k (lp_str off n) = lp_str (k + off) n"
| "lpval_shift k (lp_int i) = lp_int i"

lemma uval_append: "lp_uval (xs @ ys) (length xs) = lp_uval ys 0"
  by (cases "byte_at ys 0") (simp_all add: lp_uval_def)

lemma get_append: "lpGetWithBuf (xs @ ys) (length xs) = map_option (lpval_shift (length xs)) (lpGetWithBuf ys 0)"
  by (cases "byte_at ys 0"; cases "LP_ENCODING_6BIT_STR_LEN ys 0"; cases "LP_ENCODING_12BIT_STR_LEN ys 0";
      cases "LP_ENCODING_32BIT_STR_LEN ys 0"; cases "lp_uval ys 0")
    (simp_all add: lpGetWithBuf_def len_append uval_append)

lemma len_left:
  "LP_ENCODING_6BIT_STR_LEN xs 0 = Some n \<Longrightarrow> LP_ENCODING_6BIT_STR_LEN (xs @ ys) 0 = Some n"
  "LP_ENCODING_12BIT_STR_LEN xs 0 = Some n \<Longrightarrow> LP_ENCODING_12BIT_STR_LEN (xs @ ys) 0 = Some n"
  "LP_ENCODING_32BIT_STR_LEN xs 0 = Some n \<Longrightarrow> LP_ENCODING_32BIT_STR_LEN (xs @ ys) 0 = Some n"
  using byte_at_left [of xs 0 _ ys] byte_at_left [of xs 1 _ ys] read_uint_left [of xs 1 4 _ ys]
  by (auto simp: lp_len_defs split: bind_splits)

lemma uval_left: "lp_uval xs 0 = Some u \<Longrightarrow> lp_uval (xs @ ys) 0 = Some u"
proof -
  assume u: "lp_uval xs 0 = Some u"
  then obtain b where b: "byte_at xs 0 = Some b" by (auto simp: lp_uval_def split: bind_splits)
  then show ?thesis
    using u byte_at_left [OF b, of ys] byte_at_left [of xs 1 _ ys] read_uint_left [of xs 1 2 _ ys]
      read_uint_left [of xs 1 3 _ ys] read_uint_left [of xs 1 4 _ ys] read_uint_left [of xs 1 8 _ ys]
    by (auto simp: lp_uval_def bind_eq_Some_conv split: if_splits)
qed

lemma get_left: "lpGetWithBuf xs 0 = Some v \<Longrightarrow> lpGetWithBuf (xs @ ys) 0 = Some v"
  using byte_at_left [of xs 0 _ ys] len_left [of xs _ ys] uval_left [of xs _ ys]
  by (auto simp: lpGetWithBuf_def split: bind_splits if_splits)

lemma sint_flip: "in_sint 64 x \<Longrightarrow> in_sint 64 (- x - 1)"
  by (auto simp: in_sint_def)

lemma lp_sign_range: "in_sint 64 (lp_sign u)"
proof -
  have r: "in_sint 64 (to_sint 64 x)" for x by (rule to_sint_range) simp
  show ?thesis using r sint_flip [OF r] by (cases u) (simp add: lp_sign_def)
qed

text \<open>What a well-formed encoding holds: an integer, or a string that fills the rest of it.\<close>

lemma payload_get:
  assumes "payload_ok e"
  obtains (int) i where "lpGetWithBuf e 0 = Some (lp_int i)" "in_sint 64 i"
      "\<And>s0. lpGetWithSize e 0 s0 = Some (lp_int i, length e + lpEncodeBacklenBytes (length e))"
    | (str) h n where "lpGetWithBuf e 0 = Some (lp_str h n)" "h + n = length e" "n < 2 ^ 32"
      "\<And>s0. lpGetWithSize e 0 s0 = Some (lp_str h n, length e + lpEncodeBacklenBytes (length e))"
proof -
  obtain b r where e: "e = b # r" using assms by (cases e) (auto simp: payload_ok_def)
  have b: "unat b < 245" using payload_kinds [OF assms] e by auto
  have s: "lpCurrentEncodedSizeUnsafe (b # r) 0 = Some (Suc (length r))" using assms e by (simp add: payload_ok_def)
  note kinds = lpGetWithBuf_def lpGetWithSize_def lp_uval_def enc_kind
  have fin: thesis if "lpGetWithBuf e 0 = Some (lp_int (lp_sign u))"
      "\<And>s0. lpGetWithSize e 0 s0 = Some (lp_int (lp_sign u), length e + lpEncodeBacklenBytes (length e))" for u
    using that(1,2) lp_sign_range [of u] int by blast
  consider "unat b < 128" | "128 \<le> unat b" "unat b < 192" | "192 \<le> unat b" "unat b < 224" | "224 \<le> unat b" "unat b < 240"
    | "unat b = 240" | "unat b = 241" | "unat b = 242" | "unat b = 243" | "unat b = 244" using b by linarith
  then show ?thesis
  proof cases
    case 1
    then have "length r = 0" using s by (simp add: lpCurrentEncodedSizeUnsafe_def enc_kind)
    then show ?thesis using fin 1 e by (simp add: kinds lpEncodeBacklenBytes_def)
  next
    case 2
    then obtain n where n: "LP_ENCODING_6BIT_STR_LEN (b # r) 0 = Some n" "n = length r"
      using s by (auto simp: lpCurrentEncodedSizeUnsafe_def enc_kind)
    moreover have "n < 64" using n(1) by (auto simp: lp_len_defs and_masks)
    ultimately show ?thesis using str [of 1 n] 2 e by (simp add: kinds)
  next
    case 3
    then have "length r = 1" using s by (simp add: lpCurrentEncodedSizeUnsafe_def enc_kind)
    then show ?thesis using fin 3 e by (cases r) (auto simp: kinds lpEncodeBacklenBytes_def)
  next
    case 4
    then obtain n where n: "LP_ENCODING_12BIT_STR_LEN (b # r) 0 = Some n" "2 + n = Suc (length r)"
      using s by (auto simp: lpCurrentEncodedSizeUnsafe_def enc_kind)
    moreover have "n < 4096"
    proof -
      have "\<exists>b1 :: byte. n = push_bit 8 (unat b mod 16) OR unat b1"
        using n(1) by (auto simp: lp_len_defs and_masks bind_eq_Some_conv)
      then obtain b1 :: byte where "n = push_bit 8 (unat b mod 16) OR unat b1" by blast
      then have "n = (unat b mod 16) * 256 + unat b1" using or_push_bit' [of "unat b1" 8] unat_byte_less [of b1] by simp
      moreover have "unat b mod 16 < 16" by simp
      ultimately show ?thesis using unat_byte_less [of b1] by linarith
    qed
    ultimately show ?thesis using str [of 2 n] 4 e by (simp add: kinds)
  next
    case 5
    then obtain n where n: "LP_ENCODING_32BIT_STR_LEN (b # r) 0 = Some n" "(5 + n) mod 2 ^ 32 = Suc (length r)"
      using s by (auto simp: lpCurrentEncodedSizeUnsafe_def enc_kind)
    obtain bs where bs: "read_bytes (b # r) 1 4 = Some bs" "n = nat (le_uint bs)"
      using n(1) by (auto simp: lp_len_defs read_uint_def)
    then have l: "5 \<le> Suc (length r)" "length bs = 4" by (auto simp: read_bytes_def split: if_splits)
    then have "n < 2 ^ 32" using le_uint_less [of bs] bs(2) by (simp add: nat_less_iff)
    have "5 + n = Suc (length r)"
      using n(2) l(1) \<open>n < 2 ^ 32\<close> by (cases "5 + n < 2 ^ 32") (simp_all add: le_mod_geq)
    then have L: "length e = n + 5" by (simp add: e)
    show ?thesis
    proof (rule str [of 5 n])
      show "lpGetWithBuf e 0 = Some (lp_str 5 n)" using n(1) 5 by (simp add: e kinds)
      show "lpGetWithSize e 0 s0 = Some (lp_str 5 n, length e + lpEncodeBacklenBytes (length e))" for s0
        unfolding L using n(1) 5 by (simp add: e kinds)
    qed (use L \<open>n < 2 ^ 32\<close> in simp_all)
  next
    case 6
    then have "length r = 2" using s by (simp add: lpCurrentEncodedSizeUnsafe_def enc_kind)
    then obtain u where "read_uint (b # r) 1 2 = Some u" by (auto simp: read_uint_def read_bytes_def)
    then show ?thesis using fin 6 \<open>length r = 2\<close> e by (auto simp: kinds lpEncodeBacklenBytes_def)
  next
    case 7
    then have "length r = 3" using s by (simp add: lpCurrentEncodedSizeUnsafe_def enc_kind)
    then obtain u where "read_uint (b # r) 1 3 = Some u" by (auto simp: read_uint_def read_bytes_def)
    then show ?thesis using fin 7 \<open>length r = 3\<close> e by (auto simp: kinds lpEncodeBacklenBytes_def)
  next
    case 8
    then have "length r = 4" using s by (simp add: lpCurrentEncodedSizeUnsafe_def enc_kind)
    then obtain u where "read_uint (b # r) 1 4 = Some u" by (auto simp: read_uint_def read_bytes_def)
    then show ?thesis using fin 8 \<open>length r = 4\<close> e by (auto simp: kinds lpEncodeBacklenBytes_def)
  next
    case 9
    then have "length r = 8" using s by (simp add: lpCurrentEncodedSizeUnsafe_def enc_kind)
    then obtain u where "read_uint (b # r) 1 8 = Some u" by (auto simp: read_uint_def read_bytes_def)
    then show ?thesis using fin 9 \<open>length r = 8\<close> e by (auto simp: kinds lpEncodeBacklenBytes_def)
  qed
qed

definition payload_string :: "bytes \<Rightarrow> bytes" where
  "payload_string e =
     (case lpGetWithBuf e 0 of
        Some (lp_int i) \<Rightarrow> dec_int i | Some (lp_str h n) \<Rightarrow> take n (drop h e) | None \<Rightarrow> [])"

lemma get_context:
  "lpGetWithBuf e 0 = Some v \<Longrightarrow> lpGetWithBuf (xs @ e @ ys) (length xs) = Some (lpval_shift (length xs) v)"
  using get_left [of e v ys] by (simp add: get_append)

lemma get_intbuf_context:
  assumes "payload_ok e" and "length intbuf = LP_INTBUF_SIZE"
  shows "lpGet_intbuf (xs @ e @ ys) (length xs) intbuf = Some (payload_string e)"
  using assms(1)
proof (cases rule: payload_get)
  case (int i)
  have "length (dec_int i) < length intbuf" using length_dec_int [OF int(2)] assms(2) by (simp add: LP_INTBUF_SIZE_def)
  then show ?thesis
    using get_context [OF int(1), of xs ys] ll2string_ok [OF int(2), of intbuf] int(1)
    by (simp add: lpGet_intbuf_def payload_string_def read_bytes_def)
next
  case (str h n)
  then show ?thesis using get_context [OF str(1), of xs ys]
    by (simp add: lpGet_intbuf_def payload_string_def read_bytes_def)
qed

lemma lpStringToInt64_eq: "lpStringToInt64 = string2ll"
  by (simp add: fun_eq_iff lpStringToInt64_def string2ll_def)

text \<open>The elements a caller may store: integers of 64 bits, and strings whose encoding has a 32-bit length.\<close>

fun ele_ok :: "lp_ele \<Rightarrow> bool" where
  "ele_ok (lp_elestr s) \<longleftrightarrow> length s < 2 ^ 32 - 5"
| "ele_ok (lp_eleint e) \<longleftrightarrow> (\<exists>v. in_sint 64 v \<and> e = lpEncodeIntegerGetType v)"
| "ele_ok lp_delete \<longleftrightarrow> False"

fun ele_string :: "lp_ele \<Rightarrow> bytes" where
  "ele_string (lp_elestr s) = s"
| "ele_string (lp_eleint e) = payload_string e"
| "ele_string lp_delete = []"

lemma payload_string_int: "in_sint 64 v \<Longrightarrow> payload_string (lpEncodeIntegerGetType v) = dec_int v"
  using encode_integer_get(1) [of v "[]"] by (simp add: payload_string_def)

lemma payload_string_str: "length s < 2 ^ 32 - 5 \<Longrightarrow> payload_string (lpEncodeString s) = s"
  using encode_string_get(1) [of s "[]"] by (auto simp: payload_string_def)

lemma lp_payload_ok:
  assumes "ele_ok ele"
  shows "payload_ok (fst (lp_payload ele))" "snd (lp_payload ele) = length (fst (lp_payload ele))"
    "payload_string (fst (lp_payload ele)) = ele_string ele"
proof -
  have "payload_ok (fst (lp_payload ele)) \<and> snd (lp_payload ele) = length (fst (lp_payload ele)) \<and>
    payload_string (fst (lp_payload ele)) = ele_string ele"
  proof (cases ele)
    case (lp_elestr s)
    show ?thesis
    proof (cases "string2ll s")
      case None
      have "length (lpEncodeString s) = (if length s < 64 then 1 + length s else if length s < 4096 then 2 + length s else 5 + length s)"
        by (simp add: lpEncodeString_def Let_def)
      then show ?thesis using None lp_elestr assms encode_string_get(2) [of s] payload_string_str [of s]
        by (simp add: lp_payload_def lpEncodeGetType_def lpStringToInt64_eq)
    next
      case (Some v)
      then have v: "in_sint 64 v" "s = dec_int v" using string2ll_iff by auto
      then show ?thesis using Some lp_elestr encode_integer_get(2) [OF v(1)] payload_string_int [OF v(1)]
        by (simp add: lp_payload_def lpEncodeGetType_def lpStringToInt64_eq)
    qed
  next
    case (lp_eleint e)
    then show ?thesis using assms encode_integer_get(2) by (auto simp: lp_payload_def)
  qed (use assms in simp)
  then show "payload_ok (fst (lp_payload ele))" "snd (lp_payload ele) = length (fst (lp_payload ele))"
    "payload_string (fst (lp_payload ele)) = ele_string ele" by blast+
qed

lemma lp_payload_big:
  assumes "2 ^ 32 - 5 \<le> length s"
  shows "2 ^ 32 \<le> snd (lp_payload (lp_elestr s))"
proof -
  have "string2ll s = None" using assms by (simp add: string2ll_def LONG_STR_SIZE_def)
  then show ?thesis using assms by (simp add: lp_payload_def lpEncodeGetType_def lpStringToInt64_eq)
qed

end
