(* ===== verification/Listpack_Inv.thy ===== *)
theory Listpack_Inv
  imports Listpack_Enc
begin

text \<open>
  The invariant of a listpack and its meaning: the list of the encodings it holds. Walking in both
  directions, counting and seeking follow that list.
\<close>

section \<open>Representation\<close>

definition entry :: "bytes \<Rightarrow> bytes" where
  "entry e = e @ lpEncodeBacklen (length e)"

definition entries :: "bytes list \<Rightarrow> bytes" where
  "entries es = concat (map entry es)"

definition lp_total :: "bytes list \<Rightarrow> nat" where
  "lp_total es = 7 + length (entries es)"

text \<open>The header counts the elements, or holds the mark that the number is not known.\<close>

definition count_ok :: "nat \<Rightarrow> bytes list \<Rightarrow> bool" where
  "count_ok n es \<longleftrightarrow> n = 65535 \<or> n = length es \<and> n < 65535"

definition lp_bytes :: "nat \<Rightarrow> bytes list \<Rightarrow> bytes" where
  "lp_bytes n es = le_bytes 4 (int (lp_total es)) @ le_bytes 2 (int n) @ entries es @ [LP_EOF]"

definition lp_ok :: "nat \<Rightarrow> bytes list \<Rightarrow> bool" where
  "lp_ok n es \<longleftrightarrow> (\<forall>e \<in> set es. payload_ok e) \<and> lp_total es \<le> UINT32_MAX \<and> count_ok n es"

definition lp_rep :: "bytes \<Rightarrow> bytes list \<Rightarrow> bool" where
  "lp_rep lp es \<longleftrightarrow> (\<exists>n slack. lp_ok n es \<and> lp = lp_bytes n es @ slack)"

definition lp_off :: "bytes list \<Rightarrow> nat \<Rightarrow> nat" where
  "lp_off es i = 6 + length (entries (take i es))"

lemma entries_simps [simp]:
  "entries [] = []" "entries (e # es) = entry e @ entries es" "entries (xs @ ys) = entries xs @ entries ys"
  by (simp_all add: entries_def)

lemma length_entry [simp]: "length (entry e) = length e + lpEncodeBacklenBytes (length e)"
  by (simp add: entry_def)

lemma lp_off_simps:
  "lp_off es 0 = 6" "lp_off es (length es) = lp_total es - 1"
  "i < length es \<Longrightarrow> lp_off es (Suc i) = lp_off es i + length (entry (es ! i))"
  by (simp_all add: lp_off_def lp_total_def take_Suc_conv_app_nth)

lemma length_lp_bytes [simp]: "length (lp_bytes n es) = lp_total es"
  by (simp add: lp_bytes_def lp_total_def)

lemma entries_split: "i \<le> length es \<Longrightarrow> entries es = entries (take i es) @ entries (drop i es)"
  by (metis append_take_drop_id entries_simps(3))

definition lp_prefix :: "nat \<Rightarrow> bytes list \<Rightarrow> nat \<Rightarrow> bytes" where
  "lp_prefix n es i = le_bytes 4 (int (lp_total es)) @ le_bytes 2 (int n) @ entries (take i es)"

lemma length_lp_prefix [simp]: "length (lp_prefix n es i) = lp_off es i"
  by (simp add: lp_prefix_def lp_off_def)

lemma lp_bytes_split:
  "i \<le> length es \<Longrightarrow> lp_bytes n es = lp_prefix n es i @ entries (drop i es) @ [LP_EOF]"
  using entries_split [of i es] by (simp add: lp_bytes_def lp_prefix_def)

lemma lp_bytes_at:
  assumes "i < length es"
  shows "lp_bytes n es = lp_prefix n es i @ (es ! i) @ lpEncodeBacklen (length (es ! i)) @ entries (drop (Suc i) es) @ [LP_EOF]"
proof -
  have "entries (drop i es) = entry (es ! i) @ entries (drop (Suc i) es)"
    using assms by (simp flip: Cons_nth_drop_Suc)
  then show ?thesis using lp_bytes_split [of i es n] assms by (simp add: entry_def)
qed

section \<open>The header\<close>

lemma read_uint_prefix:
  assumes "0 \<le> v" "v < 2 ^ (8 * k)"
  shows "read_uint (xs @ le_bytes k v @ ys) (length xs) k = Some (nat v)"
  using read_uint_append [of xs "le_bytes k v @ ys" 0 k] assms
  by (simp add: read_uint_def read_bytes_def le_uint_le_bytes)

lemma get_header:
  assumes "lp_ok n es"
  shows "lpGetTotalBytes (lp_bytes n es @ slack) = Some (lp_total es)"
    "lpGetNumElements (lp_bytes n es @ slack) = Some n"
    "lpBytes (lp_bytes n es @ slack) = Some (lp_total es)"
proof -
  have t: "lp_total es < 2 ^ 32" and n: "n < 2 ^ 16" using assms by (auto simp: lp_ok_def count_ok_def)
  show g: "lpGetTotalBytes (lp_bytes n es @ slack) = Some (lp_total es)"
    using read_uint_prefix [of "int (lp_total es)" 4 "[]"] t by (simp add: lpGetTotalBytes_def lp_bytes_def)
  show "lpGetNumElements (lp_bytes n es @ slack) = Some n"
    using read_uint_prefix [of "int n" 2 "le_bytes 4 (int (lp_total es))"] n by (simp add: lpGetNumElements_def lp_bytes_def)
  show "lpBytes (lp_bytes n es @ slack) = Some (lp_total es)" using g by (simp add: lpBytes_def)
qed

lemma lp_total_pos: "7 \<le> lp_total es"
  by (simp add: lp_total_def)

lemma lp_off_mono: "i \<le> j \<Longrightarrow> lp_off es i \<le> lp_off es j"
proof -
  assume "i \<le> j"
  then obtain k where k: "take j es = take i es @ k" by (metis le_add_diff_inverse take_add)
  show ?thesis by (simp add: lp_off_def k)
qed

lemma lp_off_less: "lp_off es i < lp_total es"
  using lp_off_mono [of i "length es" es] lp_off_simps(2) [of es] lp_total_pos [of es]
  by (cases "i \<le> length es") (simp_all add: lp_off_def)

lemma payload_length:
  assumes "lp_ok n es" "i < length es"
  shows "length (es ! i) < 2 ^ 32"
proof -
  have "lp_off es (Suc i) < lp_total es" by (rule lp_off_less)
  then show ?thesis using lp_off_simps(3) [OF assms(2)] assms(1) by (simp add: lp_ok_def)
qed

section \<open>Walking\<close>

lemma byte_at_off:
  assumes "lp_ok n es"
  shows "i < length es \<Longrightarrow> byte_at (lp_bytes n es @ slack) (lp_off es i) = Some (hd (es ! i))"
    "byte_at (lp_bytes n es @ slack) (lp_off es (length es)) = Some LP_EOF"
proof -
  assume i: "i < length es"
  then have "es ! i \<noteq> []" using assms by (auto simp: lp_ok_def payload_ok_def)
  then show "byte_at (lp_bytes n es @ slack) (lp_off es i) = Some (hd (es ! i))"
    using byte_at_append(2) [of "lp_prefix n es i"] byte_at_hd [of "es ! i"] by (simp add: lp_bytes_at [OF i])
next
  show "byte_at (lp_bytes n es @ slack) (lp_off es (length es)) = Some LP_EOF"
    using byte_at_append(2) [of "lp_prefix n es (length es)"] by (simp add: lp_bytes_split [of "length es"])
qed

lemma size_at:
  assumes "lp_ok n es" "i < length es"
  shows "lpCurrentEncodedSizeUnsafe (lp_bytes n es @ slack) (lp_off es i) = Some (length (es ! i))"
proof -
  have "payload_ok (es ! i)" using assms by (simp add: lp_ok_def)
  from size_context [OF this, of "lp_prefix n es i"] show ?thesis by (simp add: lp_bytes_at [OF assms(2)])
qed

lemma skip_at:
  "lp_ok n es \<Longrightarrow> i < length es \<Longrightarrow> lpSkip (lp_bytes n es @ slack) (lp_off es i) = Some (lp_off es (Suc i))"
  by (simp add: lpSkip_def size_at lp_off_simps)

lemma backlen_at:
  assumes "lp_ok n es" "i < length es"
  shows "lpDecodeBacklen (lp_bytes n es @ slack) (lp_off es (Suc i) - 1) = Some (length (es ! i))"
proof -
  have "length (es ! i) < 2 ^ 35" using payload_length [OF assms] by simp
  from decode_backlen [OF this, of "lp_prefix n es i @ (es ! i)"]
  show ?thesis by (simp add: lp_bytes_at [OF assms(2)] lp_off_simps(3) [OF assms(2)] add.assoc)
qed

lemma validate_next_at:
  assumes "lp_ok n es" "i \<le> length es"
  shows "lpValidateNext (lp_bytes n es @ slack) (Some (lp_off es i)) (lp_total es) =
    Some (Some (if i < length es then Some (lp_off es (Suc i)) else None))"
proof -
  have r: "\<not> OUT_OF_RANGE (lp_total es) (lp_off es j)" for j
    using lp_off_less [of es j] by (simp add: OUT_OF_RANGE_def LP_HDR_SIZE_def lp_off_def)
  show ?thesis
  proof (cases "i < length es")
    case False
    then show ?thesis using assms byte_at_off(2) [OF assms(1)] r by (simp add: lpValidateNext_def)
  next
    case True
    have ok: "payload_ok (es ! i)" using assms(1) True by (simp add: lp_ok_def)
    then have k: "hd (es ! i) \<noteq> LP_EOF" "0 < lpCurrentEncodedSizeBytes (hd (es ! i))"
      "lpCurrentEncodedSizeBytes (hd (es ! i)) \<le> length (es ! i)"
      using payload_kinds [OF ok] by (auto simp: payload_ok_def)
    have nx: "lp_off es (Suc i) = lp_off es i + (length (es ! i) + lpEncodeBacklenBytes (length (es ! i)))"
      using lp_off_simps(3) [OF True] by simp
    have "lp_off es i + lpCurrentEncodedSizeBytes (hd (es ! i)) < lp_total es"
      using lp_off_less [of es "Suc i"] k(3) nx by linarith
    then have r1: "\<not> OUT_OF_RANGE (lp_total es) (lp_off es i + lpCurrentEncodedSizeBytes (hd (es ! i)))"
      by (simp add: OUT_OF_RANGE_def LP_HDR_SIZE_def lp_off_def)
    have m: "(length (es ! i) + lpEncodeBacklenBytes (length (es ! i))) mod 2 ^ 64 =
        length (es ! i) + lpEncodeBacklenBytes (length (es ! i))"
      using payload_length [OF assms(1) True] backlen_bytes_range [of "length (es ! i)"] by simp
    show ?thesis
      using True r [of i] r [of "Suc i"] r1 k(1,2) m byte_at_off(1) [OF assms(1) True, of slack]
        size_at [OF assms(1) True, of slack] backlen_at [OF assms(1) True, of slack] nx
      by (simp add: lpValidateNext_def Let_def)
  qed
qed

lemma assert_at:
  "lp_ok n es \<Longrightarrow> i \<le> length es \<Longrightarrow> lpAssertValidEntry (lp_bytes n es @ slack) (lp_total es) (lp_off es i) = Some ()"
  by (simp add: lpAssertValidEntry_def validate_next_at)

lemma hd_not_eof: "lp_ok n es \<Longrightarrow> i < length es \<Longrightarrow> hd (es ! i) \<noteq> LP_EOF"
  by (simp add: lp_ok_def payload_ok_def)

definition lp_at :: "bytes list \<Rightarrow> nat \<Rightarrow> nat option" where
  \<comment> \<open>the pointer to the element of index \<open>i\<close>, null behind the last one\<close>
  "lp_at es i = (if i < length es then Some (lp_off es i) else None)"

lemma eof_at:
  assumes "lp_ok n es" "i \<le> length es"
  obtains b where "byte_at (lp_bytes n es @ slack) (lp_off es i) = Some b" "b = LP_EOF \<longleftrightarrow> i = length es"
proof (cases "i < length es")
  case True
  then show ?thesis using that byte_at_off(1) [OF assms(1) True] hd_not_eof [OF assms(1) True] by simp
next
  case False
  then have "i = length es" using assms(2) by simp
  then show ?thesis using that byte_at_off(2) [OF assms(1)] by simp
qed

lemma next_at:
  assumes "lp_ok n es" "i < length es"
  shows "lpNext (lp_bytes n es @ slack) (lp_off es i) = Some (lp_at es (Suc i))"
    "lpNextWithBytes (lp_bytes n es @ slack) (lp_off es i) (lp_total es) = Some (lp_at es (Suc i))"
proof -
  have i: "Suc i \<le> length es" using assms(2) by simp
  obtain b where b: "byte_at (lp_bytes n es @ slack) (lp_off es (Suc i)) = Some b" "b = LP_EOF \<longleftrightarrow> Suc i = length es"
    using eof_at [OF assms(1) i] by blast
  show "lpNext (lp_bytes n es @ slack) (lp_off es i) = Some (lp_at es (Suc i))"
    "lpNextWithBytes (lp_bytes n es @ slack) (lp_off es i) (lp_total es) = Some (lp_at es (Suc i))"
    using b i skip_at [OF assms, of slack] get_header(3) [OF assms(1), of slack] assert_at [OF assms(1) i, of slack]
    by (simp_all add: lpNext_def lpNextWithBytes_def lp_at_def)
qed

lemma first_at:
  assumes "lp_ok n es"
  shows "lpFirst (lp_bytes n es @ slack) = Some (lp_at es 0)"
proof -
  obtain b where b: "byte_at (lp_bytes n es @ slack) 6 = Some b" "b = LP_EOF \<longleftrightarrow> es = []"
    using eof_at [OF assms, of 0 slack] by (auto simp: lp_off_simps)
  then show ?thesis using get_header(3) [OF assms, of slack] assert_at [OF assms, of 0 slack]
    by (simp add: lpFirst_def lp_at_def LP_HDR_SIZE_def lp_off_simps)
qed

lemma prev_at:
  assumes "lp_ok n es" "i \<le> length es"
  shows "lpPrev (lp_bytes n es @ slack) (lp_off es i) = Some (if i = 0 then None else Some (lp_off es (i - 1)))"
proof (cases i)
  case 0
  then show ?thesis by (simp add: lpPrev_def LP_HDR_SIZE_def lp_off_simps)
next
  case (Suc j)
  then have j: "j < length es" using assms(2) by simp
  have nx: "lp_off es (Suc j) = lp_off es j + (length (es ! j) + lpEncodeBacklenBytes (length (es ! j)))"
    using lp_off_simps(3) [OF j] by simp
  have m: "(length (es ! j) + lpEncodeBacklenBytes (length (es ! j))) mod 2 ^ 64 =
      length (es ! j) + lpEncodeBacklenBytes (length (es ! j))"
    using payload_length [OF assms(1) j] backlen_bytes_range [of "length (es ! j)"] by simp
  have "lp_off es (Suc j) \<noteq> 6" using nx backlen_bytes_range [of "length (es ! j)"] by (simp add: lp_off_def)
  then show ?thesis
    using Suc nx m backlen_at [OF assms(1) j, of slack] get_header(3) [OF assms(1), of slack] assert_at [OF assms(1), of j slack] j
    by (simp add: lpPrev_def LP_HDR_SIZE_def Let_def)
qed

lemma last_at:
  assumes "lp_ok n es"
  shows "lpLast (lp_bytes n es @ slack) = Some (if es = [] then None else Some (lp_off es (length es - 1)))"
  using prev_at [OF assms, of "length es" slack] get_header(1) [OF assms, of slack] lp_total_pos [of es]
  by (simp add: lpLast_def lp_off_simps)

section \<open>Counting and seeking\<close>

lemma length_entries: "\<forall>e \<in> set es. payload_ok e \<Longrightarrow> length es \<le> length (entries es)"
proof (induction es)
  case (Cons e es)
  then show ?case using backlen_bytes_range [of "length e"] by simp
qed simp

lemma count_bound: "lp_ok n es \<Longrightarrow> length es < 2 ^ 32"
  using length_entries [of es] by (simp add: lp_ok_def lp_total_def)

lemma length_loop_at:
  assumes ok: "lp_ok n es"
  shows "i \<le> length es \<Longrightarrow> c + (length es - i) < 2 ^ 32 \<Longrightarrow>
    length_loop (lp_bytes n es @ slack) (lp_at es i) c = Some (c + (length es - i))"
proof (induction "length es - i" arbitrary: i c)
  case 0
  then show ?case by (simp add: length_loop.simps lp_at_def)
next
  case (Suc d)
  then have i: "i < length es" "d = length es - Suc i" by linarith+
  have "length_loop (lp_bytes n es @ slack) (lp_at es i) c = length_loop (lp_bytes n es @ slack) (lp_at es (Suc i)) (c + 1)"
    using i(1) next_at(1) [OF ok i(1), of slack] Suc.prems(2) by (subst length_loop.simps) (simp add: lp_at_def)
  then show ?case using Suc.hyps(1) [OF i(2), of "c + 1"] i(1) Suc.prems(2) by simp
qed

lemma write_bytes_mid:
  "length ws = length ys \<Longrightarrow> write_bytes (xs @ ys @ zs) (length xs) ws = Some (xs @ ws @ zs)"
  by (simp add: write_bytes_def)

lemma set_count:
  "lpSetNumElements (lp_bytes n es @ slack) m = Some (lp_bytes m es @ slack)"
  using write_bytes_mid [of "le_bytes 2 (int m)" "le_bytes 2 (int n)" "le_bytes 4 (int (lp_total es))"]
  by (simp add: lpSetNumElements_def lp_bytes_def)

lemma length_at:
  assumes ok: "lp_ok n es"
  shows "\<exists>m. lpLength (lp_bytes n es @ slack) = Some (lp_bytes m es @ slack, length es) \<and> lp_ok m es"
proof (cases "n = 65535")
  case False
  then have "n = length es" using ok by (simp add: lp_ok_def count_ok_def)
  then show ?thesis using False ok get_header(2) [OF ok, of slack]
    by (intro exI [of _ n]) (simp add: lpLength_def LP_HDR_NUMELE_UNKNOWN_def)
next
  case True
  have "length_loop (lp_bytes n es @ slack) (lp_at es 0) 0 = Some (length es)"
    using length_loop_at [OF ok, of 0 0] count_bound [OF ok] by simp
  then show ?thesis
    using True get_header(2) [OF ok, of slack] first_at [OF ok, of slack] ok set_count [of n es slack "length es"]
    by (intro exI [of _ "if length es < 65535 then length es else n"])
      (auto simp: lpLength_def LP_HDR_NUMELE_UNKNOWN_def lp_ok_def count_ok_def)
qed

lemma seek_forward_at:
  assumes ok: "lp_ok n es"
  shows "seek_forward (lp_bytes n es @ slack) k (lp_at es i) = Some (lp_at es (i + k))"
proof (induction k arbitrary: i)
  case (Suc k)
  show ?case
  proof (cases "i < length es")
    case True
    then show ?thesis using Suc [of "Suc i"] next_at(1) [OF ok True, of slack] by (simp add: lp_at_def)
  qed (simp add: lp_at_def)
qed simp

definition lp_before :: "bytes list \<Rightarrow> nat \<Rightarrow> nat option" where
  "lp_before es i = (if i = 0 then None else Some (lp_off es (i - 1)))"

lemma seek_backward_at:
  assumes ok: "lp_ok n es"
  shows "i \<le> length es \<Longrightarrow> seek_backward (lp_bytes n es @ slack) k (lp_before es i) = Some (lp_before es (i - k))"
proof (induction k arbitrary: i)
  case (Suc k)
  show ?case
  proof (cases i)
    case (Suc j)
    then have "lpPrev (lp_bytes n es @ slack) (lp_off es j) = Some (lp_before es j)"
      using prev_at [OF ok, of j slack] Suc.prems by (simp add: lp_before_def)
    then show ?thesis using Suc.IH [of j] Suc.prems Suc by (simp add: lp_before_def)
  qed (simp add: lp_before_def)
qed simp

text \<open>The pointer \<^verbatim>\<open>lpSeek\<close> is to return: negative indexes count from the end.\<close>

definition lp_index :: "bytes list \<Rightarrow> int \<Rightarrow> nat option" where
  "lp_index es idx =
     (let i = (if idx < 0 then int (length es) + idx else idx) in
      if 0 \<le> i \<and> i < int (length es) then Some (lp_off es (nat i)) else None)"

lemma seek_at:
  assumes ok: "lp_ok n es"
  shows "lpSeek (lp_bytes n es @ slack) idx = Some (lp_index es idx)"
proof -
  have lb: "lpLast (lp_bytes n es @ slack) = Some (lp_before es (length es))"
    using last_at [OF ok, of slack] by (simp add: lp_before_def)
  have fw: "do { ele \<leftarrow> lpFirst (lp_bytes n es @ slack); seek_forward (lp_bytes n es @ slack) k ele } = Some (lp_at es k)" for k
    using first_at [OF ok, of slack] seek_forward_at [OF ok, of slack k 0] by simp
  have bw: "do { ele \<leftarrow> lpLast (lp_bytes n es @ slack); seek_backward (lp_bytes n es @ slack) k ele } =
      Some (lp_before es (length es - k))" for k
    using lb seek_backward_at [OF ok, of "length es" slack k] by simp
  have bw': "do { ele \<leftarrow> lpLast (lp_bytes n es @ slack); seek_backward (lp_bytes n es @ slack) (nat (- 1 - x)) ele } =
      Some (if 0 \<le> int (length es) + x then Some (lp_off es (nat (int (length es) + x))) else None)" if "x < 0" for x
  proof -
    have "length es - nat (- 1 - x) = (if 0 \<le> int (length es) + x then Suc (nat (int (length es) + x)) else 0)"
      using that by simp linarith
    then show ?thesis using bw [of "nat (- 1 - x)"] by (simp add: lp_before_def split: if_splits)
  qed
  note h = get_header(2) [OF ok, of slack]
  show ?thesis
  proof (cases "n = 65535")
    case True
    show ?thesis
    proof (cases "idx < 0")
      case neg: True
      then show ?thesis using h True bw' [OF neg]
        by (simp add: lpSeek_def seek_plan_def LP_HDR_NUMELE_UNKNOWN_def lp_index_def)
    next
      case False
      then show ?thesis using h True fw [of "nat idx"]
        by (simp add: lpSeek_def seek_plan_def LP_HDR_NUMELE_UNKNOWN_def lp_index_def lp_at_def nat_less_iff)
    qed
  next
    case False
    then have n: "n = length es" using ok by (simp add: lp_ok_def count_ok_def)
    define i where "i = (if idx < 0 then int n + idx else idx)"
    have plan: "lpSeek (lp_bytes n es @ slack) idx =
        (if i < 0 \<or> i \<ge> int n then Some None
         else if i > int n div 2 then do { ele \<leftarrow> lpLast (lp_bytes n es @ slack);
           seek_backward (lp_bytes n es @ slack) (nat (- 1 - (i - int n))) ele }
         else do { ele \<leftarrow> lpFirst (lp_bytes n es @ slack); seek_forward (lp_bytes n es @ slack) (nat i) ele })"
      using h False by (simp add: lpSeek_def seek_plan_def LP_HDR_NUMELE_UNKNOWN_def i_def Let_def)
    have ix: "lp_index es idx = (if i < 0 \<or> i \<ge> int n then None else Some (lp_off es (nat i)))"
      by (simp add: lp_index_def i_def n Let_def) 
    consider "i < 0 \<or> i \<ge> int n" | "0 \<le> i" "i < int n" "i > int n div 2" | "0 \<le> i" "i < int n" "\<not> i > int n div 2"
      by linarith
    then show ?thesis
    proof cases
      case 1
      then show ?thesis unfolding plan ix by simp
    next
      case 2
      then have "i - int n < 0" by simp
      from bw' [OF this] show ?thesis unfolding plan ix using 2 n by simp
    next
      case 3
      then show ?thesis unfolding plan ix using fw [of "nat i"] n by (simp add: lp_at_def nat_less_iff)
    qed
  qed
qed

section \<open>A concrete listpack\<close>

text \<open>The listpack with the one element 5, as it lies in memory.\<close>

lemma example_rep: "lp_rep [9, 0, 0, 0, 1, 0, 5, 1, 255] [[5]]"
proof -
  have "payload_ok [5]" by code_simp
  then have "lp_ok 1 [[5]]" by (simp add: lp_ok_def lp_total_def count_ok_def entry_def lpEncodeBacklenBytes_def)
  moreover have "lp_bytes 1 [[5]] = [9, 0, 0, 0, 1, 0, 5, 1, 255]" by code_simp
  ultimately show ?thesis unfolding lp_rep_def by (intro exI [of _ 1] exI [of _ "[]"]) simp
qed

end
