(* ===== verification/Listpack_Ops.thy ===== *)
theory Listpack_Ops
  imports Listpack_Inv
begin

text \<open>
  The operations that change a listpack act on the list of its elements as insertion, replacement and
  deletion, and keep the invariant.
\<close>

section \<open>Moving bytes\<close>

lemma move_bytes_splice:
  assumes "d + length c \<le> length old + length c + length s"
  shows "move_bytes (a @ old @ c @ s) (length a + d) (length a + length old) (length c) =
    Some (a @ take d (old @ c @ s) @ c @ drop (d + length c) (old @ c @ s))"
  using assms by (simp add: move_bytes_def read_bytes_def write_bytes_def)

text \<open>
  The bytes \<open>old\<close> between \<open>a\<close> and \<open>c\<close> give way to \<open>k\<close> bytes that are still to be written; \<open>s\<close> is the
  part of the allocation behind the end marker.
\<close>

lemma splice_memory:
  fixes lp a old c s :: bytes and k :: nat
  defines "was \<equiv> length a + length old + length c" and "new \<equiv> length a + k + length c"
  assumes lp: "lp = a @ old @ c @ s"
  obtains lp2 x s' where
    "move_bytes (if new > was \<and> new > length lp then realloc_bytes junk lp new else lp)
       (length a + k) (length a + length old) (length c) = Some lp2"
    "(if new < was then realloc_bytes junk lp2 new else lp2) = a @ x @ c @ s'" "length x = k"
proof -
  obtain s1 where s1: "(if new > was \<and> new > length lp then realloc_bytes junk lp new else lp) = a @ old @ c @ s1"
    "k \<le> length old + length s1"
  proof (cases "new > was \<and> new > length lp")
    case True
    then have "take new lp = lp" by simp
    then have "realloc_bytes junk lp new = a @ old @ c @ s @ map junk [length lp..<new]"
      unfolding realloc_bytes_def by (simp add: lp)
    then show ?thesis using that [of "s @ map junk [length lp..<new]"] True by (simp add: lp new_def)
  next
    case False
    then show ?thesis using that [of s] by (auto simp: lp new_def was_def)
  qed
  obtain x r where xr: "move_bytes (a @ old @ c @ s1) (length a + k) (length a + length old) (length c) = Some (a @ x @ c @ r)"
    "length x = k"
  proof
    show "move_bytes (a @ old @ c @ s1) (length a + k) (length a + length old) (length c) =
        Some (a @ take k (old @ c @ s1) @ c @ drop (k + length c) (old @ c @ s1))"
      using s1(2) by (intro move_bytes_splice) simp
    show "length (take k (old @ c @ s1)) = k" using s1(2) by simp
  qed
  show ?thesis
  proof (cases "new < was")
    case True
    have "realloc_bytes junk (a @ x @ c @ r) new = a @ x @ c" using xr(2) by (simp add: new_def)
    then show ?thesis using that [of "a @ x @ c @ r" x "[]"] xr s1(1) True by simp
  next
    case False
    then show ?thesis using that [of "a @ x @ c @ r" x r] xr s1(1) by simp
  qed
qed

section \<open>The header\<close>

definition hdr :: "nat \<Rightarrow> nat \<Rightarrow> bytes \<Rightarrow> bytes" where
  "hdr t n m = le_bytes 4 (int t) @ le_bytes 2 (int n) @ m"

lemma length_hdr [simp]: "length (hdr t n m) = 6 + length m"
  by (simp add: hdr_def)

lemma hdr_append: "hdr t n m @ r = hdr t n (m @ r)"
  by (simp add: hdr_def)

lemma hdr_num: "n < 65536 \<Longrightarrow> lpGetNumElements (hdr t n m) = Some n"
  using read_uint_prefix [of "int n" 2 "le_bytes 4 (int t)"] by (simp add: lpGetNumElements_def hdr_def)

lemma hdr_total: "t < 2 ^ 32 \<Longrightarrow> lpGetTotalBytes (hdr t n m) = Some t"
  using read_uint_prefix [of "int t" 4 "[]"] by (simp add: lpGetTotalBytes_def hdr_def)

lemma hdr_set_num: "lpSetNumElements (hdr t n m) n' = Some (hdr t n' m)"
  using write_bytes_mid [of "le_bytes 2 (int n')" "le_bytes 2 (int n)" "le_bytes 4 (int t)"]
  by (simp add: lpSetNumElements_def hdr_def)

lemma hdr_set_total: "lpSetTotalBytes (hdr t n m) t' = Some (hdr t' n m)"
  using write_bytes_mid [of "le_bytes 4 (int t')" "le_bytes 4 (int t)" "[]"]
  by (simp add: lpSetTotalBytes_def hdr_def)

lemma lp_bytes_hdr: "lp_bytes n es = hdr (lp_total es) n (entries es @ [LP_EOF])"
  by (simp add: lp_bytes_def hdr_def)

lemma lp_prefix_hdr: "lp_prefix n es i = hdr (lp_total es) n (entries (take i es))"
  by (simp add: lp_prefix_def hdr_def)

section \<open>Inserting, replacing and deleting\<close>

definition new_payloads :: "lp_ele \<Rightarrow> bytes list" where
  "new_payloads ele = (if ele = lp_delete then [] else [fst (lp_payload ele)])"

definition count_after :: "nat \<Rightarrow> lp_ele \<Rightarrow> bytes list \<Rightarrow> nat" where
  "count_after n ele old = (if n = 65535 then 65535 else n + length (new_payloads ele) - length old)"

lemma payload_bytes:
  assumes "ele = lp_delete \<or> ele_ok ele"
  shows "snd (lp_payload ele) + length (if ele \<noteq> lp_delete then lpEncodeBacklen (snd (lp_payload ele)) else []) =
    length (entries (new_payloads ele))"
  using assms lp_payload_ok(2) [of ele] by (auto simp: new_payloads_def lp_payload_def)

lemma write_payload:
  assumes ok: "ele_ok ele" and x: "length x = length (entries (new_payloads ele))"
  shows "do { lp' \<leftarrow> write_bytes (a @ x @ c) (length a) (fst (lp_payload ele));
      write_bytes lp' (length a + snd (lp_payload ele)) (lpEncodeBacklen (snd (lp_payload ele))) } =
    Some (a @ entries (new_payloads ele) @ c)"
proof -
  define e where "e = fst (lp_payload ele)"
  have l: "snd (lp_payload ele) = length e" using lp_payload_ok(2) [OF ok] by (simp add: e_def)
  have nw: "entries (new_payloads ele) = e @ lpEncodeBacklen (length e)"
    using ok by (cases ele) (simp_all add: new_payloads_def e_def entry_def)
  let ?x1 = "take (length e) x" and ?x2 = "drop (length e) x"
  have len: "length ?x1 = length e" "length ?x2 = lpEncodeBacklenBytes (length e)" using x nw by simp_all
  have "write_bytes (a @ ?x1 @ ?x2 @ c) (length a) e = Some (a @ e @ ?x2 @ c)"
    using len by (intro write_bytes_mid) simp
  moreover have "write_bytes ((a @ e) @ ?x2 @ c) (length (a @ e)) (lpEncodeBacklen (length e)) =
      Some ((a @ e) @ lpEncodeBacklen (length e) @ c)"
    using len by (intro write_bytes_mid) simp
  moreover have "a @ x @ c = a @ ?x1 @ ?x2 @ c" by simp
  ultimately show ?thesis unfolding nw l e_def [symmetric] by (metis append_assoc bind.bind_lunit length_append)
qed

lemma payload_small: "ele_ok ele \<Longrightarrow> snd (lp_payload ele) < 2 ^ 33"
proof (cases ele)
  case (lp_elestr s)
  assume ok: "ele_ok ele"
  show ?thesis
  proof (cases "string2ll s")
    case (Some v)
    then have "length (lpEncodeIntegerGetType v) \<le> 9" using encode_integer_get(3) [of v] string2ll_iff [of s v] by simp
    then show ?thesis using lp_elestr Some by (simp add: lp_payload_def lpEncodeGetType_def lpStringToInt64_eq)
  next
    case None
    then show ?thesis using lp_elestr ok by (simp add: lp_payload_def lpEncodeGetType_def lpStringToInt64_eq)
  qed
next
  case (lp_eleint e)
  assume "ele_ok ele"
  then have "length e \<le> 9" using lp_eleint encode_integer_get(3) by auto
  then show ?thesis using lp_eleint by (simp add: lp_payload_def)
qed simp

lemma lp_total_append: "lp_total (xs @ ys @ zs) = 7 + length (entries xs) + length (entries ys) + length (entries zs)"
  by (simp add: lp_total_def)

lemma lp_ok_splice:
  assumes "lp_ok n (xs @ ys @ zs)" "ele = lp_delete \<or> ele_ok ele" "length ys \<le> 1" "ele = lp_delete \<longrightarrow> length ys = 1"
    "lp_total (xs @ new_payloads ele @ zs) \<le> UINT32_MAX"
  shows "lp_ok (count_after n ele ys) (xs @ new_payloads ele @ zs)"
  using assms lp_payload_ok(1) [of ele]
  by (auto simp: lp_ok_def count_ok_def count_after_def new_payloads_def)

lemma replaced_at:
  assumes ok: "lp_ok n es" and es: "es = xs @ ys @ zs"
    and wh: "wh = LP_BEFORE \<and> ys = [] \<or> wh = LP_REPLACE \<and> length ys = 1"
  shows "lp_replaced (lp_bytes n es @ slack) (lp_off es (length xs)) wh = Some (length (entries ys))"
  using wh
proof
  assume "wh = LP_REPLACE \<and> length ys = 1"
  then obtain y where y: "ys = [y]" "wh = LP_REPLACE" by (cases ys) auto
  have i: "length xs < length es" "es ! length xs = y" by (simp_all add: es y)
  have off: "lp_off es (Suc (length xs)) = lp_off es (length xs) + length (entry y)"
    using lp_off_simps(3) [OF i(1)] i(2) by simp
  have tot: "lp_off es (length xs) + length (entry y) < lp_total es" using lp_off_less [of es "Suc (length xs)"] off by simp
  then have "length (entry y) < 2 ^ 32" using ok by (simp add: lp_ok_def)
  then show ?thesis
    using size_at [OF ok i(1), of slack] get_header(1) [OF ok, of slack] tot i(2) y
    by (simp add: lp_replaced_def ASSERT_INTEGRITY_LEN_def Let_def LP_HDR_SIZE_def lp_off_def)
qed (simp add: lp_replaced_def)

lemma count_update_hdr:
  assumes "lp_ok n (xs @ ys @ zs)" "wh = LP_BEFORE \<and> ys = [] \<or> wh = LP_REPLACE \<and> length ys = 1"
    "ele = lp_delete \<and> wh = LP_REPLACE \<or> ele_ok ele"
  shows "(if wh \<noteq> LP_REPLACE \<or> ele = lp_delete then lp_count_update (hdr t n m) (ele = lp_delete) else Some (hdr t n m)) =
    Some (hdr t (count_after n ele ys) m)"
proof -
  have n: "n < 65536" using assms(1) by (auto simp: lp_ok_def count_ok_def)
  have pos: "0 < n" if "length ys = 1" "n \<noteq> 65535" using assms(1) that by (auto simp: lp_ok_def count_ok_def)
  have dec: "(n + 2 ^ 32 - 1) mod 2 ^ 32 = n - 1" if "0 < n"
  proof -
    have "n + 2 ^ 32 - 1 = (n - 1) + 2 ^ 32" using that by simp
    then show ?thesis using n by (simp only: mod_add_self2) simp
  qed
  show ?thesis
    using assms(2,3) hdr_num [OF n, of t m] hdr_set_num [of t n m] pos dec
    by (cases ele) (auto simp: lp_count_update_def count_after_def new_payloads_def LP_HDR_NUMELE_UNKNOWN_def)
qed

lemma insert_core:
  assumes ok: "lp_ok n es" and es: "es = xs @ ys @ zs"
    and wh: "wh = LP_BEFORE \<and> ys = [] \<or> wh = LP_REPLACE \<and> length ys = 1"
    and ele: "ele = lp_delete \<and> wh = LP_REPLACE \<or> ele_ok ele"
  shows "\<exists>slack'. lpInsert junk (lp_bytes n es @ slack) ele (lp_off es (length xs)) wh =
    (if lp_total (xs @ new_payloads ele @ zs) > UINT32_MAX then Some None
     else Some (Some (lp_bytes (count_after n ele ys) (xs @ new_payloads ele @ zs) @ slack',
       if ele = lp_delete \<and> zs = [] then None else Some (lp_off es (length xs)))))"
proof -
  let ?new = "new_payloads ele" and ?p = "lp_off es (length xs)"
  define a where "a = hdr (lp_total es) n (entries xs)"
  define c where "c = entries zs @ [LP_EOF]"
  define enclen where "enclen = snd (lp_payload ele)"
  define bl where "bl = (if ele \<noteq> lp_delete then lpEncodeBacklen enclen else [])"
  define k where "k = length (entries ?new)"
  have kk: "enclen + length bl = k"
    using payload_bytes [of ele] ele by (auto simp: k_def enclen_def bl_def)
  have lp: "lp_bytes n es @ slack = a @ entries ys @ c @ slack"
    by (simp add: lp_bytes_hdr a_def c_def es hdr_append)
  have p: "?p = length a" by (simp add: a_def lp_off_def es)
  have T: "lp_total es = length a + length (entries ys) + length c" by (simp add: a_def c_def es lp_total_def)
  have T': "lp_total (xs @ ?new @ zs) = length a + k + length c" by (simp add: a_def c_def k_def lp_total_def)
  have small: "lp_total es < 2 ^ 32" using ok by (simp add: lp_ok_def)
  obtain lp2 x s' where m: "move_bytes (if length a + k + length c > length a + length (entries ys) + length c \<and>
        length a + k + length c > length (lp_bytes n es @ slack)
        then realloc_bytes junk (lp_bytes n es @ slack) (length a + k + length c) else lp_bytes n es @ slack)
      (length a + k) (length a + length (entries ys)) (length c) = Some lp2"
    "(if length a + k + length c < length a + length (entries ys) + length c
      then realloc_bytes junk lp2 (length a + k + length c) else lp2) = a @ x @ c @ s'" "length x = k"
    using splice_memory [OF lp, where k = k and junk = junk] by blast
  have kb: "enclen < 2 ^ 33" "length bl \<le> 5"
    using ele payload_small [of ele] backlen_bytes_range [of enclen] by (auto simp: enclen_def bl_def lp_payload_def)
  define nb where "nb = nat ((int (lp_total es) + int enclen + int (length bl) - int (length (entries ys))) mod 2 ^ 64)"
  have nb: "nb = length a + k + length c"
  proof -
    have "int (lp_total es) + int enclen + int (length bl) - int (length (entries ys)) = int (length a + k + length c)"
      using kk T by simp
    moreover have "length a + k + length c < 2 ^ 64" using kk T small kb by simp
    then have "int (length a + k + length c) mod 2 ^ 64 = int (length a + k + length c)"
      by (intro mod_pos_pos_trivial) simp_all
    ultimately show ?thesis unfolding nb_def by (simp only: nat_int)
  qed
  have pos: "lp_position (lp_bytes n es @ slack) ?p (if ele = lp_delete then LP_REPLACE else wh) = Some (?p, wh)"
    using wh ele by (auto simp: lp_position_def)
  note rep = replaced_at [OF ok es wh, of slack]
  note tot = get_header(1) [OF ok, of slack]
  define lp1 where "lp1 = (if nb > lp_total es \<and> nb > length (lp_bytes n es @ slack)
    then realloc_bytes junk (lp_bytes n es @ slack) nb else lp_bytes n es @ slack)"
  have step: "lpInsert junk (lp_bytes n es @ slack) ele ?p wh =
    (if nb > UINT32_MAX then Some None
     else if lp_total es < ?p + length (entries ys) then None
     else do {
       lp2 \<leftarrow> (if wh = LP_BEFORE then move_bytes lp1 (?p + enclen + length bl) ?p (lp_total es - ?p)
              else move_bytes lp1 (?p + enclen + length bl) (?p + length (entries ys)) (lp_total es - ?p - length (entries ys)));
       newp \<leftarrow> (if ele = lp_delete
               then do { b \<leftarrow> byte_at (if nb < lp_total es then realloc_bytes junk lp2 nb else lp2) ?p;
                         Some (if b = LP_EOF then None else Some ?p) }
               else Some (Some ?p));
       lp4 \<leftarrow> (if ele \<noteq> lp_delete
              then do { lp' \<leftarrow> write_bytes (if nb < lp_total es then realloc_bytes junk lp2 nb else lp2) ?p (fst (lp_payload ele));
                        write_bytes lp' (?p + enclen) bl }
              else Some (if nb < lp_total es then realloc_bytes junk lp2 nb else lp2));
       lp5 \<leftarrow> (if wh \<noteq> LP_REPLACE \<or> ele = lp_delete then lp_count_update lp4 (ele = lp_delete) else Some lp4);
       lp6 \<leftarrow> lpSetTotalBytes lp5 nb;
       Some (Some (lp6, newp))
     })"
    by (simp only: lpInsert_def Let_def case_prod_beta fst_conv snd_conv bind.bind_lunit pos tot rep
        enclen_def [symmetric] bl_def [symmetric] nb_def [symmetric] lp1_def [symmetric])
  show ?thesis
  proof (cases "nb > UINT32_MAX")
    case True
    then show ?thesis using step nb T' by simp
  next
    case False
    have le: "\<not> lp_total es < ?p + length (entries ys)" using T p by simp
    have mv: "(if wh = LP_BEFORE then move_bytes lp1 (?p + enclen + length bl) ?p (lp_total es - ?p)
        else move_bytes lp1 (?p + enclen + length bl) (?p + length (entries ys)) (lp_total es - ?p - length (entries ys))) = Some lp2"
      using m(1) wh kk by (auto simp: lp1_def nb T p add.assoc)
    have sh: "(if nb < lp_total es then realloc_bytes junk lp2 nb else lp2) = a @ x @ c @ s'" using m(2) by (simp only: nb T)
    have newp: "(if ele = lp_delete then do { b \<leftarrow> byte_at (a @ x @ c @ s') ?p; Some (if b = LP_EOF then None else Some ?p) }
        else Some (Some ?p)) = Some (if ele = lp_delete \<and> zs = [] then None else Some ?p)"
    proof (cases "ele = lp_delete")
      case True
      then have "x = []" using m(3) by (simp add: k_def new_payloads_def)
      moreover have "hd c = LP_EOF \<longleftrightarrow> zs = []"
      proof (cases zs)
        case (Cons z zs')
        then have "payload_ok z" using ok by (simp add: lp_ok_def es)
        then show ?thesis using Cons by (auto simp: c_def entry_def payload_ok_def)
      qed (simp add: c_def)
      moreover have "c \<noteq> []" by (simp add: c_def)
      ultimately show ?thesis using True by (cases c) (auto simp: p)
    qed simp
    have wr: "(if ele \<noteq> lp_delete then do { lp' \<leftarrow> write_bytes (a @ x @ c @ s') ?p (fst (lp_payload ele));
        write_bytes lp' (?p + enclen) bl } else Some (a @ x @ c @ s')) =
        Some (hdr (lp_total es) n (entries xs @ entries ?new @ c @ s'))"
    proof (cases "ele = lp_delete")
      case True
      then show ?thesis using m(3) by (simp add: k_def new_payloads_def a_def hdr_append)
    next
      case False
      then show ?thesis using write_payload [of ele x a "c @ s'"] ele m(3)
        by (simp add: p enclen_def [symmetric] bl_def k_def a_def hdr_append)
    qed
    have "lpInsert junk (lp_bytes n es @ slack) ele ?p wh =
        Some (Some (hdr nb (count_after n ele ys) (entries xs @ entries ?new @ c @ s'),
          if ele = lp_delete \<and> zs = [] then None else Some ?p))"
      by (simp only: step False le mv sh newp wr bind.bind_lunit count_update_hdr [OF ok [unfolded es] wh ele]
          hdr_set_total if_False)
    moreover have "hdr nb m (entries xs @ entries ?new @ c @ s') = lp_bytes m (xs @ ?new @ zs) @ s'" for m
      by (simp add: lp_bytes_hdr hdr_append nb T' c_def)
    ultimately show ?thesis using False nb T' by (intro exI [of _ s']) simp
  qed
qed

end
