(* ===== verification/Listpack_Edit.thy ===== *)
theory Listpack_Edit
  imports Listpack_Ops
begin

text \<open>
  \<^verbatim>\<open>lpInsert\<close> and the functions built on it are the three edits of a list: insertion before or behind an
  index, replacement of an element, and removal.
\<close>

section \<open>Edits of a list\<close>

fun edit :: "lp_where \<Rightarrow> nat \<Rightarrow> 'a list \<Rightarrow> 'a list \<Rightarrow> 'a list" where
  "edit LP_BEFORE i new xs = take i xs @ new @ drop i xs"
| "edit LP_AFTER i new xs = take (Suc i) xs @ new @ drop (Suc i) xs"
| "edit LP_REPLACE i new xs = take i xs @ new @ drop (Suc i) xs"

fun edit_at :: "lp_where \<Rightarrow> nat \<Rightarrow> 'a list \<Rightarrow> bool" where
  "edit_at LP_BEFORE i xs \<longleftrightarrow> i \<le> length xs"
| "edit_at LP_AFTER i xs \<longleftrightarrow> i < length xs"
| "edit_at LP_REPLACE i xs \<longleftrightarrow> i < length xs"

definition edit_index :: "lp_where \<Rightarrow> nat \<Rightarrow> nat" where
  "edit_index wh i = (if wh = LP_AFTER then Suc i else i)"

lemma map_edit: "map f (edit wh i new xs) = edit wh i (map f new) (map f xs)"
  by (cases wh) (simp_all add: take_map drop_map)

lemma edit_at_map [simp]: "edit_at wh i (map f xs) = edit_at wh i xs"
  by (cases wh) simp_all

lemma set_edit: "x \<in> set (edit wh i new xs) \<Longrightarrow> x \<in> set new \<or> x \<in> set xs"
  by (cases wh) (auto dest: in_set_takeD in_set_dropD)

lemma lp_off_edit: "edit_at wh i es \<Longrightarrow> lp_off (edit wh i new es) (edit_index wh i) = lp_off es (edit_index wh i)"
  by (cases wh) (simp_all add: lp_off_def edit_index_def min_def)

text \<open>The bytes of an element that is stored: the encoding of an integer where the string is one.\<close>

definition lp_enc :: "bytes \<Rightarrow> bytes" where
  "lp_enc s = fst (lp_payload (lp_elestr s))"

lemma lp_enc_ok: "length s < 2 ^ 32 - 5 \<Longrightarrow> payload_ok (lp_enc s)" "length s < 2 ^ 32 - 5 \<Longrightarrow> payload_string (lp_enc s) = s"
  using lp_payload_ok [of "lp_elestr s"] by (simp_all add: lp_enc_def)

lemma lp_enc_big: "2 ^ 32 - 5 \<le> length s \<Longrightarrow> length (lp_enc s) = 5 + length s"
proof -
  assume b: "2 ^ 32 - 5 \<le> length s"
  then have "string2ll s = None" by (simp add: string2ll_def LONG_STR_SIZE_def)
  then show ?thesis using b by (simp add: lp_enc_def lp_payload_def lpEncodeGetType_def lpStringToInt64_eq lpEncodeString_def)
qed

section \<open>Insertion\<close>

text \<open>An element behind the current one is inserted before the next.\<close>

lemma insert_after:
  assumes ok: "lp_ok n es" and i: "i < length es" and e: "ele \<noteq> lp_delete"
  shows "lpInsert junk (lp_bytes n es @ slack) ele (lp_off es i) LP_AFTER =
    lpInsert junk (lp_bytes n es @ slack) ele (lp_off es (Suc i)) LP_BEFORE"
proof -
  have "ASSERT_INTEGRITY (lp_bytes n es @ slack) (lp_off es (Suc i)) = Some ()"
    using get_header(1) [OF ok, of slack] lp_off_less [of es "Suc i"] by (simp add: ASSERT_INTEGRITY_def LP_HDR_SIZE_def lp_off_def)
  then have "lp_position (lp_bytes n es @ slack) (lp_off es i) LP_AFTER =
      lp_position (lp_bytes n es @ slack) (lp_off es (Suc i)) LP_BEFORE"
    using skip_at [OF ok i, of slack] by (simp add: lp_position_def)
  then show ?thesis using e by (simp only: lpInsert_def Let_def simp_thms if_False)
qed

lemma edit_split:
  assumes "edit_at wh i es" "wh \<noteq> LP_AFTER"
  obtains ys zs where "es = take i es @ ys @ zs" "length (take i es) = i" "edit wh i new es = take i es @ new @ zs"
    "wh = LP_BEFORE \<and> ys = [] \<or> wh = LP_REPLACE \<and> length ys = 1"
    "wh = LP_REPLACE \<longrightarrow> zs = drop (Suc i) es"
proof (cases wh)
  case LP_BEFORE
  then show ?thesis using assms that [of "[]" "drop i es"] by auto
next
  case LP_REPLACE
  then have "es = take i es @ [es ! i] @ drop (Suc i) es" using assms by (simp add: id_take_nth_drop [symmetric])
  then show ?thesis using assms LP_REPLACE by (intro that [of "[es ! i]" "drop (Suc i) es"]) auto
qed (use assms in simp)

text \<open>The outcome of an edit: a null pointer where the new size does not fit in the header, otherwise
  a listpack with the new elements and the pointer to the element the edit leaves the caller at.\<close>

definition lp_result :: "(bytes \<times> nat option) option option \<Rightarrow> bytes list \<Rightarrow> nat option \<Rightarrow> bool" where
  "lp_result r es ptr \<longleftrightarrow>
     (if lp_total es > UINT32_MAX then r = Some None else \<exists>lp. r = Some (Some (lp, ptr)) \<and> lp_rep lp es)"

lemma insert_result:
  assumes ok: "lp_ok n es" and es: "es = xs @ ys @ zs"
    and wh: "wh = LP_BEFORE \<and> ys = [] \<or> wh = LP_REPLACE \<and> length ys = 1"
    and ele: "ele = lp_delete \<and> wh = LP_REPLACE \<or> ele_ok ele"
  shows "lp_result (lpInsert junk (lp_bytes n es @ slack) ele (lp_off es (length xs)) wh) (xs @ new_payloads ele @ zs)
    (if ele = lp_delete \<and> zs = [] then None else Some (lp_off es (length xs)))"
proof -
  have "lp_ok (count_after n ele ys) (xs @ new_payloads ele @ zs)" if "lp_total (xs @ new_payloads ele @ zs) \<le> UINT32_MAX"
  proof (rule lp_ok_splice)
    show "lp_ok n (xs @ ys @ zs)" using ok es by simp
  qed (use ele wh that in auto)
  then show ?thesis using insert_core [OF assms, of junk slack] by (auto simp: lp_result_def lp_rep_def not_less)
qed

lemma insert_edit_plain:
  assumes ok: "lp_ok n es" and at: "edit_at wh i es" "wh \<noteq> LP_AFTER" and ele: "ele_ok ele"
  shows "lp_result (lpInsert junk (lp_bytes n es @ slack) ele (lp_off es i) wh)
    (edit wh i [fst (lp_payload ele)] es) (Some (lp_off es i))"
proof -
  have e: "new_payloads ele = [fst (lp_payload ele)]" "ele \<noteq> lp_delete" using ele by (auto simp: new_payloads_def)
  obtain ys zs where s: "es = take i es @ ys @ zs" "length (take i es) = i"
    "edit wh i (new_payloads ele) es = take i es @ new_payloads ele @ zs"
    "wh = LP_BEFORE \<and> ys = [] \<or> wh = LP_REPLACE \<and> length ys = 1"
    using edit_split [OF at] by metis
  then show ?thesis using insert_result [OF ok s(1) s(4), of ele junk slack] ele e by simp
qed

lemma insert_edit:
  assumes ok: "lp_ok n es" and at: "edit_at wh i es" and ele: "ele_ok ele"
  shows "lp_result (lpInsert junk (lp_bytes n es @ slack) ele (lp_off es i) wh)
    (edit wh i [fst (lp_payload ele)] es) (Some (lp_off es (edit_index wh i)))"
proof (cases wh)
  case LP_AFTER
  then have i: "i < length es" "edit_at LP_BEFORE (Suc i) es" using at by simp_all
  moreover have "ele \<noteq> lp_delete" using ele by auto
  ultimately show ?thesis
    using insert_edit_plain [OF ok i(2) _ ele, of junk slack] insert_after [OF ok i(1), of ele junk slack] LP_AFTER
    by (simp add: edit_index_def)
qed (use insert_edit_plain [OF ok at _ ele, of junk slack] in \<open>simp_all add: edit_index_def\<close>)

text \<open>A string whose encoding does not fit in 32 bits never fits in the listpack.\<close>

lemma insert_big_plain:
  assumes ok: "lp_ok n es" and at: "edit_at wh i es" "wh \<noteq> LP_AFTER" and s: "2 ^ 32 - 5 \<le> length s" "length s < 2 ^ 32"
  shows "lpInsert junk (lp_bytes n es @ slack) (lp_elestr s) (lp_off es i) wh = Some None"
proof -
  obtain ys zs where sp: "es = take i es @ ys @ zs" "length (take i es) = i"
    "wh = LP_BEFORE \<and> ys = [] \<or> wh = LP_REPLACE \<and> length ys = 1"
    using edit_split [OF at] by metis
  have pos: "lp_position (lp_bytes n es @ slack) (lp_off es i) wh = Some (lp_off es i, wh)"
    using at(2) by (simp add: lp_position_def)
  have rep: "lp_replaced (lp_bytes n es @ slack) (lp_off es i) wh = Some (length (entries ys))"
    using replaced_at [OF ok sp(1) sp(3), of slack] sp(2) by simp
  define enclen where "enclen = snd (lp_payload (lp_elestr s))"
  have "string2ll s = None" using s by (simp add: string2ll_def LONG_STR_SIZE_def)
  then have enc: "enclen = 5 + length s"
    using s by (simp add: enclen_def lp_payload_def lpEncodeGetType_def lpStringToInt64_eq)
  have "length (entries ys) + 7 \<le> lp_total es" by (subst sp(1)) (simp add: lp_total_def)
  then obtain x where x: "lp_total es + enclen + lpEncodeBacklenBytes enclen = x + length (entries ys)" "enclen \<le> x"
      "x \<le> lp_total es + enclen + 5"
    using backlen_bytes_range [of enclen] by (intro that [of "lp_total es + enclen + lpEncodeBacklenBytes enclen - length (entries ys)"]) linarith+
  have "int (lp_total es) + int enclen + int (lpEncodeBacklenBytes enclen) - int (length (entries ys)) = int x"
    using x(1) by simp
  moreover have "int x mod 2 ^ 64 = int x"
    using x(3) enc s ok by (intro mod_pos_pos_trivial) (simp_all add: lp_ok_def)
  ultimately have "nat ((int (lp_total es) + int enclen + int (lpEncodeBacklenBytes enclen) - int (length (entries ys))) mod 2 ^ 64) = x"
    by simp
  moreover have "UINT32_MAX < x" using x(2) enc s by simp
  ultimately show ?thesis
    using pos rep get_header(1) [OF ok, of slack]
    by (simp only: lpInsert_def Let_def case_prod_beta fst_conv snd_conv bind.bind_lunit enclen_def [symmetric]
        lp_ele.distinct if_False if_True simp_thms length_backlen)
qed

lemma insert_string:
  assumes ok: "lp_ok n es" and at: "edit_at wh i es" and s: "length s < 2 ^ 32"
  shows "lp_result (lpInsert junk (lp_bytes n es @ slack) (lp_elestr s) (lp_off es i) wh)
    (edit wh i [lp_enc s] es) (Some (lp_off es (edit_index wh i)))"
proof (cases "length s < 2 ^ 32 - 5")
  case True
  then show ?thesis using insert_edit [OF ok at, of "lp_elestr s" junk slack] by (simp add: lp_enc_def)
next
  case False
  then have b: "2 ^ 32 - 5 \<le> length s" by simp
  have "length (entry (lp_enc s)) \<le> length (entries (edit wh i [lp_enc s] es))" by (cases wh) simp_all
  then have "lp_total (edit wh i [lp_enc s] es) > UINT32_MAX" using lp_enc_big [OF b] b by (simp add: lp_total_def)
  moreover have "lpInsert junk (lp_bytes n es @ slack) (lp_elestr s) (lp_off es i) wh = Some None"
  proof (cases wh)
    case LP_AFTER
    then show ?thesis using insert_after [OF ok _, of i "lp_elestr s" junk slack] at
        insert_big_plain [OF ok _ _ b s, of LP_BEFORE "Suc i" junk slack] by simp
  qed (use insert_big_plain [OF ok at _ b s, of junk slack] in simp_all)
  ultimately show ?thesis by (simp add: lp_result_def)
qed

lemma edit_string:
  assumes "length s < 2 ^ 32" "lp_total (edit wh i [lp_enc s] es) \<le> UINT32_MAX"
  shows "map payload_string (edit wh i [lp_enc s] es) = edit wh i [s] (map payload_string es)"
proof -
  have "length (entry (lp_enc s)) \<le> length (entries (edit wh i [lp_enc s] es))" by (cases wh) simp_all
  then have "\<not> 2 ^ 32 - 5 \<le> length s" using assms(2) lp_enc_big [of s] by (auto simp: lp_total_def)
  then have "length s < 2 ^ 32 - 5" by simp
  then show ?thesis using lp_enc_ok(2) [of s] by (simp add: map_edit)
qed

lemma delete_edit:
  assumes ok: "lp_ok n es" and i: "i < length es"
  shows "lp_result (lpInsert junk (lp_bytes n es @ slack) lp_delete (lp_off es i) LP_REPLACE)
    (edit LP_REPLACE i [] es) (lp_at (edit LP_REPLACE i [] es) i)"
proof -
  obtain ys zs where s: "es = take i es @ ys @ zs" "length (take i es) = i" "edit LP_REPLACE i [] es = take i es @ [] @ zs"
    "LP_REPLACE = LP_BEFORE \<and> ys = [] \<or> LP_REPLACE = LP_REPLACE \<and> length ys = 1"
    by (rule edit_split [of LP_REPLACE i es "[]"]) (use i in \<open>simp_all\<close>)
  have "lp_at (edit LP_REPLACE i [] es) i = (if zs = [] then None else Some (lp_off es i))"
    using lp_off_edit [of LP_REPLACE i es "[]"] i s(2,3) by (auto simp: lp_at_def edit_index_def)
  then show ?thesis using insert_result [OF ok s(1) s(4), of lp_delete junk slack] unfolding s(2,3)
    by (simp add: new_payloads_def)
qed

end
