(* ===== verification/Listpack_Range.thy ===== *)
theory Listpack_Range
  imports Listpack_Edit
begin

text \<open>
  The operations on several elements: \<^verbatim>\<open>lpDeleteRange\<close> cuts a segment out of the list, \<^verbatim>\<open>lpMerge\<close>
  concatenates two listpacks, \<^verbatim>\<open>lpBatchInsert\<close> inserts a list of elements.
\<close>

section \<open>Deleting a range\<close>

lemma delete_tail_at:
  assumes ok: "lp_ok n es"
  shows "i < length es \<Longrightarrow> delete_tail_loop (lp_bytes n es @ slack) (lp_total es) num (lp_off es i) d =
    Some (lp_off es (min (i + num) (length es)), d + (min (i + num) (length es) - i))"
proof (induction num arbitrary: i d)
  case (Suc num)
  obtain b where b: "byte_at (lp_bytes n es @ slack) (lp_off es (Suc i)) = Some b" "b = LP_EOF \<longleftrightarrow> Suc i = length es"
    using eof_at [OF ok, of "Suc i" slack] Suc.prems by auto
  show ?case
  proof (cases "Suc i = length es")
    case True
    then have "min (i + Suc num) (length es) = Suc i" by simp
    then show ?thesis using b True skip_at [OF ok Suc.prems, of slack] by simp
  next
    case False
    then have "Suc i < length es" using Suc.prems by simp
    then show ?thesis
      using b False skip_at [OF ok Suc.prems, of slack] Suc.IH [of "Suc i" "d + 1"] assert_at [OF ok, of "Suc i" slack] by simp
  qed
qed simp

lemma lp_ok_remove:
  assumes "lp_ok n (xs @ ys @ zs)"
  shows "lp_ok (if n = 65535 then n else n - length ys) (xs @ zs)"
  using assms by (auto simp: lp_ok_def lp_total_def count_ok_def)

lemma shrink_at:
  assumes "lp_ok n es"
  shows "lpShrinkToFit (lp_bytes n es @ slack) = Some (lp_bytes n es)"
  using get_header(1) [OF assms, of slack] by (cases slack) (simp_all add: lpShrinkToFit_def)

lemma delete_range_entry_at:
  assumes ok: "lp_ok n es" and es: "es = xs @ ys @ zs" and i: "length xs < length es" and num: "0 < num"
    and ys: "length ys = min num (length es - length xs)"
  defines "n' \<equiv> if n = 65535 then n else n - length ys"
  shows "lpDeleteRangeWithEntry (lp_bytes n es @ slack) (lp_off es (length xs)) num =
    Some (lp_bytes n' (xs @ zs), if zs = [] then None else Some (lp_off es (length xs)))"
proof -
  let ?p = "lp_off es (length xs)" and ?t = "lp_off es (length xs + length ys)"
  define a where "a = hdr (lp_total es) n (entries xs)"
  define c where "c = entries zs @ [LP_EOF]"
  have lp: "lp_bytes n es @ slack = a @ entries ys @ c @ slack" by (simp add: lp_bytes_hdr a_def c_def es hdr_append)
  have p: "?p = length a" "?t = length a + length (entries ys)" "lp_total es = length a + length (entries ys) + length c"
    by (simp_all add: a_def c_def lp_off_def lp_total_def es)
  have l: "min (length xs + num) (length es) = length xs + length ys" using ys by (auto simp: es)
  have tail: "delete_tail_loop (lp_bytes n es @ slack) (lp_total es) num ?p 0 = Some (?t, length ys)"
    using delete_tail_at [OF ok i, of slack num 0] l by simp
  define r where "r = drop (length c) (entries ys @ c @ slack)"
  have mv: "move_bytes (lp_bytes n es @ slack) ?p ?t (lp_total es - ?t) = Some (hdr (lp_total es) n (entries xs @ c @ r))"
  proof -
    have "lp_total es - ?t = length c" using p by simp
    moreover have "a @ c @ r = hdr (lp_total es) n (entries xs @ c @ r)" by (simp add: a_def hdr_append)
    moreover have "move_bytes (a @ entries ys @ c @ slack) (length a + 0) (length a + length (entries ys)) (length c) = Some (a @ c @ r)"
      using move_bytes_splice [of 0 c "entries ys" slack a] by (simp add: r_def)
    ultimately show ?thesis unfolding lp by (simp only: p(1,2) add_0_right)
  qed
  have n: "n < 65536" "n \<noteq> 65535 \<longrightarrow> length ys \<le> n" using ok by (auto simp: lp_ok_def count_ok_def es)
  have cnt: "(if n \<noteq> LP_HDR_NUMELE_UNKNOWN
      then lpSetNumElements (hdr t n m) (nat ((int n - int (length ys)) mod 2 ^ 64)) else Some (hdr t n m)) = Some (hdr t n' m)" for t m
  proof (cases "n = 65535")
    case False
    then have "int n - int (length ys) = int (n - length ys)" using n by simp
    moreover have "int (n - length ys) mod 2 ^ 64 = int (n - length ys)" using n(1) by (intro mod_pos_pos_trivial) simp_all
    ultimately have "nat ((int n - int (length ys)) mod 2 ^ 64) = n - length ys" by (simp only: nat_int)
    then show ?thesis using False hdr_set_num [of t n m] by (simp add: LP_HDR_NUMELE_UNKNOWN_def n'_def)
  qed (simp add: LP_HDR_NUMELE_UNKNOWN_def n'_def)
  have tot: "lp_total es - (?t - ?p) = lp_total (xs @ zs)"
  proof -
    have "length a + length c = lp_total (xs @ zs)" by (simp add: a_def c_def lp_total_def)
    then show ?thesis using p by linarith
  qed
  have ok': "lp_ok n' (xs @ zs)" using lp_ok_remove [of n xs ys zs] ok es by (simp add: n'_def)
  have out: "hdr (lp_total (xs @ zs)) n' (entries xs @ c @ r) = lp_bytes n' (xs @ zs) @ r"
    by (simp add: lp_bytes_hdr hdr_append c_def)
  have off: "lp_off (xs @ zs) (length xs) = ?p" by (simp add: lp_off_def es)
  obtain b where b: "byte_at (lp_bytes n' (xs @ zs)) ?p = Some b" "b = LP_EOF \<longleftrightarrow> zs = []"
    using eof_at [OF ok', of "length xs" "[]"] off by auto
  have le: "\<not> lp_total es < ?t" using p by simp
  show ?thesis
    using num b get_header(3) [OF ok, of slack] tail mv le
    by (simp add: lpDeleteRangeWithEntry_def tot hdr_set_total hdr_num [OF n(1)] cnt out shrink_at [OF ok'] del: append_assoc)
qed

lemma delete_range_at:
  fixes idx :: int
  assumes ok: "lp_ok n es"
  defines "i \<equiv> if idx < 0 then int (length es) + idx else idx"
  shows "\<exists>n' slack'. lpDeleteRange (lp_bytes n es @ slack) idx num =
      Some (lp_bytes n' (if 0 \<le> i \<and> i < int (length es) then take (nat i) es @ drop (nat i + num) es else es) @ slack') \<and>
    lp_ok n' (if 0 \<le> i \<and> i < int (length es) then take (nat i) es @ drop (nat i + num) es else es)"
proof (cases "num = 0 \<or> \<not> (0 \<le> i \<and> i < int (length es))")
  case True
  then have "lpDeleteRange (lp_bytes n es @ slack) idx num = Some (lp_bytes n es @ slack)"
    using get_header(2) [OF ok, of slack] seek_at [OF ok, of slack idx]
    by (auto simp: lpDeleteRange_def lp_index_def i_def Let_def)
  moreover have "(if 0 \<le> i \<and> i < int (length es) then take (nat i) es @ drop (nat i + num) es else es) = es"
    using True by auto
  ultimately show ?thesis using ok by auto
next
  case False
  define k where "k = nat i"
  have k: "i = int k" "k < length es" "0 < num" using False by (auto simp: k_def)
  have sk: "lpSeek (lp_bytes n es @ slack) idx = Some (Some (lp_off es k))"
    using seek_at [OF ok, of slack idx] k by (simp add: lp_index_def i_def [symmetric] Let_def)
  let ?es = "take k es @ drop (k + num) es"
  have goal: "(if 0 \<le> i \<and> i < int (length es) then take (nat i) es @ drop (nat i + num) es else es) = ?es" using k by simp
  show ?thesis
  proof (cases "n \<noteq> 65535 \<and> length es - k \<le> num")
    case True
    then have n: "n = length es" "n < 65535" using ok by (simp_all add: lp_ok_def count_ok_def)
    have e: "?es = take k es" using True by auto
    have off: "lp_off es k + 1 = lp_total (take k es)" by (simp add: lp_off_def lp_total_def)
    have ok': "lp_ok k (take k es)"
    proof -
      have "entries es = entries (take k es) @ entries (drop k es)" by (simp flip: entries_simps(3))
      then show ?thesis using ok n k by (auto simp: lp_ok_def count_ok_def lp_total_def dest: in_set_takeD)
    qed
    define m where "m = entries (drop k es) @ LP_EOF # slack"
    have lp: "lp_bytes n es @ slack = lp_prefix n es k @ [hd m] @ tl m"
      using lp_bytes_split [of k es n] k by (simp add: m_def)
    have w: "write_bytes (lp_bytes n es @ slack) (lp_off es k) [LP_EOF] =
        Some (hdr (lp_total es) n (entries (take k es) @ LP_EOF # tl m))"
      using write_bytes_mid [of "[LP_EOF]" "[hd m]" "lp_prefix n es k" "tl m"] by (simp add: lp lp_prefix_hdr hdr_append lp_off_def)
    have out: "hdr (lp_off es k + 1) k (entries (take k es) @ LP_EOF # tl m) = lp_bytes k (take k es) @ tl m"
      unfolding off by (simp add: lp_bytes_hdr hdr_append)
    have c: "(int n - i) mod 2 ^ 64 \<le> int num"
    proof -
      have "(int n - i) mod 2 ^ 64 = int n - i" using n k by (intro mod_pos_pos_trivial) simp_all
      then show ?thesis using True n(1) k by auto
    qed
    have "lpDeleteRange (lp_bytes n es @ slack) idx num = Some (lp_bytes k (take k es))"
    proof -
      have "(if n \<noteq> LP_HDR_NUMELE_UNKNOWN \<and> idx < 0 then int n + idx else idx) = i" "n \<noteq> LP_HDR_NUMELE_UNKNOWN"
        using n by (simp_all add: LP_HDR_NUMELE_UNKNOWN_def i_def)
      then show ?thesis using get_header(2) [OF ok, of slack] sk k(3) c w shrink_at [OF ok', of "tl m"]
        by (simp add: lpDeleteRange_def Let_def hdr_set_total hdr_set_num out k(1) del: One_nat_def)
    qed
    then show ?thesis unfolding goal e using ok' by (intro exI [of _ k] exI [of _ "[]"]) simp
  next
    case False
    define n' where "n' = (if n = 65535 then n else n - length (take num (drop k es)))"
    have es: "es = take k es @ take num (drop k es) @ drop (k + num) es"
      by (metis add.commute append_take_drop_id drop_drop)
    have L: "length (take k es) = k" using k by simp
    have del: "lpDeleteRangeWithEntry (lp_bytes n es @ slack) (lp_off es k) num =
        Some (lp_bytes n' ?es, if drop (k + num) es = [] then None else Some (lp_off es k))"
      using delete_range_entry_at [OF ok es _ k(3), of slack] k by (simp add: L n'_def)
    have no: "\<not> (n \<noteq> LP_HDR_NUMELE_UNKNOWN \<and> (int n - (if n \<noteq> LP_HDR_NUMELE_UNKNOWN \<and> idx < 0 then int n + idx else idx)) mod 2 ^ 64 \<le> int num)"
    proof (cases "n = 65535")
      case False
      then have n: "n = length es" "n < 65535" using ok by (simp_all add: lp_ok_def count_ok_def)
      then have "(int n - i) mod 2 ^ 64 = int n - i" using k by (intro mod_pos_pos_trivial) simp_all
      moreover have "(if n \<noteq> LP_HDR_NUMELE_UNKNOWN \<and> idx < 0 then int n + idx else idx) = i"
        using n by (simp add: LP_HDR_NUMELE_UNKNOWN_def i_def)
      moreover have "\<not> int n - i \<le> int num"
        using \<open>\<not> (n \<noteq> 65535 \<and> length es - k \<le> num)\<close> False n(1) k by linarith
      ultimately show ?thesis by simp
    qed (simp add: LP_HDR_NUMELE_UNKNOWN_def)
    have "num \<noteq> 0" using k(3) by simp
    then have "lpDeleteRange (lp_bytes n es @ slack) idx num = Some (lp_bytes n' ?es)"
      by (simp only: lpDeleteRange_def Let_def get_header(2) [OF ok] sk bind.bind_lunit option.case no del if_False
          option.map fst_conv)
    moreover have "lp_ok n' ?es" using lp_ok_remove [of n "take k es" "take num (drop k es)" "drop (k + num) es"] ok es
      by (simp add: n'_def)
    ultimately show ?thesis unfolding goal by (intro exI [of _ n'] exI [of _ "[]"]) simp
  qed
qed

section \<open>Merging\<close>

lemma realloc_prefix: "length xs \<le> k \<Longrightarrow> \<exists>r. realloc_bytes junk (xs @ s) k = xs @ r \<and> length r = k - length xs"
  by (auto simp: realloc_bytes_def)

lemma lp_total_merge: "lp_total (es1 @ es2) = lp_total es1 + lp_total es2 - 7"
  by (simp add: lp_total_def)

lemma merge_append:
  assumes ok: "lp_ok m1 es1" "lp_ok m2 es2"
  shows "\<exists>t. do { bs \<leftarrow> read_bytes (lp_bytes m2 es2 @ s2) LP_HDR_SIZE (lp_total es2 - LP_HDR_SIZE);
      write_bytes (realloc_bytes junk (lp_bytes m1 es1 @ s1) (lp_total (es1 @ es2))) (lp_total es1 - 1) bs } =
    Some (hdr t m1 (entries (es1 @ es2) @ [LP_EOF]))"
proof -
  let ?h2 = "le_bytes 4 (int (lp_total es2)) @ le_bytes 2 (int m2)"
  have rd: "read_bytes (lp_bytes m2 es2 @ s2) 6 (lp_total es2 - 6) = Some (entries es2 @ [LP_EOF])"
    using read_bytes_append [of ?h2 "entries es2 @ [LP_EOF] @ s2" 0]
    by (simp add: lp_bytes_def lp_total_def read_bytes_def)
  obtain r where r: "realloc_bytes junk (lp_bytes m1 es1 @ s1) (lp_total (es1 @ es2)) = lp_bytes m1 es1 @ r"
    "length r = length (entries es2)"
    using realloc_prefix [of "lp_bytes m1 es1" "lp_total (es1 @ es2)" junk s1] by (auto simp: lp_total_def)
  have "write_bytes (hdr (lp_total es1) m1 (entries es1) @ (LP_EOF # r)) (length (hdr (lp_total es1) m1 (entries es1))) (entries es2 @ [LP_EOF]) =
      Some (hdr (lp_total es1) m1 (entries es1) @ entries es2 @ [LP_EOF])"
    using r(2) write_bytes_mid [of "entries es2 @ [LP_EOF]" "LP_EOF # r" "hdr (lp_total es1) m1 (entries es1)" "[]"] by simp
  then show ?thesis using rd r(1)
    by (intro exI [of _ "lp_total es1"]) (simp add: LP_HDR_SIZE_def lp_bytes_hdr hdr_append lp_total_def)
qed

lemma merge_prepend:
  assumes ok: "lp_ok m1 es1" "lp_ok m2 es2"
  shows "\<exists>t. do { x \<leftarrow> move_bytes (realloc_bytes junk (lp_bytes m2 es2 @ s2) (lp_total (es1 @ es2))) (lp_total es1 - 1) LP_HDR_SIZE
        (lp_total es2 - LP_HDR_SIZE);
      bs \<leftarrow> read_bytes (lp_bytes m1 es1 @ s1) 0 (lp_total es1 - 1);
      write_bytes x 0 bs } = Some (hdr t m1 (entries (es1 @ es2) @ [LP_EOF]))"
proof -
  let ?h2 = "le_bytes 4 (int (lp_total es2)) @ le_bytes 2 (int m2)"
  obtain r where r: "realloc_bytes junk (lp_bytes m2 es2 @ s2) (lp_total (es1 @ es2)) = ?h2 @ [] @ (entries es2 @ [LP_EOF]) @ r"
    "length r = length (entries es1)"
    using realloc_prefix [of "lp_bytes m2 es2" "lp_total (es1 @ es2)" junk s2] by (auto simp: lp_total_def lp_bytes_def)
  obtain x where x: "length x = length (entries es1)"
    "move_bytes (?h2 @ [] @ (entries es2 @ [LP_EOF]) @ r) (length ?h2 + length (entries es1)) (length ?h2 + length []) (length (entries es2 @ [LP_EOF])) =
      Some (?h2 @ x @ entries es2 @ [LP_EOF])"
  proof
    show "length (take (length (entries es1)) ((entries es2 @ [LP_EOF]) @ r)) = length (entries es1)" using r(2) by simp
    show "move_bytes (?h2 @ [] @ (entries es2 @ [LP_EOF]) @ r) (length ?h2 + length (entries es1)) (length ?h2 + length []) (length (entries es2 @ [LP_EOF])) =
      Some (?h2 @ take (length (entries es1)) ((entries es2 @ [LP_EOF]) @ r) @ entries es2 @ [LP_EOF])"
      using move_bytes_splice [of "length (entries es1)" "entries es2 @ [LP_EOF]" "[]" r ?h2] r(2) by simp
  qed
  have rd: "read_bytes (lp_bytes m1 es1 @ s1) 0 (lp_total es1 - 1) = Some (hdr (lp_total es1) m1 (entries es1))"
    by (simp add: read_bytes_def lp_bytes_hdr hdr_def lp_total_def)
  have "write_bytes (?h2 @ x @ entries es2 @ [LP_EOF]) 0 (hdr (lp_total es1) m1 (entries es1)) =
      Some (hdr (lp_total es1) m1 (entries (es1 @ es2) @ [LP_EOF]))"
    using write_bytes_mid [of "hdr (lp_total es1) m1 (entries es1)" "?h2 @ x" "[]" "entries es2 @ [LP_EOF]"] x(1)
    by (simp add: hdr_append)
  moreover have eqs: "length ?h2 + length (entries es1) = lp_total es1 - 1" "length ?h2 + length [] = LP_HDR_SIZE"
      "length (entries es2 @ [LP_EOF]) = lp_total es2 - LP_HDR_SIZE" by (simp_all add: lp_total_def LP_HDR_SIZE_def)
  ultimately show ?thesis using rd x(2) [unfolded eqs] unfolding r(1)
    by (intro exI [of _ "lp_total es1"]) (simp only: bind.bind_lunit)
qed

lemma merge_at:
  assumes ok: "lp_ok n1 es1" "lp_ok n2 es2"
  shows "\<exists>n. lpMerge junk (Some (lp_bytes n1 es1 @ s1)) (Some (lp_bytes n2 es2 @ s2)) =
      (if lp_total (es1 @ es2) < UINT32_MAX
       then Some (Some (lp_bytes n (es1 @ es2), lp_total es1 \<ge> lp_total es2)) else None) \<and>
    (lp_total (es1 @ es2) < UINT32_MAX \<longrightarrow> lp_ok n (es1 @ es2))"
proof -
  define n where "n = (if length es1 + length es2 < 65535 then length es1 + length es2 else 65535)"
  have n: "lp_total (es1 @ es2) < UINT32_MAX \<longrightarrow> lp_ok n (es1 @ es2)" using ok by (auto simp: lp_ok_def count_ok_def n_def)
  obtain m1 where m1: "lpLength (lp_bytes n1 es1 @ s1) = Some (lp_bytes m1 es1 @ s1, length es1)" "lp_ok m1 es1"
    using length_at [OF ok(1)] by blast
  obtain m2 where m2: "lpLength (lp_bytes n2 es2 @ s2) = Some (lp_bytes m2 es2 @ s2, length es2)" "lp_ok m2 es2"
    using length_at [OF ok(2)] by blast
  note h = get_header(3) [OF ok(1), of s1] get_header(3) [OF ok(2), of s2]
  have tot: "lp_total es1 + lp_total es2 - LP_HDR_SIZE - 1 = lp_total (es1 @ es2)" by (simp add: lp_total_def LP_HDR_SIZE_def)
  have "lpMerge junk (Some (lp_bytes n1 es1 @ s1)) (Some (lp_bytes n2 es2 @ s2)) =
      (if lp_total (es1 @ es2) < UINT32_MAX then Some (Some (lp_bytes n (es1 @ es2), lp_total es1 \<ge> lp_total es2)) else None)"
  proof (cases "lp_total es1 \<ge> lp_total es2")
    case True
    obtain t where "do { bs \<leftarrow> read_bytes (lp_bytes m2 es2 @ s2) LP_HDR_SIZE (lp_total es2 - LP_HDR_SIZE);
      write_bytes (realloc_bytes junk (lp_bytes m1 es1 @ s1) (lp_total (es1 @ es2))) (lp_total es1 - 1) bs } =
      Some (hdr t m1 (entries (es1 @ es2) @ [LP_EOF]))" using merge_append [OF m1(2) m2(2)] by blast
    then show ?thesis using True h m1(1) m2(1)
      by (simp only: lpMerge_def option.case prod.case bind.bind_lunit Let_def if_True tot n_def [symmetric] refl)
        (simp add: hdr_set_num hdr_set_total lp_bytes_hdr)
  next
    case False
    obtain t where "do { x \<leftarrow> move_bytes (realloc_bytes junk (lp_bytes m2 es2 @ s2) (lp_total (es1 @ es2))) (lp_total es1 - 1) LP_HDR_SIZE
        (lp_total es2 - LP_HDR_SIZE);
      bs \<leftarrow> read_bytes (lp_bytes m1 es1 @ s1) 0 (lp_total es1 - 1);
      write_bytes x 0 bs } = Some (hdr t m1 (entries (es1 @ es2) @ [LP_EOF]))" using merge_prepend [OF m1(2) m2(2)] by blast
    then show ?thesis using False h m1(1) m2(1)
      by (simp only: lpMerge_def option.case prod.case bind.bind_lunit Let_def if_False tot n_def [symmetric])
        (simp add: hdr_set_num hdr_set_total lp_bytes_hdr)
  qed
  then show ?thesis using n by blast
qed

section \<open>Inserting several elements\<close>

definition lpe_payload :: "listpackEntry \<Rightarrow> bytes" where
  "lpe_payload e = fst (lp_payload (lpe_ele e))"

fun lpe_ok :: "listpackEntry \<Rightarrow> bool" where
  "lpe_ok (lpe_str s) \<longleftrightarrow> length s < 2 ^ 32 - 5"
| "lpe_ok (lpe_int v) \<longleftrightarrow> in_sint 64 v"

fun lpe_string :: "listpackEntry \<Rightarrow> bytes" where
  "lpe_string (lpe_str s) = s"
| "lpe_string (lpe_int v) = dec_int v"

lemma lpe_ele_ok: "lpe_ok e \<Longrightarrow> ele_ok (lpe_ele e)"
  by (cases e) (auto simp: lpe_ele_def)

lemma lpe_payload_string: "lpe_ok e \<Longrightarrow> payload_string (lpe_payload e) = lpe_string e"
  using lp_payload_ok(3) [OF lpe_ele_ok [of e]] payload_string_int by (cases e) (simp_all add: lpe_payload_def lpe_ele_def)

lemma batch_write_at:
  "\<forall>e \<in> set ents. lpe_ok e \<Longrightarrow> length x = length (entries (map lpe_payload ents)) \<Longrightarrow>
    batch_write (a @ x @ c) (length a) (map (\<lambda>e. lp_payload (lpe_ele e)) ents) np =
      Some (a @ entries (map lpe_payload ents) @ c,
        if ents = [] then np else Some (length a + length (entries (map lpe_payload (butlast ents)))))"
proof (induction ents arbitrary: a x np)
  case (Cons e ents)
  define pe where "pe = lpe_payload e"
  have ok: "ele_ok (lpe_ele e)" using Cons.prems by (simp add: lpe_ele_ok)
  have pl: "lp_payload (lpe_ele e) = (pe, length pe)" using lp_payload_ok(2) [OF ok]
    by (simp add: pe_def lpe_payload_def prod_eq_iff)
  have new: "new_payloads (lpe_ele e) = [pe]" using ok by (auto simp: new_payloads_def pe_def lpe_payload_def)
  define x1 where "x1 = take (length (entry pe)) x"
  define x2 where "x2 = drop (length (entry pe)) x"
  have x: "x = x1 @ x2" "length x1 = length (entry pe)" "length x2 = length (entries (map lpe_payload ents))"
    using Cons.prems by (simp_all add: x1_def x2_def pe_def)
  have "do { lp' \<leftarrow> write_bytes (a @ x1 @ x2 @ c) (length a) pe; write_bytes lp' (length a + length pe) (lpEncodeBacklen (length pe)) } =
      Some ((a @ entry pe) @ x2 @ c)"
    using write_payload [OF ok, of x1 a "x2 @ c"] x(2) by (simp add: pl new)
  then have "batch_write (a @ x @ c) (length a) (map (\<lambda>e. lp_payload (lpe_ele e)) (e # ents)) np =
      batch_write ((a @ entry pe) @ x2 @ c) (length (a @ entry pe)) (map (\<lambda>e. lp_payload (lpe_ele e)) ents) (Some (length a))"
    by (auto simp: x(1) pl bind_eq_Some_conv add.assoc)
  also have "\<dots> = Some ((a @ entry pe) @ entries (map lpe_payload ents) @ c,
      if ents = [] then Some (length a) else Some (length (a @ entry pe) + length (entries (map lpe_payload (butlast ents)))))"
    using Cons.prems x(3) by (intro Cons.IH) auto
  finally show ?case by (simp add: pe_def)
qed simp

lemma added_bytes:
  "\<forall>e \<in> set ents. lpe_ok e \<Longrightarrow>
    sum_list (map (\<lambda>(_, enclen). enclen + length (lpEncodeBacklen enclen)) (map (\<lambda>e. lp_payload (lpe_ele e)) ents)) =
    length (entries (map lpe_payload ents))"
proof (induction ents)
  case (Cons e ents)
  then show ?case using lp_payload_ok(2) [OF lpe_ele_ok, of e] by (simp add: case_prod_beta lpe_payload_def)
qed simp

lemma count_batch:
  fixes n k :: nat
  defines "n' \<equiv> if n \<noteq> 65535 \<and> n + k \<le> 65535 then n + k else 65535"
  assumes "n \<le> 65535"
  shows "(if n \<noteq> LP_HDR_NUMELE_UNKNOWN
      then if int k > int LP_HDR_NUMELE_UNKNOWN - int n
           then lpSetNumElements (hdr t n m) LP_HDR_NUMELE_UNKNOWN
           else lpSetNumElements (hdr t n m) (n + k)
      else Some (hdr t n m)) = Some (hdr t n' m)"
  using assms(2) by (auto simp: LP_HDR_NUMELE_UNKNOWN_def hdr_set_num n'_def)

lemma batch_insert_at:
  assumes ok: "lp_ok n es" and es: "es = xs @ zs" and ents: "\<forall>e \<in> set ents. lpe_ok e" "ents \<noteq> []"
    and fits: "length (entries (map lpe_payload ents)) < 2 ^ 63"
  shows "lp_result (lpBatchInsert junk (lp_bytes n es @ slack) (lp_off es (length xs)) LP_BEFORE ents)
    (xs @ map lpe_payload ents @ zs) (Some (lp_off (xs @ map lpe_payload ents @ zs) (length xs + length ents - 1)))"
proof -
  let ?new = "map lpe_payload ents" and ?p = "lp_off es (length xs)"
  define a where "a = hdr (lp_total es) n (entries xs)"
  define c where "c = entries zs @ [LP_EOF]"
  define k where "k = length (entries ?new)"
  define nb where "nb = length a + k + length c"
  define n' where "n' = (if n \<noteq> 65535 \<and> n + length ents \<le> 65535 then n + length ents else 65535)"
  have lp: "lp_bytes n es @ slack = a @ [] @ c @ slack" by (simp add: lp_bytes_hdr a_def c_def es hdr_append)
  have p: "?p = length a" by (simp add: a_def lp_off_def es)
  have T: "lp_total es = length a + length c" by (simp add: a_def c_def es lp_total_def)
  have T': "lp_total (xs @ ?new @ zs) = nb" by (simp add: a_def c_def k_def nb_def lp_total_def)
  have small: "lp_total es < 2 ^ 32" using ok by (simp add: lp_ok_def)
  have added: "sum_list (map (\<lambda>(_, enclen). enclen + length (lpEncodeBacklen enclen)) (map (\<lambda>e. lp_payload (lpe_ele e)) ents)) mod 2 ^ 64 = k"
    using added_bytes [OF ents(1)] fits by (simp add: k_def)
  have new: "(lp_total es + k) mod 2 ^ 64 = nb" using fits small T by (simp add: k_def nb_def)
  obtain lp2 x s' where m: "move_bytes (if nb > length a + length ([] :: bytes) + length c \<and> nb > length (lp_bytes n es @ slack)
        then realloc_bytes junk (lp_bytes n es @ slack) nb else lp_bytes n es @ slack)
      (length a + k) (length a + length ([] :: bytes)) (length c) = Some lp2"
    "(if nb < length a + length ([] :: bytes) + length c then realloc_bytes junk lp2 nb else lp2) = a @ x @ c @ s'" "length x = k"
    by (rule splice_memory [OF lp, where k = k and junk = junk, folded nb_def]) (rule that)
  have lp2: "lp2 = a @ x @ c @ s'" using m(2) by (simp add: nb_def)
  have wr: "batch_write lp2 ?p (map (\<lambda>e. lp_payload (lpe_ele e)) ents) None =
      Some (hdr (lp_total es) n (entries xs @ entries ?new @ c @ s'), Some (?p + length (entries (map lpe_payload (butlast ents)))))"
    using batch_write_at [OF ents(1), of x a "c @ s'" None] m(3) ents(2) unfolding lp2 p
    by (simp add: k_def a_def hdr_append)
  have off: "lp_off (xs @ ?new @ zs) (length xs + length ents - 1) = ?p + length (entries (map lpe_payload (butlast ents)))"
  proof -
    have "take (length ents - 1) ?new = map lpe_payload (butlast ents)" by (simp add: take_map butlast_conv_take)
    moreover have "length xs + length ents - 1 = length xs + (length ents - 1)" using ents(2) by (cases ents) simp_all
    ultimately show ?thesis by (simp add: lp_off_def es)
  qed
  have mv: "move_bytes (if nb > lp_total es \<and> nb > length (lp_bytes n es @ slack)
        then realloc_bytes junk (lp_bytes n es @ slack) nb else lp_bytes n es @ slack)
      (?p + k) ?p (lp_total es - ?p) = Some lp2"
    using m(1) by (simp add: T p)
  have out: "hdr nb n' (entries xs @ entries ?new @ c @ s') = lp_bytes n' (xs @ ?new @ zs) @ s'"
    by (simp add: lp_bytes_hdr hdr_append T' c_def)
  have ok': "lp_ok n' (xs @ ?new @ zs)" if "nb \<le> UINT32_MAX"
    using ok that ents(1) lp_payload_ok(1) [OF lpe_ele_ok] T'
    by (auto simp: lp_ok_def count_ok_def es n'_def lpe_payload_def)
  have "lpBatchInsert junk (lp_bytes n es @ slack) ?p LP_BEFORE ents =
    (if nb > UINT32_MAX then Some None else Some (Some (lp_bytes n' (xs @ ?new @ zs) @ s', Some (lp_off (xs @ ?new @ zs) (length xs + length ents - 1)))))"
  proof -
    have n: "n < 65536" "n \<le> 65535" using ok by (auto simp: lp_ok_def count_ok_def)
    have le: "\<not> lp_total es < ?p" using T p by simp
    have cond: "\<not> (\<not> (LP_BEFORE = LP_BEFORE \<or> LP_BEFORE = LP_AFTER) \<or> ents = [])" using ents(2) by simp
    have pos: "lp_position (lp_bytes n es @ slack) ?p LP_BEFORE = Some (?p, LP_BEFORE)" by (simp add: lp_position_def)
    show ?thesis
      by (simp only: lpBatchInsert_def cond if_False pos bind.bind_lunit prod.case Let_def added get_header(1) [OF ok] new le
          mv wr off hdr_num [OF n(1)] count_batch [OF n(2)] n'_def [symmetric] hdr_set_total out)
  qed
  then show ?thesis using T' ok' by (auto simp: lp_result_def lp_rep_def)
qed

end
