(* ===== verification/Listpack_Validate.thy ===== *)
theory Listpack_Validate
  imports Listpack_Inv
begin

text \<open>
  The validation of a listpack that comes from outside, as a dump does: \<^verbatim>\<open>lpValidateIntegrity\<close> decides
  for every sequence of bytes without leaving it, and what it accepts can be walked in both
  directions.
\<close>

section \<open>Reading arbitrary bytes\<close>

lemma byte_at_some: "p < length lp \<Longrightarrow> \<exists>b. byte_at lp p = Some b"
  by (simp add: byte_at_def)

lemma read_uint_some: "p + n \<le> length lp \<Longrightarrow> \<exists>v. read_uint lp p n = Some v"
  by (simp add: read_uint_def read_bytes_def)

lemma size_total:
  assumes "byte_at lp p = Some b" "p + lpCurrentEncodedSizeBytes b \<le> length lp"
  shows "\<exists>n. lpCurrentEncodedSizeUnsafe lp p = Some n \<and> n < 2 ^ 32"
proof -
  have b: "LP_ENCODING_6BIT_STR_LEN lp p = Some (unat b AND 63)" using assms(1) by (simp add: LP_ENCODING_6BIT_STR_LEN_def)
  have 32: "\<exists>n. LP_ENCODING_32BIT_STR_LEN lp p = Some n" if "unat b = 240"
    using read_uint_some [of "p + 1" 4 lp] assms(2) that
    by (simp add: LP_ENCODING_32BIT_STR_LEN_def lpCurrentEncodedSizeBytes_def enc_kind)
  have 12: "\<exists>n < 4096. LP_ENCODING_12BIT_STR_LEN lp p = Some n" if "224 \<le> unat b" "unat b < 240"
  proof -
    have "p + 1 < length lp" using assms(2) that by (simp add: lpCurrentEncodedSizeBytes_def enc_kind)
    then obtain c where c: "byte_at lp (p + 1) = Some c" using byte_at_some by blast
    have "push_bit 8 (unat b mod 16) OR unat c = (unat b mod 16) * 256 + unat c"
      using or_push_bit' [of "unat c" 8] unat_byte_less [of c] by simp
    moreover have "unat b mod 16 < 16" by simp
    ultimately have "push_bit 8 (unat b mod 16) OR unat c < 4096" using unat_byte_less [of c] by linarith
    then show ?thesis using assms(1) c by (simp add: LP_ENCODING_12BIT_STR_LEN_def and_masks)
  qed
  have 6: "unat b AND 63 < 64" by (simp add: and_masks)
  show ?thesis
    using assms(1) b 32 12 6 by (auto simp: lpCurrentEncodedSizeUnsafe_def enc_kind)
qed

lemma backlen_total:
  "k \<le> 4 \<Longrightarrow> 4 - k < p \<Longrightarrow> p \<le> length lp \<Longrightarrow> val < 2 ^ (7 * k) \<Longrightarrow>
    \<exists>v. decode_backlen_loop lp p (7 * k) val = Some v \<and> v < 2 ^ 64"
proof (induction "4 - k" arbitrary: k p val)
  case (0)
  then have k: "k = 4" and p: "p \<noteq> 0" by simp_all
  have "p - 1 < length lp" using 0 by simp
  then obtain b where b: "byte_at lp (p - 1) = Some b" using byte_at_some by blast
  have "val OR push_bit 28 (unat b mod 128) = val + (unat b mod 128) * 2 ^ 28"
    using or_push_bit [of val 28] 0 k by simp
  moreover have "unat b mod 128 < 128" by simp
  ultimately have "val OR push_bit 28 (unat b mod 128) < 2 ^ 64" using 0 k by simp
  then show ?case using b p k by (subst decode_backlen_loop.simps) (simp add: and_masks Let_def)
next
  case (Suc d)
  then have k: "k < 4" "d = 4 - Suc k" and p: "p \<noteq> 0" by simp_all
  have "p - 1 < length lp" using Suc.prems by simp
  then obtain b where b: "byte_at lp (p - 1) = Some b" using byte_at_some by blast
  define w where "w = val OR push_bit (7 * k) (unat b mod 128)"
  have w: "w = val + (unat b mod 128) * 2 ^ (7 * k)" using or_push_bit [of val "7 * k"] Suc.prems by (simp add: w_def)
  have "unat b mod 128 \<le> 127" by simp
  then have "(unat b mod 128) * 2 ^ (7 * k) \<le> 127 * 2 ^ (7 * k)" by (rule mult_right_mono) simp
  then have "w < 128 * 2 ^ (7 * k)" using w Suc.prems(4) by linarith
  then have wk: "w < 2 ^ (7 * Suc k)" by (simp add: power_add)
  also have "\<dots> \<le> 2 ^ 28" using k by (intro power_increasing) simp_all
  finally have w64: "w < 2 ^ 64" by simp
  have "\<exists>v. decode_backlen_loop lp (p - 1) (7 * Suc k) w = Some v \<and> v < 2 ^ 64"
    using Suc.hyps(1) [OF k(2), of "p - 1" w] k Suc.prems wk by simp
  then show ?case using b p k w64 by (subst decode_backlen_loop.simps) (simp add: and_masks Let_def w_def [symmetric] add.commute)
qed

lemma decode_total: "4 \<le> p \<Longrightarrow> p < length lp \<Longrightarrow> \<exists>v. lpDecodeBacklen lp p = Some v \<and> v < 2 ^ 64"
  using backlen_total [of 0 "p + 1" lp 0] by (simp add: lpDecodeBacklen_def)

section \<open>One step\<close>

text \<open>What a successful step of the validation says of the element it has passed.\<close>

definition valid_step :: "bytes \<Rightarrow> nat \<Rightarrow> nat \<Rightarrow> nat \<Rightarrow> bool" where
  "valid_step lp n p q \<longleftrightarrow> (\<exists>e. lpCurrentEncodedSizeUnsafe lp p = Some e \<and> q = p + (e + lpEncodeBacklenBytes e) \<and> q < n \<and>
     lpDecodeBacklen lp (q - 1) = Some e \<and> 6 \<le> p \<and> e < 2 ^ 32)"

lemma validate_next_cases:
  assumes n: "n \<le> length lp" and p: "6 \<le> p" "p < n" "byte_at lp p = Some b"
  obtains "b = LP_EOF" "lpValidateNext lp (Some p) n = Some (Some None)"
    | "b \<noteq> LP_EOF" "lpValidateNext lp (Some p) n = Some None"
    | q where "b \<noteq> LP_EOF" "lpValidateNext lp (Some p) n = Some (Some (Some q))" "valid_step lp n p q"
proof (cases "b = LP_EOF \<or> lpCurrentEncodedSizeBytes b = 0 \<or> OUT_OF_RANGE n (p + lpCurrentEncodedSizeBytes b)")
  case True
  then show ?thesis using that(1,2) p
    by (cases "b = LP_EOF") (auto simp: lpValidateNext_def OUT_OF_RANGE_def LP_HDR_SIZE_def)
next
  case False
  then have r: "p + lpCurrentEncodedSizeBytes b \<le> length lp" using n by (auto simp: OUT_OF_RANGE_def)
  obtain e where e: "lpCurrentEncodedSizeUnsafe lp p = Some e" "e < 2 ^ 32" using size_total [OF p(3) r] by blast
  define k where "k = lpEncodeBacklenBytes e"
  have k: "1 \<le> k" "k \<le> 5" using backlen_bytes_range [of e] by (simp_all add: k_def)
  show ?thesis
  proof (cases "OUT_OF_RANGE n (p + (e + k))")
    case True
    then show ?thesis using that(2) p False e
      by (auto simp: lpValidateNext_def OUT_OF_RANGE_def LP_HDR_SIZE_def Let_def k_def)
  next
    case in_range: False
    then have q: "p + (e + k) < n" by (simp add: OUT_OF_RANGE_def)
    have "4 \<le> p + (e + k) - 1" "p + (e + k) - 1 < length lp" using q n p(1) k by linarith+
    then obtain v where v: "lpDecodeBacklen lp (p + (e + k) - 1) = Some v" "v < 2 ^ 64"
      using decode_total by blast
    have eq: "(v + k) mod 2 ^ 64 = e + k \<longleftrightarrow> v = e" using v(2) e(2) k by (auto simp: mod_if)
    have "lpValidateNext lp (Some p) n = Some (if v = e then Some (Some (p + (e + k))) else None)"
      using p False e v in_range eq
      by (simp add: lpValidateNext_def OUT_OF_RANGE_def LP_HDR_SIZE_def Let_def k_def)
    then show ?thesis using that(2,3) False e v q p
      by (cases "v = e") (auto simp: valid_step_def k_def)
  qed
qed

lemma valid_step_progress: "valid_step lp n p q \<Longrightarrow> p < q \<and> q < n \<and> 6 \<le> q"
proof -
  assume "valid_step lp n p q"
  then obtain e where "q = p + (e + lpEncodeBacklenBytes e)" "q < n" "6 \<le> p" by (auto simp: valid_step_def)
  then show ?thesis using backlen_bytes_range [of e] by linarith
qed

section \<open>The loop\<close>

text \<open>The pointers the loop visits before it reaches the offset \<open>e\<close> of an end marker.\<close>

fun visits :: "bytes \<Rightarrow> nat \<Rightarrow> (nat \<Rightarrow> bool) \<Rightarrow> nat \<Rightarrow> nat list \<Rightarrow> nat \<Rightarrow> bool" where
  "visits lp n cb p [] e \<longleftrightarrow> p = e \<and> byte_at lp e = Some LP_EOF"
| "visits lp n cb p (r # ps) e \<longleftrightarrow> r = p \<and> cb p \<and> byte_at lp p \<noteq> Some LP_EOF \<and>
     (\<exists>q. lpValidateNext lp (Some p) n = Some (Some (Some q)) \<and> valid_step lp n p q \<and> visits lp n cb q ps e)"

lemma validate_loop_visits:
  assumes n: "n \<le> length lp"
  shows "6 \<le> p \<Longrightarrow> p < n \<Longrightarrow> c + (n - p) < 2 ^ 32 \<Longrightarrow>
    lp_validate_loop lp n cb (Some p) c = Some None \<or>
    (\<exists>ps e. lp_validate_loop lp n cb (Some p) c = Some (Some (Some e, c + length ps)) \<and> visits lp n cb p ps e)"
proof (induction "n - p" arbitrary: p c rule: less_induct)
  case less
  have "p < length lp" using less.prems n by simp
  then obtain b where b: "byte_at lp p = Some b" using byte_at_some by blast
  note unf = lp_validate_loop.simps [of lp n cb "Some p" c]
  show ?case
  proof (rule validate_next_cases [OF n less.prems(1,2) b])
    assume eof: "b = LP_EOF"
    then have "lp_validate_loop lp n cb (Some p) c = Some (Some (Some p, c + length []))" using b unf by simp
    moreover have "visits lp n cb p [] p" using b eof by simp
    ultimately show ?thesis by blast
  next
    assume "b \<noteq> LP_EOF" "lpValidateNext lp (Some p) n = Some None"
    then show ?thesis using b unf by simp
  next
    fix q
    assume q: "b \<noteq> LP_EOF" "lpValidateNext lp (Some p) n = Some (Some (Some q))" "valid_step lp n p q"
    note pr = valid_step_progress [OF q(3)]
    show ?thesis
    proof (cases "cb p")
      case False
      then show ?thesis using b q unf by simp
    next
      case True
      have c: "c + 1 + (n - q) < 2 ^ 32" "n - q < n - p" using less.prems pr by linarith+
      then have u: "lp_validate_loop lp n cb (Some p) c = lp_validate_loop lp n cb (Some q) (c + 1)"
        using b q True unf by simp
      have step: "visits lp n cb p (p # ps) e" if "visits lp n cb q ps e" for ps e
        using b q True that by auto
      have "6 \<le> q" "q < n" using pr by simp_all
      from less.hyps [OF c(2) this c(1)] show ?thesis
      proof (elim disjE exE conjE)
        fix ps e
        assume "lp_validate_loop lp n cb (Some q) (c + 1) = Some (Some (Some e, c + 1 + length ps))" "visits lp n cb q ps e"
        then have "lp_validate_loop lp n cb (Some p) c = Some (Some (Some e, c + length (p # ps)))" "visits lp n cb p (p # ps) e"
          using u step by simp_all
        then show ?thesis by blast
      qed (use u in simp_all)
    qed
  qed
qed

lemma visits_range: "visits lp n cb p ps e \<Longrightarrow> 6 \<le> p \<Longrightarrow> p < n \<Longrightarrow> e < n \<and> p + length ps \<le> e"
proof (induction ps arbitrary: p)
  case (Cons r ps)
  then obtain q where "valid_step lp n p q" "visits lp n cb q ps e" by auto
  then show ?case using Cons.IH [of q] valid_step_progress [of lp n p q] by auto
qed simp

text \<open>Walking from one visited pointer to the next, and back.\<close>

lemma visits_assert:
  assumes "visits lp n cb p ps e" "6 \<le> p" "p < n" "n \<le> length lp"
  shows "lpAssertValidEntry lp n p = Some ()" "byte_at lp p = Some LP_EOF \<longleftrightarrow> ps = []" "\<exists>b. byte_at lp p = Some b"
proof -
  obtain b where b: "byte_at lp p = Some b" using byte_at_some [of p lp] assms by auto
  then show "\<exists>b. byte_at lp p = Some b" by blast
  show "byte_at lp p = Some LP_EOF \<longleftrightarrow> ps = []" using assms(1) by (cases ps) auto
  show "lpAssertValidEntry lp n p = Some ()"
  proof (cases ps)
    case Nil
    then show ?thesis using assms by (auto simp: lpAssertValidEntry_def lpValidateNext_def OUT_OF_RANGE_def LP_HDR_SIZE_def)
  qed (use assms in \<open>auto simp: lpAssertValidEntry_def\<close>)
qed

definition head_opt :: "'a list \<Rightarrow> 'a option" where
  "head_opt xs = (case xs of [] \<Rightarrow> None | x # _ \<Rightarrow> Some x)"

lemma visits_head: "visits lp n cb q ps e \<Longrightarrow> ps \<noteq> [] \<Longrightarrow> head_opt ps = Some q"
  by (cases ps) (auto simp: head_opt_def)

lemma visits_next:
  assumes v: "visits lp n cb p (p # ps) e" and b: "lpBytes lp = Some n" and p: "6 \<le> p" "p < n" "n \<le> length lp"
  shows "lpNext lp p = Some (head_opt ps)"
proof -
  obtain q where q: "valid_step lp n p q" "visits lp n cb q ps e" using v by auto
  note pr = valid_step_progress [OF q(1)]
  have s: "lpSkip lp p = Some q" using q(1) by (auto simp: valid_step_def lpSkip_def)
  note a = visits_assert [OF q(2) _ _ p(3)]
  obtain x where x: "byte_at lp q = Some x" using a pr by blast
  show ?thesis
    using s x a(1,2) pr b visits_head [OF q(2)] by (cases "ps = []") (auto simp: lpNext_def head_opt_def)
qed

lemma visits_prev:
  assumes v: "visits lp n cb p (p # ps) e" "valid_step lp n p q" and b: "lpBytes lp = Some n" and p: "6 \<le> p" "p < n" "n \<le> length lp"
  shows "lpPrev lp q = Some (Some p)"
proof -
  obtain l where l: "lpCurrentEncodedSizeUnsafe lp p = Some l" "q = p + (l + lpEncodeBacklenBytes l)"
    "lpDecodeBacklen lp (q - 1) = Some l" "l < 2 ^ 32" using v(2) by (auto simp: valid_step_def)
  have "q \<noteq> 6" using l(2) p backlen_bytes_range [of l] by simp
  moreover have "(l + lpEncodeBacklenBytes l) mod 2 ^ 64 = l + lpEncodeBacklenBytes l"
    using l(4) backlen_bytes_range [of l] by simp
  ultimately show ?thesis
    using l b visits_assert(1) [OF v(1) p] by (simp add: lpPrev_def LP_HDR_SIZE_def Let_def)
qed

lemma visits_length:
  assumes b: "lpBytes lp = Some n" "n \<le> length lp"
  shows "visits lp n cb p ps e \<Longrightarrow> 6 \<le> p \<Longrightarrow> p < n \<Longrightarrow> c + length ps < 2 ^ 32 \<Longrightarrow>
    length_loop lp (head_opt ps) c = Some (c + length ps)"
proof (induction ps arbitrary: p c)
  case Nil
  then show ?case by (simp add: head_opt_def length_loop.simps)
next
  case (Cons r ps)
  then obtain q where q: "r = p" "valid_step lp n p q" "visits lp n cb q ps e" by auto
  have "length_loop lp (Some p) c = length_loop lp (head_opt ps) (c + 1)"
    using visits_next [of lp n cb p ps e] Cons.prems q(1) b by (subst length_loop.simps) simp
  then show ?case using Cons.IH [OF q(3), of "c + 1"] valid_step_progress [OF q(2)] Cons.prems q(1)
    by (simp add: head_opt_def)
qed

lemma visits_drop:
  "visits lp n cb p ps e \<Longrightarrow> 6 \<le> p \<Longrightarrow> p < n \<Longrightarrow> i \<le> length ps \<Longrightarrow>
    visits lp n cb ((ps @ [e]) ! i) (drop i ps) e \<and> 6 \<le> (ps @ [e]) ! i \<and> (ps @ [e]) ! i < n"
proof (induction ps arbitrary: p i)
  case (Cons r ps)
  then obtain q where q: "r = p" "valid_step lp n p q" "visits lp n cb q ps e" by auto
  show ?case
  proof (cases i)
    case 0
    then show ?thesis using Cons.prems q(1) by simp
  next
    case (Suc j)
    then show ?thesis using Cons.IH [OF q(3), of j] valid_step_progress [OF q(2)] Cons.prems by simp
  qed
qed auto

lemma visits_first: "visits lp n cb p ps e \<Longrightarrow> p = (ps @ [e]) ! 0"
  by (cases ps) auto

lemma visits_nth:
  assumes v: "visits lp n cb p ps e" "6 \<le> p" "p < n" and i: "i < length ps"
  shows "visits lp n cb (ps ! i) (ps ! i # drop (Suc i) ps) e" "cb (ps ! i)" "6 \<le> ps ! i" "ps ! i < e" "ps ! i < n"
    "valid_step lp n (ps ! i) ((ps @ [e]) ! Suc i)"
proof -
  have d: "drop i ps = ps ! i # drop (Suc i) ps" using i by (simp add: Cons_nth_drop_Suc)
  have x: "visits lp n cb (ps ! i) (ps ! i # drop (Suc i) ps) e \<and> 6 \<le> ps ! i \<and> ps ! i < n"
    using visits_drop [OF v, of i] i d by (simp add: nth_append)
  then show "visits lp n cb (ps ! i) (ps ! i # drop (Suc i) ps) e" "6 \<le> ps ! i" "ps ! i < n" "cb (ps ! i)" by auto
  show "ps ! i < e" using x visits_range [of lp n cb "ps ! i" "ps ! i # drop (Suc i) ps" e] by auto
  obtain q where q: "valid_step lp n (ps ! i) q" "visits lp n cb q (drop (Suc i) ps) e" using x by auto
  have "q = (ps @ [e]) ! Suc i" using visits_first [OF q(2)] i by (auto simp: nth_append)
  then show "valid_step lp n (ps ! i) ((ps @ [e]) ! Suc i)" using q(1) by simp
qed

section \<open>Completeness\<close>

lemma validate_loop_at:
  assumes ok: "lp_ok n es" and cb: "\<forall>i < length es. cb (lp_off es i)"
  shows "i \<le> length es \<Longrightarrow> c + (length es - i) < 2 ^ 32 \<Longrightarrow>
    lp_validate_loop (lp_bytes n es @ slack) (lp_total es) cb (Some (lp_off es i)) c =
      Some (Some (Some (lp_total es - 1), c + (length es - i)))"
proof (induction "length es - i" arbitrary: i c)
  case 0
  then have "i = length es" by simp
  then show ?case using byte_at_off(2) [OF ok, of slack] lp_off_simps(2) [of es] by (subst lp_validate_loop.simps) simp
next
  case (Suc d)
  then have i: "i < length es" "d = length es - Suc i" by linarith+
  have "lp_validate_loop (lp_bytes n es @ slack) (lp_total es) cb (Some (lp_off es i)) c =
      lp_validate_loop (lp_bytes n es @ slack) (lp_total es) cb (Some (lp_off es (Suc i))) (c + 1)"
    using byte_at_off(1) [OF ok i(1), of slack] hd_not_eof [OF ok i(1)] validate_next_at [OF ok, of i slack] i cb Suc.prems
    by (subst lp_validate_loop.simps) simp
  then show ?case using Suc.hyps(1) [OF i(2), of "c + 1"] i(1) Suc.prems by simp
qed

lemma validate_at:
  assumes ok: "lp_ok n es" and cb: "\<forall>i < length es. cb (lp_off es i)"
  shows "lpValidateIntegrity (lp_bytes n es @ slack) (lp_total es) deep cb = Some True"
proof -
  have "byte_at (lp_bytes n es @ slack) (lp_total es - 1) = Some LP_EOF"
    using byte_at_off(2) [OF ok, of slack] lp_off_simps(2) [of es] by simp
  moreover have "lp_validate_loop (lp_bytes n es @ slack) (lp_total es) cb (Some 6) 0 = Some (Some (Some (lp_total es - 1), length es))"
    using validate_loop_at [OF ok cb, of 0 0 slack] count_bound [OF ok] by (simp add: lp_off_simps)
  moreover have "n = 65535 \<or> n = length es" using ok by (auto simp: lp_ok_def count_ok_def)
  ultimately show ?thesis using get_header(1,2) [OF ok, of slack] lp_total_pos [of es]
    by (auto simp: lpValidateIntegrity_def LP_HDR_SIZE_def LP_HDR_NUMELE_UNKNOWN_def)
qed

section \<open>Properties\<close>

lemma total_bytes_some: "7 \<le> length lp \<Longrightarrow> \<exists>n. lpGetTotalBytes lp = Some n \<and> n < 2 ^ 32"
  using le_uint_less [of "take 4 lp"] by (simp add: lpGetTotalBytes_def read_uint_def read_bytes_def nat_less_iff)

lemma num_elements_some: "7 \<le> length lp \<Longrightarrow> \<exists>n. lpGetNumElements lp = Some n"
  by (simp add: lpGetNumElements_def read_uint_def read_bytes_def)

lemma validate_integrity_cases:
  assumes "sz \<le> length lp"
  shows "(\<exists>r. lpValidateIntegrity lp sz deep cb = Some r) \<and>
    (lpValidateIntegrity lp sz True cb = Some True \<longrightarrow>
      (\<exists>ps m. lpGetTotalBytes lp = Some sz \<and> 7 \<le> sz \<and> sz < 2 ^ 32 \<and> visits lp sz cb 6 ps (sz - 1) \<and>
        lpGetNumElements lp = Some m \<and> (m = 65535 \<or> m = length ps)))"
proof (cases "sz < 7")
  case True
  then have "lpValidateIntegrity lp sz d cb = Some False" for d by (simp add: lpValidateIntegrity_def LP_HDR_SIZE_def)
  from this [of deep] this [of True] show ?thesis by auto
next
  case False
  obtain n where n: "lpGetTotalBytes lp = Some n" "n < 2 ^ 32" using total_bytes_some [of lp] assms False by auto
  obtain m where m: "lpGetNumElements lp = Some m" using num_elements_some [of lp] assms False by auto
  have "sz - 1 < length lp" using assms False by simp
  then obtain b where b: "byte_at lp (sz - 1) = Some b" using byte_at_some by blast
  have "sz = n \<Longrightarrow> lp_validate_loop lp sz cb (Some 6) 0 = Some None \<or>
    (\<exists>ps e. lp_validate_loop lp sz cb (Some 6) 0 = Some (Some (Some e, 0 + length ps)) \<and> visits lp sz cb 6 ps e)"
    using validate_loop_visits [OF assms, of 6 0 cb] n False by simp
  then show ?thesis
    using False n m b
    by (cases "sz = n"; cases "b = LP_EOF")
      (auto simp: lpValidateIntegrity_def LP_HDR_SIZE_def LP_HDR_NUMELE_UNKNOWN_def split: if_splits)
qed

text \<open>
  (C16) Validation terminates and stays in bounds on every input: whatever bytes an allocation of at
  least the given size holds, \<^verbatim>\<open>lpValidateIntegrity\<close> accepts or rejects them.
\<close>

theorem lpValidateIntegrity_decides:
  assumes "sz \<le> length lp"
  shows "lpValidateIntegrity lp sz deep entry_cb = Some True \<or> lpValidateIntegrity lp sz deep entry_cb = Some False"
  using validate_integrity_cases [OF assms, of deep entry_cb] by (metis (full_types))

theorem lpValidateIntegrity_decides_witness:
  "lpValidateIntegrity [7, 0, 0, 0, 0, 0, 240, 255] 8 True (\<lambda>_. True) = Some True \<or>
    lpValidateIntegrity [7, 0, 0, 0, 0, 0, 240, 255] 8 True (\<lambda>_. True) = Some False"
  by (rule lpValidateIntegrity_decides) simp

text \<open>
  (C15) A listpack that deep validation accepts is safe to walk: there is a list of pointers inside it,
  each accepted by the callback, that \<^verbatim>\<open>lpFirst\<close> and \<^verbatim>\<open>lpNext\<close> visit from left to right and \<^verbatim>\<open>lpLast\<close>
  and \<^verbatim>\<open>lpPrev\<close> from right to left without a failed assertion, and \<^verbatim>\<open>lpLength\<close> returns its length.
\<close>

theorem lpValidateIntegrity_walks:
  assumes "lpValidateIntegrity lp sz True entry_cb = Some True" "sz \<le> length lp"
  shows "\<exists>ps. lpFirst lp = Some (head_opt ps) \<and> lpLast lp = Some (head_opt (rev ps)) \<and>
    (\<exists>lp'. lpLength lp = Some (lp', length ps)) \<and>
    (\<forall>i < length ps. entry_cb (ps ! i) \<and> LP_HDR_SIZE \<le> ps ! i \<and> ps ! i < sz - 1 \<and>
      lpNext lp (ps ! i) = Some (if Suc i < length ps then Some (ps ! Suc i) else None) \<and>
      lpPrev lp (ps ! i) = Some (if i = 0 then None else Some (ps ! (i - 1))))"
proof -
  obtain ps m where v: "lpGetTotalBytes lp = Some sz" "7 \<le> sz" "sz < 2 ^ 32" "visits lp sz entry_cb 6 ps (sz - 1)"
    "lpGetNumElements lp = Some m" "m = 65535 \<or> m = length ps"
    using validate_integrity_cases [OF assms(2), of True entry_cb] assms(1) by blast
  have b: "lpBytes lp = Some sz" using v(1) by (simp add: lpBytes_def)
  note nth = visits_nth [OF v(4)]
  have six: "6 < sz" using v(2) by simp
  have first: "lpFirst lp = Some (head_opt ps)"
    using visits_assert [OF v(4) _ six assms(2)] b visits_head [OF v(4)]
    by (cases "ps = []") (auto simp: lpFirst_def LP_HDR_SIZE_def head_opt_def)
  have nx: "lpNext lp (ps ! i) = Some (if Suc i < length ps then Some (ps ! Suc i) else None)" if "i < length ps" for i
    using visits_next [OF nth(1) b] nth(3,5) that six assms(2)
    by (auto simp: head_opt_def Cons_nth_drop_Suc [symmetric] split: list.splits)
  have pv: "lpPrev lp ((ps @ [sz - 1]) ! Suc i) = Some (Some (ps ! i))" if "i < length ps" for i
    using visits_prev [OF nth(1) nth(6) b] nth(3,5) that six assms(2) by auto
  have "length ps < 2 ^ 32" using visits_range [OF v(4)] v(3) six by simp
  then have "\<exists>lp'. lpLength lp = Some (lp', length ps)"
    using v(5,6) first visits_length [OF b assms(2) v(4), of 0] six assms(2) v(2)
    by (auto simp: lpLength_def LP_HDR_NUMELE_UNKNOWN_def lpSetNumElements_def write_bytes_def)
  moreover have "lpLast lp = Some (head_opt (rev ps))"
  proof (cases ps rule: rev_cases)
    case Nil
    then have "sz - 1 = 6" using v(4) by simp
    then show ?thesis using v(1,2) Nil by (simp add: lpLast_def lpPrev_def LP_HDR_SIZE_def head_opt_def)
  next
    case (snoc qs q)
    then show ?thesis using pv [of "length qs"] v(1,2) by (simp add: lpLast_def head_opt_def nth_append)
  qed
  moreover have "lpPrev lp (ps ! i) = Some (if i = 0 then None else Some (ps ! (i - 1)))" if "i < length ps" for i
  proof (cases i)
    case 0
    then have "ps ! i = 6" using v(4) that by (cases ps) auto
    then show ?thesis using 0 by (simp add: lpPrev_def LP_HDR_SIZE_def)
  next
    case (Suc j)
    then show ?thesis using pv [of j] that by (simp add: nth_append)
  qed
  moreover have "entry_cb (ps ! i)" "LP_HDR_SIZE \<le> ps ! i" "ps ! i < sz - 1" if "i < length ps" for i
    using nth(2,3,4) that six by (simp_all add: LP_HDR_SIZE_def)
  ultimately show ?thesis using first nx by (intro exI [of _ ps]) blast
qed

theorem lpValidateIntegrity_walks_witness:
  "\<exists>ps lp'. lpFirst [9, 0, 0, 0, 1, 0, 5, 1, 255] = Some (head_opt ps) \<and> lpLast [9, 0, 0, 0, 1, 0, 5, 1, 255] = Some (head_opt (rev ps)) \<and>
    lpLength [9, 0, 0, 0, 1, 0, 5, 1, 255] = Some (lp', length ps)"
proof -
  obtain n slack where lp: "lp_ok n [[5]]" "[9, 0, 0, 0, 1, 0, 5, 1, 255] = lp_bytes n [[5]] @ slack"
    using example_rep by (auto simp: lp_rep_def)
  have "lp_total [[5]] = 9" by (simp add: lp_total_def lpEncodeBacklenBytes_def)
  then have "lpValidateIntegrity [9, 0, 0, 0, 1, 0, 5, 1, 255] 9 True (\<lambda>_. True) = Some True"
    using validate_at [OF lp(1), of "\<lambda>_. True" slack True] unfolding lp(2) by simp
  from lpValidateIntegrity_walks [OF this] show ?thesis by simp blast
qed

end
