(* ===== verification/Listpack_Find.thy ===== *)
theory Listpack_Find
  imports Listpack_Inv
begin

text \<open>
  Searching: \<^verbatim>\<open>lpFind\<close> compares every element at the given distance with a string, whatever the
  encoding of the element, and returns the first that is equal.
\<close>

section \<open>Reading with the size\<close>

lemma size_get_append:
  "lpGetWithSize (xs @ ys) (length xs) s0 = map_option (map_prod (lpval_shift (length xs)) id) (lpGetWithSize ys 0 s0)"
  by (cases "byte_at ys 0"; cases "LP_ENCODING_6BIT_STR_LEN ys 0"; cases "LP_ENCODING_12BIT_STR_LEN ys 0";
      cases "LP_ENCODING_32BIT_STR_LEN ys 0"; cases "lp_uval ys 0")
    (simp_all add: lpGetWithSize_def len_append uval_append)

lemma bind_left: "a \<bind> h = Some v \<Longrightarrow> (\<And>x. a = Some x \<Longrightarrow> a' = Some x) \<Longrightarrow> a' \<bind> h = Some v"
  by (cases a) auto

lemma size_get_left:
  assumes g: "lpGetWithSize xs 0 s0 = Some v"
  shows "lpGetWithSize (xs @ ys) 0 s0 = Some v"
proof -
  obtain b where b: "byte_at xs 0 = Some b" using g by (cases "byte_at xs 0") (auto simp: lpGetWithSize_def)
  show ?thesis
    using g unfolding lpGetWithSize_def b byte_at_left [OF b] bind.bind_lunit
    by (simp split: if_split_asm
        add: bind_left [OF _ uval_left] bind_left [OF _ len_left(1)] bind_left [OF _ len_left(2)] bind_left [OF _ len_left(3)])
qed

lemma size_get_at:
  assumes ok: "lp_ok n es" and i: "i < length es" and g: "lpGetWithSize (es ! i) 0 s0 = Some (v, k)"
  shows "lpGetWithSize (lp_bytes n es @ slack) (lp_off es i) s0 = Some (lpval_shift (lp_off es i) v, k)"
  using size_get_append [of "lp_prefix n es i" "es ! i @ lpEncodeBacklen (length (es ! i)) @ entries (drop (Suc i) es) @ [LP_EOF] @ slack" s0]
    size_get_left [OF g]
  by (simp add: lp_bytes_at [OF i])

section \<open>The comparator\<close>

text \<open>The state the comparator may be in: the string has not been parsed yet, or its value is known.\<close>

definition arg_ok :: "bytes \<Rightarrow> lpFindArg \<Rightarrow> bool" where
  "arg_ok s arg \<longleftrightarrow> fa_s arg = s \<and> (fa_vencoding arg = 0 \<or>
     (case string2ll s of None \<Rightarrow> fa_vencoding arg = 255 | Some v \<Rightarrow> fa_vencoding arg = 1 \<and> fa_vll arg = v))"

lemma long_not_int: "length s \<ge> 32 \<or> length s = 0 \<Longrightarrow> string2ll s = None"
  by (auto simp: string2ll_def LONG_STR_SIZE_def)

lemma find_cmp_at:
  assumes ok: "lp_ok n es" and i: "i < length es" and arg: "arg_ok s arg"
  shows "\<exists>v arg'. lpGetWithSize (lp_bytes n es @ slack) (lp_off es i) s0 = Some (v, length (entry (es ! i))) \<and>
    lpFindCmp (lp_bytes n es @ slack) arg (lp_off es i) v = Some (payload_string (es ! i) = s, arg') \<and> arg_ok s arg'"
proof -
  have "payload_ok (es ! i)" using ok i by (simp add: lp_ok_def)
  then show ?thesis
  proof (cases rule: payload_get)
    case (int v)
    have ps: "payload_string (es ! i) = dec_int v" using int(1) by (simp add: payload_string_def)
    define arg' where "arg' = (if fa_vencoding arg = 0
              then (if length (fa_s arg) \<ge> 32 \<or> length (fa_s arg) = 0 then arg\<lparr>fa_vencoding := 255\<rparr>
                    else case lpStringToInt64 (fa_s arg) of
                      None \<Rightarrow> arg\<lparr>fa_vencoding := 255\<rparr>
                    | Some v \<Rightarrow> arg\<lparr>fa_vencoding := 1, fa_vll := v\<rparr>)
              else arg)"
    have a: "fa_s arg' = s" "case string2ll s of None \<Rightarrow> fa_vencoding arg' = 255 | Some v \<Rightarrow> fa_vencoding arg' = 1 \<and> fa_vll arg' = v"
      using arg long_not_int [of s] by (auto simp: arg'_def arg_ok_def lpStringToInt64_eq split: option.splits)
    have "fa_vencoding arg' \<noteq> 255 \<and> v = fa_vll arg' \<longleftrightarrow> string2ll s = Some v" using a(2) by (cases "string2ll s") auto
    then have "lpFindCmp (lp_bytes n es @ slack) arg (lp_off es i) (lp_int v) = Some (payload_string (es ! i) = s, arg')"
      using string2ll_iff [of s v] int(2) by (auto simp: lpFindCmp_def arg'_def [symmetric] ps)
    moreover have "arg_ok s arg'" using a by (auto simp: arg_ok_def)
    ultimately show ?thesis using size_get_at [OF ok i int(3)] by auto
  next
    case (str h k)
    have ps: "payload_string (es ! i) = take k (drop h (es ! i))" "length (payload_string (es ! i)) = k"
      using str(1,2) by (simp_all add: payload_string_def)
    have "read_bytes (lp_bytes n es @ slack) (lp_off es i + h) k = Some (payload_string (es ! i))"
      using read_bytes_append [of "lp_prefix n es i" "es ! i @ lpEncodeBacklen (length (es ! i)) @ entries (drop (Suc i) es) @ [LP_EOF] @ slack" h k]
        str(2) ps(1) by (simp add: lp_bytes_at [OF i] read_bytes_def)
    then have "lpFindCmp (lp_bytes n es @ slack) arg (lp_off es i) (lp_str (lp_off es i + h) k) = Some (payload_string (es ! i) = s, arg)"
      using arg ps(2) by (auto simp: lpFindCmp_def arg_ok_def)
    then show ?thesis using size_get_at [OF ok i str(4)] arg by auto
  qed
qed

section \<open>The loop\<close>

fun lp_search :: "bytes list \<Rightarrow> bytes \<Rightarrow> nat \<Rightarrow> nat \<Rightarrow> nat \<Rightarrow> nat option" where
  "lp_search [] s skip k i = None"
| "lp_search (x # xs) s skip 0 i = (if x = s then Some i else lp_search xs s skip skip (Suc i))"
| "lp_search (x # xs) s skip (Suc k) i = lp_search xs s skip k (Suc i)"

lemma find_continue:
  assumes ok: "lp_ok n es" and i: "i < length es"
  obtains b where "(if lp_off es (Suc i) + 8 \<ge> lp_total es then lpAssertValidEntry (lp_bytes n es @ slack) (lp_total es) (lp_off es (Suc i))
      else if lp_off es (Suc i) \<ge> LP_HDR_SIZE \<and> lp_off es (Suc i) < lp_total es then Some () else None) = Some ()"
    "byte_at (lp_bytes n es @ slack) (lp_off es (Suc i)) = Some b" "b = LP_EOF \<longleftrightarrow> Suc i = length es"
proof -
  obtain b where b: "byte_at (lp_bytes n es @ slack) (lp_off es (Suc i)) = Some b" "b = LP_EOF \<longleftrightarrow> Suc i = length es"
    using eof_at [OF ok, of "Suc i" slack] i by auto
  moreover have "LP_HDR_SIZE \<le> lp_off es (Suc i)" by (simp add: lp_off_def LP_HDR_SIZE_def)
  ultimately show ?thesis using that assert_at [OF ok, of "Suc i" slack] lp_off_less [of es "Suc i"] i by simp
qed

lemma find_loop_at:
  assumes ok: "lp_ok n es"
  shows "i < length es \<Longrightarrow> arg_ok s arg \<Longrightarrow>
    lp_find_loop (lp_bytes n es @ slack) (lp_total es) (lpFindCmp (lp_bytes n es @ slack)) skip arg k (lp_off es i) =
    Some (map_option (lp_off es) (lp_search (map payload_string (drop i es)) s skip k i))"
proof (induction "length es - i" arbitrary: i k arg)
  case (Suc d)
  note i = Suc.prems(1)
  let ?lp = "lp_bytes n es @ slack"
  have d: "drop i es = es ! i # drop (Suc i) es" using i by (simp add: Cons_nth_drop_Suc)
  have nx: "lp_off es (Suc i) = lp_off es i + length (entry (es ! i))" using lp_off_simps(3) [OF i] by simp
  have lt: "lp_off es (Suc i) < lp_total es" "LP_HDR_SIZE \<le> lp_off es i"
    using lp_off_less [of es "Suc i"] by (simp_all add: lp_off_def LP_HDR_SIZE_def)
  obtain b where b: "(if lp_off es (Suc i) + 8 \<ge> lp_total es then lpAssertValidEntry ?lp (lp_total es) (lp_off es (Suc i))
      else if lp_off es (Suc i) \<ge> LP_HDR_SIZE \<and> lp_off es (Suc i) < lp_total es then Some () else None) = Some ()"
    "byte_at ?lp (lp_off es (Suc i)) = Some b" "b = LP_EOF \<longleftrightarrow> Suc i = length es" using find_continue [OF ok i] by metis
  have go: "(if b = LP_EOF then Some None else lp_find_loop ?lp (lp_total es) (lpFindCmp ?lp) skip a k' (lp_off es (Suc i))) =
      Some (map_option (lp_off es) (lp_search (map payload_string (drop (Suc i) es)) s skip k' (Suc i)))" if "arg_ok s a" for a k'
  proof (cases "Suc i = length es")
    case False
    then have "d = length es - Suc i" "Suc i < length es" using Suc.hyps(2) i by simp_all
    then show ?thesis using Suc.hyps(1) [of "Suc i"] that b(3) False by simp
  qed (use b(3) in simp)
  show ?case
  proof (cases k)
    case (Suc k')
    have "lp_find_loop ?lp (lp_total es) (lpFindCmp ?lp) skip arg k (lp_off es i) =
        (if b = LP_EOF then Some None else lp_find_loop ?lp (lp_total es) (lpFindCmp ?lp) skip arg k' (lp_off es (Suc i)))"
      using b skip_at [OF ok i, of slack] Suc by (subst lp_find_loop.simps) simp
    then show ?thesis using go [OF Suc.prems(2)] Suc d by simp
  next
    case 0
    obtain v arg' where v: "lpGetWithSize ?lp (lp_off es i) 123456789 = Some (v, length (entry (es ! i)))"
      "lpFindCmp ?lp arg (lp_off es i) v = Some (payload_string (es ! i) = s, arg')" "arg_ok s arg'"
      using find_cmp_at [OF ok i Suc.prems(2)] by blast
    have chk: "(case v of lp_str _ _ \<Rightarrow> if lp_off es i \<ge> LP_HDR_SIZE \<and> lp_off es i + length (entry (es ! i)) < lp_total es then Some () else None
        | lp_int _ \<Rightarrow> Some ()) = Some ()" using lt nx by (simp split: lpval.split)
    have "lp_find_loop ?lp (lp_total es) (lpFindCmp ?lp) skip arg k (lp_off es i) =
        (if payload_string (es ! i) = s then Some (Some (lp_off es i))
         else if b = LP_EOF then Some None else lp_find_loop ?lp (lp_total es) (lpFindCmp ?lp) skip arg' skip (lp_off es (Suc i)))"
      using b v chk 0 by (subst lp_find_loop.simps) (simp add: nx [symmetric] del: length_entry)
    then show ?thesis using go [OF v(3), of skip] 0 d by simp
  qed
qed simp

lemma find_at:
  assumes "lp_ok n es" "i < length es"
  shows "lpFind (lp_bytes n es @ slack) (Some (lp_off es i)) s skip =
    Some (map_option (lp_off es) (lp_search (map payload_string (drop i es)) s skip 0 i))"
proof -
  have "arg_ok s \<lparr>fa_s = s, fa_vencoding = 0, fa_vll = 0\<rparr>" by (simp add: arg_ok_def)
  from find_loop_at [OF assms this] show ?thesis
    using get_header(3) [OF assms(1), of slack] by (simp add: lpFind_def lpFindCbInternal_def)
qed

section \<open>The first match\<close>

text \<open>The indexes the search looks at, from \<open>i\<close> on with \<open>skip\<close> elements between two of them.\<close>

definition probes :: "nat \<Rightarrow> nat \<Rightarrow> nat \<Rightarrow> nat list" where
  "probes i skip n = filter (\<lambda>j. (j - i) mod Suc skip = 0) [i..<n]"

lemma probes_step: "i < n \<Longrightarrow> probes i skip n = i # probes (Suc (i + skip)) skip n"
proof -
  assume i: "i < n"
  have shift: "(j - i) mod Suc skip = 0 \<longleftrightarrow> Suc (i + skip) \<le> j \<and> (j - Suc (i + skip)) mod Suc skip = 0" if "Suc i \<le> j" for j
  proof (cases "Suc (i + skip) \<le> j")
    case True
    then have "j - i = (j - Suc (i + skip)) + Suc skip" by simp
    then show ?thesis using True by (simp only: mod_add_self2) simp
  next
    case False
    then have "(j - i) mod Suc skip = j - i" by simp
    then show ?thesis using False that by simp
  qed
  have "filter (\<lambda>j. (j - i) mod Suc skip = 0) [Suc i..<n] =
      filter (\<lambda>j. (j - Suc (i + skip)) mod Suc skip = 0) (filter (\<lambda>j. Suc (i + skip) \<le> j) [Suc i..<n])"
    unfolding filter_filter using shift by (intro filter_cong) auto
  also have "filter (\<lambda>j. Suc (i + skip) \<le> j) [Suc i..<n] = [Suc (i + skip)..<n]"
  proof (cases "Suc (i + skip) \<le> n")
    case True
    then have "[Suc i..<n] = [Suc i..<Suc (i + skip)] @ [Suc (i + skip)..<n]" using upt_add_eq_append [of "Suc i" "Suc (i + skip)" "n - Suc (i + skip)"] by simp
    moreover have "filter (\<lambda>j. Suc (i + skip) \<le> j) [Suc i..<Suc (i + skip)] = []" by (auto simp: filter_empty_conv)
    moreover have "filter (\<lambda>j. Suc (i + skip) \<le> j) [Suc (i + skip)..<n] = [Suc (i + skip)..<n]" by (simp add: filter_id_conv)
    ultimately show ?thesis by (simp only: filter_append) simp
  qed (auto simp: filter_empty_conv)
  finally show ?thesis using i by (simp add: probes_def upt_conv_Cons)
qed

lemma lp_search_probes:
  "i + k \<le> n \<Longrightarrow> n = length ss \<Longrightarrow> lp_search (drop i ss) s skip k i = find (\<lambda>j. ss ! j = s) (probes (i + k) skip n)"
proof (induction "n - i" arbitrary: i k)
  case 0
  then show ?case by (simp add: probes_def)
next
  case (Suc d)
  then have d: "drop i ss = ss ! i # drop (Suc i) ss" "d = n - Suc i" "i < n" by (simp_all add: Cons_nth_drop_Suc)
  show ?case
  proof (cases k)
    case (Suc k')
    then show ?thesis using Suc.hyps(1) [OF d(2), of k'] Suc.prems d(1) by simp
  next
    case 0
    show ?thesis
    proof (cases "Suc i + skip \<le> n")
      case True
      then show ?thesis using Suc.hyps(1) [OF d(2), of skip] Suc.prems d(1,3) 0 by (simp add: probes_step)
    next
      case False
      have "lp_search xs s skip m j = None" if "length xs \<le> m" for xs m j
        using that
      proof (induction xs arbitrary: m j)
        case (Cons x xs)
        then show ?case by (cases m) auto
      qed simp
      then show ?thesis using False Suc.prems d(1,3) 0 by (simp add: probes_step) (simp add: probes_def)
    qed
  qed
qed

end
