(* ===== verification/Listpack_Props.thy ===== *)
theory Listpack_Props
  imports Listpack_Range Listpack_Validate Listpack_Find
begin

text \<open>
  What the listpack promises to its clients: insertion, replacement and removal act on the list of
  elements as on any list, and what was stored is read back.
\<close>

section \<open>Operations built on \<open>lpInsert\<close>\<close>

lemma new_at: "\<exists>lp. lpNew junk capacity = Some lp \<and> lp_rep lp []"
proof -
  define lp where "lp = map junk [0..<(if capacity > LP_HDR_SIZE + 1 then capacity else LP_HDR_SIZE + 1)]"
  have len: "7 \<le> length lp" by (simp add: lp_def LP_HDR_SIZE_def)
  have "lpSetTotalBytes lp 7 = Some (le_bytes 4 7 @ drop 4 lp)"
    using len by (simp add: lpSetTotalBytes_def write_bytes_def)
  moreover have "lpSetNumElements (le_bytes 4 7 @ drop 4 lp) 0 = Some (le_bytes 4 7 @ le_bytes 2 0 @ drop 6 lp)"
    using len by (simp add: lpSetNumElements_def write_bytes_def)
  moreover have "write_bytes (le_bytes 4 7 @ le_bytes 2 0 @ drop 6 lp) 6 [LP_EOF] =
      Some (le_bytes 4 7 @ le_bytes 2 0 @ LP_EOF # drop 7 lp)"
    using len by (simp add: write_bytes_def)
  ultimately have "lpNew junk capacity = Some (le_bytes 4 7 @ le_bytes 2 0 @ LP_EOF # drop 7 lp)"
    unfolding lpNew_def lp_def [symmetric] Let_def by (simp add: LP_HDR_SIZE_def)
  moreover have "le_bytes 4 7 @ le_bytes 2 0 @ LP_EOF # drop 7 lp = lp_bytes 0 [] @ drop 7 lp"
    by (simp add: lp_bytes_def lp_total_def)
  moreover have "lp_ok 0 []" by (simp add: lp_ok_def lp_total_def count_ok_def)
  ultimately show ?thesis by (auto simp: lp_rep_def)
qed

lemma edit_ends [simp]: "edit LP_BEFORE 0 new xs = new @ xs" "edit LP_BEFORE (length xs) new xs = xs @ new"
  by simp_all

lemma append_at:
  assumes "lp_ok n es" "length s < 2 ^ 32"
  shows "lp_result (lpAppend junk (lp_bytes n es @ slack) s) (es @ [lp_enc s]) (Some (lp_off es (length es)))"
  using insert_string [OF assms(1) _ assms(2), of LP_BEFORE "length es" junk slack] get_header(1) [OF assms(1), of slack]
    lp_total_pos [of es] lp_off_simps(2) [of es]
  by (simp add: lpAppend_def edit_index_def)

lemma prepend_at:
  assumes "lp_ok n es" "length s < 2 ^ 32"
  shows "lp_result (lpPrepend junk (lp_bytes n es @ slack) s) (lp_enc s # es) (Some (lp_off es 0))"
proof (cases "es = []")
  case True
  then show ?thesis using append_at [OF assms, of junk slack] first_at [OF assms(1), of slack]
    by (simp add: lpPrepend_def lp_at_def)
next
  case False
  then show ?thesis using insert_string [OF assms(1) _ assms(2), of LP_BEFORE 0 junk slack] first_at [OF assms(1), of slack]
    by (simp add: lpPrepend_def lp_at_def edit_index_def)
qed

section \<open>Reading back\<close>

lemma get_at:
  assumes "lp_ok n es" "i < length es" "length intbuf = LP_INTBUF_SIZE"
  shows "lpGet_intbuf (lp_bytes n es @ slack) (lp_off es i) intbuf = Some (payload_string (es ! i))"
proof -
  have "payload_ok (es ! i)" using assms by (simp add: lp_ok_def)
  from get_intbuf_context [OF this assms(3), of "lp_prefix n es i"] show ?thesis
    by (simp add: lp_bytes_at [OF assms(2)])
qed

text \<open>The list without up to \<open>num\<close> elements from an index on, which counts from the end when it is negative.\<close>

definition cut_range :: "int \<Rightarrow> nat \<Rightarrow> 'a list \<Rightarrow> 'a list" where
  "cut_range idx num xs =
     (let i = (if idx < 0 then int (length xs) + idx else idx) in
      if 0 \<le> i \<and> i < int (length xs) then take (nat i) xs @ drop (nat i + num) xs else xs)"

section \<open>Properties\<close>

text \<open>
  (C3) On a well-formed listpack, \<^verbatim>\<open>lpInsertString\<close> before, behind or in place of the element of an
  index returns a null pointer exactly when the new listpack would have more than \<^verbatim>\<open>UINT32_MAX\<close>
  bytes. Otherwise it returns a well-formed listpack whose elements are the edited list and the
  pointer to the new element; every string of 32-bit length can be passed, and no access leaves the
  allocation.
\<close>

theorem lpInsertString_edits:
  assumes "lp_rep lp es" "edit_at wh i es" "length s < 2 ^ 32"
  shows "let es' = edit wh i [lp_enc s] es in
    if lp_total es' > UINT32_MAX
    then lpInsertString junk lp s (lp_off es i) wh = Some None
    else \<exists>lp'. lpInsertString junk lp s (lp_off es i) wh = Some (Some (lp', Some (lp_off es' (edit_index wh i)))) \<and>
      lp_rep lp' es' \<and> map payload_string es' = edit wh i [s] (map payload_string es)"
proof -
  obtain n slack where lp: "lp_ok n es" "lp = lp_bytes n es @ slack" using assms(1) by (auto simp: lp_rep_def)
  show ?thesis
    using insert_string [OF lp(1) assms(2,3), of junk slack] lp_off_edit [OF assms(2), of "[lp_enc s]"]
      edit_string [OF assms(3), of wh i es]
    by (auto simp: lpInsertString_def lp_result_def lp(2) Let_def)
qed

theorem lpInsertString_edits_witness:
  "let es' = edit LP_AFTER 0 [lp_enc [97, 98]] [[5]] in
    if lp_total es' > UINT32_MAX
    then lpInsertString (\<lambda>_. 0) [9, 0, 0, 0, 1, 0, 5, 1, 255] [97, 98] (lp_off [[5]] 0) LP_AFTER = Some None
    else \<exists>lp'. lpInsertString (\<lambda>_. 0) [9, 0, 0, 0, 1, 0, 5, 1, 255] [97, 98] (lp_off [[5]] 0) LP_AFTER =
        Some (Some (lp', Some (lp_off es' (edit_index LP_AFTER 0)))) \<and>
      lp_rep lp' es' \<and> map payload_string es' = edit LP_AFTER 0 [[97, 98]] (map payload_string [[5]])"
  by (rule lpInsertString_edits [OF example_rep]) simp_all

text \<open>
  \<^verbatim>\<open>lpDelete\<close> removes the element it is given from a well-formed listpack, keeps the listpack
  well-formed, and returns the pointer to the element that followed, or a null pointer when the last
  element was removed.
\<close>

theorem lpDelete_removes:
  assumes "lp_rep lp es" "i < length es"
  shows "\<exists>lp'. lpDelete junk lp (lp_off es i) =
      Some (Some (lp', lp_at (take i es @ drop (Suc i) es) i)) \<and> lp_rep lp' (take i es @ drop (Suc i) es)"
proof -
  obtain n slack where lp: "lp_ok n es" "lp = lp_bytes n es @ slack" using assms(1) by (auto simp: lp_rep_def)
  have "length (entries (take i es)) + length (entries (drop (Suc i) es)) \<le> length (entries es)"
    by (subst (3) id_take_nth_drop [OF assms(2)]) simp
  then have "lp_total (take i es @ drop (Suc i) es) \<le> UINT32_MAX" using lp(1) by (simp add: lp_ok_def lp_total_def)
  then show ?thesis using delete_edit [OF lp(1) assms(2), of junk slack]
    by (auto simp: lpDelete_def lp_result_def lp(2) not_less)
qed

theorem lpDelete_removes_witness:
  "\<exists>lp'. lpDelete (\<lambda>_. 0) [9, 0, 0, 0, 1, 0, 5, 1, 255] (lp_off [[5]] 0) =
      Some (Some (lp', lp_at (take 0 [[5]] @ drop (Suc 0) [[5]]) 0)) \<and> lp_rep lp' (take 0 [[5]] @ drop (Suc 0) [[5]])"
  by (rule lpDelete_removes [OF example_rep]) simp

text \<open>
  (C17) A string appended to a well-formed listpack, however it was encoded, is read back by \<^verbatim>\<open>lpGet\<close>
  at the pointer to the new last element, byte for byte; strings that are the decimal form of a
  64-bit integer are stored as integers and printed again.
\<close>

theorem lpAppend_lpGet:
  assumes "lp_rep lp es" "length s < 2 ^ 32" "length intbuf = LP_INTBUF_SIZE"
    "lpAppend junk lp s = Some (Some (lp', newp))"
  shows "\<exists>p. newp = Some p \<and> lpLast lp' = Some (Some p) \<and> lpGet_intbuf lp' p intbuf = Some s"
proof -
  obtain n slack where lp: "lp_ok n es" "lp = lp_bytes n es @ slack" using assms(1) by (auto simp: lp_rep_def)
  define es' where "es' = es @ [lp_enc s]"
  have "lp_total es' \<le> UINT32_MAX" and r: "newp = Some (lp_off es (length es))" "lp_rep lp' es'"
    using append_at [OF lp(1) assms(2), of junk slack] assms(4) lp(2)
    by (auto simp: lp_result_def es'_def split: if_splits)
  obtain n' slack' where lp': "lp_ok n' es'" "lp' = lp_bytes n' es' @ slack'" using r(2) by (auto simp: lp_rep_def)
  have off: "lp_off es' (length es) = lp_off es (length es)" by (simp add: lp_off_def es'_def)
  have "map payload_string es' = map payload_string es @ [s]"
    using edit_string [OF assms(2), of LP_BEFORE "length es" es] \<open>lp_total es' \<le> UINT32_MAX\<close> by (simp add: es'_def)
  then have "payload_string (es' ! length es) = s" by (simp add: es'_def)
  then show ?thesis
    using r(1) last_at [OF lp'(1), of slack'] get_at [OF lp'(1) _ assms(3), of "length es" slack'] off lp'(2)
    by (simp add: es'_def)
qed

theorem lpAppend_lpGet_witness:
  "\<exists>lp' newp. lpAppend (\<lambda>_. 0) [9, 0, 0, 0, 1, 0, 5, 1, 255] [50, 53, 54] = Some (Some (lp', newp)) \<and>
    (\<exists>p. newp = Some p \<and> lpLast lp' = Some (Some p) \<and> lpGet_intbuf lp' p (replicate 21 0) = Some [50, 53, 54])"
proof -
  obtain n slack where lp: "lp_ok n [[5]]" "[9, 0, 0, 0, 1, 0, 5, 1, 255] = lp_bytes n [[5]] @ slack"
    using example_rep by (auto simp: lp_rep_def)
  have "lp_enc [50, 53, 54] = [193, 0]" by code_simp
  then have "lp_total ([[5]] @ [lp_enc [50, 53, 54]]) \<le> UINT32_MAX"
    by (simp add: lp_total_def lpEncodeBacklenBytes_def)
  then obtain lp' newp where a: "lpAppend (\<lambda>_. 0) [9, 0, 0, 0, 1, 0, 5, 1, 255] [50, 53, 54] = Some (Some (lp', newp))"
    using append_at [OF lp(1), of "[50, 53, 54]" "\<lambda>_. 0" slack] unfolding lp(2) by (auto simp: lp_result_def)
  show ?thesis
    using a lpAppend_lpGet [OF example_rep _ _ a, of "replicate 21 0"] by (simp add: LP_INTBUF_SIZE_def)
qed

text \<open>
  \<^verbatim>\<open>lpFind\<close> from an element on, with \<open>skip\<close> elements between two comparisons, returns the pointer
  to the first compared element whose string is the one looked for, and a null pointer when there is
  none; an element stored as an integer is found by its decimal form only.
\<close>

theorem lpFind_first:
  assumes "lp_rep lp es" "i < length es"
  shows "lpFind lp (Some (lp_off es i)) s skip =
    Some (map_option (lp_off es) (find (\<lambda>j. payload_string (es ! j) = s) (probes i skip (length es))))"
proof -
  obtain n slack where lp: "lp_ok n es" "lp = lp_bytes n es @ slack" using assms(1) by (auto simp: lp_rep_def)
  have "lp_search (map payload_string (drop i es)) s skip 0 i = find (\<lambda>j. map payload_string es ! j = s) (probes i skip (length es))"
  proof -
    have "i + 0 \<le> length es" "length es = length (map payload_string es)" using assms(2) by simp_all
    from lp_search_probes [OF this, of s skip] show ?thesis by (simp only: drop_map add_0_right)
  qed
  also have "\<dots> = find (\<lambda>j. payload_string (es ! j) = s) (probes i skip (length es))"
    by (rule find_cong) (auto simp: probes_def)
  finally show ?thesis using find_at [OF lp(1) assms(2), of slack s skip] lp(2) by simp
qed

theorem lpFind_first_witness:
  "lpFind [9, 0, 0, 0, 1, 0, 5, 1, 255] (Some (lp_off [[5]] 0)) [53] 1 =
    Some (map_option (lp_off [[5]]) (find (\<lambda>j. payload_string ([[5]] ! j) = [53]) (probes 0 1 (length [[5 :: byte]]))))"
  by (rule lpFind_first [OF example_rep]) simp

text \<open>
  \<^verbatim>\<open>lpSeek\<close> counts from the front for an index that is not negative and from the back for a
  negative one, in whichever direction it walks and whether or not the header knows the number of
  elements; the element it finds has the expected neighbours, and an index out of range gives a null
  pointer.
\<close>

theorem lpSeek_indexes:
  assumes "lp_rep lp es"
  shows "lpSeek lp idx = Some (lp_index es idx) \<and>
    (\<forall>i < length es. lpNext lp (lp_off es i) = Some (lp_at es (Suc i)) \<and>
      lpPrev lp (lp_off es i) = Some (if i = 0 then None else Some (lp_off es (i - 1)))) \<and>
    (\<exists>lp'. lpLength lp = Some (lp', length es) \<and> lp_rep lp' es)"
proof -
  obtain n slack where lp: "lp_ok n es" "lp = lp_bytes n es @ slack" using assms(1) by (auto simp: lp_rep_def)
  have "\<exists>lp'. lpLength lp = Some (lp', length es) \<and> lp_rep lp' es"
    using length_at [OF lp(1), of slack] lp(2) by (auto simp: lp_rep_def)
  then show ?thesis using seek_at [OF lp(1)] next_at(1) [OF lp(1)] prev_at [OF lp(1)] by (simp add: lp(2))
qed

theorem lpSeek_indexes_witness:
  "lpSeek [9, 0, 0, 0, 1, 0, 5, 1, 255] (- 1) = Some (lp_index [[5]] (- 1)) \<and>
    lpNext [9, 0, 0, 0, 1, 0, 5, 1, 255] (lp_off [[5]] 0) = Some (lp_at [[5]] (Suc 0)) \<and>
    lpPrev [9, 0, 0, 0, 1, 0, 5, 1, 255] (lp_off [[5]] 0) = Some None \<and>
    (\<exists>lp'. lpLength [9, 0, 0, 0, 1, 0, 5, 1, 255] = Some (lp', 1) \<and> lp_rep lp' [[5]])"
  using lpSeek_indexes [OF example_rep, of "- 1"] by simp

text \<open>
  \<^verbatim>\<open>lpDeleteRange\<close> cuts up to \<open>num\<close> elements from the index on out of the list, on each of its paths:
  the truncation at the end, the move of the tail, and nothing for an index out of range or \<open>num = 0\<close>.
\<close>

theorem lpDeleteRange_cuts:
  assumes "lp_rep lp es"
  shows "\<exists>lp'. lpDeleteRange lp idx num = Some lp' \<and> lp_rep lp' (cut_range idx num es)"
proof -
  obtain n slack where lp: "lp_ok n es" "lp = lp_bytes n es @ slack" using assms(1) by (auto simp: lp_rep_def)
  obtain n' slack' where "lpDeleteRange lp idx num = Some (lp_bytes n' (cut_range idx num es) @ slack')" "lp_ok n' (cut_range idx num es)"
    using delete_range_at [OF lp(1), of slack idx num] unfolding cut_range_def Let_def lp(2) by blast
  then show ?thesis by (auto simp: lp_rep_def)
qed

theorem lpDeleteRange_cuts_witness:
  "\<exists>lp'. lpDeleteRange [9, 0, 0, 0, 1, 0, 5, 1, 255] 0 1 = Some lp' \<and> lp_rep lp' (cut_range 0 1 [[5]])"
  by (rule lpDeleteRange_cuts [OF example_rep])

text \<open>
  \<^verbatim>\<open>lpMerge\<close> concatenates two well-formed listpacks, into the larger of the two; it stops with a
  failed assertion exactly when the sum of the sizes does not stay below \<^verbatim>\<open>UINT32_MAX\<close>.
\<close>

theorem lpMerge_concatenates:
  assumes "lp_rep lp1 es1" "lp_rep lp2 es2"
  shows "if lp_total (es1 @ es2) < UINT32_MAX
    then \<exists>lp. lpMerge junk (Some lp1) (Some lp2) = Some (Some (lp, lp_total es2 \<le> lp_total es1)) \<and> lp_rep lp (es1 @ es2)
    else lpMerge junk (Some lp1) (Some lp2) = None"
proof -
  obtain n1 s1 where lp1: "lp_ok n1 es1" "lp1 = lp_bytes n1 es1 @ s1" using assms(1) by (auto simp: lp_rep_def)
  obtain n2 s2 where lp2: "lp_ok n2 es2" "lp2 = lp_bytes n2 es2 @ s2" using assms(2) by (auto simp: lp_rep_def)
  obtain n where n: "lpMerge junk (Some lp1) (Some lp2) =
      (if lp_total (es1 @ es2) < UINT32_MAX then Some (Some (lp_bytes n (es1 @ es2), lp_total es1 \<ge> lp_total es2)) else None)"
    "lp_total (es1 @ es2) < UINT32_MAX \<longrightarrow> lp_ok n (es1 @ es2)"
    using merge_at [OF lp1(1) lp2(1), of junk s1 s2] lp1(2) lp2(2) by blast
  have "lp_rep (lp_bytes n (es1 @ es2)) (es1 @ es2)" if "lp_total (es1 @ es2) < UINT32_MAX"
    using n(2) that by (auto simp: lp_rep_def intro!: exI [of _ n] exI [of _ "[]"])
  then show ?thesis using n(1) by auto
qed

theorem lpMerge_concatenates_witness:
  "if lp_total ([[5]] @ [[5]]) < UINT32_MAX
    then \<exists>lp. lpMerge (\<lambda>_. 0) (Some [9, 0, 0, 0, 1, 0, 5, 1, 255]) (Some [9, 0, 0, 0, 1, 0, 5, 1, 255]) = Some (Some (lp, lp_total [[5]] \<le> lp_total [[5]])) \<and>
      lp_rep lp ([[5]] @ [[5]])
    else lpMerge (\<lambda>_. 0) (Some [9, 0, 0, 0, 1, 0, 5, 1, 255]) (Some [9, 0, 0, 0, 1, 0, 5, 1, 255]) = None"
  by (rule lpMerge_concatenates [OF example_rep example_rep])

text \<open>
  \<^verbatim>\<open>lpBatchAppend\<close> has the effect of appending its entries one after the other: unless the result
  would have more than \<^verbatim>\<open>UINT32_MAX\<close> bytes, in which case a null pointer is returned and the listpack is
  not changed, the elements of the new listpack are the old ones followed by the entries in order, and
  the pointer is the one to the last of them.
\<close>

theorem lpBatchAppend_appends:
  assumes "lp_rep lp es" "\<forall>e \<in> set ents. lpe_ok e" "ents \<noteq> []" "length (entries (map lpe_payload ents)) < 2 ^ 63"
  shows "let es' = es @ map lpe_payload ents in
    if lp_total es' > UINT32_MAX then lpBatchAppend junk lp ents = Some None
    else \<exists>lp'. lpBatchAppend junk lp ents = Some (Some (lp', Some (lp_off es' (length es' - 1)))) \<and> lp_rep lp' es' \<and>
      map payload_string es' = map payload_string es @ map lpe_string ents"
proof -
  obtain n slack where lp: "lp_ok n es" "lp = lp_bytes n es @ slack" using assms(1) by (auto simp: lp_rep_def)
  have "lpBatchAppend junk lp ents = lpBatchInsert junk (lp_bytes n es @ slack) (lp_off es (length es)) LP_BEFORE ents"
    using get_header(1) [OF lp(1), of slack] lp_total_pos [of es] by (simp add: lpBatchAppend_def lp(2) lp_off_simps)
  moreover have "map payload_string (map lpe_payload ents) = map lpe_string ents" using assms(2) lpe_payload_string by simp
  ultimately show ?thesis using batch_insert_at [OF lp(1) _ assms(2-4), of es "[]" junk slack]
    by (auto simp: lp_result_def Let_def)
qed

theorem lpBatchAppend_appends_witness:
  "let es' = [[5]] @ map lpe_payload [lpe_str [97], lpe_int 3] in
    if lp_total es' > UINT32_MAX then lpBatchAppend (\<lambda>_. 0) [9, 0, 0, 0, 1, 0, 5, 1, 255] [lpe_str [97], lpe_int 3] = Some None
    else \<exists>lp'. lpBatchAppend (\<lambda>_. 0) [9, 0, 0, 0, 1, 0, 5, 1, 255] [lpe_str [97], lpe_int 3] = Some (Some (lp', Some (lp_off es' (length es' - 1)))) \<and>
      lp_rep lp' es' \<and> map payload_string es' = map payload_string [[5]] @ map lpe_string [lpe_str [97], lpe_int 3]"
proof (rule lpBatchAppend_appends [OF example_rep])
  have "map lpe_payload [lpe_str [97], lpe_int 3] = [[129, 97], [3]]" by code_simp
  then show "length (entries (map lpe_payload [lpe_str [97], lpe_int 3])) < 2 ^ 63"
    by (simp add: lpEncodeBacklenBytes_def)
qed (simp_all add: in_sint_def)

section \<open>Reachable listpacks\<close>

text \<open>The listpacks a client can build: \<^verbatim>\<open>lpNew\<close>, and the editing operations at pointers \<^verbatim>\<open>lpSeek\<close> has returned.\<close>

inductive lp_reach :: "(nat \<Rightarrow> byte) \<Rightarrow> bytes \<Rightarrow> bool" for junk where
  new: "lpNew junk capacity = Some lp \<Longrightarrow> lp_reach junk lp"
| insert: "lp_reach junk lp \<Longrightarrow> lpSeek lp idx = Some (Some p) \<Longrightarrow> length s < 2 ^ 32 \<Longrightarrow>
    lpInsertString junk lp s p wh = Some (Some (lp', newp)) \<Longrightarrow> lp_reach junk lp'"
| insert_integer: "lp_reach junk lp \<Longrightarrow> lpSeek lp idx = Some (Some p) \<Longrightarrow> in_sint 64 v \<Longrightarrow>
    lpInsertInteger junk lp v p wh = Some (Some (lp', newp)) \<Longrightarrow> lp_reach junk lp'"
| append: "lp_reach junk lp \<Longrightarrow> length s < 2 ^ 32 \<Longrightarrow> lpAppend junk lp s = Some (Some (lp', newp)) \<Longrightarrow> lp_reach junk lp'"
| prepend: "lp_reach junk lp \<Longrightarrow> length s < 2 ^ 32 \<Longrightarrow> lpPrepend junk lp s = Some (Some (lp', newp)) \<Longrightarrow> lp_reach junk lp'"
| delete: "lp_reach junk lp \<Longrightarrow> lpSeek lp idx = Some (Some p) \<Longrightarrow>
    lpDelete junk lp p = Some (Some (lp', newp)) \<Longrightarrow> lp_reach junk lp'"
| delete_range: "lp_reach junk lp \<Longrightarrow> lpDeleteRange lp idx num = Some lp' \<Longrightarrow> lp_reach junk lp'"
| merge: "lp_reach junk lp1 \<Longrightarrow> lp_reach junk lp2 \<Longrightarrow>
    lpMerge junk (Some lp1) (Some lp2) = Some (Some (lp', app)) \<Longrightarrow> lp_reach junk lp'"
| length: "lp_reach junk lp \<Longrightarrow> lpLength lp = Some (lp', count) \<Longrightarrow> lp_reach junk lp'"

lemma seek_index:
  assumes "lp_ok n es" "lpSeek (lp_bytes n es @ slack) idx = Some (Some p)"
  obtains i where "i < length es" "p = lp_off es i"
proof -
  have "lp_index es idx = Some p" using seek_at [OF assms(1), of slack idx] assms(2) by simp
  then show ?thesis using that [of "nat (if idx < 0 then int (length es) + idx else idx)"]
    by (auto simp: lp_index_def Let_def split: if_splits)
qed

lemma result_rep: "lp_result r es ptr \<Longrightarrow> r = Some (Some (lp, newp)) \<Longrightarrow> lp_rep lp es"
  by (auto simp: lp_result_def split: if_splits)

lemma edit_at_index: "i < length es \<Longrightarrow> edit_at wh i es"
  by (cases wh) simp_all

lemma reach_rep: "lp_reach junk lp \<Longrightarrow> \<exists>es. lp_rep lp es"
proof (induction rule: lp_reach.induct)
  case (new capacity lp)
  then show ?case using new_at [of junk capacity] by auto
next
  case (insert lp idx p s wh lp' newp)
  then obtain n es slack where lp: "lp_ok n es" "lp = lp_bytes n es @ slack" by (auto simp: lp_rep_def)
  obtain i where i: "i < length es" "p = lp_off es i" using seek_index [OF lp(1)] insert.hyps(2) lp(2) by blast
  show ?case using result_rep [OF insert_string [OF lp(1) edit_at_index [OF i(1)] insert.hyps(3)]] insert.hyps(4)
    unfolding lpInsertString_def i(2) lp(2) by blast
next
  case (insert_integer lp idx p v wh lp' newp)
  then obtain n es slack where lp: "lp_ok n es" "lp = lp_bytes n es @ slack" by (auto simp: lp_rep_def)
  obtain i where i: "i < length es" "p = lp_off es i" using seek_index [OF lp(1)] insert_integer.hyps(2) lp(2) by blast
  have "ele_ok (lp_eleint (lpEncodeIntegerGetType v))" using insert_integer.hyps(3) by auto
  from result_rep [OF insert_edit [OF lp(1) edit_at_index [OF i(1)] this]] show ?case
    using insert_integer.hyps(4) unfolding lpInsertInteger_def i(2) lp(2) by blast
next
  case (append lp s lp' newp)
  then obtain n es slack where lp: "lp_ok n es" "lp = lp_bytes n es @ slack" by (auto simp: lp_rep_def)
  show ?case using result_rep [OF append_at [OF lp(1) append.hyps(2)]] append.hyps(3) unfolding lp(2) by blast
next
  case (prepend lp s lp' newp)
  then obtain n es slack where lp: "lp_ok n es" "lp = lp_bytes n es @ slack" by (auto simp: lp_rep_def)
  show ?case using result_rep [OF prepend_at [OF lp(1) prepend.hyps(2)]] prepend.hyps(3) unfolding lp(2) by blast
next
  case (delete lp idx p lp' newp)
  then obtain n es slack where lp: "lp_ok n es" "lp = lp_bytes n es @ slack" by (auto simp: lp_rep_def)
  obtain i where i: "i < length es" "p = lp_off es i" using seek_index [OF lp(1)] delete.hyps(2) lp(2) by blast
  show ?case using result_rep [OF delete_edit [OF lp(1) i(1)]] delete.hyps(3) unfolding lpDelete_def i(2) lp(2) by blast
next
  case (delete_range lp idx num lp')
  then obtain n es slack where lp: "lp_ok n es" "lp = lp_bytes n es @ slack" by (auto simp: lp_rep_def)
  obtain n' slack' es' where "lpDeleteRange lp idx num = Some (lp_bytes n' es' @ slack')" "lp_ok n' es'"
    using delete_range_at [OF lp(1), of slack idx num] lp(2) by blast
  then show ?case using delete_range.hyps(2) by (auto simp: lp_rep_def)
next
  case (merge lp1 lp2 lp' app)
  then obtain n1 es1 s1 n2 es2 s2 where lp: "lp_ok n1 es1" "lp1 = lp_bytes n1 es1 @ s1" "lp_ok n2 es2" "lp2 = lp_bytes n2 es2 @ s2"
    by (auto simp: lp_rep_def)
  obtain n where n: "lpMerge junk (Some lp1) (Some lp2) =
      (if lp_total (es1 @ es2) < UINT32_MAX then Some (Some (lp_bytes n (es1 @ es2), lp_total es1 \<ge> lp_total es2)) else None)"
    "lp_total (es1 @ es2) < UINT32_MAX \<longrightarrow> lp_ok n (es1 @ es2)"
    using merge_at [OF lp(1,3), of junk s1 s2] lp(2,4) by blast
  have "lp' = lp_bytes n (es1 @ es2)" "lp_ok n (es1 @ es2)" using n merge.hyps(3) by (auto split: if_splits)
  then have "lp_rep lp' (es1 @ es2)" unfolding lp_rep_def by (intro exI [of _ n] exI [of _ "[]"]) simp
  then show ?case by blast
next
  case (length lp lp' count)
  then obtain n es slack where lp: "lp_ok n es" "lp = lp_bytes n es @ slack" by (auto simp: lp_rep_def)
  then show ?case using length_at [OF lp(1), of slack] length.hyps(2) by (auto simp: lp_rep_def)
qed

text \<open>
  (C5) Every listpack that a client builds from \<^verbatim>\<open>lpNew\<close> with insertions of strings and integers,
  removals, merges and the cached counting of \<^verbatim>\<open>lpLength\<close> is well-formed, and the validation of dumps
  accepts it, deep or not.
\<close>

theorem listpack_reachable_valid:
  assumes "lp_reach junk lp"
  shows "\<exists>es. lp_rep lp es \<and> lpBytes lp = Some (lp_total es) \<and> lp_total es \<le> length lp \<and>
    lpValidateIntegrity lp (lp_total es) deep (\<lambda>_. True) = Some True"
proof -
  obtain es where es: "lp_rep lp es" using reach_rep [OF assms] by blast
  then obtain n slack where lp: "lp_ok n es" "lp = lp_bytes n es @ slack" by (auto simp: lp_rep_def)
  show ?thesis using es get_header(3) [OF lp(1), of slack] validate_at [OF lp(1), of "\<lambda>_. True" slack deep] lp(2)
    by (intro exI [of _ es]) simp
qed

theorem listpack_reachable_valid_witness:
  "\<exists>es. lp_rep [7, 0, 0, 0, 0, 0, 255] es \<and> lpBytes [7, 0, 0, 0, 0, 0, 255] = Some (lp_total es) \<and>
    lp_total es \<le> length [7, 0, 0, 0, 0, 0, 255 :: byte] \<and>
    lpValidateIntegrity [7, 0, 0, 0, 0, 0, 255] (lp_total es) True (\<lambda>_. True) = Some True"
proof (rule listpack_reachable_valid)
  have "lpNew (\<lambda>_. 0) 0 = Some [7, 0, 0, 0, 0, 0, 255]" by code_simp
  then show "lp_reach (\<lambda>_. 0) [7, 0, 0, 0, 0, 0, 255]" by (rule lp_reach.new)
qed

end
