(* ===== verification/Glob.thy ===== *)
theory Glob
  imports Prelude "HOL-Library.Sublist" "HOL-Library.Monad_Syntax"
begin

text \<open>
  Glob-style pattern matching of \<^verbatim>\<open>util.c\<close>. A pattern is the list of its \<^verbatim>\<open>patternLen\<close> bytes; \<open>behind\<close>
  is the byte in memory behind it, which \<^verbatim>\<open>stringmatchlen_impl\<close> reads, or \<open>None\<close> when there is none.
  \<open>None\<close> as a result is an access outside the pattern.
\<close>

section \<open>Model\<close>

text \<open>A \<^verbatim>\<open>char\<close> is signed; \<^verbatim>\<open>tolower\<close> of the C locale changes the letters only.\<close>

definition char_int :: "byte \<Rightarrow> int" where
  "char_int b = (if uint b < 128 then uint b else uint b - 256)"

definition tolower :: "int \<Rightarrow> int" where
  "tolower c = (if 65 \<le> c \<and> c \<le> 90 then c + 32 else c)"

definition same_char :: "bool \<Rightarrow> byte \<Rightarrow> byte \<Rightarrow> bool" where
  "same_char nocase p c = (if \<not> nocase then p = c else tolower (char_int p) = tolower (char_int c))"

definition in_range :: "bool \<Rightarrow> byte \<Rightarrow> byte \<Rightarrow> byte \<Rightarrow> bool" where
  "in_range nocase p q x =
     (let start = char_int p; last = char_int q; c = char_int x;
          (start, last) = (if start > last then (last, start) else (start, last));
          (start, last, c) = (if nocase then (tolower start, tolower last, tolower c) else (start, last, c))
      in c \<ge> start \<and> c \<le> last)"

text \<open>
  The loop over a class; the result is whether the byte is in it, and the pattern from the closing
  bracket on. An unterminated class ends with the pattern: the loop then steps back to its last byte,
  which the caller steps over, so that the rest is empty in both cases.
\<close>

function class_loop :: "bool \<Rightarrow> bytes \<Rightarrow> byte \<Rightarrow> bool \<Rightarrow> bool \<times> bytes" where
  "class_loop nocase pat c match =
     (if length pat \<ge> 2 \<and> pat ! 0 = 92 then class_loop nocase (drop 2 pat) c (match \<or> pat ! 1 = c)
      else if pat = [] then (match, [])
      else if pat ! 0 = 93 then (match, drop 1 pat)
      else if length pat \<ge> 3 \<and> pat ! 1 = 45
        then class_loop nocase (drop 3 pat) c (match \<or> in_range nocase (pat ! 0) (pat ! 2) c)
      else class_loop nocase (drop 1 pat) c (match \<or> same_char nocase (pat ! 0) c))"
  by pat_completeness auto
termination by (relation "measure (\<lambda>(nocase, pat, c, match). length pat)") (auto simp: diff_less)

declare class_loop.simps [simp del]

text \<open>The loop that skips repeated stars; it compares \<^verbatim>\<open>pattern[1]\<close>, which lies behind a pattern of one byte.\<close>

fun skip_stars :: "byte option \<Rightarrow> bytes \<Rightarrow> bytes option" where
  "skip_stars behind [] = None"
| "skip_stars behind [s] = (case behind of None \<Rightarrow> None | Some b \<Rightarrow> if b = 42 then None else Some [s])"
| "skip_stars behind (s # t # pat) = (if t = 42 then skip_stars behind (t # pat) else Some (s # t # pat))"

lemma length_skip_stars: "skip_stars behind pat = Some pat' \<Longrightarrow> pat' \<noteq> [] \<and> length pat' \<le> length pat"
  by (induction behind pat rule: skip_stars.induct) (auto split: option.splits if_splits)

lemma length_class_loop: "length (snd (class_loop nocase pat c m)) \<le> length pat"
proof (induction nocase pat c m rule: class_loop.induct)
  case (1 nocase pat c m)
  then show ?case by (subst class_loop.simps) (auto simp: Let_def)
qed

text \<open>The cases of the switch that consume one byte \<open>c\<close> of the string: whether it matches, and the rest of the pattern.\<close>

definition match_one :: "bool \<Rightarrow> byte \<Rightarrow> bytes \<Rightarrow> byte \<Rightarrow> bool \<times> bytes" where
  "match_one nocase p pat c =
     (if p = 63 then (True, pat)
      else if p = 91 then
        (let not = (pat \<noteq> [] \<and> pat ! 0 = 94);
             (match, rest) = class_loop nocase (if not then drop 1 pat else pat) c False
         in (if not then \<not> match else match, rest))
      else if p = 92 \<and> pat \<noteq> [] then (same_char nocase (pat ! 0) c, drop 1 pat)
      else (same_char nocase p c, pat))"

lemma length_match_one: "match_one nocase p pat c = (m, rest) \<Longrightarrow> length rest \<le> length pat"
  using length_class_loop [of nocase "drop 1 pat" c False] length_class_loop [of nocase pat c False]
  by (cases "class_loop nocase (drop 1 pat) c False"; cases "class_loop nocase pat c False")
    (auto simp: match_one_def Let_def split: if_splits)

text \<open>
  \<^verbatim>\<open>stringmatchlen_impl\<close>, its main loop, and the loop that tries the rest of the pattern behind a star at
  every position. The second component of the result is \<^verbatim>\<open>*skipLongerMatches\<close>.
\<close>

function (sequential) stringmatchlen_impl ::
    "bool \<Rightarrow> byte option \<Rightarrow> bytes \<Rightarrow> bytes \<Rightarrow> bool \<Rightarrow> nat \<Rightarrow> (bool \<times> bool) option"
  and match_loop :: "bool \<Rightarrow> byte option \<Rightarrow> bytes \<Rightarrow> bytes \<Rightarrow> bool \<Rightarrow> nat \<Rightarrow> (bool \<times> bool) option"
  and star_loop :: "bool \<Rightarrow> byte option \<Rightarrow> bytes \<Rightarrow> bytes \<Rightarrow> bool \<Rightarrow> nat \<Rightarrow> (bool \<times> bool) option"
  where
  "stringmatchlen_impl nocase behind pat str skip nesting =
     (if nesting > 1000 then Some (False, skip) else match_loop nocase behind pat str skip nesting)"
| "match_loop nocase behind pat [] skip nesting = Some (pat = [], skip)"
| "match_loop nocase behind [] (c # str) skip nesting = Some (False, skip)"
| "match_loop nocase behind (p # pat) (c # str) skip nesting =
     (if p = 42 then
        (case skip_stars behind (p # pat) of
           None \<Rightarrow> None
         | Some pat' \<Rightarrow>
             if length pat' = 1 then Some (True, skip)
             else star_loop nocase behind (drop 1 pat') (c # str) skip nesting)
      else
        (case match_one nocase p pat c of (matches, rest) \<Rightarrow>
           if \<not> matches then Some (False, skip)
           else if str = [] then Some (dropWhile (\<lambda>b. b = 42) rest = [], skip)
           else match_loop nocase behind rest str skip nesting))"
| "star_loop nocase behind pat [] skip nesting = Some (False, True)"
| "star_loop nocase behind pat (c # str) skip nesting = do {
     (r, skip') \<leftarrow> stringmatchlen_impl nocase behind pat (c # str) skip (nesting + 1);
     if r then Some (True, skip')
     else if skip' then Some (False, skip')
     else star_loop nocase behind pat str skip' nesting
   }"
  by pat_completeness auto
termination
proof (relation "measures [(\<lambda>x. case x of Inl (_, _, pat, _) \<Rightarrow> length pat | Inr (Inl (_, _, pat, _)) \<Rightarrow> length pat
      | Inr (Inr (_, _, pat, _)) \<Rightarrow> length pat),
    (\<lambda>x. case x of Inl (_, _, _, str, _) \<Rightarrow> length str | Inr (Inl (_, _, _, str, _)) \<Rightarrow> length str
      | Inr (Inr (_, _, _, str, _)) \<Rightarrow> length str),
    (\<lambda>x. case x of Inl _ \<Rightarrow> 1 | Inr (Inl _) \<Rightarrow> 0 | Inr (Inr _) \<Rightarrow> 2)]", goal_cases)
qed (auto dest!: length_skip_stars length_match_one [OF sym])

declare stringmatchlen_impl.simps [simp del] match_loop.simps [simp del] star_loop.simps [simp del]

definition stringmatchlen :: "bool \<Rightarrow> byte option \<Rightarrow> bytes \<Rightarrow> bytes \<Rightarrow> bool option" where
  "stringmatchlen nocase behind pat str = map_option fst (stringmatchlen_impl nocase behind pat str False 0)"

text \<open>The backslashes before the last byte, counted from the right.\<close>

definition backslash_count :: "bytes \<Rightarrow> nat" where
  "backslash_count pat = length (takeWhile (\<lambda>b. b = 92) (rev (butlast pat)))"

definition prefixmatch :: "bool \<Rightarrow> byte option \<Rightarrow> bytes \<Rightarrow> bytes \<Rightarrow> bool option" where
  "prefixmatch nocase behind pat prefixStr = do {
     (r, _) \<leftarrow> stringmatchlen_impl nocase behind pat prefixStr False 0;
     Some (if \<not> r then False
           else if pat = [] \<or> last pat \<noteq> 42 then False
           else backslash_count pat mod 2 = 0)
   }"

section \<open>Reference\<close>

text \<open>A pattern as a sequence of tokens, each but the star standing for one byte of the string.\<close>

datatype class_item = Escaped byte | Between byte byte | Single byte
datatype token = Star | AnyByte | Class bool "class_item list" | Literal byte

fun item_matches :: "bool \<Rightarrow> class_item \<Rightarrow> byte \<Rightarrow> bool" where
  "item_matches nocase (Escaped p) c \<longleftrightarrow> p = c"
| "item_matches nocase (Between p q) c \<longleftrightarrow> in_range nocase p q c"
| "item_matches nocase (Single p) c \<longleftrightarrow> same_char nocase p c"

fun token_matches :: "bool \<Rightarrow> token \<Rightarrow> byte \<Rightarrow> bool" where
  "token_matches nocase Star c \<longleftrightarrow> False"
| "token_matches nocase AnyByte c \<longleftrightarrow> True"
| "token_matches nocase (Class neg items) c \<longleftrightarrow> (neg \<noteq> (\<exists>i \<in> set items. item_matches nocase i c))"
| "token_matches nocase (Literal p) c \<longleftrightarrow> same_char nocase p c"

fun parse_class :: "bytes \<Rightarrow> class_item list \<times> bytes" where
  "parse_class [] = ([], [])"
| "parse_class (p # pat) =
     (if p = 92 \<and> pat \<noteq> [] then (let (is, r) = parse_class (tl pat) in (Escaped (hd pat) # is, r))
      else if p = 93 then ([], pat)
      else if length pat \<ge> 2 \<and> pat ! 0 = 45 then (let (is, r) = parse_class (drop 2 pat) in (Between p (pat ! 1) # is, r))
      else (let (is, r) = parse_class pat in (Single p # is, r)))"

lemma length_parse_class: "length (snd (parse_class pat)) \<le> length pat"
  by (induction pat rule: parse_class.induct) (auto simp: Let_def case_prod_beta)

definition parse_one :: "byte \<Rightarrow> bytes \<Rightarrow> token \<times> bytes" where
  "parse_one p pat =
     (if p = 42 then (Star, pat)
      else if p = 63 then (AnyByte, pat)
      else if p = 91 then
        (let neg = (pat \<noteq> [] \<and> hd pat = 94); (is, r) = parse_class (if neg then tl pat else pat) in (Class neg is, r))
      else if p = 92 \<and> pat \<noteq> [] then (Literal (hd pat), tl pat)
      else (Literal p, pat))"

lemma length_parse_one: "parse_one p pat = (tok, rest) \<Longrightarrow> length rest \<le> length pat"
  using length_parse_class [of "tl pat"] length_parse_class [of pat]
  by (cases "parse_class (tl pat)"; cases "parse_class pat") (auto simp: parse_one_def Let_def split: if_splits)

function parse_glob :: "bytes \<Rightarrow> token list" where
  "parse_glob [] = []"
| "parse_glob (p # pat) = (case parse_one p pat of (tok, rest) \<Rightarrow> tok # parse_glob rest)"
  by pat_completeness auto
termination by (relation "measure length") (auto dest!: length_parse_one [OF sym])

text \<open>The strings a sequence of tokens stands for: a star stands for any number of bytes.\<close>

fun glob :: "bool \<Rightarrow> token list \<Rightarrow> bytes \<Rightarrow> bool" where
  "glob nocase [] str \<longleftrightarrow> str = []"
| "glob nocase (Star # ts) str \<longleftrightarrow> list_ex (\<lambda>k. glob nocase ts (drop k str)) [0..<Suc (length str)]"
| "glob nocase (t # ts) [] \<longleftrightarrow> False"
| "glob nocase (t # ts) (c # str) \<longleftrightarrow> token_matches nocase t c \<and> glob nocase ts str"

section \<open>The parser agrees with the loops\<close>

lemma class_parse:
  "class_loop nocase pat c m =
    (m \<or> (\<exists>i \<in> set (fst (parse_class pat)). item_matches nocase i c), snd (parse_class pat))"
proof (induction pat arbitrary: m rule: parse_class.induct)
  case 1
  then show ?case by (simp add: class_loop.simps)
next
  case (2 p pat)
  consider (esc) "p = 92" "pat \<noteq> []" | (close) "\<not> (p = 92 \<and> pat \<noteq> [])" "p = 93"
    | (range) "\<not> (p = 92 \<and> pat \<noteq> [])" "p \<noteq> 93" "length pat \<ge> 2" "pat ! 0 = 45"
    | (single) "\<not> (p = 92 \<and> pat \<noteq> [])" "p \<noteq> 93" "\<not> (length pat \<ge> 2 \<and> pat ! 0 = 45)" by blast
  then show ?case
  proof cases
    case esc
    then obtain q r where "pat = q # r" by (cases pat) auto
    then show ?thesis using esc 2(1) [of "m \<or> q = c"] by (subst class_loop.simps) (auto simp: Let_def case_prod_beta)
  next
    case close
    then show ?thesis by (subst class_loop.simps) (cases pat; simp)
  next
    case range
    then show ?thesis using 2(2) [of "m \<or> in_range nocase p (pat ! 1) c"]
      by (subst class_loop.simps) (auto simp: Let_def case_prod_beta numeral_3_eq_3 numeral_2_eq_2)
  next
    case single
    then show ?thesis using 2(3) [of "m \<or> same_char nocase p c"]
      by (subst class_loop.simps) (cases pat; auto simp: Let_def case_prod_beta)
  qed
qed

lemma one_parse:
  assumes "p \<noteq> 42" "parse_one p pat = (tok, rest)"
  shows "match_one nocase p pat c = (token_matches nocase tok c, rest)" "tok \<noteq> Star"
  using assms by (auto simp: match_one_def parse_one_def Let_def class_parse case_prod_beta hd_conv_nth drop_Suc split: if_splits)

lemma skip_stars_ok: "b \<noteq> 42 \<Longrightarrow> skip_stars (Some b) (42 # pat) = Some (42 # dropWhile (\<lambda>b. b = 42) pat)"
  by (induction pat) auto

lemma parse_star: "parse_glob (42 # pat) = Star # parse_glob pat"
  by (simp add: parse_one_def)

lemma glob_Star: "glob nocase (Star # ts) str \<longleftrightarrow> (\<exists>k \<le> length str. glob nocase ts (drop k str))"
  by (auto simp: list_ex_iff less_Suc_eq_le simp del: upt_Suc)

declare glob.simps(2) [simp del]

lemma glob_Star_Star: "glob nocase (Star # Star # ts) str \<longleftrightarrow> glob nocase (Star # ts) str"
proof
  assume "glob nocase (Star # Star # ts) str"
  then obtain j k where "k \<le> length str" "j \<le> length str - k" "glob nocase ts (drop j (drop k str))"
    by (auto simp: glob_Star)
  then show "glob nocase (Star # ts) str" unfolding glob_Star by (intro exI [of _ "j + k"]) (simp add: add.commute)
next
  assume "glob nocase (Star # ts) str"
  then show "glob nocase (Star # Star # ts) str" unfolding glob_Star [of _ "Star # ts"] by (intro exI [of _ 0]) simp
qed

lemma glob_skip_stars: "glob nocase (Star # parse_glob (dropWhile (\<lambda>b. b = 42) pat)) str \<longleftrightarrow> glob nocase (Star # parse_glob pat) str"
  by (induction pat) (simp_all add: parse_star glob_Star_Star del: parse_glob.simps(2))

lemma glob_Nil: "glob nocase (parse_glob pat) [] \<longleftrightarrow> dropWhile (\<lambda>b. b = 42) pat = []"
proof (induction pat)
  case (Cons p pat)
  show ?case
  proof (cases "p = 42")
    case True
    then show ?thesis using Cons by (simp add: parse_star glob_Star del: parse_glob.simps(2))
  next
    case False
    obtain tok rest where o: "parse_one p pat = (tok, rest)" by fastforce
    then show ?thesis using one_parse(2) [OF False o] False by (cases tok) simp_all
  qed
qed simp

lemma glob_Cons: "tok \<noteq> Star \<Longrightarrow> glob nocase (tok # ts) str \<longleftrightarrow> str \<noteq> [] \<and> token_matches nocase tok (hd str) \<and> glob nocase ts (tl str)"
  by (cases str; cases tok) simp_all

definition stars :: "token list \<Rightarrow> nat" where
  "stars ts = length (filter (\<lambda>t. t = Star) ts)"

lemma stars_skip: "stars (parse_glob (dropWhile (\<lambda>b. b = 42) pat)) \<le> stars (parse_glob pat)"
  by (induction pat) (simp_all add: parse_star stars_def del: parse_glob.simps(2))

section \<open>The search agrees with the reference\<close>

text \<open>
  The outcome of a search that started with \<^verbatim>\<open>skipLongerMatches\<close> unset: the right answer, and the flag
  is set only when the rest of the pattern matches no suffix of the string.
\<close>

definition sound :: "bool \<Rightarrow> token list \<Rightarrow> bytes \<Rightarrow> (bool \<times> bool) option \<Rightarrow> bool" where
  "sound nocase ts str res \<longleftrightarrow> (\<exists>s. res = Some (glob nocase ts str, s) \<and>
     (s \<longrightarrow> (\<forall>k \<le> length str. \<not> glob nocase ts (drop k str))))"

lemma sound_step:
  assumes "tok \<noteq> Star" "token_matches nocase tok c" "sound nocase ts str res"
  shows "sound nocase (tok # ts) (c # str) res"
proof -
  obtain s where s: "res = Some (glob nocase ts str, s)" "s \<longrightarrow> (\<forall>k \<le> length str. \<not> glob nocase ts (drop k str))"
    using assms(3) by (auto simp: sound_def)
  have "\<not> glob nocase (tok # ts) (drop k (c # str))" if "s" "k \<le> length (c # str)" for k
  proof (cases "k < length (c # str)")
    case True
    then have "tl (drop k (c # str)) = drop k str" by (simp add: tl_drop drop_Suc [symmetric] flip: drop_tl)
    then show ?thesis using s(2) that True glob_Cons [OF assms(1)] by (auto simp: less_Suc_eq_le)
  qed (use glob_Cons [OF assms(1)] in simp)
  then show ?thesis using s(1) assms(1,2) glob_Cons [of tok nocase ts "c # str"] by (auto simp: sound_def)
qed

lemma sound_done: "glob nocase ts str = r \<Longrightarrow> sound nocase ts str (Some (r, False))"
  unfolding sound_def by (intro exI [of _ False]) simp

lemma search_sound:
  fixes b :: byte
  assumes b: "b \<noteq> 42"
  shows "behind = Some b \<Longrightarrow> \<not> skip \<Longrightarrow> str \<noteq> [] \<Longrightarrow> nesting + stars (parse_glob pat) \<le> 1000 \<Longrightarrow>
      sound nocase (parse_glob pat) str (stringmatchlen_impl nocase behind pat str skip nesting)"
    and "behind = Some b \<Longrightarrow> \<not> skip \<Longrightarrow> str \<noteq> [] \<Longrightarrow> nesting + stars (parse_glob pat) \<le> 1000 \<Longrightarrow>
      sound nocase (parse_glob pat) str (match_loop nocase behind pat str skip nesting)"
    and "behind = Some b \<Longrightarrow> \<not> skip \<Longrightarrow> pat \<noteq> [] \<Longrightarrow> hd pat \<noteq> 42 \<Longrightarrow> Suc nesting + stars (parse_glob pat) \<le> 1000 \<Longrightarrow>
      \<exists>s. star_loop nocase behind pat str skip nesting = Some (\<not> s, s) \<and> (s \<longleftrightarrow> (\<forall>k \<le> length str. \<not> glob nocase (parse_glob pat) (drop k str)))"
proof (induction nocase behind pat str skip nesting and nocase behind pat str skip nesting and nocase behind pat str skip nesting
    rule: stringmatchlen_impl_match_loop_star_loop.induct)
  case (1 nocase behind pat str skip nesting)
  then show ?case by (simp add: stringmatchlen_impl.simps)
next
  case (2 nocase behind pat skip nesting)
  then show ?case by simp
next
  case (3 nocase behind c str skip nesting)
  then show ?case by (simp add: match_loop.simps sound_done)
next
  case (4 nocase behind p pat c str skip nesting)
  show ?case
  proof (cases "p = 42")
    case True
    define rest where "rest = dropWhile (\<lambda>b. b = 42) pat"
    have sk: "skip_stars behind (p # pat) = Some (42 # rest)" using skip_stars_ok [OF b, of pat] 4(3) True by (simp add: rest_def)
    have ts: "parse_glob (p # pat) = Star # parse_glob pat" using True by (simp add: parse_star del: parse_glob.simps(2))
    have eq: "glob nocase (parse_glob (p # pat)) s \<longleftrightarrow> glob nocase (Star # parse_glob rest) s" for s
      unfolding ts rest_def glob_skip_stars ..
    show ?thesis
    proof (cases "rest = []")
      case True
      have "glob nocase (parse_glob (p # pat)) (c # str)"
        unfolding eq glob_Star using True by (intro exI [of _ "length (c # str)"]) simp
      then show ?thesis using sk \<open>p = 42\<close> True 4(4) by (simp add: match_loop.simps sound_done del: parse_glob.simps(2))
    next
      case False
      have "hd rest \<noteq> 42" using hd_dropWhile [of "\<lambda>b. b = 42" pat] False by (simp add: rest_def)
      moreover have "Suc nesting + stars (parse_glob rest) \<le> 1000"
        using 4(6) stars_skip [of pat] unfolding ts by (simp add: stars_def rest_def)
      ultimately obtain s where s: "star_loop nocase behind rest (c # str) skip nesting = Some (\<not> s, s)"
        "s \<longleftrightarrow> (\<forall>k \<le> length (c # str). \<not> glob nocase (parse_glob rest) (drop k (c # str)))"
        using 4(1) [OF True sk] False 4(3,4) by auto
      have g: "glob nocase (parse_glob (p # pat)) (drop k (c # str)) \<Longrightarrow> k \<le> length (c # str) \<Longrightarrow> \<not> s" for k
      proof -
        assume "glob nocase (parse_glob (p # pat)) (drop k (c # str))" "k \<le> length (c # str)"
        then obtain j where "j \<le> length (drop k (c # str))" "glob nocase (parse_glob rest) (drop j (drop k (c # str)))"
          unfolding eq glob_Star by blast
        then have "j + k \<le> length (c # str)" "glob nocase (parse_glob rest) (drop (j + k) (c # str))"
          using \<open>k \<le> length (c # str)\<close> by (simp_all add: add.commute)
        then show "\<not> s" using s(2) by blast
      qed
      have "glob nocase (parse_glob (p # pat)) (c # str) \<longleftrightarrow> \<not> s" unfolding eq glob_Star using s(2) by blast
      then show ?thesis using sk s(1) g True False
        by (auto simp: match_loop.simps sound_def simp del: parse_glob.simps(2))
    qed
  next
    case False
    obtain tok rest where o: "parse_one p pat = (tok, rest)" by fastforce
    note m = one_parse [OF False o]
    have ts: "parse_glob (p # pat) = tok # parse_glob rest" using o by simp
    show ?thesis
    proof (cases "token_matches nocase tok c")
      case no: False
      then have "\<not> glob nocase (parse_glob (p # pat)) (c # str)" unfolding ts glob_Cons [OF m(2)] by simp
      then show ?thesis using False m(1) no 4(4)
        by (simp add: match_loop.simps sound_done del: parse_glob.simps(2))
    next
      case yes: True
      have "sound nocase (parse_glob rest) str
          (if str = [] then Some (dropWhile (\<lambda>b. b = 42) rest = [], skip) else match_loop nocase behind rest str skip nesting)"
      proof (cases "str = []")
        case True
        then show ?thesis using 4(4) glob_Nil [of nocase rest] by (simp add: sound_done)
      next
        case str: False
        have "nesting + stars (parse_glob rest) \<le> 1000" using 4(6) m(2) unfolding ts by (simp add: stars_def)
        then show ?thesis using 4(2) [OF False m(1) [symmetric] _ str] yes str 4(3,4) by simp
      qed
      from sound_step [OF m(2) yes this] show ?thesis
        using False m(1) yes unfolding ts by (simp add: match_loop.simps)
    qed
  qed
next
  case (5 nocase behind pat skip nesting)
  then have "star_loop nocase behind pat [] skip nesting = Some (\<not> True, True)" "\<not> glob nocase (parse_glob pat) []"
    by (cases pat; simp add: star_loop.simps glob_Nil del: parse_glob.simps(2))+
  then show ?case by auto
next
  case (6 nocase behind pat c str skip nesting)
  have "sound nocase (parse_glob pat) (c # str) (stringmatchlen_impl nocase behind pat (c # str) skip (nesting + 1))"
    using 6 by simp
  then obtain s where s: "stringmatchlen_impl nocase behind pat (c # str) skip (nesting + 1) = Some (glob nocase (parse_glob pat) (c # str), s)"
    "s \<longrightarrow> (\<forall>k \<le> length (c # str). \<not> glob nocase (parse_glob pat) (drop k (c # str)))" by (auto simp: sound_def)
  show ?case
  proof (cases "glob nocase (parse_glob pat) (c # str)")
    case True
    then have "\<not> s" using s(2) by (metis drop_0 le0)
    then show ?thesis using s(1) True by (intro exI [of _ False]) (auto simp: star_loop.simps intro!: exI [of _ 0])
  next
    case False
    show ?thesis
    proof (cases s)
      case True
      then show ?thesis using s False by (intro exI [of _ True]) (simp add: star_loop.simps)
    next
      case no: False
      have all: "(\<forall>k \<le> length (c # str). \<not> glob nocase (parse_glob pat) (drop k (c # str))) \<longleftrightarrow>
          (\<forall>k \<le> length str. \<not> glob nocase (parse_glob pat) (drop k str))"
      proof (intro iffI allI impI)
        fix k assume "\<forall>k \<le> length (c # str). \<not> glob nocase (parse_glob pat) (drop k (c # str))" "k \<le> length str"
        then show "\<not> glob nocase (parse_glob pat) (drop k str)" by (metis Suc_le_mono drop_Suc_Cons length_Cons)
      next
        fix k assume "\<forall>k \<le> length str. \<not> glob nocase (parse_glob pat) (drop k str)" "k \<le> length (c # str)"
        then show "\<not> glob nocase (parse_glob pat) (drop k (c # str))" using False by (cases k) auto
      qed
      show ?thesis unfolding all using s(1) False no 6(2) [OF s(1)] 6(3-7) by (simp add: star_loop.simps)
    qed
  qed
qed

lemma search_Nil: "stringmatchlen_impl nocase behind pat [] skip 0 = Some (pat = [], skip)"
  by (simp add: stringmatchlen_impl.simps match_loop.simps)

lemma search_top:
  assumes "b \<noteq> 42" "stars (parse_glob pat) \<le> 1000" "str \<noteq> []"
  shows "\<exists>s. stringmatchlen_impl nocase (Some b) pat str False 0 = Some (glob nocase (parse_glob pat) str, s)"
  using search_sound(1) [OF assms(1), of "Some b" False str 0 pat nocase] assms(2,3) by (auto simp: sound_def)

section \<open>Properties\<close>

text \<open>
  (C27) For every pattern with at most 1000 stars that is not followed by a star in memory, the matcher
  with its early termination agrees with the reference semantics of globs on every string that is not
  empty; an empty string is matched by the empty pattern only, so that \<^verbatim>\<open>*\<close> does not match it.
\<close>

theorem stringmatchlen_globs:
  assumes "b \<noteq> 42" "stars (parse_glob pat) \<le> 1000"
  shows "stringmatchlen nocase (Some b) pat str =
    Some (if str = [] then pat = [] else glob nocase (parse_glob pat) str)"
  using search_top [OF assms, of str nocase] search_Nil [of nocase "Some b" pat False]
  by (auto simp: stringmatchlen_def)

theorem stringmatchlen_globs_witness:
  "stringmatchlen False (Some 0) [97, 42, 91, 48, 45, 57, 93] [97, 98, 55] = Some True"
proof -
  have "parse_glob [97, 42, 91, 48, 45, 57, 93] = [Literal 97, Star, Class False [Between 48 57]]" by code_simp
  moreover have "glob False [Literal 97, Star, Class False [Between 48 57]] [97, 98, 55]" by code_simp
  ultimately show ?thesis
    using stringmatchlen_globs [of 0 "[97, 42, 91, 48, 45, 57, 93]" False "[97, 98, 55]"] by (simp add: stars_def)
qed

lemma glob_append: "glob nocase (ts @ [Star]) str \<Longrightarrow> glob nocase (ts @ [Star]) (str @ more)"
proof (induction ts arbitrary: str)
  case Nil
  show ?case unfolding append_Nil glob_Star by (intro exI [of _ "length (str @ more)"]) simp
next
  case (Cons tok ts)
  show ?case
  proof (cases "tok = Star")
    case True
    then obtain k where "k \<le> length str" "glob nocase (ts @ [Star]) (drop k str)" using Cons.prems by (auto simp: glob_Star)
    then show ?thesis using Cons.IH [of "drop k str"] True
      by (auto simp: glob_Star intro!: exI [of _ k])
  next
    case False
    then show ?thesis using Cons glob_Cons [OF False] by auto
  qed
qed

text \<open>
  When \<^verbatim>\<open>prefixmatch\<close> accepts a prefix for a pattern whose last token is a star, the pattern matches
  every string that begins with the prefix.
\<close>

theorem prefixmatch_covers:
  assumes "b \<noteq> 42" "stars (parse_glob pat) \<le> 1000" "parse_glob pat \<noteq> []" "last (parse_glob pat) = Star"
    "prefixmatch nocase (Some b) pat prefixStr = Some True"
  shows "stringmatchlen nocase (Some b) pat (prefixStr @ more) = Some True"
proof -
  obtain ts where ts: "parse_glob pat = ts @ [Star]" using assms(3,4) by (metis append_butlast_last_id)
  have ne: "prefixStr \<noteq> []" using assms(5) search_Nil [of nocase "Some b" pat False]
    by (auto simp: prefixmatch_def split: if_splits)
  then have "glob nocase (parse_glob pat) prefixStr"
    using search_top [OF assms(1,2) ne, of nocase] assms(5) by (auto simp: prefixmatch_def split: if_splits)
  then have "glob nocase (parse_glob pat) (prefixStr @ more)" unfolding ts by (rule glob_append)
  then show ?thesis using search_top [OF assms(1,2), of "prefixStr @ more" nocase] ne by (auto simp: stringmatchlen_def)
qed

theorem prefixmatch_covers_witness:
  "stringmatchlen False (Some 0) [97, 42] ([97] @ [98]) = Some True"
proof (rule prefixmatch_covers)
  show "prefixmatch False (Some 0) [97, 42] [97] = Some True" by code_simp
qed (simp_all add: parse_one_def stars_def)

text \<open>A class without escapes, ranges and a closing bracket is read to the end of the pattern.\<close>

lemma class_loop_open:
  "set v \<inter> {45, 92, 93} = {} \<Longrightarrow> class_loop nocase v c m = (m \<or> (\<exists>x \<in> set v. same_char nocase x c), [])"
proof (induction v arbitrary: m)
  case Nil
  show ?case by (simp add: class_loop.simps)
next
  case (Cons x v)
  have "class_loop nocase (x # v) c m = class_loop nocase v c (m \<or> same_char nocase x c)"
    using Cons.prems by (subst class_loop.simps) (cases v; auto)
  then show ?case using Cons by auto
qed

text \<open>
  Without that condition the answer is wrong. If a pattern is an unterminated class of bytes without escapes, ranges and negation that ends in a star, the star is a
  member of the class. For every byte of the class \<^verbatim>\<open>prefixmatch\<close> accepts it as a prefix, with and without regard to case, although the pattern matches no longer string that begins with it.
\<close>

theorem prefixmatch_unterminated_class:
  assumes "set w \<inter> {45, 92, 93} = {}" and "hd w \<noteq> 94" and "c \<in> set w"
  shows "prefixmatch nocase behind (91 # w @ [42]) [c] = Some True \<and>
    stringmatchlen nocase behind (91 # w @ [42]) (c # d # more) = Some False"
proof -
  have "class_loop nocase (w @ [42]) c False = (\<exists>x \<in> set (w @ [42]). same_char nocase x c, [])"
    using class_loop_open [of "w @ [42]" nocase c False] assms(1) by simp
  moreover have "same_char nocase c c" by (simp add: same_char_def)
  ultimately have "class_loop nocase (w @ [42]) c False = (True, [])" using assms(3) by auto
  moreover have "(w @ [42]) ! 0 \<noteq> 94" using assms(2,3) by (cases w) auto
  ultimately have one: "match_one nocase 91 (w @ [42]) c = (True, [])" by (simp add: match_one_def)
  have "last w \<noteq> 92" "w \<noteq> []" using assms(1,3) by (metis disjoint_iff empty_iff insertCI last_in_set list.set(1))+
  then have "backslash_count (91 # w @ [42]) = 0" by (cases w rule: rev_cases) (simp_all add: backslash_count_def butlast_append)
  then show ?thesis using one
    by (simp add: prefixmatch_def stringmatchlen_def stringmatchlen_impl.simps match_loop.simps)
qed

theorem prefixmatch_unterminated_class_witness:
  "prefixmatch False (Some 0) [91, 97, 42] [97] = Some True \<and> stringmatchlen False (Some 0) [91, 97, 42] [97, 98] = Some False"
  using prefixmatch_unterminated_class [of "[97]" 97 False "Some 0" 98 "[]"] by simp

text \<open>A star that ends the pattern makes the matcher look at the byte behind it, and leave the pattern when that is a star too.\<close>

lemma stringmatchlen_reads_behind:
  "stringmatchlen nocase None [42] (c # str) = None \<and> stringmatchlen nocase (Some 42) [42] (c # str) = None"
  by (simp add: stringmatchlen_def stringmatchlen_impl.simps match_loop.simps)

text \<open>An escaped letter in a class is compared with its case even when the case is to be ignored.\<close>

lemma stringmatchlen_escaped_case:
  "stringmatchlen True (Some 0) [91, 97, 93] [65] = Some True \<and>
    stringmatchlen True (Some 0) [91, 92, 97, 93] [65] = Some False"
  by code_simp

end
