(* ===== verification/Adlist.thy ===== *)
theory Adlist
  imports Prelude "HOL-Library.Monad_Syntax"
begin

text \<open>
  The doubly linked list of \<^verbatim>\<open>adlist.c\<close> on an explicit heap: a heap maps the addresses of the allocated
  nodes to their contents, a pointer is an address or \<open>None\<close> for the null pointer. Following a null
  pointer or the address of a node that was freed is \<open>None\<close>. The list header is a record that is
  passed along; an address that \<^verbatim>\<open>zmalloc\<close> returns is an argument, \<open>None\<close> when it fails. The user's free
  method is observed through the values it is called on.
\<close>

section \<open>Model\<close>

record 'v listNode =
  n_prev :: "nat option"
  n_next :: "nat option"
  n_value :: 'v

type_synonym 'v heap = "nat \<rightharpoonup> 'v listNode"

datatype direction = AL_START_HEAD | AL_START_TAIL

record listIter =
  it_next :: "nat option"
  it_direction :: direction

record 'v list_hdr =
  l_head :: "nat option"
  l_tail :: "nat option"
  l_dup :: "('v \<Rightarrow> 'v option) option"
  l_free :: bool
  l_match :: "('v \<Rightarrow> 'v \<Rightarrow> bool) option"
  l_len :: nat

definition set_prev :: "'v heap \<Rightarrow> nat \<Rightarrow> nat option \<Rightarrow> 'v heap option" where
  "set_prev h p x = do { n \<leftarrow> h p; Some (h(p \<mapsto> n\<lparr>n_prev := x\<rparr>)) }"

definition set_next :: "'v heap \<Rightarrow> nat \<Rightarrow> nat option \<Rightarrow> 'v heap option" where
  "set_next h p x = do { n \<leftarrow> h p; Some (h(p \<mapsto> n\<lparr>n_next := x\<rparr>)) }"

definition new_list :: "'v list_hdr" where
  "new_list = \<lparr>l_head = None, l_tail = None, l_dup = None, l_free = False, l_match = None, l_len = 0\<rparr>"

text \<open>The argument tells whether the memory for the header was there; \<open>None\<close> is the null pointer.\<close>

definition listCreate :: "bool \<Rightarrow> 'v list_hdr option" where
  "listCreate got = (if got then Some new_list else None)"

fun node_empty_loop :: "'v heap \<Rightarrow> bool \<Rightarrow> nat \<Rightarrow> nat option \<Rightarrow> 'v list \<Rightarrow> ('v heap \<times> 'v list) option" where
  "node_empty_loop h fr 0 current freed = Some (h, freed)"
| "node_empty_loop h fr (Suc len) current freed = do {
     c \<leftarrow> current;
     n \<leftarrow> h c;
     node_empty_loop (h(c := None)) fr len (n_next n) (if fr then freed @ [n_value n] else freed)
   }"

definition listEmpty :: "'v heap \<Rightarrow> 'v list_hdr \<Rightarrow> ('v heap \<times> 'v list_hdr \<times> 'v list) option" where
  "listEmpty h l = do {
     (h', freed) \<leftarrow> node_empty_loop h (l_free l) (l_len l) (l_head l) [];
     Some (h', l\<lparr>l_head := None, l_tail := None, l_len := 0\<rparr>, freed)
   }"

definition listRelease :: "'v heap \<Rightarrow> 'v list_hdr option \<Rightarrow> ('v heap \<times> 'v list) option" where
  "listRelease h ol =
     (case ol of None \<Rightarrow> Some (h, []) | Some l \<Rightarrow> do { (h', _, freed) \<leftarrow> listEmpty h l; Some (h', freed) })"

definition listLinkNodeHead :: "'v heap \<Rightarrow> 'v list_hdr \<Rightarrow> nat \<Rightarrow> ('v heap \<times> 'v list_hdr) option" where
  "listLinkNodeHead h l node = do {
     (h', l') \<leftarrow>
       (if l_len l = 0
        then do {
          h1 \<leftarrow> set_prev h node None;
          h2 \<leftarrow> set_next h1 node None;
          Some (h2, l\<lparr>l_head := Some node, l_tail := Some node\<rparr>)
        }
        else do {
          h1 \<leftarrow> set_prev h node None;
          h2 \<leftarrow> set_next h1 node (l_head l);
          hd \<leftarrow> l_head l;
          h3 \<leftarrow> set_prev h2 hd (Some node);
          Some (h3, l\<lparr>l_head := Some node\<rparr>)
        });
     Some (h', l'\<lparr>l_len := (l_len l' + 1) mod 2 ^ 64\<rparr>)
   }"

definition listLinkNodeTail :: "'v heap \<Rightarrow> 'v list_hdr \<Rightarrow> nat \<Rightarrow> ('v heap \<times> 'v list_hdr) option" where
  "listLinkNodeTail h l node = do {
     (h', l') \<leftarrow>
       (if l_len l = 0
        then do {
          h1 \<leftarrow> set_prev h node None;
          h2 \<leftarrow> set_next h1 node None;
          Some (h2, l\<lparr>l_head := Some node, l_tail := Some node\<rparr>)
        }
        else do {
          h1 \<leftarrow> set_prev h node (l_tail l);
          h2 \<leftarrow> set_next h1 node None;
          tl \<leftarrow> l_tail l;
          h3 \<leftarrow> set_next h2 tl (Some node);
          Some (h3, l\<lparr>l_tail := Some node\<rparr>)
        });
     Some (h', l'\<lparr>l_len := (l_len l' + 1) mod 2 ^ 64\<rparr>)
   }"

text \<open>\<^verbatim>\<open>listInitNode\<close> gives a node that is in no list.\<close>

definition listInitNode :: "'v heap \<Rightarrow> nat \<Rightarrow> 'v \<Rightarrow> 'v heap" where
  "listInitNode h node v = h(node \<mapsto> \<lparr>n_prev = None, n_next = None, n_value = v\<rparr>)"

text \<open>
  A new node has arbitrary links, here null ones: every function that allocates a node writes both
  links before it reads them.
\<close>

definition new_node :: "'v heap \<Rightarrow> nat \<Rightarrow> 'v \<Rightarrow> 'v heap" where
  "new_node h node v = h(node \<mapsto> \<lparr>n_prev = None, n_next = None, n_value = v\<rparr>)"

text \<open>The inner \<open>None\<close> is the null pointer returned when the allocation failed.\<close>

definition listAddNodeHead :: "'v heap \<Rightarrow> 'v list_hdr \<Rightarrow> nat option \<Rightarrow> 'v \<Rightarrow> ('v heap \<times> 'v list_hdr) option option" where
  "listAddNodeHead h l alloc v =
     (case alloc of
        None \<Rightarrow> Some None
      | Some node \<Rightarrow> map_option Some (listLinkNodeHead (new_node h node v) l node))"

definition listAddNodeTail :: "'v heap \<Rightarrow> 'v list_hdr \<Rightarrow> nat option \<Rightarrow> 'v \<Rightarrow> ('v heap \<times> 'v list_hdr) option option" where
  "listAddNodeTail h l alloc v =
     (case alloc of
        None \<Rightarrow> Some None
      | Some node \<Rightarrow> map_option Some (listLinkNodeTail (new_node h node v) l node))"

definition listInsertNode ::
    "'v heap \<Rightarrow> 'v list_hdr \<Rightarrow> nat option \<Rightarrow> nat \<Rightarrow> 'v \<Rightarrow> bool \<Rightarrow> ('v heap \<times> 'v list_hdr) option option" where
  "listInsertNode h l alloc old_node v after =
     (case alloc of
        None \<Rightarrow> Some None
      | Some node \<Rightarrow> do {
          let h0 = new_node h node v;
          old \<leftarrow> h0 old_node;
          let (prv, nxt) = (if after then (Some old_node, n_next old) else (n_prev old, Some old_node));
          let l1 = (if after then (if l_tail l = Some old_node then l\<lparr>l_tail := Some node\<rparr> else l)
                    else (if l_head l = Some old_node then l\<lparr>l_head := Some node\<rparr> else l));
          h1 \<leftarrow> set_prev h0 node prv;
          h2 \<leftarrow> set_next h1 node nxt;
          h3 \<leftarrow> (case prv of Some q \<Rightarrow> set_next h2 q (Some node) | None \<Rightarrow> Some h2);
          h4 \<leftarrow> (case nxt of Some q \<Rightarrow> set_prev h3 q (Some node) | None \<Rightarrow> Some h3);
          Some (Some (h4, l1\<lparr>l_len := (l_len l1 + 1) mod 2 ^ 64\<rparr>))
        })"

definition listUnlinkNode :: "'v heap \<Rightarrow> 'v list_hdr \<Rightarrow> nat \<Rightarrow> ('v heap \<times> 'v list_hdr) option" where
  "listUnlinkNode h l node = do {
     n \<leftarrow> h node;
     (h1, l1) \<leftarrow> (case n_prev n of
         Some q \<Rightarrow> do { h' \<leftarrow> set_next h q (n_next n); Some (h', l) }
       | None \<Rightarrow> Some (h, l\<lparr>l_head := n_next n\<rparr>));
     n1 \<leftarrow> h1 node;
     (h2, l2) \<leftarrow> (case n_next n1 of
         Some q \<Rightarrow> do { h' \<leftarrow> set_prev h1 q (n_prev n1); Some (h', l1) }
       | None \<Rightarrow> Some (h1, l1\<lparr>l_tail := n_prev n1\<rparr>));
     h3 \<leftarrow> set_next h2 node None;
     h4 \<leftarrow> set_prev h3 node None;
     Some (h4, l2\<lparr>l_len := nat ((int (l_len l2) - 1) mod 2 ^ 64)\<rparr>)
   }"

definition listDelNode :: "'v heap \<Rightarrow> 'v list_hdr \<Rightarrow> nat \<Rightarrow> ('v heap \<times> 'v list_hdr \<times> 'v list) option" where
  "listDelNode h l node = do {
     (h1, l1) \<leftarrow> listUnlinkNode h l node;
     n \<leftarrow> h1 node;
     Some (h1(node := None), l1, if l_free l1 then [n_value n] else [])
   }"

definition listGetIterator :: "'v list_hdr \<Rightarrow> direction \<Rightarrow> listIter" where
  "listGetIterator l dir =
     \<lparr>it_next = (if dir = AL_START_HEAD then l_head l else l_tail l), it_direction = dir\<rparr>"

definition listRewind :: "'v list_hdr \<Rightarrow> listIter" where
  "listRewind l = \<lparr>it_next = l_head l, it_direction = AL_START_HEAD\<rparr>"

definition listRewindTail :: "'v list_hdr \<Rightarrow> listIter" where
  "listRewindTail l = \<lparr>it_next = l_tail l, it_direction = AL_START_TAIL\<rparr>"

definition listNext :: "'v heap \<Rightarrow> listIter \<Rightarrow> (nat option \<times> listIter) option" where
  "listNext h iter =
     (case it_next iter of
        None \<Rightarrow> Some (None, iter)
      | Some current \<Rightarrow> do {
          n \<leftarrow> h current;
          Some (Some current,
            iter\<lparr>it_next := (if it_direction iter = AL_START_HEAD then n_next n else n_prev n)\<rparr>)
        })"

text \<open>
  The loop of \<^verbatim>\<open>listDup\<close>; \<open>alloc\<close> gives the address for the next node in a heap. The inner \<open>None\<close> is the
  null pointer that is returned when a value or a node cannot be copied, the list at the end the values
  given to the free method.
\<close>

partial_function (option) dup_loop ::
    "('v heap \<Rightarrow> nat option) \<Rightarrow> 'v heap \<Rightarrow> 'v list_hdr \<Rightarrow> listIter \<Rightarrow> ('v heap \<times> 'v list_hdr option \<times> 'v list) option" where
  "dup_loop alloc h copy iter = do {
     (node, iter') \<leftarrow> listNext h iter;
     case node of
       None \<Rightarrow> Some (h, Some copy, [])
     | Some p \<Rightarrow> do {
         n \<leftarrow> h p;
         case (case l_dup copy of Some d \<Rightarrow> d (n_value n) | None \<Rightarrow> Some (n_value n)) of
           None \<Rightarrow> do { (h', freed) \<leftarrow> listRelease h (Some copy); Some (h', None, freed) }
         | Some v \<Rightarrow> do {
             r \<leftarrow> listAddNodeTail h copy (alloc h) v;
             case r of
               None \<Rightarrow> do {
                 (h', freed) \<leftarrow> listRelease h (Some copy);
                 Some (h', None, (if l_free copy then [v] else []) @ freed)
               }
             | Some (h', copy') \<Rightarrow> dup_loop alloc h' copy' iter'
           }
       }
   }"

definition listDup ::
    "bool \<Rightarrow> ('v heap \<Rightarrow> nat option) \<Rightarrow> 'v heap \<Rightarrow> 'v list_hdr \<Rightarrow> ('v heap \<times> 'v list_hdr option \<times> 'v list) option" where
  "listDup got alloc h orig =
     (case listCreate got of
        None \<Rightarrow> Some (h, None, [])
      | Some copy \<Rightarrow>
          dup_loop alloc h (copy\<lparr>l_dup := l_dup orig, l_free := l_free orig, l_match := l_match orig\<rparr>) (listRewind orig))"

partial_function (option) search_loop :: "'v heap \<Rightarrow> 'v list_hdr \<Rightarrow> 'v \<Rightarrow> listIter \<Rightarrow> nat option option" where
  "search_loop h l key iter = do {
     (node, iter') \<leftarrow> listNext h iter;
     case node of
       None \<Rightarrow> Some None
     | Some p \<Rightarrow> do {
         n \<leftarrow> h p;
         if (case l_match l of Some m \<Rightarrow> m (n_value n) key | None \<Rightarrow> key = n_value n)
         then Some (Some p)
         else search_loop h l key iter'
       }
   }"

definition listSearchKey :: "'v heap \<Rightarrow> 'v list_hdr \<Rightarrow> 'v \<Rightarrow> nat option option" where
  "listSearchKey h l key = search_loop h l key (listRewind l)"

fun index_loop :: "'v heap \<Rightarrow> bool \<Rightarrow> nat \<Rightarrow> nat option \<Rightarrow> nat option option" where
  "index_loop h back 0 n = Some n"
| "index_loop h back (Suc index) n =
     (case n of
        None \<Rightarrow> Some None
      | Some p \<Rightarrow> do { nd \<leftarrow> h p; index_loop h back index (if back then n_prev nd else n_next nd) })"

definition listIndex :: "'v heap \<Rightarrow> 'v list_hdr \<Rightarrow> int \<Rightarrow> nat option option" where
  "listIndex h l index =
     (if index < 0 then index_loop h True (nat ((- index) - 1)) (l_tail l)
      else index_loop h False (nat index) (l_head l))"

definition listRotateTailToHead :: "'v heap \<Rightarrow> 'v list_hdr \<Rightarrow> ('v heap \<times> 'v list_hdr) option" where
  "listRotateTailToHead h l =
     (if l_len l \<le> 1 then Some (h, l)
      else do {
        tail \<leftarrow> l_tail l;
        n \<leftarrow> h tail;
        let l1 = l\<lparr>l_tail := n_prev n\<rparr>;
        t1 \<leftarrow> l_tail l1;
        h1 \<leftarrow> set_next h t1 None;
        hd \<leftarrow> l_head l1;
        h2 \<leftarrow> set_prev h1 hd (Some tail);
        h3 \<leftarrow> set_prev h2 tail None;
        h4 \<leftarrow> set_next h3 tail (l_head l1);
        Some (h4, l1\<lparr>l_head := Some tail\<rparr>)
      })"

definition listRotateHeadToTail :: "'v heap \<Rightarrow> 'v list_hdr \<Rightarrow> ('v heap \<times> 'v list_hdr) option" where
  "listRotateHeadToTail h l =
     (if l_len l \<le> 1 then Some (h, l)
      else do {
        hd \<leftarrow> l_head l;
        n \<leftarrow> h hd;
        let l1 = l\<lparr>l_head := n_next n\<rparr>;
        h1 \<leftarrow> l_head l1;
        hp1 \<leftarrow> set_prev h h1 None;
        tl \<leftarrow> l_tail l1;
        hp2 \<leftarrow> set_next hp1 tl (Some hd);
        hp3 \<leftarrow> set_next hp2 hd None;
        hp4 \<leftarrow> set_prev hp3 hd (l_tail l1);
        Some (hp4, l1\<lparr>l_tail := Some hd\<rparr>)
      })"

text \<open>\<^verbatim>\<open>listJoin\<close> of two different lists: the new headers of both.\<close>

definition listJoin :: "'v heap \<Rightarrow> 'v list_hdr \<Rightarrow> 'v list_hdr \<Rightarrow> ('v heap \<times> 'v list_hdr \<times> 'v list_hdr) option" where
  "listJoin h l ol =
     (if l_len ol = 0 then Some (h, l, ol)
      else do {
        ohd \<leftarrow> l_head ol;
        h1 \<leftarrow> set_prev h ohd (l_tail l);
        (h2, l1) \<leftarrow> (case l_tail l of
            Some t \<Rightarrow> do { h' \<leftarrow> set_next h1 t (l_head ol); Some (h', l) }
          | None \<Rightarrow> Some (h1, l\<lparr>l_head := l_head ol\<rparr>));
        Some (h2, l1\<lparr>l_tail := l_tail ol, l_len := (l_len l1 + l_len ol) mod 2 ^ 64\<rparr>,
          ol\<lparr>l_head := None, l_tail := None, l_len := 0\<rparr>)
      })"

end
