(* ===== verification/Adlist_Inv.thy ===== *)
theory Adlist_Inv
  imports Adlist
begin

text \<open>
  A heap holds a list when its nodes form a doubly linked segment; the operations of \<^verbatim>\<open>adlist.c\<close> edit the
  sequence of nodes and leave the rest of the heap alone.
\<close>

section \<open>Segments\<close>

fun first_of :: "(nat \<times> 'v) list \<Rightarrow> nat option \<Rightarrow> nat option" where
  "first_of [] n = n"
| "first_of ((a, v) # xs) n = Some a"

fun last_of :: "nat option \<Rightarrow> (nat \<times> 'v) list \<Rightarrow> nat option" where
  "last_of p [] = p"
| "last_of p ((a, v) # xs) = last_of (Some a) xs"

fun dseg :: "'v heap \<Rightarrow> nat option \<Rightarrow> (nat \<times> 'v) list \<Rightarrow> nat option \<Rightarrow> bool" where
  "dseg h p [] n \<longleftrightarrow> True"
| "dseg h p ((a, v) # xs) n \<longleftrightarrow>
     h a = Some \<lparr>n_prev = p, n_next = first_of xs n, n_value = v\<rparr> \<and> dseg h (Some a) xs n"

abbreviation addrs :: "(nat \<times> 'v) list \<Rightarrow> nat set" where
  "addrs xs \<equiv> fst ` set xs"

lemma first_of_append [simp]: "first_of (xs @ ys) n = first_of xs (first_of ys n)"
  by (cases xs) auto

lemma last_of_append [simp]: "last_of p (xs @ ys) = last_of (last_of p xs) ys"
  by (induction p xs rule: last_of.induct) auto

lemma dseg_append [simp]:
  "dseg h p (xs @ ys) n \<longleftrightarrow> dseg h p xs (first_of ys n) \<and> dseg h (last_of p xs) ys n"
  by (induction h p xs n rule: dseg.induct) auto

lemma dseg_frame: "(\<And>a. a \<in> addrs xs \<Longrightarrow> h' a = h a) \<Longrightarrow> dseg h' p xs n \<longleftrightarrow> dseg h p xs n"
proof (induction xs arbitrary: p)
  case (Cons x xs)
  then show ?case by (cases x) simp
qed simp

lemma dseg_upd [simp]: "a \<notin> addrs xs \<Longrightarrow> dseg (h(a := z)) p xs n \<longleftrightarrow> dseg h p xs n"
  by (rule dseg_frame) auto

lemma dseg_alloc: "dseg h p xs n \<Longrightarrow> a \<in> addrs xs \<Longrightarrow> \<exists>nd. h a = Some nd"
  by (induction h p xs n rule: dseg.induct) auto

text \<open>Splitting off the last node, and the effect of relinking the two ends of a segment.\<close>

lemma last_of_cases:
  obtains "xs = []" | ys a v where "xs = ys @ [(a, v)]"
  by (cases xs rule: rev_cases) auto

lemma set_next_last:
  assumes "dseg h p (xs @ [(a, v)]) n" "a \<notin> addrs xs"
  shows "\<exists>h'. set_next h a m = Some h' \<and> dseg h' p (xs @ [(a, v)]) m \<and> (\<forall>b. b \<noteq> a \<longrightarrow> h' b = h b)"
  using assms by (auto simp: set_next_def)

lemma set_prev_first:
  assumes "dseg h p ((a, v) # xs) n" "a \<notin> addrs xs"
  shows "\<exists>h'. set_prev h a q = Some h' \<and> dseg h' q ((a, v) # xs) n \<and> (\<forall>b. b \<noteq> a \<longrightarrow> h' b = h b)"
  using assms by (auto simp: set_prev_def)

section \<open>Lists\<close>

definition list_rep :: "'v heap \<Rightarrow> 'v list_hdr \<Rightarrow> (nat \<times> 'v) list \<Rightarrow> bool" where
  "list_rep h l xs \<longleftrightarrow> dseg h None xs None \<and> distinct (map fst xs) \<and> l_head l = first_of xs None \<and>
     l_tail l = last_of None xs \<and> l_len l = length xs \<and> length xs < 2 ^ 64"

text \<open>The outcome of an operation: a list of the new nodes, the rest of the heap and the methods as before.\<close>

definition edits :: "'v heap \<Rightarrow> 'v list_hdr \<Rightarrow> nat set \<Rightarrow> ('v heap \<times> 'v list_hdr) option \<Rightarrow> (nat \<times> 'v) list \<Rightarrow> bool" where
  "edits h l A r xs \<longleftrightarrow> (\<exists>h' l'. r = Some (h', l') \<and> list_rep h' l' xs \<and> (\<forall>b. b \<notin> A \<longrightarrow> h' b = h b) \<and>
     l_dup l' = l_dup l \<and> l_free l' = l_free l \<and> l_match l' = l_match l)"

lemma link_head:
  assumes l: "list_rep h l xs" and a: "h a = Some n" "a \<notin> addrs xs" and len: "Suc (length xs) < 2 ^ 64"
  shows "edits h l (insert a (addrs xs)) (listLinkNodeHead h l a) ((a, n_value n) # xs)"
proof (cases xs)
  case Nil
  then show ?thesis using assms by (auto simp: edits_def list_rep_def listLinkNodeHead_def set_prev_def set_next_def)
next
  case (Cons x ys)
  obtain b w where x: "x = (b, w)" by fastforce
  show ?thesis using assms unfolding Cons x
    by (auto simp: edits_def list_rep_def listLinkNodeHead_def set_prev_def set_next_def)
qed

lemma link_tail:
  assumes l: "list_rep h l xs" and a: "h a = Some n" "a \<notin> addrs xs" and len: "Suc (length xs) < 2 ^ 64"
  shows "edits h l (insert a (addrs xs)) (listLinkNodeTail h l a) (xs @ [(a, n_value n)])"
proof (cases xs rule: rev_cases)
  case Nil
  then show ?thesis using assms by (auto simp: edits_def list_rep_def listLinkNodeTail_def set_prev_def set_next_def)
next
  case (snoc ys x)
  obtain b w where x: "x = (b, w)" by fastforce
  show ?thesis using assms unfolding snoc x
    by (auto simp: edits_def list_rep_def listLinkNodeTail_def set_prev_def set_next_def)
qed

lemmas link_defs = edits_def list_rep_def set_prev_def set_next_def new_node_def image_Un

lemma last_of_in: "last_of p xs = Some b \<Longrightarrow> b \<in> addrs xs \<or> p = Some b"
  by (induction p xs rule: last_of.induct) auto

lemma first_of_in: "first_of xs n = Some b \<Longrightarrow> b \<in> addrs xs \<or> n = Some b"
  by (cases xs) auto

lemma insert_node_after:
  assumes l: "list_rep h l (ys @ (p, w) # zs)" and a: "a \<notin> addrs (ys @ (p, w) # zs)" and len: "Suc (length (ys @ (p, w) # zs)) < 2 ^ 64"
  shows "\<exists>r. listInsertNode h l (Some a) p v True = Some (Some r) \<and>
    edits h l (insert a (addrs (ys @ (p, w) # zs))) (Some r) (ys @ (p, w) # (a, v) # zs)"
proof (cases zs)
  case Nil
  then show ?thesis using assms by (auto simp: link_defs listInsertNode_def Let_def)
next
  case (Cons x zs')
  obtain b u where x: "x = (b, u)" by fastforce
  have "last_of (Some b) zs' \<noteq> Some p" using l last_of_in [of "Some b" zs' p] unfolding Cons x by (auto simp: list_rep_def)
  then show ?thesis using assms unfolding Cons x
    by (auto simp: link_defs listInsertNode_def Let_def)
qed

lemma insert_node_before:
  assumes l: "list_rep h l (ys @ (p, w) # zs)" and a: "a \<notin> addrs (ys @ (p, w) # zs)" and len: "Suc (length (ys @ (p, w) # zs)) < 2 ^ 64"
  shows "\<exists>r. listInsertNode h l (Some a) p v False = Some (Some r) \<and>
    edits h l (insert a (addrs (ys @ (p, w) # zs))) (Some r) (ys @ (a, v) # (p, w) # zs)"
proof (cases ys rule: rev_cases)
  case Nil
  then show ?thesis using assms by (auto simp: link_defs listInsertNode_def Let_def)
next
  case (snoc ys' x)
  obtain b u where x: "x = (b, u)" by fastforce
  have "first_of ys' (Some b) \<noteq> Some p" using l first_of_in [of ys' "Some b" p] unfolding snoc x by (auto simp: list_rep_def)
  then show ?thesis using assms unfolding snoc x
    by (auto simp: link_defs listInsertNode_def Let_def)
qed

lemma len_pred: "length xs < 2 ^ 64 \<Longrightarrow> nat ((int (length (ys @ x # zs)) - 1) mod 2 ^ 64) = length (ys @ zs)" if "xs = ys @ x # zs"
proof -
  assume "length xs < 2 ^ 64"
  then have "int (length (ys @ zs)) mod 2 ^ 64 = int (length (ys @ zs))" using that by (intro mod_pos_pos_trivial) simp_all
  moreover have "int (length (ys @ x # zs)) - 1 = int (length (ys @ zs))" by simp
  ultimately show ?thesis by (simp only: nat_int)
qed

lemma unlink:
  assumes l: "list_rep h l (ys @ (p, w) # zs)"
  shows "\<exists>h' l'. listUnlinkNode h l p = Some (h', l') \<and> h' p = Some \<lparr>n_prev = None, n_next = None, n_value = w\<rparr> \<and>
    edits h l (addrs (ys @ (p, w) # zs)) (Some (h', l')) (ys @ zs)"
proof -
  have len: "nat ((int (l_len l) - 1) mod 2 ^ 64) = length (ys @ zs)"
    using l len_pred [OF refl, of ys "(p, w)" zs] by (simp add: list_rep_def)
  show ?thesis
  proof (cases ys rule: rev_cases)
    case Nil
    show ?thesis
    proof (cases zs)
      case (Cons x zs')
      obtain b u where x: "x = (b, u)" by fastforce
      show ?thesis using l len unfolding Nil Cons x by (auto simp: link_defs listUnlinkNode_def)
    qed (use l len Nil in \<open>auto simp: link_defs listUnlinkNode_def\<close>)
  next
    case (snoc ys' y)
    obtain c t where y: "y = (c, t)" by fastforce
    show ?thesis
    proof (cases zs)
      case Nil
      then show ?thesis using l len unfolding snoc y by (auto simp: link_defs listUnlinkNode_def)
    next
      case (Cons x zs')
      obtain b u where x: "x = (b, u)" by fastforce
      show ?thesis using l len unfolding snoc y Cons x by (auto simp: link_defs listUnlinkNode_def)
    qed
  qed
qed

lemma del_node:
  assumes l: "list_rep h l (ys @ (p, w) # zs)"
  shows "\<exists>h' l'. listDelNode h l p = Some (h', l', if l_free l then [w] else []) \<and> h' p = None \<and>
    edits h l (addrs (ys @ (p, w) # zs)) (Some (h', l')) (ys @ zs)"
proof -
  obtain h' l' where u: "listUnlinkNode h l p = Some (h', l')" "h' p = Some \<lparr>n_prev = None, n_next = None, n_value = w\<rparr>"
    "edits h l (addrs (ys @ (p, w) # zs)) (Some (h', l')) (ys @ zs)" using unlink [OF l] by blast
  have "p \<notin> addrs (ys @ zs)" using l by (auto simp: list_rep_def)
  then have "list_rep (h'(p := None)) l' (ys @ zs)" using u(3) unfolding edits_def list_rep_def by (auto simp del: dseg_append)
  then show ?thesis using u by (auto simp: listDelNode_def edits_def)
qed

section \<open>Rotation and concatenation\<close>

lemma rotate_tail:
  assumes l: "list_rep h l (ys @ [(a, v)])"
  shows "edits h l (addrs (ys @ [(a, v)])) (listRotateTailToHead h l) ((a, v) # ys)"
proof (cases ys)
  case Nil
  then show ?thesis using l by (auto simp: link_defs listRotateTailToHead_def)
next
  case (Cons x zs)
  obtain b u where x: "x = (b, u)" by fastforce
  show ?thesis
  proof (cases zs rule: rev_cases)
    case Nil
    then show ?thesis using l unfolding Cons x by (auto simp: link_defs listRotateTailToHead_def)
  next
    case (snoc zs' y)
    obtain c t where y: "y = (c, t)" by fastforce
    show ?thesis using l unfolding Cons x snoc y by (auto simp: link_defs listRotateTailToHead_def)
  qed
qed

lemma rotate_head:
  assumes l: "list_rep h l ((a, v) # ys)"
  shows "edits h l (addrs ((a, v) # ys)) (listRotateHeadToTail h l) (ys @ [(a, v)])"
proof (cases ys)
  case Nil
  then show ?thesis using l by (auto simp: link_defs listRotateHeadToTail_def)
next
  case (Cons x zs)
  obtain b u where x: "x = (b, u)" by fastforce
  show ?thesis
  proof (cases zs rule: rev_cases)
    case Nil
    then show ?thesis using l unfolding Cons x by (auto simp: link_defs listRotateHeadToTail_def)
  next
    case (snoc zs' y)
    obtain c t where y: "y = (c, t)" by fastforce
    show ?thesis using l unfolding Cons x snoc y by (auto simp: link_defs listRotateHeadToTail_def)
  qed
qed

lemma join:
  assumes l: "list_rep h l xs" "list_rep h k ys" and d: "addrs xs \<inter> addrs ys = {}" and len: "length (xs @ ys) < 2 ^ 64"
  shows "\<exists>h' l' k'. listJoin h l k = Some (h', l', k') \<and> list_rep h' k' [] \<and>
    edits h l (addrs (xs @ ys)) (Some (h', l')) (xs @ ys)"
proof (cases ys)
  case Nil
  then show ?thesis using l by (auto simp: link_defs listJoin_def)
next
  case (Cons y ys')
  obtain b u where y: "y = (b, u)" by fastforce
  show ?thesis
  proof (cases xs rule: rev_cases)
    case Nil
    then show ?thesis using l len unfolding Cons y by (auto simp: link_defs listJoin_def)
  next
    case (snoc xs' x)
    obtain c t where x: "x = (c, t)" by fastforce
    show ?thesis using l d len unfolding Cons y snoc x by (auto simp: link_defs listJoin_def)
  qed
qed

section \<open>Walking\<close>

text \<open>An iterator in direction \<open>dir\<close> that has the nodes \<open>xs\<close> still before it.\<close>

definition iter_at :: "direction \<Rightarrow> 'v heap \<Rightarrow> listIter \<Rightarrow> (nat \<times> 'v) list \<Rightarrow> bool" where
  "iter_at dir h it xs \<longleftrightarrow> it_direction it = dir \<and>
     (case dir of AL_START_HEAD \<Rightarrow> it_next it = first_of xs None \<and> (\<exists>p. dseg h p xs None)
      | AL_START_TAIL \<Rightarrow> it_next it = last_of None (rev xs) \<and> (\<exists>n. dseg h None (rev xs) n))"

lemma next_Nil: "iter_at dir h it [] \<Longrightarrow> listNext h it = Some (None, it)"
  by (cases dir) (auto simp: iter_at_def listNext_def)

lemma next_Cons:
  assumes "iter_at dir h it ((a, v) # xs)"
  shows "\<exists>it' n. listNext h it = Some (Some a, it') \<and> iter_at dir h it' xs \<and> h a = Some n \<and> n_value n = v"
proof (cases dir)
  case AL_START_TAIL
  then show ?thesis using assms by (auto simp: iter_at_def listNext_def)
qed (use assms in \<open>auto simp: iter_at_def listNext_def\<close>)

lemma rewind_at: "list_rep h l xs \<Longrightarrow> iter_at AL_START_HEAD h (listRewind l) xs"
  "list_rep h l xs \<Longrightarrow> iter_at AL_START_TAIL h (listRewindTail l) (rev xs)"
  by (auto simp: iter_at_def list_rep_def listRewind_def listRewindTail_def)

lemma get_iterator: "listGetIterator l dir = (if dir = AL_START_HEAD then listRewind l else listRewindTail l)"
  by (cases dir) (simp_all add: listGetIterator_def listRewind_def listRewindTail_def)

lemma search_at:
  "iter_at AL_START_HEAD h it xs \<Longrightarrow> search_loop h l key it =
    Some (map_option fst (find (\<lambda>x. case l_match l of Some m \<Rightarrow> m (snd x) key | None \<Rightarrow> key = snd x) xs))"
proof (induction xs arbitrary: it)
  case Nil
  then show ?case using next_Nil [OF Nil] by (subst search_loop.simps) simp
next
  case (Cons x xs)
  obtain a v where x: "x = (a, v)" by fastforce
  then obtain it' n where n: "listNext h it = Some (Some a, it')" "iter_at AL_START_HEAD h it' xs" "h a = Some n" "n_value n = v"
    using next_Cons [of AL_START_HEAD h it a v xs] Cons.prems by auto
  then show ?case using Cons.IH [OF n(2)] x by (subst search_loop.simps) (simp split: option.split)
qed

text \<open>The address of an index; negative ones count from the end.\<close>

definition node_index :: "(nat \<times> 'v) list \<Rightarrow> int \<Rightarrow> nat option" where
  "node_index xs idx =
     (let i = (if idx < 0 then int (length xs) + idx else idx) in
      if 0 \<le> i \<and> i < int (length xs) then Some (fst (xs ! nat i)) else None)"

lemma index_forward: "dseg h p xs None \<Longrightarrow> index_loop h False i (first_of xs None) = Some (if i < length xs then Some (fst (xs ! i)) else None)"
proof (induction xs arbitrary: i p)
  case Nil
  then show ?case by (cases i) simp_all
next
  case (Cons x xs)
  obtain a v where x: "x = (a, v)" by fastforce
  then show ?case using Cons.prems Cons.IH [of "Some a"] by (cases i) auto
qed

lemma index_backward:
  "dseg h None xs n \<Longrightarrow> index_loop h True i (last_of None xs) = Some (if i < length xs then Some (fst (xs ! (length xs - 1 - i))) else None)"
proof (induction xs arbitrary: i n rule: rev_induct)
  case Nil
  then show ?case by (cases i) simp_all
next
  case (snoc x xs)
  obtain a v where x: "x = (a, v)" by fastforce
  then show ?case using snoc.prems snoc.IH [of "Some a"] by (cases i) (auto simp: nth_append)
qed

lemma index_at:
  assumes "list_rep h l xs"
  shows "listIndex h l idx = Some (node_index xs idx)"
proof (cases "idx < 0")
  case True
  have "nat (- idx - 1) < length xs \<longleftrightarrow> 0 \<le> int (length xs) + idx" using True by linarith
  moreover have "length xs - 1 - nat (- idx - 1) = nat (int (length xs) + idx)" using True by linarith
  ultimately show ?thesis using assms True index_backward [of h xs None "nat (- idx - 1)"]
    by (simp add: listIndex_def node_index_def list_rep_def Let_def)
next
  case False
  then show ?thesis using assms index_forward [of h None xs "nat idx"]
    by (auto simp: listIndex_def node_index_def list_rep_def Let_def)
qed

end
