(* ===== verification/Adlist_Props.thy ===== *)
theory Adlist_Props
  imports Adlist_Inv "HOL-Library.Multiset"
begin

text \<open>
  The list of \<^verbatim>\<open>adlist.c\<close> as its clients see it: a sequence that is edited at its ends and at its nodes,
  and that can be walked while the current node is deleted.
\<close>

section \<open>Clearing and copying\<close>

lemma node_empty_at:
  "dseg h p xs None \<Longrightarrow> distinct (map fst xs) \<Longrightarrow>
    \<exists>h'. node_empty_loop h fr (length xs) (first_of xs None) freed = Some (h', freed @ (if fr then map snd xs else [])) \<and>
      (\<forall>a. h' a = (if a \<in> addrs xs then None else h a))"
proof (induction xs arbitrary: h p freed)
  case (Cons x xs)
  obtain a v where x: "x = (a, v)" by fastforce
  have s: "dseg (h(a := None)) (Some a) xs None" "h a = Some \<lparr>n_prev = p, n_next = first_of xs None, n_value = v\<rparr>"
    using Cons.prems x by auto
  have d: "distinct (map fst xs)" using Cons.prems by simp
  obtain h' where h': "node_empty_loop (h(a := None)) fr (length xs) (first_of xs None) (if fr then freed @ [v] else freed) =
      Some (h', (if fr then freed @ [v] else freed) @ (if fr then map snd xs else []))"
    "\<forall>b. h' b = (if b \<in> addrs xs then None else (h(a := None)) b)"
    using Cons.IH [OF s(1) d] by blast
  show ?case using s(2) h' x by (intro exI [of _ h']) (auto simp: fun_eq_iff)
qed simp

lemma empty_at:
  assumes "list_rep h l xs"
  shows "\<exists>h'. listEmpty h l = Some (h', l\<lparr>l_head := None, l_tail := None, l_len := 0\<rparr>, if l_free l then map snd xs else []) \<and>
    (\<forall>a. h' a = (if a \<in> addrs xs then None else h a))"
  using node_empty_at [of h None xs "l_free l" "[]"] assms by (auto simp: list_rep_def listEmpty_def)

text \<open>The allocator returns an address that is not in use, or nothing.\<close>

definition allocates :: "('v heap \<Rightarrow> nat option) \<Rightarrow> bool" where
  "allocates alloc \<longleftrightarrow> (\<forall>h a. alloc h = Some a \<longrightarrow> h a = None)"

lemma new_node_list: "list_rep h l xs \<Longrightarrow> h a = None \<Longrightarrow> list_rep (new_node h a v) l xs \<and> a \<notin> addrs xs"
proof -
  assume l: "list_rep h l xs" "h a = None"
  then have "a \<notin> addrs xs" using dseg_alloc [of h None xs None a] by (auto simp: list_rep_def)
  then show ?thesis using l by (simp add: list_rep_def new_node_def)
qed

lemma new_node_at [simp]: "new_node h a v a = Some \<lparr>n_prev = None, n_next = None, n_value = v\<rparr>"
  "b \<noteq> a \<Longrightarrow> new_node h a v b = h b"
  by (simp_all add: new_node_def)

lemma add_tail:
  assumes l: "list_rep h l xs" and a: "h a = None" and len: "Suc (length xs) < 2 ^ 64"
  shows "\<exists>r. listAddNodeTail h l (Some a) v = Some (Some r) \<and> edits h l (insert a (addrs xs)) (Some r) (xs @ [(a, v)])"
proof -
  note n = new_node_list [OF l a, of v]
  from link_tail [OF conjunct1 [OF n] new_node_at(1) conjunct2 [OF n] len] show ?thesis
    by (auto simp: edits_def listAddNodeTail_def)
qed

lemma add_head:
  assumes l: "list_rep h l xs" and a: "h a = None" and len: "Suc (length xs) < 2 ^ 64"
  shows "\<exists>r. listAddNodeHead h l (Some a) v = Some (Some r) \<and> edits h l (insert a (addrs xs)) (Some r) ((a, v) # xs)"
proof -
  note n = new_node_list [OF l a, of v]
  from link_head [OF conjunct1 [OF n] new_node_at(1) conjunct2 [OF n] len] show ?thesis
    by (auto simp: edits_def listAddNodeHead_def)
qed

lemma iter_frame: "iter_at dir h it xs \<Longrightarrow> (\<And>a. a \<in> addrs xs \<Longrightarrow> h' a = h a) \<Longrightarrow> iter_at dir h' it xs"
  using dseg_frame [of xs h' h] dseg_frame [of "rev xs" h' h] by (cases dir) (auto simp: iter_at_def)

text \<open>The copy of a list: the values the copying method gives, up to the first failure.\<close>

definition dup_value :: "'v list_hdr \<Rightarrow> 'v \<Rightarrow> 'v option" where
  "dup_value l v = (case l_dup l of Some d \<Rightarrow> d v | None \<Rightarrow> Some v)"

text \<open>
  A failure: \<open>n\<close> values have been copied to nodes \<open>zs\<close> behind \<open>ys\<close>, then the copy of the next value fails, or the allocation of a node
  for it on the heap with this partial copy. With a free method every value that has been copied is given to it once, the last one too
  if there is no node for it.
\<close>

definition freed_all :: "'v list_hdr \<Rightarrow> 'v list \<Rightarrow> 'v list \<Rightarrow> bool" where
  "freed_all l vs freed \<longleftrightarrow> mset freed = mset (if l_free l then vs else [])"

lemma freed_all_cong: "l_free l = l_free l' \<Longrightarrow> freed_all l = freed_all l'"
  by (simp add: freed_all_def fun_eq_iff)

definition dup_failed ::
    "('v heap \<Rightarrow> nat option) \<Rightarrow> 'v heap \<Rightarrow> 'v list_hdr \<Rightarrow> (nat \<times> 'v) list \<Rightarrow> (nat \<times> 'v) list \<Rightarrow> 'v list \<Rightarrow> bool" where
  "dup_failed alloc h l ys xs freed \<longleftrightarrow> (\<exists>n hn ln zs. n < length xs \<and> list_rep hn ln (ys @ zs) \<and>
     map Some (map snd zs) = take n (map (dup_value l) (map snd xs)) \<and>
     (\<forall>a \<in> addrs zs. h a = None) \<and> (\<forall>a. a \<notin> addrs (ys @ zs) \<longrightarrow> hn a = h a) \<and>
     (case dup_value l (snd (xs ! n)) of
        None \<Rightarrow> freed_all l (map snd (ys @ zs)) freed
      | Some w \<Rightarrow> alloc hn = None \<and> freed_all l (w # map snd (ys @ zs)) freed))"

definition dup_outcome ::
    "('v heap \<Rightarrow> nat option) \<Rightarrow> 'v heap \<Rightarrow> 'v list_hdr \<Rightarrow> (nat \<times> 'v) list \<Rightarrow> (nat \<times> 'v) list \<Rightarrow> ('v heap \<times> 'v list_hdr option \<times> 'v list) \<Rightarrow> bool" where
  "dup_outcome alloc h copy ys xs r = (case r of
       (h', Some l', freed) \<Rightarrow> freed = [] \<and> (\<forall>a. h a \<noteq> None \<longrightarrow> a \<notin> addrs ys \<longrightarrow> h' a = h a) \<and>
         (\<exists>zs. list_rep h' l' (ys @ zs) \<and> map Some (map snd zs) = map (dup_value copy) (map snd xs) \<and>
           (\<forall>a \<in> addrs zs. h a = None) \<and> l_dup l' = l_dup copy \<and> l_free l' = l_free copy \<and> l_match l' = l_match copy)
     | (h', None, freed) \<Rightarrow> (\<forall>a. h' a = (if a \<in> addrs ys then None else h a)) \<and> dup_failed alloc h copy ys xs freed)"

text \<open>A step of the loop that copied one node, and the two ways in which it gives up.\<close>

lemma dup_outcome_fail:
  assumes "\<forall>a. he a = (if a \<in> addrs ys then None else h a)" and l: "list_rep h copy ys"
    and "dup_value copy v = None \<and> ws = [] \<or> (\<exists>w. dup_value copy v = Some w \<and> alloc h = None \<and> ws = [w])"
  shows "dup_outcome alloc h copy ys ((a, v) # xs) (he, None, (if l_free copy then ws else []) @ (if l_free copy then map snd ys else []))"
proof -
  have "dup_failed alloc h copy ys ((a, v) # xs) ((if l_free copy then ws else []) @ (if l_free copy then map snd ys else []))"
    unfolding dup_failed_def by (rule exI [of _ 0], rule exI [of _ h], rule exI [of _ copy], rule exI [of _ "[]"]) (use l assms(3) in \<open>auto simp: freed_all_def\<close>)
  then show ?thesis using assms(1) by (simp add: dup_outcome_def)
qed

lemma dup_failed_Cons:
  assumes f: "dup_failed alloc h1 c1 (ys @ [(b, w)]) xs freed" and c: "\<And>c. c \<notin> insert b (addrs ys) \<Longrightarrow> h1 c = h c" and b: "h b = None"
    and w: "dup_value copy v = Some w" and dc: "dup_value c1 = dup_value copy" "l_free c1 = l_free copy"
  shows "dup_failed alloc h copy ys ((a, v) # xs) freed"
proof -
  obtain n hn ln zs where z: "n < length xs" "list_rep hn ln ((ys @ [(b, w)]) @ zs)" "map Some (map snd zs) = take n (map (dup_value copy) (map snd xs))"
    "\<forall>a \<in> addrs zs. h1 a = None" "\<forall>a. a \<notin> addrs ((ys @ [(b, w)]) @ zs) \<longrightarrow> hn a = h1 a"
    "case dup_value copy (snd (xs ! n)) of
        None \<Rightarrow> freed_all copy (map snd ((ys @ [(b, w)]) @ zs)) freed
      | Some u \<Rightarrow> alloc hn = None \<and> freed_all copy (u # map snd ((ys @ [(b, w)]) @ zs)) freed"
    using f unfolding dup_failed_def dc(1) freed_all_cong [OF dc(2)] by blast
  have e: "(ys @ [(b, w)]) @ zs = ys @ (b, w) # zs" by simp
  have new: "h a' = None" if "a' \<in> addrs ((b, w) # zs)" for a'
  proof (cases "a' = b")
    case False
    then have "a' \<in> addrs zs" using that by simp
    moreover have "a' \<notin> insert b (addrs ys)" using calculation z(2) by (auto simp: list_rep_def)
    ultimately show ?thesis using c z(4) by metis
  qed (use b in simp)
  have old: "hn a' = h a'" if "a' \<notin> addrs (ys @ (b, w) # zs)" for a' using that z(5) c [of a'] by auto
  show ?thesis unfolding dup_failed_def
    by (rule exI [of _ "Suc n"], rule exI [of _ hn], rule exI [of _ ln], rule exI [of _ "(b, w) # zs"]) (use z(1-5) z(6) [unfolded e] w new old in simp)
qed

lemma dup_outcome_Cons:
  assumes o: "dup_outcome alloc h1 c1 (ys @ [(b, w)]) xs r"
    and e: "edits h copy (insert b (addrs ys)) (Some (h1, c1)) (ys @ [(b, w)])" and b: "h b = None" and w: "dup_value copy v = Some w"
  shows "dup_outcome alloc h copy ys ((a, v) # xs) r"
proof -
  have c1: "\<And>c. c \<notin> insert b (addrs ys) \<Longrightarrow> h1 c = h c"
    "l_dup c1 = l_dup copy" "l_free c1 = l_free copy" "l_match c1 = l_match copy" using e by (auto simp: edits_def)
  have dc: "dup_value c1 = dup_value copy" using c1(2) by (simp add: dup_value_def fun_eq_iff)
  obtain h' q freed where r: "r = (h', q, freed)" by (cases r) auto
  show ?thesis
  proof (cases q)
    case None
    have "h' c = (if c \<in> addrs ys then None else h c)" for c
      using o r None c1(1) [of c] b by (cases "c = b") (auto simp: dup_outcome_def)
    moreover have f: "dup_failed alloc h1 c1 (ys @ [(b, w)]) xs freed" using o r None by (simp add: dup_outcome_def)
    moreover have "dup_failed alloc h copy ys ((a, v) # xs) freed" by (rule dup_failed_Cons [OF f c1(1) b w dc c1(3)])
    ultimately show ?thesis unfolding r None dup_outcome_def prod.case option.case by blast
  next
    case (Some l')
    obtain zs where zs: "list_rep h' l' ((ys @ [(b, w)]) @ zs)" "map Some (map snd zs) = map (dup_value copy) (map snd xs)"
      "\<forall>a \<in> addrs zs. h1 a = None" "l_dup l' = l_dup copy" "l_free l' = l_free copy" "l_match l' = l_match copy"
      and fr: "freed = []" and keep: "\<And>c. h1 c \<noteq> None \<Longrightarrow> c \<notin> addrs (ys @ [(b, w)]) \<Longrightarrow> h' c = h1 c"
      using o r Some dc c1 by (auto simp: dup_outcome_def)
    have "h c = None" if c: "c \<in> addrs zs" for c
    proof -
      have "c \<notin> insert b (addrs ys)" using c zs(1) by (auto simp: list_rep_def)
      from c1(1) [OF this] show ?thesis using zs(3) c by simp
    qed
    then have new: "\<forall>c \<in> addrs ((b, w) # zs). h c = None" using b by auto
    have "h' c = h c" if "h c \<noteq> None" "c \<notin> addrs ys" for c
      using that b c1(1) [of c] keep [of c] by (cases "c = b") auto
    then show ?thesis unfolding r Some dup_outcome_def prod.case option.case
      using zs new w fr by (intro conjI allI impI exI [of _ "(b, w) # zs"]) simp_all
  qed
qed

lemma dup_loop_at:
  assumes al: "allocates alloc"
  shows "iter_at AL_START_HEAD h it xs \<Longrightarrow> list_rep h copy ys \<Longrightarrow> addrs xs \<inter> addrs ys = {} \<Longrightarrow> length xs + length ys < 2 ^ 64 \<Longrightarrow>
    \<exists>r. dup_loop alloc h copy it = Some r \<and> dup_outcome alloc h copy ys xs r"
proof (induction xs arbitrary: h it copy ys)
  case Nil
  then show ?case using next_Nil [OF Nil(1)]
    by (subst dup_loop.simps) (auto simp: dup_outcome_def intro!: exI [of _ "[]"])
next
  case (Cons x xs)
  obtain a v where x: "x = (a, v)" by fastforce
  obtain it' n where n: "listNext h it = Some (Some a, it')" "iter_at AL_START_HEAD h it' xs" "h a = Some n" "n_value n = v"
    using next_Cons [of AL_START_HEAD h it a v xs] Cons.prems(1) x by auto
  have dv: "(case l_dup copy of Some d \<Rightarrow> d (n_value n) | None \<Rightarrow> Some (n_value n)) = dup_value copy v"
    using n(4) by (cases "l_dup copy") (simp_all add: dup_value_def)
  obtain he l0 where he: "listEmpty h copy = Some (he, l0, if l_free copy then map snd ys else [])"
    "\<forall>a. he a = (if a \<in> addrs ys then None else h a)" using empty_at [OF Cons.prems(2)] by blast
  consider "dup_value copy v = None" | w where "dup_value copy v = Some w" "alloc h = None"
    | w b where "dup_value copy v = Some w" "alloc h = Some b" by (cases "dup_value copy v"; cases "alloc h") auto
  then show ?case
  proof cases
    case 1
    then have "dup_loop alloc h copy it = Some (he, None, if l_free copy then map snd ys else [])"
      using n he(1) by (subst dup_loop.simps) (simp add: dv listRelease_def)
    then show ?thesis using dup_outcome_fail [OF he(2) Cons.prems(2), of v "[]" alloc a xs] 1 x by simp
  next
    case (2 w)
    then have "dup_loop alloc h copy it = Some (he, None, (if l_free copy then [w] else []) @ (if l_free copy then map snd ys else []))"
      using n he(1) by (subst dup_loop.simps) (simp add: dv listRelease_def listAddNodeTail_def)
    then show ?thesis using dup_outcome_fail [OF he(2) Cons.prems(2), of v "[w]" alloc a xs] 2 x by simp
  next
    case (3 w b)
    have b: "h b = None" using al 3(2) by (simp add: allocates_def)
    obtain h1 c1 where r: "listAddNodeTail h copy (Some b) w = Some (Some (h1, c1))"
      "edits h copy (insert b (addrs ys)) (Some (h1, c1)) (ys @ [(b, w)])"
      using add_tail [OF Cons.prems(2) b, of w] Cons.prems(4) by auto
    have c1: "list_rep h1 c1 (ys @ [(b, w)])" "\<And>c. c \<notin> insert b (addrs ys) \<Longrightarrow> h1 c = h c" using r(2) by (auto simp: edits_def)
    have step: "dup_loop alloc h copy it = dup_loop alloc h1 c1 it'"
      using n 3 r(1) by (subst dup_loop.simps) (simp add: dv)
    have bx: "b \<notin> addrs xs" using n(2) b dseg_alloc [of h _ xs None b] by (auto simp: iter_at_def)
    have fr: "iter_at AL_START_HEAD h1 it' xs" using Cons.prems(3) bx x by (intro iter_frame [OF n(2)] c1(2)) auto
    have dis: "addrs xs \<inter> addrs (ys @ [(b, w)]) = {}" using Cons.prems(3) bx x by auto
    have len: "length xs + length (ys @ [(b, w)]) < 2 ^ 64" using Cons.prems(4) by simp
    obtain q where "dup_loop alloc h1 c1 it' = Some q" "dup_outcome alloc h1 c1 (ys @ [(b, w)]) xs q"
      using Cons.IH [OF fr c1(1) dis len] by blast
    then show ?thesis using step dup_outcome_Cons [OF _ r(2) b 3(1), of alloc xs q a] x by simp
  qed
qed

section \<open>Sequences of operations\<close>

text \<open>What a client does to a list: nodes are addressed by their index, and an index out of range does nothing.\<close>

datatype 'v list_op = AddHead 'v | AddTail 'v | Insert int 'v bool | Delete int | RotateTailToHead | RotateHeadToTail

definition no_free :: "('v heap \<times> 'v list_hdr) option \<Rightarrow> ('v heap \<times> 'v list_hdr \<times> 'v list) option" where
  "no_free r = map_option (\<lambda>(h, l). (h, l, [])) r"

definition or_same :: "'v heap \<Rightarrow> 'v list_hdr \<Rightarrow> ('v heap \<times> 'v list_hdr) option option \<Rightarrow> ('v heap \<times> 'v list_hdr \<times> 'v list) option" where
  "or_same h l r = do { x \<leftarrow> r; no_free (Some (case x of None \<Rightarrow> (h, l) | Some hl \<Rightarrow> hl)) }"

fun list_exec :: "('v heap \<Rightarrow> nat option) \<Rightarrow> 'v list_op \<Rightarrow> 'v heap \<Rightarrow> 'v list_hdr \<Rightarrow> ('v heap \<times> 'v list_hdr \<times> 'v list) option" where
  "list_exec alloc (AddHead v) h l = or_same h l (listAddNodeHead h l (alloc h) v)"
| "list_exec alloc (AddTail v) h l = or_same h l (listAddNodeTail h l (alloc h) v)"
| "list_exec alloc (Insert idx v after) h l = do {
     n \<leftarrow> listIndex h l idx;
     case n of None \<Rightarrow> Some (h, l, []) | Some p \<Rightarrow> or_same h l (listInsertNode h l (alloc h) p v after)
   }"
| "list_exec alloc (Delete idx) h l = do {
     n \<leftarrow> listIndex h l idx;
     case n of None \<Rightarrow> Some (h, l, []) | Some p \<Rightarrow> listDelNode h l p
   }"
| "list_exec alloc RotateTailToHead h l = no_free (listRotateTailToHead h l)"
| "list_exec alloc RotateHeadToTail h l = no_free (listRotateHeadToTail h l)"

text \<open>The same on sequences of values; the second component is what is given to the free method.\<close>

definition seq_index :: "'v list \<Rightarrow> int \<Rightarrow> nat option" where
  "seq_index xs idx =
     (let i = (if idx < 0 then int (length xs) + idx else idx) in
      if 0 \<le> i \<and> i < int (length xs) then Some (nat i) else None)"

fun seq_exec :: "bool \<Rightarrow> 'v list_op \<Rightarrow> 'v list \<Rightarrow> 'v list \<times> 'v list" where
  "seq_exec fr (AddHead v) xs = (v # xs, [])"
| "seq_exec fr (AddTail v) xs = (xs @ [v], [])"
| "seq_exec fr (Insert idx v after) xs =
     (case seq_index xs idx of
        None \<Rightarrow> (xs, [])
      | Some i \<Rightarrow> (let k = (if after then Suc i else i) in (take k xs @ v # drop k xs, [])))"
| "seq_exec fr (Delete idx) xs =
     (case seq_index xs idx of
        None \<Rightarrow> (xs, [])
      | Some i \<Rightarrow> (take i xs @ drop (Suc i) xs, if fr then [xs ! i] else []))"
| "seq_exec fr RotateTailToHead xs = (if xs = [] then [] else last xs # butlast xs, [])"
| "seq_exec fr RotateHeadToTail xs = (if xs = [] then [] else tl xs @ [hd xs], [])"

fun list_run :: "('v heap \<Rightarrow> nat option) \<Rightarrow> 'v list_op list \<Rightarrow> 'v heap \<Rightarrow> 'v list_hdr \<Rightarrow> ('v heap \<times> 'v list_hdr \<times> 'v list) option" where
  "list_run alloc [] h l = Some (h, l, [])"
| "list_run alloc (c # cs) h l = do {
     (h1, l1, f1) \<leftarrow> list_exec alloc c h l;
     (h2, l2, f2) \<leftarrow> list_run alloc cs h1 l1;
     Some (h2, l2, f1 @ f2)
   }"

fun seq_run :: "bool \<Rightarrow> 'v list_op list \<Rightarrow> 'v list \<Rightarrow> 'v list \<times> 'v list" where
  "seq_run fr [] xs = (xs, [])"
| "seq_run fr (c # cs) xs = (let (ys, f1) = seq_exec fr c xs; (zs, f2) = seq_run fr cs ys in (zs, f1 @ f2))"

text \<open>\<^verbatim>\<open>zmalloc\<close> finds an unused address as long as finitely many are in use.\<close>

definition allocator :: "('v heap \<Rightarrow> nat option) \<Rightarrow> bool" where
  "allocator alloc \<longleftrightarrow> (\<forall>h. finite (dom h) \<longrightarrow> (\<exists>a. alloc h = Some a \<and> h a = None))"

definition list_sim :: "'v heap \<Rightarrow> 'v list_hdr \<Rightarrow> 'v list \<Rightarrow> bool" where
  "list_sim h l vs \<longleftrightarrow> (\<exists>xs. list_rep h l xs \<and> map snd xs = vs) \<and> finite (dom h)"

lemma edits_sim:
  assumes "edits h l A (Some (h', l')) xs" "finite A" "finite (dom h)"
  shows "list_sim h' l' (map snd xs) \<and> l_free l' = l_free l"
proof -
  have "dom h' \<subseteq> dom h \<union> A" using assms(1) by (auto simp: edits_def)
  then have "finite (dom h')" using assms(2,3) by (meson finite_UnI finite_subset)
  then show ?thesis using assms(1) by (auto simp: edits_def list_sim_def)
qed

lemma node_seq_index: "node_index xs idx = map_option (\<lambda>i. fst (xs ! i)) (seq_index (map snd xs) idx)"
  by (simp add: node_index_def seq_index_def Let_def)

lemma seq_index_less: "seq_index vs idx = Some i \<Longrightarrow> i < length vs"
  by (auto simp: seq_index_def Let_def split: if_splits)

lemma split_at: "i < length xs \<Longrightarrow> xs = take i xs @ (fst (xs ! i), snd (xs ! i)) # drop (Suc i) xs"
  by (simp add: id_take_nth_drop [symmetric])

lemma rotate_tail_sim:
  assumes l: "list_rep h l xs" and fin: "finite (dom h)"
  shows "\<exists>h' l'. listRotateTailToHead h l = Some (h', l') \<and> l_free l' = l_free l \<and>
    list_sim h' l' (if map snd xs = [] then [] else last (map snd xs) # butlast (map snd xs))"
proof (cases xs rule: rev_cases)
  case Nil
  then have "listRotateTailToHead h l = Some (h, l)" using l by (simp add: listRotateTailToHead_def list_rep_def)
  then show ?thesis using l fin Nil by (auto simp: list_sim_def)
next
  case (snoc ys x)
  obtain p w where x: "x = (p, w)" by fastforce
  obtain h' l' where r: "listRotateTailToHead h l = Some (h', l')"
    "edits h l (addrs (ys @ [(p, w)])) (Some (h', l')) ((p, w) # ys)"
    using rotate_tail [OF l [unfolded snoc x]] by (auto simp: edits_def)
  then show ?thesis using edits_sim [OF r(2) _ fin] snoc x by simp
qed

lemma rotate_head_sim:
  assumes l: "list_rep h l xs" and fin: "finite (dom h)"
  shows "\<exists>h' l'. listRotateHeadToTail h l = Some (h', l') \<and> l_free l' = l_free l \<and>
    list_sim h' l' (if map snd xs = [] then [] else tl (map snd xs) @ [hd (map snd xs)])"
proof (cases xs)
  case Nil
  then have "listRotateHeadToTail h l = Some (h, l)" using l by (simp add: listRotateHeadToTail_def list_rep_def)
  then show ?thesis using l fin Nil by (auto simp: list_sim_def)
next
  case (Cons x ys)
  obtain p w where x: "x = (p, w)" by fastforce
  obtain h' l' where r: "listRotateHeadToTail h l = Some (h', l')"
    "edits h l (addrs ((p, w) # ys)) (Some (h', l')) (ys @ [(p, w)])"
    using rotate_head [OF l [unfolded Cons x]] by (auto simp: edits_def)
  then show ?thesis using edits_sim [OF r(2) _ fin] Cons x by simp
qed

lemma insert_sim:
  assumes l: "list_rep h l (ys @ (p, w) # zs)" and a: "h a = None" and fin: "finite (dom h)"
    and len: "Suc (length (ys @ (p, w) # zs)) < 2 ^ 64"
  shows "\<exists>h' l'. listInsertNode h l (Some a) p v after = Some (Some (h', l')) \<and> l_free l' = l_free l \<and>
    list_sim h' l' (map snd ys @ (if after then [w, v] else [v, w]) @ map snd zs)"
proof -
  have n: "a \<notin> addrs (ys @ (p, w) # zs)" using new_node_list [OF l a] by simp
  obtain h' l' where r: "listInsertNode h l (Some a) p v after = Some (Some (h', l'))"
    "edits h l (insert a (addrs (ys @ (p, w) # zs))) (Some (h', l')) (ys @ (if after then [(p, w), (a, v)] else [(a, v), (p, w)]) @ zs)"
    using insert_node_after [OF l n len, of v] insert_node_before [OF l n len, of v] by (cases after) auto
  have "list_sim h' l' (map snd (ys @ (if after then [(p, w), (a, v)] else [(a, v), (p, w)]) @ zs)) \<and> l_free l' = l_free l"
    by (rule edits_sim [OF r(2) _ fin]) simp
  then show ?thesis using r(1) by (cases after) simp_all
qed

lemma delete_sim:
  assumes l: "list_rep h l (ys @ (p, w) # zs)" and fin: "finite (dom h)"
  shows "\<exists>h' l'. listDelNode h l p = Some (h', l', if l_free l then [w] else []) \<and> l_free l' = l_free l \<and>
    list_sim h' l' (map snd ys @ map snd zs)"
proof -
  obtain h' l' where r: "listDelNode h l p = Some (h', l', if l_free l then [w] else [])"
    "edits h l (addrs (ys @ (p, w) # zs)) (Some (h', l')) (ys @ zs)" using del_node [OF l] by blast
  have "list_sim h' l' (map snd (ys @ zs)) \<and> l_free l' = l_free l" by (rule edits_sim [OF r(2) _ fin]) simp
  then show ?thesis using r(1) by simp
qed

lemma list_exec_sim:
  assumes al: "allocator alloc" and s: "list_sim h l vs" and len: "Suc (length vs) < 2 ^ 64"
  shows "\<exists>h' l'. list_exec alloc c h l = Some (h', l', snd (seq_exec (l_free l) c vs)) \<and>
    list_sim h' l' (fst (seq_exec (l_free l) c vs)) \<and> l_free l' = l_free l"
proof -
  obtain xs where xs: "list_rep h l xs" "vs = map snd xs" and fin: "finite (dom h)" using s by (auto simp: list_sim_def)
  obtain a where a: "alloc h = Some a" "h a = None" using al fin by (auto simp: allocator_def)
  have len': "Suc (length xs) < 2 ^ 64" using len xs(2) by simp
  have fa: "finite (insert a (addrs ys))" for ys :: "(nat \<times> 'a) list" by simp
  have idx: "listIndex h l i = Some (map_option (\<lambda>i. fst (xs ! i)) (seq_index vs i))" for i
    using index_at [OF xs(1), of i] node_seq_index [of xs i] xs(2) by simp
  have at: "\<exists>ys p w zs. xs = ys @ (p, w) # zs \<and> length ys = k \<and> listIndex h l i = Some (Some p)" if "seq_index vs i = Some k" for i k
  proof -
    have k: "k < length xs" using seq_index_less [OF that] xs(2) by simp
    show ?thesis
      by (intro exI [of _ "take k xs"] exI [of _ "fst (xs ! k)"] exI [of _ "snd (xs ! k)"] exI [of _ "drop (Suc k) xs"] conjI)
        (use k split_at [of k xs] idx [of i] that in simp_all)
  qed
  show ?thesis
  proof (cases c)
    case (AddHead v)
    obtain h' l' where "listAddNodeHead h l (Some a) v = Some (Some (h', l'))" "edits h l (insert a (addrs xs)) (Some (h', l')) ((a, v) # xs)"
      using add_head [OF xs(1) a(2) len'] by fastforce
    then show ?thesis using edits_sim [OF _ fa fin] AddHead a(1) xs(2) by (fastforce simp: or_same_def no_free_def)
  next
    case (AddTail v)
    obtain h' l' where "listAddNodeTail h l (Some a) v = Some (Some (h', l'))" "edits h l (insert a (addrs xs)) (Some (h', l')) (xs @ [(a, v)])"
      using add_tail [OF xs(1) a(2) len'] by fastforce
    then show ?thesis using edits_sim [OF _ fa fin] AddTail a(1) xs(2) by (fastforce simp: or_same_def no_free_def)
  next
    case (Insert i v after)
    show ?thesis
    proof (cases "seq_index vs i")
      case (Some k)
      obtain ys p w zs where sp: "xs = ys @ (p, w) # zs" "length ys = k" "listIndex h l i = Some (Some p)" using at [OF Some] by blast
      have "fst (seq_exec (l_free l) c vs) = map snd ys @ (if after then [w, v] else [v, w]) @ map snd zs"
        using Insert Some xs(2) sp(1,2) by simp
      then show ?thesis using insert_sim [OF xs(1) [unfolded sp(1)] a(2) fin, of v after] len' Insert Some a(1) sp(1,3)
        by (auto simp: or_same_def no_free_def)
    qed (use s Insert idx [of i] in auto)
  next
    case (Delete i)
    show ?thesis
    proof (cases "seq_index vs i")
      case (Some k)
      obtain ys p w zs where sp: "xs = ys @ (p, w) # zs" "length ys = k" "listIndex h l i = Some (Some p)" using at [OF Some] by blast
      have "seq_exec (l_free l) c vs = (map snd ys @ map snd zs, if l_free l then [w] else [])"
        using Delete Some xs(2) sp(1,2) by (simp add: nth_append)
      then show ?thesis using delete_sim [OF xs(1) [unfolded sp(1)] fin] Delete sp(3) by auto
    qed (use s Delete idx [of i] in auto)
  next
    case RotateTailToHead
    then show ?thesis using rotate_tail_sim [OF xs(1) fin] xs(2) by (auto simp: no_free_def)
  next
    case RotateHeadToTail
    then show ?thesis using rotate_head_sim [OF xs(1) fin] xs(2) by (auto simp: no_free_def)
  qed
qed

lemma seq_exec_length: "length (fst (seq_exec fr c vs)) \<le> Suc (length vs)"
  by (cases c) (auto simp: Let_def split: option.split dest: seq_index_less)

section \<open>Walking a list while deleting from it\<close>

text \<open>
  The loop that the comment on \<^verbatim>\<open>listNext\<close> allows: the node just returned may be deleted before the next one is
  asked for. Besides the heap and the header it returns the values visited and the values given to the
  free method.
\<close>

partial_function (option) walk_delete ::
    "('v \<Rightarrow> bool) \<Rightarrow> 'v heap \<Rightarrow> 'v list_hdr \<Rightarrow> listIter \<Rightarrow> 'v list \<Rightarrow> 'v list \<Rightarrow> ('v heap \<times> 'v list_hdr \<times> 'v list \<times> 'v list) option" where
  "walk_delete P h l iter seen freed = do {
     (node, iter') \<leftarrow> listNext h iter;
     case node of
       None \<Rightarrow> Some (h, l, seen, freed)
     | Some p \<Rightarrow> do {
         n \<leftarrow> h p;
         if P (n_value n)
         then do {
           (h', l', f) \<leftarrow> listDelNode h l p;
           walk_delete P h' l' iter' (seen @ [n_value n]) (freed @ f)
         }
         else walk_delete P h l iter' (seen @ [n_value n]) freed
       }
   }"

text \<open>The whole list when the nodes \<open>ys\<close> have been visited, in this order, and \<open>zs\<close> are to come.\<close>

definition walked :: "direction \<Rightarrow> 'a list \<Rightarrow> 'a list \<Rightarrow> 'a list" where
  "walked dir ys zs = (case dir of AL_START_HEAD \<Rightarrow> ys @ zs | AL_START_TAIL \<Rightarrow> rev zs @ rev ys)"

lemma walked_simps [simp]: "walked dir (ys @ [x]) zs = walked dir ys (x # zs)"
  "map f (walked dir ys zs) = walked dir (map f ys) (map f zs)"
  by (cases dir; simp add: walked_def rev_map)+

lemma walked_at: "\<exists>us vs. walked dir ys (x # zs) = us @ x # vs \<and> walked dir ys zs = us @ vs"
  by (cases dir) (auto simp: walked_def)

lemma iter_walked: "iter_at dir h it zs \<Longrightarrow> list_rep h' l (walked dir ys zs) \<Longrightarrow> iter_at dir h' it zs"
  by (cases dir) (auto simp: iter_at_def walked_def list_rep_def)

lemma walk_delete_at:
  "list_rep h l (walked dir ys zs) \<Longrightarrow> iter_at dir h it zs \<Longrightarrow>
    \<exists>h' l'. walk_delete P h l it seen freed = Some (h', l', seen @ map snd zs,
        freed @ (if l_free l then filter P (map snd zs) else [])) \<and>
      list_rep h' l' (walked dir ys (filter (\<lambda>x. \<not> P (snd x)) zs))"
proof (induction zs arbitrary: h l it ys seen freed)
  case Nil
  then show ?case using next_Nil [OF Nil(2)] by (subst walk_delete.simps) simp
next
  case (Cons x zs)
  obtain a v where x: "x = (a, v)" by fastforce
  obtain it' n where n: "listNext h it = Some (Some a, it')" "iter_at dir h it' zs" "h a = Some n" "n_value n = v"
    using next_Cons [of dir h it a v zs] Cons.prems(2) x by auto
  show ?case
  proof (cases "P v")
    case True
    obtain us vs where uv: "walked dir ys ((a, v) # zs) = us @ (a, v) # vs" "walked dir ys zs = us @ vs"
      using walked_at by metis
    obtain h1 l1 where d: "listDelNode h l a = Some (h1, l1, if l_free l then [v] else [])"
      "edits h l (addrs (us @ (a, v) # vs)) (Some (h1, l1)) (us @ vs)"
      using del_node [of h l us a v vs] Cons.prems(1) uv x by auto
    have l1: "list_rep h1 l1 (walked dir ys zs)" "l_free l1 = l_free l" using d(2) uv(2) by (auto simp: edits_def)
    have step: "walk_delete P h l it seen freed =
        walk_delete P h1 l1 it' (seen @ [v]) (freed @ (if l_free l then [v] else []))"
      using n d(1) True by (subst walk_delete.simps) simp
    show ?thesis using Cons.IH [OF l1(1) iter_walked [OF n(2) l1(1)], of "seen @ [v]" "freed @ (if l_free l then [v] else [])"]
      step l1(2) True x by auto
  next
    case False
    have step: "walk_delete P h l it seen freed = walk_delete P h l it' (seen @ [v]) freed"
      using n False by (subst walk_delete.simps) simp
    show ?thesis using Cons.IH [of h l "ys @ [(a, v)]" it' "seen @ [v]" freed] Cons.prems(1) n(2) step False x by auto
  qed
qed

section \<open>Properties\<close>

text \<open>
  (C28) Every sequence of additions at both ends, insertions before and behind a node, deletions and
  rotations acts on a linked list as on the sequence of its values: it never follows a null or a freed
  pointer, it keeps the links in both directions and the length, and it gives the deleted values, and
  no others, to the free method in order.
\<close>

theorem adlist_refines_sequence:
  assumes "allocator alloc" "list_sim h l vs" "length vs + length cs < 2 ^ 64"
  shows "\<exists>h' l'. list_run alloc cs h l = Some (h', l', snd (seq_run (l_free l) cs vs)) \<and>
    list_sim h' l' (fst (seq_run (l_free l) cs vs))"
  using assms(2,3)
proof (induction cs arbitrary: h l vs)
  case (Cons c cs)
  have len: "Suc (length vs) < 2 ^ 64" using Cons.prems(2) by simp
  obtain h1 l1 where e: "list_exec alloc c h l = Some (h1, l1, snd (seq_exec (l_free l) c vs))"
    "list_sim h1 l1 (fst (seq_exec (l_free l) c vs))" "l_free l1 = l_free l"
    using list_exec_sim [OF assms(1) Cons.prems(1) len, of c] by blast
  have "length (fst (seq_exec (l_free l) c vs)) + length cs < 2 ^ 64"
    using seq_exec_length [of "l_free l" c vs] Cons.prems(2) by simp
  from Cons.IH [OF e(2) this] obtain h2 l2 where
    "list_run alloc cs h1 l1 = Some (h2, l2, snd (seq_run (l_free l) cs (fst (seq_exec (l_free l) c vs))))"
    "list_sim h2 l2 (fst (seq_run (l_free l) cs (fst (seq_exec (l_free l) c vs))))" using e(3) by auto
  then show ?case using e(1) by (simp add: Let_def case_prod_beta)
qed simp

lemma least_allocator: "allocator (\<lambda>h. Some (LEAST a. h a = None))"
  unfolding allocator_def
proof (intro allI impI)
  fix h :: "'a heap"
  assume "finite (dom h)"
  then obtain a where "h a = None" by (metis ex_new_if_finite infinite_UNIV_nat domIff)
  then have "h (LEAST a. h a = None) = None" by (rule LeastI)
  then show "\<exists>a. Some (LEAST a. h a = None) = Some a \<and> h a = None" by blast
qed

lemma create_sim: "list_sim Map.empty new_list []"
  by (auto simp: list_sim_def list_rep_def new_list_def)

theorem adlist_refines_sequence_witness:
  "\<exists>h' l'. list_run (\<lambda>h. Some (LEAST a. h a = None)) [AddTail (1::int), AddHead 2, Insert (- 1) 3 False, Delete 0] Map.empty new_list =
      Some (h', l', []) \<and> list_sim h' l' [3, 1]"
proof -
  have "seq_run False [AddTail (1::int), AddHead 2, Insert (- 1) 3 False, Delete 0] [] = ([3, 1], [])" by code_simp
  then show ?thesis
    using adlist_refines_sequence [OF least_allocator create_sim,
        of "[AddTail (1::int), AddHead 2, Insert (- 1) 3 False, Delete 0]"]
    by (simp add: new_list_def)
qed

text \<open>
  (C29) A loop over \<^verbatim>\<open>listNext\<close>, in either direction, that deletes the node it is at whenever a condition holds
  comes to an end: it visits every node of the list exactly once, in order, never follows a freed
  pointer, and leaves the well-formed list of the values that were not deleted.
\<close>

theorem listNext_delete_current:
  assumes "list_rep h l xs"
  shows "\<exists>h' l' ys. walk_delete P h l (listGetIterator l dir) [] [] =
      Some (h', l', walked dir [] (map snd xs), if l_free l then filter P (walked dir [] (map snd xs)) else []) \<and>
    list_rep h' l' ys \<and> map snd ys = filter (\<lambda>v. \<not> P v) (map snd xs)"
proof (cases dir)
  case AL_START_HEAD
  have "list_rep h l (walked dir [] xs)" using assms AL_START_HEAD by (simp add: walked_def)
  from walk_delete_at [OF this, of "listGetIterator l dir" P "[]" "[]"] rewind_at(1) [OF assms] show ?thesis
    using AL_START_HEAD by (fastforce simp: get_iterator walked_def filter_map o_def)
next
  case AL_START_TAIL
  have "list_rep h l (walked dir [] (rev xs))" using assms AL_START_TAIL by (simp add: walked_def)
  from walk_delete_at [OF this, of "listGetIterator l dir" P "[]" "[]"] rewind_at(2) [OF assms] show ?thesis
    using AL_START_TAIL by (fastforce simp: get_iterator walked_def filter_map o_def rev_map rev_filter)
qed

definition three_nodes :: "int heap" where
  "three_nodes = [10 \<mapsto> \<lparr>n_prev = None, n_next = Some 20, n_value = 1\<rparr>,
     20 \<mapsto> \<lparr>n_prev = Some 10, n_next = Some 30, n_value = 2\<rparr>,
     30 \<mapsto> \<lparr>n_prev = Some 20, n_next = None, n_value = 3\<rparr>]"

definition three_list :: "int list_hdr" where
  "three_list = new_list\<lparr>l_head := Some 10, l_tail := Some 30, l_free := True, l_len := 3\<rparr>"

lemma three_rep: "list_rep three_nodes three_list [(10, 1), (20, 2), (30, 3)]"
  by (simp add: list_rep_def three_nodes_def three_list_def new_list_def)

theorem listNext_delete_current_witness:
  "\<exists>h' l' ys. walk_delete odd three_nodes three_list (listGetIterator three_list AL_START_TAIL) [] [] =
      Some (h', l', [3, 2, 1], [3, 1]) \<and> list_rep h' l' ys \<and> map snd ys = [2]"
  using listNext_delete_current [OF three_rep, of odd AL_START_TAIL]
  by (simp add: walked_def three_list_def)

text \<open>
  (C30) \<^verbatim>\<open>listDup\<close> returns, whatever the allocator and the copying method do, and keeps the original list. It gives
  a new list of the copied values on fresh nodes, with the methods of the original, or the null pointer. That is returned only if the header
  cannot be allocated, and then nothing is freed, or if, behind some number of nodes that were copied, the copy of the next value or the allocation of its node
  fails; then the heap is as before, the nodes of the partial copy being released, and, if the list has a free method, every value that was copied, the one without a node included,
  and no other has been given to it once.
\<close>

theorem listDup_copies:
  assumes "list_rep h l xs" "allocates alloc"
  shows "\<exists>h' r freed. listDup got alloc h l = Some (h', r, freed) \<and> list_rep h' l xs \<and>
    (case r of
       Some l' \<Rightarrow> freed = [] \<and> (\<exists>zs. list_rep h' l' zs \<and> map Some (map snd zs) = map (dup_value l) (map snd xs) \<and>
         (\<forall>a \<in> addrs zs. h a = None) \<and> l_dup l' = l_dup l \<and> l_free l' = l_free l \<and> l_match l' = l_match l)
     | None \<Rightarrow> h' = h \<and> (if got then dup_failed alloc h l [] xs freed else freed = []))"
proof (cases got)
  case False
  then show ?thesis using assms(1) by (auto simp: listDup_def listCreate_def)
next
  case True
  let ?c = "new_list\<lparr>l_dup := l_dup l, l_free := l_free l, l_match := l_match l\<rparr>"
  have c: "list_rep h ?c []" by (simp add: list_rep_def new_list_def)
  have e: "addrs xs \<inter> addrs ([] :: (nat \<times> 'a) list) = {}" by simp
  have len: "length xs + length ([] :: (nat \<times> 'a) list) < 2 ^ 64" using assms(1) by (simp add: list_rep_def)
  have dv: "dup_value ?c = dup_value l" by (simp add: dup_value_def fun_eq_iff)
  have fc: "freed_all ?c = freed_all l" by (rule freed_all_cong) simp
  have df: "dup_failed alloc h ?c [] xs fs = dup_failed alloc h l [] xs fs" for fs unfolding dup_failed_def dv fc ..
  obtain h' r freed where d: "listDup got alloc h l = Some (h', r, freed)" "dup_outcome alloc h ?c [] xs (h', r, freed)"
    using dup_loop_at [OF assms(2) rewind_at(1) [OF assms(1)] c e len] True by (auto simp: listDup_def listCreate_def)
  have "h' a = h a" if "h a \<noteq> None" for a using d(2) that by (cases r) (auto simp: dup_outcome_def)
  then have "h' a = h a" if "a \<in> addrs xs" for a
    using dseg_alloc [OF _ that] assms(1) by (fastforce simp: list_rep_def)
  then have "list_rep h' l xs" using assms(1) dseg_frame [of xs h' h] by (simp add: list_rep_def)
  moreover have "h' = h" if "r = None" using d(2) that by (intro ext) (simp add: dup_outcome_def)
  ultimately show ?thesis using d df dv True by (intro exI [of _ h'] exI [of _ r] exI [of _ freed]) (cases r; simp add: dup_outcome_def)
qed

theorem listDup_copies_witness:
  "listDup True (\<lambda>h. if h 40 = None then Some 40 else None) three_nodes three_list = Some (three_nodes, None, [2, 1]) \<and>
    dup_failed (\<lambda>h. if h 40 = None then Some 40 else None) three_nodes three_list [] [(10, 1), (20, 2), (30, 3)] [2, 1]"
proof -
  have "allocates (\<lambda>h :: int heap. if h 40 = None then Some 40 else None)" by (simp add: allocates_def)
  note t = listDup_copies [OF three_rep this, of True]
  have "map_option (\<lambda>(_, r, freed). (case r of None \<Rightarrow> True | Some _ \<Rightarrow> False, freed))
      (listDup True (\<lambda>h. if h 40 = None then Some 40 else None) three_nodes three_list) = Some (True, [2, 1])"
    by (simp add: listDup_def listCreate_def three_list_def three_nodes_def new_list_def listRewind_def, subst dup_loop.simps,
      simp add: listNext_def listAddNodeTail_def new_node_def listLinkNodeTail_def set_prev_def set_next_def, subst dup_loop.simps,
      simp add: listNext_def listAddNodeTail_def new_node_def listLinkNodeTail_def set_prev_def set_next_def listRelease_def listEmpty_def)
  then show ?thesis using t by (auto split: option.splits)
qed

end
