(* ===== verification/Zskiplist.thy ===== *)
theory Zskiplist
  imports Prelude "HOL-Library.Monad_Syntax" "HOL-Library.List_Lexorder" "HOL-Library.Product_Lexorder"
begin

text \<open>
  The skip list of \<^verbatim>\<open>t_zset.c\<close>, which keeps the members of a sorted set in the order of their scores. The
  heap maps the addresses of the allocated nodes to their contents; a null or dangling pointer and a
  level that a node does not have are \<open>None\<close>. Scores are the doubles other than NaN, of which the code
  uses the linear order and the constant 0 only, so that the type of scores is a parameter; the
  assertion of \<^verbatim>\<open>zslInsert\<close> that a score is not NaN holds by this choice. Counts, spans and sizes are 64-bit
  words, with C's wrap-around.
\<close>

section \<open>Data\<close>

record zskiplistLevel =
  lv_forward :: "nat option"
  lv_span :: "64 word"

record 's zskiplistNode =
  zn_ele :: "bytes option"
  zn_score :: 's
  zn_backward :: "nat option"
  zn_level :: "zskiplistLevel list"

type_synonym 's zsl_heap = "nat \<rightharpoonup> 's zskiplistNode"

record zskiplist =
  z_header :: nat
  z_tail :: "nat option"
  z_length :: "64 word"
  z_level :: nat
  z_alloc_size :: "64 word"

text \<open>What the allocators report: the usable size of the memory at an address, and the size of a string.\<close>

record zsl_env =
  usable_size :: "nat \<Rightarrow> 64 word"
  sdsAllocSize :: "bytes \<Rightarrow> 64 word"

definition ZSKIPLIST_MAXLEVEL :: nat where
  "ZSKIPLIST_MAXLEVEL = 32"

definition ZSKIPLIST_MAX_SEARCH :: int where
  "ZSKIPLIST_MAX_SEARCH = 10"

text \<open>\<^verbatim>\<open>memcmp\<close> of two blocks of the same size, and the comparison of strings: only the sign matters.\<close>

fun memcmp :: "bytes \<Rightarrow> bytes \<Rightarrow> int" where
  "memcmp (a # as) (b # bs) = (if a = b then memcmp as bs else uint a - uint b)"
| "memcmp _ _ = 0"

definition sdscmp :: "bytes \<Rightarrow> bytes \<Rightarrow> int" where
  "sdscmp s1 s2 =
     (let l1 = length s1; l2 = length s2; minlen = (if l1 < l2 then l1 else l2);
          cmp = memcmp (take minlen s1) (take minlen s2)
      in if cmp = 0 then (if l1 > l2 then 1 else if l1 < l2 then - 1 else 0) else cmp)"

section \<open>Access to nodes\<close>

definition get_level :: "'s zsl_heap \<Rightarrow> nat \<Rightarrow> nat \<Rightarrow> zskiplistLevel option" where
  "get_level h a i = do { n \<leftarrow> h a; if i < length (zn_level n) then Some (zn_level n ! i) else None }"

definition set_level :: "'s zsl_heap \<Rightarrow> nat \<Rightarrow> nat \<Rightarrow> (zskiplistLevel \<Rightarrow> zskiplistLevel) \<Rightarrow> 's zsl_heap option" where
  "set_level h a i f = do {
     n \<leftarrow> h a;
     if i < length (zn_level n)
     then Some (h(a \<mapsto> n\<lparr>zn_level := (zn_level n)[i := f (zn_level n ! i)]\<rparr>))
     else None
   }"

definition set_backward :: "'s zsl_heap \<Rightarrow> nat \<Rightarrow> nat option \<Rightarrow> 's zsl_heap option" where
  "set_backward h a b = do { n \<leftarrow> h a; Some (h(a \<mapsto> n\<lparr>zn_backward := b\<rparr>)) }"

section \<open>Creation and release\<close>

text \<open>The fields that C leaves uninitialised are null here; every caller writes them before they are read.\<close>

definition zslCreateNode ::
    "zsl_env \<Rightarrow> 's zsl_heap \<Rightarrow> zskiplist \<Rightarrow> nat \<Rightarrow> nat \<Rightarrow> 's \<Rightarrow> bytes option \<Rightarrow> 's zsl_heap \<times> zskiplist" where
  "zslCreateNode E h zsl zn lev score ele =
     (h(zn \<mapsto> \<lparr>zn_ele = ele, zn_score = score, zn_backward = None,
          zn_level = replicate lev \<lparr>lv_forward = None, lv_span = 0\<rparr>\<rparr>),
      zsl\<lparr>z_alloc_size := z_alloc_size zsl + usable_size E zn +
          (case ele of Some e \<Rightarrow> sdsAllocSize E e | None \<Rightarrow> 0)\<rparr>)"

definition zslCreate :: "zsl_env \<Rightarrow> ('s::zero) zsl_heap \<Rightarrow> 64 word \<Rightarrow> nat \<Rightarrow> 's zsl_heap \<times> zskiplist" where
  "zslCreate E h zsl_size hdr =
     zslCreateNode E h
       \<lparr>z_header = hdr, z_tail = None, z_length = 0, z_level = 1, z_alloc_size = zsl_size\<rparr>
       hdr ZSKIPLIST_MAXLEVEL 0 None"

definition zslFreeNode :: "zsl_env \<Rightarrow> 's zsl_heap \<Rightarrow> zskiplist \<Rightarrow> nat \<Rightarrow> ('s zsl_heap \<times> zskiplist) option" where
  "zslFreeNode E h zsl node = do {
     n \<leftarrow> h node;
     Some (h(node := None),
       zsl\<lparr>z_alloc_size := z_alloc_size zsl -
           (case zn_ele n of Some e \<Rightarrow> sdsAllocSize E e | None \<Rightarrow> 0) - usable_size E node\<rparr>)
   }"

partial_function (option) free_loop ::
    "zsl_env \<Rightarrow> 's zsl_heap \<Rightarrow> zskiplist \<Rightarrow> nat option \<Rightarrow> ('s zsl_heap \<times> zskiplist) option" where
  "free_loop E h zsl node =
     (case node of
        None \<Rightarrow> Some (h, zsl)
      | Some p \<Rightarrow> do {
          l \<leftarrow> get_level h p 0;
          (h', zsl') \<leftarrow> zslFreeNode E h zsl p;
          free_loop E h' zsl' (lv_forward l)
        })"

text \<open>\<^verbatim>\<open>zslFree\<close>: the header is returned as it is when its own memory is given back.\<close>

definition zslFree :: "zsl_env \<Rightarrow> 's zsl_heap \<Rightarrow> zskiplist \<Rightarrow> ('s zsl_heap \<times> zskiplist) option" where
  "zslFree E h zsl = do {
     l \<leftarrow> get_level h (z_header zsl) 0;
     free_loop E (h(z_header zsl := None))
       (zsl\<lparr>z_alloc_size := z_alloc_size zsl - usable_size E (z_header zsl)\<rparr>) (lv_forward l)
   }"

text \<open>
  \<^verbatim>\<open>zslRandomLevel\<close> on the values that \<^verbatim>\<open>random\<close> returns in turn; the threshold is \<^verbatim>\<open>ZSKIPLIST_P*RAND_MAX\<close>. \<open>None\<close> when all
  of them are below it, so that the loop is still running.
\<close>

definition threshold :: int where
  "threshold = 536870911"

fun random_loop :: "int list \<Rightarrow> nat \<Rightarrow> nat option" where
  "random_loop [] lev = None"
| "random_loop (r # rs) lev = (if r < threshold then random_loop rs (lev + 1) else Some lev)"

definition zslRandomLevel :: "int list \<Rightarrow> nat option" where
  "zslRandomLevel rs = do {
     lev \<leftarrow> random_loop rs 1;
     Some (if lev < ZSKIPLIST_MAXLEVEL then lev else ZSKIPLIST_MAXLEVEL)
   }"

section \<open>Walking down the levels\<close>

text \<open>
  The loop \<^verbatim>\<open>while (x->level[i].forward && ...)\<close>, whose condition sees the count so far, the level and the node
  ahead; the count grows by the spans that are crossed.
\<close>

type_synonym 's zsl_cond = "64 word \<Rightarrow> zskiplistLevel \<Rightarrow> 's zskiplistNode option \<Rightarrow> bool option"

partial_function (option) advance ::
    "'s zsl_cond \<Rightarrow> 's zsl_heap \<Rightarrow> nat \<Rightarrow> nat \<Rightarrow> 64 word \<Rightarrow> (nat \<times> 64 word) option" where
  "advance P h i x rank = do {
     l \<leftarrow> get_level h x i;
     case lv_forward l of
       None \<Rightarrow> Some (x, rank)
     | Some f \<Rightarrow> do {
         c \<leftarrow> P rank l (h f);
         if c then advance P h i f (rank + lv_span l) else Some (x, rank)
       }
   }"

text \<open>\<^verbatim>\<open>for (i = level-1; i >= 0; i--)\<close>, with the arrays \<^verbatim>\<open>update\<close> and \<^verbatim>\<open>rank\<close> from index 0 on.\<close>

fun descend ::
    "'s zsl_cond \<Rightarrow> 's zsl_heap \<Rightarrow> nat \<Rightarrow> nat \<Rightarrow> 64 word \<Rightarrow> (nat \<times> 64 word) list \<Rightarrow> (nat \<times> 64 word \<times> (nat \<times> 64 word) list) option" where
  "descend P h 0 x rank upd = Some (x, rank, upd)"
| "descend P h (Suc i) x rank upd = do {
     (x', rank') \<leftarrow> advance P h i x rank;
     descend P h i x' rank' ((x', rank') # upd)
   }"

definition key_before :: "('s::linorder) \<Rightarrow> bytes \<Rightarrow> 's zsl_cond" where
  "key_before score ele rank l fn = do {
     n \<leftarrow> fn;
     if zn_score n < score then Some True
     else if zn_score n = score then do { e \<leftarrow> zn_ele n; Some (sdscmp e ele < 0) }
     else Some False
   }"

definition key_upto :: "('s::linorder) \<Rightarrow> bytes \<Rightarrow> 's zsl_cond" where
  "key_upto score ele rank l fn = do {
     n \<leftarrow> fn;
     if zn_score n < score then Some True
     else if zn_score n = score then do { e \<leftarrow> zn_ele n; Some (sdscmp e ele \<le> 0) }
     else Some False
   }"

definition node_is :: "'s zskiplistNode \<Rightarrow> 's \<Rightarrow> bytes \<Rightarrow> bool option" where
  "node_is n score ele =
     (if zn_score n = score then do { e \<leftarrow> zn_ele n; Some (sdscmp e ele = 0) } else Some False)"

section \<open>Insertion\<close>

fun widen_loop :: "'s zsl_heap \<Rightarrow> nat \<Rightarrow> 64 word \<Rightarrow> nat \<Rightarrow> nat \<Rightarrow> 's zsl_heap option" where
  "widen_loop h hdr len i 0 = Some h"
| "widen_loop h hdr len i (Suc k) = do {
     h' \<leftarrow> set_level h hdr i (\<lambda>l. l\<lparr>lv_span := len\<rparr>);
     widen_loop h' hdr len (Suc i) k
   }"

fun link_loop :: "'s zsl_heap \<Rightarrow> nat \<Rightarrow> 64 word \<Rightarrow> nat \<Rightarrow> (nat \<times> 64 word) list \<Rightarrow> 's zsl_heap option" where
  "link_loop h x rank0 i [] = Some h"
| "link_loop h x rank0 i ((u, r) # upd) = do {
     ul \<leftarrow> get_level h u i;
     h1 \<leftarrow> set_level h x i (\<lambda>l. l\<lparr>lv_forward := lv_forward ul\<rparr>);
     h2 \<leftarrow> set_level h1 u i (\<lambda>l. l\<lparr>lv_forward := Some x\<rparr>);
     ul2 \<leftarrow> get_level h2 u i;
     h3 \<leftarrow> set_level h2 x i (\<lambda>l. l\<lparr>lv_span := lv_span ul2 - (rank0 - r)\<rparr>);
     h4 \<leftarrow> set_level h3 u i (\<lambda>l. l\<lparr>lv_span := (rank0 - r) + 1\<rparr>);
     link_loop h4 x rank0 (Suc i) upd
   }"

fun bump_loop :: "'s zsl_heap \<Rightarrow> nat \<Rightarrow> (nat \<times> 64 word) list \<Rightarrow> 's zsl_heap option" where
  "bump_loop h i [] = Some h"
| "bump_loop h i ((u, _) # upd) = do {
     h' \<leftarrow> set_level h u i (\<lambda>l. l\<lparr>lv_span := lv_span l + 1\<rparr>);
     bump_loop h' (Suc i) upd
   }"

text \<open>\<open>rs\<close> are the next random numbers and \<open>zn\<close> is the address of the memory for the new node.\<close>

definition zslInsert ::
    "zsl_env \<Rightarrow> int list \<Rightarrow> nat \<Rightarrow> ('s::linorder) zsl_heap \<Rightarrow> zskiplist \<Rightarrow> 's \<Rightarrow> bytes \<Rightarrow> ('s zsl_heap \<times> zskiplist \<times> nat) option" where
  "zslInsert E rs zn h zsl score ele = do {
     (x, rank, upd) \<leftarrow> descend (key_before score ele) h (z_level zsl) (z_header zsl) 0 [];
     lev \<leftarrow> zslRandomLevel rs;
     (h1, zsl1, upd1) \<leftarrow>
       (if lev > z_level zsl
        then do {
          h' \<leftarrow> widen_loop h (z_header zsl) (z_length zsl) (z_level zsl) (lev - z_level zsl);
          Some (h', zsl\<lparr>z_level := lev\<rparr>, upd @ replicate (lev - z_level zsl) (z_header zsl, 0))
        }
        else Some (h, zsl, upd));
     let (h2, zsl2) = zslCreateNode E h1 zsl1 zn lev score (Some ele);
     (u0, rank0) \<leftarrow> (case upd1 of [] \<Rightarrow> None | ur # _ \<Rightarrow> Some ur);
     h3 \<leftarrow> link_loop h2 zn rank0 0 (take lev upd1);
     h4 \<leftarrow> bump_loop h3 lev (drop lev upd1);
     h5 \<leftarrow> set_backward h4 zn (if u0 = z_header zsl2 then None else Some u0);
     l0 \<leftarrow> get_level h5 zn 0;
     (h6, zsl3) \<leftarrow>
       (case lv_forward l0 of
          Some f \<Rightarrow> do { h' \<leftarrow> set_backward h5 f (Some zn); Some (h', zsl2) }
        | None \<Rightarrow> Some (h5, zsl2\<lparr>z_tail := Some zn\<rparr>));
     Some (h6, zsl3\<lparr>z_length := z_length zsl3 + 1\<rparr>, zn)
   }"

section \<open>Deletion\<close>

fun unlink_loop :: "'s zsl_heap \<Rightarrow> nat \<Rightarrow> nat \<Rightarrow> nat list \<Rightarrow> 's zsl_heap option" where
  "unlink_loop h x i [] = Some h"
| "unlink_loop h x i (u # us) = do {
     ul \<leftarrow> get_level h u i;
     h' \<leftarrow>
       (if lv_forward ul = Some x
        then do {
          xl \<leftarrow> get_level h x i;
          h1 \<leftarrow> set_level h u i (\<lambda>l. l\<lparr>lv_span := lv_span l + (lv_span xl - 1)\<rparr>);
          xl1 \<leftarrow> get_level h1 x i;
          set_level h1 u i (\<lambda>l. l\<lparr>lv_forward := lv_forward xl1\<rparr>)
        }
        else set_level h u i (\<lambda>l. l\<lparr>lv_span := lv_span l - 1\<rparr>));
     unlink_loop h' x (Suc i) us
   }"

fun lower_level :: "'s zsl_heap \<Rightarrow> nat \<Rightarrow> nat \<Rightarrow> nat option" where
  "lower_level h hdr 0 = Some 0"
| "lower_level h hdr (Suc k) =
     (if k = 0 then Some 1
      else do {
        l \<leftarrow> get_level h hdr k;
        if lv_forward l = None then lower_level h hdr k else Some (Suc k)
      })"

definition zslDeleteNode ::
    "'s zsl_heap \<Rightarrow> zskiplist \<Rightarrow> nat \<Rightarrow> nat list \<Rightarrow> ('s zsl_heap \<times> zskiplist) option" where
  "zslDeleteNode h zsl x update = do {
     h1 \<leftarrow> (if z_level zsl \<le> length update then unlink_loop h x 0 (take (z_level zsl) update) else None);
     n \<leftarrow> h1 x;
     l0 \<leftarrow> get_level h1 x 0;
     (h2, zsl1) \<leftarrow>
       (case lv_forward l0 of
          Some f \<Rightarrow> do { h' \<leftarrow> set_backward h1 f (zn_backward n); Some (h', zsl) }
        | None \<Rightarrow> Some (h1, zsl\<lparr>z_tail := zn_backward n\<rparr>));
     lev \<leftarrow> lower_level h2 (z_header zsl1) (z_level zsl1);
     Some (h2, zsl1\<lparr>z_level := lev, z_length := z_length zsl1 - 1\<rparr>)
   }"

text \<open>The last component is \<^verbatim>\<open>*node\<close>, set when the caller passes a pointer (\<open>keep\<close>) and the element was found.\<close>

definition zslDelete ::
    "zsl_env \<Rightarrow> bool \<Rightarrow> ('s::linorder) zsl_heap \<Rightarrow> zskiplist \<Rightarrow> 's \<Rightarrow> bytes \<Rightarrow> ('s zsl_heap \<times> zskiplist \<times> bool \<times> nat option) option" where
  "zslDelete E keep h zsl score ele = do {
     (x, _, upd) \<leftarrow> descend (key_before score ele) h (z_level zsl) (z_header zsl) 0 [];
     l0 \<leftarrow> get_level h x 0;
     case lv_forward l0 of
       None \<Rightarrow> Some (h, zsl, False, None)
     | Some f \<Rightarrow> do {
         n \<leftarrow> h f;
         eq \<leftarrow> node_is n score ele;
         if eq
         then do {
           (h1, zsl1) \<leftarrow> zslDeleteNode h zsl f (map fst upd);
           if keep then Some (h1, zsl1, True, Some f)
           else do { (h2, zsl2) \<leftarrow> zslFreeNode E h1 zsl1 f; Some (h2, zsl2, True, None) }
         }
         else Some (h, zsl, False, None)
       }
   }"

definition zslUpdateScore ::
    "zsl_env \<Rightarrow> int list \<Rightarrow> nat \<Rightarrow> ('s::linorder) zsl_heap \<Rightarrow> zskiplist \<Rightarrow> 's \<Rightarrow> bytes \<Rightarrow> 's \<Rightarrow> ('s zsl_heap \<times> zskiplist \<times> nat) option" where
  "zslUpdateScore E rs zn h zsl curscore ele newscore = do {
     (x0, _, upd) \<leftarrow> descend (key_before curscore ele) h (z_level zsl) (z_header zsl) 0 [];
     l0 \<leftarrow> get_level h x0 0;
     x \<leftarrow> lv_forward l0;
     n \<leftarrow> h x;
     eq \<leftarrow> node_is n curscore ele;
     if \<not> eq then None
     else do {
       below \<leftarrow> (case zn_backward n of None \<Rightarrow> Some True | Some b \<Rightarrow> do { bn \<leftarrow> h b; Some (zn_score bn < newscore) });
       xl \<leftarrow> get_level h x 0;
       above \<leftarrow> (if \<not> below then Some False
         else case lv_forward xl of None \<Rightarrow> Some True | Some f \<Rightarrow> do { fn \<leftarrow> h f; Some (zn_score fn > newscore) });
       if above then Some (h(x \<mapsto> n\<lparr>zn_score := newscore\<rparr>), zsl, x)
       else do {
         (h1, zsl1) \<leftarrow> zslDeleteNode h zsl x (map fst upd);
         n1 \<leftarrow> h1 x;
         e1 \<leftarrow> zn_ele n1;
         (h2, zsl2, newnode) \<leftarrow> zslInsert E rs zn h1 zsl1 newscore e1;
         n2 \<leftarrow> h2 x;
         let zsl3 = (case zn_ele n2 of Some e \<Rightarrow> zsl2\<lparr>z_alloc_size := z_alloc_size zsl2 - sdsAllocSize E e\<rparr> | None \<Rightarrow> zsl2);
         (h3, zsl4) \<leftarrow> zslFreeNode E (h2(x \<mapsto> n2\<lparr>zn_ele := None\<rparr>)) zsl3 x;
         Some (h3, zsl4, newnode)
       }
     }
   }"

section \<open>Ranks\<close>

fun rank_loop :: "('s::linorder) zsl_heap \<Rightarrow> 's \<Rightarrow> bytes \<Rightarrow> nat \<Rightarrow> nat \<Rightarrow> 64 word \<Rightarrow> 64 word option" where
  "rank_loop h score ele 0 x rank = Some 0"
| "rank_loop h score ele (Suc i) x rank = do {
     (x', rank') \<leftarrow> advance (key_upto score ele) h i x rank;
     n \<leftarrow> h x';
     eq \<leftarrow> (if zn_ele n = None then Some False else node_is n score ele);
     if eq then Some rank' else rank_loop h score ele i x' rank'
   }"

definition zslGetRank :: "('s::linorder) zsl_heap \<Rightarrow> zskiplist \<Rightarrow> 's \<Rightarrow> bytes \<Rightarrow> 64 word option" where
  "zslGetRank h zsl score ele = rank_loop h score ele (z_level zsl) (z_header zsl) 0"

definition rank_upto :: "64 word \<Rightarrow> 's zsl_cond" where
  "rank_upto rank traversed l fn = Some (traversed + lv_span l \<le> rank)"

fun byrank_loop :: "'s zsl_heap \<Rightarrow> 64 word \<Rightarrow> nat \<Rightarrow> nat \<Rightarrow> 64 word \<Rightarrow> nat option option" where
  "byrank_loop h rank 0 x traversed = Some None"
| "byrank_loop h rank (Suc i) x traversed = do {
     (x', traversed') \<leftarrow> advance (rank_upto rank) h i x traversed;
     if traversed' = rank then Some (Some x') else byrank_loop h rank i x' traversed'
   }"

text \<open>The argument \<open>levels\<close> is \<^verbatim>\<open>start_level + 1\<close>.\<close>

definition zslGetElementByRankFromNode :: "'s zsl_heap \<Rightarrow> nat \<Rightarrow> nat \<Rightarrow> 64 word \<Rightarrow> nat option option" where
  "zslGetElementByRankFromNode h start_node levels rank = byrank_loop h rank levels start_node 0"

definition zslGetElementByRank :: "'s zsl_heap \<Rightarrow> zskiplist \<Rightarrow> 64 word \<Rightarrow> nat option option" where
  "zslGetElementByRank h zsl rank = zslGetElementByRankFromNode h (z_header zsl) (z_level zsl) rank"

section \<open>Ranges\<close>

record 's zrangespec =
  zr_min :: 's
  zr_max :: 's
  zr_minex :: bool
  zr_maxex :: bool

definition zslValueGteMin :: "('s::linorder) \<Rightarrow> 's zrangespec \<Rightarrow> bool" where
  "zslValueGteMin v spec = (if zr_minex spec then v > zr_min spec else v \<ge> zr_min spec)"

definition zslValueLteMax :: "('s::linorder) \<Rightarrow> 's zrangespec \<Rightarrow> bool" where
  "zslValueLteMax v spec = (if zr_maxex spec then v < zr_max spec else v \<le> zr_max spec)"

text \<open>A bound of a lexicographic range: \<^verbatim>\<open>shared.minstring\<close>, \<^verbatim>\<open>shared.maxstring\<close> or a string of its own.\<close>

datatype lexbound = MinString | MaxString | Str bytes

record zlexrangespec =
  zx_min :: lexbound
  zx_max :: lexbound
  zx_minex :: bool
  zx_maxex :: bool

text \<open>A byte of a string, whose end is marked by a zero byte.\<close>

definition sds_at :: "bytes \<Rightarrow> nat \<Rightarrow> byte" where
  "sds_at s i = (if i < length s then s ! i else 0)"

text \<open>The bound and whether it is exclusive; \<open>None\<close> is \<^verbatim>\<open>C_ERR\<close>. The characters are \<^verbatim>\<open>+ - ( [\<close>.\<close>

definition zslParseLexRangeItem :: "bytes \<Rightarrow> (lexbound \<times> bool) option" where
  "zslParseLexRangeItem c =
     (if sds_at c 0 = 43 then if sds_at c 1 \<noteq> 0 then None else Some (MaxString, True)
      else if sds_at c 0 = 45 then if sds_at c 1 \<noteq> 0 then None else Some (MinString, True)
      else if sds_at c 0 = 40 then Some (Str (drop 1 c), True)
      else if sds_at c 0 = 91 then Some (Str (drop 1 c), False)
      else None)"

text \<open>The arguments are \<open>None\<close> for objects with the integer encoding.\<close>

definition zslParseLexRange :: "bytes option \<Rightarrow> bytes option \<Rightarrow> zlexrangespec option" where
  "zslParseLexRange mn mx = do {
     a \<leftarrow> mn;
     b \<leftarrow> mx;
     (lo, loex) \<leftarrow> zslParseLexRangeItem a;
     (hi, hiex) \<leftarrow> zslParseLexRangeItem b;
     Some \<lparr>zx_min = lo, zx_max = hi, zx_minex = loex, zx_maxex = hiex\<rparr>
   }"

definition sdscmplex :: "lexbound \<Rightarrow> lexbound \<Rightarrow> int" where
  "sdscmplex a b =
     (if a = b then 0
      else if a = MinString \<or> b = MaxString then - 1
      else if a = MaxString \<or> b = MinString then 1
      else case (a, b) of (Str x, Str y) \<Rightarrow> sdscmp x y | _ \<Rightarrow> 0)"

definition zslLexValueGteMin :: "bytes \<Rightarrow> zlexrangespec \<Rightarrow> bool" where
  "zslLexValueGteMin v spec =
     (if zx_minex spec then sdscmplex (Str v) (zx_min spec) > 0 else sdscmplex (Str v) (zx_min spec) \<ge> 0)"

definition zslLexValueLteMax :: "bytes \<Rightarrow> zlexrangespec \<Rightarrow> bool" where
  "zslLexValueLteMax v spec =
     (if zx_maxex spec then sdscmplex (Str v) (zx_max spec) < 0 else sdscmplex (Str v) (zx_max spec) \<le> 0)"

text \<open>
  The functions on ranges by score and by string differ in the tests on a node only: \<open>gte\<close> and \<open>lte\<close>
  compare a node with the two bounds.
\<close>

type_synonym 's zsl_test = "'s zskiplistNode \<Rightarrow> bool option"

definition score_gte :: "('s::linorder) zrangespec \<Rightarrow> 's zsl_test" where
  "score_gte spec n = Some (zslValueGteMin (zn_score n) spec)"

definition score_lte :: "('s::linorder) zrangespec \<Rightarrow> 's zsl_test" where
  "score_lte spec n = Some (zslValueLteMax (zn_score n) spec)"

definition lex_gte :: "zlexrangespec \<Rightarrow> 's zsl_test" where
  "lex_gte spec n = do { e \<leftarrow> zn_ele n; Some (zslLexValueGteMin e spec) }"

definition lex_lte :: "zlexrangespec \<Rightarrow> 's zsl_test" where
  "lex_lte spec n = do { e \<leftarrow> zn_ele n; Some (zslLexValueLteMax e spec) }"

definition out_of_range :: "'s zsl_test \<Rightarrow> 's zsl_cond" where
  "out_of_range gte rank l fn = do { n \<leftarrow> fn; c \<leftarrow> gte n; Some (\<not> c) }"

definition in_range_cond :: "'s zsl_test \<Rightarrow> 's zsl_cond" where
  "in_range_cond lte rank l fn = do { n \<leftarrow> fn; lte n }"

text \<open>The tests of \<^verbatim>\<open>zslIsInRange\<close> and \<^verbatim>\<open>zslIsInLexRange\<close> on the last and the first node.\<close>

definition ends_in_range :: "'s zsl_test \<Rightarrow> 's zsl_test \<Rightarrow> 's zsl_heap \<Rightarrow> zskiplist \<Rightarrow> bool option" where
  "ends_in_range gte lte h zsl =
     (case z_tail zsl of
        None \<Rightarrow> Some False
      | Some t \<Rightarrow> do {
          tn \<leftarrow> h t;
          g \<leftarrow> gte tn;
          if \<not> g then Some False
          else do {
            l \<leftarrow> get_level h (z_header zsl) 0;
            case lv_forward l of
              None \<Rightarrow> Some False
            | Some f \<Rightarrow> do { fn \<leftarrow> h f; lte fn }
          }
        })"

definition zslIsInRange :: "('s::linorder) zsl_heap \<Rightarrow> zskiplist \<Rightarrow> 's zrangespec \<Rightarrow> bool option" where
  "zslIsInRange h zsl spec =
     (if zr_min spec > zr_max spec \<or> (zr_min spec = zr_max spec \<and> (zr_minex spec \<or> zr_maxex spec))
      then Some False
      else ends_in_range (score_gte spec) (score_lte spec) h zsl)"

definition zslIsInLexRange :: "'s zsl_heap \<Rightarrow> zskiplist \<Rightarrow> zlexrangespec \<Rightarrow> bool option" where
  "zslIsInLexRange h zsl spec =
     (let cmp = sdscmplex (zx_min spec) (zx_max spec) in
      if cmp > 0 \<or> (cmp = 0 \<and> (zx_minex spec \<or> zx_maxex spec))
      then Some False
      else ends_in_range (lex_gte spec) (lex_lte spec) h zsl)"

fun forward_steps :: "'s zsl_heap \<Rightarrow> nat \<Rightarrow> nat option \<Rightarrow> nat option option" where
  "forward_steps h 0 x = Some x"
| "forward_steps h (Suc k) x = do { p \<leftarrow> x; l \<leftarrow> get_level h p 0; forward_steps h k (lv_forward l) }"

fun backward_steps :: "'s zsl_heap \<Rightarrow> nat \<Rightarrow> nat option \<Rightarrow> nat option option" where
  "backward_steps h 0 x = Some x"
| "backward_steps h (Suc k) x = do { p \<leftarrow> x; n \<leftarrow> h p; backward_steps h k (zn_backward n) }"

text \<open>The end of both branches: the node found is returned if the other bound admits it.\<close>

definition admit :: "'s zsl_test \<Rightarrow> 's zsl_heap \<Rightarrow> nat option \<Rightarrow> nat option option" where
  "admit test h x =
     (case x of
        None \<Rightarrow> Some None
      | Some p \<Rightarrow> do { n \<leftarrow> h p; c \<leftarrow> test n; Some (if c then Some p else None) })"

definition nth_in_range ::
    "'s zsl_test \<Rightarrow> 's zsl_test \<Rightarrow> bool option \<Rightarrow> 's zsl_heap \<Rightarrow> zskiplist \<Rightarrow> int \<Rightarrow> nat option option" where
  "nth_in_range gte lte is_in h zsl n = do {
     ok \<leftarrow> is_in;
     if \<not> ok then Some None
     else do {
       (tnode, toprank) \<leftarrow> advance (out_of_range gte) h (z_level zsl - 1) (z_header zsl) 0;
       if n \<ge> 0
       then do {
         (x, edge, _) \<leftarrow> descend (out_of_range gte) h (z_level zsl - 1) tnode toprank [];
         if edge + word_of_int n \<ge> z_length zsl then Some None
         else do {
           y \<leftarrow>
             (if n < ZSKIPLIST_MAX_SEARCH then forward_steps h (nat (n + 1)) (Some x)
              else zslGetElementByRankFromNode h tnode (z_level zsl) (edge + 1 + word_of_int n - toprank));
           admit lte h y
         }
       }
       else do {
         (x, edge, _) \<leftarrow> descend (in_range_cond lte) h (z_level zsl) tnode toprank [];
         if sint edge < - n then Some None
         else do {
           y \<leftarrow>
             (if n + 1 > - ZSKIPLIST_MAX_SEARCH then backward_steps h (nat (- n - 1)) (Some x)
              else zslGetElementByRankFromNode h tnode (z_level zsl) (edge + 1 + word_of_int n - toprank));
           admit gte h y
         }
       }
     }
   }"

definition zslNthInRange :: "('s::linorder) zsl_heap \<Rightarrow> zskiplist \<Rightarrow> 's zrangespec \<Rightarrow> int \<Rightarrow> nat option option" where
  "zslNthInRange h zsl spec n = nth_in_range (score_gte spec) (score_lte spec) (zslIsInRange h zsl spec) h zsl n"

definition zslNthInLexRange :: "'s zsl_heap \<Rightarrow> zskiplist \<Rightarrow> zlexrangespec \<Rightarrow> int \<Rightarrow> nat option option" where
  "zslNthInLexRange h zsl spec n = nth_in_range (lex_gte spec) (lex_lte spec) (zslIsInLexRange h zsl spec) h zsl n"

text \<open>
  Deleting all nodes of a range: \<open>del\<close> is the removal from the hash table \<open>d\<close> of the sorted set, \<open>cond\<close> the
  condition of the loop, which sees the number of nodes removed so far.
\<close>

partial_function (option) delete_loop ::
    "zsl_env \<Rightarrow> (bytes \<Rightarrow> 'd \<Rightarrow> 'd option) \<Rightarrow> (64 word \<Rightarrow> 's zsl_test) \<Rightarrow> nat list \<Rightarrow> 's zsl_heap \<Rightarrow> zskiplist \<Rightarrow> nat option \<Rightarrow> 'd \<Rightarrow> 64 word \<Rightarrow>
     ('s zsl_heap \<times> zskiplist \<times> 'd \<times> 64 word) option" where
  "delete_loop E del cond upd h zsl x d removed =
     (case x of
        None \<Rightarrow> Some (h, zsl, d, removed)
      | Some p \<Rightarrow> do {
          n \<leftarrow> h p;
          c \<leftarrow> cond removed n;
          if \<not> c then Some (h, zsl, d, removed)
          else do {
            l \<leftarrow> get_level h p 0;
            (h1, zsl1) \<leftarrow> zslDeleteNode h zsl p upd;
            n1 \<leftarrow> h1 p;
            e \<leftarrow> zn_ele n1;
            d' \<leftarrow> del e d;
            (h2, zsl2) \<leftarrow> zslFreeNode E h1 zsl1 p;
            delete_loop E del cond upd h2 zsl2 (lv_forward l) d' (removed + 1)
          }
        })"

definition delete_range ::
    "zsl_env \<Rightarrow> (bytes \<Rightarrow> 'd \<Rightarrow> 'd option) \<Rightarrow> 's zsl_cond \<Rightarrow> (64 word \<Rightarrow> 64 word \<Rightarrow> 's zsl_test) \<Rightarrow> 's zsl_heap \<Rightarrow> zskiplist \<Rightarrow> 'd \<Rightarrow>
     ('s zsl_heap \<times> zskiplist \<times> 'd \<times> 64 word) option" where
  "delete_range E del before cond h zsl d = do {
     (x, traversed, upd) \<leftarrow> descend before h (z_level zsl) (z_header zsl) 0 [];
     l \<leftarrow> get_level h x 0;
     delete_loop E del (cond traversed) (map fst upd) h zsl (lv_forward l) d 0
   }"

definition zslDeleteRangeByScore ::
    "zsl_env \<Rightarrow> (bytes \<Rightarrow> 'd \<Rightarrow> 'd option) \<Rightarrow> ('s::linorder) zsl_heap \<Rightarrow> zskiplist \<Rightarrow> 's zrangespec \<Rightarrow> 'd \<Rightarrow>
     ('s zsl_heap \<times> zskiplist \<times> 'd \<times> 64 word) option" where
  "zslDeleteRangeByScore E del h zsl spec d =
     delete_range E del (out_of_range (score_gte spec)) (\<lambda>_ _. score_lte spec) h zsl d"

definition zslDeleteRangeByLex ::
    "zsl_env \<Rightarrow> (bytes \<Rightarrow> 'd \<Rightarrow> 'd option) \<Rightarrow> 's zsl_heap \<Rightarrow> zskiplist \<Rightarrow> zlexrangespec \<Rightarrow> 'd \<Rightarrow>
     ('s zsl_heap \<times> zskiplist \<times> 'd \<times> 64 word) option" where
  "zslDeleteRangeByLex E del h zsl spec d =
     delete_range E del (out_of_range (lex_gte spec)) (\<lambda>_ _. lex_lte spec) h zsl d"

text \<open>The bounds are C's \<^verbatim>\<open>unsigned int\<close>.\<close>

definition rank_before :: "64 word \<Rightarrow> 's zsl_cond" where
  "rank_before start traversed l fn = Some (traversed + lv_span l < start)"

definition zslDeleteRangeByRank ::
    "zsl_env \<Rightarrow> (bytes \<Rightarrow> 'd \<Rightarrow> 'd option) \<Rightarrow> 's zsl_heap \<Rightarrow> zskiplist \<Rightarrow> 32 word \<Rightarrow> 32 word \<Rightarrow> 'd \<Rightarrow>
     ('s zsl_heap \<times> zskiplist \<times> 'd \<times> 64 word) option" where
  "zslDeleteRangeByRank E del h zsl start stop d =
     delete_range E del (rank_before (ucast start))
       (\<lambda>traversed removed n. Some (traversed + 1 + removed \<le> ucast stop)) h zsl d"

end
