(* ===== verification/Zskiplist_Inv.thy ===== *)
theory Zskiplist_Inv
  imports Zskiplist
begin

text \<open>
  The meaning of a skip list: the sequence of its nodes with their heights. On each level a node points to
  the next node that is high enough, and the span is the distance to it. Walking down the levels finds
  the last node before any cut of the sequence.
\<close>

section \<open>The order of strings\<close>

lemma sdscmp_simps [simp]:
  "sdscmp [] [] = 0" "sdscmp [] (b # bs) = - 1" "sdscmp (a # as) [] = 1"
  "sdscmp (a # as) (b # bs) = (if a = b then sdscmp as bs else uint a - uint b)"
  by (auto simp: sdscmp_def Let_def word_uint_eq_iff)

lemma sdscmp_order: "(sdscmp a b < 0 \<longleftrightarrow> a < b) \<and> (sdscmp a b = 0 \<longleftrightarrow> a = b)"
proof (induction a arbitrary: b)
  case Nil
  then show ?case by (cases b) auto
next
  case (Cons x a)
  show ?case
  proof (cases b)
    case (Cons y ys)
    have "uint x - uint y < 0 \<longleftrightarrow> x < y" "uint x - uint y = 0 \<longleftrightarrow> x = y" by (simp_all add: word_less_def word_uint_eq_iff)
    then show ?thesis using Cons.IH [of ys] Cons by (cases "x = y") simp_all
  qed simp
qed

lemma sdscmp_less [simp]: "sdscmp a b < 0 \<longleftrightarrow> a < b" and sdscmp_eq [simp]: "sdscmp a b = 0 \<longleftrightarrow> a = b"
  using sdscmp_order by auto

lemma sdscmp_le [simp]: "sdscmp a b \<le> 0 \<longleftrightarrow> a \<le> b"
  using sdscmp_order [of a b] by (auto simp: le_less)

section \<open>Levels\<close>

text \<open>The level \<open>i\<close> of a node, when \<open>xs\<close> are the addresses and heights of the nodes behind it.\<close>

fun next_at :: "nat \<Rightarrow> (nat \<times> nat) list \<Rightarrow> zskiplistLevel" where
  "next_at i [] = \<lparr>lv_forward = None, lv_span = 0\<rparr>"
| "next_at i ((a, k) # xs) =
     (if i < k then \<lparr>lv_forward = Some a, lv_span = 1\<rparr>
      else (next_at i xs)\<lparr>lv_span := lv_span (next_at i xs) + 1\<rparr>)"

definition hits :: "nat \<Rightarrow> (nat \<times> nat) list \<Rightarrow> bool" where
  "hits i xs \<longleftrightarrow> (\<exists>x \<in> set xs. i < snd x)"

lemma hits_simps [simp]: "\<not> hits i []" "hits i (x # xs) \<longleftrightarrow> i < snd x \<or> hits i xs"
  "hits i (xs @ ys) \<longleftrightarrow> hits i xs \<or> hits i ys"
  by (auto simp: hits_def)

lemma next_at_hit: "hits i xs \<Longrightarrow> next_at i (xs @ ys) = next_at i xs"
  by (induction i xs rule: next_at.induct) auto

lemma next_at_miss:
  "\<not> hits i xs \<Longrightarrow> next_at i (xs @ ys) = (next_at i ys)\<lparr>lv_span := of_nat (length xs) + lv_span (next_at i ys)\<rparr>"
  by (induction i xs rule: next_at.induct) auto

lemma next_at_none: "\<not> hits i xs \<Longrightarrow> next_at i xs = \<lparr>lv_forward = None, lv_span = of_nat (length xs)\<rparr>"
  using next_at_miss [of i xs "[]"] by simp

lemma next_at_forward: "lv_forward (next_at i xs) = Some a \<Longrightarrow> a \<in> fst ` set xs"
  by (induction i xs rule: next_at.induct) (auto split: if_splits)

lemma next_at_split:
  obtains (miss) "\<not> hits i xs" "next_at i xs = \<lparr>lv_forward = None, lv_span = of_nat (length xs)\<rparr>"
    | (hit) d where "d < length xs" "i < snd (xs ! d)" "\<And>j. j < d \<Longrightarrow> snd (xs ! j) \<le> i"
        "next_at i xs = \<lparr>lv_forward = Some (fst (xs ! d)), lv_span = of_nat (Suc d)\<rparr>"
proof -
  have "(\<not> hits i xs \<and> next_at i xs = \<lparr>lv_forward = None, lv_span = of_nat (length xs)\<rparr>) \<or>
    (\<exists>d < length xs. i < snd (xs ! d) \<and> (\<forall>j < d. snd (xs ! j) \<le> i) \<and>
       next_at i xs = \<lparr>lv_forward = Some (fst (xs ! d)), lv_span = of_nat (Suc d)\<rparr>)"
  proof (induction i xs rule: next_at.induct)
    case (2 i a k xs)
    show ?case
    proof (cases "i < k")
      case True
      then show ?thesis by (intro disjI2 exI [of _ 0]) simp
    next
      case False
      consider "\<not> hits i xs" "next_at i xs = \<lparr>lv_forward = None, lv_span = of_nat (length xs)\<rparr>"
        | d where "d < length xs" "i < snd (xs ! d)" "\<forall>j < d. snd (xs ! j) \<le> i"
          "next_at i xs = \<lparr>lv_forward = Some (fst (xs ! d)), lv_span = of_nat (Suc d)\<rparr>"
        using 2 [OF False] by blast
      then show ?thesis
      proof cases
        case (2 d)
        then show ?thesis using False
          by (intro disjI2 exI [of _ "Suc d"]) (auto simp: nth_Cons split: nat.splits)
      qed (use False in simp)
    qed
  qed simp
  then show ?thesis using that by blast
qed

text \<open>Every node of \<open>xs\<close> has, on the levels below \<open>L\<close>, the right links.\<close>

fun levels_ok :: "'s zsl_heap \<Rightarrow> nat \<Rightarrow> (nat \<times> nat) list \<Rightarrow> bool" where
  "levels_ok h L [] = True"
| "levels_ok h L ((a, k) # xs) \<longleftrightarrow>
     (\<forall>i < k. i < L \<longrightarrow> get_level h a i = Some (next_at i xs)) \<and> levels_ok h L xs"

lemma levels_ok_nth:
  "levels_ok h L xs \<longleftrightarrow>
    (\<forall>j < length xs. \<forall>i < snd (xs ! j). i < L \<longrightarrow> get_level h (fst (xs ! j)) i = Some (next_at i (drop (Suc j) xs)))"
proof (induction h L xs rule: levels_ok.induct)
  case (2 h L a k xs)
  have "(\<forall>j < length ((a, k) # xs). Q j) \<longleftrightarrow> Q 0 \<and> (\<forall>j < length xs. Q (Suc j))" for Q
    by (auto simp: less_Suc_eq_0_disj)
  then show ?case using 2 by simp
qed simp

lemma levels_ok_frame: "(\<And>a i. a \<in> fst ` set xs \<Longrightarrow> i < L \<Longrightarrow> get_level h' a i = get_level h a i) \<Longrightarrow> levels_ok h' L xs \<longleftrightarrow> levels_ok h L xs"
  by (induction h L xs rule: levels_ok.induct) auto

lemma levels_ok_append: "levels_ok h L (xs @ ys) \<Longrightarrow> levels_ok h L ys"
  by (induction h L xs rule: levels_ok.induct) auto

section \<open>The last node before a cut\<close>

text \<open>The index of the last node of \<open>xs\<close> that has level \<open>i\<close>.\<close>

fun top_at :: "nat \<Rightarrow> (nat \<times> nat) list \<Rightarrow> nat" where
  "top_at i [] = 0"
| "top_at i (x # xs) = (if hits i xs then Suc (top_at i xs) else 0)"

lemma top_at:
  assumes "hits i xs"
  shows "top_at i xs < length xs" "i < snd (xs ! top_at i xs)" "\<not> hits i (drop (Suc (top_at i xs)) xs)"
  using assms by (induction xs) auto

lemma top_at_eq: "j < length xs \<Longrightarrow> i < snd (xs ! j) \<Longrightarrow> \<not> hits i (drop (Suc j) xs) \<Longrightarrow> top_at i xs = j"
proof (induction xs arbitrary: j)
  case (Cons x xs)
  show ?case
  proof (cases j)
    case (Suc k)
    then have "hits i xs" using Cons.prems by (auto simp: hits_def)
    then show ?thesis using Cons.IH [of k] Cons.prems Suc by simp
  qed (use Cons.prems in simp)
qed simp

lemma top_at_iff:
  assumes "j < length xs" "i < snd (xs ! j)"
  shows "hits i (drop (Suc j) xs) \<longleftrightarrow> top_at i xs \<noteq> j"
proof -
  have "hits i xs" using assms by (auto simp: hits_def)
  then show ?thesis using top_at [of i xs] top_at_eq [OF assms] by blast
qed

lemma top_at_low:
  assumes "xs \<noteq> []" "i < snd (last xs)"
  shows "top_at i xs = length xs - 1"
  using assms by (intro top_at_eq) (auto simp: last_conv_nth)

section \<open>Walking down\<close>

text \<open>
  The condition of a walk accepts the first \<open>c\<close> nodes, the header among them, and no others; \<open>base\<close> is the
  count at the header.
\<close>

definition cuts :: "'s zsl_cond \<Rightarrow> 's zsl_heap \<Rightarrow> 64 word \<Rightarrow> (nat \<times> nat) list \<Rightarrow> nat \<Rightarrow> bool" where
  "cuts P h base xs c \<longleftrightarrow> c \<le> length xs \<and> (\<forall>r j. r < c \<longrightarrow> r < j \<longrightarrow> j < length xs \<longrightarrow>
     P (base + of_nat r) \<lparr>lv_forward = Some (fst (xs ! j)), lv_span = of_nat (j - r)\<rparr> (h (fst (xs ! j))) = Some (j < c))"

lemma no_hits_between: "(\<And>k. r < k \<Longrightarrow> k < c \<Longrightarrow> k < length xs \<Longrightarrow> snd (xs ! k) \<le> i) \<Longrightarrow> \<not> hits i (drop (Suc r) (take c xs))"
proof
  assume a: "\<And>k. r < k \<Longrightarrow> k < c \<Longrightarrow> k < length xs \<Longrightarrow> snd (xs ! k) \<le> i" and "hits i (drop (Suc r) (take c xs))"
  then obtain x where "x \<in> set (drop (Suc r) (take c xs))" and x: "i < snd x" by (auto simp: hits_def)
  then obtain j where "j < length (drop (Suc r) (take c xs))" "x = drop (Suc r) (take c xs) ! j" by (metis in_set_conv_nth)
  moreover from this(1) have "Suc r + j < length (take c xs)" unfolding length_drop by linarith
  ultimately have "Suc r + j < c" "Suc r + j < length xs" "x = xs ! (Suc r + j)" by (simp_all add: min_def split: if_splits)
  then show False using a [of "Suc r + j"] x by simp
qed

lemma advance_at:
  assumes lv: "levels_ok h L xs" and cut: "cuts P h base xs c" and i: "i < L"
  shows "r < c \<Longrightarrow> i < snd (xs ! r) \<Longrightarrow>
    advance P h i (fst (xs ! r)) (base + of_nat r) = Some (fst (xs ! top_at i (take c xs)), base + of_nat (top_at i (take c xs)))"
proof (induction "c - r" arbitrary: r rule: less_induct)
  case less
  have c: "c \<le> length xs" using cut by (simp add: cuts_def)
  have r: "r < length xs" using less.prems(1) c by simp
  have g: "get_level h (fst (xs ! r)) i = Some (next_at i (drop (Suc r) xs))"
    using lv r less.prems(2) i by (simp add: levels_ok_nth)
  have stop: "top_at i (take c xs) = r" if "\<not> hits i (drop (Suc r) (take c xs))"
    using that less.prems c by (intro top_at_eq) simp_all
  show ?case
  proof (cases i "drop (Suc r) xs" rule: next_at_split)
    case miss
    then have "\<not> hits i (drop (Suc r) (take c xs))" by (auto simp: hits_def drop_take dest: in_set_takeD)
    from stop [OF this] show ?thesis using g miss(2) by (subst advance.simps) simp
  next
    case (hit d)
    let ?j = "Suc r + d"
    have j: "?j < length xs" "drop (Suc r) xs ! d = xs ! ?j" using hit(1) by simp_all
    have p: "P (base + of_nat r) \<lparr>lv_forward = Some (fst (xs ! ?j)), lv_span = of_nat (Suc d)\<rparr> (h (fst (xs ! ?j))) = Some (?j < c)"
      using cut [unfolded cuts_def, THEN conjunct2, rule_format, of r ?j] less.prems(1) j(1) by simp
    show ?thesis
    proof (cases "?j < c")
      case True
      have "i < snd (xs ! ?j)" using hit(2) j(2) by simp
      from less.hyps [OF _ True this] have "advance P h i (fst (xs ! ?j)) (base + of_nat ?j) =
          Some (fst (xs ! top_at i (take c xs)), base + of_nat (top_at i (take c xs)))" using less.prems(1) by simp
      moreover have "base + of_nat r + of_nat (Suc d) = base + of_nat ?j" by simp
      ultimately show ?thesis using g hit(4) j(2) p True by (subst advance.simps) (simp add: ac_simps)
    next
      case False
      have "\<not> hits i (drop (Suc r) (take c xs))"
      proof (rule no_hits_between)
        fix k assume k: "r < k" "k < c" "k < length xs"
        then have "k - Suc r < d" using False by simp
        from hit(3) [OF this] show "snd (xs ! k) \<le> i" using k by simp
      qed
      from stop [OF this] show ?thesis using g hit(4) j(2) p False by (subst advance.simps) simp
    qed
  qed
qed

text \<open>The arrays that a walk leaves behind.\<close>

definition update_at :: "64 word \<Rightarrow> (nat \<times> nat) list \<Rightarrow> nat \<Rightarrow> nat \<times> 64 word" where
  "update_at base xs i = (fst (xs ! top_at i xs), base + of_nat (top_at i xs))"

lemma top_at_mono:
  assumes "i < snd (xs ! r)" "r < length xs"
  shows "r \<le> top_at i xs"
  using assms
proof (induction xs arbitrary: r)
  case (Cons x xs)
  show ?case
  proof (cases r)
    case (Suc k)
    then have "hits i xs" using Cons.prems by (auto simp: hits_def)
    then show ?thesis using Cons.IH [of k] Cons.prems Suc by simp
  qed simp
qed simp

lemma update_at_take: "top_at i (take c xs) < c \<Longrightarrow> update_at base (take c xs) i = (fst (xs ! top_at i (take c xs)), base + of_nat (top_at i (take c xs)))"
  by (simp add: update_at_def)

lemma descend_at:
  assumes lv: "levels_ok h L xs" and cut: "cuts P h base xs c"
  shows "k \<le> L \<Longrightarrow> r < c \<Longrightarrow> k \<le> snd (xs ! r) \<Longrightarrow>
    descend P h k (fst (xs ! r)) (base + of_nat r) upd =
      Some (if k = 0 then fst (xs ! r) else fst (update_at base (take c xs) 0),
        if k = 0 then base + of_nat r else snd (update_at base (take c xs) 0),
        map (update_at base (take c xs)) [0..<k] @ upd)"
proof (induction k arbitrary: r upd)
  case (Suc k)
  let ?t = "top_at k (take c xs)"
  have c: "c \<le> length xs" using cut by (simp add: cuts_def)
  have "hits k (take c xs)" using Suc.prems c by (auto simp: hits_def in_set_conv_nth intro!: bexI [of _ "xs ! r"] exI [of _ r])
  then have t: "?t < c" "k < snd (xs ! ?t)" using top_at(1,2) [of k "take c xs"] c by auto
  have a: "advance P h k (fst (xs ! r)) (base + of_nat r) = Some (update_at base (take c xs) k)"
    using advance_at [OF lv cut, of k r] Suc.prems t(1) by (simp add: update_at_take)
  have u: "update_at base (take c xs) k = (fst (xs ! ?t), base + of_nat ?t)" using t(1) by (rule update_at_take)
  have d: "descend P h (Suc k) (fst (xs ! r)) (base + of_nat r) upd =
      descend P h k (fst (xs ! ?t)) (base + of_nat ?t) ((fst (xs ! ?t), base + of_nat ?t) # upd)"
    using a u by simp
  show ?case using Suc.IH [OF _ t(1), of "(fst (xs ! ?t), base + of_nat ?t) # upd"] Suc.prems(1) t(2) d u by (cases "k = 0") simp_all
qed simp

end
