(* ===== verification/Zskiplist_Heap.thy ===== *)
theory Zskiplist_Heap
  imports Zskiplist_Inv
begin

text \<open>
  The loops that write the levels of a skip list, one level of one node at a time, and their effect on
  the sequence of nodes: one node is put in or taken out behind a prefix.
\<close>

section \<open>Single writes\<close>

text \<open>What a node holds beside its levels, and how many levels it has.\<close>

definition zdata :: "'s zsl_heap \<Rightarrow> nat \<Rightarrow> (bytes option \<times> 's \<times> nat option \<times> nat) option" where
  "zdata h a = map_option (\<lambda>n. (zn_ele n, zn_score n, zn_backward n, length (zn_level n))) (h a)"

text \<open>Only levels have been written, and only of the nodes in \<open>A\<close>; \<open>G\<close> are the new levels.\<close>

definition relevels :: "'s zsl_heap \<Rightarrow> nat set \<Rightarrow> (nat \<Rightarrow> nat \<Rightarrow> zskiplistLevel option) \<Rightarrow> 's zsl_heap \<Rightarrow> bool" where
  "relevels h A G h' \<longleftrightarrow> (\<forall>b i. get_level h' b i = G b i) \<and> (\<forall>b. zdata h' b = zdata h b) \<and> (\<forall>b. b \<notin> A \<longrightarrow> h' b = h b)"

lemma relevels_refl: "relevels h A (get_level h) h"
  by (simp add: relevels_def)

lemma relevels_trans: "relevels h A G h1 \<Longrightarrow> relevels h1 A G' h2 \<Longrightarrow> relevels h A G' h2"
  by (simp add: relevels_def)

lemma relevels_mono: "relevels h A G h' \<Longrightarrow> A \<subseteq> B \<Longrightarrow> relevels h B G h'"
  by (auto simp: relevels_def)

lemma set_level_at:
  assumes "get_level h a i = Some l" "a \<in> A"
  shows "\<exists>h'. set_level h a i f = Some h' \<and> relevels h A ((get_level h)(a := (get_level h a)(i \<mapsto> f l))) h'"
proof -
  obtain n where n: "h a = Some n" "i < length (zn_level n)" "zn_level n ! i = l"
    using assms by (cases "h a") (auto simp: get_level_def split: if_splits)
  then have "set_level h a i f = Some (h(a \<mapsto> n\<lparr>zn_level := (zn_level n)[i := f l]\<rparr>))" by (simp add: set_level_def)
  moreover have "relevels h A ((get_level h)(a := (get_level h a)(i \<mapsto> f l))) (h(a \<mapsto> n\<lparr>zn_level := (zn_level n)[i := f l]\<rparr>))"
    using n assms(2) by (auto simp: relevels_def get_level_def zdata_def nth_list_update)
  ultimately show ?thesis by blast
qed

lemma level_data: "get_level h a i \<noteq> None \<longleftrightarrow> (\<exists>e s b k. zdata h a = Some (e, s, b, k) \<and> i < k)"
  by (cases "h a") (auto simp: get_level_def zdata_def)

section \<open>Loops over the levels\<close>

text \<open>
  All loops have one shape: the step for level \<open>i\<close> reads and writes level \<open>i\<close> of some nodes. Then the
  levels are independent: \<open>F i\<close> tells the new level \<open>i\<close> of every node from the old one.
\<close>

fun level_loop :: "(nat \<Rightarrow> 's zsl_heap \<Rightarrow> 's zsl_heap option) \<Rightarrow> nat \<Rightarrow> nat \<Rightarrow> 's zsl_heap \<Rightarrow> 's zsl_heap option" where
  "level_loop step i 0 h = Some h"
| "level_loop step i (Suc n) h = do { h' \<leftarrow> step i h; level_loop step (Suc i) n h' }"

definition column :: "'s zsl_heap \<Rightarrow> nat \<Rightarrow> nat \<Rightarrow> zskiplistLevel option" where
  "column h i b = get_level h b i"

definition level_step ::
    "(nat \<Rightarrow> 's zsl_heap \<Rightarrow> 's zsl_heap option) \<Rightarrow> nat set \<Rightarrow> (nat \<Rightarrow> (nat \<Rightarrow> zskiplistLevel option) \<Rightarrow> bool) \<Rightarrow>
     (nat \<Rightarrow> (nat \<Rightarrow> zskiplistLevel option) \<Rightarrow> nat \<Rightarrow> zskiplistLevel option) \<Rightarrow> bool" where
  "level_step step A C F \<longleftrightarrow> (\<forall>i h. C i (column h i) \<longrightarrow>
     (\<exists>h'. step i h = Some h' \<and> relevels h A (\<lambda>b j. if j = i then F i (column h i) b else get_level h b j) h'))"

lemma level_loop_at:
  assumes s: "level_step step A C F"
  shows "(\<And>j. i \<le> j \<Longrightarrow> j < i + n \<Longrightarrow> C j (column h j)) \<Longrightarrow>
    \<exists>h'. level_loop step i n h = Some h' \<and>
      relevels h A (\<lambda>b j. if i \<le> j \<and> j < i + n then F j (column h j) b else get_level h b j) h'"
proof (induction n arbitrary: h i)
  case 0
  then show ?case by (auto simp: relevels_def)
next
  case (Suc n)
  have "C i (column h i)" using Suc.prems [of i] by simp
  then obtain h1 where h1: "step i h = Some h1" "relevels h A (\<lambda>b j. if j = i then F i (column h i) b else get_level h b j) h1"
    using s by (auto simp: level_step_def)
  have col: "column h1 j = column h j" if "j \<noteq> i" for j
    using h1(2) that by (auto simp: relevels_def column_def fun_eq_iff)
  have "C j (column h1 j)" if "Suc i \<le> j" "j < Suc i + n" for j using Suc.prems [of j] that col [of j] by simp
  from Suc.IH [OF this] obtain h2 where h2: "level_loop step (Suc i) n h1 = Some h2"
    "relevels h1 A (\<lambda>b j. if Suc i \<le> j \<and> j < Suc i + n then F j (column h1 j) b else get_level h1 b j) h2" by blast
  have "(\<lambda>b j. if Suc i \<le> j \<and> j < Suc i + n then F j (column h1 j) b else get_level h1 b j) =
      (\<lambda>b j. if i \<le> j \<and> j < i + Suc n then F j (column h j) b else get_level h b j)"
    (is "?G1 = ?G2")
  proof (intro ext)
    fix b j
    show "?G1 b j = ?G2 b j" using h1(2) col [of j] by (cases "j = i") (simp_all add: relevels_def)
  qed
  then show ?case using h1(1) h2 relevels_trans [OF h1(2) h2(2)] by simp
qed

lemma set_level_step:
  "level_step (\<lambda>i h. set_level h (a i) i f) (range a) (\<lambda>i col. col (a i) \<noteq> None)
     (\<lambda>i col b. if b = a i then map_option f (col b) else col b)"
  unfolding level_step_def
proof (intro allI impI)
  fix i and h :: "'s zsl_heap"
  assume "column h i (a i) \<noteq> None"
  then obtain l where l: "get_level h (a i) i = Some l" by (auto simp: column_def)
  then have "(get_level h)(a i := (get_level h (a i))(i \<mapsto> f l)) =
      (\<lambda>b j. if j = i then (if b = a i then map_option f (column h i b) else column h i b) else get_level h b j)"
    by (auto simp: fun_eq_iff column_def)
  then show "\<exists>h'. set_level h (a i) i f = Some h' \<and> relevels h (range a)
      (\<lambda>b j. if j = i then (if b = a i then map_option f (column h i b) else column h i b) else get_level h b j) h'"
    using set_level_at [OF l, of "range a" f] by auto
qed

text \<open>The loops of the code.\<close>

lemma widen_level_loop: "widen_loop h a len i n = level_loop (\<lambda>i h. set_level h a i (\<lambda>l. l\<lparr>lv_span := len\<rparr>)) i n h"
  by (induction n arbitrary: h i) simp_all

lemma upt_from: "map U [i..<i + Suc n] = U i # map U [Suc i..<Suc i + n]"
  by (simp add: upt_rec)

lemma bump_level_loop:
  "bump_loop h i (map U [i..<i + n]) = level_loop (\<lambda>i h. set_level h (fst (U i)) i (\<lambda>l. l\<lparr>lv_span := lv_span l + 1\<rparr>)) i n h"
proof (induction n arbitrary: h i)
  case (Suc n)
  show ?case unfolding upt_from using Suc [of _ "Suc i"] by (cases "U i") (simp del: upt_Suc)
qed simp

definition link_step :: "nat \<Rightarrow> 64 word \<Rightarrow> (nat \<Rightarrow> nat \<times> 64 word) \<Rightarrow> nat \<Rightarrow> 's zsl_heap \<Rightarrow> 's zsl_heap option" where
  "link_step x rank0 U i h = link_loop h x rank0 i [U i]"

lemma link_level_loop: "link_loop h x rank0 i (map U [i..<i + n]) = level_loop (link_step x rank0 U) i n h"
proof (induction n arbitrary: h i)
  case (Suc n)
  show ?case unfolding upt_from using Suc [of _ "Suc i"] by (cases "U i") (simp add: link_step_def bind_assoc del: upt_Suc)
qed simp

definition unlink_step :: "nat \<Rightarrow> (nat \<Rightarrow> nat) \<Rightarrow> nat \<Rightarrow> 's zsl_heap \<Rightarrow> 's zsl_heap option" where
  "unlink_step x u i h = unlink_loop h x i [u i]"

lemma unlink_level_loop: "unlink_loop h x i (map u [i..<i + n]) = level_loop (unlink_step x u) i n h"
proof (induction n arbitrary: h i)
  case (Suc n)
  show ?case unfolding upt_from using Suc [of _ "Suc i"] by (simp add: unlink_step_def bind_assoc del: upt_Suc)
qed simp

lemma link_level_step:
  assumes "\<And>i. fst (U i) \<noteq> x"
  shows "level_step (link_step x rank0 U) (insert x (range (\<lambda>i. fst (U i)))) (\<lambda>i col. col (fst (U i)) \<noteq> None \<and> col x \<noteq> None)
     (\<lambda>i col b. if b = x then map_option (\<lambda>l. l\<lparr>lv_span := lv_span l - (rank0 - snd (U i))\<rparr>) (col (fst (U i)))
       else if b = fst (U i) then Some \<lparr>lv_forward = Some x, lv_span = (rank0 - snd (U i)) + 1\<rparr> else col b)"
  unfolding level_step_def
proof (intro allI impI)
  fix i and h :: "'s zsl_heap"
  assume c: "column h i (fst (U i)) \<noteq> None \<and> column h i x \<noteq> None"
  obtain u r where u: "U i = (u, r)" by fastforce
  have ux: "u \<noteq> x" using assms [of i] u by simp
  let ?A = "insert x (range (\<lambda>i. fst (U i)))"
  have A: "x \<in> ?A" "u \<in> ?A" using u by (auto simp: image_iff intro!: exI [of _ i])
  obtain ul xl where l: "get_level h u i = Some ul" "get_level h x i = Some xl" using c u by (auto simp: column_def)
  obtain h1 where h1: "set_level h x i (\<lambda>l. l\<lparr>lv_forward := lv_forward ul\<rparr>) = Some h1"
    "relevels h ?A ((get_level h)(x := (get_level h x)(i \<mapsto> xl\<lparr>lv_forward := lv_forward ul\<rparr>))) h1"
    using set_level_at [OF l(2) A(1)] by blast
  then have l1: "get_level h1 u i = Some ul" using ux l by (simp add: relevels_def)
  obtain h2 where h2: "set_level h1 u i (\<lambda>l. l\<lparr>lv_forward := Some x\<rparr>) = Some h2"
    "relevels h1 ?A ((get_level h1)(u := (get_level h1 u)(i \<mapsto> ul\<lparr>lv_forward := Some x\<rparr>))) h2"
    using set_level_at [OF l1 A(2)] by blast
  then have l2: "get_level h2 x i = Some (xl\<lparr>lv_forward := lv_forward ul\<rparr>)" "get_level h2 u i = Some (ul\<lparr>lv_forward := Some x\<rparr>)"
    using ux h1(2) by (simp_all add: relevels_def)
  obtain h3 where h3: "set_level h2 x i (\<lambda>l. l\<lparr>lv_span := lv_span ul - (rank0 - r)\<rparr>) = Some h3"
    "relevels h2 ?A ((get_level h2)(x := (get_level h2 x)(i \<mapsto> (xl\<lparr>lv_forward := lv_forward ul\<rparr>)\<lparr>lv_span := lv_span ul - (rank0 - r)\<rparr>))) h3"
    using set_level_at [OF l2(1) A(1)] by blast
  then have l3: "get_level h3 u i = Some (ul\<lparr>lv_forward := Some x\<rparr>)" using ux l2 by (simp add: relevels_def)
  obtain h4 where h4: "set_level h3 u i (\<lambda>l. l\<lparr>lv_span := (rank0 - r) + 1\<rparr>) = Some h4"
    "relevels h3 ?A ((get_level h3)(u := (get_level h3 u)(i \<mapsto> (ul\<lparr>lv_forward := Some x\<rparr>)\<lparr>lv_span := (rank0 - r) + 1\<rparr>))) h4"
    using set_level_at [OF l3 A(2)] by blast
  have s: "link_step x rank0 U i h = Some h4" using l l2 h1(1) h2(1) h3(1) h4(1) u by (simp add: link_step_def)
  have "relevels h ?A (get_level h4) h4"
    using relevels_trans [OF relevels_trans [OF relevels_trans [OF h1(2) h2(2)] h3(2)] h4(2)] by (simp add: relevels_def)
  moreover have "get_level h4 b j = (if j = i then
      (if b = x then map_option (\<lambda>l. l\<lparr>lv_span := lv_span l - (rank0 - snd (U i))\<rparr>) (column h i (fst (U i)))
       else if b = fst (U i) then Some \<lparr>lv_forward = Some x, lv_span = (rank0 - snd (U i)) + 1\<rparr> else column h i b) else get_level h b j)" for b j
    using h1(2) h2(2) h3(2) h4(2) u ux l by (simp add: relevels_def column_def)
  ultimately show "\<exists>h'. link_step x rank0 U i h = Some h' \<and> relevels h ?A (\<lambda>b j. if j = i then
      (if b = x then map_option (\<lambda>l. l\<lparr>lv_span := lv_span l - (rank0 - snd (U i))\<rparr>) (column h i (fst (U i)))
       else if b = fst (U i) then Some \<lparr>lv_forward = Some x, lv_span = (rank0 - snd (U i)) + 1\<rparr> else column h i b) else get_level h b j) h'"
    using s by (auto simp: relevels_def)
qed

lemma unlink_level_step:
  assumes "\<And>i. u i \<noteq> x"
  shows "level_step (unlink_step x u) (range u)
     (\<lambda>i col. (\<exists>l. col (u i) = Some l \<and> (lv_forward l = Some x \<longrightarrow> col x \<noteq> None)))
     (\<lambda>i col b. if b = u i
        then map_option (\<lambda>l. if lv_forward l = Some x
          then \<lparr>lv_forward = lv_forward (the (col x)), lv_span = lv_span l + (lv_span (the (col x)) - 1)\<rparr>
          else l\<lparr>lv_span := lv_span l - 1\<rparr>) (col b)
        else col b)"
  unfolding level_step_def
proof (intro allI impI)
  fix i and h :: "'s zsl_heap"
  let ?F = "\<lambda>b. if b = u i then map_option (\<lambda>l. if lv_forward l = Some x
          then \<lparr>lv_forward = lv_forward (the (column h i x)), lv_span = lv_span l + (lv_span (the (column h i x)) - 1)\<rparr>
          else l\<lparr>lv_span := lv_span l - 1\<rparr>) (column h i b) else column h i b"
  assume "\<exists>l. column h i (u i) = Some l \<and> (lv_forward l = Some x \<longrightarrow> column h i x \<noteq> None)"
  then obtain ul where ul: "get_level h (u i) i = Some ul" "lv_forward ul = Some x \<longrightarrow> column h i x \<noteq> None" by (auto simp: column_def)
  have A: "u i \<in> range u" by simp
  show "\<exists>h'. unlink_step x u i h = Some h' \<and> relevels h (range u) (\<lambda>b j. if j = i then ?F b else get_level h b j) h'"
  proof (cases "lv_forward ul = Some x")
    case True
    then obtain xl where xl: "get_level h x i = Some xl" using ul(2) by (auto simp: column_def)
    obtain h1 where h1: "set_level h (u i) i (\<lambda>l. l\<lparr>lv_span := lv_span l + (lv_span xl - 1)\<rparr>) = Some h1"
      "relevels h (range u) ((get_level h)(u i := (get_level h (u i))(i \<mapsto> ul\<lparr>lv_span := lv_span ul + (lv_span xl - 1)\<rparr>))) h1"
      using set_level_at [OF ul(1) A] by blast
    then have l1: "get_level h1 (u i) i = Some (ul\<lparr>lv_span := lv_span ul + (lv_span xl - 1)\<rparr>)" "get_level h1 x i = Some xl"
      using xl assms [of i, symmetric] by (simp_all add: relevels_def)
    obtain h2 where h2: "set_level h1 (u i) i (\<lambda>l. l\<lparr>lv_forward := lv_forward xl\<rparr>) = Some h2"
      "relevels h1 (range u) ((get_level h1)(u i := (get_level h1 (u i))(i \<mapsto> (ul\<lparr>lv_span := lv_span ul + (lv_span xl - 1)\<rparr>)\<lparr>lv_forward := lv_forward xl\<rparr>))) h2"
      using set_level_at [OF l1(1) A] by blast
    have "unlink_step x u i h = Some h2" using ul(1) True xl h1(1) l1(2) h2(1) by (simp add: unlink_step_def)
    moreover have "get_level h2 b j = (if j = i then ?F b else get_level h b j)" for b j
      using h1(2) h2(2) ul(1) xl True by (simp add: relevels_def column_def)
    ultimately show ?thesis using relevels_trans [OF h1(2) h2(2)] by (auto simp: relevels_def)
  next
    case False
    obtain h1 where h1: "set_level h (u i) i (\<lambda>l. l\<lparr>lv_span := lv_span l - 1\<rparr>) = Some h1"
      "relevels h (range u) ((get_level h)(u i := (get_level h (u i))(i \<mapsto> ul\<lparr>lv_span := lv_span ul - 1\<rparr>))) h1"
      using set_level_at [OF ul(1) A] by blast
    have "unlink_step x u i h = Some h1" using ul(1) False h1(1) by (simp add: unlink_step_def)
    moreover have "get_level h1 b j = (if j = i then ?F b else get_level h b j)" for b j
      using h1(2) ul(1) False by (simp add: relevels_def column_def)
    ultimately show ?thesis using h1(2) by (auto simp: relevels_def)
  qed
qed

end
