(* ===== verification/Zskiplist_Ops.thy ===== *)
theory Zskiplist_Ops
  imports Zskiplist_Heap
begin

text \<open>
  The representation of a sorted sequence by a skip list, and the effect of insertion and deletion on it.
\<close>

section \<open>A node more or less\<close>

lemma levels_ok_app:
  "levels_ok h L (P @ S) \<longleftrightarrow>
    (\<forall>j < length P. \<forall>i < snd (P ! j). i < L \<longrightarrow> get_level h (fst (P ! j)) i = Some (next_at i (drop (Suc j) P @ S))) \<and>
    levels_ok h L S"
proof (induction P)
  case (Cons x P)
  obtain a k where x: "x = (a, k)" by fastforce
  have "(\<forall>j < length (x # P). Q j) \<longleftrightarrow> Q 0 \<and> (\<forall>j < length P. Q (Suc j))" for Q by (auto simp: less_Suc_eq_0_disj)
  then show ?case using Cons x by (simp add: conj_assoc)
qed simp

lemma top_at_span: "hits i P \<Longrightarrow> of_nat (length (drop (Suc (top_at i P)) P)) = (of_nat (length P - 1) - of_nat (top_at i P) :: 64 word)"
  using top_at(1) [of i P] by (simp flip: of_nat_diff)

text \<open>The level of the last high enough node of a prefix, seen past the rest of the prefix.\<close>

lemma top_level:
  assumes lv: "levels_ok h L (P @ S)" and hit: "hits i P" and i: "i < L"
  shows "get_level h (fst (P ! top_at i P)) i =
    Some ((next_at i S)\<lparr>lv_span := (of_nat (length P - 1) - of_nat (top_at i P)) + lv_span (next_at i S)\<rparr>)"
  using lv top_at [OF hit] i top_at_span [OF hit] by (simp add: levels_ok_app next_at_miss)

lemma insert_levels:
  assumes lv: "levels_ok h L (P @ S)" and hit: "\<And>i. i < L \<Longrightarrow> hits i P" and k: "k \<le> L"
    and dis: "distinct (map fst (P @ (x, k) # S))"
    and g: "\<And>b i. b \<noteq> x \<Longrightarrow> i < L \<Longrightarrow> get_level h' b i =
      (if b = fst (P ! top_at i P)
       then if i < k then Some \<lparr>lv_forward = Some x, lv_span = (of_nat (length P - 1) - of_nat (top_at i P)) + 1\<rparr>
         else map_option (\<lambda>l. l\<lparr>lv_span := lv_span l + 1\<rparr>) (get_level h b i)
       else get_level h b i)"
    and gx: "\<And>i. i < k \<Longrightarrow> get_level h' x i =
      map_option (\<lambda>l. l\<lparr>lv_span := lv_span l - (of_nat (length P - 1) - of_nat (top_at i P))\<rparr>) (get_level h (fst (P ! top_at i P)) i)"
  shows "levels_ok h' L (P @ (x, k) # S)"
  unfolding levels_ok_app
proof (intro conjI allI impI)
  fix j i assume j: "j < length P" and ij: "i < snd (P ! j)" and i: "i < L"
  have nx: "fst (P ! j) \<noteq> x" using dis nth_mem [OF j] by auto
  have "get_level h (fst (P ! j)) i = Some (next_at i (drop (Suc j) P @ S))" using lv j ij i by (simp add: levels_ok_app)
  show "get_level h' (fst (P ! j)) i = Some (next_at i (drop (Suc j) P @ (x, k) # S))"
  proof (cases "top_at i P = j")
    case True
    then have "\<not> hits i (drop (Suc j) P)" using top_at_iff [OF j ij] by simp
    then show ?thesis using g [OF nx i] True top_level [OF lv hit [OF i] i] top_at_span [OF hit [OF i]]
      by (simp add: next_at_miss)
  next
    case False
    have h: "hits i (drop (Suc j) P)" using False top_at_iff [OF j ij] by simp
    have "top_at i P < length P" using top_at(1) [OF hit [OF i]] .
    then have "fst (P ! j) \<noteq> fst (P ! top_at i P)" using dis j False by (metis distinct_append map_append nth_map length_map nth_eq_iff_index_eq)
    then show ?thesis using g [OF nx i] lv j ij i h by (simp add: levels_ok_app next_at_hit)
  qed
next
  have "get_level h' x i = Some (next_at i S)" if "i < k" for i
    using gx [OF that] top_level [OF lv hit, of i] that k by simp
  moreover have "get_level h' b i = get_level h b i" if b: "b \<in> fst ` set S" and i: "i < L" for b i
  proof -
    have "b \<noteq> x" "b \<notin> fst ` set P" using dis b by auto
    moreover have "fst (P ! top_at i P) \<in> fst ` set P" using top_at(1) [OF hit [OF i]] by simp
    ultimately show ?thesis using g [of b i] i by auto
  qed
  moreover have "levels_ok h L S" using lv by (simp add: levels_ok_app)
  ultimately show "levels_ok h' L ((x, k) # S)" using levels_ok_frame [of S L h' h] by simp
qed

lemma delete_levels:
  assumes lv: "levels_ok h L (P @ (x, k) # S)" and hit: "\<And>i. i < L \<Longrightarrow> hits i P"
    and dis: "distinct (map fst (P @ (x, k) # S))"
    and g: "\<And>b i. b \<noteq> x \<Longrightarrow> i < L \<Longrightarrow> get_level h' b i =
      (if b = fst (P ! top_at i P)
       then map_option (\<lambda>l. if lv_forward l = Some x
          then \<lparr>lv_forward = lv_forward (the (get_level h x i)), lv_span = lv_span l + (lv_span (the (get_level h x i)) - 1)\<rparr>
          else l\<lparr>lv_span := lv_span l - 1\<rparr>) (get_level h b i)
       else get_level h b i)"
  shows "levels_ok h' L (P @ S)"
  unfolding levels_ok_app
proof (intro conjI allI impI)
  fix j i assume j: "j < length P" and ij: "i < snd (P ! j)" and i: "i < L"
  have nx: "fst (P ! j) \<noteq> x" using dis nth_mem [OF j] by auto
  show "get_level h' (fst (P ! j)) i = Some (next_at i (drop (Suc j) P @ S))"
  proof (cases "top_at i P = j")
    case True
    then have m: "\<not> hits i (drop (Suc j) P)" using top_at_iff [OF j ij] by simp
    have x: "get_level h x i = Some (next_at i S)" if "i < k" using lv that i by (simp add: levels_ok_app)
    have "lv_forward (next_at i S) \<noteq> Some x" using dis next_at_forward [of i S x] by auto
    then show ?thesis using g [OF nx i] True top_level [OF lv hit [OF i] i] top_at_span [OF hit [OF i]] m x
      by (cases "i < k") (simp_all add: next_at_miss)
  next
    case False
    have h: "hits i (drop (Suc j) P)" using False top_at_iff [OF j ij] by simp
    have "top_at i P < length P" using top_at(1) [OF hit [OF i]] .
    then have "fst (P ! j) \<noteq> fst (P ! top_at i P)" using dis j False by (metis distinct_append map_append nth_map length_map nth_eq_iff_index_eq)
    then show ?thesis using g [OF nx i] lv j ij i h by (simp add: levels_ok_app next_at_hit)
  qed
next
  have "get_level h' b i = get_level h b i" if b: "b \<in> fst ` set S" and i: "i < L" for b i
  proof -
    have "b \<noteq> x" "b \<notin> fst ` set P" using dis b by auto
    moreover have "fst (P ! top_at i P) \<in> fst ` set P" using top_at(1) [OF hit [OF i]] by simp
    ultimately show ?thesis using g [of b i] i by auto
  qed
  moreover have "levels_ok h L S" using lv by (simp add: levels_ok_app)
  ultimately show "levels_ok h' L S" using levels_ok_frame [of S L h' h] by simp
qed

section \<open>Representation\<close>

text \<open>The nodes behind the header, in order: address, score and element, height.\<close>

type_synonym 's zitem = "nat \<times> ('s \<times> bytes) \<times> nat"

abbreviation zkey :: "'s zitem \<Rightarrow> 's \<times> bytes" where
  "zkey x \<equiv> fst (snd x)"

definition ahs :: "'s zitem list \<Rightarrow> (nat \<times> nat) list" where
  "ahs xs = map (\<lambda>x. (fst x, snd (snd x))) xs"

lemma ahs_simps [simp]: "ahs [] = []" "ahs (x # xs) = (fst x, snd (snd x)) # ahs xs" "ahs (xs @ ys) = ahs xs @ ahs ys"
  "length (ahs xs) = length xs" "map fst (ahs xs) = map fst xs" "fst ` set (ahs xs) = fst ` set xs"
  by (auto simp: ahs_def image_image)

lemma ahs_nth: "j < length xs \<Longrightarrow> ahs xs ! j = (fst (xs ! j), snd (snd (xs ! j)))"
  by (simp add: ahs_def)

fun data_ok :: "'s zsl_heap \<Rightarrow> nat option \<Rightarrow> 's zitem list \<Rightarrow> bool" where
  "data_ok h p [] = True"
| "data_ok h p ((a, (s, e), k) # xs) \<longleftrightarrow> zdata h a = Some (Some e, s, p, k) \<and> data_ok h (Some a) xs"

definition last_addr :: "nat option \<Rightarrow> 's zitem list \<Rightarrow> nat option" where
  "last_addr p xs = (if xs = [] then p else Some (fst (last xs)))"

lemma last_addr_simps [simp]: "last_addr p [] = p" "last_addr p (x # xs) = last_addr (Some (fst x)) xs"
  "last_addr p (xs @ ys) = last_addr (last_addr p xs) ys"
  by (auto simp: last_addr_def)

lemma data_ok_append [simp]: "data_ok h p (xs @ ys) \<longleftrightarrow> data_ok h p xs \<and> data_ok h (last_addr p xs) ys"
  by (induction h p xs rule: data_ok.induct) auto

lemma data_ok_frame: "(\<And>a. a \<in> fst ` set xs \<Longrightarrow> zdata h' a = zdata h a) \<Longrightarrow> data_ok h' p xs \<longleftrightarrow> data_ok h p xs"
  by (induction h p xs rule: data_ok.induct) auto

lemma data_ok_in:
  assumes "data_ok h p xs" "(a, (s, e), k) \<in> set xs"
  shows "\<exists>n. h a = Some n \<and> zn_ele n = Some e \<and> zn_score n = s \<and> length (zn_level n) = k"
  using assms
proof (induction xs arbitrary: p)
  case (Cons x xs)
  then show ?case by (cases x) (auto simp: zdata_def)
qed simp

definition zsl_rep :: "('s::linorder) zsl_heap \<Rightarrow> zskiplist \<Rightarrow> 's zitem list \<Rightarrow> bool" where
  "zsl_rep h zsl xs \<longleftrightarrow>
     (\<exists>s0. zdata h (z_header zsl) = Some (None, s0, None, 32)) \<and> data_ok h None xs \<and>
     levels_ok h (z_level zsl) ((z_header zsl, 32) # ahs xs) \<and>
     (\<forall>i. z_level zsl \<le> i \<longrightarrow> i < 32 \<longrightarrow> (\<exists>s. get_level h (z_header zsl) i = Some \<lparr>lv_forward = None, lv_span = s\<rparr>)) \<and>
     1 \<le> z_level zsl \<and> z_level zsl \<le> 32 \<and> (\<forall>x \<in> set xs. 1 \<le> snd (snd x) \<and> snd (snd x) \<le> z_level zsl) \<and>
     distinct (z_header zsl # map fst xs) \<and> z_tail zsl = last_addr None xs \<and>
     z_length zsl = of_nat (length xs) \<and> length xs < 2 ^ 64 \<and> sorted_wrt (<) (map zkey xs)"

lemma zsl_repD:
  assumes "zsl_rep h zsl xs"
  shows "\<exists>s0. zdata h (z_header zsl) = Some (None, s0, None, 32)" "data_ok h None xs"
    "levels_ok h (z_level zsl) ((z_header zsl, 32) # ahs xs)"
    "\<And>i. z_level zsl \<le> i \<Longrightarrow> i < 32 \<Longrightarrow> \<exists>s. get_level h (z_header zsl) i = Some \<lparr>lv_forward = None, lv_span = s\<rparr>"
    "1 \<le> z_level zsl" "z_level zsl \<le> 32" "\<And>x. x \<in> set xs \<Longrightarrow> 1 \<le> snd (snd x) \<and> snd (snd x) \<le> z_level zsl"
    "z_header zsl \<notin> fst ` set xs" "distinct (map fst xs)" "z_tail zsl = last_addr None xs"
    "z_length zsl = of_nat (length xs)" "length xs < 2 ^ 64" "sorted_wrt (<) (map zkey xs)"
  using assms unfolding zsl_rep_def by auto

lemma zsl_repI:
  assumes "\<exists>s0. zdata h (z_header zsl) = Some (None, s0, None, 32)" "data_ok h None xs"
    "levels_ok h (z_level zsl) ((z_header zsl, 32) # ahs xs)"
    "\<And>i. z_level zsl \<le> i \<Longrightarrow> i < 32 \<Longrightarrow> \<exists>s. get_level h (z_header zsl) i = Some \<lparr>lv_forward = None, lv_span = s\<rparr>"
    "1 \<le> z_level zsl" "z_level zsl \<le> 32" "\<And>x. x \<in> set xs \<Longrightarrow> 1 \<le> snd (snd x) \<and> snd (snd x) \<le> z_level zsl"
    "z_header zsl \<notin> fst ` set xs" "distinct (map fst xs)" "z_tail zsl = last_addr None xs"
    "z_length zsl = of_nat (length xs)" "length xs < 2 ^ 64" "sorted_wrt (<) (map zkey xs)"
  shows "zsl_rep h zsl xs"
  using assms unfolding zsl_rep_def by simp

abbreviation zsl_nodes :: "zskiplist \<Rightarrow> 's zitem list \<Rightarrow> (nat \<times> nat) list" where
  "zsl_nodes zsl xs \<equiv> (z_header zsl, 32) # ahs xs"

lemma zsl_cuts:
  assumes r: "zsl_rep h zsl (ys @ zs)"
    and p: "\<And>rank l n e. zn_ele n = Some e \<Longrightarrow> P rank l (Some n) = Some (Q (zn_score n, e))"
    and q: "\<And>y. y \<in> set ys \<Longrightarrow> Q (zkey y)" "\<And>z. z \<in> set zs \<Longrightarrow> \<not> Q (zkey z)"
  shows "cuts P h base (zsl_nodes zsl (ys @ zs)) (Suc (length ys))"
  unfolding cuts_def
proof (intro conjI allI impI)
  fix r j
  assume j: "r < j" "j < length (zsl_nodes zsl (ys @ zs))"
  define x where "x = (ys @ zs) ! (j - 1)"
  have jx: "j - 1 < length (ys @ zs)" using j by simp
  have xs: "x \<in> set (ys @ zs)" unfolding x_def using jx by (rule nth_mem)
  obtain a s e k where x: "x = (a, (s, e), k)" by (cases x) auto
  obtain n where n: "h a = Some n" "zn_ele n = Some e" "zn_score n = s"
    using data_ok_in [of h None "ys @ zs" a s e k] r xs x by (auto simp: zsl_rep_def)
  have nd: "fst (zsl_nodes zsl (ys @ zs) ! j) = a"
    using j x x_def ahs_nth [OF jx] by (cases j) (simp_all del: ahs_simps)
  have "Q (s, e) \<longleftrightarrow> j < Suc (length ys)"
  proof (cases "j < Suc (length ys)")
    case True
    then have "x \<in> set ys" using x_def j by (auto simp: nth_append)
    then show ?thesis using q(1) [of x] x True by simp
  next
    case False
    then have "x = zs ! (j - 1 - length ys)" using x_def j by (auto simp: nth_append)
    moreover have "j - 1 - length ys < length zs" using False jx by simp
    ultimately have "x \<in> set zs" by simp
    then show ?thesis using q(2) [of x] x False by simp
  qed
  then show "P (base + of_nat r) \<lparr>lv_forward = Some (fst (zsl_nodes zsl (ys @ zs) ! j)), lv_span = of_nat (j - r)\<rparr>
      (h (fst (zsl_nodes zsl (ys @ zs) ! j))) = Some (j < Suc (length ys))"
    unfolding nd n(1) using p n by simp
qed simp

lemma before_cuts:
  assumes r: "zsl_rep h zsl (ys @ zs)"
    and k: "\<And>y. y \<in> set ys \<Longrightarrow> zkey y < (s, e)" "\<And>z. z \<in> set zs \<Longrightarrow> \<not> zkey z < (s, e)"
  shows "cuts (key_before s e) h base (zsl_nodes zsl (ys @ zs)) (Suc (length ys))"
proof (rule zsl_cuts [OF r, where Q = "\<lambda>key. key < (s, e)"])
  show "key_before s e rank l (Some n) = Some ((zn_score n, x) < (s, e))" if "zn_ele n = Some x" for rank l n x
    using that by (auto simp: key_before_def)
qed (rule k, assumption)+

lemma update_at_0:
  assumes "zsl_rep h zsl (ys @ zs)"
  shows "update_at base (zsl_nodes zsl ys) 0 = (fst (last (zsl_nodes zsl ys)), base + of_nat (length ys))"
proof -
  have "0 < snd (last (zsl_nodes zsl ys))"
  proof (cases ys rule: rev_cases)
    case (snoc us y)
    have "y \<in> set (ys @ zs)" using snoc by simp
    then have "1 \<le> snd (snd y)" using assms by (simp add: zsl_rep_def)
    then show ?thesis using snoc by simp
  qed simp
  then have "top_at 0 (zsl_nodes zsl ys) = length ys" using top_at_low [of "zsl_nodes zsl ys" 0] by simp
  moreover have "zsl_nodes zsl ys ! length ys = last (zsl_nodes zsl ys)"
    using last_conv_nth [of "zsl_nodes zsl ys"] by (simp del: last.simps)
  ultimately show ?thesis by (simp add: update_at_def)
qed

text \<open>The result of the walk that stops behind \<open>ys\<close>.\<close>

lemma zsl_descend:
  assumes r: "zsl_rep h zsl (ys @ zs)" and c: "cuts P h base (zsl_nodes zsl (ys @ zs)) (Suc (length ys))"
  shows "descend P h (z_level zsl) (z_header zsl) base [] =
    Some (fst (last (zsl_nodes zsl ys)), base + of_nat (length ys), map (update_at base (zsl_nodes zsl ys)) [0..<z_level zsl])"
proof -
  have t: "take (Suc (length ys)) (zsl_nodes zsl (ys @ zs)) = zsl_nodes zsl ys" by simp
  note update_at_0 [OF r, of base]
  moreover have "z_level zsl \<le> 32" "1 \<le> z_level zsl" "levels_ok h (z_level zsl) (zsl_nodes zsl (ys @ zs))" using r by (simp_all add: zsl_rep_def)
  ultimately show ?thesis using descend_at [OF _ c, of "z_level zsl" "z_level zsl" 0 "[]"] t by simp
qed

section \<open>Insertion\<close>

lemma set_backward_at:
  assumes "zdata h a = Some (e, s, b0, k)"
  shows "\<exists>h'. set_backward h a b = Some h' \<and> get_level h' = get_level h \<and> zdata h' = (zdata h)(a \<mapsto> (e, s, b, k)) \<and>
    (\<forall>c. c \<noteq> a \<longrightarrow> h' c = h c)"
proof -
  obtain n where n: "h a = Some n" "zn_ele n = e" "zn_score n = s" "length (zn_level n) = k"
    using assms by (auto simp: zdata_def)
  then show ?thesis by (intro exI [of _ "h(a \<mapsto> n\<lparr>zn_backward := b\<rparr>)"]) (auto simp: set_backward_def fun_eq_iff get_level_def zdata_def)
qed

lemma update_at_in: "P \<noteq> [] \<Longrightarrow> fst (update_at base P i) \<in> fst ` set P"
proof -
  have "P \<noteq> [] \<Longrightarrow> top_at i P < length P" for P using top_at(1) [of i P] by (cases P) auto
  then show "P \<noteq> [] \<Longrightarrow> fst (update_at base P i) \<in> fst ` set P" by (simp add: update_at_def)
qed

lemma link_all:
  assumes lv: "levels_ok h L (P @ S)" and hit: "\<And>i. i < L \<Longrightarrow> hits i P" and k: "lev \<le> L" and ne: "P \<noteq> []"
    and dis: "distinct (map fst (P @ (x, lev) # S))"
    and h2: "\<And>b i. get_level h2 b i = (if b = x then if i < lev then Some l0 else None else get_level h b i)"
  shows "\<exists>h3 h4. link_loop h2 x (of_nat (length P - 1)) 0 (map (update_at 0 P) [0..<lev]) = Some h3 \<and>
    bump_loop h3 lev (map (update_at 0 P) [lev..<L]) = Some h4 \<and>
    relevels h2 (insert x (fst ` set P)) (get_level h4) h4 \<and> levels_ok h4 L (P @ (x, lev) # S) \<and>
    (\<forall>b i. L \<le> i \<longrightarrow> get_level h4 b i = get_level h2 b i)"
proof -
  let ?U = "update_at 0 P" and ?r = "of_nat (length P - 1) :: 64 word" and ?A = "insert x (fst ` set P)"
  have U: "fst (?U i) \<in> fst ` set P" "fst (?U i) \<noteq> x" for i using update_at_in [OF ne, of 0 i] dis by auto
  have Ui: "?U i = (fst (P ! top_at i P), of_nat (top_at i P))" for i by (simp add: update_at_def)
  have top: "get_level h2 (fst (?U i)) i = get_level h (fst (P ! top_at i P)) i" "get_level h2 (fst (?U i)) i \<noteq> None" if "i < L" for i
    using top_level [OF lv hit [OF that] that] h2 [of "fst (?U i)" i] U(2) [of i] by (simp_all add: Ui)
  obtain h3 where h3: "link_loop h2 x ?r 0 (map ?U [0..<lev]) = Some h3"
    "relevels h2 (insert x (range (\<lambda>i. fst (?U i)))) (\<lambda>b i. if 0 \<le> i \<and> i < 0 + lev then
       (if b = x then map_option (\<lambda>l. l\<lparr>lv_span := lv_span l - (?r - snd (?U i))\<rparr>) (column h2 i (fst (?U i)))
        else if b = fst (?U i) then Some \<lparr>lv_forward = Some x, lv_span = (?r - snd (?U i)) + 1\<rparr> else column h2 i b)
       else get_level h2 b i) h3"
    using level_loop_at [OF link_level_step [of ?U x ?r], of 0 lev h2] link_level_loop [of h2 x ?r 0 ?U lev] U(2) top(2) h2 k
    by (auto simp: column_def)
  have g3: "get_level h3 b i = (if i < lev then
       (if b = x then map_option (\<lambda>l. l\<lparr>lv_span := lv_span l - (?r - of_nat (top_at i P))\<rparr>) (get_level h (fst (P ! top_at i P)) i)
        else if b = fst (P ! top_at i P) then Some \<lparr>lv_forward = Some x, lv_span = (?r - of_nat (top_at i P)) + 1\<rparr> else get_level h2 b i)
       else get_level h2 b i)" for b i
    using h3(2) top(1) [of i] k by (auto simp: relevels_def column_def Ui)
  have c: "column h3 j (fst (?U j)) \<noteq> None" if "lev \<le> j" "j < lev + (L - lev)" for j
    using that top(2) [of j] by (simp add: column_def g3)
  obtain h4 where h4: "bump_loop h3 lev (map ?U [lev..<lev + (L - lev)]) = Some h4"
    "relevels h3 (range (\<lambda>i. fst (?U i))) (\<lambda>b i. if lev \<le> i \<and> i < lev + (L - lev) then
       (if b = fst (?U i) then map_option (\<lambda>l. l\<lparr>lv_span := lv_span l + 1\<rparr>) (column h3 i b) else column h3 i b) else get_level h3 b i) h4"
    using level_loop_at [OF set_level_step [of "\<lambda>i. fst (?U i)" "\<lambda>l. l\<lparr>lv_span := lv_span l + 1\<rparr>"], of lev "L - lev" h3]
      bump_level_loop [of h3 lev ?U "L - lev"] c by auto
  have g4: "get_level h4 b i = (if lev \<le> i \<and> i < L then
       (if b = fst (P ! top_at i P) then map_option (\<lambda>l. l\<lparr>lv_span := lv_span l + 1\<rparr>) (get_level h2 b i) else get_level h2 b i) else get_level h3 b i)" for b i
    using h4(2) k g3 [of b i] by (auto simp: relevels_def column_def Ui)
  have rel: "relevels h2 ?A (get_level h4) h4"
  proof -
    have "relevels h2 ?A (get_level h3) h3" using relevels_mono [OF h3(2), of ?A] U(1) by (auto simp: relevels_def)
    moreover have "relevels h3 ?A (get_level h4) h4" using relevels_mono [OF h4(2), of ?A] U(1) by (auto simp: relevels_def)
    ultimately show ?thesis by (rule relevels_trans)
  qed
  have "levels_ok h4 L (P @ (x, lev) # S)"
  proof (rule insert_levels [OF lv hit k dis])
    fix b i assume "b \<noteq> x" "i < L"
    then show "get_level h4 b i = (if b = fst (P ! top_at i P)
       then if i < lev then Some \<lparr>lv_forward = Some x, lv_span = (?r - of_nat (top_at i P)) + 1\<rparr>
         else map_option (\<lambda>l. l\<lparr>lv_span := lv_span l + 1\<rparr>) (get_level h b i)
       else get_level h b i)" using h2 [of b i] by (auto simp: g3 g4)
  next
    fix i assume "i < lev"
    then show "get_level h4 x i = map_option (\<lambda>l. l\<lparr>lv_span := lv_span l - (?r - of_nat (top_at i P))\<rparr>) (get_level h (fst (P ! top_at i P)) i)"
      by (simp add: g3 g4)
  qed
  moreover have "get_level h4 b i = get_level h2 b i" if "L \<le> i" for b i using that k by (simp add: g3 g4)
  ultimately show ?thesis using h3(1) h4(1) rel k by auto
qed

text \<open>The levels above the present height of the list start at the header and cross the whole list.\<close>

lemma levels_ok_above: "levels_ok h L xs \<Longrightarrow> \<forall>x \<in> set xs. snd x \<le> L \<Longrightarrow> levels_ok h L' xs"
  by (induction h L xs rule: levels_ok.induct) auto

lemma rep_low:
  assumes "zsl_rep h zsl xs" "z_level zsl \<le> i" "set ys \<subseteq> set xs"
  shows "\<not> hits i (ahs ys)"
proof -
  have "\<forall>x \<in> set xs. snd (snd x) \<le> z_level zsl" using assms(1) by (simp add: zsl_rep_def)
  then have "\<not> i < snd (snd x)" if "x \<in> set ys" for x using that assms(2,3) by (meson le_trans not_le subsetD)
  then show ?thesis by (auto simp: hits_def ahs_def)
qed

lemma widen_at:
  assumes r: "zsl_rep h zsl xs" and lev: "z_level zsl < lev" "lev \<le> 32"
  shows "\<exists>h'. widen_loop h (z_header zsl) (z_length zsl) (z_level zsl) (lev - z_level zsl) = Some h' \<and>
    relevels h {z_header zsl} (get_level h') h' \<and> levels_ok h' lev (zsl_nodes zsl xs) \<and>
    (\<forall>b i. lev \<le> i \<longrightarrow> get_level h' b i = get_level h b i)"
proof -
  let ?a = "z_header zsl" and ?L = "z_level zsl"
  have up: "\<exists>s. get_level h ?a i = Some \<lparr>lv_forward = None, lv_span = s\<rparr>" if "?L \<le> i" "i < 32" for i
    using r that by (simp add: zsl_rep_def)
  have c: "column h j ?a \<noteq> None" if "?L \<le> j" "j < ?L + (lev - ?L)" for j
    using up [of j] that lev by (auto simp: column_def)
  obtain h' where h': "widen_loop h ?a (z_length zsl) ?L (lev - ?L) = Some h'"
    "relevels h {?a} (\<lambda>b i. if ?L \<le> i \<and> i < ?L + (lev - ?L) then
       (if b = ?a then map_option (\<lambda>l. l\<lparr>lv_span := z_length zsl\<rparr>) (column h i b) else column h i b) else get_level h b i) h'"
    using level_loop_at [OF set_level_step [of "\<lambda>_. ?a" "\<lambda>l. l\<lparr>lv_span := z_length zsl\<rparr>"], of ?L "lev - ?L" h]
      widen_level_loop [of h ?a "z_length zsl" ?L "lev - ?L"] c by auto
  have g: "get_level h' b i = (if ?L \<le> i \<and> i < lev \<and> b = ?a then map_option (\<lambda>l. l\<lparr>lv_span := z_length zsl\<rparr>) (get_level h b i) else get_level h b i)" for b i
    using h'(2) lev by (auto simp: relevels_def column_def)
  have low: "\<not> hits i (ahs xs)" if "?L \<le> i" for i using rep_low [OF r that subset_refl] .
  have "get_level h' ?a i = Some (next_at i (ahs xs))" if li: "i < lev" for i
  proof (cases "i < ?L")
    case True
    then show ?thesis using r lev li by (simp add: g zsl_rep_def)
  next
    case False
    then obtain s where "get_level h ?a i = Some \<lparr>lv_forward = None, lv_span = s\<rparr>" using up [of i] li lev by auto
    moreover have "z_length zsl = of_nat (length xs)" using r by (simp add: zsl_rep_def)
    ultimately show ?thesis using False li low [of i] next_at_none [of i "ahs xs"] by (simp add: g)
  qed
  moreover have "levels_ok h' lev (ahs xs)"
  proof -
    have hd: "?a \<notin> fst ` set (ahs xs)" using r by (auto simp: zsl_rep_def)
    have "levels_ok h ?L (ahs xs)" using r by (simp add: zsl_rep_def)
    moreover have "\<forall>x \<in> set (ahs xs). snd x \<le> ?L" using r by (auto simp: zsl_rep_def ahs_def)
    ultimately have "levels_ok h lev (ahs xs)" by (rule levels_ok_above)
    moreover have "get_level h' a i = get_level h a i" if "a \<in> fst ` set (ahs xs)" for a i
    proof -
      have "a \<noteq> ?a" using that hd by blast
      then show ?thesis by (simp add: g)
    qed
    ultimately show ?thesis using levels_ok_frame [of "ahs xs" lev h' h] by simp
  qed
  ultimately have "levels_ok h' lev (zsl_nodes zsl xs)" by simp
  moreover have "relevels h {?a} (get_level h') h'" using h'(2) by (simp add: relevels_def)
  ultimately show ?thesis using h'(1) by (auto simp: g)
qed

text \<open>
  What an operation leaves of the rest: nodes that are not in the list, and the header.
\<close>

definition zsl_frame :: "'s zsl_heap \<Rightarrow> zskiplist \<Rightarrow> nat set \<Rightarrow> 's zsl_heap \<Rightarrow> zskiplist \<Rightarrow> bool" where
  "zsl_frame h zsl A h' zsl' \<longleftrightarrow> z_header zsl' = z_header zsl \<and> (\<forall>b. b \<notin> insert (z_header zsl) A \<longrightarrow> h' b = h b)"

lemma random_level: "zslRandomLevel rs = Some lev \<Longrightarrow> 1 \<le> lev \<and> lev \<le> 32"
proof -
  have "random_loop rs k = Some l \<Longrightarrow> k \<le> l" for k l by (induction rs k rule: random_loop.induct) (auto split: if_splits)
  then show "zslRandomLevel rs = Some lev \<Longrightarrow> 1 \<le> lev \<and> lev \<le> 32"
    by (fastforce simp: zslRandomLevel_def ZSKIPLIST_MAXLEVEL_def split: if_splits Option.bind_splits)
qed

text \<open>The walk of \<^verbatim>\<open>zslInsert\<close> and the growth of the header, for a new node behind \<open>ys\<close>.\<close>

lemma insert_walk:
  assumes r: "zsl_rep h zsl (ys @ zs)" and lev: "1 \<le> lev" "lev \<le> 32"
    and k: "\<And>y. y \<in> set ys \<Longrightarrow> zkey y < (s, e)" "\<And>z. z \<in> set zs \<Longrightarrow> (s, e) < zkey z"
  shows "\<exists>h1 upd. descend (key_before s e) h (z_level zsl) (z_header zsl) 0 [] =
      Some (fst (last (zsl_nodes zsl ys)), of_nat (length ys), upd) \<and>
    (if lev > z_level zsl
     then do {
       h' \<leftarrow> widen_loop h (z_header zsl) (z_length zsl) (z_level zsl) (lev - z_level zsl);
       Some (h', zsl\<lparr>z_level := lev\<rparr>, upd @ replicate (lev - z_level zsl) (z_header zsl, 0))
     }
     else Some (h, zsl, upd)) =
      Some (h1, zsl\<lparr>z_level := max (z_level zsl) lev\<rparr>, map (update_at 0 (zsl_nodes zsl ys)) [0..<max (z_level zsl) lev]) \<and>
    relevels h {z_header zsl} (get_level h1) h1 \<and> levels_ok h1 (max (z_level zsl) lev) (zsl_nodes zsl (ys @ zs)) \<and>
    (\<forall>b i. max (z_level zsl) lev \<le> i \<longrightarrow> get_level h1 b i = get_level h b i)"
proof -
  let ?L = "z_level zsl" and ?P = "zsl_nodes zsl ys"
  have "cuts (key_before s e) h 0 (zsl_nodes zsl (ys @ zs)) (Suc (length ys))"
    using k by (intro before_cuts [OF r]) (auto intro: order.asym)
  from zsl_descend [OF r this] have d: "descend (key_before s e) h ?L (z_header zsl) 0 [] =
      Some (fst (last ?P), of_nat (length ys), map (update_at 0 ?P) [0..<?L])" by simp
  show ?thesis
  proof (cases "lev > ?L")
    case True
    have low: "update_at 0 ?P i = (z_header zsl, 0)" if "?L \<le> i" for i
    proof -
      have "\<not> hits i (ahs ys)" using rep_low [OF r that, of ys] by simp
      then show ?thesis by (simp add: update_at_def)
    qed
    have "map (update_at 0 ?P) [0..<lev] = map (update_at 0 ?P) [0..<?L] @ map (update_at 0 ?P) [?L..<lev]"
      using upt_add_eq_append [of 0 ?L "lev - ?L"] True by (simp del: upt_Suc)
    also have "map (update_at 0 ?P) [?L..<lev] = replicate (lev - ?L) (z_header zsl, 0)"
      using low by (intro nth_equalityI) simp_all
    finally have u: "map (update_at 0 ?P) [0..<?L] @ replicate (lev - ?L) (z_header zsl, 0) = map (update_at 0 ?P) [0..<lev]" by simp
    obtain h1 where h1: "widen_loop h (z_header zsl) (z_length zsl) ?L (lev - ?L) = Some h1"
      "relevels h {z_header zsl} (get_level h1) h1" "levels_ok h1 lev (zsl_nodes zsl (ys @ zs))"
      "\<forall>b i. lev \<le> i \<longrightarrow> get_level h1 b i = get_level h b i" using widen_at [OF r True lev(2)] by blast
    have m: "max ?L lev = lev" using True by simp
    show ?thesis using h1 d True u unfolding m by (intro exI [of _ h1] exI [of _ "map (update_at 0 ?P) [0..<?L]"]) simp
  next
    case False
    then have m: "max ?L lev = ?L" by simp
    have "levels_ok h ?L (zsl_nodes zsl (ys @ zs))" using r by (simp add: zsl_rep_def)
    then show ?thesis using d False relevels_refl [of h "{z_header zsl}"] unfolding m
      by (intro exI [of _ h] exI [of _ "map (update_at 0 ?P) [0..<?L]"]) simp
  qed
qed

text \<open>The back pointer of the node behind the place of change, if there is one.\<close>

lemma back_at:
  assumes d: "data_ok h b0 zs" and dis: "distinct (map fst zs)" and ht: "\<forall>z \<in> set zs. 1 \<le> snd (snd z)"
  obtains (stop) "zs = []" "lv_forward (next_at 0 (ahs zs)) = None"
    | (node) f h' where "lv_forward (next_at 0 (ahs zs)) = Some f" "zs \<noteq> []" "set_backward h f b = Some h'"
        "get_level h' = get_level h" "data_ok h' b zs" "\<And>a. a \<notin> fst ` set zs \<Longrightarrow> zdata h' a = zdata h a \<and> h' a = h a"
proof (cases zs)
  case (Cons z zs')
  obtain f s e k where z: "z = (f, (s, e), k)" by (cases z) auto
  have zd: "zdata h f = Some (Some e, s, b0, k)" "0 < k" using d ht Cons z by auto
  obtain h' where h': "set_backward h f b = Some h'" "get_level h' = get_level h" "zdata h' = (zdata h)(f \<mapsto> (Some e, s, b, k))"
    "\<forall>c. c \<noteq> f \<longrightarrow> h' c = h c" using set_backward_at [OF zd(1), of b] by blast
  have "f \<notin> fst ` set zs'" using dis Cons z by simp
  then have "data_ok h' (Some f) zs' = data_ok h (Some f) zs'" using h'(3) by (intro data_ok_frame) auto
  then have "data_ok h' b zs" using d Cons z h'(3) by simp
  moreover have "zdata h' a = zdata h a \<and> h' a = h a" if "a \<notin> fst ` set zs" for a using that h'(3,4) Cons z by auto
  ultimately show ?thesis using that(2) [of f h'] h'(1,2) Cons z zd(2) by simp
qed (use that in simp)

lemma last_node: "fst (last (zsl_nodes zsl ys)) = (case last_addr None ys of None \<Rightarrow> z_header zsl | Some a \<Rightarrow> a)"
  by (cases ys rule: rev_cases) simp_all

text \<open>\<^verbatim>\<open>zslInsert\<close> up to the point where all levels are linked.\<close>

definition insert_finish :: "nat option \<Rightarrow> nat \<Rightarrow> 's zsl_heap \<Rightarrow> zskiplist \<Rightarrow> ('s zsl_heap \<times> zskiplist \<times> nat) option" where
  "insert_finish b zn h4 zsl2 = do {
     h5 \<leftarrow> set_backward h4 zn b;
     l0 \<leftarrow> get_level h5 zn 0;
     (h6, zsl3) \<leftarrow>
       (case lv_forward l0 of
          Some f \<Rightarrow> do { h' \<leftarrow> set_backward h5 f (Some zn); Some (h', zsl2) }
        | None \<Rightarrow> Some (h5, zsl2\<lparr>z_tail := Some zn\<rparr>));
     Some (h6, zsl3\<lparr>z_length := z_length zsl3 + 1\<rparr>, zn)
   }"

lemma insert_linked:
  assumes r: "zsl_rep h zsl (ys @ zs)" and zn: "h zn = None" and rs: "zslRandomLevel rs = Some lev"
    and k: "\<And>y. y \<in> set ys \<Longrightarrow> zkey y < (s, e)" "\<And>z. z \<in> set zs \<Longrightarrow> (s, e) < zkey z"
    and L: "L = max (z_level zsl) lev"
    and zsl2: "zsl2 = zsl\<lparr>z_level := L, z_alloc_size := z_alloc_size zsl + usable_size E zn + sdsAllocSize E e\<rparr>"
  shows "\<exists>h4. zslInsert E rs zn h zsl s e = insert_finish (last_addr None ys) zn h4 zsl2 \<and>
    levels_ok h4 L (zsl_nodes zsl (ys @ (zn, (s, e), lev) # zs)) \<and>
    zdata h4 = (zdata h)(zn \<mapsto> (Some e, s, None, lev)) \<and>
    (\<forall>b. b \<notin> insert zn (insert (z_header zsl) (fst ` set ys)) \<longrightarrow> h4 b = h b) \<and>
    (\<forall>i. L \<le> i \<longrightarrow> get_level h4 (z_header zsl) i = get_level h (z_header zsl) i)"
proof -
  let ?P = "zsl_nodes zsl ys" and ?S = "ahs zs" and ?hd = "z_header zsl" and ?U = "update_at 0 (zsl_nodes zsl ys)"
  have lev: "1 \<le> lev" "lev \<le> 32" "lev \<le> L" using random_level [OF rs] L by simp_all
  obtain h1 upd where w: "descend (key_before s e) h (z_level zsl) ?hd 0 [] = Some (fst (last ?P), of_nat (length ys), upd)"
    "(if lev > z_level zsl
     then do {
       h' \<leftarrow> widen_loop h ?hd (z_length zsl) (z_level zsl) (lev - z_level zsl);
       Some (h', zsl\<lparr>z_level := lev\<rparr>, upd @ replicate (lev - z_level zsl) (?hd, 0))
     }
     else Some (h, zsl, upd)) = Some (h1, zsl\<lparr>z_level := L\<rparr>, map ?U [0..<L])"
    "relevels h {?hd} (get_level h1) h1" "levels_ok h1 L (?P @ ?S)" "\<forall>b i. L \<le> i \<longrightarrow> get_level h1 b i = get_level h b i"
    using insert_walk [OF r lev(1,2) k] L by auto
  have hd: "h ?hd \<noteq> None" "?hd \<notin> fst ` set (ys @ zs)" "distinct (map fst (ys @ zs))"
    using zsl_repD(1,8,9) [OF r] by (auto simp: zdata_def)
  have zx: "zn \<notin> fst ` set (ys @ zs)" using data_ok_in [OF zsl_repD(2) [OF r], of zn] zn by force
  have zh: "zn \<noteq> ?hd" using hd(1) zn by auto
  define h2 where "h2 = h1(zn \<mapsto> \<lparr>zn_ele = Some e, zn_score = s, zn_backward = None, zn_level = replicate lev \<lparr>lv_forward = None, lv_span = 0\<rparr>\<rparr>)"
  have cr: "zslCreateNode E h1 (zsl\<lparr>z_level := L\<rparr>) zn lev s (Some e) = (h2, zsl2)" by (simp add: zslCreateNode_def h2_def zsl2)
  have g2: "get_level h2 b i = (if b = zn then if i < lev then Some \<lparr>lv_forward = None, lv_span = 0\<rparr> else None else get_level h1 b i)" for b i
    by (simp add: h2_def get_level_def)
  have z2: "zdata h2 = (zdata h)(zn \<mapsto> (Some e, s, None, lev))" using w(3) by (auto simp: fun_eq_iff relevels_def h2_def zdata_def)
  have f2: "h2 b = h b" if "b \<noteq> zn" "b \<noteq> ?hd" for b using w(3) that by (simp add: relevels_def h2_def)
  have dis: "distinct (map fst (?P @ (zn, lev) # ?S))" using hd zx zh by auto
  have hit: "hits i ?P" if "i < L" for i using that lev(2) zsl_repD(6) [OF r] L by (simp add: max_def split: if_splits)
  obtain h3 h4 where l: "link_loop h2 zn (of_nat (length ?P - 1)) 0 (map ?U [0..<lev]) = Some h3"
    "bump_loop h3 lev (map ?U [lev..<L]) = Some h4" "relevels h2 (insert zn (fst ` set ?P)) (get_level h4) h4"
    "levels_ok h4 L (?P @ (zn, lev) # ?S)" "\<forall>b i. L \<le> i \<longrightarrow> get_level h4 b i = get_level h2 b i"
    using link_all [OF w(4) hit lev(3) _ dis g2] by auto
  have "zdata h4 = (zdata h)(zn \<mapsto> (Some e, s, None, lev))" using l(3) z2 by (auto simp: relevels_def fun_eq_iff)
  moreover have "h4 b = h b" if "b \<notin> insert zn (insert ?hd (fst ` set ys))" for b using l(3) f2 [of b] that by (simp add: relevels_def)
  moreover have "get_level h4 ?hd i = get_level h ?hd i" if "L \<le> i" for i using l(5) that zh w(5) by (simp add: g2)
  moreover have "zslInsert E rs zn h zsl s e = insert_finish (last_addr None ys) zn h4 zsl2"
  proof -
    have b0: "(if fst (last ?P) = z_header zsl2 then None else Some (fst (last ?P))) = last_addr None ys"
      using hd(2) by (cases ys rule: rev_cases) (auto simp: zsl2)
    have u: "map ?U [0..<L] = (fst (last ?P), of_nat (length ys)) # map ?U [1..<L]"
      using lev update_at_0 [OF r, of 0] by (simp add: upt_conv_Cons)
    have tk: "take lev (map ?U [0..<L]) = map ?U [0..<lev]" "drop lev (map ?U [0..<L]) = map ?U [lev..<L]"
      using lev(3) by (simp_all add: take_map drop_map)
    show ?thesis unfolding zslInsert_def w(1) rs bind.bind_lunit prod.case w(2) cr Let_def tk insert_finish_def
      using l(1,2) by (subst u) (simp add: b0 del: last.simps)
  qed
  ultimately show ?thesis using l(4) by auto
qed

lemma insert_finish_at:
  assumes d: "zdata h4 zn = Some (e0, s0, b0, lev)" "data_ok h4 b zs" and dis: "distinct (zn # map fst zs)"
    and ht: "\<forall>z \<in> set zs. 1 \<le> snd (snd z)" and lv: "get_level h4 zn 0 = Some (next_at 0 (ahs zs))"
  shows "\<exists>h'. insert_finish b zn h4 zsl = Some (h', zsl\<lparr>z_length := z_length zsl + 1, z_tail := (if zs = [] then Some zn else z_tail zsl)\<rparr>, zn) \<and>
    get_level h' = get_level h4 \<and> zdata h' zn = Some (e0, s0, b, lev) \<and> data_ok h' (Some zn) zs \<and>
    (\<forall>a. a \<notin> insert zn (fst ` set zs) \<longrightarrow> zdata h' a = zdata h4 a \<and> h' a = h4 a)"
proof -
  obtain h5 where h5: "set_backward h4 zn b = Some h5" "get_level h5 = get_level h4"
    "zdata h5 = (zdata h4)(zn \<mapsto> (e0, s0, b, lev))" "\<forall>c. c \<noteq> zn \<longrightarrow> h5 c = h4 c" using set_backward_at [OF d(1), of b] by blast
  have "zdata h5 a = zdata h4 a" if "a \<in> fst ` set zs" for a using that dis h5(3) by auto
  then have dz: "data_ok h5 b zs" using data_ok_frame [of zs h5 h4] d(2) by simp
  have d1: "distinct (map fst zs)" using dis by simp
  show ?thesis
  proof (cases rule: back_at [OF dz d1 ht, where b = "Some zn"])
    case 1
    then have "insert_finish b zn h4 zsl = Some (h5, zsl\<lparr>z_length := z_length zsl + 1, z_tail := Some zn\<rparr>, zn)"
      using h5(1,2) lv by (simp add: insert_finish_def)
    then show ?thesis using 1 h5 by (intro exI [of _ h5]) simp
  next
    case (2 f h6)
    have zf: "zn \<notin> fst ` set zs" using dis by simp
    have "insert_finish b zn h4 zsl = Some (h6, zsl\<lparr>z_length := z_length zsl + 1\<rparr>, zn)"
      using h5(1,2) lv 2(1,3) by (simp add: insert_finish_def)
    moreover have "zdata h6 zn = Some (e0, s0, b, lev)" using 2(6) [OF zf] h5(3) by simp
    moreover have "zdata h6 a = zdata h4 a \<and> h6 a = h4 a" if "a \<notin> insert zn (fst ` set zs)" for a using 2(6) [of a] that h5(3,4) by simp
    ultimately show ?thesis using 2(2,4,5) h5(2) by (intro exI [of _ h6]) simp
  qed
qed

lemma zsl_insert_at:
  assumes r: "zsl_rep h zsl (ys @ zs)" and zn: "h zn = None" and rs: "zslRandomLevel rs = Some lev"
    and k: "\<And>y. y \<in> set ys \<Longrightarrow> zkey y < (s, e)" "\<And>z. z \<in> set zs \<Longrightarrow> (s, e) < zkey z"
    and len: "Suc (length (ys @ zs)) < 2 ^ 64"
  shows "\<exists>h' zsl'. zslInsert E rs zn h zsl s e = Some (h', zsl', zn) \<and> zsl_rep h' zsl' (ys @ (zn, (s, e), lev) # zs) \<and>
    zsl_frame h zsl (insert zn (fst ` set (ys @ zs))) h' zsl' \<and>
    z_alloc_size zsl' = z_alloc_size zsl + usable_size E zn + sdsAllocSize E e"
proof -
  let ?L = "max (z_level zsl) lev" and ?hd = "z_header zsl" and ?xs = "ys @ (zn, (s, e), lev) # zs"
  let ?zsl2 = "zsl\<lparr>z_level := ?L, z_alloc_size := z_alloc_size zsl + usable_size E zn + sdsAllocSize E e\<rparr>"
  have lev: "1 \<le> lev" "lev \<le> 32" using random_level [OF rs] by simp_all
  note R = zsl_repD [OF r]
  obtain h4 where h4: "zslInsert E rs zn h zsl s e = insert_finish (last_addr None ys) zn h4 ?zsl2"
    "levels_ok h4 ?L (zsl_nodes zsl ?xs)" "zdata h4 = (zdata h)(zn \<mapsto> (Some e, s, None, lev))"
    "\<forall>b. b \<notin> insert zn (insert ?hd (fst ` set ys)) \<longrightarrow> h4 b = h b"
    "\<forall>i. ?L \<le> i \<longrightarrow> get_level h4 ?hd i = get_level h ?hd i"
    using insert_linked [OF r zn rs k refl refl] by blast
  have zx: "zn \<notin> fst ` set (ys @ zs)" using data_ok_in [OF R(2), of zn] zn by force
  have zh: "zn \<noteq> ?hd" using R(1) zn by (auto simp: zdata_def)
  have "zdata h4 a = zdata h a" if "a \<noteq> zn" for a using h4(3) that by simp
  then have dz: "data_ok h4 None (ys @ zs)" using data_ok_frame [of "ys @ zs" h4 h None] zx R(2) by metis
  have lz: "get_level h4 zn 0 = Some (next_at 0 (ahs zs))" 
    using levels_ok_append [of h4 ?L "zsl_nodes zsl ys" "(zn, lev) # ahs zs"] h4(2) lev by (simp add: less_max_iff_disj)
  have p: "zdata h4 zn = Some (Some e, s, None, lev)" "data_ok h4 (last_addr None ys) zs" "distinct (zn # map fst zs)"
    "\<forall>z \<in> set zs. 1 \<le> snd (snd z)" using h4(3) dz zx R(7,9) by auto
  obtain h' where h': "insert_finish (last_addr None ys) zn h4 ?zsl2 =
      Some (h', ?zsl2\<lparr>z_length := z_length zsl + 1, z_tail := (if zs = [] then Some zn else z_tail zsl)\<rparr>, zn)"
    "get_level h' = get_level h4" "zdata h' zn = Some (Some e, s, last_addr None ys, lev)" "data_ok h' (Some zn) zs"
    "\<forall>a. a \<notin> insert zn (fst ` set zs) \<longrightarrow> zdata h' a = zdata h4 a \<and> h' a = h4 a"
    using insert_finish_at [OF p lz, of ?zsl2] by auto
  let ?zsl' = "?zsl2\<lparr>z_length := z_length zsl + 1, z_tail := (if zs = [] then Some zn else z_tail zsl)\<rparr>"
  have ys: "a \<notin> insert zn (fst ` set zs)" if "a \<in> insert ?hd (fst ` set ys)" for a using that zx zh R(8,9) by auto
  have dy: "data_ok h' None ys" using data_ok_frame [of ys h' h4 None] dz h'(5) ys by auto
  have "zsl_rep h' ?zsl' ?xs"
  proof (rule zsl_repI)
    show "\<exists>s0. zdata h' (z_header ?zsl') = Some (None, s0, None, 32)" using h'(5) ys [of ?hd] h4(3) zh R(1) by simp
    show "data_ok h' None ?xs" using dy h'(3,4) by simp
    show "levels_ok h' (z_level ?zsl') (zsl_nodes ?zsl' ?xs)"
      using h4(2) h'(2) levels_ok_frame [of "zsl_nodes zsl ?xs" ?L h' h4] by simp
    show "\<exists>s. get_level h' (z_header ?zsl') i = Some \<lparr>lv_forward = None, lv_span = s\<rparr>" if "z_level ?zsl' \<le> i" "i < 32" for i
      using h'(2) h4(5) that R(4) [of i] by simp
    show "1 \<le> snd (snd x) \<and> snd (snd x) \<le> z_level ?zsl'" if "x \<in> set ?xs" for x
      using that R(7) [of x] lev by (auto simp: le_max_iff_disj)
    show "distinct (map fst ?xs)" using R(9) zx by auto
    show "z_header ?zsl' \<notin> fst ` set ?xs" using R(8) zh by auto
    show "z_tail ?zsl' = last_addr None ?xs" using R(10) by (auto simp: last_addr_def)
    show "sorted_wrt (<) (map zkey ?xs)" using R(13) k by (auto simp: sorted_wrt_append)
    show "1 \<le> z_level ?zsl'" "z_level ?zsl' \<le> 32" "z_length ?zsl' = of_nat (length ?xs)" "length ?xs < 2 ^ 64"
      using R(5,6,11) lev len by simp_all
  qed
  moreover have "zsl_frame h zsl (insert zn (fst ` set (ys @ zs))) h' ?zsl'" using h'(5) h4(4) by (auto simp: zsl_frame_def image_Un)
  ultimately show ?thesis using h4(1) h'(1) by simp
qed

end
