(* ===== verification/Zskiplist_Edit.thy ===== *)
theory Zskiplist_Edit
  imports Zskiplist_Ops
begin

text \<open>
  Deletion from a skip list, change of a score, and the two searches by rank.
\<close>

section \<open>Deletion\<close>

lemma unlink_all:
  assumes lv: "levels_ok h L (P @ (x, k) # S)" and hit: "\<And>i. i < L \<Longrightarrow> hits i P" and ne: "P \<noteq> []"
    and dis: "distinct (map fst (P @ (x, k) # S))"
  shows "\<exists>h'. unlink_loop h x 0 (map (\<lambda>i. fst (update_at 0 P i)) [0..<L]) = Some h' \<and>
    relevels h (fst ` set P) (get_level h') h' \<and> levels_ok h' L (P @ S) \<and>
    (\<forall>b i. L \<le> i \<longrightarrow> get_level h' b i = get_level h b i)"
proof -
  let ?u = "\<lambda>i. fst (update_at 0 P i)"
  have u: "?u i \<in> fst ` set P" "?u i \<noteq> x" for i using update_at_in [OF ne, of 0 i] dis by auto
  have ui: "?u i = fst (P ! top_at i P)" for i by (simp add: update_at_def)
  have c: "\<exists>l. column h i (?u i) = Some l \<and> (lv_forward l = Some x \<longrightarrow> column h i x \<noteq> None)" if "0 \<le> i" "i < 0 + L" for i
  proof -
    have i: "i < L" using that by simp
    have x: "get_level h x i = Some (next_at i S)" if "i < k"
      using levels_ok_append [OF lv] that i by simp
    have "lv_forward (next_at i S) \<noteq> Some x" using dis next_at_forward [of i S x] by auto
    then show ?thesis using top_level [OF lv hit [OF i] i] x by (auto simp: column_def ui)
  qed
  obtain h' where h': "unlink_loop h x 0 (map ?u [0..<L]) = Some h'"
    "relevels h (range ?u) (\<lambda>b i. if 0 \<le> i \<and> i < 0 + L then (if b = ?u i
        then map_option (\<lambda>l. if lv_forward l = Some x
          then \<lparr>lv_forward = lv_forward (the (column h i x)), lv_span = lv_span l + (lv_span (the (column h i x)) - 1)\<rparr>
          else l\<lparr>lv_span := lv_span l - 1\<rparr>) (column h i b)
        else column h i b) else get_level h b i) h'"
    using level_loop_at [OF unlink_level_step [of ?u x], of 0 L h] unlink_level_loop [of h x 0 ?u L] u(2) c by auto
  have g: "get_level h' b i = (if i < L then (if b = fst (P ! top_at i P)
        then map_option (\<lambda>l. if lv_forward l = Some x
          then \<lparr>lv_forward = lv_forward (the (get_level h x i)), lv_span = lv_span l + (lv_span (the (get_level h x i)) - 1)\<rparr>
          else l\<lparr>lv_span := lv_span l - 1\<rparr>) (get_level h b i)
        else get_level h b i) else get_level h b i)" for b i
    using h'(2) unfolding relevels_def column_def ui by simp
  have "levels_ok h' L (P @ S)" by (rule delete_levels [OF lv hit dis]) (simp_all add: g)
  moreover have "relevels h (fst ` set P) (get_level h') h'" using relevels_mono [OF h'(2), of "fst ` set P"] u(1) by (auto simp: relevels_def)
  ultimately show ?thesis using h'(1) by (auto simp: g)
qed

lemma lower_at:
  assumes "\<And>i. i < L \<Longrightarrow> get_level h a i \<noteq> None" "1 \<le> L"
  shows "\<exists>l. lower_level h a L = Some l \<and> 1 \<le> l \<and> l \<le> L \<and> (\<forall>i. l \<le> i \<longrightarrow> i < L \<longrightarrow> lv_forward (the (get_level h a i)) = None)"
  using assms
proof (induction L)
  case (Suc k)
  obtain lv where lv: "get_level h a k = Some lv" using Suc.prems(1) [of k] by auto
  consider "k = 0" | "k \<noteq> 0" "lv_forward lv \<noteq> None" | "k \<noteq> 0" "lv_forward lv = None" by blast
  then show ?case
  proof cases
    case 3
    have "\<exists>l. lower_level h a k = Some l \<and> 1 \<le> l \<and> l \<le> k \<and> (\<forall>i. l \<le> i \<longrightarrow> i < k \<longrightarrow> lv_forward (the (get_level h a i)) = None)"
      using Suc.IH Suc.prems(1) 3 by simp
    then obtain l where "lower_level h a k = Some l" "1 \<le> l" "l \<le> k" "\<And>i. l \<le> i \<Longrightarrow> i < k \<Longrightarrow> lv_forward (the (get_level h a i)) = None" by blast
    then show ?thesis using 3 lv by (intro exI [of _ l]) (auto simp: less_Suc_eq)
  qed (use lv in auto)
qed simp

lemma levels_ok_below: "levels_ok h L xs \<Longrightarrow> l \<le> L \<Longrightarrow> levels_ok h l xs"
  by (induction h L xs rule: levels_ok.induct) auto

lemma next_at_none_low: "lv_forward (next_at i xs) = None \<Longrightarrow> \<not> hits i xs"
  by (induction i xs rule: next_at.induct) (auto split: if_splits)

lemma zsl_delete_node:
  assumes r: "zsl_rep h zsl (ys @ (x, key, k) # zs)" and len: "z_level zsl \<le> length upd"
    and upd: "\<And>i. i < z_level zsl \<Longrightarrow> upd ! i = fst (update_at 0 (zsl_nodes zsl ys) i)"
  shows "\<exists>h' zsl'. zslDeleteNode h zsl x upd = Some (h', zsl') \<and> zsl_rep h' zsl' (ys @ zs) \<and>
    zsl_frame h zsl (fst ` set (ys @ zs)) h' zsl' \<and> z_alloc_size zsl' = z_alloc_size zsl \<and> z_level zsl' \<le> z_level zsl"
proof -
  let ?L = "z_level zsl" and ?P = "zsl_nodes zsl ys" and ?hd = "z_header zsl"
  note R = zsl_repD [OF r]
  obtain s e where key: "key = (s, e)" by fastforce
  have dis: "distinct (map fst (?P @ (x, k) # ahs zs))" using R(8,9) by auto
  have hit: "hits i ?P" if "i < ?L" for i using that R(6) by simp
  have tk: "take ?L upd = map (\<lambda>i. fst (update_at 0 ?P i)) [0..<?L]" using len upd by (intro nth_equalityI) simp_all
  have lv: "levels_ok h ?L (?P @ (x, k) # ahs zs)" using R(3) by simp
  obtain h1 where h1: "unlink_loop h x 0 (take ?L upd) = Some h1" "relevels h (fst ` set ?P) (get_level h1) h1"
    "levels_ok h1 ?L (?P @ ahs zs)" "\<forall>b i. ?L \<le> i \<longrightarrow> get_level h1 b i = get_level h b i"
    using unlink_all [OF lv hit _ dis] unfolding tk by auto
  have z1: "zdata h1 = zdata h" using h1(2) by (auto simp: relevels_def)
  have x1: "h1 x = h x" using h1(2) dis by (auto simp: relevels_def)
  obtain n where n: "h x = Some n" "zn_backward n = last_addr None ys" "length (zn_level n) = k"
    using R(2) key by (auto simp: zdata_def)
  have k1: "1 \<le> k" using R(7) [of "(x, key, k)"] by simp
  have lx: "get_level h1 x 0 = Some (next_at 0 (ahs zs))"
  proof -
    have "get_level h1 x 0 = get_level h x 0" using x1 by (simp add: get_level_def)
    then show ?thesis using levels_ok_append [OF lv] k1 R(5) by simp
  qed
  have dz: "data_ok h1 (Some x) zs" "distinct (map fst zs)" "\<forall>z \<in> set zs. 1 \<le> snd (snd z)"
    using data_ok_frame [of zs h1 h] R(2,7,9) z1 key by auto
  have hx: "?hd \<notin> fst ` set zs" "fst ` set ys \<inter> fst ` set zs = {}" "x \<notin> fst ` set zs" using R(8,9) by auto
  obtain h2 where h2: "(case lv_forward (next_at 0 (ahs zs)) of
        Some f \<Rightarrow> do { h' \<leftarrow> set_backward h1 f (zn_backward n); Some (h', zsl) }
      | None \<Rightarrow> Some (h1, zsl\<lparr>z_tail := zn_backward n\<rparr>)) = Some (h2, zsl\<lparr>z_tail := last_addr None (ys @ zs)\<rparr>)"
    "get_level h2 = get_level h1" "data_ok h2 (last_addr None ys) zs" "\<And>a. a \<notin> fst ` set zs \<Longrightarrow> zdata h2 a = zdata h1 a \<and> h2 a = h1 a"
  proof (cases rule: back_at [OF dz, where b = "last_addr None ys"])
    case 1
    then show ?thesis using n(2) by (intro that [of h1]) simp_all
  next
    case (2 f h2)
    have "zsl\<lparr>z_tail := last_addr None (ys @ zs)\<rparr> = zsl" using R(10) 2(2) by (simp add: last_addr_def)
    then show ?thesis using 2 n(2) by (intro that [of h2]) simp_all
  qed
  have hl: "get_level h2 ?hd i = Some (next_at i (ahs (ys @ zs)))" if "i < ?L" for i
    using h1(3) that h2(2) R(6) by simp
  obtain l where l: "lower_level h2 ?hd ?L = Some l" "1 \<le> l" "l \<le> ?L" "\<And>i. l \<le> i \<Longrightarrow> i < ?L \<Longrightarrow> lv_forward (next_at i (ahs (ys @ zs))) = None"
    using lower_at [of ?L h2 ?hd] hl R(5) by auto
  let ?zsl' = "zsl\<lparr>z_tail := last_addr None (ys @ zs), z_level := l, z_length := z_length zsl - 1\<rparr>"
  have "zslDeleteNode h zsl x upd = Some (h2, ?zsl')"
    using len h1(1) x1 n(1) lx h2(1) l(1) by (simp add: zslDeleteNode_def)
  moreover have "zsl_rep h2 ?zsl' (ys @ zs)"
  proof (rule zsl_repI)
    show "\<exists>s0. zdata h2 (z_header ?zsl') = Some (None, s0, None, 32)" using h2(4) [OF hx(1)] z1 R(1) by simp
    have "data_ok h2 None ys = data_ok h None ys" using h2(4) hx(2) z1 by (intro data_ok_frame) auto
    then show "data_ok h2 None (ys @ zs)" using h2(3) R(2) by simp
    have "levels_ok h2 ?L (zsl_nodes zsl (ys @ zs))" using h1(3) h2(2) levels_ok_frame [of "zsl_nodes zsl (ys @ zs)" ?L h2 h1] by simp
    then show "levels_ok h2 (z_level ?zsl') (zsl_nodes ?zsl' (ys @ zs))" using l(3) levels_ok_below by auto
    show "\<exists>s. get_level h2 (z_header ?zsl') i = Some \<lparr>lv_forward = None, lv_span = s\<rparr>" if "z_level ?zsl' \<le> i" "i < 32" for i
    proof (cases "i < ?L")
      case True
      then have "lv_forward (next_at i (ahs (ys @ zs))) = None" using l(4) that by simp
      then show ?thesis using hl [OF True] by (cases "next_at i (ahs (ys @ zs))") simp
    next
      case False
      then show ?thesis using R(4) [of i] that h1(4) h2(2) by simp
    qed
    show "1 \<le> snd (snd z) \<and> snd (snd z) \<le> z_level ?zsl'" if z: "z \<in> set (ys @ zs)" for z
    proof (rule ccontr)
      have z': "1 \<le> snd (snd z)" "snd (snd z) \<le> ?L" using R(7) [of z] z by auto
      assume "\<not> (1 \<le> snd (snd z) \<and> snd (snd z) \<le> z_level ?zsl')"
      then have "l < snd (snd z)" using z' by simp
      moreover have "(fst z, snd (snd z)) \<in> set (ahs (ys @ zs))" unfolding ahs_def set_map using z by (rule imageI)
      ultimately have "hits l (ahs (ys @ zs))" unfolding hits_def by (intro bexI [of _ "(fst z, snd (snd z))"]) simp_all
      then show False using next_at_none_low [OF l(4) [of l]] \<open>l < snd (snd z)\<close> z'(2) by simp
    qed
    show "sorted_wrt (<) (map zkey (ys @ zs))" using R(13) by (simp add: sorted_wrt_append)
    show "z_header ?zsl' \<notin> fst ` set (ys @ zs)" "distinct (map fst (ys @ zs))" "z_tail ?zsl' = last_addr None (ys @ zs)"
      "z_length ?zsl' = of_nat (length (ys @ zs))" "length (ys @ zs) < 2 ^ 64" "1 \<le> z_level ?zsl'" "z_level ?zsl' \<le> 32"
      using R(6,8,9,11,12) l(2,3) by auto
  qed
  moreover have "zsl_frame h zsl (fst ` set (ys @ zs)) h2 ?zsl'"
    using h2(4) h1(2) by (auto simp: zsl_frame_def relevels_def image_Un)
  ultimately show ?thesis using l(3) by auto
qed

text \<open>A sequence in order splits at every key.\<close>

lemma key_split:
  fixes xs :: "('s::linorder) zitem list"
  assumes "sorted_wrt (<) (map zkey xs)"
  obtains (absent) ys zs where "xs = ys @ zs" "\<And>y. y \<in> set ys \<Longrightarrow> zkey y < key" "\<And>z. z \<in> set zs \<Longrightarrow> key < zkey z"
    | (present) ys x k zs where "xs = ys @ (x, key, k) # zs" "\<And>y. y \<in> set ys \<Longrightarrow> zkey y < key" "\<And>z. z \<in> set zs \<Longrightarrow> key < zkey z"
proof -
  let ?ys = "takeWhile (\<lambda>x. zkey x < key) xs" and ?zs = "dropWhile (\<lambda>x. zkey x < key) xs"
  have ys: "zkey y < key" if "y \<in> set ?ys" for y using set_takeWhileD [OF that] by simp
  have s: "sorted_wrt (<) (map zkey ?zs)"
  proof -
    have "map zkey xs = map zkey ?ys @ map zkey ?zs" by (simp flip: map_append)
    then show ?thesis using assms by (simp add: sorted_wrt_append)
  qed
  show thesis
  proof (cases ?zs)
    case Nil
    then show thesis using that(1) [of xs "[]"] ys takeWhile_dropWhile_id [of "\<lambda>x. zkey x < key" xs] by simp
  next
    case (Cons z zs)
    have z: "\<not> zkey z < key" using Cons by (metis hd_dropWhile list.sel(1) list.distinct(1))
    have zs: "zkey z < zkey y" if "y \<in> set zs" for y using s Cons that by simp
    have x: "xs = ?ys @ z # zs" using Cons takeWhile_dropWhile_id [of "\<lambda>x. zkey x < key" xs] by simp
    show thesis
    proof (cases "zkey z = key")
      case True
      then have "xs = ?ys @ (fst z, key, snd (snd z)) # zs" using x by (cases z) simp
      then show thesis using that(2) [of ?ys "fst z" "snd (snd z)" zs] ys zs True by blast
    next
      case False
      then have "key < zkey z" using z by simp
      then have "key < zkey y" if "y \<in> set (z # zs)" for y using zs [of y] that by auto
      then show thesis using that(1) [of ?ys "z # zs"] x ys by blast
    qed
  qed
qed

text \<open>The node behind the place where the walk of a deletion stops.\<close>

lemma last_level:
  assumes r: "zsl_rep h zsl (ys @ zs)"
  shows "get_level h (fst (last (zsl_nodes zsl ys))) 0 = Some (next_at 0 (ahs zs))"
proof -
  have h: "hits 0 (zsl_nodes zsl ys)" by simp
  have "levels_ok h (z_level zsl) (zsl_nodes zsl ys @ ahs zs)" "0 < z_level zsl" using zsl_repD(3,5) [OF r] by simp_all
  from top_level [OF this(1) h this(2)] have "get_level h (fst (update_at 0 (zsl_nodes zsl ys) 0)) 0 =
      Some ((next_at 0 (ahs zs))\<lparr>lv_span := of_nat (length ys) - of_nat (top_at 0 (zsl_nodes zsl ys)) + lv_span (next_at 0 (ahs zs))\<rparr>)"
    by (simp add: update_at_def)
  moreover have "snd (update_at 0 (zsl_nodes zsl ys) 0) = of_nat (length ys)" using update_at_0 [OF r, of 0] by simp
  ultimately show ?thesis using update_at_0 [OF r, of 0] by (simp add: update_at_def)
qed

lemma walk_next:
  assumes r: "zsl_rep h zsl (ys @ zs)"
    and k: "\<And>y. y \<in> set ys \<Longrightarrow> zkey y < (s, e)" "\<And>z. z \<in> set zs \<Longrightarrow> \<not> zkey z < (s, e)"
  shows "\<exists>x. descend (key_before s e) h (z_level zsl) (z_header zsl) 0 [] =
      Some (x, of_nat (length ys), map (update_at 0 (zsl_nodes zsl ys)) [0..<z_level zsl]) \<and>
    get_level h x 0 = Some (next_at 0 (ahs zs))"
  using zsl_descend [OF r before_cuts [OF r k]] last_level [OF r] by simp

lemma free_node_at:
  assumes "zdata h x = Some (Some e, s, b, k)"
  shows "zslFreeNode E h zsl x = Some (h(x := None), zsl\<lparr>z_alloc_size := z_alloc_size zsl - sdsAllocSize E e - usable_size E x\<rparr>)"
  using assms by (auto simp: zslFreeNode_def zdata_def)

lemma zsl_rep_frame:
  assumes "zsl_rep h zsl xs" "\<And>b. b \<in> insert (z_header zsl) (fst ` set xs) \<Longrightarrow> h' b = h b"
    "z_header zsl' = z_header zsl" "z_tail zsl' = z_tail zsl" "z_length zsl' = z_length zsl" "z_level zsl' = z_level zsl"
  shows "zsl_rep h' zsl' xs"
proof -
  note R = zsl_repD [OF assms(1)]
  have g: "get_level h' b i = get_level h b i" "zdata h' b = zdata h b" if "b \<in> insert (z_header zsl) (fst ` set xs)" for b i
    using assms(2) [OF that] by (simp_all add: get_level_def zdata_def)
  have "data_ok h' None xs = data_ok h None xs" using g(2) by (intro data_ok_frame) simp
  moreover have "levels_ok h' (z_level zsl) (zsl_nodes zsl xs) = levels_ok h (z_level zsl) (zsl_nodes zsl xs)"
    using g(1) by (intro levels_ok_frame) simp
  ultimately show ?thesis using R assms(3-6) g by (intro zsl_repI) simp_all
qed

lemma zsl_delete_absent:
  assumes r: "zsl_rep h zsl (ys @ zs)"
    and k: "\<And>y. y \<in> set ys \<Longrightarrow> zkey y < (s, e)" "\<And>z. z \<in> set zs \<Longrightarrow> (s, e) < zkey z"
  shows "zslDelete E keep h zsl s e = Some (h, zsl, False, None)"
proof -
  have k': "\<not> zkey z < (s, e)" if "z \<in> set zs" for z using k(2) [OF that] by (rule less_not_sym)
  obtain x where d: "descend (key_before s e) h (z_level zsl) (z_header zsl) 0 [] =
      Some (x, of_nat (length ys), map (update_at 0 (zsl_nodes zsl ys)) [0..<z_level zsl])"
    "get_level h x 0 = Some (next_at 0 (ahs zs))" using walk_next [of h zsl ys zs s e, OF r k(1) k'] by blast
  show ?thesis
  proof (cases zs)
    case Nil
    then show ?thesis using d by (simp add: zslDelete_def)
  next
    case (Cons z zs')
    obtain f s' e' l where z: "z = (f, (s', e'), l)" by (cases z) auto
    have "1 \<le> l" using zsl_repD(7) [OF r, of z] Cons z by simp
    moreover obtain n where "h f = Some n" "zn_ele n = Some e'" "zn_score n = s'"
      using data_ok_in [OF zsl_repD(2) [OF r], of f s' e' l] Cons z by auto
    moreover have "(s', e') \<noteq> (s, e)" using k(2) [of z] Cons z by auto
    ultimately show ?thesis using d Cons z by (auto simp: zslDelete_def node_is_def)
  qed
qed

text \<open>What the walk of a deletion finds when the element is there.\<close>

lemma walk_present:
  assumes r: "zsl_rep h zsl (ys @ (x, (s, e), k) # zs)"
    and k: "\<And>y. y \<in> set ys \<Longrightarrow> zkey y < (s, e)" "\<And>z. z \<in> set zs \<Longrightarrow> (s, e) < zkey z"
  obtains x0 upd l0 n where "descend (key_before s e) h (z_level zsl) (z_header zsl) 0 [] = Some (x0, of_nat (length ys), upd)"
    "get_level h x0 0 = Some l0" "lv_forward l0 = Some x" "h x = Some n" "node_is n s e = Some True"
    "zn_ele n = Some e" "zn_score n = s" "zn_backward n = last_addr None ys" "get_level h x 0 = Some (next_at 0 (ahs zs))"
    "z_level zsl \<le> length (map fst upd)" "\<And>i. i < z_level zsl \<Longrightarrow> map fst upd ! i = fst (update_at 0 (zsl_nodes zsl ys) i)"
proof -
  have k': "\<not> zkey z < (s, e)" if "z \<in> set ((x, (s, e), k) # zs)" for z
  proof (cases "z = (x, (s, e), k)")
    case False
    then have "z \<in> set zs" using that by simp
    then show ?thesis using less_not_sym [OF k(2)] by simp
  qed simp
  obtain x0 where d: "descend (key_before s e) h (z_level zsl) (z_header zsl) 0 [] =
      Some (x0, of_nat (length ys), map (update_at 0 (zsl_nodes zsl ys)) [0..<z_level zsl])"
    "get_level h x0 0 = Some (next_at 0 (ahs ((x, (s, e), k) # zs)))" 
    using walk_next [of h zsl ys "(x, (s, e), k) # zs" s e, OF r k(1) k'] by blast
  note R = zsl_repD [OF r]
  have k1: "1 \<le> k" using R(7) [of "(x, (s, e), k)"] by simp
  obtain n where n: "h x = Some n" "zn_ele n = Some e" "zn_score n = s" "zn_backward n = last_addr None ys"
    using R(2) by (auto simp: zdata_def)
  have "get_level h x 0 = Some (next_at 0 (ahs zs))"
    using R(3,5) k1 levels_ok_append [of h "z_level zsl" "zsl_nodes zsl ys" "(x, k) # ahs zs"] by simp
  then show thesis using k1 n
    by (intro that [of x0 "map (update_at 0 (zsl_nodes zsl ys)) [0..<z_level zsl]" "next_at 0 (ahs ((x, (s, e), k) # zs))" n] d)
      (auto simp: node_is_def)
qed

lemma zsl_delete_present:
  assumes r: "zsl_rep h zsl (ys @ (x, (s, e), k) # zs)"
    and k: "\<And>y. y \<in> set ys \<Longrightarrow> zkey y < (s, e)" "\<And>z. z \<in> set zs \<Longrightarrow> (s, e) < zkey z"
  shows "\<exists>h' zsl'. zslDelete E keep h zsl s e = Some (h', zsl', True, if keep then Some x else None) \<and>
    zsl_rep h' zsl' (ys @ zs) \<and> zsl_frame h zsl (insert x (fst ` set (ys @ zs))) h' zsl' \<and>
    h' x = (if keep then h x else None) \<and>
    z_alloc_size zsl' = (if keep then z_alloc_size zsl else z_alloc_size zsl - sdsAllocSize E e - usable_size E x)"
proof -
  from walk_present [OF r k] obtain x0 upd l0 n where w:
    "descend (key_before s e) h (z_level zsl) (z_header zsl) 0 [] = Some (x0, of_nat (length ys), upd)"
    "get_level h x0 0 = Some l0" "lv_forward l0 = Some x" "h x = Some n" "node_is n s e = Some True" "zn_ele n = Some e" "zn_score n = s"
    "z_level zsl \<le> length (map fst upd)" "\<And>i. i < z_level zsl \<Longrightarrow> map fst upd ! i = fst (update_at 0 (zsl_nodes zsl ys) i)" by metis
  obtain h1 zsl1 where d: "zslDeleteNode h zsl x (map fst upd) = Some (h1, zsl1)" "zsl_rep h1 zsl1 (ys @ zs)"
    "zsl_frame h zsl (fst ` set (ys @ zs)) h1 zsl1" "z_alloc_size zsl1 = z_alloc_size zsl" using zsl_delete_node [OF r w(8,9)] by blast
  have x: "x \<notin> insert (z_header zsl) (fst ` set (ys @ zs))" using zsl_repD(8,9) [OF r] by auto
  then have h1x: "h1 x = h x" using d(3) by (simp add: zsl_frame_def)
  show ?thesis
  proof (cases keep)
    case True
    then have "zslDelete E keep h zsl s e = Some (h1, zsl1, True, Some x)" using w d(1) by (simp add: zslDelete_def)
    then show ?thesis using True d h1x by (auto simp: zsl_frame_def)
  next
    case False
    let ?z = "zsl1\<lparr>z_alloc_size := z_alloc_size zsl1 - sdsAllocSize E e - usable_size E x\<rparr>"
    have "zslFreeNode E h1 zsl1 x = Some (h1(x := None), ?z)" using free_node_at [of h1 x e s "zn_backward n" "length (zn_level n)" E zsl1] h1x w(4,6,7)
      by (simp add: zdata_def)
    then have "zslDelete E keep h zsl s e = Some (h1(x := None), ?z, True, None)" using w d(1) False by (simp add: zslDelete_def)
    moreover have "zsl_rep (h1(x := None)) ?z (ys @ zs)"
      by (rule zsl_rep_frame [OF d(2)]) (use x d(3) in \<open>auto simp: zsl_frame_def\<close>)
    ultimately show ?thesis using False d(3,4) by (auto simp: zsl_frame_def)
  qed
qed

section \<open>Memory accounting\<close>

text \<open>What the nodes of a list and their strings take, and the invariant with the size kept in the header.\<close>

definition node_sizes :: "zsl_env \<Rightarrow> 's zitem list \<Rightarrow> 64 word" where
  "node_sizes E xs = sum_list (map (\<lambda>x. usable_size E (fst x) + sdsAllocSize E (snd (zkey x))) xs)"

lemma node_sizes_simps [simp]: "node_sizes E [] = 0"
  "node_sizes E (x # xs) = usable_size E (fst x) + sdsAllocSize E (snd (zkey x)) + node_sizes E xs"
  "node_sizes E (xs @ ys) = node_sizes E xs + node_sizes E ys"
  by (simp_all add: node_sizes_def)

definition zsl_inv :: "zsl_env \<Rightarrow> 64 word \<Rightarrow> ('s::linorder) zsl_heap \<Rightarrow> zskiplist \<Rightarrow> 's zitem list \<Rightarrow> bool" where
  "zsl_inv E base h zsl xs \<longleftrightarrow> zsl_rep h zsl xs \<and> z_alloc_size zsl = base + usable_size E (z_header zsl) + node_sizes E xs"

section \<open>Change of a score\<close>

lemma zsl_rescore:
  assumes r: "zsl_rep h zsl (ys @ (x, (s, e), k) # zs)" and n: "h x = Some n"
    and o: "\<And>y. y \<in> set ys \<Longrightarrow> zkey y < (s', e)" "\<And>z. z \<in> set zs \<Longrightarrow> (s', e) < zkey z"
  shows "zsl_rep (h(x \<mapsto> n\<lparr>zn_score := s'\<rparr>)) zsl (ys @ (x, (s', e), k) # zs)"
proof -
  note R = zsl_repD [OF r]
  let ?h = "h(x \<mapsto> n\<lparr>zn_score := s'\<rparr>)"
  have x: "x \<notin> fst ` set ys" "x \<notin> fst ` set zs" "x \<noteq> z_header zsl" using R(8,9) by auto
  have g: "get_level ?h = get_level h" using n by (auto simp: fun_eq_iff get_level_def)
  have z: "zdata ?h b = zdata h b" if "b \<noteq> x" for b using that by (simp add: zdata_def)
  have zx: "zdata ?h x = Some (Some e, s', last_addr None ys, k)" using R(2) n by (auto simp: zdata_def)
  have "data_ok ?h None ys = data_ok h None ys" by (rule data_ok_frame, rule z) (use x(1) in blast)
  moreover have "data_ok ?h (Some x) zs = data_ok h (Some x) zs" by (rule data_ok_frame, rule z) (use x(2) in blast)
  ultimately have d: "data_ok ?h None (ys @ (x, (s', e), k) # zs)" using R(2) zx by simp
  have "levels_ok ?h (z_level zsl) (zsl_nodes zsl (ys @ (x, (s', e), k) # zs))"
    using R(3) levels_ok_frame [of "zsl_nodes zsl (ys @ (x, (s, e), k) # zs)" "z_level zsl" ?h h] g by simp
  moreover have "sorted_wrt (<) (map zkey (ys @ (x, (s', e), k) # zs))" using R(13) o by (auto simp: sorted_wrt_append)
  moreover have "\<exists>s0. zdata ?h (z_header zsl) = Some (None, s0, None, 32)" using R(1) z [of "z_header zsl"] x(3) by simp
  moreover have "1 \<le> snd (snd y) \<and> snd (snd y) \<le> z_level zsl" if "y \<in> set (ys @ (x, (s', e), k) # zs)" for y
    using that R(7) [of y] R(7) [of "(x, (s, e), k)"] by auto
  ultimately show ?thesis using d R(4-6,8-12) g by (intro zsl_repI) (simp_all add: last_addr_def)
qed

lemma neighbours_order:
  fixes s' :: "'s::linorder"
  assumes s: "sorted_wrt (<) (map zkey (ys @ (x, (s, e), k) # zs))"
    and b: "ys \<noteq> [] \<Longrightarrow> fst (zkey (last ys)) < s'" and a: "zs \<noteq> [] \<Longrightarrow> s' < fst (zkey (hd zs))"
  shows "\<And>y. y \<in> set ys \<Longrightarrow> zkey y < (s', e)" "\<And>z. z \<in> set zs \<Longrightarrow> (s', e) < zkey z"
proof -
  fix y assume y: "y \<in> set ys"
  then have "y = last ys \<or> zkey y < zkey (last ys)" using s
    by (cases ys rule: rev_cases) (auto simp: sorted_wrt_append)
  then have "fst (zkey y) \<le> fst (zkey (last ys))" by (cases "zkey y"; cases "zkey (last ys)") auto
  then have "fst (zkey y) < s'" using b y by fastforce
  then show "zkey y < (s', e)" by (cases "zkey y") simp
next
  fix z assume z: "z \<in> set zs"
  then have "z = hd zs \<or> zkey (hd zs) < zkey z" using s by (cases zs) (auto simp: sorted_wrt_append)
  then have "fst (zkey (hd zs)) \<le> fst (zkey z)" by (cases "zkey z"; cases "zkey (hd zs)") auto
  then have "s' < fst (zkey z)" using a z by fastforce
  then show "(s', e) < zkey z" by (cases "zkey z") simp
qed

text \<open>The outcome of a change: the list of the other elements with the new score in its place.\<close>

definition rescored ::
    "zsl_env \<Rightarrow> 64 word \<Rightarrow> ('s::linorder) zsl_heap \<Rightarrow> zskiplist \<Rightarrow> nat set \<Rightarrow> ('s \<times> bytes) set \<Rightarrow> 's \<times> bytes \<Rightarrow> ('s zsl_heap \<times> zskiplist \<times> nat) option \<Rightarrow> bool" where
  "rescored E base h zsl A K key r \<longleftrightarrow> (\<exists>h' zsl' a k us vs. r = Some (h', zsl', a) \<and> zsl_inv E base h' zsl' (us @ (a, key, k) # vs) \<and>
     zkey ` set (us @ vs) = K \<and> zsl_frame h zsl A h' zsl')"

lemma zsl_reinsert:
  assumes i: "zsl_inv E base h zsl (ys @ (x, (s, e), k) # zs)" and new: "(s', e) \<notin> zkey ` set (ys @ zs)"
    and zn: "h zn = None" and rs: "zslRandomLevel rs = Some lev"
    and len: "z_level zsl \<le> length upd" and upd: "\<And>i. i < z_level zsl \<Longrightarrow> upd ! i = fst (update_at 0 (zsl_nodes zsl ys) i)"
  shows "rescored E base h zsl (insert zn (insert x (fst ` set (ys @ zs)))) (zkey ` set (ys @ zs)) (s', e)
    (do {
       (h1, zsl1) \<leftarrow> zslDeleteNode h zsl x upd;
       n1 \<leftarrow> h1 x;
       e1 \<leftarrow> zn_ele n1;
       (h2, zsl2, newnode) \<leftarrow> zslInsert E rs zn h1 zsl1 s' e1;
       n2 \<leftarrow> h2 x;
       let zsl3 = (case zn_ele n2 of Some e \<Rightarrow> zsl2\<lparr>z_alloc_size := z_alloc_size zsl2 - sdsAllocSize E e\<rparr> | None \<Rightarrow> zsl2);
       (h3, zsl4) \<leftarrow> zslFreeNode E (h2(x \<mapsto> n2\<lparr>zn_ele := None\<rparr>)) zsl3 x;
       Some (h3, zsl4, newnode)
     })"
proof -
  have r: "zsl_rep h zsl (ys @ (x, (s, e), k) # zs)" using i by (simp add: zsl_inv_def)
  note R = zsl_repD [OF r]
  obtain n where n: "h x = Some n" "zn_ele n = Some e" using R(2) by (auto simp: zdata_def)
  obtain h1 zsl1 where d: "zslDeleteNode h zsl x upd = Some (h1, zsl1)" "zsl_rep h1 zsl1 (ys @ zs)"
    "zsl_frame h zsl (fst ` set (ys @ zs)) h1 zsl1" "z_alloc_size zsl1 = z_alloc_size zsl" using zsl_delete_node [OF r len upd] by blast
  have x: "x \<notin> insert (z_header zsl) (fst ` set (ys @ zs))" using R(8,9) by auto
  have zx: "zn \<notin> insert (z_header zsl) (fst ` set (ys @ zs))" "zn \<noteq> x"
    using data_ok_in [OF R(2), of zn] zn R(1) n(1) by (force simp: zdata_def)+
  have h1: "h1 x = Some n" "h1 zn = None" using d(3) x zx(1) n(1) zn by (simp_all add: zsl_frame_def)
  obtain us vs where uv: "ys @ zs = us @ vs" "\<And>y. y \<in> set us \<Longrightarrow> zkey y < (s', e)" "\<And>z. z \<in> set vs \<Longrightarrow> (s', e) < zkey z"
  proof (rule key_split [OF zsl_repD(13) [OF d(2)], of "(s', e)"])
    fix us y l vs assume "ys @ zs = us @ (y, (s', e), l) # vs"
    then have "(s', e) \<in> zkey ` set (ys @ zs)" by (intro image_eqI [of _ _ "(y, (s', e), l)"]) simp_all
    then show thesis using new by simp
  qed (use that in blast)
  have ln: "Suc (length (us @ vs)) < 2 ^ 64" using R(12) arg_cong [OF uv(1), of length] by simp
  obtain h2 zsl2 where i2: "zslInsert E rs zn h1 zsl1 s' e = Some (h2, zsl2, zn)" "zsl_rep h2 zsl2 (us @ (zn, (s', e), lev) # vs)"
    "zsl_frame h1 zsl1 (insert zn (fst ` set (us @ vs))) h2 zsl2" "z_alloc_size zsl2 = z_alloc_size zsl1 + usable_size E zn + sdsAllocSize E e"
    using zsl_insert_at [OF d(2) [unfolded uv(1)] h1(2) rs uv(2,3) ln] by blast
  have hd: "z_header zsl1 = z_header zsl" "z_header zsl2 = z_header zsl" using d(3) i2(3) by (simp_all add: zsl_frame_def)
  have h2: "h2 x = Some n" using i2(3) x zx(2) h1(1) hd(1) uv(1) by (simp add: zsl_frame_def)
  let ?h3 = "(h2(x \<mapsto> n\<lparr>zn_ele := None\<rparr>))(x := None)"
  let ?z4 = "zsl2\<lparr>z_alloc_size := z_alloc_size zsl2 - sdsAllocSize E e - 0 - usable_size E x\<rparr>"
  have rep: "zsl_rep ?h3 ?z4 (us @ (zn, (s', e), lev) # vs)"
  proof (rule zsl_rep_frame [OF i2(2)])
    have "fst ` set (us @ (zn, (s', e), lev) # vs) = insert zn (fst ` set (ys @ zs))" unfolding uv(1) by (simp add: image_Un)
    then have "x \<notin> insert (z_header zsl2) (fst ` set (us @ (zn, (s', e), lev) # vs))" using x zx(2) hd(2) by simp
    then show "?h3 b = h2 b" if "b \<in> insert (z_header zsl2) (fst ` set (us @ (zn, (s', e), lev) # vs))" for b using that by auto
  qed simp_all
  have sz: "node_sizes E ys + node_sizes E zs = node_sizes E us + node_sizes E vs"
    using arg_cong [OF uv(1), of "node_sizes E"] by simp
  have "zsl_inv E base ?h3 ?z4 (us @ (zn, (s', e), lev) # vs)"
    using rep i i2(4) d(4) hd(2) sz by (simp add: zsl_inv_def algebra_simps)
  moreover have "zsl_frame h zsl (insert zn (insert x (fst ` set (ys @ zs)))) ?h3 ?z4"
    using d(3) i2(3) uv(1) hd by (simp add: zsl_frame_def)
  moreover have "zkey ` set (us @ vs) = zkey ` set (ys @ zs)" using uv(1) by simp
  ultimately show ?thesis unfolding rescored_def using d(1) h1(1) n(2) i2(1) h2
    by (intro exI [of _ ?h3] exI [of _ ?z4] exI [of _ zn] exI [of _ lev] exI [of _ us] exI [of _ vs]) (simp add: zslFreeNode_def)
qed

text \<open>The test whether the node may stay where it is.\<close>

lemma below_at:
  assumes r: "zsl_rep h zsl (ys @ zs)"
  shows "(case last_addr None ys of None \<Rightarrow> Some True | Some b \<Rightarrow> do { bn \<leftarrow> h b; Some (zn_score bn < s') }) =
    Some (ys \<noteq> [] \<longrightarrow> fst (zkey (last ys)) < s')"
proof (cases ys rule: rev_cases)
  case (snoc us y)
  obtain b s e k where y: "y = (b, (s, e), k)" by (cases y) auto
  then have "(b, (s, e), k) \<in> set (ys @ zs)" using snoc by simp
  from data_ok_in [OF zsl_repD(2) [OF r] this] show ?thesis using snoc y by auto
qed simp

lemma above_at:
  assumes r: "zsl_rep h zsl (ys @ zs)"
  shows "(case lv_forward (next_at 0 (ahs zs)) of None \<Rightarrow> Some True | Some f \<Rightarrow> do { fn \<leftarrow> h f; Some (zn_score fn > s') }) =
    Some (zs \<noteq> [] \<longrightarrow> s' < fst (zkey (hd zs)))"
proof (cases zs)
  case (Cons z vs)
  obtain b s e k where z: "z = (b, (s, e), k)" by (cases z) auto
  then have in_s: "(b, (s, e), k) \<in> set (ys @ zs)" using Cons by simp
  have "1 \<le> k" using zsl_repD(7) [OF r in_s] by simp
  then show ?thesis using data_ok_in [OF zsl_repD(2) [OF r] in_s] Cons z by auto
qed simp

lemma zsl_update:
  assumes i: "zsl_inv E base h zsl (ys @ (x, (s, e), k) # zs)"
    and o: "\<And>y. y \<in> set ys \<Longrightarrow> zkey y < (s, e)" "\<And>z. z \<in> set zs \<Longrightarrow> (s, e) < zkey z"
    and new: "(s', e) \<notin> zkey ` set (ys @ zs)" and zn: "h zn = None" and rs: "zslRandomLevel rs = Some lev"
  shows "rescored E base h zsl (insert zn (insert x (fst ` set (ys @ zs)))) (zkey ` set (ys @ zs)) (s', e)
    (zslUpdateScore E rs zn h zsl s e s')"
proof -
  have r: "zsl_rep h zsl (ys @ (x, (s, e), k) # zs)" using i by (simp add: zsl_inv_def)
  from walk_present [OF r o] obtain x0 upd l0 n where w:
    "descend (key_before s e) h (z_level zsl) (z_header zsl) 0 [] = Some (x0, of_nat (length ys), upd)"
    "get_level h x0 0 = Some l0" "lv_forward l0 = Some x" "h x = Some n" "node_is n s e = Some True"
    "zn_backward n = last_addr None ys" "get_level h x 0 = Some (next_at 0 (ahs zs))"
    "z_level zsl \<le> length (map fst upd)" "\<And>i. i < z_level zsl \<Longrightarrow> map fst upd ! i = fst (update_at 0 (zsl_nodes zsl ys) i)" by metis
  have b: "(case zn_backward n of None \<Rightarrow> Some True | Some b \<Rightarrow> do { bn \<leftarrow> h b; Some (zn_score bn < s') }) = Some (ys \<noteq> [] \<longrightarrow> fst (zkey (last ys)) < s')"
    unfolding w(6) by (rule below_at [OF r])
  have a: "(case lv_forward (next_at 0 (ahs zs)) of None \<Rightarrow> Some True | Some f \<Rightarrow> do { fn \<leftarrow> h f; Some (zn_score fn > s') }) = Some (zs \<noteq> [] \<longrightarrow> s' < fst (zkey (hd zs)))"
    using above_at [of h zsl "ys @ [(x, (s, e), k)]" zs s'] r by simp
  let ?stay = "(ys \<noteq> [] \<longrightarrow> fst (zkey (last ys)) < s') \<and> (zs \<noteq> [] \<longrightarrow> s' < fst (zkey (hd zs)))"
  show ?thesis
  proof (cases ?stay)
    case True
    then have "zslUpdateScore E rs zn h zsl s e s' = Some (h(x \<mapsto> n\<lparr>zn_score := s'\<rparr>), zsl, x)"
      using w b a by (simp add: zslUpdateScore_def)
    moreover have "zsl_rep (h(x \<mapsto> n\<lparr>zn_score := s'\<rparr>)) zsl (ys @ (x, (s', e), k) # zs)"
      by (rule zsl_rescore [OF r w(4)]) (use neighbours_order [OF zsl_repD(13) [OF r], of s'] True in blast)+
    then have "zsl_inv E base (h(x \<mapsto> n\<lparr>zn_score := s'\<rparr>)) zsl (ys @ (x, (s', e), k) # zs)" using i by (simp add: zsl_inv_def)
    moreover have "zsl_frame h zsl (insert zn (insert x (fst ` set (ys @ zs)))) (h(x \<mapsto> n\<lparr>zn_score := s'\<rparr>)) zsl" by (simp add: zsl_frame_def)
    ultimately show ?thesis unfolding rescored_def by blast
  next
    case False
    have c: "(if \<not> (ys \<noteq> [] \<longrightarrow> fst (zkey (last ys)) < s') then Some False
        else case lv_forward (next_at 0 (ahs zs)) of None \<Rightarrow> Some True | Some f \<Rightarrow> do { fn \<leftarrow> h f; Some (zn_score fn > s') }) = Some False"
      using False a by auto
    show ?thesis using zsl_reinsert [OF i new zn rs w(8,9)]
      by (simp add: zslUpdateScore_def w(1-5,7) b c del: not_imp)
  qed
qed

end
