(* ===== verification/Zskiplist_Rank.thy ===== *)
theory Zskiplist_Rank
  imports Zskiplist_Edit
begin

text \<open>
  The searches by rank: the spans crossed on the way down add up to the position in the sequence.
\<close>

section \<open>The rank of an element\<close>

lemma node_at:
  assumes r: "zsl_rep h zsl xs" and j: "0 < j" "j < length (zsl_nodes zsl xs)"
  shows "\<exists>n. h (fst (zsl_nodes zsl xs ! j)) = Some n \<and> zn_ele n = Some (snd (zkey (xs ! (j - 1)))) \<and>
    zn_score n = fst (zkey (xs ! (j - 1)))"
proof -
  have jx: "j - 1 < length xs" using j by simp
  obtain a s e k where x: "xs ! (j - 1) = (a, (s, e), k)" by (cases "xs ! (j - 1)") auto
  then have "(a, (s, e), k) \<in> set xs" using nth_mem [OF jx] by simp
  moreover have "fst (zsl_nodes zsl xs ! j) = a" using j x ahs_nth [OF jx] by (cases j) (simp_all del: ahs_simps)
  ultimately show ?thesis using data_ok_in [OF zsl_repD(2) [OF r], of a s e k] x by auto
qed

lemma top_at_all:
  assumes r: "zsl_rep h zsl xs" and c: "0 < c" "c \<le> length (zsl_nodes zsl xs)"
  shows "top_at 0 (take c (zsl_nodes zsl xs)) = c - 1"
proof -
  have "0 < snd (zsl_nodes zsl xs ! (c - 1))"
  proof (cases "c - 1")
    case (Suc j)
    then have "j < length xs" using c by simp
    then show ?thesis using zsl_repD(7) [OF r nth_mem, of j] Suc by (simp add: ahs_nth)
  qed simp
  moreover have "last (take c (zsl_nodes zsl xs)) = zsl_nodes zsl xs ! (c - 1)" using c by (subst last_conv_nth) auto
  ultimately show ?thesis using top_at_low [of "take c (zsl_nodes zsl xs)" 0] c by (simp add: min_def del: take_Cons')
qed

text \<open>The node reached is the one looked for, if that is at index \<open>m\<close>; \<open>m\<close> is 0 when it is in no node.\<close>

lemma rank_loop_at:
  assumes r: "zsl_rep h zsl xs" and cut: "cuts (key_upto s e) h 0 (zsl_nodes zsl xs) c"
    and m: "\<And>j. 0 < j \<Longrightarrow> j < c \<Longrightarrow> zkey (xs ! (j - 1)) = (s, e) \<longleftrightarrow> j = m"
    and mc: "m \<noteq> 0 \<Longrightarrow> m + 1 = c"
  shows "k \<le> z_level zsl \<Longrightarrow> i < c \<Longrightarrow> k \<le> snd (zsl_nodes zsl xs ! i) \<Longrightarrow>
    rank_loop h s e k (fst (zsl_nodes zsl xs ! i)) (of_nat i) = Some (if k = 0 then 0 else of_nat m)"
proof (induction k arbitrary: i)
  case (Suc k)
  let ?N = "zsl_nodes zsl xs"
  let ?t = "top_at k (take c ?N)"
  have c: "c \<le> length ?N" using cut by (simp add: cuts_def)
  have "hits k (take c ?N)" using Suc.prems(2,3) c unfolding hits_def
    by (intro bexI [of _ "?N ! i"]) (auto simp: in_set_conv_nth intro!: exI [of _ i])
  then have t: "?t < c" "k < snd (?N ! ?t)" using top_at(1,2) [of k "take c ?N"] c by auto
  have a: "advance (key_upto s e) h k (fst (?N ! i)) (of_nat i) = Some (fst (?N ! ?t), of_nat ?t)"
    using advance_at [OF zsl_repD(3) [OF r] cut, of k i] Suc.prems by simp
  obtain n where n: "h (fst (?N ! ?t)) = Some n"
    "(if zn_ele n = None then Some False else node_is n s e) = Some (?t = m \<and> m \<noteq> 0)"
  proof (cases "?t = 0")
    case True
    obtain n where "h (z_header zsl) = Some n" "zn_ele n = None" using zsl_repD(1) [OF r] by (auto simp: zdata_def)
    then show ?thesis using True by (intro that [of n]) auto
  next
    case False
    then have t0: "0 < ?t" by simp
    obtain n where "h (fst (?N ! ?t)) = Some n" "zn_ele n = Some (snd (zkey (xs ! (?t - 1))))" "zn_score n = fst (zkey (xs ! (?t - 1)))"
      using node_at [OF r t0] t(1) c by fastforce
    moreover have "zkey (xs ! (?t - 1)) = (s, e) \<longleftrightarrow> ?t = m" using m [OF t0 t(1)] .
    ultimately show ?thesis using False by (intro that [of n]) (auto simp: node_is_def prod_eq_iff)
  qed
  show ?case
  proof (cases "?t = m \<and> m \<noteq> 0")
    case True
    then show ?thesis using a n by simp
  next
    case False
    have "k \<noteq> 0 \<or> m = 0" using False top_at_all [OF r, of c] mc c Suc.prems(2) by fastforce
    then show ?thesis using a n False Suc.IH [OF _ t(1)] Suc.prems(1) t(2) by auto
  qed
qed simp

lemma upto_cuts:
  assumes r: "zsl_rep h zsl (ys @ zs)"
    and k: "\<And>y. y \<in> set ys \<Longrightarrow> zkey y \<le> (s, e)" "\<And>z. z \<in> set zs \<Longrightarrow> \<not> zkey z \<le> (s, e)"
  shows "cuts (key_upto s e) h base (zsl_nodes zsl (ys @ zs)) (Suc (length ys))"
proof (rule zsl_cuts [OF r, where Q = "\<lambda>key. key \<le> (s, e)"])
  show "key_upto s e rank l (Some n) = Some ((zn_score n, x) \<le> (s, e))" if "zn_ele n = Some x" for rank l n x
    using that by (auto simp: key_upto_def)
qed (rule k, assumption)+

lemma zsl_rank_absent:
  assumes r: "zsl_rep h zsl (ys @ zs)"
    and k: "\<And>y. y \<in> set ys \<Longrightarrow> zkey y < (s, e)" "\<And>z. z \<in> set zs \<Longrightarrow> (s, e) < zkey z"
  shows "zslGetRank h zsl s e = Some 0"
proof -
  have "cuts (key_upto s e) h 0 (zsl_nodes zsl (ys @ zs)) (Suc (length ys))"
    by (rule upto_cuts [OF r]) (use k in \<open>auto simp: less_imp_le not_le simp del: less_eq_prod_simp less_prod_simp\<close>)
  moreover have "zkey ((ys @ zs) ! (j - 1)) = (s, e) \<longleftrightarrow> j = 0" if "0 < j" "j < Suc (length ys)" for j
    using k(1) [of "ys ! (j - 1)"] that by (auto simp: nth_append)
  ultimately show ?thesis using rank_loop_at [OF r, of s e "Suc (length ys)" 0 "z_level zsl" 0] zsl_repD(6) [OF r]
    by (simp add: zslGetRank_def)
qed

lemma zsl_rank_present:
  assumes r: "zsl_rep h zsl (ys @ (x, (s, e), k) # zs)"
    and o: "\<And>y. y \<in> set ys \<Longrightarrow> zkey y < (s, e)" "\<And>z. z \<in> set zs \<Longrightarrow> (s, e) < zkey z"
  shows "zslGetRank h zsl s e = Some (of_nat (Suc (length ys)))"
proof -
  let ?ys = "ys @ [(x, (s, e), k)]"
  have r': "zsl_rep h zsl (?ys @ zs)" using r by simp
  have "cuts (key_upto s e) h 0 (zsl_nodes zsl (?ys @ zs)) (Suc (length ?ys))"
  proof (rule upto_cuts [OF r'])
    show "zkey y \<le> (s, e)" if "y \<in> set ?ys" for y using o(1) [of y] that by (auto simp del: less_eq_prod_simp less_prod_simp)
    show "\<not> zkey z \<le> (s, e)" if "z \<in> set zs" for z using o(2) [OF that] by (simp add: not_le del: less_eq_prod_simp less_prod_simp)
  qed
  moreover have "zkey ((?ys @ zs) ! (j - 1)) = (s, e) \<longleftrightarrow> j = Suc (length ys)" if "0 < j" "j < Suc (length ?ys)" for j
  proof (cases "j = Suc (length ys)")
    case False
    then have j: "j - 1 < length ys" using that by simp
    have "zkey (ys ! (j - 1)) < (s, e)" using o(1) [OF nth_mem [OF j]] .
    then show ?thesis using j False by (auto simp: nth_append)
  qed simp
  ultimately show ?thesis
    using rank_loop_at [OF r', of s e "Suc (length ?ys)" "Suc (length ys)" "z_level zsl" 0] zsl_repD(5,6) [OF r]
    by (simp add: zslGetRank_def del: of_nat_Suc)
qed

section \<open>The element of a rank\<close>

lemma unat_small: "m < 2 ^ 64 \<Longrightarrow> unat (of_nat m :: 64 word) = m"
  by (simp add: unat_of_nat)

lemma rank_cuts:
  assumes len: "length N \<le> 2 ^ 64"
  shows "cuts (rank_upto rank) h 0 N (min (length N) (unat rank + 1))"
  unfolding cuts_def
proof (intro conjI allI impI)
  fix r j assume r: "r < min (length N) (unat rank + 1)" "r < j" "j < length N"
  have "(0 + of_nat r) + of_nat (j - r) = (of_nat j :: 64 word)" using r(2) by (simp add: of_nat_diff)
  moreover have "unat (of_nat j :: 64 word) = j" using r(3) len by (intro unat_small) simp
  ultimately have "(0 + of_nat r) + of_nat (j - r) \<le> rank \<longleftrightarrow> j \<le> unat rank" by (simp add: word_le_nat_alt)
  then show "rank_upto rank (0 + of_nat r) \<lparr>lv_forward = Some (fst (N ! j)), lv_span = of_nat (j - r)\<rparr> (h (fst (N ! j))) =
      Some (j < min (length N) (unat rank + 1))" using r by (auto simp: rank_upto_def)
qed simp

lemma top_at_low_all:
  assumes "\<forall>x \<in> set N. 1 \<le> snd x" "0 < c" "c \<le> length N"
  shows "top_at 0 (take c N) = c - 1"
proof -
  have "take c N \<noteq> []" using assms(2,3) by auto
  then have "last (take c N) \<in> set N" by (rule in_set_takeD [OF last_in_set])
  then have "0 < snd (last (take c N))" using assms(1) by fastforce
  then show ?thesis using top_at_low [of "take c N" 0] assms(2,3) by (cases N) (auto simp: min_def)
qed

lemma byrank_loop_at:
  assumes lv: "levels_ok h L N" and ht: "\<forall>x \<in> set N. 1 \<le> snd x" and len: "length N \<le> 2 ^ 64"
  shows "k \<le> L \<Longrightarrow> i < min (length N) (unat rank + 1) \<Longrightarrow> k \<le> snd (N ! i) \<Longrightarrow>
    byrank_loop h rank k (fst (N ! i)) (of_nat i) = Some (if 0 < k \<and> unat rank < length N then Some (fst (N ! unat rank)) else None)"
proof (induction k arbitrary: i)
  case (Suc k)
  let ?c = "min (length N) (unat rank + 1)"
  let ?t = "top_at k (take ?c N)"
  have "hits k (take ?c N)" using Suc.prems(2,3) unfolding hits_def
    by (intro bexI [of _ "N ! i"]) (auto simp: in_set_conv_nth intro!: exI [of _ i])
  then have t: "?t < ?c" "k < snd (N ! ?t)" using top_at(1,2) [of k "take ?c N"] by auto
  have a: "advance (rank_upto rank) h k (fst (N ! i)) (of_nat i) = Some (fst (N ! ?t), of_nat ?t)"
    using advance_at [OF lv rank_cuts [OF len, of rank h], of k i] Suc.prems by simp
  have "unat (of_nat ?t :: 64 word) = ?t" using t(1) len by (intro unat_small) simp
  then have e: "of_nat ?t = rank \<longleftrightarrow> ?t = unat rank" by (auto simp: word_unat_eq_iff)
  show ?case
  proof (cases "?t = unat rank")
    case True
    then show ?thesis using a e t(1) by simp
  next
    case False
    have "k \<noteq> 0 \<or> \<not> unat rank < length N"
    proof (rule ccontr)
      assume "\<not> ?thesis"
      then show False using False top_at_low_all [OF ht, of ?c] t(1) by (simp add: min_def split: if_splits)
    qed
    then show ?thesis using a e False Suc.IH [OF _ t(1)] Suc.prems(1) t(2) by auto
  qed
qed simp

text \<open>From any node that reaches the top level, and from the header.\<close>

lemma zsl_by_rank_from:
  assumes r: "zsl_rep h zsl xs" and j: "j < length (zsl_nodes zsl xs)" "z_level zsl \<le> snd (zsl_nodes zsl xs ! j)"
  shows "zslGetElementByRankFromNode h (fst (zsl_nodes zsl xs ! j)) (z_level zsl) rank =
    Some (if j + unat rank < length (zsl_nodes zsl xs) then Some (fst (zsl_nodes zsl xs ! (j + unat rank))) else None)"
proof -
  let ?N = "zsl_nodes zsl xs"
  note R = zsl_repD [OF r]
  have lv: "levels_ok h (z_level zsl) (drop j ?N)" using levels_ok_append [of h "z_level zsl" "take j ?N" "drop j ?N"] R(3) by simp
  have "\<forall>x \<in> set ?N. 1 \<le> snd x" using R(7) by (auto simp: ahs_def)
  then have ht: "\<forall>x \<in> set (drop j ?N). 1 \<le> snd x" by (meson in_set_dropD)
  have len: "length (drop j ?N) \<le> 2 ^ 64" using R(12) by simp
  have 0: "drop j ?N ! 0 = ?N ! j" "0 < length (drop j ?N)" using j(1) by (simp_all del: drop_Cons' nth_Cons)
  show ?thesis
    using byrank_loop_at [OF lv ht len, of "z_level zsl" 0 rank] 0 j(2) R(5) j(1)
    by (simp add: zslGetElementByRankFromNode_def less_diff_conv add.commute del: drop_Cons' nth_Cons)
qed

end
