(* ===== verification/Zskiplist_Range.thy ===== *)
theory Zskiplist_Range
  imports Zskiplist_Rank
begin

text \<open>
  Ranges by score, by string and by rank: a range is a segment of the sequence; the search returns the
  wanted member of the segment, the deletions cut it out of the list and of the hash table.
\<close>

section \<open>Cutting out a segment\<close>

fun del_all :: "(bytes \<Rightarrow> 'd \<Rightarrow> 'd option) \<Rightarrow> bytes list \<Rightarrow> 'd \<Rightarrow> 'd option" where
  "del_all del [] d = Some d"
| "del_all del (e # es) d = do { d' \<leftarrow> del e d; del_all del es d' }"

text \<open>The condition holds for the nodes of \<open>B\<close> and not for the one behind them.\<close>

definition cond_cuts :: "(64 word \<Rightarrow> 's zsl_test) \<Rightarrow> 64 word \<Rightarrow> 's zitem list \<Rightarrow> 's zitem list \<Rightarrow> bool" where
  "cond_cuts cond r B C \<longleftrightarrow> (\<forall>i n. i \<le> length B \<longrightarrow> i < length (B @ C) \<longrightarrow>
     zn_ele n = Some (snd (zkey ((B @ C) ! i))) \<longrightarrow> zn_score n = fst (zkey ((B @ C) ! i)) \<longrightarrow>
     cond (r + of_nat i) n = Some (i < length B))"

lemma cond_cuts_Cons:
  fixes cond :: "64 word \<Rightarrow> 's zsl_test"
  assumes "cond_cuts cond r (b # B) C"
  shows "cond_cuts cond (r + 1) B C"
  unfolding cond_cuts_def
proof (intro allI impI)
  fix i and n :: "'s zskiplistNode"
  assume i: "i \<le> length B" "i < length (B @ C)" "zn_ele n = Some (snd (zkey ((B @ C) ! i)))" "zn_score n = fst (zkey ((B @ C) ! i))"
  have "cond (r + of_nat (Suc i)) n = Some (Suc i < length (b # B))"
    using assms [unfolded cond_cuts_def, rule_format, of "Suc i" n] i by simp
  then show "cond (r + 1 + of_nat i) n = Some (i < length B)" by (simp add: add.assoc)
qed

lemma zsl_inv_rep: "zsl_inv E base h zsl xs \<Longrightarrow> zsl_rep h zsl xs"
  by (simp add: zsl_inv_def)

text \<open>One turn of the loop: unlink and release the first node of the segment.\<close>

lemma delete_turn:
  assumes i: "zsl_inv E base h zsl (A @ (x, (s, e), k) # zs)" and len: "z_level zsl \<le> length upd"
    and upd: "\<And>i. i < z_level zsl \<Longrightarrow> upd ! i = fst (update_at 0 (zsl_nodes zsl A) i)"
  obtains h1 zsl1 h2 zsl2 n where "zslDeleteNode h zsl x upd = Some (h1, zsl1)" "h1 x = Some n" "zn_ele n = Some e"
    "zslFreeNode E h1 zsl1 x = Some (h2, zsl2)" "zsl_inv E base h2 zsl2 (A @ zs)" "z_header zsl2 = z_header zsl"
    "z_level zsl2 \<le> z_level zsl" "h2 x = None" "\<And>b. b \<notin> insert (z_header zsl) (insert x (fst ` set (A @ zs))) \<Longrightarrow> h2 b = h b"
proof -
  note r = zsl_inv_rep [OF i]
  note R = zsl_repD [OF r]
  obtain h1 zsl1 where d: "zslDeleteNode h zsl x upd = Some (h1, zsl1)" "zsl_rep h1 zsl1 (A @ zs)"
    "zsl_frame h zsl (fst ` set (A @ zs)) h1 zsl1" "z_alloc_size zsl1 = z_alloc_size zsl" "z_level zsl1 \<le> z_level zsl"
    using zsl_delete_node [OF r len upd] by blast
  have x: "x \<notin> insert (z_header zsl) (fst ` set (A @ zs))" using R(8,9) by auto
  obtain n where n: "h x = Some n" "zn_ele n = Some e" "zn_score n = s" using R(2) by (auto simp: zdata_def)
  have hx: "h1 x = Some n" using d(3) x n(1) by (simp add: zsl_frame_def)
  have hd: "z_header zsl1 = z_header zsl" using d(3) by (simp add: zsl_frame_def)
  let ?z = "zsl1\<lparr>z_alloc_size := z_alloc_size zsl1 - sdsAllocSize E e - usable_size E x\<rparr>"
  have f: "zslFreeNode E h1 zsl1 x = Some (h1(x := None), ?z)" using hx n(2) by (simp add: zslFreeNode_def)
  have "zsl_rep (h1(x := None)) ?z (A @ zs)" by (rule zsl_rep_frame [OF d(2)]) (use x hd in auto)
  then have "zsl_inv E base (h1(x := None)) ?z (A @ zs)" using i d(4) hd by (simp add: zsl_inv_def algebra_simps)
  then show thesis using d(3,5) hd by (intro that [OF d(1) hx n(2) f]) (auto simp: zsl_frame_def)
qed

definition first_addr :: "'s zitem list \<Rightarrow> nat option" where
  "first_addr xs = (case xs of [] \<Rightarrow> None | x # _ \<Rightarrow> Some (fst x))"

lemma next_first: "zsl_rep h zsl (A @ zs) \<Longrightarrow> lv_forward (next_at 0 (ahs zs)) = first_addr zs"
proof -
  assume r: "zsl_rep h zsl (A @ zs)"
  show ?thesis using zsl_repD(7) [OF r, of "hd zs"] by (cases zs) (auto simp: first_addr_def)
qed

lemma level_0:
  assumes "zsl_rep h zsl (A @ x # zs)"
  shows "\<exists>l. get_level h (fst x) 0 = Some l \<and> lv_forward l = first_addr zs"
proof -
  have r: "zsl_rep h zsl ((A @ [x]) @ zs)" using assms by simp
  have "1 \<le> snd (snd x)" using zsl_repD(7) [OF assms, of x] by simp
  then have "get_level h (fst x) 0 = Some (next_at 0 (ahs zs))"
    using levels_ok_append [of h "z_level zsl" "zsl_nodes zsl A" "(fst x, snd (snd x)) # ahs zs"] zsl_repD(3,5) [OF assms] by simp
  then show ?thesis using next_first [OF r] by simp
qed

lemma delete_loop_at:
  assumes "zsl_inv E base h zsl (A @ B @ C)" "z_level zsl \<le> length upd"
    "\<And>i. i < z_level zsl \<Longrightarrow> upd ! i = fst (update_at 0 (zsl_nodes zsl A) i)"
    "cond_cuts cond r B C" "del_all del (map (\<lambda>b. snd (zkey b)) B) d = Some d'"
  shows "\<exists>h' zsl'. delete_loop E del cond upd h zsl (first_addr (B @ C)) d r = Some (h', zsl', d', r + of_nat (length B)) \<and>
    zsl_inv E base h' zsl' (A @ C) \<and> zsl_frame h zsl (fst ` set (A @ B @ C)) h' zsl' \<and> (\<forall>b \<in> set B. h' (fst b) = None)"
  using assms
proof (induction B arbitrary: h zsl d r)
  case Nil
  show ?case
  proof (cases C)
    case Nil': Nil
    then show ?thesis using Nil by (subst delete_loop.simps) (simp add: first_addr_def zsl_frame_def)
  next
    case (Cons x zs)
    obtain a s e k where x: "x = (a, (s, e), k)" by (cases x) auto
    obtain n where n: "h a = Some n" "zn_ele n = Some e" "zn_score n = s"
      using zsl_repD(2) [OF zsl_inv_rep [OF Nil.prems(1)]] Cons x by (auto simp: zdata_def)
    then have "cond r n = Some False" using Nil.prems(4) Cons x unfolding cond_cuts_def by (auto dest!: spec [of _ 0])
    then show ?thesis using Nil.prems Cons x n(1) by (subst delete_loop.simps) (simp add: first_addr_def zsl_frame_def)
  qed
next
  case (Cons x B)
  obtain a s e k where x: "x = (a, (s, e), k)" by (cases x) auto
  have i: "zsl_inv E base h zsl (A @ (a, (s, e), k) # B @ C)" using Cons.prems(1) x by simp
  note r = zsl_inv_rep [OF i]
  obtain l where l: "get_level h a 0 = Some l" "lv_forward l = first_addr (B @ C)" using level_0 [OF r] by auto
  obtain n where n: "h a = Some n" "zn_ele n = Some e" "zn_score n = s" using zsl_repD(2) [OF r] by (auto simp: zdata_def)
  have c: "cond r n = Some True" using Cons.prems(4) x n unfolding cond_cuts_def by (auto dest!: spec [of _ 0])
  from delete_turn [OF i Cons.prems(2,3)] obtain h1 zsl1 h2 zsl2 n1 where t:
    "zslDeleteNode h zsl a upd = Some (h1, zsl1)" "h1 a = Some n1" "zn_ele n1 = Some e"
    "zslFreeNode E h1 zsl1 a = Some (h2, zsl2)" "zsl_inv E base h2 zsl2 (A @ B @ C)" "z_header zsl2 = z_header zsl"
    "z_level zsl2 \<le> z_level zsl" "h2 a = None" "\<And>b. b \<notin> insert (z_header zsl) (insert a (fst ` set (A @ B @ C))) \<Longrightarrow> h2 b = h b" by metis
  obtain d1 where d1: "del e d = Some d1" "del_all del (map (\<lambda>b. snd (zkey b)) B) d1 = Some d'"
    using Cons.prems(5) x by (auto split: Option.bind_splits)
  have step: "delete_loop E del cond upd h zsl (first_addr ((x # B) @ C)) d r =
      delete_loop E del cond upd h2 zsl2 (first_addr (B @ C)) d1 (r + 1)"
    using l n(1) c t(1-4) d1(1) x by (subst delete_loop.simps) (simp add: first_addr_def)
  have u: "upd ! i = fst (update_at 0 (zsl_nodes zsl2 A) i)" if "i < z_level zsl2" for i using Cons.prems(3) [of i] that t(6,7) by simp
  obtain h' zsl' where h': "delete_loop E del cond upd h2 zsl2 (first_addr (B @ C)) d1 (r + 1) = Some (h', zsl', d', r + 1 + of_nat (length B))"
    "zsl_inv E base h' zsl' (A @ C)" "zsl_frame h2 zsl2 (fst ` set (A @ B @ C)) h' zsl'" "\<forall>b \<in> set B. h' (fst b) = None"
    using Cons.IH [OF t(5) _ u cond_cuts_Cons [OF Cons.prems(4)] d1(2)] Cons.prems(2) t(7) by auto
  have "a \<notin> insert (z_header zsl) (fst ` set (A @ B @ C))" using zsl_repD(8,9) [OF r] by auto
  then have "h' a = None" using h'(3) t(6,8) by (simp add: zsl_frame_def)
  moreover have "zsl_frame h zsl (fst ` set (A @ (x # B) @ C)) h' zsl'" using h'(3) t(6,9) x by (auto simp: zsl_frame_def image_Un)
  ultimately show ?case using step h'(1,2,4) x by (intro exI [of _ h'] exI [of _ zsl']) (simp add: add.assoc add.commute)
qed

lemma delete_segment_at:
  assumes i: "zsl_inv E base h zsl (A @ B @ C)"
    and cut: "cuts before h 0 (zsl_nodes zsl (A @ B @ C)) (Suc (length A))"
    and c: "cond_cuts (cond (of_nat (length A))) 0 B C" and d: "del_all del (map (\<lambda>b. snd (zkey b)) B) d = Some d'"
  shows "\<exists>h' zsl'. delete_range E del before cond h zsl d = Some (h', zsl', d', of_nat (length B)) \<and>
    zsl_inv E base h' zsl' (A @ C) \<and> zsl_frame h zsl (fst ` set (A @ B @ C)) h' zsl' \<and> (\<forall>b \<in> set B. h' (fst b) = None)"
proof -
  note r = zsl_inv_rep [OF i]
  let ?U = "update_at 0 (zsl_nodes zsl A)"
  have de: "descend before h (z_level zsl) (z_header zsl) 0 [] =
      Some (fst (last (zsl_nodes zsl A)), of_nat (length A), map ?U [0..<z_level zsl])" using zsl_descend [OF r cut] by simp
  have "get_level h (fst (last (zsl_nodes zsl A))) 0 = Some (next_at 0 (ahs (B @ C)))" by (rule last_level [OF r])
  then show ?thesis using delete_loop_at [OF i, of "map fst (map ?U [0..<z_level zsl])", OF _ _ c d] de next_first [OF r]
    by (simp add: delete_range_def)
qed

section \<open>Single steps\<close>

lemma forward_steps_nodes:
  assumes lv: "levels_ok h L N" "1 \<le> L" and ht: "\<forall>x \<in> set N. 1 \<le> snd x"
  shows "i + k < length N \<Longrightarrow> forward_steps h k (Some (fst (N ! i))) = Some (Some (fst (N ! (i + k))))"
proof (induction k arbitrary: i)
  case (Suc k)
  have "1 \<le> snd (N ! i)" "1 \<le> snd (N ! Suc i)" using ht Suc.prems by simp_all
  moreover from this have "get_level h (fst (N ! i)) 0 = Some (next_at 0 (drop (Suc i) N))"
    using lv Suc.prems by (simp add: levels_ok_nth)
  moreover have "drop (Suc i) N = N ! Suc i # drop (Suc (Suc i)) N" using Suc.prems by (simp add: Cons_nth_drop_Suc)
  ultimately obtain l where "get_level h (fst (N ! i)) 0 = Some l" "lv_forward l = Some (fst (N ! Suc i))"
    by (cases "N ! Suc i") simp
  then show ?case using Suc.IH [of "Suc i"] Suc.prems by simp
qed simp

lemma forward_steps_at:
  assumes r: "zsl_rep h zsl xs" and "i + k < length (zsl_nodes zsl xs)"
  shows "forward_steps h k (Some (fst (zsl_nodes zsl xs ! i))) = Some (Some (fst (zsl_nodes zsl xs ! (i + k))))"
proof (rule forward_steps_nodes [OF zsl_repD(3,5) [OF r] _ assms(2)])
  show "\<forall>x \<in> set (zsl_nodes zsl xs). 1 \<le> snd x" using zsl_repD(7) [OF r] by (auto simp: ahs_def)
qed

lemma data_ok_nth:
  "data_ok h p xs \<Longrightarrow> i < length xs \<Longrightarrow> \<exists>n. h (fst (xs ! i)) = Some n \<and> zn_ele n = Some (snd (zkey (xs ! i))) \<and>
    zn_score n = fst (zkey (xs ! i)) \<and> zn_backward n = (if i = 0 then p else Some (fst (xs ! (i - 1))))"
proof (induction xs arbitrary: p i)
  case (Cons x xs)
  obtain a s e k where x: "x = (a, (s, e), k)" by (cases x) auto
  show ?case
  proof (cases i)
    case 0
    then show ?thesis using Cons.prems x by (auto simp: zdata_def)
  next
    case (Suc j)
    then show ?thesis using Cons.IH [of "Some a" j] Cons.prems x by (cases j) auto
  qed
qed simp

lemma backward_steps_at:
  assumes d: "data_ok h None xs"
  shows "k \<le> i \<Longrightarrow> i < length xs \<Longrightarrow> backward_steps h k (Some (fst (xs ! i))) = Some (Some (fst (xs ! (i - k))))"
proof (induction k arbitrary: i)
  case (Suc k)
  obtain n where "h (fst (xs ! i)) = Some n" "zn_backward n = Some (fst (xs ! (i - 1)))"
    using data_ok_nth [OF d Suc.prems(2)] Suc.prems(1) by auto
  then show ?case using Suc.IH [of "i - 1"] Suc.prems by simp
qed simp

lemma descend_upd: "descend P h k x r upd = map_option (\<lambda>(y, q, u). (y, q, u @ upd)) (descend P h k x r [])"
proof (induction k arbitrary: x r upd)
  case (Suc k)
  show ?case
  proof (cases "advance P h k x r")
    case (Some xr)
    obtain y q where "xr = (y, q)" by fastforce
    then show ?thesis using Some Suc [of y q "(y, q) # upd"] Suc [of y q "[(y, q)]"]
      by (cases "descend P h k y q []") auto
  qed simp
qed simp

lemma node_addr: "j < length xs \<Longrightarrow> fst (zsl_nodes zsl xs ! Suc j) = fst (xs ! j)"
  by (simp add: ahs_nth)

lemma admit_at:
  assumes r: "zsl_rep h zsl xs" and j: "j < length xs"
    and T: "\<And>n e. zn_ele n = Some e \<Longrightarrow> test n = Some (T (zn_score n, e))"
  shows "admit test h (Some (fst (xs ! j))) = Some (if T (zkey (xs ! j)) then Some (fst (xs ! j)) else None)"
proof -
  obtain n where n: "h (fst (xs ! j)) = Some n" "zn_ele n = Some (snd (zkey (xs ! j)))" "zn_score n = fst (zkey (xs ! j))"
    using data_ok_nth [OF zsl_repD(2) [OF r] j] by blast
  have "test n = Some (T (zkey (xs ! j)))" using T [OF n(2)] n(3) by simp
  then show ?thesis using n(1) by (simp add: admit_def)
qed

text \<open>Sums and differences of 64-bit words that do not wrap around.\<close>

lemma word_add_int: "0 \<le> n \<Longrightarrow> of_nat a + word_of_int n = (of_nat (a + nat n) :: 64 word)"
  by simp

lemma word_sub: "b \<le> a \<Longrightarrow> of_nat a - of_nat b = (of_nat (a - b) :: 64 word)"
  by (simp add: of_nat_diff)

lemma sint_small: "a < 2 ^ 63 \<Longrightarrow> sint (of_nat a :: 64 word) = int a"
  by (simp add: signed_of_nat signed_take_bit_int_eq_self)

lemma unat_wrapped:
  assumes "a < b" "b - a < 2 ^ 64"
  shows "unat (of_nat a - of_nat b :: 64 word) = 2 ^ 64 - (b - a)"
proof -
  have e: "of_nat a - of_nat b = (of_int (int a - int b) :: 64 word)" by simp
  have "unat (of_nat a - of_nat b :: 64 word) = nat ((int a - int b) mod 2 ^ 64)"
    unfolding e by (simp add: unsigned_of_int take_bit_eq_mod del: of_int_diff)
  also have "(int a - int b) mod 2 ^ 64 = (int a - int b + 2 ^ 64) mod 2 ^ 64" by simp
  also have "\<dots> = int a - int b + 2 ^ 64" using assms by (intro mod_pos_pos_trivial) auto
  also have "\<dots> = int (2 ^ 64 - (b - a))" using assms by simp
  finally show ?thesis by (simp only: nat_int)
qed

section \<open>Tests on the bounds of a range\<close>

text \<open>The member of a sequence with an index that counts from the end when it is negative.\<close>

definition seq_nth :: "'a list \<Rightarrow> int \<Rightarrow> 'a option" where
  "seq_nth xs n =
     (if 0 \<le> n then if nat n < length xs then Some (xs ! nat n) else None
      else if nat (- n) \<le> length xs then Some (xs ! (length xs - nat (- n))) else None)"

text \<open>The elements below, inside and above a range whose bounds admit the keys \<open>G\<close> and \<open>M\<close>.\<close>

definition seg_below :: "('s \<times> bytes \<Rightarrow> bool) \<Rightarrow> 's zitem list \<Rightarrow> 's zitem list" where
  "seg_below G xs = filter (\<lambda>x. \<not> G (zkey x)) xs"

definition seg_inside :: "('s \<times> bytes \<Rightarrow> bool) \<Rightarrow> ('s \<times> bytes \<Rightarrow> bool) \<Rightarrow> 's zitem list \<Rightarrow> 's zitem list" where
  "seg_inside G M xs = filter (\<lambda>x. G (zkey x) \<and> M (zkey x)) xs"

definition seg_above :: "('s \<times> bytes \<Rightarrow> bool) \<Rightarrow> ('s \<times> bytes \<Rightarrow> bool) \<Rightarrow> 's zitem list \<Rightarrow> 's zitem list" where
  "seg_above G M xs = filter (\<lambda>x. G (zkey x) \<and> \<not> M (zkey x)) xs"

text \<open>
  What the range functions rely on: on the keys \<open>K\<close> that occur, the tests on a node are properties of its
  key, the lower bound is upward closed and the upper bound downward closed.
\<close>

locale zsl_range =
  fixes gte lte :: "('s::linorder) zsl_test" and G M :: "'s \<times> bytes \<Rightarrow> bool" and K :: "('s \<times> bytes) set"
  assumes gte_key: "zn_ele n = Some e \<Longrightarrow> gte n = Some (G (zn_score n, e))"
    and lte_key: "zn_ele n = Some e \<Longrightarrow> lte n = Some (M (zn_score n, e))"
    and G_up: "k \<in> K \<Longrightarrow> k' \<in> K \<Longrightarrow> k < k' \<Longrightarrow> G k \<Longrightarrow> G k'"
    and M_down: "k \<in> K \<Longrightarrow> k' \<in> K \<Longrightarrow> k < k' \<Longrightarrow> M k' \<Longrightarrow> M k"
begin

lemma segments:
  assumes "sorted_wrt (<) (map zkey xs)" "zkey ` set xs \<subseteq> K"
  shows "xs = seg_below G xs @ seg_inside G M xs @ seg_above G M xs"
  using assms
proof (induction xs)
  case (Cons x xs)
  have ih: "xs = seg_below G xs @ seg_inside G M xs @ seg_above G M xs" using Cons by simp
  have K: "zkey x \<in> K" "\<And>y. y \<in> set xs \<Longrightarrow> zkey y \<in> K" using Cons.prems(2) by auto
  have lt: "zkey x < zkey y" if "y \<in> set xs" for y using Cons.prems(1) that by simp
  show ?case
  proof (cases "G (zkey x)")
    case G: True
    then have b: "seg_below G xs = []" using G_up [OF K(1) K(2) lt] by (auto simp: seg_below_def filter_empty_conv)
    show ?thesis
    proof (cases "M (zkey x)")
      case True
      then show ?thesis using G b ih by (simp add: seg_below_def seg_inside_def seg_above_def)
    next
      case False
      then have "seg_inside G M xs = []" using M_down [OF K(1) K(2) lt] by (auto simp: seg_inside_def filter_empty_conv)
      then show ?thesis using False G b ih by (simp add: seg_below_def seg_inside_def seg_above_def)
    qed
  next
    case False
    then show ?thesis using ih by (simp add: seg_below_def seg_inside_def seg_above_def)
  qed
qed (simp add: seg_below_def seg_inside_def seg_above_def)

lemma segment_sets:
  "x \<in> set (seg_below G xs) \<Longrightarrow> \<not> G (zkey x)" "x \<in> set (seg_inside G M xs) \<Longrightarrow> G (zkey x) \<and> M (zkey x)"
  "x \<in> set (seg_above G M xs) \<Longrightarrow> G (zkey x) \<and> \<not> M (zkey x)"
  by (simp_all add: seg_below_def seg_inside_def seg_above_def)

lemma out_cuts:
  assumes "zsl_rep h zsl (A @ B)" "\<And>x. x \<in> set A \<Longrightarrow> \<not> G (zkey x)" "\<And>x. x \<in> set B \<Longrightarrow> G (zkey x)"
  shows "cuts (out_of_range gte) h base (zsl_nodes zsl (A @ B)) (Suc (length A))"
proof (rule zsl_cuts [OF assms(1), where Q = "\<lambda>key. \<not> G key"])
  show "out_of_range gte rank l (Some n) = Some (\<not> G (zn_score n, e))" if "zn_ele n = Some e" for rank l n e
    using gte_key [OF that] by (simp add: out_of_range_def)
qed (use assms in blast)+

lemma in_cuts:
  assumes "zsl_rep h zsl (A @ B)" "\<And>x. x \<in> set A \<Longrightarrow> M (zkey x)" "\<And>x. x \<in> set B \<Longrightarrow> \<not> M (zkey x)"
  shows "cuts (in_range_cond lte) h base (zsl_nodes zsl (A @ B)) (Suc (length A))"
proof (rule zsl_cuts [OF assms(1), where Q = "\<lambda>key. M key"])
  show "in_range_cond lte rank l (Some n) = Some (M (zn_score n, e))" if "zn_ele n = Some e" for rank l n e
    using lte_key [OF that] by (simp add: in_range_cond_def)
qed (use assms in blast)+

lemma delete_range_inside:
  assumes i: "zsl_inv E base h zsl xs" and K: "zkey ` set xs \<subseteq> K"
    and d: "del_all del (map (\<lambda>b. snd (zkey b)) (seg_inside G M xs)) d = Some d'"
  shows "\<exists>h' zsl'. delete_range E del (out_of_range gte) (\<lambda>_ _. lte) h zsl d = Some (h', zsl', d', of_nat (length (seg_inside G M xs))) \<and>
    zsl_inv E base h' zsl' (filter (\<lambda>x. \<not> (G (zkey x) \<and> M (zkey x))) xs) \<and> zsl_frame h zsl (fst ` set xs) h' zsl' \<and>
    (\<forall>b \<in> set (seg_inside G M xs). h' (fst b) = None)"
proof -
  have s: "xs = seg_below G xs @ seg_inside G M xs @ seg_above G M xs" by (rule segments [OF zsl_repD(13) [OF zsl_inv_rep [OF i]] K])
  have i': "zsl_inv E base h zsl (seg_below G xs @ seg_inside G M xs @ seg_above G M xs)" using i s by simp
  have cut: "cuts (out_of_range gte) h 0 (zsl_nodes zsl (seg_below G xs @ seg_inside G M xs @ seg_above G M xs)) (Suc (length (seg_below G xs)))"
    by (rule out_cuts [OF zsl_inv_rep [OF i']]) (use segment_sets in auto)
  have c: "cond_cuts (\<lambda>_. lte) 0 (seg_inside G M xs) (seg_above G M xs)"
    unfolding cond_cuts_def
  proof (intro allI impI)
    fix j and n :: "'s zskiplistNode"
    let ?x = "(seg_inside G M xs @ seg_above G M xs) ! j"
    assume j: "j \<le> length (seg_inside G M xs)" "j < length (seg_inside G M xs @ seg_above G M xs)" "zn_ele n = Some (snd (zkey ?x))" "zn_score n = fst (zkey ?x)"
    have "?x \<in> set (if j < length (seg_inside G M xs) then seg_inside G M xs else seg_above G M xs)" using j(1,2) by (auto simp: nth_append)
    then have "M (zkey ?x) \<longleftrightarrow> j < length (seg_inside G M xs)" using segment_sets(2,3) [of ?x xs] by (auto split: if_splits)
    then show "lte n = Some (j < length (seg_inside G M xs))" using lte_key [OF j(3)] j(4) by simp
  qed
  have rest: "filter (\<lambda>x. \<not> (G (zkey x) \<and> M (zkey x))) xs = seg_below G xs @ seg_above G M xs"
  proof -
    have "filter (\<lambda>x. \<not> (G (zkey x) \<and> M (zkey x))) (seg_below G xs) = seg_below G xs" "filter (\<lambda>x. \<not> (G (zkey x) \<and> M (zkey x))) (seg_above G M xs) = seg_above G M xs"
      "filter (\<lambda>x. \<not> (G (zkey x) \<and> M (zkey x))) (seg_inside G M xs) = []"
      using segment_sets by (auto simp: filter_id_conv filter_empty_conv)
    then show ?thesis by (subst s) simp
  qed
  show ?thesis using delete_segment_at [OF i' cut, where cond = "\<lambda>_ _. lte", OF c d] s rest by simp
qed

text \<open>The walk to the edge of the range, with the last node on the top level remembered on the way.\<close>

lemma top_walk:
  assumes r: "zsl_rep h zsl (A @ B)" and o: "\<And>x. x \<in> set A \<Longrightarrow> \<not> G (zkey x)" "\<And>x. x \<in> set B \<Longrightarrow> G (zkey x)"
  obtains t u where "t \<le> length A" "z_level zsl \<le> snd (zsl_nodes zsl (A @ B) ! t)"
    "advance (out_of_range gte) h (z_level zsl - 1) (z_header zsl) 0 = Some (fst (zsl_nodes zsl (A @ B) ! t), of_nat t)"
    "descend (out_of_range gte) h (z_level zsl - 1) (fst (zsl_nodes zsl (A @ B) ! t)) (of_nat t) [] =
       Some (fst (zsl_nodes zsl (A @ B) ! length A), of_nat (length A), u)"
proof -
  let ?N = "zsl_nodes zsl (A @ B)"
  let ?t = "top_at (z_level zsl - 1) (take (Suc (length A)) ?N)"
  note R = zsl_repD [OF r]
  have cut: "cuts (out_of_range gte) h 0 ?N (Suc (length A))" by (rule out_cuts [OF r o])
  have L: "z_level zsl = Suc (z_level zsl - 1)" "z_level zsl - 1 < 32" using R(5,6) by simp_all
  have "hits (z_level zsl - 1) (take (Suc (length A)) ?N)" using L(2) by simp
  note tt = top_at(1,2) [OF this]
  have t1: "?t < Suc (length A)" using tt(1) unfolding length_take by (rule less_le_trans) simp
  have t: "?t \<le> length A" "z_level zsl - 1 < snd (?N ! ?t)" using t1 tt(2) unfolding nth_take [OF t1] by simp_all
  have a: "advance (out_of_range gte) h (z_level zsl - 1) (z_header zsl) 0 = Some (fst (?N ! ?t), of_nat ?t)"
    using advance_at [OF R(3) cut, of "z_level zsl - 1" 0] L by simp
  have "fst (last (zsl_nodes zsl A)) = fst (?N ! length A)"
    using last_conv_nth [of "zsl_nodes zsl A"] nth_append [of "zsl_nodes zsl A" "ahs B" "length A"] by (simp del: last.simps nth_Cons)
  moreover have "descend (out_of_range gte) h (Suc (z_level zsl - 1)) (z_header zsl) 0 [] =
      Some (fst (last (zsl_nodes zsl A)), of_nat (length A), map (update_at 0 (zsl_nodes zsl A)) [0..<z_level zsl])"
    using zsl_descend [OF r cut] L(1) by simp
  ultimately have "\<exists>u. descend (out_of_range gte) h (z_level zsl - 1) (fst (?N ! ?t)) (of_nat ?t) [] = Some (fst (?N ! length A), of_nat (length A), u)"
    using a descend_upd [of "out_of_range gte" h "z_level zsl - 1" "fst (?N ! ?t)" "of_nat ?t" "[(fst (?N ! ?t), of_nat ?t)]"]
    by (auto simp del: nth_Cons last.simps)
  then show thesis using that [of ?t] t a by auto
qed

lemma nth_forward:
  assumes r: "zsl_rep h zsl xs" and K: "zkey ` set xs \<subseteq> K" and n: "0 \<le> n" "n < 2 ^ 63" and len: "length xs < 2 ^ 63"
  shows "nth_in_range gte lte (Some True) h zsl n =
    Some (if nat n < length (seg_inside G M xs) then Some (fst (seg_inside G M xs ! nat n)) else None)"
proof -
  define A B C where "A = seg_below G xs" and "B = seg_inside G M xs" and "C = seg_above G M xs"
  have xs: "xs = A @ B @ C" unfolding A_def B_def C_def by (rule segments [OF zsl_repD(13) [OF r] K])
  have r': "zsl_rep h zsl (A @ (B @ C))" using r xs by simp
  have o: "\<And>x. x \<in> set A \<Longrightarrow> \<not> G (zkey x)" "\<And>x. x \<in> set (B @ C) \<Longrightarrow> G (zkey x)" using segment_sets unfolding A_def B_def C_def by auto
  from top_walk [OF r' o] obtain t u where t: "t \<le> length A" "z_level zsl \<le> snd (zsl_nodes zsl xs ! t)"
    "advance (out_of_range gte) h (z_level zsl - 1) (z_header zsl) 0 = Some (fst (zsl_nodes zsl xs ! t), of_nat t)"
    "descend (out_of_range gte) h (z_level zsl - 1) (fst (zsl_nodes zsl xs ! t)) (of_nat t) [] =
       Some (fst (zsl_nodes zsl xs ! length A), of_nat (length A), u)" unfolding xs by metis
  let ?j = "length A + nat n"
  have la: "length A \<le> length xs" using xs by simp
  have "nat n < 2 ^ 63" using n by (simp add: nat_less_iff)
  then have "?j < 2 ^ 64" using la len by simp
  then have un: "unat (of_nat (length A) + word_of_int n :: 64 word) = ?j" unfolding word_add_int [OF n(1)] by (rule unat_small)
  have lz: "unat (z_length zsl) = length xs" using zsl_repD(11,12) [OF r] by (simp add: unat_small)
  have le: "of_nat (length A) + word_of_int n \<ge> z_length zsl \<longleftrightarrow> length xs \<le> ?j" unfolding word_le_nat_alt un lz ..
  show ?thesis
  proof (cases "length xs \<le> ?j")
    case True
    then have "\<not> nat n < length B" using xs by simp
    then show ?thesis using t le True n(1) by (simp add: nth_in_range_def B_def del: nth_Cons)
  next
    case False
    have y: "(if n < ZSKIPLIST_MAX_SEARCH then forward_steps h (nat (n + 1)) (Some (fst (zsl_nodes zsl xs ! length A)))
        else zslGetElementByRankFromNode h (fst (zsl_nodes zsl xs ! t)) (z_level zsl) (of_nat (length A) + 1 + word_of_int n - of_nat t)) =
        Some (Some (fst (xs ! ?j)))"
    proof (cases "n < ZSKIPLIST_MAX_SEARCH")
      case True
      have "length A + nat (n + 1) = Suc ?j" using n(1) by simp
      then show ?thesis using True forward_steps_at [OF r, of "length A" "nat (n + 1)"] False node_addr [of ?j xs zsl] by (simp del: nth_Cons nth_Cons_Suc)
    next
      case big: False
      have e: "of_nat (length A) + 1 + word_of_int n - of_nat t = (of_nat (Suc ?j - t) :: 64 word)"
        using word_add_int [OF n(1), of "Suc (length A)"] word_sub [of t "Suc ?j"] t(1) by (simp add: algebra_simps)
      have "unat (of_nat (Suc ?j - t) :: 64 word) = Suc ?j - t" using False len by (intro unat_small) simp
      moreover have "t < length (zsl_nodes zsl xs)" "t + (Suc ?j - t) = Suc ?j" using t(1) la by simp_all
      ultimately show ?thesis unfolding e using big zsl_by_rank_from [OF r _ t(2), of "of_nat (Suc ?j - t)"] False node_addr [of ?j xs zsl]
        by (simp del: nth_Cons nth_Cons_Suc of_nat_Suc of_nat_diff)
    qed
    have j: "?j < length xs" using False by simp
    have "M (zkey (xs ! ?j)) \<longleftrightarrow> nat n < length B"
    proof -
      have "xs ! ?j \<in> set (if nat n < length B then B else C)" using j xs by (auto simp: nth_append)
      then show ?thesis using segment_sets(2,3) [of "xs ! ?j" xs] unfolding B_def C_def by (auto split: if_splits)
    qed
    moreover have "nat n < length B \<Longrightarrow> xs ! ?j = B ! nat n" using xs by (simp add: nth_append)
    ultimately have "admit lte h (Some (fst (xs ! ?j))) = Some (if nat n < length B then Some (fst (B ! nat n)) else None)"
      using admit_at [OF r j, of lte M] lte_key by auto
    then show ?thesis using t le False n(1) y by (simp add: nth_in_range_def B_def del: nth_Cons)
  qed
qed

lemma nth_backward:
  assumes r: "zsl_rep h zsl xs" and K: "zkey ` set xs \<subseteq> K" and ov: "\<And>k. k \<in> K \<Longrightarrow> \<not> G k \<Longrightarrow> M k"
    and n: "n < 0" and len: "length xs < 2 ^ 63"
  shows "nth_in_range gte lte (Some True) h zsl n =
    Some (if nat (- n) \<le> length (seg_inside G M xs)
      then Some (fst (seg_inside G M xs ! (length (seg_inside G M xs) - nat (- n)))) else None)"
proof -
  define A B C where "A = seg_below G xs" and "B = seg_inside G M xs" and "C = seg_above G M xs"
  define m where "m = nat (- n)"
  have m: "1 \<le> m" "n = - int m" using n by (simp_all add: m_def)
  have xs: "xs = A @ B @ C" unfolding A_def B_def C_def by (rule segments [OF zsl_repD(13) [OF r] K])
  have r': "zsl_rep h zsl (A @ (B @ C))" "zsl_rep h zsl ((A @ B) @ C)" using r xs by simp_all
  have o: "\<And>x. x \<in> set A \<Longrightarrow> \<not> G (zkey x)" "\<And>x. x \<in> set (B @ C) \<Longrightarrow> G (zkey x)" "\<And>x. x \<in> set C \<Longrightarrow> \<not> M (zkey x)"
    using segment_sets unfolding A_def B_def C_def by auto
  have o4: "M (zkey x)" if "x \<in> set (A @ B)" for x
  proof (cases "x \<in> set A")
    case True
    then have "zkey x \<in> K" using K xs by auto
    then show ?thesis using ov [of "zkey x"] o(1) [OF True] by simp
  qed (use that segment_sets(2) [of x xs] in \<open>simp add: B_def\<close>)
  from top_walk [OF r'(1) o(1,2)] obtain t u where t: "t \<le> length A" "z_level zsl \<le> snd (zsl_nodes zsl xs ! t)"
    "advance (out_of_range gte) h (z_level zsl - 1) (z_header zsl) 0 = Some (fst (zsl_nodes zsl xs ! t), of_nat t)" unfolding xs by metis
  let ?e = "length (A @ B)"
  have le: "?e \<le> length xs" using xs by simp
  have cut: "cuts (in_range_cond lte) h 0 (zsl_nodes zsl xs) (Suc ?e)" using in_cuts [OF r'(2) o4 o(3)] xs by simp
  have lvl: "z_level zsl \<noteq> 0" using zsl_repD(5) [OF r] by simp
  have ua: "update_at 0 (take (Suc ?e) (zsl_nodes zsl xs)) 0 = (fst (zsl_nodes zsl xs ! ?e), of_nat ?e)"
    using top_at_all [OF r, of "Suc ?e"] le by (subst update_at_take) (simp_all del: take_Suc_Cons)
  have "descend (in_range_cond lte) h (z_level zsl) (fst (zsl_nodes zsl xs ! t)) (0 + of_nat t) [] =
      Some (fst (zsl_nodes zsl xs ! ?e), of_nat ?e, map (update_at 0 (take (Suc ?e) (zsl_nodes zsl xs))) [0..<z_level zsl] @ [])"
    using descend_at [OF zsl_repD(3) [OF r] cut, of "z_level zsl" t "[]"] t(1,2) ua lvl by (simp del: nth_Cons)
  then obtain v where de: "descend (in_range_cond lte) h (z_level zsl) (fst (zsl_nodes zsl xs ! t)) (of_nat t) [] =
      Some (fst (zsl_nodes zsl xs ! ?e), of_nat ?e, v)" by auto
  have se: "sint (of_nat ?e :: 64 word) = int ?e"
    by (rule sint_small) (use le len in linarith)
  show ?thesis
  proof (cases "?e < m")
    case True
    then show ?thesis using t de se m by (simp add: nth_in_range_def B_def m_def [symmetric] del: nth_Cons)
  next
    case False
    let ?j = "?e - m"
    have j: "?j < length xs" using False le m(1) by simp
    have y: "(if n + 1 > - ZSKIPLIST_MAX_SEARCH then backward_steps h (nat (- n - 1)) (Some (fst (zsl_nodes zsl xs ! ?e)))
        else zslGetElementByRankFromNode h (fst (zsl_nodes zsl xs ! t)) (z_level zsl) (of_nat ?e + 1 + word_of_int n - of_nat t)) =
        Some (if n + 1 > - ZSKIPLIST_MAX_SEARCH \<or> t \<le> Suc ?j then Some (fst (xs ! ?j)) else None)"
    proof (cases "n + 1 > - ZSKIPLIST_MAX_SEARCH")
      case True
      have "fst (zsl_nodes zsl xs ! ?e) = fst (xs ! (?e - 1))" using node_addr [of "?e - 1" xs zsl] False m(1) le by (cases ?e) simp_all
      moreover have "nat (- n - 1) = m - 1" "?e - 1 - (m - 1) = ?j" "m - 1 \<le> ?e - 1" "?e - 1 < length xs" using m False le by auto
      ultimately show ?thesis using True backward_steps_at [OF zsl_repD(2) [OF r], of "m - 1" "?e - 1"] by (simp del: nth_Cons)
    next
      case big: False
      have "word_of_int n = - (of_nat m :: 64 word)" using m(2) by simp
      then have e: "of_nat ?e + 1 + word_of_int n - of_nat t = (of_nat (Suc ?j) - of_nat t :: 64 word)"
        using word_sub [of m "Suc ?e"] False by (simp add: Suc_diff_le)
      have tl: "t < length (zsl_nodes zsl xs)" using t(1) le by simp
      show ?thesis
      proof (cases "t \<le> Suc ?j")
        case True
        have w: "of_nat (Suc ?j) - of_nat t = (of_nat (Suc ?j - t) :: 64 word)" by (rule word_sub [OF True])
        have "unat (of_nat (Suc ?j - t) :: 64 word) = Suc ?j - t" using j len by (intro unat_small) simp
        then show ?thesis unfolding e w using big True zsl_by_rank_from [OF r tl t(2), of "of_nat (Suc ?j - t)"] j node_addr [OF j, of zsl]
          by (simp del: nth_Cons nth_Cons_Suc of_nat_Suc of_nat_diff)
      next
        case tj: False
        have "unat (of_nat (Suc ?j) - of_nat t :: 64 word) = 2 ^ 64 - (t - Suc ?j)" using tj t(1) le len by (intro unat_wrapped) simp_all
        then have "\<not> t + unat (of_nat (Suc ?j) - of_nat t :: 64 word) < length (zsl_nodes zsl xs)" using len tl by simp
        then show ?thesis unfolding e using big tj zsl_by_rank_from [OF r tl t(2), of "of_nat (Suc ?j) - of_nat t"]
          by (simp del: nth_Cons nth_Cons_Suc of_nat_Suc)
      qed
    qed
    have bj: "xs ! ?j = B ! (length B - m)" if "m \<le> length B"
    proof -
      have "?j = length A + (length B - m)" using that by simp
      moreover have "length B - m < length B" using that m(1) by linarith
      ultimately show ?thesis by (simp add: xs nth_append)
    qed
    have g: "G (zkey (xs ! ?j)) \<longleftrightarrow> m \<le> length B"
    proof (cases "m \<le> length B")
      case True
      then show ?thesis using bj o(2) [of "B ! (length B - m)"] m(1) by simp
    next
      case nb: False
      then have "xs ! ?j \<in> set A" using xs False by (auto simp: nth_append)
      then show ?thesis using nb o(1) by simp
    qed
    have ad: "admit gte h (Some (fst (xs ! ?j))) = Some (if m \<le> length B then Some (fst (xs ! ?j)) else None)"
      using admit_at [OF r j, of gte G] gte_key g by auto
    have ed: "\<not> sint (of_nat ?e :: 64 word) < - n" using se m(2) False by simp
    have code: "nth_in_range gte lte (Some True) h zsl n = do {
        y \<leftarrow> (if n + 1 > - ZSKIPLIST_MAX_SEARCH then backward_steps h (nat (- n - 1)) (Some (fst (zsl_nodes zsl xs ! ?e)))
          else zslGetElementByRankFromNode h (fst (zsl_nodes zsl xs ! t)) (z_level zsl) (of_nat ?e + 1 + word_of_int n - of_nat t));
        admit gte h y }"
      unfolding nth_in_range_def t(3) bind.bind_lunit prod.case de using n ed by simp
    have "nth_in_range gte lte (Some True) h zsl n = Some (if m \<le> length B then Some (fst (xs ! ?j)) else None)"
    proof (cases "n + 1 > - ZSKIPLIST_MAX_SEARCH \<or> t \<le> Suc ?j")
      case True
      then show ?thesis unfolding code y using ad by simp
    next
      case nt: False
      then have "\<not> t \<le> Suc ?j" by blast
      then have "\<not> m \<le> length B" using t(1) by simp
      then show ?thesis unfolding code y using nt by (simp add: admit_def)
    qed
    then show ?thesis using bj by (simp add: B_def m_def [symmetric])
  qed
qed

text \<open>The early test compares the two ends of the list with the bounds: what it rejects is empty.\<close>

lemma ends_at:
  assumes r: "zsl_rep h zsl xs"
  shows "ends_in_range gte lte h zsl = Some (xs \<noteq> [] \<and> G (zkey (last xs)) \<and> M (zkey (hd xs)))"
proof (cases xs)
  case Nil
  then show ?thesis using zsl_repD(10) [OF r] by (simp add: ends_in_range_def)
next
  case (Cons x zs)
  note d = data_ok_nth [OF zsl_repD(2) [OF r]]
  have t: "z_tail zsl = Some (fst (last xs))" using zsl_repD(10) [OF r] Cons by (simp add: last_addr_def)
  obtain tn where tn: "h (fst (last xs)) = Some tn" "zn_ele tn = Some (snd (zkey (last xs)))" "zn_score tn = fst (zkey (last xs))"
  proof -
    have ne: "xs \<noteq> []" using Cons by simp
    then show ?thesis using d [of "length xs - 1"] that unfolding last_conv_nth [OF ne] by auto
  qed
  obtain fn where fn: "h (fst x) = Some fn" "zn_ele fn = Some (snd (zkey x))" "zn_score fn = fst (zkey x)"
    using d [of 0] Cons by auto
  have "get_level h (z_header zsl) 0 = Some (next_at 0 (ahs xs))" using last_level [of h zsl "[]" xs] r by simp
  moreover have "lv_forward (next_at 0 (ahs xs)) = Some (fst x)" using next_first [of h zsl "[]" xs] r Cons by (simp add: first_addr_def)
  ultimately show ?thesis using t tn(1) fn(1) gte_key [OF tn(2)] lte_key [OF fn(2)] tn(3) fn(3) Cons by (auto simp: ends_in_range_def)
qed

lemma rejected_empty:
  assumes r: "zsl_rep h zsl xs" and K: "zkey ` set xs \<subseteq> K" and no: "ends_in_range gte lte h zsl = Some False"
  shows "seg_inside G M xs = []"
proof (rule ccontr)
  assume "seg_inside G M xs \<noteq> []"
  then obtain x where x: "x \<in> set xs" "G (zkey x)" "M (zkey x)" by (auto simp: seg_inside_def filter_empty_conv)
  have s: "sorted_wrt (<) (map zkey xs)" by (rule zsl_repD(13) [OF r])
  have ne: "xs \<noteq> []" using x(1) by auto
  have "x = last xs \<or> zkey x < zkey (last xs)" using s x(1) by (cases xs rule: rev_cases) (auto simp: sorted_wrt_append)
  then have "G (zkey (last xs))" using x G_up [of "zkey x" "zkey (last xs)"] K ne last_in_set [OF ne] by blast
  moreover have "x = hd xs \<or> zkey (hd xs) < zkey x" using s x(1) by (cases xs) auto
  then have "M (zkey (hd xs))" using x M_down [of "zkey (hd xs)" "zkey x"] K ne list.set_sel(1) [OF ne] by blast
  ultimately show False using no ends_at [OF r] ne by simp
qed

lemma nth_in_range_at:
  assumes r: "zsl_rep h zsl xs" and K: "zkey ` set xs \<subseteq> K" and n: "n < 2 ^ 63" and len: "length xs < 2 ^ 63"
    and ok: "is_in = Some False \<and> seg_inside G M xs = [] \<or>
      is_in = ends_in_range gte lte h zsl \<and> (\<forall>k \<in> K. \<not> G k \<longrightarrow> M k)"
  shows "nth_in_range gte lte is_in h zsl n = Some (map_option fst (seq_nth (seg_inside G M xs) n))"
proof -
  consider "is_in = Some False" "seg_inside G M xs = []" | "is_in = Some True" "\<forall>k \<in> K. \<not> G k \<longrightarrow> M k"
  proof (cases "is_in = Some False \<and> seg_inside G M xs = []")
    case False
    then have o: "is_in = ends_in_range gte lte h zsl" "\<forall>k \<in> K. \<not> G k \<longrightarrow> M k" using ok by blast+
    then have "is_in \<noteq> Some False" using rejected_empty [OF r K] False by auto
    then show ?thesis using that(2) o ends_at [OF r] by auto
  qed (use that in blast)
  then show ?thesis
  proof cases
    case 1
    then show ?thesis by (simp add: nth_in_range_def seq_nth_def)
  next
    case 2
    show ?thesis
    proof (cases "0 \<le> n")
      case True
      then show ?thesis using nth_forward [OF r K True n len] 2(1) by (simp add: seq_nth_def)
    next
      case False
      then show ?thesis using nth_backward [OF r K _ _ len, of n] 2 by (simp add: seq_nth_def)
    qed
  qed
qed

end

section \<open>The two kinds of bounds\<close>

interpretation score_range: zsl_range "score_gte spec" "score_lte spec" "\<lambda>k. zslValueGteMin (fst k) spec" "\<lambda>k. zslValueLteMax (fst k) spec" UNIV
  for spec :: "('s::linorder) zrangespec"
proof unfold_locales
  fix k k' :: "'s \<times> bytes"
  assume "k < k'"
  then have "fst k \<le> fst k'" by (cases k; cases k') auto
  then show "zslValueGteMin (fst k) spec \<Longrightarrow> zslValueGteMin (fst k') spec" "zslValueLteMax (fst k') spec \<Longrightarrow> zslValueLteMax (fst k) spec"
    by (auto simp: zslValueGteMin_def zslValueLteMax_def split: if_splits)
qed (simp_all add: score_gte_def score_lte_def)

lemma sdscmplex_simps [simp]: "sdscmplex (Str v) MinString = 1" "sdscmplex (Str v) MaxString = - 1" "sdscmplex (Str v) (Str w) = sdscmp v w"
  by (auto simp: sdscmplex_def sdscmp_order)

lemma sdscmp_greater [simp]: "0 < sdscmp a b \<longleftrightarrow> b < a" "0 \<le> sdscmp a b \<longleftrightarrow> b \<le> a"
  using sdscmp_order [of a b] by (auto simp: not_less [symmetric] simp del: sdscmp_less sdscmp_eq sdscmp_le)

interpretation lex_range: zsl_range "lex_gte spec" "lex_lte spec" "\<lambda>k. zslLexValueGteMin (snd k) spec" "\<lambda>k. zslLexValueLteMax (snd k) spec" "{k. fst k = s}"
  for spec :: zlexrangespec and s :: "'s::linorder"
proof unfold_locales
  fix k k' :: "'s \<times> bytes"
  assume "k \<in> {k. fst k = s}" "k' \<in> {k. fst k = s}" "k < k'"
  then have "snd k < snd k'" by (cases k; cases k') auto
  then show "zslLexValueGteMin (snd k) spec \<Longrightarrow> zslLexValueGteMin (snd k') spec" "zslLexValueLteMax (snd k') spec \<Longrightarrow> zslLexValueLteMax (snd k) spec"
    by (cases "zx_min spec"; cases "zx_max spec"; auto simp: zslLexValueGteMin_def zslLexValueLteMax_def split: if_splits)+
qed (simp_all add: lex_gte_def lex_lte_def)

end
