(* ===== verification/Zskiplist_Set.thy ===== *)
theory Zskiplist_Set
  imports Zskiplist_Range
begin

text \<open>
  What the skip list promises to the sorted set: it holds a finite set of pairs of a score and an
  element in order, through every sequence of insertions, deletions and changes of scores, and it
  answers questions about ranks and ranges of this order.
\<close>

section \<open>The set of pairs\<close>

definition zsl_holds :: "zsl_env \<Rightarrow> 64 word \<Rightarrow> ('s::linorder) zsl_heap \<Rightarrow> zskiplist \<Rightarrow> ('s \<times> bytes) set \<Rightarrow> bool" where
  "zsl_holds E base h zsl K \<longleftrightarrow> (\<exists>xs. zsl_inv E base h zsl xs \<and> zkey ` set xs = K)"

lemma zsl_create_inv:
  assumes "zslCreate E h base hdr = (h', zsl)"
  shows "zsl_inv E base h' zsl []"
proof -
  have h': "h' = h(hdr \<mapsto> \<lparr>zn_ele = None, zn_score = 0, zn_backward = None, zn_level = replicate 32 \<lparr>lv_forward = None, lv_span = 0\<rparr>\<rparr>)"
    and z: "zsl = \<lparr>z_header = hdr, z_tail = None, z_length = 0, z_level = 1, z_alloc_size = base + usable_size E hdr\<rparr>"
    using assms by (auto simp: zslCreate_def zslCreateNode_def ZSKIPLIST_MAXLEVEL_def)
  have g: "get_level h' hdr i = (if i < 32 then Some \<lparr>lv_forward = None, lv_span = 0\<rparr> else None)" for i
    by (simp add: h' get_level_def)
  have "zsl_rep h' zsl []" by (rule zsl_repI) (simp_all add: z g, simp_all add: h' zdata_def)
  then show ?thesis using z by (simp add: zsl_inv_def)
qed

datatype 's zsl_op = ZInsert "int list" 's bytes | ZDelete 's bytes | ZUpdate "int list" 's bytes 's

fun zsl_exec :: "zsl_env \<Rightarrow> ('s zsl_heap \<Rightarrow> nat) \<Rightarrow> ('s::linorder) zsl_op \<Rightarrow> 's zsl_heap \<Rightarrow> zskiplist \<Rightarrow> ('s zsl_heap \<times> zskiplist \<times> bool) option" where
  "zsl_exec E alloc (ZInsert rs s e) h zsl = do { (h', zsl', _) \<leftarrow> zslInsert E rs (alloc h) h zsl s e; Some (h', zsl', True) }"
| "zsl_exec E alloc (ZDelete s e) h zsl = do { (h', zsl', found, _) \<leftarrow> zslDelete E False h zsl s e; Some (h', zsl', found) }"
| "zsl_exec E alloc (ZUpdate rs s e s') h zsl = do { (h', zsl', _) \<leftarrow> zslUpdateScore E rs (alloc h) h zsl s e s'; Some (h', zsl', True) }"

text \<open>The same on sets, and what the callers see to: an element is inserted or given a new score only where it is not there yet.\<close>

fun zset_exec :: "('s::linorder) zsl_op \<Rightarrow> ('s \<times> bytes) set \<Rightarrow> ('s \<times> bytes) set \<times> bool" where
  "zset_exec (ZInsert rs s e) K = (insert (s, e) K, True)"
| "zset_exec (ZDelete s e) K = (K - {(s, e)}, (s, e) \<in> K)"
| "zset_exec (ZUpdate rs s e s') K = (insert (s', e) (K - {(s, e)}), True)"

fun zsl_valid :: "('s::linorder) zsl_op \<Rightarrow> ('s \<times> bytes) set \<Rightarrow> bool" where
  "zsl_valid (ZInsert rs s e) K \<longleftrightarrow> (s, e) \<notin> K \<and> zslRandomLevel rs \<noteq> None"
| "zsl_valid (ZDelete s e) K \<longleftrightarrow> True"
| "zsl_valid (ZUpdate rs s e s') K \<longleftrightarrow> (s, e) \<in> K \<and> (s', e) \<notin> K - {(s, e)} \<and> zslRandomLevel rs \<noteq> None"

fun zsl_run :: "zsl_env \<Rightarrow> ('s zsl_heap \<Rightarrow> nat) \<Rightarrow> ('s::linorder) zsl_op list \<Rightarrow> 's zsl_heap \<Rightarrow> zskiplist \<Rightarrow> ('s zsl_heap \<times> zskiplist \<times> bool list) option" where
  "zsl_run E alloc [] h zsl = Some (h, zsl, [])"
| "zsl_run E alloc (c # cs) h zsl = do {
     (h1, zsl1, b) \<leftarrow> zsl_exec E alloc c h zsl;
     (h2, zsl2, bs) \<leftarrow> zsl_run E alloc cs h1 zsl1;
     Some (h2, zsl2, b # bs)
   }"

fun zset_run :: "('s::linorder) zsl_op list \<Rightarrow> ('s \<times> bytes) set \<Rightarrow> ('s \<times> bytes) set \<times> bool list" where
  "zset_run [] K = (K, [])"
| "zset_run (c # cs) K = (let (K1, b) = zset_exec c K; (K2, bs) = zset_run cs K1 in (K2, b # bs))"

fun run_valid :: "('s::linorder) zsl_op list \<Rightarrow> ('s \<times> bytes) set \<Rightarrow> bool" where
  "run_valid [] K \<longleftrightarrow> True"
| "run_valid (c # cs) K \<longleftrightarrow> zsl_valid c K \<and> run_valid cs (fst (zset_exec c K))"

text \<open>\<^verbatim>\<open>zmalloc\<close> finds an unused address as long as finitely many are in use.\<close>

definition zsl_allocator :: "('s zsl_heap \<Rightarrow> nat) \<Rightarrow> bool" where
  "zsl_allocator alloc \<longleftrightarrow> (\<forall>h. finite (dom h) \<longrightarrow> h (alloc h) = None)"

lemma frame_finite:
  assumes "zsl_frame h zsl A h' zsl'" "finite A" "finite (dom h)"
  shows "finite (dom h')"
proof (rule finite_subset)
  show "dom h' \<subseteq> dom h \<union> insert (z_header zsl) A" using assms(1) by (auto simp: zsl_frame_def dom_def)
qed (use assms in simp)

text \<open>The members of a list split at a key.\<close>

lemma keys_absent:
  fixes ys :: "('s::linorder) zitem list"
  assumes "\<And>y. y \<in> set ys \<Longrightarrow> zkey y < key" "\<And>z. z \<in> set zs \<Longrightarrow> key < zkey z"
  shows "key \<notin> zkey ` set (ys @ zs)"
proof
  assume "key \<in> zkey ` set (ys @ zs)"
  then obtain x where "zkey x = key" "x \<in> set ys \<or> x \<in> set zs" by auto
  then show False using assms(1) [of x] assms(2) [of x] by (auto simp: less_irrefl simp del: less_prod_simp)
qed

lemma keys_present:
  fixes ys :: "('s::linorder) zitem list"
  assumes "\<And>y. y \<in> set ys \<Longrightarrow> zkey y < key" "\<And>z. z \<in> set zs \<Longrightarrow> key < zkey z"
  shows "zkey ` set (ys @ zs) = zkey ` set (ys @ (x, key, k) # zs) - {key}"
  using keys_absent [OF assms] by (auto simp: image_Un)

lemma zsl_exec_sim:
  assumes al: "zsl_allocator alloc" and hd: "zsl_holds E base h zsl K" "finite (dom h)" and v: "zsl_valid c K" and len: "Suc (card K) < 2 ^ 64"
  shows "\<exists>h' zsl'. zsl_exec E alloc c h zsl = Some (h', zsl', snd (zset_exec c K)) \<and>
    zsl_holds E base h' zsl' (fst (zset_exec c K)) \<and> finite (dom h')"
proof -
  obtain xs where i: "zsl_inv E base h zsl xs" and K: "zkey ` set xs = K" using hd(1) by (auto simp: zsl_holds_def)
  note r = zsl_inv_rep [OF i]
  have al': "h (alloc h) = None" using al hd(2) by (simp add: zsl_allocator_def)
  have s: "sorted_wrt (<) (map zkey xs)" by (rule zsl_repD(13) [OF r])
  then have "distinct (map zkey xs)" by (simp add: strict_sorted_iff)
  then have "card K = length xs" using K distinct_card [of "map zkey xs"] by simp
  then have lx: "Suc (length xs) < 2 ^ 64" using len by simp
  show ?thesis
  proof (cases c)
    case (ZInsert rs s e)
    then obtain lev where lev: "zslRandomLevel rs = Some lev" using v by auto
    show ?thesis
    proof (cases rule: key_split [OF s, of "(s, e)"])
      case (1 ys zs)
      obtain h' zsl' where ins: "zslInsert E rs (alloc h) h zsl s e = Some (h', zsl', alloc h)" "zsl_rep h' zsl' (ys @ (alloc h, (s, e), lev) # zs)"
        "zsl_frame h zsl (insert (alloc h) (fst ` set (ys @ zs))) h' zsl'" "z_alloc_size zsl' = z_alloc_size zsl + usable_size E (alloc h) + sdsAllocSize E e"
        using zsl_insert_at [OF r [unfolded 1(1)] al' lev 1(2,3)] lx 1(1) by blast
      have "zsl_inv E base h' zsl' (ys @ (alloc h, (s, e), lev) # zs)"
        using ins(2-4) i 1(1) by (simp add: zsl_inv_def zsl_frame_def algebra_simps)
      moreover have "zkey ` set (ys @ (alloc h, (s, e), lev) # zs) = insert (s, e) K" using K 1(1) by (auto simp: image_Un)
      ultimately have "zsl_holds E base h' zsl' (insert (s, e) K)" unfolding zsl_holds_def by blast
      then show ?thesis using ins(1) ZInsert frame_finite [OF ins(3) _ hd(2)] by simp
    next
      case (2 ys x k zs)
      then have "(s, e) \<in> K" using K by force
      then show ?thesis using v ZInsert by simp
    qed
  next
    case (ZDelete s e)
    show ?thesis
    proof (cases rule: key_split [OF s, of "(s, e)"])
      case (1 ys zs)
      have "(s, e) \<notin> K" using keys_absent [of ys "(s, e)" zs, OF 1(2,3)] K 1(1) by simp
      then show ?thesis using zsl_delete_absent [OF r [unfolded 1(1)] 1(2,3)] ZDelete hd by simp
    next
      case (2 ys x k zs)
      obtain h' zsl' where d: "zslDelete E False h zsl s e = Some (h', zsl', True, None)" "zsl_rep h' zsl' (ys @ zs)"
        "zsl_frame h zsl (insert x (fst ` set (ys @ zs))) h' zsl'" "z_alloc_size zsl' = z_alloc_size zsl - sdsAllocSize E e - usable_size E x"
        using zsl_delete_present [OF r [unfolded 2(1)] 2(2,3), of E False] by auto
      have "zsl_inv E base h' zsl' (ys @ zs)" using d(2-4) i 2(1) by (simp add: zsl_inv_def zsl_frame_def algebra_simps)
      moreover have "zkey ` set (ys @ zs) = K - {(s, e)}" "(s, e) \<in> K" using keys_present [of ys "(s, e)" zs, OF 2(2,3), of x k] K 2(1) by force+
      ultimately have "zsl_holds E base h' zsl' (K - {(s, e)})" "(s, e) \<in> K" unfolding zsl_holds_def by blast+
      then show ?thesis using d(1) ZDelete frame_finite [OF d(3) _ hd(2)] by simp
    qed
  next
    case (ZUpdate rs s e s')
    then obtain lev where lev: "zslRandomLevel rs = Some lev" and in_K: "(s, e) \<in> K" "(s', e) \<notin> K - {(s, e)}" using v by auto
    show ?thesis
    proof (cases rule: key_split [OF s, of "(s, e)"])
      case (1 ys zs)
      then show ?thesis using keys_absent [of ys "(s, e)" zs, OF 1(2,3)] K in_K(1) by simp
    next
      case (2 ys x k zs)
      have Kr: "zkey ` set (ys @ zs) = K - {(s, e)}" unfolding K [symmetric] 2(1) by (rule keys_present [of ys "(s, e)" zs, OF 2(2,3)])
      have "rescored E base h zsl (insert (alloc h) (insert x (fst ` set (ys @ zs)))) (K - {(s, e)}) (s', e)
          (zslUpdateScore E rs (alloc h) h zsl s e s')"
        using zsl_update [OF i [unfolded 2(1)] 2(2,3) _ al' lev, of s'] Kr in_K(2) by simp
      from this [unfolded rescored_def] obtain h' zsl' a l us vs where u: "zslUpdateScore E rs (alloc h) h zsl s e s' = Some (h', zsl', a)"
        "zsl_inv E base h' zsl' (us @ (a, (s', e), l) # vs)" "zkey ` set (us @ vs) = K - {(s, e)}"
        "zsl_frame h zsl (insert (alloc h) (insert x (fst ` set (ys @ zs)))) h' zsl'" by (elim exE conjE)
      have "zkey ` set (us @ (a, (s', e), l) # vs) = insert (s', e) (K - {(s, e)})" using u(3) by (auto simp: image_Un)
      then have "zsl_holds E base h' zsl' (insert (s', e) (K - {(s, e)}))"
        unfolding zsl_holds_def by (intro exI [of _ "us @ (a, (s', e), l) # vs"] conjI u(2))
      then show ?thesis using u(1) ZUpdate frame_finite [OF u(4) _ hd(2)] by simp
    qed
  qed
qed

lemma zset_exec_card: "finite K \<Longrightarrow> finite (fst (zset_exec c K)) \<and> card (fst (zset_exec c K)) \<le> Suc (card K)"
  by (cases c) (auto simp: card_insert_if card_Diff_singleton_if le_SucI)

section \<open>Properties\<close>

text \<open>
  (C4) Every sequence of insertions, deletions and changes of scores on a new skip list does to the
  set of its pairs what it says, whatever random levels are drawn: it never follows a bad pointer, it
  reports correctly whether an element was deleted, and it keeps the order, the links and spans on
  every level, the back pointers, the length and the count of the memory in use.
\<close>

theorem zskiplist_refines_set:
  fixes cs :: "('s::{linorder,zero}) zsl_op list"
  assumes "zsl_allocator alloc" "run_valid cs {}" "length cs < 2 ^ 64" "zslCreate E Map.empty base hdr = (h0, zsl0)"
  shows "\<exists>h zsl. zsl_run E alloc cs h0 zsl0 = Some (h, zsl, snd (zset_run cs {})) \<and> zsl_holds E base h zsl (fst (zset_run cs {}))"
proof -
  have "\<exists>h' zsl'. zsl_run E alloc cs h zsl = Some (h', zsl', snd (zset_run cs K)) \<and> zsl_holds E base h' zsl' (fst (zset_run cs K))"
    if "zsl_holds E base h zsl K" "finite (dom h)" "finite K" "run_valid cs K" "card K + length cs < 2 ^ 64" for h zsl and K :: "('s \<times> bytes) set"
    using that
  proof (induction cs arbitrary: h zsl K)
    case (Cons c cs)
    have len: "Suc (card K) < 2 ^ 64" using Cons.prems(5) by simp
    have v: "zsl_valid c K" using Cons.prems(4) by simp
    obtain h1 zsl1 where e: "zsl_exec E alloc c h zsl = Some (h1, zsl1, snd (zset_exec c K))"
      "zsl_holds E base h1 zsl1 (fst (zset_exec c K))" "finite (dom h1)"
      using zsl_exec_sim [OF assms(1) Cons.prems(1,2) v len] by blast
    have f: "finite (fst (zset_exec c K))" "card (fst (zset_exec c K)) + length cs < 2 ^ 64"
      using zset_exec_card [OF Cons.prems(3), of c] Cons.prems(5) by simp_all
    have rv: "run_valid cs (fst (zset_exec c K))" using Cons.prems(4) by simp
    obtain h2 zsl2 where "zsl_run E alloc cs h1 zsl1 = Some (h2, zsl2, snd (zset_run cs (fst (zset_exec c K))))"
      "zsl_holds E base h2 zsl2 (fst (zset_run cs (fst (zset_exec c K))))" using Cons.IH [OF e(2,3) f(1) rv f(2)] by blast
    then show ?case using e(1) by (simp add: case_prod_beta Let_def)
  qed simp
  moreover have "zsl_holds E base h0 zsl0 {}" using zsl_create_inv [OF assms(4)] by (auto simp: zsl_holds_def)
  moreover have "finite (dom h0)" using assms(4) by (auto simp: zslCreate_def zslCreateNode_def)
  ultimately show ?thesis using assms(2,3) by simp
qed

definition unit_env :: zsl_env where
  "unit_env = \<lparr>usable_size = (\<lambda>_. 64), sdsAllocSize = (\<lambda>e. of_nat (length e))\<rparr>"

lemma zsl_least_allocator: "zsl_allocator (\<lambda>h. LEAST a. h a = None)"
  unfolding zsl_allocator_def
proof (intro allI impI)
  fix h :: "'a zsl_heap"
  assume "finite (dom h)"
  then obtain a where "h a = None" by (metis ex_new_if_finite infinite_UNIV_nat domIff)
  then show "h (LEAST a. h a = None) = None" by (rule LeastI)
qed

theorem zskiplist_refines_set_witness:
  "\<exists>h zsl. zsl_run unit_env (\<lambda>h. LEAST a. h a = None)
      [ZInsert [2 ^ 30] 5 [97], ZInsert [1, 2 ^ 30] 3 [98], ZUpdate [2 ^ 30] 5 [97] 1, ZDelete 3 [98], ZDelete 7 [99]]
      (fst (zslCreate unit_env Map.empty 40 0)) (snd (zslCreate unit_env (Map.empty :: int zsl_heap) 40 0)) =
    Some (h, zsl, [True, True, True, True, False]) \<and> zsl_holds unit_env 40 h zsl {(1 :: int, [97])}"
proof -
  let ?cs = "[ZInsert [2 ^ 30] (5 :: int) [97], ZInsert [1, 2 ^ 30] 3 [98], ZUpdate [2 ^ 30] 5 [97] 1, ZDelete 3 [98], ZDelete 7 [99]]"
  have v: "run_valid ?cs {}" "length ?cs < 2 ^ 64" by (simp_all add: zslRandomLevel_def threshold_def)
  have z: "zset_run ?cs {} = ({(1, [97])}, [True, True, True, True, False])" by auto
  show ?thesis using zskiplist_refines_set [OF zsl_least_allocator v prod.collapse [symmetric], of unit_env 40 0]
    unfolding z fst_conv snd_conv .
qed

end
