(* ===== verification/Zskiplist_Props.thy ===== *)
theory Zskiplist_Props
  imports Zskiplist_Set
begin

text \<open>
  The queries on a skip list and the deletions of ranges, stated over the set of pairs that the list
  holds: ranks count the pairs up to an element, ranges are the pairs between two bounds, and the release of
  the list gives back all of its memory.
\<close>

section \<open>The order of the pairs\<close>

definition node_key :: "'s zsl_heap \<Rightarrow> nat \<Rightarrow> ('s \<times> bytes) option" where
  "node_key h a = do { n \<leftarrow> h a; e \<leftarrow> zn_ele n; Some (zn_score n, e) }"

lemma node_key_nth:
  assumes "zsl_rep h zsl xs" "j < length xs"
  shows "node_key h (fst (xs ! j)) = Some (zkey (xs ! j))"
  using data_ok_nth [OF zsl_repD(2) [OF assms(1)] assms(2)] by (auto simp: node_key_def)

lemma node_keyD: "node_key h a = Some k \<Longrightarrow> \<exists>n. h a = Some n \<and> zn_ele n = Some (snd k) \<and> zn_score n = fst k"
  by (auto simp: node_key_def split: Option.bind_splits)

lemma keys_sorted:
  fixes xs :: "('s::linorder) zitem list"
  assumes "sorted_wrt (<) (map zkey xs)"
  shows "map zkey xs = sorted_list_of_set (zkey ` set xs)" "card (zkey ` set xs) = length xs"
proof -
  have s: "sorted (map zkey xs)" "distinct (map zkey xs)" using assms by (simp_all add: strict_sorted_iff)
  show "map zkey xs = sorted_list_of_set (zkey ` set xs)" using sorted_list_of_set.idem_if_sorted_distinct [OF s] by simp
  show "card (zkey ` set xs) = length xs" using distinct_card [OF s(2)] by simp
qed

lemma holdsE:
  assumes "zsl_holds E base h zsl K"
  obtains xs where "zsl_inv E base h zsl xs" "zsl_rep h zsl xs" "K = zkey ` set xs" "sorted_wrt (<) (map zkey xs)"
    "map zkey xs = sorted_list_of_set K" "card K = length xs"
proof -
  obtain xs where i: "zsl_inv E base h zsl xs" and K: "K = zkey ` set xs" using assms by (auto simp: zsl_holds_def)
  have s: "sorted_wrt (<) (map zkey xs)" by (rule zsl_repD(13) [OF zsl_inv_rep [OF i]])
  show thesis by (rule that [OF i zsl_inv_rep [OF i] K s]) (simp_all add: K keys_sorted [OF s])
qed

text \<open>A list with three pairs, one of which reaches the second level.\<close>

definition three_list :: zskiplist where
  "three_list = \<lparr>z_header = 0, z_tail = Some 3, z_length = 3, z_level = 2, z_alloc_size = 299\<rparr>"

definition three_heap :: "int zsl_heap" where
  "three_heap =
     [0 \<mapsto> \<lparr>zn_ele = None, zn_score = 0, zn_backward = None,
            zn_level = \<lparr>lv_forward = Some 1, lv_span = 1\<rparr> # \<lparr>lv_forward = Some 2, lv_span = 2\<rparr> #
              replicate 30 \<lparr>lv_forward = None, lv_span = 0\<rparr>\<rparr>,
      1 \<mapsto> \<lparr>zn_ele = Some [97], zn_score = 1, zn_backward = None, zn_level = [\<lparr>lv_forward = Some 2, lv_span = 1\<rparr>]\<rparr>,
      2 \<mapsto> \<lparr>zn_ele = Some [98], zn_score = 2, zn_backward = Some 1,
            zn_level = [\<lparr>lv_forward = Some 3, lv_span = 1\<rparr>, \<lparr>lv_forward = None, lv_span = 1\<rparr>]\<rparr>,
      3 \<mapsto> \<lparr>zn_ele = Some [99], zn_score = 2, zn_backward = Some 2, zn_level = [\<lparr>lv_forward = None, lv_span = 0\<rparr>]\<rparr>]"

lemma three_holds: "zsl_holds unit_env 40 three_heap three_list {(1, [97]), (2, [98]), (2, [99])}"
proof -
  let ?xs = "[(1, (1, [97]), 1), (2, (2, [98]), 2), (3, (2, [99]), 1)] :: int zitem list"
  have "zsl_rep three_heap three_list ?xs"
    by (rule zsl_repI)
      (auto simp: three_heap_def three_list_def zdata_def get_level_def nth_Cons' less_2_cases_iff split: if_splits)
  then have "zsl_inv unit_env 40 three_heap three_list ?xs" by (simp add: zsl_inv_def unit_env_def three_list_def)
  then show ?thesis unfolding zsl_holds_def by (intro exI [of _ ?xs]) simp
qed

lemma three_sorted: "sorted_list_of_set {(1 :: int, [97 :: byte]), (2, [98]), (2, [99])} = [(1, [97]), (2, [98]), (2, [99])]"
  using sorted_list_of_set.idem_if_sorted_distinct [of "[(1 :: int, [97 :: byte]), (2, [98]), (2, [99])]"] by simp

section \<open>Ranks\<close>

text \<open>
  The rank of an element that is in the list is the number of pairs up to it in the order of
  scores and strings, and 0 is returned for one that is not there.
\<close>

theorem zslGetRank_counts:
  assumes "zsl_holds E base h zsl K"
  shows "zslGetRank h zsl s e = Some (if (s, e) \<in> K then of_nat (card {k \<in> K. k \<le> (s, e)}) else 0)"
proof -
  obtain xs where r: "zsl_rep h zsl xs" and K: "K = zkey ` set xs" and s: "sorted_wrt (<) (map zkey xs)"
    using holdsE [OF assms] by metis
  show ?thesis
  proof (cases rule: key_split [OF s, of "(s, e)"])
    case (1 ys zs)
    then show ?thesis using zsl_rank_absent [OF r [unfolded 1(1)] 1(2,3)] keys_absent [of ys "(s, e)" zs, OF 1(2,3)] K by simp
  next
    case (2 ys x k zs)
    let ?ys = "ys @ [(x, (s, e), k)]"
    have "zkey y \<le> (s, e)" if "y \<in> set ?ys" for y using that 2(2) [of y] by (auto simp del: less_eq_prod_simp less_prod_simp)
    moreover have "\<not> zkey z \<le> (s, e)" if "z \<in> set zs" for z using 2(3) [OF that] by (simp add: not_le del: less_eq_prod_simp less_prod_simp)
    moreover have "set xs = set ?ys \<union> set zs" using 2(1) by auto
    ultimately have u: "{k \<in> K. k \<le> (s, e)} = zkey ` set ?ys" unfolding K by blast
    have "sorted_wrt (<) (map zkey ?ys)" using s 2(1) by (simp add: sorted_wrt_append del: less_prod_simp)
    then have "card {k \<in> K. k \<le> (s, e)} = Suc (length ys)" unfolding u by (simp only: keys_sorted(2)) simp
    moreover have "(s, e) \<in> K" using K 2(1) by force
    ultimately show ?thesis using zsl_rank_present [OF r [unfolded 2(1)] 2(2,3)] by simp
  qed
qed

theorem zslGetRank_counts_witness:
  "zslGetRank three_heap three_list 2 [98] = Some 2 \<and> zslGetRank three_heap three_list 3 [97] = Some 0"
proof -
  have "{k \<in> {(1 :: int, [97 :: byte]), (2, [98]), (2, [99])}. k \<le> (2, [98])} = {(1, [97]), (2, [98])}" by auto
  then show ?thesis using zslGetRank_counts [OF three_holds, of 2 "[98]"] zslGetRank_counts [OF three_holds, of 3 "[97]"] by simp
qed

text \<open>
  The element of a rank between 1 and the number of pairs is the one at that place of the order,
  and there is none of a higher rank. Rank 0 is the header, which holds no element.
\<close>

theorem zslGetElementByRank_nth:
  assumes "zsl_holds E base h zsl K"
  shows "\<exists>p. zslGetElementByRank h zsl rank = Some p \<and>
    (if rank = 0 then p = Some (z_header zsl) else map_option (node_key h) p =
      (if unat rank \<le> card K then Some (Some (sorted_list_of_set K ! (unat rank - 1))) else None))"
proof -
  obtain xs where r: "zsl_rep h zsl xs" and l: "map zkey xs = sorted_list_of_set K" and c: "card K = length xs"
    using holdsE [OF assms] by metis
  have g: "zslGetElementByRank h zsl rank =
      Some (if unat rank < length (zsl_nodes zsl xs) then Some (fst (zsl_nodes zsl xs ! unat rank)) else None)"
    using zsl_by_rank_from [OF r, of 0 rank] zsl_repD(6) [OF r] by (simp add: zslGetElementByRank_def del: nth_Cons)
  show ?thesis
  proof (cases "unat rank")
    case 0
    then show ?thesis using g by (auto simp: unat_eq_0)
  next
    case (Suc j)
    then have n0: "rank \<noteq> 0" by auto
    have "node_key h (fst (zsl_nodes zsl xs ! unat rank)) = Some (sorted_list_of_set K ! j)" if j: "j < length xs"
      using node_key_nth [OF r j] node_addr [OF j, of zsl] nth_map [OF j, of zkey] l Suc by simp
    then show ?thesis using g n0 Suc c by simp
  qed
qed

lemma zslGetElementByRank_nth_example:
  "\<exists>a. zslGetElementByRank three_heap three_list 3 = Some (Some a) \<and> node_key three_heap a = Some (2, [99])"
  using zslGetElementByRank_nth [OF three_holds, of 3] by (auto simp: three_sorted)

section \<open>Ranges\<close>

text \<open>The pairs of a set that the two bounds admit, in order.\<close>

definition pairs_in :: "(('s::linorder) \<times> bytes \<Rightarrow> bool) \<Rightarrow> ('s \<times> bytes) set \<Rightarrow> ('s \<times> bytes) list" where
  "pairs_in P K = filter P (sorted_list_of_set K)"

lemma inside_pairs:
  assumes "map zkey xs = sorted_list_of_set K"
  shows "map zkey (seg_inside G M xs) = pairs_in (\<lambda>k. G k \<and> M k) K"
  by (simp add: pairs_in_def seg_inside_def assms [symmetric] filter_map comp_def)

lemma seq_nth_map: "seq_nth (map f xs) n = map_option f (seq_nth xs n)"
  by (auto simp: seq_nth_def)

lemma seq_nth_in: "seq_nth xs n = Some x \<Longrightarrow> x \<in> set xs"
  by (auto simp: seq_nth_def split: if_splits)

lemma seq_nth_keys:
  assumes r: "zsl_rep h zsl xs" and l: "map zkey xs = sorted_list_of_set K"
  shows "map_option (\<lambda>x. node_key h (fst x)) (seq_nth (seg_inside G M xs) n) = map_option Some (seq_nth (pairs_in (\<lambda>k. G k \<and> M k) K) n)"
proof -
  have "node_key h (fst x) = Some (zkey x)" if "seq_nth (seg_inside G M xs) n = Some x" for x
    using seq_nth_in [OF that] node_key_nth [OF r] by (auto simp: seg_inside_def in_set_conv_nth)
  then show ?thesis unfolding inside_pairs [OF l, symmetric] seq_nth_map by (cases "seq_nth (seg_inside G M xs) n") auto
qed

definition score_in :: "('s::linorder) zrangespec \<Rightarrow> 's \<times> bytes \<Rightarrow> bool" where
  "score_in spec k \<longleftrightarrow>
     (zr_min spec < fst k \<or> \<not> zr_minex spec \<and> fst k = zr_min spec) \<and> (fst k < zr_max spec \<or> \<not> zr_maxex spec \<and> fst k = zr_max spec)"

lemma score_in_bounds: "score_in = (\<lambda>spec k. zslValueGteMin (fst k) spec \<and> zslValueLteMax (fst k) spec)"
  by (auto simp: fun_eq_iff score_in_def zslValueGteMin_def zslValueLteMax_def)

definition lex_in :: "zlexrangespec \<Rightarrow> 's \<times> bytes \<Rightarrow> bool" where
  "lex_in spec k \<longleftrightarrow> zslLexValueGteMin (snd k) spec \<and> zslLexValueLteMax (snd k) spec"

lemma is_in_range:
  "zslIsInRange h zsl spec = Some False \<and> seg_inside (\<lambda>k. zslValueGteMin (fst k) spec) (\<lambda>k. zslValueLteMax (fst k) spec) xs = [] \<or>
   zslIsInRange h zsl spec = ends_in_range (score_gte spec) (score_lte spec) h zsl \<and>
     (\<forall>k \<in> UNIV. \<not> zslValueGteMin (fst k) spec \<longrightarrow> zslValueLteMax (fst k) spec)"
proof (cases "zr_min spec > zr_max spec \<or> (zr_min spec = zr_max spec \<and> (zr_minex spec \<or> zr_maxex spec))")
  case True
  then have "\<not> (zslValueGteMin v spec \<and> zslValueLteMax v spec)" for v by (auto simp: zslValueGteMin_def zslValueLteMax_def)
  then show ?thesis using True by (simp add: zslIsInRange_def seg_inside_def filter_empty_conv)
next
  case False
  then have "\<not> zslValueGteMin v spec \<Longrightarrow> zslValueLteMax v spec" for v
    by (auto simp: zslValueGteMin_def zslValueLteMax_def not_less not_le split: if_splits)
  then show ?thesis using False by (auto simp: zslIsInRange_def)
qed

lemma nth_in_range_pairs:
  assumes "is_in = Some (map_option fst (seq_nth (seg_inside G M xs) n))" "zsl_rep h zsl xs" "map zkey xs = sorted_list_of_set K"
  shows "\<exists>p. is_in = Some p \<and> map_option (node_key h) p = map_option Some (seq_nth (pairs_in (\<lambda>k. G k \<and> M k) K) n)"
  using assms(1) seq_nth_keys [OF assms(2,3), of G M n] by (simp add: option.map_comp comp_def)

text \<open>
  The search for the n-th element of a range of scores, counted from the first for n \<open>\<ge>\<close> 0 and
  from the last for n < 0, returns exactly that element, and none when the range has too few,
  whichever of its ways it takes: through the links, through the back pointers or by rank. The index is a C
  \<^verbatim>\<open>long\<close> other than the least one, whose negation is not a \<^verbatim>\<open>long\<close>.
\<close>

theorem zslNthInRange_nth:
  assumes "zsl_holds E base h zsl K" "card K < 2 ^ 63" "- (2 ^ 63) < n" "n < 2 ^ 63"
  shows "\<exists>p. zslNthInRange h zsl spec n = Some p \<and>
    map_option (node_key h) p = map_option Some (seq_nth (pairs_in (score_in spec) K) n)"
proof -
  obtain xs where r: "zsl_rep h zsl xs" and l: "map zkey xs = sorted_list_of_set K" and c: "card K = length xs"
    using holdsE [OF assms(1)] by metis
  have len: "length xs < 2 ^ 63" using assms(2) c by simp
  have "zslNthInRange h zsl spec n = Some (map_option fst (seq_nth (seg_inside (\<lambda>k. zslValueGteMin (fst k) spec) (\<lambda>k. zslValueLteMax (fst k) spec) xs) n))"
    unfolding zslNthInRange_def by (rule score_range.nth_in_range_at [OF r subset_UNIV assms(4) len is_in_range])
  then show ?thesis using nth_in_range_pairs [OF _ r l] unfolding score_in_bounds by blast
qed

theorem zslNthInRange_nth_witness:
  "\<exists>a. zslNthInRange three_heap three_list \<lparr>zr_min = 1, zr_max = 2, zr_minex = True, zr_maxex = False\<rparr> (- 2) = Some (Some a) \<and>
    node_key three_heap a = Some (2, [98])"
  using zslNthInRange_nth [OF three_holds, of "- 2" "\<lparr>zr_min = 1, zr_max = 2, zr_minex = True, zr_maxex = False\<rparr>"]
  by (auto simp: pairs_in_def three_sorted score_in_def zslValueGteMin_def zslValueLteMax_def seq_nth_def)

text \<open>The same for ranges of strings: an interval whose bounds are not in order is empty.\<close>

lemma lex_bounds:
  assumes "sdscmplex (zx_min spec) (zx_max spec) > 0 \<or> (sdscmplex (zx_min spec) (zx_max spec) = 0 \<and> (zx_minex spec \<or> zx_maxex spec))"
  shows "\<not> (zslLexValueGteMin v spec \<and> zslLexValueLteMax v spec)"
  using assms by (cases "zx_min spec"; cases "zx_max spec")
    (auto simp: zslLexValueGteMin_def zslLexValueLteMax_def sdscmplex_def split: if_splits)

lemma lex_bounds_meet:
  assumes "\<not> (sdscmplex (zx_min spec) (zx_max spec) > 0 \<or> (sdscmplex (zx_min spec) (zx_max spec) = 0 \<and> (zx_minex spec \<or> zx_maxex spec)))"
    and "\<not> zslLexValueGteMin v spec"
  shows "zslLexValueLteMax v spec"
  using assms by (cases "zx_min spec"; cases "zx_max spec")
    (auto simp: zslLexValueGteMin_def zslLexValueLteMax_def sdscmplex_def split: if_splits)

lemma is_in_lex_range:
  "zslIsInLexRange h zsl spec = Some False \<and> seg_inside (\<lambda>k. zslLexValueGteMin (snd k) spec) (\<lambda>k. zslLexValueLteMax (snd k) spec) xs = [] \<or>
   zslIsInLexRange h zsl spec = ends_in_range (lex_gte spec) (lex_lte spec) h zsl \<and>
     (\<forall>k \<in> K. \<not> zslLexValueGteMin (snd k) spec \<longrightarrow> zslLexValueLteMax (snd k) spec)"
proof (cases "sdscmplex (zx_min spec) (zx_max spec) > 0 \<or> (sdscmplex (zx_min spec) (zx_max spec) = 0 \<and> (zx_minex spec \<or> zx_maxex spec))")
  case True
  then show ?thesis using lex_bounds [OF True] by (simp add: zslIsInLexRange_def seg_inside_def filter_empty_conv)
next
  case False
  then show ?thesis using lex_bounds_meet [OF False] by (auto simp: zslIsInLexRange_def Let_def)
qed

text \<open>
  The search for the n-th element of a range of strings does the same, in a sorted set whose
  elements have all the same score: the sorted set is then ordered by the strings.
\<close>

theorem zslNthInLexRange_nth:
  assumes "zsl_holds E base h zsl K" "card K < 2 ^ 63" "- (2 ^ 63) < n" "n < 2 ^ 63" "\<And>k. k \<in> K \<Longrightarrow> fst k = s"
  shows "\<exists>p. zslNthInLexRange h zsl spec n = Some p \<and>
    map_option (node_key h) p = map_option Some (seq_nth (pairs_in (lex_in spec) K) n)"
proof -
  obtain xs where r: "zsl_rep h zsl xs" and K: "K = zkey ` set xs" and l: "map zkey xs = sorted_list_of_set K" and c: "card K = length xs"
    using holdsE [OF assms(1)] by metis
  have len: "length xs < 2 ^ 63" using assms(2) c by simp
  have sc: "zkey ` set xs \<subseteq> {k. fst k = s}" using assms(5) K by blast
  have "zslNthInLexRange h zsl spec n = Some (map_option fst (seq_nth (seg_inside (\<lambda>k. zslLexValueGteMin (snd k) spec) (\<lambda>k. zslLexValueLteMax (snd k) spec) xs) n))"
    unfolding zslNthInLexRange_def by (rule lex_range.nth_in_range_at [OF r sc assms(4) len is_in_lex_range])
  then show ?thesis using nth_in_range_pairs [OF _ r l] unfolding lex_in_def by blast
qed

section \<open>Deletion of ranges\<close>

lemma inside_keys:
  "zkey ` set (filter (\<lambda>x. \<not> P (zkey x)) xs) = zkey ` set xs - {k. P k}"
  by auto

lemma inside_elements:
  assumes "map zkey xs = sorted_list_of_set K"
  shows "map (\<lambda>b. snd (zkey b)) (seg_inside G M xs) = map snd (pairs_in (\<lambda>k. G k \<and> M k) K)"
    "length (seg_inside G M xs) = length (pairs_in (\<lambda>k. G k \<and> M k) K)"
  by (simp_all add: inside_pairs [OF assms, symmetric])

text \<open>
  (C31) Deleting a range of scores removes the pairs with a score in the range from the skip list and
  keeps the others; it removes the same elements from the hash table, each once and in order, and
  returns their number.
\<close>

theorem zslDeleteRangeByScore_deletes:
  assumes "zsl_holds E base h zsl K" "del_all del (map snd (pairs_in (score_in spec) K)) d = Some d'"
  shows "\<exists>h' zsl'. zslDeleteRangeByScore E del h zsl spec d = Some (h', zsl', d', of_nat (length (pairs_in (score_in spec) K))) \<and>
    zsl_holds E base h' zsl' (K - {k. score_in spec k})"
proof -
  obtain xs where i: "zsl_inv E base h zsl xs" and K: "K = zkey ` set xs" and l: "map zkey xs = sorted_list_of_set K"
    using holdsE [OF assms(1)] by metis
  have d: "del_all del (map (\<lambda>b. snd (zkey b)) (seg_inside (\<lambda>k. zslValueGteMin (fst k) spec) (\<lambda>k. zslValueLteMax (fst k) spec) xs)) d = Some d'"
    using assms(2) inside_elements(1) [OF l] unfolding score_in_bounds by simp
  obtain h' zsl' where "zslDeleteRangeByScore E del h zsl spec d = Some (h', zsl', d', of_nat (length (pairs_in (score_in spec) K)))"
    "zsl_inv E base h' zsl' (filter (\<lambda>x. \<not> score_in spec (zkey x)) xs)"
    using score_range.delete_range_inside [OF i subset_UNIV d] inside_elements(2) [OF l]
    unfolding zslDeleteRangeByScore_def score_in_bounds by auto
  then show ?thesis unfolding zsl_holds_def K using inside_keys [of "score_in spec" xs] by blast
qed

theorem zslDeleteRangeByScore_deletes_witness:
  "\<exists>h' zsl'. zslDeleteRangeByScore unit_env (\<lambda>e d. Some (d @ [e])) three_heap three_list
      \<lparr>zr_min = 2, zr_max = 9, zr_minex = False, zr_maxex = False\<rparr> [] = Some (h', zsl', [[98], [99]], 2) \<and>
    zsl_holds unit_env 40 h' zsl' {(1, [97])}"
proof -
  let ?s = "\<lparr>zr_min = 2, zr_max = 9, zr_minex = False, zr_maxex = False\<rparr> :: int zrangespec"
  have p: "pairs_in (score_in ?s) {(1, [97]), (2, [98]), (2, [99])} = [(2, [98]), (2, [99])]"
    by (simp add: pairs_in_def three_sorted score_in_def zslValueGteMin_def zslValueLteMax_def)
  have k: "{(1, [97]), (2, [98]), (2, [99])} - {k. score_in ?s k} = {(1, [97])}"
    by (auto simp: score_in_def zslValueGteMin_def zslValueLteMax_def)
  show ?thesis using zslDeleteRangeByScore_deletes [OF three_holds, of "\<lambda>e d. Some (d @ [e])" ?s "[]" "[[98], [99]]"]
    unfolding p k by simp
qed

text \<open>Deleting a range of strings does the same for the elements in the range, when all scores are the same.\<close>

theorem zslDeleteRangeByLex_deletes:
  assumes "zsl_holds E base h zsl K" "\<And>k. k \<in> K \<Longrightarrow> fst k = s" "del_all del (map snd (pairs_in (lex_in spec) K)) d = Some d'"
  shows "\<exists>h' zsl'. zslDeleteRangeByLex E del h zsl spec d = Some (h', zsl', d', of_nat (length (pairs_in (lex_in spec) K))) \<and>
    zsl_holds E base h' zsl' (K - {k. lex_in spec k})"
proof -
  obtain xs where i: "zsl_inv E base h zsl xs" and K: "K = zkey ` set xs" and l: "map zkey xs = sorted_list_of_set K"
    using holdsE [OF assms(1)] by metis
  have sc: "zkey ` set xs \<subseteq> {k. fst k = s}" using assms(2) K by blast
  have d: "del_all del (map (\<lambda>b. snd (zkey b)) (seg_inside (\<lambda>k. zslLexValueGteMin (snd k) spec) (\<lambda>k. zslLexValueLteMax (snd k) spec) xs)) d = Some d'"
    using assms(3) inside_elements(1) [OF l] unfolding lex_in_def by simp
  obtain h' zsl' where "zslDeleteRangeByLex E del h zsl spec d = Some (h', zsl', d', of_nat (length (pairs_in (lex_in spec) K)))"
    "zsl_inv E base h' zsl' (filter (\<lambda>x. \<not> lex_in spec (zkey x)) xs)"
    using lex_range.delete_range_inside [OF i sc d] inside_elements(2) [OF l]
    unfolding zslDeleteRangeByLex_def lex_in_def by auto
  then show ?thesis unfolding zsl_holds_def K using inside_keys [of "lex_in spec" xs] by blast
qed

text \<open>Ranks count from 1; a first rank of 0 is the same as 1.\<close>

lemma before_rank_cuts:
  assumes len: "length N \<le> 2 ^ 64" and c: "c = min (length N) (max 1 (unat start))"  and N: "N \<noteq> []"
  shows "cuts (rank_before start) h 0 N c"
  unfolding cuts_def
proof (intro conjI allI impI)
  fix r j assume r: "r < c" "r < j" "j < length N"
  have "(0 + of_nat r) + of_nat (j - r) = (of_nat j :: 64 word)" using r(2) by (simp add: of_nat_diff)
  moreover have "unat (of_nat j :: 64 word) = j" using r(3) len by (intro unat_small) simp
  ultimately have "(0 + of_nat r) + of_nat (j - r) < start \<longleftrightarrow> j < unat start" by (simp add: word_less_nat_alt)
  then show "rank_before start (0 + of_nat r) \<lparr>lv_forward = Some (fst (N ! j)), lv_span = of_nat (j - r)\<rparr> (h (fst (N ! j))) = Some (j < c)"
    using r c by (auto simp: rank_before_def)
qed (use c in simp)

lemma unat_widen: "unat (ucast (w :: 32 word) :: 64 word) = unat w"
proof -
  have "unat w < 2 ^ 32" using unsigned_less [of w, where ?'a = nat] by simp
  then show ?thesis by (simp add: unsigned_ucast_eq take_bit_nat_eq_self)
qed

definition rank_seg :: "nat \<Rightarrow> nat \<Rightarrow> 'a list \<Rightarrow> 'a list" where
  "rank_seg start stop xs = drop (start - 1) (take stop xs)"

lemma rank_segments: "xs = take (start - 1) xs @ rank_seg start stop xs @ drop (max (start - 1) stop) xs"
proof (cases "start - 1 \<le> stop")
  case True
  then have "take (start - 1) xs @ rank_seg start stop xs = take stop xs"
    using append_take_drop_id [of "start - 1" "take stop xs"] by (simp add: rank_seg_def min_def)
  then show ?thesis using True by (metis append_assoc append_take_drop_id max_def)
qed (simp add: rank_seg_def)

lemma rank_cond_cuts:
  assumes len: "length xs < 2 ^ 64" and s: "start - 1 \<le> length xs"
  shows "cond_cuts (\<lambda>removed n. Some (of_nat (start - 1) + 1 + removed \<le> stop)) 0 (rank_seg start (unat stop) xs) (drop (max (start - 1) (unat stop)) xs)"
  unfolding cond_cuts_def
proof (intro allI impI)
  fix i and n :: "'s zskiplistNode"
  let ?B = "rank_seg start (unat stop) xs"
  assume i: "i \<le> length ?B" "i < length (?B @ drop (max (start - 1) (unat stop)) xs)"
  have l: "length ?B = min (length xs) (unat stop) - (start - 1)" by (simp add: rank_seg_def min.commute)
  have e: "of_nat (start - 1) + 1 + (0 + of_nat i) = (of_nat (start - 1 + 1 + i) :: 64 word)" by simp
  have "start - 1 + 1 + i < 2 ^ 64" using i len s unfolding l length_append length_drop by linarith
  then have "unat (of_nat (start - 1 + 1 + i) :: 64 word) = start - 1 + 1 + i" by (rule unat_small)
  then have "of_nat (start - 1) + 1 + (0 + of_nat i) \<le> stop \<longleftrightarrow> start - 1 + 1 + i \<le> unat stop" unfolding e word_le_nat_alt by simp
  moreover have "start - 1 + 1 + i \<le> unat stop \<longleftrightarrow> i < length ?B" using i unfolding l length_append length_drop by linarith
  ultimately show "Some (of_nat (start - 1) + 1 + (0 + of_nat i) \<le> stop) = Some (i < length ?B)" by simp
qed

text \<open>
  Deleting a range of ranks removes the pairs whose place in the order is in the range, counted
  from 1, from the skip list and from the hash table, and returns their number. The bounds have 32 bits, so that
  pairs behind the place \<open>2 ^ 32\<close> cannot be named.
\<close>

theorem zslDeleteRangeByRank_deletes:
  fixes start stop :: "32 word"
  assumes "zsl_holds E base h zsl K" "del_all del (map snd (rank_seg (unat start) (unat stop) (sorted_list_of_set K))) d = Some d'"
  shows "\<exists>h' zsl'. zslDeleteRangeByRank E del h zsl start stop d =
      Some (h', zsl', d', of_nat (length (rank_seg (unat start) (unat stop) (sorted_list_of_set K)))) \<and>
    zsl_holds E base h' zsl' (K - set (rank_seg (unat start) (unat stop) (sorted_list_of_set K)))"
proof -
  obtain xs where i: "zsl_inv E base h zsl xs" and r: "zsl_rep h zsl xs" and K: "K = zkey ` set xs"
    and s: "sorted_wrt (<) (map zkey xs)" and l: "map zkey xs = sorted_list_of_set K"
    using holdsE [OF assms(1)] by metis
  define A B C where "A = take (unat start - 1) xs" and "B = rank_seg (unat start) (unat stop) xs"
    and "C = drop (max (unat start - 1) (unat stop)) xs"
  have xs: "xs = A @ B @ C" unfolding A_def B_def C_def by (rule rank_segments)
  have Bk: "map zkey B = rank_seg (unat start) (unat stop) (sorted_list_of_set K)"
    by (simp add: B_def rank_seg_def drop_map take_map l [symmetric])
  have len: "length xs < 2 ^ 64" by (rule zsl_repD(12) [OF r])
  have u: "unat (ucast start :: 64 word) = unat start" "unat (ucast stop :: 64 word) = unat stop" by (rule unat_widen)+
  have cut: "cuts (rank_before (ucast start)) h 0 (zsl_nodes zsl (A @ B @ C)) (Suc (length A))"
    using len u(1) unfolding xs [symmetric] by (intro before_rank_cuts) (auto simp: A_def)
  have c: "cond_cuts ((\<lambda>traversed removed n. Some (traversed + 1 + removed \<le> ucast stop)) (of_nat (length A))) 0 B C"
  proof (cases "unat start - 1 \<le> length xs")
    case True
    then have a: "length A = unat start - 1" by (simp add: A_def min_def)
    show ?thesis unfolding a B_def C_def u(2) [symmetric] by (rule rank_cond_cuts [OF len True])
  qed (simp add: cond_cuts_def B_def C_def rank_seg_def)
  have d: "del_all del (map (\<lambda>b. snd (zkey b)) B) d = Some d'" using assms(2) unfolding Bk [symmetric] by (simp add: comp_def)
  obtain h' zsl' where z: "zslDeleteRangeByRank E del h zsl start stop d = Some (h', zsl', d', of_nat (length B))" "zsl_inv E base h' zsl' (A @ C)"
    using delete_segment_at [OF i [unfolded xs] cut, where cond = "\<lambda>traversed removed n. Some (traversed + 1 + removed \<le> ucast stop)", OF c d] unfolding zslDeleteRangeByRank_def by blast
  have "distinct (map zkey (A @ B @ C))" using s unfolding xs by (simp add: strict_sorted_iff)
  then have "zkey ` set (A @ C) = K - set (map zkey B)" unfolding K xs by auto
  then show ?thesis using z unfolding Bk [symmetric] zsl_holds_def length_map by blast
qed

theorem zslDeleteRangeByRank_deletes_witness:
  "\<exists>h' zsl'. zslDeleteRangeByRank unit_env (\<lambda>e d. Some (d @ [e])) three_heap three_list 2 2 [] = Some (h', zsl', [[98]], 1) \<and>
    zsl_holds unit_env 40 h' zsl' {(1, [97]), (2, [99])}"
proof -
  have p: "rank_seg (unat (2 :: 32 word)) (unat (2 :: 32 word)) (sorted_list_of_set {(1 :: int, [97 :: byte]), (2, [98]), (2, [99])}) = [(2, [98])]"
    by (simp add: rank_seg_def three_sorted)
  have k: "{(1 :: int, [97 :: byte]), (2, [98]), (2, [99])} - set [(2, [98])] = {(1, [97]), (2, [99])}" by auto
  show ?thesis using zslDeleteRangeByRank_deletes [OF three_holds, of "\<lambda>e d. Some (d @ [e])" 2 2 "[]" "[[98]]"]
    unfolding p k by simp
qed

section \<open>Release\<close>

lemma free_loop_at:
  assumes "distinct (map fst xs)" "data_ok h p xs"
    "\<And>A x zs. xs = A @ x # zs \<Longrightarrow> \<exists>l. get_level h (fst x) 0 = Some l \<and> lv_forward l = first_addr zs"
  shows "free_loop E h zsl (first_addr xs) = Some (h |` (- (fst ` set xs)), zsl\<lparr>z_alloc_size := z_alloc_size zsl - node_sizes E xs\<rparr>)"
  using assms
proof (induction xs arbitrary: h zsl p)
  case Nil
  have "h |` UNIV = h" by (simp add: restrict_map_def)
  then show ?case by (subst free_loop.simps) (simp add: first_addr_def)
next
  case (Cons x xs)
  obtain a s e k where x: "x = (a, (s, e), k)" by (cases x) auto
  obtain n where n: "h a = Some n" "zn_ele n = Some e" using Cons.prems(2) x by (auto simp: zdata_def)
  obtain l where l: "get_level h a 0 = Some l" "lv_forward l = first_addr xs" using Cons.prems(3) [of "[]" x xs] x by auto
  let ?h = "h(a := None)" and ?z = "zsl\<lparr>z_alloc_size := z_alloc_size zsl - sdsAllocSize E e - usable_size E a\<rparr>"
  have a: "a \<notin> fst ` set xs" using Cons.prems(1) x by simp
  have d: "data_ok ?h (Some a) xs" using Cons.prems(2) x a by (subst data_ok_frame [of xs ?h h]) (auto simp: zdata_def)
  have lv: "\<exists>l. get_level ?h (fst y) 0 = Some l \<and> lv_forward l = first_addr zs" if "xs = A @ y # zs" for A y zs
    using Cons.prems(3) [of "x # A" y zs] that a by (auto simp: get_level_def)
  have "free_loop E h zsl (first_addr (x # xs)) = free_loop E ?h ?z (first_addr xs)"
    using l n x by (subst free_loop.simps) (simp add: first_addr_def zslFreeNode_def)
  also have "\<dots> = Some (?h |` (- (fst ` set xs)), ?z\<lparr>z_alloc_size := z_alloc_size ?z - node_sizes E xs\<rparr>)"
    by (rule Cons.IH [OF _ d lv]) (use Cons.prems(1) in simp_all)
  also have "?h |` (- (fst ` set xs)) = h |` (- (fst ` set (x # xs)))" using x by (auto simp: restrict_map_def)
  finally show ?case using x by (simp add: algebra_simps)
qed

text \<open>
  Releasing a skip list ends, gives back the header and one node for each pair and nothing else,
  and leaves the count of its memory at the size of the list structure itself, which is what the
  assertion of the test build checks.
\<close>

theorem zslFree_releases:
  assumes "zsl_holds E base h zsl K"
  shows "\<exists>A. zslFree E h zsl = Some (h |` (- insert (z_header zsl) A), zsl\<lparr>z_alloc_size := base\<rparr>) \<and>
    z_header zsl \<notin> A \<and> bij_betw (node_key h) A (Some ` K)"
proof -
  obtain xs where i: "zsl_inv E base h zsl xs" and r: "zsl_rep h zsl xs" and K: "K = zkey ` set xs"
    and s: "sorted_wrt (<) (map zkey xs)" using holdsE [OF assms] by metis
  note R = zsl_repD [OF r]
  let ?h = "h(z_header zsl := None)" and ?z = "zsl\<lparr>z_alloc_size := z_alloc_size zsl - usable_size E (z_header zsl)\<rparr>"
  have d: "data_ok ?h None xs" using R(2,8) by (subst data_ok_frame [of xs ?h h]) (force simp: zdata_def)+
  have lv: "\<exists>l. get_level ?h (fst x) 0 = Some l \<and> lv_forward l = first_addr zs" if "xs = A @ x # zs" for A x zs
    using level_0 [OF r [unfolded that]] R(8) that by (auto simp: get_level_def)
  have l0: "get_level h (z_header zsl) 0 = Some (next_at 0 (ahs xs))" using R(3,5) by simp
  have "zslFree E h zsl = free_loop E ?h ?z (first_addr xs)" using l0 next_first [of h zsl "[]" xs] r by (simp add: zslFree_def)
  also have "\<dots> = Some (?h |` (- (fst ` set xs)), ?z\<lparr>z_alloc_size := z_alloc_size ?z - node_sizes E xs\<rparr>)"
    by (rule free_loop_at [OF R(9) d lv])
  also have "?h |` (- (fst ` set xs)) = h |` (- insert (z_header zsl) (fst ` set xs))" by (auto simp: restrict_map_def)
  finally have f: "zslFree E h zsl = Some (h |` (- insert (z_header zsl) (fst ` set xs)), zsl\<lparr>z_alloc_size := base\<rparr>)"
    using i by (simp add: zsl_inv_def)
  have nk: "node_key h (fst x) = Some (zkey x)" if "x \<in> set xs" for x using that node_key_nth [OF r] by (auto simp: in_set_conv_nth)
  have "inj_on zkey (set xs)" using s by (simp add: strict_sorted_iff distinct_map)
  then have "inj_on (node_key h) (fst ` set xs)" unfolding inj_on_def using nk by auto
  moreover have "node_key h ` fst ` set xs = Some ` K" unfolding K image_image using nk by (intro image_cong) auto
  ultimately show ?thesis using f R(8) unfolding bij_betw_def by blast
qed

theorem zslFree_releases_witness:
  "\<exists>A. zslFree unit_env three_heap three_list = Some (three_heap |` (- insert 0 A), three_list\<lparr>z_alloc_size := 40\<rparr>) \<and>
    0 \<notin> A \<and> bij_betw (node_key three_heap) A {Some (1, [97]), Some (2, [98]), Some (2, [99])}"
  using zslFree_releases [OF three_holds] by (simp add: three_list_def)

end
