(* ===== verification/Bitops.thy ===== *)
theory Bitops
  imports Util
begin

unbundle bit_operations_syntax

text \<open>
  Strings as arrays of bits, from \<^verbatim>\<open>bitops.c\<close>: integers of up to 64 bits at any bit offset, the overflow
  policies of \<^verbatim>\<open>BITFIELD\<close>, the parsing and execution of its subcommands, \<^verbatim>\<open>SETBIT\<close> and \<^verbatim>\<open>GETBIT\<close>, the search for the
  first bit with a value and the count of the set bits without vector instructions.

  A value of type \<^verbatim>\<open>uint64_t\<close> is a 64-bit word, one of type \<^verbatim>\<open>int64_t\<close> an integer in its range; the
  conversions between them are two's complement. An access behind the end of a string is \<open>None\<close>.
\<close>

section \<open>Integers in bit arrays\<close>

fun set_bits_loop :: "bytes \<Rightarrow> 64 word \<Rightarrow> nat \<Rightarrow> 64 word \<Rightarrow> bytes option" where
  "set_bits_loop p offset 0 v = Some p"
| "set_bits_loop p offset (Suc k) v =
     (let bitval = (if v AND push_bit k 1 \<noteq> 0 then 1 else 0 :: 64 word);
          byte = unat (drop_bit 3 offset);
          b = unat (7 - (offset AND 7))
      in if byte < length p
         then let byteval = ucast (p ! byte);
                  byteval1 = byteval AND NOT (push_bit b 1);
                  byteval2 = byteval1 OR push_bit b bitval
              in set_bits_loop (p[byte := ucast (byteval2 AND 255)]) (offset + 1) k v
         else None)"

definition setUnsignedBitfield :: "bytes \<Rightarrow> 64 word \<Rightarrow> nat \<Rightarrow> 64 word \<Rightarrow> bytes option" where
  "setUnsignedBitfield p offset bits v = set_bits_loop p offset bits v"

definition setSignedBitfield :: "bytes \<Rightarrow> 64 word \<Rightarrow> nat \<Rightarrow> int \<Rightarrow> bytes option" where
  "setSignedBitfield p offset bits v = setUnsignedBitfield p offset bits (word_of_int v)"

fun get_bits_loop :: "bytes \<Rightarrow> 64 word \<Rightarrow> nat \<Rightarrow> 64 word \<Rightarrow> 64 word option" where
  "get_bits_loop p offset 0 v = Some v"
| "get_bits_loop p offset (Suc k) v =
     (let byte = unat (drop_bit 3 offset);
          b = unat (7 - (offset AND 7))
      in if byte < length p
         then let bitval = drop_bit b (ucast (p ! byte)) AND 1
              in get_bits_loop p (offset + 1) k (push_bit 1 v OR bitval)
         else None)"

definition getUnsignedBitfield :: "bytes \<Rightarrow> 64 word \<Rightarrow> nat \<Rightarrow> 64 word option" where
  "getUnsignedBitfield p offset bits = get_bits_loop p offset bits 0"

definition getSignedBitfield :: "bytes \<Rightarrow> 64 word \<Rightarrow> nat \<Rightarrow> int option" where
  "getSignedBitfield p offset bits = do {
     u \<leftarrow> getUnsignedBitfield p offset bits;
     Some (sint (if bits < 64 \<and> u AND push_bit (bits - 1) 1 \<noteq> 0 then u OR push_bit bits (- 1) else u))
   }"

section \<open>Overflow\<close>

datatype owtype = BFOVERFLOW_WRAP | BFOVERFLOW_SAT | BFOVERFLOW_FAIL

text \<open>The results are the returned value and what is written to \<^verbatim>\<open>*limit\<close>, \<open>None\<close> if nothing is.\<close>

definition checkUnsignedBitfieldOverflow :: "64 word \<Rightarrow> int \<Rightarrow> nat \<Rightarrow> owtype \<Rightarrow> int \<times> 64 word option" where
  "checkUnsignedBitfieldOverflow v incr bits ow =
     (let mx = (if bits = 64 then - 1 else push_bit bits 1 - 1) :: 64 word;
          maxincr = sint (mx - v);
          minincr = sint (- v);
          wrapped = (v + word_of_int incr) AND NOT (push_bit bits (- 1))
      in if v > mx \<or> (incr > 0 \<and> incr > maxincr)
         then (case ow of
             BFOVERFLOW_WRAP \<Rightarrow> (1, Some wrapped)
           | BFOVERFLOW_SAT \<Rightarrow> (1, Some mx)
           | BFOVERFLOW_FAIL \<Rightarrow> (1, None))
         else if incr < 0 \<and> incr < minincr
         then (case ow of
             BFOVERFLOW_WRAP \<Rightarrow> (1, Some wrapped)
           | BFOVERFLOW_SAT \<Rightarrow> (- 1, Some 0)
           | BFOVERFLOW_FAIL \<Rightarrow> (- 1, None))
         else (0, None))"

definition checkSignedBitfieldOverflow :: "int \<Rightarrow> int \<Rightarrow> nat \<Rightarrow> owtype \<Rightarrow> int \<times> int option" where
  "checkSignedBitfieldOverflow v incr bits ow =
     (let mx = (if bits = 64 then INT64_MAX else push_bit (bits - 1) 1 - 1);
          mn = - mx - 1;
          maxincr = sint (word_of_int mx - word_of_int v :: 64 word);
          minincr = to_sint 64 (mn - v);
          msb = push_bit (bits - 1) 1 :: 64 word;
          c = word_of_int v + word_of_int incr :: 64 word;
          mask = push_bit bits (- 1) :: 64 word;
          wrapped = sint (if bits < 64 then if c AND msb \<noteq> 0 then c OR mask else c AND NOT mask else c)
      in if v > mx \<or> (bits \<noteq> 64 \<and> incr > maxincr) \<or> (v \<ge> 0 \<and> incr > 0 \<and> incr > maxincr)
         then (case ow of
             BFOVERFLOW_WRAP \<Rightarrow> (1, Some wrapped)
           | BFOVERFLOW_SAT \<Rightarrow> (1, Some mx)
           | BFOVERFLOW_FAIL \<Rightarrow> (1, None))
         else if v < mn \<or> (bits \<noteq> 64 \<and> incr < minincr) \<or> (v < 0 \<and> incr < 0 \<and> incr < minincr)
         then (case ow of
             BFOVERFLOW_WRAP \<Rightarrow> (1, Some wrapped)
           | BFOVERFLOW_SAT \<Rightarrow> (- 1, Some mn)
           | BFOVERFLOW_FAIL \<Rightarrow> (- 1, None))
         else (0, None))"

section \<open>Arguments\<close>

datatype bit_error = InvalidOffset | InvalidType | NotAnInteger | InvalidBit | InvalidOverflow | SyntaxError | ReadOnlyOnly | WrongType

text \<open>The limit \<^verbatim>\<open>proto_max_bulk_len\<close> on the size of strings, and \<^verbatim>\<open>mustObeyClient\<close>.\<close>

record bit_limits =
  proto_max_bulk_len :: int
  mustObeyClient :: bool

definition getBitOffsetFromArgument :: "bit_limits \<Rightarrow> bytes \<Rightarrow> bool \<Rightarrow> nat \<Rightarrow> bit_error + 64 word" where
  "getBitOffsetFromArgument lim p hash bits =
     (let usehash = (p \<noteq> [] \<and> hd p = 35 \<and> hash \<and> bits > 0) in
      case string2ll (if usehash then tl p else p) of
        None \<Rightarrow> Inl InvalidOffset
      | Some l \<Rightarrow>
          let loffset = (if usehash then to_sint 64 (l * int bits) else l) in
          if loffset < 0 \<or> (\<not> mustObeyClient lim \<and> drop_bit 3 loffset \<ge> proto_max_bulk_len lim)
          then Inl InvalidOffset
          else Inr (word_of_int loffset))"

text \<open>Whether the type is signed, and its width.\<close>

definition getBitfieldTypeFromArgument :: "bytes \<Rightarrow> bit_error + (bool \<times> nat)" where
  "getBitfieldTypeFromArgument p =
     (if p = [] \<or> (hd p \<noteq> 105 \<and> hd p \<noteq> 117) then Inl InvalidType
      else let sign = (hd p = 105) in
        case string2ll (c_str (tl p)) of
          None \<Rightarrow> Inl InvalidType
        | Some llbits \<Rightarrow>
            if llbits < 1 \<or> (sign \<and> llbits > 64) \<or> (\<not> sign \<and> llbits > 63) then Inl InvalidType
            else Inr (sign, nat llbits))"

section \<open>\<^verbatim>\<open>SETBIT\<close> and \<^verbatim>\<open>GETBIT\<close>\<close>

text \<open>What a key holds: nothing, a string or a value of another type.\<close>

datatype keyval = NoKey | StringKey bytes | OtherKey

text \<open>The bytes of a string after \<^verbatim>\<open>sdsgrowzero\<close>.\<close>

definition grow_zero :: "bytes \<Rightarrow> nat \<Rightarrow> bytes" where
  "grow_zero s len = (if len \<le> length s then s else s @ replicate (len - length s) 0)"

text \<open>The string with room for the bit, and by how many bytes it has grown.\<close>

definition lookupStringForBitCommand :: "keyval \<Rightarrow> 64 word \<Rightarrow> (bytes \<times> nat) option" where
  "lookupStringForBitCommand kv maxbit =
     (let byte = unat (drop_bit 3 maxbit) in
      case kv of
        NoKey \<Rightarrow> Some (replicate (byte + 1) 0, byte + 1)
      | StringKey s \<Rightarrow> let s' = grow_zero s (byte + 1) in Some (s', length s' - length s)
      | OtherKey \<Rightarrow> None)"

text \<open>The results are the reply, the new value of the key and the number of changes added to \<^verbatim>\<open>server.dirty\<close>.\<close>

definition setbitCommand :: "bit_limits \<Rightarrow> bytes \<Rightarrow> bytes \<Rightarrow> keyval \<Rightarrow> (bit_error + bool \<times> keyval \<times> nat) option" where
  "setbitCommand lim arg2 arg3 kv =
     (case getBitOffsetFromArgument lim arg2 False 0 of
        Inl e \<Rightarrow> Some (Inl e)
      | Inr bitoffset \<Rightarrow>
          (case string2l arg3 of
             None \<Rightarrow> Some (Inl InvalidBit)
           | Some on \<Rightarrow>
               if on AND NOT 1 \<noteq> 0 then Some (Inl InvalidBit)
               else (case lookupStringForBitCommand kv bitoffset of
                   None \<Rightarrow> Some (Inl WrongType)
                 | Some (s, grow) \<Rightarrow>
                     let byte = unat (drop_bit 3 bitoffset); b = unat (7 - (bitoffset AND 7)) in
                     if byte < length s
                     then let byteval = uint (s ! byte); bitval = byteval AND push_bit b 1 in
                       if grow > 0 \<or> (if bitval \<noteq> 0 then 1 else 0) \<noteq> on
                       then Some (Inr (bitval \<noteq> 0,
                              StringKey (s[byte := word_of_int ((byteval AND NOT (push_bit b 1)) OR push_bit b (on AND 1))]), 1))
                       else Some (Inr (bitval \<noteq> 0, StringKey s, 0))
                     else None)))"

definition getbitCommand :: "bit_limits \<Rightarrow> bytes \<Rightarrow> keyval \<Rightarrow> bit_error + bool" where
  "getbitCommand lim arg2 kv =
     (case getBitOffsetFromArgument lim arg2 False 0 of
        Inl e \<Rightarrow> Inl e
      | Inr bitoffset \<Rightarrow>
          (case kv of
             NoKey \<Rightarrow> Inr False
           | OtherKey \<Rightarrow> Inl WrongType
           | StringKey s \<Rightarrow>
               let byte = unat (drop_bit 3 bitoffset); b = unat (7 - (bitoffset AND 7)) in
               Inr (byte < length s \<and> uint (s ! byte) AND push_bit b 1 \<noteq> 0)))"

section \<open>\<^verbatim>\<open>BITFIELD\<close>\<close>

datatype opcode = BITFIELDOP_GET | BITFIELDOP_SET | BITFIELDOP_INCRBY

record bitfieldOp =
  bo_offset :: "64 word"
  bo_i64 :: int
  bo_opcode :: opcode
  bo_owtype :: owtype
  bo_bits :: nat
  bo_sign :: bool

text \<open>The first tests of the loop: a subcommand with enough arguments, or the name of an overflow type.\<close>

definition subcommand :: "bytes \<Rightarrow> nat \<Rightarrow> opcode option" where
  "subcommand subcmd remargs =
     (if strcasecmp_eq (c_str subcmd) ''get'' \<and> remargs \<ge> 2 then Some BITFIELDOP_GET
      else if strcasecmp_eq (c_str subcmd) ''set'' \<and> remargs \<ge> 3 then Some BITFIELDOP_SET
      else if strcasecmp_eq (c_str subcmd) ''incrby'' \<and> remargs \<ge> 3 then Some BITFIELDOP_INCRBY
      else None)"

definition overflow_type :: "bytes \<Rightarrow> owtype option" where
  "overflow_type owtypename =
     (if strcasecmp_eq (c_str owtypename) ''wrap'' then Some BFOVERFLOW_WRAP
      else if strcasecmp_eq (c_str owtypename) ''sat'' then Some BFOVERFLOW_SAT
      else if strcasecmp_eq (c_str owtypename) ''fail'' then Some BFOVERFLOW_FAIL
      else None)"

text \<open>The loop over the arguments, with the overflow type, \<^verbatim>\<open>ops\<close>, \<^verbatim>\<open>readonly\<close> and \<^verbatim>\<open>highest_write_offset\<close>.\<close>

function parse_loop ::
    "bit_limits \<Rightarrow> bytes list \<Rightarrow> owtype \<Rightarrow> bitfieldOp list \<Rightarrow> bool \<Rightarrow> 64 word \<Rightarrow> bit_error + (bitfieldOp list \<times> bool \<times> 64 word)" where
  "parse_loop lim [] ow ops readonly highest = Inr (ops, readonly, highest)"
| "parse_loop lim (subcmd # args) ow ops readonly highest =
     (case subcommand subcmd (length args) of
        None \<Rightarrow>
          if strcasecmp_eq (c_str subcmd) ''overflow'' \<and> length args \<ge> 1
          then (case overflow_type (args ! 0) of
              None \<Rightarrow> Inl InvalidOverflow
            | Some ow' \<Rightarrow> parse_loop lim (drop 1 args) ow' ops readonly highest)
          else Inl SyntaxError
      | Some oc \<Rightarrow>
          (case getBitfieldTypeFromArgument (args ! 0) of
             Inl e \<Rightarrow> Inl e
           | Inr (sign, bits) \<Rightarrow>
               (case getBitOffsetFromArgument lim (args ! 1) True bits of
                  Inl e \<Rightarrow> Inl e
                | Inr bitoffset \<Rightarrow>
                    if oc = BITFIELDOP_GET
                    then parse_loop lim (drop 2 args) ow
                      (ops @ [\<lparr>bo_offset = bitoffset, bo_i64 = 0, bo_opcode = oc, bo_owtype = ow, bo_bits = bits, bo_sign = sign\<rparr>])
                      readonly highest
                    else (case string2ll (args ! 2) of
                        None \<Rightarrow> Inl NotAnInteger
                      | Some i64 \<Rightarrow>
                          parse_loop lim (drop 3 args) ow
                            (ops @ [\<lparr>bo_offset = bitoffset, bo_i64 = i64, bo_opcode = oc, bo_owtype = ow, bo_bits = bits, bo_sign = sign\<rparr>])
                            False
                            (if highest < bitoffset + of_nat bits - 1 then bitoffset + of_nat bits - 1 else highest)))))"
  by pat_completeness auto

termination by (relation "measure (\<lambda>(_, args, _). length args)") auto

text \<open>
  \<^verbatim>\<open>SET\<close> and \<^verbatim>\<open>INCRBY\<close>: the reply (\<open>None\<close> is null), the string and whether \<^verbatim>\<open>changes\<close> grows. The variable \<^verbatim>\<open>wrapped\<close> has
  no value after an overflow of type \<^verbatim>\<open>FAIL\<close>, and is not used then.
\<close>

definition write_op :: "bytes \<Rightarrow> bool \<Rightarrow> bitfieldOp \<Rightarrow> (int option \<times> bytes \<times> bool) option" where
  "write_op p grown op =
     (if bo_sign op
      then do {
        oldval \<leftarrow> getSignedBitfield p (bo_offset op) (bo_bits op);
        let (overflow, newval, retval) =
          (if bo_opcode op = BITFIELDOP_INCRBY
           then let (ov, wrapped) = checkSignedBitfieldOverflow oldval (bo_i64 op) (bo_bits op) (bo_owtype op);
                    nv = (if ov \<noteq> 0 then case wrapped of Some w \<Rightarrow> w | None \<Rightarrow> 0 else oldval + bo_i64 op)
                in (ov, nv, nv)
           else let (ov, wrapped) = checkSignedBitfieldOverflow (bo_i64 op) 0 (bo_bits op) (bo_owtype op)
                in (ov, if ov \<noteq> 0 then case wrapped of Some w \<Rightarrow> w | None \<Rightarrow> 0 else bo_i64 op, oldval));
        if \<not> (overflow \<noteq> 0 \<and> bo_owtype op = BFOVERFLOW_FAIL)
        then do {
          p' \<leftarrow> setSignedBitfield p (bo_offset op) (bo_bits op) newval;
          Some (Some retval, p', grown \<or> oldval \<noteq> newval)
        }
        else Some (None, p, False)
      }
      else do {
        oldval \<leftarrow> getUnsignedBitfield p (bo_offset op) (bo_bits op);
        let (overflow, newval, retval) =
          (if bo_opcode op = BITFIELDOP_INCRBY
           then let (ov, wrapped) = checkUnsignedBitfieldOverflow oldval (bo_i64 op) (bo_bits op) (bo_owtype op);
                    nv = (if ov \<noteq> 0 then case wrapped of Some w \<Rightarrow> w | None \<Rightarrow> 0 else oldval + word_of_int (bo_i64 op))
                in (ov, nv, nv)
           else let (ov, wrapped) = checkUnsignedBitfieldOverflow (word_of_int (bo_i64 op)) 0 (bo_bits op) (bo_owtype op)
                in (ov, if ov \<noteq> 0 then case wrapped of Some w \<Rightarrow> w | None \<Rightarrow> 0 else word_of_int (bo_i64 op), oldval));
        if \<not> (overflow \<noteq> 0 \<and> bo_owtype op = BFOVERFLOW_FAIL)
        then do {
          p' \<leftarrow> setUnsignedBitfield p (bo_offset op) (bo_bits op) newval;
          Some (Some (sint retval), p', grown \<or> oldval \<noteq> newval)
        }
        else Some (None, p, False)
      })"

definition read_op :: "bytes \<Rightarrow> bitfieldOp \<Rightarrow> int option" where
  "read_op src op =
     (let byte = drop_bit 3 (bo_offset op);
          buf = map (\<lambda>i. if i + unat byte < length src then src ! (i + unat byte) else 0) [0..<9]
      in if bo_sign op then getSignedBitfield buf (bo_offset op - byte * 8) (bo_bits op)
         else map_option sint (getUnsignedBitfield buf (bo_offset op - byte * 8) (bo_bits op)))"

fun exec_loop :: "bytes \<Rightarrow> bool \<Rightarrow> bitfieldOp list \<Rightarrow> (int option list \<times> bytes \<times> nat) option" where
  "exec_loop p grown [] = Some ([], p, 0)"
| "exec_loop p grown (op # ops) = do {
     (r, p1, changed) \<leftarrow>
       (if bo_opcode op = BITFIELDOP_GET then do { v \<leftarrow> read_op p op; Some (Some v, p, False) }
        else write_op p grown op);
     (rs, p2, changes) \<leftarrow> exec_loop p1 grown ops;
     Some (r # rs, p2, (if changed then 1 else 0) + changes)
   }"

definition bitfieldGeneric :: "bit_limits \<Rightarrow> bool \<Rightarrow> bytes list \<Rightarrow> keyval \<Rightarrow> (bit_error + int option list \<times> keyval \<times> nat) option" where
  "bitfieldGeneric lim ro_flag args kv =
     (case parse_loop lim args BFOVERFLOW_WRAP [] True 0 of
        Inl e \<Rightarrow> Some (Inl e)
      | Inr (ops, readonly, highest) \<Rightarrow>
          if readonly
          then if kv = OtherKey then Some (Inl WrongType)
            else do {
              (rs, _, changes) \<leftarrow> exec_loop (case kv of StringKey s \<Rightarrow> s | _ \<Rightarrow> []) False ops;
              Some (Inr (rs, kv, changes))
            }
          else if ro_flag then Some (Inl ReadOnlyOnly)
          else (case lookupStringForBitCommand kv highest of
              None \<Rightarrow> Some (Inl WrongType)
            | Some (s, grow) \<Rightarrow> do {
                (rs, s', changes) \<leftarrow> exec_loop s (grow > 0) ops;
                Some (Inr (rs, StringKey s', changes))
              }))"

section \<open>Searching and counting\<close>

text \<open>
  \<^verbatim>\<open>redisBitpos\<close> on the bytes from address \<open>addr\<close> on, with \<^verbatim>\<open>long\<close> of 8 bytes: first byte by byte up to an
  aligned address, then word by word. The results are the bytes left and the position.
\<close>

fun skip_bytes :: "nat \<Rightarrow> byte \<Rightarrow> bytes \<Rightarrow> int \<Rightarrow> bytes \<times> int \<times> bool" where
  "skip_bytes addr skipval [] pos = ([], pos, False)"
| "skip_bytes addr skipval (c # cs) pos =
     (if addr mod 8 = 0 then (c # cs, pos, False)
      else if c \<noteq> skipval then (c # cs, pos, True)
      else skip_bytes (addr + 1) skipval cs (pos + 8))"

text \<open>A word equals \<open>0\<close> or \<^verbatim>\<open>ULONG_MAX\<close> if and only if each of its bytes is \<open>0\<close> or \<^verbatim>\<open>UCHAR_MAX\<close>, in any byte order.\<close>

function skip_words :: "byte \<Rightarrow> bytes \<Rightarrow> int \<Rightarrow> bytes \<times> int" where
  "skip_words skipval cs pos =
     (if length cs \<ge> 8 \<and> take 8 cs = replicate 8 skipval then skip_words skipval (drop 8 cs) (pos + 64)
      else (cs, pos))"
  by pat_completeness auto

termination by (relation "measure (\<lambda>(_, cs, _). length cs)") auto

declare skip_words.simps [simp del]

fun load_word :: "nat \<Rightarrow> bytes \<Rightarrow> 64 word \<Rightarrow> 64 word" where
  "load_word 0 cs w = w"
| "load_word (Suc j) cs w =
     (case cs of
        [] \<Rightarrow> load_word j [] (push_bit 8 w)
      | c # cs' \<Rightarrow> load_word j cs' (push_bit 8 w OR ucast c))"

text \<open>\<open>one\<close> has only the bit \<open>k - 1\<close> set; \<open>None\<close> is the panic at the end of the function.\<close>

fun scan_word :: "nat \<Rightarrow> 64 word \<Rightarrow> bool \<Rightarrow> int \<Rightarrow> int option" where
  "scan_word 0 w b pos = None"
| "scan_word (Suc k) w b pos = (if (push_bit k 1 AND w \<noteq> 0) = b then Some pos else scan_word k w b (pos + 1))"

definition redisBitpos :: "nat \<Rightarrow> bytes \<Rightarrow> bool \<Rightarrow> int option" where
  "redisBitpos addr s b =
     (let skipval = (if b then 0 else 255);
          (cs, pos, found) = skip_bytes addr skipval s 0;
          (cs', pos') = (if \<not> found then skip_words skipval cs pos else (cs, pos));
          w = load_word 8 cs' 0
      in if b \<and> w = 0 then Some (- 1) else scan_word 64 w b pos')"

end
