(* ===== verification/Bitops_Inv.thy ===== *)
theory Bitops_Inv
  imports Bitops
begin

unbundle bit_operations_syntax

text \<open>
  A string as a sequence of bits, the first of which is the highest bit of the first byte, and the integers in
  it: what the loops of \<^verbatim>\<open>bitops.c\<close> read and write, bit by bit and as a whole.
\<close>

section \<open>The bits of a string\<close>

definition bit_of :: "bytes \<Rightarrow> nat \<Rightarrow> bool" where
  "bit_of p i \<longleftrightarrow> i div 8 < length p \<and> bit (p ! (i div 8)) (7 - i mod 8)"

lemma offset_byte: "unat (drop_bit 3 (off :: 64 word)) = unat off div 8"
  unfolding unat_drop_bit_eq by (simp add: drop_bit_eq_div)

lemma offset_bit: "unat (7 - (off AND 7 :: 64 word)) = 7 - unat off mod 8"
proof -
  have m: "off AND 7 = take_bit 3 off" by (simp add: take_bit_eq_mask mask_eq_exp_minus_1)
  have u: "unat (take_bit 3 off) = unat off mod 8" unfolding unsigned_take_bit_eq by (simp add: take_bit_eq_mod)
  have "take_bit 3 off \<le> 7" unfolding word_le_nat_alt u by simp
  then show ?thesis unfolding m by (simp add: unat_sub u)
qed

lemma offset_Suc: "unat (off :: 64 word) + 1 < 2 ^ 64 \<Longrightarrow> unat (off + 1) = Suc (unat off)"
  by (simp add: unat_word_ariths)

lemma test_bit: "(w :: 64 word) AND push_bit k 1 \<noteq> 0 \<longleftrightarrow> k < 64 \<and> bit w k"
proof -
  have "w AND push_bit k 1 = (if bit w k then push_bit k 1 else 0)" by (rule bit_word_eqI) (auto simp: bit_simps)
  moreover have "push_bit k 1 \<noteq> (0 :: 64 word) \<longleftrightarrow> k < 64" by (auto simp: push_bit_eq_mult)
  ultimately show ?thesis using bit_imp_le_length [of w k] by auto
qed

lemma write_bit:
  assumes "b < 8"
  shows "bit (ucast (((ucast (c :: byte) AND NOT (push_bit b 1)) OR push_bit b (of_bool x)) AND 255 :: 64 word) :: byte) n \<longleftrightarrow>
    n < 8 \<and> (if n = b then x else bit c n)"
proof -
  have m: "(255 :: 64 word) = mask 8" by (simp add: mask_eq_exp_minus_1)
  show ?thesis unfolding m using assms by (auto simp: bit_simps simp del: mask_numeral)
qed

lemma bit_of_update:
  assumes "i div 8 < length p"
    and "\<And>n. bit c n \<longleftrightarrow> n < 8 \<and> (if n = 7 - i mod 8 then x else bit (p ! (i div 8)) n)"
  shows "bit_of (p[i div 8 := c]) j = (if j = i then x else bit_of p j)"
proof (cases "j div 8 = i div 8")
  case True
  have "j = i \<longleftrightarrow> 7 - j mod 8 = 7 - i mod 8"
  proof
    assume "7 - j mod 8 = 7 - i mod 8"
    moreover have "j mod 8 < 8" "i mod 8 < 8" by simp_all
    ultimately have "j mod 8 = i mod 8" by linarith
    then show "j = i" using True by (metis div_mult_mod_eq)
  qed simp
  moreover have "bit_of (p[i div 8 := c]) j \<longleftrightarrow> bit c (7 - j mod 8)" using True assms(1) by (simp add: bit_of_def)
  moreover have "bit_of p j \<longleftrightarrow> bit (p ! (i div 8)) (7 - j mod 8)" using True assms(1) by (simp add: bit_of_def)
  moreover have "7 - j mod 8 < 8" "7 - i mod 8 < 8" by linarith+
  ultimately show ?thesis unfolding assms(2) by simp
qed (auto simp: bit_of_def)

section \<open>Writing\<close>

lemma set_bits_loop_at:
  assumes "unat off + k < 2 ^ 64" "k \<le> 64" "unat off + k \<le> 8 * length p"
  shows "\<exists>p'. set_bits_loop p off k v = Some p' \<and> length p' = length p \<and>
    (\<forall>j. bit_of p' j = (if unat off \<le> j \<and> j < unat off + k then bit v (unat off + k - 1 - j) else bit_of p j))"
  using assms
proof (induction k arbitrary: p off)
  case (Suc k)
  let ?i = "unat off"
  let ?c = "ucast (((ucast (p ! (?i div 8)) AND NOT (push_bit (7 - ?i mod 8) 1)) OR push_bit (7 - ?i mod 8) (if v AND push_bit k 1 \<noteq> 0 then 1 else 0)) AND 255 :: 64 word) :: byte"
  have ib: "?i div 8 < length p" using Suc.prems(3) by (simp add: div_less_iff_less_mult)
  have x: "(if v AND push_bit k 1 \<noteq> 0 then 1 else 0 :: 64 word) = of_bool (bit v k)" using test_bit [of v k] Suc.prems(2) by simp
  have c: "bit ?c n \<longleftrightarrow> n < 8 \<and> (if n = 7 - ?i mod 8 then bit v k else bit (p ! (?i div 8)) n)" for n
    unfolding x by (rule write_bit) simp
  have s: "set_bits_loop p off (Suc k) v = set_bits_loop (p[?i div 8 := ?c]) (off + 1) k v"
    using ib by (simp add: Let_def offset_byte offset_bit)
  have o: "unat (off + 1) = Suc ?i" by (rule offset_Suc) (use Suc.prems(1) in simp)
  obtain p' where p': "set_bits_loop (p[?i div 8 := ?c]) (off + 1) k v = Some p'" "length p' = length p"
    "\<And>j. bit_of p' j = (if Suc ?i \<le> j \<and> j < Suc ?i + k then bit v (Suc ?i + k - 1 - j) else bit_of (p[?i div 8 := ?c]) j)"
    using Suc.IH [of "off + 1" "p[?i div 8 := ?c]"] Suc.prems o by auto
  have "bit_of p' j = (if ?i \<le> j \<and> j < ?i + Suc k then bit v (?i + Suc k - 1 - j) else bit_of p j)" for j
    unfolding p'(3) bit_of_update [OF ib c] by auto
  then show ?case using s p'(1,2) by auto
qed auto

lemma get_bits_loop_at:
  assumes "unat off + k < 2 ^ 64" "unat off + k \<le> 8 * length p"
  shows "\<exists>w. get_bits_loop p off k v = Some w \<and>
    (\<forall>n. bit w n \<longleftrightarrow> n < 64 \<and> (if n < k then bit_of p (unat off + k - 1 - n) else bit v (n - k)))"
  using assms
proof (induction k arbitrary: off v)
  case 0
  then show ?case by (auto dest: bit_imp_le_length)
next
  case (Suc k)
  let ?i = "unat off"
  have ib: "?i div 8 < length p" using Suc.prems(2) by (simp add: div_less_iff_less_mult)
  let ?v = "push_bit 1 v OR (drop_bit (7 - ?i mod 8) (ucast (p ! (?i div 8))) AND 1)"
  have s: "get_bits_loop p off (Suc k) v = get_bits_loop p (off + 1) k ?v"
    using ib by (simp add: Let_def offset_byte offset_bit)
  have v: "bit ?v n \<longleftrightarrow> n < 64 \<and> (if n = 0 then bit_of p ?i else bit v (n - 1))" for n
    unfolding bit_or_iff bit_push_bit_iff bit_and_iff bit_drop_bit_eq bit_1_iff
    using ib by (auto simp: bit_simps bit_of_def dest: bit_imp_le_length)
  have o: "unat (off + 1) = Suc ?i" by (rule offset_Suc) (use Suc.prems(1) in simp)
  obtain w where w: "get_bits_loop p (off + 1) k ?v = Some w"
    "\<And>n. bit w n \<longleftrightarrow> n < 64 \<and> (if n < k then bit_of p (Suc ?i + k - 1 - n) else bit ?v (n - k))"
    using Suc.IH [of "off + 1" ?v] Suc.prems o by auto
  have "bit w n \<longleftrightarrow> n < 64 \<and> (if n < Suc k then bit_of p (?i + Suc k - 1 - n) else bit v (n - Suc k))" for n
    unfolding w(2) v by (cases "n = k") auto
  then show ?case using s w(1) by auto
qed

section \<open>Integers\<close>

text \<open>The unsigned integer in \<open>n\<close> bits of a bit array from an offset on, and storing an integer there.\<close>

definition field :: "(nat \<Rightarrow> bool) \<Rightarrow> nat \<Rightarrow> nat \<Rightarrow> int" where
  "field B off n = horner_sum of_bool 2 (map (\<lambda>i. B (off + n - 1 - i)) [0..<n])"

definition store :: "(nat \<Rightarrow> bool) \<Rightarrow> nat \<Rightarrow> nat \<Rightarrow> int \<Rightarrow> nat \<Rightarrow> bool" where
  "store B off n v = (\<lambda>i. if off \<le> i \<and> i < off + n then bit v (off + n - 1 - i) else B i)"

lemma bit_field: "bit (field B off n) i \<longleftrightarrow> i < n \<and> B (off + n - 1 - i)"
  by (auto simp: field_def bit_horner_sum_bit_iff)

lemma field_range: "0 \<le> field B off n" "field B off n < 2 ^ n"
proof -
  have "take_bit n (field B off n) = field B off n" by (rule bit_eqI) (auto simp: bit_take_bit_iff bit_field)
  then show "0 \<le> field B off n" "field B off n < 2 ^ n" by (metis take_bit_nonnegative, metis take_bit_int_less_exp)
qed

lemma field_store: "field (store B off n v) off n = take_bit n v"
  by (rule bit_eqI) (auto simp: bit_field store_def bit_take_bit_iff)

lemma field_store_disjoint: "off' + n' \<le> off \<or> off + n \<le> off' \<Longrightarrow> field (store B off n v) off' n' = field B off' n'"
  by (rule bit_eqI) (auto simp: bit_field store_def)

lemma get_unsigned:
  assumes "unat off + n < 2 ^ 64" "n \<le> 64" "unat off + n \<le> 8 * length p"
  shows "getUnsignedBitfield p off n = Some (word_of_int (field (bit_of p) (unat off) n))"
proof -
  obtain w where w: "get_bits_loop p off n 0 = Some w"
    "\<And>i. bit w i \<longleftrightarrow> i < 64 \<and> (if i < n then bit_of p (unat off + n - 1 - i) else bit (0 :: 64 word) (i - n))"
    using get_bits_loop_at [OF assms(1,3), of 0] by blast
  have "w = word_of_int (field (bit_of p) (unat off) n)"
    by (rule bit_word_eqI) (auto simp: w(2) bit_word_of_int_iff bit_field)
  then show ?thesis using w(1) by (simp add: getUnsignedBitfield_def)
qed

lemma set_unsigned:
  assumes "unat off + n < 2 ^ 64" "n \<le> 64" "unat off + n \<le> 8 * length p" "take_bit n (uint v) = take_bit n i"
  shows "\<exists>p'. setUnsignedBitfield p off n v = Some p' \<and> length p' = length p \<and> bit_of p' = store (bit_of p) (unat off) n i"
proof -
  obtain p' where p': "set_bits_loop p off n v = Some p'" "length p' = length p"
    "\<And>j. bit_of p' j = (if unat off \<le> j \<and> j < unat off + n then bit v (unat off + n - 1 - j) else bit_of p j)"
    using set_bits_loop_at [OF assms(1,2,3), of v] by blast
  have "bit v k \<longleftrightarrow> bit i k" if "k < n" for k
    using arg_cong [OF assms(4), of "\<lambda>x. bit x k"] that assms(2) by (simp add: bit_take_bit_iff bit_uint_iff)
  then have "bit_of p' = store (bit_of p) (unat off) n i" by (intro ext) (auto simp: p'(3) store_def)
  then show ?thesis using p'(1,2) by (simp add: setUnsignedBitfield_def)
qed

text \<open>The signed integer, and what is stored for a negative one.\<close>

definition sfield :: "(nat \<Rightarrow> bool) \<Rightarrow> nat \<Rightarrow> nat \<Rightarrow> int" where
  "sfield B off n = signed_take_bit (n - 1) (field B off n)"

lemma bit_high_ones: "bit (push_bit n (- 1) :: 64 word) i \<longleftrightarrow> n \<le> i \<and> i < 64"
  by (auto simp: bit_push_bit_iff bit_not_iff bit_mask_iff)

lemma sign_extend:
  fixes u :: "64 word"
  assumes n: "0 < n" "n \<le> 64" and u: "\<And>i. bit u i \<Longrightarrow> i < n"
  shows "sint (if n < 64 \<and> u AND push_bit (n - 1) 1 \<noteq> 0 then u OR push_bit n (- 1) else u) = signed_take_bit (n - 1) (uint u)"
proof (cases "n = 64")
  case True
  then show ?thesis by (simp add: sint_uint)
next
  case False
  have t: "u AND push_bit (n - 1) 1 \<noteq> 0 \<longleftrightarrow> bit u (n - 1)" using test_bit [of u "n - 1"] n False by auto
  show ?thesis
  proof (cases "bit u (n - 1)")
    case True
    have "bit (sint (u OR push_bit n (- 1))) i \<longleftrightarrow> bit (signed_take_bit (n - 1) (uint u)) i" for i
      using True n False unfolding bit_sint_iff bit_or_iff bit_high_ones bit_signed_take_bit_iff bit_uint_iff
      by (cases "i < n"; cases "i = n - 1") (auto simp: min_def)
    then have "sint (u OR push_bit n (- 1)) = signed_take_bit (n - 1) (uint u)" by (intro bit_eqI) blast
    then show ?thesis using True False n t by simp
  next
    case nb: False
    have "\<not> bit u 63" using u [of 63] False n by auto
    then have "bit (sint u) i \<longleftrightarrow> bit (signed_take_bit (n - 1) (uint u)) i" for i
      using nb n u [of i] unfolding bit_sint_iff bit_signed_take_bit_iff bit_uint_iff
      by (cases "i < n"; cases "i = n - 1") (auto simp: min_def)
    then have "sint u = signed_take_bit (n - 1) (uint u)" by (intro bit_eqI) blast
    then show ?thesis using nb t by simp
  qed
qed

lemma get_signed:
  assumes "unat off + n < 2 ^ 64" "0 < n" "n \<le> 64" "unat off + n \<le> 8 * length p"
  shows "getSignedBitfield p off n = Some (sfield (bit_of p) (unat off) n)"
proof -
  let ?f = "field (bit_of p) (unat off) n"
  let ?u = "word_of_int ?f :: 64 word"
  have "(2 :: int) ^ n \<le> 2 ^ 64" using assms(3) by (intro power_increasing) auto
  then have u: "uint ?u = ?f"
    using field_range [of "bit_of p" "unat off" n] by (simp add: unsigned_of_int take_bit_int_eq_self_iff)
  have "bit ?u i \<Longrightarrow> i < n" for i by (simp add: bit_word_of_int_iff bit_field)
  then show ?thesis using get_unsigned [OF assms(1,3,4)] sign_extend [OF assms(2,3), of ?u]
    unfolding sfield_def u by (simp add: getSignedBitfield_def)
qed

end
