(* ===== verification/Bitops_Overflow.thy ===== *)
theory Bitops_Overflow
  imports Bitops_Inv
begin

unbundle bit_operations_syntax

text \<open>
  The overflow policies: what an integer becomes that does not fit into a field, and that the two tests of
  \<^verbatim>\<open>bitops.c\<close>, which work with wrapped 64-bit numbers, find it.
\<close>

section \<open>The policies\<close>

definition fits :: "bool \<Rightarrow> nat \<Rightarrow> int \<Rightarrow> bool" where
  "fits sign n v \<longleftrightarrow> (if sign then - (2 ^ (n - 1)) \<le> v \<and> v < 2 ^ (n - 1) else 0 \<le> v \<and> v < 2 ^ n)"

definition fit :: "owtype \<Rightarrow> bool \<Rightarrow> nat \<Rightarrow> int \<Rightarrow> int option" where
  "fit ow sign n v =
     (if fits sign n v then Some v
      else case ow of
        BFOVERFLOW_WRAP \<Rightarrow> Some (if sign then signed_take_bit (n - 1) v else take_bit n v)
      | BFOVERFLOW_SAT \<Rightarrow> Some (if sign then if v < 0 then - (2 ^ (n - 1)) else 2 ^ (n - 1) - 1 else if v < 0 then 0 else 2 ^ n - 1)
      | BFOVERFLOW_FAIL \<Rightarrow> None)"

lemma sint_exact: "in_sint 64 x \<Longrightarrow> sint (word_of_int x :: 64 word) = x"
  by (simp add: in_sint_def signed_of_int signed_take_bit_int_eq_self)

lemma sint_to_sint: "sint (word_of_int x :: 64 word) = to_sint 64 x"
  by (simp add: signed_of_int signed_take_bit_eq_take_bit_shift take_bit_eq_mod to_sint_def)

lemma fit_fits:
  assumes "0 < n" "fit ow sign n v = Some w"
  shows "fits sign n w"
proof (cases "fits sign n v")
  case False
  then show ?thesis using assms
    by (auto simp: fit_def fits_def signed_take_bit_int_less_exp signed_take_bit_int_greater_eq_minus_exp take_bit_int_less_exp split: owtype.splits)
qed (use assms(2) in \<open>simp add: fit_def\<close>)

section \<open>Unsigned\<close>

lemma low_ones: "push_bit n 1 - 1 = (mask n :: 64 word)"
  by (simp add: mask_eq_exp_minus_1 push_bit_eq_mult)

lemma and_low: "(w :: 64 word) AND NOT (push_bit n (- 1)) = take_bit n w"
  by (rule bit_word_eqI) (unfold bit_and_iff bit_not_iff bit_high_ones, auto simp: bit_take_bit_iff)

lemma uint_mask: "n \<le> 64 \<Longrightarrow> uint (mask n :: 64 word) = 2 ^ n - 1"
proof -
  assume "n \<le> 64"
  then have "uint (mask n :: 64 word) = mask n" by (intro bit_eqI) (auto simp: bit_uint_iff bit_mask_iff)
  then show ?thesis by (simp add: mask_eq_exp_minus_1)
qed

lemma check_unsigned:
  assumes n: "0 < n" "n \<le> 63" and i: "in_sint 64 incr" and v: "uint v < 2 ^ n \<or> incr = 0"
  shows "(if fits False n (uint v + incr) then checkUnsignedBitfieldOverflow v incr n ow = (0, None)
    else fst (checkUnsignedBitfieldOverflow v incr n ow) \<noteq> 0 \<and>
      map_option uint (snd (checkUnsignedBitfieldOverflow v incr n ow)) = fit ow False n (uint v + incr))"
proof -
  let ?mx = "mask n :: 64 word"
  have p: "(2 :: int) ^ n \<le> 2 ^ 63" using n by (intro power_increasing) auto
  have v0: "0 \<le> uint v" by simp
  have mx: "uint ?mx = 2 ^ n - 1" using n by (intro uint_mask) simp
  have gt: "v > ?mx \<longleftrightarrow> 2 ^ n \<le> uint v" unfolding word_less_def mx by auto
  have mxi: "sint (?mx - v) = 2 ^ n - 1 - uint v" if "uint v < 2 ^ n"
  proof -
    have "?mx - v = word_of_int (2 ^ n - 1 - uint v)" using mx [symmetric] by simp
    moreover have "- (2 ^ 63) \<le> 2 ^ n - 1 - uint v" "2 ^ n - 1 - uint v < 2 ^ 63" using that p v0 by linarith+
    then have "in_sint 64 (2 ^ n - 1 - uint v)" by (simp add: in_sint_def)
    ultimately show ?thesis by (simp only: sint_exact)
  qed
  have mni: "sint (- v) = - uint v" if "uint v < 2 ^ n"
  proof -
    have "- v = word_of_int (- uint v)" by simp
    moreover have "- (2 ^ 63) \<le> - uint v" "- uint v < 2 ^ 63" using that p v0 by linarith+
    then have "in_sint 64 (- uint v)" by (simp add: in_sint_def)
    ultimately show ?thesis by (simp only: sint_exact)
  qed
  have w: "uint ((v + word_of_int incr) AND NOT (push_bit n (- 1))) = take_bit n (uint v + incr)"
  proof -
    have e: "v + word_of_int incr = word_of_int (uint v + incr)" by simp
    show ?thesis unfolding and_low e using n
      by (intro bit_eqI) (auto simp: bit_uint_iff bit_take_bit_iff bit_word_of_int_iff simp del: of_int_add)
  qed
  have m: "(if n = 64 then - 1 else push_bit n 1 - 1) = ?mx" using n unfolding low_ones by simp
  note D = checkUnsignedBitfieldOverflow_def [of v incr n ow, unfolded Let_def m gt]
  show ?thesis
  proof (cases "uint v < 2 ^ n")
    case True
    then show ?thesis unfolding D mxi [OF True] mni [OF True] using w mx
      by (cases ow; auto simp: fit_def fits_def; use v0 in linarith)
  next
    case False
    then have "incr = 0" using v by simp
    then show ?thesis unfolding D using w mx False
      by (cases ow; auto simp: fit_def fits_def not_less; use v0 in linarith)
  qed
qed

section \<open>Signed\<close>

lemma wrap_signed:
  assumes n: "0 < n" "n \<le> 64"
  shows "sint (if n < 64 then if (c :: 64 word) AND push_bit (n - 1) 1 \<noteq> 0 then c OR push_bit n (- 1) else c AND NOT (push_bit n (- 1)) else c) =
    signed_take_bit (n - 1) (uint c)"
proof (cases "n = 64")
  case True
  then show ?thesis by (simp add: sint_uint)
next
  case False
  let ?u = "take_bit n c"
  have t: "c AND push_bit (n - 1) 1 \<noteq> 0 \<longleftrightarrow> ?u AND push_bit (n - 1) 1 \<noteq> 0" using n by (simp only: test_bit bit_take_bit_iff) auto
  have o: "c OR push_bit n (- 1) = ?u OR push_bit n (- 1)"
    by (rule bit_word_eqI) (unfold bit_or_iff bit_high_ones, auto simp: bit_take_bit_iff)
  have "signed_take_bit (n - 1) (uint ?u) = signed_take_bit (n - 1) (uint c)"
    using n by (intro bit_eqI) (auto simp: bit_signed_take_bit_iff bit_uint_iff bit_take_bit_iff min_def)
  then show ?thesis using sign_extend [OF n, of ?u] False n unfolding t o and_low by (simp add: bit_take_bit_iff)
qed

lemma check_signed:
  assumes n: "0 < n" "n \<le> 64" and i: "in_sint 64 incr" and v: "in_sint 64 v"
    and ok: "fits True n v \<or> incr = 0 \<and> (ow = BFOVERFLOW_SAT \<longrightarrow> n = 64 \<or> 2 ^ (n - 1) - 2 ^ 63 \<le> v)"
  shows "(if fits True n (v + incr) then checkSignedBitfieldOverflow v incr n ow = (0, None)
    else fst (checkSignedBitfieldOverflow v incr n ow) \<noteq> 0 \<and> snd (checkSignedBitfieldOverflow v incr n ow) = fit ow True n (v + incr))"
proof -
  have p: "(2 :: int) ^ (n - 1) \<le> 2 ^ 63" using n by (intro power_increasing) auto
  have mx: "(if n = 64 then INT64_MAX else push_bit (n - 1) 1 - 1) = 2 ^ (n - 1) - (1 :: int)"
    by (simp add: push_bit_eq_mult)
  have w: "sint (if n < 64 then if (word_of_int v + word_of_int incr :: 64 word) AND push_bit (n - 1) 1 \<noteq> 0
        then (word_of_int v + word_of_int incr :: 64 word) OR push_bit n (- 1) else (word_of_int v + word_of_int incr) AND NOT (push_bit n (- 1))
      else word_of_int v + word_of_int incr) = signed_take_bit (n - 1) (v + incr)"
  proof -
    have "signed_take_bit (n - 1) (uint (word_of_int v + word_of_int incr :: 64 word)) = signed_take_bit (n - 1) (v + incr)"
      using n unfolding of_int_add [symmetric]
      by (intro bit_eqI) (auto simp: bit_signed_take_bit_iff bit_uint_iff bit_word_of_int_iff min_def simp del: of_int_add)
    then show ?thesis using wrap_signed [OF n, of "word_of_int v + word_of_int incr"] by (rule trans [rotated])
  qed
  have hi: "sint (word_of_int (2 ^ (n - 1) - 1) - word_of_int v :: 64 word) = to_sint 64 (2 ^ (n - 1) - 1 - v)"
    unfolding of_int_diff [symmetric] by (rule sint_to_sint)
  note D = checkSignedBitfieldOverflow_def [of v incr n ow, unfolded mx Let_def w hi]
  have lo: "to_sint 64 (- (2 ^ (n - 1) - 1) - 1 - v) = - (2 ^ (n - 1)) - v" if "- (2 ^ 63) \<le> - (2 ^ (n - 1)) - v" "- (2 ^ (n - 1)) - v < 2 ^ 63"
    using that by (subst to_sint_id) (auto simp: in_sint_def)
  have up: "to_sint 64 (2 ^ (n - 1) - 1 - v) = 2 ^ (n - 1) - 1 - v" if "- (2 ^ 63) \<le> 2 ^ (n - 1) - 1 - v" "2 ^ (n - 1) - 1 - v < 2 ^ 63"
    using that by (subst to_sint_id) (auto simp: in_sint_def)
  show ?thesis
  proof (cases "n = 64")
    case True
    then show ?thesis using lo up i v unfolding D
      by (auto simp: fit_def fits_def in_sint_def split: owtype.splits)
  next
    case n64: False
    have q: "2 * (2 :: int) ^ (n - 1) \<le> 2 ^ 63"
    proof -
      have "2 * (2 :: int) ^ (n - 1) = 2 ^ n" using n(1) by (simp add: power_eq_if)
      also have "\<dots> \<le> 2 ^ 63" using n n64 by (intro power_increasing) auto
      finally show ?thesis .
    qed
    show ?thesis
    proof (cases "fits True n v")
      case True
      then show ?thesis using n64 lo up q unfolding D by (auto simp: fit_def fits_def split: owtype.splits)
    next
      case False
      then have "incr = 0" "ow = BFOVERFLOW_SAT \<Longrightarrow> 2 ^ (n - 1) - 2 ^ 63 \<le> v" using ok n64 by auto
      moreover have "0 < (2 :: int) ^ (n - 1)" by simp
      ultimately show ?thesis using False n64 up q unfolding D
        by (cases ow; cases "v < 0") (auto simp: fit_def fits_def not_less simp del: zero_less_power)
    qed
  qed
qed

text \<open>
  With saturation a value far below the range is taken for one above it, since the distance to the
  greatest value does not fit 64 bits.
\<close>

lemma to_sint_shift: "to_sint 64 x = to_sint 64 (x - 2 ^ 64)"
proof -
  have "(x - 2 ^ 64 + 2 ^ 63 + 2 ^ 64) mod 2 ^ 64 = (x - 2 ^ 64 + 2 ^ 63) mod 2 ^ 64" by (rule mod_add_self2)
  moreover have "x - 2 ^ 64 + 2 ^ 63 + 2 ^ 64 = x + 2 ^ 63" by simp
  ultimately show ?thesis unfolding to_sint_def by (simp add: add.commute)
qed

lemma check_signed_far:
  assumes n: "0 < n" "n < 64" and v: "in_sint 64 v" "v < 2 ^ (n - 1) - 2 ^ 63"
  shows "checkSignedBitfieldOverflow v 0 n BFOVERFLOW_SAT = (1, Some (2 ^ (n - 1) - 1))" "\<not> fits True n v"
proof -
  have "2 * (2 :: int) ^ (n - 1) = 2 ^ n" using n(1) by (simp add: power_eq_if)
  moreover have "(2 :: int) ^ n \<le> 2 ^ 63" using n by (intro power_increasing) auto
  ultimately have q: "2 * (2 :: int) ^ (n - 1) \<le> 2 ^ 63" by simp
  let ?x = "2 ^ (n - 1) - 1 - v"
  have "to_sint 64 ?x = to_sint 64 (?x - 2 ^ 64)" by (rule to_sint_shift)
  also have "\<dots> = ?x - 2 ^ 64" using v q by (subst to_sint_id) (auto simp: in_sint_def)
  finally have "to_sint 64 ?x < 0" using v q by (simp add: in_sint_def)
  moreover have "sint (word_of_int (2 ^ (n - 1) - 1) - word_of_int v :: 64 word) = to_sint 64 ?x"
    unfolding of_int_diff [symmetric] by (rule sint_to_sint)
  ultimately show "checkSignedBitfieldOverflow v 0 n BFOVERFLOW_SAT = (1, Some (2 ^ (n - 1) - 1))"
    using n by (simp add: checkSignedBitfieldOverflow_def Let_def push_bit_eq_mult)
  show "\<not> fits True n v" using v(2) q by (simp add: fits_def)
qed

end
