(* ===== verification/Bitops_Props.thy ===== *)
theory Bitops_Props
  imports Bitops_Overflow
begin

unbundle bit_operations_syntax

text \<open>
  What the commands on bits do, stated over the infinite sequence of bits that a string and the zeros behind it
  stand for: the subcommands of \<^verbatim>\<open>BITFIELD\<close> read and write integers in it, and never reach behind the string.
\<close>

section \<open>The operations on bit sequences\<close>

definition value_at :: "(nat \<Rightarrow> bool) \<Rightarrow> bitfieldOp \<Rightarrow> int" where
  "value_at B op = (if bo_sign op then sfield else field) B (unat (bo_offset op)) (bo_bits op)"

text \<open>The case in which the test for signed overflow takes an underflow for an overflow.\<close>

definition sat_ok :: "bitfieldOp \<Rightarrow> bool" where
  "sat_ok op \<longleftrightarrow> \<not> (bo_opcode op = BITFIELDOP_SET \<and> bo_sign op \<and> bo_owtype op = BFOVERFLOW_SAT \<and>
     bo_bits op < 64 \<and> bo_i64 op < 2 ^ (bo_bits op - 1) - 2 ^ 63)"

definition spec_op :: "bitfieldOp \<Rightarrow> (nat \<Rightarrow> bool) \<Rightarrow> int option \<times> (nat \<Rightarrow> bool)" where
  "spec_op op B =
     (let put = store B (unat (bo_offset op)) (bo_bits op); fit_op = fit (bo_owtype op) (bo_sign op) (bo_bits op) in
      case bo_opcode op of
        BITFIELDOP_GET \<Rightarrow> (Some (value_at B op), B)
      | BITFIELDOP_SET \<Rightarrow>
          (case if sat_ok op then fit_op (if bo_sign op then bo_i64 op else bo_i64 op mod 2 ^ 64) else Some (2 ^ (bo_bits op - 1) - 1) of
             None \<Rightarrow> (None, B)
           | Some v \<Rightarrow> (Some (value_at B op), put v))
      | BITFIELDOP_INCRBY \<Rightarrow>
          (case fit_op (value_at B op + bo_i64 op) of
             None \<Rightarrow> (None, B)
           | Some v \<Rightarrow> (Some v, put v)))"

definition op_ok :: "bitfieldOp \<Rightarrow> bool" where
  "op_ok op \<longleftrightarrow> 0 < bo_bits op \<and> bo_bits op \<le> (if bo_sign op then 64 else 63) \<and> in_sint 64 (bo_i64 op) \<and> unat (bo_offset op) < 2 ^ 63"

lemma op_okD:
  assumes "op_ok op"
  shows "0 < bo_bits op" "bo_bits op \<le> 64" "\<not> bo_sign op \<Longrightarrow> bo_bits op \<le> 63" "in_sint 64 (bo_i64 op)"
    "unat (bo_offset op) + bo_bits op < 2 ^ 64"
  using assms by (auto simp: op_ok_def split: if_splits)

lemma value_range: "op_ok op \<Longrightarrow> fits (bo_sign op) (bo_bits op) (value_at B op)"
  using op_okD(1) [of op] field_range [of B "unat (bo_offset op)" "bo_bits op"]
  by (auto simp: fits_def value_at_def sfield_def signed_take_bit_int_less_exp signed_take_bit_int_greater_eq_minus_exp)

lemma fits_in_sint:
  assumes "fits sign n v" "n \<le> (if sign then 64 else 63)" "0 < n"
  shows "in_sint 64 v"
proof -
  have "(2 :: int) ^ (if sign then n - 1 else n) \<le> 2 ^ 63" using assms(2) by (intro power_increasing) (auto split: if_splits)
  then show ?thesis using assms(1) by (auto simp: fits_def in_sint_def split: if_splits)
qed

lemma store_same_iff:
  assumes "0 < n" "fits sign n v"
  shows "store B off n v = B \<longleftrightarrow> (if sign then sfield else field) B off n = v"
proof
  assume s: "store B off n v = B"
  have "take_bit n v = field B off n" using field_store [of B off n v] unfolding s by simp
  moreover have "signed_take_bit (n - 1) (take_bit n v) = signed_take_bit (n - 1) v"
    using assms(1) by (intro bit_eqI) (auto simp: bit_signed_take_bit_iff bit_take_bit_iff min_def)
  ultimately show "(if sign then sfield else field) B off n = v"
    using assms(2) by (auto simp: fits_def sfield_def take_bit_int_eq_self signed_take_bit_int_eq_self split: if_splits)
next
  assume v: "(if sign then sfield else field) B off n = v"
  have "bit v (off + n - 1 - i) \<longleftrightarrow> B i" if "off \<le> i" "i < off + n" for i
  proof -
    have "off + n - 1 - i < n" "off + n - 1 - (off + n - 1 - i) = i" using that by linarith+
    then have b: "bit (field B off n) (off + n - 1 - i) \<longleftrightarrow> B i" unfolding bit_field by simp
    have "min (off + n - 1 - i) (n - 1) = off + n - 1 - i" using that by simp
    then show ?thesis using b v by (auto simp: sfield_def bit_signed_take_bit_iff split: if_splits)
  qed
  then show "store B off n v = B" by (intro ext) (auto simp: store_def)
qed

section \<open>One operation\<close>

lemma write_signed:
  assumes ok: "op_ok op" "bo_sign op" "bo_opcode op \<noteq> BITFIELDOP_GET" and len: "unat (bo_offset op) + bo_bits op \<le> 8 * length p"
  shows "\<exists>p'. write_op p grown op = Some (fst (spec_op op (bit_of p)), p',
      fst (spec_op op (bit_of p)) \<noteq> None \<and> (grown \<or> bit_of p' \<noteq> bit_of p)) \<and>
    length p' = length p \<and> bit_of p' = snd (spec_op op (bit_of p))"
proof -
  let ?n = "bo_bits op" and ?o = "bo_offset op" and ?B = "bit_of p"
  note O = op_okD [OF ok(1)]
  have old: "getSignedBitfield p ?o ?n = Some (value_at ?B op)" using get_signed [OF O(5,1,2) len] ok(2) by (simp add: value_at_def)
  have fv: "fits True ?n (value_at ?B op)" using value_range [OF ok(1)] ok(2) by simp
  define base incr where "base = (if bo_opcode op = BITFIELDOP_INCRBY then value_at ?B op else bo_i64 op)"
    and "incr = (if bo_opcode op = BITFIELDOP_INCRBY then bo_i64 op else 0)"
  define F where "F = (if sat_ok op then fit (bo_owtype op) True ?n (base + incr) else Some (2 ^ (?n - 1) - 1))"
  let ?c = "checkSignedBitfieldOverflow base incr ?n (bo_owtype op)"
  have b: "in_sint 64 base" "in_sint 64 incr" using O(1,2,4) fits_in_sint [OF fv] by (auto simp: base_def incr_def in_sint_def)
  have C: "if fits True ?n (base + incr) then ?c = (0, None) \<and> F = Some (base + incr) else fst ?c \<noteq> 0 \<and> snd ?c = F"
  proof (cases "sat_ok op")
    case True
    have "fits True ?n base \<or> incr = 0 \<and> (bo_owtype op = BFOVERFLOW_SAT \<longrightarrow> ?n = 64 \<or> 2 ^ (?n - 1) - 2 ^ 63 \<le> base)"
      using fv ok True O(2) by (cases "bo_opcode op") (auto simp: base_def incr_def sat_ok_def)
    from check_signed [OF O(1,2) b(2,1) this] show ?thesis using True by (auto simp: F_def fit_def)
  next
    case False
    then have "base = bo_i64 op" "incr = 0" "bo_owtype op = BFOVERFLOW_SAT" "?n < 64" "base < 2 ^ (?n - 1) - 2 ^ 63"
      by (auto simp: sat_ok_def base_def incr_def)
    then show ?thesis using check_signed_far [OF O(1) _ b(1)] False by (simp add: F_def)
  qed
  have Ff: "fits True ?n v" if "F = Some v" for v
  proof (cases "sat_ok op")
    case True
    then show ?thesis using that fit_fits [OF O(1), of "bo_owtype op" True "base + incr" v] by (simp add: F_def)
  qed (use that in \<open>auto simp: F_def fits_def\<close>)
  have FN: "bo_owtype op = BFOVERFLOW_FAIL \<and> \<not> fits True ?n (base + incr)" if "F = None"
    using that by (auto simp: F_def fit_def split: if_splits owtype.splits)
  have FS: "bo_owtype op \<noteq> BFOVERFLOW_FAIL \<or> fits True ?n (base + incr)" if "F = Some v" for v
    using that by (auto simp: F_def fit_def sat_ok_def split: if_splits)
  have sp: "spec_op op ?B = (case F of None \<Rightarrow> (None, ?B)
      | Some v \<Rightarrow> (Some (if bo_opcode op = BITFIELDOP_INCRBY then v else value_at ?B op), store ?B (unat ?o) ?n v))"
    using ok(2,3) by (cases "bo_opcode op") (auto simp: spec_op_def sat_ok_def F_def Let_def base_def incr_def split: option.splits)
  show ?thesis
  proof (cases F)
    case None
    then have "write_op p grown op = Some (None, p, False)" using C FN old ok(2,3)
      by (cases "bo_opcode op") (auto simp: write_op_def Let_def base_def incr_def split: prod.splits)
    then show ?thesis using sp None by simp
  next
    case (Some v)
    have "take_bit ?n (uint (word_of_int v :: 64 word)) = take_bit ?n v" using O(2) by (simp add: unsigned_of_int min_def)
    then obtain p' where p': "setSignedBitfield p ?o ?n v = Some p'" "length p' = length p" "bit_of p' = store ?B (unat ?o) ?n v"
      using set_unsigned [OF O(5,2) len] unfolding setSignedBitfield_def by blast
    have w: "write_op p grown op = Some (Some (if bo_opcode op = BITFIELDOP_INCRBY then v else value_at ?B op), p', grown \<or> value_at ?B op \<noteq> v)"
      using C Some FS [OF Some] old p'(1) ok(2,3)
      by (cases "bo_opcode op") (auto simp: write_op_def Let_def base_def incr_def split: prod.splits if_splits)
    have "bit_of p' \<noteq> ?B \<longleftrightarrow> value_at ?B op \<noteq> v"
      using store_same_iff [OF O(1) Ff [OF Some], of ?B "unat ?o"] ok(2) by (simp add: p'(3) value_at_def)
    then show ?thesis using w p'(2,3) sp Some by auto
  qed
qed

lemma write_unsigned:
  assumes ok: "op_ok op" "\<not> bo_sign op" "bo_opcode op \<noteq> BITFIELDOP_GET" and len: "unat (bo_offset op) + bo_bits op \<le> 8 * length p"
  shows "\<exists>p'. write_op p grown op = Some (fst (spec_op op (bit_of p)), p',
      fst (spec_op op (bit_of p)) \<noteq> None \<and> (grown \<or> bit_of p' \<noteq> bit_of p)) \<and>
    length p' = length p \<and> bit_of p' = snd (spec_op op (bit_of p))"
proof -
  let ?n = "bo_bits op" and ?o = "bo_offset op" and ?B = "bit_of p"
  note O = op_okD [OF ok(1)]
  note n63 = O(3) [OF ok(2)]
  let ?w = "word_of_int (value_at ?B op) :: 64 word"
  have old: "getUnsignedBitfield p ?o ?n = Some ?w" using get_unsigned [OF O(5,2) len] ok(2) by (simp add: value_at_def)
  have fv: "fits False ?n (value_at ?B op)" using value_range [OF ok(1)] ok(2) by simp
  have p63: "(2 :: int) ^ ?n \<le> 2 ^ 63" using n63 by (intro power_increasing) auto
  have uw: "uint (word_of_int x :: 64 word) = x" "sint (word_of_int x :: 64 word) = x" if "fits False ?n x" for x
    using that p63 by (auto simp: fits_def unsigned_of_int take_bit_int_eq_self intro: sint_exact simp: in_sint_def)
  define base incr where "base = (if bo_opcode op = BITFIELDOP_INCRBY then ?w else word_of_int (bo_i64 op))"
    and "incr = (if bo_opcode op = BITFIELDOP_INCRBY then bo_i64 op else 0)"
  let ?c = "checkUnsignedBitfieldOverflow base incr ?n (bo_owtype op)" and ?s = "uint base + incr"
  have b: "in_sint 64 incr" "uint base < 2 ^ ?n \<or> incr = 0"
    using O(4) fv uw(1) [OF fv] by (auto simp: base_def incr_def in_sint_def fits_def)
  note C = check_unsigned [OF O(1) n63 b, of "bo_owtype op"]
  have s: "?s = (if bo_opcode op = BITFIELDOP_INCRBY then value_at ?B op + bo_i64 op else bo_i64 op mod 2 ^ 64)"
    proof (cases "bo_opcode op = BITFIELDOP_INCRBY")
    case True
    then show ?thesis unfolding base_def incr_def uw(1) [OF fv] if_P [OF True] by simp
  qed (simp add: base_def incr_def unsigned_of_int take_bit_eq_mod)
  have sp: "spec_op op ?B = (case fit (bo_owtype op) False ?n ?s of None \<Rightarrow> (None, ?B)
      | Some v \<Rightarrow> (Some (if bo_opcode op = BITFIELDOP_INCRBY then v else value_at ?B op), store ?B (unat ?o) ?n v))"
    unfolding s using ok(2,3) by (cases "bo_opcode op") (auto simp: spec_op_def sat_ok_def Let_def split: option.splits)
  show ?thesis
  proof (cases "fit (bo_owtype op) False ?n ?s")
    case None
    then have "\<not> fits False ?n ?s" "bo_owtype op = BFOVERFLOW_FAIL" by (auto simp: fit_def split: if_splits owtype.splits)
    then have "write_op p grown op = Some (None, p, False)" using C old ok(2,3)
      by (cases "bo_opcode op") (auto simp: write_op_def Let_def base_def incr_def split: prod.splits)
    then show ?thesis using sp None by simp
  next
    case (Some v)
    note fits_v = fit_fits [OF O(1) Some]
    have "take_bit ?n (uint (word_of_int v :: 64 word)) = take_bit ?n v" using uw(1) [OF fits_v] by simp
    then obtain p' where p': "setUnsignedBitfield p ?o ?n (word_of_int v) = Some p'" "length p' = length p" "bit_of p' = store ?B (unat ?o) ?n v"
      using set_unsigned [OF O(5,2) len] by blast
    have nv: "(if fst ?c \<noteq> 0 then case snd ?c of Some w \<Rightarrow> w | None \<Rightarrow> 0 else base + word_of_int incr) = word_of_int v" "fst ?c \<noteq> 0 \<Longrightarrow> bo_owtype op \<noteq> BFOVERFLOW_FAIL"
    proof -
      have "snd ?c = Some (word_of_int v)" if "\<not> fits False ?n ?s" using C that Some by (cases "snd ?c") (auto simp flip: word_of_int_uint)
      moreover have "base + word_of_int incr = word_of_int v" if "fits False ?n ?s"
      proof -
        have "v = ?s" using Some that by (simp add: fit_def)
        then show ?thesis by simp
      qed
      ultimately show "(if fst ?c \<noteq> 0 then case snd ?c of Some w \<Rightarrow> w | None \<Rightarrow> 0 else base + word_of_int incr) = word_of_int v"
        using C by (auto split: if_splits)
      show "fst ?c \<noteq> 0 \<Longrightarrow> bo_owtype op \<noteq> BFOVERFLOW_FAIL" using C Some by (auto simp: fit_def split: if_splits)
    qed
    have w: "write_op p grown op = Some (Some (if bo_opcode op = BITFIELDOP_INCRBY then v else value_at ?B op), p', grown \<or> ?w \<noteq> word_of_int v)"
      using nv old p'(1) ok(2,3) uw(2) [OF fits_v] uw(2) [OF fv]
      by (cases "bo_opcode op") (auto simp: write_op_def Let_def base_def incr_def split: prod.splits if_splits)
    have "?w = word_of_int v \<longleftrightarrow> value_at ?B op = v" using uw(1) [OF fv] uw(1) [OF fits_v] by metis
    moreover have "bit_of p' \<noteq> ?B \<longleftrightarrow> value_at ?B op \<noteq> v"
      using store_same_iff [OF O(1) fits_v, of ?B "unat ?o"] ok(2) by (simp add: p'(3) value_at_def)
    ultimately show ?thesis using w p'(2,3) sp Some by auto
  qed
qed

text \<open>Reading works on a copy of nine bytes, filled up with zeros.\<close>

lemma read_op_at:
  assumes "op_ok op"
  shows "read_op src op = Some (value_at (bit_of src) op)"
proof -
  let ?o = "bo_offset op" and ?n = "bo_bits op"
  let ?byte = "drop_bit 3 ?o"
  let ?buf = "map (\<lambda>i. if i + unat ?byte < length src then src ! (i + unat ?byte) else 0) [0..<9]"
  note O = op_okD [OF assms]
  have "?o - ?byte * 8 = take_bit 3 ?o" by (simp add: take_bit_eq_mod drop_bit_eq_div minus_div_mult_eq_mod)
  moreover have "unat (take_bit 3 ?o) = unat ?o mod 8" unfolding unsigned_take_bit_eq by (simp add: take_bit_eq_mod)
  ultimately have o: "unat (?o - ?byte * 8) = unat ?o mod 8" by simp
  have m: "unat ?o mod 8 < 8" by simp
  have len: "unat (?o - ?byte * 8) + ?n < 2 ^ 64" "unat (?o - ?byte * 8) + ?n \<le> 8 * length ?buf" using O(2) m unfolding o by simp_all
  have B: "bit_of ?buf j = bit_of src (8 * (unat ?o div 8) + j)" if "j < 72" for j
  proof -
    have "j div 8 < 9" using that by (simp add: div_less_iff_less_mult)
    then show ?thesis unfolding bit_of_def offset_byte by (simp add: add.commute)
  qed
  have e: "field (bit_of ?buf) (unat ?o mod 8) ?n = field (bit_of src) (unat ?o) ?n"
  proof (rule bit_eqI)
    fix i :: nat
    have "8 * (unat ?o div 8) + (unat ?o mod 8 + ?n - 1 - i) = unat ?o + ?n - 1 - i" if "i < ?n"
      using that mult_div_mod_eq [of 8 "unat ?o"] by linarith
    then show "bit (field (bit_of ?buf) (unat ?o mod 8) ?n) i = bit (field (bit_of src) (unat ?o) ?n) i"
      unfolding bit_field using B [of "unat ?o mod 8 + ?n - 1 - i"] O(2) m by auto
  qed
  show ?thesis
  proof (cases "bo_sign op")
    case True
    then show ?thesis using get_signed [OF len(1) O(1,2) len(2)] e unfolding o by (simp add: read_op_def Let_def value_at_def sfield_def)
  next
    case False
    have "fits False ?n (value_at (bit_of src) op)" using value_range [OF assms] False by simp
    then have "in_sint 64 (value_at (bit_of src) op)" using O(1,3) False by (intro fits_in_sint [of False ?n]) auto
    then show ?thesis using get_unsigned [OF len(1) O(2) len(2)] e False sint_exact unfolding o by (simp add: read_op_def Let_def value_at_def)
  qed
qed

section \<open>All operations\<close>

fun spec_run :: "bitfieldOp list \<Rightarrow> (nat \<Rightarrow> bool) \<Rightarrow> int option list \<times> (nat \<Rightarrow> bool)" where
  "spec_run [] B = ([], B)"
| "spec_run (op # ops) B = (let (r, B1) = spec_op op B; (rs, B2) = spec_run ops B1 in (r # rs, B2))"

lemma exec_loop_at:
  assumes "\<And>op. op \<in> set ops \<Longrightarrow> op_ok op" "\<And>op. op \<in> set ops \<Longrightarrow> bo_opcode op \<noteq> BITFIELDOP_GET \<Longrightarrow> unat (bo_offset op) + bo_bits op \<le> 8 * length p"
  shows "\<exists>p' c. exec_loop p grown ops = Some (fst (spec_run ops (bit_of p)), p', c) \<and> length p' = length p \<and> bit_of p' = snd (spec_run ops (bit_of p))"
  using assms
proof (induction ops arbitrary: p)
  case (Cons op ops)
  have ok: "op_ok op" using Cons.prems(1) by simp
  obtain p1 c1 where h: "(if bo_opcode op = BITFIELDOP_GET then do { v \<leftarrow> read_op p op; Some (Some v, p, False) } else write_op p grown op) =
      Some (fst (spec_op op (bit_of p)), p1, c1)" "length p1 = length p" "bit_of p1 = snd (spec_op op (bit_of p))"
  proof (cases "bo_opcode op = BITFIELDOP_GET")
    case True
    then show ?thesis using that [of p False] read_op_at [OF ok, of p] by (simp add: spec_op_def Let_def)
  next
    case False
    then have "unat (bo_offset op) + bo_bits op \<le> 8 * length p" using Cons.prems(2) by simp
    then show ?thesis using that write_signed [OF ok _ False, of p grown] write_unsigned [OF ok _ False, of p grown] False by (cases "bo_sign op") auto
  qed
  obtain p2 c2 where "exec_loop p1 grown ops = Some (fst (spec_run ops (bit_of p1)), p2, c2)" "length p2 = length p1" "bit_of p2 = snd (spec_run ops (bit_of p1))"
    using Cons.IH [of p1] Cons.prems h(2) by auto
  then show ?case using h by (simp add: case_prod_beta Let_def)
qed simp

section \<open>Arguments\<close>

lemma offset_argument:
  assumes "getBitOffsetFromArgument lim p hash bits = Inr off"
  shows "unat off < 2 ^ 63"
proof -
  define u where "u = (p \<noteq> [] \<and> hd p = 35 \<and> hash \<and> bits > 0)"
  obtain m where m: "string2ll (if u then tl p else p) = Some m"
    using assms unfolding getBitOffsetFromArgument_def Let_def u_def [symmetric] by (auto split: option.splits)
  define l where "l = (if u then to_sint 64 (m * int bits) else m)"
  have l: "0 \<le> l" "in_sint 64 l" "off = word_of_int l"
    using assms m to_sint_range [of 64 "m * int bits"] unfolding getBitOffsetFromArgument_def Let_def u_def [symmetric] l_def
    by (auto simp: string2ll_iff split: if_splits)
  then have "uint off = l" by (simp add: in_sint_def unsigned_of_int take_bit_int_eq_self)
  then have "int (unat off) < int (2 ^ 63)" using l(2) by (simp add: in_sint_def)
  then show ?thesis by (simp only: of_nat_less_iff)
qed

lemma type_argument: "getBitfieldTypeFromArgument p = Inr (sign, bits) \<Longrightarrow> 0 < bits \<and> bits \<le> (if sign then 64 else 63)"
  by (auto simp: getBitfieldTypeFromArgument_def Let_def split: if_splits option.splits)

definition parsed :: "bitfieldOp list \<Rightarrow> bool \<Rightarrow> 64 word \<Rightarrow> bool" where
  "parsed ops readonly highest \<longleftrightarrow> (\<forall>op \<in> set ops. op_ok op \<and>
     (bo_opcode op \<noteq> BITFIELDOP_GET \<longrightarrow> \<not> readonly \<and> unat (bo_offset op) + bo_bits op \<le> unat highest + 1))"

lemma parsed_get: "parsed ops readonly highest \<Longrightarrow> op_ok op \<Longrightarrow> bo_opcode op = BITFIELDOP_GET \<Longrightarrow> parsed (ops @ [op]) readonly highest"
  by (auto simp: parsed_def)

lemma parsed_write:
  assumes "parsed ops readonly highest" "op_ok op"
  shows "parsed (ops @ [op]) False (if highest < bo_offset op + of_nat (bo_bits op) - 1 then bo_offset op + of_nat (bo_bits op) - 1 else highest)"
proof -
  let ?w = "bo_offset op + of_nat (bo_bits op) - 1"
  note O = op_okD [OF assms(2)]
  have "?w = of_nat (unat (bo_offset op) + bo_bits op - 1)" using O(1) by (simp add: of_nat_diff)
  then have w: "unat ?w = unat (bo_offset op) + bo_bits op - 1" using O(5) by (simp add: unat_of_nat)
  show ?thesis using assms O(1) w unfolding parsed_def by (fastforce simp: word_less_nat_alt not_less)
qed

lemma parse_loop_parsed:
  "parsed ops readonly highest \<Longrightarrow> parse_loop lim args ow ops readonly highest = Inr (ops', readonly', highest') \<Longrightarrow> parsed ops' readonly' highest'"
proof (induction lim args ow ops readonly highest rule: parse_loop.induct)
  case (2 lim subcmd args ow ops readonly highest)
  show ?case
  proof (cases "subcommand subcmd (length args)")
    case None
    then show ?thesis using 2 by (auto split: if_splits option.splits)
  next
    case (Some oc)
    obtain sign bits off where a: "getBitfieldTypeFromArgument (args ! 0) = Inr (sign, bits)" "getBitOffsetFromArgument lim (args ! 1) True bits = Inr off"
      using "2.prems"(2) Some by (auto split: sum.splits)
    let ?op = "\<lambda>i64. \<lparr>bo_offset = off, bo_i64 = i64, bo_opcode = oc, bo_owtype = ow, bo_bits = bits, bo_sign = sign\<rparr>"
    have ok: "op_ok (?op i)" if "in_sint 64 i" for i using that type_argument [OF a(1)] offset_argument [OF a(2)] by (simp add: op_ok_def)
    show ?thesis
    proof (cases "oc = BITFIELDOP_GET")
      case True
      have "parsed (ops @ [?op 0]) readonly highest" by (rule parsed_get [OF "2.prems"(1) ok]) (simp_all add: True in_sint_def)
      then show ?thesis using "2.IH"(2) [OF Some a(1) refl a(2) True] "2.prems"(2) Some a True by simp
    next
      case False
      then obtain i where i: "string2ll (args ! 2) = Some i" using "2.prems"(2) Some a by (auto split: option.splits)
      have "in_sint 64 i" using i by (simp add: string2ll_iff)
      from parsed_write [OF "2.prems"(1) ok [OF this]] have "parsed (ops @ [?op i]) False (if highest < off + of_nat bits - 1 then off + of_nat bits - 1 else highest)" by (simp cong: if_cong)
      then show ?thesis using "2.IH"(3) [OF Some a(1) refl a(2) False i] "2.prems"(2) Some a False i by simp
    qed
  qed
qed simp

section \<open>Strings\<close>

definition key_bits :: "keyval \<Rightarrow> nat \<Rightarrow> bool" where
  "key_bits kv = bit_of (case kv of StringKey s \<Rightarrow> s | _ \<Rightarrow> [])"

lemma bit_of_zeros: "bit_of (s @ replicate n 0) = bit_of s"
  by (rule ext) (auto simp: bit_of_def nth_append)

lemma bit_of_grow: "bit_of (grow_zero s n) = bit_of s" "n \<le> length (grow_zero s n)"
  by (auto simp: grow_zero_def bit_of_zeros)

lemma lookup_bits:
  assumes "lookupStringForBitCommand kv w = Some (s, g)"
  shows "bit_of s = key_bits kv" "unat w + 1 \<le> 8 * length s"
proof -
  have s: "bit_of s = key_bits kv" "unat w div 8 + 1 \<le> length s"
    using assms bit_of_grow [where n = "unat w div 8 + 1"] bit_of_zeros [of "[]" "unat w div 8 + 1"]
    by (auto simp: lookupStringForBitCommand_def key_bits_def offset_byte Let_def split: keyval.splits)
  then show "bit_of s = key_bits kv" "unat w + 1 \<le> 8 * length s" by auto
qed

section \<open>Properties\<close>

text \<open>
  (C8) \<^verbatim>\<open>BITFIELD\<close> never reads or writes outside the string, for any arguments and any contents of the
  key. Without an error, its replies and the new contents are those of the subcommands executed in
  order on the infinite sequence of bits that the string and zeros behind it stand for: integers of any
  width at any offset, wrapped, saturated or refused when they do not fit; a saturating assignment of a value far below a signed field stores the
  greatest value, as \<open>sat_ok\<close> says and the code does. An error gives no new contents.
\<close>

theorem bitfieldGeneric_refines:
  "\<exists>r. bitfieldGeneric lim ro_flag args kv = Some r \<and>
    (case r of
       Inr (rs, kv', changes) \<Rightarrow> \<exists>ops readonly highest. parse_loop lim args BFOVERFLOW_WRAP [] True 0 = Inr (ops, readonly, highest) \<and>
         (rs, key_bits kv') = spec_run ops (key_bits kv) \<and> kv \<noteq> OtherKey \<and> \<not> (ro_flag \<and> \<not> readonly)
     | Inl e \<Rightarrow> (case parse_loop lim args BFOVERFLOW_WRAP [] True 0 of
           Inl e' \<Rightarrow> e = e'
         | Inr (ops, readonly, highest) \<Rightarrow> (if ro_flag \<and> \<not> readonly then e = ReadOnlyOnly else e = WrongType \<and> kv = OtherKey)))"
proof (cases "parse_loop lim args BFOVERFLOW_WRAP [] True 0")
  case (Inl e)
  then show ?thesis by (simp add: bitfieldGeneric_def)
next
  case (Inr x)
  obtain ops readonly highest where x: "x = (ops, readonly, highest)" by (cases x) auto
  have P: "parsed ops readonly highest" by (rule parse_loop_parsed [OF _ Inr [unfolded x]]) (simp add: parsed_def)
  have ok: "\<And>op. op \<in> set ops \<Longrightarrow> op_ok op" using P by (simp add: parsed_def)
  show ?thesis
  proof (cases readonly)
    case True
    then have g: "\<And>op. op \<in> set ops \<Longrightarrow> bo_opcode op = BITFIELDOP_GET" using P by (auto simp: parsed_def)
    let ?s = "case kv of StringKey s \<Rightarrow> s | _ \<Rightarrow> []"
    obtain p' c where e: "exec_loop ?s False ops = Some (fst (spec_run ops (bit_of ?s)), p', c)" using exec_loop_at [of ops ?s False, OF ok] g by auto
    have "snd (spec_run ops B) = B" for B using g
      by (induction ops arbitrary: B) (simp_all add: spec_op_def Let_def case_prod_beta)
    then have s: "spec_run ops B = (fst (spec_run ops B), B)" for B by (metis prod.collapse)
    show ?thesis using Inr x True e s [of "key_bits kv"]
      by (cases "kv = OtherKey") (auto simp: bitfieldGeneric_def key_bits_def)
  next
    case False
    show ?thesis
    proof (cases "ro_flag \<or> kv = OtherKey")
      case True
      then show ?thesis using Inr x False by (auto simp: bitfieldGeneric_def lookupStringForBitCommand_def Let_def split: keyval.splits)
    next
      case nro: False
      then obtain s g where l: "lookupStringForBitCommand kv highest = Some (s, g)"
        by (cases kv) (auto simp: lookupStringForBitCommand_def Let_def)
      have len: "unat (bo_offset op) + bo_bits op \<le> 8 * length s" if "op \<in> set ops" "bo_opcode op \<noteq> BITFIELDOP_GET" for op
        using P that lookup_bits(2) [OF l] by (fastforce simp: parsed_def)
      obtain p' c where "exec_loop s (g > 0) ops = Some (fst (spec_run ops (bit_of s)), p', c)" "bit_of p' = snd (spec_run ops (bit_of s))"
        using exec_loop_at [of ops s "g > 0", OF ok len] by auto
      then show ?thesis using Inr x False nro l lookup_bits(1) [OF l] by (auto simp: bitfieldGeneric_def key_bits_def)
    qed
  qed
qed

text \<open>
  (C34) Writing an integer of up to 64 bits at any bit offset inside a string and reading it back gives the
  integer, reduced to the width of the field; the integers in bits that do not overlap the field are unchanged.
\<close>

theorem bitfield_roundtrip:
  assumes "unat off + n < 2 ^ 64" "0 < n" "n \<le> 64" "unat off + n \<le> 8 * length p"
  shows "\<exists>p'. setSignedBitfield p off n v = Some p' \<and> getSignedBitfield p' off n = Some (signed_take_bit (n - 1) v) \<and>
    getUnsignedBitfield p' off n = Some (word_of_int (take_bit n v)) \<and>
    (\<forall>off' n'. unat off' + n' \<le> unat off \<or> unat off + n \<le> unat off' \<longrightarrow> unat off' + n' < 2 ^ 64 \<longrightarrow> n' \<le> 64 \<longrightarrow>
      unat off' + n' \<le> 8 * length p \<longrightarrow> getUnsignedBitfield p' off' n' = getUnsignedBitfield p off' n')"
proof -
  have "take_bit n (uint (word_of_int v :: 64 word)) = take_bit n v" using assms(3) by (simp add: unsigned_of_int min_def)
  then obtain p' where p': "setSignedBitfield p off n v = Some p'" "length p' = length p" "bit_of p' = store (bit_of p) (unat off) n v"
    using set_unsigned [OF assms(1,3,4)] unfolding setSignedBitfield_def by blast
  have len: "unat off + n \<le> 8 * length p'" using assms(4) p'(2) by simp
  have "signed_take_bit (n - 1) (take_bit n v) = signed_take_bit (n - 1) v"
    using assms(2) by (intro bit_eqI) (auto simp: bit_signed_take_bit_iff bit_take_bit_iff min_def)
  then have "getSignedBitfield p' off n = Some (signed_take_bit (n - 1) v)" "getUnsignedBitfield p' off n = Some (word_of_int (take_bit n v))"
    using get_signed [OF assms(1-3) len] get_unsigned [OF assms(1,3) len] by (simp_all add: p'(3) sfield_def field_store)
  moreover have "getUnsignedBitfield p' off' n' = getUnsignedBitfield p off' n'"
    if "unat off' + n' \<le> unat off \<or> unat off + n \<le> unat off'" "unat off' + n' < 2 ^ 64" "n' \<le> 64" "unat off' + n' \<le> 8 * length p" for off' n'
    using get_unsigned [OF that(2,3), of p'] get_unsigned [OF that(2,3,4)] that(4) p'(2) field_store_disjoint [OF that(1)] by (simp add: p'(3))
  ultimately show ?thesis using p'(1) by blast
qed

theorem bitfield_roundtrip_witness:
  "\<exists>p'. setSignedBitfield [0, 0] 7 5 (- 9) = Some p' \<and> getSignedBitfield p' 7 5 = Some (- 9) \<and> getUnsignedBitfield p' 7 5 = Some 23"
  using bitfield_roundtrip [of 7 5 "[0, 0]" "- 9"] by (auto simp: signed_take_bit_int_eq_self take_bit_eq_mod)

text \<open>
  (C39) The test for signed overflow is wrong for values far below the range: setting a signed field
  narrower than 64 bits to such a value with saturation stores the greatest value instead of the least.
\<close>

theorem checkSignedBitfieldOverflow_far_below:
  assumes "0 < n" "n < 64" "in_sint 64 v" "v < 2 ^ (n - 1) - 2 ^ 63"
  shows "checkSignedBitfieldOverflow v 0 n BFOVERFLOW_SAT = (1, Some (2 ^ (n - 1) - 1)) \<and> v < - (2 ^ (n - 1))"
proof -
  have "\<not> fits True n v" "v < 2 ^ (n - 1)" using check_signed_far(2) [OF assms] assms(2-4) power_increasing [of "n - 1" 63 "2 :: int"] by auto
  then show ?thesis using check_signed_far(1) [OF assms] by (simp add: fits_def)
qed

theorem checkSignedBitfieldOverflow_far_below_witness:
  "checkSignedBitfieldOverflow INT64_MIN 0 8 BFOVERFLOW_SAT = (1, Some 127)"
  using checkSignedBitfieldOverflow_far_below [of 8 INT64_MIN] by (simp add: in_sint_def)

text \<open>
  (C40) An offset with a number sign is multiplied by the width of the field in 64 bits without a test for overflow. For every width of at least 4 bits that is a power of two, the number
  \<open>k + 2 ^ 64 div width\<close> is treated as the number \<open>k\<close>: both give the offset \<open>k * width\<close> if that is inside of the limit on strings, and both are refused otherwise. So for every field inside of the limit
  there is a number far behind it that is accepted for the same field.
\<close>

theorem getBitOffsetFromArgument_wraps:
  assumes "2 \<le> j" "j \<le> 6" "0 \<le> k" "k * 2 ^ j < 2 ^ 63"
  shows "if mustObeyClient lim \<or> k * 2 ^ j div 8 < proto_max_bulk_len lim
    then getBitOffsetFromArgument lim (35 # dec_int k) True (2 ^ j) = Inr (word_of_int (k * 2 ^ j)) \<and>
      getBitOffsetFromArgument lim (35 # dec_int (k + 2 ^ (64 - j))) True (2 ^ j) = Inr (word_of_int (k * 2 ^ j))
    else getBitOffsetFromArgument lim (35 # dec_int k) True (2 ^ j) = Inl InvalidOffset \<and>
      getBitOffsetFromArgument lim (35 # dec_int (k + 2 ^ (64 - j))) True (2 ^ j) = Inl InvalidOffset"
proof -
  have p: "(2::int) ^ (64 - j) * 2 ^ j = 2 ^ 64" "(2::int) ^ (64 - j) \<le> 2 ^ 62" "(4::int) \<le> 2 ^ j"
    using assms(1,2) power_increasing [of 2 j "2::int"] power_increasing [of "64 - j" 62 "2::int"] by (simp_all flip: power_add)
  have "k * 4 \<le> k * 2 ^ j" using p(3) assms(3) by (rule mult_left_mono)
  then have k: "k < 2 ^ 61" using assms(4) by simp
  have "in_sint 64 (k + q)" if "0 \<le> q" "q \<le> 2 ^ 62" for q using that k assms(3) by (simp add: in_sint_def)
  from this [of 0] this [OF _ p(2)] have "in_sint 64 k" "in_sint 64 (k + 2 ^ (64 - j))" by simp_all
  then have "string2ll (dec_int k) = Some k" "string2ll (dec_int (k + 2 ^ (64 - j))) = Some (k + 2 ^ (64 - j))"
    by (simp_all add: string2ll_iff)
  moreover have "to_sint 64 x = x" if "0 \<le> x" "x < 2 ^ 63" for x by (rule to_sint_id) (use that in \<open>simp_all add: in_sint_def\<close>)
  from this [OF _ assms(4)] have "to_sint 64 (k * 2 ^ j) = k * 2 ^ j" using assms(3) by simp
  moreover have "to_sint 64 ((k + 2 ^ (64 - j)) * 2 ^ j) = to_sint 64 (k * 2 ^ j)"
  proof -
    have "(k + 2 ^ (64 - j)) * 2 ^ j = k * 2 ^ j + 2 ^ 64" unfolding distrib_right p(1) ..
    then show ?thesis using to_sint_to_uint [of 64 "k * 2 ^ j + 2 ^ 64"] to_sint_to_uint [of 64 "k * 2 ^ j"] by simp
  qed
  moreover have "(k * 2 ^ j < 0) = False" using assms(3) by (simp add: mult_less_0_iff)
  ultimately show ?thesis by (simp add: getBitOffsetFromArgument_def Let_def drop_bit_eq_div not_less)
qed

theorem getBitOffsetFromArgument_wraps_witness:
  "getBitOffsetFromArgument \<lparr>proto_max_bulk_len = 2 ^ 29, mustObeyClient = False\<rparr> (35 # dec_int (2 ^ 58)) True 64 = Inr 0"
  using getBitOffsetFromArgument_wraps [of 6 0 "\<lparr>proto_max_bulk_len = 2 ^ 29, mustObeyClient = False\<rparr>"] by simp

end
