(* ===== verification/Bitops_Find.thy ===== *)
theory Bitops_Find
  imports Bitops_Props
begin

unbundle bit_operations_syntax

text \<open>
  Single bits: \<^verbatim>\<open>SETBIT\<close> and \<^verbatim>\<open>GETBIT\<close>, and the search for the first bit with a value, which skips bytes and words and
  scans one word bit by bit.
\<close>

section \<open>The search\<close>

lemma skip_bytes_at:
  "skip_bytes addr sv cs pos = (cs', pos', found) \<Longrightarrow>
    \<exists>k. cs = replicate k sv @ cs' \<and> pos' = pos + 8 * int k \<and> (found \<longrightarrow> cs' \<noteq> [] \<and> hd cs' \<noteq> sv)"
proof (induction addr sv cs pos rule: skip_bytes.induct)
  case (2 addr sv c cs pos)
  show ?case
  proof (cases "addr mod 8 = 0 \<or> c \<noteq> sv")
    case True
    then show ?thesis using "2.prems" by (intro exI [of _ 0]) (auto split: if_splits)
  next
    case False
    then obtain k where "cs = replicate k sv @ cs'" "pos' = pos + 8 + 8 * int k" "found \<longrightarrow> cs' \<noteq> [] \<and> hd cs' \<noteq> sv"
      using 2 by auto
    then show ?thesis using False by (intro exI [of _ "Suc k"]) auto
  qed
qed auto

lemma skip_words_at:
  "skip_words sv cs pos = (cs', pos') \<Longrightarrow>
    \<exists>k. cs = replicate k sv @ cs' \<and> pos' = pos + 8 * int k \<and> (length cs' \<ge> 8 \<longrightarrow> take 8 cs' \<noteq> replicate 8 sv)"
proof (induction sv cs pos rule: skip_words.induct)
  case (1 sv cs pos)
  show ?case
  proof (cases "length cs \<ge> 8 \<and> take 8 cs = replicate 8 sv")
    case True
    then have "skip_words sv (drop 8 cs) (pos + 64) = (cs', pos')" using "1.prems" by (subst (asm) skip_words.simps) simp
    then obtain k where k: "drop 8 cs = replicate k sv @ cs'" "pos' = pos + 64 + 8 * int k" "length cs' \<ge> 8 \<longrightarrow> take 8 cs' \<noteq> replicate 8 sv"
      using "1.IH" [OF True] by blast
    have "cs = replicate 8 sv @ drop 8 cs" using True by (metis append_take_drop_id)
    then have "cs = replicate (8 + k) sv @ cs'" unfolding replicate_add using k(1) by simp
    then show ?thesis using k(2,3) by (intro exI [of _ "8 + k"]) simp
  next
    case False
    then have "skip_words sv cs pos = (cs, pos)" by (subst skip_words.simps) auto
    then show ?thesis using "1.prems" False by (intro exI [of _ 0]) auto
  qed
qed

lemma bit_of_Cons: "bit_of (c # cs) i = (if i < 8 then bit c (7 - i) else bit_of cs (i - 8))"
proof (cases "i < 8")
  case False
  then have "i div 8 = Suc ((i - 8) div 8)" "i mod 8 = (i - 8) mod 8" by (simp_all add: le_div_geq le_mod_geq)
  then show ?thesis using False by (simp add: bit_of_def)
qed (simp add: bit_of_def)

lemma bit_of_Nil: "\<not> bit_of [] i"
  by (simp add: bit_of_def)

lemma bit_of_append: "bit_of (replicate k sv @ cs) i = (if i < 8 * k then bit sv (7 - i mod 8) else bit_of cs (i - 8 * k))"
proof (induction k arbitrary: i)
  case (Suc k)
  have "i < 8 \<Longrightarrow> i mod 8 = i" "\<not> i < 8 \<Longrightarrow> i mod 8 = (i - 8) mod 8" by (simp_all add: le_mod_geq)
  then show ?case using Suc [of "i - 8"] by (auto simp: bit_of_Cons)
qed simp

lemma load_word_at:
  "8 * k \<le> 64 \<Longrightarrow> bit (load_word k cs w) n \<longleftrightarrow> n < 64 \<and> (if n < 8 * k then bit_of cs (8 * k - 1 - n) else bit w (n - 8 * k))"
proof (induction k arbitrary: cs w)
  case 0
  then show ?case by (auto dest: bit_imp_le_length)
next
  case (Suc k)
  have sh: "bit (push_bit 8 w OR v) m \<longleftrightarrow> m < 64 \<and> (8 \<le> m \<and> bit w (m - 8)) \<or> bit v m" for v :: "64 word" and m
    by (auto simp: bit_or_iff bit_push_bit_iff)
  show ?case
  proof (cases cs)
    case Nil
    show ?thesis
    proof (cases "n < 8 * k")
      case True
      then show ?thesis using Suc.IH [of "[]" "push_bit 8 w"] Suc.prems Nil by (simp add: bit_of_Nil)
    next
      case False
      then show ?thesis using Suc.IH [of "[]" "push_bit 8 w"] Suc.prems Nil sh [of 0 "n - 8 * k"]
        by (auto simp: bit_of_Nil add.commute)
    qed
  next
    case (Cons c cs')
    have ih: "bit (load_word (Suc k) cs w) n \<longleftrightarrow> n < 64 \<and> (if n < 8 * k then bit_of cs' (8 * k - 1 - n) else bit (push_bit 8 w OR ucast c) (n - 8 * k))"
      using Suc.IH [of cs' "push_bit 8 w OR ucast c"] Suc.prems Cons by simp
    have u: "bit (ucast c :: 64 word) m \<longleftrightarrow> bit c m" for m using bit_imp_le_length [of c m] by (auto simp: bit_ucast_iff)
    show ?thesis
    proof (cases "n < 8 * k")
      case True
      then show ?thesis unfolding ih using Cons by (auto simp: bit_of_Cons)
    next
      case False
      have "bit c (n - 8 * k) \<Longrightarrow> n - 8 * k < 8" using bit_imp_le_length [of c "n - 8 * k"] by simp
      then show ?thesis unfolding ih sh u using False Cons by (auto simp: bit_of_Cons add.commute)
    qed
  qed
qed

lemma scan_word_at:
  "k \<le> 64 \<Longrightarrow> d < k \<Longrightarrow> bit w (k - 1 - d) = b \<Longrightarrow> (\<And>e. e < d \<Longrightarrow> bit w (k - 1 - e) \<noteq> b) \<Longrightarrow> scan_word k w b pos = Some (pos + int d)"
proof (induction k arbitrary: d pos)
  case (Suc k)
  have t: "(push_bit k 1 AND w \<noteq> 0) = bit w k" using test_bit [of w k] Suc.prems(1) by (simp add: and.commute)
  show ?case
  proof (cases d)
    case 0
    then show ?thesis using t Suc.prems by simp
  next
    case (Suc d')
    have "bit w k \<noteq> b" using Suc.prems(4) [of 0] Suc by simp
    moreover have "scan_word k w b (pos + 1) = Some (pos + 1 + int d')"
    proof (rule Suc.IH)
      show "bit w (k - 1 - e) \<noteq> b" if "e < d'" for e using Suc.prems(4) [of "Suc e"] that Suc by simp
    qed (use Suc.prems Suc in auto)
    ultimately show ?thesis using t Suc by simp
  qed
qed simp

text \<open>Behind the bytes that are skipped, the first bit looked for is in the next word, if there is one.\<close>

lemma word_has_bit:
  assumes "length cs \<ge> 8 \<longrightarrow> take 8 cs \<noteq> replicate 8 (if b then 0 else 255)"
  shows "(\<exists>j < 64. bit_of cs j = b) \<longleftrightarrow> (\<exists>j. bit_of cs j = b)"
proof (cases "length cs \<ge> 8")
  case True
  then obtain i where i: "i < 8" "cs ! i \<noteq> (if b then 0 else 255)" using assms by (auto simp: list_eq_iff_nth_eq)
  have "\<exists>m < 8. bit (cs ! i) m = b"
  proof (rule ccontr)
    assume n: "\<not> ?thesis"
    have m: "(255 :: byte) = mask 8" by (simp add: mask_eq_exp_minus_1)
    have "cs ! i = (if b then 0 else 255)" unfolding m
      by (rule bit_word_eqI) (use n in \<open>auto simp: bit_mask_iff simp del: mask_numeral\<close>)
    then show False using i(2) by simp
  qed
  then obtain m where m: "m < 8" "bit (cs ! i) m = b" by blast
  define r where "r = 7 - m"
  have r: "r < 8" "7 - r = m" using m(1) by (simp_all add: r_def)
  have "bit_of cs (8 * i + r) = b" "8 * i + r < 64"
    using r m(2) i(1) True by (simp_all add: bit_of_def)
  then show ?thesis by blast
next
  case False
  have z: "\<not> bit_of cs j" if "j \<ge> 56" for j
  proof -
    have "7 \<le> j div 8" using that by (simp add: less_eq_div_iff_mult_less_eq)
    then show ?thesis using False by (simp add: bit_of_def)
  qed
  show ?thesis
  proof (cases b)
    case True
    have "j < 64" if "bit_of cs j" for j using that z [of j] by (cases "56 \<le> j") auto
    then show ?thesis using True by auto
  next
    case False
    then show ?thesis using z [of 56] by (intro iffI exI [of _ 56]) auto
  qed
qed

text \<open>
  (C35) The search returns the position of the first bit with the value, for any alignment of the memory:
  for clear bits the string counts as followed by zeros, and if no bit is set it returns -1. The panic at its end is
  not reached.
\<close>

theorem redisBitpos_first:
  "redisBitpos addr s b = Some (if \<exists>i. bit_of s i = b then int (LEAST i. bit_of s i = b) else - 1)"
proof -
  let ?sv = "if b then 0 else 255 :: byte"
  obtain cs pos found where sb: "skip_bytes addr ?sv s 0 = (cs, pos, found)" by (metis prod_cases3)
  obtain cs' pos' where sw: "(if \<not> found then skip_words ?sv cs pos else (cs, pos)) = (cs', pos')" by fastforce
  obtain k1 where k1: "s = replicate k1 ?sv @ cs" "pos = 8 * int k1" "found \<longrightarrow> cs \<noteq> [] \<and> hd cs \<noteq> ?sv"
    using skip_bytes_at [OF sb] by auto
  obtain k2 where k2: "cs = replicate k2 ?sv @ cs'" "pos' = pos + 8 * int k2" "length cs' \<ge> 8 \<longrightarrow> take 8 cs' \<noteq> replicate 8 ?sv"
  proof (cases found)
    case True
    then have "length cs \<ge> 8 \<longrightarrow> take 8 cs \<noteq> replicate 8 ?sv" using k1(3) by (cases cs) (auto simp: numeral_eq_Suc)
    then show ?thesis using that [of 0] True sw by simp
  next
    case False
    then show ?thesis using that sw skip_words_at [of ?sv cs pos cs' pos'] by auto
  qed
  define k where "k = k1 + k2"
  have s: "s = replicate k ?sv @ cs'" "pos' = 8 * int k" using k1(1,2) k2(1,2) by (simp_all add: k_def replicate_add)
  have low: "bit_of s i \<noteq> b" if "i < 8 * k" for i
  proof -
    have m: "(255 :: byte) = mask 8" by (simp add: mask_eq_exp_minus_1)
    have "7 - i mod 8 < 8" by linarith
    then show ?thesis unfolding s(1) bit_of_append m using that by (auto simp: bit_mask_iff simp del: mask_numeral)
  qed
  have high: "bit_of s (8 * k + j) = bit_of cs' j" for j unfolding s(1) bit_of_append by simp
  have ex: "(\<exists>i. bit_of s i = b) \<longleftrightarrow> (\<exists>j. bit_of cs' j = b)" using low high by (metis add.commute le_Suc_ex not_le)
  let ?w = "load_word 8 cs' 0"
  have w: "bit ?w n \<longleftrightarrow> n < 64 \<and> bit_of cs' (63 - n)" for n using load_word_at [of 8 cs' 0 n] by auto
  have R: "redisBitpos addr s b = (if b \<and> ?w = 0 then Some (- 1) else scan_word 64 ?w b pos')"
    unfolding redisBitpos_def Let_def sb sw by (simp add: sw)
  show ?thesis
  proof (cases "\<exists>j. bit_of cs' j = b")
    case True
    define d where "d = (LEAST j. bit_of cs' j = b)"
    obtain j where "j < 64" "bit_of cs' j = b" using True word_has_bit [OF k2(3)] by blast
    then have d: "d < 64" "bit_of cs' d = b" "\<And>e. e < d \<Longrightarrow> bit_of cs' e \<noteq> b"
      unfolding d_def using Least_le [of "\<lambda>j. bit_of cs' j = b" j] LeastI [of "\<lambda>j. bit_of cs' j = b" j] not_less_Least by fastforce+
    have "scan_word 64 ?w b pos' = Some (pos' + int d)"
    proof (rule scan_word_at)
      have n: "64 - 1 - e < 64" "63 - (64 - 1 - e) = e" if "e < 64" for e :: nat using that by linarith+
      show "bit ?w (64 - 1 - d) = b" unfolding w using n [OF d(1)] d(2) by simp
      show "bit ?w (64 - 1 - e) \<noteq> b" if "e < d" for e unfolding w using n [of e] d(1) d(3) [OF that] that by simp
    qed (use d(1) in auto)
    moreover have "\<not> (b \<and> ?w = 0)" using w [of "63 - d"] d(1,2) by auto
    moreover have "(LEAST i. bit_of s i = b) = 8 * k + d"
    proof (rule Least_equality)
      show "bit_of s (8 * k + d) = b" using high d(2) by simp
      show "8 * k + d \<le> i" if "bit_of s i = b" for i
      proof (rule ccontr)
        assume "\<not> 8 * k + d \<le> i"
        moreover have "8 * k \<le> i" using low [of i] that by (cases "i < 8 * k") auto
        ultimately have "i = 8 * k + (i - 8 * k)" "i - 8 * k < d" by linarith+
        then show False using d(3) [of "i - 8 * k"] high [of "i - 8 * k"] that by simp
      qed
    qed
    ultimately show ?thesis using R ex True s(2) by simp
  next
    case False
    have b: b using False word_has_bit [OF k2(3)] bit_of_def [of cs' "8 * length cs'"] by auto
    have "?w = 0" by (rule bit_word_eqI) (use w False b in auto)
    then show ?thesis using R b ex False by simp
  qed
qed

section \<open>Single bits\<close>

lemma test_byte_bit: "uint (c :: byte) AND push_bit b 1 \<noteq> 0 \<longleftrightarrow> bit c b"
proof -
  have "uint c AND push_bit b 1 = (if bit c b then push_bit b 1 else 0)"
    by (rule bit_eqI) (auto simp: bit_and_iff bit_uint_iff bit_exp_iff dest: bit_imp_le_length)
  then show ?thesis by (simp add: push_bit_eq_mult)
qed

lemma write_byte_bit:
  "bit (word_of_int ((uint (c :: byte) AND NOT (push_bit b 1)) OR push_bit b (of_bool x)) :: byte) n \<longleftrightarrow> n < 8 \<and> (if n = b then x else bit c n)"
  by (auto simp: bit_word_of_int_iff bit_or_iff bit_and_iff bit_not_iff bit_uint_iff bit_exp_iff dest: bit_imp_le_length)

text \<open>
  \<^verbatim>\<open>SETBIT\<close> replies the old value of the bit, changes this bit only, and makes the string longer with
  zeros where necessary; \<^verbatim>\<open>GETBIT\<close> then replies the value that was set.
\<close>

theorem setbitCommand_sets:
  assumes off: "getBitOffsetFromArgument lim arg2 False 0 = Inr off" and on: "string2l arg3 = Some (of_bool x)" and kv: "kv \<noteq> OtherKey"
  shows "\<exists>kv' dirty. setbitCommand lim arg2 arg3 kv = Some (Inr (key_bits kv (unat off), kv', dirty)) \<and>
    key_bits kv' = (key_bits kv)(unat off := x) \<and> getbitCommand lim arg2 kv' = Inr x"
proof -
  obtain s g where l: "lookupStringForBitCommand kv off = Some (s, g)" using kv by (cases kv) (auto simp: lookupStringForBitCommand_def Let_def)
  let ?i = "unat off"
  have i: "?i div 8 < length s" using lookup_bits(2) [OF l] by (simp add: div_less_iff_less_mult)
  have B: "bit_of s = key_bits kv" by (rule lookup_bits(1) [OF l])
  let ?c = "word_of_int ((uint (s ! (?i div 8)) AND NOT (push_bit (7 - ?i mod 8) 1)) OR push_bit (7 - ?i mod 8) (of_bool x)) :: byte"
  define s' where "s' = (if g > 0 \<or> key_bits kv ?i \<noteq> x then s[?i div 8 := ?c] else s)"
  have old: "uint (s ! (?i div 8)) AND push_bit (7 - ?i mod 8) 1 \<noteq> 0 \<longleftrightarrow> key_bits kv ?i"
    unfolding test_byte_bit B [symmetric] using i by (simp add: bit_of_def)
  have ob: "of_bool x AND NOT 1 = (0 :: int)" "of_bool x AND 1 = (of_bool x :: int)" by (cases x; simp)+
  have "setbitCommand lim arg2 arg3 kv = Some (Inr (key_bits kv ?i, StringKey s', if g > 0 \<or> key_bits kv ?i \<noteq> x then 1 else 0))"
    unfolding setbitCommand_def off on l Let_def sum.case option.case prod.case ob offset_byte offset_bit old
    using i by (cases x) (auto simp: s'_def)
  moreover have s': "bit_of s' = (key_bits kv)(?i := x)" "length s' = length s"
  proof -
    have "bit_of (s[?i div 8 := ?c]) j = (if j = ?i then x else bit_of s j)" for j by (rule bit_of_update [OF i]) (rule write_byte_bit)
    then have "bit_of (s[?i div 8 := ?c]) = (key_bits kv)(?i := x)" unfolding B by (intro ext) simp
    then show "bit_of s' = (key_bits kv)(?i := x)" "length s' = length s" unfolding s'_def using B by (auto simp: fun_eq_iff)
  qed
  moreover have bx: "bit_of s' ?i = x" using s'(1) by simp
  moreover have "getbitCommand lim arg2 (StringKey s') = Inr x"
    unfolding getbitCommand_def off Let_def sum.case keyval.case offset_byte offset_bit test_byte_bit
    using i s'(2) bx by (simp add: bit_of_def)
  ultimately show ?thesis by (auto simp: key_bits_def)
qed

theorem setbitCommand_sets_witness:
  "\<exists>kv' dirty. setbitCommand \<lparr>proto_max_bulk_len = 2 ^ 29, mustObeyClient = False\<rparr> (dec_int 10) (dec_int 1) (StringKey [255]) = Some (Inr (False, kv', dirty)) \<and>
    getbitCommand \<lparr>proto_max_bulk_len = 2 ^ 29, mustObeyClient = False\<rparr> (dec_int 10) kv' = Inr True"
proof -
  have s: "string2ll (dec_int 10) = Some 10" "string2ll (dec_int 1) = Some 1" by (simp_all add: string2ll_iff in_sint_def)
  have "getBitOffsetFromArgument \<lparr>proto_max_bulk_len = 2 ^ 29, mustObeyClient = False\<rparr> (dec_int 10) False 0 = Inr 10"
    by (simp add: getBitOffsetFromArgument_def s Let_def drop_bit_eq_div)
  moreover have "string2l (dec_int 1) = Some (of_bool True)" by (simp add: string2l_def s)
  moreover have "\<not> key_bits (StringKey [255]) (unat (10 :: 64 word))" by (simp add: key_bits_def bit_of_def)
  ultimately show ?thesis using setbitCommand_sets [of _ "dec_int 10" 10 "dec_int 1" True "StringKey [255]"] by force
qed

end
