(* ===== verification/Sds.thy ===== *)
theory Sds
  imports Util
begin

text \<open>
  The dynamic strings of \<^verbatim>\<open>sds.c\<close> and \<^verbatim>\<open>sds.h\<close>. A string is a block of memory with a header of one of five types, which
  has fields of different widths for the length and the capacity; the memory behind the header is a
  list of bytes. A pointer to a string is the string itself: every function returns the new one. \<open>None\<close>
  is an access outside the block or a failed assertion, \<open>Some None\<close> is \<^verbatim>\<open>NULL\<close>. Sizes are natural numbers, with the
  wrap-around of \<^verbatim>\<open>size_t\<close> written out where it can happen.
\<close>

section \<open>Headers\<close>

datatype sdstype = SDS_TYPE_5 | SDS_TYPE_8 | SDS_TYPE_16 | SDS_TYPE_32 | SDS_TYPE_64

record sds =
  sd_type :: sdstype
  sd_len :: nat
  sd_alloc :: nat
  sd_buf :: bytes

definition SDS_MAX_PREALLOC :: nat where
  "SDS_MAX_PREALLOC = 1024 * 1024"

fun sdsHdrSize :: "sdstype \<Rightarrow> nat" where
  "sdsHdrSize SDS_TYPE_5 = 1"
| "sdsHdrSize SDS_TYPE_8 = 3"
| "sdsHdrSize SDS_TYPE_16 = 5"
| "sdsHdrSize SDS_TYPE_32 = 9"
| "sdsHdrSize SDS_TYPE_64 = 17"

text \<open>The width of the field for the length.\<close>

fun len_bits :: "sdstype \<Rightarrow> nat" where
  "len_bits SDS_TYPE_5 = 5"
| "len_bits SDS_TYPE_8 = 8"
| "len_bits SDS_TYPE_16 = 16"
| "len_bits SDS_TYPE_32 = 32"
| "len_bits SDS_TYPE_64 = 64"

definition sdslen :: "sds \<Rightarrow> nat" where
  "sdslen s = sd_len s"

definition sdsavail :: "sds \<Rightarrow> nat" where
  "sdsavail s = (if sd_type s = SDS_TYPE_5 then 0 else (sd_alloc s + 2 ^ 64 - sd_len s) mod 2 ^ 64)"

definition sdsalloc :: "sds \<Rightarrow> nat" where
  "sdsalloc s = (if sd_type s = SDS_TYPE_5 then sd_len s else sd_alloc s)"

definition sdssetlen :: "sds \<Rightarrow> nat \<Rightarrow> sds" where
  "sdssetlen s newlen = s\<lparr>sd_len := newlen mod 2 ^ len_bits (sd_type s)\<rparr>"

definition sdssetalloc :: "sds \<Rightarrow> nat \<Rightarrow> sds" where
  "sdssetalloc s newlen =
     (if sd_type s = SDS_TYPE_5 then s else s\<lparr>sd_alloc := newlen mod 2 ^ len_bits (sd_type s)\<rparr>)"

definition sdsReqType :: "nat \<Rightarrow> sdstype" where
  "sdsReqType string_size =
     (if string_size < 2 ^ 5 then SDS_TYPE_5
      else if string_size \<le> 2 ^ 8 - 3 - 1 then SDS_TYPE_8
      else if string_size \<le> 2 ^ 16 - 5 - 1 then SDS_TYPE_16
      else if string_size \<le> 2 ^ 32 - 9 - 1 then SDS_TYPE_32
      else SDS_TYPE_64)"

fun sdsTypeMaxSize :: "sdstype \<Rightarrow> nat" where
  "sdsTypeMaxSize SDS_TYPE_5 = 2 ^ 5 - 1"
| "sdsTypeMaxSize SDS_TYPE_8 = 2 ^ 8 - 1"
| "sdsTypeMaxSize SDS_TYPE_16 = 2 ^ 16 - 1"
| "sdsTypeMaxSize SDS_TYPE_32 = 2 ^ 32 - 1"
| "sdsTypeMaxSize SDS_TYPE_64 = 2 ^ 64 - 1"

text \<open>The new type; the header size follows from it. A block is never smaller than its header and one byte.\<close>

definition adjustTypeIfNeeded :: "sdstype \<Rightarrow> nat \<Rightarrow> sdstype" where
  "adjustTypeIfNeeded type bufsize =
     (let usable = bufsize - sdsHdrSize type - 1 in
      if type \<noteq> SDS_TYPE_5 \<and> usable > sdsTypeMaxSize type then sdsReqType usable else type)"

text \<open>
  The allocator: the block that is returned for a size, with its contents, \<open>None\<close> for \<^verbatim>\<open>NULL\<close>. With
  \<^verbatim>\<open>USE_JEMALLOC\<close>, \<open>nallocx\<close> is the size that a block for a request would have.
\<close>

record sds_env =
  s_malloc :: "nat \<Rightarrow> bytes option"
  nallocx :: "nat \<Rightarrow> nat option"

section \<open>Creation\<close>

text \<open>\<^verbatim>\<open>init\<close> is \<^verbatim>\<open>NULL\<close>, \<^verbatim>\<open>SDS_NOINIT\<close> or a pointer to bytes.\<close>

datatype sds_init = InitNull | InitNone | InitFrom bytes

definition sdsnewplacement :: "bytes \<Rightarrow> sdstype \<Rightarrow> sds_init \<Rightarrow> nat \<Rightarrow> sds option" where
  "sdsnewplacement block type init initlen = do {
     let bufsize = length block;
     let hdrlen = sdsHdrSize type;
     let usable = bufsize - hdrlen - 1;
     _ \<leftarrow> (if bufsize \<ge> initlen + hdrlen + 1 then Some () else None);
     let s = sdssetalloc (sdssetlen \<lparr>sd_type = type, sd_len = 0, sd_alloc = 0, sd_buf = drop hdrlen block\<rparr> initlen) usable;
     src \<leftarrow>
       (case init of
          InitNone \<Rightarrow> Some []
        | InitNull \<Rightarrow> Some (replicate initlen 0)
        | InitFrom p \<Rightarrow> if initlen \<le> length p then Some (take initlen p) else None);
     b1 \<leftarrow> write_bytes (sd_buf s) 0 src;
     b2 \<leftarrow> write_bytes b1 initlen [0];
     Some (s\<lparr>sd_buf := b2\<rparr>)
   }"

definition u_sdsnewlen :: "sds_env \<Rightarrow> sds_init \<Rightarrow> nat \<Rightarrow> sds option option" where
  "u_sdsnewlen E init initlen =
     (let t0 = sdsReqType initlen;
          type = (if t0 = SDS_TYPE_5 \<and> initlen = 0 then SDS_TYPE_8 else t0);
          hdrlen = sdsHdrSize type
      in if (initlen + hdrlen + 1) mod 2 ^ 64 > initlen
         then (case s_malloc E (hdrlen + initlen + 1) of
             None \<Rightarrow> Some None
           | Some block \<Rightarrow> map_option Some (sdsnewplacement block (adjustTypeIfNeeded type (length block)) init initlen))
         else None)"

definition sdsnewlen :: "sds_env \<Rightarrow> sds_init \<Rightarrow> nat \<Rightarrow> sds option option" where
  "sdsnewlen E init initlen = u_sdsnewlen E init initlen"

definition sdsempty :: "sds_env \<Rightarrow> sds option option" where
  "sdsempty E = sdsnewlen E (InitFrom []) 0"

definition sdsdup :: "sds_env \<Rightarrow> sds \<Rightarrow> sds option option" where
  "sdsdup E s = sdsnewlen E (InitFrom (sd_buf s)) (sdslen s)"

definition sdsclear :: "sds \<Rightarrow> sds option" where
  "sdsclear s = do { b \<leftarrow> write_bytes (sd_buf s) 0 [0]; Some ((sdssetlen s 0)\<lparr>sd_buf := b\<rparr>) }"

section \<open>Room\<close>

text \<open>
  \<^verbatim>\<open>s_realloc_usable\<close> with a block for the new size: the bytes behind the header that both blocks have are kept.
  Where the type changes, the string is moved behind its new header.
\<close>

definition realloc_buf :: "nat \<Rightarrow> bytes \<Rightarrow> nat \<Rightarrow> bytes \<Rightarrow> bytes" where
  "realloc_buf hdrlen block newsize buf =
     (let k = min (length buf) (newsize - hdrlen) in take k buf @ drop k (drop hdrlen block))"

definition shift_buf :: "nat \<Rightarrow> nat \<Rightarrow> nat \<Rightarrow> bytes \<Rightarrow> bytes option" where
  "shift_buf oldhdr newhdr n buf =
     (if n \<le> length buf then write_bytes (drop (newhdr - oldhdr) buf) 0 (take n buf) else None)"

definition u_sdsMakeRoomFor :: "sds_env \<Rightarrow> sds \<Rightarrow> nat \<Rightarrow> bool \<Rightarrow> sds option option" where
  "u_sdsMakeRoomFor E s addlen greedy =
     (if sdsavail s \<ge> addlen then Some (Some s)
      else
        let oldtype = sd_type s; len = sdslen s; reqlen = (len + addlen) mod 2 ^ 64 in
        if \<not> reqlen > len then None
        else
          let newlen = (if greedy then if reqlen < SDS_MAX_PREALLOC then reqlen * 2 else (reqlen + SDS_MAX_PREALLOC) mod 2 ^ 64 else reqlen);
              t0 = sdsReqType newlen;
              type = (if t0 = SDS_TYPE_5 then SDS_TYPE_8 else t0);
              hdrlen = sdsHdrSize type
          in if \<not> (hdrlen + newlen + 1) mod 2 ^ 64 > reqlen then None
             else (case s_malloc E ((hdrlen + newlen + 1) mod 2 ^ 64) of
                 None \<Rightarrow> Some None
               | Some block \<Rightarrow> do {
                   let type' = adjustTypeIfNeeded type (length block);
                   let usable = length block - sdsHdrSize type' - 1;
                   s' \<leftarrow>
                     (if oldtype = type
                      then do {
                        let buf = realloc_buf hdrlen block ((hdrlen + newlen + 1) mod 2 ^ 64) (sd_buf s);
                        if type' \<noteq> type
                        then do {
                          buf' \<leftarrow> shift_buf hdrlen (sdsHdrSize type') (len + 1) buf;
                          Some (sdssetlen (s\<lparr>sd_type := type', sd_buf := buf'\<rparr>) len)
                        }
                        else Some (s\<lparr>sd_buf := buf\<rparr>)
                      }
                      else do {
                        src \<leftarrow> read_bytes (sd_buf s) 0 (len + 1);
                        buf \<leftarrow> write_bytes (drop (sdsHdrSize type') block) 0 src;
                        Some (sdssetlen (s\<lparr>sd_type := type', sd_buf := buf\<rparr>) len)
                      });
                   if type' = SDS_TYPE_5 \<or> usable \<le> sdsTypeMaxSize type'
                   then Some (Some (sdssetalloc s' usable))
                   else None
                 }))"

definition sdsMakeRoomFor :: "sds_env \<Rightarrow> sds \<Rightarrow> nat \<Rightarrow> sds option option" where
  "sdsMakeRoomFor E s addlen = u_sdsMakeRoomFor E s addlen True"

definition sdsMakeRoomForNonGreedy :: "sds_env \<Rightarrow> sds \<Rightarrow> nat \<Rightarrow> sds option option" where
  "sdsMakeRoomForNonGreedy E s addlen = u_sdsMakeRoomFor E s addlen False"

text \<open>The total size of the allocation as the header knows it.\<close>

definition sds_alloc_size :: "sds \<Rightarrow> nat" where
  "sds_alloc_size s = sdsHdrSize (sd_type s) + sdsalloc s + 1"

fun type_num :: "sdstype \<Rightarrow> nat" where
  "type_num SDS_TYPE_5 = 0"
| "type_num SDS_TYPE_8 = 1"
| "type_num SDS_TYPE_16 = 2"
| "type_num SDS_TYPE_32 = 3"
| "type_num SDS_TYPE_64 = 4"

text \<open>
  The last steps of \<^verbatim>\<open>sdsResize\<close>, and its two ways to get a block: the old one reallocated, with its header, or a new one with
  a header of another type.
\<close>

definition resize_done :: "sds \<Rightarrow> nat \<Rightarrow> nat \<Rightarrow> sds option option" where
  "resize_done s len newsize = do {
     b \<leftarrow> write_bytes (sd_buf s) len [0];
     Some (Some (sdssetalloc (sdssetlen (s\<lparr>sd_buf := b\<rparr>) len) newsize))
   }"

definition resize_realloc :: "sds_env \<Rightarrow> sds \<Rightarrow> nat \<Rightarrow> nat \<Rightarrow> sds option option" where
  "resize_realloc E s len newlen =
     (let oldtype = sd_type s; oldhdrlen = sdsHdrSize oldtype in
      if nallocx E newlen = Some (sds_alloc_size s) then resize_done s len (sds_alloc_size s - oldhdrlen - 1)
      else (case s_malloc E newlen of
          None \<Rightarrow> Some None
        | Some block \<Rightarrow> do {
            let type' = adjustTypeIfNeeded oldtype (length block);
            let buf = realloc_buf oldhdrlen block newlen (sd_buf s);
            buf' \<leftarrow> (if type' \<noteq> oldtype then shift_buf oldhdrlen (sdsHdrSize type') (len + 1) buf else Some buf);
            resize_done (s\<lparr>sd_type := type', sd_buf := buf'\<rparr>) len (length block - sdsHdrSize type' - 1)
          }))"

definition resize_malloc :: "sds_env \<Rightarrow> sds \<Rightarrow> sdstype \<Rightarrow> nat \<Rightarrow> nat \<Rightarrow> sds option option" where
  "resize_malloc E s type len newlen =
     (case s_malloc E newlen of
        None \<Rightarrow> Some None
      | Some block \<Rightarrow> do {
          let type' = adjustTypeIfNeeded type (length block);
          src \<leftarrow> read_bytes (sd_buf s) 0 (len + 1);
          buf \<leftarrow> write_bytes (drop (sdsHdrSize type') block) 0 src;
          resize_done (s\<lparr>sd_type := type', sd_buf := buf\<rparr>) len (length block - sdsHdrSize type' - 1)
        })"

definition sdsResize :: "sds_env \<Rightarrow> sds \<Rightarrow> nat \<Rightarrow> bool \<Rightarrow> sds option option" where
  "sdsResize E s size_new would_regrow =
     (let oldtype = sd_type s in
      if sdsalloc s = size_new then Some (Some s)
      else
        let len = (if size_new < sdslen s then size_new else sdslen s);
            t0 = sdsReqType size_new;
            type = (if would_regrow \<and> t0 = SDS_TYPE_5 then SDS_TYPE_8 else t0);
            use_realloc = (oldtype = type \<or> (type_num type < type_num oldtype \<and> type_num type > type_num SDS_TYPE_8))
        in if use_realloc then resize_realloc E s len ((sdsHdrSize oldtype + size_new + 1) mod 2 ^ 64)
           else resize_malloc E s type len ((sdsHdrSize type + size_new + 1) mod 2 ^ 64))"

definition sdsRemoveFreeSpace :: "sds_env \<Rightarrow> sds \<Rightarrow> bool \<Rightarrow> sds option option" where
  "sdsRemoveFreeSpace E s would_regrow = sdsResize E s (sdslen s) would_regrow"

section \<open>Changing the length\<close>

definition incr_ok :: "sds \<Rightarrow> int \<Rightarrow> bool" where
  "incr_ok s incr =
     (let len = int (sd_len s); alloc = int (sd_alloc s) in
      case sd_type s of
        SDS_TYPE_5 \<Rightarrow> (incr > 0 \<and> len + incr < 32) \<or> (incr < 0 \<and> len \<ge> (- incr) mod 2 ^ 32)
      | SDS_TYPE_8 \<Rightarrow> (incr \<ge> 0 \<and> alloc - len \<ge> incr) \<or> (incr < 0 \<and> len \<ge> (- incr) mod 2 ^ 32)
      | SDS_TYPE_16 \<Rightarrow> (incr \<ge> 0 \<and> alloc - len \<ge> incr) \<or> (incr < 0 \<and> len \<ge> (- incr) mod 2 ^ 32)
      | SDS_TYPE_32 \<Rightarrow> (incr \<ge> 0 \<and> (alloc - len) mod 2 ^ 32 \<ge> incr mod 2 ^ 32) \<or> (incr < 0 \<and> len \<ge> (- incr) mod 2 ^ 32)
      | SDS_TYPE_64 \<Rightarrow> (incr \<ge> 0 \<and> (alloc - len) mod 2 ^ 64 \<ge> incr mod 2 ^ 64) \<or> (incr < 0 \<and> len \<ge> (- incr) mod 2 ^ 64))"

definition sdsIncrLen :: "sds \<Rightarrow> int \<Rightarrow> sds option" where
  "sdsIncrLen s incr =
     (if incr_ok s incr
      then do {
        let len = nat ((int (sd_len s) + incr) mod 2 ^ len_bits (sd_type s));
        b \<leftarrow> write_bytes (sd_buf s) len [0];
        Some (s\<lparr>sd_len := len, sd_buf := b\<rparr>)
      }
      else None)"

definition sdsgrowzero :: "sds_env \<Rightarrow> sds \<Rightarrow> nat \<Rightarrow> sds option option" where
  "sdsgrowzero E s len =
     (let curlen = sdslen s in
      if len \<le> curlen then Some (Some s)
      else do {
        r \<leftarrow> sdsMakeRoomFor E s (len - curlen);
        case r of
          None \<Rightarrow> Some None
        | Some s' \<Rightarrow> do {
            b \<leftarrow> write_bytes (sd_buf s') curlen (replicate (len - curlen + 1) 0);
            Some (Some (sdssetlen (s'\<lparr>sd_buf := b\<rparr>) len))
          }
      })"

definition sdscatlen :: "sds_env \<Rightarrow> sds \<Rightarrow> bytes \<Rightarrow> sds option option" where
  "sdscatlen E s t = do {
     let curlen = sdslen s;
     r \<leftarrow> sdsMakeRoomFor E s (length t);
     case r of
       None \<Rightarrow> Some None
     | Some s' \<Rightarrow> do {
         b1 \<leftarrow> write_bytes (sd_buf s') curlen t;
         b2 \<leftarrow> write_bytes b1 (curlen + length t) [0];
         Some (Some ((sdssetlen s' (curlen + length t))\<lparr>sd_buf := b2\<rparr>))
       }
   }"

definition sdscatsds :: "sds_env \<Rightarrow> sds \<Rightarrow> sds \<Rightarrow> sds option option" where
  "sdscatsds E s t = do { src \<leftarrow> read_bytes (sd_buf t) 0 (sdslen t); sdscatlen E s src }"

definition sdscpylen :: "sds_env \<Rightarrow> sds \<Rightarrow> bytes \<Rightarrow> sds option option" where
  "sdscpylen E s t = do {
     r \<leftarrow> (if sdsalloc s < length t then sdsMakeRoomFor E s (length t - sdslen s) else Some (Some s));
     case r of
       None \<Rightarrow> Some None
     | Some s' \<Rightarrow> do {
         b1 \<leftarrow> write_bytes (sd_buf s') 0 t;
         b2 \<leftarrow> write_bytes b1 (length t) [0];
         Some (Some (sdssetlen (s'\<lparr>sd_buf := b2\<rparr>) (length t)))
       }
   }"

section \<open>Parts of a string\<close>

text \<open>\<^verbatim>\<open>strchr(cset, c)\<close> finds the terminator of \<open>cset\<close> too.\<close>

definition strchr :: "bytes \<Rightarrow> byte \<Rightarrow> bool" where
  "strchr cset c = (c \<in> set cset \<or> c = 0)"

text \<open>Indices are relative to the start of the string; \<open>last\<close> is the index of the last byte, -1 in an empty string.\<close>

function trim_left :: "bytes \<Rightarrow> bytes \<Rightarrow> int \<Rightarrow> int \<Rightarrow> int option" where
  "trim_left buf cset sp lst =
     (if sp \<le> lst
      then if 0 \<le> sp \<and> nat sp < length buf
        then if strchr cset (buf ! nat sp) then trim_left buf cset (sp + 1) lst else Some sp
        else None
      else Some sp)"
  by pat_completeness auto

termination by (relation "measure (\<lambda>(_, _, sp, lst). nat (lst + 1 - sp))") auto

function trim_right :: "bytes \<Rightarrow> bytes \<Rightarrow> int \<Rightarrow> int \<Rightarrow> int option" where
  "trim_right buf cset ep sp =
     (if ep > sp
      then if 0 \<le> ep \<and> nat ep < length buf
        then if strchr cset (buf ! nat ep) then trim_right buf cset (ep - 1) sp else Some ep
        else None
      else Some ep)"
  by pat_completeness auto

termination by (relation "measure (\<lambda>(_, _, ep, sp). nat (ep - sp))") auto

definition sdstrim :: "sds \<Rightarrow> bytes \<Rightarrow> sds option" where
  "sdstrim s cset = do {
     let lst = int (sdslen s) - 1;
     sp \<leftarrow> trim_left (sd_buf s) cset 0 lst;
     ep \<leftarrow> trim_right (sd_buf s) cset lst sp;
     let len = nat (ep - sp + 1);
     b1 \<leftarrow> (if sp \<noteq> 0 then move_bytes (sd_buf s) 0 (nat sp) len else Some (sd_buf s));
     b2 \<leftarrow> write_bytes b1 len [0];
     Some (sdssetlen (s\<lparr>sd_buf := b2\<rparr>) len)
   }"

definition sdssubstr :: "sds \<Rightarrow> nat \<Rightarrow> nat \<Rightarrow> sds option" where
  "sdssubstr s start0 len0 = do {
     let oldlen = sdslen s;
     let (start, len1) = (if start0 \<ge> oldlen then (0, 0) else (start0, len0));
     let len = (if len1 > oldlen - start then oldlen - start else len1);
     b1 \<leftarrow> (if len \<noteq> 0 then move_bytes (sd_buf s) 0 start len else Some (sd_buf s));
     b2 \<leftarrow> write_bytes b1 len [0];
     Some (sdssetlen (s\<lparr>sd_buf := b2\<rparr>) len)
   }"

definition sdsrange :: "sds \<Rightarrow> int \<Rightarrow> int \<Rightarrow> sds option" where
  "sdsrange s start0 stop0 =
     (let len = sdslen s in
      if len = 0 then Some s
      else
        let start = (if start0 < 0 then to_sint 64 (int len + start0) else start0);
            stop = (if stop0 < 0 then to_sint 64 (int len + stop0) else stop0);
            newlen = (if start > stop then 0 else to_uint 64 (stop - start + 1))
        in sdssubstr s (nat (to_uint 64 start)) (nat newlen))"

end
