(* ===== verification/Sds_Text.thy ===== *)
theory Sds_Text
  imports Sds
begin

text \<open>
  The text functions of \<^verbatim>\<open>sds.c\<close>: splitting and joining, quoting and the parser for quoted arguments, formatting and templates. They
  call the string functions of the theory \<open>Sds\<close>. A line or a format is a C string: the bytes before the first zero byte.
\<close>

text \<open>Where the result of an allocating function is used without a test, \<^verbatim>\<open>NULL\<close> is an access outside every block.\<close>

definition deref :: "sds option option \<Rightarrow> sds option" where
  "deref r = (case r of Some (Some s) \<Rightarrow> Some s | _ \<Rightarrow> None)"

section \<open>Splitting and joining\<close>

lemma split_step:
  "sep \<noteq> [] \<Longrightarrow> j + length sep \<le> length s \<Longrightarrow> length s - (j + length sep) < length s - j"
  "sep \<noteq> [] \<Longrightarrow> j + length sep \<le> length s \<Longrightarrow> length s - Suc j < length s - j"
  by (cases sep; simp)+

text \<open>
  The tokens are an array with \<open>slots\<close> places. The allocator is asked for eight bytes for each place.
\<close>

function split_loop :: "sds_env \<Rightarrow> bytes \<Rightarrow> bytes \<Rightarrow> nat \<Rightarrow> nat \<Rightarrow> nat \<Rightarrow> sds list \<Rightarrow> sds list option option" where
  "split_loop E s sep j start slots tokens =
     (if sep \<noteq> [] \<and> j + length sep \<le> length s
      then
        let grow = slots < length tokens + 2; slots' = (if grow then slots * 2 else slots) in
        if grow \<and> s_malloc E (8 * slots') = None then Some None
        else if (length sep = 1 \<and> s ! j = sep ! 0) \<or> take (length sep) (drop j s) = sep
          then (case sdsnewlen E (InitFrom (drop start s)) (j - start) of
              None \<Rightarrow> None
            | Some None \<Rightarrow> Some None
            | Some (Some t) \<Rightarrow>
                if length tokens < slots' then split_loop E s sep (j + length sep) (j + length sep) slots' (tokens @ [t]) else None)
          else split_loop E s sep (j + 1) start slots' tokens
      else (case sdsnewlen E (InitFrom (drop start s)) (length s - start) of
          None \<Rightarrow> None
        | Some None \<Rightarrow> Some None
        | Some (Some t) \<Rightarrow> if length tokens < slots then Some (Some (tokens @ [t])) else None))"
  by pat_completeness auto

termination by (relation "measure (\<lambda>(_, s, _, j, _). length s - j)") (auto intro: split_step)

declare split_loop.simps [simp del]

definition sdssplitlen :: "sds_env \<Rightarrow> bytes \<Rightarrow> bytes \<Rightarrow> sds list option option" where
  "sdssplitlen E s sep =
     (if length sep < 1 \<or> length s \<le> 0 then Some None
      else case s_malloc E (8 * 5) of
        None \<Rightarrow> Some None
      | Some _ \<Rightarrow> split_loop E s sep 0 0 5 [])"

fun join_loop :: "sds_env \<Rightarrow> sds \<Rightarrow> sds list \<Rightarrow> bytes \<Rightarrow> sds option" where
  "join_loop E join [] sep = Some join"
| "join_loop E join (a # argv) sep = do {
     j1 \<leftarrow> deref (sdscatsds E join a);
     j2 \<leftarrow> (if argv \<noteq> [] then deref (sdscatlen E j1 sep) else Some j1);
     join_loop E j2 argv sep
   }"

definition sdsjoinsds :: "sds_env \<Rightarrow> sds list \<Rightarrow> bytes \<Rightarrow> sds option" where
  "sdsjoinsds E argv sep = do { join \<leftarrow> deref (sdsempty E); join_loop E join argv sep }"

section \<open>Quoting\<close>

definition isprint :: "byte \<Rightarrow> bool" where
  "isprint c \<longleftrightarrow> 32 \<le> c \<and> c \<le> 126"

definition isspace :: "byte \<Rightarrow> bool" where
  "isspace c \<longleftrightarrow> c = 32 \<or> (9 \<le> c \<and> c \<le> 13)"

text \<open>What \<^verbatim>\<open>"\\x%02x"\<close> prints, and what one byte of the string adds to the result.\<close>

definition hex_char :: "nat \<Rightarrow> byte" where
  "hex_char d = (if d < 10 then 48 + word_of_nat d else 87 + word_of_nat d)"

definition repr_char :: "byte \<Rightarrow> bytes" where
  "repr_char c =
     (if c = 92 \<or> c = 34 then [92, c]
      else if c = 10 then [92, 110]
      else if c = 13 then [92, 114]
      else if c = 9 then [92, 116]
      else if c = 7 then [92, 97]
      else if c = 8 then [92, 98]
      else if isprint c then [c]
      else [92, 120, hex_char (unat c div 16), hex_char (unat c mod 16)])"

fun repr_loop :: "sds_env \<Rightarrow> sds \<Rightarrow> bytes \<Rightarrow> sds option" where
  "repr_loop E s [] = Some s"
| "repr_loop E s (c # p) = do { s' \<leftarrow> deref (sdscatlen E s (repr_char c)); repr_loop E s' p }"

definition sdscatrepr :: "sds_env \<Rightarrow> sds \<Rightarrow> bytes \<Rightarrow> sds option option" where
  "sdscatrepr E s p = do {
     s1 \<leftarrow> deref (sdsMakeRoomFor E s ((length p + 2) mod 2 ^ 64));
     s2 \<leftarrow> deref (sdscatlen E s1 [34]);
     s3 \<leftarrow> repr_loop E s2 p;
     sdscatlen E s3 [34]
   }"

fun needsrepr_loop :: "bytes \<Rightarrow> bool" where
  "needsrepr_loop [] = False"
| "needsrepr_loop (c # p) =
     (if c = 92 \<or> c = 34 \<or> c = 10 \<or> c = 13 \<or> c = 9 \<or> c = 7 \<or> c = 8 \<or> \<not> isprint c \<or> isspace c then True
      else needsrepr_loop p)"

definition sdsneedsrepr :: "sds \<Rightarrow> bool option" where
  "sdsneedsrepr s = map_option needsrepr_loop (read_bytes (sd_buf s) 0 (sdslen s))"

section \<open>Quoted arguments\<close>

definition is_hex_digit :: "byte \<Rightarrow> bool" where
  "is_hex_digit c \<longleftrightarrow> (48 \<le> c \<and> c \<le> 57) \<or> (97 \<le> c \<and> c \<le> 102) \<or> (65 \<le> c \<and> c \<le> 70)"

definition hex_digit_to_int :: "byte \<Rightarrow> nat" where
  "hex_digit_to_int c =
     (if 48 \<le> c \<and> c \<le> 57 then unat c - 48
      else if 97 \<le> c \<and> c \<le> 102 then unat c - 87
      else if 65 \<le> c \<and> c \<le> 70 then unat c - 55
      else 0)"

text \<open>
  The text from \<open>p\<close> on, up to the terminator. The tests of the code look at most three bytes ahead, each only if the one before is not the terminator;
  the patterns say the same.
\<close>

definition hex_escape :: "bytes \<Rightarrow> (byte \<times> bytes) option" where
  "hex_escape p =
     (case p of
        a # b # h # l # rest \<Rightarrow>
          if a = 92 \<and> b = 120 \<and> is_hex_digit h \<and> is_hex_digit l
          then Some (word_of_nat (hex_digit_to_int h * 16 + hex_digit_to_int l), rest) else None
      | _ \<Rightarrow> None)"

definition unescape :: "byte \<Rightarrow> byte" where
  "unescape c = (if c = 110 then 10 else if c = 114 then 13 else if c = 116 then 9 else if c = 98 then 8 else if c = 97 then 7 else c)"

datatype quotes = NoQuotes | InQ | InSQ

text \<open>One turn of the loop over a token: an error, the end of the token, or a byte that may be added, and the rest.\<close>

datatype turn = Err | Done bytes | Next quotes "byte option" bytes

definition closing :: "bytes \<Rightarrow> turn" where
  "closing p = (case p of c # _ \<Rightarrow> if \<not> isspace c then Err else Done p | [] \<Rightarrow> Done [])"

fun token_turn :: "quotes \<Rightarrow> bytes \<Rightarrow> turn" where
  "token_turn InQ p =
     (case hex_escape p of
        Some (b, rest) \<Rightarrow> Next InQ (Some b) rest
      | None \<Rightarrow>
          (case p of
             [] \<Rightarrow> Err
           | c # r \<Rightarrow>
               if c = 92 \<and> r \<noteq> [] then Next InQ (Some (unescape (hd r))) (tl r)
               else if c = 34 then closing r
               else Next InQ (Some c) r))"
| "token_turn InSQ p =
     (case p of
        [] \<Rightarrow> Err
      | c # r \<Rightarrow>
          if c = 92 \<and> r \<noteq> [] \<and> hd r = 39 then Next InSQ (Some 39) (tl r)
          else if c = 39 then closing r
          else Next InSQ (Some c) r)"
| "token_turn NoQuotes p =
     (case p of
        [] \<Rightarrow> Done []
      | c # r \<Rightarrow>
          if c = 32 \<or> c = 10 \<or> c = 13 \<or> c = 9 then Done r
          else if c = 34 then Next InQ None r
          else if c = 39 then Next InSQ None r
          else Next NoQuotes (Some c) r)"

lemma hex_escape_shorter: "hex_escape p = Some (b, rest) \<Longrightarrow> length rest < length p"
  by (auto simp: hex_escape_def split: list.splits if_splits)

lemma token_turn_shorter: "token_turn q p = Next q' b r \<Longrightarrow> length r < length p"
  by (cases q) (auto simp: closing_def dest: hex_escape_shorter split: list.splits option.splits if_splits)

function get_token :: "sds_env \<Rightarrow> quotes \<Rightarrow> sds \<Rightarrow> bytes \<Rightarrow> (sds \<times> bytes) option option" where
  "get_token E q current p =
     (case token_turn q p of
        Err \<Rightarrow> Some None
      | Done r \<Rightarrow> Some (Some (current, r))
      | Next q' b r \<Rightarrow> do {
          current' \<leftarrow> (case b of None \<Rightarrow> Some current | Some c \<Rightarrow> deref (sdscatlen E current [c]));
          get_token E q' current' r
        })"
  by pat_completeness auto

termination by (relation "measure (\<lambda>(_, _, _, p). length p)") (auto dest: token_turn_shorter)

declare get_token.simps [simp del]

lemma token_turn_done: "token_turn q p = Done r \<Longrightarrow> p \<noteq> [] \<Longrightarrow> length r < length p"
  by (cases q) (auto simp: closing_def split: list.splits option.splits if_splits prod.splits)

lemma get_token_shorter: "get_token E q current p = Some (Some (t, r)) \<Longrightarrow> length r \<le> length p \<and> (p \<noteq> [] \<longrightarrow> length r < length p)"
proof (induction E q current p rule: get_token.induct)
  case (1 E q current p)
  show ?case
  proof (cases "token_turn q p")
    case Err
    then show ?thesis using "1.prems" by (subst (asm) get_token.simps) simp
  next
    case (Done r')
    then have "r' = r" using "1.prems" by (subst (asm) get_token.simps) simp
    then show ?thesis using Done token_turn_done [OF Done] by (cases "p = []") (cases q; auto simp: hex_escape_def)+
  next
    case (Next q' b r')
    then obtain c where "(case b of None \<Rightarrow> Some current | Some c \<Rightarrow> deref (sdscatlen E current [c])) = Some c"
      "get_token E q' c r' = Some (Some (t, r))"
      using "1.prems" by (subst (asm) get_token.simps) (auto simp: bind_eq_Some_conv)
    then show ?thesis using "1.IH" [OF Next] token_turn_shorter [OF Next] by force
  qed
qed

lemma args_shorter: "get_token E q current (dropWhile P p) = Some (Some (t, r)) \<Longrightarrow> dropWhile P p \<noteq> [] \<Longrightarrow> length r < length p"
  using get_token_shorter [of E q current "dropWhile P p" t r] length_dropWhile_le [of P p] by auto

function args_loop :: "sds_env \<Rightarrow> bytes \<Rightarrow> sds list \<Rightarrow> sds list option option" where
  "args_loop E p vector =
     (let p' = dropWhile isspace p in
      if p' \<noteq> []
      then do {
        current \<leftarrow> deref (sdsempty E);
        r \<leftarrow> get_token E NoQuotes current p';
        case r of
          None \<Rightarrow> Some None
        | Some (current', rest) \<Rightarrow> do {
            _ \<leftarrow> s_malloc E (8 * (length vector + 1));
            args_loop E rest (vector @ [current'])
          }
      }
      else Some (Some vector))"
  by pat_completeness auto

termination by (relation "measure (\<lambda>(_, p, _). length p)") (auto simp del: dropWhile_eq_Nil_conv intro: args_shorter)

declare args_loop.simps [simp del]

definition sdssplitargs :: "sds_env \<Rightarrow> bytes \<Rightarrow> sds list option option" where
  "sdssplitargs E line = args_loop E (c_str line) []"

end
