(* ===== verification/Sds_Inv.thy ===== *)
theory Sds_Inv
  imports Sds
begin

text \<open>
  The invariant of a dynamic string, the byte sequence it stands for, what the allocator promises, and the
  facts on header types that make growing a string safe.
\<close>

section \<open>Invariant and abstraction\<close>

definition sds_ok :: "sds \<Rightarrow> bool" where
  "sds_ok s \<longleftrightarrow>
     sd_len s \<le> sdsalloc s \<and> sdsalloc s < length (sd_buf s) \<and> sdsalloc s \<le> sdsTypeMaxSize (sd_type s) \<and>
     sdsHdrSize (sd_type s) + length (sd_buf s) < 2 ^ 64 \<and> sd_buf s ! sd_len s = 0"

definition sds_str :: "sds \<Rightarrow> bytes" where
  "sds_str s = take (sd_len s) (sd_buf s)"

text \<open>
  A block has at least the size that was asked for, and its size is a \<^verbatim>\<open>size_t\<close>. A request may fail.
\<close>

definition alloc_ok :: "sds_env \<Rightarrow> bool" where
  "alloc_ok E \<longleftrightarrow> (\<forall>n b. s_malloc E n = Some b \<longrightarrow> n \<le> length b \<and> length b < 2 ^ 64)"

text \<open>
  What a function that may allocate returns: a string that satisfies the invariant and the condition, or \<^verbatim>\<open>NULL\<close>, but
  then the allocator has failed. It never fails an assertion and never leaves its block.
\<close>

definition gives :: "sds_env \<Rightarrow> sds option option \<Rightarrow> (sds \<Rightarrow> bool) \<Rightarrow> bool" where
  "gives E r P \<longleftrightarrow>
     (case r of
        None \<Rightarrow> False
      | Some None \<Rightarrow> \<exists>n < 2 ^ 64. s_malloc E n = None
      | Some (Some s) \<Rightarrow> sds_ok s \<and> P s)"

lemma alloc_okD: "alloc_ok E \<Longrightarrow> s_malloc E n = Some b \<Longrightarrow> n \<le> length b \<and> length b < 2 ^ 64"
  by (simp add: alloc_ok_def)

lemma gives_null [simp]: "gives E (Some None) P \<longleftrightarrow> (\<exists>n < 2 ^ 64. s_malloc E n = None)"
  by (simp add: gives_def)

lemma null_at: "s_malloc E n = None \<Longrightarrow> n < 2 ^ 64 \<Longrightarrow> \<exists>n < 2 ^ 64. s_malloc E n = None"
  by blast

lemma gives_some [simp]: "gives E (Some (Some s)) P \<longleftrightarrow> sds_ok s \<and> P s"
  by (simp add: gives_def)

lemma gives_mono: "gives E r P \<Longrightarrow> (\<And>s. sds_ok s \<Longrightarrow> P s \<Longrightarrow> Q s) \<Longrightarrow> gives E r Q"
  by (auto simp: gives_def split: option.splits)

lemma givesE:
  assumes "gives E r P"
  obtains (null) n where "r = Some None" "n < 2 ^ 64" "s_malloc E n = None"
    | (string) s where "r = Some (Some s)" "sds_ok s" "P s"
  using assms by (auto simp: gives_def split: option.splits)

text \<open>The next operation runs on the string, or \<^verbatim>\<open>NULL\<close> is passed on.\<close>

lemma gives_bind:
  assumes "gives E r P" and "\<And>s. sds_ok s \<Longrightarrow> P s \<Longrightarrow> gives E (k s) Q"
  shows "gives E (r \<bind> (\<lambda>x. case x of None \<Rightarrow> Some None | Some s \<Rightarrow> k s)) Q"
  using assms by (auto elim!: givesE)

lemma sds_str_length [simp]: "sds_ok s \<Longrightarrow> length (sds_str s) = sdslen s"
  by (auto simp: sds_ok_def sds_str_def sdslen_def)

section \<open>Header types\<close>

lemma sdsTypeMaxSize_eq: "sdsTypeMaxSize t = 2 ^ len_bits t - 1"
  by (cases t) simp_all

lemma sdsTypeMaxSize_mod [simp]: "n \<le> sdsTypeMaxSize t \<Longrightarrow> n mod 2 ^ len_bits t = n"
  by (cases t) simp_all

lemma sdsTypeMaxSize_less: "n \<le> sdsTypeMaxSize t \<Longrightarrow> n < 2 ^ 64"
  by (cases t) simp_all

lemma sdsReqType_max: "n < 2 ^ 64 \<Longrightarrow> n \<le> sdsTypeMaxSize (sdsReqType n)"
  by (simp add: sdsReqType_def)

lemma sdsHdrSize_bounds: "1 \<le> sdsHdrSize t" "sdsHdrSize t \<le> 17"
  by (cases t; simp)+

lemma sdsReqType_not5: "32 \<le> n \<Longrightarrow> sdsReqType n \<noteq> SDS_TYPE_5"
  by (simp add: sdsReqType_def)

text \<open>The largest request for which a type is chosen: smaller than what the type can record.\<close>

fun req_max :: "sdstype \<Rightarrow> nat" where
  "req_max SDS_TYPE_5 = 31"
| "req_max SDS_TYPE_8 = 252"
| "req_max SDS_TYPE_16 = 65530"
| "req_max SDS_TYPE_32 = 4294967286"
| "req_max SDS_TYPE_64 = 2 ^ 64 - 1"

lemma sdsReqType_req_max: "n < 2 ^ 64 \<Longrightarrow> n \<le> req_max (sdsReqType n)"
  by (simp add: sdsReqType_def)

lemma req_max_mono: "type_num t \<le> type_num u \<Longrightarrow> req_max t \<le> req_max u"
  by (cases t; cases u) simp_all

lemma req_max_le: "req_max t \<le> sdsTypeMaxSize t"
  by (cases t) simp_all

text \<open>
  The adjusted type can record the usable size of the block; and a request that chose the first type still fits behind
  the larger header.
\<close>

lemma adjustTypeIfNeeded_5 [simp]: "adjustTypeIfNeeded SDS_TYPE_5 n = SDS_TYPE_5"
  by (simp add: adjustTypeIfNeeded_def)

lemma adjust_fits:
  assumes "t \<noteq> SDS_TYPE_5" and "bufsize < 2 ^ 64"
  shows "bufsize - sdsHdrSize (adjustTypeIfNeeded t bufsize) - 1 \<le> sdsTypeMaxSize (adjustTypeIfNeeded t bufsize)"
    and "adjustTypeIfNeeded t bufsize \<noteq> SDS_TYPE_5"
    and "sdsHdrSize t \<le> sdsHdrSize (adjustTypeIfNeeded t bufsize)"
proof -
  have "bufsize - sdsHdrSize (adjustTypeIfNeeded t bufsize) - 1 \<le> sdsTypeMaxSize (adjustTypeIfNeeded t bufsize) \<and>
      adjustTypeIfNeeded t bufsize \<noteq> SDS_TYPE_5 \<and> sdsHdrSize t \<le> sdsHdrSize (adjustTypeIfNeeded t bufsize)"
    unfolding adjustTypeIfNeeded_def sdsReqType_def Let_def using assms
    by (cases t; simp split: if_split; linarith?)
  then show "bufsize - sdsHdrSize (adjustTypeIfNeeded t bufsize) - 1 \<le> sdsTypeMaxSize (adjustTypeIfNeeded t bufsize)"
    and "adjustTypeIfNeeded t bufsize \<noteq> SDS_TYPE_5"
    and "sdsHdrSize t \<le> sdsHdrSize (adjustTypeIfNeeded t bufsize)" by simp_all
qed

lemma adjust_room:
  assumes "n \<le> req_max t" and "sdsHdrSize t + n + 1 \<le> bufsize"
  shows "sdsHdrSize (adjustTypeIfNeeded t bufsize) + n + 1 \<le> bufsize"
  using assms by (cases t; simp add: adjustTypeIfNeeded_def sdsReqType_def Let_def; linarith?)

section \<open>Building a string that satisfies the invariant\<close>

lemma sdssetlen_fields [simp]:
  "sd_type (sdssetlen s n) = sd_type s" "sd_alloc (sdssetlen s n) = sd_alloc s" "sd_buf (sdssetlen s n) = sd_buf s"
  "sd_len (sdssetlen s n) = n mod 2 ^ len_bits (sd_type s)"
  by (simp_all add: sdssetlen_def)

lemma sdssetalloc_fields [simp]:
  "sd_type (sdssetalloc s n) = sd_type s" "sd_len (sdssetalloc s n) = sd_len s" "sd_buf (sdssetalloc s n) = sd_buf s"
  "sd_alloc (sdssetalloc s n) = (if sd_type s = SDS_TYPE_5 then sd_alloc s else n mod 2 ^ len_bits (sd_type s))"
  by (simp_all add: sdssetalloc_def)

lemma sds_okD:
  assumes "sds_ok s"
  shows "sd_len s \<le> sdsalloc s" "sdsalloc s < length (sd_buf s)" "sdsalloc s \<le> sdsTypeMaxSize (sd_type s)"
    "sdsHdrSize (sd_type s) + length (sd_buf s) < 2 ^ 64" "sd_buf s ! sd_len s = 0" "sd_len s < length (sd_buf s)"
    "sd_len s \<le> sdsTypeMaxSize (sd_type s)"
  using assms by (auto simp: sds_ok_def)

lemma mod_sub: "l \<le> a \<Longrightarrow> a < M \<Longrightarrow> (a + M - l) mod M = a - (l :: nat)"
  by (metis Nat.add_diff_assoc2 less_imp_diff_less mod_add_self2 mod_less)

lemma sdsavail_eq: "sds_ok s \<Longrightarrow> sdsavail s = sdsalloc s - sd_len s"
proof -
  assume ok: "sds_ok s"
  have "sdsalloc s < 2 ^ 64" using sds_okD(3) [OF ok] by (rule sdsTypeMaxSize_less)
  moreover have "sd_len s \<le> sdsalloc s" using sds_okD(1) [OF ok] .
  ultimately show ?thesis
    using mod_sub [of "sd_len s" "sdsalloc s" "2 ^ 64"] by (auto simp: sdsavail_def sdsalloc_def)
qed

lemma write_bytes_ok [simp]:
  "off + length ys \<le> length bs \<Longrightarrow> write_bytes bs off ys = Some (take off bs @ ys @ drop (off + length ys) bs)"
  by (simp add: write_bytes_def)

lemma read_bytes_ok [simp]: "off + n \<le> length bs \<Longrightarrow> read_bytes bs off n = Some (take n (drop off bs))"
  by (simp add: read_bytes_def)


text \<open>
  A string whose length and capacity are set anew. A header of type 5 does not record the capacity.
\<close>

lemma sds_ok_set:
  assumes "len \<le> usable" and "usable < length (sd_buf s)" and "sd_buf s ! len = 0"
    and "sd_type s = SDS_TYPE_5 \<Longrightarrow> len \<le> 31" and "sd_type s \<noteq> SDS_TYPE_5 \<Longrightarrow> usable \<le> sdsTypeMaxSize (sd_type s)"
    and "sdsHdrSize (sd_type s) + length (sd_buf s) < 2 ^ 64"
  shows "sds_ok (sdssetalloc (sdssetlen s len) usable)"
    and "sds_str (sdssetalloc (sdssetlen s len) usable) = take len (sd_buf s)"
    and "sd_type s \<noteq> SDS_TYPE_5 \<Longrightarrow> sdsalloc (sdssetalloc (sdssetlen s len) usable) = usable"
    and "sdslen (sdssetalloc (sdssetlen s len) usable) = len"
proof -
  have len: "len \<le> sdsTypeMaxSize (sd_type s)" using assms by (cases "sd_type s = SDS_TYPE_5") auto
  then show "sds_ok (sdssetalloc (sdssetlen s len) usable)"
    using assms by (auto simp: sds_ok_def sdsalloc_def)
  show "sds_str (sdssetalloc (sdssetlen s len) usable) = take len (sd_buf s)"
    and "sdslen (sdssetalloc (sdssetlen s len) usable) = len" using len by (simp_all add: sds_str_def sdslen_def)
  show "sd_type s \<noteq> SDS_TYPE_5 \<Longrightarrow> sdsalloc (sdssetalloc (sdssetlen s len) usable) = usable"
    using assms by (simp add: sdsalloc_def)
qed

text \<open>The same when only the length changes, within the capacity.\<close>

lemma sds_ok_setlen:
  assumes ok: "sds_ok s" and len: "len \<le> sdsalloc s" and buf: "length b = length (sd_buf s)" "b ! len = 0"
  shows "sds_ok (sdssetlen (s\<lparr>sd_buf := b\<rparr>) len)" and "sds_str (sdssetlen (s\<lparr>sd_buf := b\<rparr>) len) = take len b"
proof -
  have "len \<le> sdsTypeMaxSize (sd_type s)" using sds_okD(3) [OF ok] len by simp
  then show "sds_ok (sdssetlen (s\<lparr>sd_buf := b\<rparr>) len)" and "sds_str (sdssetlen (s\<lparr>sd_buf := b\<rparr>) len) = take len b"
    using assms by (auto simp: sds_ok_def sds_str_def sdsalloc_def)
qed

lemma length_realloc_buf: "hdrlen \<le> newsize \<Longrightarrow> newsize \<le> length block \<Longrightarrow> length (realloc_buf hdrlen block newsize buf) = length block - hdrlen"
  by (auto simp: realloc_buf_def Let_def)

lemma take_realloc_buf:
  "n \<le> length buf \<Longrightarrow> hdrlen + n \<le> newsize \<Longrightarrow> newsize \<le> length block \<Longrightarrow> take n (realloc_buf hdrlen block newsize buf) = take n buf"
  by (auto simp: realloc_buf_def Let_def min_def)

lemma shift_buf_ok:
  assumes "oldhdr \<le> newhdr" and "newhdr - oldhdr + n \<le> length buf"
  obtains b where "shift_buf oldhdr newhdr n buf = Some b" "length b = length buf - (newhdr - oldhdr)" "take n b = take n buf"
  using assms by (auto simp: shift_buf_def)

lemma nth_of_take: "take (Suc n) xs = take (Suc n) ys \<Longrightarrow> xs ! n = ys ! n"
  by (metis lessI nth_take)

lemma take_of_take: "take n xs = take n ys \<Longrightarrow> m \<le> n \<Longrightarrow> take m xs = take m ys"
  by (metis min.absorb1 take_take)

end
