(* ===== verification/Sds_Ops.thy ===== *)
theory Sds_Ops
  imports Sds_Inv
begin

text \<open>
  Every operation on a dynamic string keeps the invariant, stays in its block, and does to the byte sequence what
  its name says; room that is asked for is there.
\<close>

section \<open>Room\<close>

definition has_room :: "sds \<Rightarrow> nat \<Rightarrow> sds \<Rightarrow> bool" where
  "has_room s addlen s' \<longleftrightarrow> sds_str s' = sds_str s \<and> sd_len s' = sd_len s \<and> sd_len s + addlen \<le> sdsalloc s'"

lemma room_placed:
  assumes ok: "sds_ok s" and t: "t \<noteq> SDS_TYPE_5" and b: "length b = L - sdsHdrSize t" "take (Suc (sd_len s)) b = take (Suc (sd_len s)) (sd_buf s)"
    and L: "sdsHdrSize t + n + 1 \<le> L" "L < 2 ^ 64" "L - sdsHdrSize t - 1 \<le> sdsTypeMaxSize t" and n: "sd_len s + addlen \<le> n"
  shows "sds_ok (sdssetalloc (sdssetlen (s\<lparr>sd_type := t, sd_buf := b\<rparr>) (sd_len s)) (L - sdsHdrSize t - 1)) \<and>
    has_room s addlen (sdssetalloc (sdssetlen (s\<lparr>sd_type := t, sd_buf := b\<rparr>) (sd_len s)) (L - sdsHdrSize t - 1))"
proof -
  define r where "r = s\<lparr>sd_type := t, sd_buf := b\<rparr>"
  have r: "sd_type r = t" "sd_buf r = b" by (simp_all add: r_def)
  have h: "sd_len s \<le> L - sdsHdrSize t - 1" "L - sdsHdrSize t - 1 < length (sd_buf r)" using b(1) L(1) n by (simp_all add: r)
  have z: "sd_buf r ! sd_len s = 0" using nth_of_take [OF b(2)] sds_okD(5) [OF ok] r by simp
  have l: "sdsHdrSize (sd_type r) + length (sd_buf r) < 2 ^ 64" using b L r by simp
  note set = sds_ok_set [OF h z _ _ l]
  have "take (sd_len s) b = sds_str s" unfolding sds_str_def by (rule take_of_take [OF b(2)]) simp
  then have "sds_ok (sdssetalloc (sdssetlen r (sd_len s)) (L - sdsHdrSize t - 1)) \<and> has_room s addlen (sdssetalloc (sdssetlen r (sd_len s)) (L - sdsHdrSize t - 1))"
    using set t r L n unfolding has_room_def sdslen_def by simp
  then show ?thesis by (simp add: r_def)
qed

text \<open>The length that is asked of the allocator.\<close>

definition grown :: "bool \<Rightarrow> nat \<Rightarrow> nat" where
  "grown greedy reqlen = (if greedy then if reqlen < SDS_MAX_PREALLOC then reqlen * 2 else reqlen + SDS_MAX_PREALLOC else reqlen)"

lemma grown_bounds: "reqlen \<le> grown greedy reqlen" "grown greedy reqlen \<le> reqlen + SDS_MAX_PREALLOC"
  by (auto simp: grown_def)

text \<open>A block that was reallocated keeps its bytes, moved where the header has grown.\<close>

lemma realloc_moved:
  assumes k: "k \<le> n" "k < length buf" and hdr: "sdsHdrSize t \<le> sdsHdrSize u"
    and t: "sdsHdrSize t + n + 1 \<le> length block" and u: "sdsHdrSize u + n + 1 \<le> length block"
  obtains b where "(if u \<noteq> t then shift_buf (sdsHdrSize t) (sdsHdrSize u) (k + 1) (realloc_buf (sdsHdrSize t) block (sdsHdrSize t + n + 1) buf)
      else Some (realloc_buf (sdsHdrSize t) block (sdsHdrSize t + n + 1) buf)) = Some b"
    "length b = length block - sdsHdrSize u" "take (Suc k) b = take (Suc k) buf"
proof -
  define c where "c = realloc_buf (sdsHdrSize t) block (sdsHdrSize t + n + 1) buf"
  have l: "length c = length block - sdsHdrSize t" unfolding c_def by (rule length_realloc_buf) (use t in simp_all)
  have kc: "take (Suc k) c = take (Suc k) buf" unfolding c_def by (rule take_realloc_buf) (use t k in simp_all)
  show thesis
  proof (cases "u = t")
    case True
    then show thesis using that l kc by (simp add: c_def)
  next
    case False
    have "sdsHdrSize u - sdsHdrSize t + Suc k \<le> length c" using l u k hdr by simp
    then obtain b where b: "shift_buf (sdsHdrSize t) (sdsHdrSize u) (Suc k) c = Some b"
      "length b = length c - (sdsHdrSize u - sdsHdrSize t)" "take (Suc k) b = take (Suc k) c"
      using shift_buf_ok [OF hdr] by metis
    have "length b = length block - sdsHdrSize u" using b(2) l hdr by simp
    then show thesis using that b kc False by (simp add: c_def)
  qed
qed

text \<open>The bytes move to the new block, with their terminator, whichever way the block was obtained.\<close>

definition room_data :: "sds \<Rightarrow> sdstype \<Rightarrow> sdstype \<Rightarrow> bytes \<Rightarrow> nat \<Rightarrow> sds option" where
  "room_data s t u block newsize =
     (if sd_type s = t
      then do {
        let buf = realloc_buf (sdsHdrSize t) block newsize (sd_buf s);
        if u \<noteq> t
        then do {
          buf' \<leftarrow> shift_buf (sdsHdrSize t) (sdsHdrSize u) (sd_len s + 1) buf;
          Some (sdssetlen (s\<lparr>sd_type := u, sd_buf := buf'\<rparr>) (sd_len s))
        }
        else Some (s\<lparr>sd_buf := buf\<rparr>)
      }
      else do {
        src \<leftarrow> read_bytes (sd_buf s) 0 (sd_len s + 1);
        buf \<leftarrow> write_bytes (drop (sdsHdrSize u) block) 0 src;
        Some (sdssetlen (s\<lparr>sd_type := u, sd_buf := buf\<rparr>) (sd_len s))
      })"

lemma room_body:
  assumes ok: "sds_ok s" and n: "sd_len s + 1 \<le> newlen + 1" and hdr: "sdsHdrSize t \<le> sdsHdrSize u"
    and t: "sdsHdrSize t + newlen + 1 \<le> length block" and u: "sdsHdrSize u + newlen + 1 \<le> length block"
  obtains b where "room_data s t u block (sdsHdrSize t + newlen + 1) = Some (sdssetlen (s\<lparr>sd_type := u, sd_buf := b\<rparr>) (sd_len s))"
    "length b = length block - sdsHdrSize u" "take (Suc (sd_len s)) b = take (Suc (sd_len s)) (sd_buf s)"
proof (cases "sd_type s = t")
  case True
  obtain b where b: "(if u \<noteq> t then shift_buf (sdsHdrSize t) (sdsHdrSize u) (sd_len s + 1) (realloc_buf (sdsHdrSize t) block (sdsHdrSize t + newlen + 1) (sd_buf s))
      else Some (realloc_buf (sdsHdrSize t) block (sdsHdrSize t + newlen + 1) (sd_buf s))) = Some b"
    "length b = length block - sdsHdrSize u" "take (Suc (sd_len s)) b = take (Suc (sd_len s)) (sd_buf s)"
    using realloc_moved [OF _ sds_okD(6) [OF ok] hdr t u] n by auto
  have "sdssetlen (s\<lparr>sd_type := t, sd_buf := b\<rparr>) (sd_len s) = s\<lparr>sd_buf := b\<rparr>"
    using True sds_okD(7) [OF ok] by (simp add: sdssetlen_def)
  then show thesis using that [of b] True b by (auto simp: room_data_def split: if_splits)
next
  case False
  have "Suc (sd_len s) \<le> length block - sdsHdrSize u" using u n by simp
  then show thesis using False sds_okD(6) [OF ok]
    by (intro that [of "take (Suc (sd_len s)) (sd_buf s) @ drop (Suc (sd_len s)) (drop (sdsHdrSize u) block)"]) (auto simp: room_data_def add.commute)
qed

lemma makeRoom_gives:
  assumes ok: "sds_ok s" and A: "alloc_ok E" and big: "sd_len s + addlen + SDS_MAX_PREALLOC + 18 < 2 ^ 64"
  shows "gives E (u_sdsMakeRoomFor E s addlen greedy) (has_room s addlen)"
proof (cases "sdsavail s \<ge> addlen")
  case True
  then show ?thesis using ok sds_okD(1) [OF ok]
    by (simp add: u_sdsMakeRoomFor_def has_room_def sdsavail_eq)
next
  case False
  define reqlen newlen t where "reqlen = sd_len s + addlen" and "newlen = grown greedy reqlen"
    and "t = (if sdsReqType newlen = SDS_TYPE_5 then SDS_TYPE_8 else sdsReqType newlen)"
  have req: "reqlen < 2 ^ 64" "sd_len s < reqlen" using big False by (auto simp: reqlen_def)
  have new: "reqlen \<le> newlen" "newlen + 18 < 2 ^ 64" using big grown_bounds [where reqlen = reqlen and greedy = greedy]
    by (simp_all add: newlen_def reqlen_def)
  have t5: "t \<noteq> SDS_TYPE_5" and tn: "newlen \<le> req_max t"
    using sdsReqType_req_max [of newlen] new by (auto simp: t_def)
  have hn: "sdsHdrSize t + newlen + 1 < 2 ^ 64" using sdsHdrSize_bounds(2) [of t] new by simp
  have ren: "(if greedy then if reqlen < SDS_MAX_PREALLOC then reqlen * 2 else (reqlen + SDS_MAX_PREALLOC) mod 2 ^ 64 else reqlen) = newlen"
    using big by (simp add: newlen_def grown_def reqlen_def)
  have reqmod: "(sd_len s + addlen) mod 2 ^ 64 = reqlen" and hmod: "(sdsHdrSize t + newlen + 1) mod 2 ^ 64 = sdsHdrSize t + newlen + 1"
    using req hn by (simp_all add: reqlen_def)
  have gt: "(reqlen > sd_len s) = True" "(sdsHdrSize t + newlen + 1 > reqlen) = True" using req new by simp_all
  have eq: "u_sdsMakeRoomFor E s addlen greedy =
      (case s_malloc E (sdsHdrSize t + newlen + 1) of
         None \<Rightarrow> Some None
       | Some block \<Rightarrow> do {
           s' \<leftarrow> room_data s t (adjustTypeIfNeeded t (length block)) block (sdsHdrSize t + newlen + 1);
           if adjustTypeIfNeeded t (length block) = SDS_TYPE_5 \<or>
             length block - sdsHdrSize (adjustTypeIfNeeded t (length block)) - 1 \<le> sdsTypeMaxSize (adjustTypeIfNeeded t (length block))
           then Some (Some (sdssetalloc s' (length block - sdsHdrSize (adjustTypeIfNeeded t (length block)) - 1)))
           else None
         })"
    by (simp only: u_sdsMakeRoomFor_def Let_def sdslen_def room_data_def False if_False reqmod ren t_def [symmetric] hmod gt not_True_eq_False)
  show ?thesis
  proof (cases "s_malloc E (sdsHdrSize t + newlen + 1)")
    case None
    then show ?thesis using null_at [OF None hn] by (simp add: eq)
  next
    case (Some block)
    define u where "u = adjustTypeIfNeeded t (length block)"
    have bl: "sdsHdrSize t + newlen + 1 \<le> length block" "length block < 2 ^ 64" using alloc_okD [OF A Some] by simp_all
    have u: "length block - sdsHdrSize u - 1 \<le> sdsTypeMaxSize u" "u \<noteq> SDS_TYPE_5" "sdsHdrSize t \<le> sdsHdrSize u"
      using adjust_fits [OF t5 bl(2)] by (simp_all add: u_def)
    have ur: "sdsHdrSize u + newlen + 1 \<le> length block" using adjust_room [OF tn bl(1)] by (simp add: u_def)
    note place = room_placed [OF ok u(2) _ _ ur bl(2) u(1)]
    have addn: "sd_len s + addlen \<le> newlen" using new by (simp add: reqlen_def)
    have "sd_len s + 1 \<le> newlen + 1" using req new by simp
    note body = room_body [OF ok this u(3) bl(1) ur]
    from body obtain b where b: "room_data s t u block (sdsHdrSize t + newlen + 1) = Some (sdssetlen (s\<lparr>sd_type := u, sd_buf := b\<rparr>) (sd_len s))"
      "length b = length block - sdsHdrSize u" "take (Suc (sd_len s)) b = take (Suc (sd_len s)) (sd_buf s)" by blast
    have "u_sdsMakeRoomFor E s addlen greedy = Some (Some (sdssetalloc (sdssetlen (s\<lparr>sd_type := u, sd_buf := b\<rparr>) (sd_len s)) (length block - sdsHdrSize u - 1)))"
      using Some u(1,2) b(1) by (simp add: eq flip: u_def)
    then show ?thesis using place [OF b(2,3) addn] by simp
  qed
qed

text \<open>
  Where the sizes would wrap around, one of the two assertions fails: too small a block is never asked for.
\<close>

lemma makeRoom_asserts:
  assumes room: "sdsavail s < addlen" and sizes: "sd_len s < 2 ^ 64" "addlen < 2 ^ 64"
    and big: "2 ^ 64 \<le> sd_len s + addlen + SDS_MAX_PREALLOC + 18"
  shows "u_sdsMakeRoomFor E s addlen True = None"
proof (cases "2 ^ 64 \<le> sd_len s + addlen")
  case True
  then have "(sd_len s + addlen) mod 2 ^ 64 = sd_len s + addlen - 2 ^ 64" using sizes by (simp add: le_mod_geq)
  then have "\<not> (sd_len s + addlen) mod 2 ^ 64 > sd_len s" using sizes by simp
  then show ?thesis using room by (simp add: u_sdsMakeRoomFor_def sdslen_def Let_def)
next
  case False
  define reqlen newlen t where "reqlen = sd_len s + addlen" and "newlen = (reqlen + SDS_MAX_PREALLOC) mod 2 ^ 64"
    and "t = (if sdsReqType newlen = SDS_TYPE_5 then SDS_TYPE_8 else sdsReqType newlen)"
  have req: "(sd_len s + addlen) mod 2 ^ 64 = reqlen" "(reqlen < SDS_MAX_PREALLOC) = False" "2 ^ 64 - 1048594 \<le> reqlen" "reqlen < 2 ^ 64"
    using False big by (simp_all add: reqlen_def SDS_MAX_PREALLOC_def)
  have "\<not> (sdsHdrSize t + newlen + 1) mod 2 ^ 64 > reqlen"
  proof (cases "reqlen + SDS_MAX_PREALLOC < 2 ^ 64")
    case True
    then have new: "newlen = reqlen + SDS_MAX_PREALLOC" by (simp add: newlen_def)
    then have "t = SDS_TYPE_64" using req(3) by (simp add: t_def sdsReqType_def)
    then have "(sdsHdrSize t + newlen + 1) mod 2 ^ 64 = sdsHdrSize t + newlen + 1 - 2 ^ 64"
      using new True big by (simp add: reqlen_def le_mod_geq)
    then show ?thesis using \<open>t = SDS_TYPE_64\<close> new True by (simp add: SDS_MAX_PREALLOC_def)
  next
    case False
    then have "newlen = reqlen + SDS_MAX_PREALLOC - 2 ^ 64" using req(4) by (simp add: newlen_def le_mod_geq SDS_MAX_PREALLOC_def)
    then have "newlen < 1048576" using req(4) by (simp add: SDS_MAX_PREALLOC_def)
    then show ?thesis using sdsHdrSize_bounds(2) [of t] req(3) by simp
  qed
  then have "((sdsHdrSize t + newlen + 1) mod 2 ^ 64 > reqlen) = False" by simp
  moreover have "(addlen \<le> sdsavail s) = False" using room by simp
  ultimately show ?thesis
    by (simp only: u_sdsMakeRoomFor_def Let_def sdslen_def if_False if_True req(1,2) newlen_def [symmetric] t_def [symmetric] not_False_eq_True if_cancel)
qed

section \<open>Operations\<close>

text \<open>Bytes and the terminator behind them.\<close>

lemma write_terminated:
  assumes "off + length t < length bs"
  shows "do { b1 \<leftarrow> write_bytes bs off t; b2 \<leftarrow> write_bytes b1 (off + length t) [0]; k b2 } =
    k (take off bs @ t @ 0 # drop (off + length t + 1) bs)"
proof -
  have "take (off + length t) (take off bs @ t @ drop (off + length t) bs) = take off bs @ t" using assms by simp
  then show ?thesis using assms by simp
qed

lemma sdssetlen_buf: "(sdssetlen s n)\<lparr>sd_buf := b\<rparr> = sdssetlen (s\<lparr>sd_buf := b\<rparr>) n"
  by (simp add: sdssetlen_def)

lemma sdscatlen_gives:
  assumes ok: "sds_ok s" and A: "alloc_ok E" and big: "sd_len s + length t + SDS_MAX_PREALLOC + 18 < 2 ^ 64"
  shows "gives E (sdscatlen E s t) (\<lambda>s'. sds_str s' = sds_str s @ t)"
  unfolding sdscatlen_def Let_def sdsMakeRoomFor_def sdslen_def
proof (rule gives_bind [OF makeRoom_gives [OF ok A big]])
  fix s'
  assume ok': "sds_ok s'" and r: "has_room s (length t) s'"
  define b where "b = take (sd_len s) (sd_buf s') @ t @ 0 # drop (sd_len s + length t + 1) (sd_buf s')"
  have fits: "sd_len s + length t \<le> sdsalloc s'" "sd_len s + length t < length (sd_buf s')"
    using r sds_okD(2) [OF ok'] by (simp_all add: has_room_def)
  have b: "length b = length (sd_buf s')" "b ! (sd_len s + length t) = 0" "take (sd_len s + length t) b = sds_str s @ t"
    using fits r by (auto simp: b_def nth_append has_room_def sds_str_def)
  note set = sds_ok_setlen [OF ok' fits(1) b(1,2)]
  show "gives E (do {
      b1 \<leftarrow> write_bytes (sd_buf s') (sd_len s) t;
      b2 \<leftarrow> write_bytes b1 (sd_len s + length t) [0];
      Some (Some ((sdssetlen s' (sd_len s + length t))\<lparr>sd_buf := b2\<rparr>))
    }) (\<lambda>s'. sds_str s' = sds_str s @ t)"
    unfolding write_terminated [OF fits(2)] sdssetlen_buf using set b(3) by (simp add: b_def)
qed

lemma sdscpylen_gives:
  assumes ok: "sds_ok s" and A: "alloc_ok E" and big: "length t + SDS_MAX_PREALLOC + 18 < 2 ^ 64"
  shows "gives E (sdscpylen E s t) (\<lambda>s'. sds_str s' = t)"
proof -
  have "gives E (if sdsalloc s < length t then sdsMakeRoomFor E s (length t - sdslen s) else Some (Some s)) (\<lambda>s'. length t \<le> sdsalloc s')"
  proof (cases "sdsalloc s < length t")
    case True
    then have "sd_len s + (length t - sd_len s) = length t" using sds_okD(1) [OF ok] by simp
    then show ?thesis using makeRoom_gives [OF ok A, of "length t - sd_len s" True] big True
      by (auto simp: sdsMakeRoomFor_def has_room_def sdslen_def elim!: gives_mono)
  qed (use ok in simp)
  then show ?thesis unfolding sdscpylen_def
  proof (rule gives_bind)
    fix s'
    assume ok': "sds_ok s'" and r: "length t \<le> sdsalloc s'"
    define b where "b = t @ 0 # drop (length t + 1) (sd_buf s')"
    have "length t < length (sd_buf s')" using r sds_okD(2) [OF ok'] by simp
    moreover from this have b: "length b = length (sd_buf s')" "b ! length t = 0" "take (length t) b = t" by (simp_all add: b_def)
    ultimately show "gives E (do {
        b1 \<leftarrow> write_bytes (sd_buf s') 0 t;
        b2 \<leftarrow> write_bytes b1 (length t) [0];
        Some (Some (sdssetlen (s'\<lparr>sd_buf := b2\<rparr>) (length t)))
      }) (\<lambda>s'. sds_str s' = t)"
      using sds_ok_setlen [OF ok' r b(1,2)] by (simp add: b_def)
  qed
qed

lemma sdsgrowzero_gives:
  assumes ok: "sds_ok s" and A: "alloc_ok E" and big: "sd_len s + len + SDS_MAX_PREALLOC + 18 < 2 ^ 64"
  shows "gives E (sdsgrowzero E s len) (\<lambda>s'. sds_str s' = sds_str s @ replicate (len - sd_len s) 0)"
proof (cases "len \<le> sd_len s")
  case True
  then show ?thesis using ok by (simp add: sdsgrowzero_def sdslen_def)
next
  case False
  have "sd_len s + (len - sd_len s) + SDS_MAX_PREALLOC + 18 < 2 ^ 64" using big by simp
  note room = makeRoom_gives [OF ok A this]
  have if_f: "(len \<le> sd_len s) = False" using False by simp
  show ?thesis unfolding sdsgrowzero_def Let_def sdsMakeRoomFor_def sdslen_def if_f if_False
  proof (rule gives_bind [OF room])
    fix s'
    assume ok': "sds_ok s'" and r: "has_room s (len - sd_len s) s'"
    define b where "b = take (sd_len s) (sd_buf s') @ replicate (len - sd_len s + 1) 0 @ drop (len + 1) (sd_buf s')"
    have fits: "len \<le> sdsalloc s'" "len < length (sd_buf s')" using r False sds_okD(2) [OF ok'] by (simp_all add: has_room_def)
    have b: "length b = length (sd_buf s')" "b ! len = 0" "take len b = sds_str s @ replicate (len - sd_len s) 0"
      using fits r False by (auto simp: b_def nth_append has_room_def sds_str_def simp del: replicate_Suc)
    show "gives E (do {
        b \<leftarrow> write_bytes (sd_buf s') (sd_len s) (replicate (len - sd_len s + 1) 0);
        Some (Some (sdssetlen (s'\<lparr>sd_buf := b\<rparr>) len))
      }) (\<lambda>s'. sds_str s' = sds_str s @ replicate (len - sd_len s) 0)"
      using sds_ok_setlen [OF ok' fits(1) b(1,2)] b(3) fits False by (simp add: b_def del: replicate_Suc)
  qed
qed

end
