(* ===== verification/Sds_Edit.thy ===== *)
theory Sds_Edit
  imports Sds_Ops
begin

text \<open>Creating, resizing and cutting strings.\<close>

declare trim_left.simps [simp del] trim_right.simps [simp del]

section \<open>Creation\<close>

text \<open>What a new string holds, and what can be read to initialise it.\<close>

definition init_str :: "sds_init \<Rightarrow> nat \<Rightarrow> bytes \<Rightarrow> bool" where
  "init_str init n str \<longleftrightarrow>
     (case init of InitNone \<Rightarrow> length str = n | InitNull \<Rightarrow> str = replicate n 0 | InitFrom p \<Rightarrow> str = take n p)"

definition init_ok :: "sds_init \<Rightarrow> nat \<Rightarrow> bool" where
  "init_ok init n \<longleftrightarrow> (case init of InitFrom p \<Rightarrow> n \<le> length p | _ \<Rightarrow> True)"

lemma sdssetalloc_buf: "(sdssetalloc s n)\<lparr>sd_buf := b\<rparr> = sdssetalloc (s\<lparr>sd_buf := b\<rparr>) n"
  by (simp add: sdssetalloc_def)

lemma sdsnewplacement_ok:
  assumes L: "sdsHdrSize t + n + 1 \<le> length block" "length block < 2 ^ 64"
    and t: "t = SDS_TYPE_5 \<Longrightarrow> n \<le> 31" "t \<noteq> SDS_TYPE_5 \<Longrightarrow> length block - sdsHdrSize t - 1 \<le> sdsTypeMaxSize t"
    and init: "init_ok init n"
  shows "\<exists>s. sdsnewplacement block t init n = Some s \<and> sds_ok s \<and> init_str init n (sds_str s)"
proof -
  define b where "b = drop (sdsHdrSize t) block"
  define src where "src = (case init of InitNone \<Rightarrow> take n b | InitNull \<Rightarrow> replicate n 0 | InitFrom p \<Rightarrow> take n p)"
  define r where "r = \<lparr>sd_type = t, sd_len = 0, sd_alloc = 0, sd_buf = src @ 0 # drop (n + 1) b\<rparr>"
  define s where "s = sdssetalloc (sdssetlen r n) (length block - sdsHdrSize t - 1)"
  have lb: "n < length b" using L by (simp add: b_def)
  then have src: "length src = n" using init by (cases init) (simp_all add: src_def init_ok_def)
  have r: "sd_type r = t" "length (sd_buf r) = length block - sdsHdrSize t" "sd_buf r ! n = 0" "take n (sd_buf r) = src"
    using lb src by (simp_all add: r_def b_def nth_append)
  have h: "n \<le> length block - sdsHdrSize t - 1" "length block - sdsHdrSize t - 1 < length (sd_buf r)" using L r by simp_all
  have l: "sdsHdrSize (sd_type r) + length (sd_buf r) < 2 ^ 64" using L r by simp
  have "sds_ok s" "sds_str s = src" using sds_ok_set [OF h r(3) _ _ l] t r by (simp_all add: s_def)
  moreover have "sdsnewplacement block t init n = Some s"
    using L src lb init
    by (cases init) (simp_all add: sdsnewplacement_def Let_def init_ok_def s_def r_def src_def sdssetalloc_buf sdssetlen_buf b_def)
  moreover have "init_str init n src" using lb by (cases init) (simp_all add: init_str_def src_def)
  ultimately show ?thesis by simp
qed

lemma sdsnewlen_gives:
  assumes A: "alloc_ok E" and big: "n + 18 < 2 ^ 64" and init: "init_ok init n"
  shows "gives E (sdsnewlen E init n) (\<lambda>s. init_str init n (sds_str s))"
proof -
  define t where "t = (if sdsReqType n = SDS_TYPE_5 \<and> n = 0 then SDS_TYPE_8 else sdsReqType n)"
  have hn: "sdsHdrSize t + n + 1 < 2 ^ 64" using sdsHdrSize_bounds(2) [of t] big by simp
  have tn: "n \<le> req_max t" using sdsReqType_req_max [of n] big by (simp add: t_def)
  have gt: "((n + sdsHdrSize t + 1) mod 2 ^ 64 > n) = True" using hn by (simp add: add.commute)
  have eq: "sdsnewlen E init n = (case s_malloc E (sdsHdrSize t + n + 1) of None \<Rightarrow> Some None
      | Some block \<Rightarrow> map_option Some (sdsnewplacement block (adjustTypeIfNeeded t (length block)) init n))"
    by (simp only: sdsnewlen_def u_sdsnewlen_def Let_def t_def [symmetric] gt if_True)
  show ?thesis
  proof (cases "s_malloc E (sdsHdrSize t + n + 1)")
    case None
    then show ?thesis using null_at [OF None hn] by (simp add: eq)
  next
    case (Some block)
    note bl = alloc_okD [OF A Some]
    have "t = SDS_TYPE_5 \<Longrightarrow> n \<le> 31" using tn by simp
    then have "\<exists>s. sdsnewplacement block (adjustTypeIfNeeded t (length block)) init n = Some s \<and> sds_ok s \<and> init_str init n (sds_str s)"
      using bl adjust_room [OF tn] adjust_fits [of t "length block"]
      by (intro sdsnewplacement_ok init) (cases "t = SDS_TYPE_5"; auto)+
    then show ?thesis using Some by (auto simp: eq)
  qed
qed

lemma sdsempty_gives: "alloc_ok E \<Longrightarrow> gives E (sdsempty E) (\<lambda>s. sds_str s = [])"
  using sdsnewlen_gives [of E 0 "InitFrom []"] by (simp add: sdsempty_def init_ok_def init_str_def)

lemma sdsdup_gives:
  assumes "sds_ok s" and "alloc_ok E" and "sd_len s + 18 < 2 ^ 64"
  shows "gives E (sdsdup E s) (\<lambda>s'. sds_str s' = sds_str s)"
  using sdsnewlen_gives [OF assms(2,3), of "InitFrom (sd_buf s)"] sds_okD(6) [OF assms(1)]
  by (simp add: sdsdup_def sdslen_def init_ok_def init_str_def sds_str_def)

lemma sdsclear_ok: "sds_ok s \<Longrightarrow> \<exists>s'. sdsclear s = Some s' \<and> sds_ok s' \<and> sds_str s' = [] \<and> (sd_type s \<noteq> SDS_TYPE_5 \<longrightarrow> sdsalloc s' = sdsalloc s)"
  using sds_ok_setlen [of s 0 "0 # drop 1 (sd_buf s)"] sds_okD(6) [of s]
  by (auto simp: sdsclear_def sdssetlen_buf sdsalloc_def)

section \<open>Resizing\<close>

text \<open>The string cut to \<open>n\<close> bytes, where the block has room for them.\<close>

lemma resize_done_gives:
  assumes ok: "sds_ok s" and buf: "usable < length (sd_buf r)" "take (min n (sd_len s)) (sd_buf r) = take (min n (sd_len s)) (sd_buf s)"
    and r: "sd_type r = SDS_TYPE_5 \<Longrightarrow> min n (sd_len s) \<le> 31" "sd_type r \<noteq> SDS_TYPE_5 \<Longrightarrow> usable \<le> sdsTypeMaxSize (sd_type r)"
      "sdsHdrSize (sd_type r) + length (sd_buf r) < 2 ^ 64" and len: "min n (sd_len s) \<le> usable"
  shows "gives E (resize_done r (min n (sd_len s)) usable) (\<lambda>s'. sds_str s' = take n (sds_str s))"
proof -
  define len where "len = min n (sd_len s)"
  define b where "b = take len (sd_buf r) @ 0 # drop (Suc len) (sd_buf r)"
  have l: "len < length (sd_buf r)" using len buf(1) by (simp add: len_def)
  then have b: "length b = length (sd_buf r)" "b ! len = 0" "take len b = take n (sds_str s)"
    using buf(2) sds_okD(6) [OF ok] by (simp_all add: b_def nth_append len_def sds_str_def)
  have "sds_ok (sdssetalloc (sdssetlen (r\<lparr>sd_buf := b\<rparr>) len) usable)" "sds_str (sdssetalloc (sdssetlen (r\<lparr>sd_buf := b\<rparr>) len) usable) = take len b"
    using sds_ok_set [of len usable "r\<lparr>sd_buf := b\<rparr>"] buf(1) r len b by (simp_all add: len_def)
  then show ?thesis using b l by (simp add: resize_done_def b_def flip: len_def)
qed

lemma resize_block_gives:
  assumes ok: "sds_ok s" and b: "length b = length block - sdsHdrSize u" "take (Suc (min n (sd_len s))) b = take (Suc (min n (sd_len s))) (sd_buf s)"
    and tn: "n \<le> req_max t" and L: "sdsHdrSize t + n + 1 \<le> length block" "length block < 2 ^ 64" and u: "u = adjustTypeIfNeeded t (length block)"
  shows "gives E (resize_done (s\<lparr>sd_type := u, sd_buf := b\<rparr>) (min n (sd_len s)) (length block - sdsHdrSize u - 1)) (\<lambda>s'. sds_str s' = take n (sds_str s))"
proof -
  have "u \<noteq> SDS_TYPE_5 \<Longrightarrow> length block - sdsHdrSize u - 1 \<le> sdsTypeMaxSize u" "u = SDS_TYPE_5 \<Longrightarrow> min n (sd_len s) \<le> 31"
    using adjust_fits(1,2) [of t "length block"] L tn by (cases "t = SDS_TYPE_5"; simp add: u)+
  moreover have "sdsHdrSize u + n + 1 \<le> length block" using adjust_room [OF tn L(1)] by (simp add: u)
  ultimately show ?thesis
    using b(1) L(2) take_of_take [OF b(2), of "min n (sd_len s)"] by (intro resize_done_gives ok) simp_all
qed

lemma resize_realloc_gives:
  assumes ok: "sds_ok s" and A: "alloc_ok E" and tn: "n \<le> req_max (sd_type s)" and big: "n + 18 < 2 ^ 64"
  shows "gives E (resize_realloc E s (min n (sd_len s)) (sdsHdrSize (sd_type s) + n + 1)) (\<lambda>s'. sds_str s' = take n (sds_str s))"
proof (cases "nallocx E (sdsHdrSize (sd_type s) + n + 1) = Some (sds_alloc_size s)")
  case True
  have "sd_type s = SDS_TYPE_5 \<Longrightarrow> min n (sd_len s) \<le> 31" "min n (sd_len s) \<le> sdsalloc s"
    using sds_okD(1,7) [OF ok] by (simp_all add: min.coboundedI2)
  then have "gives E (resize_done s (min n (sd_len s)) (sdsalloc s)) (\<lambda>s'. sds_str s' = take n (sds_str s))"
    using sds_okD [OF ok] by (intro resize_done_gives ok) simp_all
  then show ?thesis using True by (simp add: resize_realloc_def sds_alloc_size_def)
next
  case False
  define h where "h = sdsHdrSize (sd_type s)"
  show ?thesis
  proof (cases "s_malloc E (h + n + 1)")
    case (Some block)
    define u where "u = adjustTypeIfNeeded (sd_type s) (length block)"
    note bl = alloc_okD [OF A Some, unfolded h_def]
    note room = adjust_room [OF tn bl [THEN conjunct1]]
    have hu: "sdsHdrSize (sd_type s) \<le> sdsHdrSize u" using adjust_fits(3) [of "sd_type s" "length block"] bl
      by (cases "sd_type s = SDS_TYPE_5") (simp_all add: u_def)
    have sl: "min n (sd_len s) \<le> n" "min n (sd_len s) < length (sd_buf s)" using sds_okD(6) [OF ok] by simp_all
    obtain b where b: "(if u \<noteq> sd_type s then shift_buf h (sdsHdrSize u) (min n (sd_len s) + 1) (realloc_buf h block (h + n + 1) (sd_buf s))
        else Some (realloc_buf h block (h + n + 1) (sd_buf s))) = Some b"
      "length b = length block - sdsHdrSize u" "take (Suc (min n (sd_len s))) b = take (Suc (min n (sd_len s))) (sd_buf s)"
      using realloc_moved [OF sl hu] bl room unfolding h_def u_def by metis
    have "resize_realloc E s (min n (sd_len s)) (h + n + 1) = resize_done (s\<lparr>sd_type := u, sd_buf := b\<rparr>) (min n (sd_len s)) (length block - sdsHdrSize u - 1)"
      by (simp only: resize_realloc_def Let_def False [folded h_def] if_False Some option.case h_def [symmetric] u_def [symmetric] b(1) bind.bind_lunit)
    then show ?thesis using resize_block_gives [OF ok b(2,3) tn _ _ u_def] bl by (simp add: h_def)
  next
    case None
    have "h + n + 1 < 2 ^ 64" using sdsHdrSize_bounds(2) [of "sd_type s"] big by (simp add: h_def)
    from null_at [OF None this] show ?thesis using False None by (simp add: resize_realloc_def h_def)
  qed
qed

lemma resize_malloc_gives:
  assumes ok: "sds_ok s" and A: "alloc_ok E" and tn: "n \<le> req_max t" and big: "n + 18 < 2 ^ 64"
  shows "gives E (resize_malloc E s t (min n (sd_len s)) (sdsHdrSize t + n + 1)) (\<lambda>s'. sds_str s' = take n (sds_str s))"
proof (cases "s_malloc E (sdsHdrSize t + n + 1)")
  case (Some block)
  define u where "u = adjustTypeIfNeeded t (length block)"
  note bl = alloc_okD [OF A Some]
  note room = adjust_room [OF tn bl [THEN conjunct1]]
  define b where "b = take (Suc (min n (sd_len s))) (sd_buf s) @ drop (Suc (min n (sd_len s))) (drop (sdsHdrSize u) block)"
  have sl: "min n (sd_len s) < length (sd_buf s)" using sds_okD(6) [OF ok] by simp
  have b: "length b = length block - sdsHdrSize u" "take (Suc (min n (sd_len s))) b = take (Suc (min n (sd_len s))) (sd_buf s)"
    using sl room by (simp_all add: b_def u_def)
  have "do { src \<leftarrow> read_bytes (sd_buf s) 0 (min n (sd_len s) + 1); buf \<leftarrow> write_bytes (drop (sdsHdrSize u) block) 0 src; k buf } = k b"
    for k :: "bytes \<Rightarrow> sds option option"
    using sl room by (simp add: b_def u_def add.commute)
  then show ?thesis using Some resize_block_gives [OF ok b tn _ _ u_def] bl by (simp add: resize_malloc_def flip: u_def)
next
  case None
  have "sdsHdrSize t + n + 1 < 2 ^ 64" using sdsHdrSize_bounds(2) [of t] big by simp
  from null_at [OF None this] show ?thesis using None by (simp add: resize_malloc_def)
qed

lemma sdsResize_gives:
  assumes ok: "sds_ok s" and A: "alloc_ok E" and big: "n + 18 < 2 ^ 64"
  shows "gives E (sdsResize E s n would_regrow) (\<lambda>s'. sds_str s' = take n (sds_str s))"
proof (cases "sdsalloc s = n")
  case True
  then show ?thesis using ok sds_okD(1) [OF ok] by (simp add: sdsResize_def sds_str_def)
next
  case False
  define t where "t = (if would_regrow \<and> sdsReqType n = SDS_TYPE_5 then SDS_TYPE_8 else sdsReqType n)"
  have tn: "n \<le> req_max t" using sdsReqType_req_max [of n] big by (auto simp: t_def)
  have hn: "(sdsHdrSize u + n + 1) mod 2 ^ 64 = sdsHdrSize u + n + 1" for u
    using sdsHdrSize_bounds(2) [of u] big by simp
  have lenmin: "(if n < sd_len s then n else sd_len s) = min n (sd_len s)" and if_f: "(sdsalloc s = n) = False" using False by simp_all
  have eq: "sdsResize E s n would_regrow =
      (if sd_type s = t \<or> (type_num t < type_num (sd_type s) \<and> type_num t > type_num SDS_TYPE_8)
       then resize_realloc E s (min n (sd_len s)) (sdsHdrSize (sd_type s) + n + 1)
       else resize_malloc E s t (min n (sd_len s)) (sdsHdrSize t + n + 1))"
    by (simp only: sdsResize_def Let_def sdslen_def if_f if_False lenmin t_def [symmetric] hn)
  show ?thesis using resize_realloc_gives [OF ok A _ big] resize_malloc_gives [OF ok A tn big] tn req_max_mono [of t "sd_type s"]
    by (auto simp: eq)
qed

end
