(* ===== verification/Sds_Cut.thy ===== *)
theory Sds_Cut
  imports Sds_Edit
begin

text \<open>The operations that work in place: the length changed by hand, and a part of the string kept.\<close>

section \<open>The length\<close>

lemma incr_okI:
  assumes ok: "sds_ok s" and r: "0 \<le> int (sd_len s) + incr" "int (sd_len s) + incr \<le> int (sdsalloc s)"
    and z: "sd_type s = SDS_TYPE_5 \<Longrightarrow> incr \<noteq> 0"
  shows "incr_ok s incr"
proof (cases "incr < 0")
  case True
  have "int (sd_len s) \<le> int (sdsTypeMaxSize (sd_type s))" using sds_okD(7) [OF ok] by simp
  then have m: "(- incr) mod 2 ^ 64 = - incr" "sd_type s \<noteq> SDS_TYPE_64 \<Longrightarrow> (- incr) mod 2 ^ 32 = - incr"
    using r(1) True by (cases "sd_type s"; simp)+
  then show ?thesis using True r(1) by (cases "sd_type s") (simp_all add: incr_ok_def Let_def)
next
  case False
  have "int (sdsalloc s) \<le> int (sdsTypeMaxSize (sd_type s))" "sd_len s \<le> sdsalloc s" using sds_okD(1,3) [OF ok] by simp_all
  then have m: "sd_type s = SDS_TYPE_64 \<Longrightarrow> (int (sd_alloc s) - int (sd_len s)) mod 2 ^ 64 = int (sd_alloc s) - int (sd_len s)"
      "sd_type s = SDS_TYPE_32 \<Longrightarrow> (int (sd_alloc s) - int (sd_len s)) mod 2 ^ 32 = int (sd_alloc s) - int (sd_len s)"
      "sd_type s = SDS_TYPE_64 \<Longrightarrow> incr mod 2 ^ 64 = incr" "sd_type s = SDS_TYPE_32 \<Longrightarrow> incr mod 2 ^ 32 = incr"
    using r False by (simp_all add: sdsalloc_def)
  then show ?thesis using False r z by (cases "sd_type s") (simp_all add: incr_ok_def Let_def sdsalloc_def)
qed

lemma sdsIncrLen_ok:
  assumes ok: "sds_ok s" and r: "0 \<le> int (sd_len s) + incr" "int (sd_len s) + incr \<le> int (sdsalloc s)"
    and z: "sd_type s = SDS_TYPE_5 \<Longrightarrow> incr \<noteq> 0"
  shows "\<exists>s'. sdsIncrLen s incr = Some s' \<and> sds_ok s' \<and> sds_str s' = take (nat (int (sd_len s) + incr)) (sd_buf s)"
proof -
  define n where "n = nat (int (sd_len s) + incr)"
  define b where "b = take n (sd_buf s) @ 0 # drop (n + 1) (sd_buf s)"
  have n: "int n = int (sd_len s) + incr" "n \<le> sdsalloc s" using r by (simp_all add: n_def)
  have l: "n < length (sd_buf s)" "n \<le> sdsTypeMaxSize (sd_type s)" using n(2) sds_okD(2,3) [OF ok] by simp_all
  have m: "nat (int n mod 2 ^ len_bits (sd_type s)) = n"
    using l(2) by (metis nat_int of_nat_mod of_nat_numeral of_nat_power sdsTypeMaxSize_mod)
  have "sdsIncrLen s incr = Some (sdssetlen (s\<lparr>sd_buf := b\<rparr>) n)"
    using incr_okI [OF assms] m l by (simp add: sdsIncrLen_def Let_def sdssetlen_def b_def flip: n(1))
  moreover have "length b = length (sd_buf s)" "b ! n = 0" "take n b = take n (sd_buf s)" using l by (simp_all add: b_def nth_append)
  ultimately show ?thesis using sds_ok_setlen [OF ok n(2)] by (simp flip: n_def)
qed

section \<open>Parts\<close>

lemma cut_ok:
  assumes ok: "sds_ok s" and r: "start + len \<le> sd_len s"
  shows "\<exists>b. move_bytes (sd_buf s) 0 start len = Some b \<and> length b = length (sd_buf s) \<and> take len b = take len (drop start (sds_str s))"
  using r sds_okD(6) [OF ok] by (simp add: move_bytes_def sds_str_def take_drop)

lemma cut_done:
  assumes ok: "sds_ok s" and len: "len \<le> sd_len s" and b: "length b = length (sd_buf s)"
  shows "\<exists>s'. (do { b2 \<leftarrow> write_bytes b len [0]; Some (sdssetlen (s\<lparr>sd_buf := b2\<rparr>) len) }) = Some s' \<and> sds_ok s' \<and> sds_str s' = take len b"
  using sds_ok_setlen [OF ok, of len "take len b @ 0 # drop (Suc len) b"] len b sds_okD(1,6) [OF ok] by (simp add: nth_append)

lemma sdssubstr_ok:
  assumes ok: "sds_ok s"
  shows "\<exists>s'. sdssubstr s start len = Some s' \<and> sds_ok s' \<and> sds_str s' = take len (drop start (sds_str s))"
proof -
  define n where "n = (if start \<ge> sd_len s then 0 else min len (sd_len s - start))"
  have "\<exists>b. (if n \<noteq> 0 then move_bytes (sd_buf s) 0 start n else Some (sd_buf s)) = Some b \<and> length b = length (sd_buf s) \<and> take n b = take n (drop start (sds_str s))"
    using cut_ok [OF ok, of start n] by (auto simp: n_def)
  then obtain b where b: "(if n \<noteq> 0 then move_bytes (sd_buf s) 0 start n else Some (sd_buf s)) = Some b" "length b = length (sd_buf s)" "take n b = take n (drop start (sds_str s))"
    by blast
  have "n \<le> sd_len s" by (auto simp: n_def min_def)
  from cut_done [OF ok this b(2)] obtain s' where s': "(do { b2 \<leftarrow> write_bytes b n [0]; Some (sdssetlen (s\<lparr>sd_buf := b2\<rparr>) n) }) = Some s'" "sds_ok s'" "sds_str s' = take n b"
    by blast
  have "sdssubstr s start len = Some s'" using s'(1) b(1) by (auto simp: sdssubstr_def sdslen_def Let_def n_def min_def split: if_splits)
  moreover have "take n (drop start (sds_str s)) = take len (drop start (sds_str s))"
    using sds_str_length [OF ok] by (auto simp: n_def sdslen_def min_def)
  ultimately show ?thesis using s' b by simp
qed

text \<open>Indices from the end count from the length.\<close>

definition range_index :: "bytes \<Rightarrow> int \<Rightarrow> int" where
  "range_index xs i = (if i < 0 then int (length xs) + i else i)"

definition range_spec :: "bytes \<Rightarrow> int \<Rightarrow> int \<Rightarrow> bytes" where
  "range_spec xs start stop =
     (let a = range_index xs start; z = range_index xs stop in
      if a < 0 \<or> a > z then [] else take (nat (z - a + 1)) (drop (nat a) xs))"

lemma sdsrange_ok:
  assumes ok: "sds_ok s" and len: "sd_len s < 2 ^ 63" and i: "in_sint 64 start" "in_sint 64 stop"
  shows "\<exists>s'. sdsrange s start stop = Some s' \<and> sds_ok s' \<and> sds_str s' = range_spec (sds_str s) start stop"
proof (cases "sd_len s = 0")
  case True
  then show ?thesis using ok by (simp add: sdsrange_def sdslen_def sds_str_def range_spec_def Let_def)
next
  case False
  define a z where "a = range_index (sds_str s) start" and "z = range_index (sds_str s) stop"
  define newlen where "newlen = (if a > z then 0 else to_uint 64 (z - a + 1))"
  have l: "length (sds_str s) = sd_len s" using sds_str_length [OF ok] by (simp add: sdslen_def)
  have ii: "- (2 ^ 63) \<le> a" "a < 2 ^ 63" "- (2 ^ 63) \<le> z" "z < 2 ^ 63"
    using i len by (auto simp: a_def z_def range_index_def in_sint_def l)
  have conv: "(if start < 0 then to_sint 64 (int (sd_len s) + start) else start) = a" "(if stop < 0 then to_sint 64 (int (sd_len s) + stop) else stop) = z"
    using i len by (auto simp: a_def z_def range_index_def l in_sint_def intro!: to_sint_id)
  have eq: "sdsrange s start stop = sdssubstr s (nat (to_uint 64 a)) (nat newlen)"
    by (simp only: sdsrange_def Let_def sdslen_def False if_False conv newlen_def)
  have "take (nat newlen) (drop (nat (to_uint 64 a)) (sds_str s)) = range_spec (sds_str s) start stop"
  proof (cases "a < 0")
    case True
    have "to_uint 64 a = (a + 2 ^ 64) mod 2 ^ 64" by (simp add: to_uint_def)
    also have "\<dots> = a + 2 ^ 64" by (rule mod_pos_pos_trivial) (use ii True in simp_all)
    finally have "to_uint 64 a = a + 2 ^ 64" .
    then have "sd_len s \<le> nat (to_uint 64 a)" using ii len by simp
    then show ?thesis using True by (simp add: range_spec_def Let_def l flip: a_def z_def)
  next
    case False
    then have "to_uint 64 a = a" "newlen = (if a > z then 0 else z - a + 1)" using ii by (simp_all add: newlen_def)
    then show ?thesis using False by (simp add: range_spec_def Let_def flip: a_def z_def)
  qed
  then show ?thesis using sdssubstr_ok [OF ok, of "nat (to_uint 64 a)" "nat newlen"] by (simp add: eq)
qed


section \<open>Trimming\<close>

text \<open>The reference: bytes of the set, and zero bytes, are dropped at both ends.\<close>

definition trim_spec :: "bytes \<Rightarrow> bytes \<Rightarrow> bytes" where
  "trim_spec cset xs = rev (dropWhile (strchr cset) (rev (dropWhile (strchr cset) xs)))"

lemma trim_left_eq:
  assumes "n \<le> length buf" and "i \<le> n"
  shows "trim_left buf cset (int i) (int n - 1) = Some (int (i + length (takeWhile (strchr cset) (drop i (take n buf)))))"
  using assms(2)
proof (induction "n - i" arbitrary: i)
  case 0
  then show ?case by (subst trim_left.simps) simp
next
  case (Suc k)
  then have i: "i < n" "k = n - Suc i" by simp_all
  have "drop i (take n buf) = buf ! i # drop (Suc i) (take n buf)" using i assms(1) by (simp flip: Cons_nth_drop_Suc)
  moreover have "int i + 1 = int (Suc i)" by simp
  ultimately show ?case using Suc.hyps(1) [OF i(2)] i assms(1) by (subst trim_left.simps) (simp add: int_Suc del: of_nat_Suc)
qed

lemma trim_right_eq:
  assumes n: "n \<le> length buf" "i < n" and stop: "\<not> strchr cset (buf ! i)"
  shows "trim_right buf cset (int n - 1) (int i) = Some (int i + int (length (dropWhile (strchr cset) (rev (drop i (take n buf))))) - 1)"
  using n
proof (induction n)
  case 0
  then show ?case by simp
next
  case (Suc n)
  have r: "rev (drop i (take (Suc n) buf)) = buf ! n # rev (drop i (take n buf))" using Suc.prems by (simp add: take_Suc_conv_app_nth)
  show ?case
  proof (cases "i < n")
    case True
    then show ?thesis using Suc r by (subst trim_right.simps) simp
  next
    case False
    then have "n = i" using Suc.prems by simp
    then show ?thesis using stop r by (subst trim_right.simps) simp
  qed
qed

lemma rev_dropWhile_rev: "rev (dropWhile P (rev ys)) = take (length (dropWhile P (rev ys))) ys"
proof -
  have "ys = rev (dropWhile P (rev ys)) @ rev (takeWhile P (rev ys))" by (metis rev_append rev_rev_ident takeWhile_dropWhile_id)
  then show ?thesis by (metis append_eq_conv_conj length_rev)
qed

lemma trim_spec_slice:
  "trim_spec cset xs = take (length (dropWhile (strchr cset) (rev (dropWhile (strchr cset) xs)))) (drop (length (takeWhile (strchr cset) xs)) xs)"
  unfolding trim_spec_def by (subst rev_dropWhile_rev) (simp add: dropWhile_eq_drop)

lemma sdstrim_ok:
  assumes ok: "sds_ok s"
  shows "\<exists>s'. sdstrim s cset = Some s' \<and> sds_ok s' \<and> sds_str s' = trim_spec cset (sds_str s)"
proof -
  define P where "P = strchr cset"
  define i where "i = length (takeWhile P (sds_str s))"
  define n where "n = length (dropWhile P (rev (dropWhile P (sds_str s))))"
  have l: "length (sds_str s) = sd_len s" "sd_len s < length (sd_buf s)" using ok sds_okD(6) by (simp_all add: sdslen_def)
  have il: "i \<le> sd_len s" unfolding i_def using length_takeWhile_le [of P "sds_str s"] l by simp
  have d: "drop i (sds_str s) = dropWhile P (sds_str s)" by (simp add: i_def dropWhile_eq_drop)
  have nl: "n \<le> sd_len s - i" unfolding n_def d [symmetric] using length_dropWhile_le [of P "rev (drop i (sds_str s))"] l by simp
  have left: "trim_left (sd_buf s) cset 0 (int (sd_len s) - 1) = Some (int i)"
    using trim_left_eq [of "sd_len s" "sd_buf s" 0 cset] l by (simp add: i_def P_def sds_str_def)
  have right: "trim_right (sd_buf s) cset (int (sd_len s) - 1) (int i) = Some (int i + int n - 1)"
  proof (cases "i < sd_len s")
    case True
    then have "drop i (sds_str s) \<noteq> []" using l by simp
    then have "\<not> P (hd (drop i (sds_str s)))" unfolding d by (rule hd_dropWhile)
    then have "\<not> strchr cset (sd_buf s ! i)" using True l by (simp add: hd_drop_conv_nth P_def sds_str_def)
    from trim_right_eq [OF _ True this] show ?thesis using l d by (simp add: n_def P_def sds_str_def)
  next
    case False
    then have "n = 0" using nl by simp
    then show ?thesis using False il by (subst trim_right.simps) simp
  qed
  have spec: "trim_spec cset (sds_str s) = take n (drop i (sds_str s))" unfolding n_def i_def P_def by (rule trim_spec_slice)
  have "i + n \<le> sd_len s" using il nl by simp
  note cut = cut_ok [OF ok this]
  have "\<exists>b. (if int i \<noteq> 0 then move_bytes (sd_buf s) 0 (nat (int i)) n else Some (sd_buf s)) = Some b \<and> length b = length (sd_buf s) \<and> take n b = trim_spec cset (sds_str s)"
    using cut nl unfolding spec by (cases "i = 0") (auto simp: sds_str_def min_def)
  then obtain b where b: "(if int i \<noteq> 0 then move_bytes (sd_buf s) 0 (nat (int i)) n else Some (sd_buf s)) = Some b" "length b = length (sd_buf s)" "take n b = trim_spec cset (sds_str s)"
    by blast
  have len: "nat (int i + int n - 1 - int i + 1) = n" by simp
  have "sdstrim s cset = (do { b2 \<leftarrow> write_bytes b n [0]; Some (sdssetlen (s\<lparr>sd_buf := b2\<rparr>) n) })"
    by (simp only: sdstrim_def sdslen_def Let_def left right bind.bind_lunit len b(1))
  moreover have "n \<le> sd_len s" using nl by simp
  ultimately show ?thesis using cut_done [OF ok _ b(2), of n] b(3) by simp
qed

end
