(* ===== verification/Sds_Props.thy ===== *)
theory Sds_Props
  imports Sds_Cut
begin

text \<open>A dynamic string is a byte sequence: every sequence of calls does to the bytes what the calls promise.\<close>

section \<open>Sequences of calls\<close>

datatype sds_call =
    CatLen bytes
  | CpyLen bytes
  | GrowZero nat
  | MakeRoom nat bool
  | Resize nat bool
  | RemoveFreeSpace bool
  | Clear
  | Trim bytes
  | Substr nat nat
  | Range int int

fun sds_do :: "sds_env \<Rightarrow> sds \<Rightarrow> sds_call \<Rightarrow> sds option option" where
  "sds_do E s (CatLen t) = sdscatlen E s t"
| "sds_do E s (CpyLen t) = sdscpylen E s t"
| "sds_do E s (GrowZero n) = sdsgrowzero E s n"
| "sds_do E s (MakeRoom n greedy) = u_sdsMakeRoomFor E s n greedy"
| "sds_do E s (Resize n would_regrow) = sdsResize E s n would_regrow"
| "sds_do E s (RemoveFreeSpace would_regrow) = sdsRemoveFreeSpace E s would_regrow"
| "sds_do E s Clear = map_option Some (sdsclear s)"
| "sds_do E s (Trim cset) = map_option Some (sdstrim s cset)"
| "sds_do E s (Substr start len) = map_option Some (sdssubstr s start len)"
| "sds_do E s (Range start stop) = map_option Some (sdsrange s start stop)"

fun sds_run :: "sds_env \<Rightarrow> sds \<Rightarrow> sds_call list \<Rightarrow> sds option option" where
  "sds_run E s [] = Some (Some s)"
| "sds_run E s (c # cs) = (sds_do E s c \<bind> (\<lambda>r. case r of None \<Rightarrow> Some None | Some s' \<Rightarrow> sds_run E s' cs))"

text \<open>What the calls do to the bytes.\<close>

fun bytes_do :: "sds_call \<Rightarrow> bytes \<Rightarrow> bytes" where
  "bytes_do (CatLen t) xs = xs @ t"
| "bytes_do (CpyLen t) xs = t"
| "bytes_do (GrowZero n) xs = xs @ replicate (n - length xs) 0"
| "bytes_do (MakeRoom n greedy) xs = xs"
| "bytes_do (Resize n would_regrow) xs = take n xs"
| "bytes_do (RemoveFreeSpace would_regrow) xs = xs"
| "bytes_do Clear xs = []"
| "bytes_do (Trim cset) xs = trim_spec cset xs"
| "bytes_do (Substr start len) xs = take len (drop start xs)"
| "bytes_do (Range start stop) xs = range_spec xs start stop"

text \<open>The most bytes that a call may add or ask for; indices are \<^verbatim>\<open>ssize_t\<close>.\<close>

fun call_size :: "sds_call \<Rightarrow> nat" where
  "call_size (CatLen t) = length t"
| "call_size (CpyLen t) = length t"
| "call_size (GrowZero n) = n"
| "call_size (MakeRoom n greedy) = n"
| "call_size (Resize n would_regrow) = n"
| "call_size _ = 0"

fun call_ok :: "sds_call \<Rightarrow> bool" where
  "call_ok (Range start stop) = (in_sint 64 start \<and> in_sint 64 stop)"
| "call_ok _ = True"

text \<open>Half of the address space, less the room that is asked for in advance.\<close>

definition SIZE_LIMIT :: nat where
  "SIZE_LIMIT = 2 ^ 63 - 2 ^ 21"

lemma length_trim_spec: "length (trim_spec cset xs) \<le> length xs"
  unfolding trim_spec_def using length_dropWhile_le [of "strchr cset" "rev (dropWhile (strchr cset) xs)"] length_dropWhile_le [of "strchr cset" xs]
  by simp

lemma length_bytes_do: "length (bytes_do c xs) \<le> length xs + call_size c"
  by (cases c) (auto simp: range_spec_def Let_def intro: order_trans [OF length_trim_spec])

lemma gives_map_option:
  "\<exists>s'. f = Some s' \<and> sds_ok s' \<and> sds_str s' = ys \<Longrightarrow> gives E (map_option Some f) (\<lambda>s'. sds_str s' = ys)"
  by auto

lemma sds_do_gives:
  assumes ok: "sds_ok s" and A: "alloc_ok E" and size: "sd_len s + call_size c \<le> SIZE_LIMIT" and c: "call_ok c"
  shows "gives E (sds_do E s c) (\<lambda>s'. sds_str s' = bytes_do c (sds_str s))"
proof -
  have l: "length (sds_str s) = sd_len s" using ok by (simp add: sdslen_def)
  have big: "sd_len s + call_size c + SDS_MAX_PREALLOC + 18 < 2 ^ 64" "call_size c + SDS_MAX_PREALLOC + 18 < 2 ^ 64"
    "sd_len s + 18 < 2 ^ 64" "call_size c + 18 < 2 ^ 64" "sd_len s < 2 ^ 63"
    using size by (simp_all add: SIZE_LIMIT_def SDS_MAX_PREALLOC_def)
  show ?thesis
  proof (cases c)
    case (CatLen t)
    then show ?thesis using sdscatlen_gives [OF ok A] big by simp
  next
    case (CpyLen t)
    then show ?thesis using sdscpylen_gives [OF ok A] big by simp
  next
    case (GrowZero n)
    then show ?thesis using sdsgrowzero_gives [OF ok A] big l by simp
  next
    case (MakeRoom n greedy)
    then show ?thesis using makeRoom_gives [OF ok A, of n greedy] big by (auto simp: has_room_def elim: gives_mono)
  next
    case (Resize n would_regrow)
    then show ?thesis using sdsResize_gives [OF ok A] big by simp
  next
    case (RemoveFreeSpace would_regrow)
    then show ?thesis using sdsResize_gives [OF ok A, of "sd_len s"] big l by (simp add: sdsRemoveFreeSpace_def sdslen_def)
  next
    case Clear
    then show ?thesis using sdsclear_ok [OF ok] by auto
  next
    case (Trim cset)
    then show ?thesis using sdstrim_ok [OF ok] by (simp add: gives_map_option)
  next
    case (Substr start len)
    then show ?thesis using sdssubstr_ok [OF ok] by (simp add: gives_map_option)
  next
    case (Range start stop)
    then show ?thesis using sdsrange_ok [OF ok big(5)] c by (simp add: gives_map_option)
  qed
qed

text \<open>
  (C6) Strings are byte sequences. From any well-formed string, every sequence of calls of the mutating functions of
  \<^verbatim>\<open>sds.c\<close> (append, overwrite, grow, make room, resize, remove free space, clear, trim, substring, range) runs without
  a failed assertion and without an access outside the block, whatever block sizes the allocator returns and whichever header types the
  strings move through; the result satisfies the invariant (length at most capacity, capacity recorded in the header's field,
  terminator in place) and holds the bytes that the same calls give on a plain list. \<^verbatim>\<open>NULL\<close> is returned only if the allocator has failed. The bytes the calls handle
  must stay below half of the address space.
\<close>

theorem sds_refines_bytes:
  assumes "sds_ok s" and "alloc_ok E" and "\<forall>c \<in> set cs. call_ok c"
    and "sdslen s + sum_list (map call_size cs) \<le> SIZE_LIMIT"
  shows "gives E (sds_run E s cs) (\<lambda>s'. sds_str s' = fold bytes_do cs (sds_str s))"
  using assms
proof (induction cs arbitrary: s)
  case Nil
  then show ?case by simp
next
  case (Cons c cs)
  have "gives E (sds_do E s c) (\<lambda>s'. sds_str s' = bytes_do c (sds_str s))"
    using Cons.prems by (intro sds_do_gives) (simp_all add: sdslen_def)
  then show ?case unfolding sds_run.simps
  proof (rule gives_bind)
    fix s'
    assume s': "sds_ok s'" "sds_str s' = bytes_do c (sds_str s)"
    have "sdslen s' \<le> sdslen s + call_size c"
      using length_bytes_do [of c "sds_str s"] s' Cons.prems(1) by (simp flip: sds_str_length)
    then show "gives E (sds_run E s' cs) (\<lambda>s'. sds_str s' = fold bytes_do (c # cs) (sds_str s))"
      using Cons.IH [OF s'(1)] Cons.prems s'(2) by simp
  qed
qed


text \<open>An allocator that returns blocks of exactly the size that was asked for.\<close>

definition exact_alloc :: sds_env where
  "exact_alloc = \<lparr>s_malloc = (\<lambda>n. if n < 2 ^ 64 then Some (replicate n 0) else None), nallocx = (\<lambda>_. None)\<rparr>"

lemma exact_alloc_ok: "alloc_ok exact_alloc" "n < 2 ^ 64 \<Longrightarrow> s_malloc exact_alloc n \<noteq> None"
  by (auto simp: alloc_ok_def exact_alloc_def split: if_splits)

definition demo_sds :: sds where
  "demo_sds = \<lparr>sd_type = SDS_TYPE_8, sd_len = 3, sd_alloc = 4, sd_buf = [32, 97, 98, 0, 7]\<rparr>"

lemma demo_sds_ok: "sds_ok demo_sds" "sds_str demo_sds = [32, 97, 98]" "sdslen demo_sds = 3"
  by (simp_all add: sds_ok_def demo_sds_def sdsalloc_def sds_str_def sdslen_def)

theorem sds_refines_bytes_witness:
  "sds_ok demo_sds \<and> alloc_ok exact_alloc \<and>
   gives exact_alloc (sds_run exact_alloc demo_sds [CatLen [99, 100, 0], Trim [32], RemoveFreeSpace False, Range 1 (- 2)])
     (\<lambda>s'. sds_str s' = fold bytes_do [CatLen [99, 100, 0], Trim [32], RemoveFreeSpace False, Range 1 (- 2)] [32, 97, 98])"
  using sds_refines_bytes [OF demo_sds_ok(1) exact_alloc_ok(1), of "[CatLen [99, 100, 0], Trim [32], RemoveFreeSpace False, Range 1 (- 2)]"]
    demo_sds_ok exact_alloc_ok(1) by (simp add: in_sint_def SIZE_LIMIT_def)

section \<open>Room\<close>

text \<open>
  (C32) Room that is asked for is there. \<^verbatim>\<open>sdsMakeRoomFor\<close> keeps the bytes and the length and leaves room for as many bytes as
  asked, or returns \<^verbatim>\<open>NULL\<close> when the allocator fails, as long as the sizes, with what is added in advance and the largest header, are below the range
  of \<^verbatim>\<open>size_t\<close>. From there on one of its assertions fails, unless the room is there already: a size that wraps around never
  gives a block that is too small.
\<close>

theorem sdsMakeRoomFor_room:
  assumes "sds_ok s" and "alloc_ok E" and "addlen < 2 ^ 64"
  shows "if sdslen s + addlen + SDS_MAX_PREALLOC + 18 < 2 ^ 64 then gives E (sdsMakeRoomFor E s addlen) (has_room s addlen)
    else sdsMakeRoomFor E s addlen = (if sdsalloc s - sdslen s \<ge> addlen then Some (Some s) else None)"
proof (cases "sdslen s + addlen + SDS_MAX_PREALLOC + 18 < 2 ^ 64")
  case True
  then show ?thesis using makeRoom_gives [OF assms(1,2)] by (simp add: sdsMakeRoomFor_def sdslen_def)
next
  case False
  have avail: "sdsavail s = sdsalloc s - sdslen s" using sdsavail_eq [OF assms(1)] by (simp add: sdslen_def)
  have "sd_len s < 2 ^ 64" using sdsTypeMaxSize_less [OF sds_okD(7) [OF assms(1)]] .
  then have "sdsMakeRoomFor E s addlen = None" if "sdsavail s < addlen"
    using makeRoom_asserts [OF that _ assms(3)] False by (simp add: sdsMakeRoomFor_def sdslen_def)
  moreover have "sdsMakeRoomFor E s addlen = Some (Some s)" if "\<not> sdsavail s < addlen"
    using that by (simp add: sdsMakeRoomFor_def u_sdsMakeRoomFor_def)
  ultimately show ?thesis using False avail by auto
qed

theorem sdsMakeRoomFor_room_witness:
  "sds_ok demo_sds \<and> alloc_ok exact_alloc \<and> gives exact_alloc (sdsMakeRoomFor exact_alloc demo_sds 300) (has_room demo_sds 300) \<and>
   sdsMakeRoomFor exact_alloc demo_sds (2 ^ 64 - 1) = None"
  using sdsMakeRoomFor_room [OF demo_sds_ok(1) exact_alloc_ok(1), of 300] sdsMakeRoomFor_room [OF demo_sds_ok(1) exact_alloc_ok(1), of "2 ^ 64 - 1"]
    demo_sds_ok exact_alloc_ok(1) by (simp add: SDS_MAX_PREALLOC_def demo_sds_def sdsalloc_def sdslen_def)

section \<open>Reading into a string\<close>

text \<open>
  The use of \<^verbatim>\<open>sdsIncrLen\<close> that its comment describes: room is made, up to as many bytes are written behind the string by someone
  else, and the length is set. The bytes are appended.
\<close>

lemma makeRoom_incrLen_appends:
  assumes ok: "sds_ok s" and A: "alloc_ok E" and n: "0 < n" "length bs \<le> n" and big: "sd_len s + n + SDS_MAX_PREALLOC + 18 < 2 ^ 64"
  shows "gives E (sdsMakeRoomFor E s n \<bind> (\<lambda>r. case r of None \<Rightarrow> Some None | Some s' \<Rightarrow> do {
      b \<leftarrow> write_bytes (sd_buf s') (sd_len s) bs;
      s'' \<leftarrow> sdsIncrLen (s'\<lparr>sd_buf := b\<rparr>) (int (length bs));
      Some (Some s'')
    })) (\<lambda>s'. sds_str s' = sds_str s @ bs)"
  unfolding sdsMakeRoomFor_def
proof (rule gives_bind [OF makeRoom_gives [OF ok A big]])
  fix s'
  assume ok': "sds_ok s'" and r: "has_room s n s'"
  have l: "sd_len s' = sd_len s" "sds_str s' = sds_str s" "sd_len s + length bs \<le> sdsalloc s'" using r n by (simp_all add: has_room_def)
  have nt: "sd_type s' \<noteq> SDS_TYPE_5" using r n(1) by (auto simp: has_room_def sdsalloc_def)
  have fits: "sd_len s + length bs < length (sd_buf s')" using l(3) sds_okD(2) [OF ok'] by simp
  show "gives E (do {
      b \<leftarrow> write_bytes (sd_buf s') (sd_len s) bs;
      s'' \<leftarrow> sdsIncrLen (s'\<lparr>sd_buf := b\<rparr>) (int (length bs));
      Some (Some s'')
    }) (\<lambda>s'. sds_str s' = sds_str s @ bs)"
  proof -
    define c where "c = s'\<lparr>sd_buf := take (sd_len s) (sd_buf s') @ bs @ drop (sd_len s + length bs) (sd_buf s')\<rparr>"
    have incr: "incr_ok c (int (length bs)) = incr_ok s' (int (length bs))" by (simp add: incr_ok_def c_def Let_def)
    have ok: "incr_ok s' (int (length bs))" by (rule incr_okI [OF ok']) (use l nt in auto)
    have m: "nat ((int (sd_len s) + int (length bs)) mod 2 ^ len_bits (sd_type s')) = sd_len s + length bs"
      using l(3) sds_okD(3) [OF ok'] by (metis nat_int of_nat_add of_nat_mod of_nat_numeral of_nat_power order_trans sdsTypeMaxSize_mod)
    define d where "d = take (sd_len s) (sd_buf s') @ bs @ 0 # drop (sd_len s + length bs + 1) (sd_buf s')"
    have d: "length d = length (sd_buf s')" "d ! (sd_len s + length bs) = 0" "take (sd_len s + length bs) d = sds_str s @ bs"
      using fits l(1) unfolding l(2) [symmetric] by (simp_all add: d_def nth_append sds_str_def)
    have "sdsIncrLen c (int (length bs)) = Some (sdssetlen (s'\<lparr>sd_buf := d\<rparr>) (sd_len s + length bs))"
      using ok l(1) m fits sds_okD(3) [OF ok'] l(3) unfolding sdsIncrLen_def incr
      by (simp add: c_def d_def Let_def sdssetlen_def)
    then show ?thesis using fits sds_ok_setlen [OF ok' l(3) d(1,2)] d(3) by (simp add: c_def)
  qed
qed

end
