(* ===== verification/Sds_Args.thy ===== *)
theory Sds_Args
  imports Sds_Text Sds_Props
begin

text \<open>Quoting and parsing are inverse, with all that lies between: strings that grow, are joined, and are split again.\<close>

section \<open>An allocator that does not fail\<close>

text \<open>
  \<^verbatim>\<open>zmalloc\<close> ends the process where there is no memory; the text functions rely on it and do not test for \<^verbatim>\<open>NULL\<close>.
\<close>

definition alloc_total :: "sds_env \<Rightarrow> bool" where
  "alloc_total E \<longleftrightarrow> alloc_ok E \<and> (\<forall>n < 2 ^ 64. s_malloc E n \<noteq> None)"

lemma alloc_totalD: "alloc_total E \<Longrightarrow> alloc_ok E" "alloc_total E \<Longrightarrow> n < 2 ^ 64 \<Longrightarrow> \<exists>b. s_malloc E n = Some b"
  by (auto simp: alloc_total_def)

lemma gives_total: "alloc_total E \<Longrightarrow> gives E r P \<Longrightarrow> \<exists>s. r = Some (Some s) \<and> sds_ok s \<and> P s"
  by (auto simp: alloc_total_def elim!: givesE)

lemma deref_total: "alloc_total E \<Longrightarrow> gives E r P \<Longrightarrow> \<exists>s. deref r = Some s \<and> sds_ok s \<and> P s"
  using gives_total [of E r P] by (auto simp: deref_def)

text \<open>The size of a text whose tokens can be counted in an \<^verbatim>\<open>int\<close>, with the array of tokens twice as large.\<close>

definition TEXT_LIMIT :: nat where
  "TEXT_LIMIT = 2 ^ 29"

lemma cat_total:
  assumes "sds_ok s" "alloc_total E" "sd_len s + length t \<le> TEXT_LIMIT"
  shows "\<exists>s'. sdscatlen E s t = Some (Some s') \<and> sds_ok s' \<and> sds_str s' = sds_str s @ t \<and> sd_len s' = sd_len s + length t"
proof -
  have "gives E (sdscatlen E s t) (\<lambda>s'. sds_str s' = sds_str s @ t)"
    using assms alloc_totalD(1) by (intro sdscatlen_gives) (simp_all add: TEXT_LIMIT_def SDS_MAX_PREALLOC_def)
  from gives_total [OF assms(2) this] obtain s' where s': "sdscatlen E s t = Some (Some s')" "sds_ok s'" "sds_str s' = sds_str s @ t" by blast
  moreover have "length (sds_str s') = sd_len s'" "length (sds_str s) = sd_len s" using s'(2) assms(1) by (simp_all add: sdslen_def)
  ultimately show ?thesis by auto
qed

lemma deref_some [simp]: "deref (Some (Some s)) = Some s"
  by (simp add: deref_def)

section \<open>Quoting\<close>

definition repr :: "bytes \<Rightarrow> bytes" where
  "repr p = 34 # concat (map repr_char p) @ [34]"

lemma length_repr_char: "length (repr_char c) \<le> 4"
  by (simp add: repr_char_def)

lemma length_repr: "length (repr p) \<le> 4 * length p + 2"
proof -
  have "length (concat (map repr_char p)) \<le> 4 * length p"
  proof (induction p)
    case (Cons c p)
    then show ?case using length_repr_char [of c] by simp
  qed simp
  then show ?thesis by (simp add: repr_def)
qed

lemma repr_loop_ok:
  assumes "sds_ok s" "alloc_total E" "sd_len s + 4 * length p \<le> TEXT_LIMIT"
  shows "\<exists>s'. repr_loop E s p = Some s' \<and> sds_ok s' \<and> sds_str s' = sds_str s @ concat (map repr_char p) \<and> sd_len s' \<le> sd_len s + 4 * length p"
  using assms
proof (induction p arbitrary: s)
  case (Cons c p)
  have "sd_len s + length (repr_char c) \<le> TEXT_LIMIT" using Cons.prems(3) length_repr_char [of c] by simp
  from cat_total [OF Cons.prems(1,2) this] obtain s' where s': "sdscatlen E s (repr_char c) = Some (Some s')" "sds_ok s'"
    "sds_str s' = sds_str s @ repr_char c" "sd_len s' = sd_len s + length (repr_char c)" by blast
  have "sd_len s' + 4 * length p \<le> TEXT_LIMIT" using s'(4) Cons.prems(3) length_repr_char [of c] by simp
  from Cons.IH [OF s'(2) Cons.prems(2) this] show ?case using s' length_repr_char [of c] by auto
qed simp

lemma sdscatrepr_ok:
  assumes ok: "sds_ok s" and A: "alloc_total E" and size: "sd_len s + 4 * length p + 2 \<le> TEXT_LIMIT"
  shows "\<exists>s'. sdscatrepr E s p = Some (Some s') \<and> sds_ok s' \<and> sds_str s' = sds_str s @ repr p"
proof -
  have big: "sd_len s + (length p + 2) + SDS_MAX_PREALLOC + 18 < 2 ^ 64" "(length p + 2) mod 2 ^ 64 = length p + 2"
    using size by (simp_all add: TEXT_LIMIT_def SDS_MAX_PREALLOC_def)
  from deref_total [OF A makeRoom_gives [OF ok alloc_totalD(1) [OF A] big(1), of True]]
  obtain s1 where s1: "deref (sdsMakeRoomFor E s (length p + 2)) = Some s1" "sds_ok s1" "sds_str s1 = sds_str s" "sd_len s1 = sd_len s"
    by (auto simp: sdsMakeRoomFor_def has_room_def)
  obtain s2 where s2: "sdscatlen E s1 [34] = Some (Some s2)" "sds_ok s2" "sds_str s2 = sds_str s @ [34]" "sd_len s2 = sd_len s + 1"
    using cat_total [OF s1(2) A, of "[34]"] s1 size by auto
  obtain s3 where s3: "repr_loop E s2 p = Some s3" "sds_ok s3" "sds_str s3 = sds_str s2 @ concat (map repr_char p)" "sd_len s3 \<le> sd_len s2 + 4 * length p"
    using repr_loop_ok [OF s2(2) A, of p] s2(4) size by auto
  show ?thesis using cat_total [OF s3(2) A, of "[34]"] s1 s2 s3 size big(2) by (auto simp: sdscatrepr_def repr_def)
qed

lemma hex_char_digit: "d < 16 \<Longrightarrow> is_hex_digit (hex_char d) \<and> hex_digit_to_int (hex_char d) = d \<and> hex_char d \<noteq> 0"
proof -
  assume "d < 16"
  moreover have "list_all (\<lambda>d. is_hex_digit (hex_char d) \<and> hex_digit_to_int (hex_char d) = d \<and> hex_char d \<noteq> 0) [0..<16]" by code_simp
  ultimately show ?thesis by (simp add: list_all_iff)
qed

lemma repr_char_nonzero: "0 \<notin> set (repr_char c)"
  using hex_char_digit [of "unat c div 16"] hex_char_digit [of "unat c mod 16"] unat_byte_less [of c]
  by (auto simp: repr_char_def isprint_def)

text \<open>The parser reads one quoted byte in one turn of its loop.\<close>

lemma token_turn_repr_char: "r \<noteq> [] \<Longrightarrow> token_turn InQ (repr_char c @ r) = Next InQ (Some c) r"
proof -
  have b: "unat c div 16 < 16" "unat c mod 16 < 16" using unat_byte_less [of c] by simp_all
  have "word_of_nat (unat c div 16 * 16 + unat c mod 16) = c" by simp
  then show ?thesis
    using hex_char_digit [OF b(1)] hex_char_digit [OF b(2)]
    by (auto simp: repr_char_def hex_escape_def unescape_def split: list.splits)
qed


section \<open>Joining\<close>

fun join_bytes :: "bytes \<Rightarrow> bytes list \<Rightarrow> bytes" where
  "join_bytes sep [] = []"
| "join_bytes sep (x # xs) = (if xs = [] then x else x @ sep @ join_bytes sep xs)"

lemma join_bytes_bound: "length (join_bytes sep xs) \<le> sum_list (map (\<lambda>x. length x + length sep) xs)"
  by (induction xs) auto

lemma join_loop_ok:
  assumes "sds_ok j" "alloc_total E" "list_all sds_ok argv" "sd_len j + sum_list (map (\<lambda>a. sd_len a + length sep) argv) \<le> TEXT_LIMIT"
  shows "\<exists>j'. join_loop E j argv sep = Some j' \<and> sds_ok j' \<and> sds_str j' = sds_str j @ join_bytes sep (map sds_str argv)"
  using assms
proof (induction argv arbitrary: j)
  case (Cons a argv)
  have a: "sds_ok a" "read_bytes (sd_buf a) 0 (sd_len a) = Some (sds_str a)" "length (sds_str a) = sd_len a"
    using Cons.prems(3) sds_okD(6) [of a] sds_str_length [of a] by (simp_all add: sds_str_def sdslen_def)
  obtain j1 where j1: "sdscatlen E j (sds_str a) = Some (Some j1)" "sds_ok j1" "sds_str j1 = sds_str j @ sds_str a" "sd_len j1 = sd_len j + sd_len a"
    using cat_total [OF Cons.prems(1,2), of "sds_str a"] Cons.prems(4) a(3) by auto
  obtain j2 where j2: "(if argv \<noteq> [] then deref (sdscatlen E j1 sep) else Some j1) = Some j2" "sds_ok j2"
    "sds_str j2 = sds_str j1 @ (if argv \<noteq> [] then sep else [])" "sd_len j2 \<le> sd_len j1 + length sep"
    using cat_total [OF j1(2) Cons.prems(2), of sep] Cons.prems(4) j1(2,4) by (cases argv) auto
  have "sd_len j2 + sum_list (map (\<lambda>a. sd_len a + length sep) argv) \<le> TEXT_LIMIT" using Cons.prems(4) j1(4) j2(4) by simp
  from Cons.IH [OF j2(2) Cons.prems(2) _ this] Cons.prems(3) obtain j' where
    "join_loop E j2 argv sep = Some j'" "sds_ok j'" "sds_str j' = sds_str j2 @ join_bytes sep (map sds_str argv)" by auto
  then show ?case using a(2) j1(1,3) j2(1,3) by (auto simp: sdscatsds_def sdslen_def)
qed simp

lemma sdsjoinsds_ok:
  assumes A: "alloc_total E" and ok: "list_all sds_ok argv" and size: "sum_list (map (\<lambda>a. sd_len a + length sep) argv) \<le> TEXT_LIMIT"
  shows "\<exists>j. sdsjoinsds E argv sep = Some j \<and> sds_ok j \<and> sds_str j = join_bytes sep (map sds_str argv)"
proof -
  obtain e where e: "deref (sdsempty E) = Some e" "sds_ok e" "sds_str e = []"
    using deref_total [OF A sdsempty_gives [OF alloc_totalD(1) [OF A]]] by blast
  have "sd_len e = 0" using e(2,3) sds_str_length [of e] by (simp add: sdslen_def)
  then show ?thesis using join_loop_ok [OF e(2) A ok, of sep] size e by (simp add: sdsjoinsds_def)
qed

section \<open>The parser on byte sequences\<close>

function token_spec :: "quotes \<Rightarrow> bytes \<Rightarrow> bytes \<Rightarrow> (bytes \<times> bytes) option" where
  "token_spec q cur p =
     (case token_turn q p of
        Err \<Rightarrow> None
      | Done r \<Rightarrow> Some (cur, r)
      | Next q' b r \<Rightarrow> token_spec q' (cur @ (case b of None \<Rightarrow> [] | Some c \<Rightarrow> [c])) r)"
  by pat_completeness auto

termination by (relation "measure (\<lambda>(_, _, p). length p)") (auto dest: token_turn_shorter)

declare token_spec.simps [simp del]

lemma token_spec_shorter: "token_spec q cur p = Some (t, r) \<Longrightarrow> length r \<le> length p \<and> (p \<noteq> [] \<longrightarrow> length r < length p)"
proof (induction q cur p rule: token_spec.induct)
  case (1 q cur p)
  show ?case
  proof (cases "token_turn q p")
    case (Done r')
    then have "r' = r" using "1.prems" by (simp add: token_spec.simps)
    then show ?thesis using Done token_turn_done [OF Done] by (cases "p = []") (cases q; auto simp: hex_escape_def)+
  next
    case (Next q' b r')
    then have "token_spec q' (cur @ (case b of None \<Rightarrow> [] | Some c \<Rightarrow> [c])) r' = Some (t, r)" using "1.prems" by (subst (asm) token_spec.simps) simp
    then show ?thesis using "1.IH" [OF Next] token_turn_shorter [OF Next] by auto
  qed (use "1.prems" in \<open>simp add: token_spec.simps\<close>)
qed

lemma args_spec_shorter: "token_spec q cur (dropWhile P p) = Some (t, r) \<Longrightarrow> dropWhile P p \<noteq> [] \<Longrightarrow> length r < length p"
  using token_spec_shorter [of q cur "dropWhile P p" t r] length_dropWhile_le [of P p] by auto

function args_spec :: "bytes \<Rightarrow> bytes list option" where
  "args_spec p =
     (let p' = dropWhile isspace p in
      if p' = [] then Some []
      else case token_spec NoQuotes [] p' of
          None \<Rightarrow> None
        | Some (t, r) \<Rightarrow> map_option (Cons t) (args_spec r))"
  by pat_completeness auto

termination by (relation "measure length") (auto simp del: dropWhile_eq_Nil_conv intro: args_spec_shorter)

declare args_spec.simps [simp del]

text \<open>The tokens that are built as strings are the tokens of the byte sequence.\<close>

lemma get_token_refines:
  assumes "sds_ok cur" "alloc_total E" "sd_len cur + length p \<le> TEXT_LIMIT"
  shows "(case token_spec q (sds_str cur) p of
      None \<Rightarrow> get_token E q cur p = Some None
    | Some (t, r) \<Rightarrow> \<exists>c. get_token E q cur p = Some (Some (c, r)) \<and> sds_ok c \<and> sds_str c = t)"
  using assms
proof (induction "length p" arbitrary: q cur p rule: less_induct)
  case less
  show ?case
  proof (cases "token_turn q p")
    case (Next q' b r)
    define x where "x = (case b of None \<Rightarrow> [] | Some c \<Rightarrow> [c])"
    have l: "length r < length p" using token_turn_shorter [OF Next] .
    have "\<exists>c. (case b of None \<Rightarrow> Some cur | Some c \<Rightarrow> deref (sdscatlen E cur [c])) = Some c \<and> sds_ok c \<and> sds_str c = sds_str cur @ x \<and> sd_len c \<le> sd_len cur + 1"
      using cat_total [OF less.prems(1,2), of "[the b]"] less.prems l by (cases b) (auto simp: x_def)
    then obtain c where c: "(case b of None \<Rightarrow> Some cur | Some c \<Rightarrow> deref (sdscatlen E cur [c])) = Some c" "sds_ok c" "sds_str c = sds_str cur @ x" "sd_len c \<le> sd_len cur + 1"
      by blast
    have eq: "get_token E q cur p = get_token E q' c r" by (subst get_token.simps) (simp add: Next c(1))
    have eq': "token_spec q (sds_str cur) p = token_spec q' (sds_str c) r" by (subst token_spec.simps) (simp add: Next c(3) x_def)
    have "sd_len c + length r \<le> TEXT_LIMIT" using c(4) l less.prems(3) by simp
    then show ?thesis unfolding eq eq' by (rule less.hyps [OF l c(2) less.prems(2)])
  qed (use less.prems in \<open>simp_all add: get_token.simps token_spec.simps\<close>)
qed

lemma args_loop_refines:
  assumes "alloc_total E" "length vec + length p \<le> TEXT_LIMIT" "list_all sds_ok vec"
  shows "(case args_spec p of
      None \<Rightarrow> args_loop E p vec = Some None
    | Some ts \<Rightarrow> \<exists>vec'. args_loop E p vec = Some (Some vec') \<and> list_all sds_ok vec' \<and> map sds_str vec' = map sds_str vec @ ts)"
  using assms
proof (induction "length p" arbitrary: p vec rule: less_induct)
  case less
  define p' where "p' = dropWhile isspace p"
  have pl: "length p' \<le> length p" by (simp add: p'_def length_dropWhile_le)
  show ?case
  proof (cases "p' = []")
    case True
    then show ?thesis using less.prems by (simp add: args_spec.simps [of p] args_loop.simps [of E p] Let_def flip: p'_def)
  next
    case False
    obtain e where e: "deref (sdsempty E) = Some e" "sds_ok e" "sds_str e = []"
      using deref_total [OF less.prems(1) sdsempty_gives [OF alloc_totalD(1) [OF less.prems(1)]]] by blast
    have "sd_len e + length p' \<le> TEXT_LIMIT" using e(2,3) sds_str_length [of e] less.prems(2) pl by (simp add: sdslen_def)
    note tok = get_token_refines [OF e(2) less.prems(1) this, of NoQuotes, unfolded e(3)]
    obtain b where b: "s_malloc E (8 * (length vec + 1)) = Some b"
      using alloc_totalD(2) [OF less.prems(1), of "8 * (length vec + 1)"] less.prems(2) by (auto simp: TEXT_LIMIT_def)
    show ?thesis
    proof (cases "token_spec NoQuotes [] p'")
      case None
      then show ?thesis using False tok e(1) by (simp add: args_spec.simps [of p] args_loop.simps [of E p] Let_def flip: p'_def)
    next
      case (Some tr)
      obtain t r where tr: "tr = (t, r)" by fastforce
      with Some tok obtain c where c: "get_token E NoQuotes e p' = Some (Some (c, r))" "sds_ok c" "sds_str c = t" by auto
      have r: "length r < length p" using token_spec_shorter Some False tr pl by fastforce
      have "args_loop E p vec = args_loop E r (vec @ [c])"
        using False e(1) c(1) b by (subst args_loop.simps) (simp flip: p'_def)
      moreover have "args_spec p = map_option (Cons t) (args_spec r)" using False Some tr by (subst args_spec.simps) (simp flip: p'_def)
      ultimately show ?thesis using less.hyps [OF r less.prems(1), of "vec @ [c]"] r less.prems(2,3) c(2,3)
        by (auto split: option.splits)
    qed
  qed
qed

section \<open>Parsing what was quoted\<close>

lemma token_spec_quoted:
  assumes "case rest of [] \<Rightarrow> True | c # _ \<Rightarrow> isspace c"
  shows "token_spec InQ cur (concat (map repr_char a) @ 34 # rest) = Some (cur @ a, rest)"
proof (induction a arbitrary: cur)
  case Nil
  have "token_turn InQ (34 # rest) = Done rest" using assms by (auto simp: hex_escape_def closing_def split: list.splits)
  then show ?case by (simp add: token_spec.simps)
next
  case (Cons c a)
  have turn: "token_turn InQ (repr_char c @ concat (map repr_char a) @ 34 # rest) = Next InQ (Some c) (concat (map repr_char a) @ 34 # rest)"
    by (rule token_turn_repr_char) simp
  then show ?case using Cons.IH by (subst token_spec.simps) (simp del: token_turn.simps)
qed

lemma token_spec_repr:
  assumes "case rest of [] \<Rightarrow> True | c # _ \<Rightarrow> isspace c"
  shows "token_spec NoQuotes [] (repr a @ rest) = Some (a, rest)"
  using token_spec_quoted [OF assms] by (subst token_spec.simps) (simp add: repr_def)

lemma repr_not_space: "dropWhile isspace (repr a @ rest) = repr a @ rest"
  by (simp add: repr_def isspace_def)

lemma args_spec_repr: "args_spec (join_bytes [32] (map repr args)) = Some args"
proof (induction args)
  case Nil
  show ?case by (simp add: args_spec.simps)
next
  case (Cons a args)
  define rest where "rest = (if args = [] then [] else 32 # join_bytes [32] (map repr args))"
  have p: "join_bytes [32] (map repr (a # args)) = repr a @ rest" by (simp add: rest_def)
  have "args_spec (repr a @ rest) = map_option (Cons a) (args_spec rest)"
    using token_spec_repr [of rest a] repr_not_space [of a rest] by (subst args_spec.simps) (simp add: rest_def isspace_def repr_def)
  moreover have "args_spec rest = args_spec (join_bytes [32] (map repr args))"
  proof (cases "args = []")
    case False
    then have "dropWhile isspace rest = dropWhile isspace (join_bytes [32] (map repr args))" by (simp add: rest_def isspace_def)
    then show ?thesis by (simp add: args_spec.simps [of rest] args_spec.simps [of "join_bytes [32] (map repr args)"] del: dropWhile_eq_Nil_conv)
  qed (simp add: rest_def)
  ultimately show ?case using Cons.IH p by simp
qed

end
