(* ===== verification/Sds_Split.thy ===== *)
theory Sds_Split
  imports Sds_Args "HOL-Library.Sublist"
begin

text \<open>Splitting at a separator, as the inverse of joining.\<close>

text \<open>No occurrence of the separator begins at one of the given places.\<close>

definition no_sep :: "bytes \<Rightarrow> bytes \<Rightarrow> nat \<Rightarrow> nat \<Rightarrow> bool" where
  "no_sep s sep i j \<longleftrightarrow> (\<forall>k. i \<le> k \<and> k < j \<longrightarrow> take (length sep) (drop k s) \<noteq> sep)"

lemma no_sep_sublist:
  assumes "sep \<noteq> []" and no: "no_sep s sep i j" and j: "i \<le> j" "j \<le> length s"
  shows "\<not> sublist sep (take (j - i) (drop i s))"
proof
  assume "sublist sep (take (j - i) (drop i s))"
  then obtain ps ss where eq: "take (j - i) (drop i s) = ps @ sep @ ss" unfolding sublist_def by blast
  have "length (take (j - i) (drop i s)) = j - i" using j by simp
  then have k: "length ps + length sep \<le> j - i" unfolding eq by simp
  have "take (length sep) (drop (length ps) (take (j - i) (drop i s))) = sep" unfolding eq by simp
  then have "take (length sep) (drop (i + length ps) s) = sep" using k by (simp add: drop_take add.commute)
  moreover have "i + length ps < j" using k \<open>sep \<noteq> []\<close> j by (cases sep) auto
  ultimately show False using no by (simp add: no_sep_def)
qed

lemma no_sep_end: "sep \<noteq> [] \<Longrightarrow> no_sep s sep i j \<Longrightarrow> length s < j + length sep \<Longrightarrow> no_sep s sep i (length s)"
proof -
  assume sep: "sep \<noteq> []" and no: "no_sep s sep i j" and e: "length s < j + length sep"
  have "take (length sep) (drop k s) \<noteq> sep" if "j \<le> k" for k
  proof
    assume "take (length sep) (drop k s) = sep"
    then have "length (take (length sep) (drop k s)) = length sep" by simp
    then show False using e that sep by (cases sep) auto
  qed
  then show ?thesis using no unfolding no_sep_def by (metis not_le)
qed

lemma new_total:
  assumes "alloc_total E" "n \<le> length p" "length p \<le> TEXT_LIMIT"
  shows "\<exists>t. sdsnewlen E (InitFrom p) n = Some (Some t) \<and> sds_ok t \<and> sds_str t = take n p"
proof -
  have "n + 18 < 2 ^ 64" using assms(2,3) by (simp add: TEXT_LIMIT_def)
  from gives_total [OF assms(1) sdsnewlen_gives [OF alloc_totalD(1) [OF assms(1)] this, of "InitFrom p"]] assms(2)
  show ?thesis by (simp add: init_ok_def init_str_def)
qed

lemma join_bytes_snoc: "join_bytes sep (xs @ [x]) = concat (map (\<lambda>y. y @ sep) xs) @ x"
  by (induction xs) auto

text \<open>What holds between two turns of the loop.\<close>

definition split_inv :: "bytes \<Rightarrow> bytes \<Rightarrow> nat \<Rightarrow> nat \<Rightarrow> nat \<Rightarrow> sds list \<Rightarrow> bool" where
  "split_inv s sep j start slots tokens \<longleftrightarrow>
     start \<le> j \<and> start \<le> length s \<and> no_sep s sep start j \<and> length tokens \<le> start \<and> length tokens < slots \<and> slots \<le> 2 * start + 5 \<and>
     list_all sds_ok tokens \<and> (\<forall>t \<in> set tokens. \<not> sublist sep (sds_str t)) \<and>
     concat (map (\<lambda>t. sds_str t @ sep) tokens) = take start s"

lemma split_loop_ok:
  assumes A: "alloc_total E" and sep: "sep \<noteq> []" and size: "length s \<le> TEXT_LIMIT" and "split_inv s sep j start slots tokens"
  shows "\<exists>ts. split_loop E s sep j start slots tokens = Some (Some ts) \<and> list_all sds_ok ts \<and>
    join_bytes sep (map sds_str ts) = s \<and> (\<forall>t \<in> set ts. \<not> sublist sep (sds_str t))"
  using assms(4)
proof (induction "length s - j" arbitrary: j start slots tokens rule: less_induct)
  case less
  note inv = less.prems [unfolded split_inv_def]
  have size': "length s - start \<le> TEXT_LIMIT" using size by simp
  show ?case
  proof (cases "j + length sep \<le> length s")
    case False
    obtain t where t: "sdsnewlen E (InitFrom (drop start s)) (length s - start) = Some (Some t)" "sds_ok t" "sds_str t = drop start s"
      using new_total [OF A, of "length s - start"  "drop start s"] size' by auto
    have "\<not> sublist sep (take (length s - start) (drop start s))"
      by (rule no_sep_sublist [OF sep no_sep_end [OF sep]]) (use inv False in auto)
    moreover have "join_bytes sep (map sds_str tokens @ [drop start s]) = s"
      using inv unfolding join_bytes_snoc map_map comp_def by simp
    ultimately show ?thesis using False t inv by (subst split_loop.simps) auto
  next
    case True
    define slots' where "slots' = (if slots < length tokens + 2 then slots * 2 else slots)"
    have sl: "length tokens + 2 \<le> slots'" "slots' \<le> 2 * start + 5" using inv by (auto simp: slots'_def)
    then have "8 * slots' < 2 ^ 64" using inv size by (simp add: TEXT_LIMIT_def)
    then have m: "s_malloc E (8 * slots') \<noteq> None" using alloc_totalD(2) [OF A] by auto
    have cond: "(sep \<noteq> [] \<and> j + length sep \<le> length s) = True" "(slots < length tokens + 2 \<and> s_malloc E (8 * slots') = None) = False"
      using sep True m by simp_all
    note step = split_loop.simps [of E s sep j start slots tokens, unfolded Let_def, folded slots'_def, unfolded cond if_True if_False]
    show ?thesis
    proof (cases "take (length sep) (drop j s) = sep")
      case hit: True
      have "j - start \<le> length s - start" using True by simp
      then obtain t where t: "sdsnewlen E (InitFrom (drop start s)) (j - start) = Some (Some t)" "sds_ok t" "sds_str t = take (j - start) (drop start s)"
        using new_total [OF A, of "j - start"  "drop start s"] size' by auto
      have no: "\<not> sublist sep (sds_str t)" unfolding t(3) by (rule no_sep_sublist [OF sep]) (use inv True in auto)
      have "take (j + length sep) s = take start s @ take (j - start) (drop start s) @ sep"
        using inv hit by (metis append.assoc le_add_diff_inverse take_add)
      then have "split_inv s sep (j + length sep) (j + length sep) slots' (tokens @ [t])"
        using inv sl True t no sep by (cases sep) (auto simp: split_inv_def no_sep_def)
      from less.hyps [OF _ this] split_step(1) [OF sep True] show ?thesis
        using hit t(1) sl by (simp add: step)
    next
      case miss: False
      have one: "\<not> (length sep = 1 \<and> s ! j = sep ! 0)"
        using miss True by (auto simp: length_Suc_conv take_Suc hd_drop_conv_nth)
      have "split_inv s sep (j + 1) start slots' tokens" using inv sl miss by (auto simp: split_inv_def no_sep_def less_Suc_eq)
      from less.hyps [OF _ this] split_step(2) [OF sep True] show ?thesis
        using miss one by (auto simp: step)
    qed
  qed
qed


text \<open>
  (C33) Splitting is the inverse of joining. For a non-empty text and separator, \<^verbatim>\<open>sdssplitlen\<close> returns strings
  none of which contains the separator, and \<^verbatim>\<open>sdsjoinsds\<close> on them, with the same separator, gives the text back; the array of tokens is
  never written beyond its size, and every string satisfies the invariant.
\<close>

theorem sdssplitlen_join:
  assumes "alloc_total E" and "s \<noteq> []" and "sep \<noteq> []" and "length sep \<le> length s" and "length s * 2 \<le> TEXT_LIMIT"
  shows "\<exists>ts j. sdssplitlen E s sep = Some (Some ts) \<and> list_all sds_ok ts \<and> list_all (\<lambda>t. \<not> sublist sep (sds_str t)) ts \<and>
    sdsjoinsds E ts sep = Some j \<and> sds_ok j \<and> sds_str j = s"
proof -
  have "split_inv s sep 0 0 5 []" by (simp add: split_inv_def no_sep_def)
  from split_loop_ok [OF assms(1,3) _ this] assms(5) obtain ts where
    ts: "split_loop E s sep 0 0 5 [] = Some (Some ts)" "list_all sds_ok ts" "join_bytes sep (map sds_str ts) = s" "\<forall>t \<in> set ts. \<not> sublist sep (sds_str t)"
    by auto
  obtain b where "s_malloc E 40 = Some b" using alloc_totalD(2) [OF assms(1), of 40] by auto
  then have sp: "sdssplitlen E s sep = Some (Some ts)" using assms(2,3) ts(1) by (cases sep) (simp_all add: sdssplitlen_def)
  have "sum_list (map (\<lambda>a. sd_len a + length sep) ts) \<le> length (join_bytes sep (map sds_str ts)) + length sep"
    using ts(2) sds_str_length by (induction ts) (auto simp: sdslen_def)
  then have "sum_list (map (\<lambda>a. sd_len a + length sep) ts) \<le> TEXT_LIMIT" using ts(3) assms(4,5) by simp
  from sdsjoinsds_ok [OF assms(1) ts(2) this] ts sp show ?thesis by (auto simp: list_all_iff)
qed

section \<open>Quoted arguments\<close>

text \<open>A terminated string read as a C string: all of it, where it has no zero byte.\<close>

lemma c_str_sds: "sds_ok s \<Longrightarrow> 0 \<notin> set (sds_str s) \<Longrightarrow> c_str (sd_buf s) = sds_str s"
proof -
  assume ok: "sds_ok s" and z: "0 \<notin> set (sds_str s)"
  have "sd_buf s = sds_str s @ 0 # drop (Suc (sd_len s)) (sd_buf s)"
    using sds_okD(5,6) [OF ok] id_take_nth_drop [of "sd_len s" "sd_buf s"] by (simp add: sds_str_def)
  then have "c_str (sd_buf s) = c_str (sds_str s @ 0 # drop (Suc (sd_len s)) (sd_buf s))" by (rule arg_cong)
  also have "\<dots> = sds_str s" using z unfolding c_str_def by (subst takeWhile_append2) auto
  finally show ?thesis .
qed

lemma repr_nonzero: "0 \<notin> set (repr a)"
  using repr_char_nonzero by (auto simp: repr_def)

lemma join_nonzero: "0 \<notin> set sep \<Longrightarrow> \<forall>x \<in> set xs. 0 \<notin> set x \<Longrightarrow> 0 \<notin> set (join_bytes sep xs)"
  by (induction xs) auto

text \<open>Every argument is quoted into a string of its own.\<close>

fun quote_all :: "sds_env \<Rightarrow> bytes list \<Rightarrow> sds list option" where
  "quote_all E [] = Some []"
| "quote_all E (a # args) = do {
     e \<leftarrow> deref (sdsempty E);
     q \<leftarrow> deref (sdscatrepr E e a);
     qs \<leftarrow> quote_all E args;
     Some (q # qs)
   }"

lemma quote_all_ok:
  assumes "alloc_total E" and "\<forall>a \<in> set args. 4 * length a + 2 \<le> TEXT_LIMIT"
  shows "\<exists>qs. quote_all E args = Some qs \<and> list_all sds_ok qs \<and> map sds_str qs = map repr args"
  using assms(2)
proof (induction args)
  case (Cons a args)
  obtain e where e: "deref (sdsempty E) = Some e" "sds_ok e" "sds_str e = []"
    using deref_total [OF assms(1) sdsempty_gives [OF alloc_totalD(1) [OF assms(1)]]] by blast
  have "sd_len e = 0" using e(2,3) sds_str_length [of e] by (simp add: sdslen_def)
  then have "sd_len e + 4 * length a + 2 \<le> TEXT_LIMIT" using Cons.prems by simp
  from sdscatrepr_ok [OF e(2) assms(1) this] e Cons show ?case by auto
qed simp

text \<open>
  (C7) Quoting protects every byte. For any list of byte strings, each one quoted by \<^verbatim>\<open>sdscatrepr\<close> and the results joined with blanks
  by \<^verbatim>\<open>sdsjoinsds\<close>, \<^verbatim>\<open>sdssplitargs\<close> on the joined line returns exactly the strings of the list, whatever bytes
  they hold: quotes, backslashes, blanks, control bytes, zero bytes, or nothing at all.
\<close>

theorem sdssplitargs_unquotes:
  assumes "alloc_total E" and "sum_list (map (\<lambda>a. 4 * length a + 3) args) \<le> TEXT_LIMIT"
  shows "\<exists>qs line vector. quote_all E args = Some qs \<and> sdsjoinsds E qs [32] = Some line \<and>
    sdssplitargs E (sd_buf line) = Some (Some vector) \<and> list_all sds_ok vector \<and> map sds_str vector = args"
proof -
  have "\<forall>a \<in> set args. 4 * length a + 3 \<le> sum_list (map (\<lambda>a. 4 * length a + 3) args)"
    by (auto intro!: member_le_sum_list)
  then have "\<forall>a \<in> set args. 4 * length a + 2 \<le> TEXT_LIMIT" using assms(2) by fastforce
  from quote_all_ok [OF assms(1) this] obtain qs where qs: "quote_all E args = Some qs" "list_all sds_ok qs" "map sds_str qs = map repr args" by blast
  have "sum_list (map (\<lambda>q. sd_len q + length [32 :: byte]) qs) = sum_list (map (\<lambda>x. length x + 1) (map sds_str qs))"
    using qs(2) sds_str_length by (induction qs) (auto simp: sdslen_def)
  also have "\<dots> \<le> sum_list (map (\<lambda>a. 4 * length a + 3) args)"
    unfolding qs(3) map_map comp_def using length_repr by (intro sum_list_mono) (simp add: le_Suc_eq le_SucI)
  finally have "sum_list (map (\<lambda>q. sd_len q + length [32 :: byte]) qs) \<le> TEXT_LIMIT" using assms(2) by simp
  from sdsjoinsds_ok [OF assms(1) qs(2) this] qs(3) obtain line where
    line: "sdsjoinsds E qs [32] = Some line" "sds_ok line" "sds_str line = join_bytes [32] (map repr args)" by auto
  have c: "c_str (sd_buf line) = join_bytes [32] (map repr args)"
    using c_str_sds [OF line(2)] line(3) join_nonzero [of "[32]" "map repr args"] repr_nonzero by auto
  have "length (join_bytes [32] (map repr args)) \<le> sum_list (map (\<lambda>a. 4 * length a + 3) args)"
    by (rule order_trans [OF join_bytes_bound]) (unfold map_map comp_def, use length_repr in \<open>intro sum_list_mono, simp add: le_Suc_eq le_SucI\<close>)
  then show ?thesis using args_loop_refines [OF assms(1), of "[]" "join_bytes [32] (map repr args)"] args_spec_repr [of args] assms(2) qs line c
    by (auto simp: sdssplitargs_def)
qed


lemma exact_alloc_total: "alloc_total exact_alloc"
  using exact_alloc_ok by (simp add: alloc_total_def)

theorem sdssplitargs_unquotes_witness:
  "\<exists>qs line vector. quote_all exact_alloc [[97, 34, 0], [], [39, 32]] = Some qs \<and> sdsjoinsds exact_alloc qs [32] = Some line \<and>
    sdssplitargs exact_alloc (sd_buf line) = Some (Some vector) \<and> list_all sds_ok vector \<and> map sds_str vector = [[97, 34, 0], [], [39, 32]]"
  by (rule sdssplitargs_unquotes [OF exact_alloc_total]) (simp add: TEXT_LIMIT_def)

theorem sdssplitlen_join_witness:
  "\<exists>ts j. sdssplitlen exact_alloc [97, 45, 45, 98, 45] [45, 45] = Some (Some ts) \<and> list_all sds_ok ts \<and>
    list_all (\<lambda>t. \<not> sublist [45, 45] (sds_str t)) ts \<and> sdsjoinsds exact_alloc ts [45, 45] = Some j \<and> sds_ok j \<and> sds_str j = [97, 45, 45, 98, 45]"
  by (rule sdssplitlen_join [OF exact_alloc_total]) (simp_all add: TEXT_LIMIT_def)

end
