(* ===== verification/Aof.thy ===== *)
theory Aof
  imports Sds_Args
begin

text \<open>
  The manifest of the append-only files (\<^verbatim>\<open>aof.c\<close>): which files hold the data, in which order they are loaded and which are
  to be removed; its text on the disk, the functions that change it, and the server's transitions between
  them. Strings are byte sequences; what the functions of \<^verbatim>\<open>sds.c\<close> do to them is shown in the theories on strings. Lists are
  sequences. A failed assertion and a signed overflow are \<open>None\<close>. What the operating system answers is an argument
  of the functions that ask.
\<close>

section \<open>Data\<close>

record aofInfo =
  file_name :: "bytes option"
  file_seq :: int
  file_type :: byte
  start_offset :: int
  end_offset :: int

record aofManifest =
  base_aof_info :: "aofInfo option"
  incr_aof_list :: "aofInfo list"
  history_aof_list :: "aofInfo list"
  curr_base_file_seq :: int
  curr_incr_file_seq :: int
  dirty :: bool

abbreviation AOF_FILE_TYPE_BASE :: byte where "AOF_FILE_TYPE_BASE \<equiv> 98"
abbreviation AOF_FILE_TYPE_HIST :: byte where "AOF_FILE_TYPE_HIST \<equiv> 104"
abbreviation AOF_FILE_TYPE_INCR :: byte where "AOF_FILE_TYPE_INCR \<equiv> 105"

definition str :: "string \<Rightarrow> bytes" where
  "str s = map (\<lambda>c. word_of_nat (of_char c)) s"

definition aofInfoCreate :: aofInfo where
  "aofInfoCreate = \<lparr>file_name = None, file_seq = 0, file_type = 0, start_offset = - 1, end_offset = - 1\<rparr>"

definition aofInfoDup :: "aofInfo \<Rightarrow> aofInfo" where
  "aofInfoDup orig = aofInfoCreate\<lparr>file_name := file_name orig, file_seq := file_seq orig, file_type := file_type orig,
     start_offset := start_offset orig, end_offset := end_offset orig\<rparr>"

definition aofManifestCreate :: aofManifest where
  "aofManifestCreate = \<lparr>base_aof_info = None, incr_aof_list = [], history_aof_list = [], curr_base_file_seq = 0, curr_incr_file_seq = 0, dirty = False\<rparr>"

definition aofManifestDup :: "aofManifest \<Rightarrow> aofManifest" where
  "aofManifestDup orig = \<lparr>base_aof_info = map_option aofInfoDup (base_aof_info orig), incr_aof_list = map aofInfoDup (incr_aof_list orig),
     history_aof_list = map aofInfoDup (history_aof_list orig), curr_base_file_seq = curr_base_file_seq orig,
     curr_incr_file_seq = curr_incr_file_seq orig, dirty = dirty orig\<rparr>"

section \<open>Writing\<close>

text \<open>The name is printed with \<^verbatim>\<open>%s\<close>, up to its first zero byte.\<close>

definition aofInfoFormat :: "bytes \<Rightarrow> aofInfo \<Rightarrow> bytes option" where
  "aofInfoFormat buf ai = do {
     name \<leftarrow> file_name ai;
     let filename_repr = (if needsrepr_loop name then repr name else name);
     let ret = buf @ str ''file '' @ c_str filename_repr @ str '' seq '' @ dec_int (file_seq ai) @ str '' type '' @ [file_type ai];
     let ret = (if start_offset ai \<noteq> - 1
       then ret @ str '' startoffset '' @ dec_int (start_offset ai) @
         (if end_offset ai \<noteq> - 1 then str '' endoffset '' @ dec_int (end_offset ai) else [])
       else ret);
     Some (ret @ [10])
   }"

fun appendAofInfoFromList :: "bytes \<Rightarrow> aofInfo list \<Rightarrow> bytes option" where
  "appendAofInfoFromList buf [] = Some buf"
| "appendAofInfoFromList buf (ai # l) = do { buf' \<leftarrow> aofInfoFormat buf ai; appendAofInfoFromList buf' l }"

definition getAofManifestAsString :: "aofManifest \<Rightarrow> bytes option" where
  "getAofManifestAsString am = do {
     buf \<leftarrow> (case base_aof_info am of None \<Rightarrow> Some [] | Some ai \<Rightarrow> aofInfoFormat [] ai);
     buf \<leftarrow> appendAofInfoFromList buf (history_aof_list am);
     appendAofInfoFromList buf (incr_aof_list am)
   }"

section \<open>Loading\<close>

datatype load_error = EmptyManifest | TooLongLine | InvalidFormat | NotAFileName | DuplicateBase | NonMonotonic | UnknownType

definition MANIFEST_MAX_LINE :: nat where
  "MANIFEST_MAX_LINE = 1024"

text \<open>\<^verbatim>\<open>fgets(buf, n + 1, fp)\<close>: up to \<open>n\<close> bytes, the last one a newline if there is one among them.\<close>

definition fgets :: "nat \<Rightarrow> bytes \<Rightarrow> (bytes \<times> bytes) option" where
  "fgets n text =
     (if text = [] then None
      else let k = min n (length (takeWhile (\<lambda>c. c \<noteq> 10) text) + 1) in Some (take k text, drop k text))"

text \<open>\<^verbatim>\<open>atoll\<close>, which saturates.\<close>

definition atoll :: "bytes \<Rightarrow> int" where
  "atoll s =
     (let p = dropWhile isspace s;
          neg = (p \<noteq> [] \<and> hd p = 45);
          q = (if p \<noteq> [] \<and> (hd p = 45 \<or> hd p = 43) then tl p else p);
          v = digits_value 0 (takeWhile is_digit q)
      in max INT64_MIN (min INT64_MAX (if neg then - v else v)))"

definition pathIsBaseName :: "bytes \<Rightarrow> bool" where
  "pathIsBaseName path \<longleftrightarrow> 47 \<notin> set path \<and> 92 \<notin> set path"

definition isValidAOFfilename :: "bytes \<Rightarrow> bool" where
  "isValidAOFfilename val \<longleftrightarrow> val \<noteq> [] \<and> pathIsBaseName val"

fun load_pairs :: "bytes list \<Rightarrow> aofInfo \<Rightarrow> load_error + aofInfo" where
  "load_pairs (k # v # argv) ai =
     (if strcasecmp_eq (c_str k) ''file''
      then if pathIsBaseName (c_str v) then load_pairs argv (ai\<lparr>file_name := Some (c_str v)\<rparr>) else Inl NotAFileName
      else if strcasecmp_eq (c_str k) ''seq'' then load_pairs argv (ai\<lparr>file_seq := atoll (c_str v)\<rparr>)
      else if strcasecmp_eq (c_str k) ''type'' then load_pairs argv (ai\<lparr>file_type := (case v of [] \<Rightarrow> 0 | c # _ \<Rightarrow> c)\<rparr>)
      else if strcasecmp_eq (c_str k) ''startoffset'' then load_pairs argv (ai\<lparr>start_offset := atoll (c_str v)\<rparr>)
      else if strcasecmp_eq (c_str k) ''endoffset'' then load_pairs argv (ai\<lparr>end_offset := atoll (c_str v)\<rparr>)
      else load_pairs argv ai)"
| "load_pairs _ ai = Inr ai"

definition add_info :: "aofManifest \<Rightarrow> int \<Rightarrow> aofInfo \<Rightarrow> load_error + (aofManifest \<times> int)" where
  "add_info am maxseq ai =
     (if file_type ai = AOF_FILE_TYPE_BASE
      then if base_aof_info am \<noteq> None then Inl DuplicateBase
        else Inr (am\<lparr>base_aof_info := Some ai, curr_base_file_seq := file_seq ai\<rparr>, maxseq)
      else if file_type ai = AOF_FILE_TYPE_HIST
      then Inr (am\<lparr>history_aof_list := history_aof_list am @ [ai]\<rparr>, maxseq)
      else if file_type ai = AOF_FILE_TYPE_INCR
      then if file_seq ai \<le> maxseq then Inl NonMonotonic
        else Inr (am\<lparr>incr_aof_list := incr_aof_list am @ [ai], curr_incr_file_seq := file_seq ai\<rparr>, file_seq ai)
      else Inl UnknownType)"

definition load_line :: "aofManifest \<Rightarrow> int \<Rightarrow> bytes \<Rightarrow> load_error + (aofManifest \<times> int)" where
  "load_line am maxseq buf =
     (if 10 \<notin> set (c_str buf) then Inl TooLongLine
      else let line = trim_spec [32, 9, 13, 10] (c_str buf) in
        if line = [] then Inl InvalidFormat
        else case args_spec (c_str line) of
            None \<Rightarrow> Inl InvalidFormat
          | Some argv \<Rightarrow>
              if length argv < 6 \<or> odd (length argv) then Inl InvalidFormat
              else case load_pairs argv aofInfoCreate of
                  Inl err \<Rightarrow> Inl err
                | Inr ai \<Rightarrow>
                    if file_name ai = None \<or> file_seq ai = 0 \<or> file_type ai = 0 then Inl InvalidFormat
                    else add_info am maxseq ai)"

lemma fgets_shorter: "fgets n text = Some (buf, rest) \<Longrightarrow> 0 < n \<Longrightarrow> length rest < length text"
  by (auto simp: fgets_def Let_def split: if_splits)

function load_loop :: "bytes \<Rightarrow> nat \<Rightarrow> aofManifest \<Rightarrow> int \<Rightarrow> load_error + aofManifest" where
  "load_loop text linenum am maxseq =
     (case fgets MANIFEST_MAX_LINE text of
        None \<Rightarrow> if linenum = 0 then Inl EmptyManifest else Inr am
      | Some (buf, rest) \<Rightarrow>
          if hd buf = 35 then load_loop rest (linenum + 1) am maxseq
          else case load_line am maxseq buf of
              Inl err \<Rightarrow> Inl err
            | Inr (am', maxseq') \<Rightarrow> load_loop rest (linenum + 1) am' maxseq')"
  by pat_completeness auto

termination by (relation "measure (\<lambda>(text, _). length text)") (auto simp: MANIFEST_MAX_LINE_def dest: fgets_shorter)

definition aofLoadManifestFromFile :: "bytes \<Rightarrow> load_error + aofManifest" where
  "aofLoadManifestFromFile text = load_loop text 0 aofManifestCreate 0"

section \<open>Changing the manifest\<close>

datatype aof_state = AOF_OFF | AOF_ON | AOF_WAIT_REWRITE

text \<open>
  The part of the server's state that the manifest code uses. \<open>aof_fd\<close> is the name of the file that is open for
  writing; \<open>manifest_file\<close> is the manifest on the disk; \<open>unlinked\<close> are the names that \<^verbatim>\<open>bg_unlink\<close> was called with.
\<close>

record aofServer =
  aof_filename :: bytes
  aof_use_rdb_preamble :: bool
  aof_disable_auto_gc :: bool
  server_aof_state :: aof_state
  aof_fd :: "bytes option"
  master_repl_offset :: int
  tempIncAofStartReplOffset :: int
  aof_manifest :: aofManifest
  manifest_file :: "bytes option"
  unlinked :: "bytes list"
  aof_lastbgrewrite_ok :: bool
  stat_aofrw_consecutive_failures :: nat
  aof_rewrite_scheduled :: bool

definition next_seq :: "int \<Rightarrow> int option" where
  "next_seq n = (if n = INT64_MAX then None else Some (n + 1))"

definition getNewBaseFileNameAndMarkPreAsHistory :: "aofServer \<Rightarrow> aofManifest \<Rightarrow> (bytes \<times> aofManifest) option" where
  "getNewBaseFileNameAndMarkPreAsHistory srv am = do {
     hist \<leftarrow> (case base_aof_info am of
         None \<Rightarrow> Some (history_aof_list am)
       | Some ai \<Rightarrow>
           if file_type ai = AOF_FILE_TYPE_BASE then Some (ai\<lparr>file_type := AOF_FILE_TYPE_HIST\<rparr> # history_aof_list am) else None);
     let format_suffix = (if aof_use_rdb_preamble srv then str ''.rdb'' else str ''.aof'');
     seq \<leftarrow> next_seq (curr_base_file_seq am);
     let name = aof_filename srv @ str ''.'' @ dec_int seq @ str ''.base'' @ format_suffix;
     let ai = aofInfoCreate\<lparr>file_name := Some name, file_seq := seq, file_type := AOF_FILE_TYPE_BASE\<rparr>;
     Some (name, am\<lparr>base_aof_info := Some ai, history_aof_list := hist, curr_base_file_seq := seq, dirty := True\<rparr>)
   }"

definition getNewIncrAofName :: "aofServer \<Rightarrow> aofManifest \<Rightarrow> int \<Rightarrow> (bytes \<times> aofManifest) option" where
  "getNewIncrAofName srv am start_reploff = do {
     seq \<leftarrow> next_seq (curr_incr_file_seq am);
     let name = aof_filename srv @ str ''.'' @ dec_int seq @ str ''.incr'' @ str ''.aof'';
     let ai = aofInfoCreate\<lparr>file_type := AOF_FILE_TYPE_INCR, file_name := Some name, file_seq := seq, start_offset := start_reploff\<rparr>;
     Some (name, am\<lparr>incr_aof_list := incr_aof_list am @ [ai], curr_incr_file_seq := seq, dirty := True\<rparr>)
   }"

definition getTempIncrAofName :: "aofServer \<Rightarrow> bytes" where
  "getTempIncrAofName srv = str ''temp-'' @ aof_filename srv @ str ''.incr''"

definition getLastIncrAofName :: "aofServer \<Rightarrow> aofManifest \<Rightarrow> (bytes \<times> aofManifest) option" where
  "getLastIncrAofName srv am =
     (if incr_aof_list am = [] then getNewIncrAofName srv am (master_repl_offset srv)
      else map_option (\<lambda>name. (name, am)) (file_name (last (incr_aof_list am))))"

text \<open>The files to move, last one first; each is added at the head of the history.\<close>

fun mark_loop :: "aofInfo list \<Rightarrow> aofInfo list \<Rightarrow> aofInfo list option" where
  "mark_loop [] hist = Some hist"
| "mark_loop (ai # todo) hist =
     (if file_type ai = AOF_FILE_TYPE_INCR
      then mark_loop todo ((aofInfoDup ai)\<lparr>file_type := AOF_FILE_TYPE_HIST\<rparr> # hist) else None)"

definition markRewrittenIncrAofAsHistory :: "aofServer \<Rightarrow> aofManifest \<Rightarrow> aofManifest option" where
  "markRewrittenIncrAofAsHistory srv am =
     (if incr_aof_list am = [] then Some am
      else do {
        let (keep, todo) = (if aof_fd srv \<noteq> None then ([last (incr_aof_list am)], butlast (incr_aof_list am)) else ([], incr_aof_list am));
        hist \<leftarrow> mark_loop (rev todo) (history_aof_list am);
        Some (am\<lparr>incr_aof_list := keep, history_aof_list := hist, dirty := True\<rparr>)
      })"

section \<open>The disk\<close>

text \<open>
  The manifest is written to a temporary file that is then renamed. A failure before the renaming leaves the old manifest in
  place; one behind it (of \<^verbatim>\<open>fsyncFileDir\<close>) does not.
\<close>

datatype io = IoOk | IoFailed | IoFailedAfterRename

definition writeAofManifestFile :: "io \<Rightarrow> aofServer \<Rightarrow> bytes \<Rightarrow> aofServer \<times> bool" where
  "writeAofManifestFile io srv buf =
     (case io of
        IoOk \<Rightarrow> (srv\<lparr>manifest_file := Some buf\<rparr>, True)
      | IoFailed \<Rightarrow> (srv, False)
      | IoFailedAfterRename \<Rightarrow> (srv\<lparr>manifest_file := Some buf\<rparr>, False))"

definition persistAofManifest :: "io \<Rightarrow> aofServer \<Rightarrow> aofManifest \<Rightarrow> (aofServer \<times> aofManifest \<times> bool) option" where
  "persistAofManifest io srv am =
     (if \<not> dirty am then Some (srv, am, True)
      else do {
        amstr \<leftarrow> getAofManifestAsString am;
        let (srv', ok) = writeAofManifestFile io srv amstr;
        Some (srv', if ok then am\<lparr>dirty := False\<rparr> else am, ok)
      })"

definition aofDelHistoryFiles :: "io \<Rightarrow> aofServer \<Rightarrow> aofServer option" where
  "aofDelHistoryFiles io srv =
     (let am = aof_manifest srv in
      if aof_disable_auto_gc srv \<or> history_aof_list am = [] then Some srv
      else if list_all (\<lambda>ai. file_type ai = AOF_FILE_TYPE_HIST \<and> file_name ai \<noteq> None) (history_aof_list am)
        then do {
          let srv1 = srv\<lparr>unlinked := unlinked srv @ map (the \<circ> file_name) (history_aof_list am)\<rparr>;
          (srv2, am', _) \<leftarrow> persistAofManifest io srv1 (am\<lparr>history_aof_list := [], dirty := True\<rparr>);
          Some (srv2\<lparr>aof_manifest := am'\<rparr>)
        }
        else None)"

section \<open>Transitions of the server\<close>

text \<open>\<open>Some None\<close> is the end of the process with \<^verbatim>\<open>exit(1)\<close>, for \<open>aofLoadManifestFromDisk\<close> it is \<open>None\<close>.\<close>

definition aofLoadManifestFromDisk :: "aofServer \<Rightarrow> aofServer option" where
  "aofLoadManifestFromDisk srv =
     (let srv' = srv\<lparr>aof_manifest := aofManifestCreate\<rparr> in
      case manifest_file srv of
        None \<Rightarrow> Some srv'
      | Some text \<Rightarrow> (case aofLoadManifestFromFile text of Inl err \<Rightarrow> None | Inr am \<Rightarrow> Some (srv'\<lparr>aof_manifest := am\<rparr>)))"

definition aofUpgradePrepare :: "bool \<Rightarrow> bool \<Rightarrow> io \<Rightarrow> bool \<Rightarrow> aofServer \<Rightarrow> aofServer option option" where
  "aofUpgradePrepare file_exists dir_ok io rename_ok srv =
     (if file_exists then None
      else if \<not> dir_ok then Some None
      else do {
        let ai = aofInfoCreate\<lparr>file_name := Some (aof_filename srv), file_seq := 1, file_type := AOF_FILE_TYPE_BASE\<rparr>;
        (srv', am', ok) \<leftarrow> persistAofManifest io srv ((aof_manifest srv)\<lparr>base_aof_info := Some ai, curr_base_file_seq := 1, dirty := True\<rparr>);
        if ok \<and> rename_ok then Some (Some (srv'\<lparr>aof_manifest := am'\<rparr>)) else Some None
      })"

definition aofOpenIfNeededOnServerStart :: "bool \<Rightarrow> bool \<Rightarrow> bool \<Rightarrow> io \<Rightarrow> aofServer \<Rightarrow> aofServer option option" where
  "aofOpenIfNeededOnServerStart dir_ok rewrite_ok open_ok io srv =
     (if server_aof_state srv \<noteq> AOF_ON then Some (Some srv)
      else if aof_fd srv \<noteq> None then None
      else if \<not> dir_ok then Some None
      else do {
        let am0 = aof_manifest srv;
        let create = (base_aof_info am0 = None \<and> incr_aof_list am0 = []);
        am1 \<leftarrow> (if create then map_option snd (getNewBaseFileNameAndMarkPreAsHistory srv am0) else Some am0);
        if create \<and> \<not> rewrite_ok then Some None
        else do {
          (name, am2) \<leftarrow> getLastIncrAofName srv am1;
          if \<not> open_ok then Some None
          else do {
            (srv', am3, ok) \<leftarrow> persistAofManifest io (srv\<lparr>aof_fd := Some name\<rparr>) am2;
            if ok then Some (Some (srv'\<lparr>aof_manifest := am3\<rparr>)) else Some None
          }
        }
      })"

definition openNewIncrAofForAppend :: "bool \<Rightarrow> io \<Rightarrow> aofServer \<Rightarrow> (aofServer \<times> bool) option" where
  "openNewIncrAofForAppend open_ok io srv =
     (case server_aof_state srv of
        AOF_OFF \<Rightarrow> Some (srv, True)
      | AOF_WAIT_REWRITE \<Rightarrow>
          let srv1 = srv\<lparr>tempIncAofStartReplOffset := master_repl_offset srv\<rparr> in
          if open_ok then Some (srv1\<lparr>aof_fd := Some (getTempIncrAofName srv)\<rparr>, True) else Some (srv1, False)
      | AOF_ON \<Rightarrow> do {
          (name, temp_am) \<leftarrow> getNewIncrAofName srv (aofManifestDup (aof_manifest srv)) (master_repl_offset srv);
          if \<not> open_ok then Some (srv, False)
          else do {
            (srv', temp_am', ok) \<leftarrow> persistAofManifest io srv temp_am;
            if ok then Some (srv'\<lparr>aof_fd := Some name, aof_manifest := temp_am'\<rparr>, True) else Some (srv', False)
          }
        })"

definition updateCurIncrAofEndOffset :: "io \<Rightarrow> aofServer \<Rightarrow> aofServer option" where
  "updateCurIncrAofEndOffset io srv =
     (let am = aof_manifest srv; l = incr_aof_list am in
      if server_aof_state srv \<noteq> AOF_ON \<or> l = [] then Some srv
      else do {
        let ai = (last l)\<lparr>end_offset := master_repl_offset srv\<rparr>;
        (srv', am', _) \<leftarrow> persistAofManifest io srv (am\<lparr>incr_aof_list := butlast l @ [ai], dirty := True\<rparr>);
        Some (srv'\<lparr>aof_manifest := am'\<rparr>)
      })"

text \<open>The size of the file is what \<^verbatim>\<open>getAppendOnlyFileSize\<close> returns.\<close>

definition updateReplOffsetAndResetEndOffset :: "io \<Rightarrow> int \<Rightarrow> aofServer \<Rightarrow> aofServer option option" where
  "updateReplOffsetAndResetEndOffset io filesize srv =
     (let am = aof_manifest srv; l = incr_aof_list am in
      if server_aof_state srv \<noteq> AOF_ON \<or> l = [] then Some (Some srv)
      else let ai = last l in
        if end_offset ai \<noteq> - 1
        then do {
          let srv1 = srv\<lparr>master_repl_offset := end_offset ai\<rparr>;
          (srv', am', ok) \<leftarrow> persistAofManifest io srv1 (am\<lparr>incr_aof_list := butlast l @ [ai\<lparr>end_offset := - 1\<rparr>], dirty := True\<rparr>);
          if ok then Some (Some (srv'\<lparr>aof_manifest := am'\<rparr>)) else Some None
        }
        else let offset = (if start_offset ai = - 1 then 0 else start_offset ai) + filesize in
          if in_sint 64 offset then Some (Some (srv\<lparr>master_repl_offset := offset\<rparr>)) else None)"

text \<open>
  The start of a rewrite: the flags are whether a child process is running, whether the directory and the file can be
  opened and whether the fork succeeds.
\<close>

definition rewriteAppendOnlyFileBackground :: "bool \<Rightarrow> bool \<Rightarrow> bool \<Rightarrow> io \<Rightarrow> bool \<Rightarrow> aofServer \<Rightarrow> (aofServer \<times> bool) option" where
  "rewriteAppendOnlyFileBackground has_child dir_ok open_ok io fork_ok srv =
     (if has_child then Some (srv, False)
      else if \<not> dir_ok then Some (srv\<lparr>aof_lastbgrewrite_ok := False\<rparr>, False)
      else do {
        (srv1, ok) \<leftarrow> openNewIncrAofForAppend open_ok io srv;
        if \<not> ok then Some (srv1\<lparr>aof_lastbgrewrite_ok := False\<rparr>, False)
        else if \<not> fork_ok then Some (srv1\<lparr>aof_lastbgrewrite_ok := False\<rparr>, False)
        else Some (srv1\<lparr>aof_rewrite_scheduled := False\<rparr>, True)
      })"

definition startAppendOnly :: "bool \<Rightarrow> bool \<Rightarrow> bool \<Rightarrow> io \<Rightarrow> bool \<Rightarrow> aofServer \<Rightarrow> (aofServer \<times> bool) option" where
  "startAppendOnly busy dir_ok open_ok io fork_ok srv =
     (if server_aof_state srv \<noteq> AOF_OFF then None
      else let srv1 = srv\<lparr>server_aof_state := AOF_WAIT_REWRITE\<rparr> in
        if busy then Some (srv1\<lparr>aof_rewrite_scheduled := True\<rparr>, True)
        else do {
          (srv2, ok) \<leftarrow> rewriteAppendOnlyFileBackground False dir_ok open_ok io fork_ok srv1;
          if ok then Some (srv2, True) else Some (srv2\<lparr>server_aof_state := AOF_OFF\<rparr>, False)
        })"

definition stopAppendOnly :: "io \<Rightarrow> aofServer \<Rightarrow> aofServer option" where
  "stopAppendOnly io srv =
     (if server_aof_state srv = AOF_OFF then None
      else do {
        srv1 \<leftarrow> updateCurIncrAofEndOffset io srv;
        Some (srv1\<lparr>aof_fd := None, server_aof_state := AOF_OFF, aof_rewrite_scheduled := False\<rparr>)
      })"

definition rewrite_failed :: "aofServer \<Rightarrow> aofServer" where
  "rewrite_failed srv = srv\<lparr>aof_lastbgrewrite_ok := False, stat_aofrw_consecutive_failures := stat_aofrw_consecutive_failures srv + 1\<rparr>"

text \<open>The steps behind the label \<^verbatim>\<open>cleanup\<close>.\<close>

definition rewrite_cleanup :: "aofServer \<Rightarrow> aofServer" where
  "rewrite_cleanup srv =
     (if server_aof_state srv = AOF_WAIT_REWRITE
      then srv\<lparr>unlinked := unlinked srv @ [getTempIncrAofName srv], aof_rewrite_scheduled := True\<rparr> else srv)"

text \<open>
  The child has written the new base file. A renamed temporary file stays open under its new name.
\<close>

definition rewrite_done :: "bool \<Rightarrow> bool \<Rightarrow> io \<Rightarrow> io \<Rightarrow> aofServer \<Rightarrow> aofServer option" where
  "rewrite_done rename_base_ok rename_incr_ok io io_gc srv = do {
     (new_base, am1) \<leftarrow> getNewBaseFileNameAndMarkPreAsHistory srv (aofManifestDup (aof_manifest srv));
     if \<not> rename_base_ok then Some (rewrite_failed srv)
     else do {
       let waiting = (server_aof_state srv = AOF_WAIT_REWRITE);
       (new_incr, am2) \<leftarrow> (if waiting then getNewIncrAofName srv am1 (tempIncAofStartReplOffset srv) else Some ([], am1));
       if waiting \<and> \<not> rename_incr_ok then Some (rewrite_failed (srv\<lparr>unlinked := unlinked srv @ [new_base]\<rparr>))
       else do {
         let srv1 = (if waiting \<and> aof_fd srv = Some (getTempIncrAofName srv) then srv\<lparr>aof_fd := Some new_incr\<rparr> else srv);
         am3 \<leftarrow> markRewrittenIncrAofAsHistory srv1 am2;
         (srv2, am4, ok) \<leftarrow> persistAofManifest io srv1 am3;
         if \<not> ok then Some (rewrite_failed (srv2\<lparr>unlinked := unlinked srv2 @ [new_base] @ (if waiting then [new_incr] else [])\<rparr>))
         else do {
           srv3 \<leftarrow> aofDelHistoryFiles io_gc (srv2\<lparr>aof_manifest := am4\<rparr>);
           Some (srv3\<lparr>aof_lastbgrewrite_ok := True, stat_aofrw_consecutive_failures := 0,
             server_aof_state := (if waiting then AOF_ON else server_aof_state srv3)\<rparr>)
         }
       }
     }
   }"

text \<open>\<open>bysignal\<close> is the number of a signal, 0 for none; 10 is \<^verbatim>\<open>SIGUSR1\<close>.\<close>

definition backgroundRewriteDoneHandler :: "int \<Rightarrow> int \<Rightarrow> bool \<Rightarrow> bool \<Rightarrow> io \<Rightarrow> io \<Rightarrow> aofServer \<Rightarrow> aofServer option" where
  "backgroundRewriteDoneHandler exitcode bysignal rename_base_ok rename_incr_ok io io_gc srv =
     map_option rewrite_cleanup
       (if bysignal = 0 \<and> exitcode = 0 then rewrite_done rename_base_ok rename_incr_ok io io_gc srv
        else if bysignal = 0 then Some (rewrite_failed srv)
        else if bysignal \<noteq> 10 then Some (rewrite_failed srv)
        else Some srv)"

text \<open>What \<^verbatim>\<open>main\<close> does with the append-only files when the server starts; the loading of the data is left out.\<close>

definition aof_startup :: "bool \<Rightarrow> bool \<Rightarrow> bool \<Rightarrow> io \<Rightarrow> io \<Rightarrow> io \<Rightarrow> int \<Rightarrow> aofServer \<Rightarrow> aofServer option option" where
  "aof_startup dir_ok rewrite_ok open_ok io_offset io_open io_gc filesize srv =
     (case aofLoadManifestFromDisk srv of
        None \<Rightarrow> Some None
      | Some srv1 \<Rightarrow> do {
          r \<leftarrow> updateReplOffsetAndResetEndOffset io_offset filesize srv1;
          case r of
            None \<Rightarrow> Some None
          | Some srv2 \<Rightarrow> do {
              r' \<leftarrow> aofOpenIfNeededOnServerStart dir_ok rewrite_ok open_ok io_open srv2;
              case r' of
                None \<Rightarrow> Some None
              | Some srv3 \<Rightarrow> map_option Some (aofDelHistoryFiles io_gc srv3)
            }
        })"

section \<open>Limiting rewrites\<close>

text \<open>The two static variables, the number of failures and the time: whether a rewrite is refused, and the new variables.\<close>

definition aofRewriteLimited :: "nat \<Rightarrow> int \<Rightarrow> int \<times> int \<Rightarrow> bool \<times> int \<times> int" where
  "aofRewriteLimited failures unixtime state =
     (let (next_delay_minutes, next_rewrite_time) = state in
      if failures < 3 then (False, 0, 0)
      else if next_rewrite_time \<noteq> 0
        then if unixtime < next_rewrite_time then (True, next_delay_minutes, next_rewrite_time) else (False, next_delay_minutes, 0)
      else
        let d = (if next_delay_minutes = 0 then 1 else next_delay_minutes * 2);
            d' = (if d > 60 then 60 else d)
        in (True, d', unixtime + d' * 60))"

end
