(* ===== verification/Aof_Format.thy ===== *)
theory Aof_Format
  imports Aof
begin

text \<open>The text of a manifest: what is written is read back.\<close>

declare load_loop.simps [simp del]

section \<open>Words and quoted words\<close>

text \<open>A word that the parser of arguments takes as it is.\<close>

definition plain :: "bytes \<Rightarrow> bool" where
  "plain w \<longleftrightarrow> w \<noteq> [] \<and> (\<forall>c \<in> set w. \<not> isspace c \<and> c \<noteq> 34 \<and> c \<noteq> 39 \<and> c \<noteq> 0)"

text \<open>How a token is written.\<close>

definition written :: "bytes \<Rightarrow> bytes \<Rightarrow> bool" where
  "written raw tok \<longleftrightarrow> raw = repr tok \<or> (raw = tok \<and> plain tok)"

lemma token_spec_plain:
  assumes "\<forall>c \<in> set w. \<not> isspace c \<and> c \<noteq> 34 \<and> c \<noteq> 39 \<and> c \<noteq> 0"
  shows "token_spec NoQuotes cur w = Some (cur @ w, [])" "token_spec NoQuotes cur (w @ 32 # rest) = Some (cur @ w, rest)"
  using assms by (induction w arbitrary: cur) (auto simp: token_spec.simps [of NoQuotes] isspace_def)

lemma args_spec_space: "args_spec (32 # p) = args_spec p"
  by (simp add: args_spec.simps [of "32 # p"] args_spec.simps [of p] isspace_def del: dropWhile_eq_Nil_conv)

lemma args_spec_written:
  assumes w: "written raw tok" and r: "rest = [] \<or> rest = 32 # rest'"
  shows "args_spec (raw @ rest) = map_option (Cons tok) (args_spec rest)"
  using w unfolding written_def
proof
  assume raw: "raw = repr tok"
  have "case rest of [] \<Rightarrow> True | c # _ \<Rightarrow> isspace c" using r by (auto simp: isspace_def)
  from token_spec_repr [OF this, of tok] show ?thesis
    unfolding raw by (subst args_spec.simps) (simp add: repr_not_space, simp add: repr_def)
next
  assume raw: "raw = tok \<and> plain tok"
  then have t: "\<forall>c \<in> set tok. \<not> isspace c \<and> c \<noteq> 34 \<and> c \<noteq> 39 \<and> c \<noteq> 0" "tok \<noteq> []" by (auto simp: plain_def)
  then have d: "dropWhile isspace (tok @ rest) = tok @ rest" by (cases tok) auto
  show ?thesis
  proof (cases "rest = []")
    case True
    then show ?thesis using raw d t token_spec_plain(1) [OF t(1), of "[]"] by (subst args_spec.simps) (simp add: args_spec.simps [of "[]"])
  next
    case False
    then have "rest = 32 # rest'" using r by blast
    then show ?thesis using raw d t(2) token_spec_plain(2) [OF t(1), of "[]" rest'] args_spec_space [of rest']
      by (subst args_spec.simps) simp
  qed
qed

lemma args_spec_join:
  "list_all2 written raws toks \<Longrightarrow> args_spec (join_bytes [32] raws) = Some toks"
proof (induction raws toks rule: list_all2_induct)
  case Nil
  show ?case by (simp add: args_spec.simps)
next
  case (Cons raw raws tok toks)
  define rest where "rest = (if raws = [] then [] else 32 # join_bytes [32] raws)"
  have "args_spec rest = Some toks" using Cons.IH by (cases "raws = []") (simp_all add: rest_def args_spec_space)
  moreover have "join_bytes [32] (raw # raws) = raw @ rest" by (simp add: rest_def)
  moreover have "rest = [] \<or> rest = 32 # join_bytes [32] raws" by (simp add: rest_def)
  ultimately show ?case using args_spec_written [OF Cons.hyps(1)] by auto
qed

section \<open>Names and numbers\<close>

text \<open>
  A file name that survives: no path, no zero byte, and a single quote only if something else in the name makes it quoted.
\<close>

definition name_ok :: "bytes \<Rightarrow> bool" where
  "name_ok n \<longleftrightarrow> n \<noteq> [] \<and> 0 \<notin> set n \<and> 47 \<notin> set n \<and> 92 \<notin> set n \<and> (39 \<in> set n \<longrightarrow> needsrepr_loop n)"

definition file_repr :: "bytes \<Rightarrow> bytes" where
  "file_repr n = (if needsrepr_loop n then repr n else n)"

lemma needsrepr_iff: "needsrepr_loop n \<longleftrightarrow> (\<exists>c \<in> set n. c = 92 \<or> c = 34 \<or> c = 10 \<or> c = 13 \<or> c = 9 \<or> c = 7 \<or> c = 8 \<or> \<not> isprint c \<or> isspace c)"
  by (induction n) auto

lemma written_name: "name_ok n \<Longrightarrow> written (file_repr n) n"
  by (auto simp: written_def file_repr_def plain_def name_ok_def needsrepr_iff)

lemma dec_int_chars: "c \<in> set (dec_int v) \<Longrightarrow> is_digit c \<or> c = 45"
  using dec_all_digits by (auto simp: dec_int_def list_all_iff split: if_splits)

lemma digit_not_special: "is_digit c \<Longrightarrow> \<not> isspace c \<and> c \<noteq> 34 \<and> c \<noteq> 39 \<and> c \<noteq> 0 \<and> c \<noteq> 10 \<and> c \<noteq> 43 \<and> c \<noteq> 45"
  by (auto simp: is_digit_uint isspace_def word_le_def)

lemma plain_dec_int: "plain (dec_int v)"
  using digit_not_special by (auto simp: plain_def isspace_def dest!: dec_int_chars)


lemma c_str_id: "0 \<notin> set s \<Longrightarrow> c_str s = s"
  unfolding c_str_def by (rule takeWhile_eq_all_conv [THEN iffD2]) auto

lemma atoll_dec_int:
  assumes "in_sint 64 v"
  shows "atoll (dec_int v) = v"
proof -
  have d: "dropWhile isspace (dec_int v) = dec_int v"
    using plain_dec_int [of v] by (cases "dec_int v") (auto simp: plain_def)
  have t: "takeWhile is_digit (dec n) = dec n" for n
    using dec_all_digits [of n] by (simp add: takeWhile_eq_all_conv list_all_iff)
  have r: "INT64_MIN \<le> v" "v \<le> INT64_MAX" using assms by (simp_all add: in_sint_def)
  show ?thesis
  proof (cases "v < 0")
    case True
    then show ?thesis using r unfolding atoll_def d Let_def by (simp add: dec_int_def digits_value_dec t)
  next
    case False
    have "hd (dec_int v) \<noteq> 45" "hd (dec_int v) \<noteq> 43"
      using False dec_all_digits [of "nat v"] digit_not_special by (cases "dec (nat v)"; auto simp: dec_int_def)+
    then show ?thesis using False r unfolding atoll_def d Let_def by (simp add: dec_int_def digits_value_dec t)
  qed
qed

section \<open>One line\<close>

lemma str_keys:
  "str ''file'' = [102, 105, 108, 101]" "str ''seq'' = [115, 101, 113]" "str ''type'' = [116, 121, 112, 101]"
  "str ''startoffset'' = [115, 116, 97, 114, 116, 111, 102, 102, 115, 101, 116]"
  "str ''endoffset'' = [101, 110, 100, 111, 102, 102, 115, 101, 116]"
  by code_simp+

lemma key_tests:
  "strcasecmp_eq (c_str (str ''file'')) ''file''"
  "\<not> strcasecmp_eq (c_str (str ''seq'')) ''file''" "strcasecmp_eq (c_str (str ''seq'')) ''seq''"
  "\<not> strcasecmp_eq (c_str (str ''type'')) ''file''" "\<not> strcasecmp_eq (c_str (str ''type'')) ''seq''" "strcasecmp_eq (c_str (str ''type'')) ''type''"
  "\<not> strcasecmp_eq (c_str (str ''startoffset'')) ''file''" "\<not> strcasecmp_eq (c_str (str ''startoffset'')) ''seq''"
  "\<not> strcasecmp_eq (c_str (str ''startoffset'')) ''type''" "strcasecmp_eq (c_str (str ''startoffset'')) ''startoffset''"
  "\<not> strcasecmp_eq (c_str (str ''endoffset'')) ''file''" "\<not> strcasecmp_eq (c_str (str ''endoffset'')) ''seq''"
  "\<not> strcasecmp_eq (c_str (str ''endoffset'')) ''type''" "\<not> strcasecmp_eq (c_str (str ''endoffset'')) ''startoffset''"
  "strcasecmp_eq (c_str (str ''endoffset'')) ''endoffset''"
  by code_simp+

text \<open>The words of a line, with the name given as the first argument.\<close>

definition info_words :: "bytes \<Rightarrow> aofInfo \<Rightarrow> bytes list" where
  "info_words name ai =
     [str ''file'', name, str ''seq'', dec_int (file_seq ai), str ''type'', [file_type ai]] @
     (if start_offset ai \<noteq> - 1
      then [str ''startoffset'', dec_int (start_offset ai)] @ (if end_offset ai \<noteq> - 1 then [str ''endoffset'', dec_int (end_offset ai)] else [])
      else [])"

definition info_line :: "aofInfo \<Rightarrow> bytes" where
  "info_line ai = join_bytes [32] (info_words (file_repr (the (file_name ai))) ai)"

definition info_ok :: "aofInfo \<Rightarrow> bool" where
  "info_ok ai \<longleftrightarrow>
     (case file_name ai of None \<Rightarrow> False | Some n \<Rightarrow> name_ok n) \<and> in_sint 64 (file_seq ai) \<and> file_seq ai \<noteq> 0 \<and>
     file_type ai \<in> {AOF_FILE_TYPE_BASE, AOF_FILE_TYPE_HIST, AOF_FILE_TYPE_INCR} \<and>
     in_sint 64 (start_offset ai) \<and> in_sint 64 (end_offset ai) \<and> length (info_line ai) < MANIFEST_MAX_LINE"

text \<open>An end offset without a start offset is not written.\<close>

definition reload_info :: "aofInfo \<Rightarrow> aofInfo" where
  "reload_info ai = (if start_offset ai = - 1 then ai\<lparr>end_offset := - 1\<rparr> else ai)"

lemma file_repr_nonzero: "name_ok n \<Longrightarrow> 0 \<notin> set (file_repr n)"
  using repr_char_nonzero by (auto simp: file_repr_def name_ok_def repr_def)

lemma aofInfoFormat_line:
  assumes "file_name ai = Some n" and "0 \<notin> set (file_repr n)"
  shows "aofInfoFormat buf ai = Some (buf @ info_line ai @ [10])"
proof -
  have c: "c_str (if needsrepr_loop n then repr n else n) = file_repr n"
    using c_str_id [OF assms(2)] by (simp add: file_repr_def)
  have s: "str ''file '' = str ''file'' @ [32]" "str '' seq '' = 32 # str ''seq'' @ [32]" "str '' type '' = 32 # str ''type'' @ [32]"
    "str '' startoffset '' = 32 # str ''startoffset'' @ [32]" "str '' endoffset '' = 32 # str ''endoffset'' @ [32]" by code_simp+
  show ?thesis using assms(1) unfolding aofInfoFormat_def info_line_def Let_def s by (simp add: c info_words_def)
qed

lemmas aofInfoFormat_eq = aofInfoFormat_line [OF _ file_repr_nonzero]

lemma load_pairs_words:
  assumes "info_ok ai" and "file_name ai = Some n"
  shows "load_pairs (info_words n ai) aofInfoCreate = Inr (reload_info ai)"
proof -
  have n: "name_ok n" using assms by (simp add: info_ok_def)
  have name: "c_str n = n" "pathIsBaseName n" using n c_str_id by (simp_all add: name_ok_def pathIsBaseName_def)
  have num: "c_str (dec_int v) = dec_int v" for v using plain_dec_int [of v] by (intro c_str_id) (auto simp: plain_def)
  show ?thesis using assms unfolding info_words_def
    by (cases ai) (simp add: key_tests name num atoll_dec_int info_ok_def aofInfoCreate_def reload_info_def)
qed

lemma written_words:
  assumes "info_ok ai" and "file_name ai = Some n"
  shows "list_all2 written (info_words (file_repr n) ai) (info_words n ai)"
proof -
  have n: "written (file_repr n) n" using assms by (simp add: info_ok_def written_name)
  have d: "written (dec_int v) (dec_int v)" for v by (simp add: written_def plain_dec_int)
  have k: "written (str k) (str k)" if "k \<in> {''file'', ''seq'', ''type'', ''startoffset'', ''endoffset''}" for k
    using that by (auto simp: written_def plain_def str_keys isspace_def)
  have t: "written [file_type ai] [file_type ai]" using assms by (auto simp: info_ok_def written_def plain_def isspace_def)
  show ?thesis unfolding info_words_def using n d k t by simp
qed


text \<open>No word has a newline or a zero byte, and a line begins and ends with a byte that is not trimmed.\<close>

lemma repr_char_newline: "10 \<notin> set (repr_char c)"
proof -
  have "hex_char d \<noteq> 10" if "d < 16" for d using hex_char_digit [OF that] by (auto simp: is_hex_digit_def)
  then show ?thesis using unat_byte_less [of c] by (auto simp: repr_char_def isprint_def)
qed

lemma written_chars: "written raw tok \<Longrightarrow> 0 \<notin> set raw \<and> 10 \<notin> set raw \<and> raw \<noteq> []"
  using repr_char_nonzero repr_char_newline by (auto simp: written_def plain_def repr_def isspace_def)

lemma join_chars: "\<forall>x \<in> set xs. 0 \<notin> set x \<and> 10 \<notin> set x \<Longrightarrow> 0 \<notin> set (join_bytes [32] xs) \<and> 10 \<notin> set (join_bytes [32] xs)"
  by (induction xs) auto

lemma join_not_empty: "xs \<noteq> [] \<Longrightarrow> last xs \<noteq> [] \<Longrightarrow> join_bytes sep xs \<noteq> []"
  by (induction xs) auto

lemma last_join: "xs \<noteq> [] \<Longrightarrow> last xs \<noteq> [] \<Longrightarrow> last (join_bytes sep xs) = last (last xs)"
proof (induction xs)
  case (Cons x xs)
  show ?case
  proof (cases "xs = []")
    case False
    then have "join_bytes sep xs \<noteq> []" using Cons.prems by (simp add: join_not_empty)
    then show ?thesis using Cons False by simp
  qed simp
qed simp

lemma info_line_ends:
  assumes "info_ok ai" and "file_name ai = Some n"
  shows "0 \<notin> set (info_line ai)" "10 \<notin> set (info_line ai)" "info_line ai \<noteq> []" "hd (info_line ai) = 102" "\<not> isspace (last (info_line ai))"
    "last (info_line ai) \<noteq> 0"
proof -
  define raws where "raws = info_words (file_repr n) ai"
  have line: "info_line ai = join_bytes [32] raws" by (simp add: info_line_def raws_def assms(2))
  have "\<forall>x \<in> set raws. 0 \<notin> set x \<and> 10 \<notin> set x"
    using list_all2_lengthD [OF written_words [OF assms]] written_words [OF assms] written_chars
    unfolding raws_def list_all2_conv_all_nth by (metis in_set_conv_nth)
  then show z: "0 \<notin> set (info_line ai)" "10 \<notin> set (info_line ai)" unfolding line using join_chars by blast+
  show h: "info_line ai \<noteq> []" "hd (info_line ai) = 102" unfolding line raws_def info_words_def by (simp_all add: str_keys)
  have "plain [file_type ai]" using assms(1) by (auto simp: info_ok_def plain_def isspace_def)
  then have pl: "plain (last raws)" using plain_dec_int by (simp add: raws_def info_words_def)
  then have ne: "raws \<noteq> []" "last raws \<noteq> []" by (simp_all add: raws_def info_words_def plain_def)
  have "last (info_line ai) \<in> set (last raws)" using ne unfolding line by (simp add: last_join)
  with pl show "\<not> isspace (last (info_line ai))" "last (info_line ai) \<noteq> 0" by (auto simp: plain_def)
qed

lemma trim_spec_line:
  assumes "xs \<noteq> []" "\<not> strchr cset (hd xs)" "\<not> strchr cset (last xs)" "strchr cset z"
  shows "trim_spec cset (xs @ [z]) = xs"
proof -
  have "dropWhile (strchr cset) (xs @ [z]) = xs @ [z]" using assms(1,2) by (cases xs) auto
  moreover have "dropWhile (strchr cset) (rev xs) = rev xs" using assms(1,3) by (cases xs rule: rev_cases) auto
  ultimately show ?thesis using assms(4) by (simp add: trim_spec_def)
qed

lemma load_line_info:
  assumes "info_ok ai"
  shows "load_line am maxseq (info_line ai @ [10]) = add_info am maxseq (reload_info ai)"
proof -
  obtain n where n: "file_name ai = Some n" using assms by (auto simp: info_ok_def split: option.splits)
  note e = info_line_ends [OF assms n]
  have c: "c_str (info_line ai @ [10]) = info_line ai @ [10]" "c_str (info_line ai) = info_line ai" using e(1) by (simp_all add: c_str_id)
  have t: "trim_spec [32, 9, 13, 10] (info_line ai @ [10]) = info_line ai"
    by (rule trim_spec_line) (use e in \<open>auto simp: strchr_def isspace_def\<close>)
  have a: "args_spec (info_line ai) = Some (info_words n ai)"
    using args_spec_join [OF written_words [OF assms n]] by (simp add: info_line_def n)
  have l: "\<not> (length (info_words n ai) < 6 \<or> odd (length (info_words n ai)))" by (simp add: info_words_def)
  have r: "\<not> (file_name (reload_info ai) = None \<or> file_seq (reload_info ai) = 0 \<or> file_type (reload_info ai) = 0)"
    using assms n by (auto simp: info_ok_def reload_info_def)
  show ?thesis unfolding load_line_def Let_def using c t a l r e(3) load_pairs_words [OF assms n] by auto
qed

lemma fgets_line: "10 \<notin> set xs \<Longrightarrow> length xs < n \<Longrightarrow> fgets n (xs @ 10 # rest) = Some (xs @ [10], rest)"
proof -
  assume "10 \<notin> set xs" "length xs < n"
  moreover have "takeWhile (\<lambda>c. c \<noteq> 10) (xs @ 10 # rest) = xs" if "10 \<notin> set xs" using that by (induction xs) auto
  ultimately show ?thesis by (simp add: fgets_def Let_def)
qed

lemma load_loop_line:
  assumes "info_ok ai" and "add_info am maxseq (reload_info ai) = Inr (am', maxseq')"
  shows "load_loop (info_line ai @ 10 # rest) linenum am maxseq = load_loop rest (linenum + 1) am' maxseq'"
proof -
  obtain n where n: "file_name ai = Some n" using assms(1) by (auto simp: info_ok_def split: option.splits)
  note e = info_line_ends [OF assms(1) n]
  have "fgets MANIFEST_MAX_LINE (info_line ai @ 10 # rest) = Some (info_line ai @ [10], rest)"
    by (rule fgets_line) (use e assms(1) in \<open>auto simp: info_ok_def\<close>)
  moreover have "hd (info_line ai @ [10]) \<noteq> 35" using e(3,4) by simp
  ultimately show ?thesis using load_line_info [OF assms(1), of am maxseq] assms(2) by (subst load_loop.simps) simp
qed

section \<open>The whole text\<close>

definition info_text :: "aofInfo list \<Rightarrow> bytes" where
  "info_text l = concat (map (\<lambda>ai. info_line ai @ [10]) l)"

lemma appendAofInfoFromList_eq: "list_all info_ok l \<Longrightarrow> appendAofInfoFromList buf l = Some (buf @ info_text l)"
proof (induction l arbitrary: buf)
  case (Cons ai l)
  then obtain n where "file_name ai = Some n" "name_ok n" by (auto simp: info_ok_def split: option.splits)
  then show ?case using Cons by (simp add: aofInfoFormat_eq info_text_def)
qed (simp add: info_text_def)

lemma load_history:
  assumes "list_all (\<lambda>ai. info_ok ai \<and> file_type ai = AOF_FILE_TYPE_HIST) l"
  shows "load_loop (info_text l @ rest) linenum am maxseq = load_loop rest (linenum + length l) (am\<lparr>history_aof_list := history_aof_list am @ map reload_info l\<rparr>) maxseq"
  using assms
proof (induction l arbitrary: am linenum)
  case (Cons ai l)
  have "add_info am maxseq (reload_info ai) = Inr (am\<lparr>history_aof_list := history_aof_list am @ [reload_info ai]\<rparr>, maxseq)"
    using Cons.prems by (simp add: add_info_def reload_info_def)
  then show ?case using Cons load_loop_line by (simp add: info_text_def)
qed (simp add: info_text_def)

definition last_seq :: "int \<Rightarrow> aofInfo list \<Rightarrow> int" where
  "last_seq d l = (if l = [] then d else file_seq (last l))"

lemma load_incr:
  assumes "list_all (\<lambda>ai. info_ok ai \<and> file_type ai = AOF_FILE_TYPE_INCR) l" and "sorted_wrt (<) (maxseq # map file_seq l)"
  shows "load_loop (info_text l @ rest) linenum am maxseq =
    load_loop rest (linenum + length l) (am\<lparr>incr_aof_list := incr_aof_list am @ map reload_info l,
      curr_incr_file_seq := last_seq (curr_incr_file_seq am) l\<rparr>) (last_seq maxseq l)"
  using assms
proof (induction l arbitrary: am linenum maxseq)
  case (Cons ai l)
  have "add_info am maxseq (reload_info ai) = Inr (am\<lparr>incr_aof_list := incr_aof_list am @ [reload_info ai], curr_incr_file_seq := file_seq ai\<rparr>, file_seq ai)"
    using Cons.prems by (simp add: add_info_def reload_info_def)
  then show ?case using Cons load_loop_line by (simp add: info_text_def last_seq_def)
qed (simp add: info_text_def last_seq_def)

end
