(* ===== verification/Aof_Inv.thy ===== *)
theory Aof_Inv
  imports Aof_Format
begin

text \<open>Well-formed manifests: what is written to the disk can be loaded, and every operation keeps a manifest well-formed.\<close>

section \<open>Well-formed manifests\<close>

definition manifest_ok :: "aofManifest \<Rightarrow> bool" where
  "manifest_ok am \<longleftrightarrow>
     (case base_aof_info am of
        None \<Rightarrow> curr_base_file_seq am = 0 \<and> history_aof_list am = []
      | Some ai \<Rightarrow> info_ok ai \<and> file_type ai = AOF_FILE_TYPE_BASE \<and> file_seq ai = curr_base_file_seq am) \<and>
     0 \<le> curr_base_file_seq am \<and> in_sint 64 (curr_base_file_seq am) \<and>
     list_all (\<lambda>ai. info_ok ai \<and> file_type ai = AOF_FILE_TYPE_HIST) (history_aof_list am) \<and>
     list_all (\<lambda>ai. info_ok ai \<and> file_type ai = AOF_FILE_TYPE_INCR) (incr_aof_list am) \<and>
     sorted_wrt (<) (0 # map file_seq (incr_aof_list am)) \<and>
     last_seq (curr_incr_file_seq am) (incr_aof_list am) = curr_incr_file_seq am \<and>
     0 \<le> curr_incr_file_seq am \<and> in_sint 64 (curr_incr_file_seq am)"

definition listed :: "aofManifest \<Rightarrow> bool" where
  "listed am \<longleftrightarrow> base_aof_info am \<noteq> None \<or> incr_aof_list am \<noteq> []"

text \<open>The manifest after a restart: the numbering of the incremental files begins anew if there are none.\<close>

definition reload :: "aofManifest \<Rightarrow> aofManifest" where
  "reload am = \<lparr>base_aof_info = map_option reload_info (base_aof_info am), incr_aof_list = map reload_info (incr_aof_list am),
     history_aof_list = map reload_info (history_aof_list am), curr_base_file_seq = curr_base_file_seq am,
     curr_incr_file_seq = last_seq 0 (incr_aof_list am), dirty = False\<rparr>"

definition manifest_text :: "aofManifest \<Rightarrow> bytes" where
  "manifest_text am = info_text (case base_aof_info am of None \<Rightarrow> [] | Some ai \<Rightarrow> [ai]) @ info_text (history_aof_list am) @ info_text (incr_aof_list am)"

lemma list_all_info_ok: "list_all (\<lambda>ai. info_ok ai \<and> P ai) l \<Longrightarrow> list_all info_ok l"
  by (simp add: list_all_iff)

lemma manifest_text_eq:
  assumes "manifest_ok am"
  shows "getAofManifestAsString am = Some (manifest_text am)"
proof -
  have h: "list_all info_ok (history_aof_list am)" "list_all info_ok (incr_aof_list am)"
    using assms list_all_info_ok by (auto simp: manifest_ok_def)
  have "(case base_aof_info am of None \<Rightarrow> Some [] | Some ai \<Rightarrow> aofInfoFormat [] ai) = Some (info_text (case base_aof_info am of None \<Rightarrow> [] | Some ai \<Rightarrow> [ai]))"
  proof (cases "base_aof_info am")
    case (Some ai)
    then have "list_all info_ok [ai]" using assms by (simp add: manifest_ok_def)
    from appendAofInfoFromList_eq [OF this, of "[]"] show ?thesis using Some by (cases "aofInfoFormat [] ai") simp_all
  qed (simp add: info_text_def)
  then show ?thesis using h by (simp add: getAofManifestAsString_def manifest_text_def appendAofInfoFromList_eq)
qed

lemma info_text_append: "info_text (l @ l') = info_text l @ info_text l'"
  by (simp add: info_text_def)

lemma load_end: "load_loop [] linenum am maxseq = (if linenum = 0 then Inl EmptyManifest else Inr am)"
  by (simp add: load_loop.simps fgets_def)

lemma load_manifest_text:
  assumes ok: "manifest_ok am" and l: "listed am"
  shows "aofLoadManifestFromFile (manifest_text am) = Inr (reload am)"
proof -
  define b where "b = (case base_aof_info am of None \<Rightarrow> [] | Some ai \<Rightarrow> [ai])"
  define am1 where "am1 = aofManifestCreate\<lparr>base_aof_info := map_option reload_info (base_aof_info am), curr_base_file_seq := curr_base_file_seq am\<rparr>"
  have base: "load_loop (info_text b @ rest) 0 aofManifestCreate 0 = load_loop rest (length b) am1 0" for rest
  proof (cases "base_aof_info am")
    case None
    then show ?thesis using ok by (simp add: b_def am1_def info_text_def manifest_ok_def aofManifestCreate_def)
  next
    case (Some ai)
    then have "info_ok ai" "add_info aofManifestCreate 0 (reload_info ai) = Inr (am1, 0)"
      using ok by (auto simp: manifest_ok_def add_info_def reload_info_def am1_def aofManifestCreate_def)
    from load_loop_line [OF this] show ?thesis using Some by (simp add: b_def info_text_def)
  qed
  have n: "0 < length b + length (history_aof_list am) + length (incr_aof_list am)" using l by (auto simp: b_def listed_def)
  have "aofLoadManifestFromFile (manifest_text am) = load_loop (info_text (history_aof_list am) @ info_text (incr_aof_list am) @ []) (length b) am1 0"
    unfolding aofLoadManifestFromFile_def manifest_text_def b_def [symmetric] using base by simp
  also have "\<dots> = load_loop (info_text (incr_aof_list am) @ []) (length b + length (history_aof_list am))
      (am1\<lparr>history_aof_list := history_aof_list am1 @ map reload_info (history_aof_list am)\<rparr>) 0"
    by (rule load_history) (use ok in \<open>simp add: manifest_ok_def\<close>)
  also have "\<dots> = Inr (reload am)"
    using ok n by (subst load_incr) (auto simp: manifest_ok_def load_end reload_def am1_def aofManifestCreate_def)
  finally show ?thesis .
qed

section \<open>Names of new files\<close>

definition filename_ok :: "bytes \<Rightarrow> bool" where
  "filename_ok fn \<longleftrightarrow> 0 \<notin> set fn \<and> pathIsBaseName fn \<and> length fn \<le> 190 \<and> (39 \<in> set fn \<longrightarrow> needsrepr_loop fn)"

lemma str_suffixes:
  "str ''.'' = [46]" "str ''.base'' = [46, 98, 97, 115, 101]" "str ''.incr'' = [46, 105, 110, 99, 114]" "str ''.rdb'' = [46, 114, 100, 98]"
  "str ''.aof'' = [46, 97, 111, 102]"
  by code_simp+

lemma needsrepr_append: "needsrepr_loop xs \<Longrightarrow> needsrepr_loop (xs @ ys)"
  by (induction xs) auto

lemma name_ok_new:
  assumes "filename_ok fn" "set sfx \<inter> {0, 39, 47, 92} = {}" "sfx \<noteq> []"
  shows "name_ok (fn @ sfx)"
  using assms needsrepr_append [of fn sfx] by (auto simp: name_ok_def filename_ok_def pathIsBaseName_def)

lemma dec_int_clean: "set (dec_int v) \<inter> {0, 39, 47, 92} = {}"
  by (auto simp: is_digit_uint word_le_def dest!: dec_int_chars)

lemma length_file_repr: "length (file_repr n) \<le> 4 * length n + 2"
  using length_repr [of n] by (simp add: file_repr_def)

lemma length_info_line:
  assumes "file_name ai = Some n" "length n \<le> 220" "in_sint 64 (file_seq ai)" "in_sint 64 (start_offset ai)" "in_sint 64 (end_offset ai)"
  shows "length (info_line ai) < MANIFEST_MAX_LINE"
proof -
  define raws where "raws = info_words (file_repr n) ai"
  have d: "length (dec_int (file_seq ai)) \<le> 20" "length (dec_int (start_offset ai)) \<le> 20" "length (dec_int (end_offset ai)) \<le> 20"
    using assms(3-5) length_dec_int by blast+
  have "length (info_line ai) \<le> sum_list (map (\<lambda>x. length x + 1) raws)"
    using join_bytes_bound [of "[32]" raws] by (simp add: info_line_def raws_def assms(1))
  also have "\<dots> \<le> 1010" using d length_file_repr [of n] assms(2) by (simp add: raws_def info_words_def str_keys)
  finally show ?thesis by (simp add: MANIFEST_MAX_LINE_def)
qed

lemma info_ok_new:
  assumes fn: "filename_ok fn" and n: "name = fn @ str ''.'' @ dec_int seq @ kind @ format"
    and k: "kind = str ''.base'' \<or> kind = str ''.incr''" "format = str ''.rdb'' \<or> format = str ''.aof''"
    and s: "0 < seq" "in_sint 64 seq" and t: "t = AOF_FILE_TYPE_BASE \<or> t = AOF_FILE_TYPE_INCR" and o: "in_sint 64 start"
  shows "info_ok \<lparr>file_name = Some name, file_seq = seq, file_type = t, start_offset = start, end_offset = - 1\<rparr>"
proof -
  have "set (str ''.'' @ dec_int seq @ kind @ format) \<inter> {0, 39, 47, 92} = {}"
    using dec_int_clean [of seq] k by (auto simp: str_suffixes)
  then have nok: "name_ok name" unfolding n by (intro name_ok_new fn) (simp_all add: str_suffixes)
  have "length kind = 5" "length format = 4" using k by (auto simp: str_suffixes)
  then have "length name \<le> 220" using fn length_dec_int [OF s(2)] by (simp add: n filename_ok_def str_suffixes)
  then show ?thesis using nok s t o length_info_line by (auto simp: info_ok_def in_sint_def)
qed

end
