(* ===== verification/Aof_Ops.thy ===== *)
theory Aof_Ops
  imports Aof_Inv
begin

text \<open>Every function that changes the manifest keeps it well-formed, and what it leaves on the disk can be loaded.\<close>

section \<open>Manifests with short names\<close>

definition infos :: "aofManifest \<Rightarrow> aofInfo list" where
  "infos am = (case base_aof_info am of None \<Rightarrow> [] | Some ai \<Rightarrow> [ai]) @ history_aof_list am @ incr_aof_list am"

definition short :: "aofInfo \<Rightarrow> bool" where
  "short ai \<longleftrightarrow> length (the (file_name ai)) \<le> 220"

definition am_ok :: "aofManifest \<Rightarrow> bool" where
  "am_ok am \<longleftrightarrow> manifest_ok am \<and> list_all short (infos am)"

lemma aofInfoDup_id [simp]: "aofInfoDup ai = ai"
  by (simp add: aofInfoDup_def aofInfoCreate_def)

lemma aofManifestDup_id [simp]: "aofManifestDup am = am"
proof -
  have "aofInfoDup = id" by auto
  then show ?thesis by (simp add: aofManifestDup_def option.map_id0)
qed

lemma info_ok_hist: "info_ok ai \<Longrightarrow> info_ok (ai\<lparr>file_type := AOF_FILE_TYPE_HIST\<rparr>)"
proof -
  have "length (join_bytes [32] (info_words x (ai\<lparr>file_type := AOF_FILE_TYPE_HIST\<rparr>))) = length (join_bytes [32] (info_words x ai))" for x
    by (simp add: info_words_def)
  then show "info_ok ai \<Longrightarrow> ?thesis" by (simp add: info_ok_def info_line_def)
qed

lemma info_ok_end: "info_ok ai \<Longrightarrow> short ai \<Longrightarrow> in_sint 64 v \<Longrightarrow> info_ok (ai\<lparr>end_offset := v\<rparr>)"
  using length_info_line [of "ai\<lparr>end_offset := v\<rparr>"] by (auto simp: info_ok_def short_def split: option.splits)

lemma reload_info_ok: "info_ok ai \<and> P (file_type ai) \<Longrightarrow> info_ok (reload_info ai) \<and> P (file_type (reload_info ai))"
proof -
  have "info_words x (reload_info ai) = info_words x ai" for x by (simp add: info_words_def reload_info_def)
  then show "info_ok ai \<and> P (file_type ai) \<Longrightarrow> ?thesis"
    by (auto simp: info_ok_def info_line_def reload_info_def in_sint_def)
qed

lemma reload_info_simps [simp]: "file_seq (reload_info ai) = file_seq ai" "file_type (reload_info ai) = file_type ai" "file_name (reload_info ai) = file_name ai"
  by (simp_all add: reload_info_def)

lemma last_seq_map [simp]: "last_seq d (map reload_info l) = last_seq d l"
  by (simp add: last_seq_def last_map)

lemma last_seq_range: "sorted_wrt (<) (0 # map file_seq l) \<Longrightarrow> 0 \<le> last_seq 0 l"
  by (cases l rule: rev_cases) (auto simp: last_seq_def)

lemma am_ok_reload:
  assumes "am_ok am"
  shows "am_ok (reload am)"
proof -
  have m: "manifest_ok am" using assms by (simp add: am_ok_def)
  have l: "list_all (\<lambda>ai. info_ok ai \<and> file_type ai = t) xs \<Longrightarrow> list_all (\<lambda>ai. info_ok ai \<and> file_type ai = t) (map reload_info xs)" for t xs
    using reload_info_ok [where P = "\<lambda>x. x = t"] by (auto simp: list_all_iff)
  have b: "case base_aof_info am of None \<Rightarrow> True | Some ai \<Rightarrow> info_ok (reload_info ai)"
    using m reload_info_ok [where P = "\<lambda>_. True"] by (auto simp: manifest_ok_def split: option.splits)
  have q: "last_seq (last_seq 0 (incr_aof_list am)) (incr_aof_list am) = last_seq 0 (incr_aof_list am)" by (simp add: last_seq_def)
  have r: "0 \<le> last_seq 0 (incr_aof_list am)" "in_sint 64 (last_seq 0 (incr_aof_list am))"
    using m last_seq_range by (auto simp: manifest_ok_def last_seq_def in_sint_def split: if_splits)
  have "manifest_ok (reload am)" using m l b q r by (auto simp: manifest_ok_def reload_def comp_def split: option.splits)
  moreover have "list_all short (infos (reload am))"
    using assms by (auto simp: am_ok_def infos_def reload_def short_def list_all_iff split: option.splits)
  ultimately show ?thesis by (simp add: am_ok_def)
qed

section \<open>Changes\<close>

lemma next_seq_ok: "n \<noteq> INT64_MAX \<Longrightarrow> 0 \<le> n \<Longrightarrow> in_sint 64 n \<Longrightarrow> next_seq n = Some (n + 1) \<and> in_sint 64 (n + 1)"
  by (auto simp: next_seq_def in_sint_def)

lemma newBase_ok:
  assumes ok: "am_ok am" and fn: "filename_ok (aof_filename srv)" and s: "curr_base_file_seq am \<noteq> INT64_MAX"
  obtains name am' where "getNewBaseFileNameAndMarkPreAsHistory srv am = Some (name, am')" "am_ok am'" "base_aof_info am' \<noteq> None" "dirty am'"
    "incr_aof_list am' = incr_aof_list am" "curr_incr_file_seq am' = curr_incr_file_seq am"
proof -
  have m: "manifest_ok am" using ok by (simp add: am_ok_def)
  define seq where "seq = curr_base_file_seq am + 1"
  have seq: "next_seq (curr_base_file_seq am) = Some seq" "in_sint 64 seq" "0 < seq"
    using next_seq_ok [OF s] m by (auto simp: manifest_ok_def seq_def)
  define fmt where "fmt = (if aof_use_rdb_preamble srv then str ''.rdb'' else str ''.aof'')"
  define name where "name = aof_filename srv @ str ''.'' @ dec_int seq @ str ''.base'' @ fmt"
  define ai where "ai = \<lparr>file_name = Some name, file_seq = seq, file_type = AOF_FILE_TYPE_BASE, start_offset = - 1, end_offset = - 1\<rparr>"
  have ai: "info_ok ai" unfolding ai_def
    by (rule info_ok_new [OF fn name_def]) (use seq in \<open>auto simp: fmt_def in_sint_def\<close>)
  have "length name \<le> 220" using fn length_dec_int [OF seq(2)] by (auto simp: name_def fmt_def filename_ok_def str_suffixes)
  then have sh: "short ai" by (simp add: short_def ai_def)
  define hist where "hist = (case base_aof_info am of None \<Rightarrow> history_aof_list am | Some b \<Rightarrow> b\<lparr>file_type := AOF_FILE_TYPE_HIST\<rparr> # history_aof_list am)"
  define am' where "am' = am\<lparr>base_aof_info := Some ai, history_aof_list := hist, curr_base_file_seq := seq, dirty := True\<rparr>"
  have get: "getNewBaseFileNameAndMarkPreAsHistory srv am = Some (name, am')"
    using m seq(1) by (auto simp: getNewBaseFileNameAndMarkPreAsHistory_def manifest_ok_def am'_def hist_def ai_def aofInfoCreate_def name_def fmt_def Let_def split: option.splits)
  have h: "list_all (\<lambda>ai. info_ok ai \<and> file_type ai = AOF_FILE_TYPE_HIST) hist"
    using m info_ok_hist by (auto simp: hist_def manifest_ok_def split: option.splits)
  have "list_all short hist" using ok by (auto simp: am_ok_def infos_def hist_def short_def split: option.splits)
  then have "am_ok am'" using ok m h ai sh seq by (auto simp: am_ok_def manifest_ok_def infos_def am'_def ai_def)
  then show thesis using that get by (simp add: am'_def)
qed

lemma sorted_snoc: "sorted_wrt (<) (0 # xs) \<Longrightarrow> (xs \<noteq> [] \<Longrightarrow> last xs < n) \<Longrightarrow> 0 < n \<Longrightarrow> sorted_wrt (<) (0 # xs @ [n :: int])"
  by (induction xs rule: rev_induct) (fastforce simp: sorted_wrt_append)+

lemma newIncr_ok:
  assumes ok: "am_ok am" and fn: "filename_ok (aof_filename srv)" and s: "curr_incr_file_seq am \<noteq> INT64_MAX" and o: "in_sint 64 start"
  obtains name am' where "getNewIncrAofName srv am start = Some (name, am')" "am_ok am'" "incr_aof_list am' \<noteq> []" "dirty am'"
    "base_aof_info am' = base_aof_info am" "file_name (last (incr_aof_list am')) = Some name"
proof -
  have m: "manifest_ok am" using ok by (simp add: am_ok_def)
  define seq where "seq = curr_incr_file_seq am + 1"
  have seq: "next_seq (curr_incr_file_seq am) = Some seq" "in_sint 64 seq" "0 < seq"
    using next_seq_ok [OF s] m by (auto simp: manifest_ok_def seq_def)
  define name where "name = aof_filename srv @ str ''.'' @ dec_int seq @ str ''.incr'' @ str ''.aof''"
  define ai where "ai = \<lparr>file_name = Some name, file_seq = seq, file_type = AOF_FILE_TYPE_INCR, start_offset = start, end_offset = - 1\<rparr>"
  have ai: "info_ok ai" unfolding ai_def by (rule info_ok_new [OF fn name_def]) (use seq o in auto)
  have "length name \<le> 220" using fn length_dec_int [OF seq(2)] by (auto simp: name_def filename_ok_def str_suffixes)
  then have sh: "short ai" by (simp add: short_def ai_def)
  define am' where "am' = am\<lparr>incr_aof_list := incr_aof_list am @ [ai], curr_incr_file_seq := seq, dirty := True\<rparr>"
  have get: "getNewIncrAofName srv am start = Some (name, am')"
    using seq(1) by (simp add: getNewIncrAofName_def am'_def ai_def aofInfoCreate_def name_def Let_def)
  have "map file_seq (incr_aof_list am) \<noteq> [] \<Longrightarrow> last (map file_seq (incr_aof_list am)) < seq"
    using m by (simp add: manifest_ok_def last_seq_def last_map seq_def split: if_splits)
  then have "sorted_wrt (<) (0 # map file_seq (incr_aof_list am) @ [seq])"
    by (intro sorted_snoc) (use m seq in \<open>auto simp: manifest_ok_def\<close>)
  then have "am_ok am'" using ok m ai sh seq
    by (auto simp: am_ok_def manifest_ok_def infos_def am'_def ai_def last_seq_def split: option.splits)
  then show thesis using that get by (simp add: am'_def ai_def)
qed


lemma newBase_some:
  assumes "getNewBaseFileNameAndMarkPreAsHistory srv am = Some (name, am')" "am_ok am" "filename_ok (aof_filename srv)"
  shows "am_ok am' \<and> base_aof_info am' \<noteq> None \<and> dirty am'"
proof -
  have "curr_base_file_seq am \<noteq> INT64_MAX"
    using assms(1) by (auto simp: getNewBaseFileNameAndMarkPreAsHistory_def next_seq_def bind_eq_Some_conv split: if_splits)
  from newBase_ok [OF assms(2,3) this] assms(1) show ?thesis by (metis Pair_inject option.inject)
qed

lemma newIncr_some:
  assumes "getNewIncrAofName srv am start = Some (name, am')" "am_ok am" "filename_ok (aof_filename srv)" "in_sint 64 start"
  shows "am_ok am' \<and> incr_aof_list am' \<noteq> [] \<and> dirty am' \<and> base_aof_info am' = base_aof_info am"
proof -
  have "curr_incr_file_seq am \<noteq> INT64_MAX"
    using assms(1) by (auto simp: getNewIncrAofName_def next_seq_def bind_eq_Some_conv split: if_splits)
  from newIncr_ok [OF assms(2,3) this assms(4)] assms(1) show ?thesis by (metis Pair_inject option.inject)
qed

lemma mark_loop_eq:
  "list_all (\<lambda>ai. file_type ai = AOF_FILE_TYPE_INCR) l \<Longrightarrow>
   mark_loop (rev l) hist = Some (map (\<lambda>ai. ai\<lparr>file_type := AOF_FILE_TYPE_HIST\<rparr>) l @ hist)"
  by (induction l arbitrary: hist rule: rev_induct) auto

text \<open>The files that become history keep their order; the file that is written to stays.\<close>

lemma markRewritten_ok:
  assumes ok: "am_ok am" and b: "base_aof_info am \<noteq> None"
  obtains am' where "markRewrittenIncrAofAsHistory srv am = Some am'" "am_ok am'" "base_aof_info am' = base_aof_info am" "dirty am \<longrightarrow> dirty am'"
proof (cases "incr_aof_list am = []")
  case True
  then show thesis using that [of am] ok by (simp add: markRewrittenIncrAofAsHistory_def)
next
  case False
  define keep where "keep = (if aof_fd srv \<noteq> None then [last (incr_aof_list am)] else [])"
  define todo where "todo = (if aof_fd srv \<noteq> None then butlast (incr_aof_list am) else incr_aof_list am)"
  have l: "incr_aof_list am = todo @ keep" using False by (simp add: keep_def todo_def)
  define am' where "am' = am\<lparr>incr_aof_list := keep, history_aof_list := map (\<lambda>ai. ai\<lparr>file_type := AOF_FILE_TYPE_HIST\<rparr>) todo @ history_aof_list am, dirty := True\<rparr>"
  have m: "manifest_ok am" using ok by (simp add: am_ok_def)
  have t: "list_all (\<lambda>ai. info_ok ai \<and> file_type ai = AOF_FILE_TYPE_INCR) todo" "list_all (\<lambda>ai. info_ok ai \<and> file_type ai = AOF_FILE_TYPE_INCR) keep"
    using m l by (auto simp: manifest_ok_def)
  have "mark_loop (rev todo) (history_aof_list am) = Some (map (\<lambda>ai. ai\<lparr>file_type := AOF_FILE_TYPE_HIST\<rparr>) todo @ history_aof_list am)"
    by (rule mark_loop_eq) (use t(1) in \<open>auto simp: list_all_iff\<close>)
  then have get: "markRewrittenIncrAofAsHistory srv am = Some am'"
    using False by (cases "aof_fd srv") (simp_all add: markRewrittenIncrAofAsHistory_def am'_def keep_def todo_def)
  have h: "list_all (\<lambda>ai. info_ok ai \<and> file_type ai = AOF_FILE_TYPE_HIST) (map (\<lambda>ai. ai\<lparr>file_type := AOF_FILE_TYPE_HIST\<rparr>) todo)"
    using t(1) info_ok_hist by (auto simp: list_all_iff)
  have "file_seq (last (incr_aof_list am)) = curr_incr_file_seq am" "sorted_wrt (<) (0 # map file_seq (todo @ keep))"
    using m False unfolding manifest_ok_def last_seq_def l [symmetric] by simp_all
  then have k: "last_seq (curr_incr_file_seq am) keep = curr_incr_file_seq am" "sorted_wrt (<) (0 # map file_seq keep)"
    by (simp_all add: last_seq_def keep_def sorted_wrt_append)
  have "manifest_ok am'" using m h t(2) k b by (auto simp: manifest_ok_def am'_def split: option.splits)
  moreover have "list_all short (infos am')" using ok l by (auto simp: am_ok_def infos_def am'_def short_def list_all_iff split: option.splits)
  ultimately show thesis using that [of am'] get by (simp add: am_ok_def am'_def)
qed

section \<open>The disk\<close>

definition disk_ok :: "bytes option \<Rightarrow> bool" where
  "disk_ok f \<longleftrightarrow> (case f of None \<Rightarrow> True | Some text \<Rightarrow> \<exists>am. am_ok am \<and> listed am \<and> text = manifest_text am)"

lemma am_ok_dirty [simp]: "am_ok (am\<lparr>dirty := b\<rparr>) = am_ok am"
  by (simp add: am_ok_def manifest_ok_def infos_def split: option.split)

lemma manifest_text_dirty [simp]: "manifest_text (am\<lparr>dirty := b\<rparr>) = manifest_text am"
  by (simp add: manifest_text_def)

lemma persist_ok:
  assumes "am_ok am" "listed am" "disk_ok (manifest_file srv)"
  obtains f am' ok where "persistAofManifest io srv am = Some (srv\<lparr>manifest_file := f\<rparr>, am', ok)" "am_ok am'" "disk_ok f"
    "am' = am\<lparr>dirty := dirty am'\<rparr>" "ok \<and> dirty am \<longrightarrow> f = Some (manifest_text am)"
proof (cases "dirty am")
  case False
  then have "persistAofManifest io srv am = Some (srv\<lparr>manifest_file := manifest_file srv\<rparr>, am, True)" by (simp add: persistAofManifest_def)
  then show thesis using that [of "manifest_file srv" am True] False assms by simp
next
  case True
  have t: "getAofManifestAsString am = Some (manifest_text am)" using assms(1) manifest_text_eq by (simp add: am_ok_def)
  have d: "disk_ok (Some (manifest_text am))" using assms by (auto simp: disk_ok_def)
  show thesis
  proof (cases io)
    case IoOk
    then show thesis using that [of "Some (manifest_text am)" "am\<lparr>dirty := False\<rparr>" True] True t d assms
      by (simp add: persistAofManifest_def writeAofManifestFile_def)
  next
    case IoFailed
    then show thesis using that [of "manifest_file srv" am False] True t assms by (simp add: persistAofManifest_def writeAofManifestFile_def)
  next
    case IoFailedAfterRename
    then show thesis using that [of "Some (manifest_text am)" am False] True t d assms
      by (simp add: persistAofManifest_def writeAofManifestFile_def)
  qed
qed

definition srv_ok :: "aofServer \<Rightarrow> bool" where
  "srv_ok srv \<longleftrightarrow> filename_ok (aof_filename srv) \<and> am_ok (aof_manifest srv) \<and> in_sint 64 (master_repl_offset srv) \<and>
     in_sint 64 (tempIncAofStartReplOffset srv) \<and> disk_ok (manifest_file srv)"

lemma delHistory_ok:
  assumes ok: "srv_ok srv"
  obtains srv' where "aofDelHistoryFiles io srv = Some srv'" "srv_ok srv'"
proof (cases "aof_disable_auto_gc srv \<or> history_aof_list (aof_manifest srv) = []")
  case True
  then show thesis using that ok by (simp add: aofDelHistoryFiles_def)
next
  case False
  define am where "am = aof_manifest srv"
  have aok: "am_ok am" using ok by (simp add: srv_ok_def am_def)
  have h: "list_all (\<lambda>ai. file_type ai = AOF_FILE_TYPE_HIST \<and> file_name ai \<noteq> None) (history_aof_list am)"
    using aok by (auto simp: am_ok_def manifest_ok_def info_ok_def list_all_iff split: option.splits)
  have b: "base_aof_info am \<noteq> None" using aok False by (auto simp: am_ok_def manifest_ok_def am_def split: option.splits)
  define am1 where "am1 = am\<lparr>history_aof_list := [], dirty := True\<rparr>"
  have aok1: "am_ok am1" using aok b by (auto simp: am_ok_def manifest_ok_def infos_def am1_def split: option.splits)
  have l: "listed am1" using b by (simp add: listed_def am1_def)
  define srv1 where "srv1 = srv\<lparr>unlinked := unlinked srv @ map (the \<circ> file_name) (history_aof_list am)\<rparr>"
  have d: "disk_ok (manifest_file srv1)" using ok by (simp add: srv_ok_def srv1_def)
  obtain f am' okk where p: "persistAofManifest io srv1 am1 = Some (srv1\<lparr>manifest_file := f\<rparr>, am', okk)" "am_ok am'" "disk_ok f"
    using persist_ok [OF aok1 l d] by metis
  have "aofDelHistoryFiles io srv = Some (srv1\<lparr>manifest_file := f, aof_manifest := am'\<rparr>)"
    using False h p(1) by (simp add: aofDelHistoryFiles_def Let_def am1_def srv1_def flip: am_def)
  moreover have "srv_ok (srv1\<lparr>manifest_file := f, aof_manifest := am'\<rparr>)" using ok p by (simp add: srv_ok_def srv1_def)
  ultimately show thesis using that by blast
qed

end
