(* ===== verification/Aof_Props.thy ===== *)
theory Aof_Props
  imports Aof_Ops
begin

text \<open>The transitions of the server on its append-only files, and what they do to the manifest in memory and on the disk.\<close>

section \<open>The functions keep the state well-formed\<close>

lemma srv_okD:
  assumes "srv_ok srv"
  shows "filename_ok (aof_filename srv)" "am_ok (aof_manifest srv)" "in_sint 64 (master_repl_offset srv)"
    "in_sint 64 (tempIncAofStartReplOffset srv)" "disk_ok (manifest_file srv)"
  using assms by (simp_all add: srv_ok_def)

lemma persist_some:
  assumes "persistAofManifest io srv am = Some (srv', am', ok)" "am_ok am" "listed am" "disk_ok (manifest_file srv)"
  shows "\<exists>f. srv' = srv\<lparr>manifest_file := f\<rparr> \<and> disk_ok f" "am_ok am'"
  using persist_ok [OF assms(2-4), of io] assms(1) by (metis Pair_inject option.inject)+

lemma openNewIncr_ok:
  assumes ok: "srv_ok srv" and r: "openNewIncrAofForAppend open_ok io srv = Some (srv', res)"
  shows "srv_ok srv'"
proof (cases "server_aof_state srv")
  case AOF_ON
  obtain name am where g: "getNewIncrAofName srv (aof_manifest srv) (master_repl_offset srv) = Some (name, am)"
    using r AOF_ON by (auto simp: openNewIncrAofForAppend_def bind_eq_Some_conv)
  note am = newIncr_some [OF g srv_okD(2) [OF ok] srv_okD(1) [OF ok] srv_okD(3) [OF ok]]
  show ?thesis
  proof (cases open_ok)
    case True
    then obtain s am' okk where p: "persistAofManifest io srv am = Some (s, am', okk)"
      "srv' = s\<lparr>aof_fd := Some name, aof_manifest := am'\<rparr> \<or> srv' = s"
      using r AOF_ON g by (auto simp: openNewIncrAofForAppend_def bind_eq_Some_conv split: if_splits)
    have "listed am" using am by (simp add: listed_def)
    note ps = persist_some [OF p(1) _ this srv_okD(5) [OF ok]]
    show ?thesis using ps am ok p(2) by (auto simp: srv_ok_def)
  next
    case False
    then show ?thesis using r AOF_ON g ok by (simp add: openNewIncrAofForAppend_def)
  qed
qed (use r ok in \<open>auto simp: openNewIncrAofForAppend_def srv_ok_def Let_def split: if_splits\<close>)

lemma rewriteBackground_ok:
  "srv_ok srv \<Longrightarrow> rewriteAppendOnlyFileBackground has_child dir_ok open_ok io fork_ok srv = Some (srv', res) \<Longrightarrow> srv_ok srv'"
  by (auto simp: rewriteAppendOnlyFileBackground_def bind_eq_Some_conv srv_ok_def split: if_splits
      dest!: openNewIncr_ok [unfolded srv_ok_def, rotated])

lemma startAppendOnly_ok:
  assumes ok: "srv_ok srv" and r: "startAppendOnly busy dir_ok open_ok io fork_ok srv = Some (srv', res)"
  shows "srv_ok srv'"
proof -
  define srv1 where "srv1 = srv\<lparr>server_aof_state := AOF_WAIT_REWRITE\<rparr>"
  have "srv_ok srv1" using ok by (simp add: srv1_def srv_ok_def)
  show ?thesis
  proof (cases busy)
    case True
    then show ?thesis using r ok by (auto simp: startAppendOnly_def srv_ok_def Let_def split: if_splits)
  next
    case False
    then obtain s okk where s: "rewriteAppendOnlyFileBackground False dir_ok open_ok io fork_ok srv1 = Some (s, okk)"
      "srv' = s \<or> srv' = s\<lparr>server_aof_state := AOF_OFF\<rparr>"
      using r by (auto simp: startAppendOnly_def Let_def srv1_def bind_eq_Some_conv split: if_splits)
    from rewriteBackground_ok [OF \<open>srv_ok srv1\<close> s(1)] s(2) show ?thesis by (auto simp: srv_ok_def)
  qed
qed

text \<open>A change of the end offset of the last incremental file.\<close>

lemma end_offset_ok:
  assumes ok: "am_ok am" and l: "incr_aof_list am \<noteq> []" and v: "in_sint 64 v"
  defines "am' \<equiv> am\<lparr>incr_aof_list := butlast (incr_aof_list am) @ [(last (incr_aof_list am))\<lparr>end_offset := v\<rparr>], dirty := True\<rparr>"
  shows "am_ok am'" "listed am'"
proof -
  define ai where "ai = last (incr_aof_list am)"
  have split: "incr_aof_list am = butlast (incr_aof_list am) @ [ai]" using l by (simp add: ai_def)
  have m: "manifest_ok am" using ok by (simp add: am_ok_def)
  have i: "info_ok ai" "file_type ai = AOF_FILE_TYPE_INCR" "short ai"
    using ok m l by (auto simp: am_ok_def manifest_ok_def infos_def list_all_iff ai_def)
  have e: "info_ok (ai\<lparr>end_offset := v\<rparr>)" using info_ok_end i v by blast
  have s: "map file_seq (butlast (incr_aof_list am) @ [ai\<lparr>end_offset := v\<rparr>]) = map file_seq (incr_aof_list am)"
    by (subst (2) split) simp
  have b: "list_all (\<lambda>ai. info_ok ai \<and> file_type ai = AOF_FILE_TYPE_INCR) (butlast (incr_aof_list am))"
    using m by (auto simp: manifest_ok_def list_all_iff dest: in_set_butlastD)
  have q: "last_seq d (butlast (incr_aof_list am) @ [ai\<lparr>end_offset := v\<rparr>]) = last_seq d (incr_aof_list am)" for d
    using l by (simp add: last_seq_def ai_def)
  have "manifest_ok am'" using m b e i s q
    by (simp add: manifest_ok_def am'_def flip: ai_def split: option.splits)
  moreover have "list_all short (infos am')" using ok i by (auto simp: am_ok_def infos_def am'_def short_def list_all_iff simp flip: ai_def dest: in_set_butlastD)
  ultimately show "am_ok am'" by (simp add: am_ok_def)
  show "listed am'" by (simp add: listed_def am'_def)
qed

lemma updateCurIncr_ok:
  assumes ok: "srv_ok srv" and r: "updateCurIncrAofEndOffset io srv = Some srv'"
  shows "srv_ok srv'"
proof (cases "server_aof_state srv \<noteq> AOF_ON \<or> incr_aof_list (aof_manifest srv) = []")
  case True
  then show ?thesis using r ok by (auto simp: updateCurIncrAofEndOffset_def)
next
  case False
  note e = end_offset_ok [OF srv_okD(2) [OF ok] _ srv_okD(3) [OF ok]]
  obtain s am' okk where p: "persistAofManifest io srv ((aof_manifest srv)\<lparr>incr_aof_list := butlast (incr_aof_list (aof_manifest srv)) @
      [(last (incr_aof_list (aof_manifest srv)))\<lparr>end_offset := master_repl_offset srv\<rparr>], dirty := True\<rparr>) = Some (s, am', okk)" "srv' = s\<lparr>aof_manifest := am'\<rparr>"
    using r False by (auto simp: updateCurIncrAofEndOffset_def Let_def bind_eq_Some_conv)
  from persist_some [OF p(1) e srv_okD(5) [OF ok]] False ok p(2) show ?thesis by (auto simp: srv_ok_def)
qed

lemma updateReplOffset_ok:
  assumes ok: "srv_ok srv" and r: "updateReplOffsetAndResetEndOffset io filesize srv = Some (Some srv')"
  shows "srv_ok srv'"
proof -
  define am where "am = aof_manifest srv"
  define ai where "ai = last (incr_aof_list am)"
  consider "server_aof_state srv \<noteq> AOF_ON \<or> incr_aof_list am = []" | "end_offset ai = - 1" "incr_aof_list am \<noteq> []"
    | "server_aof_state srv = AOF_ON" "incr_aof_list am \<noteq> []" "end_offset ai \<noteq> - 1" by blast
  then show ?thesis
  proof cases
    case 3
    have "am_ok am" using ok by (simp add: srv_ok_def am_def)
    note e = end_offset_ok [OF this 3(2), of "- 1", folded ai_def]
    have m: "in_sint 64 (end_offset ai)" using \<open>am_ok am\<close> 3(2) by (auto simp: am_ok_def manifest_ok_def info_ok_def list_all_iff ai_def)
    obtain s am' okk where p: "persistAofManifest io (srv\<lparr>master_repl_offset := end_offset ai\<rparr>) (am\<lparr>incr_aof_list := butlast (incr_aof_list am) @
        [ai\<lparr>end_offset := - 1\<rparr>], dirty := True\<rparr>) = Some (s, am', okk)" "srv' = s\<lparr>aof_manifest := am'\<rparr>"
      using r 3 by (auto simp: updateReplOffsetAndResetEndOffset_def Let_def bind_eq_Some_conv simp flip: am_def ai_def split: if_splits)
    have "disk_ok (manifest_file (srv\<lparr>master_repl_offset := end_offset ai\<rparr>))" using ok by (simp add: srv_ok_def)
    from persist_some [OF p(1) e(1) e(2) this] ok p(2) m show ?thesis by (auto simp: srv_ok_def in_sint_def)
  qed (use r ok in \<open>auto simp: updateReplOffsetAndResetEndOffset_def Let_def srv_ok_def am_def ai_def split: if_splits\<close>)
qed


lemma stopAppendOnly_ok: "srv_ok srv \<Longrightarrow> stopAppendOnly io srv = Some srv' \<Longrightarrow> srv_ok srv'"
  by (auto simp: stopAppendOnly_def bind_eq_Some_conv srv_ok_def split: if_splits dest!: updateCurIncr_ok [unfolded srv_ok_def, rotated])

lemma rewrite_failed_ok: "srv_ok srv \<Longrightarrow> srv_ok (rewrite_failed (srv\<lparr>unlinked := u\<rparr>))" "srv_ok srv \<Longrightarrow> srv_ok (rewrite_failed srv)"
  by (simp_all add: rewrite_failed_def srv_ok_def)

text \<open>The manifest that a rewrite ends with, and its base file.\<close>

lemma newBase_name:
  "getNewBaseFileNameAndMarkPreAsHistory srv am = Some (name, am') \<Longrightarrow> \<exists>ai. base_aof_info am' = Some ai \<and> file_name ai = Some name"
  by (auto simp: getNewBaseFileNameAndMarkPreAsHistory_def Let_def bind_eq_Some_conv)

lemma rewrite_manifest:
  assumes ok: "srv_ok srv" and s: "curr_base_file_seq (aof_manifest srv) \<noteq> INT64_MAX" "curr_incr_file_seq (aof_manifest srv) \<noteq> INT64_MAX"
  obtains base am1 incr am2 srv1 am3 ai where
    "getNewBaseFileNameAndMarkPreAsHistory srv (aof_manifest srv) = Some (base, am1)"
    "(if server_aof_state srv = AOF_WAIT_REWRITE then getNewIncrAofName srv am1 (tempIncAofStartReplOffset srv) else Some ([], am1)) = Some (incr, am2)"
    "srv1 = (if server_aof_state srv = AOF_WAIT_REWRITE \<and> aof_fd srv = Some (getTempIncrAofName srv) then srv\<lparr>aof_fd := Some incr\<rparr> else srv)"
    "markRewrittenIncrAofAsHistory srv1 am2 = Some am3" "srv_ok srv1" "am_ok am3" "dirty am3" "base_aof_info am3 = Some ai" "file_name ai = Some base"
proof -
  obtain base am1 where b: "getNewBaseFileNameAndMarkPreAsHistory srv (aof_manifest srv) = Some (base, am1)" "am_ok am1" "dirty am1"
    "curr_incr_file_seq am1 = curr_incr_file_seq (aof_manifest srv)"
    using newBase_ok [OF srv_okD(2,1) [OF ok] s(1)] by metis
  obtain ai where ai: "base_aof_info am1 = Some ai" "file_name ai = Some base" using newBase_name [OF b(1)] by blast
  define waiting where "waiting = (server_aof_state srv = AOF_WAIT_REWRITE)"
  have "\<exists>incr am2. (if waiting then getNewIncrAofName srv am1 (tempIncAofStartReplOffset srv) else Some ([], am1)) = Some (incr, am2) \<and>
      am_ok am2 \<and> base_aof_info am2 = Some ai \<and> dirty am2"
  proof (cases waiting)
    case True
    have "curr_incr_file_seq am1 \<noteq> INT64_MAX" using b(4) s(2) by simp
    from newIncr_ok [OF b(2) srv_okD(1) [OF ok] this srv_okD(4) [OF ok]] obtain incr am2 where
      "getNewIncrAofName srv am1 (tempIncAofStartReplOffset srv) = Some (incr, am2)" "am_ok am2" "dirty am2" "base_aof_info am2 = base_aof_info am1" by metis
    then show ?thesis using True ai(1) by auto
  qed (use b ai in auto)
  then obtain incr am2 where i: "(if waiting then getNewIncrAofName srv am1 (tempIncAofStartReplOffset srv) else Some ([], am1)) = Some (incr, am2)"
    "am_ok am2" "base_aof_info am2 = Some ai" "dirty am2" by blast
  define srv1 where "srv1 = (if waiting \<and> aof_fd srv = Some (getTempIncrAofName srv) then srv\<lparr>aof_fd := Some incr\<rparr> else srv)"
  have ok1: "srv_ok srv1" using ok by (simp add: srv1_def srv_ok_def)
  have "base_aof_info am2 \<noteq> None" using i(3) by simp
  from markRewritten_ok [OF i(2) this] obtain am3 where
    m: "markRewrittenIncrAofAsHistory srv1 am2 = Some am3" "am_ok am3" "base_aof_info am3 = base_aof_info am2" "dirty am3" using i(4) by metis
  show thesis using that [OF b(1) i(1) [unfolded waiting_def] srv1_def [unfolded waiting_def] m(1) ok1 m(2,4) _ ai(2)] m(3) i(3) by simp
qed

text \<open>The end of a rewrite returns, unless a sequence number is exhausted.\<close>

lemma rewrite_done_ok:
  assumes ok: "srv_ok srv" and s: "curr_base_file_seq (aof_manifest srv) \<noteq> INT64_MAX" "curr_incr_file_seq (aof_manifest srv) \<noteq> INT64_MAX"
  obtains srv' where "rewrite_done rename_base_ok rename_incr_ok io io_gc srv = Some srv'" "srv_ok srv'"
proof (rule rewrite_manifest [OF assms])
  fix base am1 incr am2 srv1 am3 ai
  define waiting where "waiting = (server_aof_state srv = AOF_WAIT_REWRITE)"
  assume b: "getNewBaseFileNameAndMarkPreAsHistory srv (aof_manifest srv) = Some (base, am1)"
    and "(if server_aof_state srv = AOF_WAIT_REWRITE then getNewIncrAofName srv am1 (tempIncAofStartReplOffset srv) else Some ([], am1)) = Some (incr, am2)"
    and "srv1 = (if server_aof_state srv = AOF_WAIT_REWRITE \<and> aof_fd srv = Some (getTempIncrAofName srv) then srv\<lparr>aof_fd := Some incr\<rparr> else srv)"
    and m: "markRewrittenIncrAofAsHistory srv1 am2 = Some am3" "srv_ok srv1" "am_ok am3" "dirty am3" "base_aof_info am3 = Some ai" "file_name ai = Some base"
  then have i: "(if waiting then getNewIncrAofName srv am1 (tempIncAofStartReplOffset srv) else Some ([], am1)) = Some (incr, am2)"
    and srv1_def: "srv1 = (if waiting \<and> aof_fd srv = Some (getTempIncrAofName srv) then srv\<lparr>aof_fd := Some incr\<rparr> else srv)"
    by (simp_all add: waiting_def)
  have "listed am3" using m(5) by (simp add: listed_def)
  then obtain f am4 okk where p: "persistAofManifest io srv1 am3 = Some (srv1\<lparr>manifest_file := f\<rparr>, am4, okk)" "am_ok am4" "disk_ok f"
    using persist_ok [OF m(3) _ srv_okD(5) [OF m(2)]] by metis
  define srv2 where "srv2 = srv1\<lparr>manifest_file := f\<rparr>"
  have ok2: "srv_ok srv2" "srv_ok (srv2\<lparr>aof_manifest := am4\<rparr>)" using m(2) p by (simp_all add: srv2_def srv_ok_def)
  obtain srv3 where g: "aofDelHistoryFiles io_gc (srv2\<lparr>aof_manifest := am4\<rparr>) = Some srv3" "srv_ok srv3" using delHistory_ok [OF ok2(2)] by metis
  note steps = b i m(1) p(1) g(1)
  consider "\<not> rename_base_ok" | "rename_base_ok" "waiting" "\<not> rename_incr_ok" | "rename_base_ok \<and> (waiting \<longrightarrow> rename_incr_ok)" by blast
  then show thesis
  proof cases
    case 1
    then have "rewrite_done rename_base_ok rename_incr_ok io io_gc srv = Some (rewrite_failed srv)" using b by (simp add: rewrite_done_def)
    then show thesis using that rewrite_failed_ok(2) [OF ok] by simp
  next
    case 2
    then have "rewrite_done rename_base_ok rename_incr_ok io io_gc srv = Some (rewrite_failed (srv\<lparr>unlinked := unlinked srv @ [base]\<rparr>))"
      using b i by (simp add: rewrite_done_def Let_def waiting_def)
    then show thesis using that rewrite_failed_ok(1) [OF ok] by simp
  next
    case 3
    then have "rewrite_done rename_base_ok rename_incr_ok io io_gc srv =
        (if \<not> okk then Some (rewrite_failed (srv2\<lparr>unlinked := unlinked srv2 @ [base] @ (if waiting then [incr] else [])\<rparr>))
         else Some (srv3\<lparr>aof_lastbgrewrite_ok := True, stat_aofrw_consecutive_failures := 0,
           server_aof_state := (if waiting then AOF_ON else server_aof_state srv3)\<rparr>))"
      using steps by (auto simp: rewrite_done_def Let_def simp flip: waiting_def srv1_def srv2_def)
    moreover have "srv_ok (srv3\<lparr>aof_lastbgrewrite_ok := True, stat_aofrw_consecutive_failures := 0, server_aof_state := x\<rparr>)" for x
      using g(2) by (simp add: srv_ok_def)
    ultimately show thesis using that rewrite_failed_ok(1) [OF ok2(1)] by (cases okk) auto
  qed
qed

lemma handler_ok:
  assumes ok: "srv_ok srv" and s: "curr_base_file_seq (aof_manifest srv) \<noteq> INT64_MAX" "curr_incr_file_seq (aof_manifest srv) \<noteq> INT64_MAX"
  obtains srv' where "backgroundRewriteDoneHandler exitcode bysignal rename_base_ok rename_incr_ok io io_gc srv = Some srv'" "srv_ok srv'"
proof -
  have c: "srv_ok s \<Longrightarrow> srv_ok (rewrite_cleanup s)" for s by (simp add: rewrite_cleanup_def srv_ok_def)
  obtain s' where "rewrite_done rename_base_ok rename_incr_ok io io_gc srv = Some s'" "srv_ok s'" using rewrite_done_ok [OF ok s] by metis
  then show thesis using that c ok rewrite_failed_ok(2) [OF ok]
    by (cases "bysignal = 0"; cases "exitcode = 0"; cases "bysignal = 10") (auto simp: backgroundRewriteDoneHandler_def)
qed

section \<open>Restarting\<close>

lemma load_disk_ok:
  assumes ok: "srv_ok srv"
  obtains srv' where "aofLoadManifestFromDisk srv = Some srv'" "srv_ok srv'" "srv' = srv\<lparr>aof_manifest := aof_manifest srv'\<rparr>"
proof (cases "manifest_file srv")
  case None
  have "am_ok aofManifestCreate"
    by (simp add: am_ok_def manifest_ok_def aofManifestCreate_def infos_def last_seq_def in_sint_def)
  then show thesis using that [of "srv\<lparr>aof_manifest := aofManifestCreate\<rparr>"] None ok by (simp add: aofLoadManifestFromDisk_def srv_ok_def)
next
  case (Some contents)
  then obtain am where am: "am_ok am" "listed am" "contents = manifest_text am" using ok by (auto simp: srv_ok_def disk_ok_def)
  then have "aofLoadManifestFromFile contents = Inr (reload am)" using load_manifest_text by (simp add: am_ok_def)
  then show thesis using that [of "srv\<lparr>aof_manifest := reload am\<rparr>"] Some ok am_ok_reload [OF am(1)]
    by (simp add: aofLoadManifestFromDisk_def srv_ok_def)
qed

lemma open_start_ok:
  assumes ok: "srv_ok srv" and r: "aofOpenIfNeededOnServerStart dir_ok rewrite_ok open_ok io srv = Some (Some srv')"
  shows "srv_ok srv'"
proof (cases "server_aof_state srv = AOF_ON")
  case False
  then show ?thesis using r ok by (simp add: aofOpenIfNeededOnServerStart_def)
next
  case True
  define am0 where "am0 = aof_manifest srv"
  define create where "create = (base_aof_info am0 = None \<and> incr_aof_list am0 = [])"
  define X where "X = (if create then map_option snd (getNewBaseFileNameAndMarkPreAsHistory srv am0) else Some am0)"
  have "X \<bind> (\<lambda>am1. if create \<and> \<not> rewrite_ok then Some None else getLastIncrAofName srv am1 \<bind> (\<lambda>(name, am2).
      if \<not> open_ok then Some None else persistAofManifest io (srv\<lparr>aof_fd := Some name\<rparr>) am2 \<bind> (\<lambda>(srv', am3, ok).
        if ok then Some (Some (srv'\<lparr>aof_manifest := am3\<rparr>)) else Some None))) = Some (Some srv')"
    using r True unfolding aofOpenIfNeededOnServerStart_def Let_def am0_def [symmetric] create_def [symmetric] X_def [symmetric] by (simp split: if_splits)
  then obtain am1 where a1: "X = Some am1" and r1: "getLastIncrAofName srv am1 \<bind> (\<lambda>(name, am2).
      if \<not> open_ok then Some None else persistAofManifest io (srv\<lparr>aof_fd := Some name\<rparr>) am2 \<bind> (\<lambda>(srv', am3, ok).
        if ok then Some (Some (srv'\<lparr>aof_manifest := am3\<rparr>)) else Some None)) = Some (Some srv')"
    by (cases X) (auto split: if_splits)
  have ok1: "am_ok am1"
  proof (cases create)
    case True
    then obtain n where "getNewBaseFileNameAndMarkPreAsHistory srv am0 = Some (n, am1)" using a1 by (auto simp: X_def)
    from newBase_some [OF this _ srv_okD(1) [OF ok]] srv_okD(2) [OF ok] show ?thesis by (simp add: am0_def)
  qed (use a1 srv_okD(2) [OF ok] in \<open>simp add: X_def am0_def\<close>)
  from r1 obtain name am2 s am3 where l: "getLastIncrAofName srv am1 = Some (name, am2)"
    and p: "persistAofManifest io (srv\<lparr>aof_fd := Some name\<rparr>) am2 = Some (s, am3, True)" "srv' = s\<lparr>aof_manifest := am3\<rparr>"
    by (auto simp: bind_eq_Some_conv split: if_splits)
  have ok2: "am_ok am2 \<and> listed am2"
  proof (cases "incr_aof_list am1 = []")
    case True
    then have "getNewIncrAofName srv am1 (master_repl_offset srv) = Some (name, am2)" using l by (simp add: getLastIncrAofName_def)
    from newIncr_some [OF this ok1 srv_okD(1) [OF ok] srv_okD(3) [OF ok]] show ?thesis by (simp add: listed_def)
  next
    case False
    then have "am2 = am1" using l by (auto simp: getLastIncrAofName_def)
    then show ?thesis using ok1 False by (simp add: listed_def)
  qed
  have "disk_ok (manifest_file (srv\<lparr>aof_fd := Some name\<rparr>))" using ok by (simp add: srv_ok_def)
  from persist_some [OF p(1) _ _ this] ok2 ok p(2) show ?thesis by (auto simp: srv_ok_def)
qed

end
