(* ===== verification/Aof_Server.thy ===== *)
theory Aof_Server
  imports Aof_Props
begin

text \<open>What the server can rely on when it starts from its manifest.\<close>

section \<open>Round trip\<close>

text \<open>
  (C10) A manifest that is written is read back. For every well-formed manifest that lists a base file or an incremental file, the text that
  \<^verbatim>\<open>getAofManifestAsString\<close> makes is loaded by \<^verbatim>\<open>aofLoadManifestFromFile\<close> without an error, whatever characters the file names need to have quoted, and gives the
  same files in the same order with the same numbers and offsets. What is not kept is the number of the last incremental file if none
  is listed, and an end offset without a start offset.
\<close>

theorem aof_manifest_roundtrip:
  assumes "manifest_ok am" and "listed am"
  shows "map_option aofLoadManifestFromFile (getAofManifestAsString am) = Some (Inr (reload am))"
  using manifest_text_eq [OF assms(1)] load_manifest_text [OF assms] by simp

theorem aof_manifest_roundtrip_witness:
  "map_option aofLoadManifestFromFile (getAofManifestAsString
      \<lparr>base_aof_info = Some \<lparr>file_name = Some (str ''a b.1.base.rdb''), file_seq = 1, file_type = AOF_FILE_TYPE_BASE, start_offset = - 1, end_offset = - 1\<rparr>,
       incr_aof_list = [], history_aof_list = [], curr_base_file_seq = 1, curr_incr_file_seq = 3, dirty = True\<rparr>) =
    Some (Inr
      \<lparr>base_aof_info = Some \<lparr>file_name = Some (str ''a b.1.base.rdb''), file_seq = 1, file_type = AOF_FILE_TYPE_BASE, start_offset = - 1, end_offset = - 1\<rparr>,
       incr_aof_list = [], history_aof_list = [], curr_base_file_seq = 1, curr_incr_file_seq = 0, dirty = False\<rparr>)"
  (is "map_option _ (getAofManifestAsString ?am) = _")
proof -
  have "manifest_ok ?am" "listed ?am" by code_simp+
  from aof_manifest_roundtrip [OF this] show ?thesis by (simp add: reload_def reload_info_def last_seq_def)
qed

section \<open>Reachable states\<close>

definition aof_init :: "bytes \<Rightarrow> bool \<Rightarrow> aofServer" where
  "aof_init fn rdb = \<lparr>aof_filename = fn, aof_use_rdb_preamble = rdb, aof_disable_auto_gc = False, server_aof_state = AOF_OFF, aof_fd = None,
     master_repl_offset = 0, tempIncAofStartReplOffset = 0, aof_manifest = aofManifestCreate, manifest_file = None, unlinked = [],
     aof_lastbgrewrite_ok = True, stat_aofrw_consecutive_failures = 0, aof_rewrite_scheduled = False\<rparr>"

text \<open>
  Writes advance the replication offset; a rewrite may begin and end in any way; the configuration may change; and the process may end at any time
  and start again from the disk. Sequence numbers below the largest number of their type can be increased.
\<close>

inductive aof_step :: "aofServer \<Rightarrow> aofServer \<Rightarrow> bool" where
  writes: "in_sint 64 v \<Longrightarrow> aof_step srv (srv\<lparr>master_repl_offset := v\<rparr>)"
| auto_gc: "aof_step srv (srv\<lparr>aof_disable_auto_gc := b\<rparr>)"
| gc: "aofDelHistoryFiles io srv = Some srv' \<Longrightarrow> aof_step srv srv'"
| rewrite: "rewriteAppendOnlyFileBackground has_child dir_ok open_ok io fork_ok srv = Some (srv', res) \<Longrightarrow> aof_step srv srv'"
| rewritten: "curr_base_file_seq (aof_manifest srv) \<noteq> INT64_MAX \<Longrightarrow> curr_incr_file_seq (aof_manifest srv) \<noteq> INT64_MAX \<Longrightarrow>
    backgroundRewriteDoneHandler exitcode bysignal rename_base_ok rename_incr_ok io io_gc srv = Some srv' \<Longrightarrow> aof_step srv srv'"
| appendonly_yes: "startAppendOnly busy dir_ok open_ok io fork_ok srv = Some (srv', res) \<Longrightarrow> aof_step srv srv'"
| appendonly_no: "stopAppendOnly io srv = Some srv' \<Longrightarrow> aof_step srv srv'"
| restart: "st \<noteq> AOF_WAIT_REWRITE \<Longrightarrow>
    aof_startup dir_ok rewrite_ok open_ok io_offset io_open io_gc filesize
      (srv\<lparr>aof_fd := None, server_aof_state := st, aof_disable_auto_gc := b, master_repl_offset := 0\<rparr>) = Some (Some srv') \<Longrightarrow> aof_step srv srv'"

inductive aof_reachable :: "bytes \<Rightarrow> aofServer \<Rightarrow> bool" for fn where
  init: "aof_reachable fn (aof_init fn rdb)"
| step: "aof_reachable fn srv \<Longrightarrow> aof_step srv srv' \<Longrightarrow> aof_reachable fn srv'"

lemma aof_init_ok: "filename_ok fn \<Longrightarrow> srv_ok (aof_init fn rdb)"
  by (simp add: srv_ok_def aof_init_def am_ok_def manifest_ok_def aofManifestCreate_def infos_def last_seq_def in_sint_def disk_ok_def)

lemma startup_ok:
  assumes ok: "srv_ok srv" and r: "aof_startup dir_ok rewrite_ok open_ok io_offset io_open io_gc filesize srv = Some (Some srv')"
  shows "srv_ok srv'"
proof -
  obtain srv1 where s1: "aofLoadManifestFromDisk srv = Some srv1" "srv_ok srv1" using load_disk_ok [OF ok] by metis
  obtain srv2 where s2: "updateReplOffsetAndResetEndOffset io_offset filesize srv1 = Some (Some srv2)"
    using r s1(1) by (auto simp: aof_startup_def bind_eq_Some_conv split: option.splits)
  have ok2: "srv_ok srv2" using updateReplOffset_ok [OF s1(2) s2] .
  obtain srv3 where s3: "aofOpenIfNeededOnServerStart dir_ok rewrite_ok open_ok io_open srv2 = Some (Some srv3)" "aofDelHistoryFiles io_gc srv3 = Some srv'"
    using r s1(1) s2 by (auto simp: aof_startup_def bind_eq_Some_conv split: option.splits)
  have "srv_ok srv3" using open_start_ok [OF ok2 s3(1)] .
  then show ?thesis using delHistory_ok s3(2) by (metis option.inject)
qed

lemma aof_step_ok: "aof_step srv srv' \<Longrightarrow> srv_ok srv \<Longrightarrow> srv_ok srv'"
proof (induction rule: aof_step.induct)
  case (gc io srv srv')
  then show ?case using delHistory_ok by (metis option.inject)
next
  case (rewritten srv exitcode bysignal rename_base_ok rename_incr_ok io io_gc srv')
  then show ?case using handler_ok by (metis option.inject)
next
  case (restart st dir_ok rewrite_ok open_ok io_offset io_open io_gc filesize b srv srv')
  have "srv_ok (srv\<lparr>aof_fd := None, server_aof_state := st, aof_disable_auto_gc := b, master_repl_offset := 0\<rparr>)"
    using restart(3) by (simp add: srv_ok_def in_sint_def)
  from startup_ok [OF this restart(2)] show ?case .
next
  case (writes v srv)
  then show ?case by (simp add: srv_ok_def)
next
  case (auto_gc srv b)
  then show ?case by (simp add: srv_ok_def)
next
  case (rewrite has_child dir_ok open_ok io fork_ok srv srv' res)
  show ?case by (rule rewriteBackground_ok [OF rewrite(2,1)])
next
  case (appendonly_yes busy dir_ok open_ok io fork_ok srv srv' res)
  show ?case by (rule startAppendOnly_ok [OF appendonly_yes(2,1)])
next
  case (appendonly_no io srv srv')
  show ?case by (rule stopAppendOnly_ok [OF appendonly_no(2,1)])
qed

lemma aof_reachable_ok: "aof_reachable fn srv \<Longrightarrow> filename_ok fn \<Longrightarrow> srv_ok srv"
  by (induction rule: aof_reachable.induct) (auto intro: aof_init_ok aof_step_ok)

text \<open>
  (C9) The loader accepts the manifest on the disk. If the name of the files is one that the manifest can hold, then whatever rewrites, failures to write, changes of the configuration, and crashes between
  them have happened since the first start, loading the manifest at the next start is not a fatal error and gives a well-formed manifest;
  the manifest in memory is well-formed too, and the end of a rewrite fails no assertion unless a sequence number is exhausted. Whether the files that the manifest lists are there is not part of it,
  and the move of a single file of an old version is not among the steps.
\<close>

theorem aof_manifest_always_loads:
  assumes "filename_ok fn" and "aof_reachable fn srv"
  shows "(\<exists>srv1. aofLoadManifestFromDisk srv = Some srv1 \<and> manifest_ok (aof_manifest srv1)) \<and> manifest_ok (aof_manifest srv) \<and>
    (curr_base_file_seq (aof_manifest srv) \<noteq> INT64_MAX \<and> curr_incr_file_seq (aof_manifest srv) \<noteq> INT64_MAX \<longrightarrow>
      backgroundRewriteDoneHandler exitcode bysignal rename_base_ok rename_incr_ok io io_gc srv \<noteq> None)"
proof -
  have ok: "srv_ok srv" using aof_reachable_ok assms by blast
  obtain s where "aofLoadManifestFromDisk srv = Some s" "srv_ok s" using load_disk_ok [OF ok] by metis
  then show ?thesis using handler_ok [OF ok] srv_okD(2) [OF ok] srv_okD(2) [of s] by (auto simp: am_ok_def) (metis option.distinct(1))
qed

text \<open>The state behind the first start, which has written a manifest.\<close>

definition srv_example :: aofServer where
  "srv_example = the (the (aof_startup True True True IoOk IoOk IoOk 0 ((aof_init (str ''appendonly.aof'') True)\<lparr>server_aof_state := AOF_ON\<rparr>)))"

lemma srv_example_reachable: "aof_reachable (str ''appendonly.aof'') srv_example"
proof -
  define i where "i = aof_init (str ''appendonly.aof'') True"
  have "(case aof_startup True True True IoOk IoOk IoOk 0 (i\<lparr>server_aof_state := AOF_ON\<rparr>) of Some (Some s) \<Rightarrow> True | _ \<Rightarrow> False)"
    unfolding i_def by code_simp
  then obtain s where s: "aof_startup True True True IoOk IoOk IoOk 0 (i\<lparr>server_aof_state := AOF_ON\<rparr>) = Some (Some s)" by (auto split: option.splits)
  have "aof_step i s"
    by (rule aof_step.restart [where st = AOF_ON and b = False]) (use s in \<open>simp_all add: i_def aof_init_def\<close>)
  moreover have "srv_example = s" using s by (simp add: srv_example_def i_def)
  ultimately show ?thesis using aof_reachable.init aof_reachable.step unfolding i_def by blast
qed

theorem aof_manifest_always_loads_witness:
  "manifest_file srv_example \<noteq> None \<and> (\<exists>srv1. aofLoadManifestFromDisk srv_example = Some srv1 \<and> manifest_ok (aof_manifest srv1)) \<and>
    backgroundRewriteDoneHandler 0 0 True True IoOk IoOk srv_example \<noteq> None"
proof -
  have "filename_ok (str ''appendonly.aof'')" by code_simp
  note t = aof_manifest_always_loads [OF this srv_example_reachable]
  have "manifest_file srv_example \<noteq> None \<and> curr_base_file_seq (aof_manifest srv_example) = 1 \<and> curr_incr_file_seq (aof_manifest srv_example) = 1"
    by code_simp
  then show ?thesis using t by auto
qed

end
