(* ===== verification/Aof_Quote.thy ===== *)
theory Aof_Quote
  imports Aof_Server
begin

text \<open>
  A single quote in the name of the files: the writer does not see a reason to quote the name, the parser takes it for the
  beginning of a quoted part.
\<close>

lemma token_insq_unterminated: "39 \<notin> set u \<Longrightarrow> token_spec InSQ cur u = None"
proof (induction u arbitrary: cur)
  case Nil
  show ?case by (simp add: token_spec.simps)
next
  case (Cons c u)
  then have "\<not> (c = 92 \<and> u \<noteq> [] \<and> hd u = 39)" "c \<noteq> 39" by (cases u; auto)+
  then show ?case using Cons by (subst token_spec.simps) auto
qed

lemma token_insq_closed: "39 \<notin> set q \<Longrightarrow> 92 \<notin> set q \<Longrightarrow> \<not> isspace c \<Longrightarrow> token_spec InSQ cur (q @ 39 # c # r) = None"
proof (induction q arbitrary: cur)
  case Nil
  then show ?case by (simp add: token_spec.simps closing_def)
next
  case (Cons x q)
  then show ?case by (subst token_spec.simps) auto
qed

lemma token_noq_prefix:
  "\<forall>c \<in> set p. \<not> isspace c \<and> c \<noteq> 34 \<and> c \<noteq> 39 \<Longrightarrow> token_spec NoQuotes cur (p @ 39 # u) = token_spec InSQ (cur @ p) u"
proof (induction p arbitrary: cur)
  case Nil
  show ?case by (simp add: token_spec.simps [of NoQuotes])
next
  case (Cons c p)
  then have "c \<noteq> 32" "c \<noteq> 10" "c \<noteq> 13" "c \<noteq> 9" "c \<noteq> 34" "c \<noteq> 39" by (auto simp: isspace_def)
  then show ?case using Cons by (subst token_spec.simps) simp
qed

text \<open>The name of a file ends in a suffix, so that a second quote is followed by another character.\<close>

lemma token_quote_fails:
  assumes q: "39 \<in> set n" and nr: "\<not> needsrepr_loop n" and l: "last n \<noteq> 39" and r: "39 \<notin> set rest"
  shows "token_spec NoQuotes [] (n @ rest) = None"
proof -
  have chars: "\<forall>c \<in> set n. \<not> isspace c \<and> c \<noteq> 34 \<and> c \<noteq> 92" using nr by (auto simp: needsrepr_iff)
  obtain p u where n: "n = p @ 39 # u" "39 \<notin> set p" using split_list_first [OF q] by blast
  have "token_spec NoQuotes [] (p @ 39 # u @ rest) = token_spec InSQ p (u @ rest)"
    using token_noq_prefix [of p "[]" "u @ rest"] chars n by auto
  also have "\<dots> = None"
  proof (cases "39 \<in> set u")
    case False
    then show ?thesis using r by (intro token_insq_unterminated) simp
  next
    case True
    then obtain q v where u: "u = q @ 39 # v" "39 \<notin> set q" using split_list_first by metis
    have "v \<noteq> []" using l n(1) u(1) by auto
    then obtain c v' where v: "v = c # v'" by (cases v) auto
    show ?thesis using token_insq_closed [of q c p "v' @ rest"] u v n chars by auto
  qed
  finally show ?thesis using n(1) by simp
qed

lemma args_quote_fails:
  assumes "39 \<in> set n" and "\<not> needsrepr_loop n" and "last n \<noteq> 39" and "39 \<notin> set rest"
  shows "args_spec (str ''file'' @ 32 # n @ 32 # rest) = None"
proof -
  have n: "n \<noteq> []" "\<not> isspace (hd n)" using assms(1,2) by (cases n; auto simp: needsrepr_iff)+
  then have d: "dropWhile isspace (n @ 32 # rest) = n @ 32 # rest" by (cases n) auto
  have "args_spec (n @ 32 # rest) = None"
    using token_quote_fails [OF assms(1-3), of "32 # rest"] assms(4) n(1) d by (subst args_spec.simps) simp
  moreover have "written (str ''file'') (str ''file'')" by (simp add: written_def plain_def str_keys isspace_def)
  ultimately show ?thesis using args_spec_written [of "str ''file''" "str ''file''" "32 # n @ 32 # rest" "n @ 32 # rest"] by (simp add: args_spec_space)
qed

lemma clean_chars: "\<not> needsrepr_loop n \<Longrightarrow> c \<in> set n \<Longrightarrow> c \<noteq> 0 \<and> c \<noteq> 10"
proof -
  have "\<not> isprint 0" by (simp add: isprint_def)
  then show "\<not> needsrepr_loop n \<Longrightarrow> c \<in> set n \<Longrightarrow> ?thesis" unfolding needsrepr_iff by blast
qed

lemma needsrepr_append_iff: "needsrepr_loop (xs @ ys) \<longleftrightarrow> needsrepr_loop xs \<or> needsrepr_loop ys"
  by (induction xs) auto

lemma plain_avoids: "plain w \<Longrightarrow> 39 \<notin> set w \<and> 0 \<notin> set w \<and> 10 \<notin> set w"
proof -
  have "isspace 10" by (simp add: isspace_def)
  then show "plain w \<Longrightarrow> ?thesis" unfolding plain_def by blast
qed

lemma load_quote_fails:
  assumes n: "39 \<in> set n" "\<not> needsrepr_loop n" "last n \<noteq> 39" "length n \<le> 220" "file_name ai = Some n"
    and ai: "file_type ai = AOF_FILE_TYPE_BASE" "start_offset ai = - 1" "in_sint 64 (file_seq ai)" "in_sint 64 (end_offset ai)"
  shows "aofLoadManifestFromFile (info_line ai @ 10 # rest) = Inl InvalidFormat"
proof -
  have fr: "file_repr n = n" using n(2) by (simp add: file_repr_def)
  have chars: "\<forall>c \<in> set n. c \<noteq> 0 \<and> c \<noteq> 10" using clean_chars [OF n(2)] by blast
  define tail where "tail = str ''seq'' @ 32 # dec_int (file_seq ai) @ 32 # str ''type'' @ 32 # [AOF_FILE_TYPE_BASE]"
  have line: "info_line ai = str ''file'' @ 32 # n @ 32 # tail" using n(5) ai by (simp add: info_line_def info_words_def fr tail_def)
  have t: "39 \<notin> set tail" "0 \<notin> set tail" "10 \<notin> set tail"
    using plain_avoids [OF plain_dec_int [of "file_seq ai"]] by (simp_all add: tail_def str_keys)
  have z: "0 \<notin> set (info_line ai)" "10 \<notin> set (info_line ai)" using t chars by (auto simp: line str_keys)
  have ends: "info_line ai \<noteq> []" "hd (info_line ai) = 102" "last (info_line ai) = 98" by (simp_all add: line str_keys tail_def)
  have len: "length (info_line ai) < MANIFEST_MAX_LINE" by (rule length_info_line [OF n(5,4)]) (use ai in \<open>simp_all add: in_sint_def\<close>)
  have f: "fgets MANIFEST_MAX_LINE (info_line ai @ 10 # rest) = Some (info_line ai @ [10], rest)" by (rule fgets_line [OF z(2) len])
  have c: "c_str (info_line ai @ [10]) = info_line ai @ [10]" "c_str (info_line ai) = info_line ai" using z(1) by (simp_all add: c_str_id)
  have tr: "trim_spec [32, 9, 13, 10] (info_line ai @ [10]) = info_line ai"
    by (rule trim_spec_line) (use ends in \<open>simp_all add: strchr_def\<close>)
  have "load_line am m (info_line ai @ [10]) = Inl InvalidFormat" for am m
    using c tr ends(1) args_quote_fails [OF n(1-3) t(1)] by (simp add: load_line_def flip: line)
  then show ?thesis using f ends by (simp add: aofLoadManifestFromFile_def load_loop.simps [of "info_line ai @ 10 # rest"])
qed

text \<open>
  (C38) A file name with a single quote makes the next start fail. \<^verbatim>\<open>appendfilename\<close> may be any valid name with a single quote and otherwise only printable
  characters that need no escape: the first start with an empty disk succeeds and writes a manifest, and loading that manifest at the next
  start is the fatal error of an invalid format.
\<close>

theorem aof_single_quote_fails:
  assumes "isValidAOFfilename fn" and "39 \<in> set fn" and "\<not> needsrepr_loop fn" and "length fn \<le> 190"
  shows "\<exists>srv'. aof_startup True True True IoOk IoOk IoOk 0 ((aof_init fn rdb)\<lparr>server_aof_state := AOF_ON\<rparr>) = Some (Some srv') \<and>
    aofLoadManifestFromDisk srv' = None"
proof -
  define fmt where "fmt = (if rdb then str ''.rdb'' else str ''.aof'')"
  define bn where "bn = fn @ str ''.'' @ dec_int 1 @ str ''.base'' @ fmt"
  define ic where "ic = fn @ str ''.'' @ dec_int 1 @ str ''.incr'' @ str ''.aof''"
  define b where "b = aofInfoCreate\<lparr>file_name := Some bn, file_seq := 1, file_type := AOF_FILE_TYPE_BASE\<rparr>"
  define i where "i = aofInfoCreate\<lparr>file_type := AOF_FILE_TYPE_INCR, file_name := Some ic, file_seq := 1, start_offset := 0\<rparr>"
  have d1: "dec_int 1 = [49]" by code_simp
  have sfx: "\<not> needsrepr_loop (str ''.'')" "\<not> needsrepr_loop (dec_int 1)" "\<not> needsrepr_loop (str ''.base'')" "\<not> needsrepr_loop (str ''.incr'')"
    "\<not> needsrepr_loop (str ''.rdb'')" "\<not> needsrepr_loop (str ''.aof'')" by code_simp+
  have nr: "\<not> needsrepr_loop bn" "\<not> needsrepr_loop ic"
    using assms(3) sfx by (simp_all add: needsrepr_append_iff bn_def ic_def fmt_def)
  have z: "0 \<notin> set (file_repr bn)" "0 \<notin> set (file_repr ic)" using nr clean_chars by (auto simp: file_repr_def)
  have t: "aofInfoFormat buf b = Some (buf @ info_line b @ [10])" "aofInfoFormat buf i = Some (buf @ info_line i @ [10])" for buf
    by (rule aofInfoFormat_line [OF _ z(1)], simp add: b_def) (rule aofInfoFormat_line [OF _ z(2)], simp add: i_def)
  have "last bn \<noteq> 39" "39 \<in> set bn" "length bn \<le> 220" using assms(2,4) by (auto simp: bn_def fmt_def str_suffixes d1)
  then have fails: "aofLoadManifestFromFile (info_line b @ 10 # info_line i @ [10]) = Inl InvalidFormat"
    by (intro load_quote_fails [of bn]) (use nr in \<open>simp_all add: b_def aofInfoCreate_def in_sint_def\<close>)
  have seq: "next_seq 0 = Some 1" by (simp add: next_seq_def)
  define am where "am = aofManifestCreate\<lparr>base_aof_info := Some b, incr_aof_list := [i], curr_base_file_seq := 1, curr_incr_file_seq := 1\<rparr>"
  define srv' where "srv' = (aof_init fn rdb)\<lparr>server_aof_state := AOF_ON, aof_fd := Some ic, manifest_file := Some (info_line b @ 10 # info_line i @ [10]), aof_manifest := am\<rparr>"
  have "aof_startup True True True IoOk IoOk IoOk 0 ((aof_init fn rdb)\<lparr>server_aof_state := AOF_ON\<rparr>) = Some (Some srv')"
    using seq t by (simp add: aof_startup_def aofLoadManifestFromDisk_def updateReplOffsetAndResetEndOffset_def aofOpenIfNeededOnServerStart_def
      aof_init_def aofManifestCreate_def getNewBaseFileNameAndMarkPreAsHistory_def getLastIncrAofName_def getNewIncrAofName_def Let_def
      persistAofManifest_def getAofManifestAsString_def writeAofManifestFile_def aofDelHistoryFiles_def srv'_def am_def
      flip: fmt_def bn_def ic_def b_def i_def)
  then show ?thesis using fails by (auto simp: aofLoadManifestFromDisk_def srv'_def)
qed

theorem aof_single_quote_fails_witness:
  "\<exists>srv'. aof_startup True True True IoOk IoOk IoOk 0 ((aof_init (str ''it'' @ 39 # str ''s.aof'') True)\<lparr>server_aof_state := AOF_ON\<rparr>) = Some (Some srv') \<and>
    aofLoadManifestFromDisk srv' = None"
proof (rule aof_single_quote_fails)
  show "isValidAOFfilename (str ''it'' @ 39 # str ''s.aof'')" by code_simp
  show "39 \<in> set (str ''it'' @ 39 # str ''s.aof'')" by simp
  show "\<not> needsrepr_loop (str ''it'' @ 39 # str ''s.aof'')" by code_simp
  show "length (str ''it'' @ 39 # str ''s.aof'') \<le> 190" by code_simp
qed

end
