(* ===== verification/Aof_Restart.thy ===== *)
theory Aof_Restart
  imports Aof_Quote
begin

text \<open>
  A restart begins to number the incremental files anew if the manifest lists none, although files with the same names may be
  listed as history.
\<close>

definition base_info :: "bytes \<Rightarrow> bool \<Rightarrow> int \<Rightarrow> aofInfo" where
  "base_info fn rdb seq = aofInfoCreate\<lparr>file_name := Some (fn @ str ''.'' @ dec_int seq @ str ''.base'' @ (if rdb then str ''.rdb'' else str ''.aof'')),
     file_seq := seq, file_type := AOF_FILE_TYPE_BASE\<rparr>"

definition incr_info :: "bytes \<Rightarrow> int \<Rightarrow> aofInfo" where
  "incr_info fn seq = aofInfoCreate\<lparr>file_type := AOF_FILE_TYPE_INCR, file_name := Some (fn @ str ''.'' @ dec_int seq @ str ''.incr'' @ str ''.aof''),
     file_seq := seq, start_offset := 0\<rparr>"

abbreviation hist :: "aofInfo \<Rightarrow> aofInfo" where
  "hist ai \<equiv> ai\<lparr>file_type := AOF_FILE_TYPE_HIST\<rparr>"

text \<open>The manifests of the run: after the first start, after the rewrite, after the second start, and without history.\<close>

definition am_first :: "bytes \<Rightarrow> bool \<Rightarrow> aofManifest" where
  "am_first fn rdb = \<lparr>base_aof_info = Some (base_info fn rdb 1), incr_aof_list = [incr_info fn 1], history_aof_list = [],
     curr_base_file_seq = 1, curr_incr_file_seq = 1, dirty = False\<rparr>"

definition am_rewritten :: "bytes \<Rightarrow> bool \<Rightarrow> aofManifest" where
  "am_rewritten fn rdb = \<lparr>base_aof_info = Some (base_info fn rdb 2), incr_aof_list = [],
     history_aof_list = [hist (incr_info fn 1), hist (base_info fn rdb 1)], curr_base_file_seq = 2, curr_incr_file_seq = 1, dirty = False\<rparr>"

definition am_again :: "bytes \<Rightarrow> bool \<Rightarrow> aofManifest" where
  "am_again fn rdb = (am_rewritten fn rdb)\<lparr>incr_aof_list := [incr_info fn 1]\<rparr>"

lemma info_fields [simp]:
  "file_seq (base_info fn rdb seq) = seq" "file_type (base_info fn rdb seq) = AOF_FILE_TYPE_BASE" "start_offset (base_info fn rdb seq) = - 1"
  "end_offset (base_info fn rdb seq) = - 1"
  "file_seq (incr_info fn seq) = seq" "file_type (incr_info fn seq) = AOF_FILE_TYPE_INCR" "start_offset (incr_info fn seq) = 0"
  "end_offset (incr_info fn seq) = - 1"
  by (simp_all add: base_info_def incr_info_def aofInfoCreate_def)

lemma base_info_ok: "filename_ok fn \<Longrightarrow> 0 < seq \<Longrightarrow> in_sint 64 seq \<Longrightarrow> info_ok (base_info fn rdb seq)"
  using info_ok_new [of fn _ seq "str ''.base''" "if rdb then str ''.rdb'' else str ''.aof''" AOF_FILE_TYPE_BASE "- 1"]
  by (simp add: base_info_def aofInfoCreate_def in_sint_def)

lemma incr_info_ok: "filename_ok fn \<Longrightarrow> 0 < seq \<Longrightarrow> in_sint 64 seq \<Longrightarrow> info_ok (incr_info fn seq)"
  using info_ok_new [of fn _ seq "str ''.incr''" "str ''.aof''" AOF_FILE_TYPE_INCR 0]
  by (simp add: incr_info_def aofInfoCreate_def in_sint_def)

lemma seqs_fit: "in_sint 64 0" "in_sint 64 1" "in_sint 64 2"
  by (simp_all add: in_sint_def)

lemma manifests_ok:
  assumes "filename_ok fn"
  shows "manifest_ok (am_first fn rdb)" "manifest_ok (am_rewritten fn rdb)" "manifest_ok (am_again fn rdb)"
    "manifest_ok ((am_again fn rdb)\<lparr>history_aof_list := []\<rparr>)"
  using seqs_fit by (simp_all add: manifest_ok_def am_first_def am_rewritten_def am_again_def last_seq_def base_info_ok incr_info_ok info_ok_hist assms)

lemma reloads:
  "reload (am_first fn rdb) = am_first fn rdb" "reload (am_rewritten fn rdb) = (am_rewritten fn rdb)\<lparr>curr_incr_file_seq := 0\<rparr>"
  by (simp_all add: reload_def am_first_def am_rewritten_def reload_info_def last_seq_def)

lemma text_dirty: "manifest_ok am \<Longrightarrow> getAofManifestAsString (am\<lparr>dirty := b\<rparr>) = Some (manifest_text am)"
  using manifest_text_eq [of "am\<lparr>dirty := b\<rparr>"] by (simp add: manifest_ok_def manifest_text_def split: option.splits)

text \<open>The states of the run.\<close>

definition srv_first :: "bytes \<Rightarrow> bool \<Rightarrow> aofServer" where
  "srv_first fn rdb = (aof_init fn rdb)\<lparr>server_aof_state := AOF_ON, aof_fd := file_name (incr_info fn 1),
     manifest_file := Some (manifest_text (am_first fn rdb)), aof_manifest := am_first fn rdb\<rparr>"

definition srv_off :: "bytes \<Rightarrow> bool \<Rightarrow> aofServer" where
  "srv_off fn rdb = (srv_first fn rdb)\<lparr>server_aof_state := AOF_OFF, aof_fd := None, aof_disable_auto_gc := True\<rparr>"

definition srv_rewritten :: "bytes \<Rightarrow> bool \<Rightarrow> aofServer" where
  "srv_rewritten fn rdb = (srv_off fn rdb)\<lparr>manifest_file := Some (manifest_text (am_rewritten fn rdb)), aof_manifest := am_rewritten fn rdb\<rparr>"

lemma next_seqs: "next_seq 0 = Some 1" "next_seq 1 = Some 2"
  by (simp_all add: next_seq_def)

lemmas startup_defs = aof_startup_def aofLoadManifestFromDisk_def updateReplOffsetAndResetEndOffset_def aofOpenIfNeededOnServerStart_def
  getNewBaseFileNameAndMarkPreAsHistory_def getLastIncrAofName_def getNewIncrAofName_def persistAofManifest_def writeAofManifestFile_def
  aofDelHistoryFiles_def Let_def

lemma step_first:
  assumes "filename_ok fn"
  shows "aof_startup True True True IoOk IoOk IoOk 0 ((aof_init fn rdb)\<lparr>server_aof_state := AOF_ON\<rparr>) = Some (Some (srv_first fn rdb))"
proof -
  have "(am_first fn rdb)\<lparr>dirty := True\<rparr> = \<lparr>base_aof_info = Some (base_info fn rdb 1), incr_aof_list = [incr_info fn 1], history_aof_list = [],
     curr_base_file_seq = 1, curr_incr_file_seq = 1, dirty = True\<rparr>" by (simp add: am_first_def)
  then have "getAofManifestAsString \<lparr>base_aof_info = Some (base_info fn rdb 1), incr_aof_list = [incr_info fn 1], history_aof_list = [],
     curr_base_file_seq = 1, curr_incr_file_seq = 1, dirty = True\<rparr> = Some (manifest_text (am_first fn rdb))"
    using text_dirty [OF manifests_ok(1) [OF assms, of rdb], of True] by simp
  then show ?thesis
    by (simp add: startup_defs aof_init_def aofManifestCreate_def next_seqs srv_first_def am_first_def flip: base_info_def incr_info_def) (simp add: incr_info_def)
qed

lemma load_manifest:
  assumes "manifest_ok am" "listed am" "manifest_file srv = Some (manifest_text am)"
  shows "aofLoadManifestFromDisk srv = Some (srv\<lparr>aof_manifest := reload am\<rparr>)"
  using load_manifest_text [OF assms(1,2)] assms(3) by (simp add: aofLoadManifestFromDisk_def Let_def)

lemma step_off:
  assumes "filename_ok fn"
  shows "aof_startup True True True IoOk IoOk IoOk 0
    ((srv_first fn rdb)\<lparr>aof_fd := None, server_aof_state := AOF_OFF, aof_disable_auto_gc := True, master_repl_offset := 0\<rparr>) = Some (Some (srv_off fn rdb))"
proof -
  have "listed (am_first fn rdb)" by (simp add: listed_def am_first_def)
  note load = load_manifest [OF manifests_ok(1) [OF assms] this, unfolded reloads(1)]
  show ?thesis unfolding aof_startup_def
    by (subst load) (simp_all add: startup_defs srv_first_def srv_off_def aof_init_def am_first_def)
qed

lemma step_rewritten:
  assumes "filename_ok fn"
  shows "backgroundRewriteDoneHandler 0 0 True True IoOk IoOk (srv_off fn rdb) = Some (srv_rewritten fn rdb)"
proof -
  have "getAofManifestAsString \<lparr>base_aof_info = Some (base_info fn rdb 2), incr_aof_list = [],
     history_aof_list = [hist (incr_info fn 1), hist (base_info fn rdb 1)], curr_base_file_seq = 2, curr_incr_file_seq = 1, dirty = True\<rparr>
      = Some (manifest_text (am_rewritten fn rdb))"
    using text_dirty [OF manifests_ok(2) [OF assms, of rdb], of True] by (simp add: am_rewritten_def)
  then show ?thesis
    by (simp add: backgroundRewriteDoneHandler_def rewrite_done_def rewrite_cleanup_def markRewrittenIncrAofAsHistory_def aofManifestDup_def aofInfoDup_def
      startup_defs srv_off_def srv_first_def srv_rewritten_def aof_init_def am_first_def am_rewritten_def next_seqs flip: base_info_def incr_info_def)
qed

definition srv_again :: "bytes \<Rightarrow> bool \<Rightarrow> aofServer" where
  "srv_again fn rdb = (srv_rewritten fn rdb)\<lparr>server_aof_state := AOF_ON, aof_disable_auto_gc := False, aof_fd := file_name (incr_info fn 1),
     manifest_file := Some (manifest_text ((am_again fn rdb)\<lparr>history_aof_list := []\<rparr>)), aof_manifest := (am_again fn rdb)\<lparr>history_aof_list := []\<rparr>,
     unlinked := [the (file_name (incr_info fn 1)), the (file_name (base_info fn rdb 1))]\<rparr>"

lemma step_again:
  assumes "filename_ok fn"
  shows "aof_startup True True True IoOk IoOk IoOk 0
    ((srv_rewritten fn rdb)\<lparr>aof_fd := None, server_aof_state := AOF_ON, aof_disable_auto_gc := False, master_repl_offset := 0\<rparr>) = Some (Some (srv_again fn rdb))"
proof -
  have "listed (am_rewritten fn rdb)" by (simp add: listed_def am_rewritten_def)
  note load = load_manifest [OF manifests_ok(2) [OF assms] this, unfolded reloads(2)]
  have t: "getAofManifestAsString \<lparr>base_aof_info = Some (base_info fn rdb 2), incr_aof_list = [incr_info fn 1],
     history_aof_list = [hist (incr_info fn 1), hist (base_info fn rdb 1)], curr_base_file_seq = 2, curr_incr_file_seq = 1, dirty = True\<rparr>
      = Some (manifest_text (am_again fn rdb))"
    using text_dirty [OF manifests_ok(3) [OF assms, of rdb], of True] by (simp add: am_rewritten_def am_again_def)
  have t2: "getAofManifestAsString \<lparr>base_aof_info = Some (base_info fn rdb 2), incr_aof_list = [incr_info fn 1],
     history_aof_list = [], curr_base_file_seq = 2, curr_incr_file_seq = 1, dirty = True\<rparr>
      = Some (manifest_text ((am_again fn rdb)\<lparr>history_aof_list := []\<rparr>))"
    using text_dirty [OF manifests_ok(4) [OF assms, of rdb], of True] by (simp add: am_rewritten_def am_again_def)
  have n: "file_name (incr_info fn 1) = Some (fn @ str ''.'' @ dec_int 1 @ str ''.incr'' @ str ''.aof'')" "file_name (base_info fn rdb 1) \<noteq> None"
    by (simp_all add: incr_info_def base_info_def)
  show ?thesis unfolding aof_startup_def
    by (subst load) (use n in \<open>simp_all add: t t2 startup_defs srv_first_def srv_off_def srv_rewritten_def srv_again_def aof_init_def am_rewritten_def am_again_def next_seqs
      flip: base_info_def incr_info_def\<close>)
qed

text \<open>
  (C37) A start can unlink the file it writes to. For every name of the files there is a run (a first start; a start with \<^verbatim>\<open>appendonly no\<close> and without
  the automatic deletion of history files; a rewrite; a start with both) in which no system call fails, after which the incremental file that is open for
  writing, and that the manifest lists, is one of the files that were unlinked: loading forgets the number of the last incremental file if only
  the history names it, so that its name is given to the new file.
\<close>

theorem aof_restart_unlinks_open_file:
  assumes "filename_ok fn"
  shows "\<exists>srv srv2 ai f. aof_reachable fn srv \<and> unlinked srv = [] \<and>
    aof_startup True True True IoOk IoOk IoOk 0
      (srv\<lparr>aof_fd := None, server_aof_state := AOF_ON, aof_disable_auto_gc := False, master_repl_offset := 0\<rparr>) = Some (Some srv2) \<and>
    aof_fd srv2 = Some f \<and> incr_aof_list (aof_manifest srv2) = [ai] \<and> file_name ai = Some f \<and> f \<in> set (unlinked srv2)"
proof -
  fix rdb
  have "aof_step (aof_init fn rdb) (srv_first fn rdb)"
    by (rule aof_step.restart [where st = AOF_ON and b = False]) (use step_first [OF assms] in \<open>simp_all add: aof_init_def\<close>)
  moreover have "aof_step (srv_first fn rdb) (srv_off fn rdb)"
    by (rule aof_step.restart [of AOF_OFF, OF _ step_off [OF assms]]) simp
  moreover have "aof_step (srv_off fn rdb) (srv_rewritten fn rdb)"
    by (rule aof_step.rewritten [OF _ _ step_rewritten [OF assms]]) (simp_all add: srv_off_def srv_first_def am_first_def)
  ultimately have r: "aof_reachable fn (srv_rewritten fn rdb)" by (meson aof_reachable.intros)
  have u: "unlinked (srv_rewritten fn rdb) = []" by (simp add: srv_rewritten_def srv_off_def srv_first_def aof_init_def)
  obtain f where "file_name (incr_info fn 1) = Some f" by (simp add: incr_info_def)
  then have "aof_fd (srv_again fn rdb) = Some f" "incr_aof_list (aof_manifest (srv_again fn rdb)) = [incr_info fn 1]"
    "file_name (incr_info fn 1) = Some f" "f \<in> set (unlinked (srv_again fn rdb))"
    by (simp_all add: srv_again_def am_again_def)
  then show ?thesis using r u step_again [OF assms] by blast
qed

theorem aof_restart_unlinks_open_file_witness:
  "\<exists>srv srv2 ai f. aof_reachable (str ''appendonly.aof'') srv \<and> unlinked srv = [] \<and>
    aof_startup True True True IoOk IoOk IoOk 0
      (srv\<lparr>aof_fd := None, server_aof_state := AOF_ON, aof_disable_auto_gc := False, master_repl_offset := 0\<rparr>) = Some (Some srv2) \<and>
    aof_fd srv2 = Some f \<and> incr_aof_list (aof_manifest srv2) = [ai] \<and> file_name ai = Some f \<and> f \<in> set (unlinked srv2)"
proof (rule aof_restart_unlinks_open_file)
  show "filename_ok (str ''appendonly.aof'')" by code_simp
qed

end
