(* ===== verification/Aof_Rename.thy ===== *)
theory Aof_Rename
  imports Aof_Server
begin

text \<open>
  The end of a rewrite whose manifest is renamed into place although writing it is reported as failed: \<^verbatim>\<open>fsyncFileDir\<close> comes behind
  the \<^verbatim>\<open>rename\<close>.
\<close>

lemma persist_renamed:
  assumes "am_ok am" and "dirty am"
  shows "persistAofManifest IoFailedAfterRename srv am = Some (srv\<lparr>manifest_file := Some (manifest_text am)\<rparr>, am, False)"
proof -
  have "manifest_ok am" using assms(1) by (simp add: am_ok_def)
  then show ?thesis using assms(2) by (simp add: persistAofManifest_def manifest_text_eq writeAofManifestFile_def Let_def)
qed

text \<open>What is written and what is unlinked.\<close>

lemma rewrite_done_renamed:
  assumes ok: "srv_ok srv" and s: "curr_base_file_seq (aof_manifest srv) \<noteq> INT64_MAX" "curr_incr_file_seq (aof_manifest srv) \<noteq> INT64_MAX"
  obtains srv' am ai name where "rewrite_done True True IoFailedAfterRename io_gc srv = Some srv'" "aof_manifest srv' = aof_manifest srv"
    "manifest_file srv' = Some (manifest_text am)" "am_ok am" "base_aof_info am = Some ai" "file_name ai = Some name" "name \<in> set (unlinked srv')"
proof (rule rewrite_manifest [OF assms])
  fix base am1 incr am2 srv1 am3 ai
  define waiting where "waiting = (server_aof_state srv = AOF_WAIT_REWRITE)"
  assume b: "getNewBaseFileNameAndMarkPreAsHistory srv (aof_manifest srv) = Some (base, am1)"
    and "(if server_aof_state srv = AOF_WAIT_REWRITE then getNewIncrAofName srv am1 (tempIncAofStartReplOffset srv) else Some ([], am1)) = Some (incr, am2)"
    and "srv1 = (if server_aof_state srv = AOF_WAIT_REWRITE \<and> aof_fd srv = Some (getTempIncrAofName srv) then srv\<lparr>aof_fd := Some incr\<rparr> else srv)"
    and m: "markRewrittenIncrAofAsHistory srv1 am2 = Some am3" "srv_ok srv1" "am_ok am3" "dirty am3" "base_aof_info am3 = Some ai" "file_name ai = Some base"
  then have i: "(if waiting then getNewIncrAofName srv am1 (tempIncAofStartReplOffset srv) else Some ([], am1)) = Some (incr, am2)"
    and srv1_def: "srv1 = (if waiting \<and> aof_fd srv = Some (getTempIncrAofName srv) then srv\<lparr>aof_fd := Some incr\<rparr> else srv)"
    by (simp_all add: waiting_def)
  define srv' where "srv' = rewrite_failed (srv1\<lparr>manifest_file := Some (manifest_text am3),
     unlinked := unlinked srv1 @ [base] @ (if waiting then [incr] else [])\<rparr>)"
  have "rewrite_done True True IoFailedAfterRename io_gc srv = Some srv'"
    using b i m(1) persist_renamed [OF m(3,4), of srv1]
    by (simp add: rewrite_done_def Let_def flip: waiting_def srv1_def) (simp add: srv'_def)
  then show thesis using that [of srv' am3 ai base] m by (simp add: srv'_def srv1_def rewrite_failed_def)
qed

text \<open>
  (C36) A failed rewrite can remove the base file that the manifest on the disk names. In every reachable state, if the synchronisation of the
  directory fails after the new manifest has been renamed into place, the handler treats the rewrite as failed and unlinks the new
  base file; the manifest in memory is the old one, but the manifest that the next start loads has the unlinked file as its base file.
\<close>

theorem aof_rewrite_unlinks_listed_base:
  assumes "filename_ok fn" and "aof_reachable fn srv"
    and "curr_base_file_seq (aof_manifest srv) \<noteq> INT64_MAX" and "curr_incr_file_seq (aof_manifest srv) \<noteq> INT64_MAX"
  shows "\<exists>srv' srv2 ai f. backgroundRewriteDoneHandler 0 0 True True IoFailedAfterRename io_gc srv = Some srv' \<and> aof_manifest srv' = aof_manifest srv \<and>
    aofLoadManifestFromDisk srv' = Some srv2 \<and> base_aof_info (aof_manifest srv2) = Some ai \<and> file_name ai = Some f \<and> f \<in> set (unlinked srv')"
proof -
  obtain s am ai name where s: "rewrite_done True True IoFailedAfterRename io_gc srv = Some s" "aof_manifest s = aof_manifest srv"
    "manifest_file s = Some (manifest_text am)" "am_ok am" "base_aof_info am = Some ai" "file_name ai = Some name" "name \<in> set (unlinked s)"
    using rewrite_done_renamed [OF aof_reachable_ok [OF assms(2,1)] assms(3,4)] by metis
  have "manifest_ok am" "listed am" using s(4,5) by (simp_all add: am_ok_def listed_def)
  then have l: "aofLoadManifestFromFile (manifest_text am) = Inr (reload am)" by (rule load_manifest_text)
  define srv' where "srv' = rewrite_cleanup s"
  have "backgroundRewriteDoneHandler 0 0 True True IoFailedAfterRename io_gc srv = Some srv'" by (simp add: backgroundRewriteDoneHandler_def s(1) srv'_def)
  moreover have "aof_manifest srv' = aof_manifest srv" "name \<in> set (unlinked srv')" using s(2,7) by (simp_all add: srv'_def rewrite_cleanup_def)
  moreover have "aofLoadManifestFromDisk srv' = Some (srv'\<lparr>aof_manifest := reload am\<rparr>)"
    using s(3) l by (simp add: aofLoadManifestFromDisk_def srv'_def rewrite_cleanup_def)
  moreover have "base_aof_info (reload am) = Some (reload_info ai)" "file_name (reload_info ai) = Some name" using s(5,6) by (simp_all add: reload_def)
  ultimately show ?thesis by (metis aofServer.select_convs(8) aofServer.update_convs(8) aofServer.surjective)
qed

theorem aof_rewrite_unlinks_listed_base_witness:
  "\<exists>srv' srv2 ai f. backgroundRewriteDoneHandler 0 0 True True IoFailedAfterRename IoOk (aof_init (str ''appendonly.aof'') True) = Some srv' \<and>
    aof_manifest srv' = aof_manifest (aof_init (str ''appendonly.aof'') True) \<and>
    aofLoadManifestFromDisk srv' = Some srv2 \<and> base_aof_info (aof_manifest srv2) = Some ai \<and> file_name ai = Some f \<and> f \<in> set (unlinked srv')"
proof (rule aof_rewrite_unlinks_listed_base)
  show "filename_ok (str ''appendonly.aof'')" by code_simp
  show "aof_reachable (str ''appendonly.aof'') (aof_init (str ''appendonly.aof'') True)" by (rule aof_reachable.init)
qed (simp_all add: aof_init_def aofManifestCreate_def)

end
