(* ===== verification/Lzf.thy ===== *)
theory Lzf
  imports Prelude
begin

unbundle bit_operations_syntax

text \<open>
  LZF compression (\<^verbatim>\<open>lzf_c.c\<close>, \<^verbatim>\<open>lzf_d.c\<close>), in the configuration of \<^verbatim>\<open>lzfP.h\<close>: a hash table of \<open>2 ^ 16\<close> pointers that is not
  initialised, the fast way to continue after a match, and checked input. Buffers are byte lists, positions in them numbers. An access outside
  a buffer is \<open>None\<close>. The hash table is indexed with what \<^verbatim>\<open>IDX\<close> computes, which is below its size, and holds addresses, any at first; \<open>in_data\<close> is the address of the input.
\<close>

section \<open>Buffers\<close>

definition lz_get :: "bytes \<Rightarrow> nat \<Rightarrow> byte option" where
  "lz_get buf i = (if i < length buf then Some (buf ! i) else None)"

definition lz_put :: "bytes \<Rightarrow> nat \<Rightarrow> byte \<Rightarrow> bytes option" where
  "lz_put buf i c = (if i < length buf then Some (buf[i := c]) else None)"

section \<open>Compression\<close>

definition MAX_LIT :: nat where "MAX_LIT = 32"
definition MAX_OFF :: int where "MAX_OFF = 8192"
definition MAX_REF :: nat where "MAX_REF = 264"

definition FRST :: "bytes \<Rightarrow> nat \<Rightarrow> 32 word option" where
  "FRST ib p = do { a \<leftarrow> lz_get ib p; b \<leftarrow> lz_get ib (p + 1); Some (push_bit 8 (ucast a) OR ucast b) }"

definition NEXT :: "32 word \<Rightarrow> bytes \<Rightarrow> nat \<Rightarrow> 32 word option" where
  "NEXT v ib p = do { c \<leftarrow> lz_get ib (p + 2); Some (push_bit 8 v OR ucast c) }"

definition IDX :: "32 word \<Rightarrow> 32 word" where
  "IDX h = (drop_bit 8 h - h * 5) AND 65535"

record lzf =
  lz_htab :: "32 word \<Rightarrow> 64 word"
  lz_hval :: "32 word"
  lz_buf :: bytes
  lz_ip :: nat
  lz_op :: nat
  lz_lit :: nat

text \<open>\<^verbatim>\<open>size_t off = ip - ref - 1\<close>.\<close>

definition ref_off :: "int \<Rightarrow> nat \<Rightarrow> int \<Rightarrow> int" where
  "ref_off in_data ip ref = (in_data + int ip - ref - 1) mod 2 ^ 64"

definition is_match :: "int \<Rightarrow> bytes \<Rightarrow> nat \<Rightarrow> int \<Rightarrow> bool option" where
  "is_match in_data ib ip ref =
     (if \<not> ref_off in_data ip ref < MAX_OFF then Some False
      else if \<not> ref > in_data then Some False
      else do {
        let r = nat (ref - in_data);
        a2 \<leftarrow> lz_get ib (r + 2);
        b2 \<leftarrow> lz_get ib (ip + 2);
        if a2 \<noteq> b2 then Some False
        else do {
          a0 \<leftarrow> lz_get ib r;
          a1 \<leftarrow> lz_get ib (r + 1);
          b0 \<leftarrow> lz_get ib ip;
          b1 \<leftarrow> lz_get ib (ip + 1);
          Some (a0 = b0 \<and> a1 = b1)
        }
      })"

text \<open>The sixteen comparisons that are written out; whether one of them failed.\<close>

fun unrolled :: "nat \<Rightarrow> bytes \<Rightarrow> nat \<Rightarrow> nat \<Rightarrow> nat \<Rightarrow> (nat \<times> bool) option" where
  "unrolled 0 ib r ip len = Some (len, False)"
| "unrolled (Suc k) ib r ip len = do {
     a \<leftarrow> lz_get ib (r + (len + 1));
     b \<leftarrow> lz_get ib (ip + (len + 1));
     if a \<noteq> b then Some (len + 1, True) else unrolled k ib r ip (len + 1)
   }"

function extend_loop :: "bytes \<Rightarrow> nat \<Rightarrow> nat \<Rightarrow> nat \<Rightarrow> nat \<Rightarrow> nat option" where
  "extend_loop ib r ip maxlen len =
     (if len + 1 < maxlen
      then do {
        a \<leftarrow> lz_get ib (r + (len + 1));
        b \<leftarrow> lz_get ib (ip + (len + 1));
        if a = b then extend_loop ib r ip maxlen (len + 1) else Some (len + 1)
      }
      else Some (len + 1))"
  by pat_completeness auto

termination by (relation "measure (\<lambda>(_, _, _, maxlen, len). maxlen - len)") auto

declare extend_loop.simps [simp del]

definition match_len :: "bytes \<Rightarrow> nat \<Rightarrow> nat \<Rightarrow> nat \<Rightarrow> nat option" where
  "match_len ib r ip maxlen =
     (if maxlen > 16
      then do {
        (len, differs) \<leftarrow> unrolled 16 ib r ip 2;
        if differs then Some len else extend_loop ib r ip maxlen len
      }
      else extend_loop ib r ip maxlen 2)"

text \<open>\<^verbatim>\<open>op [- lit - 1] = lit - 1\<close>, the length of a run of literals.\<close>

definition stop_run :: "bytes \<Rightarrow> nat \<Rightarrow> nat \<Rightarrow> bytes option" where
  "stop_run buf op lit = (if lit + 1 \<le> op then lz_put buf (op - lit - 1) (word_of_int (int lit - 1)) else None)"

definition undo_run :: "nat \<Rightarrow> nat \<Rightarrow> nat" where
  "undo_run op lit = (if lit = 0 then op - 1 else op)"

definition put_ref :: "bytes \<Rightarrow> nat \<Rightarrow> nat \<Rightarrow> nat \<Rightarrow> (bytes \<times> nat) option" where
  "put_ref buf op off len =
     (if len < 7
      then do {
        buf \<leftarrow> lz_put buf op (word_of_nat (off div 256 + len * 32));
        buf \<leftarrow> lz_put buf (op + 1) (word_of_nat off);
        Some (buf, op + 2)
      }
      else do {
        buf \<leftarrow> lz_put buf op (word_of_nat (off div 256 + 7 * 32));
        buf \<leftarrow> lz_put buf (op + 1) (word_of_nat (len - 7));
        buf \<leftarrow> lz_put buf (op + 2) (word_of_nat off);
        Some (buf, op + 3)
      })"

text \<open>A match at \<open>ref\<close>; \<open>Some None\<close> is the return of 0.\<close>

definition match_step :: "int \<Rightarrow> bytes \<Rightarrow> int \<Rightarrow> lzf \<Rightarrow> lzf option option" where
  "match_step in_data ib ref s =
     (let ip = lz_ip s; op = lz_op s; lit = lz_lit s; out_len = length (lz_buf s);
          maxlen = length ib - ip - 2;
          maxlen = (if maxlen > MAX_REF then MAX_REF else maxlen) in
      if op + 3 + 1 \<ge> out_len \<and> undo_run op lit + 3 + 1 \<ge> out_len then Some None
      else do {
        buf \<leftarrow> stop_run (lz_buf s) op lit;
        len \<leftarrow> match_len ib (nat (ref - in_data)) ip maxlen;
        let len = len - 2;
        (buf, op) \<leftarrow> put_ref buf (undo_run op lit) (nat (ref_off in_data ip ref)) len;
        let ip = ip + 1 + (len + 1);
        let s = s\<lparr>lz_buf := buf, lz_op := op + 1, lz_lit := 0\<rparr>;
        if ip + 2 \<ge> length ib then Some (Some (s\<lparr>lz_ip := ip\<rparr>))
        else do {
          h \<leftarrow> FRST ib (ip - 2);
          h \<leftarrow> NEXT h ib (ip - 2);
          let htab = (lz_htab s)(IDX h := word_of_int (in_data + int (ip - 2)));
          h \<leftarrow> NEXT h ib (ip - 1);
          let htab = htab(IDX h := word_of_int (in_data + int (ip - 1)));
          Some (Some (s\<lparr>lz_htab := htab, lz_hval := h, lz_ip := ip\<rparr>))
        }
      })"

definition literal :: "bytes \<Rightarrow> lzf \<Rightarrow> lzf option" where
  "literal ib s = do {
     c \<leftarrow> lz_get ib (lz_ip s);
     buf \<leftarrow> lz_put (lz_buf s) (lz_op s) c;
     let lit = lz_lit s + 1;
     let op = lz_op s + 1;
     if lit = MAX_LIT
     then do {
       buf \<leftarrow> stop_run buf op lit;
       Some (s\<lparr>lz_buf := buf, lz_ip := lz_ip s + 1, lz_op := op + 1, lz_lit := 0\<rparr>)
     }
     else Some (s\<lparr>lz_buf := buf, lz_ip := lz_ip s + 1, lz_op := op, lz_lit := lit\<rparr>)
   }"

definition lz_step :: "int \<Rightarrow> bytes \<Rightarrow> lzf \<Rightarrow> lzf option option" where
  "lz_step in_data ib s = do {
     h \<leftarrow> NEXT (lz_hval s) ib (lz_ip s);
     let ref = uint (lz_htab s (IDX h));
     let s = s\<lparr>lz_hval := h, lz_htab := (lz_htab s)(IDX h := word_of_int (in_data + int (lz_ip s)))\<rparr>;
     m \<leftarrow> is_match in_data ib (lz_ip s) ref;
     if m then match_step in_data ib ref s
     else if lz_op s \<ge> length (lz_buf s) then Some None
     else map_option Some (literal ib s)
   }"

lemma extend_loop_grows: "extend_loop ib r ip maxlen len = Some n \<Longrightarrow> len < n"
proof (induction ib r ip maxlen len rule: extend_loop.induct)
  case (1 ib r ip maxlen len)
  then show ?case by (subst (asm) extend_loop.simps) (fastforce simp: bind_eq_Some_conv split: if_splits)
qed

lemma literal_ip: "literal ib s = Some s' \<Longrightarrow> lz_ip s' = lz_ip s + 1"
  by (auto simp: literal_def bind_eq_Some_conv Let_def split: if_splits)

lemma lz_step_ip: "lz_step in_data ib s = Some (Some s') \<Longrightarrow> lz_ip s < lz_ip s'"
  by (auto simp: lz_step_def match_step_def bind_eq_Some_conv Let_def split: if_splits dest!: literal_ip)

function lz_loop :: "int \<Rightarrow> bytes \<Rightarrow> lzf \<Rightarrow> lzf option option" where
  "lz_loop in_data ib s =
     (if lz_ip s + 2 < length ib
      then do {
        r \<leftarrow> lz_step in_data ib s;
        case r of None \<Rightarrow> Some None | Some s' \<Rightarrow> lz_loop in_data ib s'
      }
      else Some (Some s))"
  by pat_completeness auto

termination by (relation "measure (\<lambda>(_, ib, s). length ib - lz_ip s)") (auto dest: lz_step_ip)

declare lz_loop.simps [simp del]

function tail_loop :: "bytes \<Rightarrow> lzf \<Rightarrow> lzf option" where
  "tail_loop ib s = (if lz_ip s < length ib then do { s' \<leftarrow> literal ib s; tail_loop ib s' } else Some s)"
  by pat_completeness auto

termination by (relation "measure (\<lambda>(ib, s). length ib - lz_ip s)") (auto dest: literal_ip)

declare tail_loop.simps [simp del]

text \<open>The output buffer and the number of bytes used; \<open>Some None\<close> is the return of 0, which says nothing on the buffer.\<close>

definition lzf_compress :: "int \<Rightarrow> (32 word \<Rightarrow> 64 word) \<Rightarrow> bytes \<Rightarrow> bytes \<Rightarrow> (bytes \<times> nat) option option" where
  "lzf_compress in_data htab ib ob =
     (if ib = [] \<or> ob = [] then Some None
      else do {
        h \<leftarrow> FRST ib 0;
        r \<leftarrow> lz_loop in_data ib \<lparr>lz_htab = htab, lz_hval = h, lz_buf = ob, lz_ip = 0, lz_op = 1, lz_lit = 0\<rparr>;
        case r of
          None \<Rightarrow> Some None
        | Some s \<Rightarrow>
            if lz_op s + 3 > length ob then Some None
            else do {
              s \<leftarrow> tail_loop ib s;
              buf \<leftarrow> stop_run (lz_buf s) (lz_op s) (lz_lit s);
              Some (Some (buf, undo_run (lz_op s) (lz_lit s)))
            }
      })"

section \<open>Decompression\<close>

datatype lzf_errno = E2BIG | EINVAL

fun run_copy :: "nat \<Rightarrow> bytes \<Rightarrow> nat \<Rightarrow> bytes \<Rightarrow> nat \<Rightarrow> bytes option" where
  "run_copy 0 ib ip ob op = Some ob"
| "run_copy (Suc n) ib ip ob op = do { c \<leftarrow> lz_get ib ip; ob \<leftarrow> lz_put ob op c; run_copy n ib (ip + 1) ob (op + 1) }"

fun ref_copy :: "nat \<Rightarrow> bytes \<Rightarrow> nat \<Rightarrow> nat \<Rightarrow> bytes option" where
  "ref_copy 0 ob ref op = Some ob"
| "ref_copy (Suc n) ob ref op = do { c \<leftarrow> lz_get ob ref; ob \<leftarrow> lz_put ob op c; ref_copy n ob (ref + 1) (op + 1) }"

text \<open>Short references octet by octet; long ones with \<^verbatim>\<open>memcpy\<close> if the areas are disjoint.\<close>

definition back_copy :: "nat \<Rightarrow> bytes \<Rightarrow> nat \<Rightarrow> nat \<Rightarrow> bytes option" where
  "back_copy len ob ref op =
     (if len \<le> 9 then ref_copy (len + 2) ob ref op
      else if op \<ge> ref + (len + 2) then move_bytes ob op ref (len + 2)
      else ref_copy (len + 2) ob ref op)"

text \<open>The length and the distance of a back reference, and the position behind it; \<open>Some None\<close> is the end of the input inside of it.\<close>

definition get_ref :: "bytes \<Rightarrow> nat \<Rightarrow> nat \<Rightarrow> (nat \<times> nat \<times> nat) option option" where
  "get_ref ib ip ctrl =
     (if ip \<ge> length ib then Some None
      else if ctrl div 32 = 7
      then do {
        l \<leftarrow> lz_get ib ip;
        if ip + 1 \<ge> length ib then Some None
        else do { o' \<leftarrow> lz_get ib (ip + 1); Some (Some (7 + unat l, (ctrl mod 32) * 256 + 1 + unat o', ip + 2)) }
      }
      else do { o' \<leftarrow> lz_get ib ip; Some (Some (ctrl div 32, (ctrl mod 32) * 256 + 1 + unat o', ip + 1)) })"

lemma get_ref_ip: "get_ref ib ip ctrl = Some (Some (len, back, ip')) \<Longrightarrow> ip < ip'"
  by (auto simp: get_ref_def bind_eq_Some_conv split: if_splits)

function decompress_loop :: "bytes \<Rightarrow> nat \<Rightarrow> bytes \<Rightarrow> nat \<Rightarrow> (bytes \<times> (lzf_errno + nat)) option" where
  "decompress_loop ib ip ob op =
     (if ip < length ib
      then do {
        c \<leftarrow> lz_get ib ip;
        let ctrl = unat c;
        if ctrl < 32
        then if op + (ctrl + 1) > length ob then Some (ob, Inl E2BIG)
          else if ip + 1 + (ctrl + 1) > length ib then Some (ob, Inl EINVAL)
          else do { ob' \<leftarrow> run_copy (ctrl + 1) ib (ip + 1) ob op; decompress_loop ib (ip + 1 + (ctrl + 1)) ob' (op + (ctrl + 1)) }
        else do {
          r \<leftarrow> get_ref ib (ip + 1) ctrl;
          case r of
            None \<Rightarrow> Some (ob, Inl EINVAL)
          | Some (len, back, ip') \<Rightarrow>
              if op + len + 2 > length ob then Some (ob, Inl E2BIG)
              else if back > op then Some (ob, Inl EINVAL)
              else do { ob' \<leftarrow> back_copy len ob (op - back) op; decompress_loop ib ip' ob' (op + (len + 2)) }
        }
      }
      else Some (ob, Inr op))"
  by pat_completeness auto

termination by (relation "measure (\<lambda>(ib, ip, _). length ib - ip)") (auto dest: get_ref_ip)

declare decompress_loop.simps [simp del]

text \<open>The output buffer, and the number of bytes or the error number that comes with a return of 0.\<close>

definition lzf_decompress :: "bytes \<Rightarrow> bytes \<Rightarrow> (bytes \<times> (lzf_errno + nat)) option" where
  "lzf_decompress ib ob = decompress_loop ib 0 ob 0"

end
