(* ===== verification/Lzf_Dec.thy ===== *)
theory Lzf_Dec
  imports Lzf
begin

text \<open>
  Decompression as a function on lists: what has been decompressed is a list that grows, and a back reference copies from its end.
\<close>

section \<open>The format\<close>

fun lz_copy :: "nat \<Rightarrow> nat \<Rightarrow> bytes \<Rightarrow> bytes" where
  "lz_copy back 0 acc = acc"
| "lz_copy back (Suc n) acc = lz_copy back n (acc @ [acc ! (length acc - back)])"

fun lz_ref :: "nat \<Rightarrow> bytes \<Rightarrow> (nat \<times> nat \<times> bytes) option" where
  "lz_ref ctrl [] = None"
| "lz_ref ctrl (a # r) =
     (if ctrl div 32 = 7
      then (case r of [] \<Rightarrow> None | b # r' \<Rightarrow> Some (7 + unat a, (ctrl mod 32) * 256 + 1 + unat b, r'))
      else Some (ctrl div 32, (ctrl mod 32) * 256 + 1 + unat a, r))"

lemma lz_ref_shorter: "lz_ref ctrl r = Some (len, back, r') \<Longrightarrow> length r' < length r"
  by (cases r) (auto split: if_splits list.splits)

function lz_dec :: "nat \<Rightarrow> bytes \<Rightarrow> bytes \<Rightarrow> lzf_errno + bytes" where
  "lz_dec lim [] acc = Inr acc"
| "lz_dec lim (c # r) acc =
     (if unat c < 32
      then if length acc + (unat c + 1) > lim then Inl E2BIG
        else if unat c + 1 > length r then Inl EINVAL
        else lz_dec lim (drop (unat c + 1) r) (acc @ take (unat c + 1) r)
      else case lz_ref (unat c) r of
          None \<Rightarrow> Inl EINVAL
        | Some (len, back, r') \<Rightarrow>
            if length acc + (len + 2) > lim then Inl E2BIG
            else if back > length acc then Inl EINVAL
            else lz_dec lim r' (lz_copy back (len + 2) acc))"
  by pat_completeness auto

termination by (relation "measure (\<lambda>(_, r, _). length r)") (auto dest: lz_ref_shorter)

declare lz_dec.simps(2) [simp del]

section \<open>Copying\<close>

lemma lz_get_nth: "i < length buf \<Longrightarrow> lz_get buf i = Some (buf ! i)"
  by (simp add: lz_get_def)

lemma lz_put_append: "lz_put (acc @ x # t) (length acc) c = Some (acc @ c # t)"
  by (simp add: lz_put_def)

lemma run_copy_eq: "ip + n \<le> length ib \<Longrightarrow> n \<le> length t \<Longrightarrow> run_copy n ib ip (acc @ t) (length acc) = Some (acc @ take n (drop ip ib) @ drop n t)"
proof (induction n arbitrary: ip acc t)
  case (Suc n)
  obtain x t' where t: "t = x # t'" using Suc.prems(2) by (cases t) auto
  have d: "take (Suc n) (drop ip ib) = ib ! ip # take n (drop (ip + 1) ib)" using Suc.prems(1) by (simp add: take_Suc_conv_app_nth Cons_nth_drop_Suc [symmetric])
  show ?case using Suc.IH [of "ip + 1" t' "acc @ [ib ! ip]"] Suc.prems t d by (simp add: lz_get_nth lz_put_append)
qed simp

lemma length_lz_copy [simp]: "length (lz_copy back n acc) = length acc + n"
  by (induction n arbitrary: acc) auto

lemma ref_copy_eq: "0 < back \<Longrightarrow> back \<le> length acc \<Longrightarrow> n \<le> length t \<Longrightarrow>
  ref_copy n (acc @ t) (length acc - back) (length acc) = Some (lz_copy back n acc @ drop n t)"
proof (induction n arbitrary: acc t)
  case (Suc n)
  obtain x t' where t: "t = x # t'" using Suc.prems(3) by (cases t) auto
  have g: "lz_get (acc @ x # t') (length acc - back) = Some (acc ! (length acc - back))" 
  proof -
    have "length acc - back < length acc" using Suc.prems(1,2) by linarith
    then show ?thesis by (simp add: lz_get_def nth_append)
  qed
  show ?case
    using Suc.IH [of "acc @ [acc ! (length acc - back)]" t'] Suc.prems t g
    by (simp add: lz_put_append Suc_diff_le)
qed simp

lemma lz_copy_disjoint: "n \<le> back \<Longrightarrow> back \<le> length acc \<Longrightarrow> lz_copy back n acc = acc @ take n (drop (length acc - back) acc)"
proof -
  have "n + k \<le> back \<Longrightarrow> back \<le> length acc \<Longrightarrow> xs = take k (drop (length acc - back) acc) \<Longrightarrow>
      lz_copy back n (acc @ xs) = acc @ take (n + k) (drop (length acc - back) acc)" for k xs
  proof (induction n arbitrary: k xs)
    case (Suc n)
    have l: "length xs = k" using Suc.prems by simp
    have "(acc @ xs) ! (length (acc @ xs) - back) = acc ! (length acc - back + k)" 
    proof -
      have "length (acc @ xs) - back = length acc - back + k" "length acc - back + k < length acc" using Suc.prems(1,2) l by auto
      then show ?thesis by (simp add: nth_append)
    qed
    moreover have "xs @ [acc ! (length acc - back + k)] = take (k + 1) (drop (length acc - back) acc)"
      using Suc.prems by (simp add: take_Suc_conv_app_nth)
    ultimately show ?case using Suc.IH [of "k + 1" "xs @ [acc ! (length acc - back + k)]"] Suc.prems by simp
  qed simp
  from this [of 0 "[]"] show "n \<le> back \<Longrightarrow> back \<le> length acc \<Longrightarrow> ?thesis" by simp
qed

text \<open>The two ways to copy agree.\<close>

lemma back_copy_eq:
  assumes "0 < back" "back \<le> length acc" "len + 2 \<le> length t"
  shows "back_copy len (acc @ t) (length acc - back) (length acc) = Some (lz_copy back (len + 2) acc @ drop (len + 2) t)"
proof (cases "len \<le> 9 \<or> \<not> length acc \<ge> length acc - back + (len + 2)")
  case True
  then show ?thesis using ref_copy_eq [OF assms] by (auto simp: back_copy_def)
next
  case False
  define n where "n = len + 2"
  have d: "n \<le> back" "n \<le> length t" using assms(2,3) False by (auto simp: n_def)
  have "read_bytes (acc @ t) (length acc - back) n = Some (take n (drop (length acc - back) acc))"
    using assms d by (simp add: read_bytes_def)
  moreover have "write_bytes (acc @ t) (length acc) ys = Some (acc @ ys @ drop n t)" if "length ys = n" for ys
    using d(2) that by (simp add: write_bytes_def)
  ultimately have "move_bytes (acc @ t) (length acc) (length acc - back) n = Some (lz_copy back n acc @ drop n t)"
    using d(1) assms(2) by (simp add: move_bytes_def lz_copy_disjoint)
  then show ?thesis using False by (simp add: back_copy_def n_def)
qed

section \<open>Refinement\<close>

lemma get_ref_eq: "get_ref ib ip ctrl = Some (map_option (\<lambda>(len, back, r). (len, back, length ib - length r)) (lz_ref ctrl (drop ip ib)))"
proof (cases "drop ip ib")
  case Nil
  then show ?thesis by (simp add: get_ref_def)
next
  case (Cons a r)
  then have i: "ip < length ib" "ib ! ip = a" "r = drop (ip + 1) ib"
    by (metis drop_eq_Nil leI list.distinct(1), metis nth_via_drop, metis drop_Suc drop_tl list.sel(3) Suc_eq_plus1)
  show ?thesis
  proof (cases r)
    case Nil
    then have "length ib = ip + 1" using i by simp
    then show ?thesis using Cons i Nil by (simp add: get_ref_def lz_get_nth)
  next
    case (Cons b r')
    then have "ip + 1 < length ib" "ib ! (ip + 1) = b" "length r' = length ib - (ip + 2)"
      using i by (metis drop_eq_Nil leI list.distinct(1), metis nth_via_drop, metis drop_Suc drop_tl list.sel(3) Suc_eq_plus1 length_drop add_Suc_right add_2_eq_Suc')
    then show ?thesis unfolding \<open>drop ip ib = a # r\<close> Cons using i(1,2) by (auto simp: get_ref_def lz_get_nth)
  qed
qed

lemma lz_ref_drop: "lz_ref ctrl r = Some (len, back, r') \<Longrightarrow> 0 < back \<and> (\<exists>k \<le> length r. r' = drop k r)"
proof (induction ctrl r rule: lz_ref.induct)
  case (2 ctrl a q)
  show ?case
  proof (cases "ctrl div 32 = 7")
    case True
    then obtain b where "q = b # r'" "0 < back" using 2 by (auto split: list.splits)
    then show ?thesis by (auto intro!: exI [of _ 2])
  next
    case False
    then have "q = r'" "0 < back" using 2 by auto
    then show ?thesis by (auto intro!: exI [of _ 1])
  qed
qed simp

text \<open>
  What a call gives for the bytes that have been decompressed and the rest of the buffer: the bytes behind the result are unchanged.
\<close>

definition dec_result :: "bytes \<Rightarrow> bytes \<Rightarrow> lzf_errno + bytes \<Rightarrow> (bytes \<times> (lzf_errno + nat)) option \<Rightarrow> bool" where
  "dec_result acc t spec res \<longleftrightarrow>
     (case spec of
        Inl err \<Rightarrow> \<exists>ob'. length ob' = length acc + length t \<and> res = Some (ob', Inl err)
      | Inr out \<Rightarrow> length acc \<le> length out \<and> length out \<le> length acc + length t \<and>
          res = Some (out @ drop (length out - length acc) t, Inr (length out)))"

lemma dec_result_err: "dec_result acc t (Inl err) (Some (acc @ t, Inl err))"
  by (auto simp: dec_result_def)

lemma dec_result_grow: "dec_result (acc @ new) (drop (length new) t) spec res \<Longrightarrow> length new \<le> length t \<Longrightarrow> dec_result acc t spec res"
  by (auto simp: dec_result_def split: sum.splits)

lemma lz_copy_append: "\<exists>new. lz_copy back n acc = acc @ new \<and> length new = n"
proof (induction n arbitrary: acc)
  case (Suc n)
  from this [of "acc @ [acc ! (length acc - back)]"] show ?case by auto
qed simp

lemma decompress_loop_eq: "dec_result acc t (lz_dec (length acc + length t) (drop ip ib) acc) (decompress_loop ib ip (acc @ t) (length acc))"
proof (induction "length ib - ip" arbitrary: ip acc t rule: less_induct)
  case less
  show ?case
  proof (cases "ip < length ib")
    case False
    then show ?thesis by (simp add: decompress_loop.simps dec_result_def)
  next
    case True
    define c where "c = ib ! ip"
    define r where "r = drop (ip + 1) ib"
    have d: "drop ip ib = c # r" using True by (simp add: c_def r_def Cons_nth_drop_Suc)
    have g: "lz_get ib ip = Some c" using True by (simp add: lz_get_nth c_def)
    have lr: "length r = length ib - (ip + 1)" by (simp add: r_def)
    show ?thesis
    proof (cases "unat c < 32")
      case lit: True
      define n where "n = unat c + 1"
      consider "length t < n" | "n \<le> length t" "length r < n" | "n \<le> length t" "n \<le> length r" by linarith
      then show ?thesis
      proof cases
        case 2
        have "length ib < ip + 1 + (unat c + 1)" using 2(2) lr True by (simp add: n_def)
        then show ?thesis using 2 True g lit d dec_result_err by (simp add: decompress_loop.simps [of ib ip] lz_dec.simps Let_def n_def)
      next
        case 3
        have len: "length (take n r) = n" "ip + 1 + n \<le> length ib" using 3 lr True by auto
        have rc: "run_copy n ib (ip + 1) (acc @ t) (length acc) = Some ((acc @ take n r) @ drop n t)" using run_copy_eq [OF len(2) 3(1)] by (simp add: r_def)
        have "decompress_loop ib ip (acc @ t) (length acc) = decompress_loop ib (ip + 1 + n) ((acc @ take n r) @ drop n t) (length (acc @ take n r))"
          using True g lit 3 len rc by (subst decompress_loop.simps) (simp add: n_def Let_def)
        moreover have "lz_dec (length acc + length t) (drop ip ib) acc = lz_dec (length (acc @ take n r) + length (drop n t)) (drop (ip + 1 + n) ib) (acc @ take n r)"
        proof -
          have l: "length (acc @ take n r) + length (drop n t) = length acc + length t" using 3(1) len(1) by simp
          have "lz_dec (length acc + length t) (c # r) acc = lz_dec (length acc + length t) (drop n r) (acc @ take n r)"
            using lit 3 by (subst lz_dec.simps) (simp add: n_def)
          then show ?thesis unfolding l d by (simp add: r_def add.commute)
        qed
        moreover note less [of "ip + 1 + n" "acc @ take n r" "drop n t"]
        ultimately show ?thesis using dec_result_grow [of acc "take n r" t] 3(1) len True by simp
      qed (use True g lit d lr dec_result_err in \<open>simp_all add: decompress_loop.simps [of ib ip] lz_dec.simps Let_def n_def\<close>)
    next
      case False
      note gr = get_ref_eq [of ib "ip + 1" "unat c", folded r_def]
      show ?thesis
      proof (cases "lz_ref (unat c) r")
        case None
        then show ?thesis using True g False d gr dec_result_err by (simp add: decompress_loop.simps [of ib ip] lz_dec.simps Let_def)
      next
        case (Some x)
        obtain len dist r' where x: "x = (len, dist, r')" by (cases x)
        define ip' where "ip' = length ib - length r'"
        have r': "r' = drop ip' ib" "ip < ip'" "0 < dist"
          using lz_ref_drop [OF Some [unfolded x]] lr True by (auto simp: ip'_def r_def)
        consider "length t < len + 2" | "len + 2 \<le> length t" "length acc < dist" | "len + 2 \<le> length t" "dist \<le> length acc" by linarith
        then show ?thesis
        proof cases
          case 3
          obtain new where new: "lz_copy dist (len + 2) acc = acc @ new" "length new = len + 2" using lz_copy_append by blast
          have "decompress_loop ib ip (acc @ t) (length acc) = decompress_loop ib ip' ((acc @ new) @ drop (len + 2) t) (length (acc @ new))"
            using True g False 3 gr Some x back_copy_eq [OF r'(3) 3(2,1)] new by (subst decompress_loop.simps) (simp add: ip'_def Let_def)
          moreover have "lz_dec (length acc + length t) (drop ip ib) acc = lz_dec (length (acc @ new) + length (drop (len + 2) t)) (drop ip' ib) (acc @ new)"
          proof -
            have l: "length (acc @ new) + length (drop (len + 2) t) = length acc + length t" using 3(1) new(2) by simp
            show ?thesis using False 3 new Some x r'(1) unfolding d l by (subst lz_dec.simps) simp
          qed
          moreover note less [of ip' "acc @ new" "drop (len + 2) t"]
          ultimately show ?thesis using dec_result_grow [of acc new t] 3(1) new(2) True r'(2) by simp
        qed (use True g False d gr Some x dec_result_err in \<open>simp_all add: decompress_loop.simps [of ib ip] lz_dec.simps Let_def\<close>)
      qed
    qed
  qed
qed

section \<open>Safety\<close>

lemma lzf_decompress_eq: "dec_result [] ob (lz_dec (length ob) ib []) (lzf_decompress ib ob)"
  using decompress_loop_eq [of "[]" ob 0 ib] by (simp add: lzf_decompress_def)

text \<open>
  (C12) Decompression of any bytes is safe. For every input and every output buffer the loop ends, reads only inside of the input and
  of what it has written, writes only inside of the output buffer, and returns either an error or at most the size of the buffer; then the result is what
  the format says, and the bytes behind it are unchanged. A back reference is copied octet by octet or with \<^verbatim>\<open>memcpy\<close>, with the same result.
\<close>

theorem lzf_decompress_safe:
  "case lz_dec (length ob) ib [] of
     Inl err \<Rightarrow> \<exists>ob'. lzf_decompress ib ob = Some (ob', Inl err) \<and> length ob' = length ob
   | Inr out \<Rightarrow> length out \<le> length ob \<and> lzf_decompress ib ob = Some (out @ drop (length out) ob, Inr (length out))"
  using lzf_decompress_eq [of ob ib] by (auto simp: dec_result_def split: sum.splits)

end
