(* ===== verification/Lzf_Comp.thy ===== *)
theory Lzf_Comp
  imports Lzf_Dec
begin

text \<open>
  What compression writes, in the words of decompression: at every moment the bytes before the open run of literals decompress to the input before it. The contents of
  the hash table do not matter, since a match is compared with the input.
\<close>

section \<open>Tokens\<close>

lemma unat_byte: "n < 256 \<Longrightarrow> unat (word_of_nat n :: byte) = n"
  by (simp add: unat_of_nat)

lemma lz_dec_lit:
  assumes "0 < n" "n \<le> 32" "length xs = n" "length acc + n \<le> lim"
  shows "lz_dec lim (word_of_int (int n - 1) # xs @ rest) acc = lz_dec lim rest (acc @ xs)"
proof -
  have e: "int n - 1 = int (n - 1)" and l: "n - 1 < 256" using assms(1,2) by simp_all
  have "(word_of_int (int n - 1) :: byte) = word_of_nat (n - 1)" unfolding e by simp
  then have "unat (word_of_int (int n - 1) :: byte) = n - 1" using unat_byte [OF l] by (simp only:)
  moreover have "n - 1 < 32" using assms(1,2) by simp
  ultimately show ?thesis using assms by (simp add: lz_dec.simps)
qed

definition ref_bytes :: "nat \<Rightarrow> nat \<Rightarrow> bytes" where
  "ref_bytes off len =
     (if len < 7 then [word_of_nat (off div 256 + len * 32), word_of_nat off]
      else [word_of_nat (off div 256 + 7 * 32), word_of_nat (len - 7), word_of_nat off])"

lemma lz_dec_ref:
  assumes "off < 8192" "0 < len" "len \<le> 262" "off + 1 \<le> length acc" "length acc + (len + 2) \<le> lim"
  shows "lz_dec lim (ref_bytes off len @ rest) acc = lz_dec lim rest (lz_copy (off + 1) (len + 2) acc)"
proof -
  define hi where "hi = off div 256"
  have hi: "hi < 32" "hi * 256 + off mod 256 = off" using assms(1) by (simp_all add: hi_def)
  have lo: "unat (word_of_nat off :: byte) = off mod 256" by (simp add: unat_of_nat)
  show ?thesis
  proof (cases "len < 7")
    case True
    have c: "unat (word_of_nat (hi + len * 32) :: byte) = hi + len * 32" by (rule unat_byte) (use True hi in linarith)
    have "(hi + len * 32) div 32 = len" "(hi + len * 32) mod 32 = hi" using hi(1) by simp_all
    then have r: "lz_ref (hi + len * 32) (word_of_nat off # rest) = Some (len, off + 1, rest)" using True hi lo by simp
    have "\<not> hi + len * 32 < 32" using assms(2) by simp
    then show ?thesis using True r c assms by (simp add: ref_bytes_def lz_dec.simps flip: hi_def)
  next
    case False
    have c: "unat (word_of_nat (hi + 7 * 32) :: byte) = hi + 224" using unat_byte [of "hi + 224"] hi by simp
    have l: "unat (word_of_nat (len - 7) :: byte) = len - 7" by (rule unat_byte) (use assms(3) in linarith)
    have "(hi + 224) div 32 = 7" "(hi + 224) mod 32 = hi" using hi(1) mod_mult_self1 [of hi 7 32] div_mult_self1 [of 32 hi 7] by simp_all
    then have r: "lz_ref (hi + 224) (word_of_nat (len - 7) # word_of_nat off # rest) = Some (len, off + 1, rest)" using False hi lo l by simp
    then show ?thesis using False c assms by (simp add: ref_bytes_def lz_dec.simps flip: hi_def)
  qed
qed

lemma lz_copy_match:
  assumes "\<forall>k<n. ib ! (r + k) = ib ! (ip + k)" "r < ip" "ip + n \<le> length ib"
  shows "lz_copy (ip - r) n (take ip ib) = take (ip + n) ib"
  using assms
proof (induction n arbitrary: r ip)
  case (Suc n)
  have "take ip ib ! (length (take ip ib) - (ip - r)) = ib ! ip" using Suc.prems(2,3) Suc.prems(1)[rule_format, of 0] by simp
  then have "take ip ib @ [take ip ib ! (length (take ip ib) - (ip - r))] = take (ip + 1) ib" using Suc.prems(3) by (simp add: take_Suc_conv_app_nth)
  moreover have "lz_copy (ip + 1 - (r + 1)) n (take (ip + 1) ib) = take (ip + 1 + n) ib"
    by (rule Suc.IH) (use Suc.prems in \<open>auto dest: spec [of _ "Suc _"]\<close>)
  ultimately show ?case by simp
qed simp

section \<open>Matches\<close>

text \<open>The index is inside of the hash table.\<close>

lemma IDX_less: "unat (IDX h) < 2 ^ 16"
proof -
  have "IDX h = take_bit 16 (drop_bit 8 h - h * 5)" by (simp add: IDX_def take_bit_eq_mask mask_eq_exp_minus_1)
  then show ?thesis using take_bit_nat_less_exp [of 16] by (simp add: unsigned_take_bit_eq)
qed

text \<open>The memory of the process begins behind the largest distance, and the input fits in it.\<close>

definition addr_ok :: "int \<Rightarrow> bytes \<Rightarrow> bool" where
  "addr_ok in_data ib \<longleftrightarrow> 8192 \<le> in_data \<and> in_data + int (length ib) < 2 ^ 64"

abbreviation same_from :: "bytes \<Rightarrow> nat \<Rightarrow> nat \<Rightarrow> nat \<Rightarrow> bool" where
  "same_from ib r ip n \<equiv> \<forall>k<n. ib ! (r + k) = ib ! (ip + k)"

lemma ref_in_range:
  assumes a: "addr_ok in_data ib" and ip: "ip < length ib" and ref: "0 \<le> ref" "ref < 2 ^ 64"
    and o: "ref_off in_data ip ref < MAX_OFF" and g: "ref > in_data"
  shows "0 < nat (ref - in_data)" "nat (ref - in_data) < ip" "ref_off in_data ip ref = int (ip - nat (ref - in_data) - 1)"
proof -
  define x where "x = in_data + int ip - ref - 1"
  have o': "x mod 2 ^ 64 < 8192" using o by (simp add: ref_off_def MAX_OFF_def x_def)
  have x: "x < 2 ^ 64" "- (2 ^ 64) + 8192 \<le> x" using a ip ref by (auto simp: x_def addr_ok_def)
  have "0 \<le> x"
  proof (rule ccontr)
    assume "\<not> 0 \<le> x"
    then have "x mod 2 ^ 64 = x + 2 ^ 64" using x(2) mod_pos_pos_trivial [of "x + 2 ^ 64" "2 ^ 64"] by simp
    then show False using o' x(2) by linarith
  qed
  then show "0 < nat (ref - in_data)" "nat (ref - in_data) < ip" using g by (auto simp: x_def)
  have "x mod 2 ^ 64 = x" using \<open>0 \<le> x\<close> x(1) by simp
  then show "ref_off in_data ip ref = int (ip - nat (ref - in_data) - 1)" using g \<open>0 \<le> x\<close> by (simp add: ref_off_def x_def)
qed

lemma is_match_ok:
  assumes a: "addr_ok in_data ib" and ip: "ip + 2 < length ib" and ref: "0 \<le> ref" "ref < 2 ^ 64"
  obtains m where "is_match in_data ib ip ref = Some m"
    "m \<Longrightarrow> 0 < nat (ref - in_data) \<and> nat (ref - in_data) < ip \<and> ref_off in_data ip ref = int (ip - nat (ref - in_data) - 1) \<and>
      ref_off in_data ip ref < 8192 \<and> same_from ib (nat (ref - in_data)) ip 3"
proof (cases "ref_off in_data ip ref < MAX_OFF \<and> ref > in_data")
  case False
  then show thesis using that [of False] by (simp add: is_match_def)
next
  case True
  define r where "r = nat (ref - in_data)"
  have r: "0 < r" "r < ip" "ref_off in_data ip ref = int (ip - r - 1)" using ref_in_range [OF a _ ref] True ip by (auto simp: r_def)
  then have "is_match in_data ib ip ref = Some (ib ! (r + 2) = ib ! (ip + 2) \<and> ib ! r = ib ! ip \<and> ib ! (r + 1) = ib ! (ip + 1))"
    using True ip by (simp add: is_match_def lz_get_nth Let_def flip: r_def)
  moreover have "same_from ib r ip 3" if "ib ! (r + 2) = ib ! (ip + 2)" "ib ! r = ib ! ip" "ib ! (r + 1) = ib ! (ip + 1)"
    using that by (auto simp: numeral_3_eq_3 less_Suc_eq)
  ultimately show thesis using that r True by (auto simp: r_def MAX_OFF_def)
qed

lemma same_from_Suc: "same_from ib r ip (n + 1) \<longleftrightarrow> same_from ib r ip n \<and> ib ! (r + n) = ib ! (ip + n)"
  by (auto simp: less_Suc_eq)

lemma unrolled_ok:
  assumes "r < ip" "ip + len + k < length ib" "same_from ib r ip (len + 1)"
  obtains n b where "unrolled k ib r ip len = Some (n, b)" "len \<le> n" "n \<le> len + k" "b \<longrightarrow> len < n \<and> same_from ib r ip n" "\<not> b \<longrightarrow> n = len + k \<and> same_from ib r ip (n + 1)"
  using assms
proof (induction k arbitrary: len thesis)
  case 0
  then show ?case using 0(1) [of len False] by simp
next
  case (Suc k)
  have g: "lz_get ib (r + (len + 1)) = Some (ib ! (r + (len + 1)))" "lz_get ib (ip + (len + 1)) = Some (ib ! (ip + (len + 1)))"
    using Suc.prems by (simp_all add: lz_get_nth)
  show ?case
  proof (cases "ib ! (r + (len + 1)) = ib ! (ip + (len + 1))")
    case False
    then show ?thesis using Suc.prems(1) [of "len + 1" True] g Suc.prems by simp
  next
    case True
    have "same_from ib r ip (len + 1 + 1)" using True Suc.prems(4) same_from_Suc by blast
    from Suc.IH [OF _ Suc.prems(2) _ this] obtain n b where
      "unrolled k ib r ip (len + 1) = Some (n, b)" "len + 1 \<le> n" "n \<le> len + 1 + k" "b \<longrightarrow> len + 1 < n \<and> same_from ib r ip n" "\<not> b \<longrightarrow> n = len + 1 + k \<and> same_from ib r ip (n + 1)"
      using Suc.prems(3) by auto
    then show ?thesis using Suc.prems(1) [of n b] g True by simp
  qed
qed

lemma extend_loop_ok:
  assumes "r < ip" "ip + max (len + 1) maxlen \<le> length ib" "same_from ib r ip (len + 1)"
  obtains n where "extend_loop ib r ip maxlen len = Some n" "len + 1 \<le> n" "n \<le> max (len + 1) maxlen" "same_from ib r ip n"
  using assms
proof (induction ib r ip maxlen len arbitrary: thesis rule: extend_loop.induct)
  case (1 ib r ip maxlen len)
  show ?case
  proof (cases "len + 1 < maxlen")
    case False
    then show ?thesis using 1(2) [of "len + 1"] 1(5) by (simp add: extend_loop.simps)
  next
    case True
    have g: "lz_get ib (r + (len + 1)) = Some (ib ! (r + (len + 1)))" "lz_get ib (ip + (len + 1)) = Some (ib ! (ip + (len + 1)))"
      using 1(3,4) True by (simp_all add: lz_get_nth)
    show ?thesis
    proof (cases "ib ! (r + (len + 1)) = ib ! (ip + (len + 1))")
      case False
      then show ?thesis using 1(2) [of "len + 1"] 1(5) True g by (simp add: extend_loop.simps)
    next
      case eq: True
      have "same_from ib r ip (len + 1 + 1)" using eq 1(5) same_from_Suc by blast
      from "1.IH" [OF True g eq _ 1(3) _ this] obtain n where
        "extend_loop ib r ip maxlen (len + 1) = Some n" "len + 2 \<le> n" "n \<le> max (len + 2) maxlen" "same_from ib r ip n"
        using 1(4) True by auto
      then show ?thesis using 1(2) [of n] True g eq by (simp add: extend_loop.simps [of ib r ip maxlen len])
    qed
  qed
qed

lemma match_len_ok:
  assumes r: "r < ip" and ip: "ip + 2 < length ib" and s: "same_from ib r ip 3"
    and m: "maxlen = (if length ib - ip - 2 > MAX_REF then MAX_REF else length ib - ip - 2)"
  obtains n where "match_len ib r ip maxlen = Some n" "3 \<le> n" "n \<le> 264" "ip + n \<le> length ib" "same_from ib r ip n"
proof (cases "maxlen > 16")
  case False
  have "ip + max (2 + 1) maxlen \<le> length ib" "same_from ib r ip (2 + 1)" using ip m s by auto
  from extend_loop_ok [OF r this] obtain n where
    "extend_loop ib r ip maxlen 2 = Some n" "3 \<le> n" "n \<le> max 3 maxlen" "same_from ib r ip n" by auto
  moreover have "max 3 maxlen \<le> 264" "ip + max 3 maxlen \<le> length ib" using False ip m by auto
  ultimately show thesis using that [of n] False by (simp add: match_len_def)
next
  case True
  have l: "ip + 2 + 16 < length ib" "maxlen \<le> 264" "ip + maxlen + 2 \<le> length ib" using True m by (auto simp: MAX_REF_def split: if_splits)
  have "same_from ib r ip (2 + 1)" using s by simp
  from unrolled_ok [OF r l(1) this] obtain n b where
    u: "unrolled 16 ib r ip 2 = Some (n, b)" "2 \<le> n" "n \<le> 18" "b \<longrightarrow> 2 < n \<and> same_from ib r ip n" "\<not> b \<longrightarrow> n = 18 \<and> same_from ib r ip (n + 1)" by auto
  show thesis
  proof (cases b)
    case b: True
    then show thesis using that [of n] u True l by (simp add: match_len_def)
  next
    case False
    have "ip + max (n + 1) maxlen \<le> length ib" using u(5) False l by simp
    from extend_loop_ok [OF r this] u(5) False obtain q where
      "extend_loop ib r ip maxlen n = Some q" "n + 1 \<le> q" "q \<le> max (n + 1) maxlen" "same_from ib r ip q" by metis
    then show thesis using that [of q] u False True l by (simp add: match_len_def)
  qed
qed

end
