(* ===== verification/Lzf_Inv.thy ===== *)
theory Lzf_Inv
  imports Lzf_Comp
begin

text \<open>The invariant of compression through literals, matches and the end of the input.\<close>

section \<open>Invariant\<close>

text \<open>The first bytes of the buffer are complete, and decompress to the first bytes of the input, whatever follows.\<close>

definition flushed :: "nat \<Rightarrow> bytes \<Rightarrow> bytes \<Rightarrow> nat \<Rightarrow> nat \<Rightarrow> bool" where
  "flushed lim ib buf o' n \<longleftrightarrow> (\<forall>rest. lz_dec lim (take o' buf @ rest) [] = lz_dec lim rest (take n ib))"

definition lz_inv :: "nat \<Rightarrow> bytes \<Rightarrow> nat \<Rightarrow> lzf \<Rightarrow> bool" where
  "lz_inv lim ib out_len s \<longleftrightarrow>
     length (lz_buf s) = out_len \<and> lz_lit s < 32 \<and> lz_lit s \<le> lz_ip s \<and> lz_ip s \<le> length ib \<and> lz_lit s + 1 \<le> lz_op s \<and>
     (0 < lz_lit s \<longrightarrow> lz_op s \<le> out_len) \<and>
     take (lz_lit s) (drop (lz_op s - lz_lit s) (lz_buf s)) = take (lz_lit s) (drop (lz_ip s - lz_lit s) ib) \<and>
     flushed lim ib (lz_buf s) (lz_op s - lz_lit s - 1) (lz_ip s - lz_lit s)"

text \<open>The end of a run.\<close>

lemma stop_run_ok:
  assumes lim: "length ib \<le> lim" and lit: "lit \<le> 32" "lit \<le> ip" "ip \<le> length ib" "lit + 1 \<le> op" "op \<le> length buf"
    and run: "take lit (drop (op - lit) buf) = take lit (drop (ip - lit) ib)" and f: "flushed lim ib buf (op - lit - 1) (ip - lit)"
  obtains buf' where "stop_run buf op lit = Some buf'" "length buf' = length buf" "flushed lim ib buf' (undo_run op lit) ip"
proof -
  define buf' where "buf' = buf[op - lit - 1 := word_of_int (int lit - 1)]"
  have s: "stop_run buf op lit = Some buf'" using lit by (simp add: stop_run_def lz_put_def buf'_def)
  have "flushed lim ib buf' (undo_run op lit) ip"
  proof (cases "lit = 0")
    case True
    then have "take (op - 1) buf' = take (op - 1) buf" by (simp add: buf'_def)
    then show ?thesis using f True by (simp add: flushed_def undo_run_def)
  next
    case False
    define q where "q = op - lit - 1"
    have q: "op = q + 1 + lit" "q < length buf" using lit False by (auto simp: q_def)
    have run_len: "length (take lit (drop (ip - lit) ib)) = lit" using lit by simp
    have "take op buf' = take q buf @ word_of_int (int lit - 1) # take lit (drop (op - lit) buf)"
      using q lit(5) by (simp add: buf'_def upd_conv_take_nth_drop take_drop [symmetric] min_def take_Cons')
    also have "\<dots> = take q buf @ word_of_int (int lit - 1) # take lit (drop (ip - lit) ib)" using run by simp
    finally have t: "take op buf' = take q buf @ word_of_int (int lit - 1) # take lit (drop (ip - lit) ib)" .
    have "take (ip - lit) ib @ take lit (drop (ip - lit) ib) = take ip ib" using lit by (simp flip: take_add)
    then show ?thesis
      using f False t lz_dec_lit [OF _ lit(1) run_len, of "take (ip - lit) ib" lim] lim lit
      by (simp add: flushed_def undo_run_def q_def)
  qed
  then show thesis using that [OF s] by (simp add: buf'_def)
qed

lemma literal_ok:
  assumes inv: "lz_inv lim ib out_len s" and lim: "length ib \<le> lim" and ip: "lz_ip s < length ib" and op: "lz_op s < out_len"
  obtains s' where "literal ib s = Some s'" "lz_inv lim ib out_len s'" "lz_ip s' = lz_ip s + 1"
    "lz_op s' = lz_op s + (if lz_lit s = 31 then 2 else 1)" "lz_lit s' = (if lz_lit s = 31 then 0 else lz_lit s + 1)"
proof -
  define buf where "buf = (lz_buf s)[lz_op s := ib ! lz_ip s]"
  define lit where "lit = lz_lit s + 1"
  note i = inv [unfolded lz_inv_def]
  have p: "lz_put (lz_buf s) (lz_op s) (ib ! lz_ip s) = Some buf" "length buf = out_len" using i op by (simp_all add: lz_put_def buf_def)
  have run: "take lit (drop (lz_op s + 1 - lit) buf) = take lit (drop (lz_ip s + 1 - lit) ib)"
  proof -
    have "take lit (drop (lz_op s - lz_lit s) buf) = take (lz_lit s) (drop (lz_op s - lz_lit s) (lz_buf s)) @ [ib ! lz_ip s]"
      using i op by (simp add: lit_def buf_def take_Suc_conv_app_nth drop_update_swap)
    also have "\<dots> = take (lz_lit s) (drop (lz_ip s - lz_lit s) ib) @ [ib ! lz_ip s]" using i by simp
    also have "\<dots> = take lit (drop (lz_ip s - lz_lit s) ib)" using i ip by (simp add: lit_def take_Suc_conv_app_nth)
    finally show ?thesis by (simp add: lit_def)
  qed
  have f: "flushed lim ib buf (lz_op s + 1 - lit - 1) (lz_ip s + 1 - lit)"
    using i by (simp add: lit_def buf_def flushed_def)
  have g: "lz_get ib (lz_ip s) = Some (ib ! lz_ip s)" using ip by (rule lz_get_nth)
  show thesis
  proof (cases "lit = 32")
    case True
    from stop_run_ok [OF lim _ _ _ _ _ run f] obtain buf' where
      b: "stop_run buf (lz_op s + 1) lit = Some buf'" "length buf' = length buf" "flushed lim ib buf' (undo_run (lz_op s + 1) lit) (lz_ip s + 1)"
      using True i ip op p(2) by (auto simp: lit_def)
    define s' where "s' = s\<lparr>lz_buf := buf', lz_ip := lz_ip s + 1, lz_op := lz_op s + 1 + 1, lz_lit := 0\<rparr>"
    have "literal ib s = Some s'" using g p b True by (simp add: literal_def MAX_LIT_def s'_def Let_def lit_def)
    moreover have "lz_inv lim ib out_len s'" using b p(2) ip True by (simp add: lz_inv_def s'_def undo_run_def)
    ultimately show thesis using that True by (simp add: s'_def lit_def)
  next
    case False
    define s' where "s' = s\<lparr>lz_buf := buf, lz_ip := lz_ip s + 1, lz_op := lz_op s + 1, lz_lit := lit\<rparr>"
    have "literal ib s = Some s'" using g p False by (simp add: literal_def MAX_LIT_def s'_def Let_def lit_def)
    moreover have "lz_inv lim ib out_len s'" unfolding lz_inv_def using run f i p(2) ip op False by (auto simp: s'_def lit_def)
    ultimately show thesis using that False by (simp add: s'_def lit_def)
  qed
qed

end
