(* ===== verification/Lzf_Round.thy ===== *)
theory Lzf_Round
  imports Lzf_Inv
begin

text \<open>Matches, the loops and the round trip.\<close>

section \<open>Matches\<close>

lemma put_ref_ok:
  assumes "op + 3 \<le> length buf"
  obtains buf' where "put_ref buf op off len = Some (buf', op + length (ref_bytes off len))" "length buf' = length buf"
    "take (op + length (ref_bytes off len)) buf' = take op buf @ ref_bytes off len"
proof (cases "len < 7")
  case True
  have "put_ref buf op off len = Some (buf[op := word_of_nat (off div 256 + len * 32), op + 1 := word_of_nat off], op + 2)"
    using True assms by (simp add: put_ref_def lz_put_def)
  then show thesis using that True assms by (simp add: ref_bytes_def take_Suc_conv_app_nth take_update_swap list_update_beyond numeral_2_eq_2)
next
  case False
  have "put_ref buf op off len = Some (buf[op := word_of_nat (off div 256 + 7 * 32), op + 1 := word_of_nat (len - 7), op + 2 := word_of_nat off], op + 3)"
    using False assms by (simp add: put_ref_def lz_put_def)
  then show thesis using that False assms by (simp add: ref_bytes_def take_Suc_conv_app_nth take_update_swap list_update_beyond numeral_3_eq_3 numeral_2_eq_2)
qed

lemma frst_next:
  "p + 1 < length ib \<Longrightarrow> \<exists>h. FRST ib p = Some h" "p + 2 < length ib \<Longrightarrow> \<exists>h. NEXT v ib p = Some h"
  by (simp_all add: FRST_def NEXT_def lz_get_nth)

lemma match_step_ok:
  assumes inv: "lz_inv lim ib out_len s" and lim: "length ib \<le> lim" and ip: "lz_ip s + 2 < length ib"
    and r: "0 < nat (ref - in_data)" "nat (ref - in_data) < lz_ip s" "ref_off in_data (lz_ip s) ref = int (lz_ip s - nat (ref - in_data) - 1)"
      "ref_off in_data (lz_ip s) ref < 8192" "same_from ib (nat (ref - in_data)) (lz_ip s) 3"
  shows "match_step in_data ib ref s = Some None \<or> (\<exists>s'. match_step in_data ib ref s = Some (Some s') \<and> lz_inv lim ib out_len s')"
proof (cases "lz_op s + 3 + 1 \<ge> length (lz_buf s) \<and> undo_run (lz_op s) (lz_lit s) + 3 + 1 \<ge> length (lz_buf s)")
  case True
  then show ?thesis by (simp add: match_step_def Let_def)
next
  case False
  note i = inv [unfolded lz_inv_def]
  define op1 where "op1 = undo_run (lz_op s) (lz_lit s)"
  define off where "off = nat (ref_off in_data (lz_ip s) ref)"
  have room: "op1 + 4 < out_len" "lz_op s \<le> length (lz_buf s)" using False i by (auto simp: undo_run_def op1_def split: if_splits)
  obtain buf1 where b1: "stop_run (lz_buf s) (lz_op s) (lz_lit s) = Some buf1" "length buf1 = out_len" "flushed lim ib buf1 op1 (lz_ip s)"
    using stop_run_ok [OF lim, of "lz_lit s" "lz_ip s" "lz_op s" "lz_buf s"] i room by (auto simp: op1_def)
  define maxlen where "maxlen = (if length ib - lz_ip s - 2 > MAX_REF then MAX_REF else length ib - lz_ip s - 2)"
  from match_len_ok [OF r(2) ip r(5) maxlen_def] obtain n where
    n: "match_len ib (nat (ref - in_data)) (lz_ip s) maxlen = Some n" "3 \<le> n" "n \<le> 264" "lz_ip s + n \<le> length ib" "same_from ib (nat (ref - in_data)) (lz_ip s) n" .
  define len where "len = n - 2"
  from put_ref_ok [of op1 buf1 off len] room b1(2) obtain buf2 where
    b2: "put_ref buf1 op1 off len = Some (buf2, op1 + length (ref_bytes off len))" "length buf2 = out_len"
    "take (op1 + length (ref_bytes off len)) buf2 = take op1 buf1 @ ref_bytes off len" by auto
  define op2 where "op2 = op1 + length (ref_bytes off len)"
  define ip' where "ip' = lz_ip s + n"
  have nn: "n = len + 2" using n(2) by (simp add: len_def)
  have copy: "lz_copy (off + 1) (len + 2) (take (lz_ip s) ib) = take ip' ib"
  proof -
    have "off = lz_ip s - nat (ref - in_data) - 1" unfolding off_def r(3) by (rule nat_int)
    then have e: "off + 1 = lz_ip s - nat (ref - in_data)" "len + 2 = n" using r(2) n(2) by (simp_all add: len_def)
    show ?thesis unfolding e ip'_def by (rule lz_copy_match [OF n(5) r(2) n(4)])
  qed
  have "lz_dec lim (ref_bytes off len @ rest) (take (lz_ip s) ib) = lz_dec lim rest (take ip' ib)" for rest
    unfolding copy [symmetric] by (rule lz_dec_ref) (use r n ip lim in \<open>auto simp: off_def len_def\<close>)
  then have f: "flushed lim ib buf2 op2 ip'" using b1(3) b2(3) by (simp add: flushed_def op2_def)
  define s1 where "s1 = s\<lparr>lz_buf := buf2, lz_op := op2 + 1, lz_lit := 0\<rparr>"
  have inv': "lz_inv lim ib out_len (s1\<lparr>lz_htab := h, lz_hval := v, lz_ip := ip'\<rparr>)" for h v
    using f b2(2) n(4) by (simp add: lz_inv_def s1_def ip'_def)
  have inv'': "lz_inv lim ib out_len (s1\<lparr>lz_ip := ip'\<rparr>)" using inv' [where h = "lz_htab s1" and v = "lz_hval s1"] by simp
  note unf = match_step_def [of in_data ib ref s, unfolded Let_def, folded maxlen_def op1_def off_def]
  show ?thesis
  proof (cases "ip' + 2 \<ge> length ib")
    case True
    then have "match_step in_data ib ref s = Some (Some (s1\<lparr>lz_ip := ip'\<rparr>))"
      using False b1(1) n(1) b2(1) by (simp add: unf nn s1_def op2_def op1_def ip'_def)
    then show ?thesis using inv'' by blast
  next
    case F: False
    obtain h1 where h1: "FRST ib (lz_ip s + len) = Some h1" using frst_next(1) [of "lz_ip s + len" ib] F by (auto simp: ip'_def nn)
    obtain h2 where h2: "NEXT h1 ib (lz_ip s + len) = Some h2" using frst_next(2) [of "lz_ip s + len" ib] F by (auto simp: ip'_def nn)
    obtain h3 where h3: "NEXT h2 ib (Suc (lz_ip s + len)) = Some h3" using frst_next(2) [of "Suc (lz_ip s + len)" ib] F by (auto simp: ip'_def nn)
    have "\<exists>htab. match_step in_data ib ref s = Some (Some (s1\<lparr>lz_htab := htab, lz_hval := h3, lz_ip := ip'\<rparr>))"
      using False F b1(1) n(1) b2(1) h1 h2 h3 by (simp add: unf nn s1_def op2_def op1_def ip'_def) (rule exI, rule refl)
    then show ?thesis using inv' by blast
  qed
qed

section \<open>The loops\<close>

lemma lz_step_ok:
  assumes inv: "lz_inv lim ib out_len s" and lim: "length ib \<le> lim" and ip: "lz_ip s + 2 < length ib" and a: "addr_ok in_data ib"
  shows "lz_step in_data ib s = Some None \<or> (\<exists>s'. lz_step in_data ib s = Some (Some s') \<and> lz_inv lim ib out_len s')"
proof -
  obtain h where h: "NEXT (lz_hval s) ib (lz_ip s) = Some h" using frst_next(2) [OF ip] by blast
  define ref where "ref = uint (lz_htab s (IDX h))"
  define s1 where "s1 = s\<lparr>lz_hval := h, lz_htab := (lz_htab s)(IDX h := word_of_int (in_data + int (lz_ip s)))\<rparr>"
  have s1: "lz_inv lim ib out_len s1" "lz_ip s1 = lz_ip s" "lz_op s1 = lz_op s" "length (lz_buf s1) = out_len" using inv by (simp_all add: lz_inv_def s1_def)
  have ref: "0 \<le> ref" "ref < 2 ^ 64" using uint_lt2p [of "lz_htab s (IDX h)"] by (simp_all add: ref_def)
  obtain m where m: "is_match in_data ib (lz_ip s) ref = Some m"
    "m \<Longrightarrow> 0 < nat (ref - in_data) \<and> nat (ref - in_data) < lz_ip s \<and> ref_off in_data (lz_ip s) ref = int (lz_ip s - nat (ref - in_data) - 1) \<and>
      ref_off in_data (lz_ip s) ref < 8192 \<and> same_from ib (nat (ref - in_data)) (lz_ip s) 3"
    using is_match_ok [OF a ip ref] by metis
  have unf: "lz_step in_data ib s = (if m then match_step in_data ib ref s1 else if lz_op s1 \<ge> length (lz_buf s1) then Some None else map_option Some (literal ib s1))"
    using h m(1) by (simp add: lz_step_def Let_def ref_def s1_def)
  consider "m" | "\<not> m" "out_len \<le> lz_op s1" | "\<not> m" "lz_op s1 < out_len" by linarith
  then show ?thesis
  proof cases
    case 1
    have "match_step in_data ib ref s1 = Some None \<or> (\<exists>s'. match_step in_data ib ref s1 = Some (Some s') \<and> lz_inv lim ib out_len s')"
      by (rule match_step_ok [OF s1(1) lim], unfold s1(2)) (use ip m(2) [OF 1] in blast)+
    then show ?thesis using 1 by (simp add: unf)
  next
    case 2
    then show ?thesis using s1(4) by (simp add: unf)
  next
    case 3
    from literal_ok [OF s1(1) lim _ 3(2)] ip s1(2) obtain s' where "literal ib s1 = Some s'" "lz_inv lim ib out_len s'" by auto
    then show ?thesis using 3 s1(4) by (simp add: unf)
  qed
qed

lemma lz_loop_ok:
  "lz_inv lim ib out_len s \<Longrightarrow> length ib \<le> lim \<Longrightarrow> addr_ok in_data ib \<Longrightarrow>
   lz_loop in_data ib s = Some None \<or> (\<exists>s'. lz_loop in_data ib s = Some (Some s') \<and> lz_inv lim ib out_len s' \<and> length ib \<le> lz_ip s' + 2)"
proof (induction in_data ib s rule: lz_loop.induct)
  case (1 in_data ib s)
  show ?case
  proof (cases "lz_ip s + 2 < length ib")
    case False
    then show ?thesis using 1(2) by (simp add: lz_loop.simps)
  next
    case True
    from lz_step_ok [OF 1(2,3) True 1(4)] show ?thesis
    proof
      assume "lz_step in_data ib s = Some None"
      then show ?thesis using True by (simp add: lz_loop.simps [of in_data ib s])
    next
      assume "\<exists>s'. lz_step in_data ib s = Some (Some s') \<and> lz_inv lim ib out_len s'"
      then obtain s' where s': "lz_step in_data ib s = Some (Some s')" "lz_inv lim ib out_len s'" by blast
      from "1.IH" [OF True s'(1) refl s'(2) 1(3,4)] show ?thesis using True s'(1) by (simp add: lz_loop.simps [of in_data ib s])
    qed
  qed
qed

text \<open>At most two bytes are left, so that at most one more run is stopped.\<close>

lemma tail_loop_ok:
  assumes "lz_inv lim ib out_len s" "length ib \<le> lim" "length ib \<le> lz_ip s + 2"
    "lz_op s + (length ib - lz_ip s) + (if 32 \<le> lz_lit s + (length ib - lz_ip s) then 1 else 0) \<le> out_len"
  obtains s' where "tail_loop ib s = Some s'" "lz_inv lim ib out_len s'" "lz_ip s' = length ib" "lz_op s' \<le> out_len"
  using assms
proof (induction ib s arbitrary: thesis rule: tail_loop.induct)
  case (1 ib s)
  show ?case
  proof (cases "lz_ip s < length ib")
    case False
    then have "lz_ip s = length ib" using 1(3) by (simp add: lz_inv_def)
    then show ?thesis using 1(2) [of s] 1(3,6) by (simp add: tail_loop.simps)
  next
    case True
    have "lz_op s < out_len" using 1(6) True by (simp split: if_splits)
    from literal_ok [OF 1(3,4) True this] obtain s1 where s1: "literal ib s = Some s1" "lz_inv lim ib out_len s1" "lz_ip s1 = lz_ip s + 1"
      "lz_op s1 = lz_op s + (if lz_lit s = 31 then 2 else 1)" "lz_lit s1 = (if lz_lit s = 31 then 0 else lz_lit s + 1)" .
    have l: "lz_lit s < 32" using 1(3) by (simp add: lz_inv_def)
    have "lz_op s1 + (length ib - lz_ip s1) + (if 32 \<le> lz_lit s1 + (length ib - lz_ip s1) then 1 else 0) \<le> out_len"
      using 1(5,6) True l s1(3-5) by (auto split: if_splits)
    from "1.IH" [OF True s1(1) _ s1(2) 1(4) _ this] obtain s' where
      "tail_loop ib s1 = Some s'" "lz_inv lim ib out_len s'" "lz_ip s' = length ib" "lz_op s' \<le> out_len"
      using 1(5) s1(3) by auto
    then show ?thesis using 1(2) [of s'] True s1(1) by (simp add: tail_loop.simps [of ib s])
  qed
qed

section \<open>Round trip\<close>

lemma compress_ok:
  assumes n: "2 \<le> length ib" and ob: "ob \<noteq> []" and a: "addr_ok in_data ib"
  shows "lzf_compress in_data htab ib ob = Some None \<or>
    (\<exists>buf n. lzf_compress in_data htab ib ob = Some (Some (buf, n)) \<and> length buf = length ob \<and> n \<le> length ob \<and>
      (\<forall>lim \<ge> length ib. lz_dec lim (take n buf) [] = Inr ib))"
proof -
  obtain h where h: "FRST ib 0 = Some h" using frst_next(1) [of 0 ib] n by auto
  define s where "s = \<lparr>lz_htab = htab, lz_hval = h, lz_buf = ob, lz_ip = 0, lz_op = 1, lz_lit = 0\<rparr>"
  have inv: "lz_inv lim ib (length ob) s" for lim by (simp add: lz_inv_def s_def flushed_def)
  have unf: "lzf_compress in_data htab ib ob = lz_loop in_data ib s \<bind> (\<lambda>r. case r of None \<Rightarrow> Some None
      | Some s \<Rightarrow> if lz_op s + 3 > length ob then Some None
          else tail_loop ib s \<bind> (\<lambda>s. stop_run (lz_buf s) (lz_op s) (lz_lit s) \<bind> (\<lambda>buf. Some (Some (buf, undo_run (lz_op s) (lz_lit s))))))"
    using n ob h by (auto simp: lzf_compress_def s_def)
  show ?thesis
  proof (cases "lz_loop in_data ib s = Some None")
    case True
    then show ?thesis by (simp add: unf)
  next
    case False
    then obtain s1 where s1: "lz_loop in_data ib s = Some (Some s1)" "length ib \<le> lz_ip s1 + 2"
      using lz_loop_ok [OF inv le_refl a] by blast
    have inv1: "length ib \<le> lim \<Longrightarrow> lz_inv lim ib (length ob) s1" for lim using lz_loop_ok [OF inv _ a, of lim] s1(1) by auto
    show ?thesis
    proof (cases "lz_op s1 + 3 > length ob")
      case True
      then show ?thesis using s1(1) by (simp add: unf)
    next
      case F: False
      then have room: "lz_op s1 + (length ib - lz_ip s1) + (if 32 \<le> lz_lit s1 + (length ib - lz_ip s1) then 1 else 0) \<le> length ob"
        using s1(2) by (simp, linarith)
      obtain s2 where s2: "tail_loop ib s1 = Some s2" using tail_loop_ok [OF inv1 [OF le_refl] le_refl s1(2) room] by metis
      have fin: "length ib \<le> lim \<Longrightarrow> lz_inv lim ib (length ob) s2 \<and> lz_ip s2 = length ib \<and> lz_op s2 \<le> length ob" for lim
        using tail_loop_ok [OF inv1 _ s1(2) room, of lim] s2 by (metis option.inject)
      have st: "length ib \<le> lim \<Longrightarrow> \<exists>buf. stop_run (lz_buf s2) (lz_op s2) (lz_lit s2) = Some buf \<and> length buf = length ob \<and>
          flushed lim ib buf (undo_run (lz_op s2) (lz_lit s2)) (length ib)" for lim
      proof -
        assume l: "length ib \<le> lim"
        note i = fin [OF l, unfolded lz_inv_def]
        obtain buf where "stop_run (lz_buf s2) (lz_op s2) (lz_lit s2) = Some buf" "length buf = length (lz_buf s2)"
            "flushed lim ib buf (undo_run (lz_op s2) (lz_lit s2)) (lz_ip s2)"
          by (rule stop_run_ok [OF l, of "lz_lit s2" "lz_ip s2" "lz_op s2" "lz_buf s2"]) (use i in auto)
        then show ?thesis using i by auto
      qed
      obtain buf where b: "stop_run (lz_buf s2) (lz_op s2) (lz_lit s2) = Some buf" "length buf = length ob" using st [OF le_refl] by blast
      have "lz_dec lim (take (undo_run (lz_op s2) (lz_lit s2)) buf) [] = Inr ib" if "length ib \<le> lim" for lim
      proof -
        have "flushed lim ib buf (undo_run (lz_op s2) (lz_lit s2)) (length ib)" using st [OF that] b(1) by auto
        then show ?thesis unfolding flushed_def by (metis append_Nil2 lz_dec.simps(1) take_all_iff order_refl)
      qed
      moreover have "undo_run (lz_op s2) (lz_lit s2) \<le> length ob" using fin [OF le_refl] by (auto simp: undo_run_def)
      ultimately show ?thesis using s1(1) F s2 b by (simp add: unf)
    qed
  qed
qed

text \<open>
  (C11) What is compressed decompresses to itself. For every input of at least two bytes, every output buffer, and every contents of the hash
  table, which is not initialised, compression ends and reads and writes only inside of its buffers; it returns 0, or a length with which decompression into a buffer that is
  large enough gives exactly the input.
\<close>

theorem lzf_roundtrip:
  assumes "2 \<le> length ib" and "ob \<noteq> []" and "addr_ok in_data ib" and "length ib \<le> length ob2"
  shows "lzf_compress in_data htab ib ob = Some None \<or>
    (\<exists>buf n. lzf_compress in_data htab ib ob = Some (Some (buf, n)) \<and> length buf = length ob \<and> n \<le> length ob \<and>
      lzf_decompress (take n buf) ob2 = Some (ib @ drop (length ib) ob2, Inr (length ib)))"
proof -
  have "lzf_decompress c ob2 = Some (ib @ drop (length ib) ob2, Inr (length ib))" if "lz_dec (length ob2) c [] = Inr ib" for c
    using lzf_decompress_eq [of ob2 c] that by (simp add: dec_result_def)
  then show ?thesis using compress_ok [OF assms(1-3), of htab] assms(4) by blast
qed

text \<open>An input of one byte is read behind its end: \<^verbatim>\<open>FRST\<close> reads two bytes before the length is compared.\<close>

lemma lzf_compress_one_byte: "ob \<noteq> [] \<Longrightarrow> lzf_compress in_data htab [c] ob = None"
  by (simp add: lzf_compress_def FRST_def lz_get_def)

theorem lzf_roundtrip_witness:
  "lzf_compress 65536 (\<lambda>_. 65537) [5, 5, 5, 5, 5] (replicate 12 0) = Some (Some ([1, 5, 5, 32, 0, 255] @ replicate 6 0, 5)) \<and>
    lzf_decompress [1, 5, 5, 32, 0] (replicate 6 7) = Some ([5, 5, 5, 5, 5, 7], Inr 5)"
proof -
  have c: "lzf_compress 65536 (\<lambda>_. 65537) [5, 5, 5, 5, 5] (replicate 12 0) = Some (Some ([1, 5, 5, 32, 0, 255] @ replicate 6 0, 5))" by code_simp
  have "addr_ok 65536 [5, 5, 5, 5, 5]" by (simp add: addr_ok_def)
  then show ?thesis
    using lzf_roundtrip [of "[5, 5, 5, 5, 5]" "replicate 12 0" 65536 "replicate 6 7" "\<lambda>_. 65537"] c
    by (simp add: numeral_eq_Suc)
qed

end
