(* ===== verification/Spec2Isabelle.thy ===== *)
theory Spec2Isabelle
  imports Intset Kvstore_Props Listpack_Props Glob Adlist_Props Zskiplist_Props Bitops_Find Sds_Split Aof_Restart Aof_Rename Lzf_Round
begin

text \<open>
  A verification library for the data structures of the Redis server in \<^verbatim>\<open>src/redis-stable/src\<close>.

  \<^bold>\<open>The program.\<close> The repository is an application whose C code is a copy of the Redis server. The
  server keeps its data in a few data structures that the rest of the code is built on. Every database
  is a key-value store (\<^verbatim>\<open>kvstore.c\<close>): an array of hash tables (\<^verbatim>\<open>dict.c\<close>), one for each cluster slot, with
  counters and a Fenwick tree (\<^verbatim>\<open>fwtree.c\<close>) over the number of keys of each table. Small values are kept
  in contiguous blobs: sets of integers as sorted arrays (\<^verbatim>\<open>intset.c\<close>), lists, hashes and sorted sets as
  listpacks (\<^verbatim>\<open>listpack.c\<close>). Large sorted sets are skip lists (\<^verbatim>\<open>t_zset.c\<close>). Clients, watchers, pending writes and the tables being rehashed are kept in
  doubly linked lists (\<^verbatim>\<open>adlist.c\<close>). All of them convert numbers to and from strings with \<^verbatim>\<open>util.c\<close>, which
  also has the pattern matching that \<^verbatim>\<open>SCAN\<close>, \<^verbatim>\<open>KEYS\<close> and access control rules use.

  \<^bold>\<open>Conventions.\<close> An access outside an array, a failed assertion and a null or dangling pointer are
  the value \<open>None\<close> of an option; so a theorem that an operation returns \<open>Some\<close> says that it does none of
  these. Buffers are lists of bytes, unsigned C integers are natural numbers or integers with the
  wrap-around written out, or words where the code works on bits. Memory that grows has arbitrary
  contents, given as an argument. Structures are records with the fields of the C structures. Hash
  functions, allocators, random numbers and callbacks are parameters. Loops that are not structural are
  \<open>partial_function (option)\<close>, with a proof that they return, or functions with a termination proof;
  there is no fuel in the models: the only bound is the nesting bound of the pattern matcher, which is
  in the code.

  \<^bold>\<open>The theories.\<close>

  \<^item> \<open>Prelude\<close>: byte lists, \<^verbatim>\<open>memcpy\<close>, \<^verbatim>\<open>memmove\<close>, \<^verbatim>\<open>zrealloc\<close>, little-endian integers, ranges and
    wrap-around. \<open>Set_Interface\<close> and \<open>Map_Interface\<close>: the contracts of a mutable set and of a mutable
    finite map as locales, with the theorem, proved once inside each, that every sequence of operations
    gives the results of the mathematical set or map. They are interpreted on the models of \<^verbatim>\<open>intset.c\<close>
    and \<^verbatim>\<open>dict.c\<close>.

  \<^item> \<open>Intset\<close> (\<^verbatim>\<open>intset.c\<close>): the byte array with its three encodings, search, insertion with upgrade,
    removal and validation of blobs; it refines a set, and the limits of its 32-bit sizes are stated.

  \<^item> \<open>Fwtree\<close> (\<^verbatim>\<open>fwtree.c\<close>): the tree represents an array of counters; updates change one of them, queries
    are prefix sums and the descent finds the counter that encloses a target.

  \<^item> \<open>Dict\<close>, \<open>Dict_Inv\<close>, \<open>Dict_Ops\<close>, \<open>Dict_Scan\<close> (\<^verbatim>\<open>dict.c\<close>): the two tables, incremental rehashing, the resize
    policy, every access, two-phase deletion, clearing, and the stateless scan cursor. The invariant
    relates the tables to a finite map; every operation implements the operation on the map in the
    middle of a rehash or not; a scan returns every key that is present all the time, although the table
    is resized and rehashed between the calls.

  \<^item> \<open>Kvstore\<close>, \<open>Kvstore_Inv\<close>, \<open>Kvstore_Ops\<close>, \<open>Kvstore_Props\<close> (\<^verbatim>\<open>kvstore.c\<close>): the composition of the tables, the
    counters, the Fenwick tree and the list of rehashing tables, whose callbacks keep them in agreement;
    every state that operations on one store reach is well formed, moving a table between stores is shown to
    miscount, and the scan is complete across tables.

  \<^item> \<open>Util\<close> (\<^verbatim>\<open>util.c\<close>): printing and parsing of decimal and hexadecimal numbers and memory sizes, with the
    exact sets of strings that are accepted. \<open>Glob\<close> (\<^verbatim>\<open>util.c\<close>): the backtracking matcher agrees with
    the declarative meaning of a pattern, and what the prefix matcher accepts covers every extension.

  \<^item> \<open>Listpack\<close> (\<^verbatim>\<open>listpack.c\<close>) holds all definitions; \<open>Listpack_Enc\<close> the encodings of one element, \<open>Listpack_Inv\<close> the
    list of elements a blob stands for and the walks over it, \<open>Listpack_Ops\<close> and \<open>Listpack_Edit\<close> insertion,
    replacement and deletion, \<open>Listpack_Range\<close> ranges, batches and merging, \<open>Listpack_Find\<close> searching,
    \<open>Listpack_Validate\<close> the validation of blobs from outside, \<open>Listpack_Props\<close> what clients rely on.

  \<^item> \<open>Adlist\<close>, \<open>Adlist_Inv\<close>, \<open>Adlist_Props\<close> (\<^verbatim>\<open>adlist.c\<close>): the linked list on an explicit heap; it refines a
    sequence, copies are complete or leave nothing behind, and a walk survives the deletion of the node
    it is at.

  \<^item> \<open>Zskiplist\<close> (\<^verbatim>\<open>t_zset.c\<close>) holds the definitions of the skip list of a sorted set, on a heap of nodes with
    their arrays of levels; \<open>Zskiplist_Inv\<close> the walk down the levels and what its spans count, \<open>Zskiplist_Heap\<close>
    updates level by level, \<open>Zskiplist_Ops\<close> the invariant and insertion, \<open>Zskiplist_Edit\<close> deletion and changes of
    scores, \<open>Zskiplist_Rank\<close> ranks, \<open>Zskiplist_Range\<close> ranges, with the locale \<open>zsl_range\<close> for what two bounds have to
    satisfy and its interpretations for scores and for strings, \<open>Zskiplist_Set\<close> the refinement of a set of pairs
    of a score and a string, \<open>Zskiplist_Props\<close> the queries, the deletion of ranges and the release over this set.

  \<^item> \<open>Bitops\<close> (\<^verbatim>\<open>bitops.c\<close>): strings as arrays of bits. \<open>Bitops_Inv\<close> relates the loops to the bits of a string and the
    integers in it, \<open>Bitops_Overflow\<close> the tests for overflow to unbounded integers, \<open>Bitops_Props\<close> shows that \<^verbatim>\<open>BITFIELD\<close>
    executes its subcommands on an infinite sequence of bits and stays inside the string, \<open>Bitops_Find\<close> treats
    single bits and the search for a bit.

  \<^item> \<open>Sds\<close> (\<^verbatim>\<open>sds.c\<close>): dynamic strings with their five header types over blocks of memory whose sizes the allocator chooses.
    \<open>Sds_Inv\<close> has the invariant and the facts on header types, \<open>Sds_Ops\<close> growing, \<open>Sds_Edit\<close> creation and resizing, \<open>Sds_Cut\<close> what
    works in place, \<open>Sds_Props\<close> the refinement of byte sequences. \<open>Sds_Text\<close> has the text functions, \<open>Sds_Args\<close> the parser of quoted arguments on byte
    sequences and its refinement, \<open>Sds_Split\<close> splitting, joining and quoting as inverse operations.

  \<^item> \<open>Aof\<close> (\<^verbatim>\<open>aof.c\<close>): the manifest of the append-only files, its text and its loading, and the transitions of the server that
    change it, with the answers of the operating system as arguments; a failure to write the manifest is before or behind the renaming of
    the file. \<open>Aof_Format\<close> relates lines and their parts, \<open>Aof_Inv\<close> the manifest and its text, \<open>Aof_Ops\<close> and
    \<open>Aof_Props\<close> keep the invariant through every function, \<open>Aof_Server\<close> has the runs of the server with crashes and restarts and shows that
    the manifest on the disk always loads; \<open>Aof_Quote\<close>, \<open>Aof_Rename\<close> and \<open>Aof_Restart\<close> show three cases in which the files do not survive. Reading uses the functions on byte sequences
    that \<open>Sds_Cut\<close> and \<open>Sds_Args\<close> show \<^verbatim>\<open>sdstrim\<close> and \<^verbatim>\<open>sdssplitargs\<close> to compute.

  \<^item> \<open>Lzf\<close> (\<^verbatim>\<open>lzf_c.c\<close>, \<^verbatim>\<open>lzf_d.c\<close>): compression, with a hash table that is not initialised, and decompression. \<open>Lzf_Dec\<close> has the format as a function on lists and shows that
    decompression computes it and is safe for any input; \<open>Lzf_Comp\<close> treats tokens and matches, \<open>Lzf_Inv\<close> the invariant of compression, \<open>Lzf_Round\<close> the
    loops and the round trip.

  \<^bold>\<open>Simplifications.\<close> New skip list nodes have null links, which the code writes a little later; the size of a string is a function of its bytes and the usable size of
  a block one of its address; the hash table of a sorted set is a parameter of the deletion of ranges. The allocator of dynamic strings is a function of
  the size. The counter of empty buckets in \<^verbatim>\<open>dictRehash\<close> and the indices of the Fenwick tree are unbounded, which makes no difference for the sizes in use. \<^verbatim>\<open>lpMerge\<close> of
  a listpack with itself and failures to allocate an iterator are left out. An error of \<^verbatim>\<open>BITFIELD\<close> has no contents of the key. A start of the server with append-only files is
  modelled without the loading of the data, so that a missing file does not stop it.

  \<^bold>\<open>Not modelled.\<close> Of the modelled files: the self tests; of \<^verbatim>\<open>dict.c\<close> the iterators, the sampling
  functions, the entries without values, defragmentation and statistics; of \<^verbatim>\<open>kvstore.c\<close> the functions
  that only pass a call on to those; of \<^verbatim>\<open>listpack.c\<close> sampling and the printing function; of \<^verbatim>\<open>sds.c\<close> the printf-like functions, templates and case conversion; of \<^verbatim>\<open>aof.c\<close> writing and loading the data; of \<^verbatim>\<open>bitops.c\<close> counting, \<^verbatim>\<open>BITOP\<close> and
  the vector instructions; of \<^verbatim>\<open>t_zset.c\<close> the parsing of floating point bounds, sorted sets in listpacks and the commands; of \<^verbatim>\<open>util.c\<close> floating
  point, random numbers, paths and files. Left out as a whole: the networking, event loop, threads,
  replication, cluster, sentinel, dump and configuration code, which is input and output and
  drives these structures; the commands; scripting and modules; the other data structures
  (\<^verbatim>\<open>quicklist.c\<close>, \<^verbatim>\<open>rax.c\<close>, \<^verbatim>\<open>ebuckets.c\<close>, \<^verbatim>\<open>ziplist.c\<close>, \<^verbatim>\<open>hyperloglog.c\<close>); the command line
  tools; the libraries under \<^verbatim>\<open>deps\<close> and \<^verbatim>\<open>modules\<close>; and the application's Python and JavaScript code.
\<close>

end
